(* ===== verification/Prelude.thy ===== *)
theory Prelude
  imports Main "HOL-Library.Word"
begin

text \<open>
  The vocabulary shared by every component of the model.

  \<^item> How a C++ call can end: \<open>'a res\<close> is either a normal result (\<open>Inr\<close>) or the way the
    process stops or stops being defined (\<open>Inl\<close> of a \<open>crash\<close>).
  \<^item> Raw memory obtained from \<open>new T[n]\<close>: a list of cells, each either indeterminate
    (\<open>None\<close>) or holding a value. Reading an indeterminate cell and leaving the bounds
    of the allocation are crashes, so that memory safety is something one proves.
  \<^item> Little-endian byte images of integers, as \<open>memcpy\<close> produces them on x86-64.

  Sizes and indices of containers in memory are \<open>nat\<close> (no allocation reaches \<open>2 ^ 64\<close>
  bytes); values that are hashed, compared at their width or sent over the wire are words.
\<close>

named_theorems writes_rules \<open>what a serialising step appends to the buffer\<close>
named_theorems reads_rules \<open>what a deserialising step consumes and returns\<close>
named_theorems wf_intros \<open>well-formedness is preserved\<close>

section \<open>Results and crashes\<close>

datatype crash =
    Exit int          \<comment> \<open>\<open>exit(n)\<close> after a message on stderr\<close>
  | AssertFail        \<comment> \<open>a failed \<open>assert\<close>\<close>
  | OutOfBounds       \<comment> \<open>an access outside an allocation\<close>
  | Uninitialised     \<comment> \<open>a read of an indeterminate cell\<close>
  | NullDeref         \<comment> \<open>a member access through \<open>nullptr\<close> (or a failed \<open>dynamic_cast\<close>)\<close>
  | DivByZero         \<comment> \<open>\<open>%\<close> or \<open>/\<close> with a zero divisor\<close>
  | UseAfterFree      \<comment> \<open>an access through a pointer whose memory was deleted\<close>
  | NoReturnValue     \<comment> \<open>control flows off the end of a function whose value is used\<close>
  | TrapValue         \<comment> \<open>a byte pattern that is no value of the type it is read at\<close>
  | Overlap           \<comment> \<open>a \<open>memcpy\<close> between ranges that overlap\<close>
  | Overflow          \<comment> \<open>a signed counter runs over\<close>
  | NotOwner          \<comment> \<open>a mutex released, or waited on, by a thread that does not own it\<close>
  | Diverges          \<comment> \<open>a loop that never ends, or a wait that nothing can end\<close>

type_synonym 'a res = "crash + 'a"

definition res_bind :: "'a res \<Rightarrow> ('a \<Rightarrow> 'b res) \<Rightarrow> 'b res" where
  "res_bind m f = (case m of Inl e \<Rightarrow> Inl e | Inr x \<Rightarrow> f x)"

definition res_assert :: "bool \<Rightarrow> unit res" where
  "res_assert b = (if b then Inr () else Inl AssertFail)"

definition is_ok :: "'a res \<Rightarrow> bool" where
  "is_ok m = (case m of Inl _ \<Rightarrow> False | Inr _ \<Rightarrow> True)"

lemma res_bind_simps [simp, code]:
  "res_bind (Inr x) f = f x"
  "res_bind (Inl e) f = Inl e"
  by (simp_all add: res_bind_def)

lemma res_bind_Inr_iff: "res_bind m f = Inr y \<longleftrightarrow> (\<exists>x. m = Inr x \<and> f x = Inr y)"
  by (cases m) auto

lemma res_bind_assoc: "res_bind (res_bind m f) g = res_bind m (\<lambda>x. res_bind (f x) g)"
  by (cases m) auto

lemma res_bind_Inr [simp]: "res_bind m Inr = m"
  by (cases m) auto

lemma res_bind_cong: "m = m' \<Longrightarrow> (\<And>x. m' = Inr x \<Longrightarrow> f x = g x) \<Longrightarrow> res_bind m f = res_bind m' g"
  by (cases m') auto

lemma res_bindE:
  assumes "res_bind m f = Inr y"
  obtains x where "m = Inr x" and "f x = Inr y"
  using assms by (auto simp: res_bind_Inr_iff)

lemma res_assert_simps [simp]:
  "res_assert True = Inr ()"
  "res_assert False = Inl AssertFail"
  "res_assert b = Inr u \<longleftrightarrow> b"
  by (simp_all add: res_assert_def)

lemma is_ok_simps [simp]: "is_ok (Inr x)" "\<not> is_ok (Inl e)"
  by (simp_all add: is_ok_def)

text \<open>A loop whose body may crash: stop at the first crash, thread the state otherwise.\<close>

fun res_fold :: "('a \<Rightarrow> 's \<Rightarrow> 's res) \<Rightarrow> 'a list \<Rightarrow> 's \<Rightarrow> 's res" where
  "res_fold f [] s = Inr s"
| "res_fold f (x # xs) s = res_bind (f x s) (res_fold f xs)"

lemma res_fold_append:
  "res_fold f (xs @ ys) s = res_bind (res_fold f xs s) (res_fold f ys)"
proof (induction xs arbitrary: s)
  case Nil
  then show ?case by simp
next
  case (Cons x xs)
  then show ?case by (cases "f x s") simp_all
qed

lemma res_fold_invariant:
  assumes "res_fold f xs s = Inr t" and "P s"
    and "\<And>x s t. x \<in> set xs \<Longrightarrow> P s \<Longrightarrow> f x s = Inr t \<Longrightarrow> P t"
  shows "P t"
  using assms
proof (induction xs arbitrary: s)
  case Nil
  then show ?case by simp
next
  case (Cons x xs)
  from Cons.prems(1) obtain u where u: "f x s = Inr u" and rest: "res_fold f xs u = Inr t"
    by (auto elim: res_bindE)
  have "P u" using Cons.prems(2,3) u by auto
  with rest show ?case using Cons.prems(3) by (intro Cons.IH) auto
qed

lemma res_fold_cong: "(\<And>x s. x \<in> set xs \<Longrightarrow> f x s = g x s) \<Longrightarrow> res_fold f xs s = res_fold g xs s"
proof (induction xs arbitrary: s)
  case Nil
  then show ?case by simp
next
  case (Cons x xs)
  have "res_fold f xs = res_fold g xs" using Cons by (intro ext) simp
  with Cons.prems show ?case by simp
qed

lemma res_fold_map: "res_fold f (map g xs) s = res_fold (\<lambda>x. f (g x)) xs s"
  by (induction xs arbitrary: s) (auto simp: res_bind_def split: sum.splits)

text \<open>A counting loop and its invariant.\<close>

lemma res_fold_upt:
  assumes "P m s" and "m \<le> n" and "\<And>i s. m \<le> i \<Longrightarrow> i < n \<Longrightarrow> P i s \<Longrightarrow> \<exists>t. f i s = Inr t \<and> P (Suc i) t"
  shows "\<exists>t. res_fold f [m..<n] s = Inr t \<and> P n t"
  using assms
proof (induction "n - m" arbitrary: m s)
  case 0
  then show ?case by simp
next
  case (Suc d)
  then have "m < n" by simp
  then obtain u where u: "f m s = Inr u" "P (Suc m) u" using Suc.prems(1,3) by blast
  have d: "d = n - Suc m" "Suc m \<le> n" using Suc.hyps(2) by simp_all
  have "\<exists>t. f i s = Inr t \<and> P (Suc i) t" if "Suc m \<le> i" "i < n" "P i s" for i s
    using Suc.prems(3) [of i s] that by simp
  then obtain t where "res_fold f [Suc m..<n] u = Inr t" "P n t"
    using Suc.hyps(1) [OF d(1) u(2) d(2)] by blast
  with u(1) \<open>m < n\<close> show ?case by (simp add: upt_conv_Cons del: upt_Suc)
qed

fun res_map :: "('a \<Rightarrow> 'b res) \<Rightarrow> 'a list \<Rightarrow> 'b list res" where
  "res_map f [] = Inr []"
| "res_map f (x # xs) = res_bind (f x) (\<lambda>y. res_bind (res_map f xs) (\<lambda>ys. Inr (y # ys)))"

lemma res_map_total: "(\<And>x. x \<in> set xs \<Longrightarrow> f x = Inr (g x)) \<Longrightarrow> res_map f xs = Inr (map g xs)"
  by (induction xs) auto

section \<open>Raw memory\<close>

type_synonym 'a cells = "'a option list"

definition new_cells :: "nat \<Rightarrow> 'a cells" where
  "new_cells n = replicate n None"

definition cell_load :: "'a cells \<Rightarrow> nat \<Rightarrow> 'a res" where
  "cell_load c i =
     (if i < length c then (case c ! i of None \<Rightarrow> Inl Uninitialised | Some x \<Rightarrow> Inr x)
      else Inl OutOfBounds)"

definition cell_store :: "'a cells \<Rightarrow> nat \<Rightarrow> 'a \<Rightarrow> 'a cells res" where
  "cell_store c i x = (if i < length c then Inr (c[i := Some x]) else Inl OutOfBounds)"

text \<open>\<open>memcpy\<close> out of and into an allocation.\<close>

fun all_some :: "'a cells \<Rightarrow> 'a list res" where
  "all_some [] = Inr []"
| "all_some (None # c) = Inl Uninitialised"
| "all_some (Some x # c) = res_bind (all_some c) (\<lambda>xs. Inr (x # xs))"

definition cells_load :: "'a cells \<Rightarrow> nat \<Rightarrow> nat \<Rightarrow> 'a list res" where
  "cells_load c i n = (if i + n \<le> length c then all_some (take n (drop i c)) else Inl OutOfBounds)"

definition cells_store :: "'a cells \<Rightarrow> nat \<Rightarrow> 'a list \<Rightarrow> 'a cells res" where
  "cells_store c i xs =
     (if i + length xs \<le> length c then Inr (take i c @ map Some xs @ drop (i + length xs) c)
      else Inl OutOfBounds)"

text \<open>\<open>memcpy\<close> out of an array that is initialised throughout.\<close>

definition mem_load :: "'a list \<Rightarrow> nat \<Rightarrow> nat \<Rightarrow> 'a list res" where
  "mem_load xs i n = (if i + n \<le> length xs then Inr (take n (drop i xs)) else Inl OutOfBounds)"

text \<open>The cells \<open>c\<close> start with the initialised values \<open>xs\<close>.\<close>

definition holds :: "'a list \<Rightarrow> 'a cells \<Rightarrow> bool" where
  "holds xs c \<longleftrightarrow> length xs \<le> length c \<and> take (length xs) c = map Some xs"

lemma length_new_cells [simp]: "length (new_cells n) = n"
  by (simp add: new_cells_def)

lemma new_cells_0 [simp]: "new_cells 0 = []"
  by (simp add: new_cells_def)

lemma all_some_map [simp]: "all_some (map Some xs) = Inr xs"
  by (induction xs) auto

lemma holds_Nil [simp]: "holds [] c"
  by (simp add: holds_def)

lemma holds_length: "holds xs c \<Longrightarrow> length xs \<le> length c"
  by (simp add: holds_def)

lemma holds_alt: "holds xs c \<longleftrightarrow> (\<exists>rest. c = map Some xs @ rest)"
proof
  assume h: "holds xs c"
  have "c = take (length xs) c @ drop (length xs) c" by simp
  also have "take (length xs) c = map Some xs" using h by (simp add: holds_def)
  finally show "\<exists>rest. c = map Some xs @ rest" ..
qed (auto simp: holds_def)

lemma holds_map_Some [simp]: "holds xs (map Some xs)"
  by (simp add: holds_def)

lemma holds_append_cells: "holds xs c \<Longrightarrow> holds xs (c @ d)"
  by (auto simp: holds_alt)

lemma holds_prefix: "holds (xs @ ys) c \<Longrightarrow> holds xs c"
  by (auto simp: holds_alt)

lemma holds_take: "holds xs c \<Longrightarrow> n \<le> length xs \<Longrightarrow> take n c = map Some (take n xs)"
  by (auto simp: holds_alt take_map)

lemma cell_load_holds: "holds xs c \<Longrightarrow> i < length xs \<Longrightarrow> cell_load c i = Inr (xs ! i)"
  by (auto simp: holds_alt cell_load_def nth_append)

lemma cells_load_holds:
  assumes "holds xs c" and "i + n \<le> length xs"
  shows "cells_load c i n = Inr (take n (drop i xs))"
proof -
  from assms(1) obtain rest where c: "c = map Some xs @ rest" by (auto simp: holds_alt)
  have "take n (drop i c) = map Some (take n (drop i xs))"
    using assms(2) by (simp add: c drop_map take_map)
  then show ?thesis using assms by (simp add: cells_load_def c)
qed

lemma cell_store_holds:
  assumes "holds xs c" and "i < length xs"
  shows "\<exists>c'. cell_store c i x = Inr c' \<and> holds (xs[i := x]) c' \<and> length c' = length c"
  using assms by (auto simp: holds_alt cell_store_def list_update_append map_update)

lemma cell_store_snoc:
  assumes "holds xs c" and "length xs < length c"
  shows "\<exists>c'. cell_store c (length xs) x = Inr c' \<and> holds (xs @ [x]) c' \<and> length c' = length c"
proof -
  from assms(1) obtain rest where c: "c = map Some xs @ rest" by (auto simp: holds_alt)
  from assms(2) obtain r rs where "rest = r # rs" by (cases rest) (auto simp: c)
  then show ?thesis by (auto simp: c cell_store_def holds_alt list_update_append)
qed

lemma cells_store_append:
  assumes "holds xs c" and "length xs + length ys \<le> length c"
  shows "\<exists>c'. cells_store c (length xs) ys = Inr c' \<and> holds (xs @ ys) c' \<and> length c' = length c"
  using assms by (auto simp: holds_alt cells_store_def)

section \<open>Little-endian images\<close>

abbreviation NUL :: char where
  "NUL \<equiv> CHR 0x00"

text \<open>The \<open>k\<close> low bytes of \<open>n\<close>, least significant first, and their value.\<close>

fun le_bytes :: "nat \<Rightarrow> nat \<Rightarrow> char list" where
  "le_bytes 0 n = []"
| "le_bytes (Suc k) n = char_of n # le_bytes k (n div 256)"

fun of_le_bytes :: "char list \<Rightarrow> nat" where
  "of_le_bytes [] = 0"
| "of_le_bytes (c # cs) = of_char c + 256 * of_le_bytes cs"

lemma length_le_bytes [simp]: "length (le_bytes k n) = k"
  by (induction k arbitrary: n) auto

lemma of_le_bytes_le_bytes: "of_le_bytes (le_bytes k n) = n mod 256 ^ k"
proof (induction k arbitrary: n)
  case 0
  then show ?case by simp
next
  case (Suc k)
  have "of_le_bytes (le_bytes (Suc k) n) = n mod 256 + 256 * (n div 256 mod 256 ^ k)"
    by (simp add: Suc of_char_of)
  also have "\<dots> = n mod (256 * 256 ^ k)"
    by (simp add: mod_mult2_eq)
  finally show ?case by simp
qed

lemma of_le_bytes_bound: "of_le_bytes cs < 256 ^ length cs"
proof (induction cs)
  case Nil
  then show ?case by simp
next
  case (Cons c cs)
  have "(of_char c :: nat) < 256" by (metis mod_less_divisor of_char_mod_256 zero_less_numeral)
  moreover from Cons.IH have "256 * of_le_bytes cs + 256 \<le> 256 * 256 ^ length cs" by linarith
  ultimately have "of_char c + 256 * of_le_bytes cs < 256 * 256 ^ length cs" by linarith
  then show ?case by simp
qed

type_synonym u64 = "64 word"
type_synonym u32 = "32 word"
type_synonym u16 = "16 word"

text \<open>A machine word of \<open>8 * k\<close> bits is recovered from its \<open>k\<close> bytes.\<close>

lemma of_le_bytes_word:
  fixes w :: "'a::len word"
  assumes "LENGTH('a) = 8 * k"
  shows "of_nat (of_le_bytes (le_bytes k (unat w))) = w"
proof -
  have "(256::nat) ^ k = 2 ^ LENGTH('a)"
    by (simp add: assms power_mult)
  then have "unat w mod 256 ^ k = unat w"
    by (metis mod_less unsigned_less)
  then show ?thesis by (simp add: of_le_bytes_le_bytes)
qed

lemma unat_of_nat_small [simp]:
  "n < 2 ^ LENGTH('a) \<Longrightarrow> unat (of_nat n :: 'a::len word) = n"
  by (simp add: unsigned_of_nat take_bit_nat_eq_self)

end
