(* ===== verification/Serial.thy ===== *)
theory Serial
  imports Prelude
begin

text \<open>
  The serializer of \<open>src/serial/serial.h\<close>: a byte buffer that doubles when it is full, a
  count of the bytes written and a read cursor. Writers append the memory image of a
  value, readers copy it back out and advance the cursor.

  The two judgements \<open>writes\<close> and \<open>reads\<close> describe a serialising and a deserialising step
  by the bytes it appends or consumes; they compose along \<open>res_bind\<close>, so that the codec of
  a class follows from the codecs of its fields. The locale \<open>codec\<close> is the contract every
  class with a \<open>serialize\<close>/\<open>deserialize\<close> pair offers to the classes that contain it.
\<close>

section \<open>State and operations\<close>

datatype MsgKind = GetData | Put | ReplyData | WaitAndGet | Register | Dir | Done | Teardown

record Serializer =
  sz_buffer :: "char cells"
  sz_written :: nat
  sz_read :: nat
  sz_capacity :: nat

definition INIT_BUFFER_SIZE :: nat where
  "INIT_BUFFER_SIZE = 1024"

definition Serializer_new :: Serializer where
  "Serializer_new =
     \<lparr>sz_buffer = replicate INIT_BUFFER_SIZE (Some NUL), sz_written = 0, sz_read = 0,
      sz_capacity = INIT_BUFFER_SIZE\<rparr>"

text \<open>\<open>Serializer(size, inp)\<close>: \<open>inp\<close> is the memory the pointer argument gives access to.\<close>

definition Serializer_of :: "nat \<Rightarrow> char list \<Rightarrow> Serializer res" where
  "Serializer_of n inp =
     res_bind (mem_load inp 0 n) (\<lambda>bs.
     Inr \<lparr>sz_buffer = map Some bs, sz_written = n, sz_read = 0, sz_capacity = n\<rparr>)"

definition Serializer_grow :: "Serializer \<Rightarrow> Serializer" where
  "Serializer_grow s =
     (let cap = 2 * sz_capacity s;
          newBuf = take (sz_written s) (sz_buffer s) @ drop (sz_written s) (new_cells cap)
      in s\<lparr>sz_capacity := cap, sz_buffer := newBuf\<rparr>)"

text \<open>The loop of \<open>add_\<close>; it never ends on a buffer of capacity 0.\<close>

partial_function (option) Serializer_make_room :: "nat \<Rightarrow> Serializer \<Rightarrow> Serializer option" where
  "Serializer_make_room n s =
     (if sz_written s + n > sz_capacity s then Serializer_make_room n (Serializer_grow s)
      else Some s)"

definition Serializer_add :: "char list \<Rightarrow> Serializer \<Rightarrow> Serializer res" where
  "Serializer_add d s =
     (case Serializer_make_room (length d) s of
        None \<Rightarrow> Inl Diverges
      | Some s1 \<Rightarrow>
          res_bind (cells_store (sz_buffer s1) (sz_written s1) d) (\<lambda>b.
          Inr (s1\<lparr>sz_buffer := b, sz_written := sz_written s1 + length d\<rparr>)))"

definition Serializer_take :: "nat \<Rightarrow> Serializer \<Rightarrow> (char list \<times> Serializer) res" where
  "Serializer_take n s =
     res_bind (cells_load (sz_buffer s) (sz_read s) n) (\<lambda>bs.
     Inr (bs, s\<lparr>sz_read := sz_read s + n\<rparr>))"

definition Serializer_clear :: "Serializer \<Rightarrow> Serializer" where
  "Serializer_clear s =
     s\<lparr>sz_buffer := replicate (sz_capacity s) (Some NUL), sz_read := 0, sz_written := 0\<rparr>"

subsection \<open>The overloads of \<open>write\<close>\<close>

definition write_size_t :: "u64 \<Rightarrow> Serializer \<Rightarrow> Serializer res" where
  "write_size_t w = Serializer_add (le_bytes 8 (unat w))"

definition write_long :: "u64 \<Rightarrow> Serializer \<Rightarrow> Serializer res" where
  "write_long w = Serializer_add (le_bytes 8 (unat w))"

definition write_double :: "u64 \<Rightarrow> Serializer \<Rightarrow> Serializer res" where
  "write_double d = Serializer_add (le_bytes 8 (unat d))"

definition write_int :: "u32 \<Rightarrow> Serializer \<Rightarrow> Serializer res" where
  "write_int i = Serializer_add (le_bytes 4 (unat i))"

definition write_short :: "u16 \<Rightarrow> Serializer \<Rightarrow> Serializer res" where
  "write_short w = Serializer_add (le_bytes 2 (unat w))"

definition write_bool :: "bool \<Rightarrow> Serializer \<Rightarrow> Serializer res" where
  "write_bool b = Serializer_add [if b then CHR 0x01 else CHR 0x00]"

definition write_char :: "char \<Rightarrow> Serializer \<Rightarrow> Serializer res" where
  "write_char c = Serializer_add [c]"

fun msgkind_char :: "MsgKind \<Rightarrow> char" where
  "msgkind_char GetData = CHR ''0''"
| "msgkind_char Put = CHR ''1''"
| "msgkind_char ReplyData = CHR ''2''"
| "msgkind_char WaitAndGet = CHR ''3''"
| "msgkind_char Register = CHR ''4''"
| "msgkind_char Dir = CHR ''5''"
| "msgkind_char Done = CHR ''6''"
| "msgkind_char Teardown = CHR ''7''"

definition write_msgkind :: "MsgKind \<Rightarrow> Serializer \<Rightarrow> Serializer res" where
  "write_msgkind mk = Serializer_add [msgkind_char mk, NUL]"

text \<open>\<open>strlen\<close>: the distance to the first NUL; running off the array is a crash.\<close>

fun c_strlen :: "char cells \<Rightarrow> nat res" where
  "c_strlen [] = Inl OutOfBounds"
| "c_strlen (None # cs) = Inl Uninitialised"
| "c_strlen (Some c # cs) =
     (if c = NUL then Inr 0 else res_bind (c_strlen cs) (\<lambda>n. Inr (Suc n)))"

definition write_cstr :: "char list \<Rightarrow> Serializer \<Rightarrow> Serializer res" where
  "write_cstr str s =
     res_bind (c_strlen (map Some str)) (\<lambda>lenStr. Serializer_add (take (lenStr + 1) str) s)"

definition write_buf :: "nat \<Rightarrow> char list \<Rightarrow> Serializer \<Rightarrow> Serializer res" where
  "write_buf sz str s =
     (if sz \<le> length str then Serializer_add (take sz str) s else Inl OutOfBounds)"

subsection \<open>The readers\<close>

definition readString :: "Serializer \<Rightarrow> (char list \<times> Serializer) res" where
  "readString s =
     res_bind (c_strlen (drop (sz_read s) (sz_buffer s))) (\<lambda>lenNextStr.
     Serializer_take (lenNextStr + 1) s)"

definition readCharPtr :: "nat \<Rightarrow> Serializer \<Rightarrow> (char list \<times> Serializer) res" where
  "readCharPtr n s = Serializer_take n s"

definition readSizeT :: "Serializer \<Rightarrow> (u64 \<times> Serializer) res" where
  "readSizeT s = res_bind (Serializer_take 8 s) (\<lambda>(bs, s). Inr (of_nat (of_le_bytes bs), s))"

definition readLong :: "Serializer \<Rightarrow> (u64 \<times> Serializer) res" where
  "readLong s = res_bind (Serializer_take 8 s) (\<lambda>(bs, s). Inr (of_nat (of_le_bytes bs), s))"

definition readDouble :: "Serializer \<Rightarrow> (u64 \<times> Serializer) res" where
  "readDouble s = res_bind (Serializer_take 8 s) (\<lambda>(bs, s). Inr (of_nat (of_le_bytes bs), s))"

definition readInt :: "Serializer \<Rightarrow> (u32 \<times> Serializer) res" where
  "readInt s = res_bind (Serializer_take 4 s) (\<lambda>(bs, s). Inr (of_nat (of_le_bytes bs), s))"

definition readShort :: "Serializer \<Rightarrow> (u16 \<times> Serializer) res" where
  "readShort s = res_bind (Serializer_take 2 s) (\<lambda>(bs, s). Inr (of_nat (of_le_bytes bs), s))"

text \<open>A \<open>bool\<close> holds 0 or 1; copying any other byte into one gives no defined value.\<close>

definition readBool :: "Serializer \<Rightarrow> (bool \<times> Serializer) res" where
  "readBool s =
     res_bind (Serializer_take 1 s) (\<lambda>(bs, s).
       if bs = [CHR 0x00] then Inr (False, s)
       else if bs = [CHR 0x01] then Inr (True, s)
       else Inl TrapValue)"

definition readChar :: "Serializer \<Rightarrow> (char \<times> Serializer) res" where
  "readChar s = res_bind (Serializer_take 1 s) (\<lambda>(bs, s). Inr (hd bs, s))"

definition readMsgKind :: "Serializer \<Rightarrow> (MsgKind \<times> Serializer) res" where
  "readMsgKind s =
     res_bind (Serializer_take 2 s) (\<lambda>(b, s).
       if b = [CHR ''0'', NUL] then Inr (GetData, s)
       else if b = [CHR ''1'', NUL] then Inr (Put, s)
       else if b = [CHR ''2'', NUL] then Inr (ReplyData, s)
       else if b = [CHR ''3'', NUL] then Inr (WaitAndGet, s)
       else if b = [CHR ''4'', NUL] then Inr (Register, s)
       else if b = [CHR ''5'', NUL] then Inr (Dir, s)
       else if b = [CHR ''6'', NUL] then Inr (Done, s)
       else if b = [CHR ''7'', NUL] then Inr (Teardown, s)
       else Inr (GetData, s))"

section \<open>The buffer invariant\<close>

definition ser_bytes :: "Serializer \<Rightarrow> char list" where
  "ser_bytes s = map the (take (sz_written s) (sz_buffer s))"

definition ser_inv :: "Serializer \<Rightarrow> bool" where
  "ser_inv s \<longleftrightarrow> length (sz_buffer s) = sz_capacity s \<and> sz_written s \<le> sz_capacity s \<and>
     sz_read s \<le> sz_written s \<and> holds (ser_bytes s) (sz_buffer s)"

definition ser_unread :: "Serializer \<Rightarrow> char list" where
  "ser_unread s = drop (sz_read s) (ser_bytes s)"

definition ser_skip :: "nat \<Rightarrow> Serializer \<Rightarrow> Serializer" where
  "ser_skip n s = s\<lparr>sz_read := sz_read s + n\<rparr>"

lemma ser_inv_length: "ser_inv s \<Longrightarrow> length (ser_bytes s) = sz_written s"
  by (simp add: ser_inv_def ser_bytes_def)

lemma ser_bytes_eqI: "holds bs (sz_buffer s) \<Longrightarrow> length bs = sz_written s \<Longrightarrow> ser_bytes s = bs"
  by (auto simp: ser_bytes_def holds_def comp_def dest: arg_cong [where f = "map the"])

lemma ser_inv_new [simp]: "ser_inv Serializer_new"
  and cap_new [simp]: "0 < sz_capacity Serializer_new"
  and bytes_new [simp]: "ser_bytes Serializer_new = []"
  and read_new [simp]: "sz_read Serializer_new = 0"
  and written_new [simp]: "sz_written Serializer_new = 0"
  by (simp_all add: ser_inv_def Serializer_new_def ser_bytes_def INIT_BUFFER_SIZE_def)

lemma Serializer_of_ok:
  assumes "n \<le> length inp"
  shows "\<exists>s. Serializer_of n inp = Inr s \<and> ser_inv s \<and> ser_unread s = take n inp \<and>
    sz_read s = 0 \<and> sz_written s = n"
  using assms
  by (simp add: Serializer_of_def mem_load_def ser_inv_def ser_unread_def ser_bytes_def)

lemma ser_grow:
  assumes "ser_inv s" and "0 < sz_capacity s"
  shows "ser_inv (Serializer_grow s)" and "ser_bytes (Serializer_grow s) = ser_bytes s"
    and "sz_written (Serializer_grow s) = sz_written s"
    and "sz_read (Serializer_grow s) = sz_read s"
    and "sz_capacity (Serializer_grow s) = 2 * sz_capacity s"
proof -
  have w: "take (sz_written s) (sz_buffer s) = map Some (ser_bytes s)"
    using assms ser_inv_length [OF assms(1)] by (metis holds_def ser_inv_def)
  show b: "ser_bytes (Serializer_grow s) = ser_bytes s"
    using ser_inv_length [OF assms(1)]
    by (intro ser_bytes_eqI) (simp_all add: Serializer_grow_def Let_def w holds_append_cells)
  show "ser_inv (Serializer_grow s)"
    using assms ser_inv_length [OF assms(1)]
    by (simp add: ser_inv_def b) (simp add: Serializer_grow_def Let_def w holds_append_cells)
qed (simp_all add: Serializer_grow_def Let_def)

text \<open>The loop ends as soon as there is something to double.\<close>

lemma make_room_returns:
  assumes "ser_inv s" and "0 < sz_capacity s"
  shows "\<exists>t. Serializer_make_room n s = Some t \<and> ser_inv t \<and> ser_bytes t = ser_bytes s \<and>
    sz_written t = sz_written s \<and> sz_read t = sz_read s \<and>
    sz_written t + n \<le> sz_capacity t \<and> sz_capacity s \<le> sz_capacity t"
  using assms
proof (induction "sz_written s + n - sz_capacity s" arbitrary: s rule: less_induct)
  case less
  show ?case
  proof (cases "sz_written s + n > sz_capacity s")
    case True
    note g = ser_grow [OF less.prems]
    have "\<exists>t. Serializer_make_room n (Serializer_grow s) = Some t \<and> ser_inv t \<and>
      ser_bytes t = ser_bytes (Serializer_grow s) \<and>
      sz_written t = sz_written (Serializer_grow s) \<and> sz_read t = sz_read (Serializer_grow s) \<and>
      sz_written t + n \<le> sz_capacity t \<and> sz_capacity (Serializer_grow s) \<le> sz_capacity t"
      using True less.prems g by (intro less.hyps) auto
    with True g show ?thesis by (auto simp: Serializer_make_room.simps [of n s])
  next
    case False
    with less.prems show ?thesis by (simp add: Serializer_make_room.simps [of n s])
  qed
qed

text \<open>What one \<open>add_\<close> does to a well-formed serializer.\<close>

definition wrote :: "Serializer \<Rightarrow> char list \<Rightarrow> Serializer \<Rightarrow> bool" where
  "wrote s bs t \<longleftrightarrow> ser_inv t \<and> 0 < sz_capacity t \<and> ser_bytes t = ser_bytes s @ bs \<and>
     sz_read t = sz_read s"

lemma add_wrote:
  assumes "ser_inv s" and "0 < sz_capacity s"
  shows "\<exists>t. Serializer_add bs s = Inr t \<and> wrote s bs t"
proof -
  obtain u where u: "Serializer_make_room (length bs) s = Some u" "ser_inv u"
    "ser_bytes u = ser_bytes s" "sz_written u = sz_written s" "sz_read u = sz_read s"
    "sz_written u + length bs \<le> sz_capacity u" "sz_capacity s \<le> sz_capacity u"
    using make_room_returns [OF assms] by blast
  have h: "holds (ser_bytes u) (sz_buffer u)" and l: "length (ser_bytes u) = sz_written u"
    using u(2) ser_inv_length by (auto simp: ser_inv_def)
  obtain c where c: "cells_store (sz_buffer u) (sz_written u) bs = Inr c"
    "holds (ser_bytes u @ bs) c" "length c = length (sz_buffer u)"
    using cells_store_append [OF h, of bs] u(2,6) l by (auto simp: ser_inv_def)
  let ?t = "u\<lparr>sz_buffer := c, sz_written := sz_written u + length bs\<rparr>"
  have b: "ser_bytes ?t = ser_bytes u @ bs"
    by (rule ser_bytes_eqI) (use c l in simp_all)
  have "wrote s bs ?t"
    unfolding wrote_def ser_inv_def b using u c assms(2) by (auto simp: ser_inv_def)
  with u(1) c(1) show ?thesis by (simp add: Serializer_add_def)
qed

section \<open>Writing and reading judgements\<close>

definition writes :: "(Serializer \<Rightarrow> Serializer res) \<Rightarrow> char list \<Rightarrow> bool" where
  "writes f bs \<longleftrightarrow> (\<forall>s. ser_inv s \<longrightarrow> 0 < sz_capacity s \<longrightarrow> (\<exists>t. f s = Inr t \<and> wrote s bs t))"

definition avail :: "Serializer \<Rightarrow> char list \<Rightarrow> bool" where
  "avail s bs \<longleftrightarrow> ser_inv s \<and> (\<exists>rest. ser_unread s = bs @ rest)"

definition reads :: "(Serializer \<Rightarrow> ('a \<times> Serializer) res) \<Rightarrow> char list \<Rightarrow> 'a \<Rightarrow> bool" where
  "reads f bs x \<longleftrightarrow> (\<forall>s. avail s bs \<longrightarrow> f s = Inr (x, ser_skip (length bs) s))"

lemma writesD:
  assumes "writes f bs" and "ser_inv s" and "0 < sz_capacity s"
  obtains t where "f s = Inr t" and "wrote s bs t"
  using assms by (auto simp: writes_def)

lemma readsD: "reads f bs x \<Longrightarrow> avail s bs \<Longrightarrow> f s = Inr (x, ser_skip (length bs) s)"
  by (simp add: reads_def)

lemma writes_add [writes_rules]: "writes (Serializer_add bs) bs"
  by (simp add: writes_def add_wrote)

lemma writes_Inr [writes_rules]: "writes Inr []"
  by (auto simp: writes_def wrote_def)

lemma writes_bind [writes_rules]:
  assumes "writes f as" and "writes g bs"
  shows "writes (\<lambda>s. res_bind (f s) g) (as @ bs)"
  unfolding writes_def
proof (intro allI impI)
  fix s assume s: "ser_inv s" "0 < sz_capacity s"
  obtain t where t: "f s = Inr t" "wrote s as t" using assms(1) s by (rule writesD)
  then obtain u where "g t = Inr u" "wrote t bs u"
    using writesD [OF assms(2), of t] by (auto simp: wrote_def)
  with t show "\<exists>t. res_bind (f s) g = Inr t \<and> wrote s (as @ bs) t"
    by (auto simp: wrote_def)
qed

lemma writes_fold [writes_rules]:
  assumes "\<And>x. x \<in> set xs \<Longrightarrow> writes (f x) (enc x)"
  shows "writes (res_fold f xs) (concat (map enc xs))"
  using assms
proof (induction xs)
  case Nil
  have "res_fold f [] = Inr" by (rule ext) simp
  then show ?case by (simp add: writes_Inr)
next
  case (Cons x xs)
  have "res_fold f (x # xs) = (\<lambda>s. res_bind (f x s) (res_fold f xs))" by (rule ext) simp
  with Cons show ?case by (simp add: writes_bind)
qed

lemma avail_append:
  "avail s (as @ bs) \<longleftrightarrow> avail s as \<and> avail (ser_skip (length as) s) bs"
proof -
  have "ser_unread (ser_skip (length as) s) = drop (length as) (ser_unread s)"
    by (simp add: ser_unread_def ser_skip_def ser_bytes_def add.commute)
  moreover have "ser_inv (ser_skip (length as) s)"
    if "ser_inv s" "ser_unread s = as @ rest" for rest
  proof -
    have "length (ser_unread s) = sz_written s - sz_read s"
      by (simp add: ser_unread_def ser_inv_length [OF that(1)])
    with that have "sz_read s + length as \<le> sz_written s" by (auto simp: ser_inv_def)
    with that(1) show ?thesis by (simp add: ser_inv_def ser_skip_def ser_bytes_def)
  qed
  ultimately show ?thesis by (auto simp: avail_def)
qed

lemma ser_skip_add [simp]: "ser_skip m (ser_skip n s) = ser_skip (n + m) s"
  by (simp add: ser_skip_def)

lemma reads_Inr [reads_rules]: "reads (\<lambda>s. Inr (x, s)) [] x"
  by (simp add: reads_def ser_skip_def)

lemma reads_Inr_eq: "x = y \<Longrightarrow> reads (\<lambda>s. Inr (x, s)) [] y"
  by (simp add: reads_Inr)

lemma reads_bind [reads_rules]:
  assumes "reads f as x" and "reads (g x) bs y"
  shows "reads (\<lambda>s. res_bind (f s) (\<lambda>(x, s). g x s)) (as @ bs) y"
  using assms by (simp add: reads_def avail_append)

text \<open>An object rebuilt from one, two or three fields read in a row.\<close>

lemma reads_mk1:
  assumes "reads f as a" and "y = mk a"
  shows "reads (\<lambda>s. res_bind (f s) (\<lambda>(a, s). Inr (mk a, s))) as y"
  using reads_bind [OF assms(1), of "\<lambda>a s. Inr (mk a, s)" "[]" y] assms(2) by (simp add: reads_Inr_eq)

lemma reads_mk2:
  assumes "reads f as a" and "reads g bs b" and "y = mk a b"
  shows "reads (\<lambda>s. res_bind (f s) (\<lambda>(a, s). res_bind (g s) (\<lambda>(b, s). Inr (mk a b, s)))) (as @ bs) y"
  using assms by (intro reads_bind [OF assms(1)] reads_mk1) simp_all

lemma reads_mk3:
  assumes "reads f as a" and "reads g bs b" and "reads h cs c" and "y = mk a b c"
  shows "reads (\<lambda>s. res_bind (f s) (\<lambda>(a, s). res_bind (g s) (\<lambda>(b, s). res_bind (h s) (\<lambda>(c, s).
    Inr (mk a b c, s))))) (as @ bs @ cs) y"
  using assms by (intro reads_bind [OF assms(1)] reads_mk2) simp_all

lemma reads_take: "length bs = n \<Longrightarrow> reads (Serializer_take n) bs bs"
  unfolding reads_def
proof (intro allI impI)
  fix s assume n: "length bs = n" and "avail s bs"
  then obtain rest where i: "ser_inv s" and u: "ser_unread s = bs @ rest" by (auto simp: avail_def)
  have "length (ser_unread s) = sz_written s - sz_read s"
    by (simp add: ser_unread_def ser_inv_length [OF i])
  then have "sz_read s + n \<le> length (ser_bytes s)"
    using i u n by (auto simp: ser_inv_def ser_inv_length [OF i])
  then have "cells_load (sz_buffer s) (sz_read s) n = Inr (take n (ser_unread s))"
    using i by (simp add: cells_load_holds ser_inv_def ser_unread_def)
  with n u show "Serializer_take n s = Inr (bs, ser_skip (length bs) s)"
    by (simp add: Serializer_take_def ser_skip_def)
qed

text \<open>A value decoded from the bytes just taken.\<close>

lemma reads_take_map:
  assumes "length bs = n" and "\<And>s. f bs s = Inr (x, s)"
  shows "reads (\<lambda>s. res_bind (Serializer_take n s) (\<lambda>(b, s). f b s)) bs x"
  using reads_bind [OF reads_take [OF assms(1)], of f "[]" x] assms(2)
  by (simp add: reads_def ser_skip_def)

subsection \<open>The primitive writers and readers\<close>

definition enc_u64 :: "u64 \<Rightarrow> char list" where "enc_u64 w = le_bytes 8 (unat w)"

definition enc_u32 :: "u32 \<Rightarrow> char list" where "enc_u32 w = le_bytes 4 (unat w)"

definition enc_u16 :: "u16 \<Rightarrow> char list" where "enc_u16 w = le_bytes 2 (unat w)"

definition enc_bool :: "bool \<Rightarrow> char list" where "enc_bool b = [if b then CHR 0x01 else CHR 0x00]"

definition enc_msgkind :: "MsgKind \<Rightarrow> char list" where "enc_msgkind k = [msgkind_char k, NUL]"

definition enc_cstr :: "char list \<Rightarrow> char list" where "enc_cstr cs = cs @ [NUL]"

lemma length_enc [simp]: "length (enc_u64 w) = 8" "length (enc_u32 i) = 4" "length (enc_u16 h) = 2"
  "length (enc_bool b) = 1" "length (enc_msgkind k) = 2" "length (enc_cstr cs) = Suc (length cs)"
  by (simp_all add: enc_u64_def enc_u32_def enc_u16_def enc_bool_def enc_msgkind_def enc_cstr_def)

lemma writes_prims [writes_rules]:
  "writes (write_size_t w) (enc_u64 w)" "writes (write_long w) (enc_u64 w)"
  "writes (write_double w) (enc_u64 w)" "writes (write_int i) (enc_u32 i)"
  "writes (write_short h) (enc_u16 h)" "writes (write_bool b) (enc_bool b)"
  "writes (write_char c) [c]" "writes (write_msgkind k) (enc_msgkind k)"
  by (simp_all add: write_size_t_def write_long_def write_double_def write_int_def write_short_def
      write_bool_def write_char_def write_msgkind_def enc_u64_def enc_u32_def enc_u16_def
      enc_bool_def enc_msgkind_def writes_add)

lemma word_bytes [simp]:
  "of_nat (of_le_bytes (enc_u64 w)) = w" "of_nat (of_le_bytes (enc_u32 i)) = i"
  "of_nat (of_le_bytes (enc_u16 h)) = h"
  unfolding enc_u64_def enc_u32_def enc_u16_def by (rule of_le_bytes_word; simp)+

lemma reads_prims [reads_rules]:
  "reads readSizeT (enc_u64 w) w" "reads readLong (enc_u64 w) w" "reads readDouble (enc_u64 w) w"
  "reads readInt (enc_u32 i) i" "reads readShort (enc_u16 h) h" "reads readBool (enc_bool b) b"
  "reads readChar [c] c" "reads readMsgKind (enc_msgkind k) k"
  unfolding readSizeT_def readLong_def readDouble_def readInt_def readShort_def readBool_def
    readChar_def readMsgKind_def
  by (rule reads_take_map; simp add: enc_bool_def enc_msgkind_def; cases k; simp)+

lemma c_strlen_nul: "NUL \<notin> set cs \<Longrightarrow> c_strlen (map Some cs @ Some NUL # rest) = Inr (length cs)"
  by (induction cs) auto

lemma writes_cstr [writes_rules]:
  assumes "NUL \<notin> set cs"
  shows "writes (write_cstr (cs @ NUL # rest)) (enc_cstr cs)"
proof -
  have "write_cstr (cs @ NUL # rest) = Serializer_add (cs @ [NUL])"
    using c_strlen_nul [OF assms, of "map Some rest"] by (intro ext) (simp add: write_cstr_def)
  then show ?thesis by (simp add: enc_cstr_def writes_add)
qed

lemma writes_buf [writes_rules]: "n \<le> length bs \<Longrightarrow> writes (write_buf n bs) (take n bs)"
proof -
  assume "n \<le> length bs"
  then have "write_buf n bs = Serializer_add (take n bs)" by (intro ext) (simp add: write_buf_def)
  then show ?thesis by (simp add: writes_add)
qed

lemma reads_charptr [reads_rules]: "length bs = n \<Longrightarrow> reads (readCharPtr n) bs bs"
  using reads_take [of bs n] by (simp add: reads_def readCharPtr_def)

lemma reads_string [reads_rules]:
  assumes "NUL \<notin> set cs"
  shows "reads readString (enc_cstr cs) (enc_cstr cs)"
  unfolding reads_def
proof (intro allI impI)
  fix s assume a: "avail s (enc_cstr cs)"
  then obtain rest where i: "ser_inv s" and u: "ser_unread s = cs @ NUL # rest"
    by (auto simp: avail_def enc_cstr_def)
  then obtain tl where "sz_buffer s = map Some (ser_bytes s) @ tl"
    by (auto simp: ser_inv_def holds_alt)
  then have "drop (sz_read s) (sz_buffer s) = map Some (ser_unread s) @ drop (sz_read s - length (ser_bytes s)) tl"
    by (simp add: ser_unread_def drop_map)
  then have "c_strlen (drop (sz_read s) (sz_buffer s)) = Inr (length cs)"
    using c_strlen_nul [OF assms] by (simp add: u)
  then show "readString s = Inr (enc_cstr cs, ser_skip (length (enc_cstr cs)) s)"
    using readsD [OF reads_take a] by (simp add: readString_def)
qed

section \<open>Codecs\<close>

text \<open>Reading \<open>n\<close> elements in a row, as every \<open>deserialize\<close> of a container does.\<close>

fun read_many :: "(Serializer \<Rightarrow> ('a \<times> Serializer) res) \<Rightarrow> nat \<Rightarrow> Serializer \<Rightarrow> ('a list \<times> Serializer) res" where
  "read_many f 0 s = Inr ([], s)"
| "read_many f (Suc n) s =
     res_bind (f s) (\<lambda>(x, s). res_bind (read_many f n s) (\<lambda>(xs, s). Inr (x # xs, s)))"

lemma reads_many [reads_rules]:
  assumes "\<And>x. x \<in> set xs \<Longrightarrow> reads f (enc x) x" and "n = length xs"
  shows "reads (read_many f n) (concat (map enc xs)) xs"
  using assms
proof (induction xs arbitrary: n)
  case Nil
  then show ?case by (simp add: reads_def ser_skip_def)
next
  case (Cons x xs)
  have "reads (read_many f (length xs)) (concat (map enc xs)) xs" using Cons by simp
  from reads_bind [OF this, of "\<lambda>xs s. Inr (x # xs, s)" "[]" "x # xs"]
  have "reads (\<lambda>s. res_bind (read_many f (length xs) s) (\<lambda>(xs, s). Inr (x # xs, s)))
    (concat (map enc xs)) (x # xs)" by (simp add: reads_Inr)
  moreover have "reads f (enc x) x" using Cons.prems(1) by simp
  ultimately show ?case using Cons.prems(2) by (simp add: reads_def avail_append)
qed

text \<open>
  The contract of a serialisable class: \<open>ser\<close> appends the bytes \<open>enc x\<close>, \<open>deser\<close> turns those
  bytes back into \<open>x\<close> and consumes exactly them, for the objects \<open>ok\<close> holds of.
\<close>

locale codec =
  fixes ser :: "'a \<Rightarrow> Serializer \<Rightarrow> Serializer res"
    and deser :: "Serializer \<Rightarrow> ('a \<times> Serializer) res"
    and enc :: "'a \<Rightarrow> char list"
    and ok :: "'a \<Rightarrow> bool"
  assumes ser_writes: "ok x \<Longrightarrow> writes (ser x) (enc x)"
    and deser_reads: "ok x \<Longrightarrow> reads deser (enc x) x"
begin

lemma all_writes: "list_all ok xs \<Longrightarrow> writes (res_fold ser xs) (concat (map enc xs))"
  by (rule writes_fold) (auto simp: list_all_iff intro: ser_writes)

lemma all_reads: "list_all ok xs \<Longrightarrow> reads (read_many deser (length xs)) (concat (map enc xs)) xs"
  by (rule reads_many) (auto simp: list_all_iff intro: deser_reads)

text \<open>Serialise into a fresh serializer, copy its bytes, deserialise from the copy.\<close>

lemma buffer_roundtrip:
  assumes "ok x"
  shows "\<exists>s t u. ser x Serializer_new = Inr s \<and> ser_bytes s = enc x \<and>
    Serializer_of (sz_written s) (ser_bytes s) = Inr t \<and> deser t = Inr (x, u) \<and> ser_unread u = []"
proof -
  obtain s where s: "ser x Serializer_new = Inr s" "wrote Serializer_new (enc x) s"
    using writesD [OF ser_writes [OF assms], of Serializer_new] by auto
  then have b: "ser_bytes s = enc x" and i: "ser_inv s" by (simp_all add: wrote_def)
  obtain t where t: "Serializer_of (sz_written s) (ser_bytes s) = Inr t" "ser_inv t"
    "ser_unread t = enc x" "sz_read t = 0" "sz_written t = sz_written s"
    using Serializer_of_ok [of "sz_written s" "ser_bytes s"] ser_inv_length [OF i] b by auto
  have d: "deser t = Inr (x, ser_skip (length (enc x)) t)"
    using t by (intro readsD [OF deser_reads [OF assms]]) (simp add: avail_def)
  have "length (enc x) = sz_written s"
    using ser_inv_length [OF i] b by simp
  then have "ser_unread (ser_skip (length (enc x)) t) = []"
    using ser_inv_length [OF t(2)] t(5) by (simp add: ser_unread_def ser_skip_def ser_bytes_def)
  with s b t d show ?thesis by blast
qed

end

interpretation size_t_codec: codec write_size_t readSizeT enc_u64 "\<lambda>_. True"
  by unfold_locales (auto intro: writes_rules reads_rules)

interpretation int_codec: codec write_int readInt enc_u32 "\<lambda>_. True"
  by unfold_locales (auto intro: writes_rules reads_rules)

interpretation double_codec: codec write_double readDouble enc_u64 "\<lambda>_. True"
  by unfold_locales (auto intro: writes_rules reads_rules)

interpretation bool_codec: codec write_bool readBool enc_bool "\<lambda>_. True"
  by unfold_locales (auto intro: writes_rules reads_rules)

interpretation char_codec: codec write_char readChar "\<lambda>c. [c]" "\<lambda>_. True"
  by unfold_locales (auto intro: writes_rules reads_rules)

interpretation msgkind_codec: codec write_msgkind readMsgKind enc_msgkind "\<lambda>_. True"
  by unfold_locales (auto intro: writes_rules reads_rules)

text \<open>The bytes of a value, written to a fresh serializer and read by another.\<close>

lemma writes_value:
  assumes "writes f bs"
  shows "\<exists>s. f Serializer_new = Inr s \<and> cells_load (sz_buffer s) 0 (sz_written s) = Inr bs \<and> sz_written s = length bs"
proof -
  obtain s where s: "f Serializer_new = Inr s" "wrote Serializer_new bs s"
    using writesD [OF assms, of Serializer_new] by auto
  then have i: "ser_inv s" "ser_bytes s = bs" by (simp_all add: wrote_def)
  then have "sz_written s = length bs" using ser_inv_length by fastforce
  moreover have "cells_load (sz_buffer s) 0 (length bs) = Inr bs"
    using cells_load_holds [of bs "sz_buffer s" 0 "length bs"] i by (simp add: ser_inv_def)
  ultimately show ?thesis using s(1) by simp
qed

lemma writes_bytes:
  assumes "writes f bs"
  shows "\<exists>s. f Serializer_new = Inr s \<and> ser_bytes s = bs \<and> sz_written s = length bs"
proof -
  obtain s where s: "f Serializer_new = Inr s" "wrote Serializer_new bs s"
    using writesD [OF assms, of Serializer_new] by auto
  then show ?thesis using ser_inv_length [of s] by (auto simp: wrote_def)
qed

lemma reads_value:
  assumes "reads g bs x"
  shows "\<exists>t u. Serializer_of (length bs) bs = Inr t \<and> g t = Inr (x, u)"
proof -
  obtain t where t: "Serializer_of (length bs) bs = Inr t" "ser_inv t" "ser_unread t = bs"
    using Serializer_of_ok [of "length bs" bs] by auto
  then have "g t = Inr (x, ser_skip (length bs) t)"
    by (intro readsD [OF assms]) (simp add: avail_def)
  with t(1) show ?thesis by blast
qed

section \<open>Properties\<close>



lemma make_room_zero:
  assumes "Serializer_make_room n s = Some t"
  shows "\<not> (sz_capacity s = 0 \<and> 0 < n)"
proof (rule Serializer_make_room.raw_induct [where P = "\<lambda>n s t. \<not> (sz_capacity s = 0 \<and> 0 < n)", OF _ assms])
  fix f :: "nat \<Rightarrow> Serializer \<Rightarrow> Serializer option" and n s t
  assume IH: "\<And>n s t. f n s = Some t \<Longrightarrow> \<not> (sz_capacity s = 0 \<and> 0 < n)"
    and body: "(if sz_capacity s < sz_written s + n then f n (Serializer_grow s) else Some s) = Some t"
  show "\<not> (sz_capacity s = 0 \<and> 0 < n)"
  proof
    assume z: "sz_capacity s = 0 \<and> 0 < n"
    then have "f n (Serializer_grow s) = Some t" using body by simp
    from IH [OF this] z show False by (simp add: Serializer_grow_def Let_def)
  qed
qed

text \<open>The condition that the capacity is positive is needed. A serializer over zero bytes (the
  constructor used to read a \<open>Value\<close> of size 0, for instance) has capacity 0, doubling it gives
  0 again, and writing any byte to it never returns.\<close>

theorem Serializer_add_empty_diverges:
  assumes "bs \<noteq> []"
  shows "\<exists>s. Serializer_of 0 inp = Inr s \<and> Serializer_add bs s = Inl Diverges"
proof -
  let ?s = "\<lparr>sz_buffer = [], sz_written = 0, sz_read = 0, sz_capacity = 0\<rparr>"
  have "Serializer_make_room (length bs) ?s = None"
    using make_room_zero [of "length bs" ?s] assms by (cases "Serializer_make_room (length bs) ?s") auto
  then show ?thesis by (simp add: Serializer_of_def mem_load_def Serializer_add_def)
qed

lemma Serializer_add_empty_diverges_witness:
  "\<exists>s. Serializer_of 0 ''abc'' = Inr s \<and> Serializer_add ''x'' s = Inl Diverges"
  by (rule Serializer_add_empty_diverges) simp

end
