(* ===== verification/Strings.thy ===== *)
theory Strings
  imports Serial
begin

text \<open>
  \<open>String\<close> and \<open>StrBuff\<close> of \<open>src/utils/string.h\<close>.

  A \<open>String\<close> is its size field and the bytes of its array, terminator included; the two are
  independent because \<open>deserialize\<close> reads the size and the bytes separately. Comparison goes
  through \<open>strncmp\<close>, which stops at an embedded NUL, and serialisation through \<open>strlen\<close>, so
  the class behaves as a string value exactly on the objects \<open>String_wf\<close> describes.

  A \<open>StrBuff\<close> is the raw array it fills; the bounds of every write are checked, so the
  lemmas show that \<open>grow_by_\<close> always leaves room for the bytes and for the terminator.
\<close>

section \<open>String\<close>

record String =
  str_size :: nat
  str_chars :: "char list"

text \<open>\<open>String(cstr, len)\<close>: copies \<open>len + 1\<close> bytes, then overwrites the last one.\<close>

definition String_make :: "char list \<Rightarrow> nat \<Rightarrow> String res" where
  "String_make cstr len =
     (if len + 1 \<le> length cstr
      then Inr \<lparr>str_size = len, str_chars = (take (len + 1) cstr)[len := NUL]\<rparr>
      else Inl OutOfBounds)"

text \<open>\<open>String(cstr)\<close>: the array up to its first NUL.\<close>

definition String_of_cstr :: "char list \<Rightarrow> String res" where
  "String_of_cstr cstr = res_bind (c_strlen (map Some cstr)) (\<lambda>n. String_make cstr n)"

definition String_copy :: "String \<Rightarrow> String res" where
  "String_copy from =
     res_bind (mem_load (str_chars from) 0 (str_size from + 1)) (\<lambda>cs.
     Inr \<lparr>str_size = str_size from, str_chars = cs\<rparr>)"

definition String_serialize :: "String \<Rightarrow> Serializer \<Rightarrow> Serializer res" where
  "String_serialize x s =
     res_bind (write_size_t (of_nat (str_size x)) s) (\<lambda>s. write_cstr (str_chars x) s)"

definition String_deserialize :: "Serializer \<Rightarrow> (String \<times> Serializer) res" where
  "String_deserialize s =
     res_bind (readSizeT s) (\<lambda>(n, s).
     res_bind (readString s) (\<lambda>(cs, s).
     Inr (\<lparr>str_size = unat n, str_chars = cs\<rparr>, s)))"

definition String_at :: "String \<Rightarrow> nat \<Rightarrow> char res" where
  "String_at x index =
     res_bind (res_assert (index < str_size x)) (\<lambda>_. cell_load (map Some (str_chars x)) index)"

text \<open>\<open>strncmp(a, b, n) == 0\<close> for arrays that hold a NUL or at least \<open>n\<close> bytes.\<close>

fun strncmp_eq :: "nat \<Rightarrow> char list \<Rightarrow> char list \<Rightarrow> bool" where
  "strncmp_eq 0 as bs = True"
| "strncmp_eq (Suc n) [] [] = True"
| "strncmp_eq (Suc n) (a # as) (b # bs) = (a = b \<and> (a = NUL \<or> strncmp_eq n as bs))"
| "strncmp_eq (Suc n) as bs = False"

definition String_equals :: "String \<Rightarrow> String \<Rightarrow> bool" where
  "String_equals x y \<longleftrightarrow>
     str_size x = str_size y \<and> strncmp_eq (str_size x) (str_chars x) (str_chars y)"

text \<open>A \<open>char\<close> is signed on x86-64: it is sign-extended before it enters the sum.\<close>

definition char_to_size_t :: "char \<Rightarrow> u64" where
  "char_to_size_t c =
     (let n = (of_char c :: int) in word_of_int (if n < 128 then n else n - 256))"

definition String_hash_step :: "u64 \<Rightarrow> char \<Rightarrow> u64" where
  "String_hash_step h c = char_to_size_t c + push_bit 6 h + push_bit 16 h - h"

definition String_hash_me :: "String \<Rightarrow> u64" where
  "String_hash_me x = fold (\<lambda>c h. String_hash_step h c) (take (str_size x) (str_chars x)) 0"

section \<open>The value a String stands for\<close>

definition String_wf :: "String \<Rightarrow> bool" where
  "String_wf x \<longleftrightarrow> length (str_chars x) = str_size x + 1 \<and> last (str_chars x) = NUL \<and>
     NUL \<notin> set (butlast (str_chars x)) \<and> str_size x < 2 ^ 64"

definition String_val :: "String \<Rightarrow> char list" where
  "String_val x = take (str_size x) (str_chars x)"

definition String_lit :: "char list \<Rightarrow> String" where
  "String_lit cs = \<lparr>str_size = length cs, str_chars = cs @ [NUL]\<rparr>"

definition cstr_ok :: "char list \<Rightarrow> bool" where
  "cstr_ok cs \<longleftrightarrow> NUL \<notin> set cs \<and> length cs < 2 ^ 64"

lemma String_lit_sel [simp]: "str_size (String_lit cs) = length cs" "str_chars (String_lit cs) = cs @ [NUL]"
  by (simp_all add: String_lit_def)

lemma String_wf_lit [simp]: "String_wf (String_lit cs) \<longleftrightarrow> cstr_ok cs"
  by (auto simp: String_wf_def cstr_ok_def)

lemma String_val_lit [simp]: "String_val (String_lit cs) = cs"
  by (simp add: String_val_def)

lemma String_wf_iff: "String_wf x \<longleftrightarrow> (\<exists>cs. x = String_lit cs \<and> cstr_ok cs)"
proof
  assume w: "String_wf x"
  then have "str_chars x = butlast (str_chars x) @ [NUL]"
    by (metis String_wf_def Suc_eq_plus1 append_butlast_last_id length_0_conv nat.distinct(1))
  with w have "x = String_lit (butlast (str_chars x)) \<and> cstr_ok (butlast (str_chars x))"
    by (cases x) (auto simp: String_lit_def String_wf_def cstr_ok_def)
  then show "\<exists>cs. x = String_lit cs \<and> cstr_ok cs" by blast
qed auto

lemma String_wfE:
  assumes "String_wf x"
  obtains cs where "x = String_lit cs" and "cstr_ok cs"
  using assms by (auto simp: String_wf_iff)

lemma String_lit_inject [simp]: "String_lit a = String_lit b \<longleftrightarrow> a = b"
  by (auto simp: String_lit_def)

lemma strncmp_eq_refl [simp]: "strncmp_eq n as as"
proof (induction n arbitrary: as)
  case 0
  then show ?case by simp
next
  case (Suc n)
  then show ?case by (cases as) simp_all
qed

lemma strncmp_eq_sym: "strncmp_eq n as bs \<Longrightarrow> strncmp_eq n bs as"
  by (induction n as bs rule: strncmp_eq.induct) auto

lemma strncmp_eq_trans: "strncmp_eq n as bs \<Longrightarrow> strncmp_eq n bs cs \<Longrightarrow> strncmp_eq n as cs"
  by (induction n as bs arbitrary: cs rule: strncmp_eq.induct) (auto elim: strncmp_eq.elims)

lemma strncmp_eq_take: "NUL \<notin> set (take n as) \<Longrightarrow> n \<le> length as \<Longrightarrow> n \<le> length bs \<Longrightarrow>
  strncmp_eq n as bs \<longleftrightarrow> take n as = take n bs"
  by (induction n as bs rule: strncmp_eq.induct) auto

lemma String_equals_lit [simp]:
  assumes "cstr_ok a"
  shows "String_equals (String_lit a) (String_lit b) \<longleftrightarrow> a = b"
  using assms strncmp_eq_take [of "length a" "a @ [NUL]" "b @ [NUL]"]
  by (auto simp: String_equals_def cstr_ok_def)

lemma String_equals_wf: "String_wf x \<Longrightarrow> String_wf y \<Longrightarrow> String_equals x y \<longleftrightarrow> x = y"
  by (auto elim!: String_wfE)

lemma String_copy_lit [simp]: "String_copy (String_lit cs) = Inr (String_lit cs)"
  by (simp add: String_copy_def mem_load_def String_lit_def)

lemma String_of_cstr_lit [simp]:
  "NUL \<notin> set cs \<Longrightarrow> String_of_cstr (cs @ NUL # rest) = Inr (String_lit cs)"
  using c_strlen_nul [of cs "map Some rest"]
  by (simp add: String_of_cstr_def String_make_def String_lit_def list_update_append)

subsection \<open>String as a serialisable class\<close>

definition enc_String :: "String \<Rightarrow> char list" where
  "enc_String x = enc_u64 (of_nat (str_size x)) @ enc_cstr (String_val x)"

interpretation String_codec: codec String_serialize String_deserialize enc_String String_wf
proof unfold_locales
  fix x assume "String_wf x"
  then obtain cs where x: "x = String_lit cs" and ok: "cstr_ok cs" by (rule String_wfE)
  have nul: "NUL \<notin> set cs" and len: "length cs < 2 ^ 64" using ok by (simp_all add: cstr_ok_def)
  have eq: "String_serialize x =
    (\<lambda>s. res_bind (write_size_t (of_nat (length cs)) s) (write_cstr (cs @ [NUL])))"
    by (rule ext) (simp add: String_serialize_def x)
  show "writes (String_serialize x) (enc_String x)"
    unfolding eq using nul by (auto simp: enc_String_def x intro!: writes_rules)
  have "reads (\<lambda>s. res_bind (readString s) (\<lambda>(c, s). Inr (\<lparr>str_size = length cs, str_chars = c\<rparr>, s)))
      (enc_cstr cs @ []) x"
    using nul by (intro reads_bind [OF reads_string] ) (simp_all add: x String_lit_def enc_cstr_def reads_Inr)
  then have "reads (\<lambda>s. res_bind (readSizeT s) (\<lambda>(n, s). res_bind (readString s) (\<lambda>(c, s).
      Inr (\<lparr>str_size = unat n, str_chars = c\<rparr>, s)))) (enc_u64 (of_nat (length cs)) @ enc_cstr cs) x"
    using len by (intro reads_bind [OF reads_prims(1)]) simp
  then show "reads String_deserialize (enc_String x) x"
    by (simp add: enc_String_def x String_deserialize_def [abs_def])
qed

section \<open>StrBuff\<close>

record StrBuff =
  sb_val :: "char cells"
  sb_capacity :: nat
  sb_size :: nat

definition StrBuff_new :: StrBuff where
  "StrBuff_new = \<lparr>sb_val = new_cells 10, sb_capacity = 10, sb_size = 0\<rparr>"

definition StrBuff_grow_by :: "nat \<Rightarrow> StrBuff \<Rightarrow> StrBuff res" where
  "StrBuff_grow_by step b =
     (if step + sb_size b < sb_capacity b then Inr b
      else
        let cap = 2 * sb_capacity b;
            cap = (if step + sb_size b \<ge> cap then cap + step else cap)
        in res_bind (cells_load (sb_val b) 0 (sb_size b)) (\<lambda>old.
           res_bind (cells_store (new_cells cap) 0 old) (\<lambda>v.
           Inr (b\<lparr>sb_capacity := cap, sb_val := v\<rparr>))))"

text \<open>\<open>c(str, step)\<close>: append the first \<open>step\<close> bytes of the array \<open>str\<close>.\<close>

definition StrBuff_c_n :: "char list \<Rightarrow> nat \<Rightarrow> StrBuff \<Rightarrow> StrBuff res" where
  "StrBuff_c_n str step b =
     res_bind (StrBuff_grow_by step b) (\<lambda>b.
     res_bind (mem_load str 0 step) (\<lambda>src.
     res_bind (cells_store (sb_val b) (sb_size b) src) (\<lambda>v.
     Inr (b\<lparr>sb_val := v, sb_size := sb_size b + step\<rparr>))))"

definition StrBuff_c_cstr :: "char list \<Rightarrow> StrBuff \<Rightarrow> StrBuff res" where
  "StrBuff_c_cstr str b = res_bind (c_strlen (map Some str)) (\<lambda>n. StrBuff_c_n str n b)"

definition StrBuff_c_String :: "String \<Rightarrow> StrBuff \<Rightarrow> StrBuff res" where
  "StrBuff_c_String x = StrBuff_c_cstr (str_chars x)"

text \<open>\<open>std::to_string\<close> on an unsigned integer: decimal, no leading zeros.\<close>

fun to_string :: "nat \<Rightarrow> char list" where
  "to_string n = (if n < 10 then [char_of (48 + n)] else to_string (n div 10) @ [char_of (48 + n mod 10)])"

declare to_string.simps [simp del]

definition StrBuff_c_size_t :: "nat \<Rightarrow> StrBuff \<Rightarrow> StrBuff res" where
  "StrBuff_c_size_t v = StrBuff_c_cstr (to_string v @ [NUL])"

text \<open>\<open>StrBuff(s)\<close> and \<open>StrBuff(String*)\<close>.\<close>

definition StrBuff_of_cstr :: "char list \<Rightarrow> StrBuff res" where
  "StrBuff_of_cstr s =
     res_bind (c_strlen (map Some s)) (\<lambda>n.
     StrBuff_c_cstr s \<lparr>sb_val = new_cells (n + 1), sb_capacity = n + 1, sb_size = 0\<rparr>)"

definition StrBuff_of_String :: "String \<Rightarrow> StrBuff res" where
  "StrBuff_of_String x =
     StrBuff_c_String x
       \<lparr>sb_val = new_cells (str_size x + 1), sb_capacity = str_size x + 1, sb_size = 0\<rparr>"

text \<open>
  \<open>get\<close> terminates the array and hands it to a \<open>String\<close> without copying; the buffer keeps
  pointing at the same array and only resets its size. The result is the content of the
  array at that moment.
\<close>

definition StrBuff_get :: "StrBuff \<Rightarrow> (String \<times> StrBuff) res" where
  "StrBuff_get b =
     res_bind (StrBuff_grow_by 1 b) (\<lambda>b.
     res_bind (cell_store (sb_val b) (sb_size b) NUL) (\<lambda>v.
     res_bind (cells_load v 0 (sb_size b + 1)) (\<lambda>cs.
     Inr (\<lparr>str_size = sb_size b, str_chars = cs\<rparr>, b\<lparr>sb_val := v, sb_size := 0\<rparr>))))"

subsection \<open>StrBuff never writes outside its array\<close>

definition StrBuff_repr :: "StrBuff \<Rightarrow> char list \<Rightarrow> bool" where
  "StrBuff_repr b cs \<longleftrightarrow> length (sb_val b) = sb_capacity b \<and> 0 < sb_capacity b \<and>
     sb_size b = length cs \<and> holds cs (sb_val b)"

lemma StrBuff_repr_new [simp]: "StrBuff_repr StrBuff_new []"
  by (simp add: StrBuff_repr_def StrBuff_new_def)

lemma StrBuff_grow_by_room:
  assumes "StrBuff_repr b cs"
  shows "\<exists>b'. StrBuff_grow_by step b = Inr b' \<and> StrBuff_repr b' cs \<and> step + sb_size b' < sb_capacity b'"
proof (cases "step + sb_size b < sb_capacity b")
  case True
  with assms show ?thesis by (simp add: StrBuff_grow_by_def)
next
  case False
  define cap where "cap = (if step + sb_size b \<ge> 2 * sb_capacity b then 2 * sb_capacity b + step
    else 2 * sb_capacity b)"
  have r: "holds cs (sb_val b)" "sb_size b = length cs" "length cs \<le> sb_capacity b" "0 < sb_capacity b"
    using assms holds_length [of cs "sb_val b"] by (auto simp: StrBuff_repr_def)
  have cap: "step + length cs < cap" using r by (auto simp: cap_def)
  obtain v where v: "cells_store (new_cells cap) 0 cs = Inr v" "holds cs v" "length v = cap"
    using cells_store_append [of "[]" "new_cells cap" cs] cap by auto
  have "StrBuff_grow_by step b = Inr (b\<lparr>sb_capacity := cap, sb_val := v\<rparr>)"
    using False v(1) cells_load_holds [OF r(1), of 0 "length cs"] r(2)
    by (simp add: StrBuff_grow_by_def cap_def Let_def)
  with v cap r show ?thesis by (simp add: StrBuff_repr_def)
qed

lemma StrBuff_c_n_appends:
  assumes "StrBuff_repr b cs" and "n \<le> length str"
  shows "\<exists>b'. StrBuff_c_n str n b = Inr b' \<and> StrBuff_repr b' (cs @ take n str)"
proof -
  obtain b1 where b1: "StrBuff_grow_by n b = Inr b1" "StrBuff_repr b1 cs" "n + sb_size b1 < sb_capacity b1"
    using StrBuff_grow_by_room [OF assms(1)] by blast
  then have h: "holds cs (sb_val b1)" "sb_size b1 = length cs" "length (sb_val b1) = sb_capacity b1"
    by (simp_all add: StrBuff_repr_def)
  obtain v where "cells_store (sb_val b1) (length cs) (take n str) = Inr v"
    "holds (cs @ take n str) v" "length v = length (sb_val b1)"
    using cells_store_append [OF h(1), of "take n str"] b1(3) h assms(2) by auto
  with b1 h show ?thesis
    using assms(2) by (auto simp: StrBuff_c_n_def StrBuff_repr_def mem_load_def)
qed

lemma StrBuff_c_cstr_appends:
  assumes "StrBuff_repr b cs" and "NUL \<notin> set ds"
  shows "\<exists>b'. StrBuff_c_cstr (ds @ NUL # rest) b = Inr b' \<and> StrBuff_repr b' (cs @ ds)"
  using StrBuff_c_n_appends [OF assms(1), of "length ds" "ds @ NUL # rest"] c_strlen_nul [OF assms(2), of "map Some rest"]
  by (simp add: StrBuff_c_cstr_def)

lemma StrBuff_c_String_appends:
  assumes "StrBuff_repr b cs" and "cstr_ok ds"
  shows "\<exists>b'. StrBuff_c_String (String_lit ds) b = Inr b' \<and> StrBuff_repr b' (cs @ ds)"
  using StrBuff_c_cstr_appends [OF assms(1), of ds "[]"] assms(2)
  by (simp add: StrBuff_c_String_def cstr_ok_def)

lemma digit_not_nul: "d < 10 \<Longrightarrow> char_of (48 + d) \<noteq> NUL" for d :: nat
proof
  assume d: "d < 10" and "char_of (48 + d) = NUL"
  then have "(of_char (char_of (48 + d)) :: nat) = of_char NUL" by simp
  with d show False by (simp only: of_char_of) simp
qed

lemma to_string_no_nul: "NUL \<notin> set (to_string n)"
proof (induction n rule: to_string.induct)
  case (1 n)
  then show ?case by (subst to_string.simps) (auto dest: sym simp: digit_not_nul [symmetric])
qed

text \<open>Decimal numerals consist of digits and determine their number.\<close>

definition digits_val :: "char list \<Rightarrow> nat" where
  "digits_val cs = foldl (\<lambda>a c. 10 * a + (of_char c - 48)) 0 cs"

lemma of_char_digit: "d < 10 \<Longrightarrow> of_char (char_of (48 + d)) = 48 + d" for d :: nat
  by (simp add: of_char_of)

lemma digits_val_to_string [simp]: "digits_val (to_string n) = n"
proof (induction n rule: to_string.induct)
  case (1 n)
  show ?case
  proof (cases "n < 10")
    case True
    then show ?thesis by (subst to_string.simps) (simp add: digits_val_def of_char_digit)
  next
    case False
    with 1 have "foldl (\<lambda>a c. 10 * a + (of_char c - 48)) 0 (to_string (n div 10)) = n div 10"
      by (simp add: digits_val_def)
    with False show ?thesis
      using of_char_digit [of "n mod 10"] by (subst to_string.simps) (simp add: digits_val_def)
  qed
qed

lemma to_string_inj [simp]: "to_string m = to_string n \<longleftrightarrow> m = n"
  by (metis digits_val_to_string)

lemma to_string_digits: "c \<in> set (to_string n) \<Longrightarrow> 48 \<le> (of_char c :: nat) \<and> (of_char c :: nat) < 58"
proof (induction n rule: to_string.induct)
  case (1 n)
  then show ?case
    by (subst (asm) (2) to_string.simps) (auto simp: of_char_digit split: if_splits)
qed

lemma to_string_no_dash: "CHR ''-'' \<notin> set (to_string n)"
  using to_string_digits [of "CHR ''-''" n] by auto

lemma StrBuff_c_size_t_appends:
  "StrBuff_repr b cs \<Longrightarrow> \<exists>b'. StrBuff_c_size_t v b = Inr b' \<and> StrBuff_repr b' (cs @ to_string v)"
  using StrBuff_c_cstr_appends [of b cs "to_string v" "[]"] to_string_no_nul
  by (simp add: StrBuff_c_size_t_def)

text \<open>After \<open>get\<close> the array still holds the returned string and has room to spare.\<close>

lemma StrBuff_get_shared:
  assumes "StrBuff_repr b cs"
  shows "\<exists>b'. StrBuff_get b = Inr (String_lit cs, b') \<and> StrBuff_repr b' [] \<and>
    holds (cs @ [NUL]) (sb_val b') \<and> length cs + 1 < sb_capacity b'"
proof -
  obtain b1 where b1: "StrBuff_grow_by 1 b = Inr b1" "StrBuff_repr b1 cs" "1 + sb_size b1 < sb_capacity b1"
    using StrBuff_grow_by_room [OF assms] by blast
  then have h: "holds cs (sb_val b1)" "sb_size b1 = length cs" "length (sb_val b1) = sb_capacity b1"
    by (simp_all add: StrBuff_repr_def)
  then obtain v where v: "cell_store (sb_val b1) (length cs) NUL = Inr v" "holds (cs @ [NUL]) v"
    "length v = length (sb_val b1)"
    using cell_store_snoc [OF h(1), of NUL] b1(3) by auto
  have "cells_load v 0 (length cs + 1) = Inr (cs @ [NUL])"
    using cells_load_holds [OF v(2), of 0 "length cs + 1"] by simp
  with b1 h v show ?thesis by (simp add: StrBuff_get_def StrBuff_repr_def String_lit_def)
qed

lemma StrBuff_get_content:
  "StrBuff_repr b cs \<Longrightarrow> \<exists>b'. StrBuff_get b = Inr (String_lit cs, b') \<and> StrBuff_repr b' []"
  using StrBuff_get_shared by blast

lemma StrBuff_of_String_repr:
  assumes "cstr_ok cs"
  shows "\<exists>b. StrBuff_of_String (String_lit cs) = Inr b \<and> StrBuff_repr b cs"
proof -
  let ?b = "\<lparr>sb_val = new_cells (length cs + 1), sb_capacity = length cs + 1, sb_size = 0\<rparr> :: StrBuff"
  have "StrBuff_repr ?b []" by (simp add: StrBuff_repr_def)
  from StrBuff_c_String_appends [OF this assms] show ?thesis by (simp add: StrBuff_of_String_def)
qed

section \<open>Properties\<close>

text \<open>Two Strings that \<open>equals\<close> calls equal need not be the same: the comparison stops at an
  embedded NUL byte, while the hash and the serialised form cover all \<open>size_\<close> bytes. Strings read
  from the network can hold such bytes.\<close>

theorem String_equals_embedded_NUL:
  "\<exists>x y. str_chars x = [NUL, CHR ''a'', NUL] \<and> str_chars y = [NUL, CHR ''b'', NUL] \<and> str_size x = 2 \<and>
     str_size y = 2 \<and> String_equals x y \<and> String_hash_me x \<noteq> String_hash_me y"
proof -
  let ?x = "\<lparr>str_size = 2, str_chars = [NUL, CHR ''a'', NUL]\<rparr>"
  let ?y = "\<lparr>str_size = 2, str_chars = [NUL, CHR ''b'', NUL]\<rparr>"
  have "String_equals ?x ?y" by (simp add: String_equals_def numeral_2_eq_2)
  moreover have "String_hash_me ?x \<noteq> String_hash_me ?y"
    by (simp add: String_hash_me_def String_hash_step_def char_to_size_t_def numeral_2_eq_2 Let_def)
  ultimately show ?thesis by (intro exI [of _ ?x] exI [of _ ?y]) simp
qed

end
