(* ===== verification/HashMap.thy ===== *)
theory HashMap
  imports Strings
begin

text \<open>
  The chained hash map of \<open>src/utils/map.h\<close>. \<open>Map\<close> stores pointers to \<open>Object\<close> and calls
  the virtual methods \<open>equals\<close> and \<open>hash\<close> of its keys; the model passes these two methods
  as a \<open>vtbl\<close>. A bucket is the list of entries its chain of \<open>next_\<close> pointers reaches, the
  null bucket being the empty list.

  The locale \<open>hash_key\<close> is what \<open>Map\<close> needs from a key class: on the objects that are used
  as keys, \<open>equals\<close> is equality of values. Under it every operation refines the one on
  partial functions: \<open>Map_abs\<close> is the abstraction and \<open>Map_inv\<close> the representation
  invariant. The classes used as keys (\<open>String\<close>, \<open>Key\<close>, \<open>SizeTWrapper\<close>) interpret it in
  their own theories.
\<close>

section \<open>Entries\<close>

record 'k vtbl =
  vt_equals :: "'k \<Rightarrow> 'k \<Rightarrow> bool"
  vt_hash :: "'k \<Rightarrow> u64"

type_synonym ('k, 'v) entries = "('k \<times> 'v) list"

fun Entry_addKeysToArr :: "('k, 'v) entries \<Rightarrow> 'k cells \<Rightarrow> nat \<Rightarrow> ('k cells \<times> nat) res" where
  "Entry_addKeysToArr [] keysArr nextIdx = Inr (keysArr, nextIdx)"
| "Entry_addKeysToArr ((k, v) # es) keysArr nextIdx =
     res_bind (cell_store keysArr nextIdx k) (\<lambda>keysArr. Entry_addKeysToArr es keysArr (nextIdx + 1))"

fun Entry_addValuesToArr :: "('k, 'v) entries \<Rightarrow> 'v cells \<Rightarrow> nat \<Rightarrow> ('v cells \<times> nat) res" where
  "Entry_addValuesToArr [] valuesArr nextIdx = Inr (valuesArr, nextIdx)"
| "Entry_addValuesToArr ((k, v) # es) valuesArr nextIdx =
     res_bind (cell_store valuesArr nextIdx v) (\<lambda>valuesArr. Entry_addValuesToArr es valuesArr (nextIdx + 1))"

fun Entry_length :: "('k, 'v) entries \<Rightarrow> nat" where
  "Entry_length [] = 0"
| "Entry_length (e # es) = 1 + Entry_length es"

fun Entry_getKey :: "('k, 'v) entries \<Rightarrow> nat \<Rightarrow> 'k res" where
  "Entry_getKey [] idx = Inl (Exit (-1))"
| "Entry_getKey ((k, v) # es) idx = (if idx = 0 then Inr k else Entry_getKey es (idx - 1))"

fun Entry_getValue :: "('k, 'v) entries \<Rightarrow> nat \<Rightarrow> 'v res" where
  "Entry_getValue [] idx = Inl (Exit (-1))"
| "Entry_getValue ((k, v) # es) idx = (if idx = 0 then Inr v else Entry_getValue es (idx - 1))"

section \<open>Map\<close>

record ('k, 'v) hmap =
  hm_buckets :: "('k, 'v) entries list"
  hm_capacity :: nat
  hm_size :: nat

definition Map_new :: "nat \<Rightarrow> ('k, 'v) hmap" where
  "Map_new cap = \<lparr>hm_buckets = replicate cap [], hm_capacity = cap, hm_size = 0\<rparr>"

definition Map_default :: "('k, 'v) hmap" where
  "Map_default = Map_new 4"

text \<open>\<open>key->hash() % capacity_\<close>\<close>

definition Map_index :: "'k vtbl \<Rightarrow> 'k \<Rightarrow> ('k, 'v) hmap \<Rightarrow> nat res" where
  "Map_index vt key m =
     (if hm_capacity m = 0 then Inl DivByZero else Inr (unat (vt_hash vt key) mod hm_capacity m))"

definition Map_bucket :: "('k, 'v) hmap \<Rightarrow> nat \<Rightarrow> ('k, 'v) entries res" where
  "Map_bucket m index =
     (if index < length (hm_buckets m) then Inr (hm_buckets m ! index) else Inl OutOfBounds)"

text \<open>The loop of \<open>insertIntoBucket_\<close>: the new chain and the value it replaced.\<close>

fun chain_insert :: "'k vtbl \<Rightarrow> 'k \<Rightarrow> 'v \<Rightarrow> ('k, 'v) entries \<Rightarrow> ('k, 'v) entries \<times> 'v option" where
  "chain_insert vt key val [] = ([(key, val)], None)"
| "chain_insert vt key val ((k, v) # es) =
     (if vt_equals vt k key then ((k, val) # es, Some v)
      else let (es', old) = chain_insert vt key val es in ((k, v) # es', old))"

definition Map_insertIntoBucket ::
    "'k vtbl \<Rightarrow> nat \<Rightarrow> 'k \<Rightarrow> 'v \<Rightarrow> ('k, 'v) hmap \<Rightarrow> ('v option \<times> ('k, 'v) hmap) res" where
  "Map_insertIntoBucket vt index key val m =
     res_bind (Map_bucket m index) (\<lambda>bucket.
       let (es, old) = chain_insert vt key val bucket;
           m = m\<lparr>hm_buckets := (hm_buckets m)[index := es]\<rparr>
       in Inr (old, if old = None then m\<lparr>hm_size := hm_size m + 1\<rparr> else m))"

text \<open>Null pointers are \<open>None\<close>; \<open>nullptr\<close> as a result is \<open>None\<close> as well.\<close>

definition Map_put ::
    "'k vtbl \<Rightarrow> 'k option \<Rightarrow> 'v option \<Rightarrow> ('k, 'v) hmap \<Rightarrow> ('v option \<times> ('k, 'v) hmap) res" where
  "Map_put vt key val m =
     (case (key, val) of
        (Some k, Some v) \<Rightarrow> res_bind (Map_index vt k m) (\<lambda>index. Map_insertIntoBucket vt index k v m)
      | _ \<Rightarrow> Inr (None, m))"

fun chain_get :: "'k vtbl \<Rightarrow> 'k \<Rightarrow> ('k, 'v) entries \<Rightarrow> 'v option" where
  "chain_get vt key [] = None"
| "chain_get vt key ((k, v) # es) = (if vt_equals vt k key then Some v else chain_get vt key es)"

definition Map_getFromBucket :: "'k vtbl \<Rightarrow> nat \<Rightarrow> 'k \<Rightarrow> ('k, 'v) hmap \<Rightarrow> 'v option res" where
  "Map_getFromBucket vt index key m =
     res_bind (Map_bucket m index) (\<lambda>bucket. Inr (chain_get vt key bucket))"

definition Map_get :: "'k vtbl \<Rightarrow> 'k option \<Rightarrow> ('k, 'v) hmap \<Rightarrow> 'v option res" where
  "Map_get vt key m =
     (case key of None \<Rightarrow> Inr None
      | Some k \<Rightarrow> res_bind (Map_index vt k m) (\<lambda>index. Map_getFromBucket vt index k m))"

text \<open>The loop of \<open>removeFromBucket_\<close>: the entry unlinked, if any, and the chain that is left.\<close>

fun chain_remove :: "'k vtbl \<Rightarrow> 'k \<Rightarrow> ('k, 'v) entries \<Rightarrow> ('k \<times> 'v) option \<times> ('k, 'v) entries" where
  "chain_remove vt key [] = (None, [])"
| "chain_remove vt key ((k, v) # es) =
     (if vt_equals vt k key then (Some (k, v), es)
      else let (r, es') = chain_remove vt key es in (r, (k, v) # es'))"

definition Map_removeFromBucket ::
    "'k vtbl \<Rightarrow> nat \<Rightarrow> 'k \<Rightarrow> ('k, 'v) hmap \<Rightarrow> (('k \<times> 'v) option \<times> ('k, 'v) hmap) res" where
  "Map_removeFromBucket vt index key m =
     res_bind (Map_bucket m index) (\<lambda>bucket.
       case chain_remove vt key bucket of
         (None, _) \<Rightarrow> Inr (None, m)
       | (Some e, es) \<Rightarrow>
           Inr (Some e, m\<lparr>hm_buckets := (hm_buckets m)[index := es], hm_size := hm_size m - 1\<rparr>))"

definition Map_remove :: "'k vtbl \<Rightarrow> 'k option \<Rightarrow> ('k, 'v) hmap \<Rightarrow> ('v option \<times> ('k, 'v) hmap) res" where
  "Map_remove vt key m =
     (case key of None \<Rightarrow> Inr (None, m)
      | Some k \<Rightarrow>
          res_bind (Map_index vt k m) (\<lambda>index.
          res_bind (Map_removeFromBucket vt index k m) (\<lambda>(removed, m).
            case removed of None \<Rightarrow> Inl AssertFail | Some (_, v) \<Rightarrow> Inr (Some v, m))))"

fun chain_contains :: "'k vtbl \<Rightarrow> 'k \<Rightarrow> ('k, 'v) entries \<Rightarrow> bool" where
  "chain_contains vt key [] = False"
| "chain_contains vt key ((k, v) # es) = (vt_equals vt k key \<or> chain_contains vt key es)"

definition Map_contains_key :: "'k vtbl \<Rightarrow> 'k option \<Rightarrow> ('k, 'v) hmap \<Rightarrow> bool res" where
  "Map_contains_key vt key m =
     (case key of None \<Rightarrow> Inr False
      | Some k \<Rightarrow>
          res_bind (Map_index vt k m) (\<lambda>index.
          res_bind (Map_bucket m index) (\<lambda>bucket. Inr (chain_contains vt k bucket))))"

definition Map_clear :: "('k, 'v) hmap \<Rightarrow> ('k, 'v) hmap" where
  "Map_clear m = m\<lparr>hm_capacity := 4, hm_size := 0, hm_buckets := replicate 4 []\<rparr>"

definition Map_get_keys :: "('k, 'v) hmap \<Rightarrow> 'k cells res" where
  "Map_get_keys m =
     res_bind (res_fold (\<lambda>bucket (keys, nextIdx). Entry_addKeysToArr bucket keys nextIdx)
       (hm_buckets m) (new_cells (hm_size m), 0)) (\<lambda>(keys, _). Inr keys)"

definition Map_get_values :: "('k, 'v) hmap \<Rightarrow> 'v cells res" where
  "Map_get_values m =
     res_bind (res_fold (\<lambda>bucket (vals, nextIdx). Entry_addValuesToArr bucket vals nextIdx)
       (hm_buckets m) (new_cells (hm_size m), 0)) (\<lambda>(vals, _). Inr vals)"

definition Map_isInArr :: "('a \<Rightarrow> 'a \<Rightarrow> bool) \<Rightarrow> 'a \<Rightarrow> 'a list \<Rightarrow> bool" where
  "Map_isInArr eq needle haystack = list_ex (\<lambda>h. eq h needle) haystack"

text \<open>\<open>Map::equals\<close> on two maps; \<open>veq\<close> is the \<open>equals\<close> of the values.\<close>

definition Map_equals ::
    "'k vtbl \<Rightarrow> ('v \<Rightarrow> 'v \<Rightarrow> bool) \<Rightarrow> ('k, 'v) hmap \<Rightarrow> ('k, 'v) hmap \<Rightarrow> bool res" where
  "Map_equals vt veq this other =
     (if hm_size this \<noteq> hm_size other then Inr False
      else
        res_bind (res_bind (Map_get_keys this) all_some) (\<lambda>thisKeys.
        res_bind (res_bind (Map_get_keys other) all_some) (\<lambda>otherKeys.
        if \<not> list_all (\<lambda>k. Map_isInArr (vt_equals vt) k otherKeys) thisKeys then Inr False
        else
          res_bind (res_bind (Map_get_values this) all_some) (\<lambda>thisValues.
          res_bind (res_bind (Map_get_values other) all_some) (\<lambda>otherValues.
          if \<not> list_all (\<lambda>v. Map_isInArr veq v otherValues) thisValues then Inr False
          else if \<not> list_all (\<lambda>v. Map_isInArr veq v thisValues) otherValues then Inr False
          else Inr True)))))"

section \<open>Abstraction and invariant\<close>

definition Map_entries :: "('k, 'v) hmap \<Rightarrow> ('k, 'v) entries" where
  "Map_entries m = concat (hm_buckets m)"

definition Map_abs :: "('k, 'v) hmap \<Rightarrow> 'k \<rightharpoonup> 'v" where
  "Map_abs m = map_of (Map_entries m)"

definition Map_inv :: "'k vtbl \<Rightarrow> ('k \<Rightarrow> bool) \<Rightarrow> ('k, 'v) hmap \<Rightarrow> bool" where
  "Map_inv vt ok m \<longleftrightarrow>
     0 < hm_capacity m \<and> length (hm_buckets m) = hm_capacity m \<and>
     hm_size m = length (Map_entries m) \<and>
     (\<forall>i < hm_capacity m. distinct (map fst (hm_buckets m ! i)) \<and>
        (\<forall>(k, v) \<in> set (hm_buckets m ! i). ok k \<and> unat (vt_hash vt k) mod hm_capacity m = i))"

lemma not_in_buckets:
  assumes "\<And>j. j < length bs \<Longrightarrow> k \<notin> fst ` set (bs ! j)"
  shows "k \<notin> fst ` set (concat bs)"
proof
  assume "k \<in> fst ` set (concat bs)"
  then obtain b where "b \<in> set bs" and k: "k \<in> fst ` set b" by auto
  then obtain j where "j < length bs" "b = bs ! j" by (auto simp: in_set_conv_nth)
  with k assms show False by auto
qed

text \<open>Keys in different buckets differ, as their hash codes do.\<close>

lemma distinct_concat_buckets:
  assumes "\<And>i. i < length bs \<Longrightarrow> distinct (map fst (bs ! i))"
    and "\<And>i k. i < length bs \<Longrightarrow> k \<in> fst ` set (bs ! i) \<Longrightarrow> h k = i"
  shows "distinct (map fst (concat bs))"
  using assms
proof (induction bs rule: rev_induct)
  case Nil
  then show ?case by simp
next
  case (snoc b bs)
  have bs: "bs ! i = (bs @ [b]) ! i" if "i < length bs" for i
    using that by (simp add: nth_append)
  have "distinct (map fst (concat bs))"
  proof (rule snoc.IH)
    fix i assume i: "i < length bs"
    then show "distinct (map fst (bs ! i))" using snoc.prems(1) [of i] by (simp add: bs)
    fix k assume "k \<in> fst ` set (bs ! i)"
    then show "h k = i" using snoc.prems(2) [of i k] i by (simp add: bs)
  qed
  moreover have "distinct (map fst b)" using snoc.prems(1) [of "length bs"] by simp
  moreover have "h k = length bs" if "k \<in> fst ` set b" for k
    using snoc.prems(2) [of "length bs" k] that by simp
  moreover have "k \<notin> fst ` set (concat bs)" if "h k = length bs" for k
  proof (rule not_in_buckets)
    fix j assume "j < length bs"
    with snoc.prems(2) [of j k] that show "k \<notin> fst ` set (bs ! j)" by (auto simp: bs)
  qed
  ultimately have "fst ` set (concat bs) \<inter> fst ` set b = {}"
    by (meson disjoint_iff less_not_refl3)
  with \<open>distinct (map fst (concat bs))\<close> \<open>distinct (map fst b)\<close> show ?case by simp
qed

lemma Map_inv_distinct:
  assumes "Map_inv vt ok m"
  shows "distinct (map fst (Map_entries m))"
  unfolding Map_entries_def
proof (rule distinct_concat_buckets [where h = "\<lambda>k. unat (vt_hash vt k) mod hm_capacity m"])
  fix i assume "i < length (hm_buckets m)"
  then have i: "distinct (map fst (hm_buckets m ! i))"
    "\<forall>(k, v) \<in> set (hm_buckets m ! i). ok k \<and> unat (vt_hash vt k) mod hm_capacity m = i"
    using assms by (simp_all add: Map_inv_def)
  from i(1) show "distinct (map fst (hm_buckets m ! i))" .
  fix k assume "k \<in> fst ` set (hm_buckets m ! i)"
  with i(2) show "unat (vt_hash vt k) mod hm_capacity m = i" by auto
qed

lemma Map_entries_new [simp]: "Map_entries (Map_new c) = []"
  by (simp add: Map_entries_def Map_new_def)

lemma Map_abs_new [simp]: "Map_abs (Map_new c) = Map.empty"
  by (simp add: Map_abs_def)

lemma Map_inv_new [simp]: "0 < c \<Longrightarrow> Map_inv vt ok (Map_new c)"
  by (simp add: Map_inv_def) (simp add: Map_new_def)

lemma Map_new_sel [simp]: "hm_size (Map_new c) = 0" "hm_capacity (Map_new c) = c"
  "hm_buckets (Map_new c) = replicate c []"
  by (simp_all add: Map_new_def)

lemma Map_clear_new: "Map_clear m = Map_new 4"
  by (simp add: Map_clear_def Map_new_def)

lemma Map_inv_keys_ok: "Map_inv vt ok m \<Longrightarrow> (k, v) \<in> set (Map_entries m) \<Longrightarrow> ok k"
proof -
  assume inv: "Map_inv vt ok m" and "(k, v) \<in> set (Map_entries m)"
  then obtain b where "b \<in> set (hm_buckets m)" and e: "(k, v) \<in> set b" by (auto simp: Map_entries_def)
  then obtain i where "i < hm_capacity m" and "b = hm_buckets m ! i"
    using inv by (auto simp: in_set_conv_nth Map_inv_def)
  with inv e show "ok k" by (fastforce simp: Map_inv_def)
qed

lemma Map_abs_SomeD: "Map_abs m k = Some v \<Longrightarrow> (k, v) \<in> set (Map_entries m)"
  by (simp add: Map_abs_def map_of_SomeD)

lemma Map_abs_ok: "Map_inv vt ok m \<Longrightarrow> Map_abs m k = Some v \<Longrightarrow> ok k"
  using Map_inv_keys_ok Map_abs_SomeD by fastforce

lemma Map_abs_entry: "Map_inv vt ok m \<Longrightarrow> (k, v) \<in> set (Map_entries m) \<longleftrightarrow> Map_abs m k = Some v"
  by (auto simp: Map_abs_def Map_inv_distinct)

lemma dom_Map_abs: "dom (Map_abs m) = fst ` set (Map_entries m)"
  by (simp add: Map_abs_def dom_map_of_conv_image_fst)

lemma Map_size_card: "Map_inv vt ok m \<Longrightarrow> hm_size m = card (dom (Map_abs m))"
  by (metis (mono_tags) Map_inv_def Map_inv_distinct distinct_card dom_Map_abs length_map list.set_map)

text \<open>\<open>get_keys\<close> and \<open>get_values\<close> fill an array of exactly \<open>size_\<close> cells.\<close>

lemma addKeys_prefix:
  "holds xs arr \<Longrightarrow> length xs + length es \<le> length arr \<Longrightarrow>
   \<exists>arr'. Entry_addKeysToArr es arr (length xs) = Inr (arr', length xs + length es) \<and>
     holds (xs @ map fst es) arr' \<and> length arr' = length arr"
proof (induction es arbitrary: xs arr)
  case Nil
  then show ?case by simp
next
  case (Cons e es)
  obtain k v where e: "e = (k, v)" by (cases e)
  obtain a where a: "cell_store arr (length xs) k = Inr a" "holds (xs @ [k]) a" "length a = length arr"
    using cell_store_snoc [OF Cons.prems(1), of k] Cons.prems(2) by auto
  from Cons.IH [OF a(2)] a Cons.prems(2) show ?case by (simp add: e)
qed

lemma addValues_prefix:
  "holds xs arr \<Longrightarrow> length xs + length es \<le> length arr \<Longrightarrow>
   \<exists>arr'. Entry_addValuesToArr es arr (length xs) = Inr (arr', length xs + length es) \<and>
     holds (xs @ map snd es) arr' \<and> length arr' = length arr"
proof (induction es arbitrary: xs arr)
  case Nil
  then show ?case by simp
next
  case (Cons e es)
  obtain k v where e: "e = (k, v)" by (cases e)
  obtain a where a: "cell_store arr (length xs) v = Inr a" "holds (xs @ [v]) a" "length a = length arr"
    using cell_store_snoc [OF Cons.prems(1), of v] Cons.prems(2) by auto
  from Cons.IH [OF a(2)] a Cons.prems(2) show ?case by (simp add: e)
qed

lemma fill_buckets:
  assumes step: "\<And>es arr xs. holds xs arr \<Longrightarrow> length xs + length es \<le> length arr \<Longrightarrow>
     \<exists>arr'. add es arr (length xs) = Inr (arr', length xs + length es) \<and>
       holds (xs @ map f es) arr' \<and> length arr' = length arr"
    and "holds xs arr" and "length xs + length (concat bs) \<le> length arr"
  shows "\<exists>arr'. res_fold (\<lambda>b (a, i). add b a i) bs (arr, length xs) =
     Inr (arr', length xs + length (concat bs)) \<and> holds (xs @ map f (concat bs)) arr' \<and>
     length arr' = length arr"
  using assms(2,3)
proof (induction bs arbitrary: xs arr)
  case Nil
  then show ?case by simp
next
  case (Cons b bs)
  obtain a where a: "add b arr (length xs) = Inr (a, length xs + length b)"
    "holds (xs @ map f b) a" "length a = length arr"
    using step [OF Cons.prems(1), of b] Cons.prems(2) by auto
  from Cons.IH [OF a(2)] a Cons.prems(2) show ?case by (auto simp: add.assoc)
qed

lemma Map_get_keys_ok:
  assumes "hm_size m = length (Map_entries m)"
  shows "Map_get_keys m = Inr (map Some (map fst (Map_entries m)))"
proof -
  obtain a where "res_fold (\<lambda>b (k, i). Entry_addKeysToArr b k i) (hm_buckets m) (new_cells (hm_size m), 0)
      = Inr (a, length (concat (hm_buckets m)))" "holds (map fst (concat (hm_buckets m))) a"
    "length a = hm_size m"
    using fill_buckets [where add = Entry_addKeysToArr and f = fst, OF addKeys_prefix,
        of "[]" "new_cells (hm_size m)" "hm_buckets m"] assms
    by (auto simp: Map_entries_def)
  then show ?thesis using assms by (simp add: Map_get_keys_def Map_entries_def holds_def)
qed

lemma Map_get_values_ok:
  assumes "hm_size m = length (Map_entries m)"
  shows "Map_get_values m = Inr (map Some (map snd (Map_entries m)))"
proof -
  obtain a where "res_fold (\<lambda>b (k, i). Entry_addValuesToArr b k i) (hm_buckets m) (new_cells (hm_size m), 0)
      = Inr (a, length (concat (hm_buckets m)))" "holds (map snd (concat (hm_buckets m))) a"
    "length a = hm_size m"
    using fill_buckets [where add = Entry_addValuesToArr and f = snd, OF addValues_prefix,
        of "[]" "new_cells (hm_size m)" "hm_buckets m"] assms
    by (auto simp: Map_entries_def)
  then show ?thesis using assms by (simp add: Map_get_values_def Map_entries_def holds_def)
qed

lemma Map_keys_list:
  "hm_size m = length (Map_entries m) \<Longrightarrow>
     res_bind (Map_get_keys m) all_some = Inr (map fst (Map_entries m))"
  "hm_size m = length (Map_entries m) \<Longrightarrow>
     res_bind (Map_get_values m) all_some = Inr (map snd (Map_entries m))"
  by (simp_all add: Map_get_keys_ok Map_get_values_ok del: map_map List.map.comp)

section \<open>Maps over a key class\<close>

text \<open>
  The contract of a key class: \<open>equals\<close> decides equality of the keys in use. (Then
  \<open>hash\<close>, being a function of the value, agrees on equal keys.)
\<close>

locale hash_key =
  fixes vt :: "'k vtbl" and ok :: "'k \<Rightarrow> bool"
  assumes equals_iff: "ok a \<Longrightarrow> ok b \<Longrightarrow> vt_equals vt a b \<longleftrightarrow> a = b"
begin

abbreviation keys_ok :: "('k, 'v) entries \<Rightarrow> bool" where
  "keys_ok es \<equiv> \<forall>(k, v) \<in> set es. ok k"

lemma chain_get_map_of: "keys_ok es \<Longrightarrow> ok k \<Longrightarrow> chain_get vt k es = map_of es k"
  by (induction es) (auto simp: equals_iff)

lemma chain_contains_iff: "keys_ok es \<Longrightarrow> ok k \<Longrightarrow> chain_contains vt k es \<longleftrightarrow> k \<in> fst ` set es"
  by (induction es) (auto simp: equals_iff)

lemma chain_insert_spec:
  "keys_ok es \<Longrightarrow> ok k \<Longrightarrow> chain_insert vt k v es = (es', old) \<Longrightarrow>
   old = map_of es k \<and> map_of es' = (map_of es)(k \<mapsto> v) \<and> keys_ok es' \<and>
   map fst es' = map fst es @ (if k \<in> fst ` set es then [] else [k])"
proof (induction es arbitrary: es' old)
  case Nil
  then show ?case by auto
next
  case (Cons e es)
  obtain k' v' where e: "e = (k', v')" by (cases e)
  show ?case
  proof (cases "k' = k")
    case True
    with Cons.prems e show ?thesis by (auto simp: equals_iff fun_eq_iff)
  next
    case False
    then have "\<not> vt_equals vt k' k" using Cons.prems e by (auto simp: equals_iff)
    then obtain es1 where es1: "chain_insert vt k v es = (es1, old)" "es' = e # es1"
      using Cons.prems(3) e by (auto split: prod.splits)
    from Cons.IH [OF _ Cons.prems(2) es1(1)] Cons.prems(1) False es1(2) e show ?thesis
      by (auto simp: fun_eq_iff)
  qed
qed

lemma chain_remove_spec:
  "keys_ok es \<Longrightarrow> ok k \<Longrightarrow> distinct (map fst es) \<Longrightarrow> chain_remove vt k es = (r, es') \<Longrightarrow>
   map_option snd r = map_of es k \<and> es' = filter (\<lambda>e. fst e \<noteq> k) es"
proof (induction es arbitrary: es' r)
  case Nil
  then show ?case by auto
next
  case (Cons e es)
  obtain k' v' where e: "e = (k', v')" by (cases e)
  show ?case
  proof (cases "k' = k")
    case True
    with Cons.prems e have "es' = es" "r = Some (k, v')" "k \<notin> fst ` set es"
      by (auto simp: equals_iff)
    moreover from this(3) have "filter (\<lambda>e. fst e \<noteq> k) es = es" by (auto simp: filter_id_conv)
    ultimately show ?thesis using True e by simp
  next
    case False
    then have "\<not> vt_equals vt k' k" using Cons.prems e by (auto simp: equals_iff)
    then obtain es1 where es1: "chain_remove vt k es = (r, es1)" "es' = e # es1"
      using Cons.prems(4) e by (auto split: prod.splits)
    from Cons.IH [OF _ Cons.prems(2) _ es1(1)] Cons.prems(1,3) False es1(2) e show ?thesis by auto
  qed
qed

end

text \<open>Lists of buckets: what an update of one bucket does to the entries.\<close>

lemma concat_update:
  assumes "i < length bs"
  shows "concat bs = concat (take i bs) @ bs ! i @ concat (drop (Suc i) bs)"
    and "concat (bs[i := es]) = concat (take i bs) @ es @ concat (drop (Suc i) bs)"
  using assms
  by (metis concat.simps(2) concat_append id_take_nth_drop)
     (simp add: upd_conv_take_nth_drop assms)

lemma map_of_notin: "k \<notin> fst ` set es \<Longrightarrow> map_of es k = None"
  by (simp add: map_of_eq_None_iff)

lemma map_of_concat_bucket:
  assumes "i < length bs" and "\<And>j. j < length bs \<Longrightarrow> j \<noteq> i \<Longrightarrow> k \<notin> fst ` set (bs ! j)"
  shows "map_of (concat bs) k = map_of (bs ! i) k"
  using assms
proof (induction bs arbitrary: i)
  case Nil
  then show ?case by simp
next
  case (Cons b bs)
  show ?case
  proof (cases i)
    case 0
    have "k \<notin> fst ` set (concat bs)"
      by (rule not_in_buckets) (use Cons.prems(2) [of "Suc j" for j] 0 in auto)
    then have "map_of (concat bs) k = None" by (rule map_of_notin)
    then show ?thesis by (simp add: 0 map_add_def split: option.split)
  next
    case (Suc i')
    have "k \<notin> fst ` set b" using Cons.prems(2) [of 0] Suc by simp
    then have "map_of b k = None" by (rule map_of_notin)
    moreover have "map_of (concat bs) k = map_of (bs ! i') k"
      by (rule Cons.IH) (use Cons.prems(1) Cons.prems(2) [of "Suc j" for j] Suc in auto)
    ultimately show ?thesis by (simp add: Suc map_add_def split: option.splits)
  qed
qed

lemma length_filter_key:
  "distinct (map fst es) \<Longrightarrow> (k, v) \<in> set es \<Longrightarrow> Suc (length (filter (\<lambda>e. fst e \<noteq> k) es)) = length es"
proof (induction es)
  case Nil
  then show ?case by simp
next
  case (Cons e es)
  show ?case
  proof (cases "fst e = k")
    case True
    then have "filter (\<lambda>e. fst e \<noteq> k) es = es"
      using Cons.prems(1) by (simp add: filter_id_conv) (metis image_eqI)
    with True show ?thesis by simp
  next
    case False
    with Cons show ?thesis by auto
  qed
qed

lemma map_of_filter_key: "k' \<noteq> k \<Longrightarrow> map_of (filter (\<lambda>e. fst e \<noteq> k) es) k' = map_of es k'"
  by (induction es) auto

context hash_key
begin

lemma index_ok:
  "Map_inv vt ok m \<Longrightarrow> Map_index vt k m = Inr (unat (vt_hash vt k) mod hm_capacity m)"
  by (simp add: Map_index_def Map_inv_def)

text \<open>Everything an operation on key \<open>k\<close> needs to know about \<open>k\<close>'s bucket.\<close>

lemma bucket_facts:
  assumes "Map_inv vt ok m" and "i = unat (vt_hash vt k) mod hm_capacity m"
  shows "i < length (hm_buckets m)" and "keys_ok (hm_buckets m ! i)"
    and "map_of (hm_buckets m ! i) k = Map_abs m k"
    and "distinct (map fst (hm_buckets m ! i))"
    and "\<And>j. j < length (hm_buckets m) \<Longrightarrow> j \<noteq> i \<Longrightarrow> k \<notin> fst ` set (hm_buckets m ! j)"
proof -
  let ?bs = "hm_buckets m"
  note inv = assms(1)[unfolded Map_inv_def]
  show i: "i < length ?bs" using inv assms(2) by simp
  show "keys_ok (?bs ! i)" using inv i by fastforce
  show other: "k \<notin> fst ` set (?bs ! j)" if "j < length ?bs" "j \<noteq> i" for j
    using inv that assms(2) by fastforce
  show "map_of (?bs ! i) k = Map_abs m k"
    unfolding Map_abs_def Map_entries_def by (rule map_of_concat_bucket [OF i other, symmetric])
  show "distinct (map fst (?bs ! i))" using inv i by simp
qed

lemma get_correct:
  assumes "Map_inv vt ok m" and "ok k"
  shows "Map_get vt (Some k) m = Inr (Map_abs m k)"
  using bucket_facts [OF assms(1) refl, where k = k] index_ok [OF assms(1)] assms(2)
  by (simp add: Map_get_def Map_getFromBucket_def Map_bucket_def chain_get_map_of)

lemma contains_correct:
  assumes "Map_inv vt ok m" and "ok k"
  shows "Map_contains_key vt (Some k) m = Inr (Map_abs m k \<noteq> None)"
proof -
  let ?i = "unat (vt_hash vt k) mod hm_capacity m"
  note b = bucket_facts [OF assms(1) refl, where k = k]
  have "chain_contains vt k (hm_buckets m ! ?i) \<longleftrightarrow> Map_abs m k \<noteq> None"
    using chain_contains_iff [OF b(2) assms(2)] b(3) map_of_eq_None_iff [of "hm_buckets m ! ?i" k] by simp
  then show ?thesis
    using b(1) index_ok [OF assms(1)] by (simp add: Map_contains_key_def Map_bucket_def)
qed

text \<open>Replacing the bucket \<open>i\<close> of key \<open>k\<close>.\<close>

lemma update_bucket:
  fixes m :: "('k, 'v) hmap"
  assumes inv: "Map_inv vt ok m" and i: "i = unat (vt_hash vt k) mod hm_capacity m"
    and es: "\<And>k' v. (k', v) \<in> set es \<Longrightarrow> (k', v) \<in> set (hm_buckets m ! i) \<or> k' = k" and "ok k"
    and "\<And>k'. k' \<noteq> k \<Longrightarrow> map_of es k' = map_of (hm_buckets m ! i) k'"
    and d: "distinct (map fst es)"
    and n: "n + length (hm_buckets m ! i) = hm_size m + length es"
  defines "m' \<equiv> m\<lparr>hm_buckets := (hm_buckets m)[i := es], hm_size := n\<rparr>"
  shows "Map_inv vt ok m'" and "Map_abs m' = (Map_abs m)(k := map_of es k)"
proof -
  let ?bs = "hm_buckets m"
  note inv' = inv[unfolded Map_inv_def] and b = bucket_facts [OF inv i]
  have "length (concat (?bs[i := es])) + length (?bs ! i) = length (concat ?bs) + length es"
    using concat_update [OF b(1)] by simp
  with n inv' have "n = length (concat (?bs[i := es]))" by (simp add: Map_entries_def)
  moreover have "ok k' \<and> unat (vt_hash vt k') mod hm_capacity m = i" if "(k', v) \<in> set es" for k' v
  proof -
    have "\<forall>(k', v) \<in> set (?bs ! i). ok k' \<and> unat (vt_hash vt k') mod hm_capacity m = i"
      using inv' b(1) by simp
    with es [OF that] \<open>ok k\<close> i show ?thesis by auto
  qed
  ultimately show m': "Map_inv vt ok m'"
    using inv' b(1) d by (auto simp: Map_inv_def m'_def Map_entries_def nth_list_update)
  show "Map_abs m' = (Map_abs m)(k := map_of es k)"
  proof
    fix k'
    let ?j = "unat (vt_hash vt k') mod hm_capacity m"
    have "map_of (hm_buckets m' ! ?j) k' = Map_abs m' k'"
      using bucket_facts(3) [OF m' refl, of k'] by (simp add: m'_def)
    moreover have "map_of (?bs ! ?j) k' = Map_abs m k'" using bucket_facts(3) [OF inv refl, of k'] by simp
    ultimately show "Map_abs m' k' = ((Map_abs m)(k := map_of es k)) k'"
      using assms(5) [of k'] i b(1) by (cases "?j = i") (auto simp: m'_def)
  qed
qed

lemma put_correct:
  assumes inv: "Map_inv vt ok m" and "ok k"
  shows "\<exists>m'. Map_put vt (Some k) (Some v) m = Inr (Map_abs m k, m') \<and> Map_inv vt ok m' \<and>
    Map_abs m' = (Map_abs m)(k \<mapsto> v) \<and> hm_capacity m' = hm_capacity m \<and>
    hm_size m' = (if Map_abs m k = None then hm_size m + 1 else hm_size m)"
proof -
  define i where "i = unat (vt_hash vt k) mod hm_capacity m"
  note b = bucket_facts [OF inv i_def]
  obtain es old where c: "chain_insert vt k v (hm_buckets m ! i) = (es, old)" by fastforce
  note sp = chain_insert_spec [OF b(2) \<open>ok k\<close> c]
  define n where "n = (if old = None then hm_size m + 1 else hm_size m)"
  let ?m = "m\<lparr>hm_buckets := (hm_buckets m)[i := es], hm_size := n\<rparr>"
  have old: "old = Map_abs m k" using sp b(3) by simp
  have new: "k \<in> fst ` set (hm_buckets m ! i) \<longleftrightarrow> old \<noteq> None"
    using sp map_of_eq_None_iff [of "hm_buckets m ! i" k] by auto
  have fsts: "map fst es = map fst (hm_buckets m ! i) @ (if old = None then [k] else [])"
    using sp new by auto
  have "length es = length (hm_buckets m ! i) + (if old = None then 1 else 0)"
    using arg_cong [OF fsts, of length] by simp
  then have len: "n + length (hm_buckets m ! i) = hm_size m + length es" by (simp add: n_def)
  have d: "distinct (map fst es)" using fsts b(4) new by (auto split: if_splits)
  have es: "(k', v') \<in> set (hm_buckets m ! i) \<or> k' = k" if "(k', v') \<in> set es" for k' v'
    using that sp d b(4) map_of_eq_Some_iff [of es k' v']
      map_of_eq_Some_iff [of "hm_buckets m ! i" k' v'] by (auto split: if_splits)
  have "Map_put vt (Some k) (Some v) m = Inr (old, ?m)"
    using b(1) c index_ok [OF inv]
    by (simp add: Map_put_def Map_insertIntoBucket_def Map_bucket_def i_def n_def Let_def)
  moreover have "Map_inv vt ok ?m" "Map_abs ?m = (Map_abs m)(k := map_of es k)"
    by (rule update_bucket [OF inv i_def es \<open>ok k\<close> _ d len]; use sp in simp)+
  ultimately show ?thesis using sp old by (simp add: n_def)
qed

lemma remove_correct:
  assumes inv: "Map_inv vt ok m" and "ok k" and "Map_abs m k = Some v"
  shows "\<exists>m'. Map_remove vt (Some k) m = Inr (Some v, m') \<and> Map_inv vt ok m' \<and>
    Map_abs m' = (Map_abs m)(k := None) \<and> hm_capacity m' = hm_capacity m \<and>
    hm_size m' + 1 = hm_size m"
proof -
  define i where "i = unat (vt_hash vt k) mod hm_capacity m"
  note b = bucket_facts [OF inv i_def]
  obtain r es where c: "chain_remove vt k (hm_buckets m ! i) = (r, es)" by fastforce
  note sp = chain_remove_spec [OF b(2) \<open>ok k\<close> b(4) c]
  obtain k' where r: "r = Some (k', v)" using sp b(3) assms(3) by auto
  have mem: "(k, v) \<in> set (hm_buckets m ! i)" using b(3) assms(3) by (auto dest: map_of_SomeD)
  have "length es + 1 = length (hm_buckets m ! i)"
    using length_filter_key [OF b(4) mem] sp by simp
  moreover have "length (hm_buckets m ! i) \<le> hm_size m"
    using inv concat_update(1) [OF b(1)] by (simp add: Map_inv_def Map_entries_def)
  ultimately have len: "hm_size m - 1 + length (hm_buckets m ! i) = hm_size m + length es"
    and pos: "0 < hm_size m" by linarith+
  have d: "distinct (map fst es)" using sp b(4) by (simp add: distinct_map_filter)
  let ?m = "m\<lparr>hm_buckets := (hm_buckets m)[i := es], hm_size := hm_size m - 1\<rparr>"
  have "Map_remove vt (Some k) m = Inr (Some v, ?m)"
    using b(1) c r index_ok [OF inv]
    by (simp add: Map_remove_def Map_removeFromBucket_def Map_bucket_def i_def)
  moreover have "Map_inv vt ok ?m" "Map_abs ?m = (Map_abs m)(k := map_of es k)"
    by (rule update_bucket [OF inv i_def _ \<open>ok k\<close> _ d len];
        use sp in \<open>auto simp: map_of_filter_key\<close>)+
  moreover have "map_of es k = None" using sp by (auto simp: map_of_eq_None_iff)
  ultimately show ?thesis using pos by simp
qed

lemma remove_absent:
  assumes inv: "Map_inv vt ok m" and "ok k" and "Map_abs m k = None"
  shows "Map_remove vt (Some k) m = Inl AssertFail"
proof -
  define i where "i = unat (vt_hash vt k) mod hm_capacity m"
  note b = bucket_facts [OF inv i_def]
  obtain r es where c: "chain_remove vt k (hm_buckets m ! i) = (r, es)" by fastforce
  have "r = None" using chain_remove_spec [OF b(2) \<open>ok k\<close> b(4) c] b(3) assms(3) by simp
  with b(1) c index_ok [OF inv] show ?thesis
    by (simp add: Map_remove_def Map_removeFromBucket_def Map_bucket_def i_def)
qed

text \<open>What \<open>equals\<close> compares: the set of keys and, independently of it, the set of values.\<close>

lemma equals_correct:
  fixes m1 m2 :: "('k, 'v) hmap"
  assumes "Map_inv vt ok m1" and "Map_inv vt ok m2"
  shows "Map_equals vt (=) m1 m2 =
    Inr (dom (Map_abs m1) = dom (Map_abs m2) \<and> ran (Map_abs m1) = ran (Map_abs m2))"
proof -
  note inv = assms[unfolded Map_inv_def] and d = assms [THEN Map_inv_distinct]
  have ran: "ran (Map_abs m) = snd ` set (Map_entries m)" if "Map_inv vt ok m" for m :: "('k, 'v) hmap"
    using Map_inv_distinct [OF that] by (simp add: Map_abs_def ran_distinct)
  have ok: "\<forall>k \<in> set (map fst (Map_entries m)). ok k" if "Map_inv vt ok m" for m :: "('k, 'v) hmap"
    using Map_inv_keys_ok [OF that] by auto
  have inArr: "Map_isInArr (vt_equals vt) k ks \<longleftrightarrow> k \<in> set ks" if "ok k" "\<forall>k \<in> set ks. ok k" for k ks
    using that by (auto simp: Map_isInArr_def list_ex_iff equals_iff)
  have keys: "list_all (\<lambda>k. Map_isInArr (vt_equals vt) k (map fst (Map_entries m2))) (map fst (Map_entries m1))
    \<longleftrightarrow> dom (Map_abs m1) \<subseteq> dom (Map_abs m2)"
    using ok [OF assms(1)] inArr [OF _ ok [OF assms(2)]]
    by (simp add: list_all_iff dom_Map_abs image_subset_iff)
  have inVals: "Map_isInArr (=) v vs \<longleftrightarrow> v \<in> set vs" for v :: 'v and vs
    by (auto simp: Map_isInArr_def list_ex_iff)
  have vals: "list_all (\<lambda>v. Map_isInArr (=) v (map snd (Map_entries b))) (map snd (Map_entries a))
    \<longleftrightarrow> snd ` set (Map_entries a) \<subseteq> snd ` set (Map_entries b)" for a b :: "('k, 'v) hmap"
    by (simp add: inVals list_all_iff image_subset_iff)
  have fin: "finite (dom (Map_abs m2))" by (simp add: dom_Map_abs)
  have card: "dom (Map_abs m1) \<subseteq> dom (Map_abs m2) \<and> hm_size m1 = hm_size m2 \<longleftrightarrow>
      dom (Map_abs m1) = dom (Map_abs m2)"
    using card_subset_eq [OF fin] Map_size_card [OF assms(1)] Map_size_card [OF assms(2)] by auto
  have "Map_equals vt (=) m1 m2 = Inr (hm_size m1 = hm_size m2 \<and> dom (Map_abs m1) \<subseteq> dom (Map_abs m2) \<and>
      ran (Map_abs m1) \<subseteq> ran (Map_abs m2) \<and> ran (Map_abs m2) \<subseteq> ran (Map_abs m1))"
    using inv by (simp add: Map_equals_def Map_keys_list
        keys vals ran [OF assms(1)] ran [OF assms(2)] del: list.pred_map)
  then show ?thesis using card by (simp add: set_eq_subset [of "ran (Map_abs m1)"]) argo
qed

end

section \<open>Rebuilding a map from its entries\<close>

text \<open>\<open>put\<close> of an entry, forgetting the value it replaced.\<close>

definition Map_put_entry :: "'k vtbl \<Rightarrow> 'k \<times> 'v \<Rightarrow> ('k, 'v) hmap \<Rightarrow> ('k, 'v) hmap res" where
  "Map_put_entry vt e m = res_bind (Map_put vt (Some (fst e)) (Some (snd e)) m) (\<lambda>(_, m). Inr m)"

text \<open>The map whose chains list the entries \<open>es\<close> in their order.\<close>

definition hmap_of :: "'k vtbl \<Rightarrow> nat \<Rightarrow> ('k, 'v) entries \<Rightarrow> ('k, 'v) hmap" where
  "hmap_of vt c es =
     \<lparr>hm_buckets = map (\<lambda>i. filter (\<lambda>(k, v). unat (vt_hash vt k) mod c = i) es) [0..<c],
      hm_capacity = c, hm_size = length es\<rparr>"

lemma filter_bucket:
  assumes "\<forall>j < length bs. \<forall>(k, v) \<in> set (bs ! j). f k = j" and "i < length bs"
  shows "filter (\<lambda>(k, v). f k = i) (concat bs) = bs ! i"
  using assms
proof (induction bs rule: rev_induct)
  case Nil
  then show ?case by simp
next
  case (snoc b bs)
  have last: "\<forall>(k, v) \<in> set b. f k = length bs" using snoc.prems(1) by (metis length_append_singleton lessI nth_append_length)
  show ?case
  proof (cases "i = length bs")
    case True
    have "\<forall>e \<in> set (concat bs). \<not> (case e of (k, v) \<Rightarrow> f k = i)"
    proof
      fix e assume "e \<in> set (concat bs)"
      then obtain c where "c \<in> set bs" "e \<in> set c" by auto
      then obtain j where "j < length bs" "e \<in> set (bs ! j)" by (metis in_set_conv_nth)
      with snoc.prems(1) have "case e of (k, v) \<Rightarrow> f k = j"
        by (metis (no_types, lifting) length_append_singleton less_SucI nth_append)
      with \<open>j < length bs\<close> True show "\<not> (case e of (k, v) \<Rightarrow> f k = i)" by auto
    qed
    then have "filter (\<lambda>(k, v). f k = i) (concat bs) = []" by (simp only: filter_False)
    moreover have "filter (\<lambda>(k, v). f k = i) b = b" using last True by (auto simp: filter_id_conv)
    ultimately show ?thesis using True by simp
  next
    case False
    then have i: "i < length bs" using snoc.prems(2) by simp
    have "filter (\<lambda>(k, v). f k = i) (concat bs) = bs ! i"
      using snoc.prems(1) i by (intro snoc.IH) (auto simp: nth_append)
    moreover have "filter (\<lambda>(k, v). f k = i) b = []" using last False by (auto simp: filter_empty_conv)
    ultimately show ?thesis using i by (simp add: nth_append)
  qed
qed

lemma hmap_of_entries: "Map_inv vt ok m \<Longrightarrow> hmap_of vt (hm_capacity m) (Map_entries m) = m"
proof -
  assume inv: "Map_inv vt ok m"
  have "\<forall>j < length (hm_buckets m). \<forall>(k, v) \<in> set (hm_buckets m ! j).
      unat (vt_hash vt k) mod hm_capacity m = j"
    using inv by (auto simp: Map_inv_def)
  note fb = filter_bucket [of "hm_buckets m" "\<lambda>k. unat (vt_hash vt k) mod hm_capacity m", OF this]
  have len: "length (hm_buckets m) = hm_capacity m" using inv by (simp add: Map_inv_def)
  have "hm_buckets (hmap_of vt (hm_capacity m) (Map_entries m)) = hm_buckets m"
  proof (rule nth_equalityI)
    fix i assume "i < length (hm_buckets (hmap_of vt (hm_capacity m) (Map_entries m)))"
    then have "i < hm_capacity m" by (simp add: hmap_of_def)
    then show "hm_buckets (hmap_of vt (hm_capacity m) (Map_entries m)) ! i = hm_buckets m ! i"
      using fb [of i] len by (simp add: hmap_of_def Map_entries_def)
  qed (simp add: len hmap_of_def)
  with inv show ?thesis by (cases m) (simp add: hmap_of_def Map_inv_def)
qed

context hash_key
begin

lemma chain_insert_new:
  "keys_ok es \<Longrightarrow> ok k \<Longrightarrow> k \<notin> fst ` set es \<Longrightarrow> chain_insert vt k v es = (es @ [(k, v)], None)"
  by (induction es) (auto simp: equals_iff)

lemma put_all_new:
  assumes "keys_ok es" and "distinct (map fst es)" and "0 < c"
  shows "res_fold (Map_put_entry vt) es (Map_new c) = Inr (hmap_of vt c es)"
  using assms
proof (induction es rule: rev_induct)
  case Nil
  then show ?case by (auto simp: hmap_of_def Map_new_def map_replicate_const)
next
  case (snoc e es)
  obtain k v where e: "e = (k, v)" by (cases e)
  define i where "i = unat (vt_hash vt k) mod c"
  let ?b = "filter (\<lambda>(k, v). unat (vt_hash vt k) mod c = i) es"
  have i: "i < c" using snoc.prems(3) by (simp add: i_def)
  have "chain_insert vt k v ?b = (?b @ [(k, v)], None)"
    using snoc.prems(1,2) e by (intro chain_insert_new) auto
  then have "Map_put_entry vt e (hmap_of vt c es) = Inr (hmap_of vt c (es @ [e]))"
    using i snoc.prems(3) e
    by (auto simp: Map_put_entry_def Map_put_def Map_index_def Map_insertIntoBucket_def Map_bucket_def hmap_of_def
        i_def [symmetric] Let_def nth_list_update intro!: nth_equalityI)
  moreover have "res_fold (Map_put_entry vt) es (Map_new c) = Inr (hmap_of vt c es)"
    using snoc.prems by (intro snoc.IH) auto
  ultimately show ?case by (simp add: res_fold_append)
qed

text \<open>Inserting the entries of a map, in the order \<open>get_keys\<close> lists them, restores the map.\<close>

lemma rebuild:
  assumes "Map_inv vt ok m"
  shows "res_fold (Map_put_entry vt) (Map_entries m) (Map_new (hm_capacity m)) = Inr m"
proof -
  have "keys_ok (Map_entries m)" using Map_inv_keys_ok [OF assms] by auto
  then show ?thesis
    using put_all_new [OF _ Map_inv_distinct [OF assms], of "hm_capacity m"] hmap_of_entries [OF assms] assms
    by (simp add: Map_inv_def)
qed

text \<open>Putting the entries of one map into another one is map update.\<close>

lemma put_all_correct:
  assumes "Map_inv vt ok m" and "keys_ok es"
  shows "\<exists>m'. res_fold (Map_put_entry vt) es m = Inr m' \<and> Map_inv vt ok m' \<and>
    Map_abs m' = Map_abs m ++ map_of (rev es) \<and> hm_capacity m' = hm_capacity m"
  using assms
proof (induction es arbitrary: m)
  case Nil
  then show ?case by simp
next
  case (Cons e es)
  obtain k v where e: "e = (k, v)" by (cases e)
  obtain m1 where m1: "Map_put_entry vt e m = Inr m1" "Map_inv vt ok m1"
    "Map_abs m1 = (Map_abs m)(k \<mapsto> v)" "hm_capacity m1 = hm_capacity m"
    using put_correct [OF Cons.prems(1), of k v] Cons.prems(2) e by (auto simp: Map_put_entry_def)
  obtain m2 where m2: "res_fold (Map_put_entry vt) es m1 = Inr m2" "Map_inv vt ok m2"
    "Map_abs m2 = Map_abs m1 ++ map_of (rev es)" "hm_capacity m2 = hm_capacity m1"
    using Cons.IH [OF m1(2)] Cons.prems(2) by auto
  have "(Map_abs m)(k \<mapsto> v) ++ map_of (rev es) = Map_abs m ++ map_of (rev (e # es))"
    by (rule ext) (simp add: e map_add_def split: option.splits)
  with m1 m2 show ?case by simp
qed

end

section \<open>String keys: \<open>MapStrObj\<close>\<close>

definition String_vt :: "String vtbl" where
  "String_vt = \<lparr>vt_equals = String_equals, vt_hash = String_hash_me\<rparr>"

interpretation String_key: hash_key String_vt String_wf
  by unfold_locales (simp add: String_vt_def String_equals_wf)

text \<open>
  \<open>MapStrObj\<close> forwards to a \<open>Map\<close> of capacity 4 it owns (the capacity argument of its
  constructor is not used) and copies that map's size into its own \<open>size_\<close> field.
\<close>

record 'v MapStrObj =
  mso_helper :: "(String, 'v) hmap"
  mso_size :: nat

definition MapStrObj_new :: "'v MapStrObj" where
  "MapStrObj_new = \<lparr>mso_helper = Map_default, mso_size = 0\<rparr>"

definition MapStrObj_put ::
    "String option \<Rightarrow> 'v option \<Rightarrow> 'v MapStrObj \<Rightarrow> ('v option \<times> 'v MapStrObj) res" where
  "MapStrObj_put key val m =
     res_bind (Map_put String_vt key val (mso_helper m)) (\<lambda>(prev, h).
     Inr (prev, m\<lparr>mso_helper := h, mso_size := hm_size h\<rparr>))"

definition MapStrObj_get :: "String option \<Rightarrow> 'v MapStrObj \<Rightarrow> 'v option res" where
  "MapStrObj_get key m = Map_get String_vt key (mso_helper m)"

definition MapStrObj_remove :: "String option \<Rightarrow> 'v MapStrObj \<Rightarrow> ('v option \<times> 'v MapStrObj) res" where
  "MapStrObj_remove key m =
     res_bind (Map_remove String_vt key (mso_helper m)) (\<lambda>(removed, h).
     Inr (removed, m\<lparr>mso_helper := h, mso_size := hm_size h\<rparr>))"

definition MapStrObj_contains_key :: "String option \<Rightarrow> 'v MapStrObj \<Rightarrow> bool res" where
  "MapStrObj_contains_key key m = Map_contains_key String_vt key (mso_helper m)"

definition MapStrObj_equals ::
    "('v \<Rightarrow> 'v \<Rightarrow> bool) \<Rightarrow> 'v MapStrObj \<Rightarrow> 'v MapStrObj \<Rightarrow> bool res" where
  "MapStrObj_equals veq this other =
     (if mso_size this \<noteq> mso_size other then Inr False
      else Map_equals String_vt veq (mso_helper this) (mso_helper other))"

definition MapStrObj_inv :: "'v MapStrObj \<Rightarrow> bool" where
  "MapStrObj_inv m \<longleftrightarrow> Map_inv String_vt String_wf (mso_helper m) \<and> mso_size m = hm_size (mso_helper m)"

definition MapStrObj_abs :: "'v MapStrObj \<Rightarrow> String \<rightharpoonup> 'v" where
  "MapStrObj_abs m = Map_abs (mso_helper m)"

lemma MapStrObj_new_ok [simp]: "MapStrObj_inv MapStrObj_new" "MapStrObj_abs MapStrObj_new = Map.empty"
  by (simp_all add: MapStrObj_inv_def MapStrObj_abs_def MapStrObj_new_def Map_default_def)

lemma MapStrObj_put_correct:
  assumes "MapStrObj_inv m" and "String_wf k"
  shows "\<exists>m'. MapStrObj_put (Some k) (Some v) m = Inr (MapStrObj_abs m k, m') \<and> MapStrObj_inv m' \<and>
    MapStrObj_abs m' = (MapStrObj_abs m)(k \<mapsto> v)"
  using String_key.put_correct [of "mso_helper m" k v] assms
  by (auto simp: MapStrObj_inv_def MapStrObj_abs_def MapStrObj_put_def)

lemma MapStrObj_get_correct:
  "MapStrObj_inv m \<Longrightarrow> String_wf k \<Longrightarrow> MapStrObj_get (Some k) m = Inr (MapStrObj_abs m k)"
  by (simp add: MapStrObj_get_def MapStrObj_inv_def MapStrObj_abs_def String_key.get_correct)

section \<open>Properties\<close>

text \<open>C31: The string map is a map. Storing under a key returns what was stored before, keeps the
  map well formed (every entry in the bucket of its hash, no key twice, the size the number of
  keys), and changes what is found under that key and under no other, hash collisions
  included.\<close>

theorem MapStrObj_get_put:
  assumes "MapStrObj_inv m" and "String_wf k" and "String_wf k'"
  shows "\<exists>m'. MapStrObj_put (Some k) (Some v) m = Inr (MapStrObj_abs m k, m') \<and> MapStrObj_inv m' \<and>
    MapStrObj_get (Some k') m' = (if k' = k then Inr (Some v) else MapStrObj_get (Some k') m) \<and>
    MapStrObj_contains_key (Some k) m' = Inr True"
proof -
  obtain m' where m': "MapStrObj_put (Some k) (Some v) m = Inr (MapStrObj_abs m k, m')" "MapStrObj_inv m'"
    "MapStrObj_abs m' = (MapStrObj_abs m)(k \<mapsto> v)"
    using MapStrObj_put_correct [OF assms(1,2)] by blast
  have "MapStrObj_contains_key (Some k) m' = Inr (MapStrObj_abs m' k \<noteq> None)"
    using String_key.contains_correct [of "mso_helper m'" k] m'(2) assms(2)
    by (simp add: MapStrObj_contains_key_def MapStrObj_inv_def MapStrObj_abs_def)
  with m' show ?thesis
    using MapStrObj_get_correct [OF m'(2) assms(3)] MapStrObj_get_correct [OF assms(1,3)] by simp
qed

lemma MapStrObj_get_put_witness:
  "\<exists>m'. MapStrObj_put (Some (String_lit ''a'')) (Some (7 :: nat)) MapStrObj_new = Inr (None, m') \<and>
     MapStrObj_get (Some (String_lit ''a'')) m' = Inr (Some 7)"
  using MapStrObj_get_put [OF MapStrObj_new_ok(1), of "String_lit ''a''" "String_lit ''a''" "7 :: nat"]
  by (auto simp: cstr_ok_def)

lemma MapStrObj_remove_correct:
  assumes "MapStrObj_inv m" and "String_wf k" and "MapStrObj_abs m k = Some v"
  shows "\<exists>m'. MapStrObj_remove (Some k) m = Inr (Some v, m') \<and> MapStrObj_inv m' \<and>
    MapStrObj_abs m' = (MapStrObj_abs m)(k := None)"
  using String_key.remove_correct [of "mso_helper m" k v] assms
  by (auto simp: MapStrObj_inv_def MapStrObj_abs_def MapStrObj_remove_def)

text \<open>Removing undoes storing: after a new key is stored and removed again, every key is found
  as before and the size is the old one; removing a key that is not there fails the assertion in
  \<open>Map::remove\<close>.\<close>

theorem MapStrObj_remove_put:
  assumes "MapStrObj_inv m" and "String_wf k" and "MapStrObj_abs m k = None"
  shows "MapStrObj_remove (Some k) m = Inl AssertFail \<and>
    (\<exists>m1 m2. MapStrObj_put (Some k) (Some v) m = Inr (None, m1) \<and> mso_size m1 = mso_size m + 1 \<and>
       MapStrObj_remove (Some k) m1 = Inr (Some v, m2) \<and> MapStrObj_inv m2 \<and>
       MapStrObj_abs m2 = MapStrObj_abs m \<and> mso_size m2 = mso_size m)"
proof -
  have h: "Map_inv String_vt String_wf (mso_helper m)" "Map_abs (mso_helper m) k = None" "mso_size m = hm_size (mso_helper m)"
    using assms by (simp_all add: MapStrObj_inv_def MapStrObj_abs_def)
  obtain h1 where h1: "Map_put String_vt (Some k) (Some v) (mso_helper m) = Inr (None, h1)" "Map_inv String_vt String_wf h1"
    "Map_abs h1 = (Map_abs (mso_helper m))(k \<mapsto> v)" "hm_size h1 = hm_size (mso_helper m) + 1"
    using String_key.put_correct [OF h(1) assms(2), of v] h(2) by auto
  then obtain h2 where "Map_remove String_vt (Some k) h1 = Inr (Some v, h2)" "Map_inv String_vt String_wf h2"
    "Map_abs h2 = (Map_abs h1)(k := None)" "hm_size h2 + 1 = hm_size h1"
    using String_key.remove_correct [OF h1(2) assms(2), of v] by auto
  then show ?thesis
    using h h1 String_key.remove_absent [OF h(1) assms(2) h(2)]
    by (auto simp: MapStrObj_remove_def MapStrObj_put_def MapStrObj_inv_def MapStrObj_abs_def)
qed

lemma MapStrObj_remove_put_witness:
  "MapStrObj_remove (Some (String_lit ''a'')) (MapStrObj_new :: nat MapStrObj) = Inl AssertFail"
  using MapStrObj_remove_put [OF MapStrObj_new_ok(1), of "String_lit ''a''" "1 :: nat"] by (simp add: cstr_ok_def)

text \<open>Equality of maps compares the sets of keys and the sets of values, each by itself, and not
  which value is stored under which key.\<close>

theorem MapStrObj_equals_sets:
  assumes "MapStrObj_inv m" and "MapStrObj_inv n"
  shows "MapStrObj_equals (=) m n =
    Inr (dom (MapStrObj_abs m) = dom (MapStrObj_abs n) \<and> ran (MapStrObj_abs m) = ran (MapStrObj_abs n))"
proof -
  have h: "Map_inv String_vt String_wf (mso_helper m)" "Map_inv String_vt String_wf (mso_helper n)"
    "mso_size m = hm_size (mso_helper m)" "mso_size n = hm_size (mso_helper n)"
    using assms by (simp_all add: MapStrObj_inv_def)
  then have "mso_size m = card (dom (MapStrObj_abs m))" "mso_size n = card (dom (MapStrObj_abs n))"
    by (simp_all add: MapStrObj_abs_def Map_size_card [of String_vt String_wf])
  then show ?thesis
    using String_key.equals_correct [OF h(1,2)]
    by (cases "mso_size m = mso_size n") (auto simp: MapStrObj_equals_def MapStrObj_abs_def)
qed

text \<open>The two maps of the witness have different values under both keys.\<close>

lemma MapStrObj_equals_sets_witness:
  "\<exists>m n :: nat MapStrObj. MapStrObj_equals (=) m n = Inr True \<and>
     MapStrObj_abs m = [String_lit ''a'' \<mapsto> 1, String_lit ''b'' \<mapsto> 2] \<and>
     MapStrObj_abs n = [String_lit ''a'' \<mapsto> 2, String_lit ''b'' \<mapsto> 1]"
proof -
  have w: "String_wf (String_lit ''a'')" "String_wf (String_lit ''b'')" by (simp_all add: cstr_ok_def)
  have two: "\<exists>m :: nat MapStrObj. MapStrObj_inv m \<and>
      MapStrObj_abs m = [String_lit ''a'' \<mapsto> x, String_lit ''b'' \<mapsto> y]" for x y
    using MapStrObj_put_correct [OF MapStrObj_new_ok(1) w(1), of x] MapStrObj_put_correct [OF _ w(2), of _ y]
    by fastforce
  obtain m n :: "nat MapStrObj" where mn: "MapStrObj_inv m" "MapStrObj_inv n"
    "MapStrObj_abs m = [String_lit ''a'' \<mapsto> 1, String_lit ''b'' \<mapsto> 2]"
    "MapStrObj_abs n = [String_lit ''a'' \<mapsto> 2, String_lit ''b'' \<mapsto> 1]"
    using two [of 1 2] two [of 2 1] by blast
  then have "MapStrObj_equals (=) m n = Inr True"
    by (simp add: MapStrObj_equals_sets) (auto simp: ran_def)
  with mn show ?thesis by blast
qed

end
