(* ===== verification/Store.thy ===== *)
theory Store
  imports HashMap
begin

text \<open>
  The data the distributed store is made of: \<open>Key\<close> (\<open>src/store/key.h\<close>), \<open>Value\<close>
  (\<open>src/store/value.h\<close>) and \<open>KeyBuff\<close> (\<open>src/store/keybuff.h\<close>).

  \<open>Key\<close> is used as a key of a hash map, so it interprets \<open>hash_key\<close>; its hash is the one
  of \<open>Object\<close>, the constant 1, because the class defines \<open>hash_me_\<close> and not \<open>hash_me\<close>.
  Both classes travel in messages, so they interpret \<open>codec\<close>.
\<close>

section \<open>Key\<close>

record Key =
  k_str :: String
  k_homeNode :: u64

definition Key_new :: "char list \<Rightarrow> u64 \<Rightarrow> Key res" where
  "Key_new keyStr node =
     res_bind (String_of_cstr keyStr) (\<lambda>x. Inr \<lparr>k_str = x, k_homeNode = node\<rparr>)"

definition Key_of_String :: "String \<Rightarrow> u64 \<Rightarrow> Key res" where
  "Key_of_String str node =
     res_bind (String_copy str) (\<lambda>x. Inr \<lparr>k_str = x, k_homeNode = node\<rparr>)"

definition Key_default :: "Key res" where
  "Key_default = Key_new [NUL] 0"

definition Key_serialize :: "Key \<Rightarrow> Serializer \<Rightarrow> Serializer res" where
  "Key_serialize k s = res_bind (String_serialize (k_str k) s) (write_size_t (k_homeNode k))"

definition Key_deserialize :: "Serializer \<Rightarrow> (Key \<times> Serializer) res" where
  "Key_deserialize s =
     res_bind (String_deserialize s) (\<lambda>(x, s).
     res_bind (readSizeT s) (\<lambda>(n, s). Inr (\<lparr>k_str = x, k_homeNode = n\<rparr>, s)))"

definition Key_equals :: "Key \<Rightarrow> Key \<Rightarrow> bool" where
  "Key_equals k other \<longleftrightarrow> String_equals (k_str k) (k_str other) \<and> k_homeNode k = k_homeNode other"

definition Key_clone :: "Key \<Rightarrow> Key res" where
  "Key_clone k = Key_of_String (k_str k) (k_homeNode k)"

definition Key_addIndex :: "nat \<Rightarrow> Key \<Rightarrow> Key res" where
  "Key_addIndex idx k =
     res_bind (StrBuff_c_String (k_str k) StrBuff_new) (\<lambda>sb.
     res_bind (StrBuff_c_cstr [CHR ''-'', NUL] sb) (\<lambda>sb.
     res_bind (StrBuff_c_size_t idx sb) (\<lambda>sb.
     res_bind (StrBuff_get sb) (\<lambda>(newStrRes, sb).
     Key_of_String newStrRes (k_homeNode k)))))"

text \<open>\<open>Object::hash\<close> falls back to \<open>Object::hash_me\<close>, which returns 1.\<close>

definition Key_hash :: "Key \<Rightarrow> u64" where
  "Key_hash k = 1"

definition Key_vt :: "Key vtbl" where
  "Key_vt = \<lparr>vt_equals = Key_equals, vt_hash = Key_hash\<rparr>"

subsection \<open>Key as a value\<close>

definition Key_ok :: "Key \<Rightarrow> bool" where
  "Key_ok k \<longleftrightarrow> String_wf (k_str k)"

definition Key_lit :: "char list \<Rightarrow> u64 \<Rightarrow> Key" where
  "Key_lit cs n = \<lparr>k_str = String_lit cs, k_homeNode = n\<rparr>"

definition enc_Key :: "Key \<Rightarrow> char list" where
  "enc_Key k = enc_String (k_str k) @ enc_u64 (k_homeNode k)"

lemma Key_lit_sel [simp]: "k_str (Key_lit cs n) = String_lit cs" "k_homeNode (Key_lit cs n) = n"
  by (simp_all add: Key_lit_def)

lemma Key_ok_lit [simp]: "Key_ok (Key_lit cs n) \<longleftrightarrow> cstr_ok cs"
  by (simp add: Key_ok_def)

lemma Key_lit_inject [simp]: "Key_lit a m = Key_lit b n \<longleftrightarrow> a = b \<and> m = n"
  by (simp add: Key_lit_def)

lemma Key_okE:
  assumes "Key_ok k"
  obtains cs n where "k = Key_lit cs n" and "cstr_ok cs"
proof -
  obtain cs where "k_str k = String_lit cs" "cstr_ok cs"
    using assms by (auto simp: Key_ok_def elim: String_wfE)
  then show ?thesis using that [of cs "k_homeNode k"] by (cases k) (simp add: Key_lit_def)
qed

lemma Key_new_lit [simp]: "NUL \<notin> set cs \<Longrightarrow> Key_new (cs @ NUL # rest) n = Inr (Key_lit cs n)"
  by (simp add: Key_new_def Key_lit_def)

lemma Key_of_String_lit [simp]: "Key_of_String (String_lit cs) n = Inr (Key_lit cs n)"
  by (simp add: Key_of_String_def Key_lit_def)

lemma Key_default_lit [simp]: "Key_default = Inr (Key_lit [] 0)"
  using Key_new_lit [of "[]" "[]" 0] by (simp add: Key_default_def)

lemma Key_clone_ok [simp]: "Key_ok k \<Longrightarrow> Key_clone k = Inr k"
  by (erule Key_okE) (simp add: Key_clone_def)

lemma Key_equals_ok: "Key_ok a \<Longrightarrow> Key_ok b \<Longrightarrow> Key_equals a b \<longleftrightarrow> a = b"
  by (auto elim!: Key_okE simp: Key_equals_def)

interpretation Key_key: hash_key Key_vt Key_ok
  by unfold_locales (simp add: Key_vt_def Key_equals_ok)

interpretation Key_codec: codec Key_serialize Key_deserialize enc_Key Key_ok
proof unfold_locales
  fix k assume k: "Key_ok k"
  then have wf: "String_wf (k_str k)" by (simp add: Key_ok_def)
  show "writes (Key_serialize k) (enc_Key k)"
    using writes_bind [OF String_codec.ser_writes [OF wf] writes_prims(1) [of "k_homeNode k"]]
    by (simp add: Key_serialize_def [abs_def] enc_Key_def)
  show "reads Key_deserialize (enc_Key k) k"
    unfolding Key_deserialize_def [abs_def] enc_Key_def
    by (rule reads_mk2 [OF String_codec.deser_reads [OF wf] reads_prims(1)]) simp
qed

text \<open>\<open>addIndex\<close> appends a dash and the decimal index.\<close>

lemma Key_addIndex_lit:
  assumes "cstr_ok cs"
  shows "Key_addIndex idx (Key_lit cs n) = Inr (Key_lit (cs @ ''-'' @ to_string idx) n)"
proof -
  obtain b1 where b1: "StrBuff_c_String (String_lit cs) StrBuff_new = Inr b1" "StrBuff_repr b1 cs"
    using StrBuff_c_String_appends [OF StrBuff_repr_new assms] by auto
  obtain b2 where b2: "StrBuff_c_cstr [CHR ''-'', NUL] b1 = Inr b2" "StrBuff_repr b2 (cs @ ''-'')"
    using StrBuff_c_cstr_appends [OF b1(2), of "''-''" "[]"] by auto
  obtain b3 where b3: "StrBuff_c_size_t idx b2 = Inr b3" "StrBuff_repr b3 ((cs @ ''-'') @ to_string idx)"
    using StrBuff_c_size_t_appends [OF b2(2)] by blast
  obtain b4 where "StrBuff_get b3 = Inr (String_lit ((cs @ ''-'') @ to_string idx), b4)"
    using StrBuff_get_content [OF b3(2)] by blast
  with b1 b2 b3 show ?thesis by (simp add: Key_addIndex_def)
qed

section \<open>Value\<close>

record Value =
  v_val :: "char list"
  v_capacity :: nat

definition Value_default :: Value where
  "Value_default = \<lparr>v_val = [NUL, NUL], v_capacity = 2\<rparr>"

definition Value_new :: "char list \<Rightarrow> nat \<Rightarrow> Value res" where
  "Value_new data cap = res_bind (mem_load data 0 cap) (\<lambda>bs. Inr \<lparr>v_val = bs, v_capacity = cap\<rparr>)"

definition Value_serialize :: "Value \<Rightarrow> Serializer \<Rightarrow> Serializer res" where
  "Value_serialize v s =
     res_bind (write_size_t (of_nat (v_capacity v)) s) (write_buf (v_capacity v) (v_val v))"

definition Value_deserialize :: "Serializer \<Rightarrow> (Value \<times> Serializer) res" where
  "Value_deserialize s =
     res_bind (readSizeT s) (\<lambda>(cap, s).
     res_bind (readCharPtr (unat cap) s) (\<lambda>(bs, s).
     Inr (\<lparr>v_val = bs, v_capacity = unat cap\<rparr>, s)))"

definition Value_equals :: "Value \<Rightarrow> Value \<Rightarrow> bool" where
  "Value_equals v other \<longleftrightarrow> v_capacity v = v_capacity other \<and>
     take (v_capacity v) (v_val v) = take (v_capacity v) (v_val other)"

definition Value_clone :: "Value \<Rightarrow> Value res" where
  "Value_clone v = Value_new (v_val v) (v_capacity v)"

definition Value_ok :: "Value \<Rightarrow> bool" where
  "Value_ok v \<longleftrightarrow> length (v_val v) = v_capacity v \<and> v_capacity v < 2 ^ 64"

definition Value_lit :: "char list \<Rightarrow> Value" where
  "Value_lit bs = \<lparr>v_val = bs, v_capacity = length bs\<rparr>"

definition enc_Value :: "Value \<Rightarrow> char list" where
  "enc_Value v = enc_u64 (of_nat (v_capacity v)) @ v_val v"

lemma Value_lit_sel [simp]: "v_val (Value_lit bs) = bs" "v_capacity (Value_lit bs) = length bs"
  by (simp_all add: Value_lit_def)

lemma Value_ok_lit [simp]: "Value_ok (Value_lit bs) \<longleftrightarrow> length bs < 2 ^ 64"
  by (simp add: Value_ok_def)

lemma Value_okE:
  assumes "Value_ok v"
  obtains bs where "v = Value_lit bs" and "length bs < 2 ^ 64"
  using assms that [of "v_val v"] by (cases v) (simp add: Value_ok_def Value_lit_def)

lemma Value_new_take: "n \<le> length bs \<Longrightarrow> Value_new bs n = Inr (Value_lit (take n bs))"
  by (simp add: Value_new_def mem_load_def Value_lit_def min_absorb2)

lemma Value_clone_ok [simp]: "Value_ok v \<Longrightarrow> Value_clone v = Inr v"
  by (erule Value_okE) (simp add: Value_clone_def Value_new_take)

lemma Value_equals_ok: "Value_ok a \<Longrightarrow> Value_ok b \<Longrightarrow> Value_equals a b \<longleftrightarrow> a = b"
  by (cases a; cases b) (auto simp: Value_equals_def Value_ok_def)

interpretation Value_codec: codec Value_serialize Value_deserialize enc_Value Value_ok
proof unfold_locales
  fix v assume v: "Value_ok v"
  then have len: "length (v_val v) = v_capacity v" "v_capacity v < 2 ^ 64" by (simp_all add: Value_ok_def)
  show "writes (Value_serialize v) (enc_Value v)"
    using writes_bind [OF writes_prims(1) [of "of_nat (v_capacity v)"] writes_buf [of "v_capacity v" "v_val v"]] len
    by (simp add: Value_serialize_def [abs_def] enc_Value_def)
  have "reads (\<lambda>s. res_bind (readCharPtr (v_capacity v) s) (\<lambda>(bs, s). Inr (\<lparr>v_val = bs, v_capacity = v_capacity v\<rparr>, s)))
      (v_val v @ []) v"
    using len by (intro reads_bind [OF reads_charptr] reads_Inr_eq) simp_all
  then have "reads (\<lambda>s. res_bind (readSizeT s) (\<lambda>(cap, s). res_bind (readCharPtr (unat cap) s) (\<lambda>(bs, s).
      Inr (\<lparr>v_val = bs, v_capacity = unat cap\<rparr>, s)))) (enc_u64 (of_nat (v_capacity v)) @ v_val v) v"
    using len by (intro reads_bind [OF reads_prims(1)]) simp
  then show "reads Value_deserialize (enc_Value v) v"
    by (simp add: Value_deserialize_def [abs_def] enc_Value_def)
qed

section \<open>KeyBuff\<close>

record KeyBuff =
  kb_orig :: Key
  kb_buf :: StrBuff

definition KeyBuff_new :: "Key \<Rightarrow> KeyBuff res" where
  "KeyBuff_new orig =
     res_bind (Key_clone orig) (\<lambda>k.
     res_bind (StrBuff_of_String (k_str orig)) (\<lambda>b. Inr \<lparr>kb_orig = k, kb_buf = b\<rparr>))"

definition KeyBuff_c_String :: "String \<Rightarrow> KeyBuff \<Rightarrow> KeyBuff res" where
  "KeyBuff_c_String x kb = res_bind (StrBuff_c_String x (kb_buf kb)) (\<lambda>b. Inr (kb\<lparr>kb_buf := b\<rparr>))"

definition KeyBuff_c_size_t :: "nat \<Rightarrow> KeyBuff \<Rightarrow> KeyBuff res" where
  "KeyBuff_c_size_t v kb = res_bind (StrBuff_c_size_t v (kb_buf kb)) (\<lambda>b. Inr (kb\<lparr>kb_buf := b\<rparr>))"

definition KeyBuff_c_cstr :: "char list \<Rightarrow> KeyBuff \<Rightarrow> KeyBuff res" where
  "KeyBuff_c_cstr v kb = res_bind (StrBuff_c_cstr v (kb_buf kb)) (\<lambda>b. Inr (kb\<lparr>kb_buf := b\<rparr>))"

text \<open>
  \<open>get\<close>: the string returned by \<open>buf_.get()\<close> and the buffer share one array, and the key's
  own text is appended to the buffer again before the string is read. Had that append
  reallocated (which shows in the capacity), the string would read freed memory.
\<close>

definition KeyBuff_get :: "KeyBuff \<Rightarrow> (Key \<times> KeyBuff) res" where
  "KeyBuff_get kb =
     res_bind (StrBuff_get (kb_buf kb)) (\<lambda>(s, b0).
     res_bind (StrBuff_c_cstr (str_chars (k_str (kb_orig kb))) b0) (\<lambda>b1.
       if sb_capacity b1 \<noteq> sb_capacity b0 then Inl UseAfterFree
       else
         res_bind (cells_load (sb_val b1) 0 (str_size s + 1)) (\<lambda>stolen.
         res_bind (Key_new stolen (k_homeNode (kb_orig kb))) (\<lambda>k.
         Inr (k, kb\<lparr>kb_buf := b1\<rparr>)))))"

text \<open>The buffer of \<open>kb\<close> extends the key \<open>cs\<close> at node \<open>n\<close> by \<open>ds\<close>.\<close>

definition KeyBuff_repr :: "KeyBuff \<Rightarrow> char list \<Rightarrow> u64 \<Rightarrow> char list \<Rightarrow> bool" where
  "KeyBuff_repr kb cs n ds \<longleftrightarrow> kb_orig kb = Key_lit cs n \<and> StrBuff_repr (kb_buf kb) (cs @ ds)"

lemma KeyBuff_new_repr:
  assumes "cstr_ok cs"
  shows "\<exists>kb. KeyBuff_new (Key_lit cs n) = Inr kb \<and> KeyBuff_repr kb cs n []"
  using StrBuff_of_String_repr [OF assms] assms by (auto simp: KeyBuff_new_def KeyBuff_repr_def)

lemma KeyBuff_c_repr:
  assumes "KeyBuff_repr kb cs n ds"
  shows "cstr_ok es \<Longrightarrow> \<exists>kb'. KeyBuff_c_String (String_lit es) kb = Inr kb' \<and> KeyBuff_repr kb' cs n (ds @ es)"
    and "\<exists>kb'. KeyBuff_c_size_t v kb = Inr kb' \<and> KeyBuff_repr kb' cs n (ds @ to_string v)"
    and "NUL \<notin> set es \<Longrightarrow> \<exists>kb'. KeyBuff_c_cstr (es @ NUL # rest) kb = Inr kb' \<and> KeyBuff_repr kb' cs n (ds @ es)"
  using assms StrBuff_c_String_appends [of "kb_buf kb" "cs @ ds" es]
    StrBuff_c_size_t_appends [of "kb_buf kb" "cs @ ds" v] StrBuff_c_cstr_appends [of "kb_buf kb" "cs @ ds" es rest]
  by (auto simp: KeyBuff_repr_def KeyBuff_c_String_def KeyBuff_c_size_t_def KeyBuff_c_cstr_def)

text \<open>
  \<open>get\<close> returns the extended key, and leaves the buffer ready to extend the original key again:
  the text of the original key overwrites an equal prefix of the shared array.
\<close>

lemma KeyBuff_get_repr:
  assumes r: "KeyBuff_repr kb cs n ds" and ok: "cstr_ok cs" "NUL \<notin> set ds"
  shows "\<exists>kb'. KeyBuff_get kb = Inr (Key_lit (cs @ ds) n, kb') \<and> KeyBuff_repr kb' cs n []"
proof -
  have nul: "NUL \<notin> set cs" "NUL \<notin> set (cs @ ds)" using ok by (simp_all add: cstr_ok_def)
  obtain b0 where b0: "StrBuff_get (kb_buf kb) = Inr (String_lit (cs @ ds), b0)" "StrBuff_repr b0 []"
    "holds ((cs @ ds) @ [NUL]) (sb_val b0)" "length (cs @ ds) + 1 < sb_capacity b0"
    using StrBuff_get_shared [of "kb_buf kb" "cs @ ds"] r by (auto simp: KeyBuff_repr_def)
  then obtain rest where v0: "sb_val b0 = map Some ((cs @ ds) @ [NUL]) @ rest" and z: "sb_size b0 = 0"
    by (auto simp: holds_alt StrBuff_repr_def)
  have st: "cells_store (sb_val b0) 0 cs = Inr (sb_val b0)"
    unfolding v0 by (simp add: cells_store_def)
  have c: "StrBuff_c_cstr (cs @ [NUL]) b0 = Inr (b0\<lparr>sb_size := length cs\<rparr>)"
    using c_strlen_nul [OF nul(1), of "[]"] b0(4) st z
    by (simp add: StrBuff_c_cstr_def StrBuff_c_n_def StrBuff_grow_by_def mem_load_def)
  have ld: "cells_load (sb_val b0) 0 (length (cs @ ds) + 1) = Inr ((cs @ ds) @ [NUL])"
    using cells_load_holds [OF b0(3), of 0 "length (cs @ ds) + 1"] by simp
  have "KeyBuff_get kb = Inr (Key_lit (cs @ ds) n, kb\<lparr>kb_buf := b0\<lparr>sb_size := length cs\<rparr>\<rparr>)"
    using r b0(1) c ld Key_new_lit [OF nul(2), of "[]" n] by (simp add: KeyBuff_get_def KeyBuff_repr_def)
  moreover have "StrBuff_repr (b0\<lparr>sb_size := length cs\<rparr>) cs"
    using b0(2,3) by (auto simp: StrBuff_repr_def intro: holds_prefix)
  ultimately show ?thesis using r by (simp add: KeyBuff_repr_def)
qed

section \<open>Properties\<close>

text \<open>A \<open>KeyBuff\<close> builds keys. After any pieces are added, \<open>get\<close> returns the original key with the
  pieces appended, on the original home node, and the buffer can be used again: pieces added
  afterwards extend the original key, although \<open>get\<close> lets the returned string and the buffer share
  one array.\<close>

theorem KeyBuff_get_twice:
  assumes "cstr_ok cs" and "cstr_ok ds" and "cstr_ok es"
  shows "\<exists>b b1 b2 b3 b4. KeyBuff_new (Key_lit cs n) = Inr b \<and> KeyBuff_c_String (String_lit ds) b = Inr b1 \<and>
    KeyBuff_get b1 = Inr (Key_lit (cs @ ds) n, b2) \<and> KeyBuff_c_String (String_lit es) b2 = Inr b3 \<and>
    KeyBuff_get b3 = Inr (Key_lit (cs @ es) n, b4)"
proof -
  obtain b where b: "KeyBuff_new (Key_lit cs n) = Inr b" "KeyBuff_repr b cs n []"
    using KeyBuff_new_repr [OF assms(1)] by blast
  obtain b1 where b1: "KeyBuff_c_String (String_lit ds) b = Inr b1" "KeyBuff_repr b1 cs n ds"
    using KeyBuff_c_repr(1) [OF b(2) assms(2)] by auto
  obtain b2 where b2: "KeyBuff_get b1 = Inr (Key_lit (cs @ ds) n, b2)" "KeyBuff_repr b2 cs n []"
    using KeyBuff_get_repr [OF b1(2) assms(1)] assms(2) by (auto simp: cstr_ok_def)
  obtain b3 where b3: "KeyBuff_c_String (String_lit es) b2 = Inr b3" "KeyBuff_repr b3 cs n es"
    using KeyBuff_c_repr(1) [OF b2(2) assms(3)] by auto
  obtain b4 where "KeyBuff_get b3 = Inr (Key_lit (cs @ es) n, b4)"
    using KeyBuff_get_repr [OF b3(2) assms(1)] assms(3) by (auto simp: cstr_ok_def)
  with b b1 b2 b3 show ?thesis by blast
qed

lemma KeyBuff_get_twice_witness:
  "\<exists>b. KeyBuff_new (Key_lit ''df'' 1) = Inr b \<and>
    (\<exists>b1 b2. KeyBuff_c_String (String_lit ''-0'') b = Inr b1 \<and> KeyBuff_get b1 = Inr (Key_lit ''df-0'' 1, b2))"
  using KeyBuff_get_twice [of "''df''" "''-0''" "''-1''" 1] by (auto simp: cstr_ok_def)

end
