(* ===== verification/Containers.thy ===== *)
theory Containers
  imports Strings
begin

text \<open>
  \<open>Array\<close> (\<open>src/utils/array.h\<close>) and \<open>Queue\<close> (\<open>src/utils/queue.h\<close>).

  An \<open>Array\<close> is an allocation of \<open>capacity_\<close> cells of which the first \<open>len_\<close> hold objects.
  The \<open>Queue\<close> is modelled with its linked nodes: a heap of nodes, the two pointers
  \<open>front_\<close> and \<open>back_\<close>, and an allocator that never reuses an address. Both refine a list;
  \<open>sequence\<close> and \<open>fifo\<close> are the contracts their clients (key arrays, column arrays, the
  message cache, the block cache, the message queues) rely on.
\<close>

section \<open>Array\<close>

record 'a Array =
  arr_objs :: "'a cells"
  arr_capacity :: nat
  arr_len :: nat

definition Array_new :: "nat \<Rightarrow> 'a Array" where
  "Array_new initialCapacity =
     \<lparr>arr_objs = new_cells initialCapacity, arr_capacity = initialCapacity, arr_len = 0\<rparr>"

definition Array_default :: "'a Array" where
  "Array_default = Array_new 2"

definition Array_get :: "nat \<Rightarrow> 'a Array \<Rightarrow> 'a res" where
  "Array_get index a = (if index \<ge> arr_len a then Inl (Exit 1) else cell_load (arr_objs a) index)"

definition Array_hasRoom :: "nat \<Rightarrow> 'a Array \<Rightarrow> bool" where
  "Array_hasRoom numElements a \<longleftrightarrow> arr_capacity a \<ge> arr_len a + numElements"

definition Array_expand :: "'a Array \<Rightarrow> 'a Array res" where
  "Array_expand a =
     (let cap = 2 * arr_capacity a in
      res_bind (res_fold (\<lambda>i tmp. res_bind (cell_load (arr_objs a) i) (cell_store tmp i))
        [0..<arr_len a] (new_cells cap)) (\<lambda>tmp.
      Inr (a\<lparr>arr_capacity := cap, arr_objs := tmp\<rparr>)))"

definition Array_add :: "'a \<Rightarrow> 'a Array \<Rightarrow> 'a Array res" where
  "Array_add obj a =
     res_bind (if Array_hasRoom 1 a then Inr a else Array_expand a) (\<lambda>a.
     res_bind (cell_store (arr_objs a) (arr_len a) obj) (\<lambda>objs.
     Inr (a\<lparr>arr_objs := objs, arr_len := arr_len a + 1\<rparr>)))"

definition Array_set :: "nat \<Rightarrow> 'a \<Rightarrow> 'a Array \<Rightarrow> ('a \<times> 'a Array) res" where
  "Array_set index obj a =
     (if index > arr_len a then Inl (Exit 1)
      else if index = arr_len a then Inl AssertFail
      else
        res_bind (cell_load (arr_objs a) index) (\<lambda>rep.
        res_bind (cell_store (arr_objs a) index obj) (\<lambda>objs.
        Inr (rep, a\<lparr>arr_objs := objs\<rparr>))))"

definition Array_remove :: "nat \<Rightarrow> 'a Array \<Rightarrow> ('a \<times> 'a Array) res" where
  "Array_remove index a =
     (if index \<ge> arr_len a then Inl (Exit 1)
      else
        res_bind (Array_get index a) (\<lambda>val.
          let len = arr_len a - 1 in
          res_bind (res_fold (\<lambda>i objs. res_bind (cell_load objs (i + 1)) (cell_store objs i))
            [index..<len] (arr_objs a)) (\<lambda>objs.
          Inr (val, a\<lparr>arr_objs := objs, arr_len := len\<rparr>))))"

fun Array_index_from :: "('a \<Rightarrow> 'a \<Rightarrow> bool) \<Rightarrow> 'a \<Rightarrow> 'a Array \<Rightarrow> nat list \<Rightarrow> int res" where
  "Array_index_from eq obj a [] = Inr (-1)"
| "Array_index_from eq obj a (i # is) =
     res_bind (Array_get i a) (\<lambda>x. if eq x obj then Inr (int i) else Array_index_from eq obj a is)"

definition Array_index_of :: "('a \<Rightarrow> 'a \<Rightarrow> bool) \<Rightarrow> 'a \<Rightarrow> 'a Array \<Rightarrow> int res" where
  "Array_index_of eq obj a = Array_index_from eq obj a [0..<arr_len a]"

fun Array_equals_from :: "('a \<Rightarrow> 'a \<Rightarrow> bool) \<Rightarrow> 'a Array \<Rightarrow> 'a Array \<Rightarrow> nat list \<Rightarrow> bool res" where
  "Array_equals_from eq a b [] = Inr True"
| "Array_equals_from eq a b (i # is) =
     res_bind (Array_get i a) (\<lambda>x. res_bind (Array_get i b) (\<lambda>y.
       if \<not> eq x y then Inr False else Array_equals_from eq a b is))"

definition Array_equals :: "('a \<Rightarrow> 'a \<Rightarrow> bool) \<Rightarrow> 'a Array \<Rightarrow> 'a Array \<Rightarrow> bool res" where
  "Array_equals eq this other =
     (if arr_len this \<noteq> arr_len other then Inr False
      else Array_equals_from eq this other [0..<arr_len this])"

definition Array_hash_me :: "('a \<Rightarrow> u64) \<Rightarrow> 'a Array \<Rightarrow> u64 res" where
  "Array_hash_me h a =
     res_fold (\<lambda>i hash. res_bind (Array_get i a) (\<lambda>x.
       Inr (hash + (h x + push_bit 3 hash - push_bit 1 hash)))) [0..<arr_len a] 0"

definition Array_clear :: "'a Array \<Rightarrow> 'a Array" where
  "Array_clear a = a\<lparr>arr_capacity := 2, arr_objs := new_cells 2, arr_len := 0\<rparr>"

subsection \<open>Array refines a list\<close>

definition Array_repr :: "'a Array \<Rightarrow> 'a list \<Rightarrow> bool" where
  "Array_repr a xs \<longleftrightarrow> length (arr_objs a) = arr_capacity a \<and> 0 < arr_capacity a \<and>
     arr_len a = length xs \<and> holds xs (arr_objs a)"

lemma Array_repr_new [simp]: "0 < c \<Longrightarrow> Array_repr (Array_new c) []"
  by (simp add: Array_repr_def Array_new_def)

lemma Array_repr_clear: "Array_repr (Array_clear a) []"
  by (simp add: Array_repr_def Array_clear_def)

lemma Array_repr_len: "Array_repr a xs \<Longrightarrow> arr_len a = length xs"
  by (simp add: Array_repr_def)

lemma Array_repr_unique: "Array_repr a xs \<Longrightarrow> Array_repr a ys \<Longrightarrow> xs = ys"
  by (auto simp: Array_repr_def holds_def dest: map_injective)

lemma Array_get_repr:
  "Array_repr a xs \<Longrightarrow> Array_get i a = (if i < length xs then Inr (xs ! i) else Inl (Exit 1))"
  by (simp add: Array_get_def Array_repr_def cell_load_holds)

lemma copy_cells:
  assumes "holds xs src" and "length xs \<le> length dst" and "n \<le> length xs"
  shows "\<exists>t. res_fold (\<lambda>i tmp. res_bind (cell_load src i) (cell_store tmp i)) [0..<n] dst = Inr t \<and>
    holds (take n xs) t \<and> length t = length dst"
  using assms(3)
proof (induction n)
  case 0
  then show ?case by simp
next
  case (Suc n)
  then obtain t where t: "res_fold (\<lambda>i tmp. res_bind (cell_load src i) (cell_store tmp i)) [0..<n] dst = Inr t"
    "holds (take n xs) t" "length t = length dst" by auto
  have "length (take n xs) < length t" using Suc.prems t(3) assms(2) by simp
  then obtain u where "cell_store t n (xs ! n) = Inr u" "holds (take n xs @ [xs ! n]) u" "length u = length t"
    using cell_store_snoc [OF t(2)] Suc.prems by force
  with t Suc.prems show ?case
    using cell_load_holds [OF assms(1), of n] by (simp add: res_fold_append take_Suc_conv_app_nth)
qed

lemma Array_expand_repr:
  assumes "Array_repr a xs"
  shows "\<exists>a'. Array_expand a = Inr a' \<and> Array_repr a' xs \<and> arr_capacity a' = 2 * arr_capacity a"
proof -
  have "holds xs (arr_objs a)" "length xs \<le> length (new_cells (2 * arr_capacity a))"
    using assms holds_length [of xs "arr_objs a"] by (auto simp: Array_repr_def)
  from copy_cells [OF this order_refl] assms show ?thesis
    by (auto simp: Array_expand_def Array_repr_def Let_def)
qed

lemma Array_add_repr:
  assumes "Array_repr a xs"
  shows "\<exists>a'. Array_add x a = Inr a' \<and> Array_repr a' (xs @ [x])"
proof -
  obtain b where b: "(if Array_hasRoom 1 a then Inr a else Array_expand a) = Inr b" "Array_repr b xs"
    "length xs < arr_capacity b"
  proof (cases "Array_hasRoom 1 a")
    case True
    with assms that show ?thesis by (simp add: Array_hasRoom_def Array_repr_def)
  next
    case False
    moreover have "length xs \<le> arr_capacity a" "0 < arr_capacity a"
      using assms holds_length [of xs "arr_objs a"] by (auto simp: Array_repr_def)
    ultimately show ?thesis using Array_expand_repr [OF assms] that by auto
  qed
  have "holds xs (arr_objs b)" "length xs < length (arr_objs b)" using b by (simp_all add: Array_repr_def)
  from cell_store_snoc [OF this, of x] b show ?thesis
    by (auto simp: Array_add_def Array_repr_def)
qed

lemma Array_set_repr:
  assumes "Array_repr a xs" and "i < length xs"
  shows "\<exists>a'. Array_set i x a = Inr (xs ! i, a') \<and> Array_repr a' (xs[i := x])"
proof -
  have h: "holds xs (arr_objs a)" using assms by (simp add: Array_repr_def)
  from cell_store_holds [OF h assms(2), of x] cell_load_holds [OF h assms(2)] assms show ?thesis
    by (auto simp: Array_set_def Array_repr_def)
qed

lemma shift_cells:
  assumes "holds xs c" and "i \<le> n" and "n < length xs"
  shows "\<exists>c'. res_fold (\<lambda>i objs. res_bind (cell_load objs (i + 1)) (cell_store objs i)) [i..<n] c = Inr c' \<and>
    holds (take i xs @ take (n - i) (drop (Suc i) xs) @ drop n xs) c' \<and> length c' = length c"
  using assms(2,3)
proof (induction "n - i" arbitrary: n)
  case 0
  then show ?case using assms(1) by simp
next
  case (Suc d)
  then obtain m where n: "n = Suc m" "i \<le> m" by (cases n) auto
  let ?ys = "take i xs @ take (m - i) (drop (Suc i) xs) @ drop m xs"
  have "d = m - i" using Suc.hyps(2) n by arith
  then obtain c1 where c1: "res_fold (\<lambda>i objs. res_bind (cell_load objs (i + 1)) (cell_store objs i)) [i..<m] c = Inr c1"
    "holds ?ys c1" "length c1 = length c"
    using Suc.hyps(1) [of m] Suc.prems n by auto
  have len: "length ?ys = length xs" using n Suc.prems by simp
  have "length (take i xs @ take (m - i) (drop (Suc i) xs)) = m" using n Suc.prems by simp
  then have nth: "?ys ! (m + 1) = xs ! (m + 1)"
    using nth_append_length_plus [of "take i xs @ take (m - i) (drop (Suc i) xs)" "drop m xs" 1] n Suc.prems
    by simp
  obtain c2 where c2: "cell_store c1 m (xs ! (m + 1)) = Inr c2" "holds (?ys[m := xs ! (m + 1)]) c2"
    "length c2 = length c1"
    using cell_store_holds [OF c1(2), of m "xs ! (m + 1)"] len n Suc.prems by auto
  have upd: "?ys[m := xs ! (m + 1)] = take i xs @ take (n - i) (drop (Suc i) xs) @ drop n xs"
  proof -
    let ?A = "take i xs @ take (m - i) (drop (Suc i) xs)"
    have A: "length ?A = m" using n Suc.prems by simp
    have dr: "drop m xs = xs ! m # drop (Suc m) xs" using n Suc.prems by (simp add: Cons_nth_drop_Suc)
    have "(?A @ xs ! m # drop (Suc m) xs)[m := xs ! (m + 1)] = ?A @ xs ! (m + 1) # drop (Suc m) xs"
      using list_update_length [of ?A "xs ! m" "drop (Suc m) xs" "xs ! (m + 1)"] by (simp only: A)
    moreover have "take (n - i) (drop (Suc i) xs) = take (m - i) (drop (Suc i) xs) @ [xs ! (m + 1)]"
    proof -
      have "drop (Suc i) xs ! (m - i) = xs ! (m + 1)" using n Suc.prems by (simp add: add.commute)
      moreover have "m - i < length (drop (Suc i) xs)" "n - i = Suc (m - i)" using n Suc.prems by auto
      ultimately show ?thesis using take_Suc_conv_app_nth [of "m - i" "drop (Suc i) xs"] by simp
    qed
    ultimately show ?thesis unfolding dr n(1) by simp
  qed
  with c1 c2 n len nth Suc.prems show ?case
    using cell_load_holds [OF c1(2), of "m + 1"] by (simp add: res_fold_append)
qed

lemma Array_remove_repr:
  assumes "Array_repr a xs" and "i < length xs"
  shows "\<exists>a'. Array_remove i a = Inr (xs ! i, a') \<and> Array_repr a' (take i xs @ drop (Suc i) xs)"
proof -
  let ?n = "length xs - 1"
  have "i \<le> ?n" "?n < length xs" using assms(2) by linarith+
  moreover have h: "holds xs (arr_objs a)" using assms by (simp add: Array_repr_def)
  ultimately obtain c where c: "res_fold (\<lambda>i objs. res_bind (cell_load objs (i + 1)) (cell_store objs i))
      [i..<?n] (arr_objs a) = Inr c"
    "holds (take i xs @ take (?n - i) (drop (Suc i) xs) @ drop ?n xs) c" "length c = length (arr_objs a)"
    using shift_cells by blast
  have "take (?n - i) (drop (Suc i) xs) = drop (Suc i) xs" using assms(2) by simp
  with c(2) have "holds (take i xs @ drop (Suc i) xs) c" by (auto intro: holds_prefix)
  with c assms Array_get_repr [OF assms(1), of i] show ?thesis
    by (simp add: Array_remove_def Array_repr_def Let_def)
qed

text \<open>The contract of a growing sequence, for the classes that wrap an \<open>Array\<close>.\<close>

locale sequence =
  fixes repr :: "'s \<Rightarrow> 'a list \<Rightarrow> bool"
    and add :: "'a \<Rightarrow> 's \<Rightarrow> 's res"
    and get :: "nat \<Rightarrow> 's \<Rightarrow> 'a res"
  assumes add_repr: "repr s xs \<Longrightarrow> \<exists>s'. add x s = Inr s' \<and> repr s' (xs @ [x])"
    and get_repr: "repr s xs \<Longrightarrow> i < length xs \<Longrightarrow> get i s = Inr (xs ! i)"
begin

lemma add_all_repr: "repr s xs \<Longrightarrow> \<exists>s'. res_fold add ys s = Inr s' \<and> repr s' (xs @ ys)"
proof (induction ys arbitrary: s xs)
  case Nil
  then show ?case by simp
next
  case (Cons y ys)
  from add_repr [OF Cons.prems] obtain t where t: "add y s = Inr t" "repr t (xs @ [y])" by blast
  from Cons.IH [OF t(2)] t(1) show ?case by simp
qed

lemma get_all: "repr s xs \<Longrightarrow> res_map (\<lambda>i. get i s) [0..<length xs] = Inr xs"
proof -
  assume r: "repr s xs"
  then have "res_map (\<lambda>i. get i s) [0..<length xs] = Inr (map ((!) xs) [0..<length xs])"
    by (intro res_map_total) (simp add: get_repr)
  then show ?thesis by (simp add: map_nth)
qed

end

interpretation Array_seq: sequence Array_repr Array_add Array_get
  by unfold_locales (simp_all add: Array_add_repr Array_get_repr)

section \<open>Queue\<close>

record 'a Node =
  nd_val :: "'a option"
  nd_next :: "nat option"

record 'a Queue =
  q_heap :: "nat \<rightharpoonup> 'a Node"
  q_brk :: nat  \<comment> \<open>the next address \<open>new\<close> returns\<close>
  q_front :: "nat option"
  q_back :: "nat option"
  q_len :: nat

definition Queue_new :: "'a Queue" where
  "Queue_new = \<lparr>q_heap = Map.empty, q_brk = 0, q_front = None, q_back = None, q_len = 0\<rparr>"

definition heap_load :: "(nat \<rightharpoonup> 'a Node) \<Rightarrow> nat option \<Rightarrow> 'a Node res" where
  "heap_load h p =
     (case p of None \<Rightarrow> Inl NullDeref
      | Some a \<Rightarrow> (case h a of None \<Rightarrow> Inl UseAfterFree | Some nd \<Rightarrow> Inr nd))"

text \<open>\<open>new Node(o)\<close>\<close>

definition Node_new :: "'a \<Rightarrow> 'a Queue \<Rightarrow> nat \<times> 'a Queue" where
  "Node_new obj q =
     (q_brk q, q\<lparr>q_heap := (q_heap q)(q_brk q \<mapsto> \<lparr>nd_val = Some obj, nd_next = None\<rparr>),
                 q_brk := q_brk q + 1\<rparr>)"

definition Node_setNext :: "nat option \<Rightarrow> nat option \<Rightarrow> 'a Queue \<Rightarrow> 'a Queue res" where
  "Node_setNext p newNext q =
     res_bind (heap_load (q_heap q) p) (\<lambda>nd.
     Inr (q\<lparr>q_heap := (q_heap q)(the p \<mapsto> nd\<lparr>nd_next := newNext\<rparr>)\<rparr>))"

definition Node_setValue :: "nat option \<Rightarrow> 'a option \<Rightarrow> 'a Queue \<Rightarrow> ('a option \<times> 'a Queue) res" where
  "Node_setValue p newVal q =
     res_bind (heap_load (q_heap q) p) (\<lambda>nd.
     Inr (nd_val nd, q\<lparr>q_heap := (q_heap q)(the p \<mapsto> nd\<lparr>nd_val := newVal\<rparr>)\<rparr>))"

definition Queue_push :: "'a \<Rightarrow> 'a Queue \<Rightarrow> 'a Queue res" where
  "Queue_push obj q =
     (if q_len q = 0 then
        let (a, q) = Node_new obj q
        in Inr (q\<lparr>q_front := Some a, q_back := Some a, q_len := q_len q + 1\<rparr>)
      else
        let (newBack, q) = Node_new obj q
        in res_bind (Node_setNext (q_back q) (Some newBack) q) (\<lambda>q.
           Inr (q\<lparr>q_back := Some newBack, q_len := q_len q + 1\<rparr>)))"

definition Queue_pop :: "'a Queue \<Rightarrow> ('a option \<times> 'a Queue) res" where
  "Queue_pop q =
     (if q_len q = 0 then Inr (None, q)
      else
        let temp = q_front q in
        res_bind (heap_load (q_heap q) temp) (\<lambda>nd.
          let q = q\<lparr>q_front := nd_next nd, q_len := q_len q - 1\<rparr>;
              q = (if q_front q = None then q\<lparr>q_back := None\<rparr> else q)
          in res_bind (Node_setValue temp None q) (\<lambda>(retVal, q).
             res_bind (Node_setNext temp None q) (\<lambda>q.
             Inr (retVal, q\<lparr>q_heap := (q_heap q)(the temp := None)\<rparr>)))))"

text \<open>\<open>delete front_\<close>: the destructor of a node deletes the rest of the chain.\<close>

partial_function (option) Node_delete :: "nat option \<Rightarrow> (nat \<rightharpoonup> 'a Node) \<Rightarrow> (nat \<rightharpoonup> 'a Node) res option" where
  "Node_delete p h =
     (case p of None \<Rightarrow> Some (Inr h)
      | Some a \<Rightarrow>
          (case h a of None \<Rightarrow> Some (Inl UseAfterFree)
           | Some nd \<Rightarrow> Node_delete (nd_next nd) (h(a := None))))"

definition Queue_clear :: "'a Queue \<Rightarrow> 'a Queue res" where
  "Queue_clear q =
     (case Node_delete (q_front q) (q_heap q) of
        None \<Rightarrow> Inl Diverges
      | Some r \<Rightarrow> res_bind r (\<lambda>h.
          Inr (q\<lparr>q_heap := h, q_front := None, q_back := None, q_len := 0\<rparr>)))"

text \<open>\<open>Node::equals\<close>: both chains are followed in step.\<close>

partial_function (option) Node_equals ::
    "('a \<Rightarrow> 'a \<Rightarrow> bool) \<Rightarrow> (nat \<rightharpoonup> 'a Node) \<Rightarrow> nat option \<Rightarrow> (nat \<rightharpoonup> 'a Node) \<Rightarrow> nat option \<Rightarrow> bool res option" where
  "Node_equals eq h p h' p' =
     (case (heap_load h p, heap_load h' p') of
        (Inr nd, Inr nd') \<Rightarrow>
          (if (case nd_val nd' of None \<Rightarrow> False
               | Some v' \<Rightarrow> (case nd_val nd of None \<Rightarrow> True | Some v \<Rightarrow> \<not> eq v' v)) then Some (Inr False)
           else if (case nd_val nd of None \<Rightarrow> False
               | Some v \<Rightarrow> (case nd_val nd' of None \<Rightarrow> True | Some v' \<Rightarrow> \<not> eq v v')) then Some (Inr False)
           else if nd_next nd = None \<and> nd_next nd' = None then Some (Inr True)
           else if nd_next nd = None \<or> nd_next nd' = None then Some (Inr False)
           else Node_equals eq h (nd_next nd) h' (nd_next nd'))
      | (Inl e, _) \<Rightarrow> Some (Inl e)
      | (_, Inl e) \<Rightarrow> Some (Inl e))"

definition Queue_equals :: "('a \<Rightarrow> 'a \<Rightarrow> bool) \<Rightarrow> 'a Queue \<Rightarrow> 'a Queue \<Rightarrow> bool res" where
  "Queue_equals eq this other =
     (if q_front this = None \<and> q_front other = None then Inr True
      else if q_front this = None \<or> q_front other = None then Inr False
      else case Node_equals eq (q_heap this) (q_front this) (q_heap other) (q_front other) of
             None \<Rightarrow> Inl Diverges | Some r \<Rightarrow> r)"

subsection \<open>Queue refines a list\<close>

text \<open>The chain from \<open>p\<close> visits the addresses \<open>as\<close> and holds the values \<open>xs\<close>.\<close>

fun chain :: "(nat \<rightharpoonup> 'a Node) \<Rightarrow> nat option \<Rightarrow> nat list \<Rightarrow> 'a list \<Rightarrow> bool" where
  "chain h p [] [] \<longleftrightarrow> p = None"
| "chain h p (a # as) (x # xs) \<longleftrightarrow>
     p = Some a \<and> (\<exists>n. h a = Some \<lparr>nd_val = Some x, nd_next = n\<rparr> \<and> chain h n as xs)"
| "chain h p _ _ \<longleftrightarrow> False"

definition Queue_repr :: "'a Queue \<Rightarrow> 'a list \<Rightarrow> bool" where
  "Queue_repr q xs \<longleftrightarrow>
     (\<exists>as. chain (q_heap q) (q_front q) as xs \<and> distinct as \<and> dom (q_heap q) = set as \<and>
        (\<forall>a \<in> set as. a < q_brk q) \<and> q_len q = length xs \<and>
        q_back q = (if as = [] then None else Some (last as)))"

lemma chain_length: "chain h p as xs \<Longrightarrow> length as = length xs"
  by (induction h p as xs rule: chain.induct) auto

lemma chain_front:
  assumes "chain h p as xs"
  shows "p = None \<longleftrightarrow> xs = []" and "as = [] \<longleftrightarrow> xs = []"
  using assms by (cases as; cases xs; auto)+

lemma chain_frame: "chain h p as xs \<Longrightarrow> a \<notin> set as \<Longrightarrow> chain (h(a := v)) p as xs"
  by (induction h p as xs rule: chain.induct) auto

lemma chain_snoc:
  "chain h p as xs \<Longrightarrow> as \<noteq> [] \<Longrightarrow> distinct as \<Longrightarrow> b \<notin> set as \<Longrightarrow>
   \<exists>x. h (last as) = Some \<lparr>nd_val = Some x, nd_next = None\<rparr> \<and>
     chain (h(b \<mapsto> \<lparr>nd_val = Some y, nd_next = None\<rparr>, last as \<mapsto> \<lparr>nd_val = Some x, nd_next = Some b\<rparr>))
       p (as @ [b]) (xs @ [y])"
proof (induction h p as xs rule: chain.induct)
  case (2 h p a as x xs)
  show ?case
  proof (cases "as = []")
    case True
    with 2 show ?thesis by (cases xs) auto
  next
    case False
    from 2(2) obtain n where n: "p = Some a" "h a = Some \<lparr>nd_val = Some x, nd_next = n\<rparr>" "chain h n as xs"
      by auto
    have "last as \<in> set as" using False by simp
    with 2(4) have "a \<noteq> last as" by auto
    with n False 2(1) [OF n(3) False] 2(4,5) show ?thesis by auto
  qed
qed auto

lemma Queue_repr_new [simp]: "Queue_repr Queue_new []"
  unfolding Queue_repr_def Queue_new_def by (rule exI [of _ "[]"]) simp

lemma Queue_push_repr:
  assumes "Queue_repr q xs"
  shows "\<exists>q'. Queue_push x q = Inr q' \<and> Queue_repr q' (xs @ [x])"
proof -
  obtain as where c: "chain (q_heap q) (q_front q) as xs" and d: "distinct as"
    and dom: "dom (q_heap q) = set as" and brk: "\<forall>a \<in> set as. a < q_brk q" and l: "q_len q = length xs"
    and b: "q_back q = (if as = [] then None else Some (last as))"
    using assms by (auto simp: Queue_repr_def)
  have new: "q_brk q \<notin> set as" using brk by auto
  have len: "length as = length xs" using c by (rule chain_length)
  show ?thesis
  proof (cases "as = []")
    case True
    with c len l dom show ?thesis
      by (auto simp: Queue_push_def Node_new_def Queue_repr_def intro!: exI [of _ "[q_brk q]"])
  next
    case False
    obtain y where y: "q_heap q (last as) = Some \<lparr>nd_val = Some y, nd_next = None\<rparr>"
      "chain ((q_heap q)(q_brk q \<mapsto> \<lparr>nd_val = Some x, nd_next = None\<rparr>,
        last as \<mapsto> \<lparr>nd_val = Some y, nd_next = Some (q_brk q)\<rparr>)) (q_front q) (as @ [q_brk q]) (xs @ [x])"
      using chain_snoc [OF c False d new] by blast
    have l1: "last as \<in> set as" using False by simp
    have l2: "last as \<noteq> q_brk q" using l1 new by metis
    have l3: "q_len q \<noteq> 0" using False len l by auto
    have "\<forall>a \<in> set (as @ [q_brk q]). a < q_brk q + 1" using brk by auto
    note facts = l1 l2 l3 this
    from facts y d dom brk l b False new show ?thesis
      by (auto simp: Queue_push_def Node_new_def Node_setNext_def heap_load_def Queue_repr_def
          intro!: exI [of _ "as @ [q_brk q]"])
  qed
qed

lemma Queue_pop_empty: "Queue_repr q [] \<Longrightarrow> Queue_pop q = Inr (None, q)"
  by (auto simp: Queue_repr_def Queue_pop_def)

lemma Queue_pop_repr:
  assumes "Queue_repr q (x # xs)"
  shows "\<exists>q'. Queue_pop q = Inr (Some x, q') \<and> Queue_repr q' xs"
proof -
  obtain as0 where c0: "chain (q_heap q) (q_front q) as0 (x # xs)" and d0: "distinct as0"
    and dom0: "dom (q_heap q) = set as0" and brk0: "\<forall>a \<in> set as0. a < q_brk q"
    and l: "q_len q = Suc (length xs)" and b: "q_back q = (if as0 = [] then None else Some (last as0))"
    using assms by (auto simp: Queue_repr_def)
  then obtain a as n where as0: "as0 = a # as" and f: "q_front q = Some a"
    and h: "q_heap q a = Some \<lparr>nd_val = Some x, nd_next = n\<rparr>" and c: "chain (q_heap q) n as xs"
    by (cases as0) auto
  have "chain ((q_heap q)(a := None)) n as xs" using chain_frame [OF c] d0 as0 by simp
  moreover have "n = None \<longleftrightarrow> as = []"
    using chain_front [OF c] by simp
  ultimately show ?thesis
    using as0 d0 dom0 brk0 l b f h
    by (auto simp: Queue_pop_def Let_def heap_load_def Node_setValue_def Node_setNext_def Queue_repr_def
        intro!: exI [of _ as])
qed

lemma Node_delete_chain:
  "chain h p as xs \<Longrightarrow> distinct as \<Longrightarrow> Node_delete p h = Some (Inr (h |` (- set as)))"
proof (induction as arbitrary: h p xs)
  case Nil
  then have "p = None" by (cases xs) auto
  then show ?case by (simp add: Node_delete.simps)
next
  case (Cons a as)
  then obtain x xs' n where n: "p = Some a" "h a = Some \<lparr>nd_val = Some x, nd_next = n\<rparr>" "chain h n as xs'"
    by (cases xs) auto
  have "chain (h(a := None)) n as xs'" using chain_frame [OF n(3)] Cons.prems(2) by simp
  moreover have "distinct as" using Cons.prems(2) by simp
  ultimately have "Node_delete n (h(a := None)) = Some (Inr (h(a := None) |` (- set as)))"
    by (rule Cons.IH)
  moreover have "h(a := None) |` (- set as) = h |` (- set (a # as))"
    by (auto simp: restrict_map_def fun_eq_iff)
  moreover have "Node_delete p h = Node_delete n (h(a := None))"
    by (subst Node_delete.simps) (simp add: n)
  ultimately show ?case by (simp only:)
qed

lemma Queue_clear_repr:
  assumes "Queue_repr q xs"
  shows "\<exists>q'. Queue_clear q = Inr q' \<and> Queue_repr q' []"
proof -
  obtain as where c: "chain (q_heap q) (q_front q) as xs" "distinct as" "dom (q_heap q) = set as"
    using assms by (auto simp: Queue_repr_def)
  have "q_heap q |` (- set as) = Map.empty"
    using c(3) by (auto simp: restrict_map_def fun_eq_iff)
  then show ?thesis
    using Node_delete_chain [OF c(1,2)] by (auto simp: Queue_clear_def Queue_repr_def intro!: exI [of _ "[]"])
qed

lemma Node_equals_chain:
  "chain h p as xs \<Longrightarrow> chain h' p' bs ys \<Longrightarrow> xs \<noteq> [] \<Longrightarrow> ys \<noteq> [] \<Longrightarrow>
   Node_equals (=) h p h' p' = Some (Inr (xs = ys))"
proof (induction xs arbitrary: p as p' bs ys)
  case Nil
  then show ?case by simp
next
  case (Cons x xs)
  from Cons.prems(1) obtain a as' n where n: "as = a # as'" "p = Some a"
    "h a = Some \<lparr>nd_val = Some x, nd_next = n\<rparr>" "chain h n as' xs" by (cases as) auto
  from Cons.prems(2,4) obtain b bs' y ys' m where m: "bs = b # bs'" "ys = y # ys'" "p' = Some b"
    "h' b = Some \<lparr>nd_val = Some y, nd_next = m\<rparr>" "chain h' m bs' ys'" by (cases bs; cases ys) auto
  have ends: "n = None \<longleftrightarrow> xs = []" "m = None \<longleftrightarrow> ys' = []"
    using chain_front(1) [OF n(4)] chain_front(1) [OF m(5)] .
  have step: "Node_equals (=) h p h' p' =
      (if x \<noteq> y then Some (Inr False)
       else if n = None \<and> m = None then Some (Inr True)
       else if n = None \<or> m = None then Some (Inr False)
       else Node_equals (=) h n h' m)"
    by (subst Node_equals.simps) (simp add: heap_load_def n(2,3) m(3,4))
  show ?case
    using Cons.IH [OF n(4) m(5)] ends by (auto simp: step m(2))
qed

lemma Queue_equals_repr:
  assumes "Queue_repr q xs" and "Queue_repr r ys"
  shows "Queue_equals (=) q r = Inr (xs = ys)"
proof -
  obtain as where c: "chain (q_heap q) (q_front q) as xs" using assms by (auto simp: Queue_repr_def)
  obtain bs where d: "chain (q_heap r) (q_front r) bs ys" using assms by (auto simp: Queue_repr_def)
  have ends: "q_front q = None \<longleftrightarrow> xs = []" "q_front r = None \<longleftrightarrow> ys = []"
    using chain_front(1) [OF c] chain_front(1) [OF d] .
  show ?thesis using ends Node_equals_chain [OF c d] by (auto simp: Queue_equals_def)
qed

lemma Queue_len_repr: "Queue_repr q xs \<Longrightarrow> q_len q = length xs"
  by (auto simp: Queue_repr_def)

text \<open>The contract of a FIFO queue, for the block cache and the message queues.\<close>

locale fifo =
  fixes repr :: "'q \<Rightarrow> 'a list \<Rightarrow> bool"
    and push :: "'a \<Rightarrow> 'q \<Rightarrow> 'q res"
    and pop :: "'q \<Rightarrow> ('a option \<times> 'q) res"
  assumes push_repr: "repr q xs \<Longrightarrow> \<exists>q'. push x q = Inr q' \<and> repr q' (xs @ [x])"
    and pop_repr: "repr q (x # xs) \<Longrightarrow> \<exists>q'. pop q = Inr (Some x, q') \<and> repr q' xs"
    and pop_empty: "repr q [] \<Longrightarrow> pop q = Inr (None, q)"
begin

lemma push_all_repr: "repr q xs \<Longrightarrow> \<exists>q'. res_fold push ys q = Inr q' \<and> repr q' (xs @ ys)"
proof (induction ys arbitrary: q xs)
  case Nil
  then show ?case by simp
next
  case (Cons y ys)
  from push_repr [OF Cons.prems] obtain t where t: "push y q = Inr t" "repr t (xs @ [y])" by blast
  from Cons.IH [OF t(2)] t(1) show ?case by simp
qed

text \<open>Popping as often as was pushed returns what was pushed, in that order.\<close>

fun pop_many :: "nat \<Rightarrow> 'q \<Rightarrow> ('a option list \<times> 'q) res" where
  "pop_many 0 q = Inr ([], q)"
| "pop_many (Suc n) q =
     res_bind (pop q) (\<lambda>(x, q). res_bind (pop_many n q) (\<lambda>(xs, q). Inr (x # xs, q)))"

lemma pop_many_repr:
  "repr q (xs @ ys) \<Longrightarrow> \<exists>q'. pop_many (length xs) q = Inr (map Some xs, q') \<and> repr q' ys"
proof (induction xs arbitrary: q)
  case Nil
  then show ?case by simp
next
  case (Cons x xs)
  from pop_repr [of q x "xs @ ys"] Cons.prems obtain r where "pop q = Inr (Some x, r)" "repr r (xs @ ys)"
    by auto
  with Cons.IH [of r] show ?case by auto
qed

end

interpretation Queue_fifo: fifo Queue_repr Queue_push Queue_pop
  by unfold_locales (simp_all add: Queue_push_repr Queue_pop_repr Queue_pop_empty)

section \<open>Properties\<close>

text \<open>C32: The queue is first in, first out, and frees its nodes. Pushing \<open>ys\<close> onto a queue that holds
  \<open>xs\<close> and popping as many elements as are then in it returns \<open>xs @ ys\<close> in that order, never
  reads a freed node, and leaves the empty queue with no node allocated.\<close>

theorem Queue_push_pop:
  assumes "Queue_repr q xs"
  shows "\<exists>q1 q2. res_fold Queue_push ys q = Inr q1 \<and> q_len q1 = length (xs @ ys) \<and>
    Queue_fifo.pop_many (length (xs @ ys)) q1 = Inr (map Some (xs @ ys), q2) \<and>
    Queue_pop q2 = Inr (None, q2) \<and> q_heap q2 = Map.empty"
proof -
  obtain q1 where q1: "res_fold Queue_push ys q = Inr q1" "Queue_repr q1 (xs @ ys)"
    using Queue_fifo.push_all_repr [OF assms] by blast
  obtain q2 where q2: "Queue_fifo.pop_many (length (xs @ ys)) q1 = Inr (map Some (xs @ ys), q2)" "Queue_repr q2 []"
    using Queue_fifo.pop_many_repr [of q1 "xs @ ys" "[]"] q1(2) by auto
  have "q_heap q2 = Map.empty" using q2(2) chain_length by (fastforce simp: Queue_repr_def)
  with q1 q2 Queue_fifo.pop_empty [OF q2(2)] Queue_len_repr [OF q1(2)] show ?thesis by blast
qed

lemma Queue_push_pop_witness:
  "\<exists>q1 q2. res_fold Queue_push ''ab'' Queue_new = Inr q1 \<and>
     Queue_fifo.pop_many 2 q1 = Inr ([Some (CHR ''a''), Some (CHR ''b'')], q2)"
  using Queue_push_pop [OF Queue_repr_new, of "''ab''"] by (auto simp: numeral_2_eq_2)

text \<open>The growing array implements the list operations: adding appends (doubling the allocation
  when it is full), reading, replacing and removing at an index below the length act on the list and
  return the old element, an index out of range exits, and no cell outside the allocation or never
  written is read.\<close>

theorem Array_list_operations:
  assumes "Array_repr a xs"
  shows "(\<exists>a'. Array_add x a = Inr a' \<and> Array_repr a' (xs @ [x])) \<and>
    Array_get i a = (if i < length xs then Inr (xs ! i) else Inl (Exit 1)) \<and>
    (if i < length xs
     then (\<exists>a'. Array_set i x a = Inr (xs ! i, a') \<and> Array_repr a' (xs[i := x])) \<and>
       (\<exists>a'. Array_remove i a = Inr (xs ! i, a') \<and> Array_repr a' (take i xs @ drop (Suc i) xs))
     else (i = length xs \<or> Array_set i x a = Inl (Exit 1)) \<and> Array_remove i a = Inl (Exit 1))"
  using Array_seq.add_repr [OF assms] Array_get_repr [OF assms] Array_set_repr [OF assms] Array_remove_repr [OF assms]
    Array_repr_len [OF assms]
  by (auto simp: Array_set_def Array_remove_def)

lemma Array_list_operations_witness:
  "\<exists>a'. Array_add (7 :: nat) (Array_new 2) = Inr a' \<and> Array_repr a' [7]"
  using Array_list_operations [OF Array_repr_new [of 2], of 7 0] by auto

end
