(* ===== verification/Blocks.thy ===== *)
theory Blocks
  imports Store Containers
begin

text \<open>
  The blocks of a column (\<open>src/dataframe/block/\<close>) and the FIFO cache of blocks
  (\<open>src/dataframe/column/cache.h\<close>).

  The four block classes are one polymorphic definition: they differ in the element type
  and in the calls that write, read and compare an element, which are arguments here. A slot
  that \<open>memset\<close> has filled with zeros and nobody has added an element to is \<open>None\<close>; no
  operation reads such a slot.
\<close>

section \<open>Blocks\<close>

record 'a Block =
  bk_vals :: "'a cells"
  bk_size :: nat
  bk_capacity :: nat

definition Block_new :: "nat \<Rightarrow> 'a Block" where
  "Block_new blockSize = \<lparr>bk_vals = new_cells blockSize, bk_size = 0, bk_capacity = blockSize\<rparr>"

text \<open>\<open>add\<close> returns -1 when the block is full, and flows off its end otherwise.\<close>

definition Block_add :: "'a \<Rightarrow> 'a Block \<Rightarrow> (int option \<times> 'a Block) res" where
  "Block_add n b =
     (if bk_size b \<ge> bk_capacity b then Inr (Some (-1), b)
      else
        res_bind (cell_store (bk_vals b) (bk_size b) n) (\<lambda>v.
        Inr (None, b\<lparr>bk_vals := v, bk_size := bk_size b + 1\<rparr>)))"

definition Block_get :: "nat \<Rightarrow> 'a Block \<Rightarrow> 'a res" where
  "Block_get index b = (if index \<ge> bk_size b then Inl (Exit 1) else cell_load (bk_vals b) index)"

definition Block_set :: "nat \<Rightarrow> 'a \<Rightarrow> 'a Block \<Rightarrow> ('a \<times> 'a Block) res" where
  "Block_set index v b =
     (if index \<ge> bk_size b then Inl (Exit 1)
      else
        res_bind (cell_load (bk_vals b) index) (\<lambda>oldVal.
        res_bind (cell_store (bk_vals b) index v) (\<lambda>c. Inr (oldVal, b\<lparr>bk_vals := c\<rparr>))))"

definition Block_clear :: "'a Block \<Rightarrow> 'a Block" where
  "Block_clear b = b\<lparr>bk_vals := new_cells (bk_capacity b), bk_size := 0\<rparr>"

definition Block_clone :: "nat \<Rightarrow> 'a Block \<Rightarrow> 'a Block res" where
  "Block_clone blockSize b =
     res_fold (\<lambda>i out. res_bind (Block_get i b) (\<lambda>x. res_bind (Block_add x out) (\<lambda>(_, out). Inr out)))
       [0..<bk_size b] (Block_new blockSize)"

fun Block_equals_from :: "('a \<Rightarrow> 'a \<Rightarrow> bool) \<Rightarrow> 'a Block \<Rightarrow> 'a Block \<Rightarrow> nat list \<Rightarrow> bool res" where
  "Block_equals_from eq b b' [] = Inr True"
| "Block_equals_from eq b b' (i # is) =
     res_bind (cell_load (bk_vals b) i) (\<lambda>x. res_bind (cell_load (bk_vals b') i) (\<lambda>y.
       if \<not> eq x y then Inr False else Block_equals_from eq b b' is))"

definition Block_equals :: "('a \<Rightarrow> 'a \<Rightarrow> bool) \<Rightarrow> 'a Block \<Rightarrow> 'a Block \<Rightarrow> bool res" where
  "Block_equals eq b b' =
     (if bk_size b \<noteq> bk_size b' \<or> bk_capacity b \<noteq> bk_capacity b' then Inr False
      else Block_equals_from eq b b' [0..<bk_size b])"

definition Block_serialize ::
    "('a \<Rightarrow> Serializer \<Rightarrow> Serializer res) \<Rightarrow> 'a Block \<Rightarrow> Serializer \<Rightarrow> Serializer res" where
  "Block_serialize ser b s =
     res_bind (write_size_t (of_nat (bk_capacity b)) s) (\<lambda>s.
     res_bind (write_size_t (of_nat (bk_size b)) s) (\<lambda>s.
     res_fold (\<lambda>i s. res_bind (cell_load (bk_vals b) i) (\<lambda>x. ser x s)) [0..<bk_size b] s))"

fun Block_read_vals ::
    "(Serializer \<Rightarrow> ('a \<times> Serializer) res) \<Rightarrow> nat list \<Rightarrow> 'a cells \<Rightarrow> Serializer \<Rightarrow> ('a cells \<times> Serializer) res" where
  "Block_read_vals deser [] c s = Inr (c, s)"
| "Block_read_vals deser (i # is) c s =
     res_bind (deser s) (\<lambda>(x, s). res_bind (cell_store c i x) (\<lambda>c. Block_read_vals deser is c s))"

definition Block_deserialize :: "(Serializer \<Rightarrow> ('a \<times> Serializer) res) \<Rightarrow> Serializer \<Rightarrow> ('a Block \<times> Serializer) res" where
  "Block_deserialize deser s =
     res_bind (readSizeT s) (\<lambda>(cap, s).
     res_bind (readSizeT s) (\<lambda>(sz, s).
     res_bind (Block_read_vals deser [0..<unat sz] (new_cells (unat cap)) s) (\<lambda>(vals, s).
     Inr (\<lparr>bk_vals = vals, bk_size = unat sz, bk_capacity = unat cap\<rparr>, s))))"

subsection \<open>A block is a bounded list\<close>

definition Block_lit :: "nat \<Rightarrow> 'a list \<Rightarrow> 'a Block" where
  "Block_lit cap xs =
     \<lparr>bk_vals = map Some xs @ new_cells (cap - length xs), bk_size = length xs, bk_capacity = cap\<rparr>"

lemma Block_lit_sel [simp]:
  "bk_size (Block_lit cap xs) = length xs" "bk_capacity (Block_lit cap xs) = cap"
  by (simp_all add: Block_lit_def)

lemma Block_new_lit: "Block_new n = Block_lit n []"
  by (simp add: Block_new_def Block_lit_def)

lemma Block_clear_lit: "Block_clear (Block_lit cap xs) = Block_lit cap []"
  by (simp add: Block_clear_def Block_lit_def)

lemma new_cells_Suc: "new_cells (Suc n) = None # new_cells n"
  by (simp add: new_cells_def)

lemma Block_store_lit:
  "length xs < cap \<Longrightarrow> cell_store (map Some xs @ new_cells (cap - length xs)) (length xs) x =
     Inr (map Some (xs @ [x]) @ new_cells (cap - length (xs @ [x])))"
  using Suc_diff_Suc [of "length xs" cap]
  by (auto simp: cell_store_def new_cells_Suc list_update_append simp flip: Suc_diff_Suc)

lemma Block_add_lit:
  "Block_add x (Block_lit cap xs) =
     (if length xs < cap then Inr (None, Block_lit cap (xs @ [x])) else Inr (Some (-1), Block_lit cap xs))"
  using Block_store_lit [of xs cap x] by (auto simp: Block_add_def) (auto simp: Block_lit_def)

lemma cell_load_lit: "i < length xs \<Longrightarrow> cell_load (bk_vals (Block_lit cap xs)) i = Inr (xs ! i)"
  by (simp add: Block_lit_def cell_load_def nth_append)

lemma Block_get_lit:
  "Block_get i (Block_lit cap xs) = (if i < length xs then Inr (xs ! i) else Inl (Exit 1))"
  by (simp add: Block_get_def cell_load_lit)

lemma Block_set_lit:
  assumes "i < length xs" and "length xs \<le> cap"
  shows "Block_set i x (Block_lit cap xs) = Inr (xs ! i, Block_lit cap (xs[i := x]))"
  using assms by (simp add: Block_set_def cell_load_lit)
    (simp add: Block_lit_def cell_store_def list_update_append map_update)

lemma Block_equals_lit:
  "Block_equals (=) (Block_lit c xs) (Block_lit d ys) = Inr (c = d \<and> xs = ys)"
proof (cases "length xs = length ys")
  case False
  then show ?thesis by (auto simp: Block_equals_def)
next
  case True
  have "Block_equals_from (=) (Block_lit c xs) (Block_lit d ys) [n..<length xs] = Inr (drop n xs = drop n ys)"
    if "n \<le> length xs" for n d
    using that
  proof (induction "length xs - n" arbitrary: n)
    case 0
    then show ?case using True by simp
  next
    case (Suc m)
    then have n: "n < length xs" by simp
    then have "[n..<length xs] = n # [Suc n..<length xs]" by (simp add: upt_conv_Cons)
    moreover have "drop n xs = xs ! n # drop (Suc n) xs" "drop n ys = ys ! n # drop (Suc n) ys"
      using n True by (simp_all add: Cons_nth_drop_Suc)
    ultimately show ?case
      using n True Suc.hyps(1) [of "Suc n"] Suc.hyps(2) by (simp add: cell_load_lit)
  qed
  from this [of 0] True show ?thesis by (auto simp: Block_equals_def)
qed

lemma Block_add_all_lit:
  "length xs + length ys \<le> cap \<Longrightarrow>
   res_fold (\<lambda>x b. res_bind (Block_add x b) (\<lambda>(_, b). Inr b)) ys (Block_lit cap xs) = Inr (Block_lit cap (xs @ ys))"
  by (induction ys arbitrary: xs) (simp_all add: Block_add_lit)

lemma Block_clone_lit:
  assumes "length xs \<le> n"
  shows "Block_clone n (Block_lit cap xs) = Inr (Block_lit n xs)"
proof -
  have "Block_clone n (Block_lit cap xs) =
      res_fold (\<lambda>i out. res_bind (Block_add (xs ! i) out) (\<lambda>(_, out). Inr out)) [0..<length xs] (Block_new n)"
    unfolding Block_clone_def by (simp, rule res_fold_cong) (simp add: Block_get_lit)
  also have "\<dots> = res_fold (\<lambda>x b. res_bind (Block_add x b) (\<lambda>(_, b). Inr b)) (map ((!) xs) [0..<length xs]) (Block_new n)"
    by (simp add: res_fold_map)
  finally show ?thesis
    using Block_add_all_lit [of "[]" xs n] assms by (simp add: map_nth Block_new_lit)
qed

subsection \<open>Blocks travel\<close>

definition enc_Block :: "('a \<Rightarrow> char list) \<Rightarrow> 'a Block \<Rightarrow> char list" where
  "enc_Block enc b = enc_u64 (of_nat (bk_capacity b)) @ enc_u64 (of_nat (bk_size b)) @
     concat (map (\<lambda>x. enc (the x)) (take (bk_size b) (bk_vals b)))"

definition Block_ok :: "('a \<Rightarrow> bool) \<Rightarrow> 'a Block \<Rightarrow> bool" where
  "Block_ok ok b \<longleftrightarrow> (\<exists>cap xs. b = Block_lit cap xs \<and> length xs \<le> cap \<and> cap < 2 ^ 64 \<and> list_all ok xs)"

lemma enc_Block_lit:
  "enc_Block enc (Block_lit cap xs) =
     enc_u64 (of_nat cap) @ enc_u64 (of_nat (length xs)) @ concat (map enc xs)"
  by (simp add: enc_Block_def Block_lit_def comp_def)

context codec
begin

lemma Block_writes:
  assumes "Block_ok ok b"
  shows "writes (Block_serialize ser b) (enc_Block enc b)"
proof -
  obtain cap xs where b: "b = Block_lit cap xs" and ok: "list_all ok xs" using assms by (auto simp: Block_ok_def)
  have eq: "res_fold (\<lambda>i s. res_bind (cell_load (bk_vals b) i) (\<lambda>x. ser x s)) [0..<length xs] = res_fold ser xs"
  proof
    fix s
    have "res_fold (\<lambda>i s. res_bind (cell_load (bk_vals b) i) (\<lambda>x. ser x s)) [0..<length xs] s =
        res_fold (\<lambda>i. ser (xs ! i)) [0..<length xs] s"
      unfolding b by (rule res_fold_cong) (simp add: cell_load_lit)
    also have "\<dots> = res_fold ser (map ((!) xs) [0..<length xs]) s" by (simp add: res_fold_map)
    finally show "res_fold (\<lambda>i s. res_bind (cell_load (bk_vals b) i) (\<lambda>x. ser x s)) [0..<length xs] s = res_fold ser xs s"
      by (simp add: map_nth)
  qed
  show ?thesis
    unfolding Block_serialize_def [abs_def] b enc_Block_lit Block_lit_sel eq [unfolded b]
    by (intro writes_bind writes_prims all_writes ok)
qed

lemma Block_read_vals_reads:
  assumes "list_all ok xs" and "length ys + length xs \<le> cap"
  shows "reads (Block_read_vals deser [length ys..<length ys + length xs] (map Some ys @ new_cells (cap - length ys)))
    (concat (map enc xs)) (map Some (ys @ xs) @ new_cells (cap - length (ys @ xs)))"
  using assms
proof (induction xs arbitrary: ys)
  case Nil
  then show ?case by (simp add: reads_def ser_skip_def)
next
  case (Cons x xs)
  have st: "cell_store (map Some ys @ new_cells (cap - length ys)) (length ys) x =
      Inr (map Some (ys @ [x]) @ new_cells (cap - length (ys @ [x])))"
    using Cons.prems(2) by (intro Block_store_lit) simp
  have "reads (Block_read_vals deser [length (ys @ [x])..<length (ys @ [x]) + length xs]
      (map Some (ys @ [x]) @ new_cells (cap - length (ys @ [x])))) (concat (map enc xs))
      (map Some ((ys @ [x]) @ xs) @ new_cells (cap - length ((ys @ [x]) @ xs)))"
    using Cons.prems by (intro Cons.IH) auto
  then have rest: "reads (\<lambda>s. res_bind (cell_store (map Some ys @ new_cells (cap - length ys)) (length ys) x)
      (\<lambda>c. Block_read_vals deser [Suc (length ys)..<Suc (length ys + length xs)] c s)) (concat (map enc xs))
      (map Some (ys @ x # xs) @ new_cells (cap - length (ys @ x # xs)))"
    unfolding st by simp
  have "reads deser (enc x) x" using Cons.prems(1) deser_reads by simp
  from reads_bind [OF this, of "\<lambda>x s. res_bind (cell_store (map Some ys @ new_cells (cap - length ys)) (length ys) x)
      (\<lambda>c. Block_read_vals deser [Suc (length ys)..<Suc (length ys + length xs)] c s)", OF rest]
  moreover have "[length ys..<length ys + length (x # xs)] = length ys # [Suc (length ys)..<Suc (length ys + length xs)]"
    by (subst upt_conv_Cons) simp_all
  then have "Block_read_vals deser [length ys..<length ys + length (x # xs)] c =
      (\<lambda>s. res_bind (deser s) (\<lambda>(x, s). res_bind (cell_store c (length ys) x)
        (\<lambda>c. Block_read_vals deser [Suc (length ys)..<Suc (length ys + length xs)] c s)))" for c
    by (intro ext) (simp only: Block_read_vals.simps)
  ultimately show ?case by (simp only: list.map concat.simps)
qed

lemma Block_reads:
  assumes "Block_ok ok b"
  shows "reads (Block_deserialize deser) (enc_Block enc b) b"
proof -
  obtain cap xs where b: "b = Block_lit cap xs" and ok: "list_all ok xs" "length xs \<le> cap" "cap < 2 ^ 64"
    using assms by (auto simp: Block_ok_def)
  have "reads (Block_read_vals deser [0..<length xs] (new_cells cap)) (concat (map enc xs))
      (map Some xs @ new_cells (cap - length xs))"
    using Block_read_vals_reads [OF ok(1), of "[]" cap] ok(2) by simp
  then have "reads (\<lambda>s. res_bind (Block_read_vals deser [0..<length xs] (new_cells cap) s) (\<lambda>(vals, s).
      Inr (\<lparr>bk_vals = vals, bk_size = length xs, bk_capacity = cap\<rparr>, s))) (concat (map enc xs)) b"
    by (rule reads_mk1) (simp add: b Block_lit_def)
  then have "reads (\<lambda>s. res_bind (readSizeT s) (\<lambda>(sz, s). res_bind (Block_read_vals deser [0..<unat sz] (new_cells cap) s)
      (\<lambda>(vals, s). Inr (\<lparr>bk_vals = vals, bk_size = unat sz, bk_capacity = cap\<rparr>, s))))
      (enc_u64 (of_nat (length xs)) @ concat (map enc xs)) b"
    using ok by (rule_tac reads_bind [OF reads_prims(1)]) simp
  then have "reads (\<lambda>s. res_bind (readSizeT s) (\<lambda>(cap, s). res_bind (readSizeT s) (\<lambda>(sz, s).
      res_bind (Block_read_vals deser [0..<unat sz] (new_cells (unat cap)) s)
      (\<lambda>(vals, s). Inr (\<lparr>bk_vals = vals, bk_size = unat sz, bk_capacity = unat cap\<rparr>, s)))))
      (enc_Block enc b) b"
    unfolding b enc_Block_lit using ok by (rule_tac reads_bind [OF reads_prims(1)]) simp
  then show ?thesis by (simp add: Block_deserialize_def [abs_def])
qed

end

interpretation IntBlock_codec: codec "Block_serialize write_int" "Block_deserialize readInt"
  "enc_Block enc_u32" "Block_ok (\<lambda>_. True)"
  by unfold_locales (rule int_codec.Block_writes int_codec.Block_reads; assumption)+

interpretation BoolBlock_codec: codec "Block_serialize write_bool" "Block_deserialize readBool"
  "enc_Block enc_bool" "Block_ok (\<lambda>_. True)"
  by unfold_locales (rule bool_codec.Block_writes bool_codec.Block_reads; assumption)+

interpretation DoubleBlock_codec: codec "Block_serialize write_double" "Block_deserialize readDouble"
  "enc_Block enc_u64" "Block_ok (\<lambda>_. True)"
  by unfold_locales (rule double_codec.Block_writes double_codec.Block_reads; assumption)+

interpretation StringBlock_codec: codec "Block_serialize String_serialize" "Block_deserialize String_deserialize"
  "enc_Block enc_String" "Block_ok String_wf"
  by unfold_locales (rule String_codec.Block_writes String_codec.Block_reads; assumption)+

section \<open>Properties\<close>

text \<open>A block of strings survives being stored: reading back what \<open>serialize\<close> wrote gives a block
  of the same capacity and size with the same strings at the same places.\<close>

theorem StringBlock_roundtrip:
  assumes "list_all String_wf xs" and "length xs \<le> cap" and "cap < 2 ^ 64"
  shows "\<exists>s t u. Block_serialize String_serialize (Block_lit cap xs) Serializer_new = Inr s \<and>
    Serializer_of (sz_written s) (ser_bytes s) = Inr t \<and>
    Block_deserialize String_deserialize t = Inr (Block_lit cap xs, u) \<and> ser_unread u = []"
proof -
  have "Block_ok String_wf (Block_lit cap xs)" using assms by (auto simp: Block_ok_def)
  from StringBlock_codec.buffer_roundtrip [OF this] show ?thesis by blast
qed

lemma StringBlock_roundtrip_witness:
  "\<exists>s. Block_serialize String_serialize (Block_lit 4 [String_lit ''a'', String_lit ''bc'']) Serializer_new = Inr s"
  using StringBlock_roundtrip [of "[String_lit ''a'', String_lit ''bc'']" 4] by (auto simp: cstr_ok_def)

text \<open>A block is a list of at most \<open>capacity\<close> elements: adding to a block with room appends,
  adding to a full one changes nothing and returns -1, reading below the size returns the element and
  at or above it exits, and clearing empties the block.\<close>

theorem Block_list_operations:
  assumes "length xs \<le> cap"
  shows "Block_add x (Block_lit cap xs) =
      (if length xs < cap then Inr (None, Block_lit cap (xs @ [x])) else Inr (Some (-1), Block_lit cap xs)) \<and>
    Block_get i (Block_lit cap xs) = (if i < length xs then Inr (xs ! i) else Inl (Exit 1)) \<and>
    (i < length xs \<longrightarrow> Block_set i x (Block_lit cap xs) = Inr (xs ! i, Block_lit cap (xs[i := x]))) \<and>
    Block_clear (Block_lit cap xs) = Block_lit cap [] \<and> Block_clone cap (Block_lit cap xs) = Inr (Block_lit cap xs)"
  using Block_add_lit [of x cap xs] Block_get_lit [of i cap xs] Block_set_lit [OF _ assms, of i x] Block_clear_lit [of cap xs]
    Block_clone_lit [OF assms] by blast

lemma Block_list_operations_witness:
  "Block_add 3 (Block_lit 2 [1, 2 :: nat]) = Inr (Some (-1), Block_lit 2 [1, 2]) \<and>
    Block_get 1 (Block_lit 2 [1, 2 :: nat]) = Inr 2"
  using Block_list_operations [of "[1, 2 :: nat]" 2 3 1] by simp

end
