(* ===== verification/BlockCache.thy ===== *)
theory BlockCache
  imports Blocks
begin

text \<open>
  The cache of a distributed array (\<open>src/dataframe/column/cache.h\<close>): a map from keys to
  blocks and a queue of the keys in the order they were put. \<open>Cache_repr\<close> relates it to that
  list of keys and the partial function; a full cache evicts the key put longest ago.
\<close>

section \<open>Cache\<close>

record 'b Cache =
  ca_maxSize :: nat
  ca_data :: "(Key, 'b) hmap"
  ca_keyOrder :: "Key Queue"

definition Cache_new :: "nat \<Rightarrow> 'b Cache res" where
  "Cache_new maxSize =
     (if maxSize = 0 then Inl (Exit (-1))
      else Inr \<lparr>ca_maxSize = maxSize, ca_data = Map_default, ca_keyOrder = Queue_new\<rparr>)"

definition Cache_default :: "'b Cache res" where
  "Cache_default = Cache_new 15"

definition Cache_containsKey :: "Key \<Rightarrow> 'b Cache \<Rightarrow> bool res" where
  "Cache_containsKey k c = Map_contains_key Key_vt (Some k) (ca_data c)"

definition Cache_getBlock :: "Key \<Rightarrow> 'b Cache \<Rightarrow> 'b option res" where
  "Cache_getBlock k c = Map_get Key_vt (Some k) (ca_data c)"

definition Cache_isFull :: "'b Cache \<Rightarrow> bool" where
  "Cache_isFull c \<longleftrightarrow> ca_maxSize c \<le> hm_size (ca_data c)"

definition Cache_sizes_agree :: "'b Cache \<Rightarrow> bool" where
  "Cache_sizes_agree c \<longleftrightarrow> hm_size (ca_data c) = q_len (ca_keyOrder c)"

definition Cache_removeFirstAddedElement :: "'b Cache \<Rightarrow> (Key option \<times> 'b Cache) res" where
  "Cache_removeFirstAddedElement c =
     res_bind (Queue_pop (ca_keyOrder c)) (\<lambda>(k, q).
       case k of
         None \<Rightarrow> Inr (None, c\<lparr>ca_keyOrder := q\<rparr>)
       | Some k \<Rightarrow>
           res_bind (Map_remove Key_vt (Some k) (ca_data c)) (\<lambda>(_, d).
           let c = c\<lparr>ca_keyOrder := q, ca_data := d\<rparr> in
             if Cache_sizes_agree c then Inr (Some k, c) else Inl AssertFail))"

definition Cache_put :: "Key \<Rightarrow> 'b \<Rightarrow> 'b Cache \<Rightarrow> 'b Cache res" where
  "Cache_put k val c =
     res_bind (if Cache_isFull c
               then res_bind (Cache_removeFirstAddedElement c) (\<lambda>(_, c). Inr c) else Inr c) (\<lambda>c.
     res_bind (Map_put Key_vt (Some k) (Some val) (ca_data c)) (\<lambda>(_, d).
     res_bind (Key_clone k) (\<lambda>k'.
     res_bind (Queue_push k' (ca_keyOrder c)) (\<lambda>q.
     let c = c\<lparr>ca_data := d, ca_keyOrder := q\<rparr> in
       if Cache_sizes_agree c then Inr c else Inl AssertFail))))"

definition Cache_clear :: "'b Cache \<Rightarrow> 'b Cache res" where
  "Cache_clear c =
     res_bind (Queue_clear (ca_keyOrder c)) (\<lambda>q.
     Inr (c\<lparr>ca_data := Map_clear (ca_data c), ca_keyOrder := q\<rparr>))"

section \<open>A bounded map with its insertion order\<close>

definition Cache_repr :: "'b Cache \<Rightarrow> Key list \<Rightarrow> (Key \<rightharpoonup> 'b) \<Rightarrow> bool" where
  "Cache_repr c ks m \<longleftrightarrow> Map_inv Key_vt Key_ok (ca_data c) \<and> Map_abs (ca_data c) = m \<and>
     Queue_repr (ca_keyOrder c) ks \<and> distinct ks \<and> set ks = dom m \<and>
     0 < ca_maxSize c \<and> length ks \<le> ca_maxSize c"

lemma Cache_repr_new:
  "0 < n \<Longrightarrow> \<exists>c. Cache_new n = Inr c \<and> Cache_repr c [] Map.empty \<and> ca_maxSize c = n"
  by (simp add: Cache_new_def Cache_repr_def Map_default_def)

lemma Cache_repr_clear:
  assumes "Cache_repr c ks m"
  shows "\<exists>c'. Cache_clear c = Inr c' \<and> Cache_repr c' [] Map.empty"
proof -
  obtain q where "Queue_clear (ca_keyOrder c) = Inr q" "Queue_repr q []"
    using Queue_clear_repr [of "ca_keyOrder c" ks] assms by (auto simp: Cache_repr_def)
  with assms show ?thesis by (simp add: Cache_clear_def Cache_repr_def Map_clear_new)
qed

lemma Cache_repr_size: "Cache_repr c ks m \<Longrightarrow> hm_size (ca_data c) = length ks"
  using Map_size_card [of Key_vt Key_ok "ca_data c"] distinct_card [of ks] by (auto simp: Cache_repr_def)

lemma Cache_repr_keys: "Cache_repr c ks m \<Longrightarrow> k \<in> set ks \<Longrightarrow> Key_ok k"
  using Map_abs_ok [of Key_vt Key_ok "ca_data c" k] by (auto simp: Cache_repr_def)

lemma Cache_containsKey_repr:
  "Cache_repr c ks m \<Longrightarrow> Key_ok k \<Longrightarrow> Cache_containsKey k c = Inr (m k \<noteq> None)"
  using Key_key.contains_correct [of "ca_data c" k] by (auto simp: Cache_containsKey_def Cache_repr_def domIff)

lemma Cache_getBlock_repr: "Cache_repr c ks m \<Longrightarrow> Key_ok k \<Longrightarrow> Cache_getBlock k c = Inr (m k)"
  using Key_key.get_correct [of "ca_data c" k] by (auto simp: Cache_getBlock_def Cache_repr_def)

lemma Cache_evict_repr:
  assumes "Cache_repr c (k # ks) m"
  shows "\<exists>c'. Cache_removeFirstAddedElement c = Inr (Some k, c') \<and> Cache_repr c' ks (m(k := None)) \<and>
    ca_maxSize c' = ca_maxSize c"
proof -
  have r: "Map_inv Key_vt Key_ok (ca_data c)" "Map_abs (ca_data c) = m" "Queue_repr (ca_keyOrder c) (k # ks)"
    "distinct (k # ks)" "set (k # ks) = dom m" "0 < ca_maxSize c" "length (k # ks) \<le> ca_maxSize c"
    using assms by (simp_all add: Cache_repr_def)
  have k: "Key_ok k" using Cache_repr_keys [OF assms] by simp
  obtain v where v: "m k = Some v" using r(5) by (metis domD insertI1 list.set(2))
  obtain q where q: "Queue_pop (ca_keyOrder c) = Inr (Some k, q)" "Queue_repr q ks"
    using Queue_fifo.pop_repr [OF r(3)] by blast
  obtain d where d: "Map_remove Key_vt (Some k) (ca_data c) = Inr (Some v, d)" "Map_inv Key_vt Key_ok d"
    "Map_abs d = m(k := None)" "hm_size d + 1 = hm_size (ca_data c)"
    using Key_key.remove_correct [OF r(1) k] r(2) v by auto
  have "hm_size d = q_len q"
    using d(4) Cache_repr_size [OF assms] Queue_len_repr [OF q(2)] by simp
  moreover have "set ks = dom (m(k := None))" using r(4,5) by auto
  ultimately show ?thesis
    using q d r by (simp add: Cache_removeFirstAddedElement_def Cache_sizes_agree_def Cache_repr_def)
qed

text \<open>The keys that stay when one more is put.\<close>

definition cache_room :: "nat \<Rightarrow> Key list \<Rightarrow> Key list" where
  "cache_room n ks = (if n \<le> length ks then tl ks else ks)"

lemma Cache_insert_repr:
  assumes r: "Cache_repr c ks m" and k: "Key_ok k" and new: "k \<notin> set ks" and room: "length ks < ca_maxSize c"
  shows "\<exists>d q. Map_put Key_vt (Some k) (Some b) (ca_data c) = Inr (None, d) \<and> Queue_push k (ca_keyOrder c) = Inr q \<and>
    Cache_sizes_agree (c\<lparr>ca_data := d, ca_keyOrder := q\<rparr>) \<and>
    Cache_repr (c\<lparr>ca_data := d, ca_keyOrder := q\<rparr>) (ks @ [k]) (m(k \<mapsto> b))"
proof -
  have R: "Map_inv Key_vt Key_ok (ca_data c)" "Map_abs (ca_data c) = m" "Queue_repr (ca_keyOrder c) ks"
    "distinct ks" "set ks = dom m" using r by (simp_all add: Cache_repr_def)
  have "m k = None" using new R(5) by auto
  then obtain d where d: "Map_put Key_vt (Some k) (Some b) (ca_data c) = Inr (None, d)" "Map_inv Key_vt Key_ok d"
    "Map_abs d = m(k \<mapsto> b)" "hm_size d = hm_size (ca_data c) + 1"
    using Key_key.put_correct [OF R(1) k, of b] R(2) by auto
  obtain q where q: "Queue_push k (ca_keyOrder c) = Inr q" "Queue_repr q (ks @ [k])"
    using Queue_fifo.push_repr [OF R(3)] by blast
  have "hm_size d = q_len q" using d(4) Cache_repr_size [OF r] Queue_len_repr [OF q(2)] by simp
  with d q R new room show ?thesis by (simp add: Cache_sizes_agree_def Cache_repr_def)
qed

lemma Cache_make_room_repr:
  assumes r: "Cache_repr c ks m"
  defines "ks' \<equiv> cache_room (ca_maxSize c) ks"
  shows "\<exists>c'. (if Cache_isFull c then res_bind (Cache_removeFirstAddedElement c) (\<lambda>(_, c). Inr c) else Inr c) = Inr c' \<and>
    Cache_repr c' ks' (m |` set ks') \<and> ca_maxSize c' = ca_maxSize c \<and> length ks' < ca_maxSize c"
proof -
  have pos: "0 < ca_maxSize c" and dom: "set ks = dom m" and le: "length ks \<le> ca_maxSize c" and dist: "distinct ks"
    using r by (simp_all add: Cache_repr_def)
  show ?thesis
  proof (cases "ca_maxSize c \<le> length ks")
    case True
    then obtain k rest where ks: "ks = k # rest" using pos by (cases ks) auto
    obtain c' where c': "Cache_removeFirstAddedElement c = Inr (Some k, c')" "Cache_repr c' rest (m(k := None))"
      "ca_maxSize c' = ca_maxSize c"
      using Cache_evict_repr [of c k rest m] r ks by blast
    have "m(k := None) = m |` set rest"
      using dom dist ks by (auto simp: restrict_map_def fun_eq_iff)
    then show ?thesis
      using c' True ks le Cache_repr_size [OF r] by (simp add: Cache_isFull_def ks'_def cache_room_def)
  next
    case False
    moreover have "m |` set ks = m" using dom by (auto simp: restrict_map_def fun_eq_iff)
    ultimately show ?thesis
      using r Cache_repr_size [OF r] by (simp add: Cache_isFull_def ks'_def cache_room_def)
  qed
qed

text \<open>Putting a key that is not there: the oldest key goes if there is no room.\<close>

lemma Cache_put_repr:
  assumes r: "Cache_repr c ks m" and k: "Key_ok k" and new: "k \<notin> set ks"
  shows "\<exists>c'. Cache_put k b c = Inr c' \<and> ca_maxSize c' = ca_maxSize c \<and>
    Cache_repr c' (cache_room (ca_maxSize c) ks @ [k]) ((m |` set (cache_room (ca_maxSize c) ks))(k \<mapsto> b))"
proof -
  let ?ks = "cache_room (ca_maxSize c) ks"
  obtain c1 where c1: "(if Cache_isFull c then res_bind (Cache_removeFirstAddedElement c) (\<lambda>(_, c). Inr c) else Inr c) = Inr c1"
    "Cache_repr c1 ?ks (m |` set ?ks)" "ca_maxSize c1 = ca_maxSize c" "length ?ks < ca_maxSize c1"
    using Cache_make_room_repr [OF r] by auto
  have "k \<notin> set ?ks" using new by (cases ks) (auto simp: cache_room_def)
  from Cache_insert_repr [OF c1(2) k this c1(4), of b] c1 k show ?thesis
    by (auto simp: Cache_put_def Let_def)
qed

text \<open>Putting a key that is there and is not evicted: the queue grows, the map does not.\<close>

lemma Cache_put_again:
  assumes r: "Cache_repr c ks m" and k: "k \<in> set (cache_room (ca_maxSize c) ks)"
  shows "Cache_put k b c = Inl AssertFail"
proof -
  let ?ks = "cache_room (ca_maxSize c) ks"
  obtain c1 where c1: "(if Cache_isFull c then res_bind (Cache_removeFirstAddedElement c) (\<lambda>(_, c). Inr c) else Inr c) = Inr c1"
    "Cache_repr c1 ?ks (m |` set ?ks)"
    using Cache_make_room_repr [OF r] by blast
  have ok: "Key_ok k" using Cache_repr_keys [OF c1(2) k] .
  have inv: "Map_inv Key_vt Key_ok (ca_data c1)" "Map_abs (ca_data c1) = m |` set ?ks" "Queue_repr (ca_keyOrder c1) ?ks"
    "set ?ks = dom (m |` set ?ks)"
    using c1(2) by (simp_all add: Cache_repr_def)
  then obtain v where "Map_abs (ca_data c1) k = Some v" using k by (metis domD)
  then obtain d where d: "Map_put Key_vt (Some k) (Some b) (ca_data c1) = Inr (Some v, d)"
    "hm_size d = hm_size (ca_data c1)"
    using Key_key.put_correct [OF inv(1) ok, of b] by auto
  obtain q where q: "Queue_push k (ca_keyOrder c1) = Inr q" "Queue_repr q (?ks @ [k])"
    using Queue_fifo.push_repr [OF inv(3)] by blast
  have "hm_size d \<noteq> q_len q" using d(2) Cache_repr_size [OF c1(2)] Queue_len_repr [OF q(2)] by simp
  with c1(1) d(1) q(1) ok show ?thesis by (simp add: Cache_put_def Cache_sizes_agree_def)
qed

section \<open>Properties\<close>

lemma map_of_suffix:
  "distinct (map fst (p @ r)) \<Longrightarrow> map_of (p @ r) |` set (map fst r) = map_of r"
proof (rule ext)
  fix k
  assume d: "distinct (map fst (p @ r))"
  show "(map_of (p @ r) |` set (map fst r)) k = map_of r k"
  proof (cases "k \<in> set (map fst r)")
    case True
    then have "map_of p k = None" using d by (auto simp: map_of_eq_None_iff)
    then show ?thesis using True by (simp add: restrict_map_def map_add_def)
  next
    case False
    then have "map_of r k = None" by (simp add: map_of_eq_None_iff)
    then show ?thesis using False by (simp add: restrict_map_def)
  qed
qed

text \<open>C30: The cache keeps the blocks put last. From the empty cache of size \<open>n\<close>, after putting blocks
  under different keys it holds exactly the last \<open>n\<close> of them, in the order they were put, it is
  never larger than \<open>n\<close>, its map and its queue agree, and every other key is gone.\<close>

theorem Cache_keeps_last:
  fixes kbs :: "(Key \<times> 'b) list"
  assumes "0 < n" and "list_all (\<lambda>(k, b). Key_ok k) kbs" and "distinct (map fst kbs)"
  shows "\<exists>c0 c. Cache_new n = Inr c0 \<and> res_fold (\<lambda>(k, b). Cache_put k b) kbs c0 = Inr c \<and>
    Cache_repr c (map fst (drop (length kbs - n) kbs)) (map_of (drop (length kbs - n) kbs)) \<and>
    hm_size (ca_data c) = min n (length kbs)"
proof -
  obtain c0 :: "'b Cache" where c0: "Cache_new n = Inr c0" "Cache_repr c0 [] Map.empty" "ca_maxSize c0 = n"
    using Cache_repr_new [OF assms(1)] by blast
  have "\<exists>c. res_fold (\<lambda>(k, b). Cache_put k b) kbs c0 = Inr c \<and> ca_maxSize c = n \<and>
    Cache_repr c (map fst (drop (length kbs - n) kbs)) (map_of (drop (length kbs - n) kbs))"
    using assms(2,3)
  proof (induction kbs rule: rev_induct)
    case Nil
    then show ?case using c0 by simp
  next
    case (snoc kb kbs)
    obtain k b where kb: "kb = (k, b)" by (cases kb)
    let ?d = "drop (length kbs - n) kbs" and ?e = "drop (length (kbs @ [kb]) - n) (kbs @ [kb])"
    obtain c where c: "res_fold (\<lambda>(k, b). Cache_put k b) kbs c0 = Inr c" "ca_maxSize c = n"
      "Cache_repr c (map fst ?d) (map_of ?d)"
      using snoc by auto
    have k: "Key_ok k" "k \<notin> set (map fst ?d)"
      using snoc.prems kb by (auto dest: in_set_dropD)
    define r where "r = (if n \<le> length ?d then tl ?d else ?d)"
    have len: "length ?d = min n (length kbs)" by simp
    have tl: "tl (drop m kbs) = drop (Suc m) kbs" for m by (simp add: drop_Suc tl_drop)
    have e: "?e = r @ [kb]"
      using len assms(1) by (auto simp: r_def not_le Suc_diff_le tl min_def split: if_splits)
    have room: "cache_room n (map fst ?d) = map fst r" by (simp add: cache_room_def r_def map_tl)
    have "xs = (if b then take 1 xs else []) @ (if b then tl xs else xs)" for xs :: "(Key \<times> 'b) list" and b
      by (cases xs) auto
    then obtain p where p: "?d = p @ r" unfolding r_def by blast
    have "distinct (map fst ?d)" using snoc.prems by (simp flip: drop_map)
    then have "map_of ?d |` set (map fst r) = map_of r" unfolding p by (rule map_of_suffix)
    moreover have "map_of ?e = (map_of r)(k \<mapsto> b)"
    proof -
      have "map_of r k = None" using k(2) unfolding p by (simp add: map_of_eq_None_iff)
      then show ?thesis unfolding e by (auto simp: kb fun_eq_iff map_add_def split: option.split)
    qed
    ultimately have eq: "map fst ?e = map fst r @ [k]" "map_of ?e = (map_of ?d |` set (map fst r))(k \<mapsto> b)"
      unfolding e by (simp_all add: kb)
    obtain c' where "Cache_put k b c = Inr c'" "ca_maxSize c' = n" "Cache_repr c' (map fst ?e) (map_of ?e)"
      using Cache_put_repr [OF c(3) k, of b] c(2) room unfolding eq by auto
    then show ?case using c(1) kb by (simp add: res_fold_append)
  qed
  then obtain c where c: "res_fold (\<lambda>(k, b). Cache_put k b) kbs c0 = Inr c"
    "Cache_repr c (map fst (drop (length kbs - n) kbs)) (map_of (drop (length kbs - n) kbs))" by blast
  then show ?thesis using c0(1) Cache_repr_size [OF c(2)] by (auto simp: min_def)
qed

lemma Cache_keeps_last_witness:
  "\<exists>c0 c. Cache_new 2 = Inr c0 \<and>
    res_fold (\<lambda>(k, b). Cache_put k b) [(Key_lit ''a'' 0, 1 :: nat), (Key_lit ''b'' 0, 2), (Key_lit ''c'' 0, 3)] c0 = Inr c \<and>
    Cache_repr c [Key_lit ''b'' 0, Key_lit ''c'' 0] [Key_lit ''b'' 0 \<mapsto> 2, Key_lit ''c'' 0 \<mapsto> 3]"
proof -
  let ?kbs = "[(Key_lit ''a'' 0, 1 :: nat), (Key_lit ''b'' 0, 2), (Key_lit ''c'' 0, 3)]"
  have m: "map_of (drop 1 ?kbs) = [Key_lit ''b'' 0 \<mapsto> 2, Key_lit ''c'' 0 \<mapsto> 3]"
    by (auto simp: fun_eq_iff)
  show ?thesis
    using Cache_keeps_last [of 2 ?kbs] m by (auto simp: cstr_ok_def)
qed

text \<open>A key is put at most once. Putting a block under a key the cache already holds (and does not
  evict for it) fails the assertion of \<open>put\<close>: the key enters the queue a second time but not the map.
  Callers look the key up first.\<close>

theorem Cache_put_present_fails:
  assumes "Cache_repr c ks m" and "k \<in> set ks" and "length ks < ca_maxSize c"
  shows "Cache_put k b c = Inl AssertFail"
  by (rule Cache_put_again [OF assms(1)]) (use assms in \<open>simp add: cache_room_def\<close>)

lemma Cache_put_present_fails_witness:
  "\<exists>c. Cache_repr c [Key_lit ''a'' 0] [Key_lit ''a'' 0 \<mapsto> 7 :: nat] \<and> Cache_put (Key_lit ''a'' 0) 2 c = Inl AssertFail"
proof -
  obtain c0 :: "nat Cache" where c0: "Cache_repr c0 [] Map.empty" "ca_maxSize c0 = 15"
    using Cache_repr_new [of 15] by auto
  obtain c where c: "Cache_repr c [Key_lit ''a'' 0] [Key_lit ''a'' 0 \<mapsto> 7 :: nat]" "ca_maxSize c = 15"
    using Cache_put_repr [OF c0(1), of "Key_lit ''a'' 0" 7] c0(2) by (auto simp: cache_room_def cstr_ok_def)
  then show ?thesis using Cache_put_present_fails [OF c(1), of "Key_lit ''a'' 0" 2] by auto
qed

end
