(* ===== verification/BlockClasses.thy ===== *)
theory BlockClasses
  imports Blocks
begin

text \<open>
  The four block classes (\<open>src/dataframe/block/intblock.h\<close>, \<open>boolblock.h\<close>, \<open>doubleblock.h\<close>,
  \<open>stringblock.h\<close>), one definition for each of their methods. They are the operations of the
  theory \<open>Blocks\<close> at the element type of the class; what the classes do differently is the copy
  and the comparison of elements. An \<open>int\<close> is its 32 bits, a \<open>double\<close> its 64 bits. Whether two
  doubles are further apart than the tolerance of \<open>DoubleBlock::equals\<close> is an argument: it is the
  floating-point subtraction of the machine. The hash methods are named \<open>hash_me_\<close> and override
  nothing.
\<close>

section \<open>What the classes share\<close>

text \<open>\<open>hash_me_\<close>: the size, the capacity and a summand for each element.\<close>

definition Block_hash :: "('a \<Rightarrow> u64) \<Rightarrow> 'a Block \<Rightarrow> u64 res" where
  "Block_hash h b =
     res_fold (\<lambda>i hash. res_bind (cell_load (bk_vals b) i) (\<lambda>x. Inr (hash + h x)))
       [0..<bk_size b] (of_nat (bk_size b) + of_nat (bk_capacity b))"

text \<open>The 64 bits of a double that compares equal to zero.\<close>

definition double_is_zero :: "u64 \<Rightarrow> bool" where
  "double_is_zero d \<longleftrightarrow> d = 0 \<or> d = 0x8000000000000000"

section \<open>IntBlock\<close>

definition IntBlock_new :: "nat \<Rightarrow> u32 Block" where
  "IntBlock_new = Block_new"

definition IntBlock_serialize :: "u32 Block \<Rightarrow> Serializer \<Rightarrow> Serializer res" where
  "IntBlock_serialize = Block_serialize write_int"

definition IntBlock_deserialize :: "Serializer \<Rightarrow> (u32 Block \<times> Serializer) res" where
  "IntBlock_deserialize = Block_deserialize readInt"

definition IntBlock_get :: "nat \<Rightarrow> u32 Block \<Rightarrow> u32 res" where
  "IntBlock_get = Block_get"

definition IntBlock_add :: "u32 \<Rightarrow> u32 Block \<Rightarrow> (int option \<times> u32 Block) res" where
  "IntBlock_add = Block_add"

definition IntBlock_set :: "nat \<Rightarrow> u32 \<Rightarrow> u32 Block \<Rightarrow> (u32 \<times> u32 Block) res" where
  "IntBlock_set = Block_set"

definition IntBlock_equals :: "u32 Block \<Rightarrow> u32 Block \<Rightarrow> bool res" where
  "IntBlock_equals = Block_equals (=)"

definition IntBlock_hash_me :: "u32 Block \<Rightarrow> u64 res" where
  "IntBlock_hash_me = Block_hash (\<lambda>n. scast n)"

definition IntBlock_clear :: "u32 Block \<Rightarrow> u32 Block" where
  "IntBlock_clear = Block_clear"

definition IntBlock_clone :: "nat \<Rightarrow> u32 Block \<Rightarrow> u32 Block res" where
  "IntBlock_clone = Block_clone"

section \<open>BoolBlock\<close>

definition BoolBlock_new :: "nat \<Rightarrow> bool Block" where
  "BoolBlock_new = Block_new"

definition BoolBlock_serialize :: "bool Block \<Rightarrow> Serializer \<Rightarrow> Serializer res" where
  "BoolBlock_serialize = Block_serialize write_bool"

definition BoolBlock_deserialize :: "Serializer \<Rightarrow> (bool Block \<times> Serializer) res" where
  "BoolBlock_deserialize = Block_deserialize readBool"

definition BoolBlock_get :: "nat \<Rightarrow> bool Block \<Rightarrow> bool res" where
  "BoolBlock_get = Block_get"

definition BoolBlock_add :: "bool \<Rightarrow> bool Block \<Rightarrow> (int option \<times> bool Block) res" where
  "BoolBlock_add = Block_add"

definition BoolBlock_set :: "nat \<Rightarrow> bool \<Rightarrow> bool Block \<Rightarrow> (bool \<times> bool Block) res" where
  "BoolBlock_set = Block_set"

definition BoolBlock_equals :: "bool Block \<Rightarrow> bool Block \<Rightarrow> bool res" where
  "BoolBlock_equals = Block_equals (=)"

definition BoolBlock_hash_me :: "bool Block \<Rightarrow> u64 res" where
  "BoolBlock_hash_me = Block_hash (\<lambda>v. if v then 1 else 0)"

definition BoolBlock_clear :: "bool Block \<Rightarrow> bool Block" where
  "BoolBlock_clear = Block_clear"

definition BoolBlock_clone :: "nat \<Rightarrow> bool Block \<Rightarrow> bool Block res" where
  "BoolBlock_clone = Block_clone"

section \<open>DoubleBlock\<close>

definition DoubleBlock_new :: "nat \<Rightarrow> u64 Block" where
  "DoubleBlock_new = Block_new"

definition DoubleBlock_serialize :: "u64 Block \<Rightarrow> Serializer \<Rightarrow> Serializer res" where
  "DoubleBlock_serialize = Block_serialize write_double"

definition DoubleBlock_deserialize :: "Serializer \<Rightarrow> (u64 Block \<times> Serializer) res" where
  "DoubleBlock_deserialize = Block_deserialize readDouble"

definition DoubleBlock_get :: "nat \<Rightarrow> u64 Block \<Rightarrow> u64 res" where
  "DoubleBlock_get = Block_get"

definition DoubleBlock_add :: "u64 \<Rightarrow> u64 Block \<Rightarrow> (int option \<times> u64 Block) res" where
  "DoubleBlock_add = Block_add"

definition DoubleBlock_set :: "nat \<Rightarrow> u64 \<Rightarrow> u64 Block \<Rightarrow> (u64 \<times> u64 Block) res" where
  "DoubleBlock_set = Block_set"

definition DoubleBlock_equals :: "(u64 \<Rightarrow> u64 \<Rightarrow> bool) \<Rightarrow> u64 Block \<Rightarrow> u64 Block \<Rightarrow> bool res" where
  "DoubleBlock_equals far = Block_equals (\<lambda>x y. \<not> far x y)"

definition DoubleBlock_hash_me :: "u64 Block \<Rightarrow> u64 res" where
  "DoubleBlock_hash_me = Block_hash (\<lambda>d. if double_is_zero d then 0 else 1)"

definition DoubleBlock_clear :: "u64 Block \<Rightarrow> u64 Block" where
  "DoubleBlock_clear = Block_clear"

definition DoubleBlock_clone :: "nat \<Rightarrow> u64 Block \<Rightarrow> u64 Block res" where
  "DoubleBlock_clone = Block_clone"

section \<open>StringBlock\<close>

definition StringBlock_new :: "nat \<Rightarrow> String Block" where
  "StringBlock_new = Block_new"

definition StringBlock_serialize :: "String Block \<Rightarrow> Serializer \<Rightarrow> Serializer res" where
  "StringBlock_serialize = Block_serialize String_serialize"

definition StringBlock_deserialize :: "Serializer \<Rightarrow> (String Block \<times> Serializer) res" where
  "StringBlock_deserialize = Block_deserialize String_deserialize"

definition StringBlock_get :: "nat \<Rightarrow> String Block \<Rightarrow> String res" where
  "StringBlock_get = Block_get"

definition StringBlock_add :: "String \<Rightarrow> String Block \<Rightarrow> (int option \<times> String Block) res" where
  "StringBlock_add = Block_add"

definition StringBlock_set :: "nat \<Rightarrow> String \<Rightarrow> String Block \<Rightarrow> (String \<times> String Block) res" where
  "StringBlock_set = Block_set"

definition StringBlock_equals :: "String Block \<Rightarrow> String Block \<Rightarrow> bool res" where
  "StringBlock_equals = Block_equals String_equals"

definition StringBlock_hash_me :: "String Block \<Rightarrow> u64 res" where
  "StringBlock_hash_me = Block_hash String_hash_me"

text \<open>The strings are deleted and the array is cleared: no slot may be read until it is added to.\<close>

definition StringBlock_clear :: "String Block \<Rightarrow> String Block" where
  "StringBlock_clear = Block_clear"

text \<open>\<open>clone\<close> copies every string.\<close>

definition StringBlock_clone :: "nat \<Rightarrow> String Block \<Rightarrow> String Block res" where
  "StringBlock_clone blockSize b =
     res_fold (\<lambda>i out.
       res_bind (StringBlock_get i b) (\<lambda>x.
       res_bind (String_copy x) (\<lambda>x.
       res_bind (StringBlock_add x out) (\<lambda>(_, out). Inr out))))
       [0..<bk_size b] (StringBlock_new blockSize)"

section \<open>The classes keep bounded lists\<close>

lemma Block_equals_wf:
  assumes "list_all String_wf xs" and "list_all String_wf ys"
  shows "StringBlock_equals (Block_lit c xs) (Block_lit d ys) = Inr (c = d \<and> xs = ys)"
proof -
  have "Block_equals_from String_equals (Block_lit c xs) (Block_lit d ys) is =
      Block_equals_from (=) (Block_lit c xs) (Block_lit d ys) is"
    if "\<forall>i\<in>set is. i < length xs \<and> i < length ys" for "is"
    using that
  proof (induction "is")
    case (Cons i "is")
    then have "String_wf (xs ! i)" "String_wf (ys ! i)" using assms by (simp_all add: list_all_length)
    with Cons show ?case by (simp add: cell_load_lit String_equals_wf)
  qed simp
  then show ?thesis
    using Block_equals_lit [of c xs d ys] by (auto simp: StringBlock_equals_def Block_equals_def)
qed

lemma StringBlock_clone_lit:
  assumes "length xs \<le> n" and "list_all String_wf xs"
  shows "StringBlock_clone n (Block_lit cap xs) = Inr (Block_lit n xs)"
proof -
  have "StringBlock_clone n (Block_lit cap xs) = Block_clone n (Block_lit cap xs)"
    unfolding StringBlock_clone_def Block_clone_def StringBlock_new_def
  proof (rule res_fold_cong)
    fix i and out :: "String Block"
    assume "i \<in> set [0..<bk_size (Block_lit cap xs)]"
    then have "i < length xs" "String_wf (xs ! i)" using assms(2) by (simp_all add: list_all_length)
    then show "res_bind (StringBlock_get i (Block_lit cap xs)) (\<lambda>x. res_bind (String_copy x) (\<lambda>x.
        res_bind (StringBlock_add x out) (\<lambda>(_, out). Inr out))) =
      res_bind (Block_get i (Block_lit cap xs)) (\<lambda>x. res_bind (Block_add x out) (\<lambda>(_, out). Inr out))"
      by (auto simp: StringBlock_get_def StringBlock_add_def Block_get_lit elim: String_wfE)
  qed
  then show ?thesis using Block_clone_lit [OF assms(1)] by simp
qed

end
