(* ===== verification/Args.thy ===== *)
theory Args
  imports Strings
begin

text \<open>
  The command line (\<open>src/utils/args.h\<close>). \<open>Args\<close> is the global object every part of the
  program reads its configuration from; the data frame uses \<open>blockSize\<close> and \<open>numNodes\<close>.

  \<open>sscanf(arg, "%zu", \<dots>)\<close> skips white space, takes an optional sign and at least one
  digit, and negates or saturates as \<open>strtoul\<close> does.
\<close>

record Args =
  appName :: "char list option"
  numNodes :: nat
  index :: nat
  ip :: "char list option"
  port :: nat
  serverIp :: "char list option"
  serverPort :: nat
  serverIdx :: nat
  usePseudoNet :: bool
  blockSize :: nat

definition Args_default :: Args where
  "Args_default =
     \<lparr>appName = None, numNodes = 1, index = 0, ip = None, port = 8080, serverIp = None,
      serverPort = 8080, serverIdx = 0, usePseudoNet = False, blockSize = 1024\<rparr>"

definition is_space :: "char \<Rightarrow> bool" where
  "is_space c \<longleftrightarrow> c \<in> {CHR '' '', CHR 0x09, CHR 0x0A, CHR 0x0B, CHR 0x0C, CHR 0x0D}"

definition is_digit :: "char \<Rightarrow> bool" where
  "is_digit c \<longleftrightarrow> 48 \<le> (of_char c :: nat) \<and> (of_char c :: nat) < 58"

definition scan_digits :: "char list \<Rightarrow> nat option" where
  "scan_digits cs =
     (let ds = takeWhile is_digit cs in if ds = [] then None else Some (digits_val ds))"

definition scan_size_t :: "char list \<Rightarrow> nat option" where
  "scan_size_t cs =
     (let cs = dropWhile is_space cs;
          neg = (cs \<noteq> [] \<and> hd cs = CHR ''-'');
          cs = (if cs \<noteq> [] \<and> (hd cs = CHR ''-'' \<or> hd cs = CHR ''+'') then tl cs else cs)
      in case scan_digits cs of
           None \<Rightarrow> None
         | Some n \<Rightarrow>
             Some (if n \<ge> 2 ^ 64 then 2 ^ 64 - 1 else if neg then (2 ^ 64 - n) mod 2 ^ 64 else n))"

definition tryParseSizeT :: "char list \<Rightarrow> nat res" where
  "tryParseSizeT arg = (case scan_size_t arg of None \<Rightarrow> Inl (Exit 1) | Some n \<Rightarrow> Inr n)"

fun Args_parse :: "char list list \<Rightarrow> Args \<Rightarrow> Args res" where
  "Args_parse [] a = Inr a"
| "Args_parse [arg] a =
     (if arg = ''-pseudo'' then Inr (a\<lparr>usePseudoNet := True\<rparr>) else Inl (Exit (-1)))"
| "Args_parse (arg # v # rest) a =
     (if arg = ''-pseudo'' then Args_parse (v # rest) (a\<lparr>usePseudoNet := True\<rparr>)
      else if arg = ''-app'' then Args_parse rest (a\<lparr>appName := Some v\<rparr>)
      else if arg = ''-num_nodes'' then
        res_bind (tryParseSizeT v) (\<lambda>n. Args_parse rest (a\<lparr>numNodes := n\<rparr>))
      else if arg = ''-i'' then res_bind (tryParseSizeT v) (\<lambda>n. Args_parse rest (a\<lparr>index := n\<rparr>))
      else if arg = ''-ip'' then Args_parse rest (a\<lparr>ip := Some v\<rparr>)
      else if arg = ''-port'' then res_bind (tryParseSizeT v) (\<lambda>n. Args_parse rest (a\<lparr>port := n\<rparr>))
      else if arg = ''-serverIdx'' then
        res_bind (tryParseSizeT v) (\<lambda>n. Args_parse rest (a\<lparr>serverIdx := n\<rparr>))
      else if arg = ''-serverIp'' then Args_parse rest (a\<lparr>serverIp := Some v\<rparr>)
      else if arg = ''-serverPort'' then
        res_bind (tryParseSizeT v) (\<lambda>n. Args_parse rest (a\<lparr>serverPort := n\<rparr>))
      else if arg = ''-blockSize'' then
        res_bind (tryParseSizeT v) (\<lambda>n. Args_parse rest (a\<lparr>blockSize := n\<rparr>))
      else Inl (Exit (-1)))"

section \<open>Reading back a printed command line\<close>

lemma takeWhile_digits: "takeWhile is_digit (to_string n) = to_string n"
  using to_string_digits by (auto simp: takeWhile_eq_all_conv is_digit_def)

lemma to_string_Cons: "to_string n \<noteq> []"
  by (subst to_string.simps) simp

lemma scan_to_string: "n < 2 ^ 64 \<Longrightarrow> scan_size_t (to_string n) = Some n"
proof -
  assume n: "n < 2 ^ 64"
  obtain c cs where c: "to_string n = c # cs" using to_string_Cons by (cases "to_string n") auto
  have d: "48 \<le> (of_char c :: nat) \<and> (of_char c :: nat) < 58" using to_string_digits [of c n] c by simp
  have ne: "c \<noteq> d'" if "(of_char d' :: nat) < 48 \<or> 58 \<le> (of_char d' :: nat)" for d' using d that by auto
  have "\<not> is_space c" using ne by (auto simp: is_space_def)
  moreover have "c \<noteq> CHR ''-''" "c \<noteq> CHR ''+''" by (rule ne; simp)+
  moreover have "scan_digits (to_string n) = Some n"
    using to_string_Cons by (simp add: scan_digits_def takeWhile_digits Let_def)
  ultimately show ?thesis using n c by (simp add: scan_size_t_def Let_def)
qed

lemma tryParse_to_string [simp]: "n < 2 ^ 64 \<Longrightarrow> tryParseSizeT (to_string n) = Inr n"
  using scan_to_string [of n] by (simp add: tryParseSizeT_def)

text \<open>The command line that asks for the configuration \<open>a\<close>.\<close>

definition opt_arg :: "char list \<Rightarrow> char list option \<Rightarrow> char list list" where
  "opt_arg flag v = (case v of None \<Rightarrow> [] | Some x \<Rightarrow> [flag, x])"

definition Args_print :: "Args \<Rightarrow> char list list" where
  "Args_print a =
     opt_arg ''-app'' (appName a) @ [''-num_nodes'', to_string (numNodes a), ''-i'', to_string (index a)] @
     opt_arg ''-ip'' (ip a) @ [''-port'', to_string (port a)] @ opt_arg ''-serverIp'' (serverIp a) @
     [''-serverPort'', to_string (serverPort a), ''-serverIdx'', to_string (serverIdx a),
      ''-blockSize'', to_string (blockSize a)] @ (if usePseudoNet a then [''-pseudo''] else [])"

definition Args_ok :: "Args \<Rightarrow> bool" where
  "Args_ok a \<longleftrightarrow> numNodes a < 2 ^ 64 \<and> index a < 2 ^ 64 \<and> port a < 2 ^ 64 \<and> serverPort a < 2 ^ 64 \<and>
     serverIdx a < 2 ^ 64 \<and> blockSize a < 2 ^ 64"

lemma Args_parse_flags:
  "Args_parse (''-app'' # v # r) a = Args_parse r (a\<lparr>appName := Some v\<rparr>)"
  "n < 2 ^ 64 \<Longrightarrow> Args_parse (''-num_nodes'' # to_string n # r) a = Args_parse r (a\<lparr>numNodes := n\<rparr>)"
  "n < 2 ^ 64 \<Longrightarrow> Args_parse (''-i'' # to_string n # r) a = Args_parse r (a\<lparr>index := n\<rparr>)"
  "Args_parse (''-ip'' # v # r) a = Args_parse r (a\<lparr>ip := Some v\<rparr>)"
  "n < 2 ^ 64 \<Longrightarrow> Args_parse (''-port'' # to_string n # r) a = Args_parse r (a\<lparr>port := n\<rparr>)"
  "Args_parse (''-serverIp'' # v # r) a = Args_parse r (a\<lparr>serverIp := Some v\<rparr>)"
  "n < 2 ^ 64 \<Longrightarrow> Args_parse (''-serverPort'' # to_string n # r) a = Args_parse r (a\<lparr>serverPort := n\<rparr>)"
  "n < 2 ^ 64 \<Longrightarrow> Args_parse (''-serverIdx'' # to_string n # r) a = Args_parse r (a\<lparr>serverIdx := n\<rparr>)"
  "n < 2 ^ 64 \<Longrightarrow> Args_parse (''-blockSize'' # to_string n # r) a = Args_parse r (a\<lparr>blockSize := n\<rparr>)"
  "Args_parse [''-pseudo''] a = Inr (a\<lparr>usePseudoNet := True\<rparr>)"
  by simp_all

lemma Args_parse_opt:
  "Args_parse (opt_arg ''-app'' v @ r) a = Args_parse r (case v of None \<Rightarrow> a | Some x \<Rightarrow> a\<lparr>appName := Some x\<rparr>)"
  "Args_parse (opt_arg ''-ip'' v @ r) a = Args_parse r (case v of None \<Rightarrow> a | Some x \<Rightarrow> a\<lparr>ip := Some x\<rparr>)"
  "Args_parse (opt_arg ''-serverIp'' v @ r) a =
     Args_parse r (case v of None \<Rightarrow> a | Some x \<Rightarrow> a\<lparr>serverIp := Some x\<rparr>)"
  by (simp_all add: opt_arg_def Args_parse_flags split: option.split del: Args_parse.simps)

lemma Args_parse_print:
  assumes "Args_ok a"
  shows "Args_parse (Args_print a) Args_default = Inr a"
proof -
  note ok = assms[unfolded Args_ok_def]
  have pseudo: "Args_parse (if p then [''-pseudo''] else []) b = Inr (b\<lparr>usePseudoNet := p \<or> usePseudoNet b\<rparr>)" for p b
    by (cases b) simp
  show ?thesis
    using ok unfolding Args_print_def
    by (cases a; cases "appName a"; cases "ip a"; cases "serverIp a")
      (simp_all add: Args_parse_opt Args_parse_flags pseudo Args_default_def del: Args_parse.simps)
qed

section \<open>Properties\<close>

text \<open>The command line is read back: parsing the options that spell out a configuration, starting
  from the defaults, gives exactly that configuration, whatever its application name and addresses
  are, and never exits.\<close>

theorem Args_roundtrip:
  assumes "Args_ok a"
  shows "Args_parse (Args_print a) Args_default = Inr a"
  by (rule Args_parse_print [OF assms])

lemma Args_roundtrip_witness:
  "Args_parse (Args_print (Args_default\<lparr>numNodes := 3, appName := Some ''trivial''\<rparr>)) Args_default =
     Inr (Args_default\<lparr>numNodes := 3, appName := Some ''trivial''\<rparr>)"
  by (rule Args_roundtrip) (simp add: Args_ok_def Args_default_def)

end
