(* ===== verification/Directory.thy ===== *)
theory Directory
  imports Store
begin

text \<open>
  \<open>SizeTWrapper\<close>, \<open>NodeInfo\<close> and the \<open>Directory\<close> of known nodes (\<open>src/network/\<close>), with
  their \<open>serialize\<close> and \<open>deserialize\<close>. A \<open>Directory\<close> is the hash map from node numbers to
  addresses it wraps.

  \<open>inet_pton\<close> is a function of the operating system: it is the parameter \<open>pton\<close> (the
  address a dotted string denotes, if it denotes one).
\<close>

section \<open>SizeTWrapper\<close>

text \<open>A wrapped \<open>size_t\<close> is modelled by the word it wraps.\<close>

definition SizeT_hash :: "u64 \<Rightarrow> u64" where
  "SizeT_hash w = w + push_bit 2 w"

definition SizeT_vt :: "u64 vtbl" where
  "SizeT_vt = \<lparr>vt_equals = (=), vt_hash = SizeT_hash\<rparr>"

definition SizeT_serialize :: "u64 \<Rightarrow> Serializer \<Rightarrow> Serializer res" where
  "SizeT_serialize w s = write_size_t w s"

definition SizeT_deserialize :: "Serializer \<Rightarrow> (u64 \<times> Serializer) res" where
  "SizeT_deserialize s = readSizeT s"

interpretation SizeT_codec: codec SizeT_serialize SizeT_deserialize enc_u64 "\<lambda>_. True"
proof unfold_locales
  fix w :: u64
  show "writes (SizeT_serialize w) (enc_u64 w)"
    unfolding SizeT_serialize_def [abs_def] by (rule writes_prims)
  show "reads SizeT_deserialize (enc_u64 w) w"
    unfolding SizeT_deserialize_def [abs_def] by (rule reads_prims)
qed

interpretation SizeT_key: hash_key SizeT_vt "\<lambda>_. True"
  by unfold_locales (simp add: SizeT_vt_def)

section \<open>NodeInfo\<close>

record NodeInfo =
  ni_family :: u16
  ni_addr :: u32
  ni_port :: u16

definition AF_INET :: u16 where "AF_INET = 2"

definition htons :: "u16 \<Rightarrow> u16" where
  "htons w = of_nat (of_le_bytes (rev (le_bytes 2 (unat w))))"

definition ntohl :: "u32 \<Rightarrow> u32" where
  "ntohl w = of_nat (of_le_bytes (rev (le_bytes 4 (unat w))))"

text \<open>The address stays indeterminate when \<open>inet_pton\<close> rejects the string.\<close>

definition NodeInfo_new :: "(char list \<Rightarrow> u32 option) \<Rightarrow> String \<Rightarrow> u64 \<Rightarrow> NodeInfo res" where
  "NodeInfo_new pton ipAddr port =
     (case pton (String_val ipAddr) of
        None \<Rightarrow> Inl Uninitialised
      | Some a \<Rightarrow> Inr \<lparr>ni_family = AF_INET, ni_addr = a, ni_port = htons (ucast port)\<rparr>)"

definition NodeInfo_equals :: "NodeInfo \<Rightarrow> NodeInfo \<Rightarrow> bool" where
  "NodeInfo_equals x y \<longleftrightarrow>
     ntohl (ucast (ni_family x)) = ntohl (ucast (ni_family y)) \<and>
     ntohl (ni_addr x) = ntohl (ni_addr y) \<and>
     ntohl (ucast (ni_port x)) = ntohl (ucast (ni_port y))"

definition NodeInfo_getPort :: "NodeInfo \<Rightarrow> u64" where
  "NodeInfo_getPort x = ucast (htons (ni_port x))"

definition NodeInfo_clone :: "NodeInfo \<Rightarrow> NodeInfo" where
  "NodeInfo_clone x = \<lparr>ni_family = ni_family x, ni_addr = ni_addr x, ni_port = ni_port x\<rparr>"

definition NodeInfo_serialize :: "NodeInfo \<Rightarrow> Serializer \<Rightarrow> Serializer res" where
  "NodeInfo_serialize x s =
     res_bind (write_short (ni_family x) s) (\<lambda>s.
     res_bind (write_long (ucast (ni_addr x)) s) (write_short (ni_port x)))"

definition NodeInfo_deserialize :: "Serializer \<Rightarrow> (NodeInfo \<times> Serializer) res" where
  "NodeInfo_deserialize s =
     res_bind (readShort s) (\<lambda>(f, s).
     res_bind (readLong s) (\<lambda>(a, s).
     res_bind (readShort s) (\<lambda>(p, s).
     Inr (\<lparr>ni_family = f, ni_addr = ucast a, ni_port = p\<rparr>, s))))"

definition enc_NodeInfo :: "NodeInfo \<Rightarrow> char list" where
  "enc_NodeInfo x = enc_u16 (ni_family x) @ enc_u64 (ucast (ni_addr x)) @ enc_u16 (ni_port x)"

lemma NodeInfo_clone_id [simp]: "NodeInfo_clone x = x"
  by (simp add: NodeInfo_clone_def)

lemma ucast_ucast_32_64 [simp]: "(ucast (ucast (w :: u32) :: u64) :: u32) = w"
  by (rule ucast_up_ucast_id) (simp add: is_up)

interpretation NodeInfo_codec: codec NodeInfo_serialize NodeInfo_deserialize enc_NodeInfo "\<lambda>_. True"
proof unfold_locales
  fix x :: NodeInfo
  show "writes (NodeInfo_serialize x) (enc_NodeInfo x)"
    unfolding NodeInfo_serialize_def [abs_def] enc_NodeInfo_def by (intro writes_rules)
  show "reads NodeInfo_deserialize (enc_NodeInfo x) x"
    unfolding NodeInfo_deserialize_def [abs_def] enc_NodeInfo_def
    by (rule reads_mk3 [OF reads_prims(5,2,5)]) simp
qed

section \<open>Directory\<close>

type_synonym Directory = "(u64, NodeInfo) hmap"

definition Directory_new :: Directory where
  "Directory_new = Map_default"

definition Directory_size :: "Directory \<Rightarrow> nat" where
  "Directory_size d = hm_size d"

definition Directory_addInfo :: "u64 \<Rightarrow> NodeInfo \<Rightarrow> Directory \<Rightarrow> Directory res" where
  "Directory_addInfo nodeId newInfo d =
     res_bind (Map_put SizeT_vt (Some nodeId) (Some (NodeInfo_clone newInfo)) d) (\<lambda>(_, d). Inr d)"

definition Directory_addInfo_addr ::
    "(char list \<Rightarrow> u32 option) \<Rightarrow> u64 \<Rightarrow> char list \<Rightarrow> u64 \<Rightarrow> Directory \<Rightarrow> Directory res" where
  "Directory_addInfo_addr pton nodeId addr port d =
     res_bind (String_of_cstr addr) (\<lambda>strAddr.
     res_bind (NodeInfo_new pton strAddr port) (\<lambda>newEntry. Directory_addInfo nodeId newEntry d))"

definition Directory_getInfo :: "u64 \<Rightarrow> Directory \<Rightarrow> NodeInfo res" where
  "Directory_getInfo nodeId d =
     res_bind (Map_get SizeT_vt (Some nodeId) d) (\<lambda>info.
       case info of None \<Rightarrow> Inl AssertFail | Some i \<Rightarrow> Inr i)"

definition Directory_getNodes :: "Directory \<Rightarrow> u64 list res" where
  "Directory_getNodes d =
     res_bind (Map_get_keys d) (\<lambda>keys. res_map (cell_load keys) [0..<hm_size d])"

definition Directory_mergeIn :: "Directory \<Rightarrow> Directory \<Rightarrow> Directory res" where
  "Directory_mergeIn other d =
     (if Directory_size other = 0 then Inr d
      else
        res_bind (Directory_getNodes other) (\<lambda>otherNodes.
        res_fold (\<lambda>nodeIdx d.
          res_bind (Directory_getInfo nodeIdx other) (\<lambda>info.
          res_bind (Map_put SizeT_vt (Some nodeIdx) (Some (NodeInfo_clone info)) d) (\<lambda>(_, d). Inr d)))
          otherNodes d))"

definition Directory_clone :: "Directory \<Rightarrow> Directory res" where
  "Directory_clone d = Directory_mergeIn d Directory_new"

definition Directory_serialize :: "Directory \<Rightarrow> Serializer \<Rightarrow> Serializer res" where
  "Directory_serialize d s =
     res_bind (write_size_t (of_nat (hm_size d)) s) (\<lambda>s.
     res_bind (write_size_t (of_nat (hm_capacity d)) s) (\<lambda>s.
     res_bind (Directory_getNodes d) (\<lambda>keys.
     res_fold (\<lambda>node s.
       res_bind (Map_get SizeT_vt (Some node) d) (\<lambda>ni.
         case ni of
           None \<Rightarrow> Inl NullDeref
         | Some ni \<Rightarrow> res_bind (SizeT_serialize node s) (NodeInfo_serialize ni))) keys s)))"

fun Directory_read_entries :: "nat \<Rightarrow> Directory \<Rightarrow> Serializer \<Rightarrow> (Directory \<times> Serializer) res" where
  "Directory_read_entries 0 d s = Inr (d, s)"
| "Directory_read_entries (Suc n) d s =
     res_bind (SizeT_deserialize s) (\<lambda>(tmpNodeId, s).
     res_bind (NodeInfo_deserialize s) (\<lambda>(tmpNodeInfo, s).
     res_bind (Map_put SizeT_vt (Some tmpNodeId) (Some (NodeInfo_clone tmpNodeInfo)) d) (\<lambda>(_, d).
     Directory_read_entries n d s)))"

definition Directory_deserialize :: "Serializer \<Rightarrow> (Directory \<times> Serializer) res" where
  "Directory_deserialize s =
     res_bind (readSizeT s) (\<lambda>(sz, s).
     res_bind (readSizeT s) (\<lambda>(cap, s).
     Directory_read_entries (unat sz) (Map_new (unat cap)) s))"

subsection \<open>Directory as a partial function from node numbers\<close>

definition Directory_inv :: "Directory \<Rightarrow> bool" where
  "Directory_inv d \<longleftrightarrow> Map_inv SizeT_vt (\<lambda>_. True) d"

definition Directory_ok :: "Directory \<Rightarrow> bool" where
  "Directory_ok d \<longleftrightarrow> Directory_inv d \<and> hm_size d < 2 ^ 64 \<and> hm_capacity d < 2 ^ 64"

definition enc_entry :: "u64 \<times> NodeInfo \<Rightarrow> char list" where
  "enc_entry e = enc_u64 (fst e) @ enc_NodeInfo (snd e)"

definition enc_Directory :: "Directory \<Rightarrow> char list" where
  "enc_Directory d = enc_u64 (of_nat (hm_size d)) @ enc_u64 (of_nat (hm_capacity d)) @
     concat (map enc_entry (Map_entries d))"

lemma Directory_new_ok [simp]:
  "Directory_inv Directory_new" "Map_abs Directory_new = Map.empty" "Directory_ok Directory_new"
  by (simp_all add: Directory_inv_def Directory_ok_def Directory_new_def Map_default_def)

lemma Directory_addInfo_correct:
  assumes "Directory_inv d"
  shows "\<exists>d'. Directory_addInfo n i d = Inr d' \<and> Directory_inv d' \<and> Map_abs d' = (Map_abs d)(n \<mapsto> i) \<and>
    Directory_size d' = (if Map_abs d n = None then Directory_size d + 1 else Directory_size d)"
  using SizeT_key.put_correct [of d n i] assms
  by (auto simp: Directory_addInfo_def Directory_inv_def Directory_size_def)

lemma Directory_getInfo_correct:
  "Directory_inv d \<Longrightarrow>
   Directory_getInfo n d = (case Map_abs d n of None \<Rightarrow> Inl AssertFail | Some i \<Rightarrow> Inr i)"
  using SizeT_key.get_correct [of d n] by (simp add: Directory_getInfo_def Directory_inv_def)

lemma Directory_getNodes_entries:
  assumes "Directory_inv d"
  shows "Directory_getNodes d = Inr (map fst (Map_entries d))"
proof -
  have k: "Map_get_keys d = Inr (map Some (map fst (Map_entries d)))" and n: "hm_size d = length (Map_entries d)"
    using assms Map_get_keys_ok [of d] by (simp_all add: Directory_inv_def Map_inv_def)
  have "res_map (cell_load (map Some xs)) [0..<length xs] = Inr xs" for xs :: "u64 list"
    using res_map_total [of "[0..<length xs]" "cell_load (map Some xs)" "(!) xs"]
    by (simp add: cell_load_def map_nth)
  from this [of "map fst (Map_entries d)"] show ?thesis
    using k n by (simp add: Directory_getNodes_def del: map_map)
qed

lemma Directory_getInfo_entry:
  "Directory_inv d \<Longrightarrow> e \<in> set (Map_entries d) \<Longrightarrow> Map_abs d (fst e) = Some (snd e)"
  using Map_abs_entry [of SizeT_vt "\<lambda>_. True" d "fst e" "snd e"] by (simp add: Directory_inv_def)

lemma map_of_rev_distinct: "distinct (map fst es) \<Longrightarrow> map_of (rev es) = map_of es"
  by (rule map_of_eqI) (auto simp: rev_map [symmetric])

lemma map_of_rev_entries: "Map_inv vt ok m \<Longrightarrow> map_of (rev (Map_entries m)) = Map_abs m"
  using Map_inv_distinct [of vt ok m] by (simp add: Map_abs_def map_of_rev_distinct)

lemma Directory_mergeIn_correct:
  assumes d: "Directory_inv d" and o: "Directory_inv other"
  shows "\<exists>d'. Directory_mergeIn other d = Inr d' \<and> Directory_inv d' \<and>
    Map_abs d' = Map_abs d ++ Map_abs other \<and> hm_capacity d' = hm_capacity d"
proof (cases "Directory_size other = 0")
  case True
  then have "Map_abs other = Map.empty"
    using o by (simp add: Directory_size_def Directory_inv_def Map_inv_def Map_abs_def)
  with True d show ?thesis by (simp add: Directory_mergeIn_def)
next
  case False
  have "Directory_mergeIn other d = res_fold (Map_put_entry SizeT_vt) (Map_entries other) d"
    using False Directory_getInfo_correct [OF o] Directory_getInfo_entry [OF o]
    by (auto simp: Directory_mergeIn_def Directory_getNodes_entries [OF o] res_fold_map Map_put_entry_def
        intro!: res_fold_cong)
  moreover obtain d' where "res_fold (Map_put_entry SizeT_vt) (Map_entries other) d = Inr d'"
    "Map_inv SizeT_vt (\<lambda>_. True) d'" "Map_abs d' = Map_abs d ++ map_of (rev (Map_entries other))"
    "hm_capacity d' = hm_capacity d"
    using SizeT_key.put_all_correct [of d "Map_entries other"] d by (auto simp: Directory_inv_def)
  moreover have "map_of (rev (Map_entries other)) = Map_abs other"
    using o unfolding Directory_inv_def by (rule map_of_rev_entries)
  ultimately show ?thesis by (simp add: Directory_inv_def)
qed

lemma Directory_clone_correct:
  "Directory_inv d \<Longrightarrow> \<exists>d'. Directory_clone d = Inr d' \<and> Directory_inv d' \<and> Map_abs d' = Map_abs d \<and>
     hm_capacity d' = 4"
  using Directory_mergeIn_correct [OF Directory_new_ok(1), of d]
  by (auto simp: Directory_clone_def) (simp add: Directory_new_def Map_default_def)

subsection \<open>Directory as a serialisable class\<close>

lemma Directory_serialize_entries:
  assumes "Directory_inv d"
  shows "Directory_serialize d s =
    res_bind (write_size_t (of_nat (hm_size d)) s) (\<lambda>s.
    res_bind (write_size_t (of_nat (hm_capacity d)) s)
      (res_fold (\<lambda>e s. res_bind (SizeT_serialize (fst e) s) (NodeInfo_serialize (snd e))) (Map_entries d)))"
proof -
  have get: "Map_get SizeT_vt (Some (fst e)) d = Inr (Some (snd e))" if "e \<in> set (Map_entries d)" for e
    using SizeT_key.get_correct [of d "fst e"] Directory_getInfo_entry [OF assms that] assms
    by (simp add: Directory_inv_def)
  have "res_fold (\<lambda>node s.
       res_bind (Map_get SizeT_vt (Some node) d) (\<lambda>ni.
         case ni of
           None \<Rightarrow> Inl NullDeref
         | Some ni \<Rightarrow> res_bind (SizeT_serialize node s) (NodeInfo_serialize ni))) (map fst (Map_entries d)) s
    = res_fold (\<lambda>e s. res_bind (SizeT_serialize (fst e) s) (NodeInfo_serialize (snd e))) (Map_entries d) s" for s
    unfolding res_fold_map by (rule res_fold_cong) (simp add: get)
  then show ?thesis
    by (simp add: Directory_serialize_def Directory_getNodes_entries [OF assms])
qed

lemma Directory_read_entries_reads:
  "res_fold (Map_put_entry SizeT_vt) es d = Inr d' \<Longrightarrow>
   reads (Directory_read_entries (length es) d) (concat (map enc_entry es)) d'"
proof (induction es arbitrary: d)
  case Nil
  then show ?case by (simp add: reads_def ser_skip_def)
next
  case (Cons e es)
  obtain d1 where d1: "Map_put_entry SizeT_vt e d = Inr d1" "res_fold (Map_put_entry SizeT_vt) es d1 = Inr d'"
    using Cons.prems by (auto elim: res_bindE)
  have "reads (\<lambda>s. res_bind (Map_put SizeT_vt (Some (fst e)) (Some (NodeInfo_clone (snd e))) d)
      (\<lambda>(_, d). Directory_read_entries (length es) d s)) (concat (map enc_entry es)) d'"
    using Cons.IH [OF d1(2)] d1(1) by (auto simp: Map_put_entry_def res_bind_Inr_iff)
  from reads_bind [OF NodeInfo_codec.deser_reads [OF TrueI], of "\<lambda>i s.
      res_bind (Map_put SizeT_vt (Some (fst e)) (Some (NodeInfo_clone i)) d)
      (\<lambda>(_, d). Directory_read_entries (length es) d s)", OF this]
  have "reads (\<lambda>s. res_bind (NodeInfo_deserialize s) (\<lambda>(i, s).
      res_bind (Map_put SizeT_vt (Some (fst e)) (Some (NodeInfo_clone i)) d)
      (\<lambda>(_, d). Directory_read_entries (length es) d s)))
      (enc_NodeInfo (snd e) @ concat (map enc_entry es)) d'" .
  note bind = reads_bind [OF SizeT_codec.deser_reads [OF TrueI, of "fst e"], of "\<lambda>n s. res_bind (NodeInfo_deserialize s) (\<lambda>(i, s).
      res_bind (Map_put SizeT_vt (Some n) (Some (NodeInfo_clone i)) d)
      (\<lambda>(_, d). Directory_read_entries (length es) d s))", OF this]
  have "Directory_read_entries (length (e # es)) d = (\<lambda>s. res_bind (SizeT_deserialize s) (\<lambda>(n, s).
      res_bind (NodeInfo_deserialize s) (\<lambda>(i, s).
      res_bind (Map_put SizeT_vt (Some n) (Some (NodeInfo_clone i)) d)
      (\<lambda>(_, d). Directory_read_entries (length es) d s))))"
    by (rule ext) simp
  with bind show ?case by (simp only: enc_entry_def [of e] list.map concat.simps append_assoc)
qed

interpretation Directory_codec: codec Directory_serialize Directory_deserialize enc_Directory Directory_ok
proof unfold_locales
  fix d assume ok: "Directory_ok d"
  then have inv: "Directory_inv d" and sz: "hm_size d < 2 ^ 64" "hm_capacity d < 2 ^ 64"
    and n: "hm_size d = length (Map_entries d)"
    by (simp_all add: Directory_ok_def Directory_inv_def Map_inv_def)
  note enc = enc_Directory_def [of d]
  have "writes (res_fold (\<lambda>e s. res_bind (SizeT_serialize (fst e) s) (NodeInfo_serialize (snd e))) (Map_entries d))
      (concat (map enc_entry (Map_entries d)))"
    unfolding enc_entry_def [abs_def]
    by (intro writes_fold writes_bind SizeT_codec.ser_writes NodeInfo_codec.ser_writes TrueI)
  then have "writes (\<lambda>s. res_bind (write_size_t (of_nat (hm_size d)) s) (\<lambda>s.
    res_bind (write_size_t (of_nat (hm_capacity d)) s)
      (res_fold (\<lambda>e s. res_bind (SizeT_serialize (fst e) s) (NodeInfo_serialize (snd e))) (Map_entries d))))
      (enc_Directory d)"
    unfolding enc by (intro writes_bind writes_prims)
  then show "writes (Directory_serialize d) (enc_Directory d)"
    by (simp add: Directory_serialize_entries [OF inv, abs_def])
  have "reads (Directory_read_entries (hm_size d) (Map_new (hm_capacity d))) (concat (map enc_entry (Map_entries d))) d"
    unfolding n using inv SizeT_key.rebuild [of d]
    by (intro Directory_read_entries_reads) (simp add: Directory_inv_def)
  then have "reads (\<lambda>s. res_bind (readSizeT s) (\<lambda>(cap, s).
      Directory_read_entries (hm_size d) (Map_new (unat cap)) s))
      (enc_u64 (of_nat (hm_capacity d)) @ concat (map enc_entry (Map_entries d))) d"
    using sz(2) by (rule_tac reads_bind [OF reads_prims(1)]) simp
  then have "reads (\<lambda>s. res_bind (readSizeT s) (\<lambda>(sz, s). res_bind (readSizeT s) (\<lambda>(cap, s).
      Directory_read_entries (unat sz) (Map_new (unat cap)) s))) (enc_Directory d) d"
    unfolding enc using sz(1) by (rule_tac reads_bind [OF reads_prims(1)]) simp
  then show "reads Directory_deserialize (enc_Directory d) d"
    by (simp add: Directory_deserialize_def [abs_def])
qed

section \<open>Properties\<close>

text \<open>C29: A directory survives the wire unchanged. Reading back what \<open>serialize\<close> wrote gives the very
  same hash map, buckets, chains and capacity included, and reads all of the bytes.\<close>

theorem Directory_roundtrip:
  assumes "Directory_ok d"
  shows "\<exists>s t u. Directory_serialize d Serializer_new = Inr s \<and>
    Serializer_of (sz_written s) (ser_bytes s) = Inr t \<and> Directory_deserialize t = Inr (d, u) \<and> ser_unread u = []"
  using Directory_codec.buffer_roundtrip [OF assms] by blast

lemma Directory_roundtrip_witness:
  "\<exists>d s t u. Directory_addInfo 3 \<lparr>ni_family = 2, ni_addr = 5, ni_port = 80\<rparr> Directory_new = Inr d \<and>
    Directory_serialize d Serializer_new = Inr s \<and>
    Serializer_of (sz_written s) (ser_bytes s) = Inr t \<and> Directory_deserialize t = Inr (d, u)"
proof -
  let ?i = "\<lparr>ni_family = 2, ni_addr = 5, ni_port = 80\<rparr>"
  have "Directory_inv Directory_new" by simp
  then obtain d where d: "Directory_addInfo 3 ?i Directory_new = Inr d" "Directory_ok d"
    using SizeT_key.put_correct [of Directory_new 3 ?i]
    by (auto simp: Directory_addInfo_def Directory_inv_def Directory_ok_def Directory_new_def Map_default_def)
  from Directory_roundtrip [OF d(2)] d(1) show ?thesis by blast
qed

text \<open>Merging directories: \<open>mergeIn\<close> adds every entry of the other directory and lets it override
  entries of the same node, and no other entry changes; \<open>clone\<close> copies the entries.\<close>

theorem Directory_merge:
  assumes "Directory_inv d" and "Directory_inv other"
  shows "\<exists>d'. Directory_mergeIn other d = Inr d' \<and> Directory_inv d' \<and>
    (\<forall>n. Directory_getInfo n d' =
       (if Map_abs other n = None then Directory_getInfo n d else Directory_getInfo n other))"
proof -
  obtain d' where d': "Directory_mergeIn other d = Inr d'" "Directory_inv d'" "Map_abs d' = Map_abs d ++ Map_abs other"
    using Directory_mergeIn_correct [OF assms(2,1)] Directory_mergeIn_correct [OF assms] by blast
  have "Directory_getInfo n d' = (if Map_abs other n = None then Directory_getInfo n d else Directory_getInfo n other)" for n
    using assms d'(2,3) by (auto simp: Directory_getInfo_correct map_add_def split: option.split)
  with d' show ?thesis by blast
qed

lemma Directory_merge_witness:
  "\<exists>d'. Directory_mergeIn Directory_new Directory_new = Inr d' \<and> Directory_getInfo 1 d' = Inl AssertFail"
  using Directory_merge [OF Directory_new_ok(1) Directory_new_ok(1)]
  by (auto simp: Directory_getInfo_correct)

end
