(* ===== verification/Messages.thy ===== *)
theory Messages
  imports Directory
begin

text \<open>
  The messages of \<open>src/network/message.h\<close>, and the frame of \<open>Network::sendMsg\<close> and
  \<open>Network::receiveMsg\<close> (\<open>network.h\<close>): the kind of the message in front of the message.

  The subclasses of \<open>Message\<close> are the constructors of \<open>Msg\<close>; the virtual \<open>serialize\<close> and
  \<open>deserialize\<close> are functions by cases on them. \<open>Msg_ok\<close> are the objects the program
  constructs: the kind in the header is that of the class and the parts are well formed.
\<close>

section \<open>Messages\<close>

record Message =
  m_kind :: MsgKind
  m_sender :: u64
  m_target :: u64

datatype Msg =
    GetDataMsg Message Key
  | PutMsg Message Key Value
  | ReplyDataMsg Message Key Value
  | WaitAndGetMsg Message Key
  | RegisterMsg Message NodeInfo
  | DirectoryMsg Message Directory
  | DoneMsg Message
  | TeardownMsg Message

fun Msg_header :: "Msg \<Rightarrow> Message" where
  "Msg_header (GetDataMsg h k) = h"
| "Msg_header (PutMsg h k v) = h"
| "Msg_header (ReplyDataMsg h k v) = h"
| "Msg_header (WaitAndGetMsg h k) = h"
| "Msg_header (RegisterMsg h i) = h"
| "Msg_header (DirectoryMsg h d) = h"
| "Msg_header (DoneMsg h) = h"
| "Msg_header (TeardownMsg h) = h"

definition getTarget :: "Msg \<Rightarrow> u64" where "getTarget m = m_target (Msg_header m)"

definition getSender :: "Msg \<Rightarrow> u64" where "getSender m = m_sender (Msg_header m)"

definition getKind :: "Msg \<Rightarrow> MsgKind" where "getKind m = m_kind (Msg_header m)"

definition Message_new :: "MsgKind \<Rightarrow> u64 \<Rightarrow> u64 \<Rightarrow> Message" where
  "Message_new kind sender target = \<lparr>m_kind = kind, m_sender = sender, m_target = target\<rparr>"

lemma Message_new_sel [simp]:
  "m_kind (Message_new c a b) = c" "m_sender (Message_new c a b) = a" "m_target (Message_new c a b) = b"
  by (simp_all add: Message_new_def)

subsection \<open>The constructors that fill a message; \<open>nullptr\<close> values are dereferenced by \<open>clone\<close>\<close>

definition new_ReplyDataMsg :: "Key \<Rightarrow> Value option \<Rightarrow> u64 \<Rightarrow> u64 \<Rightarrow> Msg res" where
  "new_ReplyDataMsg k v sender target =
     (case v of
        None \<Rightarrow> Inl NullDeref
      | Some v \<Rightarrow>
          res_bind (Value_clone v) (\<lambda>v.
          res_bind (Key_clone k) (\<lambda>k. Inr (ReplyDataMsg (Message_new ReplyData sender target) k v))))"

definition new_WaitAndGetMsg :: "Key \<Rightarrow> u64 \<Rightarrow> u64 \<Rightarrow> Msg res" where
  "new_WaitAndGetMsg k sender target =
     res_bind (Key_clone k) (\<lambda>k. Inr (WaitAndGetMsg (Message_new WaitAndGet sender target) k))"

definition new_GetDataMsg :: "Key \<Rightarrow> u64 \<Rightarrow> u64 \<Rightarrow> Msg res" where
  "new_GetDataMsg k sender target =
     res_bind (Key_clone k) (\<lambda>k. Inr (GetDataMsg (Message_new GetData sender target) k))"

definition new_PutMsg :: "Key \<Rightarrow> Value \<Rightarrow> u64 \<Rightarrow> u64 \<Rightarrow> Msg res" where
  "new_PutMsg k v sender target =
     res_bind (Key_clone k) (\<lambda>k.
     res_bind (Value_clone v) (\<lambda>v. Inr (PutMsg (Message_new Put sender target) k v)))"

definition new_DirectoryMsg :: "Directory \<Rightarrow> u64 \<Rightarrow> u64 \<Rightarrow> Msg res" where
  "new_DirectoryMsg dir sender target =
     res_bind (Directory_clone dir) (\<lambda>d. Inr (DirectoryMsg (Message_new Dir sender target) d))"

definition new_RegisterMsg ::
    "(char list \<Rightarrow> u32 option) \<Rightarrow> char list \<Rightarrow> u64 \<Rightarrow> u64 \<Rightarrow> u64 \<Rightarrow> Msg res" where
  "new_RegisterMsg pton client port sender target =
     res_bind (String_of_cstr client) (\<lambda>str.
     res_bind (NodeInfo_new pton str port) (\<lambda>i.
     Inr (RegisterMsg (Message_new Register sender target) i)))"

definition new_DoneMsg :: "u64 \<Rightarrow> u64 \<Rightarrow> Msg" where
  "new_DoneMsg sender target = DoneMsg (Message_new Done sender target)"

definition new_TeardownMsg :: "u64 \<Rightarrow> u64 \<Rightarrow> Msg" where
  "new_TeardownMsg sender target = TeardownMsg (Message_new Teardown sender target)"

subsection \<open>Serialisation\<close>

definition Message_serialize :: "Message \<Rightarrow> Serializer \<Rightarrow> Serializer res" where
  "Message_serialize h s =
     res_bind (write_msgkind (m_kind h) s) (\<lambda>s.
     res_bind (write_size_t (m_sender h) s) (write_size_t (m_target h)))"

definition Message_deserialize :: "Serializer \<Rightarrow> (Message \<times> Serializer) res" where
  "Message_deserialize s =
     res_bind (readMsgKind s) (\<lambda>(k, s).
     res_bind (readSizeT s) (\<lambda>(se, s).
     res_bind (readSizeT s) (\<lambda>(ta, s).
     Inr (\<lparr>m_kind = k, m_sender = se, m_target = ta\<rparr>, s))))"

definition ReplyDataMsg_serialize :: "Message \<Rightarrow> Key \<Rightarrow> Value \<Rightarrow> Serializer \<Rightarrow> Serializer res" where
  "ReplyDataMsg_serialize h k v s =
     res_bind (Message_serialize h s) (\<lambda>s. res_bind (Key_serialize k s) (Value_serialize v))"

definition WaitAndGetMsg_serialize :: "Message \<Rightarrow> Key \<Rightarrow> Serializer \<Rightarrow> Serializer res" where
  "WaitAndGetMsg_serialize h k s = res_bind (Message_serialize h s) (Key_serialize k)"

definition DirectoryMsg_serialize :: "Message \<Rightarrow> Directory \<Rightarrow> Serializer \<Rightarrow> Serializer res" where
  "DirectoryMsg_serialize h d s = res_bind (Message_serialize h s) (Directory_serialize d)"

definition RegisterMsg_serialize :: "Message \<Rightarrow> NodeInfo \<Rightarrow> Serializer \<Rightarrow> Serializer res" where
  "RegisterMsg_serialize h i s = res_bind (Message_serialize h s) (NodeInfo_serialize i)"

definition PutMsg_serialize :: "Message \<Rightarrow> Key \<Rightarrow> Value \<Rightarrow> Serializer \<Rightarrow> Serializer res" where
  "PutMsg_serialize h k v s =
     res_bind (Message_serialize h s) (\<lambda>s. res_bind (Key_serialize k s) (Value_serialize v))"

definition GetDataMsg_serialize :: "Message \<Rightarrow> Key \<Rightarrow> Serializer \<Rightarrow> Serializer res" where
  "GetDataMsg_serialize h k s = res_bind (Message_serialize h s) (Key_serialize k)"

lemmas Msg_serialize_defs = ReplyDataMsg_serialize_def [abs_def] WaitAndGetMsg_serialize_def [abs_def]
  DirectoryMsg_serialize_def [abs_def] RegisterMsg_serialize_def [abs_def] PutMsg_serialize_def [abs_def]
  GetDataMsg_serialize_def [abs_def]

text \<open>The virtual call \<open>msg->serialize(s)\<close>; \<open>DoneMsg\<close> and \<open>TeardownMsg\<close> inherit that of \<open>Message\<close>.\<close>

fun Msg_serialize :: "Msg \<Rightarrow> Serializer \<Rightarrow> Serializer res" where
  "Msg_serialize (GetDataMsg h k) = GetDataMsg_serialize h k"
| "Msg_serialize (PutMsg h k v) = PutMsg_serialize h k v"
| "Msg_serialize (ReplyDataMsg h k v) = ReplyDataMsg_serialize h k v"
| "Msg_serialize (WaitAndGetMsg h k) = WaitAndGetMsg_serialize h k"
| "Msg_serialize (RegisterMsg h i) = RegisterMsg_serialize h i"
| "Msg_serialize (DirectoryMsg h d) = DirectoryMsg_serialize h d"
| "Msg_serialize (DoneMsg h) = Message_serialize h"
| "Msg_serialize (TeardownMsg h) = Message_serialize h"

definition ReplyDataMsg_deserialize :: "Serializer \<Rightarrow> (Msg \<times> Serializer) res" where
  "ReplyDataMsg_deserialize s =
     res_bind (Message_deserialize s) (\<lambda>(h, s).
     res_bind (Key_deserialize s) (\<lambda>(k, s).
     res_bind (Value_deserialize s) (\<lambda>(v, s). Inr (ReplyDataMsg h k v, s))))"

definition PutMsg_deserialize :: "Serializer \<Rightarrow> (Msg \<times> Serializer) res" where
  "PutMsg_deserialize s =
     res_bind (Message_deserialize s) (\<lambda>(h, s).
     res_bind (Key_deserialize s) (\<lambda>(k, s).
     res_bind (Value_deserialize s) (\<lambda>(v, s). Inr (PutMsg h k v, s))))"

definition WaitAndGetMsg_deserialize :: "Serializer \<Rightarrow> (Msg \<times> Serializer) res" where
  "WaitAndGetMsg_deserialize s =
     res_bind (Message_deserialize s) (\<lambda>(h, s).
     res_bind (Key_deserialize s) (\<lambda>(k, s). Inr (WaitAndGetMsg h k, s)))"

definition GetDataMsg_deserialize :: "Serializer \<Rightarrow> (Msg \<times> Serializer) res" where
  "GetDataMsg_deserialize s =
     res_bind (Message_deserialize s) (\<lambda>(h, s).
     res_bind (Key_deserialize s) (\<lambda>(k, s). Inr (GetDataMsg h k, s)))"

definition RegisterMsg_deserialize :: "Serializer \<Rightarrow> (Msg \<times> Serializer) res" where
  "RegisterMsg_deserialize s =
     res_bind (Message_deserialize s) (\<lambda>(h, s).
     res_bind (NodeInfo_deserialize s) (\<lambda>(i, s). Inr (RegisterMsg h i, s)))"

definition DirectoryMsg_deserialize :: "Serializer \<Rightarrow> (Msg \<times> Serializer) res" where
  "DirectoryMsg_deserialize s =
     res_bind (Message_deserialize s) (\<lambda>(h, s).
     res_bind (Directory_deserialize s) (\<lambda>(d, s). Inr (DirectoryMsg h d, s)))"

definition PlainMsg_deserialize :: "(Message \<Rightarrow> Msg) \<Rightarrow> Serializer \<Rightarrow> (Msg \<times> Serializer) res" where
  "PlainMsg_deserialize mk s = res_bind (Message_deserialize s) (\<lambda>(h, s). Inr (mk h, s))"

text \<open>\<open>tmp->deserialize(ser)\<close> on a fresh message of the class for \<open>kind\<close>.\<close>

fun Msg_deserialize :: "MsgKind \<Rightarrow> Serializer \<Rightarrow> (Msg \<times> Serializer) res" where
  "Msg_deserialize GetData = GetDataMsg_deserialize"
| "Msg_deserialize Put = PutMsg_deserialize"
| "Msg_deserialize ReplyData = ReplyDataMsg_deserialize"
| "Msg_deserialize WaitAndGet = WaitAndGetMsg_deserialize"
| "Msg_deserialize Register = RegisterMsg_deserialize"
| "Msg_deserialize Dir = DirectoryMsg_deserialize"
| "Msg_deserialize Done = PlainMsg_deserialize DoneMsg"
| "Msg_deserialize Teardown = PlainMsg_deserialize TeardownMsg"

text \<open>The kind of the class of a message.\<close>

fun Msg_class :: "Msg \<Rightarrow> MsgKind" where
  "Msg_class (GetDataMsg h k) = GetData"
| "Msg_class (PutMsg h k v) = Put"
| "Msg_class (ReplyDataMsg h k v) = ReplyData"
| "Msg_class (WaitAndGetMsg h k) = WaitAndGet"
| "Msg_class (RegisterMsg h i) = Register"
| "Msg_class (DirectoryMsg h d) = Dir"
| "Msg_class (DoneMsg h) = Done"
| "Msg_class (TeardownMsg h) = Teardown"

fun Msg_parts_ok :: "Msg \<Rightarrow> bool" where
  "Msg_parts_ok (GetDataMsg h k) \<longleftrightarrow> Key_ok k"
| "Msg_parts_ok (PutMsg h k v) \<longleftrightarrow> Key_ok k \<and> Value_ok v"
| "Msg_parts_ok (ReplyDataMsg h k v) \<longleftrightarrow> Key_ok k \<and> Value_ok v"
| "Msg_parts_ok (WaitAndGetMsg h k) \<longleftrightarrow> Key_ok k"
| "Msg_parts_ok (DirectoryMsg h d) \<longleftrightarrow> Directory_ok d"
| "Msg_parts_ok _ \<longleftrightarrow> True"

definition Msg_ok :: "Msg \<Rightarrow> bool" where
  "Msg_ok m \<longleftrightarrow> getKind m = Msg_class m \<and> Msg_parts_ok m"

definition enc_Message :: "Message \<Rightarrow> char list" where
  "enc_Message h = enc_msgkind (m_kind h) @ enc_u64 (m_sender h) @ enc_u64 (m_target h)"

fun enc_body :: "Msg \<Rightarrow> char list" where
  "enc_body (GetDataMsg h k) = enc_Key k"
| "enc_body (PutMsg h k v) = enc_Key k @ enc_Value v"
| "enc_body (ReplyDataMsg h k v) = enc_Key k @ enc_Value v"
| "enc_body (WaitAndGetMsg h k) = enc_Key k"
| "enc_body (RegisterMsg h i) = enc_NodeInfo i"
| "enc_body (DirectoryMsg h d) = enc_Directory d"
| "enc_body (DoneMsg h) = []"
| "enc_body (TeardownMsg h) = []"

definition enc_Msg :: "Msg \<Rightarrow> char list" where
  "enc_Msg m = enc_Message (Msg_header m) @ enc_body m"

subsection \<open>The messages the program builds are well formed\<close>

lemma new_msgs_ok [simp]:
  "Msg_ok (new_DoneMsg a b)" "Msg_ok (new_TeardownMsg a b)"
  by (simp_all add: Msg_ok_def new_DoneMsg_def new_TeardownMsg_def getKind_def Message_new_def)

lemma new_WaitAndGetMsg_ok [simp]:
  "Key_ok k \<Longrightarrow> new_WaitAndGetMsg k a b = Inr (WaitAndGetMsg (Message_new WaitAndGet a b) k)"
  by (simp add: new_WaitAndGetMsg_def)

lemma new_GetDataMsg_ok [simp]:
  "Key_ok k \<Longrightarrow> new_GetDataMsg k a b = Inr (GetDataMsg (Message_new GetData a b) k)"
  by (simp add: new_GetDataMsg_def)

lemma new_PutMsg_ok [simp]:
  "Key_ok k \<Longrightarrow> Value_ok v \<Longrightarrow> new_PutMsg k v a b = Inr (PutMsg (Message_new Put a b) k v)"
  by (simp add: new_PutMsg_def)

lemma new_ReplyDataMsg_ok [simp]:
  "Key_ok k \<Longrightarrow> Value_ok v \<Longrightarrow>
   new_ReplyDataMsg k (Some v) a b = Inr (ReplyDataMsg (Message_new ReplyData a b) k v)"
  "new_ReplyDataMsg k None a b = Inl NullDeref"
  by (simp_all add: new_ReplyDataMsg_def)

lemma getTarget_simps [simp]:
  "getTarget (WaitAndGetMsg (Message_new c a b) k) = b" "getTarget (GetDataMsg (Message_new c a b) k) = b"
  "getTarget (PutMsg (Message_new c a b) k v) = b" "getTarget (ReplyDataMsg (Message_new c a b) k v) = b"
  "getTarget (new_DoneMsg a b) = b" "getTarget (new_TeardownMsg a b) = b"
  by (simp_all add: getTarget_def Message_new_def new_DoneMsg_def new_TeardownMsg_def)

lemma getSender_simps [simp]:
  "getSender (WaitAndGetMsg (Message_new c a b) k) = a" "getSender (GetDataMsg (Message_new c a b) k) = a"
  "getSender (PutMsg (Message_new c a b) k v) = a" "getSender (ReplyDataMsg (Message_new c a b) k v) = a"
  "getSender (new_DoneMsg a b) = a" "getSender (new_TeardownMsg a b) = a"
  by (simp_all add: getSender_def Message_new_def new_DoneMsg_def new_TeardownMsg_def)

section \<open>The frame\<close>

text \<open>
  What \<open>sendMsg\<close> puts into the cleared serializer and \<open>receiveMsg\<close> takes out of it.
\<close>

definition Frame_serialize :: "Msg \<Rightarrow> Serializer \<Rightarrow> Serializer res" where
  "Frame_serialize msg s = res_bind (write_msgkind (getKind msg) s) (Msg_serialize msg)"

definition Frame_deserialize :: "Serializer \<Rightarrow> (Msg \<times> Serializer) res" where
  "Frame_deserialize s = res_bind (readMsgKind s) (\<lambda>(type, s). Msg_deserialize type s)"

definition enc_Frame :: "Msg \<Rightarrow> char list" where
  "enc_Frame m = enc_msgkind (getKind m) @ enc_Msg m"

interpretation Message_codec: codec Message_serialize Message_deserialize enc_Message "\<lambda>_. True"
proof unfold_locales
  fix h :: Message
  show "writes (Message_serialize h) (enc_Message h)"
    unfolding Message_serialize_def [abs_def] enc_Message_def by (intro writes_rules)
  show "reads Message_deserialize (enc_Message h) h"
    unfolding Message_deserialize_def [abs_def] enc_Message_def
    by (rule reads_mk3 [OF reads_prims(8,1,1)]) simp
qed

lemma Msg_serialize_writes:
  assumes "Msg_parts_ok m"
  shows "writes (Msg_serialize m) (enc_Msg m)"
proof -
  have hdr: "writes (\<lambda>s. res_bind (Message_serialize h s) f) (enc_Message h @ bs)" if "writes f bs" for f bs h
    using writes_bind [OF Message_codec.ser_writes [OF TrueI] that] .
  have plain: "writes (Message_serialize h) (enc_Message h)" for h
    by (rule Message_codec.ser_writes [OF TrueI])
  have kv: "writes (\<lambda>s. res_bind (Key_serialize k s) (Value_serialize v)) (enc_Key k @ enc_Value v)"
    if "Key_ok k" "Value_ok v" for k v
    using writes_bind [OF Key_codec.ser_writes Value_codec.ser_writes] that .
  note parts = hdr [OF Key_codec.ser_writes] hdr [OF kv] hdr [OF NodeInfo_codec.ser_writes [OF TrueI]]
    hdr [OF Directory_codec.ser_writes] plain
  show ?thesis
    using assms by (cases m) (simp_all add: enc_Msg_def Msg_serialize_defs parts)
qed

lemma Msg_deserialize_reads:
  assumes "Msg_parts_ok m"
  shows "reads (Msg_deserialize (Msg_class m)) (enc_Msg m) m"
proof -
  note h = Message_codec.deser_reads [OF TrueI]
  have k: "reads WaitAndGetMsg_deserialize (enc_Message h @ enc_Key k) (WaitAndGetMsg h k)"
    "reads GetDataMsg_deserialize (enc_Message h @ enc_Key k) (GetDataMsg h k)" if "Key_ok k" for h k
    unfolding WaitAndGetMsg_deserialize_def [abs_def] GetDataMsg_deserialize_def [abs_def]
    by (rule reads_mk2 [OF h Key_codec.deser_reads [OF that]], simp)+
  have kv: "reads PutMsg_deserialize (enc_Message h @ enc_Key k @ enc_Value v) (PutMsg h k v)"
    "reads ReplyDataMsg_deserialize (enc_Message h @ enc_Key k @ enc_Value v) (ReplyDataMsg h k v)"
    if "Key_ok k" "Value_ok v" for h k v
    unfolding PutMsg_deserialize_def [abs_def] ReplyDataMsg_deserialize_def [abs_def]
    by (rule reads_mk3 [OF h Key_codec.deser_reads [OF that(1)] Value_codec.deser_reads [OF that(2)]], simp)+
  have r: "reads RegisterMsg_deserialize (enc_Message h @ enc_NodeInfo i) (RegisterMsg h i)" for h i
    unfolding RegisterMsg_deserialize_def [abs_def]
    by (rule reads_mk2 [OF h NodeInfo_codec.deser_reads [OF TrueI]]) simp
  have d: "reads DirectoryMsg_deserialize (enc_Message h @ enc_Directory d) (DirectoryMsg h d)"
    if "Directory_ok d" for h d
    unfolding DirectoryMsg_deserialize_def [abs_def]
    by (rule reads_mk2 [OF h Directory_codec.deser_reads [OF that]]) simp
  have p: "reads (PlainMsg_deserialize mk) (enc_Message h) (mk h)" for mk h
    unfolding PlainMsg_deserialize_def [abs_def] by (rule reads_mk1 [OF h]) simp
  show ?thesis
    using assms by (cases m) (simp_all add: enc_Msg_def k kv r d p)
qed

interpretation Frame_codec: codec Frame_serialize Frame_deserialize enc_Frame Msg_ok
proof unfold_locales
  fix m assume "Msg_ok m"
  then have k: "getKind m = Msg_class m" and p: "Msg_parts_ok m" by (simp_all add: Msg_ok_def)
  show "writes (Frame_serialize m) (enc_Frame m)"
    unfolding Frame_serialize_def [abs_def] enc_Frame_def
    by (intro writes_bind writes_prims Msg_serialize_writes p)
  show "reads Frame_deserialize (enc_Frame m) m"
    unfolding Frame_deserialize_def [abs_def] enc_Frame_def k
    by (rule reads_bind [OF reads_prims(8)], rule Msg_deserialize_reads [OF p])
qed

section \<open>Properties\<close>

text \<open>Every message survives the wire. For each of the eight kinds, the frame a node writes (the
  kind, then the message) is read back, by the deserializer the kind selects, as the same message,
  and no byte of it is left over.\<close>

theorem Frame_roundtrip:
  assumes "Msg_ok m"
  shows "\<exists>s t u. Frame_serialize m Serializer_new = Inr s \<and>
    Serializer_of (sz_written s) (ser_bytes s) = Inr t \<and> Frame_deserialize t = Inr (m, u) \<and> ser_unread u = []"
  using Frame_codec.buffer_roundtrip [OF assms] by blast

lemma Frame_roundtrip_witness:
  "\<exists>m s t u. new_PutMsg (Key_lit ''k'' 1) (Value_lit ''v'') 0 1 = Inr m \<and> Frame_serialize m Serializer_new = Inr s \<and>
    Serializer_of (sz_written s) (ser_bytes s) = Inr t \<and> Frame_deserialize t = Inr (m, u)"
proof -
  obtain m where m: "new_PutMsg (Key_lit ''k'' 1) (Value_lit ''v'') 0 1 = Inr m" "Msg_ok m"
    by (simp add: Msg_ok_def getKind_def Message_new_def cstr_ok_def)
  from Frame_roundtrip [OF m(2)] m(1) show ?thesis by blast
qed

end
