(* ===== verification/Network.thy ===== *)
theory Network
  imports Messages Containers
begin

text \<open>
  The socket network of \<open>src/network/network.h\<close>: one serializer shared by sending and
  receiving, the directory of known nodes, and the flags with which the server counts the
  nodes that are done.

  TCP is outside the model. A message that is sent is the pair of the destination's address
  and the bytes given to \<open>send\<close>; a message that is received is the list of results of \<open>read\<close>
  up to the end of the connection: pieces, cut anywhere, or \<open>None\<close> for a failure.
\<close>

section \<open>State\<close>

record Network =
  nw_ser :: Serializer
  nw_dir :: Directory
  nw_addr :: NodeInfo
  nw_isNodeDone :: "bool list"

text \<open>What the network reads of the command line; an address that was not given is \<open>nullptr\<close>.\<close>

record NetArgs =
  na_index :: u64
  na_ip :: "char list option"
  na_port :: u64
  na_serverIndex :: u64
  na_serverIp :: "char list option"
  na_serverPort :: u64
  na_numNodes :: nat

type_synonym packet = "NodeInfo \<times> char list"

type_synonym pton = "char list \<Rightarrow> u32 option"

definition charToAddr :: "pton \<Rightarrow> char list option \<Rightarrow> u64 \<Rightarrow> NodeInfo res" where
  "charToAddr pton addr port =
     (case addr of
        None \<Rightarrow> Inl NullDeref
      | Some cs \<Rightarrow>
          (case pton cs of
             None \<Rightarrow> Inl AssertFail
           | Some a \<Rightarrow> Inr \<lparr>ni_family = AF_INET, ni_addr = a, ni_port = htons (ucast port)\<rparr>))"

text \<open>A C string as a pointer to its characters and the zero behind them.\<close>

definition c_arg :: "char list option \<Rightarrow> char list res" where
  "c_arg addr = (case addr of None \<Rightarrow> Inl NullDeref | Some cs \<Rightarrow> Inr (cs @ [NUL]))"

definition Network_new :: "pton \<Rightarrow> NetArgs \<Rightarrow> Network res" where
  "Network_new pton args =
     res_bind (charToAddr pton (na_ip args) (na_port args)) (\<lambda>myAddr.
     res_bind (c_arg (na_serverIp args)) (\<lambda>addr.
     res_bind (Directory_addInfo_addr pton (na_serverIndex args) addr (na_serverPort args) Directory_new) (\<lambda>d.
     Inr \<lparr>nw_ser = Serializer_new, nw_dir = d, nw_addr = myAddr,
          nw_isNodeDone = replicate (na_numNodes args) False\<rparr>)))"

section \<open>Sending and receiving\<close>

definition Network_sendMsg :: "Msg \<Rightarrow> Network \<Rightarrow> (packet \<times> Network) res" where
  "Network_sendMsg msg net =
     res_bind (Directory_getInfo (getTarget msg) (nw_dir net)) (\<lambda>targetInfo.
     res_bind (Frame_serialize msg (Serializer_clear (nw_ser net))) (\<lambda>ser.
     res_bind (cells_load (sz_buffer ser) 0 (sz_written ser)) (\<lambda>bytes.
     Inr ((targetInfo, bytes), net\<lparr>nw_ser := Serializer_clear ser\<rparr>))))"

text \<open>
  \<open>readStrFromNet_\<close>: a failing \<open>read\<close> is repeated until the first one succeeds; after that the pieces
  end up in one \<open>String\<close>, whatever bytes they hold, until \<open>read\<close> returns 0, and a failure is
  fatal.
\<close>

fun read_retry :: "char list option list \<Rightarrow> char list option list" where
  "read_retry (None # got) = read_retry got"
| "read_retry got = got"

fun read_pieces :: "char list option list \<Rightarrow> StrBuff \<Rightarrow> StrBuff res" where
  "read_pieces [] buff = Inr buff"
| "read_pieces (None # got) buff = Inl AssertFail"
| "read_pieces (Some piece # got) buff =
     (if piece = [] then Inr buff
      else res_bind (StrBuff_c_n piece (length piece) buff) (read_pieces got))"

definition readStrFromNet :: "char list option list \<Rightarrow> String res" where
  "readStrFromNet got =
     res_bind (read_pieces (read_retry got) StrBuff_new) (\<lambda>buff.
     res_bind (StrBuff_get buff) (\<lambda>(s, _). Inr s))"

definition Network_receiveMsg :: "char list option list \<Rightarrow> Network \<Rightarrow> (Msg \<times> Network) res" where
  "Network_receiveMsg got net =
     res_bind (readStrFromNet got) (\<lambda>buffStr.
     res_bind (write_buf (str_size buffStr) (str_chars buffStr) (nw_ser net)) (\<lambda>ser.
     res_bind (Frame_deserialize ser) (\<lambda>(m, ser). Inr (m, net\<lparr>nw_ser := ser\<rparr>))))"

section \<open>Handlers\<close>

definition Network_handleRegisterMsg :: "Msg \<Rightarrow> Network \<Rightarrow> Network res" where
  "Network_handleRegisterMsg m net =
     (case m of
        RegisterMsg h info \<Rightarrow>
          res_bind (Directory_addInfo (m_sender h) info (nw_dir net)) (\<lambda>d.
            if Directory_size d = Directory_size (nw_dir net) + 1 then Inr (net\<lparr>nw_dir := d\<rparr>)
            else Inl AssertFail)
      | _ \<Rightarrow> Inl AssertFail)"

definition Network_handleDirectoryMsg :: "Msg \<Rightarrow> Network \<Rightarrow> Network res" where
  "Network_handleDirectoryMsg m net =
     (case m of
        DirectoryMsg h dir \<Rightarrow>
          res_bind (Directory_mergeIn dir (nw_dir net)) (\<lambda>d. Inr (net\<lparr>nw_dir := d\<rparr>))
      | _ \<Rightarrow> Inl NullDeref)"

fun Network_sendAll :: "Msg list \<Rightarrow> Network \<Rightarrow> (packet list \<times> Network) res" where
  "Network_sendAll [] net = Inr ([], net)"
| "Network_sendAll (m # ms) net =
     res_bind (Network_sendMsg m net) (\<lambda>(p, net).
     res_bind (Network_sendAll ms net) (\<lambda>(ps, net). Inr (p # ps, net)))"

definition sendTeardownMsgs :: "NetArgs \<Rightarrow> Network \<Rightarrow> (packet list \<times> Network) res" where
  "sendTeardownMsgs args net =
     Network_sendAll (map (\<lambda>i. new_TeardownMsg (na_index args) (of_nat i)) [0..<na_numNodes args]) net"

definition Network_handleDoneMsg :: "NetArgs \<Rightarrow> Msg \<Rightarrow> Network \<Rightarrow> (packet list \<times> Network) res" where
  "Network_handleDoneMsg args m net =
     (if na_index args \<noteq> na_serverIndex args then Inl AssertFail
      else
        let sender = unat (getSender m) in
        if sender \<ge> length (nw_isNodeDone net) then Inl OutOfBounds
        else
          let net = net\<lparr>nw_isNodeDone := (nw_isNodeDone net)[sender := True]\<rparr> in
          if \<not> list_all (\<lambda>i. nw_isNodeDone net ! i) [0..<na_numNodes args] then Inr ([], net)
          else sendTeardownMsgs args net)"

text \<open>
  \<open>server_init\<close>: one \<open>RegisterMsg\<close> from every other node, then the directory to all of them;
  \<open>incoming\<close> are the connections in the order they are accepted.
\<close>

fun server_receive :: "nat \<Rightarrow> char list option list list \<Rightarrow> Network \<Rightarrow> Network res" where
  "server_receive 0 incoming net = Inr net"
| "server_receive (Suc n) [] net = Inl Diverges"
| "server_receive (Suc n) (got # incoming) net =
     res_bind (Network_receiveMsg got net) (\<lambda>(m, net).
     res_bind (Network_handleRegisterMsg m net) (server_receive n incoming))"

fun server_directories :: "NetArgs \<Rightarrow> nat list \<Rightarrow> Network \<Rightarrow> (packet list \<times> Network) res" where
  "server_directories args [] net = Inr ([], net)"
| "server_directories args (i # is) net =
     (if of_nat i = na_serverIndex args then server_directories args is net
      else
        res_bind (new_DirectoryMsg (nw_dir net) (na_index args) (of_nat i)) (\<lambda>dMsg.
        res_bind (Network_sendMsg dMsg net) (\<lambda>(p, net).
        res_bind (server_directories args is net) (\<lambda>(ps, net). Inr (p # ps, net)))))"

definition server_init :: "NetArgs \<Rightarrow> char list option list list \<Rightarrow> Network \<Rightarrow> (packet list \<times> Network) res" where
  "server_init args incoming net =
     res_bind (server_receive (na_numNodes args - 1) incoming net) (\<lambda>net.
     server_directories args [0..<na_numNodes args] net)"

text \<open>\<open>client_init\<close>, before and after it blocks for the directory.\<close>

definition client_register :: "pton \<Rightarrow> NetArgs \<Rightarrow> Network \<Rightarrow> (packet \<times> Network) res" where
  "client_register pton args net =
     res_bind (c_arg (na_ip args)) (\<lambda>ip.
     res_bind (new_RegisterMsg pton ip (na_serverPort args) (na_index args) (na_serverIndex args)) (\<lambda>rMsg.
     Network_sendMsg rMsg net))"

definition client_directory :: "char list option list \<Rightarrow> Network \<Rightarrow> Network res" where
  "client_directory got net =
     res_bind (Network_receiveMsg got net) (\<lambda>(m, net).
     if getKind m \<noteq> Dir then Inl AssertFail else Network_handleDirectoryMsg m net)"

section \<open>Invariant\<close>

text \<open>Between two operations everything written to the shared serializer has been read.\<close>

definition Network_inv :: "Network \<Rightarrow> bool" where
  "Network_inv net \<longleftrightarrow> ser_inv (nw_ser net) \<and> 0 < sz_capacity (nw_ser net) \<and>
     sz_read (nw_ser net) = sz_written (nw_ser net) \<and> Directory_inv (nw_dir net)"

lemma ser_clear:
  assumes "ser_inv s" and "0 < sz_capacity s"
  shows "ser_inv (Serializer_clear s)" "ser_bytes (Serializer_clear s) = []"
    "sz_read (Serializer_clear s) = 0" "sz_written (Serializer_clear s) = 0"
    "sz_capacity (Serializer_clear s) = sz_capacity s"
  using assms by (simp_all add: ser_inv_def Serializer_clear_def ser_bytes_def)

lemma ser_load_bytes:
  "ser_inv s \<Longrightarrow> cells_load (sz_buffer s) 0 (sz_written s) = Inr (ser_bytes s)"
  using cells_load_holds [of "ser_bytes s" "sz_buffer s" 0 "sz_written s"]
  by (simp add: ser_inv_def ser_inv_length)

text \<open>The address that a text and a port denote.\<close>

definition node_addr :: "u32 \<Rightarrow> u64 \<Rightarrow> NodeInfo" where
  "node_addr a port = \<lparr>ni_family = AF_INET, ni_addr = a, ni_port = htons (ucast port)\<rparr>"

definition args_ok :: "pton \<Rightarrow> NetArgs \<Rightarrow> u32 \<Rightarrow> u32 \<Rightarrow> bool" where
  "args_ok pton args own server \<longleftrightarrow>
     (\<exists>i s. na_ip args = Some i \<and> NUL \<notin> set i \<and> pton i = Some own \<and>
            na_serverIp args = Some s \<and> NUL \<notin> set s \<and> pton s = Some server)"

lemma NodeInfo_new_lit: "pton cs = Some a \<Longrightarrow> NodeInfo_new pton (String_lit cs) port = Inr (node_addr a port)"
  by (simp add: NodeInfo_new_def node_addr_def String_val_def String_lit_def)

lemma Network_new_inv:
  assumes "args_ok pton args own server"
  shows "\<exists>net. Network_new pton args = Inr net \<and> Network_inv net \<and>
     Map_abs (nw_dir net) = [na_serverIndex args \<mapsto> node_addr server (na_serverPort args)] \<and>
     nw_addr net = node_addr own (na_port args) \<and> nw_isNodeDone net = replicate (na_numNodes args) False"
proof -
  let ?s = "node_addr server (na_serverPort args)"
  obtain d where "Directory_addInfo (na_serverIndex args) ?s Directory_new = Inr d" "Directory_inv d"
    "Map_abs d = [na_serverIndex args \<mapsto> ?s]"
    using Directory_addInfo_correct [OF Directory_new_ok(1), of "na_serverIndex args" ?s] by auto
  with assms show ?thesis
    by (auto simp: Network_new_def Network_inv_def args_ok_def c_arg_def charToAddr_def node_addr_def
        Directory_addInfo_addr_def NodeInfo_new_lit)
qed

text \<open>An unparsable or missing address ends the process before anything is sent.\<close>

lemma Network_new_bad_ip:
  "na_ip args = None \<Longrightarrow> Network_new pton args = Inl NullDeref"
  "na_ip args = Some i \<Longrightarrow> pton i = None \<Longrightarrow> Network_new pton args = Inl AssertFail"
  by (simp_all add: Network_new_def charToAddr_def)

text \<open>Sending hands the frame of the message to the address of its target.\<close>

lemma Network_sendMsg_frame:
  assumes "Network_inv net" and "Msg_ok msg" and "Map_abs (nw_dir net) (getTarget msg) = Some info"
  shows "\<exists>net'. Network_sendMsg msg net = Inr ((info, enc_Frame msg), net') \<and> Network_inv net' \<and>
    nw_dir net' = nw_dir net \<and> nw_isNodeDone net' = nw_isNodeDone net"
proof -
  have s: "ser_inv (nw_ser net)" "0 < sz_capacity (nw_ser net)" and d: "Directory_inv (nw_dir net)"
    using assms(1) by (simp_all add: Network_inv_def)
  note c = ser_clear [OF s]
  obtain t where t: "Frame_serialize msg (Serializer_clear (nw_ser net)) = Inr t"
    "wrote (Serializer_clear (nw_ser net)) (enc_Frame msg) t"
    using writesD [OF Frame_codec.ser_writes [OF assms(2)] c(1)] c(5) s(2) by auto
  then have i: "ser_inv t" "0 < sz_capacity t" and b: "ser_bytes t = enc_Frame msg"
    using c(2) by (simp_all add: wrote_def)
  have "Network_sendMsg msg net = Inr ((info, enc_Frame msg), net\<lparr>nw_ser := Serializer_clear t\<rparr>)"
    using assms(3) t(1) ser_load_bytes [OF i(1)] b
    by (simp add: Network_sendMsg_def Directory_getInfo_correct [OF d])
  then show ?thesis using ser_clear [OF i] i(2) d by (simp add: Network_inv_def)
qed

text \<open>The results of \<open>read\<close> that deliver \<open>bs\<close>: failures at first, then nonempty pieces of it.\<close>

definition delivers :: "char list option list \<Rightarrow> char list \<Rightarrow> bool" where
  "delivers got bs \<longleftrightarrow> (\<exists>n ps. got = replicate n None @ map Some ps \<and> [] \<notin> set ps \<and> concat ps = bs)"

lemma delivers_whole: "bs \<noteq> [] \<Longrightarrow> delivers [Some bs] bs"
  unfolding delivers_def by (intro exI [of _ 0] exI [of _ "[bs]"]) simp

lemma read_retry_skips: "read_retry (replicate n None @ map Some ps @ rest) =
    (if ps = [] then read_retry rest else map Some ps @ rest)"
  by (induction n) (cases ps; simp)+

lemma read_pieces_appends:
  assumes "StrBuff_repr b cs" and "[] \<notin> set ps"
  shows "\<exists>b'. read_pieces (map Some ps @ rest) b = read_pieces rest b' \<and> StrBuff_repr b' (cs @ concat ps)"
  using assms
proof (induction ps arbitrary: b cs)
  case Nil
  then show ?case by auto
next
  case (Cons p ps)
  obtain b1 where "StrBuff_c_n p (length p) b = Inr b1" "StrBuff_repr b1 (cs @ p)"
    using StrBuff_c_n_appends [OF Cons.prems(1), of "length p" p] by auto
  with Cons.IH [of b1 "cs @ p"] Cons.prems(2) show ?case by auto
qed

lemma readStrFromNet_delivers:
  assumes "delivers got bs"
  shows "readStrFromNet got = Inr (String_lit bs)"
proof -
  obtain n ps where r: "got = replicate n None @ map Some ps" "[] \<notin> set ps" "concat ps = bs"
    using assms by (auto simp: delivers_def)
  have "read_retry got = map Some ps" using read_retry_skips [of n ps "[]"] r(1) by (auto split: if_splits)
  moreover obtain b where "read_pieces (map Some ps) StrBuff_new = Inr b" "StrBuff_repr b bs"
    using read_pieces_appends [OF StrBuff_repr_new r(2), of "[]"] r(3) by auto
  ultimately show ?thesis using StrBuff_get_content [of b bs] by (auto simp: readStrFromNet_def)
qed

text \<open>A connection that fails in the middle of a message ends the process.\<close>

lemma readStrFromNet_fails:
  assumes "ps \<noteq> []" and "[] \<notin> set ps"
  shows "readStrFromNet (replicate n None @ map Some ps @ None # rest) = Inl AssertFail"
  using read_pieces_appends [OF StrBuff_repr_new assms(2), of "None # rest"] assms(1)
  by (auto simp: readStrFromNet_def read_retry_skips)

lemma enc_Frame_not_Nil [simp]: "enc_Frame m \<noteq> []"
  by (simp add: enc_Frame_def enc_msgkind_def)

text \<open>Receiving the pieces of a frame, however it was cut, gives back the message.\<close>

lemma Network_receiveMsg_frame:
  assumes "Network_inv net" and "Msg_ok msg" and "delivers got (enc_Frame msg)"
  shows "\<exists>net'. Network_receiveMsg got net = Inr (msg, net') \<and> Network_inv net' \<and>
    nw_dir net' = nw_dir net \<and> nw_isNodeDone net' = nw_isNodeDone net"
proof -
  let ?s = "nw_ser net" and ?bs = "enc_Frame msg"
  have s: "ser_inv ?s" "0 < sz_capacity ?s" "sz_read ?s = sz_written ?s"
    using assms(1) by (simp_all add: Network_inv_def)
  have "writes (write_buf (length ?bs) (?bs @ [NUL])) (take (length ?bs) (?bs @ [NUL]))"
    by (rule writes_buf) simp
  then obtain t where t: "write_buf (length ?bs) (?bs @ [NUL]) ?s = Inr t" "wrote ?s ?bs t"
    using s by (auto elim: writesD)
  then have u: "ser_inv t" "0 < sz_capacity t" "ser_bytes t = ser_bytes ?s @ ?bs" "sz_read t = sz_written ?s"
    using s(3) by (simp_all add: wrote_def)
  have "ser_unread t = ?bs"
    using u(3,4) ser_inv_length [OF s(1)] by (simp add: ser_unread_def)
  then have a: "avail t ?bs" using u(1) by (simp add: avail_def)
  from readsD [OF Frame_codec.deser_reads [OF assms(2)] a]
  have "Network_receiveMsg got net = Inr (msg, net\<lparr>nw_ser := ser_skip (length ?bs) t\<rparr>)"
    using t(1) by (simp add: Network_receiveMsg_def readStrFromNet_delivers [OF assms(3)])
  moreover have w: "sz_written t = sz_written ?s + length ?bs"
    using ser_inv_length [OF u(1)] ser_inv_length [OF s(1)] u(3) by simp
  moreover have "ser_inv (ser_skip (length ?bs) t)"
    using u(1,4) w by (simp add: ser_inv_def ser_skip_def ser_bytes_def)
  ultimately show ?thesis
    using u assms(1) by (simp add: Network_inv_def ser_skip_def)
qed

section \<open>The handshake\<close>

lemma Network_handleRegisterMsg_ok:
  assumes "Network_inv net" and "Map_abs (nw_dir net) (m_sender h) = None"
  shows "\<exists>net'. Network_handleRegisterMsg (RegisterMsg h info) net = Inr net' \<and> Network_inv net' \<and>
    Map_abs (nw_dir net') = (Map_abs (nw_dir net))(m_sender h \<mapsto> info) \<and>
    nw_isNodeDone net' = nw_isNodeDone net"
  using Directory_addInfo_correct [of "nw_dir net" "m_sender h" info] assms
  by (auto simp: Network_handleRegisterMsg_def Network_inv_def)

lemma Network_handleRegisterMsg_twice:
  assumes "Network_inv net" and "Map_abs (nw_dir net) (m_sender h) \<noteq> None"
  shows "Network_handleRegisterMsg (RegisterMsg h info) net = Inl AssertFail"
  using Directory_addInfo_correct [of "nw_dir net" "m_sender h" info] assms
  by (auto simp: Network_handleRegisterMsg_def Network_inv_def)

text \<open>
  A client registers the port of the server: its own port, on which it listens, is not in the message.
\<close>

lemma client_register_ok:
  assumes "Network_inv net" and "args_ok pton args own server"
    and "Map_abs (nw_dir net) (na_serverIndex args) = Some info"
  shows "\<exists>net'. client_register pton args net =
      Inr ((info, enc_Frame (RegisterMsg (Message_new Register (na_index args) (na_serverIndex args))
                     (node_addr own (na_serverPort args)))), net') \<and>
    Network_inv net' \<and> nw_dir net' = nw_dir net \<and> nw_isNodeDone net' = nw_isNodeDone net"
proof -
  let ?m = "RegisterMsg (Message_new Register (na_index args) (na_serverIndex args)) (node_addr own (na_serverPort args))"
  obtain i where i: "na_ip args = Some i" "NUL \<notin> set i" "pton i = Some own" using assms(2) by (auto simp: args_ok_def)
  have "Msg_ok ?m" "Map_abs (nw_dir net) (getTarget ?m) = Some info"
    using assms(3) by (simp_all add: Msg_ok_def getKind_def getTarget_def)
  from Network_sendMsg_frame [OF assms(1) this] i show ?thesis
    by (auto simp: client_register_def c_arg_def new_RegisterMsg_def NodeInfo_new_lit)
qed

lemma client_registers_server_port:
  assumes "Network_new pton args = Inr net" and "args_ok pton args own server"
    and "htons (ucast (na_port args)) \<noteq> htons (ucast (na_serverPort args))"
  shows "\<exists>info h reg net'. client_register pton args net = Inr ((info, enc_Frame (RegisterMsg h reg)), net') \<and>
    ni_addr reg = ni_addr (nw_addr net) \<and> ni_port reg \<noteq> ni_port (nw_addr net)"
proof -
  from Network_new_inv [OF assms(2)] assms(1)
  have n: "Network_inv net" "Map_abs (nw_dir net) (na_serverIndex args) = Some (node_addr server (na_serverPort args))"
    "nw_addr net = node_addr own (na_port args)" by auto
  from client_register_ok [OF n(1) assms(2) n(2)] n(3) assms(3) show ?thesis by (fastforce simp: node_addr_def)
qed

definition registrations :: "(Message \<times> NodeInfo) list \<Rightarrow> u64 \<rightharpoonup> NodeInfo" where
  "registrations rs = map_of (map (\<lambda>(h, i). (m_sender h, i)) rs)"

definition registers :: "char list option list \<Rightarrow> Message \<times> NodeInfo \<Rightarrow> bool" where
  "registers got r \<longleftrightarrow> m_kind (fst r) = Register \<and> delivers got (enc_Frame (RegisterMsg (fst r) (snd r)))"

lemma server_receive_ok:
  assumes "Network_inv net" and "list_all2 registers incoming rs"
    and "distinct (map (m_sender \<circ> fst) rs)"
    and "\<forall>r \<in> set rs. Map_abs (nw_dir net) (m_sender (fst r)) = None"
  shows "\<exists>net'. server_receive (length rs) incoming net = Inr net' \<and> Network_inv net' \<and>
    Map_abs (nw_dir net') = Map_abs (nw_dir net) ++ registrations rs \<and>
    nw_isNodeDone net' = nw_isNodeDone net"
  using assms
proof (induction rs arbitrary: incoming net)
  case Nil
  then show ?case by (simp add: registrations_def)
next
  case (Cons r rs)
  obtain h i where r: "r = (h, i)" by (cases r)
  obtain got rest where inc: "incoming = got # rest" "registers got r" "list_all2 registers rest rs"
    using Cons.prems(2) by (auto simp: list_all2_Cons2)
  have "Msg_ok (RegisterMsg h i)" "delivers got (enc_Frame (RegisterMsg h i))"
    using inc(2) r by (simp_all add: registers_def Msg_ok_def getKind_def)
  then obtain n1 where n1: "Network_receiveMsg got net = Inr (RegisterMsg h i, n1)" "Network_inv n1"
    "nw_dir n1 = nw_dir net" "nw_isNodeDone n1 = nw_isNodeDone net"
    using Network_receiveMsg_frame [OF Cons.prems(1)] by blast
  moreover have "Map_abs (nw_dir n1) (m_sender h) = None" using n1(3) Cons.prems(4) r by simp
  ultimately obtain n2 where n2: "Network_handleRegisterMsg (RegisterMsg h i) n1 = Inr n2" "Network_inv n2"
    "Map_abs (nw_dir n2) = (Map_abs (nw_dir net))(m_sender h \<mapsto> i)" "nw_isNodeDone n2 = nw_isNodeDone net"
    using Network_handleRegisterMsg_ok [OF n1(2), of h i] by auto
  have "\<forall>r \<in> set rs. Map_abs (nw_dir n2) (m_sender (fst r)) = None"
    using Cons.prems(3,4) n2(3) r by (auto simp: image_iff)
  from Cons.IH [OF n2(2) inc(3) _ this] Cons.prems(3) obtain n3 where
    n3: "server_receive (length rs) rest n2 = Inr n3" "Network_inv n3"
    "Map_abs (nw_dir n3) = Map_abs (nw_dir n2) ++ registrations rs" "nw_isNodeDone n3 = nw_isNodeDone n2"
    by auto
  have "m_sender h \<notin> dom (registrations rs)"
    using Cons.prems(3) r by (auto simp: registrations_def dom_map_of_conv_image_fst image_iff)
  then have "(Map_abs (nw_dir net))(m_sender h \<mapsto> i) ++ registrations rs =
      Map_abs (nw_dir net) ++ registrations (r # rs)"
    by (auto simp: fun_eq_iff map_add_def registrations_def r domIff split: option.splits)
  with n1 n2 n3 inc(1) show ?case by simp
qed

text \<open>The packet that carries a copy of the directory \<open>dir\<close> to node \<open>i\<close>.\<close>

definition directory_packet :: "NetArgs \<Rightarrow> Directory \<Rightarrow> nat \<Rightarrow> packet \<Rightarrow> bool" where
  "directory_packet args dir i p \<longleftrightarrow> Map_abs dir (of_nat i) = Some (fst p) \<and>
     (\<exists>d. Directory_ok d \<and> Map_abs d = Map_abs dir \<and>
        snd p = enc_Frame (DirectoryMsg (Message_new Dir (na_index args) (of_nat i)) d))"

lemma new_DirectoryMsg_ok:
  assumes "Directory_inv dir" and "hm_size dir < 2 ^ 64"
  shows "\<exists>d. new_DirectoryMsg dir a b = Inr (DirectoryMsg (Message_new Dir a b) d) \<and> Directory_ok d \<and>
    Map_abs d = Map_abs dir \<and> Msg_ok (DirectoryMsg (Message_new Dir a b) d)"
proof -
  obtain d where d: "Directory_clone dir = Inr d" "Directory_inv d" "Map_abs d = Map_abs dir" "hm_capacity d = 4"
    using Directory_clone_correct [OF assms(1)] by blast
  have "hm_size d = hm_size dir"
    using Map_size_card [of SizeT_vt "\<lambda>_. True" d] Map_size_card [of SizeT_vt "\<lambda>_. True" dir] d assms(1)
    by (simp add: Directory_inv_def)
  then have "Directory_ok d" using d assms(2) by (simp add: Directory_ok_def)
  with d show ?thesis
    by (simp add: new_DirectoryMsg_def Msg_ok_def getKind_def Message_new_def)
qed

lemma server_directories_ok:
  assumes "Network_inv net" and "hm_size (nw_dir net) < 2 ^ 64"
    and "\<forall>i \<in> set is. of_nat i \<noteq> na_serverIndex args \<longrightarrow> Map_abs (nw_dir net) (of_nat i) \<noteq> None"
  shows "\<exists>ps net'. server_directories args is net = Inr (ps, net') \<and> Network_inv net' \<and>
    nw_dir net' = nw_dir net \<and> nw_isNodeDone net' = nw_isNodeDone net \<and>
    list_all2 (directory_packet args (nw_dir net)) (filter (\<lambda>i. of_nat i \<noteq> na_serverIndex args) is) ps"
  using assms
proof (induction "is" arbitrary: net)
  case Nil
  then show ?case by simp
next
  case (Cons i "is")
  show ?case
  proof (cases "of_nat i = na_serverIndex args")
    case True
    with Cons.IH [OF Cons.prems(1,2)] Cons.prems(3) show ?thesis by simp
  next
    case False
    then obtain info where info: "Map_abs (nw_dir net) (of_nat i) = Some info" using Cons.prems(3) by auto
    have "Directory_inv (nw_dir net)" using Cons.prems(1) by (simp add: Network_inv_def)
    then obtain d where d: "new_DirectoryMsg (nw_dir net) (na_index args) (of_nat i) =
        Inr (DirectoryMsg (Message_new Dir (na_index args) (of_nat i)) d)" "Directory_ok d"
      "Map_abs d = Map_abs (nw_dir net)"
      "Msg_ok (DirectoryMsg (Message_new Dir (na_index args) (of_nat i)) d)"
      using new_DirectoryMsg_ok Cons.prems(2) by blast
    let ?m = "DirectoryMsg (Message_new Dir (na_index args) (of_nat i)) d"
    have "Map_abs (nw_dir net) (getTarget ?m) = Some info"
      using info by (simp add: getTarget_def Message_new_def)
    then obtain n1 where n1: "Network_sendMsg ?m net = Inr ((info, enc_Frame ?m), n1)" "Network_inv n1"
      "nw_dir n1 = nw_dir net" "nw_isNodeDone n1 = nw_isNodeDone net"
      using Network_sendMsg_frame [OF Cons.prems(1) d(4)] by blast
    moreover obtain ps n2 where "server_directories args is n1 = Inr (ps, n2)" "Network_inv n2"
      "nw_dir n2 = nw_dir n1" "nw_isNodeDone n2 = nw_isNodeDone n1"
      "list_all2 (directory_packet args (nw_dir n1)) (filter (\<lambda>i. of_nat i \<noteq> na_serverIndex args) is) ps"
      using Cons.IH [OF n1(2)] n1(3) Cons.prems(2,3) by auto
    moreover have "directory_packet args (nw_dir net) i (info, enc_Frame ?m)"
      using d info by (auto simp: directory_packet_def)
    ultimately show ?thesis using False d(1) by simp
  qed
qed

lemma client_directory_ok:
  assumes "Network_inv net" and "directory_packet args dir i p" and "delivers got (snd p)"
  shows "\<exists>net'. client_directory got net = Inr net' \<and> Network_inv net' \<and>
    Map_abs (nw_dir net') = Map_abs (nw_dir net) ++ Map_abs dir \<and> nw_isNodeDone net' = nw_isNodeDone net"
proof -
  let ?h = "Message_new Dir (na_index args) (of_nat i)"
  obtain d where d: "Directory_ok d" "Map_abs d = Map_abs dir" "snd p = enc_Frame (DirectoryMsg ?h d)"
    using assms(2) by (auto simp: directory_packet_def)
  have "Msg_ok (DirectoryMsg ?h d)" using d(1) by (simp add: Msg_ok_def getKind_def Message_new_def)
  then obtain n1 where n1: "Network_receiveMsg got net = Inr (DirectoryMsg ?h d, n1)" "Network_inv n1"
    "nw_dir n1 = nw_dir net" "nw_isNodeDone n1 = nw_isNodeDone net"
    using Network_receiveMsg_frame [OF assms(1)] assms(3) d(3) by metis
  have inv: "Directory_inv (nw_dir n1)" "Directory_inv d"
    using n1(2) d(1) by (simp_all add: Network_inv_def Directory_ok_def)
  obtain d' where d': "Directory_mergeIn d (nw_dir n1) = Inr d'" "Directory_inv d'"
    "Map_abs d' = Map_abs (nw_dir n1) ++ Map_abs d"
    using Directory_mergeIn_correct [OF inv] by blast
  then have "client_directory got net = Inr (n1\<lparr>nw_dir := d'\<rparr>)"
    using n1(1) by (simp add: client_directory_def getKind_def Message_new_def Network_handleDirectoryMsg_def)
  then show ?thesis using n1 d' d(2) by (simp add: Network_inv_def)
qed

section \<open>Teardown\<close>

lemma Network_sendAll_frames:
  assumes "Network_inv net" and "\<forall>m \<in> set ms. Msg_ok m \<and> Map_abs (nw_dir net) (getTarget m) \<noteq> None"
  shows "\<exists>net'. Network_sendAll ms net =
      Inr (map (\<lambda>m. (the (Map_abs (nw_dir net) (getTarget m)), enc_Frame m)) ms, net') \<and>
    Network_inv net' \<and> nw_dir net' = nw_dir net \<and> nw_isNodeDone net' = nw_isNodeDone net"
  using assms
proof (induction ms arbitrary: net)
  case Nil
  then show ?case by simp
next
  case (Cons m ms)
  then obtain info where info: "Map_abs (nw_dir net) (getTarget m) = Some info" by auto
  obtain n1 where n1: "Network_sendMsg m net = Inr ((info, enc_Frame m), n1)" "Network_inv n1"
    "nw_dir n1 = nw_dir net" "nw_isNodeDone n1 = nw_isNodeDone net"
    using Network_sendMsg_frame [OF Cons.prems(1) _ info] Cons.prems(2) by auto
  with Cons.IH [OF n1(2)] Cons.prems(2) info show ?case by auto
qed

lemma Network_handleDoneMsg_ok:
  assumes inv: "Network_inv net" and "na_index args = na_serverIndex args"
    and len: "length (nw_isNodeDone net) = na_numNodes args" and "unat s < na_numNodes args"
    and known: "\<forall>i < na_numNodes args. Map_abs (nw_dir net) (of_nat i) \<noteq> None"
  defines "done \<equiv> (nw_isNodeDone net)[unat s := True]"
  shows "\<exists>net'. Network_handleDoneMsg args (new_DoneMsg s t) net =
      Inr (if list_all id done
           then map (\<lambda>i. (the (Map_abs (nw_dir net) (of_nat i)), enc_Frame (new_TeardownMsg (na_index args) (of_nat i))))
                  [0..<na_numNodes args]
           else [], net') \<and>
    Network_inv net' \<and> nw_dir net' = nw_dir net \<and> nw_isNodeDone net' = done"
proof -
  let ?n1 = "net\<lparr>nw_isNodeDone := done\<rparr>"
  have all: "list_all (\<lambda>i. done ! i) [0..<na_numNodes args] \<longleftrightarrow> list_all id done"
    using len by (simp add: list_all_length done_def)
  have n1: "Network_inv ?n1" using inv by (simp add: Network_inv_def)
  obtain n2 where "Network_sendAll (map (\<lambda>i. new_TeardownMsg (na_index args) (of_nat i)) [0..<na_numNodes args]) ?n1 =
      Inr (map (\<lambda>i. (the (Map_abs (nw_dir net) (of_nat i)), enc_Frame (new_TeardownMsg (na_index args) (of_nat i))))
                  [0..<na_numNodes args], n2)"
    "Network_inv n2" "nw_dir n2 = nw_dir net" "nw_isNodeDone n2 = done"
    using Network_sendAll_frames [OF n1, of "map (\<lambda>i. new_TeardownMsg (na_index args) (of_nat i)) [0..<na_numNodes args]"] known
    by (auto simp: comp_def)
  then show ?thesis
    using assms(2,4) len n1 all
    by (auto simp: Network_handleDoneMsg_def sendTeardownMsgs_def Let_def done_def)
qed

lemma server_init_ok:
  assumes "Network_inv net" and "na_numNodes args - 1 = length rs" and "list_all2 registers incoming rs"
    and "distinct (map (m_sender \<circ> fst) rs)" and "\<forall>r \<in> set rs. Map_abs (nw_dir net) (m_sender (fst r)) = None"
    and "hm_size (nw_dir net) + length rs < 2 ^ 64"
    and "\<forall>i < na_numNodes args. of_nat i \<noteq> na_serverIndex args \<longrightarrow> (\<exists>r \<in> set rs. m_sender (fst r) = of_nat i)"
  shows "\<exists>ps net'. server_init args incoming net = Inr (ps, net') \<and> Network_inv net' \<and>
    nw_isNodeDone net' = nw_isNodeDone net \<and>
    Map_abs (nw_dir net') = Map_abs (nw_dir net) ++ registrations rs \<and>
    list_all2 (directory_packet args (nw_dir net'))
      (filter (\<lambda>i. of_nat i \<noteq> na_serverIndex args) [0..<na_numNodes args]) ps"
proof -
  obtain n1 where n1: "server_receive (length rs) incoming net = Inr n1" "Network_inv n1"
    "Map_abs (nw_dir n1) = Map_abs (nw_dir net) ++ registrations rs" "nw_isNodeDone n1 = nw_isNodeDone net"
    using server_receive_ok [OF assms(1,3-5)] by blast
  have inv: "Directory_inv (nw_dir n1)" "Directory_inv (nw_dir net)" using n1(2) assms(1) by (simp_all add: Network_inv_def)
  have "card (dom (registrations rs)) \<le> length rs"
    unfolding registrations_def using card_length [of "map (fst \<circ> (\<lambda>(h, i). (m_sender h, i))) rs"]
    by (simp add: dom_map_of_conv_image_fst image_image comp_def)
  then have "hm_size (nw_dir n1) \<le> hm_size (nw_dir net) + length rs"
    using Map_size_card [of SizeT_vt "\<lambda>_. True" "nw_dir n1"] Map_size_card [of SizeT_vt "\<lambda>_. True" "nw_dir net"] inv n1(3)
      card_Un_le [of "dom (registrations rs)" "dom (Map_abs (nw_dir net))"]
    by (simp add: Directory_inv_def)
  then have sz: "hm_size (nw_dir n1) < 2 ^ 64" using assms(6) by linarith
  have "Map_abs (nw_dir n1) (of_nat i) \<noteq> None"
    if "i \<in> set [0..<na_numNodes args]" and "of_nat i \<noteq> na_serverIndex args" for i
  proof -
    have "\<exists>r \<in> set rs. m_sender (fst r) = of_nat i" using assms(7) that by simp
    then obtain r where "r \<in> set rs" "m_sender (fst r) = of_nat i" by blast
    then have "(of_nat i, snd r) \<in> set (map (\<lambda>(h, i). (m_sender h, i)) rs)" by (auto intro!: image_eqI [of _ _ r] simp: case_prod_beta)
    then have "of_nat i \<in> dom (registrations rs)"
      unfolding registrations_def by (metis domI weak_map_of_SomeI)
    then show ?thesis unfolding n1(3) by auto
  qed
  then obtain ps n2 where "server_directories args [0..<na_numNodes args] n1 = Inr (ps, n2)" "nw_dir n2 = nw_dir n1"
    "Network_inv n2" "nw_isNodeDone n2 = nw_isNodeDone n1"
    "list_all2 (directory_packet args (nw_dir n1)) (filter (\<lambda>i. of_nat i \<noteq> na_serverIndex args) [0..<na_numNodes args]) ps"
    using server_directories_ok [OF n1(2) sz, of "[0..<na_numNodes args]" args] by blast
  then show ?thesis
    using n1 assms(2) by (auto simp: server_init_def)
qed

section \<open>Properties\<close>

text \<open>C26: Messages arrive intact over TCP. What \<open>sendMsg\<close> hands to the socket goes to the address the
  directory has for the target, and the receiving node, whose serializer and directory are its own,
  gets the same message whatever pieces \<open>read\<close> cuts the bytes into, and if it fails before the first. Both network objects are as usable
  as before.\<close>

theorem send_receive:
  assumes "Network_inv a" and "Network_inv b" and "Msg_ok m" and "Map_abs (nw_dir a) (getTarget m) = Some info"
  shows "\<exists>bytes a'. Network_sendMsg m a = Inr ((info, bytes), a') \<and> Network_inv a' \<and> nw_dir a' = nw_dir a \<and>
    (\<forall>got. delivers got bytes \<longrightarrow>
       (\<exists>b'. Network_receiveMsg got b = Inr (m, b') \<and> Network_inv b' \<and> nw_dir b' = nw_dir b))"
  using Network_sendMsg_frame [OF assms(1,3,4)] Network_receiveMsg_frame [OF assms(2,3)] by blast

definition demo_pton :: pton where
  "demo_pton = [''127.0.0.1'' \<mapsto> 16777343, ''127.0.0.2'' \<mapsto> 33554559]"

definition demo_server :: NodeInfo where
  "demo_server = node_addr 16777343 8080"

definition demo_client :: NodeInfo where
  "demo_client = node_addr 33554559 8080"

definition demo_args :: "u64 \<Rightarrow> NetArgs" where
  "demo_args i = \<lparr>na_index = i, na_ip = Some (if i = 0 then ''127.0.0.1'' else ''127.0.0.2''), na_port = 8080,
     na_serverIndex = 0, na_serverIp = Some ''127.0.0.1'', na_serverPort = 8080, na_numNodes = 2\<rparr>"

lemma demo_args_sel [simp]: "na_index (demo_args i) = i" "na_serverIndex (demo_args i) = 0" "na_numNodes (demo_args i) = 2"
  "na_serverPort (demo_args i) = 8080"
  by (simp_all add: demo_args_def)

lemma demo_args_ok: "args_ok demo_pton (demo_args i) (if i = 0 then 16777343 else 33554559) 16777343"
  by (simp add: args_ok_def demo_args_def demo_pton_def)

lemma demo_network: "\<exists>net. Network_new demo_pton (demo_args i) = Inr net \<and> Network_inv net \<and>
    Map_abs (nw_dir net) = [0 \<mapsto> demo_server] \<and> nw_isNodeDone net = [False, False]"
  using Network_new_inv [OF demo_args_ok [of i]] by (auto simp: numeral_2_eq_2 demo_server_def)

lemma send_receive_witness:
  "\<exists>net bytes net'. Network_new demo_pton (demo_args 1) = Inr net \<and>
    Network_sendMsg (new_DoneMsg 1 0) net = Inr ((demo_server, bytes), net') \<and>
    (\<exists>net''. Network_receiveMsg [None, Some bytes] net = Inr (new_DoneMsg 1 0, net''))"
proof -
  obtain net where net: "Network_new demo_pton (demo_args 1) = Inr net" "Network_inv net"
    "Map_abs (nw_dir net) = [0 \<mapsto> demo_server]"
    using demo_network by blast
  have m: "Msg_ok (new_DoneMsg 1 0)" "Map_abs (nw_dir net) (getTarget (new_DoneMsg 1 0)) = Some demo_server"
    using net(3) by (simp_all add: new_DoneMsg_def getTarget_def Message_new_def Msg_ok_def getKind_def)
  from send_receive [OF net(2,2) m] obtain bytes a' where
    s: "Network_sendMsg (new_DoneMsg 1 0) net = Inr ((demo_server, bytes), a')" and
    r: "\<forall>got. delivers got bytes \<longrightarrow> (\<exists>b'. Network_receiveMsg got net = Inr (new_DoneMsg 1 0, b'))" by blast
  have "bytes \<noteq> []" using Network_sendMsg_frame [OF net(2) m] s by auto
  then have "delivers [None, Some bytes] bytes"
    unfolding delivers_def by (intro exI [of _ 1] exI [of _ "[bytes]"]) simp
  with s r have "Network_sendMsg (new_DoneMsg 1 0) net = Inr ((demo_server, bytes), a')"
    "\<exists>b'. Network_receiveMsg [None, Some bytes] net = Inr (new_DoneMsg 1 0, b')" by blast+
  with net(1) show ?thesis by blast
qed

text \<open>The handshake makes the nodes known to each other. The server that has received the
  registration of every other node, cut into pieces in any way, sends each of them one packet, to the
  address it registered, and the client that receives its packet knows afterwards the address of every
  registered node and of the server.\<close>

theorem handshake:
  assumes "Network_inv net" and "na_numNodes args - 1 = length rs" and "list_all2 registers incoming rs"
    and "distinct (map (m_sender \<circ> fst) rs)" and "\<forall>r \<in> set rs. Map_abs (nw_dir net) (m_sender (fst r)) = None"
    and "hm_size (nw_dir net) + length rs < 2 ^ 64"
    and "\<forall>i < na_numNodes args. of_nat i \<noteq> na_serverIndex args \<longrightarrow> (\<exists>r \<in> set rs. m_sender (fst r) = of_nat i)"
  shows "\<exists>ps net'. server_init args incoming net = Inr (ps, net') \<and>
    Map_abs (nw_dir net') = Map_abs (nw_dir net) ++ registrations rs \<and>
    list_all2 (directory_packet args (nw_dir net'))
      (filter (\<lambda>i. of_nat i \<noteq> na_serverIndex args) [0..<na_numNodes args]) ps \<and>
    (\<forall>i p got client. directory_packet args (nw_dir net') i p \<longrightarrow> delivers got (snd p) \<longrightarrow> Network_inv client \<longrightarrow>
       (\<exists>client'. client_directory got client = Inr client' \<and>
          Map_abs (nw_dir client') = Map_abs (nw_dir client) ++ (Map_abs (nw_dir net) ++ registrations rs)))"
proof -
  obtain ps net' where p: "server_init args incoming net = Inr (ps, net')" "Map_abs (nw_dir net') = Map_abs (nw_dir net) ++ registrations rs"
    "list_all2 (directory_packet args (nw_dir net')) (filter (\<lambda>i. of_nat i \<noteq> na_serverIndex args) [0..<na_numNodes args]) ps"
    using server_init_ok [OF assms] by blast
  then show ?thesis using client_directory_ok [of _ args "nw_dir net'"] unfolding p(2) [symmetric] by (intro exI conjI) blast+
qed

lemma handshake_witness:
  "\<exists>net ps net'. Network_new demo_pton (demo_args 0) = Inr net \<and>
    server_init (demo_args 0)
      [[Some (enc_Frame (RegisterMsg (Message_new Register 1 0) demo_client))]] net = Inr (ps, net') \<and>
    Map_abs (nw_dir net') = [0 \<mapsto> demo_server, 1 \<mapsto> demo_client] \<and> length ps = 1"
proof -
  let ?h = "Message_new Register 1 0"
  obtain net where net: "Network_new demo_pton (demo_args 0) = Inr net" "Network_inv net"
    "Map_abs (nw_dir net) = [0 \<mapsto> demo_server]"
    using demo_network by blast
  have sz: "hm_size (nw_dir net) = 1"
    using Map_size_card [of SizeT_vt "\<lambda>_. True" "nw_dir net"] net(2,3) by (simp add: Network_inv_def Directory_inv_def)
  let ?rs = "[(?h, demo_client)]" and ?inc = "[[Some (enc_Frame (RegisterMsg ?h demo_client))]]"
  have "list_all2 registers ?inc ?rs" by (simp add: registers_def Message_new_def delivers_whole)
  moreover have "\<forall>i < na_numNodes (demo_args 0). of_nat i \<noteq> na_serverIndex (demo_args 0) \<longrightarrow>
      (\<exists>r \<in> set ?rs. m_sender (fst r) = of_nat i)"
    by (auto simp: less_2_cases_iff Message_new_def)
  ultimately obtain ps net' where r: "server_init (demo_args 0) ?inc net = Inr (ps, net')"
    "Map_abs (nw_dir net') = Map_abs (nw_dir net) ++ registrations ?rs"
    "list_all2 (directory_packet (demo_args 0) (nw_dir net'))
      (filter (\<lambda>i. of_nat i \<noteq> na_serverIndex (demo_args 0)) [0..<na_numNodes (demo_args 0)]) ps"
    using handshake [OF net(2), of "demo_args 0" ?rs ?inc] net(3) sz by (auto simp: Message_new_def)
  have "length ps = 1" using list_all2_lengthD [OF r(3)] by (simp add: numeral_2_eq_2)
  with net r show ?thesis by (auto simp: registrations_def Message_new_def)
qed

text \<open>A node that registers twice brings the server down: the second \<open>RegisterMsg\<close> of a node replaces
  its entry, as \<open>addInfo\<close> says, but \<open>handleRegisterMsg\<close> asserts that the directory has grown.\<close>

theorem second_registration_fails:
  assumes "Network_inv net" and "Map_abs (nw_dir net) (m_sender h) = None"
  shows "\<exists>net'. Network_handleRegisterMsg (RegisterMsg h info) net = Inr net' \<and>
    Map_abs (nw_dir net') = (Map_abs (nw_dir net))(m_sender h \<mapsto> info) \<and>
    Network_handleRegisterMsg (RegisterMsg h info') net' = Inl AssertFail"
  using Network_handleRegisterMsg_ok [OF assms, of info] Network_handleRegisterMsg_twice [where h = h and info = info']
  by force

lemma second_registration_fails_witness:
  "\<exists>net net'. Network_new demo_pton (demo_args 0) = Inr net \<and>
    Network_handleRegisterMsg (RegisterMsg (Message_new Register 1 0) demo_client) net = Inr net' \<and>
    Network_handleRegisterMsg (RegisterMsg (Message_new Register 1 0) demo_client) net' = Inl AssertFail"
proof -
  obtain net where net: "Network_new demo_pton (demo_args 0) = Inr net" "Network_inv net"
    "Map_abs (nw_dir net) = [0 \<mapsto> demo_server]"
    using demo_network by blast
  have "Map_abs (nw_dir net) (m_sender (Message_new Register 1 0)) = None" using net(3) by (simp add: Message_new_def)
  from second_registration_fails [OF net(2) this] net(1) show ?thesis by blast
qed

text \<open>The server counts the nodes that are done. A \<open>DoneMsg\<close> sets the flag of its sender and no other;
  exactly when that makes all flags set, a \<open>TeardownMsg\<close> is sent to every node, itself included, each
  once and to the address in the directory, and otherwise nothing is sent.\<close>

theorem done_then_teardown:
  assumes "Network_inv net" and "na_index args = na_serverIndex args"
    and "length (nw_isNodeDone net) = na_numNodes args" and "unat s < na_numNodes args"
    and "\<forall>i < na_numNodes args. Map_abs (nw_dir net) (of_nat i) \<noteq> None"
  shows "\<exists>net'. Network_handleDoneMsg args (new_DoneMsg s t) net =
      Inr (if list_all id ((nw_isNodeDone net)[unat s := True])
           then map (\<lambda>i. (the (Map_abs (nw_dir net) (of_nat i)), enc_Frame (new_TeardownMsg (na_index args) (of_nat i))))
                  [0..<na_numNodes args]
           else [], net') \<and>
    Network_inv net' \<and> nw_dir net' = nw_dir net \<and> nw_isNodeDone net' = (nw_isNodeDone net)[unat s := True]"
  by (rule Network_handleDoneMsg_ok [OF assms])

lemma done_then_teardown_witness:
  "\<exists>net net1 net2 net3 ps. Network_new demo_pton (demo_args 0) = Inr net \<and>
    Network_handleRegisterMsg (RegisterMsg (Message_new Register 1 0) demo_client) net = Inr net1 \<and>
    Network_handleDoneMsg (demo_args 0) (new_DoneMsg 1 0) net1 = Inr ([], net2) \<and>
    Network_handleDoneMsg (demo_args 0) (new_DoneMsg 0 0) net2 = Inr (ps, net3) \<and>
    map fst ps = [demo_server, demo_client]"
proof -
  let ?h = "Message_new Register 1 0"
  obtain net where net: "Network_new demo_pton (demo_args 0) = Inr net" "Network_inv net"
    "Map_abs (nw_dir net) = [0 \<mapsto> demo_server]" "nw_isNodeDone net = [False, False]"
    using demo_network by blast
  have h: "m_sender ?h = 1" by (simp add: Message_new_def)
  obtain n1 where n1: "Network_handleRegisterMsg (RegisterMsg ?h demo_client) net = Inr n1" "Network_inv n1"
    "Map_abs (nw_dir n1) = [0 \<mapsto> demo_server, 1 \<mapsto> demo_client]" "nw_isNodeDone n1 = [False, False]"
    using Network_handleRegisterMsg_ok [OF net(2), of ?h demo_client] net(3,4) h by auto
  have k: "\<forall>i < na_numNodes (demo_args 0). Map_abs (nw_dir n1) (of_nat i) \<noteq> None"
    using n1(3) by (auto simp: less_2_cases_iff)
  obtain n2 where n2: "Network_handleDoneMsg (demo_args 0) (new_DoneMsg 1 0) n1 = Inr ([], n2)" "Network_inv n2"
    "nw_dir n2 = nw_dir n1" "nw_isNodeDone n2 = [False, True]"
    using done_then_teardown [OF n1(2), of "demo_args 0" 1 0] k n1(4) by auto
  obtain ps n3 where n3: "Network_handleDoneMsg (demo_args 0) (new_DoneMsg 0 0) n2 = Inr (ps, n3)"
    "map fst ps = [demo_server, demo_client]"
    using done_then_teardown [OF n2(2), of "demo_args 0" 0 0] k n1(3) n2(3,4) by (auto simp: numeral_2_eq_2)
  show ?thesis using net(1) n1(1) n2(1) n3 by (intro exI conjI)
qed

end
