(* ===== verification/Pseudo.thy ===== *)
theory Pseudo
  imports Network
begin

text \<open>
  The contract of \<open>INetwork::sendMsg\<close> (\<open>src/network/inetwork.h\<close>) and the two networks that
  provide it: \<open>PseudoNetwork\<close> (\<open>src/network/pseudo/\<close>), whose nodes are threads that share an
  array of message queues, and the socket network of \<open>Network\<close>.

  The locale \<open>inetwork\<close> describes a network by the messages on their way to each node, in
  order. A \<open>pop\<close> on an empty message queue waits on a condition variable: it is not enabled,
  which the sequential model shows as \<open>Diverges\<close>.
\<close>

section \<open>Message queues\<close>

definition MessageQueue_push :: "Msg \<Rightarrow> Msg Queue \<Rightarrow> Msg Queue res" where
  "MessageQueue_push msg q = Queue_push msg q"

definition MessageQueue_pop :: "Msg Queue \<Rightarrow> (Msg \<times> Msg Queue) res" where
  "MessageQueue_pop q =
     (if q_len q = 0 then Inl Diverges
      else res_bind (Queue_pop q) (\<lambda>(m, q). case m of None \<Rightarrow> Inl NullDeref | Some m \<Rightarrow> Inr (m, q)))"

type_synonym MsgQueueArr = "Msg Queue Array"

definition MsgQueueArr_new :: "nat \<Rightarrow> MsgQueueArr res" where
  "MsgQueueArr_new numNodes = res_fold (\<lambda>_. Array_add Queue_new) [0..<numNodes] Array_default"

definition MsgQueueArr_get :: "MsgQueueArr \<Rightarrow> nat \<Rightarrow> Msg Queue res" where
  "MsgQueueArr_get mqa idx = (if idx < arr_len mqa then Array_get idx mqa else Inl AssertFail)"

text \<open>The queue object at \<open>idx\<close> changes in place.\<close>

definition MsgQueueArr_upd :: "MsgQueueArr \<Rightarrow> nat \<Rightarrow> Msg Queue \<Rightarrow> MsgQueueArr" where
  "MsgQueueArr_upd mqa idx q = mqa\<lparr>arr_objs := (arr_objs mqa)[idx := Some q]\<rparr>"

section \<open>PseudoNetwork\<close>

record PseudoNetwork =
  pn_mqa :: MsgQueueArr
  pn_nodeId :: u64
  pn_isNodeDone :: "bool list"

definition PseudoNetwork_new :: "MsgQueueArr \<Rightarrow> u64 \<Rightarrow> PseudoNetwork" where
  "PseudoNetwork_new mqa ourNode =
     \<lparr>pn_mqa = mqa, pn_nodeId = ourNode, pn_isNodeDone = replicate (arr_len mqa) False\<rparr>"

definition PseudoNetwork_sendMsg :: "Msg \<Rightarrow> PseudoNetwork \<Rightarrow> PseudoNetwork res" where
  "PseudoNetwork_sendMsg m pn =
     (let target = unat (getTarget m) in
      res_bind (MsgQueueArr_get (pn_mqa pn) target) (\<lambda>q.
      res_bind (MessageQueue_push m q) (\<lambda>q.
      Inr (pn\<lparr>pn_mqa := MsgQueueArr_upd (pn_mqa pn) target q\<rparr>))))"

definition PseudoNetwork_receiveMsg :: "PseudoNetwork \<Rightarrow> (Msg \<times> PseudoNetwork) res" where
  "PseudoNetwork_receiveMsg pn =
     (let me = unat (pn_nodeId pn) in
      res_bind (MsgQueueArr_get (pn_mqa pn) me) (\<lambda>q.
      res_bind (MessageQueue_pop q) (\<lambda>(m, q).
      Inr (m, pn\<lparr>pn_mqa := MsgQueueArr_upd (pn_mqa pn) me q\<rparr>))))"

definition PseudoNetwork_sendTeardownMsgs :: "PseudoNetwork \<Rightarrow> PseudoNetwork res" where
  "PseudoNetwork_sendTeardownMsgs pn =
     res_fold (\<lambda>i. PseudoNetwork_sendMsg (new_TeardownMsg (pn_nodeId pn) (of_nat i)))
       [0..<arr_len (pn_mqa pn)] pn"

definition PseudoNetwork_handleDoneMsg :: "Msg \<Rightarrow> PseudoNetwork \<Rightarrow> PseudoNetwork res" where
  "PseudoNetwork_handleDoneMsg m pn =
     (if pn_nodeId pn \<noteq> 0 then Inl AssertFail
      else
        let sender = unat (getSender m) in
        if sender \<ge> length (pn_isNodeDone pn) then Inl OutOfBounds
        else
          let pn = pn\<lparr>pn_isNodeDone := (pn_isNodeDone pn)[sender := True]\<rparr> in
          if \<not> list_all (\<lambda>i. pn_isNodeDone pn ! i) [0..<arr_len (pn_mqa pn)] then Inr pn
          else PseudoNetwork_sendTeardownMsgs pn)"

section \<open>The contract of sending\<close>

locale inetwork =
  fixes send :: "Msg \<Rightarrow> 'n \<Rightarrow> 'n res"
    and repr :: "'n \<Rightarrow> Msg list list \<Rightarrow> bool"
  assumes send_repr: "repr n qs \<Longrightarrow> unat (getTarget m) < length qs \<Longrightarrow> Msg_ok m \<Longrightarrow>
    \<exists>n'. send m n = Inr n' \<and> repr n' (qs[unat (getTarget m) := qs ! unat (getTarget m) @ [m]])"
begin

text \<open>A list of messages reaches every queue in its order.\<close>

definition deliver :: "Msg list \<Rightarrow> Msg list list \<Rightarrow> Msg list list" where
  "deliver ms qs = fold (\<lambda>m qs. qs[unat (getTarget m) := qs ! unat (getTarget m) @ [m]]) ms qs"

lemma deliver_simps [simp]:
  "deliver [] qs = qs"
  "deliver (m # ms) qs = deliver ms (qs[unat (getTarget m) := qs ! unat (getTarget m) @ [m]])"
  by (simp_all add: deliver_def)

lemma length_deliver [simp]: "length (deliver ms qs) = length qs"
  by (induction ms arbitrary: qs) simp_all

lemma deliver_nth:
  "i < length qs \<Longrightarrow> deliver ms qs ! i = qs ! i @ filter (\<lambda>m. unat (getTarget m) = i) ms"
  by (induction ms arbitrary: qs) (auto simp: nth_list_update)

lemma send_all_repr:
  "repr n qs \<Longrightarrow> \<forall>m \<in> set ms. unat (getTarget m) < length qs \<and> Msg_ok m \<Longrightarrow>
   \<exists>n'. res_fold send ms n = Inr n' \<and> repr n' (deliver ms qs)"
proof (induction ms arbitrary: n qs)
  case Nil
  then show ?case by simp
next
  case (Cons m ms)
  then obtain n1 where n1: "send m n = Inr n1"
    "repr n1 (qs[unat (getTarget m) := qs ! unat (getTarget m) @ [m]])"
    using send_repr [of n qs m] by auto
  from Cons.IH [OF n1(2)] Cons.prems(2) n1(1) show ?case by simp
qed

end

subsection \<open>PseudoNetwork provides it\<close>

definition MsgQueueArr_repr :: "MsgQueueArr \<Rightarrow> Msg list list \<Rightarrow> bool" where
  "MsgQueueArr_repr mqa qs \<longleftrightarrow> (\<exists>objs. Array_repr mqa objs \<and> list_all2 Queue_repr objs qs)"

definition PseudoNetwork_repr :: "PseudoNetwork \<Rightarrow> Msg list list \<Rightarrow> bool" where
  "PseudoNetwork_repr pn qs \<longleftrightarrow> MsgQueueArr_repr (pn_mqa pn) qs"

lemma MsgQueueArr_new_repr:
  "\<exists>mqa. MsgQueueArr_new n = Inr mqa \<and> MsgQueueArr_repr mqa (replicate n [])"
proof (induction n)
  case 0
  have "Array_repr Array_default []" by (simp add: Array_default_def)
  then show ?case by (auto simp: MsgQueueArr_new_def MsgQueueArr_repr_def intro!: exI [of _ "[]"])
next
  case (Suc n)
  then obtain mqa objs where "MsgQueueArr_new n = Inr mqa" "Array_repr mqa objs"
    "list_all2 Queue_repr objs (replicate n [])"
    by (auto simp: MsgQueueArr_repr_def)
  moreover from Array_add_repr [OF this(2)] obtain mqa' where "Array_add Queue_new mqa = Inr mqa'"
    "Array_repr mqa' (objs @ [Queue_new])" by blast
  moreover from this calculation(3) have "list_all2 Queue_repr (objs @ [Queue_new]) (replicate (Suc n) [])"
    by (simp only: replicate_append_same [symmetric] replicate_Suc) (simp add: list_all2_appendI)
  ultimately show ?case
    by (auto simp: MsgQueueArr_new_def MsgQueueArr_repr_def res_fold_append)
qed

lemma MsgQueueArr_len: "MsgQueueArr_repr mqa qs \<Longrightarrow> arr_len mqa = length qs"
  by (auto simp: MsgQueueArr_repr_def Array_repr_len list_all2_lengthD)

lemma MsgQueueArr_get_repr:
  assumes "MsgQueueArr_repr mqa qs" and "i < length qs"
  shows "\<exists>q. MsgQueueArr_get mqa i = Inr q \<and> Queue_repr q (qs ! i)"
proof -
  obtain objs where o: "Array_repr mqa objs" "list_all2 Queue_repr objs qs"
    using assms(1) by (auto simp: MsgQueueArr_repr_def)
  then have "length objs = length qs" by (simp add: list_all2_lengthD)
  with o assms show ?thesis
    by (simp add: MsgQueueArr_get_def MsgQueueArr_len Array_get_repr list_all2_nthD)
qed

lemma MsgQueueArr_upd_repr:
  assumes "MsgQueueArr_repr mqa qs" and "i < length qs" and "Queue_repr q xs"
  shows "MsgQueueArr_repr (MsgQueueArr_upd mqa i q) (qs[i := xs])"
proof -
  obtain objs where o: "Array_repr mqa objs" "list_all2 Queue_repr objs qs"
    using assms(1) by (auto simp: MsgQueueArr_repr_def)
  then have l: "length objs = length qs" by (simp add: list_all2_lengthD)
  have "Array_repr (MsgQueueArr_upd mqa i q) (objs[i := q])"
    using o(1) l assms(2) by (auto simp: Array_repr_def MsgQueueArr_upd_def holds_alt map_update list_update_append)
  moreover have "list_all2 Queue_repr (objs[i := q]) (qs[i := xs])"
    using o(2) assms(3) by (rule list_all2_update_cong)
  ultimately show ?thesis by (auto simp: MsgQueueArr_repr_def)
qed

lemma PseudoNetwork_sendMsg_repr:
  assumes "PseudoNetwork_repr pn qs" and "unat (getTarget m) < length qs"
  shows "\<exists>pn'. PseudoNetwork_sendMsg m pn = Inr pn' \<and>
    PseudoNetwork_repr pn' (qs[unat (getTarget m) := qs ! unat (getTarget m) @ [m]]) \<and>
    pn_nodeId pn' = pn_nodeId pn \<and> pn_isNodeDone pn' = pn_isNodeDone pn"
proof -
  have r: "MsgQueueArr_repr (pn_mqa pn) qs" using assms(1) by (simp add: PseudoNetwork_repr_def)
  obtain q where q: "MsgQueueArr_get (pn_mqa pn) (unat (getTarget m)) = Inr q"
    "Queue_repr q (qs ! unat (getTarget m))"
    using MsgQueueArr_get_repr [OF r assms(2)] by blast
  obtain q' where "Queue_push m q = Inr q'" "Queue_repr q' (qs ! unat (getTarget m) @ [m])"
    using Queue_fifo.push_repr [OF q(2)] by blast
  with q(1) MsgQueueArr_upd_repr [OF r assms(2)] show ?thesis
    by (simp add: PseudoNetwork_sendMsg_def MessageQueue_push_def PseudoNetwork_repr_def)
qed

lemma PseudoNetwork_receiveMsg_repr:
  assumes "PseudoNetwork_repr pn qs" and "unat (pn_nodeId pn) < length qs"
    and "qs ! unat (pn_nodeId pn) = m # ms"
  shows "\<exists>pn'. PseudoNetwork_receiveMsg pn = Inr (m, pn') \<and>
    PseudoNetwork_repr pn' (qs[unat (pn_nodeId pn) := ms]) \<and>
    pn_nodeId pn' = pn_nodeId pn \<and> pn_isNodeDone pn' = pn_isNodeDone pn"
proof -
  have r: "MsgQueueArr_repr (pn_mqa pn) qs" using assms(1) by (simp add: PseudoNetwork_repr_def)
  obtain q where q: "MsgQueueArr_get (pn_mqa pn) (unat (pn_nodeId pn)) = Inr q" "Queue_repr q (m # ms)"
    using MsgQueueArr_get_repr [OF r assms(2)] assms(3) by auto
  obtain q' where "Queue_pop q = Inr (Some m, q')" "Queue_repr q' ms"
    using Queue_fifo.pop_repr [OF q(2)] by blast
  with q MsgQueueArr_upd_repr [OF r assms(2)] Queue_len_repr [OF q(2)] show ?thesis
    by (simp add: PseudoNetwork_receiveMsg_def MessageQueue_pop_def PseudoNetwork_repr_def)
qed

lemma PseudoNetwork_sendMsg_frame:
  "PseudoNetwork_sendMsg m pn = Inr pn' \<Longrightarrow>
   pn_isNodeDone pn' = pn_isNodeDone pn \<and> pn_nodeId pn' = pn_nodeId pn"
  by (auto simp: PseudoNetwork_sendMsg_def Let_def res_bind_Inr_iff)

lemma PseudoNetwork_sends_frame:
  "res_fold PseudoNetwork_sendMsg ms pn = Inr pn' \<Longrightarrow>
   pn_isNodeDone pn' = pn_isNodeDone pn \<and> pn_nodeId pn' = pn_nodeId pn"
  by (erule res_fold_invariant) (auto dest: PseudoNetwork_sendMsg_frame)

interpretation Pseudo_net: inetwork PseudoNetwork_sendMsg PseudoNetwork_repr
  by unfold_locales (use PseudoNetwork_sendMsg_repr in blast)

lemma PseudoNetwork_handleDoneMsg_ok:
  assumes r: "PseudoNetwork_repr pn qs" and "pn_nodeId pn = 0" and "length qs < 2 ^ 64"
    and len: "length (pn_isNodeDone pn) = length qs" and "unat s < length qs"
  defines "done \<equiv> (pn_isNodeDone pn)[unat s := True]"
  shows "\<exists>pn'. PseudoNetwork_handleDoneMsg (new_DoneMsg s t) pn = Inr pn' \<and>
    PseudoNetwork_repr pn' (if list_all id done
      then map (\<lambda>i. qs ! i @ [new_TeardownMsg 0 (of_nat i)]) [0..<length qs] else qs) \<and>
    pn_isNodeDone pn' = done"
proof -
  let ?p = "pn\<lparr>pn_isNodeDone := done\<rparr>" and ?ms = "map (\<lambda>i. new_TeardownMsg 0 (of_nat i)) [0..<length qs]"
  have all: "list_all (\<lambda>i. done ! i) [0..<arr_len (pn_mqa pn)] \<longleftrightarrow> list_all id done"
    using len r by (simp add: list_all_length done_def MsgQueueArr_len PseudoNetwork_repr_def)
  have p: "PseudoNetwork_repr ?p qs" using r by (simp add: PseudoNetwork_repr_def)
  obtain p' where p': "res_fold PseudoNetwork_sendMsg ?ms ?p = Inr p'"
    "PseudoNetwork_repr p' (Pseudo_net.deliver ?ms qs)"
    using Pseudo_net.send_all_repr [OF p, of ?ms] assms(3) by (auto simp: atLeastLessThan_iff)
  have "filter (\<lambda>m. unat (getTarget m) = i) ?ms = [new_TeardownMsg 0 (of_nat i)]" if "i < length qs" for i
  proof -
    have "filter (\<lambda>m. unat (getTarget m) = i) ?ms = map (\<lambda>i. new_TeardownMsg 0 (of_nat i)) (filter (\<lambda>j. j = i) [0..<length qs])"
      using assms(3) by (simp add: filter_map comp_def cong: filter_cong)
        (auto intro!: arg_cong [where f = "map _"] filter_cong)
    also have "filter (\<lambda>j. j = i) [0..<length qs] = [i]"
      using that by (induction qs rule: rev_induct) auto
    finally show ?thesis by simp
  qed
  then have "Pseudo_net.deliver ?ms qs = map (\<lambda>i. qs ! i @ [new_TeardownMsg 0 (of_nat i)]) [0..<length qs]"
    by (intro nth_equalityI) (simp_all add: Pseudo_net.deliver_nth)
  with p' p PseudoNetwork_sends_frame [OF p'(1)] all assms(2,5) len r show ?thesis
    by (auto simp: PseudoNetwork_handleDoneMsg_def PseudoNetwork_sendTeardownMsgs_def Let_def done_def
        res_fold_map MsgQueueArr_len PseudoNetwork_repr_def)
qed

lemma PseudoNetwork_sendTeardownMsgs_node:
  assumes "PseudoNetwork_sendTeardownMsgs q = Inr q'"
  shows "pn_nodeId q' = pn_nodeId q"
proof -
  have "res_fold PseudoNetwork_sendMsg (map (\<lambda>i. new_TeardownMsg (pn_nodeId q) (of_nat i)) [0..<arr_len (pn_mqa q)]) q = Inr q'"
    using assms unfolding PseudoNetwork_sendTeardownMsgs_def res_fold_map .
  from PseudoNetwork_sends_frame [OF this] show ?thesis by (rule conjunct2)
qed

lemma PseudoNetwork_handleDoneMsg_node:
  assumes "PseudoNetwork_handleDoneMsg m pn = Inr pn'"
  shows "pn_nodeId pn' = pn_nodeId pn"
proof -
  let ?pn = "pn\<lparr>pn_isNodeDone := (pn_isNodeDone pn)[unat (getSender m) := True]\<rparr>"
  have "pn' = ?pn \<or> PseudoNetwork_sendTeardownMsgs ?pn = Inr pn'"
    using assms by (simp add: PseudoNetwork_handleDoneMsg_def Let_def split: if_splits)
  then show ?thesis using PseudoNetwork_sendTeardownMsgs_node [of ?pn pn'] by auto
qed

end
