(* ===== verification/KVStore.thy ===== *)
theory KVStore
  imports Pseudo
begin

text \<open>
  The key-value store of one node (\<open>src/store/kvstore.h\<close>) and the handlers of its receiver
  thread (\<open>src/application/thread/receiverthread.h\<close>).

  \<open>kv_map\<close> holds the values whose keys live on this node, by key string. \<open>kv_cache\<close> maps a
  key to the messages concerning it: for a key of this node, the \<open>WaitAndGet\<close> requests that
  cannot be answered yet; for a key of another node, the reply that has arrived.
  \<open>kv_locked\<close> is the state of \<open>msgCacheLock_\<close>.

  Every operation is parameterised by the \<open>sendMsg\<close> of the network object the store was
  given and threads that network's state \<open>'n\<close>. A wait for another thread (the condition
  variable, the spinning loop of \<open>getValue\<close>, a mutex that is taken) that nothing in the
  operation itself can end is \<open>Diverges\<close>; \<open>getFromNetwork_\<close> is given in the two halves
  between which the other threads run.
\<close>

section \<open>State\<close>

record KVStore =
  kv_map :: "Value MapStrObj"
  kv_storeId :: u64
  kv_cache :: "(Key, Msg Array) hmap"
  kv_locked :: bool

definition KVStore_new :: "u64 \<Rightarrow> KVStore" where
  "KVStore_new n = \<lparr>kv_map = MapStrObj_new, kv_storeId = n, kv_cache = Map_default, kv_locked = False\<rparr>"

definition cache_lock :: "KVStore \<Rightarrow> KVStore res" where
  "cache_lock kv = (if kv_locked kv then Inl Diverges else Inr (kv\<lparr>kv_locked := True\<rparr>))"

definition cache_unlock :: "KVStore \<Rightarrow> KVStore" where
  "cache_unlock kv = kv\<lparr>kv_locked := False\<rparr>"

section \<open>Operations\<close>

text \<open>\<open>addToCache_\<close>; the array of a key that is present grows in place.\<close>

definition addToCache :: "Key \<Rightarrow> Msg \<Rightarrow> KVStore \<Rightarrow> KVStore res" where
  "addToCache k msg kv =
     res_bind (cache_lock kv) (\<lambda>kv.
     res_bind (Map_contains_key Key_vt (Some k) (kv_cache kv)) (\<lambda>present.
       if present then
         res_bind (Map_get Key_vt (Some k) (kv_cache kv)) (\<lambda>arr.
           case arr of
             None \<Rightarrow> Inl NullDeref
           | Some arrMsgs \<Rightarrow>
               res_bind (Array_add msg arrMsgs) (\<lambda>arrMsgs.
               res_bind (Map_put Key_vt (Some k) (Some arrMsgs) (kv_cache kv)) (\<lambda>(_, c).
               Inr (cache_unlock (kv\<lparr>kv_cache := c\<rparr>)))))
       else
         res_bind (Array_add msg Array_default) (\<lambda>arrMsgs.
         res_bind (Map_put Key_vt (Some k) (Some arrMsgs) (kv_cache kv)) (\<lambda>(_, c).
         Inr (cache_unlock (kv\<lparr>kv_cache := c\<rparr>))))))"

definition addMsgWaitingOn :: "Message \<Rightarrow> Key \<Rightarrow> KVStore \<Rightarrow> KVStore res" where
  "addMsgWaitingOn h k kv = res_bind (Key_clone k) (\<lambda>k'. addToCache k' (WaitAndGetMsg h k) kv)"

definition addReply :: "Message \<Rightarrow> Key \<Rightarrow> Value \<Rightarrow> KVStore \<Rightarrow> KVStore res" where
  "addReply h k v kv = res_bind (Key_clone k) (\<lambda>k'. addToCache k' (ReplyDataMsg h k v) kv)"

text \<open>\<open>getValue\<close> on a key of this node.\<close>

definition getLocalValue :: "Key \<Rightarrow> bool \<Rightarrow> KVStore \<Rightarrow> Value option res" where
  "getLocalValue k shouldBlock kv =
     res_bind (MapStrObj_get (Some (k_str k)) (kv_map kv)) (\<lambda>val.
       case val of
         None \<Rightarrow> if shouldBlock then Inl Diverges else Inr None
       | Some v \<Rightarrow> res_bind (Value_clone v) (\<lambda>v. Inr (Some v)))"

text \<open>\<open>getFromNetwork_\<close> up to the point where it waits for the reply, and from there on.\<close>

definition getFromNetwork_request ::
    "(Msg \<Rightarrow> 'n \<Rightarrow> 'n res) \<Rightarrow> Key \<Rightarrow> bool \<Rightarrow> KVStore \<Rightarrow> 'n \<Rightarrow> 'n res" where
  "getFromNetwork_request send k shouldBlock kv net =
     res_bind (if shouldBlock then new_WaitAndGetMsg k (kv_storeId kv) (k_homeNode k)
               else new_GetDataMsg k (kv_storeId kv) (k_homeNode k)) (\<lambda>dm. send dm net)"

definition getFromNetwork_await :: "Key \<Rightarrow> bool \<Rightarrow> KVStore \<Rightarrow> (Value option \<times> KVStore) res" where
  "getFromNetwork_await k shouldBlock kv =
     res_bind (cache_lock kv) (\<lambda>kv.
     res_bind (Map_contains_key Key_vt (Some k) (kv_cache kv)) (\<lambda>present.
       if \<not> present then (if shouldBlock then Inl Diverges else Inr (None, kv))
       else
         res_bind (Map_remove Key_vt (Some k) (kv_cache kv)) (\<lambda>(msgArr, c).
         let kv = cache_unlock (kv\<lparr>kv_cache := c\<rparr>) in
           case msgArr of
             None \<Rightarrow> Inl AssertFail
           | Some arr \<Rightarrow>
               if arr_len arr \<noteq> 1 then Inl AssertFail
               else
                 res_bind (Array_remove 0 arr) (\<lambda>(msg, _).
                   case msg of
                     ReplyDataMsg h k' v \<Rightarrow> res_bind (Value_clone v) (\<lambda>v. Inr (Some v, kv))
                   | _ \<Rightarrow> Inl AssertFail))))"

definition getFromNetwork ::
    "(Msg \<Rightarrow> 'n \<Rightarrow> 'n res) \<Rightarrow> Key \<Rightarrow> bool \<Rightarrow> KVStore \<Rightarrow> 'n \<Rightarrow> (Value option \<times> KVStore \<times> 'n) res" where
  "getFromNetwork send k shouldBlock kv net =
     res_bind (getFromNetwork_request send k shouldBlock kv net) (\<lambda>net.
     res_bind (getFromNetwork_await k shouldBlock kv) (\<lambda>(v, kv). Inr (v, kv, net)))"

definition getValue ::
    "(Msg \<Rightarrow> 'n \<Rightarrow> 'n res) \<Rightarrow> Key \<Rightarrow> bool \<Rightarrow> KVStore \<Rightarrow> 'n \<Rightarrow> (Value option \<times> KVStore \<times> 'n) res" where
  "getValue send k shouldBlock kv net =
     (if k_homeNode k = kv_storeId kv
      then res_bind (getLocalValue k shouldBlock kv) (\<lambda>v. Inr (v, kv, net))
      else getFromNetwork send k shouldBlock kv net)"

text \<open>\<open>tryToHandleCache_\<close>: answer, in order, every request parked under the key.\<close>

definition answerParked ::
    "(Msg \<Rightarrow> 'n \<Rightarrow> 'n res) \<Rightarrow> Key \<Rightarrow> Msg Array \<Rightarrow> nat \<Rightarrow> KVStore \<times> 'n \<Rightarrow> (KVStore \<times> 'n) res" where
  "answerParked send k arrMsgs i = (\<lambda>(kv, net).
     res_bind (Array_get i arrMsgs) (\<lambda>msg.
       case msg of
         WaitAndGetMsg h k' \<Rightarrow>
           res_bind (getValue send k False kv net) (\<lambda>(val, kv, net).
           res_bind (new_ReplyDataMsg k val (kv_storeId kv) (m_sender h)) (\<lambda>reply.
           res_bind (send reply net) (\<lambda>net. Inr (kv, net))))
       | _ \<Rightarrow> Inl AssertFail))"

definition tryToHandleCache :: "(Msg \<Rightarrow> 'n \<Rightarrow> 'n res) \<Rightarrow> Key \<Rightarrow> KVStore \<Rightarrow> 'n \<Rightarrow> (KVStore \<times> 'n) res" where
  "tryToHandleCache send k kv net =
     res_bind (cache_lock kv) (\<lambda>kv.
     res_bind (Map_contains_key Key_vt (Some k) (kv_cache kv)) (\<lambda>present.
       if \<not> present then Inr (cache_unlock kv, net)
       else
         res_bind (Map_remove Key_vt (Some k) (kv_cache kv)) (\<lambda>(arr, c).
           case arr of
             None \<Rightarrow> Inl NullDeref
           | Some arrMsgs \<Rightarrow>
               res_bind (res_fold (answerParked send k arrMsgs) [0..<arr_len arrMsgs] (kv\<lparr>kv_cache := c\<rparr>, net))
                 (\<lambda>(kv, net). Inr (cache_unlock kv, net)))))"

definition KVStore_put ::
    "(Msg \<Rightarrow> 'n \<Rightarrow> 'n res) \<Rightarrow> Key \<Rightarrow> Value \<Rightarrow> KVStore \<Rightarrow> 'n \<Rightarrow> (KVStore \<times> 'n) res" where
  "KVStore_put send k data kv net =
     (if k_homeNode k \<noteq> kv_storeId kv then
        res_bind (new_PutMsg k data (kv_storeId kv) (k_homeNode k)) (\<lambda>msg.
        res_bind (send msg net) (\<lambda>net. Inr (kv, net)))
      else
        res_bind (String_copy (k_str k)) (\<lambda>key.
        res_bind (Value_clone data) (\<lambda>val.
        res_bind (MapStrObj_put (Some key) (Some val) (kv_map kv)) (\<lambda>(_, m).
        tryToHandleCache send k (kv\<lparr>kv_map := m\<rparr>) net))))"

section \<open>The receiver thread\<close>

text \<open>The virtual methods of \<open>INetwork\<close> the receiver calls.\<close>

record 'n INetwork =
  in_sendMsg :: "Msg \<Rightarrow> 'n \<Rightarrow> 'n res"
  in_handleRegisterMsg :: "Msg \<Rightarrow> 'n \<Rightarrow> 'n res"
  in_handleDirectoryMsg :: "Msg \<Rightarrow> 'n \<Rightarrow> 'n res"
  in_handleDoneMsg :: "Msg \<Rightarrow> 'n \<Rightarrow> 'n res"

definition PseudoNetwork_ops :: "PseudoNetwork INetwork" where
  "PseudoNetwork_ops =
     \<lparr>in_sendMsg = PseudoNetwork_sendMsg, in_handleRegisterMsg = \<lambda>_. Inr,
      in_handleDirectoryMsg = \<lambda>_. Inr, in_handleDoneMsg = PseudoNetwork_handleDoneMsg\<rparr>"

text \<open>The body of the loop of \<open>run\<close>; the flag is \<open>isDone\<close>.\<close>

fun ReceiverThread_handle ::
    "'n INetwork \<Rightarrow> u64 \<Rightarrow> Msg \<Rightarrow> KVStore \<times> 'n \<Rightarrow> (bool \<times> KVStore \<times> 'n) res" where
  "ReceiverThread_handle ops nodeNum (GetDataMsg h k) (kv, net) =
     res_bind (getValue (in_sendMsg ops) k False kv net) (\<lambda>(val, kv, net).
     res_bind (new_ReplyDataMsg k val nodeNum (m_sender h)) (\<lambda>reply.
     res_bind (in_sendMsg ops reply net) (\<lambda>net. Inr (False, kv, net))))"
| "ReceiverThread_handle ops nodeNum (WaitAndGetMsg h k) (kv, net) =
     res_bind (getValue (in_sendMsg ops) k False kv net) (\<lambda>(val, kv, net).
       case val of
         Some v \<Rightarrow>
           res_bind (new_ReplyDataMsg k (Some v) nodeNum (m_sender h)) (\<lambda>reply.
           res_bind (in_sendMsg ops reply net) (\<lambda>net. Inr (False, kv, net)))
       | None \<Rightarrow> res_bind (addMsgWaitingOn h k kv) (\<lambda>kv. Inr (False, kv, net)))"
| "ReceiverThread_handle ops nodeNum (ReplyDataMsg h k v) (kv, net) =
     res_bind (addReply h k v kv) (\<lambda>kv. Inr (False, kv, net))"
| "ReceiverThread_handle ops nodeNum (PutMsg h k v) (kv, net) =
     (if k_homeNode k \<noteq> nodeNum then Inl AssertFail
      else res_bind (KVStore_put (in_sendMsg ops) k v kv net) (\<lambda>(kv, net). Inr (False, kv, net)))"
| "ReceiverThread_handle ops nodeNum (RegisterMsg h i) (kv, net) =
     res_bind (in_handleRegisterMsg ops (RegisterMsg h i) net) (\<lambda>net. Inr (False, kv, net))"
| "ReceiverThread_handle ops nodeNum (DirectoryMsg h d) (kv, net) =
     res_bind (in_handleDirectoryMsg ops (DirectoryMsg h d) net) (\<lambda>net. Inr (False, kv, net))"
| "ReceiverThread_handle ops nodeNum (DoneMsg h) (kv, net) =
     res_bind (in_handleDoneMsg ops (DoneMsg h) net) (\<lambda>net. Inr (False, kv, net))"
| "ReceiverThread_handle ops nodeNum (TeardownMsg h) (kv, net) = Inr (True, kv, net)"

section \<open>The store as two functions\<close>

definition Array_list :: "'a Array \<Rightarrow> 'a list" where
  "Array_list a = map the (take (arr_len a) (arr_objs a))"

lemma Array_list_repr [simp]: "Array_repr a xs \<Longrightarrow> Array_list a = xs"
  by (auto simp: Array_list_def Array_repr_def holds_def comp_def dest: arg_cong [where f = "map the"])

definition store_abs :: "KVStore \<Rightarrow> String \<rightharpoonup> Value" where
  "store_abs kv = MapStrObj_abs (kv_map kv)"

definition cache_abs :: "KVStore \<Rightarrow> Key \<Rightarrow> Msg list" where
  "cache_abs kv k = (case Map_abs (kv_cache kv) k of None \<Rightarrow> [] | Some a \<Rightarrow> Array_list a)"

definition cache_inv :: "(Key, Msg Array) hmap \<Rightarrow> bool" where
  "cache_inv c \<longleftrightarrow> Map_inv Key_vt Key_ok c \<and>
     (\<forall>k a. Map_abs c k = Some a \<longrightarrow> Array_repr a (Array_list a) \<and> Array_list a \<noteq> [])"

definition KVStore_inv :: "KVStore \<Rightarrow> bool" where
  "KVStore_inv kv \<longleftrightarrow> MapStrObj_inv (kv_map kv) \<and> (\<forall>v \<in> ran (store_abs kv). Value_ok v) \<and>
     cache_inv (kv_cache kv) \<and> \<not> kv_locked kv"

lemma KVStore_new_ok [simp]:
  "KVStore_inv (KVStore_new n)" "store_abs (KVStore_new n) = Map.empty" "cache_abs (KVStore_new n) k = []"
  "kv_storeId (KVStore_new n) = n"
  by (simp_all add: KVStore_inv_def KVStore_new_def store_abs_def cache_abs_def cache_inv_def Map_default_def)

lemma cache_contains:
  "cache_inv c \<Longrightarrow> Key_ok k \<Longrightarrow> Map_contains_key Key_vt (Some k) c = Inr (Map_abs c k \<noteq> None)"
  using Key_key.contains_correct [of c k] by (auto simp: cache_inv_def domIff)

lemma addToCache_spec:
  assumes "KVStore_inv kv" and "Key_ok k"
  shows "\<exists>kv'. addToCache k m kv = Inr kv' \<and> KVStore_inv kv' \<and> kv_storeId kv' = kv_storeId kv \<and>
    store_abs kv' = store_abs kv \<and> cache_abs kv' = (cache_abs kv)(k := cache_abs kv k @ [m])"
proof -
  let ?c = "kv_cache kv"
  have c: "cache_inv ?c" "Map_inv Key_vt Key_ok ?c" and u: "\<not> kv_locked kv"
    using assms(1) by (simp_all add: KVStore_inv_def cache_inv_def)
  define base where "base = (case Map_abs ?c k of None \<Rightarrow> Array_default | Some a \<Rightarrow> a)"
  have base: "Array_repr base (cache_abs kv k)"
    using c(1) by (auto simp: base_def cache_abs_def cache_inv_def Array_default_def split: option.split)
  obtain a where a: "Array_add m base = Inr a" "Array_repr a (cache_abs kv k @ [m])"
    using Array_add_repr [OF base] by blast
  obtain c' where c': "Map_put Key_vt (Some k) (Some a) ?c = Inr (Map_abs ?c k, c')" "Map_inv Key_vt Key_ok c'"
    "Map_abs c' = (Map_abs ?c)(k \<mapsto> a)"
    using Key_key.put_correct [OF c(2) assms(2)] by blast
  let ?kv = "kv\<lparr>kv_cache := c'\<rparr>"
  have "addToCache k m kv = Inr ?kv"
    using u cache_contains [OF c(1) assms(2)] Key_key.get_correct [OF c(2) assms(2)] a(1) c'(1)
    by (cases "Map_abs ?c k") (simp_all add: addToCache_def cache_lock_def cache_unlock_def base_def)
  moreover have "cache_inv c'"
    using c(1) c' a(2) by (auto simp: cache_inv_def)
  moreover have "cache_abs ?kv = (cache_abs kv)(k := cache_abs kv k @ [m])"
    using c'(3) a(2) by (auto simp: cache_abs_def fun_eq_iff)
  ultimately show ?thesis using assms(1) by (auto simp: KVStore_inv_def store_abs_def)
qed

lemma addMsgWaitingOn_spec:
  assumes "KVStore_inv kv" and "Key_ok k"
  shows "\<exists>kv'. addMsgWaitingOn h k kv = Inr kv' \<and> KVStore_inv kv' \<and> kv_storeId kv' = kv_storeId kv \<and>
    store_abs kv' = store_abs kv \<and>
    cache_abs kv' = (cache_abs kv)(k := cache_abs kv k @ [WaitAndGetMsg h k])"
  using addToCache_spec [OF assms] assms(2) by (simp add: addMsgWaitingOn_def)

lemma addReply_spec:
  assumes "KVStore_inv kv" and "Key_ok k"
  shows "\<exists>kv'. addReply h k v kv = Inr kv' \<and> KVStore_inv kv' \<and> kv_storeId kv' = kv_storeId kv \<and>
    store_abs kv' = store_abs kv \<and>
    cache_abs kv' = (cache_abs kv)(k := cache_abs kv k @ [ReplyDataMsg h k v])"
  using addToCache_spec [OF assms] assms(2) by (simp add: addReply_def)

lemma getLocalValue_spec:
  assumes "KVStore_inv kv" and "Key_ok k"
  shows "getLocalValue k b kv =
    (case store_abs kv (k_str k) of None \<Rightarrow> if b then Inl Diverges else Inr None | Some v \<Rightarrow> Inr (Some v))"
proof -
  have "MapStrObj_get (Some (k_str k)) (kv_map kv) = Inr (store_abs kv (k_str k))"
    using assms by (simp add: KVStore_inv_def Key_ok_def store_abs_def MapStrObj_get_correct)
  moreover have "Value_clone v = Inr v" if "store_abs kv (k_str k) = Some v" for v
    using assms(1) that by (intro Value_clone_ok) (auto simp: KVStore_inv_def ran_def)
  ultimately show ?thesis by (auto simp: getLocalValue_def split: option.split)
qed

lemma getValue_local:
  assumes "KVStore_inv kv" and "Key_ok k" and "k_homeNode k = kv_storeId kv"
  shows "getValue send k False kv net = Inr (store_abs kv (k_str k), kv, net)"
  using assms by (simp add: getValue_def getLocalValue_spec split: option.split)

text \<open>The cache without the entry of \<open>k\<close>.\<close>

lemma cache_remove:
  assumes "cache_inv c" and "Key_ok k" and "Map_abs c k = Some a"
  shows "\<exists>c'. Map_remove Key_vt (Some k) c = Inr (Some a, c') \<and> cache_inv c' \<and> Map_abs c' = (Map_abs c)(k := None)"
proof -
  have c: "Map_inv Key_vt Key_ok c" using assms(1) by (simp add: cache_inv_def)
  from Key_key.remove_correct [OF c assms(2,3)] assms(1) show ?thesis
    by (auto simp: cache_inv_def)
qed

lemma getFromNetwork_await_reply:
  assumes "KVStore_inv kv" and "Key_ok k" and "cache_abs kv k = [ReplyDataMsg h k' v]" and "Value_ok v"
  shows "\<exists>kv'. getFromNetwork_await k b kv = Inr (Some v, kv') \<and> KVStore_inv kv' \<and>
    kv_storeId kv' = kv_storeId kv \<and> store_abs kv' = store_abs kv \<and> cache_abs kv' = (cache_abs kv)(k := [])"
proof -
  have c: "cache_inv (kv_cache kv)" and u: "\<not> kv_locked kv" using assms(1) by (simp_all add: KVStore_inv_def)
  obtain a where a: "Map_abs (kv_cache kv) k = Some a" "Array_list a = [ReplyDataMsg h k' v]"
    using assms(3) by (auto simp: cache_abs_def split: option.splits)
  then have r: "Array_repr a [ReplyDataMsg h k' v]" using c by (metis cache_inv_def)
  obtain c' where c': "Map_remove Key_vt (Some k) (kv_cache kv) = Inr (Some a, c')" "cache_inv c'"
    "Map_abs c' = (Map_abs (kv_cache kv))(k := None)"
    using cache_remove [OF c assms(2) a(1)] by blast
  obtain a' where "Array_remove 0 a = Inr (ReplyDataMsg h k' v, a')"
    using Array_remove_repr [OF r, of 0] by auto
  then have "getFromNetwork_await k b kv = Inr (Some v, kv\<lparr>kv_cache := c'\<rparr>)"
    using u c'(1) a(1) Array_repr_len [OF r] assms(4) cache_contains [OF c assms(2)]
    by (simp add: getFromNetwork_await_def cache_lock_def cache_unlock_def Let_def)
  moreover have "cache_abs (kv\<lparr>kv_cache := c'\<rparr>) = (cache_abs kv)(k := [])"
    using c'(3) by (auto simp: cache_abs_def fun_eq_iff)
  ultimately show ?thesis using assms(1) c'(2) by (auto simp: KVStore_inv_def store_abs_def)
qed

lemma getFromNetwork_await_blocks:
  assumes "KVStore_inv kv" and "Key_ok k" and "cache_abs kv k = []"
  shows "getFromNetwork_await k True kv = Inl Diverges"
    and "getFromNetwork_await k False kv = Inr (None, kv\<lparr>kv_locked := True\<rparr>)"
proof -
  have c: "cache_inv (kv_cache kv)" and u: "\<not> kv_locked kv" using assms(1) by (simp_all add: KVStore_inv_def)
  have "Map_abs (kv_cache kv) k = None"
    using c assms(3) by (auto simp: cache_abs_def cache_inv_def split: option.splits)
  then show "getFromNetwork_await k True kv = Inl Diverges"
    "getFromNetwork_await k False kv = Inr (None, kv\<lparr>kv_locked := True\<rparr>)"
    using u cache_contains [OF c assms(2)] by (simp_all add: getFromNetwork_await_def cache_lock_def)
qed

text \<open>The replies \<open>put\<close> owes to the requests \<open>ms\<close> parked under the key.\<close>

definition replies :: "u64 \<Rightarrow> Key \<Rightarrow> Value \<Rightarrow> Msg list \<Rightarrow> Msg list" where
  "replies me k v ms = map (\<lambda>m. ReplyDataMsg (Message_new ReplyData me (getSender m)) k v) ms"

fun is_WaitAndGet :: "Msg \<Rightarrow> bool" where
  "is_WaitAndGet (WaitAndGetMsg h k) \<longleftrightarrow> True"
| "is_WaitAndGet _ \<longleftrightarrow> False"

text \<open>The loop answers the requests one after the other and changes nothing in the store.\<close>

lemma answerParked_fold:
  assumes g: "getValue send k False kv = (\<lambda>net. Inr (Some v, kv, net))" and "Key_ok k" and "Value_ok v"
    and r: "Array_repr arr ms" and "list_all is_WaitAndGet ms" and "n \<le> length ms"
  shows "res_fold (answerParked send k arr) [0..<n] (kv, net) =
    res_bind (res_fold send (replies (kv_storeId kv) k v (take n ms)) net) (\<lambda>net. Inr (kv, net))"
  using assms(6)
proof (induction n)
  case 0
  then show ?case by (simp add: replies_def)
next
  case (Suc n)
  then have n: "n < length ms" by simp
  then obtain h k' where m: "ms ! n = WaitAndGetMsg h k'"
    using assms(5) by (cases "ms ! n") (auto simp: list_all_length)
  have step: "answerParked send k arr n (kv, net) =
      res_bind (send (ReplyDataMsg (Message_new ReplyData (kv_storeId kv) (m_sender h)) k v) net) (\<lambda>net. Inr (kv, net))"
    for net
    using Array_get_repr [OF r, of n] n m assms(2,3) by (simp add: answerParked_def g)
  have "res_fold (answerParked send k arr) [0..<Suc n] (kv, net) =
      res_bind (res_fold (answerParked send k arr) [0..<n] (kv, net)) (answerParked send k arr n)"
    using Suc.prems by (simp add: res_fold_append cong: res_bind_cong)
  also have "\<dots> = res_bind (res_fold send (replies (kv_storeId kv) k v (take n ms)) net)
      (\<lambda>net. answerParked send k arr n (kv, net))"
    using Suc by (simp add: res_bind_assoc)
  also have "\<dots> = res_bind (res_fold send (replies (kv_storeId kv) k v (take (Suc n) ms)) net) (\<lambda>net. Inr (kv, net))"
    using n m
    by (simp add: step replies_def take_Suc_conv_app_nth res_fold_append res_bind_assoc getSender_def)
  finally show ?case .
qed

lemma tryToHandleCache_spec:
  assumes inv: "KVStore_inv kv" and k: "Key_ok k" and home: "k_homeNode k = kv_storeId kv"
    and v: "store_abs kv (k_str k) = Some v" and w: "list_all is_WaitAndGet (cache_abs kv k)"
  shows "\<exists>kv'. tryToHandleCache send k kv net =
      res_bind (res_fold send (replies (kv_storeId kv) k v (cache_abs kv k)) net) (\<lambda>net. Inr (kv', net)) \<and>
    KVStore_inv kv' \<and> kv_storeId kv' = kv_storeId kv \<and> store_abs kv' = store_abs kv \<and>
    cache_abs kv' = (cache_abs kv)(k := [])"
proof -
  have c: "cache_inv (kv_cache kv)" and u: "\<not> kv_locked kv" using inv by (simp_all add: KVStore_inv_def)
  have vok: "Value_ok v" using inv v by (auto simp: KVStore_inv_def ran_def)
  show ?thesis
  proof (cases "Map_abs (kv_cache kv) k")
    case None
    then have "cache_abs kv k = []" by (simp add: cache_abs_def)
    moreover have "cache_unlock (kv\<lparr>kv_locked := True\<rparr>) = kv"
      using u by (cases kv) (simp add: cache_unlock_def)
    ultimately show ?thesis using None u cache_contains [OF c k] inv
      by (auto simp: tryToHandleCache_def cache_lock_def replies_def)
  next
    case (Some a)
    then have ms: "cache_abs kv k = Array_list a" by (simp add: cache_abs_def)
    have r: "Array_repr a (Array_list a)" using c Some by (simp add: cache_inv_def)
    obtain c' where c': "Map_remove Key_vt (Some k) (kv_cache kv) = Inr (Some a, c')" "cache_inv c'"
      "Map_abs c' = (Map_abs (kv_cache kv))(k := None)"
      using cache_remove [OF c k Some] by blast
    let ?l = "kv\<lparr>kv_locked := True, kv_cache := c'\<rparr>" and ?kv = "kv\<lparr>kv_cache := c'\<rparr>"
    have inv': "KVStore_inv ?kv" using inv c'(2) by (simp add: KVStore_inv_def store_abs_def)
    have "getValue send k False ?l net = Inr (Some v, ?l, net)" for net
      using getLocalValue_spec [OF inv' k, of False] v home
      by (simp add: getValue_def store_abs_def getLocalValue_def)
    then have g: "getValue send k False ?l = (\<lambda>net. Inr (Some v, ?l, net))" by (rule ext)
    have un: "cache_unlock ?l = ?kv" using u by (cases kv) (simp add: cache_unlock_def)
    have "tryToHandleCache send k kv net =
      res_bind (res_fold send (replies (kv_storeId kv) k v (cache_abs kv k)) net) (\<lambda>net. Inr (?kv, net))"
      using u c'(1) Some cache_contains [OF c k] answerParked_fold [OF g k vok r, of "arr_len a" net] w
        Array_repr_len [OF r] ms un
      by (simp add: tryToHandleCache_def cache_lock_def res_bind_assoc)
    moreover have "cache_abs ?kv = (cache_abs kv)(k := [])"
      using c'(3) by (auto simp: cache_abs_def fun_eq_iff)
    ultimately show ?thesis using inv' by (auto simp: store_abs_def)
  qed
qed

text \<open>Putting a value on its home node stores it and answers everyone who waits for it.\<close>

lemma KVStore_put_local:
  assumes inv: "KVStore_inv kv" and k: "Key_ok k" and v: "Value_ok v" and home: "k_homeNode k = kv_storeId kv"
    and w: "list_all is_WaitAndGet (cache_abs kv k)"
  shows "\<exists>kv'. KVStore_put send k v kv net =
      res_bind (res_fold send (replies (kv_storeId kv) k v (cache_abs kv k)) net) (\<lambda>net. Inr (kv', net)) \<and>
    KVStore_inv kv' \<and> kv_storeId kv' = kv_storeId kv \<and>
    store_abs kv' = (store_abs kv)(k_str k \<mapsto> v) \<and> cache_abs kv' = (cache_abs kv)(k := [])"
proof -
  have s: "MapStrObj_inv (kv_map kv)" "String_wf (k_str k)" using inv k by (simp_all add: KVStore_inv_def Key_ok_def)
  then have cp: "String_copy (k_str k) = Inr (k_str k)" by (auto elim: String_wfE)
  obtain m where m: "MapStrObj_put (Some (k_str k)) (Some v) (kv_map kv) = Inr (MapStrObj_abs (kv_map kv) (k_str k), m)"
    "MapStrObj_inv m" "MapStrObj_abs m = (MapStrObj_abs (kv_map kv))(k_str k \<mapsto> v)"
    using MapStrObj_put_correct [OF s] by blast
  let ?kv = "kv\<lparr>kv_map := m\<rparr>"
  have abs: "store_abs ?kv = (store_abs kv)(k_str k \<mapsto> v)" "cache_abs ?kv = cache_abs kv"
    using m(3) by (auto simp: store_abs_def cache_abs_def)
  have "\<forall>w \<in> ran (store_abs ?kv). Value_ok w"
    using inv v unfolding abs(1) by (auto simp: KVStore_inv_def ran_def)
  then have inv': "KVStore_inv ?kv" using inv m(2) by (simp add: KVStore_inv_def)
  have "KVStore_put send k v kv net = tryToHandleCache send k ?kv net"
    using home cp v m(1) by (simp add: KVStore_put_def)
  with tryToHandleCache_spec [OF inv' k, of v send net] home w abs show ?thesis by auto
qed

lemma KVStore_put_remote:
  assumes "Key_ok k" and "Value_ok v" and "k_homeNode k \<noteq> kv_storeId kv"
  shows "KVStore_put send k v kv net =
    res_bind (send (PutMsg (Message_new Put (kv_storeId kv) (k_homeNode k)) k v) net) (\<lambda>net. Inr (kv, net))"
  using assms by (simp add: KVStore_put_def)

section \<open>Properties\<close>

text \<open>Storing a value on its home node answers everybody who waits for it. The value is stored
  under its key, replacing an older one and no other; every request parked under the key is answered
  once, in the order the requests came, with that value; no request stays parked, the requests parked
  under other keys are untouched, and the lock of the cache is free again.\<close>

theorem KVStore_put_answers_parked:
  assumes "KVStore_inv kv" and "Key_ok k" and "Value_ok v" and "k_homeNode k = kv_storeId kv"
    and "list_all is_WaitAndGet (cache_abs kv k)"
  shows "\<exists>kv'. KVStore_put send k v kv net =
      res_bind (res_fold send (replies (kv_storeId kv) k v (cache_abs kv k)) net) (\<lambda>net. Inr (kv', net)) \<and>
    KVStore_inv kv' \<and> getValue send k False kv' net' = Inr (Some v, kv', net') \<and>
    store_abs kv' = (store_abs kv)(k_str k \<mapsto> v) \<and> cache_abs kv' = (cache_abs kv)(k := [])"
proof -
  obtain kv' where kv': "KVStore_put send k v kv net =
      res_bind (res_fold send (replies (kv_storeId kv) k v (cache_abs kv k)) net) (\<lambda>net. Inr (kv', net))"
    "KVStore_inv kv'" "kv_storeId kv' = kv_storeId kv" "store_abs kv' = (store_abs kv)(k_str k \<mapsto> v)"
    "cache_abs kv' = (cache_abs kv)(k := [])"
    using KVStore_put_local [OF assms, of send net] by blast
  moreover have "getValue send k False kv' net' = Inr (Some v, kv', net')"
    using getValue_local [OF kv'(2) assms(2)] kv'(3,4) assms(4) by simp
  ultimately show ?thesis by (intro exI [of _ kv'] conjI)
qed

text \<open>Node 2 has asked node 1 for a key; putting it sends the reply.\<close>

lemma KVStore_put_answers_parked_witness:
  "\<exists>kv kv'. addMsgWaitingOn (Message_new WaitAndGet 2 1) (Key_lit ''k'' 1) (KVStore_new 1) = Inr kv \<and>
    KVStore_put (\<lambda>m ms. Inr (ms @ [m])) (Key_lit ''k'' 1) (Value_lit ''v'') kv [] =
      Inr (kv', [ReplyDataMsg (Message_new ReplyData 1 2) (Key_lit ''k'' 1) (Value_lit ''v'')])"
proof -
  let ?k = "Key_lit ''k'' 1" and ?h = "Message_new WaitAndGet 2 1"
  have k: "Key_ok ?k" by (simp add: cstr_ok_def)
  obtain kv where kv: "addMsgWaitingOn ?h ?k (KVStore_new 1) = Inr kv" "KVStore_inv kv" "kv_storeId kv = 1"
    "cache_abs kv ?k = [WaitAndGetMsg ?h ?k]"
    using addMsgWaitingOn_spec [OF KVStore_new_ok(1) k, of ?h 1] by auto
  have s: "getSender (WaitAndGetMsg ?h ?k) = 2" by (simp add: getSender_def Message_new_def)
  have "Value_ok (Value_lit ''v'')" "k_homeNode ?k = kv_storeId kv" "list_all is_WaitAndGet (cache_abs kv ?k)"
    using kv by simp_all
  from KVStore_put_answers_parked [OF kv(2) k this, of "\<lambda>m ms. Inr (ms @ [m])" "[]"] kv s show ?thesis
    by (auto simp: replies_def)
qed

text \<open>C40: A non-blocking read of a key of another node leaves the store locked. When the reply is not
  there yet \<open>getFromNetwork_\<close> returns \<open>nullptr\<close> without releasing \<open>msgCacheLock_\<close>, and from then on
  the receiver thread of the node blocks for ever on the first message it has to file, in particular
  on the reply that was asked for.\<close>

theorem getFromNetwork_keeps_lock:
  assumes "KVStore_inv kv" and "Key_ok k" and "k_homeNode k \<noteq> kv_storeId kv" and "cache_abs kv k = []"
    and "send (GetDataMsg (Message_new GetData (kv_storeId kv) (k_homeNode k)) k) net = Inr net'"
  shows "\<exists>kv'. getValue send k False kv net = Inr (None, kv', net') \<and> cache_lock kv' = Inl Diverges \<and>
    addReply h k v kv' = Inl Diverges"
  using assms getFromNetwork_await_blocks(2) [OF assms(1,2,4)]
  by (simp add: getValue_def getFromNetwork_def getFromNetwork_request_def cache_lock_def addReply_def addToCache_def)

lemma getFromNetwork_keeps_lock_witness:
  "\<exists>kv' net'. getValue (\<lambda>m ms. Inr (ms @ [m])) (Key_lit ''k'' 1) False (KVStore_new 0) [] = Inr (None, kv', net') \<and>
    addReply (Message_new ReplyData 1 0) (Key_lit ''k'' 1) (Value_lit ''v'') kv' = Inl Diverges"
  using getFromNetwork_keeps_lock [of "KVStore_new 0" "Key_lit ''k'' 1" "\<lambda>m ms. Inr (ms @ [m])" "[]" _
      "Message_new ReplyData 1 0" "Value_lit ''v''"]
  by (auto simp: cstr_ok_def)

text \<open>A \<open>GetData\<close> request for a key the node does not hold crashes the receiver: the handler builds
  the reply from the null pointer \<open>getValue\<close> returned, and cloning it dereferences null.\<close>

theorem GetData_absent_crashes:
  assumes "KVStore_inv kv" and "Key_ok k" and "k_homeNode k = kv_storeId kv" and "store_abs kv (k_str k) = None"
  shows "ReceiverThread_handle ops n (GetDataMsg h k) (kv, net) = Inl NullDeref"
  using getValue_local [OF assms(1,2,3), of "in_sendMsg ops" net] assms
  by (simp add: new_ReplyDataMsg_def)

lemma GetData_absent_crashes_witness:
  "ReceiverThread_handle \<lparr>in_sendMsg = \<lambda>_. Inr, in_handleRegisterMsg = \<lambda>_. Inr, in_handleDirectoryMsg = \<lambda>_. Inr,
       in_handleDoneMsg = \<lambda>_. Inr\<rparr> 0
     (GetDataMsg (Message_new GetData 1 0) (Key_lit ''k'' 0)) (KVStore_new 0, ()) = Inl NullDeref"
  by (rule GetData_absent_crashes) (simp_all add: cstr_ok_def)

end
