(* ===== verification/Cluster.thy ===== *)
theory Cluster
  imports KVStore
begin

text \<open>
  A whole program run on the pseudo network: the nodes of \<open>application/thread/nodethread.h\<close>,
  each with its store, its receiver thread and its application thread, over the shared
  message queues of \<open>network/pseudo\<close>.

  An \<open>Action\<close> is what one thread does in one go: the receiver of a node takes a message and
  handles it; the application of a node calls \<open>put\<close>, calls \<open>waitAndGet\<close> (up to the wait),
  returns from it, or ends and tells the server. A handler is one action, so the model
  covers the interleavings in which handlers and store operations of one node do not
  overlap; the theory \<open>Race\<close> looks inside them.

  \<open>Spec\<close> is the abstract system: queues, stores and caches as plain functions.
  \<open>perform_refines\<close> shows that the program implements it and never crashes while the
  invariant holds; the invariant itself is established in the theory \<open>ClusterInv\<close>.
\<close>

section \<open>The program\<close>

datatype AppState = Running | Waiting Key | Finished

record ClusterNode =
  nd_kv :: KVStore
  nd_isNodeDone :: "bool list"
  nd_app :: AppState
  nd_receiving :: bool

record Cluster =
  cl_mqa :: MsgQueueArr
  cl_nodes :: "ClusterNode list"
  cl_got :: "(nat \<times> Key \<times> Value) list"  \<comment> \<open>what the calls of \<open>waitAndGet\<close> returned\<close>

datatype Action =
    Receive nat
  | AppPut nat Key Value
  | AppWaitAndGet nat Key
  | AppResume nat
  | AppFinish nat

definition serverIndex :: u64 where "serverIndex = 0"

definition Cluster_init :: "nat \<Rightarrow> Cluster res" where
  "Cluster_init n =
     res_bind (MsgQueueArr_new n) (\<lambda>mqa.
     Inr \<lparr>cl_mqa = mqa,
          cl_nodes = map (\<lambda>i. \<lparr>nd_kv = KVStore_new (of_nat i),
            nd_isNodeDone = pn_isNodeDone (PseudoNetwork_new mqa (of_nat i)),
            nd_app = Running, nd_receiving = True\<rparr>) [0..<n],
          cl_got = []\<rparr>)"

text \<open>The network object of node \<open>i\<close>, and the state after node \<open>i\<close> has used it.\<close>

definition net_of :: "Cluster \<Rightarrow> nat \<Rightarrow> PseudoNetwork" where
  "net_of c i = \<lparr>pn_mqa = cl_mqa c, pn_nodeId = of_nat i, pn_isNodeDone = nd_isNodeDone (cl_nodes c ! i)\<rparr>"

definition put_back :: "nat \<Rightarrow> KVStore \<Rightarrow> PseudoNetwork \<Rightarrow> AppState \<Rightarrow> bool \<Rightarrow> Cluster \<Rightarrow> Cluster" where
  "put_back i kv pn app rt c =
     c\<lparr>cl_mqa := pn_mqa pn,
       cl_nodes := (cl_nodes c)[i := \<lparr>nd_kv = kv, nd_isNodeDone = pn_isNodeDone pn, nd_app = app, nd_receiving = rt\<rparr>]\<rparr>"

fun perform :: "Action \<Rightarrow> Cluster \<Rightarrow> Cluster res" where
  "perform (Receive i) c =
     (let nd = cl_nodes c ! i in
      res_bind (PseudoNetwork_receiveMsg (net_of c i)) (\<lambda>(m, pn).
      res_bind (ReceiverThread_handle PseudoNetwork_ops (of_nat i) m (nd_kv nd, pn)) (\<lambda>(isDone, kv, pn).
      Inr (put_back i kv pn (nd_app nd) (\<not> isDone) c))))"
| "perform (AppPut i k v) c =
     (let nd = cl_nodes c ! i in
      res_bind (KVStore_put PseudoNetwork_sendMsg k v (nd_kv nd) (net_of c i)) (\<lambda>(kv, pn).
      Inr (put_back i kv pn (nd_app nd) (nd_receiving nd) c)))"
| "perform (AppWaitAndGet i k) c =
     (let nd = cl_nodes c ! i in
      if k_homeNode k = kv_storeId (nd_kv nd) then
        res_bind (getLocalValue k True (nd_kv nd)) (\<lambda>v.
          case v of None \<Rightarrow> Inl AssertFail | Some v \<Rightarrow> Inr (c\<lparr>cl_got := (i, k, v) # cl_got c\<rparr>))
      else
        res_bind (getFromNetwork_request PseudoNetwork_sendMsg k True (nd_kv nd) (net_of c i)) (\<lambda>pn.
        Inr (put_back i (nd_kv nd) pn (Waiting k) (nd_receiving nd) c)))"
| "perform (AppResume i) c =
     (let nd = cl_nodes c ! i in
      case nd_app nd of
        Waiting k \<Rightarrow>
          res_bind (getFromNetwork_await k True (nd_kv nd)) (\<lambda>(v, kv).
            case v of
              None \<Rightarrow> Inl AssertFail
            | Some v \<Rightarrow>
                Inr (put_back i kv (net_of c i) Running (nd_receiving nd) (c\<lparr>cl_got := (i, k, v) # cl_got c\<rparr>)))
      | _ \<Rightarrow> Inl AssertFail)"
| "perform (AppFinish i) c =
     (let nd = cl_nodes c ! i in
      res_bind (PseudoNetwork_sendMsg (new_DoneMsg (of_nat i) serverIndex) (net_of c i)) (\<lambda>pn.
      Inr (put_back i (nd_kv nd) pn Finished (nd_receiving nd) c)))"

section \<open>The abstract system\<close>

record Spec =
  sp_q :: "Msg list list"
  sp_store :: "nat \<Rightarrow> String \<rightharpoonup> Value"
  sp_cache :: "nat \<Rightarrow> Key \<Rightarrow> Msg list"
  sp_app :: "nat \<Rightarrow> AppState"
  sp_receiving :: "nat \<Rightarrow> bool"
  sp_done :: "bool list"
  sp_puts :: "(Key \<times> Value) set"  \<comment> \<open>every pair any application has put\<close>
  sp_got :: "(nat \<times> Key \<times> Value) list"

definition sp_init :: "nat \<Rightarrow> Spec" where
  "sp_init n =
     \<lparr>sp_q = replicate n [], sp_store = \<lambda>_. Map.empty, sp_cache = \<lambda>_ _. [], sp_app = \<lambda>_. Running,
      sp_receiving = \<lambda>_. True, sp_done = replicate n False, sp_puts = {}, sp_got = []\<rparr>"

definition home :: "Key \<Rightarrow> nat" where
  "home k = unat (k_homeNode k)"

definition sp_send :: "Msg list \<Rightarrow> Spec \<Rightarrow> Spec" where
  "sp_send ms s = s\<lparr>sp_q := Pseudo_net.deliver ms (sp_q s)\<rparr>"

definition sp_pop :: "nat \<Rightarrow> Spec \<Rightarrow> Spec" where
  "sp_pop i s = s\<lparr>sp_q := (sp_q s)[i := tl (sp_q s ! i)]\<rparr>"

definition sp_park :: "nat \<Rightarrow> Key \<Rightarrow> Msg \<Rightarrow> Spec \<Rightarrow> Spec" where
  "sp_park i k m s = s\<lparr>sp_cache := (sp_cache s)(i := (sp_cache s i)(k := sp_cache s i k @ [m]))\<rparr>"

definition sp_put :: "nat \<Rightarrow> Key \<Rightarrow> Value \<Rightarrow> Spec \<Rightarrow> Spec" where
  "sp_put i k v s =
     sp_send (replies (of_nat i) k v (sp_cache s i k))
       (s\<lparr>sp_store := (sp_store s)(i := (sp_store s i)(k_str k \<mapsto> v)),
          sp_cache := (sp_cache s)(i := (sp_cache s i)(k := []))\<rparr>)"

fun sp_handle :: "nat \<Rightarrow> Msg \<Rightarrow> Spec \<Rightarrow> Spec" where
  "sp_handle i (WaitAndGetMsg h k) s =
     (case sp_store s i (k_str k) of
        Some v \<Rightarrow> sp_send [ReplyDataMsg (Message_new ReplyData (of_nat i) (m_sender h)) k v] s
      | None \<Rightarrow> sp_park i k (WaitAndGetMsg h k) s)"
| "sp_handle i (ReplyDataMsg h k v) s = sp_park i k (ReplyDataMsg h k v) s"
| "sp_handle i (PutMsg h k v) s = sp_put i k v s"
| "sp_handle i (DoneMsg h) s =
     (let s = s\<lparr>sp_done := (sp_done s)[unat (m_sender h) := True]\<rparr> in
      if list_all id (sp_done s)
      then s\<lparr>sp_q := map (\<lambda>j. sp_q s ! j @ [new_TeardownMsg 0 (of_nat j)]) [0..<length (sp_q s)]\<rparr>
      else s)"
| "sp_handle i (TeardownMsg h) s = s\<lparr>sp_receiving := (sp_receiving s)(i := False)\<rparr>"
| "sp_handle i m s = s"

fun sp_step :: "Action \<Rightarrow> Spec \<Rightarrow> Spec" where
  "sp_step (Receive i) s = sp_handle i (hd (sp_q s ! i)) (sp_pop i s)"
| "sp_step (AppPut i k v) s =
     (let s = s\<lparr>sp_puts := insert (k, v) (sp_puts s)\<rparr> in
      if home k = i then sp_put i k v s
      else sp_send [PutMsg (Message_new Put (of_nat i) (k_homeNode k)) k v] s)"
| "sp_step (AppWaitAndGet i k) s =
     (if home k = i then s\<lparr>sp_got := (i, k, the (sp_store s i (k_str k))) # sp_got s\<rparr>
      else sp_send [WaitAndGetMsg (Message_new WaitAndGet (of_nat i) (k_homeNode k)) k]
             (s\<lparr>sp_app := (sp_app s)(i := Waiting k)\<rparr>))"
| "sp_step (AppResume i) s =
     (case sp_app s i of
        Waiting k \<Rightarrow>
          (case sp_cache s i k of
             [ReplyDataMsg h k' v] \<Rightarrow>
               s\<lparr>sp_cache := (sp_cache s)(i := (sp_cache s i)(k := [])), sp_app := (sp_app s)(i := Running),
                 sp_got := (i, k, v) # sp_got s\<rparr>
           | _ \<Rightarrow> s)
      | _ \<Rightarrow> s)"
| "sp_step (AppFinish i) s =
     sp_send [new_DoneMsg (of_nat i) serverIndex] (s\<lparr>sp_app := (sp_app s)(i := Finished)\<rparr>)"

text \<open>
  When a thread can do what the action says: it is its turn in the program, its arguments
  are objects, and a wait it is in has ended. (A local \<open>waitAndGet\<close> spins until the key
  is there; a remote one sleeps until the cache has an entry for the key.)
\<close>

fun enabled :: "Action \<Rightarrow> Spec \<Rightarrow> bool" where
  "enabled (Receive i) s \<longleftrightarrow> i < length (sp_q s) \<and> sp_receiving s i \<and> sp_q s ! i \<noteq> []"
| "enabled (AppPut i k v) s \<longleftrightarrow>
     i < length (sp_q s) \<and> sp_app s i = Running \<and> Key_ok k \<and> Value_ok v \<and> home k < length (sp_q s)"
| "enabled (AppWaitAndGet i k) s \<longleftrightarrow>
     i < length (sp_q s) \<and> sp_app s i = Running \<and> Key_ok k \<and> home k < length (sp_q s) \<and>
     (home k = i \<longrightarrow> sp_store s i (k_str k) \<noteq> None)"
| "enabled (AppResume i) s \<longleftrightarrow>
     i < length (sp_q s) \<and> (case sp_app s i of Waiting k \<Rightarrow> sp_cache s i k \<noteq> [] | _ \<Rightarrow> False)"
| "enabled (AppFinish i) s \<longleftrightarrow> i < length (sp_q s) \<and> sp_app s i = Running"

section \<open>The invariant\<close>

text \<open>
  \<open>is_req i k\<close>: a request of node \<open>i\<close> for \<open>k\<close>; \<open>is_rep k\<close>: a reply that carries \<open>k\<close>.
  \<open>tokens s i k\<close> counts the traces that a call \<open>waitAndGet k\<close> of node \<open>i\<close> leaves in the
  system: its request on the way or parked, its reply on the way or in the cache.
\<close>

fun is_req :: "nat \<Rightarrow> Key \<Rightarrow> Msg \<Rightarrow> bool" where
  "is_req i k (WaitAndGetMsg h k') \<longleftrightarrow> k' = k \<and> unat (m_sender h) = i"
| "is_req i k _ \<longleftrightarrow> False"

fun is_rep :: "Key \<Rightarrow> Msg \<Rightarrow> bool" where
  "is_rep k (ReplyDataMsg h k' v) \<longleftrightarrow> k' = k"
| "is_rep k _ \<longleftrightarrow> False"

fun is_done :: "nat \<Rightarrow> Msg \<Rightarrow> bool" where
  "is_done i (DoneMsg h) \<longleftrightarrow> unat (m_sender h) = i"
| "is_done i _ \<longleftrightarrow> False"

fun is_teardown :: "Msg \<Rightarrow> bool" where
  "is_teardown (TeardownMsg h) \<longleftrightarrow> True"
| "is_teardown _ \<longleftrightarrow> False"

definition count :: "(Msg \<Rightarrow> bool) \<Rightarrow> Msg list \<Rightarrow> nat" where
  "count P ms = length (filter P ms)"

definition tokens :: "Spec \<Rightarrow> nat \<Rightarrow> Key \<Rightarrow> nat" where
  "tokens s i k = count (is_req i k) (sp_q s ! home k) + count (is_req i k) (sp_cache s (home k) k) +
     count (is_rep k) (sp_q s ! i) + length (sp_cache s i k)"

text \<open>A message on its way to node \<open>i\<close>.\<close>

fun msg_good :: "Spec \<Rightarrow> nat \<Rightarrow> Msg \<Rightarrow> bool" where
  "msg_good s i (WaitAndGetMsg h k) \<longleftrightarrow> Key_ok k \<and> home k = i \<and> unat (m_sender h) < length (sp_q s) \<and>
     unat (m_sender h) \<noteq> i"
| "msg_good s i (PutMsg h k v) \<longleftrightarrow> Key_ok k \<and> Value_ok v \<and> home k = i \<and> (k, v) \<in> sp_puts s"
| "msg_good s i (ReplyDataMsg h k v) \<longleftrightarrow> Key_ok k \<and> Value_ok v \<and> home k \<noteq> i \<and> home k < length (sp_q s) \<and>
     (k, v) \<in> sp_puts s"
| "msg_good s i (DoneMsg h) \<longleftrightarrow> i = 0 \<and> unat (m_sender h) < length (sp_q s) \<and> \<not> sp_done s ! unat (m_sender h)"
| "msg_good s i (TeardownMsg h) \<longleftrightarrow> True"
| "msg_good s i _ \<longleftrightarrow> False"

text \<open>A message in the cache of node \<open>i\<close> under \<open>k\<close>: a parked request or the awaited reply.\<close>

definition cached_good :: "Spec \<Rightarrow> nat \<Rightarrow> Key \<Rightarrow> Msg \<Rightarrow> bool" where
  "cached_good s i k m \<longleftrightarrow> Key_ok k \<and>
     (if home k = i
      then (\<exists>h. m = WaitAndGetMsg h k \<and> unat (m_sender h) < length (sp_q s) \<and> unat (m_sender h) \<noteq> i) \<and>
        sp_store s i (k_str k) = None
      else (\<exists>h v. m = ReplyDataMsg h k v \<and> Value_ok v \<and> (k, v) \<in> sp_puts s) \<and> home k < length (sp_q s))"

definition inv_messages :: "Spec \<Rightarrow> bool" where
  "inv_messages s \<longleftrightarrow> (\<forall>i < length (sp_q s). \<forall>m \<in> set (sp_q s ! i). msg_good s i m)"

definition inv_caches :: "Spec \<Rightarrow> bool" where
  "inv_caches s \<longleftrightarrow> (\<forall>i < length (sp_q s). \<forall>k. \<forall>m \<in> set (sp_cache s i k). cached_good s i k m)"

definition inv_stores :: "Spec \<Rightarrow> bool" where
  "inv_stores s \<longleftrightarrow> (\<forall>i < length (sp_q s). \<forall>x v. sp_store s i x = Some v \<longrightarrow>
     Value_ok v \<and> (\<lparr>k_str = x, k_homeNode = of_nat i\<rparr>, v) \<in> sp_puts s)"

definition inv_tokens :: "Spec \<Rightarrow> bool" where
  "inv_tokens s \<longleftrightarrow> (\<forall>i < length (sp_q s). \<forall>k. home k < length (sp_q s) \<longrightarrow> home k \<noteq> i \<longrightarrow>
     tokens s i k = (if sp_app s i = Waiting k then 1 else 0))"

definition inv_waiting :: "Spec \<Rightarrow> bool" where
  "inv_waiting s \<longleftrightarrow> (\<forall>i < length (sp_q s). \<forall>k. sp_app s i = Waiting k \<longrightarrow>
     Key_ok k \<and> home k < length (sp_q s) \<and> home k \<noteq> i)"

definition inv_got :: "Spec \<Rightarrow> bool" where
  "inv_got s \<longleftrightarrow> (\<forall>(i, k, v) \<in> set (sp_got s). (k, v) \<in> sp_puts s)"

definition inv_done :: "Spec \<Rightarrow> bool" where
  "inv_done s \<longleftrightarrow> length (sp_done s) = length (sp_q s) \<and>
     (\<forall>i < length (sp_q s). (sp_done s ! i \<longrightarrow> sp_app s i = Finished) \<and>
        count (is_done i) (sp_q s ! 0) = (if sp_app s i = Finished \<and> \<not> sp_done s ! i then 1 else 0))"

definition inv_teardown :: "Spec \<Rightarrow> bool" where
  "inv_teardown s \<longleftrightarrow> (\<forall>i < length (sp_q s).
     if list_all id (sp_done s)
     then (if sp_receiving s i
           then \<exists>ms h. sp_q s ! i = ms @ [TeardownMsg h] \<and> \<not> list_ex is_teardown ms
           else sp_q s ! i = [])
     else sp_receiving s i \<and> \<not> list_ex is_teardown (sp_q s ! i))"

definition spec_inv :: "Spec \<Rightarrow> bool" where
  "spec_inv s \<longleftrightarrow> 0 < length (sp_q s) \<and> length (sp_q s) < 2 ^ 64 \<and> inv_messages s \<and> inv_caches s \<and>
     inv_stores s \<and> inv_tokens s \<and> inv_waiting s \<and> inv_got s \<and> inv_done s \<and> inv_teardown s"

end
