(* ===== verification/ClusterInv.thy ===== *)
theory ClusterInv
  imports Cluster
begin

text \<open>
  The invariant of the abstract system is preserved by every enabled action
  (\<open>spec_inv_step\<close>). The lemmas first say what sending, parking and putting do to the
  queues and to the token count, then treat one kind of message at a time.
\<close>

section \<open>Counting\<close>

lemma count_simps [simp]:
  "count P [] = 0" "count P (m # ms) = (if P m then 1 else 0) + count P ms"
  "count P (ms @ ms') = count P ms + count P ms'"
  by (simp_all add: count_def)

lemma count_pos: "m \<in> set ms \<Longrightarrow> P m \<Longrightarrow> 0 < count P ms"
  by (induction ms) auto

lemma count_zero: "(\<And>m. m \<in> set ms \<Longrightarrow> \<not> P m) \<Longrightarrow> count P ms = 0"
  by (induction ms) auto

lemma count_filter: "count P (filter Q ms) = count (\<lambda>m. Q m \<and> P m) ms"
  by (simp add: count_def conj_commute)

lemma count_cong: "(\<And>m. m \<in> set ms \<Longrightarrow> P m = Q m) \<Longrightarrow> count P ms = count Q ms"
  by (simp add: count_def cong: filter_cong)

section \<open>What the operations change\<close>

lemma sp_send_simps [simp]:
  "length (sp_q (sp_send ms s)) = length (sp_q s)" "sp_store (sp_send ms s) = sp_store s"
  "sp_cache (sp_send ms s) = sp_cache s" "sp_app (sp_send ms s) = sp_app s"
  "sp_receiving (sp_send ms s) = sp_receiving s" "sp_done (sp_send ms s) = sp_done s"
  "sp_puts (sp_send ms s) = sp_puts s" "sp_got (sp_send ms s) = sp_got s"
  by (simp_all add: sp_send_def)

lemma sp_send_q [simp]:
  "i < length (sp_q s) \<Longrightarrow> sp_q (sp_send ms s) ! i = sp_q s ! i @ filter (\<lambda>m. unat (getTarget m) = i) ms"
  by (simp add: sp_send_def Pseudo_net.deliver_nth)

lemma sp_send_Nil [simp]: "sp_send [] s = s"
  by (simp add: sp_send_def)

lemma sp_pop_simps [simp]:
  "length (sp_q (sp_pop i s)) = length (sp_q s)" "sp_store (sp_pop i s) = sp_store s"
  "sp_cache (sp_pop i s) = sp_cache s" "sp_app (sp_pop i s) = sp_app s"
  "sp_receiving (sp_pop i s) = sp_receiving s" "sp_done (sp_pop i s) = sp_done s"
  "sp_puts (sp_pop i s) = sp_puts s" "sp_got (sp_pop i s) = sp_got s"
  "j < length (sp_q s) \<Longrightarrow> sp_q (sp_pop i s) ! j = (if j = i then tl (sp_q s ! i) else sp_q s ! j)"
  by (simp_all add: sp_pop_def nth_list_update)

lemma sp_park_simps [simp]:
  "sp_q (sp_park i k m s) = sp_q s" "sp_store (sp_park i k m s) = sp_store s"
  "sp_cache (sp_park i k m s) j k' = (if j = i \<and> k' = k then sp_cache s i k @ [m] else sp_cache s j k')"
  "sp_app (sp_park i k m s) = sp_app s"
  "sp_receiving (sp_park i k m s) = sp_receiving s" "sp_done (sp_park i k m s) = sp_done s"
  "sp_puts (sp_park i k m s) = sp_puts s" "sp_got (sp_park i k m s) = sp_got s"
  by (simp_all add: sp_park_def)

lemma sp_put_simps [simp]:
  "length (sp_q (sp_put i k v s)) = length (sp_q s)"
  "sp_store (sp_put i k v s) = (sp_store s)(i := (sp_store s i)(k_str k \<mapsto> v))"
  "sp_cache (sp_put i k v s) j k' = (if j = i \<and> k' = k then [] else sp_cache s j k')"
  "sp_app (sp_put i k v s) = sp_app s"
  "sp_receiving (sp_put i k v s) = sp_receiving s" "sp_done (sp_put i k v s) = sp_done s"
  "sp_puts (sp_put i k v s) = sp_puts s" "sp_got (sp_put i k v s) = sp_got s"
  "j < length (sp_q s) \<Longrightarrow> sp_q (sp_put i k v s) ! j =
     sp_q s ! j @ filter (\<lambda>m. unat (getTarget m) = j) (replies (of_nat i) k v (sp_cache s i k))"
  by (simp_all add: sp_put_def)

text \<open>The parts of the invariant that do not look at the queues survive a send or a pop.\<close>

lemma inv_send [simp]:
  "inv_caches (sp_send ms s) = inv_caches s" "inv_stores (sp_send ms s) = inv_stores s"
  "inv_waiting (sp_send ms s) = inv_waiting s" "inv_got (sp_send ms s) = inv_got s"
  by (simp_all add: inv_caches_def inv_stores_def inv_waiting_def inv_got_def cached_good_def)

lemma inv_pop [simp]:
  "inv_caches (sp_pop i s) = inv_caches s" "inv_stores (sp_pop i s) = inv_stores s"
  "inv_waiting (sp_pop i s) = inv_waiting s" "inv_got (sp_pop i s) = inv_got s"
  by (simp_all add: inv_caches_def inv_stores_def inv_waiting_def inv_got_def cached_good_def)

lemma msg_good_mono:
  "msg_good s i m \<Longrightarrow> length (sp_q s') = length (sp_q s) \<Longrightarrow> sp_puts s \<subseteq> sp_puts s' \<Longrightarrow>
   sp_done s' = sp_done s \<Longrightarrow> msg_good s' i m"
  by (cases m) auto

lemma inv_messages_frame:
  assumes "inv_messages s" and "sp_q s' = sp_q s" and "sp_puts s \<subseteq> sp_puts s'" and "sp_done s' = sp_done s"
  shows "inv_messages s'"
  unfolding inv_messages_def
proof (intro allI impI ballI)
  fix i m assume "i < length (sp_q s')" "m \<in> set (sp_q s' ! i)"
  with assms have "msg_good s i m" by (simp add: inv_messages_def)
  then show "msg_good s' i m" by (rule msg_good_mono) (use assms in simp_all)
qed

lemma inv_caches_frame:
  assumes "inv_caches s" and "length (sp_q s') = length (sp_q s)" and "sp_cache s' = sp_cache s"
    and "sp_store s' = sp_store s" and "sp_puts s \<subseteq> sp_puts s'"
  shows "inv_caches s'"
  unfolding inv_caches_def
proof (intro allI impI ballI)
  fix i k m assume "i < length (sp_q s')" "m \<in> set (sp_cache s' i k)"
  with assms have "cached_good s i k m" by (simp add: inv_caches_def)
  with assms show "cached_good s' i k m" by (auto simp: cached_good_def subset_iff)
qed

lemma inv_messages_send:
  assumes "inv_messages s" and "\<forall>m \<in> set ms. msg_good s (unat (getTarget m)) m"
  shows "inv_messages (sp_send ms s)"
  unfolding inv_messages_def
proof (intro allI impI ballI)
  fix i m assume "i < length (sp_q (sp_send ms s))" "m \<in> set (sp_q (sp_send ms s) ! i)"
  with assms have "msg_good s i m" by (auto simp: inv_messages_def)
  then show "msg_good (sp_send ms s) i m" by (rule msg_good_mono) simp_all
qed

lemma inv_messages_pop:
  assumes "inv_messages s"
  shows "inv_messages (sp_pop i s)"
  unfolding inv_messages_def
proof (intro allI impI ballI)
  fix j m assume "j < length (sp_q (sp_pop i s))" "m \<in> set (sp_q (sp_pop i s) ! j)"
  with assms have "msg_good s j m"
    by (cases "sp_q s ! i") (auto simp: inv_messages_def split: if_splits)
  then show "msg_good (sp_pop i s) j m" by (rule msg_good_mono) simp_all
qed

lemma tokens_send:
  assumes "i < length (sp_q s)" and "home k < length (sp_q s)"
  shows "tokens (sp_send ms s) i k = tokens s i k +
    count (\<lambda>m. unat (getTarget m) = home k \<and> is_req i k m) ms +
    count (\<lambda>m. unat (getTarget m) = i \<and> is_rep k m) ms"
  using assms by (simp add: tokens_def count_filter)

lemma tokens_pop:
  assumes "j < length (sp_q s)" and "home k < length (sp_q s)" and "sp_q s ! i = m # rest"
  shows "tokens s j k = tokens (sp_pop i s) j k +
    (if home k = i \<and> is_req j k m then 1 else 0) + (if j = i \<and> is_rep k m then 1 else 0)"
  using assms by (auto simp: tokens_def)

lemma tokens_park:
  assumes "home k \<noteq> j"
  shows "tokens (sp_park i k' m s) j k = tokens s j k +
    (if home k = i \<and> k' = k \<and> is_req j k m then 1 else 0) + (if j = i \<and> k' = k then 1 else 0)"
  using assms by (auto simp: tokens_def)

text \<open>\<open>put\<close> turns every parked request into one reply to its sender.\<close>

lemma count_replies:
  "\<forall>m \<in> set ms. is_WaitAndGet m \<Longrightarrow>
   count (\<lambda>m. unat (getTarget m) = j \<and> is_rep k m) (replies me k v ms) =
   count (\<lambda>m. unat (getSender m) = j) ms"
  by (induction ms) (simp_all add: replies_def)

lemma tokens_put:
  assumes j: "j < length (sp_q s)" and k: "home k < length (sp_q s)" "home k \<noteq> j" and i: "home k0 = i"
    and w: "\<forall>m \<in> set (sp_cache s i k0). \<exists>h. m = WaitAndGetMsg h k0"
  shows "tokens (sp_put i k0 v s) j k = tokens s j k"
proof -
  let ?r = "replies (of_nat i) k0 v (sp_cache s i k0)"
  have req: "count (\<lambda>m. unat (getTarget m) = home k \<and> is_req j k m) ?r = 0"
    by (rule count_zero) (auto simp: replies_def)
  have rep: "count (\<lambda>m. unat (getTarget m) = j \<and> is_rep k m) ?r =
      (if k = k0 then count (is_req j k) (sp_cache s i k0) else 0)"
  proof (cases "k = k0")
    case True
    have "count (\<lambda>m. unat (getTarget m) = j \<and> is_rep k0 m) ?r = count (\<lambda>m. unat (getSender m) = j) (sp_cache s i k0)"
      using w by (intro count_replies) fastforce
    also have "\<dots> = count (is_req j k0) (sp_cache s i k0)"
      using w by (intro count_cong) (auto simp: getSender_def)
    finally show ?thesis using True by simp
  next
    case False
    then have "count (\<lambda>m. unat (getTarget m) = j \<and> is_rep k m) ?r = 0"
      by (intro count_zero) (auto simp: replies_def)
    with False show ?thesis by simp
  qed
  show ?thesis
    using j k i by (auto simp: tokens_def count_filter req rep)
qed

section \<open>What the token count tells\<close>

lemma token_waiting:
  assumes "inv_tokens s" and "i < length (sp_q s)" and "home k < length (sp_q s)" and "home k \<noteq> i"
    and "0 < tokens s i k"
  shows "sp_app s i = Waiting k"
  using assms by (auto simp: inv_tokens_def split: if_splits)

lemma spec_invD:
  assumes "spec_inv s"
  shows "0 < length (sp_q s)" "length (sp_q s) < 2 ^ 64" "inv_messages s" "inv_caches s" "inv_stores s"
    "inv_tokens s" "inv_waiting s" "inv_got s" "inv_done s" "inv_teardown s"
  using assms by (simp_all add: spec_inv_def)

lemma queued_good: "spec_inv s \<Longrightarrow> i < length (sp_q s) \<Longrightarrow> m \<in> set (sp_q s ! i) \<Longrightarrow> msg_good s i m"
  by (simp add: spec_inv_def inv_messages_def)

lemma cached_goodD: "spec_inv s \<Longrightarrow> i < length (sp_q s) \<Longrightarrow> m \<in> set (sp_cache s i k) \<Longrightarrow> cached_good s i k m"
  by (simp add: spec_inv_def inv_caches_def)

text \<open>Nothing is on its way for a node that is not waiting.\<close>

lemma queued_waiting:
  assumes inv: "spec_inv s" and i: "i < length (sp_q s)"
  shows "WaitAndGetMsg h k \<in> set (sp_q s ! i) \<Longrightarrow> sp_app s (unat (m_sender h)) = Waiting k"
    and "ReplyDataMsg h k v \<in> set (sp_q s ! i) \<Longrightarrow> sp_app s i = Waiting k"
proof -
  note t = spec_invD(6) [OF inv]
  {
    assume m: "WaitAndGetMsg h k \<in> set (sp_q s ! i)"
    note g = queued_good [OF inv i m, simplified]
    have "0 < count (is_req (unat (m_sender h)) k) (sp_q s ! home k)"
      using m g by (intro count_pos [of "WaitAndGetMsg h k"]) auto
    then show "sp_app s (unat (m_sender h)) = Waiting k"
      using g i by (intro token_waiting [OF t]) (auto simp: tokens_def)
  }
  {
    assume m: "ReplyDataMsg h k v \<in> set (sp_q s ! i)"
    note g = queued_good [OF inv i m, simplified]
    have "0 < count (is_rep k) (sp_q s ! i)" using m by (intro count_pos [of "ReplyDataMsg h k v"]) auto
    then show "sp_app s i = Waiting k"
      using g i by (intro token_waiting [OF t]) (auto simp: tokens_def)
  }
qed

lemma cached_waiting:
  assumes inv: "spec_inv s" and i: "i < length (sp_q s)" and m: "m \<in> set (sp_cache s i k)"
  shows "home k = i \<Longrightarrow> sp_app s (unat (getSender m)) = Waiting k"
    and "home k \<noteq> i \<Longrightarrow> sp_app s i = Waiting k"
proof -
  note t = spec_invD(6) [OF inv] and g = cached_goodD [OF inv i m, unfolded cached_good_def]
  {
    assume h: "home k = i"
    then obtain h where mh: "m = WaitAndGetMsg h k" "unat (m_sender h) < length (sp_q s)" "unat (m_sender h) \<noteq> i"
      using g by auto
    have "0 < count (is_req (unat (m_sender h)) k) (sp_cache s (home k) k)"
      using m mh h by (intro count_pos [of m]) auto
    then show "sp_app s (unat (getSender m)) = Waiting k"
      using mh h i by (simp add: getSender_def, intro token_waiting [OF t]) (auto simp: tokens_def)
  }
  {
    assume h: "home k \<noteq> i"
    have "0 < length (sp_cache s i k)" using m by (cases "sp_cache s i k") auto
    then show "sp_app s i = Waiting k"
      using g h i by (intro token_waiting [OF t]) (auto simp: tokens_def)
  }
qed

text \<open>When all nodes are done nothing but \<open>Put\<close> and \<open>Teardown\<close> is left, and the caches are empty.\<close>

lemma all_done:
  assumes inv: "spec_inv s" and d: "list_all id (sp_done s)"
  shows "i < length (sp_q s) \<Longrightarrow> sp_app s i = Finished"
    and "i < length (sp_q s) \<Longrightarrow> sp_cache s i k = []"
    and "i < length (sp_q s) \<Longrightarrow> m \<in> set (sp_q s ! i) \<Longrightarrow> is_teardown m \<or> (\<exists>h k v. m = PutMsg h k v)"
proof -
  have fin: "sp_app s i = Finished" if "i < length (sp_q s)" for i
    using spec_invD(9) [OF inv] d that by (auto simp: inv_done_def list_all_length)
  then show "i < length (sp_q s) \<Longrightarrow> sp_app s i = Finished" .
  show "sp_cache s i k = []" if i: "i < length (sp_q s)"
  proof (rule ccontr)
    assume "sp_cache s i k \<noteq> []"
    then obtain m where m: "m \<in> set (sp_cache s i k)" by (cases "sp_cache s i k") auto
    note g = cached_goodD [OF inv i m, unfolded cached_good_def]
    show False
    proof (cases "home k = i")
      case True
      with g have "unat (getSender m) < length (sp_q s)" by (auto simp: getSender_def)
      with fin cached_waiting(1) [OF inv i m True] show False by force
    next
      case False
      with fin [OF i] cached_waiting(2) [OF inv i m] show False by simp
    qed
  qed
  show "is_teardown m \<or> (\<exists>h k v. m = PutMsg h k v)" if i: "i < length (sp_q s)" and m: "m \<in> set (sp_q s ! i)"
  proof (cases m)
    case (WaitAndGetMsg h k)
    with queued_waiting(1) [OF inv i] queued_good [OF inv i m] m fin show ?thesis by force
  next
    case (ReplyDataMsg h k v)
    with queued_waiting(2) [OF inv i] m fin [OF i] show ?thesis by force
  next
    case (DoneMsg h)
    with queued_good [OF inv i m] d spec_invD(9) [OF inv] show ?thesis
      by (auto simp: list_all_length inv_done_def)
  qed (use queued_good [OF inv i m] in auto)
qed

section \<open>One kind of message at a time\<close>

lemma inv_done_cong:
  assumes "inv_done s" and "length (sp_q s') = length (sp_q s)" and "sp_app s' = sp_app s"
    and "sp_done s' = sp_done s" and "\<And>j. count (is_done j) (sp_q s' ! 0) = count (is_done j) (sp_q s ! 0)"
  shows "inv_done s'"
  using assms by (simp add: inv_done_def)

lemma inv_teardown_cong:
  assumes "inv_teardown s" and "\<not> list_all id (sp_done s)" and "length (sp_q s') = length (sp_q s)"
    and "sp_done s' = sp_done s" and "sp_receiving s' = sp_receiving s"
    and "\<And>j. j < length (sp_q s) \<Longrightarrow> list_ex is_teardown (sp_q s' ! j) \<Longrightarrow> list_ex is_teardown (sp_q s ! j)"
  shows "inv_teardown s'"
  using assms by (auto simp: inv_teardown_def)

lemma teardownD:
  "inv_teardown s \<Longrightarrow> list_all id (sp_done s) \<Longrightarrow> i < length (sp_q s) \<Longrightarrow> sp_receiving s i \<Longrightarrow>
   \<exists>ms h. sp_q s ! i = ms @ [TeardownMsg h] \<and> \<not> list_ex is_teardown ms"
  "inv_teardown s \<Longrightarrow> \<not> list_all id (sp_done s) \<Longrightarrow> i < length (sp_q s) \<Longrightarrow>
   sp_receiving s i \<and> \<not> list_ex is_teardown (sp_q s ! i)"
  by (auto simp: inv_teardown_def dest!: spec [of _ i])

lemma list_ex_tl: "list_ex P (tl xs) \<Longrightarrow> list_ex P xs"
  by (cases xs) auto

lemma no_teardown: "(\<And>m. m \<in> set ms \<Longrightarrow> \<not> is_teardown m) \<Longrightarrow> \<not> list_ex is_teardown ms"
  by (auto simp: list_ex_iff)

lemma replies_simps [simp]:
  "m \<in> set (replies me k v ms) \<Longrightarrow> \<not> is_teardown m"
  "m \<in> set (replies me k v ms) \<Longrightarrow> \<not> is_done j m"
  by (auto simp: replies_def)

lemma not_all_done:
  assumes "spec_inv s" and "i < length (sp_q s)" and "m \<in> set (sp_q s ! i)"
    and "\<not> is_teardown m" and "\<And>h k v. m \<noteq> PutMsg h k v"
  shows "\<not> list_all id (sp_done s)"
  using all_done(3) [OF assms(1) _ assms(2,3)] assms(4,5) by blast

lemma spec_inv_WaitAndGet:
  assumes inv: "spec_inv s" and i: "i < length (sp_q s)" and q: "sp_q s ! i = WaitAndGetMsg h k # rest"
  shows "spec_inv (sp_handle i (WaitAndGetMsg h k) (sp_pop i s))"
proof -
  note D = spec_invD [OF inv]
  let ?s = "sp_pop i s" and ?m = "WaitAndGetMsg h k"
  have g: "Key_ok k" "home k = i" "unat (m_sender h) < length (sp_q s)" "unat (m_sender h) \<noteq> i"
    using queued_good [OF inv i, of ?m] q by auto
  have nd: "\<not> list_all id (sp_done s)" using not_all_done [OF inv i, of ?m] q by simp
  note tp = tokens_pop [where s = s and i = i, OF _ _ q]
  show ?thesis
  proof (cases "sp_store s i (k_str k)")
    case None
    let ?t = "sp_park i k ?m ?s"
    have c: "inv_caches ?t"
      using D(4) g None by (auto simp: inv_caches_def cached_good_def)
    have t: "inv_tokens ?t"
      using D(6) g tp by (auto simp: inv_tokens_def tokens_park split: if_splits)
    have m: "inv_messages ?t"
      unfolding inv_messages_def
    proof (intro allI impI ballI)
      fix j x assume "j < length (sp_q ?t)" "x \<in> set (sp_q ?t ! j)"
      then have "msg_good ?s j x" using inv_messages_pop [OF D(3), of i] by (simp add: inv_messages_def)
      then show "msg_good ?t j x" by (rule msg_good_mono) simp_all
    qed
    have dn: "inv_done ?t" by (rule inv_done_cong [OF D(9)]) (use D(1) q in auto)
    have td: "inv_teardown ?t"
      by (rule inv_teardown_cong [OF D(10) nd]) (auto dest: list_ex_tl split: if_splits)
    show ?thesis
      using None c t m dn td D by (simp add: spec_inv_def inv_stores_def inv_waiting_def inv_got_def)
  next
    case (Some v)
    let ?r = "ReplyDataMsg (Message_new ReplyData (of_nat i) (m_sender h)) k v"
    let ?t = "sp_send [?r] ?s"
    have kv: "Value_ok v" "(k, v) \<in> sp_puts s"
    proof -
      have "(\<lparr>k_str = k_str k, k_homeNode = of_nat i\<rparr>, v) \<in> sp_puts s" and "Value_ok v"
        using D(5) i Some by (auto simp: inv_stores_def)
      moreover have "\<lparr>k_str = k_str k, k_homeNode = of_nat i\<rparr> = k"
        using g(2) by (cases k) (auto simp: home_def)
      ultimately show "Value_ok v" "(k, v) \<in> sp_puts s" by simp_all
    qed
    have m: "inv_messages ?t"
      using g kv i by (intro inv_messages_send inv_messages_pop D(3)) auto
    have t: "inv_tokens ?t"
      using D(6) g tp by (auto simp: inv_tokens_def tokens_send split: if_splits)
    have dn: "inv_done ?t" by (rule inv_done_cong [OF D(9)]) (use D(1) q in auto)
    have td: "inv_teardown ?t"
      by (rule inv_teardown_cong [OF D(10) nd]) (auto dest: list_ex_tl split: if_splits)
    show ?thesis using Some m t dn td D by (simp add: spec_inv_def)
  qed
qed

lemma spec_inv_ReplyData:
  assumes inv: "spec_inv s" and i: "i < length (sp_q s)" and q: "sp_q s ! i = ReplyDataMsg h k v # rest"
  shows "spec_inv (sp_handle i (ReplyDataMsg h k v) (sp_pop i s))"
proof -
  note D = spec_invD [OF inv]
  let ?s = "sp_pop i s" and ?m = "ReplyDataMsg h k v"
  have g: "Key_ok k" "Value_ok v" "home k \<noteq> i" "home k < length (sp_q s)" "(k, v) \<in> sp_puts s"
    using queued_good [OF inv i, of ?m] q by auto
  have nd: "\<not> list_all id (sp_done s)" using not_all_done [OF inv i, of ?m] q by simp
  note tp = tokens_pop [where s = s and i = i, OF _ _ q]
  let ?t = "sp_park i k ?m ?s"
  have c: "inv_caches ?t"
    using D(4) g by (auto simp: inv_caches_def cached_good_def)
  have t: "inv_tokens ?t"
    using D(6) g tp by (auto simp: inv_tokens_def tokens_park split: if_splits)
  have m: "inv_messages ?t"
    unfolding inv_messages_def
  proof (intro allI impI ballI)
    fix j x assume "j < length (sp_q ?t)" "x \<in> set (sp_q ?t ! j)"
    then have "msg_good ?s j x" using inv_messages_pop [OF D(3), of i] by (simp add: inv_messages_def)
    then show "msg_good ?t j x" by (rule msg_good_mono) simp_all
  qed
  have dn: "inv_done ?t" by (rule inv_done_cong [OF D(9)]) (use D(1) q in auto)
  have td: "inv_teardown ?t"
    by (rule inv_teardown_cong [OF D(10) nd]) (auto dest: list_ex_tl split: if_splits)
  show ?thesis
    using c t m dn td D by (simp add: spec_inv_def inv_stores_def inv_waiting_def inv_got_def)
qed

text \<open>\<open>put\<close> on the home node of the key, in any state that satisfies the parts of the invariant it needs.\<close>

lemma sp_put_parts:
  assumes "inv_messages s" and c: "inv_caches s" and "inv_stores s"
    and i: "i < length (sp_q s)" and k: "Key_ok k" "home k = i" "Value_ok v" "(k, v) \<in> sp_puts s"
  shows "inv_messages (sp_put i k v s)" and "inv_caches (sp_put i k v s)" and "inv_stores (sp_put i k v s)"
    and "j < length (sp_q s) \<Longrightarrow> home k' < length (sp_q s) \<Longrightarrow> home k' \<noteq> j \<Longrightarrow>
      tokens (sp_put i k v s) j k' = tokens s j k'"
proof -
  have w: "\<forall>m \<in> set (sp_cache s i k). \<exists>h. m = WaitAndGetMsg h k \<and> unat (m_sender h) < length (sp_q s) \<and> unat (m_sender h) \<noteq> i"
    using c i k(2) by (auto simp: inv_caches_def cached_good_def)
  let ?u = "s\<lparr>sp_store := (sp_store s)(i := (sp_store s i)(k_str k \<mapsto> v)),
          sp_cache := (sp_cache s)(i := (sp_cache s i)(k := []))\<rparr>"
  have "inv_messages ?u"
    unfolding inv_messages_def
  proof (intro allI impI ballI)
    fix j x assume "j < length (sp_q ?u)" "x \<in> set (sp_q ?u ! j)"
    then have "msg_good s j x" using assms(1) by (simp add: inv_messages_def)
    then show "msg_good ?u j x" by (rule msg_good_mono) simp_all
  qed
  moreover have "\<forall>m \<in> set (replies (of_nat i) k v (sp_cache s i k)). msg_good ?u (unat (getTarget m)) m"
    using w k i by (auto simp: replies_def getSender_def)
  ultimately show "inv_messages (sp_put i k v s)"
    unfolding sp_put_def by (rule inv_messages_send)
  have str: "k' = k" if "k_str k' = k_str k" "home k' = home k" for k'
    using that by (cases k; cases k') (auto simp: home_def word_unat_eq_iff)
  show "inv_caches (sp_put i k v s)"
    using c k str by (auto simp: inv_caches_def cached_good_def split: if_splits)
  have "\<lparr>k_str = k_str k, k_homeNode = of_nat i\<rparr> = k"
    using k(2) by (cases k) (auto simp: home_def)
  then show "inv_stores (sp_put i k v s)"
    using assms(3) k by (auto simp: inv_stores_def)
  show "tokens (sp_put i k v s) j k' = tokens s j k'"
    if "j < length (sp_q s)" "home k' < length (sp_q s)" "home k' \<noteq> j"
    using that w by (intro tokens_put [OF that k(2)]) blast
qed

lemma spec_inv_Put:
  assumes inv: "spec_inv s" and i: "i < length (sp_q s)" and q: "sp_q s ! i = PutMsg h k v # rest"
    and rt: "sp_receiving s i"
  shows "spec_inv (sp_handle i (PutMsg h k v) (sp_pop i s))"
proof -
  note D = spec_invD [OF inv]
  let ?s = "sp_pop i s" and ?m = "PutMsg h k v"
  have g: "Key_ok k" "Value_ok v" "home k = i" "(k, v) \<in> sp_puts s"
    using queued_good [OF inv i, of ?m] q by auto
  let ?t = "sp_put i k v ?s"
  have P: "inv_messages ?t" "inv_caches ?t" "inv_stores ?t"
    "j < length (sp_q s) \<Longrightarrow> home k' < length (sp_q s) \<Longrightarrow> home k' \<noteq> j \<Longrightarrow> tokens ?t j k' = tokens ?s j k'" for j k'
    using sp_put_parts [of ?s i k v] inv_messages_pop [OF D(3), of i] D(4,5) i g by simp_all
  have t: "inv_tokens ?t"
    using D(6) P(4) tokens_pop [where s = s and i = i, OF _ _ q] by (auto simp: inv_tokens_def)
  have "count (is_done j) (replies (of_nat i) k v (sp_cache s i k)) = 0" for j
    by (rule count_zero) simp
  then have "count (is_done j) (filter (\<lambda>m. unat (getTarget m) = 0) (replies (of_nat i) k v (sp_cache s i k))) = 0" for j
    by (intro count_zero) auto
  then have dn: "inv_done ?t" by (intro inv_done_cong [OF D(9)]) (use D(1) q in auto)
  have td: "inv_teardown ?t"
  proof (cases "list_all id (sp_done s)")
    case True
    have cache: "sp_cache s i k = []" by (rule all_done(2) [OF inv True i])
    have "replies (of_nat i) k v [] = []" by (simp add: replies_def)
    moreover have "\<exists>ms h. rest = ms @ [TeardownMsg h] \<and> \<not> list_ex is_teardown ms"
    proof -
      obtain ms h' where "PutMsg h k v # rest = ms @ [TeardownMsg h']" "\<not> list_ex is_teardown ms"
        using teardownD(1) [OF D(10) True i rt] q by metis
      then show ?thesis by (cases ms) auto
    qed
    ultimately show ?thesis using D(10) True q cache rt i by (auto simp: inv_teardown_def)
  next
    case False
    show ?thesis
    proof (rule inv_teardown_cong [OF D(10) False])
      fix j assume "j < length (sp_q s)" "list_ex is_teardown (sp_q ?t ! j)"
      then show "list_ex is_teardown (sp_q s ! j)"
        using no_teardown [of "replies (of_nat i) k v (sp_cache s i k)"]
        by (auto simp: list_ex_iff split: if_splits dest: list.set_sel(2) [rotated]) (use q in auto)
    qed simp_all
  qed
  show ?thesis using P t dn td D by (simp add: spec_inv_def inv_waiting_def inv_got_def)
qed

lemma spec_inv_Teardown:
  assumes inv: "spec_inv s" and i: "i < length (sp_q s)" and q: "sp_q s ! i = TeardownMsg h # rest"
    and rt: "sp_receiving s i"
  shows "spec_inv (sp_handle i (TeardownMsg h) (sp_pop i s))"
proof -
  note D = spec_invD [OF inv]
  let ?t = "(sp_pop i s)\<lparr>sp_receiving := (sp_receiving s)(i := False)\<rparr>"
  have ad: "list_all id (sp_done s)"
    using teardownD(2) [OF D(10) _ i] q by auto
  obtain ms h' where "TeardownMsg h # rest = ms @ [TeardownMsg h']" "\<not> list_ex is_teardown ms"
    using teardownD(1) [OF D(10) ad i rt] q by metis
  then have rest: "rest = []" by (cases ms) auto
  have td: "inv_teardown ?t"
    using D(10) ad rest q i by (auto simp: inv_teardown_def)
  have dn: "inv_done ?t" by (rule inv_done_cong [OF D(9)]) (use D(1) q in auto)
  have m: "inv_messages ?t"
    unfolding inv_messages_def
  proof (intro allI impI ballI)
    fix j x assume "j < length (sp_q ?t)" "x \<in> set (sp_q ?t ! j)"
    then have "msg_good (sp_pop i s) j x" using inv_messages_pop [OF D(3), of i] by (simp add: inv_messages_def)
    then show "msg_good ?t j x" by (rule msg_good_mono) simp_all
  qed
  have "tokens ?t l k = tokens (sp_pop i s) l k" for l k by (simp add: tokens_def)
  then have t: "inv_tokens ?t"
    using D(6) tokens_pop [where s = s and i = i, OF _ _ q] by (auto simp: inv_tokens_def)
  show ?thesis
    using td dn m t D
    by (simp add: spec_inv_def inv_caches_def cached_good_def inv_stores_def inv_waiting_def inv_got_def)
qed

lemma list_all_update: "i < length xs \<Longrightarrow> list_all id (xs[i := True]) \<Longrightarrow> j < length xs \<Longrightarrow> j \<noteq> i \<Longrightarrow> xs ! j"
  by (metis id_apply length_list_update list_all_length nth_list_update_neq)

lemma spec_inv_Done:
  assumes inv: "spec_inv s" and i: "i < length (sp_q s)" and q: "sp_q s ! i = DoneMsg h # rest"
  shows "spec_inv (sp_handle i (DoneMsg h) (sp_pop i s))"
proof -
  note D = spec_invD [OF inv]
  define j where "j = unat (m_sender h)"
  have g: "i = 0" "j < length (sp_q s)" "\<not> sp_done s ! j"
    using queued_good [OF inv i, of "DoneMsg h"] q by (auto simp: j_def)
  have nd: "\<not> list_all id (sp_done s)" using not_all_done [OF inv i, of "DoneMsg h"] q by simp
  have len: "length (sp_done s) = length (sp_q s)" using D(9) by (simp add: inv_done_def)
  have cnt: "count (is_done j) (sp_q s ! 0) = 1" "sp_app s j = Finished"
  proof -
    have "0 < count (is_done j) (sp_q s ! 0)" using q g(1) by (simp add: j_def)
    moreover have "count (is_done j) (sp_q s ! 0) = (if sp_app s j = Finished \<and> \<not> sp_done s ! j then 1 else 0)"
      using D(9) g(2) by (simp add: inv_done_def)
    ultimately show "count (is_done j) (sp_q s ! 0) = 1" "sp_app s j = Finished" by (auto split: if_splits)
  qed
  define u where "u = (sp_pop i s)\<lparr>sp_done := (sp_done s)[j := True]\<rparr>"
  have m: "inv_messages u"
    unfolding inv_messages_def
  proof (intro allI impI ballI)
    fix l x assume l: "l < length (sp_q u)" and x: "x \<in> set (sp_q u ! l)"
    then have gx: "msg_good (sp_pop i s) l x"
      using inv_messages_pop [OF D(3), of i] by (simp add: inv_messages_def u_def)
    show "msg_good u l x"
    proof (cases x)
      case (DoneMsg h')
      have "unat (m_sender h') \<noteq> j"
      proof
        assume eq: "unat (m_sender h') = j"
        have "l = 0" using gx DoneMsg by simp
        then have "DoneMsg h' \<in> set rest" using x DoneMsg q g(1) l by (auto simp: u_def)
        then have "0 < count (is_done j) rest" using eq by (intro count_pos [of "DoneMsg h'"]) auto
        with cnt(1) q g(1) show False by (simp add: j_def)
      qed
      with gx DoneMsg show ?thesis by (simp add: u_def)
    qed (use gx in \<open>simp_all add: u_def\<close>)
  qed
  have "tokens u l k = tokens (sp_pop i s) l k" for l k by (simp add: tokens_def u_def)
  then have t: "inv_tokens u"
    using D(6) tokens_pop [where s = s and i = i, OF _ _ q] by (auto simp: inv_tokens_def u_def)
  have dn: "inv_done u"
    unfolding inv_done_def
  proof (intro conjI allI impI)
    show "length (sp_done u) = length (sp_q u)" by (simp add: u_def len)
  next
    fix l assume l: "l < length (sp_q u)"
    have old: "(sp_done s ! l \<longrightarrow> sp_app s l = Finished) \<and>
        count (is_done l) (sp_q s ! 0) = (if sp_app s l = Finished \<and> \<not> sp_done s ! l then 1 else 0)"
      using D(9) l by (simp add: inv_done_def u_def)
    show "sp_app u l = Finished" if "sp_done u ! l"
      using that old cnt(2) by (cases "l = j") (auto simp: u_def)
    show "count (is_done l) (sp_q u ! 0) = (if sp_app u l = Finished \<and> \<not> sp_done u ! l then 1 else 0)"
      using old cnt q g len D(1) by (cases "l = j") (auto simp: u_def j_def)
  qed
  have rest: "inv_caches u \<and> inv_stores u \<and> inv_waiting u \<and> inv_got u"
    using D by (simp add: inv_caches_def cached_good_def inv_stores_def inv_waiting_def inv_got_def u_def)
  have notd: "sp_receiving s l" "\<not> list_ex is_teardown (sp_q u ! l)" if "l < length (sp_q s)" for l
    using D(10) nd that list_ex_tl by (auto simp: inv_teardown_def u_def)
  show ?thesis
  proof (cases "list_all id (sp_done u)")
    case False
    then have "inv_teardown u" using notd by (simp add: inv_teardown_def) (simp add: u_def)
    with False m t dn rest D show ?thesis by (simp add: spec_inv_def u_def j_def Let_def)
  next
    case True
    define w where "w = u\<lparr>sp_q := map (\<lambda>j. sp_q u ! j @ [new_TeardownMsg 0 (of_nat j)]) [0..<length (sp_q u)]\<rparr>"
    have qw: "length (sp_q w) = length (sp_q u)"
      "l < length (sp_q u) \<Longrightarrow> sp_q w ! l = sp_q u ! l @ [new_TeardownMsg 0 (of_nat l)]" for l
      by (simp_all add: w_def)
    have td: "inv_teardown w"
      using True notd qw
      by (auto simp: inv_teardown_def new_TeardownMsg_def) (auto simp: w_def u_def)
    have mw: "inv_messages w"
      unfolding inv_messages_def
    proof (intro allI impI ballI)
      fix l x assume "l < length (sp_q w)" "x \<in> set (sp_q w ! l)"
      then have "msg_good u l x \<or> is_teardown x" using m qw by (auto simp: inv_messages_def new_TeardownMsg_def)
      then show "msg_good w l x"
      proof
        assume "msg_good u l x" then show ?thesis by (rule msg_good_mono) (simp_all add: w_def)
      next
        assume "is_teardown x" then show ?thesis by (cases x) auto
      qed
    qed
    have "tokens w l k = tokens u l k" if "l < length (sp_q u)" "home k < length (sp_q u)" for l k
      using that qw by (simp add: tokens_def new_TeardownMsg_def) (simp add: w_def)
    then have tw: "inv_tokens w" using t qw(1) by (simp add: inv_tokens_def) (simp add: w_def)
    have dw: "inv_done w"
    proof (rule inv_done_cong [OF dn])
      fix l show "count (is_done l) (sp_q w ! 0) = count (is_done l) (sp_q u ! 0)"
        using D(1) by (simp add: w_def u_def new_TeardownMsg_def)
    qed (simp_all add: w_def)
    have rw: "inv_caches w \<and> inv_stores w \<and> inv_waiting w \<and> inv_got w"
      using rest by (simp add: inv_caches_def cached_good_def inv_stores_def inv_waiting_def inv_got_def w_def)
    have "spec_inv w" using td mw tw dw rw D(1,2) qw(1) by (simp add: spec_inv_def u_def)
    moreover have "sp_handle i (DoneMsg h) (sp_pop i s) = w"
      using True by (simp add: u_def j_def w_def Let_def)
    ultimately show ?thesis by simp
  qed
qed

section \<open>The application threads\<close>

lemma running_not_all_done:
  assumes "spec_inv s" and "i < length (sp_q s)" and "sp_app s i \<noteq> Finished"
  shows "\<not> list_all id (sp_done s)"
  using all_done(1) [OF assms(1) _ assms(2)] assms(3) by blast

lemma spec_inv_app_put:
  assumes inv: "spec_inv s" and e: "enabled (AppPut i k v) s"
  shows "spec_inv (sp_step (AppPut i k v) s)"
proof -
  note D = spec_invD [OF inv]
  have i: "i < length (sp_q s)" and a: "Key_ok k" "Value_ok v" "home k < length (sp_q s)"
    and run: "sp_app s i = Running" using e by simp_all
  have nd: "\<not> list_all id (sp_done s)" using running_not_all_done [OF inv i] run by simp
  let ?s = "s\<lparr>sp_puts := insert (k, v) (sp_puts s)\<rparr>"
  have m: "inv_messages ?s" by (rule inv_messages_frame [OF D(3)]) auto
  have c: "inv_caches ?s" "inv_stores ?s" "inv_got ?s"
    using inv_caches_frame [OF D(4), of ?s] D(5,8) by (auto simp: inv_stores_def inv_got_def)
  have tk: "tokens ?s j k' = tokens s j k'" for j k' by (simp add: tokens_def)
  show ?thesis
  proof (cases "home k = i")
    case True
    let ?t = "sp_put i k v ?s"
    note P = sp_put_parts [OF m c(1,2), of i k v]
    have P: "inv_messages ?t" "inv_caches ?t" "inv_stores ?t"
      "j < length (sp_q s) \<Longrightarrow> home k' < length (sp_q s) \<Longrightarrow> home k' \<noteq> j \<Longrightarrow> tokens ?t j k' = tokens s j k'" for j k'
      using P i a True by (simp_all add: tk)
    have "count (is_done j) (filter (\<lambda>m. unat (getTarget m) = 0) (replies (of_nat i) k v (sp_cache s i k))) = 0" for j
      by (intro count_zero) auto
    then have dn: "inv_done ?t" by (intro inv_done_cong [OF D(9)]) (use D(1) in auto)
    have td: "inv_teardown ?t"
      using no_teardown [of "replies (of_nat i) k v (sp_cache s i k)"]
      by (intro inv_teardown_cong [OF D(10) nd]) (auto simp: list_ex_iff)
    have t: "inv_tokens ?t" using D(6) P(4) by (auto simp: inv_tokens_def)
    show ?thesis
      using P(1-3) c(3) dn td t D True by (simp add: spec_inv_def inv_waiting_def inv_got_def Let_def)
  next
    case False
    let ?m = "PutMsg (Message_new Put (of_nat i) (k_homeNode k)) k v"
    let ?t = "sp_send [?m] ?s"
    have mt: "inv_messages ?t" using a by (intro inv_messages_send m) (simp add: home_def)
    have t: "inv_tokens ?t" using D(6) tk by (auto simp: inv_tokens_def tokens_send)
    have dn: "inv_done ?t" by (rule inv_done_cong [OF D(9)]) (use D(1) in auto)
    have td: "inv_teardown ?t" by (rule inv_teardown_cong [OF D(10) nd]) (auto split: if_splits)
    show ?thesis
      using mt t dn td c D False by (simp add: spec_inv_def inv_waiting_def Let_def)
  qed
qed

lemma spec_inv_app_wait:
  assumes inv: "spec_inv s" and e: "enabled (AppWaitAndGet i k) s"
  shows "spec_inv (sp_step (AppWaitAndGet i k) s)"
proof -
  note D = spec_invD [OF inv]
  have i: "i < length (sp_q s)" and a: "Key_ok k" "home k < length (sp_q s)"
    and run: "sp_app s i = Running" and loc: "home k = i \<longrightarrow> sp_store s i (k_str k) \<noteq> None"
    using e by simp_all
  have nd: "\<not> list_all id (sp_done s)" using running_not_all_done [OF inv i] run by simp
  show ?thesis
  proof (cases "home k = i")
    case True
    then obtain v where v: "sp_store s i (k_str k) = Some v" using loc by auto
    have "\<lparr>k_str = k_str k, k_homeNode = of_nat i\<rparr> = k" using True by (cases k) (auto simp: home_def)
    moreover have "(\<lparr>k_str = k_str k, k_homeNode = of_nat i\<rparr>, v) \<in> sp_puts s"
      using D(5) i v by (auto simp: inv_stores_def)
    ultimately have "(k, v) \<in> sp_puts s" by simp
    moreover let ?t = "s\<lparr>sp_got := (i, k, v) # sp_got s\<rparr>"
    have "inv_messages ?t"
      by (rule inv_messages_frame [OF D(3)]) auto
    moreover have "inv_tokens ?t" using D(6) by (simp add: inv_tokens_def tokens_def)
    moreover have "inv_teardown ?t" by (rule inv_teardown_cong [OF D(10) nd]) auto
    moreover have "inv_caches ?t" by (rule inv_caches_frame [OF D(4)]) auto
    ultimately show ?thesis
      using True v D by (simp add: spec_inv_def inv_stores_def inv_waiting_def inv_got_def inv_done_def)
  next
    case False
    let ?m = "WaitAndGetMsg (Message_new WaitAndGet (of_nat i) (k_homeNode k)) k"
    let ?u = "s\<lparr>sp_app := (sp_app s)(i := Waiting k)\<rparr>"
    let ?t = "sp_send [?m] ?u"
    have iw: "unat (of_nat i :: u64) = i" using i D(2) by simp
    have m: "inv_messages ?u"
      by (rule inv_messages_frame [OF D(3)]) auto
    have mt: "inv_messages ?t" using a i iw False by (intro inv_messages_send m) (auto simp: home_def)
    have tk: "tokens ?u j k' = tokens s j k'" for j k' by (simp add: tokens_def)
    have t: "inv_tokens ?t"
      unfolding inv_tokens_def
    proof (intro allI impI)
      fix j k' assume "j < length (sp_q ?t)" and "home k' < length (sp_q ?t)" and ne: "home k' \<noteq> j"
      then have j: "j < length (sp_q s)" "home k' < length (sp_q s)" by simp_all
      have old: "tokens s j k' = (if sp_app s j = Waiting k' then 1 else 0)"
        using D(6) j ne by (simp add: inv_tokens_def)
      show "tokens ?t j k' = (if sp_app ?t j = Waiting k' then 1 else 0)"
        using j old run iw by (auto simp: tokens_send tk home_def)
    qed
    have dn: "inv_done ?t"
      using D(1,9) run by (auto simp: inv_done_def)
    have td: "inv_teardown ?t" by (rule inv_teardown_cong [OF D(10) nd]) (auto split: if_splits)
    show ?thesis
      using mt t dn td D False a
      by (simp add: spec_inv_def inv_waiting_def inv_caches_def cached_good_def inv_stores_def inv_got_def Let_def)
  qed
qed

text \<open>What a node that waits finds in its cache is one reply to its request.\<close>

lemma waiting_cache:
  assumes inv: "spec_inv s" and i: "i < length (sp_q s)" and w: "sp_app s i = Waiting k" and c: "sp_cache s i k \<noteq> []"
  shows "\<exists>h v. sp_cache s i k = [ReplyDataMsg h k v] \<and> Value_ok v \<and> (k, v) \<in> sp_puts s"
proof -
  note D = spec_invD [OF inv]
  have k: "Key_ok k" "home k < length (sp_q s)" "home k \<noteq> i" using D(7) i w by (auto simp: inv_waiting_def)
  have "length (sp_cache s i k) \<le> tokens s i k" by (simp add: tokens_def)
  also have "tokens s i k = 1" using D(6) i k w by (simp add: inv_tokens_def)
  finally obtain m where m: "sp_cache s i k = [m]" using c
    by (metis One_nat_def Suc_leI le_antisym length_0_conv length_Suc_conv length_greater_0_conv)
  then have "cached_good s i k m" using cached_goodD [OF inv i, of m k] by simp
  then show ?thesis using m k by (auto simp: cached_good_def)
qed

lemma spec_inv_app_resume:
  assumes inv: "spec_inv s" and e: "enabled (AppResume i) s"
  shows "spec_inv (sp_step (AppResume i) s)"
proof -
  note D = spec_invD [OF inv]
  have i: "i < length (sp_q s)" using e by simp
  obtain k where w: "sp_app s i = Waiting k" and c: "sp_cache s i k \<noteq> []"
    using e by (auto split: AppState.splits)
  obtain h v where r: "sp_cache s i k = [ReplyDataMsg h k v]" "(k, v) \<in> sp_puts s"
    using waiting_cache [OF inv i w c] by blast
  have k: "home k < length (sp_q s)" "home k \<noteq> i" using D(7) i w by (auto simp: inv_waiting_def)
  let ?t = "s\<lparr>sp_cache := (sp_cache s)(i := (sp_cache s i)(k := [])), sp_app := (sp_app s)(i := Running),
                 sp_got := (i, k, v) # sp_got s\<rparr>"
  have m: "inv_messages ?t"
    by (rule inv_messages_frame [OF D(3)]) auto
  have c: "inv_caches ?t" using D(4) by (auto simp: inv_caches_def cached_good_def split: if_splits)
  have t: "inv_tokens ?t"
    unfolding inv_tokens_def
  proof (intro allI impI)
    fix j k' assume "j < length (sp_q ?t)" and "home k' < length (sp_q ?t)" and ne: "home k' \<noteq> j"
    then have old: "tokens s j k' = (if sp_app s j = Waiting k' then 1 else 0)"
      using D(6) by (simp add: inv_tokens_def)
    have "tokens s j k' = tokens ?t j k' + (if j = i \<and> k' = k then 1 else 0)"
      using r(1) ne k by (auto simp: tokens_def)
    then show "tokens ?t j k' = (if sp_app ?t j = Waiting k' then 1 else 0)"
      using old w by (auto split: if_splits)
  qed
  have dn: "inv_done ?t" using D(9) w i by (auto simp: inv_done_def)
  have td: "inv_teardown ?t"
    by (rule inv_teardown_cong [OF D(10) running_not_all_done [OF inv i]]) (use w in auto)
  show ?thesis
    using w r m c t dn td D by (simp add: spec_inv_def inv_stores_def inv_waiting_def inv_got_def)
qed

lemma spec_inv_app_finish:
  assumes inv: "spec_inv s" and e: "enabled (AppFinish i) s"
  shows "spec_inv (sp_step (AppFinish i) s)"
proof -
  note D = spec_invD [OF inv]
  have i: "i < length (sp_q s)" and run: "sp_app s i = Running" using e by simp_all
  have nd: "\<not> list_all id (sp_done s)" using running_not_all_done [OF inv i] run by simp
  have iw: "unat (of_nat i :: u64) = i" using i D(2) by simp
  let ?m = "new_DoneMsg (of_nat i) serverIndex" and ?u = "s\<lparr>sp_app := (sp_app s)(i := Finished)\<rparr>"
  let ?t = "sp_send [?m] ?u"
  have ndi: "\<not> sp_done s ! i" using D(9) i run by (auto simp: inv_done_def)
  have m: "inv_messages ?u"
    by (rule inv_messages_frame [OF D(3)]) auto
  have mt: "inv_messages ?t"
    using i iw ndi D(1) by (intro inv_messages_send m) (simp add: new_DoneMsg_def serverIndex_def getTarget_def)
  have t: "inv_tokens ?t"
    using D(6) run by (auto simp: inv_tokens_def tokens_send new_DoneMsg_def) (auto simp: tokens_def split: if_splits)
  have dn: "inv_done ?t"
    using D(1,9) run ndi iw i
    by (auto simp: inv_done_def new_DoneMsg_def serverIndex_def getTarget_def)
  have td: "inv_teardown ?t"
    by (rule inv_teardown_cong [OF D(10) nd]) (auto simp: new_DoneMsg_def split: if_splits)
  have w: "inv_waiting ?t" using D(7) by (auto simp: inv_waiting_def)
  show ?thesis
    using mt t dn td w D
    by (simp add: spec_inv_def inv_caches_def cached_good_def inv_stores_def inv_got_def)
qed

section \<open>Every action preserves the invariant\<close>

lemma spec_inv_receive:
  assumes inv: "spec_inv s" and e: "enabled (Receive i) s"
  shows "spec_inv (sp_step (Receive i) s)"
proof -
  have i: "i < length (sp_q s)" and rt: "sp_receiving s i" using e by simp_all
  obtain m rest where q: "sp_q s ! i = m # rest" using e by (cases "sp_q s ! i") auto
  have g: "msg_good s i m" using queued_good [OF inv i, of m] q by simp
  show ?thesis
    using q g spec_inv_WaitAndGet [OF inv i] spec_inv_ReplyData [OF inv i] spec_inv_Put [OF inv i _ rt]
      spec_inv_Done [OF inv i] spec_inv_Teardown [OF inv i _ rt]
    by (cases m) (simp_all del: sp_handle.simps)
qed

lemma spec_inv_step: "spec_inv s \<Longrightarrow> enabled a s \<Longrightarrow> spec_inv (sp_step a s)"
  using spec_inv_receive spec_inv_app_put spec_inv_app_wait spec_inv_app_resume spec_inv_app_finish
  by (cases a) blast+

lemma spec_inv_init:
  assumes "0 < n" and "n < 2 ^ 64"
  shows "spec_inv (sp_init n)"
  using assms
  by (auto simp: spec_inv_def sp_init_def inv_messages_def inv_caches_def inv_stores_def inv_tokens_def tokens_def
      inv_waiting_def inv_got_def inv_done_def inv_teardown_def list_all_length)

end
