(* ===== verification/ClusterNet.thy ===== *)
theory ClusterNet
  imports ClusterInv
begin

text \<open>
  What the whole program needs of the network under it (\<open>src/network/inetwork.h\<close>), as two
  locales. \<open>node_net\<close> is the contract of one node's \<open>INetwork\<close> object: sending appends to the queue
  of the target, receiving takes the head of the own queue, the server counts the nodes that are
  done. Inside it, the handlers of the receiver thread and \<open>put\<close> are shown to do what the abstract
  system prescribes. \<open>cluster_net\<close> adds the states of a cluster of such nodes and the steps of its
  threads; inside it, every enabled step is shown to return, in a state that implements the abstract
  successor. Both networks of the program are interpretations: the message queues in \<open>ClusterRef\<close>,
  the sockets in \<open>SockCluster\<close>.
\<close>

section \<open>The network of one node\<close>

lemma home_eq: "i < 2 ^ 64 \<Longrightarrow> home k = i \<longleftrightarrow> k_homeNode k = of_nat i"
  by (simp add: home_def word_unat_eq_iff)

lemma send_one:
  "res_fold f [m] s = f m s"
  by (simp add: res_bind_def split: sum.splits)

locale node_net = inetwork "in_sendMsg ops" repr
  for ops :: "'n INetwork" and repr :: "'n \<Rightarrow> Msg list list \<Rightarrow> bool" +
  fixes recv :: "'n \<Rightarrow> (Msg \<times> 'n) res" and me :: "'n \<Rightarrow> u64" and flags :: "'n \<Rightarrow> bool list"
  assumes recv_repr: "repr n qs \<Longrightarrow> i < length qs \<Longrightarrow> me n = of_nat i \<Longrightarrow> length qs < 2 ^ 64 \<Longrightarrow> qs ! i = m # ms \<Longrightarrow>
      \<exists>n'. recv n = Inr (m, n') \<and> repr n' (qs[i := ms]) \<and> me n' = me n \<and> flags n' = flags n"
    and send_frame: "in_sendMsg ops m n = Inr n' \<Longrightarrow> flags n' = flags n \<and> me n' = me n"
    and done_repr: "repr n qs \<Longrightarrow> me n = 0 \<Longrightarrow> length qs < 2 ^ 64 \<Longrightarrow> length (flags n) = length qs \<Longrightarrow>
      unat (m_sender h) < length qs \<Longrightarrow> \<exists>n'. in_handleDoneMsg ops (DoneMsg h) n = Inr n' \<and>
        repr n' (if list_all id ((flags n)[unat (m_sender h) := True])
          then map (\<lambda>i. qs ! i @ [new_TeardownMsg 0 (of_nat i)]) [0..<length qs] else qs) \<and>
        flags n' = (flags n)[unat (m_sender h) := True] \<and> me n' = me n"
begin

lemma sends_frame:
  "res_fold (in_sendMsg ops) ms n = Inr n' \<Longrightarrow> flags n' = flags n \<and> me n' = me n"
  by (erule res_fold_invariant) (auto dest: send_frame)

text \<open>What one handler has to establish.\<close>

definition handled :: "nat \<Rightarrow> Spec \<Rightarrow> Spec \<Rightarrow> (bool \<times> KVStore \<times> 'n) res \<Rightarrow> bool" where
  "handled i s s' r \<longleftrightarrow> (\<exists>isDone kv n. r = Inr (isDone, kv, n) \<and> KVStore_inv kv \<and> kv_storeId kv = of_nat i \<and>
     repr n (sp_q s') \<and> length (sp_q s') = length (sp_q s) \<and> me n = of_nat i \<and>
     sp_store s' = (sp_store s)(i := store_abs kv) \<and> sp_cache s' = (sp_cache s)(i := cache_abs kv) \<and>
     sp_app s' = sp_app s \<and> sp_receiving s' = (sp_receiving s)(i := \<not> isDone) \<and>
     length (flags n) = length (sp_q s) \<and>
     sp_done s' = (if i = 0 then flags n else sp_done s) \<and> sp_got s' = sp_got s)"

text \<open>The state in which the handler of node \<open>i\<close> starts, the message being off the queue.\<close>

definition ready :: "nat \<Rightarrow> Spec \<Rightarrow> KVStore \<Rightarrow> 'n \<Rightarrow> bool" where
  "ready i s kv n \<longleftrightarrow> i < length (sp_q s) \<and> length (sp_q s) < 2 ^ 64 \<and> sp_receiving s i \<and>
     KVStore_inv kv \<and> kv_storeId kv = of_nat i \<and> store_abs kv = sp_store s i \<and> cache_abs kv = sp_cache s i \<and>
     repr n (sp_q s) \<and> me n = of_nat i \<and>
     length (flags n) = length (sp_q s) \<and> (i = 0 \<longrightarrow> flags n = sp_done s)"

lemma readyD:
  assumes "ready i s kv n"
  shows "i < length (sp_q s)" "length (sp_q s) < 2 ^ 64" "KVStore_inv kv" "kv_storeId kv = of_nat i"
    "store_abs kv = sp_store s i" "cache_abs kv = sp_cache s i" "repr n (sp_q s)"
    "me n = of_nat i" "length (flags n) = length (sp_q s)"
    "(sp_receiving s)(i := True) = sp_receiving s" "i = 0 \<longrightarrow> flags n = sp_done s"
  using assms by (auto simp: ready_def fun_eq_iff)

text \<open>A handler that goes on receiving and leaves the flags as they are.\<close>

lemma handledI:
  assumes r: "ready i s kv n" and "x = Inr (False, kv', n')" and "KVStore_inv kv'" and "kv_storeId kv' = kv_storeId kv"
    and "repr n' (sp_q s')" and "length (sp_q s') = length (sp_q s)"
    and "flags n' = flags n \<and> me n' = me n"
    and "sp_store s' = (sp_store s)(i := store_abs kv')" and "sp_cache s' = (sp_cache s)(i := cache_abs kv')"
    and "sp_app s' = sp_app s" and "sp_receiving s' = sp_receiving s" and "sp_done s' = sp_done s"
    and "sp_got s' = sp_got s"
  shows "handled i s s' x"
proof -
  have "sp_done s' = (if i = 0 then flags n' else sp_done s)"
    using assms(7,12) readyD(11) [OF r] by (cases "i = 0") simp_all
  then show ?thesis
    unfolding handled_def
    using assms(2-) readyD(4,8,9,10) [OF r] by (intro exI [of _ False] exI [of _ kv'] exI [of _ n']) simp
qed

lemma sends_repr:
  assumes "repr n (sp_q s)" and "\<forall>m \<in> set ms. unat (getTarget m) < length (sp_q s) \<and> Msg_ok m"
  shows "\<exists>n'. res_fold (in_sendMsg ops) ms n = Inr n' \<and> repr n' (sp_q (sp_send ms s)) \<and>
    flags n' = flags n \<and> me n' = me n"
  using send_all_repr [OF assms] sends_frame [of ms n] by (auto simp: sp_send_def)

lemma send_repr_one:
  assumes "repr n (sp_q s)" and "unat (getTarget m) < length (sp_q s)" and "Msg_ok m"
  shows "\<exists>n'. in_sendMsg ops m n = Inr n' \<and> repr n' (sp_q (sp_send [m] s)) \<and> flags n' = flags n \<and> me n' = me n"
proof -
  have "\<forall>x \<in> set [m]. unat (getTarget x) < length (sp_q s) \<and> Msg_ok x" using assms(2,3) by simp
  from sends_repr [OF assms(1) this] show ?thesis unfolding send_one .
qed

lemma handle_WaitAndGet:
  assumes r: "ready i s kv n" and g: "msg_good s i (WaitAndGetMsg h k)"
  shows "handled i s (sp_handle i (WaitAndGetMsg h k) s)
    (ReceiverThread_handle ops (of_nat i) (WaitAndGetMsg h k) (kv, n))"
proof -
  note R = readyD [OF r]
  have k: "Key_ok k" "k_homeNode k = kv_storeId kv" using g R(1,2,4) home_eq [of i k] by auto
  note gv = getValue_local [OF R(3) k, of "in_sendMsg ops" n]
  show ?thesis
  proof (cases "sp_store s i (k_str k)")
    case None
    obtain kv' where "addMsgWaitingOn h k kv = Inr kv'" "KVStore_inv kv'" "kv_storeId kv' = kv_storeId kv"
      "store_abs kv' = store_abs kv" "cache_abs kv' = (cache_abs kv)(k := cache_abs kv k @ [WaitAndGetMsg h k])"
      using addMsgWaitingOn_spec [OF R(3) k(1), of h] by blast
    with None R gv show ?thesis
      by (intro handledI [OF r, of _ kv' n]) (simp_all add: sp_park_def)
  next
    case (Some v)
    let ?m = "ReplyDataMsg (Message_new ReplyData (of_nat i) (m_sender h)) k v"
    have v: "Value_ok v" using R(3,5) Some by (metis KVStore_inv_def ranI)
    have "unat (getTarget ?m) < length (sp_q s)" "Msg_ok ?m"
      using g k(1) v by (simp_all add: Msg_ok_def getKind_def)
    from send_repr_one [OF R(7) this] obtain n' where "in_sendMsg ops ?m n = Inr n'"
      "repr n' (sp_q (sp_send [?m] s))" "flags n' = flags n \<and> me n' = me n" by blast
    with Some R gv k(1) v show ?thesis
      by (intro handledI [OF r, of _ kv n']) simp_all
  qed
qed

lemma handle_ReplyData:
  assumes r: "ready i s kv n" and g: "msg_good s i (ReplyDataMsg h k v)"
  shows "handled i s (sp_handle i (ReplyDataMsg h k v) s)
    (ReceiverThread_handle ops (of_nat i) (ReplyDataMsg h k v) (kv, n))"
proof -
  note R = readyD [OF r]
  obtain kv' where "addReply h k v kv = Inr kv'" "KVStore_inv kv'" "kv_storeId kv' = kv_storeId kv"
    "store_abs kv' = store_abs kv" "cache_abs kv' = (cache_abs kv)(k := cache_abs kv k @ [ReplyDataMsg h k v])"
    using addReply_spec [OF R(3), of k h v] g by auto
  with R show ?thesis by (intro handledI [OF r, of _ kv' n]) (simp_all add: sp_park_def)
qed

text \<open>\<open>put\<close> on the home node, by the receiver or by the application.\<close>

lemma put_refines:
  assumes kv: "KVStore_inv kv" "kv_storeId kv = of_nat i" "store_abs kv = sp_store s i" "cache_abs kv = sp_cache s i"
    and i: "i < length (sp_q s)" "length (sp_q s) < 2 ^ 64" and k: "Key_ok k" "home k = i" "Value_ok v"
    and c: "inv_caches s" and n: "repr n (sp_q s)"
  shows "\<exists>kv' n'. KVStore_put (in_sendMsg ops) k v kv n = Inr (kv', n') \<and> KVStore_inv kv' \<and>
    kv_storeId kv' = of_nat i \<and> repr n' (sp_q (sp_put i k v s)) \<and>
    flags n' = flags n \<and> me n' = me n \<and>
    sp_store (sp_put i k v s) = (sp_store s)(i := store_abs kv') \<and>
    sp_cache (sp_put i k v s) = (sp_cache s)(i := cache_abs kv')"
proof -
  let ?ms = "replies (of_nat i) k v (sp_cache s i k)"
  have w: "\<forall>m \<in> set (sp_cache s i k). \<exists>h. m = WaitAndGetMsg h k \<and> unat (m_sender h) < length (sp_q s)"
  proof
    fix m assume "m \<in> set (sp_cache s i k)"
    then have "cached_good s i k m" using c i(1) by (simp add: inv_caches_def)
    then show "\<exists>h. m = WaitAndGetMsg h k \<and> unat (m_sender h) < length (sp_q s)"
      using k(2) by (auto simp: cached_good_def)
  qed
  have "\<forall>m \<in> set ?ms. unat (getTarget m) < length (sp_q s) \<and> Msg_ok m"
    using w k by (auto simp: replies_def Msg_ok_def getKind_def getSender_def)
  from sends_repr [OF n this] obtain n' where n': "res_fold (in_sendMsg ops) ?ms n = Inr n'"
    "repr n' (sp_q (sp_send ?ms s))" "flags n' = flags n" "me n' = me n" by blast
  have l: "list_all is_WaitAndGet (cache_abs kv k)" using w kv(4) by (auto simp: list_all_iff)
  have hm: "k_homeNode k = kv_storeId kv" using k(2) i kv(2) home_eq [of i k] by simp
  obtain kv' where "KVStore_put (in_sendMsg ops) k v kv n =
      res_bind (res_fold (in_sendMsg ops) (replies (kv_storeId kv) k v (cache_abs kv k)) n) (\<lambda>net. Inr (kv', net))"
    "KVStore_inv kv'" "kv_storeId kv' = kv_storeId kv" "store_abs kv' = (store_abs kv)(k_str k \<mapsto> v)"
    "cache_abs kv' = (cache_abs kv)(k := [])"
    using KVStore_put_local [OF kv(1) k(1,3) hm l, of "in_sendMsg ops" n] by blast
  with n' kv show ?thesis by (auto simp: sp_put_def sp_send_def)
qed

lemma handle_Put:
  assumes r: "ready i s kv n" and g: "msg_good s i (PutMsg h k v)" and c: "inv_caches s"
  shows "handled i s (sp_handle i (PutMsg h k v) s)
    (ReceiverThread_handle ops (of_nat i) (PutMsg h k v) (kv, n))"
proof -
  note R = readyD [OF r]
  have hm: "k_homeNode k = of_nat i" using g R(1,2) home_eq [of i k] by auto
  obtain kv' n' where p: "KVStore_put (in_sendMsg ops) k v kv n = Inr (kv', n')" "KVStore_inv kv'"
    "kv_storeId kv' = of_nat i" "repr n' (sp_q (sp_put i k v s))"
    "flags n' = flags n \<and> me n' = me n"
    "sp_store (sp_put i k v s) = (sp_store s)(i := store_abs kv')"
    "sp_cache (sp_put i k v s) = (sp_cache s)(i := cache_abs kv')"
    using put_refines [OF R(3-6) R(1,2), of k v n] R(7) g c by auto
  have "ReceiverThread_handle ops (of_nat i) (PutMsg h k v) (kv, n) = Inr (False, kv', n')"
    using p(1) hm by simp
  then show ?thesis
    using p R by (intro handledI [OF r, of _ kv' n']) simp_all
qed

lemma handle_Done:
  assumes r: "ready i s kv n" and g: "msg_good s i (DoneMsg h)"
  shows "handled i s (sp_handle i (DoneMsg h) s)
    (ReceiverThread_handle ops (of_nat i) (DoneMsg h) (kv, n))"
proof -
  note R = readyD [OF r]
  have i: "i = 0" and j: "unat (m_sender h) < length (sp_q s)" using g by auto
  have n0: "me n = 0" "flags n = sp_done s" using R(8,11) i by simp_all
  from done_repr [OF R(7) n0(1) R(2,9) j] obtain n' where "in_handleDoneMsg ops (DoneMsg h) n = Inr n'"
    "repr n' (if list_all id ((sp_done s)[unat (m_sender h) := True])
      then map (\<lambda>i. sp_q s ! i @ [new_TeardownMsg 0 (of_nat i)]) [0..<length (sp_q s)] else sp_q s)"
    "flags n' = (sp_done s)[unat (m_sender h) := True]" "me n' = me n"
    unfolding n0(2) by blast
  with R(3-6,8,9,10) i n0 show ?thesis
    unfolding handled_def
    by (intro exI [of _ False] exI [of _ kv] exI [of _ n']) (simp add: Let_def split: if_splits)
qed

lemma handle_Teardown:
  assumes r: "ready i s kv n"
  shows "handled i s (sp_handle i (TeardownMsg h) s)
    (ReceiverThread_handle ops (of_nat i) (TeardownMsg h) (kv, n))"
  unfolding handled_def
  using readyD [OF r] by (intro exI [of _ True] exI [of _ kv] exI [of _ n]) (simp add: fun_eq_iff)

lemma handle_good:
  assumes "ready i s kv n" and "msg_good s i m" and "inv_caches s"
  shows "handled i s (sp_handle i m s) (ReceiverThread_handle ops (of_nat i) m (kv, n))"
  using assms(2) handle_WaitAndGet [OF assms(1)] handle_ReplyData [OF assms(1)] handle_Put [OF assms(1) _ assms(3)]
    handle_Done [OF assms(1)] handle_Teardown [OF assms(1)]
  by (cases m) (simp_all del: sp_handle.simps ReceiverThread_handle.simps)

end

section \<open>A cluster of nodes on a network\<close>

text \<open>
  A state \<open>c\<close> of the cluster shows node \<open>i\<close>'s network object as \<open>net c i\<close>, its store as \<open>kv c i\<close> and
  its threads as \<open>app c i\<close> and \<open>rt c i\<close>; \<open>upd\<close> is the state after node \<open>i\<close> has acted, \<open>log\<close> records
  what a call of \<open>waitAndGet\<close> returned. The steps of the threads are given by their equations.
\<close>

locale cluster_net = node_net ops repr recv me flags
  for ops :: "'n INetwork" and repr :: "'n \<Rightarrow> Msg list list \<Rightarrow> bool" and recv :: "'n \<Rightarrow> (Msg \<times> 'n) res"
    and me :: "'n \<Rightarrow> u64" and flags :: "'n \<Rightarrow> bool list" +
  fixes nodes :: "'c \<Rightarrow> nat" and net :: "'c \<Rightarrow> nat \<Rightarrow> 'n" and kv :: "'c \<Rightarrow> nat \<Rightarrow> KVStore"
    and app :: "'c \<Rightarrow> nat \<Rightarrow> AppState" and rt :: "'c \<Rightarrow> nat \<Rightarrow> bool" and got :: "'c \<Rightarrow> (nat \<times> Key \<times> Value) list"
    and upd :: "nat \<Rightarrow> KVStore \<Rightarrow> 'n \<Rightarrow> AppState \<Rightarrow> bool \<Rightarrow> 'c \<Rightarrow> 'c"
    and log :: "nat \<times> Key \<times> Value \<Rightarrow> 'c \<Rightarrow> 'c" and perf :: "Action \<Rightarrow> 'c \<Rightarrow> 'c res"
  assumes upd_nodes: "nodes (upd i x n a r c) = nodes c"
    and upd_node: "i < nodes c \<Longrightarrow> j < nodes c \<Longrightarrow>
      kv (upd i x n a r c) j = (if j = i then x else kv c j) \<and> app (upd i x n a r c) j = (if j = i then a else app c j) \<and>
      rt (upd i x n a r c) j = (if j = i then r else rt c j) \<and>
      flags (net (upd i x n a r c) j) = (if j = i then flags n else flags (net c j))"
    and upd_net: "i < nodes c \<Longrightarrow> j < nodes c \<Longrightarrow> repr (net c j) qs \<Longrightarrow> repr n qs' \<Longrightarrow> length qs' = length qs \<Longrightarrow>
      repr (net (upd i x n a r c) j) qs' \<and> me (net (upd i x n a r c) j) = me (net c j)"
    and upd_got: "got (upd i x n a r c) = got c"
    and log_node: "nodes (log g c) = nodes c" "net (log g c) = net c" "kv (log g c) = kv c" "app (log g c) = app c"
      "rt (log g c) = rt c" "got (log g c) = g # got c"
    and perf_receive: "i < nodes c \<Longrightarrow> perf (Receive i) c = res_bind (recv (net c i)) (\<lambda>(m, n).
      res_bind (ReceiverThread_handle ops (of_nat i) m (kv c i, n)) (\<lambda>(isDone, x, n).
      Inr (upd i x n (app c i) (\<not> isDone) c)))"
    and perf_put: "i < nodes c \<Longrightarrow> perf (AppPut i k v) c =
      res_bind (KVStore_put (in_sendMsg ops) k v (kv c i) (net c i)) (\<lambda>(x, n). Inr (upd i x n (app c i) (rt c i) c))"
    and perf_wait: "i < nodes c \<Longrightarrow> perf (AppWaitAndGet i k) c =
      (if k_homeNode k = kv_storeId (kv c i) then
         res_bind (getLocalValue k True (kv c i)) (\<lambda>v. case v of None \<Rightarrow> Inl AssertFail | Some v \<Rightarrow> Inr (log (i, k, v) c))
       else res_bind (getFromNetwork_request (in_sendMsg ops) k True (kv c i) (net c i)) (\<lambda>n.
         Inr (upd i (kv c i) n (Waiting k) (rt c i) c)))"
    and perf_resume: "i < nodes c \<Longrightarrow> perf (AppResume i) c =
      (case app c i of
         Waiting k \<Rightarrow> res_bind (getFromNetwork_await k True (kv c i)) (\<lambda>(v, x).
           case v of None \<Rightarrow> Inl AssertFail | Some v \<Rightarrow> Inr (upd i x (net c i) Running (rt c i) (log (i, k, v) c)))
       | _ \<Rightarrow> Inl AssertFail)"
    and perf_finish: "i < nodes c \<Longrightarrow> perf (AppFinish i) c =
      res_bind (in_sendMsg ops (new_DoneMsg (of_nat i) serverIndex) (net c i)) (\<lambda>n.
      Inr (upd i (kv c i) n Finished (rt c i) c))"
begin

definition node_implements :: "nat \<Rightarrow> 'c \<Rightarrow> Spec \<Rightarrow> bool" where
  "node_implements i c s \<longleftrightarrow> repr (net c i) (sp_q s) \<and> me (net c i) = of_nat i \<and> KVStore_inv (kv c i) \<and>
     kv_storeId (kv c i) = of_nat i \<and> store_abs (kv c i) = sp_store s i \<and> cache_abs (kv c i) = sp_cache s i \<and>
     app c i = sp_app s i \<and> rt c i = sp_receiving s i \<and> length (flags (net c i)) = length (sp_q s) \<and>
     (i = 0 \<longrightarrow> flags (net c i) = sp_done s)"

definition implements :: "'c \<Rightarrow> Spec \<Rightarrow> bool" where
  "implements c s \<longleftrightarrow> nodes c = length (sp_q s) \<and> got c = sp_got s \<and> (\<forall>i < length (sp_q s). node_implements i c s)"

lemma implementsD:
  assumes "implements c s" and "i < length (sp_q s)"
  shows "repr (net c i) (sp_q s)" "i < nodes c" "KVStore_inv (kv c i)" "kv_storeId (kv c i) = of_nat i"
    "store_abs (kv c i) = sp_store s i" "cache_abs (kv c i) = sp_cache s i" "app c i = sp_app s i" "rt c i = sp_receiving s i"
    "length (flags (net c i)) = length (sp_q s)" "i = 0 \<longrightarrow> flags (net c i) = sp_done s" "got c = sp_got s"
    "me (net c i) = of_nat i"
  using assms by (auto simp: implements_def node_implements_def)

text \<open>Node \<open>i\<close> has moved to \<open>x\<close>, \<open>a\<close>, \<open>r\<close> and has left the network in state \<open>n\<close>.\<close>

lemma implements_back:
  assumes c: "implements c s" and i: "i < length (sp_q s)"
    and n: "repr n (sp_q s')" "length (sp_q s') = length (sp_q s)"
    and x: "KVStore_inv x" "kv_storeId x = of_nat i"
    and st: "sp_store s' = (sp_store s)(i := store_abs x)" "sp_cache s' = (sp_cache s)(i := cache_abs x)"
    and a: "sp_app s' = (sp_app s)(i := a)" "sp_receiving s' = (sp_receiving s)(i := r)"
    and dn: "length (flags n) = length (sp_q s)" "sp_done s' = (if i = 0 then flags n else sp_done s)"
    and g: "got c' = sp_got s'" "nodes c' = nodes c" "net c' = net c" "kv c' = kv c" "app c' = app c" "rt c' = rt c"
  shows "implements (upd i x n a r c') s'"
proof -
  have l: "nodes c' = length (sp_q s)" using c g(2) by (simp add: implements_def)
  have "node_implements j (upd i x n a r c') s'" if "j < length (sp_q s')" for j
  proof -
    have j: "j < length (sp_q s)" "i < nodes c'" "j < nodes c'" using that i n(2) l by simp_all
    note B = upd_node [OF j(2,3), of x n a r]
    have N: "repr (net (upd i x n a r c') j) (sp_q s')" "me (net (upd i x n a r c') j) = of_nat j"
      using upd_net [OF j(2,3) _ n(1,2), of x a r] implementsD(1,12) [OF c j(1)] g(3) by simp_all
    show ?thesis
      using B N implementsD(3-10) [OF c j(1)] n(2) x st a dn g
      unfolding node_implements_def by (cases "j = i") (auto simp del: fun_upd_apply simp add: fun_upd_def)
  qed
  then show ?thesis using l n(2) g(1) by (simp add: implements_def upd_nodes upd_got)
qed

text \<open>The same, when the flags of the done nodes do not change.\<close>

lemma implements_back_same:
  assumes c: "implements c s" and i: "i < length (sp_q s)"
    and n: "repr n (sp_q s')" "length (sp_q s') = length (sp_q s)" "flags n = flags (net c i)"
    and x: "KVStore_inv x" "kv_storeId x = of_nat i"
    and st: "sp_store s' = (sp_store s)(i := store_abs x)" "sp_cache s' = (sp_cache s)(i := cache_abs x)"
    and a: "sp_app s' = (sp_app s)(i := a)" "sp_receiving s' = sp_receiving s" "sp_done s' = sp_done s"
    and g: "got c' = sp_got s'" "nodes c' = nodes c" "net c' = net c" "kv c' = kv c" "app c' = app c" "rt c' = rt c"
  shows "implements (upd i x n a (sp_receiving s i) c') s'"
proof (rule implements_back [OF c i n(1,2) x st a(1) _ _ _ g])
  show "sp_receiving s' = (sp_receiving s)(i := sp_receiving s i)" using a by simp
  show "length (flags n) = length (sp_q s)" using implementsD(9) [OF c i] n(3) by simp
  show "sp_done s' = (if i = 0 then flags n else sp_done s)"
    using implementsD(10) [OF c i] n(3) a(3) by (cases "i = 0") simp_all
qed

subsection \<open>Every enabled action is implemented\<close>

lemma receive_implements:
  assumes c: "implements c s" and inv: "spec_inv s" and e: "enabled (Receive i) s"
  shows "\<exists>c'. perf (Receive i) c = Inr c' \<and> implements c' (sp_step (Receive i) s)"
proof -
  have i: "i < length (sp_q s)" and rcv: "sp_receiving s i" using e by simp_all
  obtain m rest where q: "sp_q s ! i = m # rest" using e by (cases "sp_q s ! i") auto
  note R = implementsD [OF c i] and D = spec_invD [OF inv]
  obtain n where n: "recv (net c i) = Inr (m, n)" "repr n ((sp_q s)[i := rest])" "me n = of_nat i" "flags n = flags (net c i)"
    using recv_repr [OF R(1) i R(12) D(2) q] R(12) by auto
  let ?s = "sp_pop i s" and ?kv = "kv c i"
  have rd: "ready i ?s ?kv n"
    using R(3-6,9,10) n(2-4) i D(2) rcv q by (simp add: ready_def sp_pop_def)
  have g: "msg_good ?s i m"
    by (rule msg_good_mono [of s]) (use queued_good [OF inv i, of m] q in simp_all)
  have "inv_caches ?s" using D(4) by simp
  from handle_good [OF rd g this] obtain isDone x n' where
    h: "ReceiverThread_handle ops (of_nat i) m (?kv, n) = Inr (isDone, x, n')"
    "KVStore_inv x" "kv_storeId x = of_nat i"
    "repr n' (sp_q (sp_handle i m ?s))" "length (sp_q (sp_handle i m ?s)) = length (sp_q s)"
    "sp_store (sp_handle i m ?s) = (sp_store s)(i := store_abs x)"
    "sp_cache (sp_handle i m ?s) = (sp_cache s)(i := cache_abs x)"
    "sp_app (sp_handle i m ?s) = sp_app s" "sp_receiving (sp_handle i m ?s) = (sp_receiving s)(i := \<not> isDone)"
    "length (flags n') = length (sp_q s)"
    "sp_done (sp_handle i m ?s) = (if i = 0 then flags n' else sp_done s)"
    "sp_got (sp_handle i m ?s) = sp_got s"
    unfolding handled_def by auto
  have "implements (upd i x n' (sp_app s i) (\<not> isDone) c) (sp_handle i m ?s)"
    using h R(11) by (intro implements_back [OF c i]) simp_all
  then show ?thesis using n(1) h(1) q R(7) by (simp add: perf_receive [OF R(2)])
qed

lemma put_implements:
  assumes c: "implements c s" and inv: "spec_inv s" and e: "enabled (AppPut i k v) s"
  shows "\<exists>c'. perf (AppPut i k v) c = Inr c' \<and> implements c' (sp_step (AppPut i k v) s)"
proof -
  have i: "i < length (sp_q s)" and a: "Key_ok k" "Value_ok v" "home k < length (sp_q s)" using e by simp_all
  note R = implementsD [OF c i] and D = spec_invD [OF inv]
  let ?s = "s\<lparr>sp_puts := insert (k, v) (sp_puts s)\<rparr>" and ?kv = "kv c i"
  show ?thesis
  proof (cases "home k = i")
    case True
    have cs: "inv_caches ?s" by (rule inv_caches_frame [OF D(4)]) auto
    obtain x n where p: "KVStore_put (in_sendMsg ops) k v ?kv (net c i) = Inr (x, n)" "KVStore_inv x"
      "kv_storeId x = of_nat i" "repr n (sp_q (sp_put i k v ?s))" "flags n = flags (net c i)"
      "sp_store (sp_put i k v ?s) = (sp_store s)(i := store_abs x)"
      "sp_cache (sp_put i k v ?s) = (sp_cache s)(i := cache_abs x)"
      using put_refines [of ?kv i ?s k v "net c i"] R a True i D(2) cs by (auto simp del: sp_put_simps(2))
    have "implements (upd i x n (sp_app s i) (sp_receiving s i) c) (sp_put i k v ?s)"
      using p R by (intro implements_back_same [OF c i]) simp_all
    then show ?thesis using p(1) True R(7,8) by (simp add: perf_put [OF R(2)] Let_def)
  next
    case False
    let ?m = "PutMsg (Message_new Put (of_nat i) (k_homeNode k)) k v"
    have "unat (getTarget ?m) < length (sp_q s)" "Msg_ok ?m"
      using a by (simp_all add: Msg_ok_def getKind_def home_def)
    from send_repr_one [OF R(1) this] obtain n where p: "in_sendMsg ops ?m (net c i) = Inr n"
      "repr n (sp_q (sp_send [?m] s))" "flags n = flags (net c i)" by blast
    have ne: "k_homeNode k \<noteq> kv_storeId ?kv" using False R(4) i D(2) home_eq [of i k] by simp
    have q: "sp_q (sp_send [?m] ?s) = sp_q (sp_send [?m] s)" by (simp add: sp_send_def)
    have "implements (upd i ?kv n (sp_app s i) (sp_receiving s i) c) (sp_send [?m] ?s)"
      using p R q by (intro implements_back_same [OF c i]) simp_all
    then show ?thesis
      using p(1) False R(4,7,8) KVStore_put_remote [OF a(1,2) ne, of "in_sendMsg ops" "net c i"]
      by (simp add: perf_put [OF R(2)] Let_def)
  qed
qed

lemma wait_implements:
  assumes c: "implements c s" and inv: "spec_inv s" and e: "enabled (AppWaitAndGet i k) s"
  shows "\<exists>c'. perf (AppWaitAndGet i k) c = Inr c' \<and> implements c' (sp_step (AppWaitAndGet i k) s)"
proof -
  have i: "i < length (sp_q s)" and a: "Key_ok k" "home k < length (sp_q s)"
    and loc: "home k = i \<longrightarrow> sp_store s i (k_str k) \<noteq> None" using e by simp_all
  note R = implementsD [OF c i] and D = spec_invD [OF inv]
  let ?kv = "kv c i"
  have hm: "home k = i \<longleftrightarrow> k_homeNode k = kv_storeId ?kv" using R(4) i D(2) home_eq [of i k] by simp
  show ?thesis
  proof (cases "home k = i")
    case True
    then obtain v where "sp_store s i (k_str k) = Some v" using loc by auto
    moreover have "implements (log (i, k, v) c) (s\<lparr>sp_got := (i, k, v) # sp_got s\<rparr>)" for v
      using c by (auto simp: implements_def node_implements_def log_node)
    ultimately show ?thesis
      using True hm getLocalValue_spec [OF R(3) a(1), of True] R(5)
      by (simp add: perf_wait [OF R(2)])
  next
    case False
    let ?m = "WaitAndGetMsg (Message_new WaitAndGet (of_nat i) (k_homeNode k)) k"
    have "unat (getTarget ?m) < length (sp_q s)" "Msg_ok ?m"
      using a by (simp_all add: Msg_ok_def getKind_def home_def)
    from send_repr_one [OF R(1) this] obtain n where p: "in_sendMsg ops ?m (net c i) = Inr n"
      "repr n (sp_q (sp_send [?m] s))" "flags n = flags (net c i)" by blast
    let ?u = "s\<lparr>sp_app := (sp_app s)(i := Waiting k)\<rparr>"
    have q: "sp_q (sp_send [?m] ?u) = sp_q (sp_send [?m] s)" by (simp add: sp_send_def)
    have "implements (upd i ?kv n (Waiting k) (sp_receiving s i) c) (sp_send [?m] ?u)"
      using p R q by (intro implements_back_same [OF c i]) simp_all
    then show ?thesis
      using p(1) False hm R a by (simp add: perf_wait [OF R(2)] getFromNetwork_request_def)
  qed
qed

lemma resume_implements:
  assumes c: "implements c s" and inv: "spec_inv s" and e: "enabled (AppResume i) s"
  shows "\<exists>c'. perf (AppResume i) c = Inr c' \<and> implements c' (sp_step (AppResume i) s)"
proof -
  have i: "i < length (sp_q s)" using e by simp
  note R = implementsD [OF c i] and D = spec_invD [OF inv]
  obtain k where w: "sp_app s i = Waiting k" and ch: "sp_cache s i k \<noteq> []"
    using e by (auto split: AppState.splits)
  obtain h v where rp: "sp_cache s i k = [ReplyDataMsg h k v]" "Value_ok v"
    using waiting_cache [OF inv i w ch] by blast
  have k: "Key_ok k" using D(7) i w by (auto simp: inv_waiting_def)
  obtain x where x: "getFromNetwork_await k True (kv c i) = Inr (Some v, x)" "KVStore_inv x"
    "kv_storeId x = of_nat i" "store_abs x = sp_store s i" "cache_abs x = (sp_cache s i)(k := [])"
    using getFromNetwork_await_reply [OF R(3) k, of h k v True] rp R(4-6) by auto
  let ?t = "sp_step (AppResume i) s"
  have t: "?t = s\<lparr>sp_cache := (sp_cache s)(i := (sp_cache s i)(k := [])), sp_app := (sp_app s)(i := Running),
      sp_got := (i, k, v) # sp_got s\<rparr>"
    using w rp by simp
  have "implements (upd i x (net c i) Running (sp_receiving s i) (log (i, k, v) c)) ?t"
    unfolding t using x R by (intro implements_back_same [OF c i]) (simp_all add: log_node)
  then show ?thesis using x(1) w R(7,8) by (simp add: perf_resume [OF R(2)])
qed

lemma finish_implements:
  assumes c: "implements c s" and inv: "spec_inv s" and e: "enabled (AppFinish i) s"
  shows "\<exists>c'. perf (AppFinish i) c = Inr c' \<and> implements c' (sp_step (AppFinish i) s)"
proof -
  have i: "i < length (sp_q s)" using e by simp
  note R = implementsD [OF c i] and D = spec_invD [OF inv]
  let ?m = "new_DoneMsg (of_nat i) serverIndex" and ?kv = "kv c i"
  have "unat (getTarget ?m) < length (sp_q s)" "Msg_ok ?m"
    using D(1) by (simp_all add: serverIndex_def)
  from send_repr_one [OF R(1) this] obtain n where p: "in_sendMsg ops ?m (net c i) = Inr n"
    "repr n (sp_q (sp_send [?m] s))" "flags n = flags (net c i)" by blast
  let ?u = "s\<lparr>sp_app := (sp_app s)(i := Finished)\<rparr>"
  have q: "sp_q (sp_send [?m] ?u) = sp_q (sp_send [?m] s)" by (simp add: sp_send_def)
  have "implements (upd i ?kv n Finished (sp_receiving s i) c) (sp_send [?m] ?u)"
    using p R q by (intro implements_back_same [OF c i]) simp_all
  then show ?thesis using p(1) R(8) by (simp add: perf_finish [OF R(2)])
qed

lemma perf_implements:
  "implements c s \<Longrightarrow> spec_inv s \<Longrightarrow> enabled a s \<Longrightarrow> \<exists>c'. perf a c = Inr c' \<and> implements c' (sp_step a s)"
  using receive_implements put_implements wait_implements resume_implements finish_implements
  by (cases a) blast+

end

end
