(* ===== verification/ClusterRef.thy ===== *)
theory ClusterRef
  imports ClusterNet
begin

text \<open>
  The program refines the abstract system: from a state that \<open>refines\<close> an abstract state
  satisfying the invariant, every enabled action returns normally, in a state that refines
  the abstract successor (\<open>perform_refines\<close>). So no reachable state has an action that
  crashes or blocks (\<open>reachable_perform\<close>).
\<close>

section \<open>The refinement relation\<close>

definition node_refines :: "nat \<Rightarrow> ClusterNode \<Rightarrow> Spec \<Rightarrow> bool" where
  "node_refines i nd s \<longleftrightarrow> KVStore_inv (nd_kv nd) \<and> kv_storeId (nd_kv nd) = of_nat i \<and>
     store_abs (nd_kv nd) = sp_store s i \<and> cache_abs (nd_kv nd) = sp_cache s i \<and>
     nd_app nd = sp_app s i \<and> nd_receiving nd = sp_receiving s i \<and>
     length (nd_isNodeDone nd) = length (sp_q s)"

definition refines :: "Cluster \<Rightarrow> Spec \<Rightarrow> bool" where
  "refines c s \<longleftrightarrow> MsgQueueArr_repr (cl_mqa c) (sp_q s) \<and> length (cl_nodes c) = length (sp_q s) \<and>
     cl_got c = sp_got s \<and> (\<forall>i < length (sp_q s). node_refines i (cl_nodes c ! i) s) \<and>
     (0 < length (sp_q s) \<longrightarrow> nd_isNodeDone (cl_nodes c ! 0) = sp_done s)"

lemma refinesD:
  assumes "refines c s" and "i < length (sp_q s)"
  shows "PseudoNetwork_repr (net_of c i) (sp_q s)" "i < length (cl_nodes c)"
    "KVStore_inv (nd_kv (cl_nodes c ! i))" "kv_storeId (nd_kv (cl_nodes c ! i)) = of_nat i"
    "store_abs (nd_kv (cl_nodes c ! i)) = sp_store s i" "cache_abs (nd_kv (cl_nodes c ! i)) = sp_cache s i"
    "nd_app (cl_nodes c ! i) = sp_app s i" "nd_receiving (cl_nodes c ! i) = sp_receiving s i"
    "length (nd_isNodeDone (cl_nodes c ! i)) = length (sp_q s)"
    "i = 0 \<longrightarrow> nd_isNodeDone (cl_nodes c ! i) = sp_done s" "cl_got c = sp_got s"
  using assms by (auto simp: refines_def node_refines_def net_of_def PseudoNetwork_repr_def)

lemma net_of_sel [simp]:
  "pn_nodeId (net_of c i) = of_nat i" "pn_isNodeDone (net_of c i) = nd_isNodeDone (cl_nodes c ! i)"
  by (simp_all add: net_of_def)

lemma refines_init:
  assumes "n < 2 ^ 64"
  shows "\<exists>c. Cluster_init n = Inr c \<and> refines c (sp_init n)"
proof -
  obtain mqa where mqa: "MsgQueueArr_new n = Inr mqa" "MsgQueueArr_repr mqa (replicate n [])"
    using MsgQueueArr_new_repr by blast
  have "arr_len mqa = n" using MsgQueueArr_len [OF mqa(2)] by simp
  then show ?thesis
    using mqa by (auto simp: Cluster_init_def refines_def node_refines_def sp_init_def PseudoNetwork_new_def)
qed

section \<open>The message queues are a network\<close>

interpretation pseudo_node: node_net PseudoNetwork_ops PseudoNetwork_repr PseudoNetwork_receiveMsg pn_nodeId pn_isNodeDone
proof unfold_locales
  fix pn qs m ms i pn' and h :: Message
  show "PseudoNetwork_repr pn qs \<Longrightarrow> unat (getTarget m) < length qs \<Longrightarrow> Msg_ok m \<Longrightarrow>
    \<exists>n'. in_sendMsg PseudoNetwork_ops m pn = Inr n' \<and>
      PseudoNetwork_repr n' (qs[unat (getTarget m) := qs ! unat (getTarget m) @ [m]])"
    using Pseudo_net.send_repr by (simp add: PseudoNetwork_ops_def)
  show "in_sendMsg PseudoNetwork_ops m pn = Inr pn' \<Longrightarrow>
      pn_isNodeDone pn' = pn_isNodeDone pn \<and> pn_nodeId pn' = pn_nodeId pn"
    using PseudoNetwork_sendMsg_frame by (simp add: PseudoNetwork_ops_def)
  {
    assume r: "PseudoNetwork_repr pn qs" and i: "i < length qs" "pn_nodeId pn = of_nat i" "length qs < 2 ^ 64" "qs ! i = m # ms"
    then have "unat (pn_nodeId pn) = i" by simp
    with PseudoNetwork_receiveMsg_repr [OF r, of m ms] i show "\<exists>n'. PseudoNetwork_receiveMsg pn = Inr (m, n') \<and>
        PseudoNetwork_repr n' (qs[i := ms]) \<and> pn_nodeId n' = pn_nodeId pn \<and> pn_isNodeDone n' = pn_isNodeDone pn"
      by auto
  }
  {
    assume r: "PseudoNetwork_repr pn qs" "pn_nodeId pn = 0" "length qs < 2 ^ 64" "length (pn_isNodeDone pn) = length qs"
      "unat (m_sender h) < length qs"
    have eq: "PseudoNetwork_handleDoneMsg (DoneMsg h) pn = PseudoNetwork_handleDoneMsg (new_DoneMsg (m_sender h) 0) pn"
      by (simp add: PseudoNetwork_handleDoneMsg_def new_DoneMsg_def getSender_def)
    from PseudoNetwork_handleDoneMsg_ok [OF r, of 0] show "\<exists>n'. in_handleDoneMsg PseudoNetwork_ops (DoneMsg h) pn = Inr n' \<and>
        PseudoNetwork_repr n' (if list_all id ((pn_isNodeDone pn)[unat (m_sender h) := True])
          then map (\<lambda>i. qs ! i @ [new_TeardownMsg 0 (of_nat i)]) [0..<length qs] else qs) \<and>
        pn_isNodeDone n' = (pn_isNodeDone pn)[unat (m_sender h) := True] \<and> pn_nodeId n' = pn_nodeId pn"
      unfolding eq [symmetric] by (auto simp: PseudoNetwork_ops_def dest: PseudoNetwork_handleDoneMsg_node)
  }
qed

interpretation pseudo_cluster: cluster_net PseudoNetwork_ops PseudoNetwork_repr PseudoNetwork_receiveMsg pn_nodeId pn_isNodeDone
  "\<lambda>c. length (cl_nodes c)" net_of "\<lambda>c i. nd_kv (cl_nodes c ! i)" "\<lambda>c i. nd_app (cl_nodes c ! i)"
  "\<lambda>c i. nd_receiving (cl_nodes c ! i)" cl_got put_back "\<lambda>g c. c\<lparr>cl_got := g # cl_got c\<rparr>" perform
proof unfold_locales
  fix c i j x pn a r g k v and qs qs' :: "Msg list list"
  show "length (cl_nodes (put_back i x pn a r c)) = length (cl_nodes c)" "cl_got (put_back i x pn a r c) = cl_got c"
    by (simp_all add: put_back_def)
  show "nd_kv (cl_nodes (put_back i x pn a r c) ! j) = (if j = i then x else nd_kv (cl_nodes c ! j)) \<and>
      nd_app (cl_nodes (put_back i x pn a r c) ! j) = (if j = i then a else nd_app (cl_nodes c ! j)) \<and>
      nd_receiving (cl_nodes (put_back i x pn a r c) ! j) = (if j = i then r else nd_receiving (cl_nodes c ! j)) \<and>
      pn_isNodeDone (net_of (put_back i x pn a r c) j) = (if j = i then pn_isNodeDone pn else pn_isNodeDone (net_of c j))"
    if "i < length (cl_nodes c)" "j < length (cl_nodes c)"
    using that by (auto simp: put_back_def)
  show "PseudoNetwork_repr (net_of (put_back i x pn a r c) j) qs' \<and> pn_nodeId (net_of (put_back i x pn a r c) j) = pn_nodeId (net_of c j)"
    if "PseudoNetwork_repr pn qs'"
    using that by (simp add: PseudoNetwork_repr_def put_back_def net_of_def)
  show "length (cl_nodes (c\<lparr>cl_got := g # cl_got c\<rparr>)) = length (cl_nodes c)" "net_of (c\<lparr>cl_got := g # cl_got c\<rparr>) = net_of c"
    "(\<lambda>i. nd_kv (cl_nodes (c\<lparr>cl_got := g # cl_got c\<rparr>) ! i)) = (\<lambda>i. nd_kv (cl_nodes c ! i))"
    "(\<lambda>i. nd_app (cl_nodes (c\<lparr>cl_got := g # cl_got c\<rparr>) ! i)) = (\<lambda>i. nd_app (cl_nodes c ! i))"
    "(\<lambda>i. nd_receiving (cl_nodes (c\<lparr>cl_got := g # cl_got c\<rparr>) ! i)) = (\<lambda>i. nd_receiving (cl_nodes c ! i))"
    "cl_got (c\<lparr>cl_got := g # cl_got c\<rparr>) = g # cl_got c"
    by (simp_all add: net_of_def fun_eq_iff)
qed (simp_all add: PseudoNetwork_ops_def net_of_def Let_def cong: AppState.case_cong)

lemma refines_implements:
  "refines c s \<Longrightarrow> pseudo_cluster.implements c s"
  "pseudo_cluster.implements c s \<Longrightarrow> 0 < length (sp_q s) \<Longrightarrow> refines c s"
  by (auto simp: pseudo_cluster.implements_def pseudo_cluster.node_implements_def refines_def node_refines_def
      PseudoNetwork_repr_def net_of_def)

text \<open>Every enabled action of the program returns, in a state that refines the abstract successor.\<close>

lemma perform_refines:
  assumes "refines c s" and "spec_inv s" and "enabled a s"
  shows "\<exists>c'. perform a c = Inr c' \<and> refines c' (sp_step a s)"
  using pseudo_cluster.perf_implements [OF refines_implements(1) [OF assms(1)] assms(2,3)] spec_invD(1) [OF spec_inv_step [OF assms(2,3)]]
    refines_implements(2) by blast

section \<open>Reachable states\<close>

text \<open>
  \<open>reachable n c s\<close>: the program of \<open>n\<close> nodes can be in state \<open>c\<close>; \<open>s\<close> is the abstract
  state (with the history of puts) of the same execution.
\<close>

inductive reachable :: "nat \<Rightarrow> Cluster \<Rightarrow> Spec \<Rightarrow> bool" for n where
  start: "Cluster_init n = Inr c \<Longrightarrow> reachable n c (sp_init n)"
| step: "reachable n c s \<Longrightarrow> enabled a s \<Longrightarrow> perform a c = Inr c' \<Longrightarrow> reachable n c' (sp_step a s)"

inductive_cases reachableE: "reachable n c s"

lemma sp_handle_length [simp]: "length (sp_q (sp_handle i m s)) = length (sp_q s)"
  by (cases m) (auto simp: Let_def split: option.splits)

lemma sp_step_length [simp]: "length (sp_q (sp_step a s)) = length (sp_q s)"
  by (cases a) (auto simp: Let_def simp del: sp_handle.simps split: AppState.splits list.splits Msg.splits)

lemma reachable_inv:
  assumes "reachable n c s" and "0 < n" and "n < 2 ^ 64"
  shows "refines c s \<and> spec_inv s \<and> length (sp_q s) = n"
  using assms(1)
proof (induction rule: reachable.induct)
  case (start c)
  then show ?case
    using refines_init [OF assms(3)] spec_inv_init [OF assms(2,3)] by (auto simp: sp_init_def)
next
  case (step c s a c')
  then show ?case using perform_refines [of c s a] spec_inv_step [of s a] by auto
qed

lemma reachable_perform:
  assumes "reachable n c s" and "0 < n" and "n < 2 ^ 64" and "enabled a s"
  shows "\<exists>c'. perform a c = Inr c' \<and> reachable n c' (sp_step a s)"
  using reachable_inv [OF assms(1-3)] perform_refines [of c s a] assms(1,4) by (auto intro: reachable.step)

end
