(* ===== verification/Race.thy ===== *)
theory Race
  imports ClusterRef
begin

text \<open>
  What the handlers do when they are not atomic. The receiver's handler of a
  \<open>WaitAndGet\<close> request reads the store (\<open>getValue\<close>) and parks the request
  (\<open>addMsgWaitingOn\<close>) without holding a lock in between; \<open>put\<close> writes the store and then
  looks for parked requests. The theory splits the two operations at these points, shows
  that running the parts in a row is the operation of the model, and states what the
  interleaving of the parts leads to; it also states what the non-blocking remote lookup
  does.
\<close>

section \<open>The operations in parts\<close>

definition park_read :: "Key \<Rightarrow> KVStore \<Rightarrow> Value option res" where
  "park_read k kv = getLocalValue k False kv"

definition put_store :: "Key \<Rightarrow> Value \<Rightarrow> KVStore \<Rightarrow> KVStore res" where
  "put_store k data kv =
     res_bind (String_copy (k_str k)) (\<lambda>key.
     res_bind (Value_clone data) (\<lambda>val.
     res_bind (MapStrObj_put (Some key) (Some val) (kv_map kv)) (\<lambda>(_, m). Inr (kv\<lparr>kv_map := m\<rparr>))))"

lemma put_in_parts:
  "k_homeNode k = kv_storeId kv \<Longrightarrow> KVStore_put send k v kv net =
   res_bind (put_store k v kv) (\<lambda>kv. tryToHandleCache send k kv net)"
  by (auto simp: KVStore_put_def put_store_def res_bind_assoc intro!: res_bind_cong)

lemma handle_in_parts:
  "k_homeNode k = kv_storeId kv \<Longrightarrow> ReceiverThread_handle ops n (WaitAndGetMsg h k) (kv, net) =
   res_bind (park_read k kv) (\<lambda>val.
     case val of
       Some v \<Rightarrow>
         res_bind (new_ReplyDataMsg k (Some v) n (m_sender h)) (\<lambda>reply.
         res_bind (in_sendMsg ops reply net) (\<lambda>net. Inr (False, kv, net)))
     | None \<Rightarrow> res_bind (addMsgWaitingOn h k kv) (\<lambda>kv. Inr (False, kv, net)))"
  by (auto simp: getValue_def park_read_def res_bind_assoc intro!: res_bind_cong)

lemma put_store_spec:
  assumes "KVStore_inv kv" and "Key_ok k" and "Value_ok v"
  shows "\<exists>kv'. put_store k v kv = Inr kv' \<and> KVStore_inv kv' \<and> kv_storeId kv' = kv_storeId kv \<and>
    store_abs kv' = (store_abs kv)(k_str k \<mapsto> v) \<and> cache_abs kv' = cache_abs kv"
proof -
  have s: "MapStrObj_inv (kv_map kv)" "String_wf (k_str k)"
    using assms by (simp_all add: KVStore_inv_def Key_ok_def)
  then have cp: "String_copy (k_str k) = Inr (k_str k)" by (auto elim: String_wfE)
  obtain m where m: "MapStrObj_put (Some (k_str k)) (Some v) (kv_map kv) = Inr (MapStrObj_abs (kv_map kv) (k_str k), m)"
    "MapStrObj_inv m" "MapStrObj_abs m = (MapStrObj_abs (kv_map kv))(k_str k \<mapsto> v)"
    using MapStrObj_put_correct [OF s] by blast
  let ?kv = "kv\<lparr>kv_map := m\<rparr>"
  have abs: "store_abs ?kv = (store_abs kv)(k_str k \<mapsto> v)" "cache_abs ?kv = cache_abs kv"
    using m(3) by (auto simp: store_abs_def cache_abs_def)
  have "\<forall>w \<in> ran (store_abs ?kv). Value_ok w"
    using assms(1,3) unfolding abs(1) by (auto simp: KVStore_inv_def ran_def)
  with assms(1) m cp abs assms(3) show ?thesis by (auto simp: put_store_def KVStore_inv_def)
qed

text \<open>
  The receiver has seen no value; the application puts one and finds nobody waiting; then
  the receiver parks the request.
\<close>

lemma interleaved:
  assumes inv: "KVStore_inv kv" and k: "Key_ok k" and v: "Value_ok v" and home: "k_homeNode k = kv_storeId kv"
    and none: "store_abs kv (k_str k) = None" and nobody: "cache_abs kv k = []"
  shows "park_read k kv = Inr None"
    and "\<exists>kv1 kv2 kv3. put_store k v kv = Inr kv1 \<and> tryToHandleCache send k kv1 net = Inr (kv2, net) \<and>
      addMsgWaitingOn h k kv2 = Inr kv3 \<and> store_abs kv3 (k_str k) = Some v \<and>
      cache_abs kv3 k = [WaitAndGetMsg h k]"
proof -
  show "park_read k kv = Inr None" using getLocalValue_spec [OF inv k, of False] none by (simp add: park_read_def)
  obtain kv1 where 1: "put_store k v kv = Inr kv1" "KVStore_inv kv1" "kv_storeId kv1 = kv_storeId kv"
    "store_abs kv1 = (store_abs kv)(k_str k \<mapsto> v)" "cache_abs kv1 = cache_abs kv"
    using put_store_spec [OF inv k v] by blast
  obtain kv2 where 2: "tryToHandleCache send k kv1 net = Inr (kv2, net)" "KVStore_inv kv2"
    "store_abs kv2 = store_abs kv1" "cache_abs kv2 = (cache_abs kv1)(k := [])"
    using tryToHandleCache_spec [OF 1(2) k, of v send net] 1 home nobody by (auto simp: replies_def)
  obtain kv3 where "addMsgWaitingOn h k kv2 = Inr kv3" "store_abs kv3 = store_abs kv2"
    "cache_abs kv3 = (cache_abs kv2)(k := cache_abs kv2 k @ [WaitAndGetMsg h k])"
    using addMsgWaitingOn_spec [OF 2(2) k] by blast
  with 1 2 show "\<exists>kv1 kv2 kv3. put_store k v kv = Inr kv1 \<and> tryToHandleCache send k kv1 net = Inr (kv2, net) \<and>
      addMsgWaitingOn h k kv2 = Inr kv3 \<and> store_abs kv3 (k_str k) = Some v \<and>
      cache_abs kv3 k = [WaitAndGetMsg h k]" by auto
qed

section \<open>Properties\<close>

text \<open>C38: Handlers that overlap can lose a wakeup. The receiver looks for the value of a requested key
  and finds none; before it parks the request, the application of the same node puts the value,
  finds nobody waiting and returns; then the receiver parks the request. Every step succeeds, the value
  is stored, and the request stays parked with no message on its way to its sender, who waits for
  ever unless the key is put again.\<close>

theorem overlapping_put_loses_wakeup:
  assumes "KVStore_inv kv" and "Key_ok k" and "Value_ok v" and "k_homeNode k = kv_storeId kv"
    and "store_abs kv (k_str k) = None" and "cache_abs kv k = []"
  shows "park_read k kv = Inr None \<and>
    (\<exists>kv1 kv2 kv3. put_store k v kv = Inr kv1 \<and> tryToHandleCache send k kv1 net = Inr (kv2, net) \<and>
      addMsgWaitingOn h k kv2 = Inr kv3 \<and> store_abs kv3 (k_str k) = Some v \<and>
      cache_abs kv3 k = [WaitAndGetMsg h k])"
  using interleaved(1) [OF assms] interleaved(2) [OF assms, of send net h] by (rule conjI)

lemma overlapping_put_loses_wakeup_witness:
  "park_read (Key_lit ''k'' 1) (KVStore_new 1) = Inr None \<and>
    (\<exists>kv1 kv2 kv3. put_store (Key_lit ''k'' 1) (Value_lit ''v'') (KVStore_new 1) = Inr kv1 \<and>
      tryToHandleCache (\<lambda>m ms. Inr (ms @ [m])) (Key_lit ''k'' 1) kv1 [] = Inr (kv2, []) \<and>
      addMsgWaitingOn (Message_new WaitAndGet 0 1) (Key_lit ''k'' 1) kv2 = Inr kv3 \<and>
      store_abs kv3 (String_lit ''k'') = Some (Value_lit ''v'') \<and>
      cache_abs kv3 (Key_lit ''k'' 1) = [WaitAndGetMsg (Message_new WaitAndGet 0 1) (Key_lit ''k'' 1)])"
  using overlapping_put_loses_wakeup [of "KVStore_new 1" "Key_lit ''k'' 1" "Value_lit ''v''" "\<lambda>m ms. Inr (ms @ [m])" "[]"
      "Message_new WaitAndGet 0 1"]
  by (simp add: cstr_ok_def)

end
