(* ===== verification/Runs.thy ===== *)
theory Runs
  imports Race
begin

text \<open>
  Whole runs of the program on the pseudo network: a schedule is the list of the actions
  its threads take, in the order they take them. \<open>run n as\<close> executes the code on it;
  \<open>sched as s\<close> says that no thread acts out of turn. The theory shows what a run may rely
  on: progress of a waiting call, and that the program shuts down cleanly.
\<close>

section \<open>Schedules\<close>

fun sched :: "Action list \<Rightarrow> Spec \<Rightarrow> bool" where
  "sched [] s \<longleftrightarrow> True"
| "sched (a # as) s \<longleftrightarrow> enabled a s \<and> sched as (sp_step a s)"

definition run :: "nat \<Rightarrow> Action list \<Rightarrow> Cluster res" where
  "run n as = res_bind (Cluster_init n) (res_fold perform as)"

definition sp_run :: "nat \<Rightarrow> Action list \<Rightarrow> Spec" where
  "sp_run n as = fold sp_step as (sp_init n)"

definition schedule :: "nat \<Rightarrow> Action list \<Rightarrow> bool" where
  "schedule n as \<longleftrightarrow> 0 < n \<and> n < 2 ^ 64 \<and> sched as (sp_init n)"

lemma sched_append: "sched (as @ bs) s \<longleftrightarrow> sched as s \<and> sched bs (fold sp_step as s)"
  by (induction as arbitrary: s) simp_all

lemma run_append: "run n (as @ bs) = res_bind (run n as) (res_fold perform bs)"
  by (cases "Cluster_init n") (simp_all add: run_def res_fold_append)

lemma run_reachable:
  assumes "schedule n as"
  shows "\<exists>c. run n as = Inr c \<and> reachable n c (sp_run n as)"
  using assms
proof (induction as rule: rev_induct)
  case Nil
  then show ?case using refines_init [of n] by (auto simp: run_def sp_run_def schedule_def intro: reachable.start)
next
  case (snoc a as)
  then have s: "schedule n as" "enabled a (sp_run n as)" by (simp_all add: schedule_def sched_append sp_run_def)
  then obtain c where c: "run n as = Inr c" "reachable n c (sp_run n as)" using snoc.IH by blast
  with reachable_perform [OF c(2) _ _ s(2)] snoc.prems show ?case
    by (auto simp: run_append sp_run_def schedule_def)
qed

lemma run_inv:
  assumes "schedule n as"
  shows "\<exists>c. run n as = Inr c \<and> refines c (sp_run n as)" and "spec_inv (sp_run n as)"
    and "length (sp_q (sp_run n as)) = n"
  using run_reachable [OF assms] reachable_inv [of n _ "sp_run n as"] assms by (auto simp: schedule_def)

lemma run_refines: "schedule n as \<Longrightarrow> run n as = Inr c \<Longrightarrow> refines c (sp_run n as)"
  using run_inv(1) [of n as] by auto

section \<open>Queues and stores only grow\<close>

lemma sp_handle_frame:
  assumes "j < length (sp_q s)"
  shows "\<exists>ms. sp_q (sp_handle i m s) ! j = sp_q s ! j @ ms" and "dom (sp_store s j) \<subseteq> dom (sp_store (sp_handle i m s) j)"
    and "sp_app (sp_handle i m s) = sp_app s" and "sp_puts (sp_handle i m s) = sp_puts s"
  using assms by (cases m; auto simp: Let_def split: option.splits)+

lemma sp_step_frame:
  assumes j: "j < length (sp_q s)"
  shows "\<exists>ms. sp_q (sp_step a s) ! j = (if a = Receive j then tl (sp_q s ! j) else sp_q s ! j) @ ms" (is ?Q)
    and "dom (sp_store s j) \<subseteq> dom (sp_store (sp_step a s) j)" (is ?S)
proof -
  have "?Q \<and> ?S"
  proof (cases a)
    case (Receive i)
    let ?m = "hd (sp_q s ! i)"
    have "j < length (sp_q (sp_pop i s))" using j by simp
    from sp_handle_frame [OF this, of i ?m] show ?thesis
      using j unfolding Receive sp_step.simps(1) by auto
  next
    case (AppPut i k v)
    then show ?thesis using j by (auto simp: Let_def)
  next
    case (AppWaitAndGet i k)
    then show ?thesis using j by auto
  next
    case (AppResume i)
    then show ?thesis by (auto split: AppState.split list.split Msg.split)
  next
    case (AppFinish i)
    then show ?thesis using j by auto
  qed
  then show ?Q ?S by blast+
qed

lemma sp_step_app: "sp_app (sp_step (Receive i) s) = sp_app s"
  by (cases "hd (sp_q s ! i)") (auto simp: Let_def split: option.split)

text \<open>A value that has been put under a key is on its way to the key's home or has arrived.\<close>

definition arriving :: "Key \<Rightarrow> Spec \<Rightarrow> bool" where
  "arriving k s \<longleftrightarrow> (\<exists>h v. PutMsg h k v \<in> set (sp_q s ! home k)) \<or> sp_store s (home k) (k_str k) \<noteq> None"

lemma arriving_step:
  assumes a: "arriving k s" and e: "enabled a s" and k: "home k < length (sp_q s)"
  shows "arriving k (sp_step a s)"
proof (cases "sp_store s (home k) (k_str k) = None")
  case False
  then show ?thesis using sp_step_frame(2) [OF k, of a] by (auto simp: arriving_def)
next
  case True
  then obtain h v where m: "PutMsg h k v \<in> set (sp_q s ! home k)" using a by (auto simp: arriving_def)
  obtain ms where ms: "sp_q (sp_step a s) ! home k =
      (if a = Receive (home k) then tl (sp_q s ! home k) else sp_q s ! home k) @ ms"
    using sp_step_frame(1) [OF k, of a] by blast
  show ?thesis
  proof (cases "a = Receive (home k) \<and> hd (sp_q s ! home k) = PutMsg h k v")
    case True
    then show ?thesis by (simp add: arriving_def)
  next
    case False
    with m have "PutMsg h k v \<in> set (sp_q (sp_step a s) ! home k)"
      unfolding ms by (cases "sp_q s ! home k") auto
    then show ?thesis by (auto simp: arriving_def)
  qed
qed

lemma arriving_sched:
  "arriving k s \<Longrightarrow> sched as s \<Longrightarrow> home k < length (sp_q s) \<Longrightarrow> arriving k (fold sp_step as s)"
  by (induction as arbitrary: s) (simp_all add: arriving_step)

lemma put_arrives:
  assumes "sched as s" and "AppPut j k v \<in> set as"
  shows "arriving k (fold sp_step as s)"
proof -
  obtain bs cs where as: "as = bs @ AppPut j k v # cs" using assms(2) by (meson split_list)
  let ?s = "fold sp_step bs s"
  let ?t = "sp_step (AppPut j k v) ?s"
  have e: "enabled (AppPut j k v) ?s" and cs: "sched cs ?t"
    using assms(1) as by (simp_all add: sched_append)
  have "arriving k ?t"
  proof (cases "home k = j")
    case True
    then show ?thesis by (simp add: arriving_def Let_def)
  next
    case False
    then have "PutMsg (Message_new Put (of_nat j) (k_homeNode k)) k v \<in> set (sp_q ?t ! home k)"
      using e by (simp add: Let_def) (simp add: home_def)
    then show ?thesis unfolding arriving_def by blast
  qed
  moreover have "home k < length (sp_q ?t)" using e by (simp del: sp_step.simps)
  ultimately show ?thesis using arriving_sched [of k ?t cs] cs by (simp add: as)
qed

section \<open>Progress of a waiting call\<close>

text \<open>While some application is not finished, a receiver with messages can take the next one.\<close>

lemma waiting_receive:
  assumes inv: "spec_inv s" and i: "i < length (sp_q s)" "sp_app s i \<noteq> Finished"
    and j: "j < length (sp_q s)" "sp_q s ! j = m # ms"
  shows "enabled (Receive j) s" and "\<not> is_teardown m"
proof -
  have "\<not> list_all id (sp_done s)" by (rule running_not_all_done [OF inv i])
  then have "sp_receiving s j \<and> \<not> list_ex is_teardown (sp_q s ! j)"
    using spec_invD(10) [OF inv] j(1) by (simp add: inv_teardown_def)
  then show "enabled (Receive j) s" "\<not> is_teardown m" using j by auto
qed

text \<open>Then a receiver sends nothing to itself, so that its queue gets shorter.\<close>

lemma receive_shortens:
  assumes inv: "spec_inv s" and i: "i < length (sp_q s)" "sp_app s i \<noteq> Finished"
    and j: "j < length (sp_q s)" "sp_q s ! j = m # ms"
  defines "t \<equiv> sp_step (Receive j) s"
  shows "spec_inv t" and "sp_q t ! j = ms"
proof -
  note W = waiting_receive [OF inv i j]
  show t: "spec_inv t" unfolding t_def by (rule spec_inv_step [OF inv W(1)])
  have "sp_app t i \<noteq> Finished" "i < length (sp_q t)" using i by (simp_all add: t_def sp_step_app del: sp_step.simps)
  then have nd: "\<not> list_all id (sp_done t)" using running_not_all_done [OF t] by blast
  have g: "msg_good s j m" using queued_good [OF inv j(1)] j(2) by simp
  have h: "t = sp_handle j m (sp_pop j s)" by (simp add: t_def j(2))
  have qj: "sp_q (sp_pop j s) ! j = ms" using j by simp
  show "sp_q t ! j = ms"
  proof (cases m)
    case (WaitAndGetMsg h k)
    with g h qj j(1) show ?thesis by (auto split: option.split)
  next
    case (PutMsg h' k v)
    have "unat (m_sender h) \<noteq> j" if "WaitAndGetMsg h k' \<in> set (sp_cache s j k)" for h k'
      using cached_goodD [OF inv j(1) that] g PutMsg by (auto simp: cached_good_def)
    moreover have "\<exists>h k'. x = WaitAndGetMsg h k'" if "x \<in> set (sp_cache s j k)" for x
      using cached_goodD [OF inv j(1) that] g PutMsg by (auto simp: cached_good_def)
    ultimately have "filter (\<lambda>x. unat (getTarget x) = j) (replies (of_nat j) k v (sp_cache s j k)) = []"
      by (fastforce simp: replies_def filter_empty_conv getTarget_def getSender_def Message_new_def)
    with h qj j(1) PutMsg show ?thesis by simp
  next
    case (DoneMsg h')
    with h nd qj show ?thesis by (auto simp: Let_def)
  qed (use g h qj in auto)
qed

text \<open>So it can empty its queue.\<close>

lemma drain:
  assumes "spec_inv s" and "i < length (sp_q s)" "sp_app s i \<noteq> Finished" and "j < length (sp_q s)"
  shows "\<exists>m. let as = replicate m (Receive j); t = fold sp_step as s in
    sched as s \<and> spec_inv t \<and> sp_q t ! j = [] \<and> sp_app t = sp_app s"
  using assms
proof (induction "sp_q s ! j" arbitrary: s)
  case Nil
  then show ?case by (intro exI [of _ 0]) simp
next
  case (Cons m ms)
  let ?t = "sp_step (Receive j) s"
  have q: "sp_q s ! j = m # ms" using Cons.hyps(2) by simp
  note S = receive_shortens [OF Cons.prems q] waiting_receive(1) [OF Cons.prems q]
  have app: "sp_app ?t = sp_app s" by (rule sp_step_app)
  obtain n where n: "sched (replicate n (Receive j)) ?t" "spec_inv (fold sp_step (replicate n (Receive j)) ?t)"
    "sp_q (fold sp_step (replicate n (Receive j)) ?t) ! j = []"
    "sp_app (fold sp_step (replicate n (Receive j)) ?t) = sp_app ?t"
    using Cons.hyps(1) [of ?t] S(1,2) Cons.prems app by (auto simp: Let_def simp del: sp_step.simps)
  then show ?case using S(3) app by (intro exI [of _ "Suc n"]) (simp add: Let_def del: sp_step.simps enabled.simps)
qed

text \<open>The reply that node \<open>i\<close> waits for is in its queue or has reached its cache.\<close>

definition replied :: "nat \<Rightarrow> Key \<Rightarrow> Spec \<Rightarrow> bool" where
  "replied i k s \<longleftrightarrow> (\<exists>h v. ReplyDataMsg h k v \<in> set (sp_q s ! i)) \<or> sp_cache s i k \<noteq> []"

lemma replied_receive:
  assumes inv: "spec_inv s" and e: "enabled (Receive i) s" and r: "replied i k s" and k: "home k \<noteq> i"
  shows "replied i k (sp_step (Receive i) s)"
proof -
  have i: "i < length (sp_q s)" using e by simp
  obtain m ms where q: "sp_q s ! i = m # ms" using e by (cases "sp_q s ! i") auto
  then have g: "msg_good s i m" using queued_good [OF inv i, of m] by simp
  have h: "sp_step (Receive i) s = sp_handle i m (sp_pop i s)" by (simp add: q)
  obtain xs where xs: "sp_q (sp_step (Receive i) s) ! i = ms @ xs"
    using sp_step_frame(1) [OF i, of "Receive i"] q by auto
  have c: "sp_cache s i k \<noteq> [] \<Longrightarrow> sp_cache (sp_handle i m (sp_pop i s)) i k \<noteq> []"
    using g k by (cases m) (auto simp: Let_def split: option.split)
  show ?thesis
  proof (cases "\<exists>h v. m = ReplyDataMsg h k v")
    case True
    then show ?thesis unfolding replied_def h by auto
  next
    case False
    with r q c xs h show ?thesis unfolding replied_def by (metis Un_iff set_ConsD set_append)
  qed
qed

lemma replied_receives:
  "spec_inv s \<Longrightarrow> sched (replicate m (Receive i)) s \<Longrightarrow> replied i k s \<Longrightarrow> home k \<noteq> i \<Longrightarrow>
   replied i k (fold sp_step (replicate m (Receive i)) s)"
  by (induction m arbitrary: s) (simp_all add: spec_inv_step replied_receive del: sp_step.simps enabled.simps)

lemma wait_ready:
  assumes inv: "spec_inv s" and i: "i < length (sp_q s)" and w: "sp_app s i = Waiting k" and a: "arriving k s"
  shows "\<exists>bs. set bs \<subseteq> {Receive (home k), Receive i} \<and> sched (bs @ [AppResume i]) s \<and>
    sp_app (fold sp_step bs s) i = Waiting k"
proof -
  have k: "Key_ok k" "home k < length (sp_q s)" "home k \<noteq> i"
    using spec_invD(7) [OF inv] i w by (auto simp: inv_waiting_def)
  have f: "sp_app s i \<noteq> Finished" using w by simp
  obtain m where m: "sched (replicate m (Receive (home k))) s"
    "spec_inv (fold sp_step (replicate m (Receive (home k))) s)"
    "sp_q (fold sp_step (replicate m (Receive (home k))) s) ! home k = []"
    "sp_app (fold sp_step (replicate m (Receive (home k))) s) = sp_app s"
    using drain [OF inv i f k(2)] by (auto simp: Let_def)
  define t where "t = fold sp_step (replicate m (Receive (home k))) s"
  have len: "length (sp_q t) = length (sp_q s)"
    unfolding t_def by (induction m arbitrary: s) (simp_all del: sp_step.simps)
  note D = spec_invD [OF m(2) [folded t_def]]
  have "sp_store t (home k) (k_str k) \<noteq> None"
    using arriving_sched [OF a m(1) k(2)] m(3) by (simp add: arriving_def t_def)
  then have "x \<notin> set (sp_cache t (home k) k)" for x
    using cached_goodD [OF m(2) [folded t_def], of "home k" x k] k len by (auto simp: cached_good_def)
  then have "sp_cache t (home k) k = []" by (cases "sp_cache t (home k) k") auto
  moreover have "tokens t i k = 1"
    using D(6) i k w m(4) len by (simp add: inv_tokens_def t_def)
  ultimately have "count (is_rep k) (sp_q t ! i) + length (sp_cache t i k) = 1"
    using m(3) by (simp add: tokens_def t_def)
  then have "sp_cache t i k = [] \<Longrightarrow> \<exists>x \<in> set (sp_q t ! i). is_rep k x"
    using count_zero [of "sp_q t ! i" "is_rep k"] by force
  moreover have "\<exists>h v. x = ReplyDataMsg h k v" if "is_rep k x" for x using that by (cases x) auto
  ultimately have r: "replied i k t" unfolding replied_def by blast
  obtain n where n: "sched (replicate n (Receive i)) t" "spec_inv (fold sp_step (replicate n (Receive i)) t)"
    "sp_q (fold sp_step (replicate n (Receive i)) t) ! i = []"
    "sp_app (fold sp_step (replicate n (Receive i)) t) = sp_app s"
    using drain [of t i i] m(2,4) i f len by (auto simp: Let_def t_def)
  let ?u = "fold sp_step (replicate n (Receive i)) t" and ?bs = "replicate m (Receive (home k)) @ replicate n (Receive i)"
  have "sp_cache ?u i k \<noteq> []"
    using replied_receives [OF m(2) [folded t_def] n(1) r k(3)] n(3) by (simp add: replied_def)
  moreover have "length (sp_q ?u) = length (sp_q s)"
    unfolding len [symmetric] by (induction n arbitrary: t) (simp_all del: sp_step.simps)
  ultimately have "sched (?bs @ [AppResume i]) s"
    using m(1) n(1,4) w i by (simp add: sched_append t_def)
  then show ?thesis
    using n(4) w by (intro exI [of _ ?bs]) (auto simp: t_def)
qed

section \<open>Shutdown\<close>

lemma receiver_stopped:
  assumes inv: "spec_inv s" and i: "i < length (sp_q s)" and r: "\<not> sp_receiving s i"
  shows "sp_q s ! i = []" and "j < length (sp_q s) \<Longrightarrow> sp_app s j = Finished"
proof -
  have t: "inv_teardown s" using spec_invD(10) [OF inv] .
  then have d: "list_all id (sp_done s)" using i r by (auto simp: inv_teardown_def split: if_splits)
  with t i r show "sp_q s ! i = []" by (simp add: inv_teardown_def)
  show "j < length (sp_q s) \<Longrightarrow> sp_app s j = Finished" by (rule all_done(1) [OF inv d])
qed

lemma nothing_to_receive:
  assumes inv: "spec_inv s" and fin: "\<forall>i < length (sp_q s). sp_app s i = Finished"
    and quiet: "\<forall>i < length (sp_q s). \<not> enabled (Receive i) s" and i: "i < length (sp_q s)"
  shows "\<not> sp_receiving s i"
proof -
  note D = spec_invD [OF inv]
  have q: "sp_receiving s j \<Longrightarrow> sp_q s ! j = []" if "j < length (sp_q s)" for j using quiet that by auto
  have "list_all id (sp_done s)"
  proof (rule ccontr)
    assume nd: "\<not> list_all id (sp_done s)"
    then have "sp_q s ! 0 = []" using q [OF D(1)] D(1,10) by (simp add: inv_teardown_def)
    then have "sp_done s ! j" if "j < length (sp_q s)" for j
      using D(9) fin that by (auto simp: inv_done_def split: if_splits)
    then show False using nd D(9) by (auto simp: list_all_length inv_done_def)
  qed
  with D(10) q [OF i] i show ?thesis by (auto simp: inv_teardown_def)
qed

lemma sp_handle_puts: "sp_puts (sp_handle i m s) = sp_puts s"
  by (cases m) (auto simp: Let_def split: option.split)

lemma sp_step_puts:
  "sp_puts (sp_step a s) = sp_puts s \<union> {(k, v). \<exists>j. a = AppPut j k v}"
  by (cases a) (auto simp: Let_def sp_handle_puts simp del: sp_handle.simps
    split: AppState.split list.split Msg.split)

lemma fold_puts: "sp_puts (fold sp_step as s) = sp_puts s \<union> {(k, v). \<exists>j. AppPut j k v \<in> set as}"
  by (induction as arbitrary: s) (auto simp: sp_step_puts simp del: sp_step.simps)

section \<open>Properties\<close>

text \<open>
  The runs the properties are tried on: node 0 asks for a key that lives on node 1, node 1
  puts it, node 0 gets the reply, and the program shuts down.
\<close>

definition demo_key :: Key where "demo_key = Key_lit ''main'' 1"

definition demo_value :: Value where "demo_value = Value_lit ''xyz''"

definition demo_wait :: "Action list" where
  "demo_wait = [AppWaitAndGet 0 demo_key, AppPut 1 demo_key demo_value]"

definition demo_got :: "Action list" where
  "demo_got = demo_wait @ [Receive 1, Receive 0, AppResume 0]"

definition demo_end :: "Action list" where
  "demo_end = demo_got @ [AppFinish 0, AppFinish 1, Receive 0, Receive 0, Receive 0, Receive 1]"

lemmas demo_defs = demo_key_def demo_value_def demo_wait_def demo_got_def demo_end_def schedule_def sp_run_def
  sp_send_def sp_pop_def sp_park_def sp_put_def home_def replies_def Message_new_def getTarget_def
  getSender_def new_DoneMsg_def new_TeardownMsg_def serverIndex_def upt_rec

lemma sp_init_2: "sp_init 2 = \<lparr>sp_q = [[], []], sp_store = \<lambda>_. Map.empty, sp_cache = \<lambda>_ _. [],
    sp_app = \<lambda>_. Running, sp_receiving = \<lambda>_. True, sp_done = [False, False], sp_puts = {}, sp_got = []\<rparr>"
  by (simp add: sp_init_def numeral_2_eq_2)

lemma demo_schedules: "schedule 2 demo_wait" "schedule 2 demo_got" "schedule 2 demo_end"
  by (simp_all add: demo_defs sp_init_2 Let_def cstr_ok_def)



text \<open>C14: What a blocking get returns was put. Every value that a call of \<open>waitAndGet\<close>
  returned, local or remote, was given to \<open>put\<close> under that key by some application during
  the run.\<close>

theorem got_values_were_put:
  assumes "schedule n as" and "run n as = Inr c" and "(i, k, v) \<in> set (cl_got c)"
  shows "\<exists>j. AppPut j k v \<in> set as"
proof -
  have "(i, k, v) \<in> set (sp_got (sp_run n as))"
    using run_refines [OF assms(1,2)] assms(3) by (simp add: refines_def)
  then have "(k, v) \<in> sp_puts (sp_run n as)"
    using spec_invD(8) [OF run_inv(2) [OF assms(1)]] by (auto simp: inv_got_def)
  then show ?thesis by (simp add: sp_run_def fold_puts sp_init_def)
qed

lemma got_values_were_put_witness:
  "\<exists>c. run 2 demo_got = Inr c \<and> (0, demo_key, demo_value) \<in> set (cl_got c) \<and>
     (\<exists>j. AppPut j demo_key demo_value \<in> set demo_got)"
proof -
  obtain c where c: "run 2 demo_got = Inr c" "refines c (sp_run 2 demo_got)"
    using run_inv(1) [OF demo_schedules(2)] by blast
  then have g: "(0, demo_key, demo_value) \<in> set (cl_got c)"
    by (simp add: refines_def demo_defs sp_init_2 Let_def)
  with got_values_were_put [OF demo_schedules(2) c(1) g] c(1) show ?thesis by blast
qed



text \<open>C27: The shutdown is clean. A receiver that has stopped has handled every message sent to
  its node, and by then the application of every node has finished, so that nobody waits
  for an answer of that node.\<close>

theorem stopped_receiver_left_nothing:
  assumes "schedule n as" and "run n as = Inr c" and "i < n" and "\<not> nd_receiving (cl_nodes c ! i)"
  shows "(\<exists>qs. MsgQueueArr_repr (cl_mqa c) qs \<and> qs ! i = []) \<and> (\<forall>j < n. nd_app (cl_nodes c ! j) = Finished)"
proof -
  note inv = run_inv(2,3) [OF assms(1)] and r = run_refines [OF assms(1,2)]
  have i: "i < length (sp_q (sp_run n as))" "\<not> sp_receiving (sp_run n as) i"
    using assms(3,4) inv(2) refinesD(8) [OF r, of i] by simp_all
  note st = receiver_stopped [OF inv(1) i]
  have "\<exists>qs. MsgQueueArr_repr (cl_mqa c) qs \<and> qs ! i = []" using st(1) r by (auto simp: refines_def)
  moreover have "\<forall>j < n. nd_app (cl_nodes c ! j) = Finished" using st(2) inv(2) refinesD(7) [OF r] by auto
  ultimately show ?thesis by blast
qed

lemma stopped_receiver_left_nothing_witness:
  "\<exists>c qs. run 2 demo_end = Inr c \<and> \<not> nd_receiving (cl_nodes c ! 1) \<and>
     MsgQueueArr_repr (cl_mqa c) qs \<and> qs ! 1 = [] \<and> (\<forall>j < 2. nd_app (cl_nodes c ! j) = Finished)"
proof -
  obtain c where c: "run 2 demo_end = Inr c" "refines c (sp_run 2 demo_end)"
    using run_inv(1) [OF demo_schedules(3)] by blast
  have "\<not> sp_receiving (sp_run 2 demo_end) 1" by (simp add: demo_defs sp_init_2 Let_def)
  then have r: "\<not> nd_receiving (cl_nodes c ! 1)"
    using refinesD(8) [OF c(2), of 1] run_inv(3) [OF demo_schedules(3)] by simp
  from stopped_receiver_left_nothing [OF demo_schedules(3) c(1) _ r] c(1) r show ?thesis by auto
qed

text \<open>C28: The program ends. Once the application of every node has finished and no receiver
  has a message it could take, every receiver has been told to stop and has stopped: the
  server's count of the nodes that are done and its teardown messages leave nobody waiting
  on an empty queue.\<close>

theorem all_receivers_stop:
  assumes "schedule n as" and "run n as = Inr c" and "\<forall>i < n. nd_app (cl_nodes c ! i) = Finished"
    and "\<forall>i < n. \<not> enabled (Receive i) (sp_run n as)"
  shows "\<forall>i < n. \<not> nd_receiving (cl_nodes c ! i)"
proof -
  note inv = run_inv(2,3) [OF assms(1)] and r = run_refines [OF assms(1,2)]
  have "\<forall>i < length (sp_q (sp_run n as)). sp_app (sp_run n as) i = Finished"
    using assms(3) inv(2) refinesD(7) [OF r] by auto
  from nothing_to_receive [OF inv(1) this] show ?thesis
    using assms(4) inv(2) refinesD(8) [OF r] by auto
qed

lemma all_receivers_stop_witness:
  "\<exists>c. run 2 demo_end = Inr c \<and> (\<forall>i < 2. \<not> nd_receiving (cl_nodes c ! i))"
proof -
  obtain c where c: "run 2 demo_end = Inr c" "refines c (sp_run 2 demo_end)"
    using run_inv(1) [OF demo_schedules(3)] by blast
  have "sp_app (sp_run 2 demo_end) 0 = Finished \<and> sp_app (sp_run 2 demo_end) 1 = Finished"
    "\<not> enabled (Receive 0) (sp_run 2 demo_end)" "\<not> enabled (Receive 1) (sp_run 2 demo_end)"
    by (simp_all add: demo_defs sp_init_2 Let_def)
  moreover have "\<forall>i < 2. nd_app (cl_nodes c ! i) = sp_app (sp_run 2 demo_end) i"
    using refinesD(7) [OF c(2)] run_inv(3) [OF demo_schedules(3)] by simp
  ultimately have "\<forall>i < 2. nd_app (cl_nodes c ! i) = Finished" "\<forall>i < 2. \<not> enabled (Receive i) (sp_run 2 demo_end)"
    by (auto simp: less_2_cases_iff simp del: enabled.simps)
  from all_receivers_stop [OF demo_schedules(3) c(1) this] c(1) show ?thesis by blast
qed

end
