(* ===== verification/Client.thy ===== *)
theory Client
  imports Runs
begin

text \<open>
  What the data layer relies on: it stores values with \<open>KVStore::put\<close> and reads them with
  the blocking \<open>KVStore::getValue\<close>, and never looks at the network. \<open>kv_client\<close> is that
  contract: a put value is what the next blocking read of the key returns, and nothing else
  changes. It holds of the store of a single node, and of a whole cluster, in which a put or a
  read of a remote key is the exchange of messages of the pseudo network, run to its end.
\<close>

section \<open>The contract\<close>

locale kv_client =
  fixes putv :: "Key \<Rightarrow> Value \<Rightarrow> 's \<Rightarrow> 's res"
    and getv :: "Key \<Rightarrow> 's \<Rightarrow> (Value option \<times> 's) res"
    and inv :: "'s \<Rightarrow> bool"
    and val :: "'s \<Rightarrow> Key \<rightharpoonup> Value"
    and homed :: "Key \<Rightarrow> bool"
  assumes put_val: "inv s \<Longrightarrow> Key_ok k \<Longrightarrow> homed k \<Longrightarrow> Value_ok v \<Longrightarrow>
      \<exists>s'. putv k v s = Inr s' \<and> inv s' \<and> val s' = (val s)(k \<mapsto> v)"
    and get_val: "inv s \<Longrightarrow> Key_ok k \<Longrightarrow> homed k \<Longrightarrow> val s k = Some v \<Longrightarrow>
      \<exists>s'. getv k s = Inr (Some v, s') \<and> inv s' \<and> val s' = val s"

section \<open>One node\<close>

definition local_put :: "(Msg \<Rightarrow> 'n \<Rightarrow> 'n res) \<Rightarrow> Key \<Rightarrow> Value \<Rightarrow> KVStore \<times> 'n \<Rightarrow> (KVStore \<times> 'n) res" where
  "local_put send k v = (\<lambda>(kv, net). KVStore_put send k v kv net)"

definition local_get :: "(Msg \<Rightarrow> 'n \<Rightarrow> 'n res) \<Rightarrow> Key \<Rightarrow> KVStore \<times> 'n \<Rightarrow> (Value option \<times> KVStore \<times> 'n) res" where
  "local_get send k = (\<lambda>(kv, net). getValue send k True kv net)"

definition local_inv :: "u64 \<Rightarrow> KVStore \<times> 'n \<Rightarrow> bool" where
  "local_inv n = (\<lambda>(kv, net). KVStore_inv kv \<and> kv_storeId kv = n \<and> cache_abs kv = (\<lambda>_. []))"

definition local_val :: "u64 \<Rightarrow> KVStore \<times> 'n \<Rightarrow> Key \<rightharpoonup> Value" where
  "local_val n = (\<lambda>(kv, net) k. if k_homeNode k = n then store_abs kv (k_str k) else None)"

lemma Key_eq_iff: "(k :: Key) = k' \<longleftrightarrow> k_str k = k_str k' \<and> k_homeNode k = k_homeNode k'"
  by (cases k; cases k') auto

interpretation local_kv: kv_client "local_put send" "local_get send" "local_inv n" "local_val n"
  "\<lambda>k. k_homeNode k = n" for send n
proof unfold_locales
  fix s :: "KVStore \<times> 'a" and k v
  assume inv: "local_inv n s" and k: "Key_ok k" "k_homeNode k = n"
  obtain kv net where s: "s = (kv, net)" by (cases s)
  have i: "KVStore_inv kv" "kv_storeId kv = n" "cache_abs kv = (\<lambda>_. [])" using inv s by (simp_all add: local_inv_def)
  {
    assume v: "Value_ok v"
    obtain kv' where "KVStore_put send k v kv net = Inr (kv', net)" "KVStore_inv kv'" "kv_storeId kv' = n"
      "store_abs kv' = (store_abs kv)(k_str k \<mapsto> v)" "cache_abs kv' = (\<lambda>_. [])"
      using KVStore_put_local [OF i(1) k(1) v, of send net] i k(2) by (auto simp: replies_def fun_upd_idem_iff)
    then show "\<exists>s'. local_put send k v s = Inr s' \<and> local_inv n s' \<and> local_val n s' = (local_val n s)(k \<mapsto> v)"
      using s k(2) by (auto simp: local_put_def local_inv_def local_val_def fun_eq_iff Key_eq_iff)
  }
  {
    assume "local_val n s k = Some v"
    then have "getLocalValue k True kv = Inr (Some v)"
      using getLocalValue_spec [OF i(1) k(1), of True] s k(2) by (simp add: local_val_def)
    then show "\<exists>s'. local_get send k s = Inr (Some v, s') \<and> local_inv n s' \<and> local_val n s' = local_val n s"
      using inv s i(2) k(2) by (simp add: local_get_def getValue_def)
  }
qed

section \<open>A cluster\<close>

text \<open>
  Node \<open>i\<close> stores or reads while nothing else goes on: its messages and those of the receivers
  that answer it are handled one after the other.
\<close>

definition cluster_put :: "nat \<Rightarrow> Key \<Rightarrow> Value \<Rightarrow> Cluster \<Rightarrow> Cluster res" where
  "cluster_put i k v = res_fold perform (AppPut i k v # (if home k = i then [] else [Receive (home k)]))"

definition cluster_get :: "nat \<Rightarrow> Key \<Rightarrow> Cluster \<Rightarrow> (Value option \<times> Cluster) res" where
  "cluster_get i k c =
     res_bind (res_fold perform
       (AppWaitAndGet i k # (if home k = i then [] else [Receive (home k), Receive i, AppResume i])) c) (\<lambda>c.
     Inr (map_option (\<lambda>(_, _, v). v) (case cl_got c of [] \<Rightarrow> None | g # _ \<Rightarrow> Some g), c))"

definition idle :: "Spec \<Rightarrow> bool" where
  "idle s \<longleftrightarrow> (\<forall>j < length (sp_q s). sp_q s ! j = [] \<and> sp_cache s j = (\<lambda>_. []))"

definition cluster_inv :: "nat \<Rightarrow> nat \<Rightarrow> Cluster \<Rightarrow> bool" where
  "cluster_inv n i c \<longleftrightarrow> 0 < n \<and> n < 2 ^ 64 \<and> i < n \<and>
     (\<exists>s. reachable n c s \<and> idle s \<and> (\<forall>j < n. sp_app s j = Running))"

lemma cluster_inv_node: "cluster_inv n i c \<Longrightarrow> j < n \<Longrightarrow> cluster_inv n j c"
  by (simp add: cluster_inv_def)

definition cluster_val :: "nat \<Rightarrow> Cluster \<Rightarrow> Key \<rightharpoonup> Value" where
  "cluster_val n c k = (if home k < n then store_abs (nd_kv (cl_nodes c ! home k)) (k_str k) else None)"

text \<open>A schedule from a reachable state, and what it leaves.\<close>

lemma reachable_sched:
  assumes "reachable n c s" and "0 < n" and "n < 2 ^ 64" and "sched as s"
  shows "\<exists>c'. res_fold perform as c = Inr c' \<and> reachable n c' (fold sp_step as s)"
  using assms(1,4)
proof (induction as arbitrary: c s)
  case Nil
  then show ?case by simp
next
  case (Cons a as)
  with reachable_perform [OF Cons.prems(1) assms(2,3), of a] show ?case by auto
qed

lemma cluster_val_spec:
  "reachable n c s \<Longrightarrow> 0 < n \<Longrightarrow> n < 2 ^ 64 \<Longrightarrow>
   cluster_val n c = (\<lambda>k. if home k < n then sp_store s (home k) (k_str k) else None)"
  using reachable_inv [of n c s] refinesD(5) [of c s] by (auto simp: cluster_val_def fun_eq_iff)

lemma running_receives:
  assumes "spec_inv s" and "i < length (sp_q s)" and "sp_app s i \<noteq> Finished" and "j < length (sp_q s)"
  shows "sp_receiving s j"
  using running_not_all_done [OF assms(1-3)] spec_invD(10) [OF assms(1)] assms(4) by (auto simp: inv_teardown_def)

lemma home_inj: "home k = home k' \<longleftrightarrow> k_homeNode k = k_homeNode k'"
  by (simp add: home_def word_unat_eq_iff)

lemma put_schedule:
  assumes inv: "spec_inv s" and idle: "idle s" and i: "i < length (sp_q s)" "sp_app s i = Running"
    and k: "Key_ok k" "home k < length (sp_q s)" and v: "Value_ok v"
  defines "as \<equiv> AppPut i k v # (if home k = i then [] else [Receive (home k)])"
  defines "t \<equiv> fold sp_step as s"
  shows "sched as s" and "idle t" and "sp_app t = sp_app s"
    and "sp_store t = (sp_store s)(home k := (sp_store s (home k))(k_str k \<mapsto> v))"
proof -
  have r: "sp_receiving s (home k)" using running_receives [OF inv i(1) _ k(2)] i(2) by simp
  have q: "sp_q s ! j = []" "sp_cache s j = (\<lambda>_. [])" if "j < length (sp_q s)" for j
    using idle that by (simp_all add: idle_def)
  have h: "unat (k_homeNode k) = home k" by (simp add: home_def)
  show "sched as s"
    using i k v r q(1) [OF k(2)] by (auto simp: as_def Let_def h)
  show "idle t"
    using q k by (auto simp: t_def as_def idle_def Let_def h fun_eq_iff replies_def)
  show "sp_app t = sp_app s" "sp_store t = (sp_store s)(home k := (sp_store s (home k))(k_str k \<mapsto> v))"
    using q k by (auto simp: t_def as_def Let_def h)
qed

lemma get_schedule:
  assumes inv: "spec_inv s" and idle: "idle s" and i: "i < length (sp_q s)" "sp_app s i = Running"
    and k: "Key_ok k" "home k < length (sp_q s)" and v: "sp_store s (home k) (k_str k) = Some v"
    and n: "length (sp_q s) < 2 ^ 64"
  defines "as \<equiv> AppWaitAndGet i k # (if home k = i then [] else [Receive (home k), Receive i, AppResume i])"
  defines "t \<equiv> fold sp_step as s"
  shows "sched as s" and "idle t" and "sp_app t = sp_app s" and "sp_store t = sp_store s"
    and "sp_got t = (i, k, v) # sp_got s"
proof -
  have r: "sp_receiving s (home k)" "sp_receiving s i"
    using running_receives [OF inv i(1) _ k(2)] running_receives [OF inv i(1) _ i(1)] i(2) by simp_all
  have q: "sp_q s ! j = []" "sp_cache s j = (\<lambda>_. [])" if "j < length (sp_q s)" for j
    using idle that by (simp_all add: idle_def)
  have h: "unat (k_homeNode k) = home k" by (simp add: home_def)
  have u: "unat (of_nat i :: u64) = i" using i(1) n by simp
  note simps = as_def t_def Let_def h u getTarget_def Message_new_def
  show "sched as s"
    using i k v r q(1) [OF k(2)] q [OF i(1)] by (auto simp: simps)
  show "idle t"
    using q k v i by (auto simp: simps idle_def fun_eq_iff)
  show "sp_app t = sp_app s" "sp_store t = sp_store s" "sp_got t = (i, k, v) # sp_got s"
    using q k v i by (auto simp: simps)
qed

interpretation cluster_kv: kv_client "cluster_put i" "cluster_get i" "cluster_inv n i" "cluster_val n" "\<lambda>k. home k < n"
  for i n
proof unfold_locales
  fix c k v
  assume "cluster_inv n i c" and k: "Key_ok k" "home k < n"
  then obtain s where n: "0 < n" "n < 2 ^ 64" "i < n" and s: "reachable n c s" "idle s" "\<forall>j < n. sp_app s j = Running"
    by (auto simp: cluster_inv_def)
  then have run: "sp_app s i = Running" by blast
  have inv: "refines c s" "spec_inv s" "length (sp_q s) = n" using reachable_inv [OF s(1) n(1,2)] by simp_all
  have i: "i < length (sp_q s)" "home k < length (sp_q s)" using n k inv(3) by simp_all
  {
    assume v: "Value_ok v"
    note P = put_schedule [OF inv(2) s(2) i(1) run k(1) i(2) v]
    obtain c' where c': "cluster_put i k v c = Inr c'"
      "reachable n c' (fold sp_step (AppPut i k v # (if home k = i then [] else [Receive (home k)])) s)"
      using reachable_sched [OF s(1) n(1,2) P(1)] unfolding cluster_put_def by blast
    have "cluster_val n c' = (cluster_val n c)(k \<mapsto> v)"
      unfolding cluster_val_spec [OF c'(2) n(1,2)] cluster_val_spec [OF s(1) n(1,2)] P(4)
      using k(2) by (auto simp: fun_eq_iff Key_eq_iff simp flip: home_inj)
    then show "\<exists>c'. cluster_put i k v c = Inr c' \<and> cluster_inv n i c' \<and> cluster_val n c' = (cluster_val n c)(k \<mapsto> v)"
      using c' n P(2,3) s(3) unfolding cluster_inv_def by (intro exI [of _ c']) auto
  }
  {
    assume "cluster_val n c k = Some v"
    then have v: "sp_store s (home k) (k_str k) = Some v"
      unfolding cluster_val_spec [OF s(1) n(1,2)] by (simp split: if_splits)
    have n': "length (sp_q s) < 2 ^ 64" using inv(3) n by simp
    note G = get_schedule [OF inv(2) s(2) i(1) run k(1) i(2) v n']
    let ?as = "AppWaitAndGet i k # (if home k = i then [] else [Receive (home k), Receive i, AppResume i])"
    obtain c' where c': "res_fold perform ?as c = Inr c'" "reachable n c' (fold sp_step ?as s)"
      using reachable_sched [OF s(1) n(1,2) G(1)] by blast
    have "cl_got c' = (i, k, v) # sp_got s"
      using reachable_inv [OF c'(2) n(1,2)] G(5) by (simp add: refines_def)
    then have "cluster_get i k c = Inr (Some v, c')" using c'(1) by (simp add: cluster_get_def)
    moreover have "cluster_val n c' = cluster_val n c"
      unfolding cluster_val_spec [OF c'(2) n(1,2)] cluster_val_spec [OF s(1) n(1,2)] G(4) ..
    ultimately show "\<exists>c'. cluster_get i k c = Inr (Some v, c') \<and> cluster_inv n i c' \<and> cluster_val n c' = cluster_val n c"
      using c' n G(2,3) s(3) unfolding cluster_inv_def by (intro exI [of _ c']) auto
  }
qed

lemma cluster_start:
  assumes "i < n" and "n < 2 ^ 64"
  shows "\<exists>c. Cluster_init n = Inr c \<and> cluster_inv n i c \<and> cluster_val n c = Map.empty"
proof -
  obtain c where c: "Cluster_init n = Inr c" using refines_init [OF assms(2)] by blast
  then have r: "reachable n c (sp_init n)" by (rule reachable.start)
  have "idle (sp_init n)" "\<forall>j < n. sp_app (sp_init n) j = Running" by (simp_all add: idle_def sp_init_def)
  moreover have "0 < n" using assms by simp
  ultimately show ?thesis
    using c r assms cluster_val_spec [OF r] by (auto simp: cluster_inv_def sp_init_def)
qed

end
