(* ===== verification/Column.thy ===== *)
theory Column
  imports BlockCache BlockClasses Args Client
begin

text \<open>
  Columns (\<open>src/dataframe/column/column.h\<close>, \<open>distributedarray.h\<close>, \<open>keyarr.h\<close>) and the type
  codes of \<open>src/utils/datatypeutils.h\<close>.

  A column is a list of keys; the elements are in the store, \<open>blockSize\<close> of them under each
  key. The store is reached through its two operations, which are arguments here: \<open>putv\<close> is
  \<open>KVStore::put\<close>, \<open>getv\<close> the blocking \<open>KVStore::getValue\<close>, and \<open>'s\<close> is what they act on
  (the node's store or the whole cluster, see the theory \<open>Client\<close>). The four overloads of
  each operation are one polymorphic definition and its instances; an \<open>AnyBlock\<close> is a pointer
  to a \<open>Block\<close>, and a \<open>dynamic_cast\<close> is the projection to one of its constructors.
\<close>

section \<open>Type codes\<close>

datatype DataType = Field | Boolean | Integer | Double | Str

definition charToType :: "char \<Rightarrow> DataType res" where
  "charToType c =
     (if c \<in> {CHR ''I'', CHR ''i''} then Inr Integer
      else if c \<in> {CHR ''S'', CHR ''s''} then Inr Str
      else if c \<in> {CHR ''B'', CHR ''b''} then Inr Boolean
      else if c \<in> {CHR ''D'', CHR ''d''} then Inr Double
      else Inl (Exit (-1)))"

fun typeToChar :: "DataType \<Rightarrow> char res" where
  "typeToChar Integer = Inr (CHR ''I'')"
| "typeToChar Str = Inr (CHR ''S'')"
| "typeToChar Boolean = Inr (CHR ''B'')"
| "typeToChar Double = Inr (CHR ''D'')"
| "typeToChar Field = Inl (Exit (-1))"

text \<open>The value of the enumeration, as the implicit conversion to \<open>char\<close> gives it.\<close>

fun DataType_code :: "DataType \<Rightarrow> char" where
  "DataType_code Field = CHR 0x00"
| "DataType_code Boolean = CHR 0x01"
| "DataType_code Integer = CHR 0x02"
| "DataType_code Double = CHR 0x03"
| "DataType_code Str = CHR 0x04"

lemma charToType_typeToChar: "typeToChar t = Inr c \<Longrightarrow> charToType c = Inr t"
  by (cases t) (auto simp: charToType_def)

lemma charToType_code: "charToType (DataType_code t) = Inl (Exit (-1))"
  by (cases t) (auto simp: charToType_def)

section \<open>KeyArr\<close>

type_synonym KeyArr = "Key Array"

definition KeyArr_new :: KeyArr where
  "KeyArr_new = Array_default"

definition KeyArr_add :: "Key \<Rightarrow> KeyArr \<Rightarrow> KeyArr res" where
  "KeyArr_add k ka = Array_add k ka"

definition KeyArr_get :: "nat \<Rightarrow> KeyArr \<Rightarrow> Key res" where
  "KeyArr_get i ka = Array_get i ka"

definition KeyArr_length :: "KeyArr \<Rightarrow> nat" where
  "KeyArr_length ka = arr_len ka"

definition KeyArr_index_of :: "Key \<Rightarrow> KeyArr \<Rightarrow> int res" where
  "KeyArr_index_of k ka = Array_index_of Key_equals k ka"

definition KeyArr_equals :: "KeyArr \<Rightarrow> KeyArr \<Rightarrow> bool res" where
  "KeyArr_equals ka other = Array_equals Key_equals ka other"

definition KeyArr_serialize :: "KeyArr \<Rightarrow> Serializer \<Rightarrow> Serializer res" where
  "KeyArr_serialize ka s =
     res_bind (write_size_t (of_nat (arr_len ka)) s) (\<lambda>s.
     res_fold (\<lambda>i s. res_bind (Array_get i ka) (\<lambda>k. Key_serialize k s)) [0..<arr_len ka] s)"

fun KeyArr_read :: "nat \<Rightarrow> KeyArr \<Rightarrow> Serializer \<Rightarrow> (KeyArr \<times> Serializer) res" where
  "KeyArr_read 0 ka s = Inr (ka, s)"
| "KeyArr_read (Suc n) ka s =
     res_bind (Key_deserialize s) (\<lambda>(k, s). res_bind (Array_add k ka) (\<lambda>ka. KeyArr_read n ka s))"

definition KeyArr_deserialize :: "Serializer \<Rightarrow> (KeyArr \<times> Serializer) res" where
  "KeyArr_deserialize s =
     res_bind (readSizeT s) (\<lambda>(len, s). KeyArr_read (unat len) Array_default s)"

section \<open>Blocks of any type\<close>

datatype AnyBlock =
    IntB "u32 Block"
  | BoolB "bool Block"
  | DoubleB "u64 Block"
  | StrB "String Block"

fun asInt :: "AnyBlock \<Rightarrow> u32 Block option" where
  "asInt (IntB b) = Some b" | "asInt _ = None"

fun asBool :: "AnyBlock \<Rightarrow> bool Block option" where
  "asBool (BoolB b) = Some b" | "asBool _ = None"

fun asDouble :: "AnyBlock \<Rightarrow> u64 Block option" where
  "asDouble (DoubleB b) = Some b" | "asDouble _ = None"

fun asStr :: "AnyBlock \<Rightarrow> String Block option" where
  "asStr (StrB b) = Some b" | "asStr _ = None"

section \<open>DistributedArray\<close>

record DistributedArray =
  da_keyList :: KeyArr
  da_cache :: "AnyBlock Cache"

definition DistributedArray_new :: "DistributedArray res" where
  "DistributedArray_new =
     res_bind Cache_default (\<lambda>c. Inr \<lparr>da_keyList = KeyArr_new, da_cache = c\<rparr>)"

definition DistributedArray_serialize :: "DistributedArray \<Rightarrow> Serializer \<Rightarrow> Serializer res" where
  "DistributedArray_serialize da = KeyArr_serialize (da_keyList da)"

definition DistributedArray_deserialize :: "DistributedArray \<Rightarrow> Serializer \<Rightarrow> (DistributedArray \<times> Serializer) res" where
  "DistributedArray_deserialize da s =
     res_bind (KeyArr_deserialize s) (\<lambda>(ka, s). Inr (da\<lparr>da_keyList := ka\<rparr>, s))"

definition DistributedArray_containsKey :: "Key \<Rightarrow> DistributedArray \<Rightarrow> bool res" where
  "DistributedArray_containsKey k da = res_bind (KeyArr_index_of k (da_keyList da)) (\<lambda>i. Inr (i \<ge> 0))"

definition DistributedArray_addKey :: "Key \<Rightarrow> DistributedArray \<Rightarrow> DistributedArray res" where
  "DistributedArray_addKey k da =
     res_bind (Key_clone k) (\<lambda>k. res_bind (KeyArr_add k (da_keyList da)) (\<lambda>ka. Inr (da\<lparr>da_keyList := ka\<rparr>)))"

definition DistributedArray_length :: "DistributedArray \<Rightarrow> nat" where
  "DistributedArray_length da = KeyArr_length (da_keyList da)"

text \<open>
  The value of a key, deserialized as a block of the wanted class. (A null value is
  dereferenced; the double version asserts instead.)
\<close>

definition getBlockFromStore ::
    "crash \<Rightarrow> (Serializer \<Rightarrow> ('a Block \<times> Serializer) res) \<Rightarrow> (Key \<Rightarrow> 's \<Rightarrow> (Value option \<times> 's) res) \<Rightarrow>
     Key \<Rightarrow> 's \<Rightarrow> ('a Block \<times> 's) res" where
  "getBlockFromStore onNull deser getv k st =
     res_bind (getv k st) (\<lambda>(val, st).
       case val of
         None \<Rightarrow> Inl onNull
       | Some v \<Rightarrow>
           res_bind (Serializer_of (v_capacity v) (v_val v)) (\<lambda>s.
           res_bind (deser s) (\<lambda>(b, _). Inr (b, st))))"

definition getIntBlockFromStore :: "(Key \<Rightarrow> 's \<Rightarrow> (Value option \<times> 's) res) \<Rightarrow> Key \<Rightarrow> 's \<Rightarrow> (u32 Block \<times> 's) res" where
  "getIntBlockFromStore = getBlockFromStore NullDeref IntBlock_deserialize"

definition getBoolBlockFromStore :: "(Key \<Rightarrow> 's \<Rightarrow> (Value option \<times> 's) res) \<Rightarrow> Key \<Rightarrow> 's \<Rightarrow> (bool Block \<times> 's) res" where
  "getBoolBlockFromStore = getBlockFromStore NullDeref BoolBlock_deserialize"

definition getDoubleBlockFromStore :: "(Key \<Rightarrow> 's \<Rightarrow> (Value option \<times> 's) res) \<Rightarrow> Key \<Rightarrow> 's \<Rightarrow> (u64 Block \<times> 's) res" where
  "getDoubleBlockFromStore = getBlockFromStore AssertFail DoubleBlock_deserialize"

definition getStrBlockFromStore :: "(Key \<Rightarrow> 's \<Rightarrow> (Value option \<times> 's) res) \<Rightarrow> Key \<Rightarrow> 's \<Rightarrow> (String Block \<times> 's) res" where
  "getStrBlockFromStore = getBlockFromStore NullDeref StringBlock_deserialize"

text \<open>\<open>getInt\<close> and its siblings: from the cache, after a miss has been filled from the store.\<close>

definition DistributedArray_item ::
    "(AnyBlock \<Rightarrow> 'a Block option) \<Rightarrow> ('a Block \<Rightarrow> AnyBlock) \<Rightarrow> (Key \<Rightarrow> 's \<Rightarrow> ('a Block \<times> 's) res) \<Rightarrow>
     Key \<Rightarrow> nat \<Rightarrow> DistributedArray \<Rightarrow> 's \<Rightarrow> ('a \<times> DistributedArray \<times> 's) res" where
  "DistributedArray_item cast mk fetch k itemIdx da st =
     res_bind (Cache_containsKey k (da_cache da)) (\<lambda>present.
     res_bind (if present then Inr (da_cache da, st)
               else
                 res_bind (fetch k st) (\<lambda>(val, st).
                 res_bind (Key_clone k) (\<lambda>k'.
                 res_bind (Cache_put k' (mk val) (da_cache da)) (\<lambda>c. Inr (c, st))))) (\<lambda>(c, st).
     res_bind (Cache_getBlock k c) (\<lambda>b.
       case (case b of None \<Rightarrow> None | Some b \<Rightarrow> cast b) of
         None \<Rightarrow> Inl (Exit 1)
       | Some data \<Rightarrow> res_bind (Block_get itemIdx data) (\<lambda>x. Inr (x, da\<lparr>da_cache := c\<rparr>, st)))))"

definition DistributedArray_getInt ::
    "(Key \<Rightarrow> 's \<Rightarrow> (Value option \<times> 's) res) \<Rightarrow> Key \<Rightarrow> nat \<Rightarrow> DistributedArray \<Rightarrow> 's \<Rightarrow> (u32 \<times> DistributedArray \<times> 's) res" where
  "DistributedArray_getInt getv = DistributedArray_item asInt IntB (getIntBlockFromStore getv)"

definition DistributedArray_getBool ::
    "(Key \<Rightarrow> 's \<Rightarrow> (Value option \<times> 's) res) \<Rightarrow> Key \<Rightarrow> nat \<Rightarrow> DistributedArray \<Rightarrow> 's \<Rightarrow> (bool \<times> DistributedArray \<times> 's) res" where
  "DistributedArray_getBool getv = DistributedArray_item asBool BoolB (getBoolBlockFromStore getv)"

definition DistributedArray_getDouble ::
    "(Key \<Rightarrow> 's \<Rightarrow> (Value option \<times> 's) res) \<Rightarrow> Key \<Rightarrow> nat \<Rightarrow> DistributedArray \<Rightarrow> 's \<Rightarrow> (u64 \<times> DistributedArray \<times> 's) res" where
  "DistributedArray_getDouble getv = DistributedArray_item asDouble DoubleB (getDoubleBlockFromStore getv)"

definition DistributedArray_getString ::
    "(Key \<Rightarrow> 's \<Rightarrow> (Value option \<times> 's) res) \<Rightarrow> Key \<Rightarrow> nat \<Rightarrow> DistributedArray \<Rightarrow> 's \<Rightarrow> (String \<times> DistributedArray \<times> 's) res" where
  "DistributedArray_getString getv k itemIdx da st =
     res_bind (DistributedArray_item asStr StrB (getStrBlockFromStore getv) k itemIdx da st) (\<lambda>(x, da, st).
     res_bind (String_copy x) (\<lambda>x. Inr (x, da, st)))"

section \<open>Column\<close>

record Column =
  co_size :: nat
  co_blocks :: DistributedArray
  co_type :: DataType
  co_baseKey :: Key

definition Column_new :: "Key \<Rightarrow> DataType \<Rightarrow> Column res" where
  "Column_new baseKey t =
     res_bind DistributedArray_new (\<lambda>da.
     Inr \<lparr>co_size = 0, co_blocks = da, co_type = t, co_baseKey = baseKey\<rparr>)"

definition Column_new_char :: "Key \<Rightarrow> char \<Rightarrow> Column res" where
  "Column_new_char baseKey type =
     res_bind DistributedArray_new (\<lambda>da.
     res_bind (charToType type) (\<lambda>t.
     Inr \<lparr>co_size = 0, co_blocks = da, co_type = t, co_baseKey = baseKey\<rparr>))"

definition Column_default :: "Column res" where
  "Column_default = res_bind Key_default (\<lambda>k. Column_new k Str)"

definition Column_serialize :: "Column \<Rightarrow> Serializer \<Rightarrow> Serializer res" where
  "Column_serialize c s =
     res_bind (write_size_t (of_nat (co_size c)) s) (\<lambda>s.
     res_bind (DistributedArray_serialize (co_blocks c) s) (\<lambda>s.
     res_bind (typeToChar (co_type c)) (\<lambda>t.
     res_bind (write_char t s) (Key_serialize (co_baseKey c)))))"

definition Column_deserialize :: "Column \<Rightarrow> Serializer \<Rightarrow> (Column \<times> Serializer) res" where
  "Column_deserialize c s =
     res_bind (readSizeT s) (\<lambda>(sz, s).
     res_bind (DistributedArray_deserialize (co_blocks c) s) (\<lambda>(da, s).
     res_bind (readChar s) (\<lambda>(t, s).
     res_bind (charToType t) (\<lambda>t.
     res_bind (Key_deserialize s) (\<lambda>(k, s).
     Inr (\<lparr>co_size = unat sz, co_blocks = da, co_type = t, co_baseKey = k\<rparr>, s))))))"

definition genKey :: "Args \<Rightarrow> nat \<Rightarrow> nat \<Rightarrow> Column \<Rightarrow> Key res" where
  "genKey args blockNum colIdx c =
     res_bind (StrBuff_c_String (k_str (co_baseKey c)) StrBuff_new) (\<lambda>buff.
     res_bind (StrBuff_c_cstr [CHR ''-'', NUL] buff) (\<lambda>buff.
     res_bind (StrBuff_c_size_t colIdx buff) (\<lambda>buff.
     res_bind (StrBuff_c_cstr [CHR ''-'', NUL] buff) (\<lambda>buff.
     res_bind (StrBuff_c_size_t blockNum buff) (\<lambda>buff.
     res_bind (StrBuff_get buff) (\<lambda>(keyStr, buff).
       if numNodes args = 0 then Inl DivByZero
       else Key_of_String keyStr (of_nat (blockNum mod numNodes args))))))))"

definition addBlockToStore ::
    "Args \<Rightarrow> (Key \<Rightarrow> Value \<Rightarrow> 's \<Rightarrow> 's res) \<Rightarrow> Serializer \<Rightarrow> nat \<Rightarrow> nat \<Rightarrow> Column \<times> 's \<Rightarrow> (Column \<times> 's) res" where
  "addBlockToStore args putv s keyIdx colIdx = (\<lambda>(c, st).
     res_bind (genKey args keyIdx colIdx c) (\<lambda>k.
     res_bind (cells_load (sz_buffer s) 0 (sz_written s)) (\<lambda>bytes.
     res_bind (Value_new bytes (sz_written s)) (\<lambda>val.
     res_bind (putv k val st) (\<lambda>st.
     res_bind (DistributedArray_addKey k (co_blocks c)) (\<lambda>da. Inr (c\<lparr>co_blocks := da\<rparr>, st)))))))"

text \<open>
  The loop of \<open>add_all\<close>. The blocks that are full are written to the store under the keys
  that follow those the column had before (\<open>blockCountBefore\<close>).
\<close>

definition fill_block :: "('a \<Rightarrow> 'a res) \<Rightarrow> 'a list \<Rightarrow> nat \<Rightarrow> nat \<Rightarrow> 'a Block \<Rightarrow> 'a Block res" where
  "fill_block clone vals from n block =
     res_fold (\<lambda>i block.
       res_bind (mem_load vals i 1) (\<lambda>xs.
       res_bind (clone (hd xs)) (\<lambda>x.
       res_bind (Block_add x block) (\<lambda>(_, block). Inr block)))) [from..<from + n] block"

function Column_add_loop ::
    "Args \<Rightarrow> (Key \<Rightarrow> Value \<Rightarrow> 's \<Rightarrow> 's res) \<Rightarrow> ('a \<Rightarrow> 'a res) \<Rightarrow> ('a Block \<Rightarrow> Serializer \<Rightarrow> Serializer res) \<Rightarrow>
     nat \<Rightarrow> 'a list \<Rightarrow> nat \<Rightarrow> nat \<Rightarrow> nat \<Rightarrow> 'a Block \<Rightarrow> Column \<times> 's \<Rightarrow> (nat \<times> Column \<times> 's) res" where
  "Column_add_loop args putv clone ser len vals colIdx blockCountBefore len_added block cst =
     (if len_added < len then
        let amount_to_add = min (len - len_added) (blockSize args) in
        res_bind (fill_block clone vals len_added amount_to_add block) (\<lambda>block.
        res_bind (ser block Serializer_new) (\<lambda>s.
          if blockSize args = 0 then Inl DivByZero
          else
            res_bind (addBlockToStore args putv s (blockCountBefore + len_added div blockSize args) colIdx cst) (\<lambda>cst.
            Column_add_loop args putv clone ser len vals colIdx blockCountBefore (len_added + amount_to_add)
              (Block_clear block) cst)))
      else Inr (len_added, cst))"
  by pat_completeness auto
termination
  by (relation "measure (\<lambda>(args, putv, clone, ser, len, vals, colIdx, before, len_added, block, cst). len - len_added)") auto

declare Column_add_loop.simps [simp del]

text \<open>
  On the wrong type the message is built with \<open>charToType (type_)\<close>, which does not know the
  enumeration values and exits with -1 before \<open>exit (1)\<close> is reached.
\<close>

definition Column_add_values ::
    "DataType \<Rightarrow> ('a \<Rightarrow> 'a res) \<Rightarrow> ('a Block \<Rightarrow> Serializer \<Rightarrow> Serializer res) \<Rightarrow>
     Args \<Rightarrow> (Key \<Rightarrow> Value \<Rightarrow> 's \<Rightarrow> 's res) \<Rightarrow> nat \<Rightarrow> 'a list \<Rightarrow> nat \<Rightarrow> Column \<times> 's \<Rightarrow> (Column \<times> 's) res" where
  "Column_add_values t clone ser args putv len vals colIdx = (\<lambda>(c, st).
     if co_type c \<noteq> t then res_bind (charToType (DataType_code (co_type c))) (\<lambda>_. Inl (Exit 1))
     else
       res_bind (Column_add_loop args putv clone ser len vals colIdx (DistributedArray_length (co_blocks c)) 0
         (Block_new (blockSize args)) (c, st)) (\<lambda>(len_added, c, st).
       Inr (c\<lparr>co_size := co_size c + len_added\<rparr>, st)))"

definition Column_add_ints ::
    "Args \<Rightarrow> (Key \<Rightarrow> Value \<Rightarrow> 's \<Rightarrow> 's res) \<Rightarrow> nat \<Rightarrow> u32 list \<Rightarrow> nat \<Rightarrow> Column \<times> 's \<Rightarrow> (Column \<times> 's) res" where
  "Column_add_ints = Column_add_values Integer Inr IntBlock_serialize"

definition Column_add_bools ::
    "Args \<Rightarrow> (Key \<Rightarrow> Value \<Rightarrow> 's \<Rightarrow> 's res) \<Rightarrow> nat \<Rightarrow> bool list \<Rightarrow> nat \<Rightarrow> Column \<times> 's \<Rightarrow> (Column \<times> 's) res" where
  "Column_add_bools = Column_add_values Boolean Inr BoolBlock_serialize"

definition Column_add_doubles ::
    "Args \<Rightarrow> (Key \<Rightarrow> Value \<Rightarrow> 's \<Rightarrow> 's res) \<Rightarrow> nat \<Rightarrow> u64 list \<Rightarrow> nat \<Rightarrow> Column \<times> 's \<Rightarrow> (Column \<times> 's) res" where
  "Column_add_doubles = Column_add_values Double Inr DoubleBlock_serialize"

definition Column_add_strings ::
    "Args \<Rightarrow> (Key \<Rightarrow> Value \<Rightarrow> 's \<Rightarrow> 's res) \<Rightarrow> nat \<Rightarrow> String list \<Rightarrow> nat \<Rightarrow> Column \<times> 's \<Rightarrow> (Column \<times> 's) res" where
  "Column_add_strings = Column_add_values Str String_copy StringBlock_serialize"

text \<open>The getters; on a column of another type they return -1 or, for strings, exit.\<close>

definition Column_item ::
    "DataType \<Rightarrow> 'a res \<Rightarrow> (Key \<Rightarrow> nat \<Rightarrow> DistributedArray \<Rightarrow> 's \<Rightarrow> ('a \<times> DistributedArray \<times> 's) res) \<Rightarrow>
     Args \<Rightarrow> nat \<Rightarrow> nat \<Rightarrow> Column \<times> 's \<Rightarrow> ('a \<times> Column \<times> 's) res" where
  "Column_item t wrong item args idx colIdx = (\<lambda>(c, st).
     if co_type c \<noteq> t then res_bind wrong (\<lambda>x. Inr (x, c, st))
     else if blockSize args = 0 then Inl DivByZero
     else
       res_bind (genKey args (idx div blockSize args) colIdx c) (\<lambda>k.
       res_bind (item k (idx mod blockSize args) (co_blocks c) st) (\<lambda>(x, da, st).
       Inr (x, c\<lparr>co_blocks := da\<rparr>, st))))"

definition Column_get_int ::
    "Args \<Rightarrow> (Key \<Rightarrow> 's \<Rightarrow> (Value option \<times> 's) res) \<Rightarrow> nat \<Rightarrow> nat \<Rightarrow> Column \<times> 's \<Rightarrow> (u32 \<times> Column \<times> 's) res" where
  "Column_get_int args getv = Column_item Integer (Inr (-1)) (DistributedArray_getInt getv) args"

definition Column_get_bool ::
    "Args \<Rightarrow> (Key \<Rightarrow> 's \<Rightarrow> (Value option \<times> 's) res) \<Rightarrow> nat \<Rightarrow> nat \<Rightarrow> Column \<times> 's \<Rightarrow> (bool \<times> Column \<times> 's) res" where
  "Column_get_bool args getv = Column_item Boolean (Inr True) (DistributedArray_getBool getv) args"

definition Column_get_double ::
    "Args \<Rightarrow> (Key \<Rightarrow> 's \<Rightarrow> (Value option \<times> 's) res) \<Rightarrow> nat \<Rightarrow> nat \<Rightarrow> Column \<times> 's \<Rightarrow> (u64 \<times> Column \<times> 's) res" where
  "Column_get_double args getv = Column_item Double (Inr 0xBFF0000000000000) (DistributedArray_getDouble getv) args"

definition Column_get_string ::
    "Args \<Rightarrow> (Key \<Rightarrow> 's \<Rightarrow> (Value option \<times> 's) res) \<Rightarrow> nat \<Rightarrow> nat \<Rightarrow> Column \<times> 's \<Rightarrow> (String \<times> Column \<times> 's) res" where
  "Column_get_string args getv = Column_item Str (Inl (Exit 1)) (DistributedArray_getString getv) args"

end
