(* ===== verification/ColumnLaws.thy ===== *)
theory ColumnLaws
  imports Column
begin

text \<open>
  What a column promises. \<open>Column_repr\<close> relates a column and the values in the store to the list
  of its blocks; inside the locale \<open>column_store\<close> (a store that keeps the contract \<open>kv_client\<close>
  and an element type that keeps the contract \<open>codec\<close>) appending adds the chunks of the new
  elements as blocks and reading finds an element in its block. The four element types on one
  node and on a cluster are the interpretations.
\<close>

section \<open>Chunks\<close>

function chunks :: "nat \<Rightarrow> 'a list \<Rightarrow> 'a list list" where
  "chunks b xs = (if b = 0 \<or> xs = [] then [] else take b xs # chunks b (drop b xs))"
  by pat_completeness auto
termination
  by (relation "measure (\<lambda>(b, xs). length xs)") auto

declare chunks.simps [simp del]

lemma chunks_Nil [simp]: "chunks b [] = []"
  by (simp add: chunks.simps)

lemma chunks_step: "0 < b \<Longrightarrow> xs \<noteq> [] \<Longrightarrow> chunks b xs = take b xs # chunks b (drop b xs)"
  by (subst chunks.simps) simp

lemma concat_chunks: "0 < b \<Longrightarrow> concat (chunks b xs) = xs"
  by (induction b xs rule: chunks.induct) (subst chunks.simps, simp)

lemma length_chunks: "0 < b \<Longrightarrow> length (chunks b xs) = (length xs + b - 1) div b"
proof (induction b xs rule: chunks.induct)
  case (1 b xs)
  show ?case
  proof (cases "xs = []")
    case True
    with 1 show ?thesis by simp
  next
    case False
    then have "0 < length xs" by simp
    then have eq: "length xs + b - 1 = length xs - 1 + b" "length xs - b + b - 1 = max (length xs) b - 1"
      using 1(2) by linarith+
    have "(max (length xs) b - 1) div b = (length xs - 1) div b"
      using 1(2) by (cases "length xs \<le> b") (simp_all add: max_def)
    moreover have "length (chunks b (drop b xs)) = (length xs - b + b - 1) div b"
      using 1(1) [of] False 1(2) by simp
    ultimately show ?thesis
      using chunks_step [OF 1(2) False] 1(2) div_add_self2 [of b "length xs - 1"] unfolding eq by simp
  qed
qed

lemma length_chunks_le: "0 < b \<Longrightarrow> length (chunks b xs) \<le> length xs"
proof (induction b xs rule: chunks.induct)
  case (1 b xs)
  show ?case
  proof (cases "xs = []")
    case False
    then have "length (chunks b (drop b xs)) \<le> length xs - b" "0 < length xs" using 1 by simp_all
    moreover have "Suc (length xs - b) \<le> length xs" using 1(2) calculation(2) by linarith
    ultimately show ?thesis unfolding chunks_step [OF 1(2) False] by simp
  qed simp
qed

lemma nth_chunks: "0 < b \<Longrightarrow> c < length (chunks b xs) \<Longrightarrow> chunks b xs ! c = take b (drop (c * b) xs)"
proof (induction b xs arbitrary: c rule: chunks.induct)
  case (1 b xs)
  then have ne: "xs \<noteq> []" by auto
  with 1 show ?case by (cases c) (simp_all add: chunks_step add.commute)
qed

text \<open>Element \<open>i\<close> is element \<open>i mod b\<close> of chunk \<open>i div b\<close>.\<close>

lemma chunks_index:
  assumes "0 < b" and "i < length xs"
  shows "i div b < length (chunks b xs)" and "i mod b < length (chunks b xs ! (i div b))"
    and "chunks b xs ! (i div b) ! (i mod b) = xs ! i"
proof -
  have "i div b < (length xs + b - 1) div b"
  proof -
    have "i + b \<le> length xs + b - 1" using assms by simp
    then have "(i + b) div b \<le> (length xs + b - 1) div b" by (rule div_le_mono)
    then have "Suc (i div b) \<le> (length xs + b - 1) div b" using assms(1) div_add_self2 [of b i] by simp
    then show ?thesis by simp
  qed
  then show c: "i div b < length (chunks b xs)" using assms by (simp add: length_chunks)
  have m: "i mod b < b" "i div b * b + i mod b = i" using assms by simp_all
  have "i mod b < length xs - i div b * b" using div_mult_mod_eq [of i b] assms by linarith
  then show "i mod b < length (chunks b xs ! (i div b))"
    unfolding nth_chunks [OF assms(1) c] using m by simp
  have "i div b * b \<le> length xs" using div_mult_mod_eq [of i b] assms by linarith
  then show "chunks b xs ! (i div b) ! (i mod b) = xs ! i"
    unfolding nth_chunks [OF assms(1) c] using m by simp
qed

lemma chunks_bound: "0 < b \<Longrightarrow> ys \<in> set (chunks b xs) \<Longrightarrow> length ys \<le> b \<and> set ys \<subseteq> set xs"
  by (induction b xs rule: chunks.induct)
    (subst (asm) chunks.simps, auto split: if_splits dest: in_set_takeD in_set_dropD)

section \<open>The keys of a column\<close>

definition block_key :: "Args \<Rightarrow> char list \<Rightarrow> nat \<Rightarrow> nat \<Rightarrow> Key" where
  "block_key args cs col c =
     Key_lit (cs @ ''-'' @ to_string col @ ''-'' @ to_string c) (of_nat (c mod numNodes args))"

definition base_ok :: "char list \<Rightarrow> nat \<Rightarrow> bool" where
  "base_ok cs col \<longleftrightarrow> NUL \<notin> set cs \<and> length cs < 2 ^ 32 \<and> col < 2 ^ 64"

lemma length_to_string: "n < 10 ^ Suc k \<Longrightarrow> length (to_string n) \<le> Suc k"
proof (induction k arbitrary: n)
  case 0
  then show ?case by (subst to_string.simps) simp
next
  case (Suc k)
  then have "n div 10 < 10 ^ Suc k" by (simp add: less_mult_imp_div_less mult.commute)
  from Suc.IH [OF this] show ?case by (subst to_string.simps) simp
qed

lemma block_key_ok: "base_ok cs col \<Longrightarrow> c < 2 ^ 64 \<Longrightarrow> Key_ok (block_key args cs col c)"
  using length_to_string [of col 19] length_to_string [of c 19] to_string_no_nul [of col] to_string_no_nul [of c]
  by (auto simp: block_key_def cstr_ok_def base_ok_def)

lemma length_enc_Key: "length (enc_Key (Key_lit cs n)) = length cs + 17"
  by (simp add: enc_Key_def enc_String_def enc_cstr_def)

lemma block_key_size: "base_ok cs col \<Longrightarrow> c < 2 ^ 64 \<Longrightarrow> length (enc_Key (block_key args cs col c)) \<le> length cs + 60"
  using length_to_string [of col 19] length_to_string [of c 19]
  by (simp add: block_key_def length_enc_Key base_ok_def)

lemma length_concat_le: "(\<And>x. x \<in> set xs \<Longrightarrow> length (f x) \<le> b) \<Longrightarrow> length (concat (map f xs)) \<le> length xs * b"
proof (induction xs)
  case (Cons x xs)
  then have "length (f x) \<le> b" "length (concat (map f xs)) \<le> length xs * b" by simp_all
  then show ?case by simp
qed simp

lemma split_dash:
  assumes "CHR ''-'' \<notin> set a" and "CHR ''-'' \<notin> set b"
  shows "a @ CHR ''-'' # r = b @ CHR ''-'' # s \<longleftrightarrow> a = b \<and> r = s"
proof
  assume eq: "a @ CHR ''-'' # r = b @ CHR ''-'' # s"
  have "takeWhile (\<lambda>c. c \<noteq> CHR ''-'') (a @ CHR ''-'' # r) = a" "takeWhile (\<lambda>c. c \<noteq> CHR ''-'') (b @ CHR ''-'' # s) = b"
    using assms by (subst takeWhile_append2; auto)+
  then have "a = b" using eq by metis
  with eq show "a = b \<and> r = s" by simp
qed simp

lemma block_key_inject [simp]: "block_key args cs i c = block_key args cs j d \<longleftrightarrow> i = j \<and> c = d"
  using split_dash [OF to_string_no_dash to_string_no_dash, of i "to_string c" j "to_string d"]
  by (auto simp: block_key_def)

lemma genKey_lit:
  assumes "co_baseKey c = Key_lit cs n" and "base_ok cs col" and "0 < numNodes args"
  shows "genKey args b col c = Inr (block_key args cs col b)"
proof -
  have cs: "cstr_ok cs" using assms(2) by (simp add: base_ok_def cstr_ok_def)
  obtain b1 where b1: "StrBuff_c_String (String_lit cs) StrBuff_new = Inr b1" "StrBuff_repr b1 cs"
    using StrBuff_c_String_appends [OF StrBuff_repr_new cs] by auto
  obtain b2 where b2: "StrBuff_c_cstr [CHR ''-'', NUL] b1 = Inr b2" "StrBuff_repr b2 (cs @ ''-'')"
    using StrBuff_c_cstr_appends [OF b1(2), of "''-''" "[]"] by auto
  obtain b3 where b3: "StrBuff_c_size_t col b2 = Inr b3" "StrBuff_repr b3 ((cs @ ''-'') @ to_string col)"
    using StrBuff_c_size_t_appends [OF b2(2)] by blast
  obtain b4 where b4: "StrBuff_c_cstr [CHR ''-'', NUL] b3 = Inr b4" "StrBuff_repr b4 (((cs @ ''-'') @ to_string col) @ ''-'')"
    using StrBuff_c_cstr_appends [OF b3(2), of "''-''" "[]"] by auto
  obtain b5 where b5: "StrBuff_c_size_t b b4 = Inr b5" "StrBuff_repr b5 ((((cs @ ''-'') @ to_string col) @ ''-'') @ to_string b)"
    using StrBuff_c_size_t_appends [OF b4(2)] by blast
  obtain b6 where "StrBuff_get b5 = Inr (String_lit ((((cs @ ''-'') @ to_string col) @ ''-'') @ to_string b), b6)"
    using StrBuff_get_content [OF b5(2)] by blast
  with b1 b2 b3 b4 b5 assms show ?thesis by (simp add: genKey_def block_key_def)
qed

section \<open>A column is a list of blocks\<close>

definition Column_repr ::
    "('a \<Rightarrow> bool) \<Rightarrow> ('a \<Rightarrow> char list) \<Rightarrow> ('a Block \<Rightarrow> AnyBlock) \<Rightarrow> DataType \<Rightarrow> Args \<Rightarrow> char list \<Rightarrow> nat \<Rightarrow>
     (Key \<rightharpoonup> Value) \<Rightarrow> 'a list list \<Rightarrow> Column \<Rightarrow> bool" where
  "Column_repr ok enc mk t args cs col v bss c \<longleftrightarrow>
     co_type c = t \<and> (\<exists>n. co_baseKey c = Key_lit cs n) \<and> base_ok cs col \<and> length bss < 2 ^ 64 \<and>
     0 < numNodes args \<and> 0 < blockSize args \<and> blockSize args < 2 ^ 64 \<and>
     Array_repr (da_keyList (co_blocks c)) (map (block_key args cs col) [0..<length bss]) \<and>
     (\<forall>i < length bss. list_all ok (bss ! i) \<and> length (bss ! i) \<le> blockSize args \<and>
        v (block_key args cs col i) = Some (Value_lit (enc_Block enc (Block_lit (blockSize args) (bss ! i))))) \<and>
     (\<exists>ks m. Cache_repr (da_cache (co_blocks c)) ks m \<and>
        (\<forall>k B. m k = Some B \<longrightarrow> (\<exists>i < length bss. k = block_key args cs col i \<and> B = mk (Block_lit (blockSize args) (bss ! i)))))"

lemma Column_reprD:
  assumes "Column_repr ok enc mk t args cs col v bss c"
  shows "co_type c = t" and "\<exists>n. co_baseKey c = Key_lit cs n" and "base_ok cs col" and "length bss < 2 ^ 64"
    and "0 < numNodes args" and "0 < blockSize args" and "blockSize args < 2 ^ 64"
    and "Array_repr (da_keyList (co_blocks c)) (map (block_key args cs col) [0..<length bss])"
    and "\<And>i. i < length bss \<Longrightarrow> list_all ok (bss ! i) \<and> length (bss ! i) \<le> blockSize args \<and>
        v (block_key args cs col i) = Some (Value_lit (enc_Block enc (Block_lit (blockSize args) (bss ! i))))"
    and "\<exists>ks m. Cache_repr (da_cache (co_blocks c)) ks m \<and>
        (\<forall>k B. m k = Some B \<longrightarrow> (\<exists>i < length bss. k = block_key args cs col i \<and> B = mk (Block_lit (blockSize args) (bss ! i))))"
  using assms unfolding Column_repr_def by blast+

lemma Column_repr_genKey: "Column_repr ok enc mk t args cs col v bss c \<Longrightarrow> genKey args b col c = Inr (block_key args cs col b)"
  using Column_reprD [of ok enc mk t args cs col v bss c] genKey_lit [of c cs _ col args b] by metis

text \<open>Values under other keys do not matter, nor does the size field.\<close>

lemma Column_repr_frame:
  assumes "Column_repr ok enc mk t args cs col v bss c" and "\<And>i. i < length bss \<Longrightarrow> w (block_key args cs col i) = v (block_key args cs col i)"
  shows "Column_repr ok enc mk t args cs col w bss (c\<lparr>co_size := n\<rparr>)"
  using assms unfolding Column_repr_def by simp

lemma Column_repr_new:
  assumes "base_ok cs col" and "0 < numNodes args" and "0 < blockSize args" and "blockSize args < 2 ^ 64"
  shows "\<exists>c. Column_new (Key_lit cs n) t = Inr c \<and> co_size c = 0 \<and> Column_repr ok enc mk t args cs col v [] c"
proof -
  obtain ca :: "AnyBlock Cache" where ca: "Cache_default = Inr ca" "Cache_repr ca [] Map.empty"
    using Cache_repr_new [of 15] by (auto simp: Cache_default_def)
  let ?c = "\<lparr>co_size = 0, co_blocks = \<lparr>da_keyList = KeyArr_new, da_cache = ca\<rparr>, co_type = t, co_baseKey = Key_lit cs n\<rparr>"
  have "Column_new (Key_lit cs n) t = Inr ?c"
    unfolding Column_new_def DistributedArray_new_def ca(1) by simp
  moreover have "Column_repr ok enc mk t args cs col v [] ?c"
    using assms ca(2) by (auto simp: KeyArr_new_def Column_repr_def Array_default_def)
  ultimately show ?thesis by (intro exI [of _ ?c]) simp
qed

section \<open>Homes\<close>

text \<open>The store reaches the home node of every key of a column.\<close>

definition homes :: "(Key \<Rightarrow> bool) \<Rightarrow> Args \<Rightarrow> bool" where
  "homes homed args \<longleftrightarrow> (\<forall>cs j. j < numNodes args \<longrightarrow> homed (Key_lit cs (of_nat j)))"

lemma homes_block_key: "homes homed args \<Longrightarrow> 0 < numNodes args \<Longrightarrow> homed (block_key args cs col c)"
  by (simp add: homes_def block_key_def)

section \<open>A column travels\<close>

lemma KeyArr_writes:
  assumes "Array_repr ka ks" and "list_all Key_ok ks"
  shows "writes (KeyArr_serialize ka) (enc_u64 (of_nat (length ks)) @ concat (map enc_Key ks))"
proof -
  have "res_fold (\<lambda>i s. res_bind (Array_get i ka) (\<lambda>k. Key_serialize k s)) [0..<arr_len ka] = res_fold Key_serialize ks"
  proof
    fix s
    have "res_fold (\<lambda>i s. res_bind (Array_get i ka) (\<lambda>k. Key_serialize k s)) [0..<length ks] s =
        res_fold (\<lambda>i. Key_serialize (ks ! i)) [0..<length ks] s"
      by (rule res_fold_cong) (simp add: Array_get_repr [OF assms(1)])
    also have "\<dots> = res_fold Key_serialize (map ((!) ks) [0..<length ks]) s" by (simp add: res_fold_map)
    finally show "res_fold (\<lambda>i s. res_bind (Array_get i ka) (\<lambda>k. Key_serialize k s)) [0..<arr_len ka] s = res_fold Key_serialize ks s"
      using Array_repr_len [OF assms(1)] by (simp add: map_nth)
  qed
  then show ?thesis
    unfolding KeyArr_serialize_def [abs_def] Array_repr_len [OF assms(1)]
    using writes_bind [OF writes_prims(1) Key_codec.all_writes [OF assms(2)]] by simp
qed

lemma KeyArr_read_reads:
  "Array_repr ka xs \<Longrightarrow> list_all Key_ok ks \<Longrightarrow>
   \<exists>ka'. reads (KeyArr_read (length ks) ka) (concat (map enc_Key ks)) ka' \<and> Array_repr ka' (xs @ ks)"
proof (induction ks arbitrary: ka xs)
  case Nil
  then show ?case using reads_Inr [of ka] by (auto simp: reads_def)
next
  case (Cons k ks)
  obtain k1 where k1: "Array_add k ka = Inr k1" "Array_repr k1 (xs @ [k])" using Array_add_repr [OF Cons.prems(1)] by blast
  obtain ka' where ka': "reads (KeyArr_read (length ks) k1) (concat (map enc_Key ks)) ka'" "Array_repr ka' ((xs @ [k]) @ ks)"
    using Cons.IH [OF k1(2)] Cons.prems(2) by auto
  have "reads Key_deserialize (enc_Key k) k" using Cons.prems(2) Key_codec.deser_reads by simp
  moreover have "reads (\<lambda>s. res_bind (Array_add k ka) (\<lambda>ka. KeyArr_read (length ks) ka s)) (concat (map enc_Key ks)) ka'"
    using ka'(1) k1(1) by simp
  ultimately have "reads (\<lambda>s. res_bind (Key_deserialize s) (\<lambda>(k, s). res_bind (Array_add k ka) (\<lambda>ka. KeyArr_read (length ks) ka s)))
      (enc_Key k @ concat (map enc_Key ks)) ka'"
    by (rule reads_bind)
  then have "reads (KeyArr_read (length (k # ks)) ka) (concat (map enc_Key (k # ks))) ka'"
    by (simp add: reads_def)
  moreover have "Array_repr ka' (xs @ k # ks)" using ka'(2) by simp
  ultimately show ?case by blast
qed

lemma KeyArr_reads:
  assumes "list_all Key_ok ks" and "length ks < 2 ^ 64"
  shows "\<exists>ka. reads KeyArr_deserialize (enc_u64 (of_nat (length ks)) @ concat (map enc_Key ks)) ka \<and> Array_repr ka ks"
proof -
  obtain ka where ka: "reads (KeyArr_read (length ks) Array_default) (concat (map enc_Key ks)) ka" "Array_repr ka ks"
    using KeyArr_read_reads [of Array_default "[]" ks] assms(1) by (auto simp: Array_default_def)
  have "reads (\<lambda>s. res_bind (readSizeT s) (\<lambda>(len, s). KeyArr_read (unat len) Array_default s))
      (enc_u64 (of_nat (length ks)) @ concat (map enc_Key ks)) ka"
    using ka(1) assms(2) by (intro reads_bind [OF reads_prims(1)]) simp
  with ka(2) show ?thesis by (auto simp: KeyArr_deserialize_def [abs_def])
qed

lemma Column_travels:
  assumes r: "Column_repr ok enc mk t args cs col v bss c" and t: "typeToChar t = Inr tc" and z: "co_size c < 2 ^ 64"
    and fresh: "Cache_repr (da_cache (co_blocks c0)) [] Map.empty"
  shows "\<exists>bs c'. writes (Column_serialize c) bs \<and> reads (Column_deserialize c0) bs c' \<and> co_size c' = co_size c \<and>
    Column_repr ok enc mk t args cs col v bss c' \<and> length bs \<le> (length bss + 1) * (length cs + 80)"
proof -
  note D = Column_reprD [OF r]
  let ?ks = "map (block_key args cs col) [0..<length bss]"
  obtain n where n: "co_baseKey c = Key_lit cs n" using D(2) by blast
  have base: "Key_ok (Key_lit cs n)" using D(3) by (simp add: base_ok_def cstr_ok_def)
  have ks: "list_all Key_ok ?ks" using block_key_ok [OF D(3)] D(4) by (auto simp: list_all_iff)
  let ?kb = "enc_u64 (of_nat (length ?ks)) @ concat (map enc_Key ?ks)"
  let ?sb = "enc_u64 (of_nat (co_size c))" and ?bb = "enc_Key (Key_lit cs n)"
  have w: "writes (Column_serialize c) (?sb @ ?kb @ [tc] @ ?bb)"
    unfolding Column_serialize_def [abs_def] DistributedArray_serialize_def D(1) t n res_bind_simps
    by (intro writes_bind writes_prims KeyArr_writes [OF D(8) ks] Key_codec.ser_writes base)
  obtain ka where ka: "reads KeyArr_deserialize ?kb ka" "Array_repr ka ?ks" using KeyArr_reads [OF ks] D(4) by auto
  let ?da = "(co_blocks c0)\<lparr>da_keyList := ka\<rparr>"
  let ?c = "\<lparr>co_size = co_size c, co_blocks = ?da, co_type = t, co_baseKey = Key_lit cs n\<rparr>"
  have "reads (\<lambda>s. res_bind (Key_deserialize s) (\<lambda>(k, s).
      Inr (\<lparr>co_size = co_size c, co_blocks = ?da, co_type = t, co_baseKey = k\<rparr>, s))) ?bb ?c"
    by (rule reads_mk1 [OF Key_codec.deser_reads [OF base]]) simp
  then have "reads (\<lambda>s. res_bind (readChar s) (\<lambda>(t, s). res_bind (charToType t) (\<lambda>t. res_bind (Key_deserialize s) (\<lambda>(k, s).
      Inr (\<lparr>co_size = co_size c, co_blocks = ?da, co_type = t, co_baseKey = k\<rparr>, s))))) ([tc] @ ?bb) ?c"
    using charToType_typeToChar [OF t] by (intro reads_bind [OF reads_prims(7)]) simp
  moreover have "reads (DistributedArray_deserialize (co_blocks c0)) ?kb ?da"
    unfolding DistributedArray_deserialize_def by (rule reads_mk1 [OF ka(1)]) simp
  ultimately have "reads (\<lambda>s. res_bind (DistributedArray_deserialize (co_blocks c0) s) (\<lambda>(da, s).
      res_bind (readChar s) (\<lambda>(t, s). res_bind (charToType t) (\<lambda>t. res_bind (Key_deserialize s) (\<lambda>(k, s).
      Inr (\<lparr>co_size = co_size c, co_blocks = da, co_type = t, co_baseKey = k\<rparr>, s)))))) (?kb @ [tc] @ ?bb) ?c"
    by (intro reads_bind)
  then have "reads (Column_deserialize c0) (?sb @ ?kb @ [tc] @ ?bb) ?c"
    unfolding Column_deserialize_def using z by (intro reads_bind [OF reads_prims(1)]) simp
  moreover have "Column_repr ok enc mk t args cs col v bss ?c"
    using r ka(2) fresh unfolding Column_repr_def by auto
  moreover have "length (?sb @ ?kb @ [tc] @ ?bb) \<le> (length bss + 1) * (length cs + 80)"
  proof -
    have "length (concat (map enc_Key ?ks)) \<le> length ?ks * (length cs + 60)"
      by (rule length_concat_le) (use D(3,4) in \<open>auto simp: block_key_size\<close>)
    then show ?thesis by (simp add: length_enc_Key algebra_simps)
  qed
  ultimately show ?thesis using w by (intro exI conjI) auto
qed

section \<open>Columns over any store\<close>

locale column_store = kv_client putv getv inv val homed + codec ser deser enc ok
  for putv :: "Key \<Rightarrow> Value \<Rightarrow> 's \<Rightarrow> 's res" and getv :: "Key \<Rightarrow> 's \<Rightarrow> (Value option \<times> 's) res"
    and inv :: "'s \<Rightarrow> bool" and val :: "'s \<Rightarrow> Key \<rightharpoonup> Value" and homed :: "Key \<Rightarrow> bool"
    and ser :: "'a \<Rightarrow> Serializer \<Rightarrow> Serializer res" and deser :: "Serializer \<Rightarrow> ('a \<times> Serializer) res"
    and enc :: "'a \<Rightarrow> char list" and ok :: "'a \<Rightarrow> bool" +
  fixes t :: DataType and clone :: "'a \<Rightarrow> 'a res" and mk :: "'a Block \<Rightarrow> AnyBlock"
    and cast :: "AnyBlock \<Rightarrow> 'a Block option" and onNull :: crash
  assumes clone_ok: "ok x \<Longrightarrow> clone x = Inr x"
    and cast_mk: "cast (mk b) = Some b"
begin

lemma fill_block_lit:
  assumes "list_all ok vals" and "fr + n \<le> length vals" and "length ys + n \<le> b"
  shows "fill_block clone vals fr n (Block_lit b ys) = Inr (Block_lit b (ys @ take n (drop fr vals)))"
  using assms
proof (induction n arbitrary: ys fr)
  case 0
  then show ?case by (simp add: fill_block_def)
next
  case (Suc n)
  have l: "mem_load vals fr 1 = Inr [vals ! fr]" "clone (vals ! fr) = Inr (vals ! fr)"
    using Suc.prems by (simp_all add: mem_load_def clone_ok list_all_length take_Suc hd_drop_conv_nth)
  have "fill_block clone vals fr (Suc n) (Block_lit b ys) =
      fill_block clone vals (Suc fr) n (Block_lit b (ys @ [vals ! fr]))"
    using l Suc.prems by (simp add: fill_block_def upt_conv_Cons Block_add_lit del: upt_Suc)
  also have "\<dots> = Inr (Block_lit b ((ys @ [vals ! fr]) @ take n (drop (Suc fr) vals)))"
    using Suc.prems by (intro Suc.IH) auto
  also have "(ys @ [vals ! fr]) @ take n (drop (Suc fr) vals) = ys @ take (Suc n) (drop fr vals)"
    using Suc.prems by (simp flip: Cons_nth_drop_Suc)
  finally show ?case .
qed

lemma add_block:
  assumes r: "Column_repr ok enc mk t args cs col (val st) bss c" and i: "inv st" and h: "homes homed args"
    and xs: "list_all ok xs" "length xs \<le> blockSize args"
      "length (enc_Block enc (Block_lit (blockSize args) xs)) < 2 ^ 64"
    and n: "Suc (length bss) < 2 ^ 64"
  shows "\<exists>s c' st'. Block_serialize ser (Block_lit (blockSize args) xs) Serializer_new = Inr s \<and>
    addBlockToStore args putv s (length bss) col (c, st) = Inr (c', st') \<and> inv st' \<and> co_size c' = co_size c \<and>
    Column_repr ok enc mk t args cs col (val st') (bss @ [xs]) c' \<and>
    val st' = (val st)(block_key args cs col (length bss) \<mapsto> Value_lit (enc_Block enc (Block_lit (blockSize args) xs)))"
proof -
  note D = Column_reprD [OF r]
  let ?b = "Block_lit (blockSize args) xs" and ?k = "block_key args cs col (length bss)"
  have "Block_ok ok ?b" using xs D(7) by (auto simp: Block_ok_def)
  from writes_value [OF Block_writes [OF this]] obtain s where s: "Block_serialize ser ?b Serializer_new = Inr s"
    "cells_load (sz_buffer s) 0 (sz_written s) = Inr (enc_Block enc ?b)" "sz_written s = length (enc_Block enc ?b)" by blast
  have k: "Key_ok ?k" "homed ?k" using block_key_ok [OF D(3,4)] homes_block_key [OF h D(5)] .
  obtain st' where st': "putv ?k (Value_lit (enc_Block enc ?b)) st = Inr st'" "inv st'"
    "val st' = (val st)(?k \<mapsto> Value_lit (enc_Block enc ?b))"
    using put_val [OF i k, of "Value_lit (enc_Block enc ?b)"] xs(3) by auto
  obtain ka where ka: "Array_add ?k (da_keyList (co_blocks c)) = Inr ka"
    "Array_repr ka (map (block_key args cs col) [0..<length bss] @ [?k])"
    using Array_add_repr [OF D(8)] by blast
  let ?c = "c\<lparr>co_blocks := (co_blocks c)\<lparr>da_keyList := ka\<rparr>\<rparr>"
  have a: "addBlockToStore args putv s (length bss) col (c, st) = Inr (?c, st')"
    using s(2,3) k(1) st'(1) ka(1) Value_new_take [of "length (enc_Block enc ?b)" "enc_Block enc ?b"]
    by (simp add: addBlockToStore_def Column_repr_genKey [OF r] DistributedArray_addKey_def KeyArr_add_def)
  have "Column_repr ok enc mk t args cs col (val st') (bss @ [xs]) ?c"
    unfolding Column_repr_def
  proof (intro conjI allI impI)
    fix j assume "j < length (bss @ [xs])"
    then have "j = length bss \<or> j < length bss" by auto
    then show "list_all ok ((bss @ [xs]) ! j)" "length ((bss @ [xs]) ! j) \<le> blockSize args"
      "val st' (block_key args cs col j) = Some (Value_lit (enc_Block enc (Block_lit (blockSize args) ((bss @ [xs]) ! j))))"
      using D(9) xs st'(3) by (auto simp: nth_append)
  next
    obtain ks m where m: "Cache_repr (da_cache (co_blocks c)) ks m"
      "\<And>k B. m k = Some B \<Longrightarrow> \<exists>i<length bss. k = block_key args cs col i \<and> B = mk (Block_lit (blockSize args) (bss ! i))"
      using D(10) by blast
    have "\<exists>i<length (bss @ [xs]). k = block_key args cs col i \<and> B = mk (Block_lit (blockSize args) ((bss @ [xs]) ! i))"
      if "m k = Some B" for k B
      using m(2) [OF that] by (auto simp: nth_append intro: less_SucI)
    with m(1) show "\<exists>ks m. Cache_repr (da_cache (co_blocks ?c)) ks m \<and> (\<forall>k B. m k = Some B \<longrightarrow>
        (\<exists>i<length (bss @ [xs]). k = block_key args cs col i \<and> B = mk (Block_lit (blockSize args) ((bss @ [xs]) ! i))))"
      by auto
  qed (use D n ka in simp_all)
  with s(1) a st' show ?thesis by auto
qed

lemma enc_Block_fits:
  assumes "16 + length (concat (map enc xs)) < 2 ^ 64"
  shows "length (enc_Block enc (Block_lit b (take n xs))) < 2 ^ 64" and "16 + length (concat (map enc (drop n xs))) < 2 ^ 64"
proof -
  have "concat (map enc xs) = concat (map enc (take n xs)) @ concat (map enc (drop n xs))"
    by (metis append_take_drop_id concat_append map_append)
  then have "length (concat (map enc xs)) = length (concat (map enc (take n xs))) + length (concat (map enc (drop n xs)))"
    by (metis length_append)
  with assms show "length (enc_Block enc (Block_lit b (take n xs))) < 2 ^ 64" "16 + length (concat (map enc (drop n xs))) < 2 ^ 64"
    by (simp_all add: enc_Block_lit)
qed

text \<open>The loop of \<open>add_all\<close> after \<open>j\<close> blocks: it stores the chunks of what is left.\<close>

lemma add_loop:
  assumes "Column_repr ok enc mk t args cs col (val st) bss c" and "inv st" and "homes homed args"
    and "list_all ok vals" and "16 + length (concat (map enc (drop a vals))) < 2 ^ 64" and "a \<le> length vals"
    and "a < length vals \<longrightarrow> blockSize args dvd a \<and> before + a div blockSize args = length bss"
    and "length bss + length (chunks (blockSize args) (drop a vals)) < 2 ^ 64"
  shows "\<exists>c' st'. Column_add_loop args putv clone (Block_serialize ser) (length vals) vals col before a
      (Block_lit (blockSize args) []) (c, st) = Inr (length vals, c', st') \<and> inv st' \<and> co_size c' = co_size c \<and>
    Column_repr ok enc mk t args cs col (val st') (bss @ chunks (blockSize args) (drop a vals)) c' \<and>
    (\<forall>k. (\<forall>i. k \<noteq> block_key args cs col i) \<longrightarrow> val st' k = val st k)"
  using assms
proof (induction "length vals - a" arbitrary: a bss c st rule: less_induct)
  case less
  note r = less.prems(1)
  let ?B = "blockSize args"
  have b: "0 < ?B" "?B < 2 ^ 64" using Column_reprD [OF r] by simp_all
  show ?case
  proof (cases "a < length vals")
    case False
    then have "a = length vals" using less.prems(6) by simp
    then show ?thesis using less.prems by (auto simp: Column_add_loop.simps)
  next
    case True
    define n where "n = min (length vals - a) ?B"
    let ?xs = "take ?B (drop a vals)"
    have xs: "take n (drop a vals) = ?xs" by (simp add: n_def min_def)
    have f: "fill_block clone vals a n (Block_lit ?B []) = Inr (Block_lit ?B ?xs)"
      using fill_block_lit [of vals a n "[]" ?B] less.prems(4) True xs by (simp add: n_def)
    have ch: "chunks ?B (drop a vals) = ?xs # chunks ?B (drop (a + n) vals)"
      using True b by (subst chunks_step) (auto simp: n_def min_def add.commute not_le)
    have okx: "list_all ok ?xs" using less.prems(4) by (auto simp: list_all_iff dest!: in_set_takeD in_set_dropD)
    have i: "length bss = before + a div ?B" using less.prems(7) True by simp
    have fit: "length (enc_Block enc (Block_lit ?B ?xs)) < 2 ^ 64" "16 + length (concat (map enc (drop (a + n) vals))) < 2 ^ 64"
      using enc_Block_fits(1) [OF less.prems(5), of ?B ?B] enc_Block_fits(2) [OF less.prems(5), of n] by (simp_all add: add.commute)
    obtain s c1 st1 where s: "Block_serialize ser (Block_lit ?B ?xs) Serializer_new = Inr s"
      "addBlockToStore args putv s (length bss) col (c, st) = Inr (c1, st1)" "inv st1" "co_size c1 = co_size c"
      "Column_repr ok enc mk t args cs col (val st1) (bss @ [?xs]) c1"
      "val st1 = (val st)(block_key args cs col (length bss) \<mapsto> Value_lit (enc_Block enc (Block_lit ?B ?xs)))"
      using add_block [OF r less.prems(2,3) okx _ fit(1)] less.prems(8) ch by auto
    have d: "a + n < length vals \<longrightarrow> ?B dvd a + n \<and> before + (a + n) div ?B = length (bss @ [?xs])"
      using True less.prems(7) b by (auto simp: n_def min_def)
    have "\<exists>c' st'. Column_add_loop args putv clone (Block_serialize ser) (length vals) vals col before (a + n)
        (Block_lit ?B []) (c1, st1) = Inr (length vals, c', st') \<and> inv st' \<and> co_size c' = co_size c1 \<and>
      Column_repr ok enc mk t args cs col (val st') ((bss @ [?xs]) @ chunks ?B (drop (a + n) vals)) c' \<and>
      (\<forall>k. (\<forall>i. k \<noteq> block_key args cs col i) \<longrightarrow> val st' k = val st1 k)"
      using True b less.prems(8) ch by (intro less.hyps s less.prems(3,4) fit(2) d) (auto simp: n_def)
    then show ?thesis
      using True b f s i ch by (auto simp: Column_add_loop.simps [of _ _ _ _ _ _ _ _ a] Let_def n_def [symmetric] Block_clear_lit)
  qed
qed

text \<open>Appending, on any column: the chunks of the new elements become its next blocks.\<close>

lemma add_all_repr:
  assumes r: "Column_repr ok enc mk t args cs col (val st) bss c" and i: "inv st" and h: "homes homed args"
    and v: "list_all ok vals" "16 + length (concat (map enc vals)) < 2 ^ 64" "length bss + length vals < 2 ^ 64"
  shows "\<exists>c' st'. Column_add_values t clone (Block_serialize ser) args putv (length vals) vals col (c, st) = Inr (c', st') \<and>
    inv st' \<and> co_size c' = co_size c + length vals \<and>
    Column_repr ok enc mk t args cs col (val st') (bss @ chunks (blockSize args) vals) c' \<and>
    (\<forall>k. (\<forall>i. k \<noteq> block_key args cs col i) \<longrightarrow> val st' k = val st k)"
proof -
  note D = Column_reprD [OF r]
  have "length (chunks (blockSize args) vals) \<le> length vals" using D(6) by (rule length_chunks_le)
  then obtain c' st' where c': "Column_add_loop args putv clone (Block_serialize ser) (length vals) vals col (length bss) 0
      (Block_lit (blockSize args) []) (c, st) = Inr (length vals, c', st')" "inv st'" "co_size c' = co_size c"
    "Column_repr ok enc mk t args cs col (val st') (bss @ chunks (blockSize args) vals) c'"
    "\<forall>k. (\<forall>i. k \<noteq> block_key args cs col i) \<longrightarrow> val st' k = val st k"
    using add_loop [OF r i h v(1), of 0 "length bss"] v(2,3) by auto
  have l: "DistributedArray_length (co_blocks c) = length bss"
    using Array_repr_len [OF D(8)] by (simp add: DistributedArray_length_def KeyArr_length_def)
  have "Column_repr ok enc mk t args cs col (val st') (bss @ chunks (blockSize args) vals)
      (c'\<lparr>co_size := co_size c' + length vals\<rparr>)"
    by (rule Column_repr_frame [OF c'(4)]) simp
  with c' l D(1) show ?thesis by (auto simp: Column_add_values_def Block_new_lit)
qed

text \<open>Reading: the block of the element comes from the cache or from the store.\<close>

lemma get_block:
  assumes r: "Column_repr ok enc mk t args cs col (val st) bss c" and i: "inv st" and h: "homes homed args"
    and b: "b < length bss"
  shows "\<exists>da' st'. inv st' \<and> val st' = val st \<and>
    Column_repr ok enc mk t args cs col (val st') bss (c\<lparr>co_blocks := da'\<rparr>) \<and>
    (\<forall>j. DistributedArray_item cast mk (getBlockFromStore onNull (Block_deserialize deser) getv) (block_key args cs col b) j
        (co_blocks c) st =
      (if j < length (bss ! b) then Inr (bss ! b ! j, da', st') else Inl (Exit 1)))"
proof -
  note D = Column_reprD [OF r]
  let ?B = "Block_lit (blockSize args) (bss ! b)" and ?k = "block_key args cs col b"
  obtain ks m where m: "Cache_repr (da_cache (co_blocks c)) ks m"
    "\<forall>k B. m k = Some B \<longrightarrow> (\<exists>i<length bss. k = block_key args cs col i \<and> B = mk (Block_lit (blockSize args) (bss ! i)))"
    using D(10) by blast
  have k: "Key_ok ?k" "homed ?k" using block_key_ok [OF D(3)] homes_block_key [OF h D(5)] D(4) b by simp_all
  have "\<exists>ca st'. (if m ?k \<noteq> None then Inr (da_cache (co_blocks c), st)
      else res_bind (getBlockFromStore onNull (Block_deserialize deser) getv ?k st) (\<lambda>(val, st).
        res_bind (Key_clone ?k) (\<lambda>k'. res_bind (Cache_put k' (mk val) (da_cache (co_blocks c))) (\<lambda>c. Inr (c, st))))) = Inr (ca, st') \<and>
    inv st' \<and> val st' = val st \<and> (\<exists>ks m'. Cache_repr ca ks m' \<and> m' ?k = Some (mk ?B) \<and>
      (\<forall>k B. m' k = Some B \<longrightarrow> (\<exists>i<length bss. k = block_key args cs col i \<and> B = mk (Block_lit (blockSize args) (bss ! i)))))"
  proof (cases "m ?k")
    case (Some B)
    then have "B = mk ?B" using m(2) by fastforce
    with Some m i show ?thesis by auto
  next
    case None
    have v: "val st ?k = Some (Value_lit (enc_Block enc ?B))" and okb: "Block_ok ok ?B"
      using D(7,9) b by (auto simp: Block_ok_def)
    obtain st' where g: "getv ?k st = Inr (Some (Value_lit (enc_Block enc ?B)), st')" "inv st'" "val st' = val st"
      using get_val [OF i k v] by blast
    obtain s u where "Serializer_of (length (enc_Block enc ?B)) (enc_Block enc ?B) = Inr s" "Block_deserialize deser s = Inr (?B, u)"
      using reads_value [OF Block_reads [OF okb]] by blast
    then have f: "getBlockFromStore onNull (Block_deserialize deser) getv ?k st = Inr (?B, st')"
      using g(1) by (simp add: getBlockFromStore_def)
    have "?k \<notin> set ks" using None m(1) by (auto simp: Cache_repr_def)
    from Cache_put_repr [OF m(1) k(1) this, of "mk ?B"] obtain ca where ca: "Cache_put ?k (mk ?B) (da_cache (co_blocks c)) = Inr ca"
      "Cache_repr ca (cache_room (ca_maxSize (da_cache (co_blocks c))) ks @ [?k])
        ((m |` set (cache_room (ca_maxSize (da_cache (co_blocks c))) ks))(?k \<mapsto> mk ?B))" by blast
    define m' where "m' = (m |` set (cache_room (ca_maxSize (da_cache (co_blocks c))) ks))(?k \<mapsto> mk ?B)"
    have "\<forall>k B. m' k = Some B \<longrightarrow> (\<exists>i<length bss. k = block_key args cs col i \<and> B = mk (Block_lit (blockSize args) (bss ! i)))"
      using m(2) b by (auto simp: m'_def restrict_map_def split: if_splits)
    moreover have "m' ?k = Some (mk ?B)" by (simp add: m'_def)
    moreover note ca(2) [folded m'_def]
    ultimately show ?thesis using None f k(1) ca(1) g by (intro exI [of _ ca] exI [of _ st']) auto
  qed
  then obtain ca st' ks' m' where ca: "(if m ?k \<noteq> None then Inr (da_cache (co_blocks c), st)
      else res_bind (getBlockFromStore onNull (Block_deserialize deser) getv ?k st) (\<lambda>(val, st).
        res_bind (Key_clone ?k) (\<lambda>k'. res_bind (Cache_put k' (mk val) (da_cache (co_blocks c))) (\<lambda>c. Inr (c, st))))) = Inr (ca, st')"
    "inv st'" "val st' = val st" "Cache_repr ca ks' m'" "m' ?k = Some (mk ?B)"
    "\<forall>k B. m' k = Some B \<longrightarrow> (\<exists>i<length bss. k = block_key args cs col i \<and> B = mk (Block_lit (blockSize args) (bss ! i)))"
    by blast
  let ?da = "(co_blocks c)\<lparr>da_cache := ca\<rparr>"
  have "Column_repr ok enc mk t args cs col (val st') bss (c\<lparr>co_blocks := ?da\<rparr>)"
    using r ca(3,4,6) unfolding Column_repr_def by auto
  moreover have "DistributedArray_item cast mk (getBlockFromStore onNull (Block_deserialize deser) getv) ?k j (co_blocks c) st =
      (if j < length (bss ! b) then Inr (bss ! b ! j, ?da, st') else Inl (Exit 1))" for j
    using Cache_containsKey_repr [OF m(1) k(1)] ca(1) Cache_getBlock_repr [OF ca(4) k(1)] ca(5)
    by (simp add: DistributedArray_item_def Block_get_lit cast_mk)
  ultimately show ?thesis using ca(2,3) by blast
qed

lemma get_repr:
  assumes r: "Column_repr ok enc mk t args cs col (val st) bss c" and i: "inv st" and h: "homes homed args"
    and b: "idx div blockSize args < length bss"
  shows "\<exists>c' st'. inv st' \<and> val st' = val st \<and> co_size c' = co_size c \<and>
    Column_repr ok enc mk t args cs col (val st') bss c' \<and>
    Column_item t w (DistributedArray_item cast mk (getBlockFromStore onNull (Block_deserialize deser) getv)) args idx col (c, st) =
      (if idx mod blockSize args < length (bss ! (idx div blockSize args))
       then Inr (bss ! (idx div blockSize args) ! (idx mod blockSize args), c', st') else Inl (Exit 1))"
proof -
  note D = Column_reprD [OF r]
  obtain da' st' where g: "inv st'" "val st' = val st"
    "Column_repr ok enc mk t args cs col (val st') bss (c\<lparr>co_blocks := da'\<rparr>)"
    "\<And>j. DistributedArray_item cast mk (getBlockFromStore onNull (Block_deserialize deser) getv)
        (block_key args cs col (idx div blockSize args)) j (co_blocks c) st =
      (if j < length (bss ! (idx div blockSize args)) then Inr (bss ! (idx div blockSize args) ! j, da', st') else Inl (Exit 1))"
    using get_block [OF r i h b] by blast
  then show ?thesis
    using D(1,6) by (intro exI [of _ "c\<lparr>co_blocks := da'\<rparr>"] exI [of _ st'])
      (simp add: Column_item_def Column_repr_genKey [OF r])
qed

text \<open>A column whose blocks are the chunks of \<open>xs\<close> reads as the list \<open>xs\<close>.\<close>

lemma get_chunks:
  assumes r: "Column_repr ok enc mk t args cs col (val st) (chunks (blockSize args) xs) c" and i: "inv st" and h: "homes homed args"
    and x: "idx < length xs"
  shows "\<exists>c' st'. inv st' \<and> val st' = val st \<and> co_size c' = co_size c \<and>
    Column_repr ok enc mk t args cs col (val st') (chunks (blockSize args) xs) c' \<and>
    Column_item t w (DistributedArray_item cast mk (getBlockFromStore onNull (Block_deserialize deser) getv)) args idx col (c, st) =
      Inr (xs ! idx, c', st')"
  using get_repr [OF r i h, of idx w] chunks_index [OF Column_reprD(6) [OF r] x] by simp

end

end
