(* ===== verification/ColumnProps.thy ===== *)
theory ColumnProps
  imports ColumnLaws
begin

text \<open>
  The properties of columns, for the four element types on one node and on a cluster: what was
  appended is read back, in any order and from any node; when appending twice works and when it
  does not; where the blocks go.
\<close>

section \<open>The element types\<close>

interpretation local_ints: column_store "local_put send" "local_get send" "local_inv n" "local_val n"
  "\<lambda>k. k_homeNode k = n" write_int readInt enc_u32 "\<lambda>_. True" Integer Inr IntB asInt NullDeref for send n
  by unfold_locales simp_all

interpretation local_bools: column_store "local_put send" "local_get send" "local_inv n" "local_val n"
  "\<lambda>k. k_homeNode k = n" write_bool readBool enc_bool "\<lambda>_. True" Boolean Inr BoolB asBool NullDeref for send n
  by unfold_locales simp_all

interpretation local_doubles: column_store "local_put send" "local_get send" "local_inv n" "local_val n"
  "\<lambda>k. k_homeNode k = n" write_double readDouble enc_u64 "\<lambda>_. True" Double Inr DoubleB asDouble AssertFail for send n
  by unfold_locales simp_all

interpretation local_strings: column_store "local_put send" "local_get send" "local_inv n" "local_val n"
  "\<lambda>k. k_homeNode k = n" String_serialize String_deserialize enc_String String_wf Str String_copy StrB asStr NullDeref for send n
  by unfold_locales (auto elim: String_wfE)

interpretation cluster_ints: column_store "cluster_put i" "cluster_get i" "cluster_inv n i" "cluster_val n"
  "\<lambda>k. home k < n" write_int readInt enc_u32 "\<lambda>_. True" Integer Inr IntB asInt NullDeref for i n
  by unfold_locales simp_all

interpretation cluster_bools: column_store "cluster_put i" "cluster_get i" "cluster_inv n i" "cluster_val n"
  "\<lambda>k. home k < n" write_bool readBool enc_bool "\<lambda>_. True" Boolean Inr BoolB asBool NullDeref for i n
  by unfold_locales simp_all

interpretation cluster_doubles: column_store "cluster_put i" "cluster_get i" "cluster_inv n i" "cluster_val n"
  "\<lambda>k. home k < n" write_double readDouble enc_u64 "\<lambda>_. True" Double Inr DoubleB asDouble AssertFail for i n
  by unfold_locales simp_all

interpretation cluster_strings: column_store "cluster_put i" "cluster_get i" "cluster_inv n i" "cluster_val n"
  "\<lambda>k. home k < n" String_serialize String_deserialize enc_String String_wf Str String_copy StrB asStr NullDeref for i n
  by unfold_locales (auto elim: String_wfE)

lemmas Column_adds = Column_add_ints_def Column_add_bools_def Column_add_doubles_def Column_add_strings_def
  IntBlock_serialize_def BoolBlock_serialize_def DoubleBlock_serialize_def StringBlock_serialize_def

text \<open>The getters, with the copy that \<open>get_string\<close> makes.\<close>

definition Column_read ::
    "DataType \<Rightarrow> 'a res \<Rightarrow> (AnyBlock \<Rightarrow> 'a Block option) \<Rightarrow> ('a Block \<Rightarrow> AnyBlock) \<Rightarrow> crash \<Rightarrow>
     (Serializer \<Rightarrow> ('a \<times> Serializer) res) \<Rightarrow> ('a \<Rightarrow> 'a res) \<Rightarrow> (Key \<Rightarrow> 's \<Rightarrow> (Value option \<times> 's) res) \<Rightarrow>
     Args \<Rightarrow> nat \<Rightarrow> nat \<Rightarrow> Column \<times> 's \<Rightarrow> ('a \<times> Column \<times> 's) res" where
  "Column_read t w cast mk onNull deser clone getv args idx col cst =
     res_bind (Column_item t w (DistributedArray_item cast mk (getBlockFromStore onNull (Block_deserialize deser) getv))
       args idx col cst) (\<lambda>(x, c, st). res_bind (clone x) (\<lambda>x. Inr (x, c, st)))"

lemma res_bind_triple [simp]: "res_bind m (\<lambda>(x, c, st). Inr (x, c, st)) = m"
  by (cases m) auto

lemma Column_gets:
  "Column_get_int args getv idx col = Column_read Integer (Inr (-1)) asInt IntB NullDeref readInt Inr getv args idx col"
  "Column_get_bool args getv idx col = Column_read Boolean (Inr True) asBool BoolB NullDeref readBool Inr getv args idx col"
  "Column_get_double args getv idx col =
     Column_read Double (Inr 0xBFF0000000000000) asDouble DoubleB AssertFail readDouble Inr getv args idx col"
  "Column_get_string args getv idx col =
     Column_read Str (Inl (Exit 1)) asStr StrB NullDeref String_deserialize String_copy getv args idx col"
proof -
  show "Column_get_int args getv idx col = Column_read Integer (Inr (-1)) asInt IntB NullDeref readInt Inr getv args idx col"
    by (simp add: fun_eq_iff Column_read_def Column_get_int_def DistributedArray_getInt_def getIntBlockFromStore_def IntBlock_deserialize_def)
  show "Column_get_bool args getv idx col = Column_read Boolean (Inr True) asBool BoolB NullDeref readBool Inr getv args idx col"
    by (simp add: fun_eq_iff Column_read_def Column_get_bool_def DistributedArray_getBool_def getBoolBlockFromStore_def BoolBlock_deserialize_def)
  show "Column_get_double args getv idx col =
      Column_read Double (Inr 0xBFF0000000000000) asDouble DoubleB AssertFail readDouble Inr getv args idx col"
    by (simp add: fun_eq_iff Column_read_def Column_get_double_def DistributedArray_getDouble_def getDoubleBlockFromStore_def
        DoubleBlock_deserialize_def)
  show "Column_get_string args getv idx col =
      Column_read Str (Inl (Exit 1)) asStr StrB NullDeref String_deserialize String_copy getv args idx col"
    by (auto simp: fun_eq_iff Column_read_def Column_get_string_def Column_item_def DistributedArray_getString_def
        getStrBlockFromStore_def StringBlock_deserialize_def res_bind_assoc case_prod_beta intro!: res_bind_cong)
qed

lemma homes_local: "homes (\<lambda>k. k_homeNode k = 0) args \<longleftrightarrow> numNodes args \<le> 1"
proof
  assume h: "homes (\<lambda>k. k_homeNode k = 0) args"
  show "numNodes args \<le> 1"
  proof (rule ccontr)
    assume "\<not> numNodes args \<le> 1"
    then have "(of_nat 1 :: u64) = 0" using h unfolding homes_def by (metis Key_lit_sel(2) not_le)
    then show False by simp
  qed
next
  assume "numNodes args \<le> 1"
  then have "of_nat j = (0 :: u64)" if "j < numNodes args" for j using that by (cases j) simp_all
  then show "homes (\<lambda>k. k_homeNode k = 0) args" by (simp add: homes_def)
qed

lemma homes_cluster: "numNodes args \<le> n \<Longrightarrow> n < 2 ^ 64 \<Longrightarrow> homes (\<lambda>k. home k < n) args"
  by (auto simp: homes_def home_def)

section \<open>Reading a column in any order\<close>

text \<open>A sequence of reads, each on the column the one before has left.\<close>

fun read_seq :: "(nat \<Rightarrow> 'c \<Rightarrow> ('a \<times> 'c) res) \<Rightarrow> nat list \<Rightarrow> 'c \<Rightarrow> ('a list \<times> 'c) res" where
  "read_seq get [] c = Inr ([], c)"
| "read_seq get (i # is) c =
     res_bind (get i c) (\<lambda>(x, c). res_bind (read_seq get is c) (\<lambda>(xs, c). Inr (x # xs, c)))"

lemma read_seq_invariant:
  assumes "P c" and "\<And>i c. i \<in> set is \<Longrightarrow> P c \<Longrightarrow> \<exists>c'. get i c = Inr (f i, c') \<and> P c'"
  shows "\<exists>c'. read_seq get is c = Inr (map f is, c') \<and> P c'"
  using assms
proof (induction "is" arbitrary: c)
  case (Cons i "is")
  obtain c1 where c1: "get i c = Inr (f i, c1)" "P c1" using Cons.prems(2) [of i c] Cons.prems(1) by auto
  obtain c2 where "read_seq get is c1 = Inr (map f is, c2)" "P c2"
    using Cons.IH [OF c1(2)] Cons.prems(2) by auto
  with c1 show ?case by auto
qed simp

lemma Column_default_ok:
  "\<exists>c. Column_default = Inr c \<and> Cache_repr (da_cache (co_blocks c)) [] Map.empty"
proof -
  obtain ca :: "AnyBlock Cache" where ca: "Cache_default = Inr ca" "Cache_repr ca [] Map.empty"
    using Cache_repr_new [of 15] by (auto simp: Cache_default_def)
  show ?thesis
    unfolding Column_default_def Column_new_def DistributedArray_new_def ca(1) using ca(2) by simp
qed

lemma chunks_append:
  "0 < b \<Longrightarrow> b dvd length xs \<Longrightarrow> chunks b (xs @ ys) = chunks b xs @ chunks b ys"
proof (induction b xs rule: chunks.induct)
  case (1 b xs)
  show ?case
  proof (cases "xs = []")
    case False
    then have le: "b \<le> length xs" using 1(3) by (auto dest: dvd_imp_le)
    then have "chunks b (drop b xs @ ys) = chunks b (drop b xs) @ chunks b ys"
      using 1(1) 1(2,3) False by simp
    then show ?thesis using 1(2) False le by (simp add: chunks_step)
  qed simp
qed

context column_store
begin

text \<open>A column whose blocks are the chunks of \<open>xs\<close> is the list \<open>xs\<close>, however it is read.\<close>

lemma reads_chunks:
  assumes "Column_repr ok enc mk t args cs col (val st) (chunks (blockSize args) xs) c" and "inv st" and h: "homes homed args"
    and ok: "list_all ok xs" and x: "list_all (\<lambda>idx. idx < length xs) idxs"
  shows "\<exists>c' st'. read_seq (\<lambda>idx. Column_read t w cast mk onNull deser clone getv args idx col) idxs (c, st) =
      Inr (map ((!) xs) idxs, c', st') \<and> inv st' \<and> val st' = val st \<and> co_size c' = co_size c \<and>
    Column_repr ok enc mk t args cs col (val st') (chunks (blockSize args) xs) c'"
proof -
  let ?P = "\<lambda>(c', st'). inv st' \<and> val st' = val st \<and> co_size c' = co_size c \<and>
    Column_repr ok enc mk t args cs col (val st') (chunks (blockSize args) xs) c'"
  have "\<exists>d. Column_read t w cast mk onNull deser clone getv args idx col cst = Inr (xs ! idx, d) \<and> ?P d"
    if i: "idx \<in> set idxs" and p: "?P cst" for idx cst
  proof -
    obtain c1 st1 where c1: "cst = (c1, st1)" by (cases cst)
    have l: "idx < length xs" "clone (xs ! idx) = Inr (xs ! idx)"
      using i x ok by (auto simp: list_all_iff list_all_length clone_ok)
    obtain c2 st2 where "inv st2" "val st2 = val st1" "co_size c2 = co_size c1"
      "Column_repr ok enc mk t args cs col (val st2) (chunks (blockSize args) xs) c2"
      "Column_item t w (DistributedArray_item cast mk (getBlockFromStore onNull (Block_deserialize deser) getv)) args idx col (c1, st1) =
        Inr (xs ! idx, c2, st2)"
      using get_chunks [of args cs col st1 xs c1 idx w] p c1 h l(1) by auto
    then show ?thesis using p c1 l(2) by (intro exI [of _ "(c2, st2)"]) (auto simp: Column_read_def)
  qed
  then have "\<exists>d. read_seq (\<lambda>idx. Column_read t w cast mk onNull deser clone getv args idx col) idxs (c, st) =
      Inr (map ((!) xs) idxs, d) \<and> ?P d"
    using assms(1,2) by (intro read_seq_invariant) auto
  then show ?thesis by auto
qed

text \<open>Appending after full blocks appends to the list.\<close>

lemma append_chunks:
  assumes r: "Column_repr ok enc mk t args cs col (val st) (chunks (blockSize args) xs) c" and i: "inv st" and h: "homes homed args"
    and v: "list_all ok vals" "16 + length (concat (map enc vals)) < 2 ^ 64" "length xs + length vals < 2 ^ 64"
    and a: "blockSize args dvd length xs"
  shows "\<exists>c' st'. Column_add_values t clone (Block_serialize ser) args putv (length vals) vals col (c, st) = Inr (c', st') \<and>
    inv st' \<and> co_size c' = co_size c + length vals \<and>
    Column_repr ok enc mk t args cs col (val st') (chunks (blockSize args) (xs @ vals)) c' \<and>
    (\<forall>k. (\<forall>i. k \<noteq> block_key args cs col i) \<longrightarrow> val st' k = val st k)"
proof -
  have "0 < blockSize args" using Column_reprD [OF r] by simp
  moreover from this have "length (chunks (blockSize args) xs) + length vals < 2 ^ 64"
    using length_chunks_le [of "blockSize args" xs] v(3) by simp
  ultimately show ?thesis using add_all_repr [OF r i h v(1,2)] a by (simp add: chunks_append)
qed

lemma new_append:
  assumes "base_ok cs col" and "0 < numNodes args" and "0 < blockSize args" and "blockSize args < 2 ^ 64"
    and i: "inv st" and h: "homes homed args"
    and v: "list_all ok vals" "16 + length (concat (map enc vals)) < 2 ^ 64" "length vals < 2 ^ 64"
  shows "\<exists>c c' st'. Column_new (Key_lit cs n) t = Inr c \<and>
    Column_add_values t clone (Block_serialize ser) args putv (length vals) vals col (c, st) = Inr (c', st') \<and>
    inv st' \<and> co_size c' = length vals \<and>
    Column_repr ok enc mk t args cs col (val st') (chunks (blockSize args) vals) c' \<and>
    (\<forall>k. (\<forall>i. k \<noteq> block_key args cs col i) \<longrightarrow> val st' k = val st k)"
proof -
  obtain c where c: "Column_new (Key_lit cs n) t = Inr c" "co_size c = 0"
    "Column_repr ok enc mk t args cs col (val st) [] c"
    using Column_repr_new [OF assms(1-4), of n t ok enc mk "val st"] by blast
  then show ?thesis using append_chunks [of args cs col st "[]" c vals] i h v by auto
qed

end

section \<open>Properties\<close>

text \<open>C22: A column written by one node is read by any other. Node \<open>i\<close> appends strings to a new column of
  a cluster, the column is serialized, and node \<open>j\<close> deserializes it: reading any elements in any
  order there returns the strings that were appended, although the blocks are spread over the
  nodes and the cache of the column holds only some of them.\<close>

theorem column_read_anywhere:
  assumes "cluster_inv (numNodes args) i st" and "j < numNodes args"
    and "0 < blockSize args" and "blockSize args < 2 ^ 64" and "base_ok cs col"
    and "list_all String_wf vals" and "16 + length (concat (map enc_String vals)) < 2 ^ 64" and "length vals < 2 ^ 64"
    and "list_all (\<lambda>idx. idx < length vals) idxs"
  shows "\<exists>c c1 st1 s t c0 c2 u c3 st3. Column_new (Key_lit cs h) Str = Inr c \<and>
    Column_add_strings args (cluster_put i) (length vals) vals col (c, st) = Inr (c1, st1) \<and> co_size c1 = length vals \<and>
    Column_serialize c1 Serializer_new = Inr s \<and> Serializer_of (sz_written s) (ser_bytes s) = Inr t \<and>
    Column_default = Inr c0 \<and> Column_deserialize c0 t = Inr (c2, u) \<and> co_size c2 = length vals \<and>
    read_seq (\<lambda>idx. Column_get_string args (cluster_get j) idx col) idxs (c2, st1) = Inr (map ((!) vals) idxs, c3, st3)"
proof -
  have n: "0 < numNodes args" "numNodes args < 2 ^ 64" using assms(1,2) by (simp_all add: cluster_inv_def)
  have h: "homes (\<lambda>k. home k < numNodes args) args" using n by (intro homes_cluster) simp_all
  obtain c c1 st1 where c: "Column_new (Key_lit cs h) Str = Inr c"
    "Column_add_strings args (cluster_put i) (length vals) vals col (c, st) = Inr (c1, st1)" "co_size c1 = length vals"
    "cluster_inv (numNodes args) i st1"
    "Column_repr String_wf enc_String StrB Str args cs col (cluster_val (numNodes args) st1) (chunks (blockSize args) vals) c1"
    using cluster_strings.new_append [OF assms(5) n(1) assms(3,4,1) h assms(6-8), of h] unfolding Column_adds by blast
  obtain c0 where c0: "Column_default = Inr c0" "Cache_repr (da_cache (co_blocks c0)) [] Map.empty"
    using Column_default_ok by blast
  have "co_size c1 < 2 ^ 64" using c(3) assms(8) by simp
  from Column_travels [OF c(5) _ this c0(2), of "CHR ''S''"] obtain bs c2 where c2: "writes (Column_serialize c1) bs"
    "reads (Column_deserialize c0) bs c2" "co_size c2 = co_size c1"
    "Column_repr String_wf enc_String StrB Str args cs col (cluster_val (numNodes args) st1) (chunks (blockSize args) vals) c2"
    by auto
  obtain s where s: "Column_serialize c1 Serializer_new = Inr s" "ser_bytes s = bs" "sz_written s = length bs"
    using writes_bytes [OF c2(1)] by blast
  obtain t u where t: "Serializer_of (sz_written s) (ser_bytes s) = Inr t" "Column_deserialize c0 t = Inr (c2, u)"
    using reads_value [OF c2(2)] s(2,3) by auto
  obtain c3 st3 where "read_seq (\<lambda>idx. Column_get_string args (cluster_get j) idx col) idxs (c2, st1) = Inr (map ((!) vals) idxs, c3, st3)"
    using cluster_strings.reads_chunks [OF c2(4) cluster_inv_node [OF c(4) assms(2)] h assms(6,9), of "Inl (Exit 1)"]
    unfolding Column_gets by blast
  with c c0 c2(3) s t show ?thesis by auto
qed

lemma column_read_anywhere_witness:
  "\<exists>st c c1 st1. Cluster_init 3 = Inr st \<and> Column_new (Key_lit ''df-0'' 0) Str = Inr c \<and>
    Column_add_strings (Args_default\<lparr>numNodes := 3, blockSize := 2\<rparr>) (cluster_put 0) 3
      [String_lit ''a'', String_lit ''b'', String_lit ''c''] 0 (c, st) = Inr (c1, st1)"
proof -
  obtain st where st: "Cluster_init 3 = Inr st" "cluster_inv 3 0 st" using cluster_start [of 0 3] by auto
  let ?a = "Args_default\<lparr>numNodes := 3, blockSize := 2\<rparr>" and ?v = "[String_lit ''a'', String_lit ''b'', String_lit ''c'']"
  have "cluster_inv (numNodes ?a) 0 st" using st by simp
  from column_read_anywhere [OF this, of 1 "''df-0''" 0 ?v "[2, 0]" 0] st(1) show ?thesis
    by (auto simp: base_ok_def cstr_ok_def enc_String_def numeral_3_eq_3)
qed

text \<open>Appending twice appends, when the first list fills its blocks. On one node, integers are appended
  to a new column and then more integers: if the length of the first list is a multiple of the
  block size, the column has the size of both lists and every index reads the element of their
  concatenation.\<close>

theorem aligned_append:
  assumes "local_inv 0 st" and "numNodes args = 1" and "0 < blockSize args" and "blockSize args < 2 ^ 64" and "base_ok cs col"
    and "blockSize args dvd length xs" and "length xs + length ys < 2 ^ 56"
    and "list_all (\<lambda>idx. idx < length (xs @ ys)) idxs"
  shows "\<exists>c c1 st1 c2 st2 c3 st3. Column_new (Key_lit cs h) Integer = Inr c \<and>
    Column_add_ints args (local_put send) (length xs) xs col (c, st) = Inr (c1, st1) \<and>
    Column_add_ints args (local_put send) (length ys) ys col (c1, st1) = Inr (c2, st2) \<and>
    co_size c2 = length (xs @ ys) \<and>
    read_seq (\<lambda>idx. Column_get_int args (local_get send) idx col) idxs (c2, st2) = Inr (map ((!) (xs @ ys)) idxs, c3, st3)"
proof -
  have n: "0 < numNodes args" using assms(2) by simp
  have h: "homes (\<lambda>k. k_homeNode k = 0) args" using assms(2) by (simp add: homes_local)
  have e: "length (concat (map enc_u32 zs)) = 4 * length zs" for zs by (induction zs) simp_all
  have ok: "list_all (\<lambda>_. True) (zs :: u32 list)" for zs by (simp add: list_all_iff)
  have len: "16 + length (concat (map enc_u32 xs)) < 2 ^ 64" "length xs < 2 ^ 64"
    "16 + length (concat (map enc_u32 ys)) < 2 ^ 64" "length xs + length ys < 2 ^ 64" using assms(7) by (simp_all add: e)
  obtain c c1 st1 where c: "Column_new (Key_lit cs h) Integer = Inr c"
    "Column_add_ints args (local_put send) (length xs) xs col (c, st) = Inr (c1, st1)" "co_size c1 = length xs"
    "local_inv 0 st1" "Column_repr (\<lambda>_. True) enc_u32 IntB Integer args cs col (local_val 0 st1) (chunks (blockSize args) xs) c1"
    using local_ints.new_append [OF assms(5) n assms(3,4,1) h ok len(1,2), of h send] unfolding Column_adds by blast
  obtain c2 st2 where c2: "Column_add_ints args (local_put send) (length ys) ys col (c1, st1) = Inr (c2, st2)"
    "local_inv 0 st2" "co_size c2 = co_size c1 + length ys"
    "Column_repr (\<lambda>_. True) enc_u32 IntB Integer args cs col (local_val 0 st2) (chunks (blockSize args) (xs @ ys)) c2"
    using local_ints.append_chunks [OF c(5,4) h ok len(3,4) assms(6), of send] unfolding Column_adds by blast
  obtain c3 st3 where "read_seq (\<lambda>idx. Column_get_int args (local_get send) idx col) idxs (c2, st2) =
      Inr (map ((!) (xs @ ys)) idxs, c3, st3)"
    using local_ints.reads_chunks [OF c2(4,2) h ok assms(8), of "Inr (-1)" send] unfolding Column_gets by blast
  moreover have "co_size c2 = length (xs @ ys)" using c(3) c2(3) by simp
  ultimately show ?thesis using c(1,2) c2(1) by blast
qed

lemma local_start: "local_inv n (KVStore_new n, net)" and local_start_val: "local_val n (KVStore_new n, net) = Map.empty"
  by (simp_all add: local_inv_def local_val_def fun_eq_iff)


lemma aligned_append_witness:
  "\<exists>c c1 st1 c2 st2. Column_new (Key_lit ''c'' 0) Integer = Inr c \<and>
    Column_add_ints (Args_default\<lparr>blockSize := 2\<rparr>) (local_put (\<lambda>m. Inr)) (length [5 :: u32, 6]) [5, 6] 0
      (c, (KVStore_new 0, ())) = Inr (c1, st1) \<and>
    Column_add_ints (Args_default\<lparr>blockSize := 2\<rparr>) (local_put (\<lambda>m. Inr)) (length [8 :: u32]) [8] 0 (c1, st1) = Inr (c2, st2)"
proof -
  let ?a = "Args_default\<lparr>blockSize := 2\<rparr>" and ?xs = "[5 :: u32, 6]" and ?ys = "[8 :: u32]"
  have h: "numNodes ?a = 1" "0 < blockSize ?a" "blockSize ?a < 2 ^ 64" "base_ok ''c'' 0" "blockSize ?a dvd length ?xs"
    "length ?xs + length ?ys < 2 ^ 56" "list_all (\<lambda>idx. idx < length (?xs @ ?ys)) [2]"
    by (simp_all add: base_ok_def Args_default_def)
  show ?thesis using aligned_append [OF local_start [of 0 "()"] h, of 0 "\<lambda>m. Inr"] by blast
qed

text \<open>C23: Appending twice loses elements when the first list leaves its last block partly filled. The second
  list starts a new block, the size of the column is the sum of both lengths, and reading the index
  of the first element of the second list exits with an out-of-bounds error.\<close>

theorem unaligned_append_fails:
  assumes "local_inv 0 st" and "numNodes args = 1" and "0 < blockSize args" and "blockSize args < 2 ^ 64" and "base_ok cs col"
    and "\<not> blockSize args dvd length xs" and "ys \<noteq> []" and "length xs + length ys < 2 ^ 56"
  shows "\<exists>c c1 st1 c2 st2. Column_new (Key_lit cs h) Double = Inr c \<and>
    Column_add_doubles args (local_put send) (length xs) xs col (c, st) = Inr (c1, st1) \<and>
    Column_add_doubles args (local_put send) (length ys) ys col (c1, st1) = Inr (c2, st2) \<and>
    length xs < co_size c2 \<and> co_size c2 = length xs + length ys \<and>
    Column_get_double args (local_get send) (length xs) col (c2, st2) = Inl (Exit 1)"
proof -
  let ?b = "blockSize args"
  have n: "0 < numNodes args" using assms(2) by simp
  have h: "homes (\<lambda>k. k_homeNode k = 0) args" using assms(2) by (simp add: homes_local)
  have e: "length (concat (map enc_u64 zs)) = 8 * length zs" for zs by (induction zs) simp_all
  have ok: "list_all (\<lambda>_. True) (zs :: u64 list)" for zs by (simp add: list_all_iff)
  have cl: "length (chunks ?b xs) + length ys < 2 ^ 64" using length_chunks_le [OF assms(3), of xs] assms(8) by simp
  have len: "16 + length (concat (map enc_u64 xs)) < 2 ^ 64" "length xs < 2 ^ 64"
    "16 + length (concat (map enc_u64 ys)) < 2 ^ 64" using assms(8) by (simp_all add: e)
  obtain c c1 st1 where c: "Column_new (Key_lit cs h) Double = Inr c"
    "Column_add_doubles args (local_put send) (length xs) xs col (c, st) = Inr (c1, st1)" "co_size c1 = length xs"
    "local_inv 0 st1" "Column_repr (\<lambda>_. True) enc_u64 DoubleB Double args cs col (local_val 0 st1) (chunks ?b xs) c1"
    using local_doubles.new_append [OF assms(5) n assms(3,4,1) h ok len(1,2), of h send] unfolding Column_adds by blast
  obtain c2 st2 where c2: "Column_add_doubles args (local_put send) (length ys) ys col (c1, st1) = Inr (c2, st2)"
    "local_inv 0 st2" "co_size c2 = co_size c1 + length ys"
    "Column_repr (\<lambda>_. True) enc_u64 DoubleB Double args cs col (local_val 0 st2) (chunks ?b xs @ chunks ?b ys) c2"
    using local_doubles.add_all_repr [OF c(5,4) h ok len(3) cl, of send] unfolding Column_adds by blast
  define q where "q = length xs div ?b"
  have r: "length xs = q * ?b + length xs mod ?b" "0 < length xs mod ?b" "length xs mod ?b < ?b"
    using assms(3,6) by (simp_all add: q_def dvd_eq_mod_eq_0)
  have "length (chunks ?b xs) = Suc q"
  proof -
    have "length xs + ?b - 1 = (length xs mod ?b - 1) + Suc q * ?b" using r by simp
    then have "(length xs + ?b - 1) div ?b = Suc q" using r assms(3) by (metis div_mult_self3 div_less less_imp_diff_less add.right_neutral add.commute bot_nat_0.not_eq_extremum)
    then show ?thesis using assms(3) by (simp add: length_chunks)
  qed
  moreover from this have "length (chunks ?b xs ! q) = length xs mod ?b"
    using nth_chunks [OF assms(3), of q xs] r by simp
  ultimately have "length xs div ?b < length (chunks ?b xs @ chunks ?b ys)"
    "\<not> length xs mod ?b < length ((chunks ?b xs @ chunks ?b ys) ! (length xs div ?b))"
    by (simp_all add: nth_append flip: q_def)
  then have "Column_get_double args (local_get send) (length xs) col (c2, st2) = Inl (Exit 1)"
    using local_doubles.get_repr [OF c2(4,2) h, of "length xs" "Inr 0xBFF0000000000000" send] unfolding Column_gets Column_read_def by auto
  moreover have "co_size c2 = length xs + length ys" using c(3) c2(3) by simp
  moreover have "length xs < length xs + length ys" using assms(7) by simp
  ultimately show ?thesis using c(1,2) c2(1) by metis
qed

lemma unaligned_append_fails_witness:
  "\<exists>c c1 st1 c2 st2. Column_new (Key_lit ''c'' 0) Double = Inr c \<and>
    Column_add_doubles (Args_default\<lparr>blockSize := 2\<rparr>) (local_put (\<lambda>m. Inr)) (length [5 :: u64]) [5] 0
      (c, (KVStore_new 0, ())) = Inr (c1, st1) \<and>
    Column_add_doubles (Args_default\<lparr>blockSize := 2\<rparr>) (local_put (\<lambda>m. Inr)) (length [8 :: u64]) [8] 0 (c1, st1) = Inr (c2, st2) \<and>
    Column_get_double (Args_default\<lparr>blockSize := 2\<rparr>) (local_get (\<lambda>m. Inr)) (length [5 :: u64]) 0 (c2, st2) = Inl (Exit 1)"
proof -
  let ?a = "Args_default\<lparr>blockSize := 2\<rparr>" and ?xs = "[5 :: u64]" and ?ys = "[8 :: u64]"
  have h: "numNodes ?a = 1" "0 < blockSize ?a" "blockSize ?a < 2 ^ 64" "base_ok ''c'' 0" "\<not> blockSize ?a dvd length ?xs"
    "?ys \<noteq> []" "length ?xs + length ?ys < 2 ^ 56"
    by (simp_all add: base_ok_def Args_default_def)
  show ?thesis using unaligned_append_fails [OF local_start [of 0 "()"] h, of 0 "\<lambda>m. Inr"] by blast
qed

text \<open>C25: A column has one type for its whole life. Whatever the store does, an \<open>add_all\<close> that returns was
  called on a column of its type and changes neither the type nor the base key, and the size grows
  by the number of values.\<close>

theorem add_all_typed:
  assumes "Column_add_values t clone ser args putv len vals colIdx (c, st) = Inr (c', st')"
  shows "co_type c = t \<and> co_type c' = co_type c \<and> co_baseKey c' = co_baseKey c \<and> co_size c' = co_size c + len"
proof -
  have loop: "co_type c' = co_type c \<and> co_baseKey c' = co_baseKey c \<and> co_size c' = co_size c \<and> a' = len"
    if "Column_add_loop args putv clone ser len vals colIdx before a block (c, st) = Inr (a', c', st')" and "a \<le> len" for before a block c st a' c' st'
    using that
  proof (induction "len - a" arbitrary: a block c st rule: less_induct)
    case less
    show ?case
    proof (cases "a < len")
      case True
      obtain block' s c1 st1 where s: "blockSize args \<noteq> 0"
        "addBlockToStore args putv s (before + a div blockSize args) colIdx (c, st) = Inr (c1, st1)"
        "Column_add_loop args putv clone ser len vals colIdx before (a + min (len - a) (blockSize args)) block' (c1, st1) = Inr (a', c', st')"
        using less.prems(1) True
        by (subst (asm) Column_add_loop.simps) (auto simp: Let_def res_bind_Inr_iff split: if_splits)
      have "co_type c1 = co_type c \<and> co_baseKey c1 = co_baseKey c \<and> co_size c1 = co_size c"
        using s(2) by (auto simp: addBlockToStore_def res_bind_Inr_iff)
      then show ?thesis using less.hyps [OF _ s(3)] True s(1) by simp
    next
      case False
      with less.prems show ?thesis by (auto simp: Column_add_loop.simps)
    qed
  qed
  then show ?thesis
    using assms by (auto simp: Column_add_values_def res_bind_Inr_iff split: if_splits)
qed

lemma add_all_typed_witness:
  "\<exists>c c' st'. Column_add_values Integer Inr (Block_serialize write_int) Args_default (local_put (\<lambda>m. Inr)) (length [5 :: u32]) [5] 0
      (c, (KVStore_new 0, ())) = Inr (c', st') \<and> co_type c' = Integer"
proof -
  have h: "homes (\<lambda>k. k_homeNode k = 0) Args_default" by (simp add: homes_local Args_default_def)
  obtain c c' st' where
    "Column_add_values Integer Inr (Block_serialize write_int) Args_default (local_put (\<lambda>m. Inr)) (length [5 :: u32]) [5] 0
      (c, (KVStore_new 0, ())) = Inr (c', st')"
    using local_ints.new_append [OF _ _ _ _ local_start [of 0 "()"] h, of "''c''" 0 "[5]" 0 "\<lambda>m. Inr"]
    by (auto simp: base_ok_def Args_default_def)
  with add_all_typed [OF this] show ?thesis by metis
qed

text \<open>A column of another type. Appending exits with status -1, not with the status 1 that is written
  there: the message asks \<open>charToType\<close> for the letter of the enumeration value, and \<open>charToType\<close>
  exits first. Reading numbers and booleans returns -1, and reading a string exits with status 1;
  neither touches the store.\<close>

theorem wrong_type:
  assumes "co_type c \<noteq> t"
  shows "Column_add_values t clone ser args putv len vals colIdx (c, st) = Inl (Exit (-1)) \<and>
    (t = Integer \<longrightarrow> Column_get_int args getv idx colIdx (c, st) = Inr (- 1, c, st)) \<and>
    (t = Boolean \<longrightarrow> Column_get_bool args getv idx colIdx (c, st) = Inr (True, c, st)) \<and>
    (t = Str \<longrightarrow> Column_get_string args getv idx colIdx (c, st) = Inl (Exit 1))"
  using assms
  by (auto simp: Column_add_values_def charToType_code Column_get_int_def Column_get_bool_def Column_get_string_def Column_item_def)

lemma wrong_type_witness:
  "Column_add_values Str String_copy StringBlock_serialize Args_default (local_put (\<lambda>m. Inr)) 1 [String_lit ''a''] 0
     (\<lparr>co_size = 0, co_blocks = \<lparr>da_keyList = KeyArr_new, da_cache = \<lparr>ca_maxSize = 15, ca_data = Map_default, ca_keyOrder = Queue_new\<rparr>\<rparr>,
       co_type = Integer, co_baseKey = Key_lit ''c'' 0\<rparr>, (KVStore_new 0, ())) = Inl (Exit (-1))"
  by (rule conjunct1 [OF wrong_type]) simp

text \<open>C24: The blocks of a column are dealt to the nodes in turn, and no two of them share a key. The key of
  block \<open>b\<close> of column \<open>i\<close> is at home on node \<open>b mod numNodes\<close>, which is a node of the cluster, and
  another block or column with the same base key has another key string.\<close>

theorem block_placement:
  assumes "co_baseKey c = Key_lit cs n" and "base_ok cs i" and "base_ok cs i'" and "0 < numNodes args" and "numNodes args < 2 ^ 64"
  shows "\<exists>k k'. genKey args b i c = Inr k \<and> genKey args b' i' c = Inr k' \<and>
    unat (k_homeNode k) = b mod numNodes args \<and> unat (k_homeNode k) < numNodes args \<and>
    (k_str k = k_str k' \<longleftrightarrow> b = b' \<and> i = i')"
proof -
  have "unat (of_nat (b mod numNodes args) :: u64) = b mod numNodes args"
    using mod_less_divisor [OF assms(4), of b] assms(5) by (intro unat_of_nat_small) simp
  moreover have "k_str (block_key args cs i b) = k_str (block_key args cs i' b') \<longleftrightarrow> i = i' \<and> b = b'"
    using split_dash [OF to_string_no_dash to_string_no_dash, of i "to_string b" i' "to_string b'"] by (simp add: block_key_def)
  ultimately show ?thesis
    using genKey_lit [OF assms(1,2,4), of b] genKey_lit [OF assms(1,3,4), of b'] assms(4) by (auto simp: block_key_def)
qed

lemma block_placement_witness:
  "\<exists>k. genKey (Args_default\<lparr>numNodes := 3\<rparr>) 7 0 \<lparr>co_size = 0, co_blocks =
      \<lparr>da_keyList = KeyArr_new, da_cache = \<lparr>ca_maxSize = 15, ca_data = Map_default, ca_keyOrder = Queue_new\<rparr>\<rparr>,
      co_type = Integer, co_baseKey = Key_lit ''df-0'' 0\<rparr> = Inr k \<and> unat (k_homeNode k) = 7 mod 3"
  using block_placement [of "\<lparr>co_size = 0, co_blocks =
      \<lparr>da_keyList = KeyArr_new, da_cache = \<lparr>ca_maxSize = 15, ca_data = Map_default, ca_keyOrder = Queue_new\<rparr>\<rparr>,
      co_type = Integer, co_baseKey = Key_lit ''df-0'' 0\<rparr>" "''df-0''" 0 0 0 "Args_default\<lparr>numNodes := 3\<rparr>" 7 8]
  by (auto simp: base_ok_def)

end
