(* ===== verification/Schema.thy ===== *)
theory Schema
  imports Column
begin

text \<open>
  The schema of a data frame (\<open>src/dataframe/schema.h\<close>): the types of the columns in a growing
  array and the number of rows. \<open>Schema_repr\<close> relates it to the list of types; every operation
  is what it is on lists, except that a schema built from the empty string has no room to grow.
\<close>

record Schema =
  sc_types :: "DataType cells"
  sc_numCols :: nat
  sc_capCols :: nat
  sc_numRows :: nat

definition Schema_new :: Schema where
  "Schema_new = \<lparr>sc_types = new_cells 2, sc_numCols = 0, sc_capCols = 2, sc_numRows = 0\<rparr>"

definition growColList :: "Schema \<Rightarrow> Schema res" where
  "growColList s =
     (let cap = sc_capCols s * 2 in
      res_bind (res_fold (\<lambda>i newTypes.
          res_bind (cell_load (sc_types s) i) (\<lambda>t. cell_store newTypes i t))
        [0..<sc_numCols s] (new_cells cap)) (\<lambda>types.
      Inr (s\<lparr>sc_capCols := cap, sc_types := types\<rparr>)))"

definition Schema_add_column :: "DataType \<Rightarrow> Schema \<Rightarrow> Schema res" where
  "Schema_add_column typ s =
     res_bind (if sc_numCols s \<ge> sc_capCols s then growColList s else Inr s) (\<lambda>s.
     res_bind (cell_store (sc_types s) (sc_numCols s) typ) (\<lambda>types.
     Inr (s\<lparr>sc_types := types, sc_numCols := sc_numCols s + 1\<rparr>)))"

definition Schema_add_column_char :: "char \<Rightarrow> Schema \<Rightarrow> Schema res" where
  "Schema_add_column_char typ s = res_bind (charToType typ) (\<lambda>t. Schema_add_column t s)"

definition Schema_add_rows :: "nat \<Rightarrow> Schema \<Rightarrow> Schema" where
  "Schema_add_rows numRows s = s\<lparr>sc_numRows := sc_numRows s + numRows\<rparr>"

definition Schema_add_row :: "Schema \<Rightarrow> Schema" where
  "Schema_add_row = Schema_add_rows 1"

definition Schema_col_type :: "nat \<Rightarrow> Schema \<Rightarrow> DataType res" where
  "Schema_col_type idx s =
     (if idx \<ge> sc_numCols s then Inl (Exit 1) else cell_load (sc_types s) idx)"

definition Schema_col_type_char :: "nat \<Rightarrow> Schema \<Rightarrow> char res" where
  "Schema_col_type_char idx s =
     (if idx \<ge> sc_numCols s then Inl (Exit 1) else res_bind (cell_load (sc_types s) idx) typeToChar)"

definition Schema_set :: "nat \<Rightarrow> DataType \<Rightarrow> Schema \<Rightarrow> Schema res" where
  "Schema_set idx type s =
     (if idx \<ge> sc_numCols s then Inl (Exit 1)
      else res_bind (cell_store (sc_types s) idx type) (\<lambda>types. Inr (s\<lparr>sc_types := types\<rparr>)))"

definition Schema_width :: "Schema \<Rightarrow> nat" where
  "Schema_width s = sc_numCols s"

definition Schema_length :: "Schema \<Rightarrow> nat" where
  "Schema_length s = sc_numRows s"

text \<open>\<open>Schema(types)\<close>: the array \<open>types\<close> up to its NUL.\<close>

definition Schema_of_types :: "char list \<Rightarrow> Schema res" where
  "Schema_of_types types =
     res_bind (c_strlen (map Some types)) (\<lambda>typesLen.
     res_fold (\<lambda>i s. res_bind (cell_load (map Some types) i) (\<lambda>c. Schema_add_column_char c s)) [0..<typesLen]
       \<lparr>sc_types = new_cells typesLen, sc_numCols = 0, sc_capCols = typesLen, sc_numRows = 0\<rparr>)"

text \<open>\<open>Schema(from, copyRows)\<close>; the flag is not looked at.\<close>

definition Schema_copy_rows :: "Schema \<Rightarrow> bool \<Rightarrow> Schema res" where
  "Schema_copy_rows from copyRows =
     (let cap = (if Schema_width from = 0 then 2 else Schema_width from);
          s = \<lparr>sc_types = new_cells cap, sc_numCols = 0, sc_capCols = cap, sc_numRows = 0\<rparr>
      in if Schema_width from \<noteq> 0 then
           res_bind (res_fold (\<lambda>i s. res_bind (Schema_col_type i from) (\<lambda>t. Schema_add_column t s))
             [0..<Schema_width from] s) (\<lambda>s.
           res_bind (res_assert (sc_numCols s = sc_capCols s)) (\<lambda>_. Inr s))
         else Inr s)"

definition Schema_copy :: "Schema \<Rightarrow> Schema res" where
  "Schema_copy from = Schema_copy_rows from True"

definition Schema_serialize :: "Schema \<Rightarrow> Serializer \<Rightarrow> Serializer res" where
  "Schema_serialize sc s =
     res_bind (write_size_t (of_nat (sc_capCols sc)) s) (\<lambda>s.
     res_bind (write_size_t (of_nat (sc_numCols sc)) s) (\<lambda>s.
     res_bind (write_size_t (of_nat (sc_numRows sc)) s) (\<lambda>s.
     res_fold (\<lambda>i s. res_bind (cell_load (sc_types sc) i) (\<lambda>t. res_bind (typeToChar t) (\<lambda>c. write_char c s)))
       [0..<sc_numCols sc] s)))"

fun Schema_read_types :: "nat list \<Rightarrow> DataType cells \<Rightarrow> Serializer \<Rightarrow> (DataType cells \<times> Serializer) res" where
  "Schema_read_types [] types s = Inr (types, s)"
| "Schema_read_types (i # is) types s =
     res_bind (readChar s) (\<lambda>(c, s).
     res_bind (charToType c) (\<lambda>t.
     res_bind (cell_store types i t) (\<lambda>types. Schema_read_types is types s)))"

definition Schema_deserialize :: "Serializer \<Rightarrow> (Schema \<times> Serializer) res" where
  "Schema_deserialize s =
     res_bind (readSizeT s) (\<lambda>(cap, s).
     res_bind (readSizeT s) (\<lambda>(n, s).
     res_bind (readSizeT s) (\<lambda>(rows, s).
     res_bind (Schema_read_types [0..<unat n] (new_cells (unat cap)) s) (\<lambda>(types, s).
     Inr (\<lparr>sc_types = types, sc_numCols = unat n, sc_capCols = unat cap, sc_numRows = unat rows\<rparr>, s)))))"

text \<open>\<open>equals\<close> returns false at the first difference and has no return statement after its loop.\<close>

fun Schema_equals_from :: "Schema \<Rightarrow> Schema \<Rightarrow> nat list \<Rightarrow> bool res" where
  "Schema_equals_from this s [] = Inl NoReturnValue"
| "Schema_equals_from this s (i # is) =
     res_bind (cell_load (sc_types this) i) (\<lambda>t. res_bind (Schema_col_type i s) (\<lambda>u.
       if t \<noteq> u then Inr False else Schema_equals_from this s is))"

definition Schema_equals :: "Schema \<Rightarrow> Schema \<Rightarrow> bool res" where
  "Schema_equals this s =
     (if sc_numCols this \<noteq> sc_numCols s \<or> sc_capCols this \<noteq> sc_capCols s \<or> sc_numRows this \<noteq> sc_numRows s
      then Inr False
      else Schema_equals_from this s [0..<sc_numCols this])"

definition Schema_clear :: "Schema \<Rightarrow> Schema" where
  "Schema_clear s = \<lparr>sc_types = new_cells 2, sc_numCols = 0, sc_capCols = 2, sc_numRows = 0\<rparr>"

text \<open>\<open>getTypesChar\<close>: a new C string.\<close>

definition getTypesChar :: "Schema \<Rightarrow> char list res" where
  "getTypesChar s =
     res_bind (res_fold (\<lambda>i cs. res_bind (cell_load (sc_types s) i) (\<lambda>t. res_bind (typeToChar t) (\<lambda>c. Inr (cs @ [c]))))
       [0..<sc_numCols s] []) (\<lambda>cs. Inr (cs @ [NUL]))"

section \<open>A schema is a list of types\<close>

definition Schema_repr :: "Schema \<Rightarrow> DataType list \<Rightarrow> bool" where
  "Schema_repr s ts \<longleftrightarrow> length (sc_types s) = sc_capCols s \<and> sc_numCols s = length ts \<and> holds ts (sc_types s)"

lemma Schema_repr_le: "Schema_repr s ts \<Longrightarrow> length ts \<le> sc_capCols s"
  using holds_length [of ts "sc_types s"] by (simp add: Schema_repr_def)

lemma Schema_repr_new [simp]: "Schema_repr Schema_new []"
  by (simp add: Schema_repr_def Schema_new_def)

lemma Schema_repr_clear [simp]: "Schema_repr (Schema_clear s) []"
  by (simp add: Schema_repr_def Schema_clear_def)

lemma Schema_col_type_repr:
  "Schema_repr s ts \<Longrightarrow> Schema_col_type i s = (if i < length ts then Inr (ts ! i) else Inl (Exit 1))"
  by (simp add: Schema_col_type_def Schema_repr_def cell_load_holds)

lemma Schema_col_type_char_repr:
  "Schema_repr s ts \<Longrightarrow> Schema_col_type_char i s = (if i < length ts then typeToChar (ts ! i) else Inl (Exit 1))"
  using cell_load_holds [of ts "sc_types s" i] by (simp add: Schema_col_type_char_def Schema_repr_def)

lemma Schema_set_repr:
  assumes "Schema_repr s ts" and "i < length ts"
  shows "\<exists>s'. Schema_set i t s = Inr s' \<and> Schema_repr s' (ts[i := t]) \<and> sc_numRows s' = sc_numRows s"
  using assms cell_store_holds [of ts "sc_types s" i t] by (auto simp: Schema_set_def Schema_repr_def)

text \<open>Copying the first cells of one array into another.\<close>

lemma copy_types:
  assumes "holds xs c" and "length xs \<le> length d"
  shows "\<exists>d'. res_fold (\<lambda>i d. res_bind (cell_load c i) (\<lambda>x. cell_store d i x)) [0..<length xs] d = Inr d' \<and>
    holds xs d' \<and> length d' = length d"
  using assms
proof (induction xs rule: rev_induct)
  case Nil
  then show ?case by simp
next
  case (snoc x xs)
  obtain d1 where d1: "res_fold (\<lambda>i d. res_bind (cell_load c i) (\<lambda>x. cell_store d i x)) [0..<length xs] d = Inr d1"
    "holds xs d1" "length d1 = length d"
    using snoc holds_prefix [OF snoc.prems(1)] by auto
  obtain d2 where "cell_store d1 (length xs) x = Inr d2" "holds (xs @ [x]) d2" "length d2 = length d1"
    using cell_store_snoc [OF d1(2), of x] d1(3) snoc.prems(2) by auto
  then show ?case
    using d1 cell_load_holds [OF snoc.prems(1), of "length xs"] by (simp add: res_fold_append)
qed

lemma Schema_add_column_repr:
  assumes r: "Schema_repr s ts" and c: "0 < sc_capCols s"
  shows "\<exists>s'. Schema_add_column t s = Inr s' \<and> Schema_repr s' (ts @ [t]) \<and> sc_numRows s' = sc_numRows s \<and>
    sc_capCols s' = (if length ts < sc_capCols s then sc_capCols s else 2 * sc_capCols s)"
proof -
  have h: "holds ts (sc_types s)" "sc_numCols s = length ts" "length (sc_types s) = sc_capCols s"
    using r by (simp_all add: Schema_repr_def)
  have "\<exists>s1. (if sc_numCols s \<ge> sc_capCols s then growColList s else Inr s) = Inr s1 \<and> Schema_repr s1 ts \<and>
      length ts < sc_capCols s1 \<and> sc_numRows s1 = sc_numRows s \<and>
      sc_capCols s1 = (if length ts < sc_capCols s then sc_capCols s else 2 * sc_capCols s)"
  proof (cases "length ts < sc_capCols s")
    case True
    with r h show ?thesis by simp
  next
    case False
    obtain d where "res_fold (\<lambda>i d. res_bind (cell_load (sc_types s) i) (\<lambda>x. cell_store d i x)) [0..<length ts]
        (new_cells (sc_capCols s * 2)) = Inr d" "holds ts d" "length d = sc_capCols s * 2"
      using copy_types [OF h(1), of "new_cells (sc_capCols s * 2)"] holds_length [OF h(1)] h(3) by auto
    then show ?thesis
      using False h c Schema_repr_le [OF r] by (auto simp: growColList_def Schema_repr_def)
  qed
  then obtain s1 where s1: "(if sc_numCols s \<ge> sc_capCols s then growColList s else Inr s) = Inr s1" "Schema_repr s1 ts"
    "length ts < sc_capCols s1" "sc_numRows s1 = sc_numRows s"
    "sc_capCols s1 = (if length ts < sc_capCols s then sc_capCols s else 2 * sc_capCols s)" by blast
  then obtain d where "cell_store (sc_types s1) (length ts) t = Inr d" "holds (ts @ [t]) d" "length d = length (sc_types s1)"
    using cell_store_snoc [of ts "sc_types s1" t] by (auto simp: Schema_repr_def)
  with s1 show ?thesis by (auto simp: Schema_add_column_def Schema_repr_def)
qed

text \<open>Adding columns one after the other; with room for all of them the capacity stays.\<close>

lemma Schema_add_columns_repr:
  assumes "Schema_repr s ts" and "0 < sc_capCols s"
  shows "\<exists>s'. res_fold Schema_add_column us s = Inr s' \<and> Schema_repr s' (ts @ us) \<and> sc_numRows s' = sc_numRows s \<and>
    0 < sc_capCols s' \<and> (length ts + length us \<le> sc_capCols s \<longrightarrow> sc_capCols s' = sc_capCols s)"
  using assms
proof (induction us arbitrary: s ts)
  case Nil
  then show ?case by simp
next
  case (Cons u us)
  obtain s1 where s1: "Schema_add_column u s = Inr s1" "Schema_repr s1 (ts @ [u])" "sc_numRows s1 = sc_numRows s"
    "sc_capCols s1 = (if length ts < sc_capCols s then sc_capCols s else 2 * sc_capCols s)"
    using Schema_add_column_repr [OF Cons.prems, of u] by blast
  then have c: "0 < sc_capCols s1" using Cons.prems(2) by simp
  from Cons.IH [OF s1(2) c] s1 show ?case by auto
qed

lemma Schema_copy_repr:
  assumes "Schema_repr s ts"
  shows "\<exists>s'. Schema_copy s = Inr s' \<and> Schema_repr s' ts \<and> sc_numRows s' = 0 \<and>
    sc_capCols s' = (if ts = [] then 2 else length ts)"
proof (cases "ts = []")
  case True
  then show ?thesis
    using assms by (simp add: Schema_copy_def Schema_copy_rows_def Schema_width_def Schema_repr_def)
next
  case False
  let ?s0 = "\<lparr>sc_types = new_cells (length ts), sc_numCols = 0, sc_capCols = length ts, sc_numRows = 0\<rparr>"
  have w: "sc_numCols s = length ts" using assms by (simp add: Schema_repr_def)
  have "res_fold (\<lambda>i s'. res_bind (Schema_col_type i s) (\<lambda>t. Schema_add_column t s')) [0..<length ts] ?s0 =
      res_fold (\<lambda>i s'. Schema_add_column (ts ! i) s') [0..<length ts] ?s0"
    by (rule res_fold_cong) (simp add: Schema_col_type_repr [OF assms])
  also have "\<dots> = res_fold Schema_add_column (map ((!) ts) [0..<length ts]) ?s0" by (simp add: res_fold_map)
  also have "\<dots> = res_fold Schema_add_column ts ?s0" by (simp add: map_nth)
  finally have "res_fold (\<lambda>i s'. res_bind (Schema_col_type i s) (\<lambda>t. Schema_add_column t s')) [0..<length ts] ?s0 =
      res_fold Schema_add_column ts ?s0" .
  moreover obtain s' where "res_fold Schema_add_column ts ?s0 = Inr s'" "Schema_repr s' ts" "sc_numRows s' = 0"
    "sc_capCols s' = length ts"
    using Schema_add_columns_repr [of ?s0 "[]" ts] False by (auto simp: Schema_repr_def)
  moreover from this have "sc_numCols s' = sc_capCols s'" by (simp add: Schema_repr_def)
  ultimately show ?thesis
    using False w by (simp add: Schema_copy_def Schema_copy_rows_def Schema_width_def Let_def)
qed

text \<open>Construction from a string of letters.\<close>

lemma Schema_of_types_repr:
  assumes "list_all2 (\<lambda>c t. charToType c = Inr t) cs ts" and "cs \<noteq> []"
  shows "\<exists>s. Schema_of_types (cs @ [NUL]) = Inr s \<and> Schema_repr s ts \<and> sc_numRows s = 0 \<and> sc_capCols s = length ts"
proof -
  let ?s0 = "\<lparr>sc_types = new_cells (length cs), sc_numCols = 0, sc_capCols = length cs, sc_numRows = 0\<rparr>"
  have len: "length cs = length ts" using assms(1) by (rule list_all2_lengthD)
  have t: "charToType (cs ! i) = Inr (ts ! i)" if "i < length cs" for i
    using assms(1) that by (rule list_all2_nthD)
  have "NUL \<notin> set cs"
  proof
    assume "NUL \<in> set cs"
    then obtain i where "i < length cs" "cs ! i = NUL" by (auto simp: in_set_conv_nth)
    with t [of i] show False by (simp add: charToType_def)
  qed
  then have l: "c_strlen (map Some (cs @ [NUL])) = Inr (length cs)" using c_strlen_nul [of cs "[]"] by simp
  have "res_fold (\<lambda>i s. res_bind (cell_load (map Some (cs @ [NUL])) i) (\<lambda>c. Schema_add_column_char c s)) [0..<length cs] ?s0 =
      res_fold (\<lambda>i s. Schema_add_column (ts ! i) s) [0..<length cs] ?s0"
    by (rule res_fold_cong) (simp add: cell_load_def nth_append Schema_add_column_char_def t)
  also have "\<dots> = res_fold Schema_add_column (map ((!) ts) [0..<length ts]) ?s0" by (simp add: res_fold_map len)
  finally have "Schema_of_types (cs @ [NUL]) = res_fold Schema_add_column ts ?s0"
    using l by (simp add: Schema_of_types_def map_nth)
  then show ?thesis
    using Schema_add_columns_repr [of ?s0 "[]" ts] assms(2) len by (cases ts) (auto simp: Schema_repr_def)
qed

subsection \<open>Schemas travel\<close>

lemma Schema_writes:
  assumes r: "Schema_repr s ts" and t: "list_all2 (\<lambda>t c. typeToChar t = Inr c) ts cs"
  shows "writes (Schema_serialize s)
    (enc_u64 (of_nat (sc_capCols s)) @ enc_u64 (of_nat (length ts)) @ enc_u64 (of_nat (sc_numRows s)) @ cs)"
proof -
  have len: "length ts = length cs" using t by (rule list_all2_lengthD)
  have n: "sc_numCols s = length ts" using r by (simp add: Schema_repr_def)
  have "res_fold (\<lambda>i s'. res_bind (cell_load (sc_types s) i) (\<lambda>t. res_bind (typeToChar t) (\<lambda>c. write_char c s'))) [0..<length ts] =
      res_fold write_char cs"
  proof
    fix s'
    have "res_fold (\<lambda>i s'. res_bind (cell_load (sc_types s) i) (\<lambda>t. res_bind (typeToChar t) (\<lambda>c. write_char c s'))) [0..<length ts] s' =
        res_fold (\<lambda>i. write_char (cs ! i)) [0..<length ts] s'"
      using r list_all2_nthD [OF t] cell_load_holds [of ts "sc_types s"] by (intro res_fold_cong) (simp add: Schema_repr_def)
    also have "\<dots> = res_fold write_char (map ((!) cs) [0..<length cs]) s'" by (simp add: res_fold_map len)
    finally show "res_fold (\<lambda>i s'. res_bind (cell_load (sc_types s) i) (\<lambda>t. res_bind (typeToChar t) (\<lambda>c. write_char c s'))) [0..<length ts] s' =
      res_fold write_char cs s'" by (simp add: map_nth)
  qed
  moreover have "writes (res_fold write_char cs) cs"
    using char_codec.all_writes [of cs] by (simp add: list_all_iff)
  ultimately show ?thesis
    unfolding Schema_serialize_def [abs_def] n by (intro writes_bind writes_prims) simp
qed

lemma Schema_read_types_reads:
  assumes "list_all2 (\<lambda>t c. typeToChar t = Inr c) ts cs" and "holds us d" and "length us + length ts \<le> length d"
  shows "\<exists>d'. reads (Schema_read_types [length us..<length us + length ts] d) cs d' \<and> holds (us @ ts) d' \<and> length d' = length d"
  using assms
proof (induction ts cs arbitrary: us d rule: list_all2_induct)
  case Nil
  then show ?case by (auto simp: reads_def ser_skip_def)
next
  case (Cons t ts c cs)
  obtain d1 where d1: "cell_store d (length us) t = Inr d1" "holds (us @ [t]) d1" "length d1 = length d"
    using cell_store_snoc [OF Cons.prems(1), of t] Cons.prems(2) by auto
  obtain d' where d': "reads (Schema_read_types [Suc (length us)..<Suc (length us + length ts)] d1) cs d'"
    "holds (us @ t # ts) d'" "length d' = length d"
    using Cons.IH [OF d1(2)] Cons.prems(2) d1(3) by auto
  have "reads (\<lambda>s. res_bind (charToType c) (\<lambda>t. res_bind (cell_store d (length us) t)
      (\<lambda>types. Schema_read_types [Suc (length us)..<Suc (length us + length ts)] types s))) cs d'"
    using d' d1 charToType_typeToChar [OF Cons.hyps(1)] by simp
  then have "reads (\<lambda>s. res_bind (readChar s) (\<lambda>(c, s). res_bind (charToType c) (\<lambda>t. res_bind (cell_store d (length us) t)
      (\<lambda>types. Schema_read_types [Suc (length us)..<Suc (length us + length ts)] types s)))) ([c] @ cs) d'"
    by (intro reads_bind [OF reads_prims(7)])
  moreover have "[length us..<length us + length (t # ts)] = length us # [Suc (length us)..<Suc (length us + length ts)]"
    by (subst upt_conv_Cons) simp_all
  ultimately have "reads (Schema_read_types [length us..<length us + length (t # ts)] d) (c # cs) d'"
    by (simp add: reads_def del: upt_Suc)
  with d'(2,3) show ?case by blast
qed

lemma Schema_reads:
  assumes t: "list_all2 (\<lambda>t c. typeToChar t = Inr c) ts cs" and n: "length ts \<le> cap" "cap < 2 ^ 64" "rows < 2 ^ 64"
  shows "\<exists>s. reads Schema_deserialize (enc_u64 (of_nat cap) @ enc_u64 (of_nat (length ts)) @ enc_u64 (of_nat rows) @ cs) s \<and>
    Schema_repr s ts \<and> sc_capCols s = cap \<and> sc_numRows s = rows"
proof -
  obtain d where d: "reads (Schema_read_types [0..<length ts] (new_cells cap)) cs d" "holds ts d" "length d = cap"
    using Schema_read_types_reads [OF t, of "[]" "new_cells cap"] n by auto
  let ?s = "\<lparr>sc_types = d, sc_numCols = length ts, sc_capCols = cap, sc_numRows = rows\<rparr>"
  have "reads (\<lambda>s. res_bind (Schema_read_types [0..<length ts] (new_cells cap) s) (\<lambda>(types, s).
      Inr (\<lparr>sc_types = types, sc_numCols = length ts, sc_capCols = cap, sc_numRows = rows\<rparr>, s))) cs ?s"
    by (rule reads_mk1 [OF d(1)]) simp
  then have "reads (\<lambda>s. res_bind (readSizeT s) (\<lambda>(rows, s). res_bind (Schema_read_types [0..<length ts] (new_cells cap) s) (\<lambda>(types, s).
      Inr (\<lparr>sc_types = types, sc_numCols = length ts, sc_capCols = cap, sc_numRows = unat rows\<rparr>, s)))) (enc_u64 (of_nat rows) @ cs) ?s"
    by - (rule reads_bind [OF reads_prims(1)], use n in simp)
  then have "reads (\<lambda>s. res_bind (readSizeT s) (\<lambda>(n, s). res_bind (readSizeT s) (\<lambda>(rows, s).
      res_bind (Schema_read_types [0..<unat n] (new_cells cap) s) (\<lambda>(types, s).
      Inr (\<lparr>sc_types = types, sc_numCols = unat n, sc_capCols = cap, sc_numRows = unat rows\<rparr>, s)))))
      (enc_u64 (of_nat (length ts)) @ enc_u64 (of_nat rows) @ cs) ?s"
    by - (rule reads_bind [OF reads_prims(1)], use n in simp)
  then have "reads (\<lambda>s. res_bind (readSizeT s) (\<lambda>(cap, s). res_bind (readSizeT s) (\<lambda>(n, s). res_bind (readSizeT s) (\<lambda>(rows, s).
      res_bind (Schema_read_types [0..<unat n] (new_cells (unat cap)) s) (\<lambda>(types, s).
      Inr (\<lparr>sc_types = types, sc_numCols = unat n, sc_capCols = unat cap, sc_numRows = unat rows\<rparr>, s))))))
      (enc_u64 (of_nat cap) @ enc_u64 (of_nat (length ts)) @ enc_u64 (of_nat rows) @ cs) ?s"
    by - (rule reads_bind [OF reads_prims(1)], use n in simp)
  then have "reads Schema_deserialize (enc_u64 (of_nat cap) @ enc_u64 (of_nat (length ts)) @ enc_u64 (of_nat rows) @ cs) ?s"
    by (simp add: Schema_deserialize_def [abs_def])
  moreover have "Schema_repr ?s ts" using d by (simp add: Schema_repr_def)
  ultimately show ?thesis by (intro exI [of _ ?s]) simp
qed

section \<open>Properties\<close>

text \<open>A schema is the list of the types of its columns. A schema built from a string of type letters has
  those types, columns added afterwards follow them however often the array has to grow, asking for
  a column at or beyond the width exits, and a copy has the same types; the copy has no rows,
  although the constructor it uses passes \<open>copyRows = true\<close>.\<close>

theorem schema_columns:
  assumes "list_all2 (\<lambda>c t. charToType c = Inr t) cs ts" and "cs \<noteq> []"
  shows "\<exists>s s' k. Schema_of_types (cs @ [NUL]) = Inr s \<and> res_fold Schema_add_column us s = Inr s' \<and>
    Schema_width s' = length (ts @ us) \<and>
    (\<forall>i. Schema_col_type i s' = (if i < length (ts @ us) then Inr ((ts @ us) ! i) else Inl (Exit 1))) \<and>
    Schema_copy (Schema_add_rows rows s') = Inr k \<and> Schema_width k = length (ts @ us) \<and>
    (\<forall>i. Schema_col_type i k = Schema_col_type i s') \<and> Schema_length k = 0"
proof -
  obtain s where s: "Schema_of_types (cs @ [NUL]) = Inr s" "Schema_repr s ts" "sc_capCols s = length ts"
    using Schema_of_types_repr [OF assms] by blast
  have "0 < length ts" using assms(2) list_all2_lengthD [OF assms(1)] by (cases cs; cases ts) simp_all
  then obtain s' where s': "res_fold Schema_add_column us s = Inr s'" "Schema_repr s' (ts @ us)"
    using Schema_add_columns_repr [OF s(2), of us] s(3) by auto
  then have "Schema_repr (Schema_add_rows rows s') (ts @ us)" by (simp add: Schema_repr_def Schema_add_rows_def)
  from Schema_copy_repr [OF this] obtain k where k: "Schema_copy (Schema_add_rows rows s') = Inr k" "Schema_repr k (ts @ us)"
    "sc_numRows k = 0" by blast
  show ?thesis
    using s(1) s' k Schema_col_type_repr [OF s'(2)] Schema_col_type_repr [OF k(2)]
    by (intro exI [of _ s] exI [of _ s'] exI [of _ k]) (simp add: Schema_width_def Schema_length_def Schema_repr_def)
qed

lemma schema_columns_witness:
  "\<exists>s s'. Schema_of_types (''IsB'' @ [NUL]) = Inr s \<and> res_fold Schema_add_column [Double, Str] s = Inr s' \<and>
    Schema_col_type 1 s' = Inr Str \<and> Schema_col_type 4 s' = Inr Str \<and> Schema_col_type 5 s' = Inl (Exit 1)"
proof -
  have "list_all2 (\<lambda>c t. charToType c = Inr t) ''IsB'' [Integer, Str, Boolean]" by (simp add: charToType_def)
  then obtain s s' where "Schema_of_types (''IsB'' @ [NUL]) = Inr s" "res_fold Schema_add_column [Double, Str] s = Inr s'"
    "\<forall>i. Schema_col_type i s' = (if i < length ([Integer, Str, Boolean] @ [Double, Str])
      then Inr (([Integer, Str, Boolean] @ [Double, Str]) ! i) else Inl (Exit 1))"
    using schema_columns [of "''IsB''" "[Integer, Str, Boolean]" "[Double, Str]" 0] by blast
  then show ?thesis by simp
qed

text \<open>A schema survives serialization, with its types, its capacity and its number of rows.\<close>

theorem schema_roundtrip:
  assumes "Schema_repr s ts" and "list_all2 (\<lambda>t c. typeToChar t = Inr c) ts cs"
    and "sc_capCols s < 2 ^ 64" and "sc_numRows s < 2 ^ 64"
  shows "\<exists>b t s' u. Schema_serialize s Serializer_new = Inr b \<and> Serializer_of (sz_written b) (ser_bytes b) = Inr t \<and>
    Schema_deserialize t = Inr (s', u) \<and> Schema_repr s' ts \<and>
    sc_capCols s' = sc_capCols s \<and> Schema_length s' = Schema_length s"
proof -
  obtain s' where s': "reads Schema_deserialize (enc_u64 (of_nat (sc_capCols s)) @ enc_u64 (of_nat (length ts)) @
      enc_u64 (of_nat (sc_numRows s)) @ cs) s'" "Schema_repr s' ts" "sc_capCols s' = sc_capCols s" "sc_numRows s' = sc_numRows s"
    using Schema_reads [OF assms(2) Schema_repr_le [OF assms(1)] assms(3,4)] by blast
  obtain b where b: "Schema_serialize s Serializer_new = Inr b" "ser_bytes b = enc_u64 (of_nat (sc_capCols s)) @
      enc_u64 (of_nat (length ts)) @ enc_u64 (of_nat (sc_numRows s)) @ cs" "sz_written b = length (ser_bytes b)"
    using writes_bytes [OF Schema_writes [OF assms(1,2)]] by auto
  obtain t u where "Serializer_of (sz_written b) (ser_bytes b) = Inr t" "Schema_deserialize t = Inr (s', u)"
    using reads_value [OF s'(1)] b(2,3) by metis
  then show ?thesis using b(1) s'(2-4) unfolding Schema_length_def by blast
qed

lemma schema_roundtrip_witness:
  "\<exists>b t s' u. Schema_serialize \<lparr>sc_types = [Some Integer, Some Str, None], sc_numCols = 2, sc_capCols = 3, sc_numRows = 7\<rparr>
      Serializer_new = Inr b \<and> Serializer_of (sz_written b) (ser_bytes b) = Inr t \<and>
    Schema_deserialize t = Inr (s', u) \<and> Schema_length s' = 7"
  using schema_roundtrip [of "\<lparr>sc_types = [Some Integer, Some Str, None], sc_numCols = 2, sc_capCols = 3, sc_numRows = 7\<rparr>"
      "[Integer, Str]" "''IS''"] by (auto simp: Schema_repr_def holds_def Schema_length_def)

text \<open>A schema never equals another. \<open>equals\<close> reports differences, and when it finds none its control
  flow runs off the end of the function without a value.\<close>

theorem schema_equals_never_true:
  "Schema_equals s s' \<noteq> Inr True \<and> (Schema_repr s ts \<longrightarrow> Schema_equals s s = Inl NoReturnValue)"
proof
  have "Schema_equals_from s s' is \<noteq> Inr True" for "is"
    by (induction "is") (auto simp: res_bind_Inr_iff split: if_splits)
  then show "Schema_equals s s' \<noteq> Inr True" by (simp add: Schema_equals_def)
  show "Schema_repr s ts \<longrightarrow> Schema_equals s s = Inl NoReturnValue"
  proof
    assume r: "Schema_repr s ts"
    have "Schema_equals_from s s is = Inl NoReturnValue" if "\<forall>i\<in>set is. i < length ts" for "is"
      using that
    proof (induction "is")
      case (Cons i "is")
      have "cell_load (sc_types s) i = Inr (ts ! i)"
        using Cons.prems cell_load_holds [of ts "sc_types s" i] r by (simp add: Schema_repr_def)
      with Cons Schema_col_type_repr [OF r, of i] show ?case by simp
    qed simp
    then show "Schema_equals s s = Inl NoReturnValue"
      using r by (simp add: Schema_equals_def Schema_repr_def)
  qed
qed

lemma schema_equals_never_true_witness: "Schema_equals Schema_new Schema_new = Inl NoReturnValue"
  using schema_equals_never_true [of Schema_new Schema_new "[]"] by simp

text \<open>A schema made from the empty string cannot be extended: its capacity is zero, doubling it gives
  zero, and adding a column writes outside the array.\<close>

theorem schema_empty_string: "\<exists>s. Schema_of_types [NUL] = Inr s \<and> Schema_add_column t s = Inl OutOfBounds"
  by (simp add: Schema_of_types_def Schema_add_column_def growColList_def cell_store_def)

end
