(* ===== verification/Rows.thy ===== *)
theory Rows
  imports Schema
begin

text \<open>
  One row of a data frame (\<open>src/dataframe/row/row.h\<close>) and its elements
  (\<open>src/dataframe/row/rowelement.h\<close>). The union of an element is the last member that was
  written; before that it is the zeros it is created with. Reading a member other than the one
  written is a crash, and the type checks of the row exclude it.
\<close>

section \<open>RowElement\<close>

datatype RowValue = IElem u32 | DElem u64 | BElem bool | SElem String

record RowElement =
  re_val :: "RowValue option"
  re_set :: bool
  re_isStr :: bool

definition RowElement_new :: RowElement where
  "RowElement_new = \<lparr>re_val = None, re_set = False, re_isStr = False\<rparr>"

definition RowElement_set_int :: "u32 \<Rightarrow> RowElement \<Rightarrow> RowElement" where
  "RowElement_set_int v e = e\<lparr>re_val := Some (IElem v), re_set := True\<rparr>"

definition RowElement_set_double :: "u64 \<Rightarrow> RowElement \<Rightarrow> RowElement" where
  "RowElement_set_double v e = e\<lparr>re_val := Some (DElem v), re_set := True\<rparr>"

definition RowElement_set_bool :: "bool \<Rightarrow> RowElement \<Rightarrow> RowElement" where
  "RowElement_set_bool v e = e\<lparr>re_val := Some (BElem v), re_set := True\<rparr>"

definition RowElement_set_string :: "String \<Rightarrow> RowElement \<Rightarrow> RowElement res" where
  "RowElement_set_string v e =
     res_bind (String_copy v) (\<lambda>v. Inr (e\<lparr>re_val := Some (SElem v), re_set := True, re_isStr := True\<rparr>))"

definition RowElement_getInt :: "RowElement \<Rightarrow> u32 res" where
  "RowElement_getInt e = (case re_val e of None \<Rightarrow> Inr 0 | Some (IElem v) \<Rightarrow> Inr v | _ \<Rightarrow> Inl TrapValue)"

definition RowElement_getBool :: "RowElement \<Rightarrow> bool res" where
  "RowElement_getBool e = (case re_val e of None \<Rightarrow> Inr False | Some (BElem v) \<Rightarrow> Inr v | _ \<Rightarrow> Inl TrapValue)"

definition RowElement_getDouble :: "RowElement \<Rightarrow> u64 res" where
  "RowElement_getDouble e = (case re_val e of None \<Rightarrow> Inr 0 | Some (DElem v) \<Rightarrow> Inr v | _ \<Rightarrow> Inl TrapValue)"

text \<open>The string of an element that was never set is the null pointer.\<close>

definition RowElement_getString :: "RowElement \<Rightarrow> String res" where
  "RowElement_getString e = (case re_val e of None \<Rightarrow> Inl NullDeref | Some (SElem v) \<Rightarrow> Inr v | _ \<Rightarrow> Inl TrapValue)"

section \<open>Row\<close>

record Row =
  ro_scm :: Schema
  ro_entries :: "RowElement list"
  ro_len :: nat
  ro_rowIdx :: nat

definition Row_new :: "Schema \<Rightarrow> Row res" where
  "Row_new scm =
     res_bind (Schema_copy scm) (\<lambda>s.
     Inr \<lparr>ro_scm = s, ro_entries = replicate (Schema_width scm) RowElement_new,
          ro_len = Schema_width scm, ro_rowIdx = 0\<rparr>)"

definition exitIfBadSet :: "nat \<Rightarrow> char \<Rightarrow> Row \<Rightarrow> unit res" where
  "exitIfBadSet idx expectedType r =
     (if idx \<ge> ro_len r then Inl (Exit 1)
      else
        res_bind (Schema_col_type_char idx (ro_scm r)) (\<lambda>actualType.
        if actualType \<noteq> expectedType then Inl (Exit 1) else Inr ()))"

definition exitIfNotSet :: "nat \<Rightarrow> 'a res" where
  "exitIfNotSet idx = Inl (Exit 1)"

definition Row_entry :: "nat \<Rightarrow> Row \<Rightarrow> RowElement res" where
  "Row_entry col r = cell_load (map Some (ro_entries r)) col"

definition Row_set :: "char \<Rightarrow> (RowElement \<Rightarrow> RowElement res) \<Rightarrow> nat \<Rightarrow> Row \<Rightarrow> Row res" where
  "Row_set t upd col r =
     res_bind (exitIfBadSet col t r) (\<lambda>_.
     res_bind (Row_entry col r) (\<lambda>e.
     res_bind (upd e) (\<lambda>e. Inr (r\<lparr>ro_entries := (ro_entries r)[col := e]\<rparr>))))"

definition Row_set_int :: "nat \<Rightarrow> u32 \<Rightarrow> Row \<Rightarrow> Row res" where
  "Row_set_int col v = Row_set (CHR ''I'') (\<lambda>e. Inr (RowElement_set_int v e)) col"

definition Row_set_double :: "nat \<Rightarrow> u64 \<Rightarrow> Row \<Rightarrow> Row res" where
  "Row_set_double col v = Row_set (CHR ''D'') (\<lambda>e. Inr (RowElement_set_double v e)) col"

definition Row_set_bool :: "nat \<Rightarrow> bool \<Rightarrow> Row \<Rightarrow> Row res" where
  "Row_set_bool col v = Row_set (CHR ''B'') (\<lambda>e. Inr (RowElement_set_bool v e)) col"

definition Row_set_string :: "nat \<Rightarrow> String \<Rightarrow> Row \<Rightarrow> Row res" where
  "Row_set_string col v = Row_set (CHR ''S'') (RowElement_set_string v) col"

definition Row_set_idx :: "nat \<Rightarrow> Row \<Rightarrow> Row" where
  "Row_set_idx idx r = r\<lparr>ro_rowIdx := idx\<rparr>"

definition Row_get :: "char \<Rightarrow> (RowElement \<Rightarrow> 'a res) \<Rightarrow> nat \<Rightarrow> Row \<Rightarrow> 'a res" where
  "Row_get t getv col r =
     res_bind (exitIfBadSet col t r) (\<lambda>_.
     res_bind (Row_entry col r) (\<lambda>e. if re_set e then getv e else exitIfNotSet col))"

definition Row_get_int :: "nat \<Rightarrow> Row \<Rightarrow> u32 res" where
  "Row_get_int = Row_get (CHR ''I'') RowElement_getInt"

definition Row_get_bool :: "nat \<Rightarrow> Row \<Rightarrow> bool res" where
  "Row_get_bool = Row_get (CHR ''B'') RowElement_getBool"

definition Row_get_double :: "nat \<Rightarrow> Row \<Rightarrow> u64 res" where
  "Row_get_double = Row_get (CHR ''D'') RowElement_getDouble"

definition Row_get_string :: "nat \<Rightarrow> Row \<Rightarrow> String res" where
  "Row_get_string = Row_get (CHR ''S'') RowElement_getString"

definition Row_width :: "Row \<Rightarrow> nat" where
  "Row_width r = ro_len r"

definition Row_col_type :: "nat \<Rightarrow> Row \<Rightarrow> char res" where
  "Row_col_type idx r = (if idx \<ge> ro_len r then Inl (Exit 1) else Schema_col_type_char idx (ro_scm r))"

definition Row_clear :: "Row \<Rightarrow> Row" where
  "Row_clear r = r\<lparr>ro_len := Schema_width (ro_scm r),
     ro_entries := replicate (Schema_width (ro_scm r)) RowElement_new, ro_rowIdx := 0\<rparr>"

section \<open>A row is a tuple of the types of its schema\<close>

text \<open>The value an element may hold in a column of type \<open>t\<close>.\<close>

fun value_of_type :: "DataType \<Rightarrow> RowValue \<Rightarrow> bool" where
  "value_of_type Integer (IElem _) = True"
| "value_of_type Double (DElem _) = True"
| "value_of_type Boolean (BElem _) = True"
| "value_of_type Str (SElem s) = String_wf s"
| "value_of_type _ _ = False"

text \<open>\<open>vs ! i\<close> is the value of column \<open>i\<close>, if it was set.\<close>

definition Row_repr :: "Row \<Rightarrow> DataType list \<Rightarrow> RowValue option list \<Rightarrow> bool" where
  "Row_repr r ts vs \<longleftrightarrow> Schema_repr (ro_scm r) ts \<and> ro_len r = length ts \<and> length (ro_entries r) = length ts \<and>
     Field \<notin> set ts \<and> list_all2 (\<lambda>t v. \<forall>x. v = Some x \<longrightarrow> value_of_type t x) ts vs \<and>
     (\<forall>i < length ts. re_set (ro_entries r ! i) = (vs ! i \<noteq> None) \<and> re_val (ro_entries r ! i) = vs ! i)"

lemma Row_reprD:
  assumes "Row_repr r ts vs"
  shows "Schema_repr (ro_scm r) ts" and "ro_len r = length ts" and "length (ro_entries r) = length ts" and "length vs = length ts"
    and "\<And>i. i < length ts \<Longrightarrow> ts ! i \<noteq> Field"
    and "\<And>i x. i < length ts \<Longrightarrow> vs ! i = Some x \<Longrightarrow> value_of_type (ts ! i) x"
    and "\<And>i. i < length ts \<Longrightarrow> re_set (ro_entries r ! i) = (vs ! i \<noteq> None) \<and> re_val (ro_entries r ! i) = vs ! i"
  using assms by (auto simp: Row_repr_def list_all2_conv_all_nth) (metis nth_mem)

lemma Row_repr_new:
  assumes "Schema_repr s ts" and "Field \<notin> set ts"
  shows "\<exists>r. Row_new s = Inr r \<and> Row_repr r ts (replicate (length ts) None) \<and> ro_rowIdx r = 0"
  using Schema_copy_repr [OF assms(1)] assms
  by (auto simp: Row_new_def Row_repr_def Schema_width_def Schema_repr_def RowElement_new_def list_all2_conv_all_nth)

lemma Row_repr_clear: "Row_repr r ts vs \<Longrightarrow> Row_repr (Row_clear r) ts (replicate (length ts) None)"
  by (auto simp: Row_clear_def Row_repr_def Schema_width_def Schema_repr_def RowElement_new_def list_all2_conv_all_nth)

fun type_char :: "DataType \<Rightarrow> char" where
  "type_char Integer = CHR ''I''"
| "type_char Double = CHR ''D''"
| "type_char Boolean = CHR ''B''"
| "type_char Str = CHR ''S''"
| "type_char Field = NUL"

lemma typeToChar_type_char: "t \<noteq> Field \<Longrightarrow> typeToChar t = Inr (type_char t)"
  by (cases t) auto

lemma type_char_inject [simp]: "type_char s = type_char t \<longleftrightarrow> s = t"
  by (cases s; cases t) auto

lemma exitIfBadSet_repr:
  "Row_repr r ts vs \<Longrightarrow> t \<noteq> Field \<Longrightarrow>
   exitIfBadSet col (type_char t) r = (if col < length ts \<and> ts ! col = t then Inr () else Inl (Exit 1))"
  using Row_reprD(1,2,5) [of r ts vs] Schema_col_type_char_repr [of "ro_scm r" ts col]
  by (auto simp: exitIfBadSet_def typeToChar_type_char)

lemma Row_entry_repr: "Row_repr r ts vs \<Longrightarrow> col < length ts \<Longrightarrow> Row_entry col r = Inr (ro_entries r ! col)"
  by (simp add: Row_entry_def cell_load_def Row_repr_def)

lemma Row_set_repr:
  assumes r: "Row_repr r ts vs" and t: "t \<noteq> Field"
    and u: "\<And>e. \<exists>e'. upd e = Inr e' \<and> re_val e' = Some v \<and> re_set e'" and v: "value_of_type t v"
  shows "if col < length ts \<and> ts ! col = t
     then \<exists>r'. Row_set (type_char t) upd col r = Inr r' \<and> Row_repr r' ts (vs[col := Some v]) \<and> ro_rowIdx r' = ro_rowIdx r
     else Row_set (type_char t) upd col r = Inl (Exit 1)"
proof (cases "col < length ts \<and> ts ! col = t")
  case True
  note D = Row_reprD [OF r]
  obtain e' where e': "upd (ro_entries r ! col) = Inr e'" "re_val e' = Some v" "re_set e'" using u by blast
  have "Row_set (type_char t) upd col r = Inr (r\<lparr>ro_entries := (ro_entries r)[col := e']\<rparr>)"
    using True e'(1) by (simp add: Row_set_def exitIfBadSet_repr [OF r t] Row_entry_repr [OF r])
  moreover have "Row_repr (r\<lparr>ro_entries := (ro_entries r)[col := e']\<rparr>) ts (vs[col := Some v])"
    using r True e' v D(3,4,7) by (auto simp: Row_repr_def list_all2_conv_all_nth nth_list_update)
  ultimately show ?thesis using True by simp
next
  case False
  then show ?thesis by (auto simp: Row_set_def exitIfBadSet_repr [OF r t])
qed

lemma Row_get_repr:
  assumes r: "Row_repr r ts vs" and t: "t \<noteq> Field"
    and g: "\<And>x e. value_of_type t x \<Longrightarrow> re_val e = Some x \<Longrightarrow> getv e = Inr (proj x)"
  shows "Row_get (type_char t) getv col r =
    (if col < length ts \<and> ts ! col = t then (case vs ! col of None \<Rightarrow> Inl (Exit 1) | Some x \<Rightarrow> Inr (proj x)) else Inl (Exit 1))"
  using Row_reprD(6,7) [OF r, of col] g
  by (auto simp: Row_get_def exitIfBadSet_repr [OF r t] Row_entry_repr [OF r] exitIfNotSet_def split: option.splits)

fun as_int :: "RowValue \<Rightarrow> u32" where "as_int (IElem v) = v" | "as_int _ = 0"
fun as_double :: "RowValue \<Rightarrow> u64" where "as_double (DElem v) = v" | "as_double _ = 0"
fun as_bool :: "RowValue \<Rightarrow> bool" where "as_bool (BElem v) = v" | "as_bool _ = False"
fun as_string :: "RowValue \<Rightarrow> String" where "as_string (SElem v) = v" | "as_string _ = String_lit []"

text \<open>One setter and one getter for a value of any type.\<close>

fun Row_set_value :: "nat \<Rightarrow> RowValue \<Rightarrow> Row \<Rightarrow> Row res" where
  "Row_set_value col (IElem v) = Row_set_int col v"
| "Row_set_value col (DElem v) = Row_set_double col v"
| "Row_set_value col (BElem v) = Row_set_bool col v"
| "Row_set_value col (SElem v) = Row_set_string col v"

definition Row_get_value :: "DataType \<Rightarrow> nat \<Rightarrow> Row \<Rightarrow> RowValue res" where
  "Row_get_value t col r = (case t of
       Integer \<Rightarrow> res_bind (Row_get_int col r) (\<lambda>v. Inr (IElem v))
     | Double \<Rightarrow> res_bind (Row_get_double col r) (\<lambda>v. Inr (DElem v))
     | Boolean \<Rightarrow> res_bind (Row_get_bool col r) (\<lambda>v. Inr (BElem v))
     | Str \<Rightarrow> res_bind (Row_get_string col r) (\<lambda>v. Inr (SElem v))
     | Field \<Rightarrow> Inl (Exit 1))"

lemma Row_set_value_repr:
  assumes "Row_repr r ts vs" and "value_of_type t v"
  shows "if col < length ts \<and> ts ! col = t
     then \<exists>r'. Row_set_value col v r = Inr r' \<and> Row_repr r' ts (vs[col := Some v]) \<and> ro_rowIdx r' = ro_rowIdx r
     else Row_set_value col v r = Inl (Exit 1)"
  using assms(2)
    Row_set_repr [OF assms(1), of Integer "\<lambda>e. Inr (RowElement_set_int (as_int v) e)" v col]
    Row_set_repr [OF assms(1), of Double "\<lambda>e. Inr (RowElement_set_double (as_double v) e)" v col]
    Row_set_repr [OF assms(1), of Boolean "\<lambda>e. Inr (RowElement_set_bool (as_bool v) e)" v col]
    Row_set_repr [OF assms(1), of Str "RowElement_set_string (as_string v)" v col]
  by (cases v; cases t) (auto simp: Row_set_int_def Row_set_double_def Row_set_bool_def Row_set_string_def
      RowElement_set_int_def RowElement_set_double_def RowElement_set_bool_def RowElement_set_string_def elim!: String_wfE)

lemma Row_get_value_repr:
  assumes "Row_repr r ts vs" and "t \<noteq> Field"
  shows "Row_get_value t col r =
    (if col < length ts \<and> ts ! col = t then (case vs ! col of None \<Rightarrow> Inl (Exit 1) | Some x \<Rightarrow> Inr x) else Inl (Exit 1))"
proof -
  have v: "vs ! col = Some x \<Longrightarrow> col < length ts \<Longrightarrow> value_of_type (ts ! col) x" for x
    using Row_reprD(6) [OF assms(1)] by blast
  have i: "value_of_type Integer x \<Longrightarrow> re_val e = Some x \<Longrightarrow> RowElement_getInt e = Inr (as_int x)" for x e
    by (cases x) (auto simp: RowElement_getInt_def)
  have d: "value_of_type Double x \<Longrightarrow> re_val e = Some x \<Longrightarrow> RowElement_getDouble e = Inr (as_double x)" for x e
    by (cases x) (auto simp: RowElement_getDouble_def)
  have b: "value_of_type Boolean x \<Longrightarrow> re_val e = Some x \<Longrightarrow> RowElement_getBool e = Inr (as_bool x)" for x e
    by (cases x) (auto simp: RowElement_getBool_def)
  have s: "value_of_type Str x \<Longrightarrow> re_val e = Some x \<Longrightarrow> RowElement_getString e = Inr (as_string x)" for x e
    by (cases x) (auto simp: RowElement_getString_def)
  have get: "res_bind (Row_get (type_char t) getv col r) (\<lambda>v. Inr (c v)) =
      (if col < length ts \<and> ts ! col = t then (case vs ! col of None \<Rightarrow> Inl (Exit 1) | Some x \<Rightarrow> Inr x) else Inl (Exit 1))"
    if g: "\<And>x e. value_of_type t x \<Longrightarrow> re_val e = Some x \<Longrightarrow> getv e = Inr (p x)" and c: "\<And>x. value_of_type t x \<Longrightarrow> c (p x) = x"
    for getv :: "RowElement \<Rightarrow> 'x res" and p c
  proof (cases "vs ! col")
    case None
    then show ?thesis by (simp add: Row_get_repr [OF assms, of getv p, OF g])
  next
    case (Some x)
    then show ?thesis using v [of x] c [of x] by (auto simp: Row_get_repr [OF assms, of getv p, OF g])
  qed
  have c: "value_of_type Integer x \<Longrightarrow> IElem (as_int x) = x" "value_of_type Double x \<Longrightarrow> DElem (as_double x) = x"
    "value_of_type Boolean x \<Longrightarrow> BElem (as_bool x) = x" "value_of_type Str x \<Longrightarrow> SElem (as_string x) = x" for x
    by (cases x; simp)+
  show ?thesis
  proof (cases t)
    case Integer
    then show ?thesis
      using get [of RowElement_getInt as_int IElem] i c(1) by (simp add: Row_get_value_def Row_get_int_def)
  next
    case Double
    then show ?thesis
      using get [of RowElement_getDouble as_double DElem] d c(2) by (simp add: Row_get_value_def Row_get_double_def)
  next
    case Boolean
    then show ?thesis
      using get [of RowElement_getBool as_bool BElem] b c(3) by (simp add: Row_get_value_def Row_get_bool_def)
  next
    case Str
    then show ?thesis
      using get [of RowElement_getString as_string SElem] s c(4) by (simp add: Row_get_value_def Row_get_string_def)
  qed (use assms(2) in simp)
qed

section \<open>Properties\<close>

text \<open>A row holds one value for each column, of the type the schema gives it. Setting a column of that
  type is what a later get of the column returns and leaves the other columns alone; setting or
  getting a column of another type or outside the row, and getting a column that was not set,
  exit; clearing the row unsets every column.\<close>

theorem row_set_get:
  assumes "Row_repr r ts vs" and "value_of_type t v" and "u \<noteq> Field"
  shows "if col < length ts \<and> ts ! col = t
    then \<exists>r'. Row_set_value col v r = Inr r' \<and> Row_get_value t col r' = Inr v \<and>
      (\<forall>i. i \<noteq> col \<longrightarrow> Row_get_value u i r' = Row_get_value u i r) \<and>
      Row_get_value u i (Row_clear r') = Inl (Exit 1)
    else Row_set_value col v r = Inl (Exit 1) \<and> Row_get_value t col r = Inl (Exit 1)"
proof (cases "col < length ts \<and> ts ! col = t")
  case True
  have t: "t \<noteq> Field" using assms(2) by auto
  obtain r' where r': "Row_set_value col v r = Inr r'" "Row_repr r' ts (vs[col := Some v])"
    using Row_set_value_repr [OF assms(1,2), of col] True by auto
  have "Row_get_value u i (Row_clear r') = Inl (Exit 1)"
    using Row_get_value_repr [OF Row_repr_clear [OF r'(2)] assms(3), of i] by simp
  with True show ?thesis
    using r'(1) Row_get_value_repr [OF r'(2) t, of col] Row_get_value_repr [OF r'(2) assms(3)]
      Row_get_value_repr [OF assms(1,3)] Row_reprD(4) [OF assms(1)] by auto
next
  case False
  have t: "t \<noteq> Field" using assms(2) by auto
  show ?thesis
    using False Row_set_value_repr [OF assms(1,2), of col] Row_get_value_repr [OF assms(1) t, of col] by auto
qed

lemma row_set_get_witness:
  "\<exists>s r r'. Schema_of_types (''IS'' @ [NUL]) = Inr s \<and> Row_new s = Inr r \<and>
    Row_set_value 1 (SElem (String_lit ''x'')) r = Inr r' \<and> Row_get_value Str 1 r' = Inr (SElem (String_lit ''x'')) \<and>
    Row_set_value 0 (SElem (String_lit ''x'')) r = Inl (Exit 1)"
proof -
  have "list_all2 (\<lambda>c t. charToType c = Inr t) ''IS'' [Integer, Str]" by (simp add: charToType_def)
  then obtain s where s: "Schema_of_types (''IS'' @ [NUL]) = Inr s" "Schema_repr s [Integer, Str]"
    using Schema_of_types_repr by blast
  obtain r where r: "Row_new s = Inr r" "Row_repr r [Integer, Str] [None, None]"
    using Row_repr_new [OF s(2)] by auto
  have v: "value_of_type Str (SElem (String_lit ''x''))" by (simp add: cstr_ok_def)
  show ?thesis
    using s(1) r(1) row_set_get [OF r(2) v, of Str 1] row_set_get [OF r(2) v, of Str 0] by auto
qed

end
