(* ===== verification/DataFrame.thy ===== *)
theory DataFrame
  imports ColumnProps Rows
begin

text \<open>
  Data frames (\<open>src/dataframe/dataframe.h\<close>), their columns (\<open>column/columnarray.h\<close>), the ways to
  make one (\<open>datatodf.h\<close>) and to fetch one from the store (\<open>src/store/getImpls.h\<close>).

  As in the theory \<open>Column\<close>, the store is the two operations \<open>putv\<close> and \<open>getv\<close> and a state \<open>'s\<close>.
  The key of a \<open>ColumnArray\<close> is a pointer to the key of its frame, so the array is modelled by its
  columns alone and its operations take that key. A \<open>Writer\<close> is its two methods on a state
  \<open>'w\<close>; \<open>done\<close> may change the state. A \<open>Reader\<close> is its \<open>visit\<close> on a state \<open>'r\<close> and does not change
  the row.
\<close>

section \<open>ColumnArray\<close>

type_synonym ColumnArray = "Column Array"

definition ColumnArray_new :: ColumnArray where
  "ColumnArray_new = Array_default"

definition ColumnArray_serialize :: "Key \<Rightarrow> ColumnArray \<Rightarrow> Serializer \<Rightarrow> Serializer res" where
  "ColumnArray_serialize dfKey ca s =
     res_bind (write_size_t (of_nat (arr_len ca)) s) (\<lambda>s.
     res_bind (res_fold (\<lambda>i s. res_bind (Array_get i ca) (\<lambda>c. Column_serialize c s)) [0..<arr_len ca] s) (\<lambda>s.
     Key_serialize dfKey s))"

fun ColumnArray_read :: "nat \<Rightarrow> ColumnArray \<Rightarrow> Serializer \<Rightarrow> (ColumnArray \<times> Serializer) res" where
  "ColumnArray_read 0 ca s = Inr (ca, s)"
| "ColumnArray_read (Suc n) ca s =
     res_bind Column_default (\<lambda>c.
     res_bind (Column_deserialize c s) (\<lambda>(c, s).
     res_bind (Array_add c ca) (\<lambda>ca. ColumnArray_read n ca s)))"

text \<open>Returns the columns and the key read into \<open>dfKey_\<close>.\<close>

definition ColumnArray_deserialize :: "ColumnArray \<Rightarrow> Serializer \<Rightarrow> (ColumnArray \<times> Key \<times> Serializer) res" where
  "ColumnArray_deserialize ca s =
     res_bind (readSizeT s) (\<lambda>(len, s).
     res_bind (ColumnArray_read (unat len) (Array_clear ca) s) (\<lambda>(ca, s).
     res_bind (Key_deserialize s) (\<lambda>(k, s). Inr (ca, k, s))))"

definition ColumnArray_length :: "ColumnArray \<Rightarrow> nat" where
  "ColumnArray_length ca = arr_len ca"

definition ColumnArray_get :: "nat \<Rightarrow> ColumnArray \<Rightarrow> Column res" where
  "ColumnArray_get idx ca = Array_get idx ca"

definition ColumnArray_add_column :: "Column \<Rightarrow> ColumnArray \<Rightarrow> ColumnArray res" where
  "ColumnArray_add_column c ca = Array_add c ca"

definition ColumnArray_add_column_char :: "Key \<Rightarrow> char \<Rightarrow> ColumnArray \<Rightarrow> ColumnArray res" where
  "ColumnArray_add_column_char dfKey colType ca =
     res_bind (Key_addIndex (ColumnArray_length ca) dfKey) (\<lambda>k.
     res_bind (Column_new_char k colType) (\<lambda>c. ColumnArray_add_column c ca))"

definition ColumnArray_add_fromarray ::
    "DataType \<Rightarrow> (nat \<Rightarrow> 'a list \<Rightarrow> nat \<Rightarrow> Column \<times> 's \<Rightarrow> (Column \<times> 's) res) \<Rightarrow>
     nat \<Rightarrow> 'a list \<Rightarrow> Key \<Rightarrow> ColumnArray \<times> 's \<Rightarrow> (ColumnArray \<times> 's) res" where
  "ColumnArray_add_fromarray t add_all numElements elements dfKey = (\<lambda>(ca, st).
     res_bind (Key_addIndex (ColumnArray_length ca) dfKey) (\<lambda>k.
     res_bind (Column_new k t) (\<lambda>c.
     res_bind (add_all numElements elements (arr_len ca) (c, st)) (\<lambda>(c, st).
     res_bind (ColumnArray_add_column c ca) (\<lambda>ca. Inr (ca, st))))))"

definition ColumnArray_add_doubles ::
    "Args \<Rightarrow> (Key \<Rightarrow> Value \<Rightarrow> 's \<Rightarrow> 's res) \<Rightarrow> nat \<Rightarrow> u64 list \<Rightarrow> Key \<Rightarrow> ColumnArray \<times> 's \<Rightarrow> (ColumnArray \<times> 's) res" where
  "ColumnArray_add_doubles args putv = ColumnArray_add_fromarray Double (Column_add_doubles args putv)"

definition ColumnArray_add_ints ::
    "Args \<Rightarrow> (Key \<Rightarrow> Value \<Rightarrow> 's \<Rightarrow> 's res) \<Rightarrow> nat \<Rightarrow> u32 list \<Rightarrow> Key \<Rightarrow> ColumnArray \<times> 's \<Rightarrow> (ColumnArray \<times> 's) res" where
  "ColumnArray_add_ints args putv = ColumnArray_add_fromarray Integer (Column_add_ints args putv)"

definition ColumnArray_add_bools ::
    "Args \<Rightarrow> (Key \<Rightarrow> Value \<Rightarrow> 's \<Rightarrow> 's res) \<Rightarrow> nat \<Rightarrow> bool list \<Rightarrow> Key \<Rightarrow> ColumnArray \<times> 's \<Rightarrow> (ColumnArray \<times> 's) res" where
  "ColumnArray_add_bools args putv = ColumnArray_add_fromarray Boolean (Column_add_bools args putv)"

definition ColumnArray_add_strings ::
    "Args \<Rightarrow> (Key \<Rightarrow> Value \<Rightarrow> 's \<Rightarrow> 's res) \<Rightarrow> nat \<Rightarrow> String list \<Rightarrow> Key \<Rightarrow> ColumnArray \<times> 's \<Rightarrow> (ColumnArray \<times> 's) res" where
  "ColumnArray_add_strings args putv = ColumnArray_add_fromarray Str (Column_add_strings args putv)"

text \<open>A call on the column at an index: the column in the array is changed in place.\<close>

definition ColumnArray_at ::
    "nat \<Rightarrow> (Column \<times> 's \<Rightarrow> ('a \<times> Column \<times> 's) res) \<Rightarrow> ColumnArray \<times> 's \<Rightarrow> ('a \<times> ColumnArray \<times> 's) res" where
  "ColumnArray_at col f = (\<lambda>(ca, st).
     res_bind (Array_get col ca) (\<lambda>c.
     res_bind (f (c, st)) (\<lambda>(x, c, st).
     res_bind (Array_set col c ca) (\<lambda>(_, ca). Inr (x, ca, st)))))"

definition ColumnArray_get_int ::
    "Args \<Rightarrow> (Key \<Rightarrow> 's \<Rightarrow> (Value option \<times> 's) res) \<Rightarrow> nat \<Rightarrow> nat \<Rightarrow> ColumnArray \<times> 's \<Rightarrow> (u32 \<times> ColumnArray \<times> 's) res" where
  "ColumnArray_get_int args getv col row = ColumnArray_at col (Column_get_int args getv row col)"

definition ColumnArray_get_bool ::
    "Args \<Rightarrow> (Key \<Rightarrow> 's \<Rightarrow> (Value option \<times> 's) res) \<Rightarrow> nat \<Rightarrow> nat \<Rightarrow> ColumnArray \<times> 's \<Rightarrow> (bool \<times> ColumnArray \<times> 's) res" where
  "ColumnArray_get_bool args getv col row = ColumnArray_at col (Column_get_bool args getv row col)"

definition ColumnArray_get_double ::
    "Args \<Rightarrow> (Key \<Rightarrow> 's \<Rightarrow> (Value option \<times> 's) res) \<Rightarrow> nat \<Rightarrow> nat \<Rightarrow> ColumnArray \<times> 's \<Rightarrow> (u64 \<times> ColumnArray \<times> 's) res" where
  "ColumnArray_get_double args getv col row = ColumnArray_at col (Column_get_double args getv row col)"

definition ColumnArray_get_string ::
    "Args \<Rightarrow> (Key \<Rightarrow> 's \<Rightarrow> (Value option \<times> 's) res) \<Rightarrow> nat \<Rightarrow> nat \<Rightarrow> ColumnArray \<times> 's \<Rightarrow> (String \<times> ColumnArray \<times> 's) res" where
  "ColumnArray_get_string args getv col row = ColumnArray_at col (Column_get_string args getv row col)"

section \<open>DataFrame\<close>

record DataFrame =
  df_columns :: ColumnArray
  df_schema :: Schema
  df_key :: Key

definition DataFrame_new :: "Key \<Rightarrow> DataFrame" where
  "DataFrame_new k = \<lparr>df_columns = ColumnArray_new, df_schema = Schema_new, df_key = k\<rparr>"

definition DataFrame_of_types :: "char list \<Rightarrow> Key \<Rightarrow> DataFrame res" where
  "DataFrame_of_types scm k =
     res_bind (Schema_of_types scm) (\<lambda>schema.
     res_bind (res_fold (\<lambda>i ca.
         res_bind (Key_clone k) (\<lambda>k.
         res_bind (cell_load (map Some scm) i) (\<lambda>t.
         res_bind (Column_new_char k t) (\<lambda>c. ColumnArray_add_column c ca))))
       [0..<Schema_width schema] ColumnArray_new) (\<lambda>ca.
     Inr \<lparr>df_columns = ca, df_schema = schema, df_key = k\<rparr>))"

text \<open>\<open>add_array\<close>: a new column, and its length is added to the number of rows.\<close>

definition DataFrame_add_array ::
    "char \<Rightarrow> (nat \<Rightarrow> 'a list \<Rightarrow> Key \<Rightarrow> ColumnArray \<times> 's \<Rightarrow> (ColumnArray \<times> 's) res) \<Rightarrow>
     nat \<Rightarrow> 'a list \<Rightarrow> DataFrame \<times> 's \<Rightarrow> (DataFrame \<times> 's) res" where
  "DataFrame_add_array t add numElements elements = (\<lambda>(df, st).
     res_bind (add numElements elements (df_key df) (df_columns df, st)) (\<lambda>(ca, st).
     res_bind (Schema_add_column_char t (df_schema df)) (\<lambda>schema.
     Inr (df\<lparr>df_columns := ca, df_schema := Schema_add_rows numElements schema\<rparr>, st))))"

definition DataFrame_add_doubles ::
    "Args \<Rightarrow> (Key \<Rightarrow> Value \<Rightarrow> 's \<Rightarrow> 's res) \<Rightarrow> nat \<Rightarrow> u64 list \<Rightarrow> DataFrame \<times> 's \<Rightarrow> (DataFrame \<times> 's) res" where
  "DataFrame_add_doubles args putv = DataFrame_add_array (CHR ''D'') (ColumnArray_add_doubles args putv)"

definition DataFrame_add_ints ::
    "Args \<Rightarrow> (Key \<Rightarrow> Value \<Rightarrow> 's \<Rightarrow> 's res) \<Rightarrow> nat \<Rightarrow> u32 list \<Rightarrow> DataFrame \<times> 's \<Rightarrow> (DataFrame \<times> 's) res" where
  "DataFrame_add_ints args putv = DataFrame_add_array (CHR ''I'') (ColumnArray_add_ints args putv)"

definition DataFrame_add_bools ::
    "Args \<Rightarrow> (Key \<Rightarrow> Value \<Rightarrow> 's \<Rightarrow> 's res) \<Rightarrow> nat \<Rightarrow> bool list \<Rightarrow> DataFrame \<times> 's \<Rightarrow> (DataFrame \<times> 's) res" where
  "DataFrame_add_bools args putv = DataFrame_add_array (CHR ''B'') (ColumnArray_add_bools args putv)"

definition DataFrame_add_strings ::
    "Args \<Rightarrow> (Key \<Rightarrow> Value \<Rightarrow> 's \<Rightarrow> 's res) \<Rightarrow> nat \<Rightarrow> String list \<Rightarrow> DataFrame \<times> 's \<Rightarrow> (DataFrame \<times> 's) res" where
  "DataFrame_add_strings args putv = DataFrame_add_array (CHR ''S'') (ColumnArray_add_strings args putv)"

definition DataFrame_serialize :: "DataFrame \<Rightarrow> Serializer \<Rightarrow> Serializer res" where
  "DataFrame_serialize df s =
     res_bind (ColumnArray_serialize (df_key df) (df_columns df) s) (\<lambda>s.
     res_bind (Schema_serialize (df_schema df) s) (Key_serialize (df_key df)))"

text \<open>The columns read the key of the frame, which is then read once more.\<close>

definition DataFrame_deserialize :: "DataFrame \<Rightarrow> Serializer \<Rightarrow> (DataFrame \<times> Serializer) res" where
  "DataFrame_deserialize df s =
     res_bind (ColumnArray_deserialize (df_columns df) s) (\<lambda>(ca, _, s).
     res_bind (Schema_deserialize s) (\<lambda>(schema, s).
     res_bind (Key_deserialize s) (\<lambda>(k, s).
     Inr (\<lparr>df_columns = ca, df_schema = schema, df_key = k\<rparr>, s))))"

text \<open>\<open>add_column\<close>; \<open>None\<close> is the null pointer.\<close>

definition DataFrame_add_column :: "Column option \<Rightarrow> DataFrame \<Rightarrow> DataFrame res" where
  "DataFrame_add_column col df =
     (case col of
        None \<Rightarrow> Inl (Exit 1)
      | Some c \<Rightarrow>
          if co_size c \<noteq> Schema_length (df_schema df) then Inl (Exit 1)
          else
            res_bind (ColumnArray_add_column c (df_columns df)) (\<lambda>ca.
            res_bind (typeToChar (co_type c)) (\<lambda>type.
            res_bind (Schema_add_column_char type (df_schema df)) (\<lambda>schema.
            Inr (df\<lparr>df_columns := ca, df_schema := schema\<rparr>)))))"

definition df_get ::
    "(ColumnArray \<times> 's \<Rightarrow> ('a \<times> ColumnArray \<times> 's) res) \<Rightarrow> DataFrame \<times> 's \<Rightarrow> ('a \<times> DataFrame \<times> 's) res" where
  "df_get get = (\<lambda>(df, st).
     res_bind (get (df_columns df, st)) (\<lambda>(x, ca, st). Inr (x, df\<lparr>df_columns := ca\<rparr>, st)))"

definition DataFrame_get_int ::
    "Args \<Rightarrow> (Key \<Rightarrow> 's \<Rightarrow> (Value option \<times> 's) res) \<Rightarrow> nat \<Rightarrow> nat \<Rightarrow> DataFrame \<times> 's \<Rightarrow> (u32 \<times> DataFrame \<times> 's) res" where
  "DataFrame_get_int args getv col row = df_get (ColumnArray_get_int args getv col row)"

definition DataFrame_get_bool ::
    "Args \<Rightarrow> (Key \<Rightarrow> 's \<Rightarrow> (Value option \<times> 's) res) \<Rightarrow> nat \<Rightarrow> nat \<Rightarrow> DataFrame \<times> 's \<Rightarrow> (bool \<times> DataFrame \<times> 's) res" where
  "DataFrame_get_bool args getv col row = df_get (ColumnArray_get_bool args getv col row)"

definition DataFrame_get_double ::
    "Args \<Rightarrow> (Key \<Rightarrow> 's \<Rightarrow> (Value option \<times> 's) res) \<Rightarrow> nat \<Rightarrow> nat \<Rightarrow> DataFrame \<times> 's \<Rightarrow> (u64 \<times> DataFrame \<times> 's) res" where
  "DataFrame_get_double args getv col row = df_get (ColumnArray_get_double args getv col row)"

definition DataFrame_get_string ::
    "Args \<Rightarrow> (Key \<Rightarrow> 's \<Rightarrow> (Value option \<times> 's) res) \<Rightarrow> nat \<Rightarrow> nat \<Rightarrow> DataFrame \<times> 's \<Rightarrow> (String \<times> DataFrame \<times> 's) res" where
  "DataFrame_get_string args getv col row = df_get (ColumnArray_get_string args getv col row)"

definition nrows :: "DataFrame \<Rightarrow> nat" where
  "nrows df = Schema_length (df_schema df)"

definition ncols :: "DataFrame \<Rightarrow> nat" where
  "ncols df = Schema_width (df_schema df)"

subsection \<open>Rows out of a frame\<close>

definition setRowValByColType ::
    "Args \<Rightarrow> (Key \<Rightarrow> 's \<Rightarrow> (Value option \<times> 's) res) \<Rightarrow> nat \<Rightarrow> nat \<Rightarrow> char \<Rightarrow> Row \<times> DataFrame \<times> 's \<Rightarrow> (Row \<times> DataFrame \<times> 's) res" where
  "setRowValByColType args getv colIdx rowIdx colType = (\<lambda>(r, df, st).
     if colType = CHR ''I'' then
       res_bind (DataFrame_get_int args getv colIdx rowIdx (df, st)) (\<lambda>(x, df, st).
       res_bind (Row_set_int colIdx x r) (\<lambda>r. Inr (r, df, st)))
     else if colType = CHR ''B'' then
       res_bind (DataFrame_get_bool args getv colIdx rowIdx (df, st)) (\<lambda>(x, df, st).
       res_bind (Row_set_bool colIdx x r) (\<lambda>r. Inr (r, df, st)))
     else if colType = CHR ''D'' then
       res_bind (DataFrame_get_double args getv colIdx rowIdx (df, st)) (\<lambda>(x, df, st).
       res_bind (Row_set_double colIdx x r) (\<lambda>r. Inr (r, df, st)))
     else if colType = CHR ''S'' then
       res_bind (DataFrame_get_string args getv colIdx rowIdx (df, st)) (\<lambda>(x, df, st).
       res_bind (Row_set_string colIdx x r) (\<lambda>r. Inr (r, df, st)))
     else Inr (r, df, st))"

definition fill_row ::
    "Args \<Rightarrow> (Key \<Rightarrow> 's \<Rightarrow> (Value option \<times> 's) res) \<Rightarrow> nat \<Rightarrow> Row \<times> DataFrame \<times> 's \<Rightarrow> (Row \<times> DataFrame \<times> 's) res" where
  "fill_row args getv rowIdx = (\<lambda>(r, df, st).
     res_fold (\<lambda>colIdx (r, df, st).
       res_bind (Schema_col_type_char colIdx (df_schema df)) (\<lambda>t.
       setRowValByColType args getv colIdx rowIdx t (r, df, st)))
       [0..<Row_width r] (Row_set_idx rowIdx r, df, st))"

definition createRow ::
    "Args \<Rightarrow> (Key \<Rightarrow> 's \<Rightarrow> (Value option \<times> 's) res) \<Rightarrow> nat \<Rightarrow> DataFrame \<times> 's \<Rightarrow> (Row \<times> DataFrame \<times> 's) res" where
  "createRow args getv rowIdx = (\<lambda>(df, st).
     res_bind (Row_new (df_schema df)) (\<lambda>r. fill_row args getv rowIdx (r, df, st)))"

text \<open>One turn of the loops of \<open>map\<close> and \<open>local_map\<close>.\<close>

definition map_row ::
    "Args \<Rightarrow> (Key \<Rightarrow> 's \<Rightarrow> (Value option \<times> 's) res) \<Rightarrow> (Row \<Rightarrow> 'r \<Rightarrow> 'r res) \<Rightarrow>
     nat \<Rightarrow> Row \<times> 'r \<times> DataFrame \<times> 's \<Rightarrow> (Row \<times> 'r \<times> DataFrame \<times> 's) res" where
  "map_row args getv visit rowIdx = (\<lambda>(row, rd, df, st).
     res_bind (fill_row args getv rowIdx (row, df, st)) (\<lambda>(row, df, st).
     res_bind (visit row rd) (\<lambda>rd. Inr (Row_clear row, rd, df, st))))"

definition map_range ::
    "Args \<Rightarrow> (Key \<Rightarrow> 's \<Rightarrow> (Value option \<times> 's) res) \<Rightarrow> (Row \<Rightarrow> 'r \<Rightarrow> 'r res) \<Rightarrow>
     nat \<Rightarrow> nat \<Rightarrow> 'r \<times> DataFrame \<times> 's \<Rightarrow> ('r \<times> DataFrame \<times> 's) res" where
  "map_range args getv visit startIdx endIdx = (\<lambda>(rd, df, st).
     res_bind (Row_new (df_schema df)) (\<lambda>row.
     res_bind (res_fold (map_row args getv visit) [startIdx..<endIdx] (row, rd, df, st)) (\<lambda>(_, rd, df, st).
     Inr (rd, df, st))))"

definition df_map ::
    "Args \<Rightarrow> (Key \<Rightarrow> 's \<Rightarrow> (Value option \<times> 's) res) \<Rightarrow> (Row \<Rightarrow> 'r \<Rightarrow> 'r res) \<Rightarrow>
     'r \<times> DataFrame \<times> 's \<Rightarrow> ('r \<times> DataFrame \<times> 's) res" where
  "df_map args getv visit = (\<lambda>(rd, df, st).
     map_range args getv visit 0 (Schema_length (df_schema df)) (rd, df, st))"

text \<open>
  \<open>local_map\<close> skips a block that is not at home here: \<open>rowIdx\<close> grows by \<open>blockSize - 1\<close>, and by
  one more at the end of the turn. The block size is not zero there, the division has been made.
\<close>

function local_map_loop ::
    "Args \<Rightarrow> (Key \<Rightarrow> 's \<Rightarrow> (Value option \<times> 's) res) \<Rightarrow> u64 \<Rightarrow> (Row \<Rightarrow> 'r \<Rightarrow> 'r res) \<Rightarrow>
     nat \<Rightarrow> nat \<Rightarrow> Row \<times> 'r \<times> DataFrame \<times> 's \<Rightarrow> (Row \<times> 'r \<times> DataFrame \<times> 's) res" where
  "local_map_loop args getv storeId visit len rowIdx rs =
     (if rowIdx < len then
        if blockSize args = 0 \<or> numNodes args = 0 then Inl DivByZero
        else if of_nat (rowIdx div blockSize args mod numNodes args) = storeId then
          res_bind (map_row args getv visit rowIdx rs) (\<lambda>rs.
          local_map_loop args getv storeId visit len (rowIdx + 1) rs)
        else local_map_loop args getv storeId visit len (rowIdx + (blockSize args - 1) + 1) rs
      else Inr rs)"
  by pat_completeness auto
termination
  by (relation "measure (\<lambda>(args, getv, storeId, visit, len, rowIdx, rs). len - rowIdx)") auto

declare local_map_loop.simps [simp del]

definition local_map ::
    "Args \<Rightarrow> (Key \<Rightarrow> 's \<Rightarrow> (Value option \<times> 's) res) \<Rightarrow> u64 \<Rightarrow> (Row \<Rightarrow> 'r \<Rightarrow> 'r res) \<Rightarrow>
     'r \<times> DataFrame \<times> 's \<Rightarrow> ('r \<times> DataFrame \<times> 's) res" where
  "local_map args getv storeId visit = (\<lambda>(rd, df, st).
     res_bind (Row_new (df_schema df)) (\<lambda>row.
     res_bind (local_map_loop args getv storeId visit (Schema_length (df_schema df)) 0 (row, rd, df, st)) (\<lambda>(_, rd, df, st).
     Inr (rd, df, st))))"

subsection \<open>Rows into a frame\<close>

text \<open>The values of column \<open>i\<close> in the first rows of a chunk.\<close>

definition chunk_values :: "(nat \<Rightarrow> Row \<Rightarrow> 'a res) \<Rightarrow> nat \<Rightarrow> Row Array \<Rightarrow> nat \<Rightarrow> 'a list res" where
  "chunk_values get i rowChunk numRows =
     res_map (\<lambda>j. res_bind (Array_get j rowChunk) (\<lambda>r. get i r)) [0..<numRows]"

definition get_string_clone :: "nat \<Rightarrow> Row \<Rightarrow> String res" where
  "get_string_clone i r = res_bind (Row_get_string i r) String_copy"

definition addChunkColumn ::
    "(nat \<Rightarrow> Row \<Rightarrow> 'a res) \<Rightarrow> (nat \<Rightarrow> 'a list \<Rightarrow> nat \<Rightarrow> Column \<times> 's \<Rightarrow> (Column \<times> 's) res) \<Rightarrow>
     Row Array \<Rightarrow> nat \<Rightarrow> nat \<Rightarrow> ColumnArray \<times> 's \<Rightarrow> (ColumnArray \<times> 's) res" where
  "addChunkColumn get add_all rowChunk numRows i = (\<lambda>(ca, st).
     res_bind (chunk_values get i rowChunk numRows) (\<lambda>vals.
     res_bind (ColumnArray_at i (\<lambda>cst. res_bind (add_all numRows vals i cst) (\<lambda>cst. Inr ((), cst))) (ca, st)) (\<lambda>(_, ca, st).
     Inr (ca, st))))"

definition addRowChunk ::
    "Args \<Rightarrow> (Key \<Rightarrow> Value \<Rightarrow> 's \<Rightarrow> 's res) \<Rightarrow> Row Array \<Rightarrow> nat \<Rightarrow> DataFrame \<times> 's \<Rightarrow> (DataFrame \<times> 's) res" where
  "addRowChunk args putv rowChunk numRows = (\<lambda>(df, st).
     res_bind (res_fold (\<lambda>i (ca, st).
         res_bind (Schema_col_type_char i (df_schema df)) (\<lambda>colType.
           if colType = CHR ''I'' then addChunkColumn Row_get_int (Column_add_ints args putv) rowChunk numRows i (ca, st)
           else if colType = CHR ''B'' then addChunkColumn Row_get_bool (Column_add_bools args putv) rowChunk numRows i (ca, st)
           else if colType = CHR ''S'' then addChunkColumn get_string_clone (Column_add_strings args putv) rowChunk numRows i (ca, st)
           else if colType = CHR ''D'' then addChunkColumn Row_get_double (Column_add_doubles args putv) rowChunk numRows i (ca, st)
           else Inl (Exit 1)))
       [0..<Schema_width (df_schema df)] (df_columns df, st)) (\<lambda>(ca, st).
     Inr (df\<lparr>df_columns := ca, df_schema := Schema_add_rows numRows (df_schema df)\<rparr>, st)))"

record 'w Writer =
  wr_done :: "'w \<Rightarrow> (bool \<times> 'w) res"
  wr_visit :: "Row \<Rightarrow> 'w \<Rightarrow> (Row \<times> 'w) res"

text \<open>\<open>clear\<close> on every row of the chunk.\<close>

definition clear_chunk :: "nat \<Rightarrow> Row Array \<Rightarrow> Row Array res" where
  "clear_chunk block_size rowChunk =
     res_fold (\<lambda>i ch. res_bind (Array_get i ch) (\<lambda>r. res_bind (Array_set i (Row_clear r) ch) (\<lambda>(_, ch). Inr ch)))
       [0..<block_size] rowChunk"

text \<open>One turn of the loop of \<open>visit\<close>, after \<open>done\<close> said no.\<close>

definition visit_step ::
    "Args \<Rightarrow> (Key \<Rightarrow> Value \<Rightarrow> 's \<Rightarrow> 's res) \<Rightarrow> 'w Writer \<Rightarrow>
     Row Array \<times> nat \<times> nat \<times> 'w \<times> DataFrame \<times> 's \<Rightarrow> (Row Array \<times> nat \<times> nat \<times> 'w \<times> DataFrame \<times> 's) res" where
  "visit_step args putv wr = (\<lambda>(chunk, idxInCurBlock, rowIdx, w, df, st).
     res_bind (if idxInCurBlock = blockSize args then
         res_bind (addRowChunk args putv chunk idxInCurBlock (df, st)) (\<lambda>(df, st).
         res_bind (clear_chunk (blockSize args) chunk) (\<lambda>chunk. Inr (chunk, 0, df, st)))
       else Inr (chunk, idxInCurBlock, df, st)) (\<lambda>(chunk, idxInCurBlock, df, st).
     res_bind (Array_get idxInCurBlock chunk) (\<lambda>row.
     res_bind (wr_visit wr (Row_set_idx rowIdx row) w) (\<lambda>(row, w).
     res_bind (Array_set idxInCurBlock row chunk) (\<lambda>(_, chunk).
     Inr (chunk, idxInCurBlock + 1, rowIdx + 1, w, df, st))))))"

partial_function (option) visit_loop ::
    "Args \<Rightarrow> (Key \<Rightarrow> Value \<Rightarrow> 's \<Rightarrow> 's res) \<Rightarrow> 'w Writer \<Rightarrow>
     Row Array \<times> nat \<times> nat \<times> 'w \<times> DataFrame \<times> 's \<Rightarrow> (Row Array \<times> nat \<times> nat \<times> 'w \<times> DataFrame \<times> 's) res option" where
  "visit_loop args putv wr vs =
     (case vs of (chunk, i, rowIdx, w, df, st) \<Rightarrow>
        case wr_done wr w of
          Inl e \<Rightarrow> Some (Inl e)
        | Inr (d, w) \<Rightarrow>
            if d then Some (Inr (chunk, i, rowIdx, w, df, st))
            else case visit_step args putv wr (chunk, i, rowIdx, w, df, st) of
                   Inl e \<Rightarrow> Some (Inl e)
                 | Inr vs \<Rightarrow> visit_loop args putv wr vs)"

definition visit ::
    "Args \<Rightarrow> (Key \<Rightarrow> Value \<Rightarrow> 's \<Rightarrow> 's res) \<Rightarrow> 'w Writer \<Rightarrow> 'w \<times> DataFrame \<times> 's \<Rightarrow> ('w \<times> DataFrame \<times> 's) res" where
  "visit args putv wr = (\<lambda>(w, df, st).
     res_bind (res_fold (\<lambda>_ ch. res_bind (Row_new (df_schema df)) (\<lambda>r. Array_add r ch))
       [0..<blockSize args] (Array_new (blockSize args))) (\<lambda>chunk.
     res_bind (case visit_loop args putv wr (chunk, 0, 0, w, df, st) of None \<Rightarrow> Inl Diverges | Some r \<Rightarrow> r)
       (\<lambda>(chunk, idxInCurBlock, _, w, df, st).
     if idxInCurBlock > 0 then
       res_bind (addRowChunk args putv chunk idxInCurBlock (df, st)) (\<lambda>(df, st). Inr (w, df, st))
     else Inr (w, df, st))))"

subsection \<open>The checks nobody calls\<close>

definition errorIfOutOfBounds :: "nat \<Rightarrow> DataFrame \<Rightarrow> unit res" where
  "errorIfOutOfBounds colIdx df = (if colIdx \<ge> Schema_width (df_schema df) then Inl (Exit 1) else Inr ())"

definition checkRowLen :: "nat \<Rightarrow> DataFrame \<Rightarrow> unit res" where
  "checkRowLen rowWidth df = (if rowWidth \<noteq> Schema_width (df_schema df) then Inl (Exit 1) else Inr ())"

definition checkColTypes :: "char \<Rightarrow> nat \<Rightarrow> DataFrame \<Rightarrow> unit res" where
  "checkColTypes colTypeFromRow schemaColIdx df =
     res_bind (Schema_col_type_char schemaColIdx (df_schema df)) (\<lambda>t.
     if colTypeFromRow \<noteq> t then Inl (Exit 1) else Inr ())"

section \<open>Frames in the store\<close>

definition addDFToStore :: "(Key \<Rightarrow> Value \<Rightarrow> 's \<Rightarrow> 's res) \<Rightarrow> DataFrame \<times> 's \<Rightarrow> (DataFrame \<times> 's) res" where
  "addDFToStore putv = (\<lambda>(df, st).
     res_bind (DataFrame_serialize df Serializer_new) (\<lambda>s.
     res_bind (cells_load (sz_buffer s) 0 (sz_written s)) (\<lambda>bytes.
     res_bind (Value_new bytes (sz_written s)) (\<lambda>v.
     res_bind (putv (df_key df) v st) (\<lambda>st. Inr (df, st))))))"

definition fromVisitor ::
    "Args \<Rightarrow> (Key \<Rightarrow> Value \<Rightarrow> 's \<Rightarrow> 's res) \<Rightarrow> Key \<Rightarrow> char list \<Rightarrow> 'w Writer \<Rightarrow> 'w \<times> 's \<Rightarrow> (DataFrame \<times> 'w \<times> 's) res" where
  "fromVisitor args putv k scm wr = (\<lambda>(w, st).
     res_bind (Key_clone k) (\<lambda>k.
     res_bind (DataFrame_of_types scm k) (\<lambda>df.
     res_bind (visit args putv wr (w, df, st)) (\<lambda>(w, df, st).
     res_bind (addDFToStore putv (df, st)) (\<lambda>(df, st). Inr (df, w, st))))))"

definition fromArray ::
    "(Key \<Rightarrow> Value \<Rightarrow> 's \<Rightarrow> 's res) \<Rightarrow> (nat \<Rightarrow> 'a list \<Rightarrow> DataFrame \<times> 's \<Rightarrow> (DataFrame \<times> 's) res) \<Rightarrow>
     Key \<Rightarrow> nat \<Rightarrow> 'a list \<Rightarrow> 's \<Rightarrow> (DataFrame \<times> 's) res" where
  "fromArray putv add k numElems elems st =
     res_bind (Key_clone k) (\<lambda>k.
     res_bind (add numElems elems (DataFrame_new k, st)) (addDFToStore putv))"

definition fromArray_doubles ::
    "Args \<Rightarrow> (Key \<Rightarrow> Value \<Rightarrow> 's \<Rightarrow> 's res) \<Rightarrow> Key \<Rightarrow> nat \<Rightarrow> u64 list \<Rightarrow> 's \<Rightarrow> (DataFrame \<times> 's) res" where
  "fromArray_doubles args putv = fromArray putv (DataFrame_add_doubles args putv)"

definition fromArray_ints ::
    "Args \<Rightarrow> (Key \<Rightarrow> Value \<Rightarrow> 's \<Rightarrow> 's res) \<Rightarrow> Key \<Rightarrow> nat \<Rightarrow> u32 list \<Rightarrow> 's \<Rightarrow> (DataFrame \<times> 's) res" where
  "fromArray_ints args putv = fromArray putv (DataFrame_add_ints args putv)"

definition fromArray_bools ::
    "Args \<Rightarrow> (Key \<Rightarrow> Value \<Rightarrow> 's \<Rightarrow> 's res) \<Rightarrow> Key \<Rightarrow> nat \<Rightarrow> bool list \<Rightarrow> 's \<Rightarrow> (DataFrame \<times> 's) res" where
  "fromArray_bools args putv = fromArray putv (DataFrame_add_bools args putv)"

definition fromArray_strings ::
    "Args \<Rightarrow> (Key \<Rightarrow> Value \<Rightarrow> 's \<Rightarrow> 's res) \<Rightarrow> Key \<Rightarrow> nat \<Rightarrow> String list \<Rightarrow> 's \<Rightarrow> (DataFrame \<times> 's) res" where
  "fromArray_strings args putv = fromArray putv (DataFrame_add_strings args putv)"

definition fromDouble ::
    "Args \<Rightarrow> (Key \<Rightarrow> Value \<Rightarrow> 's \<Rightarrow> 's res) \<Rightarrow> Key \<Rightarrow> u64 \<Rightarrow> 's \<Rightarrow> (DataFrame \<times> 's) res" where
  "fromDouble args putv k el = fromArray_doubles args putv k 1 [el]"

definition fromString ::
    "Args \<Rightarrow> (Key \<Rightarrow> Value \<Rightarrow> 's \<Rightarrow> 's res) \<Rightarrow> Key \<Rightarrow> String \<Rightarrow> 's \<Rightarrow> (DataFrame \<times> 's) res" where
  "fromString args putv k elem st =
     res_bind (String_copy elem) (\<lambda>e. fromArray_strings args putv k 1 [e] st)"

definition fromInt ::
    "Args \<Rightarrow> (Key \<Rightarrow> Value \<Rightarrow> 's \<Rightarrow> 's res) \<Rightarrow> Key \<Rightarrow> u32 \<Rightarrow> 's \<Rightarrow> (DataFrame \<times> 's) res" where
  "fromInt args putv k elem = fromArray_ints args putv k 1 [elem]"

definition fromBool ::
    "Args \<Rightarrow> (Key \<Rightarrow> Value \<Rightarrow> 's \<Rightarrow> 's res) \<Rightarrow> Key \<Rightarrow> bool \<Rightarrow> 's \<Rightarrow> (DataFrame \<times> 's) res" where
  "fromBool args putv k elem = fromArray_bools args putv k 1 [elem]"

definition getHelper :: "Key \<Rightarrow> Value \<Rightarrow> DataFrame res" where
  "getHelper k val =
     res_bind (Serializer_of (v_capacity val) (v_val val)) (\<lambda>s.
     res_bind (Key_clone k) (\<lambda>k.
     res_bind (DataFrame_deserialize (DataFrame_new k) s) (\<lambda>(df, _). Inr df)))"

text \<open>\<open>waitAndGet\<close> and \<open>get\<close>; \<open>getv\<close> is \<open>getValue\<close> with and without blocking.\<close>

definition waitAndGet :: "(Key \<Rightarrow> 's \<Rightarrow> (Value option \<times> 's) res) \<Rightarrow> Key \<Rightarrow> 's \<Rightarrow> (DataFrame \<times> 's) res" where
  "waitAndGet getv k st =
     res_bind (getv k st) (\<lambda>(val, st).
       case val of None \<Rightarrow> Inl AssertFail | Some v \<Rightarrow> res_bind (getHelper k v) (\<lambda>df. Inr (df, st)))"

definition KVStore_get :: "(Key \<Rightarrow> 's \<Rightarrow> (Value option \<times> 's) res) \<Rightarrow> Key \<Rightarrow> 's \<Rightarrow> (DataFrame option \<times> 's) res" where
  "KVStore_get getv k st =
     res_bind (getv k st) (\<lambda>(val, st).
       case val of None \<Rightarrow> Inr (None, st) | Some v \<Rightarrow> res_bind (getHelper k v) (\<lambda>df. Inr (Some df, st)))"

text \<open>\<open>MySummer\<close>: the sum of the first column, at 32 bits.\<close>

definition MySummer_visit :: "Row \<Rightarrow> u32 \<Rightarrow> u32 res" where
  "MySummer_visit r acc = res_bind (Row_get_int 0 r) (\<lambda>v. Inr (acc + v))"

end
