(* ===== verification/FrameLaws.thy ===== *)
theory FrameLaws
  imports DataFrame
begin

text \<open>
  What a data frame promises. \<open>frame_repr\<close> relates a frame and the values in the store to its
  columns as lists of values; filling a row from it, appending a chunk of rows to it and storing
  and fetching it are proved for any store that keeps the contract \<open>kv_client\<close>. The four
  element types are four instances of \<open>typed_column\<close>, which each store gives (\<open>sublocale\<close>).
\<close>

section \<open>Columns of values\<close>

fun value_size :: "RowValue \<Rightarrow> nat" where
  "value_size (IElem _) = 4"
| "value_size (DElem _) = 8"
| "value_size (BElem _) = 1"
| "value_size (SElem s) = length (enc_String s)"

definition typed_holds ::
    "('a \<Rightarrow> bool) \<Rightarrow> ('a \<Rightarrow> char list) \<Rightarrow> ('a Block \<Rightarrow> AnyBlock) \<Rightarrow> (RowValue \<Rightarrow> 'a) \<Rightarrow> DataType \<Rightarrow>
     Args \<Rightarrow> char list \<Rightarrow> nat \<Rightarrow> (Key \<rightharpoonup> Value) \<Rightarrow> RowValue list \<Rightarrow> Column \<Rightarrow> bool" where
  "typed_holds ok enc mk prj t args cs col v vals c \<longleftrightarrow>
     list_all (value_of_type t) vals \<and> co_size c = length vals \<and>
     Column_repr ok enc mk t args cs col v (chunks (blockSize args) (map prj vals)) c"

fun column_holds ::
    "DataType \<Rightarrow> Args \<Rightarrow> char list \<Rightarrow> nat \<Rightarrow> (Key \<rightharpoonup> Value) \<Rightarrow> RowValue list \<Rightarrow> Column \<Rightarrow> bool" where
  "column_holds Integer = typed_holds (\<lambda>_. True) enc_u32 IntB as_int Integer"
| "column_holds Boolean = typed_holds (\<lambda>_. True) enc_bool BoolB as_bool Boolean"
| "column_holds Double = typed_holds (\<lambda>_. True) enc_u64 DoubleB as_double Double"
| "column_holds Str = typed_holds String_wf enc_String StrB as_string Str"
| "column_holds Field = (\<lambda>args cs col v vals c. False)"

lemma typed_holds_frame:
  assumes "typed_holds ok enc mk prj t args cs col v vals c" and "\<And>i. w (block_key args cs col i) = v (block_key args cs col i)"
  shows "typed_holds ok enc mk prj t args cs col w vals c"
proof -
  have "Column_repr ok enc mk t args cs col w (chunks (blockSize args) (map prj vals)) (c\<lparr>co_size := co_size c\<rparr>)"
    by (rule Column_repr_frame) (use assms in \<open>auto simp: typed_holds_def\<close>)
  then show ?thesis using assms(1) by (simp add: typed_holds_def)
qed

lemma column_holds_frame:
  "column_holds t args cs col v vals c \<Longrightarrow> (\<And>i. w (block_key args cs col i) = v (block_key args cs col i)) \<Longrightarrow>
   column_holds t args cs col w vals c"
  by (cases t) (auto intro: typed_holds_frame)

lemma column_holdsD:
  assumes "column_holds t args cs col v vals c"
  shows "t \<noteq> Field" and "list_all (value_of_type t) vals" and "co_size c = length vals" and "co_type c = t"
    and "0 < blockSize args" and "0 < numNodes args" and "base_ok cs col"
  using assms by (cases t; auto simp: typed_holds_def dest: Column_reprD)+

text \<open>Reading one element and putting it into a row, at any type.\<close>

definition set_from ::
    "DataType \<Rightarrow> 'a res \<Rightarrow> (AnyBlock \<Rightarrow> 'a Block option) \<Rightarrow> ('a Block \<Rightarrow> AnyBlock) \<Rightarrow> crash \<Rightarrow>
     (Serializer \<Rightarrow> ('a \<times> Serializer) res) \<Rightarrow> ('a \<Rightarrow> 'a res) \<Rightarrow> ('a \<Rightarrow> RowValue) \<Rightarrow>
     (Key \<Rightarrow> 's \<Rightarrow> (Value option \<times> 's) res) \<Rightarrow> Args \<Rightarrow> nat \<Rightarrow> nat \<Rightarrow> Row \<times> DataFrame \<times> 's \<Rightarrow> (Row \<times> DataFrame \<times> 's) res" where
  "set_from t w cast mk onNull deser clone con getv args col row = (\<lambda>(r, df, st).
     res_bind (df_get (ColumnArray_at col (Column_read t w cast mk onNull deser clone getv args row col)) (df, st)) (\<lambda>(x, df, st).
     res_bind (Row_set_value col (con x) r) (\<lambda>r. Inr (r, df, st))))"

lemma setRowVal_from:
  "setRowValByColType args getv col row (type_char Integer) =
     set_from Integer (Inr (-1)) asInt IntB NullDeref readInt Inr IElem getv args col row"
  "setRowValByColType args getv col row (type_char Boolean) =
     set_from Boolean (Inr True) asBool BoolB NullDeref readBool Inr BElem getv args col row"
  "setRowValByColType args getv col row (type_char Double) =
     set_from Double (Inr 0xBFF0000000000000) asDouble DoubleB AssertFail readDouble Inr DElem getv args col row"
  "setRowValByColType args getv col row (type_char Str) =
     set_from Str (Inl (Exit 1)) asStr StrB NullDeref String_deserialize String_copy SElem getv args col row"
  by (simp_all add: setRowValByColType_def set_from_def DataFrame_get_int_def DataFrame_get_bool_def DataFrame_get_double_def
      DataFrame_get_string_def ColumnArray_get_int_def ColumnArray_get_bool_def ColumnArray_get_double_def
      ColumnArray_get_string_def Column_gets)

text \<open>Collecting the values of a chunk and appending them, at any type.\<close>

definition chunk_to ::
    "DataType \<Rightarrow> ('a \<Rightarrow> 'a res) \<Rightarrow> ('a \<Rightarrow> Serializer \<Rightarrow> Serializer res) \<Rightarrow> (nat \<Rightarrow> Row \<Rightarrow> 'a res) \<Rightarrow>
     Args \<Rightarrow> (Key \<Rightarrow> Value \<Rightarrow> 's \<Rightarrow> 's res) \<Rightarrow> Row Array \<Rightarrow> nat \<Rightarrow> nat \<Rightarrow> ColumnArray \<times> 's \<Rightarrow> (ColumnArray \<times> 's) res" where
  "chunk_to t clone ser get args putv =
     addChunkColumn get (Column_add_values t clone (Block_serialize ser) args putv)"

section \<open>One type\<close>

locale typed_column = column_store putv getv inv val homed ser deser enc ok t clone mk cast onNull
  for putv :: "Key \<Rightarrow> Value \<Rightarrow> 's \<Rightarrow> 's res" and getv :: "Key \<Rightarrow> 's \<Rightarrow> (Value option \<times> 's) res"
    and inv :: "'s \<Rightarrow> bool" and val :: "'s \<Rightarrow> Key \<rightharpoonup> Value" and homed :: "Key \<Rightarrow> bool"
    and ser :: "'a \<Rightarrow> Serializer \<Rightarrow> Serializer res" and deser :: "Serializer \<Rightarrow> ('a \<times> Serializer) res"
    and enc :: "'a \<Rightarrow> char list" and ok :: "'a \<Rightarrow> bool"
    and t :: DataType and clone :: "'a \<Rightarrow> 'a res" and mk :: "'a Block \<Rightarrow> AnyBlock"
    and cast :: "AnyBlock \<Rightarrow> 'a Block option" and onNull :: crash +
  fixes con :: "'a \<Rightarrow> RowValue" and prj :: "RowValue \<Rightarrow> 'a" and get :: "nat \<Rightarrow> Row \<Rightarrow> 'a res"
  assumes no_Field: "t \<noteq> Field"
    and con_prj: "value_of_type t x \<Longrightarrow> con (prj x) = x"
    and ok_prj: "value_of_type t x \<Longrightarrow> ok (prj x)"
    and enc_size: "value_of_type t x \<Longrightarrow> length (enc (prj x)) = value_size x"
    and get_row: "Row_repr r ts vs \<Longrightarrow> col < length ts \<Longrightarrow> ts ! col = t \<Longrightarrow> vs ! col = Some x \<Longrightarrow> get col r = Inr (prj x)"
    and holds_t: "column_holds t = typed_holds ok enc mk prj t"
begin

text \<open>Reading a cell.\<close>

lemma cell_repr:
  assumes h: "typed_holds ok enc mk prj t args cs col (val st) vals (cols ! col)" and ca: "Array_repr (df_columns df) cols"
    and col: "col < length cols" and row: "row < length vals" and i: "inv st" and homes: "homes homed args"
  shows "\<exists>ca' c' st'. df_get (ColumnArray_at col (Column_read t w cast mk onNull deser clone getv args row col)) (df, st) =
      Inr (prj (vals ! row), df\<lparr>df_columns := ca'\<rparr>, st') \<and> inv st' \<and> val st' = val st \<and>
    Array_repr ca' (cols[col := c']) \<and> typed_holds ok enc mk prj t args cs col (val st') vals c'"

proof -
  have v: "list_all ok (map prj vals)" "co_size (cols ! col) = length vals" "list_all (value_of_type t) vals"
    using h by (auto simp: typed_holds_def list_all_iff ok_prj)
  have R: "Column_repr ok enc mk t args cs col (val st) (chunks (blockSize args) (map prj vals)) (cols ! col)"
    using h by (simp add: typed_holds_def)
  obtain c' st' where c': "read_seq (\<lambda>idx. Column_read t w cast mk onNull deser clone getv args idx col) [row] (cols ! col, st) =
      Inr (map ((!) (map prj vals)) [row], c', st')" "inv st'" "val st' = val st" "co_size c' = co_size (cols ! col)"
    "Column_repr ok enc mk t args cs col (val st') (chunks (blockSize args) (map prj vals)) c'"
    using reads_chunks [OF R i homes v(1), of "[row]" w] row by auto
  then have rd: "Column_read t w cast mk onNull deser clone getv args row col (cols ! col, st) = Inr (prj (vals ! row), c', st')"
    using row by (auto simp: res_bind_Inr_iff)
  obtain ca' where ca': "Array_set col c' (df_columns df) = Inr (cols ! col, ca')" "Array_repr ca' (cols[col := c'])"
    using Array_set_repr [OF ca col] by blast
  have "df_get (ColumnArray_at col (Column_read t w cast mk onNull deser clone getv args row col)) (df, st) =
      Inr (prj (vals ! row), df\<lparr>df_columns := ca'\<rparr>, st')"
    using rd ca'(1) col by (simp add: df_get_def ColumnArray_at_def Array_get_repr [OF ca])
  moreover have "typed_holds ok enc mk prj t args cs col (val st') vals c'"
    using c'(4,5) v(2,3) by (simp add: typed_holds_def)
  ultimately show ?thesis using c'(2,3) ca'(2) by blast
qed

lemma set_from_repr:
  assumes h: "typed_holds ok enc mk prj t args cs col (val st) vals (cols ! col)" and ca: "Array_repr (df_columns df) cols"
    and col: "col < length cols" and row: "row < length vals" and i: "inv st" and homes: "homes homed args"
    and r: "Row_repr r ts vs" "col < length ts" "ts ! col = t"
  shows "\<exists>r' ca' c' st'. set_from t w cast mk onNull deser clone con getv args col row (r, df, st) = Inr (r', df\<lparr>df_columns := ca'\<rparr>, st') \<and>
    Row_repr r' ts (vs[col := Some (vals ! row)]) \<and> ro_rowIdx r' = ro_rowIdx r \<and> inv st' \<and> val st' = val st \<and>
    Array_repr ca' (cols[col := c']) \<and> typed_holds ok enc mk prj t args cs col (val st') vals c'"
proof -
  have v: "value_of_type t (vals ! row)" using h row by (auto simp: typed_holds_def list_all_iff)
  obtain ca' c' st' where c: "df_get (ColumnArray_at col (Column_read t w cast mk onNull deser clone getv args row col)) (df, st) =
      Inr (prj (vals ! row), df\<lparr>df_columns := ca'\<rparr>, st')" "inv st'" "val st' = val st"
    "Array_repr ca' (cols[col := c'])" "typed_holds ok enc mk prj t args cs col (val st') vals c'"
    using cell_repr [OF h ca col row i homes] by blast
  obtain r' where r': "Row_set_value col (vals ! row) r = Inr r'" "Row_repr r' ts (vs[col := Some (vals ! row)])" "ro_rowIdx r' = ro_rowIdx r"
    using Row_set_value_repr [OF r(1) v, of col] r by auto
  have "set_from t w cast mk onNull deser clone con getv args col row (r, df, st) = Inr (r', df\<lparr>df_columns := ca'\<rparr>, st')"
    using c(1) r'(1) con_prj [OF v] by (simp add: set_from_def)
  then show ?thesis using r'(2,3) c(2-5) by blast
qed

lemma chunk_values_repr:
  assumes ch: "Array_repr chunk rows" and n: "n \<le> length rows" "length xs = n"
    and r: "\<And>j. j < n \<Longrightarrow> Row_repr (rows ! j) ts (map Some (xs ! j))" and col: "col < length ts" "ts ! col = t"
  shows "chunk_values get col chunk n = Inr (map (\<lambda>x. prj (x ! col)) xs)"
proof -
  have "res_bind (Array_get j chunk) (\<lambda>r. get col r) = Inr (prj (xs ! j ! col))" if "j \<in> set [0..<n]" for j
  proof -
    have j: "j < n" using that by simp
    have "map Some (xs ! j) ! col = Some (xs ! j ! col)" using Row_reprD(4) [OF r [OF j]] col(1) by simp
    from get_row [OF r [OF j] col this] show ?thesis using n j by (simp add: Array_get_repr [OF ch])
  qed
  then have "chunk_values get col chunk n = Inr (map (\<lambda>j. prj (xs ! j ! col)) [0..<n])"
    unfolding chunk_values_def by (rule res_map_total)
  also have "map (\<lambda>j. prj (xs ! j ! col)) [0..<n] = map (\<lambda>x. prj (x ! col)) xs"
    using n(2) by (intro nth_equalityI) simp_all
  finally show ?thesis .
qed

lemma chunk_to_repr:
  assumes h: "typed_holds ok enc mk prj t args cs col (val st) vals (cols ! col)" and ca: "Array_repr ca cols"
    and col: "col < length cols" and i: "inv st" and homes: "homes homed args"
    and cv: "chunk_values get col chunk (length ys) = Inr (map prj ys)" and ys: "list_all (value_of_type t) ys"
    and len: "16 + sum_list (map value_size ys) < 2 ^ 64" "length vals + length ys < 2 ^ 64" and a: "blockSize args dvd length vals"
  shows "\<exists>ca' c' st'. chunk_to t clone ser get args putv chunk (length ys) col (ca, st) = Inr (ca', st') \<and>
    inv st' \<and> Array_repr ca' (cols[col := c']) \<and> typed_holds ok enc mk prj t args cs col (val st') (vals @ ys) c' \<and>
    (\<forall>k. (\<forall>i. k \<noteq> block_key args cs col i) \<longrightarrow> val st' k = val st k)"
proof -
  have R: "Column_repr ok enc mk t args cs col (val st) (chunks (blockSize args) (map prj vals)) (cols ! col)"
    "list_all (value_of_type t) vals" "co_size (cols ! col) = length vals"
    using h by (simp_all add: typed_holds_def)
  have "length (concat (map enc (map prj ys))) = sum_list (map value_size ys)"
    using ys enc_size by (simp add: length_concat comp_def list_all_iff cong: map_cong)
  then have e: "16 + length (concat (map enc (map prj ys))) < 2 ^ 64" using len(1) by simp
  have o: "list_all ok (map prj ys)" using ys ok_prj by (simp add: list_all_iff)
  obtain c' st' where c': "Column_add_values t clone (Block_serialize ser) args putv (length ys) (map prj ys) col (cols ! col, st) = Inr (c', st')"
    "inv st'" "co_size c' = length vals + length ys"
    "Column_repr ok enc mk t args cs col (val st') (chunks (blockSize args) (map prj (vals @ ys))) c'"
    "\<forall>k. (\<forall>i. k \<noteq> block_key args cs col i) \<longrightarrow> val st' k = val st k"
    using append_chunks [OF R(1) i homes o e] len(2) a R(3) by auto
  obtain ca' where ca': "Array_set col c' ca = Inr (cols ! col, ca')" "Array_repr ca' (cols[col := c'])"
    using Array_set_repr [OF ca col] by blast
  have "chunk_to t clone ser get args putv chunk (length ys) col (ca, st) = Inr (ca', st')"
    using cv c'(1) ca'(1) col by (simp add: chunk_to_def addChunkColumn_def ColumnArray_at_def Array_get_repr [OF ca])
  moreover have "typed_holds ok enc mk prj t args cs col (val st') (vals @ ys) c'"
    using c'(3,4) R(2) ys by (simp add: typed_holds_def)
  ultimately show ?thesis using c'(2,5) ca'(2) by blast
qed

end

section \<open>The four types of a store\<close>

lemma value_of_typeE:
  "value_of_type Integer x \<Longrightarrow> (\<And>v. x = IElem v \<Longrightarrow> P) \<Longrightarrow> P"
  "value_of_type Double x \<Longrightarrow> (\<And>d. x = DElem d \<Longrightarrow> P) \<Longrightarrow> P"
  "value_of_type Boolean x \<Longrightarrow> (\<And>b. x = BElem b \<Longrightarrow> P) \<Longrightarrow> P"
  "value_of_type Str x \<Longrightarrow> (\<And>s. x = SElem s \<Longrightarrow> String_wf s \<Longrightarrow> P) \<Longrightarrow> P"
  by (cases x; simp)+

lemma row_getters:
  assumes "Row_repr r ts vs" and "col < length ts" and "vs ! col = Some x"
  shows "ts ! col = Integer \<Longrightarrow> Row_get_int col r = Inr (as_int x)"
    and "ts ! col = Boolean \<Longrightarrow> Row_get_bool col r = Inr (as_bool x)"
    and "ts ! col = Double \<Longrightarrow> Row_get_double col r = Inr (as_double x)"
    and "ts ! col = Str \<Longrightarrow> get_string_clone col r = Inr (as_string x)"
proof -
  have v: "value_of_type (ts ! col) x" using Row_reprD(6) [OF assms] .
  show "ts ! col = Integer \<Longrightarrow> Row_get_int col r = Inr (as_int x)"
    using v Row_get_value_repr [OF assms(1), of Integer col] assms(2,3)
    by (auto elim!: value_of_typeE simp: Row_get_value_def res_bind_Inr_iff)
  show "ts ! col = Boolean \<Longrightarrow> Row_get_bool col r = Inr (as_bool x)"
    using v Row_get_value_repr [OF assms(1), of Boolean col] assms(2,3)
    by (auto elim!: value_of_typeE simp: Row_get_value_def res_bind_Inr_iff)
  show "ts ! col = Double \<Longrightarrow> Row_get_double col r = Inr (as_double x)"
    using v Row_get_value_repr [OF assms(1), of Double col] assms(2,3)
    by (auto elim!: value_of_typeE simp: Row_get_value_def res_bind_Inr_iff)
  show "ts ! col = Str \<Longrightarrow> get_string_clone col r = Inr (as_string x)"
    using v Row_get_value_repr [OF assms(1), of Str col] assms(2,3)
    by (auto elim!: value_of_typeE String_wfE simp: Row_get_value_def res_bind_Inr_iff get_string_clone_def)
qed

sublocale kv_client \<subseteq> ints: typed_column putv getv inv val homed write_int readInt enc_u32 "\<lambda>_. True" Integer Inr IntB asInt
  NullDeref IElem as_int Row_get_int
  by unfold_locales (auto elim!: value_of_typeE intro: row_getters)

sublocale kv_client \<subseteq> bools: typed_column putv getv inv val homed write_bool readBool enc_bool "\<lambda>_. True" Boolean Inr BoolB asBool
  NullDeref BElem as_bool Row_get_bool
  by unfold_locales (auto elim!: value_of_typeE intro: row_getters)

sublocale kv_client \<subseteq> doubles: typed_column putv getv inv val homed write_double readDouble enc_u64 "\<lambda>_. True" Double Inr DoubleB asDouble
  AssertFail DElem as_double Row_get_double
  by unfold_locales (auto elim!: value_of_typeE intro: row_getters)

sublocale kv_client \<subseteq> strings: typed_column putv getv inv val homed String_serialize String_deserialize enc_String String_wf Str String_copy
  StrB asStr NullDeref SElem as_string get_string_clone
  by unfold_locales (auto elim!: value_of_typeE String_wfE intro: row_getters)

section \<open>Frames\<close>

text \<open>The frame has columns of the types \<open>ts\<close> that hold the lists \<open>vss\<close>; column \<open>i\<close> has base key \<open>base i\<close>.\<close>

definition frame_repr ::
    "Args \<Rightarrow> (nat \<Rightarrow> char list) \<Rightarrow> (Key \<rightharpoonup> Value) \<Rightarrow> DataType list \<Rightarrow> RowValue list list \<Rightarrow> DataFrame \<Rightarrow> bool" where
  "frame_repr args base v ts vss df \<longleftrightarrow> Schema_repr (df_schema df) ts \<and> 0 < sc_capCols (df_schema df) \<and> length vss = length ts \<and>
     (\<exists>cols. Array_repr (df_columns df) cols \<and> length cols = length ts \<and>
       (\<forall>i < length ts. column_holds (ts ! i) args (base i) i v (vss ! i) (cols ! i)))"

lemma frame_reprE:
  assumes "frame_repr args base v ts vss df"
  obtains cols where "Schema_repr (df_schema df) ts" and "0 < sc_capCols (df_schema df)" and "length vss = length ts"
    and "Array_repr (df_columns df) cols" and "length cols = length ts"
    and "\<And>i. i < length ts \<Longrightarrow> column_holds (ts ! i) args (base i) i v (vss ! i) (cols ! i)"
  using assms by (auto simp: frame_repr_def)

lemma frame_no_Field: "frame_repr args base v ts vss df \<Longrightarrow> Field \<notin> set ts"
  by (auto simp: frame_repr_def in_set_conv_nth dest: column_holdsD(1))

lemma frame_col_type: "frame_repr args base v ts vss df \<Longrightarrow> i < length ts \<Longrightarrow>
  Schema_col_type_char i (df_schema df) = Inr (type_char (ts ! i))"
proof -
  assume f: "frame_repr args base v ts vss df" and i: "i < length ts"
  then have "ts ! i \<noteq> Field" using frame_no_Field nth_mem by metis
  moreover have "Schema_repr (df_schema df) ts" using f by (simp add: frame_repr_def)
  ultimately show ?thesis using i by (simp add: Schema_col_type_char_repr typeToChar_type_char)
qed

text \<open>The row with index \<open>r\<close>.\<close>

definition row_at :: "RowValue list list \<Rightarrow> nat \<Rightarrow> RowValue list" where
  "row_at vss r = map (\<lambda>vs. vs ! r) vss"

context kv_client
begin

lemma set_step:
  assumes f: "frame_repr args base (val st) ts vss df" and i: "i < length ts" and row: "row < length (vss ! i)"
    and r: "Row_repr r ts vs" and s: "inv st" "homes homed args"
  shows "\<exists>r' df' st'. setRowValByColType args getv i row (type_char (ts ! i)) (r, df, st) = Inr (r', df', st') \<and>
    Row_repr r' ts (vs[i := Some (vss ! i ! row)]) \<and> ro_rowIdx r' = ro_rowIdx r \<and> inv st' \<and> val st' = val st \<and>
    frame_repr args base (val st') ts vss df' \<and> df_schema df' = df_schema df \<and> df_key df' = df_key df"
proof -
  obtain cols where F: "Schema_repr (df_schema df) ts" "0 < sc_capCols (df_schema df)" "length vss = length ts"
    "Array_repr (df_columns df) cols" "length cols = length ts"
    "\<And>i. i < length ts \<Longrightarrow> column_holds (ts ! i) args (base i) i (val st) (vss ! i) (cols ! i)"
    using f by (rule frame_reprE) blast
  have ci: "i < length cols" using i F(5) by simp
  have *: "\<exists>r' ca' c' st'. setRowValByColType args getv i row (type_char (ts ! i)) (r, df, st) = Inr (r', df\<lparr>df_columns := ca'\<rparr>, st') \<and>
    Row_repr r' ts (vs[i := Some (vss ! i ! row)]) \<and> ro_rowIdx r' = ro_rowIdx r \<and> inv st' \<and> val st' = val st \<and>
    Array_repr ca' (cols[i := c']) \<and> column_holds (ts ! i) args (base i) i (val st') (vss ! i) c'"
  proof (cases "ts ! i")
    case Integer
    then show ?thesis
      using ints.set_from_repr [OF _ F(4) ci row s r i, of "base i" "Inr (-1)"] F(6) [OF i] by (simp add: setRowVal_from del: type_char.simps)
  next
    case Boolean
    then show ?thesis
      using bools.set_from_repr [OF _ F(4) ci row s r i, of "base i" "Inr True"] F(6) [OF i] by (simp add: setRowVal_from del: type_char.simps)
  next
    case Double
    then show ?thesis
      using doubles.set_from_repr [OF _ F(4) ci row s r i, of "base i" "Inr 0xBFF0000000000000"] F(6) [OF i]
      by (simp add: setRowVal_from del: type_char.simps)
  next
    case Str
    then show ?thesis
      using strings.set_from_repr [OF _ F(4) ci row s r i, of "base i" "Inl (Exit 1)"] F(6) [OF i] by (simp add: setRowVal_from del: type_char.simps)
  next
    case Field
    then show ?thesis using F(6) [OF i] by simp
  qed
  then obtain r' ca' c' st' where *: "setRowValByColType args getv i row (type_char (ts ! i)) (r, df, st) = Inr (r', df\<lparr>df_columns := ca'\<rparr>, st')"
    "Row_repr r' ts (vs[i := Some (vss ! i ! row)])" "ro_rowIdx r' = ro_rowIdx r" "inv st'" "val st' = val st"
    "Array_repr ca' (cols[i := c'])" "column_holds (ts ! i) args (base i) i (val st') (vss ! i) c'" by blast
  have "frame_repr args base (val st') ts vss (df\<lparr>df_columns := ca'\<rparr>)"
    unfolding frame_repr_def using F *(5-7) i by (auto simp: nth_list_update intro!: exI [of _ "cols[i := c']"])
  with * show ?thesis by (intro exI [of _ r'] exI [of _ "df\<lparr>df_columns := ca'\<rparr>"] exI [of _ st']) simp
qed

text \<open>A row filled from the frame holds one element of each column.\<close>

lemma fill_row_repr:
  assumes f: "frame_repr args base (val st) ts vss df" and row: "\<And>i. i < length ts \<Longrightarrow> row < length (vss ! i)"
    and r: "Row_repr r ts vs" and s: "inv st" "homes homed args"
  shows "\<exists>r' df' st'. fill_row args getv row (r, df, st) = Inr (r', df', st') \<and>
    Row_repr r' ts (map Some (row_at vss row)) \<and> ro_rowIdx r' = row \<and> inv st' \<and> val st' = val st \<and>
    frame_repr args base (val st') ts vss df' \<and> df_schema df' = df_schema df \<and> df_key df' = df_key df"
proof -
  have len: "length vs = length ts" "length vss = length ts" "Row_width r = length ts"
    using Row_reprD [OF r] f by (simp_all add: frame_repr_def Row_width_def)
  let ?vs = "\<lambda>k. map (\<lambda>j. if j < k then Some (vss ! j ! row) else vs ! j) [0..<length ts]"
  let ?P = "\<lambda>k (r', df', st'). Row_repr r' ts (?vs k) \<and> ro_rowIdx r' = row \<and> inv st' \<and> val st' = val st \<and>
    frame_repr args base (val st') ts vss df' \<and> df_schema df' = df_schema df \<and> df_key df' = df_key df"
  have "\<exists>t. res_fold (\<lambda>colIdx (r, df, st). res_bind (Schema_col_type_char colIdx (df_schema df)) (\<lambda>t.
      setRowValByColType args getv colIdx row t (r, df, st))) [0..<length ts] (Row_set_idx row r, df, st) = Inr t \<and> ?P (length ts) t"
  proof (rule res_fold_upt [where P = ?P])
    have "?vs 0 = vs" using len by (intro nth_equalityI) simp_all
    then show "?P 0 (Row_set_idx row r, df, st)" using r f s by (simp add: Row_set_idx_def Row_repr_def)
  next
    fix k and x :: "Row \<times> DataFrame \<times> 's"
    assume k: "k < length ts" and p: "?P k x"
    obtain r1 df1 st1 where x: "x = (r1, df1, st1)" by (cases x)
    have p1: "Row_repr r1 ts (?vs k)" "ro_rowIdx r1 = row" "inv st1" "val st1 = val st" "frame_repr args base (val st1) ts vss df1"
      "df_schema df1 = df_schema df" "df_key df1 = df_key df" using p unfolding x by auto
    obtain r2 df2 st2 where 2: "setRowValByColType args getv k row (type_char (ts ! k)) (r1, df1, st1) = Inr (r2, df2, st2)"
      "Row_repr r2 ts ((?vs k)[k := Some (vss ! k ! row)])" "ro_rowIdx r2 = ro_rowIdx r1" "inv st2" "val st2 = val st1"
      "frame_repr args base (val st2) ts vss df2" "df_schema df2 = df_schema df1" "df_key df2 = df_key df1"
      using set_step [OF p1(5) k row [OF k] p1(1,3) s(2)] by blast
    have "(?vs k)[k := Some (vss ! k ! row)] = ?vs (Suc k)" using k by (intro nth_equalityI) (auto simp: nth_list_update less_Suc_eq)
    then show "\<exists>t. (case x of (r, df, st) \<Rightarrow> res_bind (Schema_col_type_char k (df_schema df)) (\<lambda>t.
        setRowValByColType args getv k row t (r, df, st))) = Inr t \<and> ?P (Suc k) t"
      using x 2 p1 frame_col_type [OF p1(5) k] by (intro exI [of _ "(r2, df2, st2)"]) simp
  qed simp
  moreover have "?vs (length ts) = map Some (row_at vss row)" using len by (intro nth_equalityI) (simp_all add: row_at_def)
  ultimately show ?thesis using len(3) by (auto simp: fill_row_def)
qed

text \<open>Appending a chunk of rows after full blocks.\<close>

lemma chunk_step:
  assumes ca: "Array_repr ca cols" "length cols = length ts" and k: "k < length ts"
    and h: "column_holds (ts ! k) args cs k (val st) vals (cols ! k)" and s: "inv st" "homes homed args"
    and ch: "Array_repr chunk rows" "length xs \<le> length rows" "\<And>j. j < length xs \<Longrightarrow> Row_repr (rows ! j) ts (map Some (xs ! j))"
    and len: "16 + sum_list (map (\<lambda>x. value_size (x ! k)) xs) < 2 ^ 64" "length vals + length xs < 2 ^ 64"
    and a: "blockSize args dvd length vals"
  shows "\<exists>ca' c' st'. (let colType = type_char (ts ! k) in
      if colType = CHR ''I'' then addChunkColumn Row_get_int (Column_add_ints args putv) chunk (length xs) k (ca, st)
      else if colType = CHR ''B'' then addChunkColumn Row_get_bool (Column_add_bools args putv) chunk (length xs) k (ca, st)
      else if colType = CHR ''S'' then addChunkColumn get_string_clone (Column_add_strings args putv) chunk (length xs) k (ca, st)
      else if colType = CHR ''D'' then addChunkColumn Row_get_double (Column_add_doubles args putv) chunk (length xs) k (ca, st)
      else Inl (Exit 1)) = Inr (ca', st') \<and> inv st' \<and> Array_repr ca' (cols[k := c']) \<and>
    column_holds (ts ! k) args cs k (val st') (vals @ map (\<lambda>x. x ! k) xs) c' \<and>
    (\<forall>key. (\<forall>i. key \<noteq> block_key args cs k i) \<longrightarrow> val st' key = val st key)"
proof -
  let ?ys = "map (\<lambda>x. x ! k) xs"
  have kc: "k < length cols" using k ca(2) by simp
  have ty: "list_all (value_of_type (ts ! k)) ?ys"
    unfolding list_all_length
  proof (intro allI impI)
    fix j assume "j < length ?ys"
    then have j: "j < length xs" by simp
    have "length (map Some (xs ! j)) = length ts" using Row_reprD(4) [OF ch(3) [OF j]] by simp
    then show "value_of_type (ts ! k) (?ys ! j)" using Row_reprD(6) [OF ch(3) [OF j] k, of "xs ! j ! k"] j k by simp
  qed
  have l: "16 + sum_list (map value_size ?ys) < 2 ^ 64" "length vals + length ?ys < 2 ^ 64" using len by (simp_all add: comp_def)
  note cv = ch(1,2) refl ch(3) k
  show ?thesis
  proof (cases "ts ! k")
    case Integer
    have "chunk_values Row_get_int k chunk (length ?ys) = Inr (map as_int ?ys)"
      using ints.chunk_values_repr [OF cv Integer] by (simp add: comp_def)
    from ints.chunk_to_repr [OF _ ca(1) kc s this _ l a, of cs] show ?thesis
      using Integer h ty by (simp add: chunk_to_def Column_adds)
  next
    case Boolean
    have "chunk_values Row_get_bool k chunk (length ?ys) = Inr (map as_bool ?ys)"
      using bools.chunk_values_repr [OF cv Boolean] by (simp add: comp_def)
    from bools.chunk_to_repr [OF _ ca(1) kc s this _ l a, of cs] show ?thesis
      using Boolean h ty by (simp add: chunk_to_def Column_adds)
  next
    case Double
    have "chunk_values Row_get_double k chunk (length ?ys) = Inr (map as_double ?ys)"
      using doubles.chunk_values_repr [OF cv Double] by (simp add: comp_def)
    from doubles.chunk_to_repr [OF _ ca(1) kc s this _ l a, of cs] show ?thesis
      using Double h ty by (simp add: chunk_to_def Column_adds)
  next
    case Str
    have "chunk_values get_string_clone k chunk (length ?ys) = Inr (map as_string ?ys)"
      using strings.chunk_values_repr [OF cv Str] by (simp add: comp_def)
    from strings.chunk_to_repr [OF _ ca(1) kc s this _ l a, of cs] show ?thesis
      using Str h ty by (simp add: chunk_to_def Column_adds)
  next
    case Field
    then show ?thesis using h by simp
  qed
qed

lemma addRowChunk_repr:
  assumes f: "frame_repr args (\<lambda>_. cs) (val st) ts vss df" and s: "inv st" "homes homed args"
    and ch: "Array_repr chunk rows" "length xs \<le> length rows" "\<And>j. j < length xs \<Longrightarrow> Row_repr (rows ! j) ts (map Some (xs ! j))"
    and len: "\<And>k. k < length ts \<Longrightarrow> 16 + sum_list (map (\<lambda>x. value_size (x ! k)) xs) < 2 ^ 64"
    and a: "\<And>k. k < length ts \<Longrightarrow> length (vss ! k) = n" "blockSize args dvd n" "n + length xs < 2 ^ 64"
  shows "\<exists>df' st'. addRowChunk args putv chunk (length xs) (df, st) = Inr (df', st') \<and> inv st' \<and>
    frame_repr args (\<lambda>_. cs) (val st') ts (map (\<lambda>k. vss ! k @ map (\<lambda>x. x ! k) xs) [0..<length ts]) df' \<and>
    nrows df' = nrows df + length xs \<and> df_key df' = df_key df \<and>
    sc_capCols (df_schema df') = sc_capCols (df_schema df) \<and>
    (\<forall>key. (\<forall>k i. key \<noteq> block_key args cs k i) \<longrightarrow> val st' key = val st key)"
proof -
  obtain cols where F: "Schema_repr (df_schema df) ts" "0 < sc_capCols (df_schema df)" "length vss = length ts"
    "Array_repr (df_columns df) cols" "length cols = length ts"
    "\<And>i. i < length ts \<Longrightarrow> column_holds (ts ! i) args cs i (val st) (vss ! i) (cols ! i)"
    using f by (rule frame_reprE) blast
  let ?new = "\<lambda>k i. vss ! i @ (if i < k then map (\<lambda>x. x ! i) xs else [])"
  let ?P = "\<lambda>k (ca, st'). inv st' \<and> (\<exists>cols. Array_repr ca cols \<and> length cols = length ts \<and>
      (\<forall>i < length ts. column_holds (ts ! i) args cs i (val st') (?new k i) (cols ! i))) \<and>
    (\<forall>key. (\<forall>k i. key \<noteq> block_key args cs k i) \<longrightarrow> val st' key = val st key)"
  let ?body = "\<lambda>i (ca, st). res_bind (Schema_col_type_char i (df_schema df)) (\<lambda>colType.
           if colType = CHR ''I'' then addChunkColumn Row_get_int (Column_add_ints args putv) chunk (length xs) i (ca, st)
           else if colType = CHR ''B'' then addChunkColumn Row_get_bool (Column_add_bools args putv) chunk (length xs) i (ca, st)
           else if colType = CHR ''S'' then addChunkColumn get_string_clone (Column_add_strings args putv) chunk (length xs) i (ca, st)
           else if colType = CHR ''D'' then addChunkColumn Row_get_double (Column_add_doubles args putv) chunk (length xs) i (ca, st)
           else Inl (Exit 1))"
  have "\<exists>t. res_fold ?body [0..<length ts] (df_columns df, st) = Inr t \<and> ?P (length ts) t"
  proof (rule res_fold_upt [where P = ?P])
    show "?P 0 (df_columns df, st)" using F s by auto
  next
    fix k and x :: "ColumnArray \<times> 's"
    assume k: "k < length ts" and p: "?P k x"
    obtain ca1 st1 where x: "x = (ca1, st1)" by (cases x)
    obtain cols1 where p1: "inv st1" "Array_repr ca1 cols1" "length cols1 = length ts"
      "\<And>i. i < length ts \<Longrightarrow> column_holds (ts ! i) args cs i (val st1) (?new k i) (cols1 ! i)"
      "\<forall>key. (\<forall>k i. key \<noteq> block_key args cs k i) \<longrightarrow> val st1 key = val st key"
      using p x by auto
    have h: "column_holds (ts ! k) args cs k (val st1) (vss ! k) (cols1 ! k)" using p1(4) [OF k] by simp
    have sz: "length (vss ! k) + length xs < 2 ^ 64" "blockSize args dvd length (vss ! k)" using a k by simp_all
    obtain ca2 c2 st2 where 2: "?body k (ca1, st1) = Inr (ca2, st2)" "inv st2" "Array_repr ca2 (cols1[k := c2])"
      "column_holds (ts ! k) args cs k (val st2) (vss ! k @ map (\<lambda>x. x ! k) xs) c2"
      "\<forall>key. (\<forall>i. key \<noteq> block_key args cs k i) \<longrightarrow> val st2 key = val st1 key"
      using chunk_step [OF p1(2,3) k h p1(1) s(2) ch len [OF k] sz] frame_col_type [OF f k] by (auto simp: Let_def)
    have "column_holds (ts ! i) args cs i (val st2) (?new (Suc k) i) (cols1[k := c2] ! i)" if i: "i < length ts" for i
    proof (cases "i = k")
      case True
      then show ?thesis using 2(4) p1(3) k by simp
    next
      case False
      then have "val st2 (block_key args cs i j) = val st1 (block_key args cs i j)" for j using 2(5) by simp
      from column_holds_frame [OF p1(4) [OF i] this] show ?thesis using False by (simp add: less_Suc_eq)
    qed
    then have e: "\<exists>cols. Array_repr ca2 cols \<and> length cols = length ts \<and>
        (\<forall>i < length ts. column_holds (ts ! i) args cs i (val st2) (?new (Suc k) i) (cols ! i))"
      using 2(3) p1(3) by (metis length_list_update)
    have fr: "\<forall>key. (\<forall>k i. key \<noteq> block_key args cs k i) \<longrightarrow> val st2 key = val st key" using 2(5) p1(5) by metis
    show "\<exists>t. ?body k x = Inr t \<and> ?P (Suc k) t"
    proof (intro exI [of _ "(ca2, st2)"] conjI)
      show "?body k x = Inr (ca2, st2)" using x 2(1) by simp
      show "?P (Suc k) (ca2, st2)" unfolding prod.case using 2(2) e fr by blast
    qed
  qed simp
  then obtain ca' st' cols' where t: "res_fold ?body [0..<length ts] (df_columns df, st) = Inr (ca', st')" "inv st'"
    "Array_repr ca' cols'" "length cols' = length ts"
    "\<forall>i < length ts. column_holds (ts ! i) args cs i (val st') (?new (length ts) i) (cols' ! i)"
    "\<forall>key. (\<forall>k i. key \<noteq> block_key args cs k i) \<longrightarrow> val st' key = val st key"
    by auto
  let ?df = "df\<lparr>df_columns := ca', df_schema := Schema_add_rows (length xs) (df_schema df)\<rparr>"
  have w: "Schema_width (df_schema df) = length ts" using F(1) by (simp add: Schema_repr_def Schema_width_def)
  have "addRowChunk args putv chunk (length xs) (df, st) = Inr (?df, st')"
    using t(1) by (simp add: addRowChunk_def w)
  moreover have "frame_repr args (\<lambda>_. cs) (val st') ts (map (\<lambda>k. vss ! k @ map (\<lambda>x. x ! k) xs) [0..<length ts]) ?df"
    using F(1,2) t(3-5) by (auto simp: frame_repr_def Schema_add_rows_def Schema_repr_def)
  ultimately show ?thesis
    using t(2,6) by (intro exI [of _ ?df] exI [of _ st']) (simp add: nrows_def Schema_length_def Schema_add_rows_def)
qed

end

end
