(* ===== verification/FrameWrite.thy ===== *)
theory FrameWrite
  imports FrameLaws
begin

text \<open>
  Building a frame from a \<open>Writer\<close>. The contract of a writer (\<open>row_writer\<close>) is the list of rows
  it still has to write; \<open>visit\<close> on any store then leaves a frame with exactly these rows, however
  they fall into blocks, and returns.
\<close>

section \<open>The contract of a writer\<close>

text \<open>\<open>todo\<close> holds before \<open>done\<close> is asked, \<open>ready\<close> once it has said no.\<close>

locale row_writer =
  fixes wr :: "'w Writer" and ts :: "DataType list" and todo ready :: "'w \<Rightarrow> RowValue list list \<Rightarrow> bool"
  assumes done_todo: "todo w rows \<Longrightarrow> \<exists>w'. wr_done wr w = Inr (rows = [], w') \<and> (rows \<noteq> [] \<longrightarrow> ready w' rows)"
    and visit_ready: "ready w (row # rows) \<Longrightarrow> Row_repr r ts (replicate (length ts) None) \<Longrightarrow>
      \<exists>r' w'. wr_visit wr r w = Inr (r', w') \<and> Row_repr r' ts (map Some row) \<and> todo w' rows"

section \<open>Rows and columns\<close>

definition cols_of :: "DataType list \<Rightarrow> RowValue list list \<Rightarrow> RowValue list list" where
  "cols_of ts rows = map (\<lambda>k. map (\<lambda>x. x ! k) rows) [0..<length ts]"

lemma cols_of_append:
  "map (\<lambda>k. cols_of ts rows ! k @ map (\<lambda>x. x ! k) xs) [0..<length ts] = cols_of ts (rows @ xs)"
  by (simp add: cols_of_def)

lemma length_cols_of [simp]: "k < length ts \<Longrightarrow> length (cols_of ts rows ! k) = length rows"
  by (simp add: cols_of_def)

lemma row_at_cols_of:
  "r < length rows \<Longrightarrow> length (rows ! r) = length ts \<Longrightarrow> row_at (cols_of ts rows) r = rows ! r"
  by (auto simp: row_at_def cols_of_def intro!: nth_equalityI)

text \<open>All the bytes of a column fit a \<open>size_t\<close>.\<close>

definition rows_fit :: "DataType list \<Rightarrow> RowValue list list \<Rightarrow> bool" where
  "rows_fit ts rows \<longleftrightarrow> length rows < 2 ^ 64 \<and>
     (\<forall>k < length ts. 16 + sum_list (map (\<lambda>x. value_size (x ! k)) rows) < 2 ^ 64)"

lemma rows_fit_part: "rows_fit ts (as @ bs @ cs) \<Longrightarrow> rows_fit ts bs \<and> length as + length bs < 2 ^ 64"
  by (auto simp: rows_fit_def)

section \<open>The loop of visit\<close>

text \<open>The first \<open>length pend\<close> rows of the chunk are written, the others are clear.\<close>

definition chunk_repr :: "DataType list \<Rightarrow> nat \<Rightarrow> Row Array \<Rightarrow> RowValue list list \<Rightarrow> bool" where
  "chunk_repr ts b chunk pend \<longleftrightarrow> (\<exists>rws. Array_repr chunk rws \<and> length rws = b \<and> length pend \<le> b \<and>
     (\<forall>j < length pend. Row_repr (rws ! j) ts (map Some (pend ! j))) \<and>
     (\<forall>j < b. length pend \<le> j \<longrightarrow> Row_repr (rws ! j) ts (replicate (length ts) None)))"

lemma chunk_repr_start:
  assumes s: "Schema_repr s ts" "Field \<notin> set ts" and b: "0 < b"
  shows "\<exists>chunk. res_fold (\<lambda>_ ch. res_bind (Row_new s) (\<lambda>r. Array_add r ch)) [0..<b] (Array_new b) = Inr chunk \<and> chunk_repr ts b chunk []"
proof -
  let ?P = "\<lambda>n ch. \<exists>rws. Array_repr ch rws \<and> length rws = n \<and> (\<forall>j < n. Row_repr (rws ! j) ts (replicate (length ts) None))"
  have "\<exists>ch. res_fold (\<lambda>_ ch. res_bind (Row_new s) (\<lambda>r. Array_add r ch)) [0..<b] (Array_new b) = Inr ch \<and> ?P b ch"
  proof (rule res_fold_upt [where P = ?P])
    show "?P 0 (Array_new b)" using b by auto
  next
    fix n ch
    assume "?P n ch"
    then obtain rws where p: "Array_repr ch rws" "length rws = n" "\<forall>j < n. Row_repr (rws ! j) ts (replicate (length ts) None)" by blast
    obtain r where r: "Row_new s = Inr r" "Row_repr r ts (replicate (length ts) None)" using Row_repr_new [OF s] by blast
    obtain ch' where "Array_add r ch = Inr ch'" "Array_repr ch' (rws @ [r])" using Array_add_repr [OF p(1)] by blast
    then show "\<exists>t. res_bind (Row_new s) (\<lambda>r. Array_add r ch) = Inr t \<and> ?P (Suc n) t"
      using p r by (intro exI [of _ ch'] conjI exI [of _ "rws @ [r]"]) (auto simp: nth_append less_Suc_eq)
  qed simp
  then show ?thesis by (auto simp: chunk_repr_def)
qed

lemma clear_chunk_repr:
  assumes "chunk_repr ts b chunk pend"
  shows "\<exists>chunk'. clear_chunk b chunk = Inr chunk' \<and> chunk_repr ts b chunk' []"
proof -
  obtain rws where c: "Array_repr chunk rws" "length rws = b" "\<forall>j < b. \<exists>vs. Row_repr (rws ! j) ts vs"
    using assms by (metis chunk_repr_def not_le)
  let ?P = "\<lambda>n ch. \<exists>rws. Array_repr ch rws \<and> length rws = b \<and> (\<forall>j < b. \<exists>vs. Row_repr (rws ! j) ts vs) \<and>
    (\<forall>j < n. Row_repr (rws ! j) ts (replicate (length ts) None))"
  have "\<exists>ch. clear_chunk b chunk = Inr ch \<and> ?P b ch"
    unfolding clear_chunk_def
  proof (rule res_fold_upt [where P = ?P])
    show "?P 0 chunk" using c by blast
  next
    fix n ch
    assume n: "n < b" and "?P n ch"
    then obtain rws vs where p: "Array_repr ch rws" "length rws = b" "\<forall>j < b. \<exists>vs. Row_repr (rws ! j) ts vs"
      "\<forall>j < n. Row_repr (rws ! j) ts (replicate (length ts) None)" "Row_repr (rws ! n) ts vs" by blast
    have nl: "n < length rws" using n p(2) by simp
    obtain ch' where ch': "Array_set n (Row_clear (rws ! n)) ch = Inr (rws ! n, ch')" "Array_repr ch' (rws[n := Row_clear (rws ! n)])"
      using Array_set_repr [OF p(1) nl] by blast
    have "\<forall>j < b. \<exists>vs. Row_repr (rws[n := Row_clear (rws ! n)] ! j) ts vs"
      "\<forall>j < Suc n. Row_repr (rws[n := Row_clear (rws ! n)] ! j) ts (replicate (length ts) None)"
      using p(2-5) Row_repr_clear [OF p(5)] n by (auto simp: nth_list_update less_Suc_eq)
    with ch' n p(2) show "\<exists>t. res_bind (Array_get n ch) (\<lambda>r. res_bind (Array_set n (Row_clear r) ch) (\<lambda>(_, ch). Inr ch)) = Inr t \<and> ?P (Suc n) t"
      by (auto simp: Array_get_repr [OF p(1)])
  qed simp
  then show ?thesis by (auto simp: chunk_repr_def)
qed

text \<open>Writing the next row of the chunk.\<close>

lemma chunk_repr_set:
  assumes c: "chunk_repr ts b chunk pend" and n: "length pend < b"
  shows "\<exists>r. Array_get (length pend) chunk = Inr r \<and> Row_repr r ts (replicate (length ts) None) \<and>
    (\<forall>r' row. Row_repr r' ts (map Some row) \<longrightarrow>
      (\<exists>o' chunk'. Array_set (length pend) r' chunk = Inr (o', chunk') \<and> chunk_repr ts b chunk' (pend @ [row])))"
proof -
  obtain rws where c: "Array_repr chunk rws" "length rws = b" "\<forall>j < length pend. Row_repr (rws ! j) ts (map Some (pend ! j))"
    "\<forall>j < b. length pend \<le> j \<longrightarrow> Row_repr (rws ! j) ts (replicate (length ts) None)"
    using c by (auto simp: chunk_repr_def)
  have "\<exists>o' chunk'. Array_set (length pend) r' chunk = Inr (o', chunk') \<and> chunk_repr ts b chunk' (pend @ [row])"
    if r': "Row_repr r' ts (map Some row)" for r' row
  proof -
    obtain chunk' where s: "Array_set (length pend) r' chunk = Inr (rws ! length pend, chunk')" "Array_repr chunk' (rws[length pend := r'])"
      using Array_set_repr [OF c(1), of "length pend" r'] c(2) n by auto
    have "chunk_repr ts b chunk' (pend @ [row])"
      unfolding chunk_repr_def using s(2) c(2-4) r' n
      by (intro exI [of _ "rws[length pend := r']"]) (auto simp: nth_append nth_list_update less_Suc_eq)
    with s(1) show ?thesis by blast
  qed
  moreover have "Array_get (length pend) chunk = Inr (rws ! length pend)" using n c(2) by (simp add: Array_get_repr [OF c(1)])
  ultimately show ?thesis using c(4) n by auto
qed

lemma chunk_reprD:
  assumes "chunk_repr ts b chunk pend"
  obtains rws where "Array_repr chunk rws" and "length pend \<le> length rws" and "length pend \<le> b"
    and "\<And>j. j < length pend \<Longrightarrow> Row_repr (rws ! j) ts (map Some (pend ! j))"
  using assms by (auto simp: chunk_repr_def)

locale frame_writer = kv_client putv getv inv val homed + row_writer wr ts todo ready
  for putv :: "Key \<Rightarrow> Value \<Rightarrow> 's \<Rightarrow> 's res" and getv :: "Key \<Rightarrow> 's \<Rightarrow> (Value option \<times> 's) res"
    and inv :: "'s \<Rightarrow> bool" and val :: "'s \<Rightarrow> Key \<rightharpoonup> Value" and homed :: "Key \<Rightarrow> bool"
    and wr :: "'w Writer" and ts :: "DataType list" and todo ready :: "'w \<Rightarrow> RowValue list list \<Rightarrow> bool"
begin

text \<open>The rows \<open>full\<close> are in the frame and fill their blocks, the rows \<open>pend\<close> are in the chunk.\<close>

definition visiting :: "Args \<Rightarrow> char list \<Rightarrow> 's \<Rightarrow> RowValue list list \<Rightarrow> RowValue list list \<Rightarrow>
    Row Array \<times> nat \<times> nat \<times> 'w \<times> DataFrame \<times> 's \<Rightarrow> bool" where
  "visiting args cs st0 full pend = (\<lambda>(chunk, i, rowIdx, w, df, st).
     i = length pend \<and> chunk_repr ts (blockSize args) chunk pend \<and> inv st \<and> blockSize args dvd length full \<and>
     frame_repr args (\<lambda>_. cs) (val st) ts (cols_of ts full) df \<and> nrows df = length full \<and>
     (\<forall>key. (\<forall>k i. key \<noteq> block_key args cs k i) \<longrightarrow> val st key = val st0 key))"

lemma flush:
  assumes v: "visiting args cs st0 full pend (chunk, i, rowIdx, w, df, st)" and h: "homes homed args"
    and fit: "rows_fit ts (full @ pend @ rest)"
  shows "\<exists>df' st'. addRowChunk args putv chunk i (df, st) = Inr (df', st') \<and> inv st' \<and>
    frame_repr args (\<lambda>_. cs) (val st') ts (cols_of ts (full @ pend)) df' \<and> nrows df' = length (full @ pend) \<and>
    df_key df' = df_key df \<and> sc_capCols (df_schema df') = sc_capCols (df_schema df) \<and>
    (\<forall>key. (\<forall>k i. key \<noteq> block_key args cs k i) \<longrightarrow> val st' key = val st0 key)"
proof -
  have V: "i = length pend" "chunk_repr ts (blockSize args) chunk pend" "inv st" "blockSize args dvd length full"
    "frame_repr args (\<lambda>_. cs) (val st) ts (cols_of ts full) df" "nrows df = length full"
    "\<forall>key. (\<forall>k i. key \<noteq> block_key args cs k i) \<longrightarrow> val st key = val st0 key"
    using v by (simp_all add: visiting_def)
  obtain rws where c: "Array_repr chunk rws" "length pend \<le> length rws"
    "\<And>j. j < length pend \<Longrightarrow> Row_repr (rws ! j) ts (map Some (pend ! j))" using chunk_reprD [OF V(2)] by blast
  have f: "16 + sum_list (map (\<lambda>x. value_size (x ! k)) pend) < 2 ^ 64" if "k < length ts" for k
    using rows_fit_part [OF fit] that by (simp add: rows_fit_def)
  show ?thesis
    using addRowChunk_repr [OF V(5,3) h c f _ V(4)] rows_fit_part [OF fit] V
    unfolding cols_of_append by auto
qed

lemma visit_step_repr:
  assumes v: "visiting args cs st0 full pend (chunk, i, rowIdx, w, df, st)" and h: "homes homed args" and b: "0 < blockSize args"
    and r: "ready w (row # rows)" and fit: "rows_fit ts (full @ pend @ row # rows)"
  shows "\<exists>full' pend' vs w'. visit_step args putv wr (chunk, i, rowIdx, w, df, st) = Inr vs \<and> visiting args cs st0 full' pend' vs \<and>
    full' @ pend' = full @ pend @ [row] \<and> fst (snd (snd (snd vs))) = w' \<and> todo w' rows \<and>
    df_key (fst (snd (snd (snd (snd vs))))) = df_key df \<and>
    sc_capCols (df_schema (fst (snd (snd (snd (snd vs)))))) = sc_capCols (df_schema df)"
proof -
  obtain full' pend' chunk1 i1 df1 st1 where 1: "(if i = blockSize args then
      res_bind (addRowChunk args putv chunk i (df, st)) (\<lambda>(df, st).
      res_bind (clear_chunk (blockSize args) chunk) (\<lambda>chunk. Inr (chunk, 0, df, st)))
      else Inr (chunk, i, df, st)) = Inr (chunk1, i1, df1, st1)"
    "visiting args cs st0 full' pend' (chunk1, i1, rowIdx, w, df1, st1)" "full' @ pend' = full @ pend" "length pend' < blockSize args"
    "df_key df1 = df_key df" "sc_capCols (df_schema df1) = sc_capCols (df_schema df)"
  proof (cases "i = blockSize args")
    case True
    obtain df1 st1 where f: "addRowChunk args putv chunk i (df, st) = Inr (df1, st1)" "inv st1"
      "frame_repr args (\<lambda>_. cs) (val st1) ts (cols_of ts (full @ pend)) df1" "nrows df1 = length (full @ pend)"
      "df_key df1 = df_key df" "sc_capCols (df_schema df1) = sc_capCols (df_schema df)"
      "\<forall>key. (\<forall>k i. key \<noteq> block_key args cs k i) \<longrightarrow> val st1 key = val st0 key"
      using flush [OF v h fit] by blast
    obtain chunk1 where c: "clear_chunk (blockSize args) chunk = Inr chunk1" "chunk_repr ts (blockSize args) chunk1 []"
      using clear_chunk_repr [of ts "blockSize args" chunk pend] v by (auto simp: visiting_def)
    have "visiting args cs st0 (full @ pend) [] (chunk1, 0, rowIdx, w, df1, st1)"
      using f c(2) v True by (auto simp: visiting_def)
    with True f(1,5,6) c(1) b show ?thesis by (intro that [of chunk1 0 df1 st1 "full @ pend" "[]"]) simp_all
  next
    case False
    then have "length pend < blockSize args" using v by (auto simp: visiting_def chunk_repr_def)
    with False v show ?thesis by (intro that [of chunk i df st full pend]) simp_all
  qed
  have V: "i1 = length pend'" "chunk_repr ts (blockSize args) chunk1 pend'" using 1(2) by (simp_all add: visiting_def)
  obtain r0 where r0: "Array_get (length pend') chunk1 = Inr r0" "Row_repr r0 ts (replicate (length ts) None)"
    "\<forall>r' row. Row_repr r' ts (map Some row) \<longrightarrow>
      (\<exists>o' chunk'. Array_set (length pend') r' chunk1 = Inr (o', chunk') \<and> chunk_repr ts (blockSize args) chunk' (pend' @ [row]))"
    using chunk_repr_set [OF V(2) 1(4)] by blast
  have "Row_repr (Row_set_idx rowIdx r0) ts (replicate (length ts) None)" using r0(2) by (simp add: Row_repr_def Row_set_idx_def)
  then obtain r1 w' where w: "wr_visit wr (Row_set_idx rowIdx r0) w = Inr (r1, w')" "Row_repr r1 ts (map Some row)" "todo w' rows"
    using visit_ready [OF r] by blast
  obtain o' chunk' where s: "Array_set (length pend') r1 chunk1 = Inr (o', chunk')" "chunk_repr ts (blockSize args) chunk' (pend' @ [row])"
    using r0(3) w(2) by blast
  have "visit_step args putv wr (chunk, i, rowIdx, w, df, st) = Inr (chunk', i1 + 1, rowIdx + 1, w', df1, st1)"
    using 1(1) r0(1) w(1) s(1) V(1) by (simp add: visit_step_def)
  moreover have "visiting args cs st0 full' (pend' @ [row]) (chunk', i1 + 1, rowIdx + 1, w', df1, st1)"
    using 1(2) s(2) by (simp add: visiting_def)
  ultimately show ?thesis
    using 1(3,5,6) w(3) by (intro exI [of _ full'] exI [of _ "pend' @ [row]"] exI [of _ "(chunk', i1 + 1, rowIdx + 1, w', df1, st1)"]) simp
qed

text \<open>The loop returns once the writer has no more rows, and all of them are visited.\<close>

lemma visit_loop_repr:
  assumes "visiting args cs st0 full pend (chunk, i, rowIdx, w, df, st)" and h: "homes homed args" and b: "0 < blockSize args"
    and "todo w rows" and "rows_fit ts (full @ pend @ rows)"
  shows "\<exists>full' pend' chunk' i' n' w' df' st'.
    visit_loop args putv wr (chunk, i, rowIdx, w, df, st) = Some (Inr (chunk', i', n', w', df', st')) \<and>
    visiting args cs st0 full' pend' (chunk', i', n', w', df', st') \<and> full' @ pend' = full @ pend @ rows \<and>
    df_key df' = df_key df \<and> sc_capCols (df_schema df') = sc_capCols (df_schema df)"
  using assms(1,4,5)
proof (induction rows arbitrary: full pend chunk i rowIdx w df st)
  case Nil
  then obtain w' where w': "wr_done wr w = Inr (True, w')" using done_todo by force
  have "visiting args cs st0 full pend (chunk, i, rowIdx, w', df, st)" using Nil.prems(1) by (simp add: visiting_def)
  moreover have "visit_loop args putv wr (chunk, i, rowIdx, w, df, st) = Some (Inr (chunk, i, rowIdx, w', df, st))"
    by (subst visit_loop.simps) (simp add: w')
  ultimately show ?case by (intro exI [of _ full] exI [of _ pend]) auto
next
  case (Cons row rows)
  then obtain w1 where w1: "wr_done wr w = Inr (False, w1)" "ready w1 (row # rows)" using done_todo by force
  have v: "visiting args cs st0 full pend (chunk, i, rowIdx, w1, df, st)" using Cons.prems(1) by (simp add: visiting_def)
  obtain full1 pend1 vs w2 where vs: "visit_step args putv wr (chunk, i, rowIdx, w1, df, st) = Inr vs" "visiting args cs st0 full1 pend1 vs"
    "full1 @ pend1 = full @ pend @ [row]" "fst (snd (snd (snd vs))) = w2" "todo w2 rows"
    "df_key (fst (snd (snd (snd (snd vs))))) = df_key df"
    "sc_capCols (df_schema (fst (snd (snd (snd (snd vs)))))) = sc_capCols (df_schema df)"
    using visit_step_repr [OF v h b w1(2) Cons.prems(3)] by blast
  obtain chunk2 i2 n2 w3 df2 st2 where e: "vs = (chunk2, i2, n2, w3, df2, st2)" by (cases vs)
  have fit: "rows_fit ts (full1 @ pend1 @ rows)" using vs(3) Cons.prems(3) by (metis append.assoc append_Cons append_Nil)
  have t: "todo w3 rows" using vs(4,5) e by simp
  have "visit_loop args putv wr (chunk, i, rowIdx, w, df, st) = visit_loop args putv wr (chunk2, i2, n2, w3, df2, st2)"
    by (subst visit_loop.simps) (simp add: w1(1) vs(1) e)
  moreover have "full1 @ pend1 @ rows = full @ pend @ row # rows" using vs(3) by (metis append.assoc append_Cons append_Nil)
  ultimately show ?case
    using Cons.IH [OF vs(2) [unfolded e] t fit] vs(6,7) e by (metis fst_conv snd_conv)
qed

text \<open>\<open>visit\<close> on an empty frame.\<close>

lemma visit_repr:
  assumes f: "frame_repr args (\<lambda>_. cs) (val st) ts (cols_of ts []) df" "nrows df = 0" "inv st" "homes homed args"
    and b: "0 < blockSize args" and w: "todo w rows" and fit: "rows_fit ts rows" and ts: "Field \<notin> set ts"
  shows "\<exists>w' df' st'. visit args putv wr (w, df, st) = Inr (w', df', st') \<and> inv st' \<and>
    frame_repr args (\<lambda>_. cs) (val st') ts (cols_of ts rows) df' \<and> nrows df' = length rows \<and>
    df_key df' = df_key df \<and> sc_capCols (df_schema df') = sc_capCols (df_schema df) \<and>
    (\<forall>key. (\<forall>k i. key \<noteq> block_key args cs k i) \<longrightarrow> val st' key = val st key)"
proof -
  have s: "Schema_repr (df_schema df) ts" using f(1) by (simp add: frame_repr_def)
  obtain chunk where c: "res_fold (\<lambda>_ ch. res_bind (Row_new (df_schema df)) (\<lambda>r. Array_add r ch)) [0..<blockSize args]
      (Array_new (blockSize args)) = Inr chunk" "chunk_repr ts (blockSize args) chunk []"
    using chunk_repr_start [OF s ts b] by blast
  have v: "visiting args cs st [] [] (chunk, 0, 0, w, df, st)" using f c(2) by (simp add: visiting_def)
  obtain full pend chunk' i' n' w' df1 st1 where l: "visit_loop args putv wr (chunk, 0, 0, w, df, st) = Some (Inr (chunk', i', n', w', df1, st1))"
    "visiting args cs st full pend (chunk', i', n', w', df1, st1)" "full @ pend = rows"
    "df_key df1 = df_key df" "sc_capCols (df_schema df1) = sc_capCols (df_schema df)"
    using visit_loop_repr [OF v f(4) b w] fit by auto
  have e: "visit args putv wr (w, df, st) =
    (if i' > 0 then res_bind (addRowChunk args putv chunk' i' (df1, st1)) (\<lambda>(df, st). Inr (w', df, st)) else Inr (w', df1, st1))"
    by (simp add: visit_def c(1) l(1))
  show ?thesis
  proof (cases "i' > 0")
    case True
    have "rows_fit ts (full @ pend @ [])" using fit l(3) by simp
    from flush [OF l(2) f(4) this] True e l(3-5) show ?thesis by auto
  next
    case False
    then show ?thesis using e l(2-5) by (auto simp: visiting_def)
  qed
qed

end

section \<open>Where a frame starts\<close>

text \<open>A block size and a number of nodes with which columns work.\<close>

definition sizes_ok :: "Args \<Rightarrow> bool" where
  "sizes_ok args \<longleftrightarrow> 0 < blockSize args \<and> blockSize args < 2 ^ 64 \<and> 0 < numNodes args"

lemma column_holds_new:
  assumes "t \<noteq> Field" and "base_ok cs col" and "sizes_ok args"
  shows "\<exists>c. Column_new_char (Key_lit cs n) (type_char t) = Inr c \<and> column_holds t args cs col v [] c"
proof -
  have a: "0 < numNodes args" "0 < blockSize args" "blockSize args < 2 ^ 64" using assms(3) by (simp_all add: sizes_ok_def)
  note new = Column_repr_new [OF assms(2) a]
  have e: "Column_new_char (Key_lit cs n) (type_char t) = Column_new (Key_lit cs n) t"
    using assms(1) charToType_typeToChar [OF typeToChar_type_char [of t]] by (simp add: Column_new_char_def Column_new_def)
  show ?thesis
    unfolding e using assms(1) new [of n t "\<lambda>_. True" enc_u32 IntB v] new [of n t "\<lambda>_. True" enc_bool BoolB v]
      new [of n t "\<lambda>_. True" enc_u64 DoubleB v] new [of n t String_wf enc_String StrB v]
    by (cases t) (simp_all add: typed_holds_def)
qed

text \<open>A frame made from type letters has no rows.\<close>

lemma DataFrame_of_types_repr:
  assumes ts: "ts \<noteq> []" "Field \<notin> set ts" and k: "base_ok cs (length ts)" and a: "sizes_ok args"
  shows "\<exists>df. DataFrame_of_types (map type_char ts @ [NUL]) (Key_lit cs n) = Inr df \<and>
    frame_repr args (\<lambda>_. cs) v ts (cols_of ts []) df \<and> nrows df = 0 \<and> df_key df = Key_lit cs n \<and>
    sc_capCols (df_schema df) = length ts"
proof -
  have t: "list_all2 (\<lambda>c t. charToType c = Inr t) (map type_char ts) ts"
    using ts(2) charToType_typeToChar [OF typeToChar_type_char] by (auto simp: list_all2_conv_all_nth in_set_conv_nth)
  obtain sc where sc: "Schema_of_types (map type_char ts @ [NUL]) = Inr sc" "Schema_repr sc ts" "sc_numRows sc = 0" "sc_capCols sc = length ts"
    using Schema_of_types_repr [OF t] ts(1) by auto
  have k': "base_ok cs i" if "i < length ts" for i using k that by (simp add: base_ok_def)
  have ko: "Key_ok (Key_lit cs n)" using k by (simp add: base_ok_def cstr_ok_def)
  let ?body = "\<lambda>i ca. res_bind (Key_clone (Key_lit cs n)) (\<lambda>k. res_bind (cell_load (map Some (map type_char ts @ [NUL])) i) (\<lambda>t.
    res_bind (Column_new_char k t) (\<lambda>c. ColumnArray_add_column c ca)))"
  let ?P = "\<lambda>m ca. \<exists>cols. Array_repr ca cols \<and> length cols = m \<and> (\<forall>i < m. column_holds (ts ! i) args cs i v [] (cols ! i))"
  have "\<exists>ca. res_fold ?body [0..<length ts] ColumnArray_new = Inr ca \<and> ?P (length ts) ca"
  proof (rule res_fold_upt [where P = ?P])
    show "?P 0 ColumnArray_new" by (auto simp: ColumnArray_new_def Array_default_def)
  next
    fix i ca
    assume i: "i < length ts" and "?P i ca"
    then obtain cols where p: "Array_repr ca cols" "length cols = i" "\<forall>j < i. column_holds (ts ! j) args cs j v [] (cols ! j)" by blast
    have "ts ! i \<noteq> Field" using ts(2) i nth_mem by metis
    then obtain c where c: "Column_new_char (Key_lit cs n) (type_char (ts ! i)) = Inr c" "column_holds (ts ! i) args cs i v [] c"
      using column_holds_new [OF _ k' [OF i] a] by blast
    obtain ca' where ca': "Array_add c ca = Inr ca'" "Array_repr ca' (cols @ [c])" using Array_add_repr [OF p(1)] by blast
    have "?body i ca = Inr ca'"
      using Key_clone_ok [OF ko] i c(1) ca'(1) by (simp add: cell_load_def nth_append ColumnArray_add_column_def)
    moreover have "?P (Suc i) ca'"
      using ca'(2) p c(2) by (intro exI [of _ "cols @ [c]"]) (auto simp: nth_append less_Suc_eq)
    ultimately show "\<exists>ca'. ?body i ca = Inr ca' \<and> ?P (Suc i) ca'" by blast
  qed simp
  then obtain ca cols where ca: "res_fold ?body [0..<length ts] ColumnArray_new = Inr ca" "Array_repr ca cols" "length cols = length ts"
    "\<forall>i < length ts. column_holds (ts ! i) args cs i v [] (cols ! i)" by blast
  let ?df = "\<lparr>df_columns = ca, df_schema = sc, df_key = Key_lit cs n\<rparr>"
  have w: "Schema_width sc = length ts" using sc(2) by (simp add: Schema_repr_def Schema_width_def)
  have "DataFrame_of_types (map type_char ts @ [NUL]) (Key_lit cs n) = Inr ?df"
    unfolding DataFrame_of_types_def sc(1) res_bind_simps w ca(1) ..
  moreover have "frame_repr args (\<lambda>_. cs) v ts (cols_of ts []) ?df"
    unfolding frame_repr_def using ca(2-4) sc ts(1) by (auto simp: cols_of_def)
  ultimately show ?thesis using sc by (intro exI [of _ ?df]) (simp add: nrows_def Schema_length_def)
qed

end
