(* ===== verification/FrameTravel.thy ===== *)
theory FrameTravel
  imports FrameWrite
begin

text \<open>
  A frame as bytes: what \<open>addDFToStore\<close> puts under the key of the frame and \<open>waitAndGet\<close> makes of
  it. Only the keys of the blocks travel; the new frame holds the same columns as the old one as
  long as the blocks are in the store. The size of the bytes is bounded, since a \<open>Value\<close> holds
  less than \<open>2 ^ 64\<close> bytes.
\<close>

section \<open>Columns\<close>

text \<open>One turn of the loop that reads the columns.\<close>

definition read_column :: "Serializer \<Rightarrow> (Column \<times> Serializer) res" where
  "read_column s = res_bind Column_default (\<lambda>c. Column_deserialize c s)"

lemma typed_travels:
  assumes h: "typed_holds ok enc mk prj t args cs col v vals c" and t: "t \<noteq> Field" and n: "length vals < 2 ^ 64"
  shows "\<exists>bs c'. writes (Column_serialize c) bs \<and> reads read_column bs c' \<and>
    typed_holds ok enc mk prj t args cs col v vals c' \<and> length bs \<le> (length vals + 1) * (length cs + 80)"
proof -
  have r: "Column_repr ok enc mk t args cs col v (chunks (blockSize args) (map prj vals)) c" and z: "co_size c = length vals"
    using h by (simp_all add: typed_holds_def)
  obtain c0 where c0: "Column_default = Inr c0" "Cache_repr (da_cache (co_blocks c0)) [] Map.empty"
    using Column_default_ok by blast
  have "length (chunks (blockSize args) (map prj vals)) \<le> length vals"
    using length_chunks_le [of "blockSize args" "map prj vals"] Column_reprD(6) [OF r] by simp
  then have b: "(length (chunks (blockSize args) (map prj vals)) + 1) * (length cs + 80) \<le> (length vals + 1) * (length cs + 80)"
    by (intro mult_le_mono1) simp
  obtain bs c' where c': "writes (Column_serialize c) bs" "reads (Column_deserialize c0) bs c'" "co_size c' = co_size c"
    "Column_repr ok enc mk t args cs col v (chunks (blockSize args) (map prj vals)) c'"
    "length bs \<le> (length (chunks (blockSize args) (map prj vals)) + 1) * (length cs + 80)"
    using Column_travels [OF r typeToChar_type_char [OF t] _ c0(2)] n z by auto
  have "reads read_column bs c'" unfolding read_column_def [abs_def] c0(1) using c'(2) by simp
  with c' show ?thesis using h z le_trans [OF c'(5) b] unfolding typed_holds_def by metis
qed

lemma column_travels:
  assumes "column_holds t args cs col v vals c" and "length vals < 2 ^ 64"
  shows "\<exists>bs c'. writes (Column_serialize c) bs \<and> reads read_column bs c' \<and>
    column_holds t args cs col v vals c' \<and> length bs \<le> (length vals + 1) * (length cs + 80)"
  using assms by (cases t) (auto simp only: column_holds.simps DataType.simps intro!: typed_travels)

lemma ColumnArray_read_reads:
  assumes "list_all2 (\<lambda>c bs. reads read_column bs c) cols bss"
    and "Array_repr ca xs"
  shows "\<exists>ca'. reads (ColumnArray_read (length cols) ca) (concat bss) ca' \<and> Array_repr ca' (xs @ cols)"
  using assms
proof (induction cols bss arbitrary: ca xs rule: list_all2_induct)
  case Nil
  then show ?case using reads_Inr [of ca] by (auto simp: reads_def)
next
  case (Cons c cols bs bss)
  obtain c1 where c1: "Array_add c ca = Inr c1" "Array_repr c1 (xs @ [c])" using Array_add_repr [OF Cons.prems] by blast
  obtain ca' where ca': "reads (ColumnArray_read (length cols) c1) (concat bss) ca'" "Array_repr ca' ((xs @ [c]) @ cols)"
    using Cons.IH [OF c1(2)] by blast
  have "reads (\<lambda>s. res_bind (Array_add c ca) (\<lambda>ca. ColumnArray_read (length cols) ca s)) (concat bss) ca'"
    using ca'(1) c1(1) by simp
  then have "reads (\<lambda>s. res_bind (read_column s) (\<lambda>(c, s). res_bind (Array_add c ca) (\<lambda>ca. ColumnArray_read (length cols) ca s)))
      (bs @ concat bss) ca'"
    by (rule reads_bind [OF Cons.hyps(1)])
  then have "reads (ColumnArray_read (length (c # cols)) ca) (concat (bs # bss)) ca'"
    by (simp add: reads_def read_column_def res_bind_assoc)
  moreover have "Array_repr ca' (xs @ c # cols)" using ca'(2) by simp
  ultimately show ?case by blast
qed

section \<open>Frames\<close>

lemma frame_repr_frame:
  assumes "frame_repr args base v ts vss df" and "\<And>i j. w (block_key args (base i) i j) = v (block_key args (base i) i j)"
  shows "frame_repr args base w ts vss df"
  using assms column_holds_frame [of _ args _ _ v _ _ w] unfolding frame_repr_def by metis

lemma DataFrame_travels:
  assumes f: "frame_repr args base v ts vss df" and n: "\<And>i. i < length ts \<Longrightarrow> length (vss ! i) \<le> n" "n < 2 ^ 64"
    and s: "sc_capCols (df_schema df) < 2 ^ 64" "nrows df < 2 ^ 64" and k: "df_key df = Key_lit cs h" "cstr_ok cs"
    and base: "\<And>i. i < length ts \<Longrightarrow> length (base i) \<le> L"
  shows "\<exists>bs df'. writes (DataFrame_serialize df) bs \<and> (\<forall>k0. reads (DataFrame_deserialize (DataFrame_new k0)) bs df') \<and>
    frame_repr args base v ts vss df' \<and> nrows df' = nrows df \<and> df_key df' = df_key df \<and>
    sc_capCols (df_schema df') = sc_capCols (df_schema df) \<and>
    length bs \<le> length ts * ((n + 1) * (L + 80) + 1) + 2 * length cs + 66"
proof -
  obtain cols where F: "Schema_repr (df_schema df) ts" "0 < sc_capCols (df_schema df)" "length vss = length ts"
    "Array_repr (df_columns df) cols" "length cols = length ts"
    "\<And>i. i < length ts \<Longrightarrow> column_holds (ts ! i) args (base i) i v (vss ! i) (cols ! i)"
    using f by (rule frame_reprE) blast
  have "\<exists>p. writes (Column_serialize (cols ! i)) (fst p) \<and>
      reads read_column (fst p) (snd p) \<and>
      column_holds (ts ! i) args (base i) i v (vss ! i) (snd p) \<and> length (fst p) \<le> (n + 1) * (L + 80)" if i: "i < length ts" for i
  proof -
    have "length (vss ! i) < 2 ^ 64" using n i by (meson le_less_trans)
    then obtain bs c' where b: "writes (Column_serialize (cols ! i)) bs" "reads read_column bs c'"
      "column_holds (ts ! i) args (base i) i v (vss ! i) c'" "length bs \<le> (length (vss ! i) + 1) * (length (base i) + 80)"
      using column_travels [OF F(6) [OF i]] by blast
    have "(length (vss ! i) + 1) * (length (base i) + 80) \<le> (n + 1) * (L + 80)"
      using n(1) [OF i] base [OF i] by (intro mult_le_mono) simp_all
    then show ?thesis using b by (intro exI [of _ "(bs, c')"]) simp
  qed
  then obtain ps where ps: "length ps = length ts" "\<And>i. i < length ts \<Longrightarrow> writes (Column_serialize (cols ! i)) (fst (ps ! i)) \<and>
      reads read_column (fst (ps ! i)) (snd (ps ! i)) \<and>
      column_holds (ts ! i) args (base i) i v (vss ! i) (snd (ps ! i)) \<and> length (fst (ps ! i)) \<le> (n + 1) * (L + 80)"
    using Skolem_list_nth [of "length ts" "\<lambda>i p. writes (Column_serialize (cols ! i)) (fst p) \<and>
      reads read_column (fst p) (snd p) \<and>
      column_holds (ts ! i) args (base i) i v (vss ! i) (snd p) \<and> length (fst p) \<le> (n + 1) * (L + 80)"] by blast
  let ?bss = "map fst ps" and ?cols = "map snd ps" and ?k = "enc_Key (Key_lit cs h)"
  let ?n = "enc_u64 (of_nat (length ts))"
  let ?cb = "concat ?bss"
  have l: "length ts \<le> sc_capCols (df_schema df)" using F(1) by (rule Schema_repr_le)
  have ko: "Key_ok (Key_lit cs h)" using k(2) by simp
  have len: "arr_len (df_columns df) = length ts" using Array_repr_len [OF F(4)] F(5) by simp
  have t: "list_all2 (\<lambda>t c. typeToChar t = Inr c) ts (map type_char ts)"
    using frame_no_Field [OF f] typeToChar_type_char by (auto simp: list_all2_conv_all_nth in_set_conv_nth)
  let ?sb = "enc_u64 (of_nat (sc_capCols (df_schema df))) @ enc_u64 (of_nat (length ts)) @ enc_u64 (of_nat (nrows df)) @ map type_char ts"
  have nr: "nrows df = sc_numRows (df_schema df)" by (simp add: nrows_def Schema_length_def)
  have wc: "writes (res_fold (\<lambda>i s. res_bind (Array_get i (df_columns df)) (\<lambda>c. Column_serialize c s)) [0..<length ts]) ?cb"
  proof -
    have "writes (res_fold (\<lambda>i s. res_bind (Array_get i (df_columns df)) (\<lambda>c. Column_serialize c s)) [0..<length ts])
        (concat (map (\<lambda>i. fst (ps ! i)) [0..<length ts]))"
      by (rule writes_fold) (use ps(2) F(5) in \<open>simp add: Array_get_repr [OF F(4)]\<close>)
    moreover have "map (\<lambda>i. fst (ps ! i)) [0..<length ts] = ?bss" using ps(1) by (intro nth_equalityI) simp_all
    ultimately show ?thesis by simp
  qed
  have "writes (ColumnArray_serialize (df_key df) (df_columns df)) (?n @ ?cb @ ?k)"
    unfolding ColumnArray_serialize_def [abs_def] len k(1)
    by (intro writes_bind writes_prims wc Key_codec.ser_writes ko)
  from writes_bind [OF this writes_bind [OF Schema_writes [OF F(1) t] Key_codec.ser_writes [OF ko]]]
  have w: "writes (DataFrame_serialize df) ((?n @ ?cb @ ?k) @ ?sb @ ?k)"
    unfolding DataFrame_serialize_def [abs_def] k(1) nr .
  obtain ca where ca: "reads (ColumnArray_read (length ts) (Array_clear ColumnArray_new)) ?cb ca" "Array_repr ca ?cols"
    using ColumnArray_read_reads [OF _ Array_repr_clear, of ?cols ?bss ColumnArray_new] ps by (auto simp: list_all2_conv_all_nth)
  obtain sc where sc: "reads Schema_deserialize ?sb sc" "Schema_repr sc ts" "sc_capCols sc = sc_capCols (df_schema df)" "sc_numRows sc = nrows df"
    using Schema_reads [OF t l s] by blast
  let ?df = "\<lparr>df_columns = ca, df_schema = sc, df_key = Key_lit cs h\<rparr>"
  have e: "DataFrame_deserialize (DataFrame_new k0) = (\<lambda>s. res_bind (readSizeT s) (\<lambda>(len, s).
      res_bind (ColumnArray_read (unat len) (Array_clear ColumnArray_new) s) (\<lambda>(ca, s).
      res_bind (Key_deserialize s) (\<lambda>(k, s).
      res_bind (Schema_deserialize s) (\<lambda>(sc, s).
      res_bind (Key_deserialize s) (\<lambda>(k, s). Inr (\<lparr>df_columns = ca, df_schema = sc, df_key = k\<rparr>, s)))))))" for k0
    by (intro ext) (simp add: DataFrame_deserialize_def ColumnArray_deserialize_def DataFrame_new_def res_bind_def split: sum.splits prod.splits)
  note kr = Key_codec.deser_reads [OF ko]
  have "reads (\<lambda>s. res_bind (Schema_deserialize s) (\<lambda>(sc, s). res_bind (Key_deserialize s) (\<lambda>(k, s).
      Inr (\<lparr>df_columns = ca, df_schema = sc, df_key = k\<rparr>, s)))) (?sb @ ?k) ?df"
    by (rule reads_mk2 [OF sc(1) kr]) simp
  then have "reads (\<lambda>s. res_bind (Key_deserialize s) (\<lambda>(k, s). res_bind (Schema_deserialize s) (\<lambda>(sc, s). res_bind (Key_deserialize s) (\<lambda>(k, s).
      Inr (\<lparr>df_columns = ca, df_schema = sc, df_key = k\<rparr>, s))))) (?k @ ?sb @ ?k) ?df"
    by - (rule reads_bind [OF kr], simp)
  then have "reads (\<lambda>s. res_bind (ColumnArray_read (length ts) (Array_clear ColumnArray_new) s) (\<lambda>(ca, s).
      res_bind (Key_deserialize s) (\<lambda>(k, s). res_bind (Schema_deserialize s) (\<lambda>(sc, s). res_bind (Key_deserialize s) (\<lambda>(k, s).
      Inr (\<lparr>df_columns = ca, df_schema = sc, df_key = k\<rparr>, s)))))) (?cb @ ?k @ ?sb @ ?k) ?df"
    by - (rule reads_bind [OF ca(1)], simp)
  then have "reads (\<lambda>s. res_bind (readSizeT s) (\<lambda>(len, s).
      res_bind (ColumnArray_read (unat len) (Array_clear ColumnArray_new) s) (\<lambda>(ca, s).
      res_bind (Key_deserialize s) (\<lambda>(k, s).
      res_bind (Schema_deserialize s) (\<lambda>(sc, s).
      res_bind (Key_deserialize s) (\<lambda>(k, s). Inr (\<lparr>df_columns = ca, df_schema = sc, df_key = k\<rparr>, s)))))))
      (?n @ ?cb @ ?k @ ?sb @ ?k) ?df"
    by - (rule reads_bind [OF reads_prims(1)], use l s in simp)
  then have "reads (DataFrame_deserialize (DataFrame_new k0)) ((?n @ ?cb @ ?k) @ ?sb @ ?k) ?df" for k0 by (simp add: e)
  moreover have "frame_repr args base v ts vss ?df"
    unfolding frame_repr_def using F(2,3) ca(2) sc(2,3) ps by (auto intro!: exI [of _ ?cols])
  moreover have "length ((?n @ ?cb @ ?k) @ ?sb @ ?k) \<le> length ts * ((n + 1) * (L + 80) + 1) + 2 * length cs + 66"
  proof -
    have "length (concat (map fst ps)) \<le> length ps * ((n + 1) * (L + 80))"
      by (rule length_concat_le) (metis in_set_conv_nth ps)
    then show ?thesis using ps(1) by (simp add: length_enc_Key algebra_simps)
  qed
  moreover have "nrows ?df = nrows df" "df_key ?df = df_key df" "sc_capCols (df_schema ?df) = sc_capCols (df_schema df)"
    using sc(3,4) k(1) by (simp_all add: nrows_def Schema_length_def)
  ultimately show ?thesis using w by blast
qed

section \<open>Frames in the store\<close>

text \<open>Under the key \<open>k\<close> are the bytes of a frame with these columns.\<close>

definition frame_stored ::
    "Args \<Rightarrow> (nat \<Rightarrow> char list) \<Rightarrow> DataType list \<Rightarrow> RowValue list list \<Rightarrow> nat \<Rightarrow> Key \<Rightarrow> (Key \<rightharpoonup> Value) \<Rightarrow> bool" where
  "frame_stored args base ts vss n k v \<longleftrightarrow> Key_ok k \<and> (\<exists>V df. v k = Some V \<and> getHelper k V = Inr df \<and>
     frame_repr args base v ts vss df \<and> nrows df = n \<and> df_key df = k)"

text \<open>The bytes of a frame with \<open>n\<close> rows whose base keys are at most \<open>L\<close> long.\<close>

definition frame_fits :: "DataType list \<Rightarrow> nat \<Rightarrow> nat \<Rightarrow> bool" where
  "frame_fits ts n L \<longleftrightarrow> length ts * ((n + 1) * (L + 80) + 1) + 2 * L + 66 < 2 ^ 64"

lemma getHelper_bytes:
  assumes "\<And>k0. reads (DataFrame_deserialize (DataFrame_new k0)) bs df" and "Key_ok k"
  shows "getHelper k (Value_lit bs) = Inr df"
  using reads_value [OF assms(1) [of k]] assms(2) by (auto simp: getHelper_def Value_lit_def)

lemma short_key: "length cs \<le> length ds \<Longrightarrow> Key_lit cs h \<noteq> block_key args ds i j"
  by (auto simp: block_key_def dest: arg_cong [of _ _ length])

context kv_client
begin

lemma addDFToStore_repr:
  assumes f: "frame_repr args base (val st) ts vss df" and st: "inv st"
    and k: "df_key df = Key_lit cs h" "cstr_ok cs" "homed (df_key df)"
    and base: "\<And>i. length cs \<le> length (base i)" "\<And>i. i < length ts \<Longrightarrow> length (base i) \<le> L" "length cs \<le> L"
    and n: "\<And>i. i < length ts \<Longrightarrow> length (vss ! i) \<le> n" "nrows df < 2 ^ 64" "sc_capCols (df_schema df) < 2 ^ 64"
    and fit: "frame_fits ts n L" "n < 2 ^ 64"
  shows "\<exists>st'. addDFToStore putv (df, st) = Inr (df, st') \<and> inv st' \<and> frame_repr args base (val st') ts vss df \<and>
    frame_stored args base ts vss (nrows df) (df_key df) (val st') \<and> (\<forall>key. key \<noteq> df_key df \<longrightarrow> val st' key = val st key)"
proof -
  have "\<exists>bs df'. writes (DataFrame_serialize df) bs \<and> (\<forall>k0. reads (DataFrame_deserialize (DataFrame_new k0)) bs df') \<and>
    frame_repr args base (val st) ts vss df' \<and> nrows df' = nrows df \<and> df_key df' = df_key df \<and>
    length bs \<le> length ts * ((n + 1) * (L + 80) + 1) + 2 * length cs + 66"
    using DataFrame_travels [OF f n(1) fit(2) n(3,2) k(1,2) base(2)] by blast
  then obtain bs df' where b: "writes (DataFrame_serialize df) bs" "\<And>k0. reads (DataFrame_deserialize (DataFrame_new k0)) bs df'"
    "frame_repr args base (val st) ts vss df'" "nrows df' = nrows df" "df_key df' = df_key df"
    "length bs \<le> length ts * ((n + 1) * (L + 80) + 1) + 2 * length cs + 66" by blast
  have z: "length bs < 2 ^ 64" using b(6) fit(1) base(3) by (simp add: frame_fits_def)
  have ko: "Key_ok (df_key df)" using k by simp
  obtain s where s: "DataFrame_serialize df Serializer_new = Inr s" "cells_load (sz_buffer s) 0 (sz_written s) = Inr bs"
    "sz_written s = length bs" using writes_value [OF b(1)] by blast
  obtain st' where st': "putv (df_key df) (Value_lit bs) st = Inr st'" "inv st'" "val st' = (val st)(df_key df \<mapsto> Value_lit bs)"
    using put_val [OF st ko k(3), of "Value_lit bs"] z by auto
  have e: "addDFToStore putv (df, st) = Inr (df, st')"
    using s(1,2) st'(1) Value_new_take [of "length bs" bs] unfolding s(3) by (simp add: addDFToStore_def s(3))
  have same: "val st' (block_key args (base i) i j) = val st (block_key args (base i) i j)" for i j
    using st'(3) short_key [OF base(1) [of i], of h args i j] k(1) by simp
  have r: "frame_repr args base (val st') ts vss df" "frame_repr args base (val st') ts vss df'"
    using frame_repr_frame [OF f same] frame_repr_frame [OF b(3) same] by blast+
  have "frame_stored args base ts vss (nrows df) (df_key df) (val st')"
    unfolding frame_stored_def using st'(3) ko getHelper_bytes [OF b(2) ko] r(2) b(4,5)
    by (intro conjI exI [of _ "Value_lit bs"] exI [of _ df']) simp_all
  with e st' r(1) show ?thesis by simp
qed

lemma waitAndGet_repr:
  assumes "frame_stored args base ts vss n k (val st)" and "inv st" and "homed k"
  shows "\<exists>df st'. waitAndGet getv k st = Inr (df, st') \<and> inv st' \<and> val st' = val st \<and>
    frame_repr args base (val st') ts vss df \<and> nrows df = n \<and> df_key df = k"
proof -
  obtain V df where V: "Key_ok k" "val st k = Some V" "getHelper k V = Inr df" "frame_repr args base (val st) ts vss df"
    "nrows df = n" "df_key df = k" using assms(1) by (auto simp: frame_stored_def)
  obtain st' where st': "getv k st = Inr (Some V, st')" "inv st'" "val st' = val st" using get_val [OF assms(2) V(1) assms(3) V(2)] by blast
  then show ?thesis using V by (intro exI [of _ df] exI [of _ st']) (simp add: waitAndGet_def)
qed

end

end
