(* ===== verification/FrameMap.thy ===== *)
theory FrameMap
  imports FrameTravel
begin

text \<open>
  Reading a frame with a \<open>Reader\<close>. The contract of a reader (\<open>row_reader\<close>) is what it makes of the
  index and the elements of a row; \<open>map\<close> then folds that over all rows in order, and \<open>local_map\<close>
  over the rows whose block is at home here. \<open>local_map\<close>, with its jumps over foreign blocks, is
  the loop over the filtered indices for every reader and every store, even where it fails.
\<close>

section \<open>local_map visits the rows of its own blocks\<close>

definition at_home :: "Args \<Rightarrow> u64 \<Rightarrow> nat \<Rightarrow> bool" where
  "at_home args storeId i \<longleftrightarrow> of_nat (i div blockSize args mod numNodes args) = storeId"

lemma filter_upt_skip:
  assumes "\<And>i. a \<le> i \<Longrightarrow> i < b \<Longrightarrow> \<not> P i" and that: "a \<le> b"
  shows "filter P [a..<n] = filter P [b..<n]"
proof (cases "b \<le> n")
  case True
  then have "[a..<n] = [a..<b] @ [b..<n]" using that by (metis le_add_diff_inverse upt_add_eq_append)
  moreover have "filter P [a..<b] = []" using assms by (simp add: filter_empty_conv)
  ultimately show ?thesis by simp
next
  case False
  then show ?thesis using assms by (simp add: filter_empty_conv)
qed

lemma block_div: "(b :: nat) dvd i \<Longrightarrow> 0 < b \<Longrightarrow> i \<le> j \<Longrightarrow> j < i + b \<Longrightarrow> j div b = i div b"
proof -
  assume "b dvd i" "0 < b" "i \<le> j" "j < i + b"
  then obtain k where "i = b * k" "j = b * k + (j - i)" "j - i < b" by (auto simp: dvd_def)
  then show ?thesis by (metis add.right_neutral div_less div_mult_self4 nonzero_mult_div_cancel_left less_nat_zero_code)
qed

lemma local_map_loop_filter:
  assumes "0 < blockSize args" and "0 < numNodes args" and "at_home args storeId rowIdx \<or> blockSize args dvd rowIdx"
  shows "local_map_loop args getv storeId rv len rowIdx rs =
    res_fold (map_row args getv rv) (filter (at_home args storeId) [rowIdx..<len]) rs"
  using assms
proof (induction args getv storeId rv len rowIdx rs rule: local_map_loop.induct)
  case (1 args getv storeId rv len rowIdx rs)
  note pos = "1.prems"(1,2)
  then have nz: "\<not> (blockSize args = 0 \<or> numNodes args = 0)" by simp
  show ?case
  proof (cases "rowIdx < len")
    case False
    then show ?thesis by (subst local_map_loop.simps) simp
  next
    case lt: True
    show ?thesis
    proof (cases "at_home args storeId rowIdx")
      case True
      have "at_home args storeId (rowIdx + 1) \<or> blockSize args dvd (rowIdx + 1)"
        using True by (auto simp: at_home_def div_Suc mod_eq_0_iff_dvd)
      then have "local_map_loop args getv storeId rv len (rowIdx + 1) =
          res_fold (map_row args getv rv) (filter (at_home args storeId) [rowIdx + 1..<len])"
        using "1.IH"(1) [OF lt nz True [unfolded at_home_def] pos] by (intro ext) blast
      then have "local_map_loop args getv storeId rv len rowIdx rs = res_bind (map_row args getv rv rowIdx rs)
          (res_fold (map_row args getv rv) (filter (at_home args storeId) [rowIdx + 1..<len]))"
        using lt pos True by (subst local_map_loop.simps) (simp add: at_home_def)
      then show ?thesis using lt True by (simp add: upt_conv_Cons)
    next
      case False
      then have d: "blockSize args dvd rowIdx" using "1.prems"(3) by blast
      have e: "rowIdx + (blockSize args - 1) + 1 = rowIdx + blockSize args" using pos by simp
      have "local_map_loop args getv storeId rv len (rowIdx + blockSize args) rs =
          res_fold (map_row args getv rv) (filter (at_home args storeId) [rowIdx + blockSize args..<len]) rs"
        using "1.IH"(2) [OF lt nz False [unfolded at_home_def] pos] d unfolding e by simp
      moreover have "filter (at_home args storeId) [rowIdx..<len] = filter (at_home args storeId) [rowIdx + blockSize args..<len]"
      proof (rule filter_upt_skip)
        fix j
        assume "rowIdx \<le> j" and "j < rowIdx + blockSize args"
        then have "j div blockSize args = rowIdx div blockSize args" by (rule block_div [OF d pos(1)])
        then show "\<not> at_home args storeId j" using False by (simp add: at_home_def)
      qed simp
      moreover have "local_map_loop args getv storeId rv len rowIdx rs =
          local_map_loop args getv storeId rv len (rowIdx + blockSize args) rs"
        by (subst local_map_loop.simps) (simp only: if_P [OF lt] if_not_P [OF nz] if_not_P [OF False [unfolded at_home_def]] e)
      ultimately show ?thesis by simp
    qed
  qed
qed



section \<open>The contract of a reader\<close>

locale row_reader =
  fixes rv :: "Row \<Rightarrow> 'r \<Rightarrow> 'r res" and ts :: "DataType list"
    and see :: "nat \<Rightarrow> RowValue list \<Rightarrow> 'r \<Rightarrow> 'r" and rd_ok :: "'r \<Rightarrow> bool"
  assumes visit_row: "rd_ok a \<Longrightarrow> Row_repr r ts (map Some x) \<Longrightarrow>
    rv r a = Inr (see (ro_rowIdx r) x a) \<and> rd_ok (see (ro_rowIdx r) x a)"

locale frame_reader = kv_client putv getv inv val homed + row_reader rv ts see rd_ok
  for putv :: "Key \<Rightarrow> Value \<Rightarrow> 's \<Rightarrow> 's res" and getv :: "Key \<Rightarrow> 's \<Rightarrow> (Value option \<times> 's) res"
    and inv :: "'s \<Rightarrow> bool" and val :: "'s \<Rightarrow> Key \<rightharpoonup> Value" and homed :: "Key \<Rightarrow> bool"
    and rv :: "Row \<Rightarrow> 'r \<Rightarrow> 'r res" and ts :: "DataType list"
    and see :: "nat \<Rightarrow> RowValue list \<Rightarrow> 'r \<Rightarrow> 'r" and rd_ok :: "'r \<Rightarrow> bool"
begin

lemma map_rows_repr:
  assumes "frame_repr args base (val st) ts vss df" and "inv st" and "homes homed args"
    and "\<And>i. i < length ts \<Longrightarrow> length (vss ! i) = n" and "set is \<subseteq> {0..<n}"
    and "Row_repr r ts vs" and "rd_ok a"
  shows "\<exists>r' df' st'. res_fold (map_row args getv rv) is (r, a, df, st) =
      Inr (r', fold (\<lambda>i. see i (row_at vss i)) is a, df', st') \<and>
    rd_ok (fold (\<lambda>i. see i (row_at vss i)) is a) \<and> inv st' \<and> val st' = val st \<and>
    frame_repr args base (val st') ts vss df' \<and> df_schema df' = df_schema df \<and> df_key df' = df_key df"
  using assms
proof (induction "is" arbitrary: r a df st vs)
  case Nil
  then show ?case by simp
next
  case (Cons i "is")
  have row: "\<And>k. k < length ts \<Longrightarrow> i < length (vss ! k)" using Cons.prems(4,5) by auto
  obtain r1 df1 st1 where 1: "fill_row args getv i (r, df, st) = Inr (r1, df1, st1)" "Row_repr r1 ts (map Some (row_at vss i))"
    "ro_rowIdx r1 = i" "inv st1" "val st1 = val st" "frame_repr args base (val st1) ts vss df1" "df_schema df1 = df_schema df"
    "df_key df1 = df_key df" using fill_row_repr [OF Cons.prems(1) row Cons.prems(6,2,3)] by blast
  have v: "rv r1 a = Inr (see i (row_at vss i) a)" "rd_ok (see i (row_at vss i) a)"
    using visit_row [OF Cons.prems(7) 1(2)] 1(3) by simp_all
  have "set is \<subseteq> {0..<n}" using Cons.prems(5) by simp
  from Cons.IH [OF 1(6,4) Cons.prems(3,4) this Row_repr_clear [OF 1(2)] v(2)] show ?case
    using 1(1,5,7,8) v(1) by (simp add: map_row_def)
qed

text \<open>\<open>map\<close> over the whole frame.\<close>

lemma df_map_repr:
  assumes f: "frame_repr args base (val st) ts vss df" "nrows df = n" and s: "inv st" "homes homed args"
    and n: "\<And>i. i < length ts \<Longrightarrow> length (vss ! i) = n" and a: "rd_ok a"
  shows "\<exists>df' st'. df_map args getv rv (a, df, st) = Inr (fold (\<lambda>i. see i (row_at vss i)) [0..<n] a, df', st') \<and>
    inv st' \<and> val st' = val st \<and> frame_repr args base (val st') ts vss df' \<and> df_schema df' = df_schema df \<and> df_key df' = df_key df"
proof -
  have sc: "Schema_repr (df_schema df) ts" "Field \<notin> set ts" using f(1) frame_no_Field by (auto simp: frame_repr_def)
  obtain r where r: "Row_new (df_schema df) = Inr r" "Row_repr r ts (replicate (length ts) None)" using Row_repr_new [OF sc] by blast
  have "set [0..<n] \<subseteq> {0..<n}" by simp
  from map_rows_repr [OF f(1) s n this r(2) a] show ?thesis
    using r(1) f(2) by (auto simp: df_map_def map_range_def nrows_def Schema_length_def)
qed

text \<open>\<open>local_map\<close> over the rows at home.\<close>

lemma local_map_repr:
  assumes f: "frame_repr args base (val st) ts vss df" "nrows df = n" and s: "inv st" "homes homed args"
    and n: "\<And>i. i < length ts \<Longrightarrow> length (vss ! i) = n" and a: "rd_ok a" and sz: "sizes_ok args"
  shows "\<exists>df' st'. local_map args getv storeId rv (a, df, st) =
      Inr (fold (\<lambda>i. see i (row_at vss i)) (filter (at_home args storeId) [0..<n]) a, df', st') \<and>
    inv st' \<and> val st' = val st \<and> frame_repr args base (val st') ts vss df' \<and> df_schema df' = df_schema df \<and> df_key df' = df_key df"
proof -
  have sc: "Schema_repr (df_schema df) ts" "Field \<notin> set ts" using f(1) frame_no_Field by (auto simp: frame_repr_def)
  obtain r where r: "Row_new (df_schema df) = Inr r" "Row_repr r ts (replicate (length ts) None)" using Row_repr_new [OF sc] by blast
  have p: "0 < blockSize args" "0 < numNodes args" using sz by (simp_all add: sizes_ok_def)
  have l: "local_map_loop args getv storeId rv n 0 (r, a, df, st) =
      res_fold (map_row args getv rv) (filter (at_home args storeId) [0..<n]) (r, a, df, st)"
    by (rule local_map_loop_filter [OF p]) simp
  have "set (filter (at_home args storeId) [0..<n]) \<subseteq> {0..<n}" by auto
  from map_rows_repr [OF f(1) s n this r(2) a] show ?thesis
    using r(1) f(2) l by (auto simp: local_map_def nrows_def Schema_length_def)
qed

end

end
