(* ===== verification/FrameArray.thy ===== *)
theory FrameArray
  imports FrameMap
begin

text \<open>
  Frames made from arrays: each \<open>add_array\<close> appends a column under the key of the frame with the
  number of the column, and adds the length of the array to the number of rows. \<open>fromArray\<close> stores
  a frame of one column. The cell getters return the elements of the arrays.
\<close>

section \<open>The keys of array columns\<close>

definition arr_base :: "char list \<Rightarrow> nat \<Rightarrow> char list" where
  "arr_base cs i = cs @ ''-'' @ to_string i"

lemma arr_base_longer: "length cs \<le> length (arr_base cs i)"
  by (simp add: arr_base_def)

lemma arr_base_keys: "block_key args (arr_base cs i) i c = block_key args (arr_base cs j) j d \<Longrightarrow> i = j"
proof -
  assume "block_key args (arr_base cs i) i c = block_key args (arr_base cs j) j d"
  then have "to_string i @ CHR ''-'' # to_string i @ CHR ''-'' # to_string c = to_string j @ CHR ''-'' # to_string j @ CHR ''-'' # to_string d"
    by (simp add: block_key_def arr_base_def)
  then show "i = j" by (simp add: split_dash to_string_no_dash)
qed

context typed_column
begin

section \<open>Appending a column\<close>

lemma add_array_repr:
  assumes f: "frame_repr args (arr_base cs) (val st) ts vss df" and k: "df_key df = Key_lit cs h" "cstr_ok cs"
    and base: "base_ok (arr_base cs (length ts)) (length ts)" and a: "sizes_ok args" and s: "inv st" "homes homed args"
    and ys: "list_all (value_of_type t) ys" "16 + sum_list (map value_size ys) < 2 ^ 64" "length ys < 2 ^ 64"
  shows "\<exists>df' st'. DataFrame_add_array (type_char t)
        (ColumnArray_add_fromarray t (Column_add_values t clone (Block_serialize ser) args putv)) (length ys) (map prj ys) (df, st) = Inr (df', st') \<and>
    inv st' \<and> frame_repr args (arr_base cs) (val st') (ts @ [t]) (vss @ [ys]) df' \<and> nrows df' = nrows df + length ys \<and>
    df_key df' = df_key df \<and>
    sc_capCols (df_schema df') = (if length ts < sc_capCols (df_schema df) then sc_capCols (df_schema df) else 2 * sc_capCols (df_schema df)) \<and>
    (\<forall>key. (\<forall>i. key \<noteq> block_key args (arr_base cs (length ts)) (length ts) i) \<longrightarrow> val st' key = val st key)"
proof -
  obtain cols where F: "Schema_repr (df_schema df) ts" "0 < sc_capCols (df_schema df)" "length vss = length ts"
    "Array_repr (df_columns df) cols" "length cols = length ts"
    "\<And>i. i < length ts \<Longrightarrow> column_holds (ts ! i) args (arr_base cs i) i (val st) (vss ! i) (cols ! i)"
    using f by (rule frame_reprE) blast
  have p: "0 < numNodes args" "0 < blockSize args" "blockSize args < 2 ^ 64" using a by (simp_all add: sizes_ok_def)
  have len: "arr_len (df_columns df) = length ts" using Array_repr_len [OF F(4)] F(5) by simp
  have "length (concat (map enc (map prj ys))) = sum_list (map value_size ys)"
    using ys(1) enc_size by (simp add: length_concat comp_def list_all_iff cong: map_cong)
  then have e: "16 + length (concat (map enc (map prj ys))) < 2 ^ 64" using ys(2) by simp
  have o: "list_all ok (map prj ys)" using ys(1) ok_prj by (simp add: list_all_iff)
  obtain c c' st' where c: "Column_new (Key_lit (arr_base cs (length ts)) h) t = Inr c"
    "Column_add_values t clone (Block_serialize ser) args putv (length ys) (map prj ys) (length ts) (c, st) = Inr (c', st')"
    "inv st'" "co_size c' = length ys"
    "Column_repr ok enc mk t args (arr_base cs (length ts)) (length ts) (val st') (chunks (blockSize args) (map prj ys)) c'"
    "\<forall>k. (\<forall>i. k \<noteq> block_key args (arr_base cs (length ts)) (length ts) i) \<longrightarrow> val st' k = val st k"
    using new_append [OF base p s o e, of h] ys(3) by auto
  obtain ca' where ca': "Array_add c' (df_columns df) = Inr ca'" "Array_repr ca' (cols @ [c'])" using Array_add_repr [OF F(4)] by blast
  obtain sc where sc: "Schema_add_column t (df_schema df) = Inr sc" "Schema_repr sc (ts @ [t])" "sc_numRows sc = sc_numRows (df_schema df)"
    "sc_capCols sc = (if length ts < sc_capCols (df_schema df) then sc_capCols (df_schema df) else 2 * sc_capCols (df_schema df))"
    using Schema_add_column_repr [OF F(1,2)] by blast
  let ?df = "df\<lparr>df_columns := ca', df_schema := Schema_add_rows (length ys) sc\<rparr>"
  have addk: "Key_addIndex (length ts) (Key_lit cs h) = Inr (Key_lit (arr_base cs (length ts)) h)"
    unfolding arr_base_def by (rule Key_addIndex_lit [OF k(2)])
  have tc: "charToType (type_char t) = Inr t" using charToType_typeToChar [OF typeToChar_type_char [OF no_Field]] .
  have run: "DataFrame_add_array (type_char t)
      (ColumnArray_add_fromarray t (Column_add_values t clone (Block_serialize ser) args putv)) (length ys) (map prj ys) (df, st) = Inr (?df, st')"
    using addk c(1,2) ca'(1) sc(1) tc k(1) len
    by (simp add: DataFrame_add_array_def ColumnArray_add_fromarray_def ColumnArray_length_def ColumnArray_add_column_def Schema_add_column_char_def)
  have new: "column_holds t args (arr_base cs (length ts)) (length ts) (val st') ys c'"
    unfolding holds_t using c(4,5) ys(1) by (simp add: typed_holds_def)
  have old: "column_holds (ts ! i) args (arr_base cs i) i (val st') (vss ! i) (cols ! i)" if i: "i < length ts" for i
  proof (rule column_holds_frame [OF F(6) [OF i]])
    fix j
    have "\<forall>d. block_key args (arr_base cs i) i j \<noteq> block_key args (arr_base cs (length ts)) (length ts) d"
      using i arr_base_keys [of args cs i j "length ts"] by auto
    then show "val st' (block_key args (arr_base cs i) i j) = val st (block_key args (arr_base cs i) i j)" using c(6) by blast
  qed
  have r: "frame_repr args (arr_base cs) (val st') (ts @ [t]) (vss @ [ys]) ?df"
    unfolding frame_repr_def using F(2,3,5) ca'(2) sc(2,4) new old
    by (auto simp: Schema_add_rows_def Schema_repr_def nth_append less_Suc_eq intro!: exI [of _ "cols @ [c']"])
  show ?thesis
    using run c(3,6) r sc(3,4) by (intro exI [of _ ?df] exI [of _ st']) (simp add: nrows_def Schema_length_def Schema_add_rows_def)
qed

section \<open>A frame of one column in the store\<close>

lemma fromArray_repr:
  assumes k: "cstr_ok cs" "length cs + 2 < 2 ^ 32" "homed (Key_lit cs h)" and a: "sizes_ok args" and s: "inv st" "homes homed args"
    and ys: "list_all (value_of_type t) ys" "16 + sum_list (map value_size ys) < 2 ^ 64"
    and fit: "frame_fits [t] (length ys) (length cs + 2)"
  shows "\<exists>df st'. fromArray putv (DataFrame_add_array (type_char t)
        (ColumnArray_add_fromarray t (Column_add_values t clone (Block_serialize ser) args putv)))
      (Key_lit cs h) (length ys) (map prj ys) st = Inr (df, st') \<and> inv st' \<and>
    frame_repr args (arr_base cs) (val st') [t] [ys] df \<and> df_key df = Key_lit cs h \<and> nrows df = length ys \<and>
    frame_stored args (arr_base cs) [t] [ys] (length ys) (Key_lit cs h) (val st') \<and>
    (\<forall>key. key \<noteq> Key_lit cs h \<longrightarrow> (\<forall>i. key \<noteq> block_key args (arr_base cs 0) 0 i) \<longrightarrow> val st' key = val st key)"
proof -
  have "length ys * 1 \<le> length ys * (82 + length cs)" by (rule mult_le_mono2) simp
  moreover have "3 * length cs + length ys * (82 + length cs) < 18446744073709551463" using fit by (simp add: frame_fits_def)
  ultimately have "length ys < 18446744073709551616" by linarith
  then have z: "length ys < 2 ^ 64" by simp
  have f0: "frame_repr args (arr_base cs) (val st) [] [] (DataFrame_new (Key_lit cs h))"
    by (auto simp: frame_repr_def DataFrame_new_def ColumnArray_new_def Array_default_def Schema_new_def Schema_repr_def)
  have n0: "nrows (DataFrame_new (Key_lit cs h)) = 0" "sc_capCols (df_schema (DataFrame_new (Key_lit cs h))) = 2"
    "df_key (DataFrame_new (Key_lit cs h)) = Key_lit cs h"
    by (simp_all add: DataFrame_new_def nrows_def Schema_length_def Schema_new_def)
  have l0: "length (arr_base cs 0) = length cs + 2" unfolding arr_base_def by (subst to_string.simps) simp
  have b: "base_ok (arr_base cs (length [])) (length [])"
    using k(1,2) l0 to_string_no_nul [of 0] by (auto simp: base_ok_def cstr_ok_def arr_base_def)
  obtain df st1 where 1: "DataFrame_add_array (type_char t)
      (ColumnArray_add_fromarray t (Column_add_values t clone (Block_serialize ser) args putv)) (length ys) (map prj ys)
      (DataFrame_new (Key_lit cs h), st) = Inr (df, st1)" "inv st1" "frame_repr args (arr_base cs) (val st1) [t] [ys] df"
    "nrows df = length ys" "df_key df = Key_lit cs h" "sc_capCols (df_schema df) = 2"
    "\<forall>key. (\<forall>i. key \<noteq> block_key args (arr_base cs 0) 0 i) \<longrightarrow> val st1 key = val st key"
    using add_array_repr [OF f0 n0(3) k(1) b a s ys z] n0 by auto
  have kk: "homed (df_key df)" using 1(5) k(3) by simp
  obtain st' where 2: "addDFToStore putv (df, st1) = Inr (df, st')" "inv st'" "frame_repr args (arr_base cs) (val st') [t] [ys] df"
    "frame_stored args (arr_base cs) [t] [ys] (nrows df) (df_key df) (val st')" "\<forall>key. key \<noteq> df_key df \<longrightarrow> val st' key = val st1 key"
    using addDFToStore_repr [OF 1(3,2,5) k(1) kk arr_base_longer _ _ _ _ _ fit z] l0 z 1(4,6) by auto
  have "fromArray putv (DataFrame_add_array (type_char t)
        (ColumnArray_add_fromarray t (Column_add_values t clone (Block_serialize ser) args putv)))
      (Key_lit cs h) (length ys) (map prj ys) st = Inr (df, st')"
    using 1(1) 2(1) Key_clone_ok [of "Key_lit cs h"] k(1) by (simp add: fromArray_def)
  then show ?thesis using 1(4,5,7) 2(2-5) by (intro exI [of _ df] exI [of _ st']) simp
qed

text \<open>A cell of a frame.\<close>

lemma frame_cell:
  assumes f: "frame_repr args base (val st) ts vss df" and i: "col < length ts" "ts ! col = t" "row < length (vss ! col)"
    and s: "inv st" "homes homed args"
  shows "\<exists>df' st'. df_get (ColumnArray_at col (Column_read t w cast mk onNull deser clone getv args row col)) (df, st) =
      Inr (prj (vss ! col ! row), df', st') \<and> inv st' \<and> val st' = val st \<and>
    frame_repr args base (val st') ts vss df' \<and> df_schema df' = df_schema df \<and> df_key df' = df_key df"
proof -
  obtain cols where F: "Schema_repr (df_schema df) ts" "0 < sc_capCols (df_schema df)" "length vss = length ts"
    "Array_repr (df_columns df) cols" "length cols = length ts"
    "\<And>i. i < length ts \<Longrightarrow> column_holds (ts ! i) args (base i) i (val st) (vss ! i) (cols ! i)"
    using f by (rule frame_reprE) blast
  have c: "col < length cols" using i F(5) by simp
  have h: "typed_holds ok enc mk prj t args (base col) col (val st) (vss ! col) (cols ! col)"
    using F(6) [OF i(1)] i(2) holds_t by simp
  obtain ca' c' st' where r: "df_get (ColumnArray_at col (Column_read t w cast mk onNull deser clone getv args row col)) (df, st) =
      Inr (prj (vss ! col ! row), df\<lparr>df_columns := ca'\<rparr>, st')" "inv st'" "val st' = val st"
    "Array_repr ca' (cols[col := c'])" "typed_holds ok enc mk prj t args (base col) col (val st') (vss ! col) c'"
    using cell_repr [OF h F(4) c i(3) s] by blast
  have "frame_repr args base (val st') ts vss (df\<lparr>df_columns := ca'\<rparr>)"
    unfolding frame_repr_def using F r(3-5) i(1,2) c holds_t
    by (auto simp: nth_list_update intro!: exI [of _ "cols[col := c']"])
  with r show ?thesis by (intro exI [of _ "df\<lparr>df_columns := ca'\<rparr>"] exI [of _ st']) simp
qed

end

end
