(* ===== verification/FrameStore.thy ===== *)
theory FrameStore
  imports FrameArray
begin

text \<open>
  The two ends of a frame that travels through a store: \<open>fromVisitor\<close> builds it from a writer and
  puts it there, \<open>waitAndGet\<close> fetches it and \<open>map\<close> or \<open>local_map\<close> reads it.
\<close>

context frame_writer
begin

lemma fromVisitor_repr:
  assumes ts: "ts \<noteq> []" "Field \<notin> set ts" and k: "cstr_ok cs" "length cs < 2 ^ 32" "length ts < 2 ^ 64" "homed (Key_lit cs h)"
    and a: "sizes_ok args" and s: "inv st" "homes homed args" and w: "todo w rows"
    and fit: "rows_fit ts rows" "frame_fits ts (length rows) (length cs)"
  shows "\<exists>df w' st'. fromVisitor args putv (Key_lit cs h) (map type_char ts @ [NUL]) wr (w, st) = Inr (df, w', st') \<and> inv st' \<and>
    frame_repr args (\<lambda>_. cs) (val st') ts (cols_of ts rows) df \<and> nrows df = length rows \<and>
    frame_stored args (\<lambda>_. cs) ts (cols_of ts rows) (length rows) (Key_lit cs h) (val st') \<and>
    (\<forall>key. key \<noteq> Key_lit cs h \<longrightarrow> (\<forall>k i. key \<noteq> block_key args cs k i) \<longrightarrow> val st' key = val st key)"
proof -
  have b: "base_ok cs (length ts)" using k by (auto simp: base_ok_def cstr_ok_def)
  obtain df0 where d: "DataFrame_of_types (map type_char ts @ [NUL]) (Key_lit cs h) = Inr df0"
    "frame_repr args (\<lambda>_. cs) (val st) ts (cols_of ts []) df0" "nrows df0 = 0" "df_key df0 = Key_lit cs h"
    "sc_capCols (df_schema df0) = length ts"
    using DataFrame_of_types_repr [OF ts b a, of h "val st"] by blast
  have bs: "0 < blockSize args" using a by (simp add: sizes_ok_def)
  obtain w' df st1 where v: "visit args putv wr (w, df0, st) = Inr (w', df, st1)" "inv st1"
    "frame_repr args (\<lambda>_. cs) (val st1) ts (cols_of ts rows) df" "nrows df = length rows" "df_key df = Key_lit cs h"
    "sc_capCols (df_schema df) = length ts" "\<forall>key. (\<forall>k i. key \<noteq> block_key args cs k i) \<longrightarrow> val st1 key = val st key"
    using visit_repr [OF d(2,3) s bs w fit(1) ts(2)] d(4,5) by auto
  have kk: "homed (df_key df)" using v(5) k(4) by simp
  have n: "nrows df < 2 ^ 64" "length rows < 2 ^ 64" "sc_capCols (df_schema df) < 2 ^ 64"
    using v(4,6) k(3) fit(1) by (simp_all add: rows_fit_def)
  have l: "length (cols_of ts rows ! i) \<le> length rows" if "i < length ts" for i using that by simp
  obtain st' where st': "addDFToStore putv (df, st1) = Inr (df, st')" "inv st'" "frame_repr args (\<lambda>_. cs) (val st') ts (cols_of ts rows) df"
    "frame_stored args (\<lambda>_. cs) ts (cols_of ts rows) (nrows df) (df_key df) (val st')" "\<forall>key. key \<noteq> df_key df \<longrightarrow> val st' key = val st1 key"
    using addDFToStore_repr [OF v(3,2,5) k(1) kk order.refl order.refl order.refl l n(1,3) fit(2) n(2)] by blast
  have "fromVisitor args putv (Key_lit cs h) (map type_char ts @ [NUL]) wr (w, st) = Inr (df, w', st')"
    using d(1) v(1) st'(1) Key_clone_ok [of "Key_lit cs h"] k(1) by (simp add: fromVisitor_def)
  then show ?thesis using v(4,5,7) st'(2-5) by (intro exI [of _ df] exI [of _ w'] exI [of _ st']) simp
qed

end

context frame_reader
begin

lemma read_stored:
  assumes f: "frame_stored args base ts vss n k (val st)" and s: "inv st" "homes homed args" "homed k"
    and n: "\<And>i. i < length ts \<Longrightarrow> length (vss ! i) = n" and a: "rd_ok a"
  shows "\<exists>df st1 df' st2. waitAndGet getv k st = Inr (df, st1) \<and> nrows df = n \<and>
    df_map args getv rv (a, df, st1) = Inr (fold (\<lambda>i. see i (row_at vss i)) [0..<n] a, df', st2) \<and> inv st2 \<and> val st2 = val st"
proof -
  obtain df st1 where w: "waitAndGet getv k st = Inr (df, st1)" "inv st1" "val st1 = val st"
    "frame_repr args base (val st1) ts vss df" "nrows df = n" using waitAndGet_repr [OF f s(1,3)] by blast
  from df_map_repr [OF w(4,5,2) s(2) n a] w show ?thesis by auto
qed

lemma read_local:
  assumes f: "frame_stored args base ts vss n k (val st)" and s: "inv st" "homes homed args" "homed k"
    and n: "\<And>i. i < length ts \<Longrightarrow> length (vss ! i) = n" and a: "rd_ok a" and sz: "sizes_ok args"
  shows "\<exists>df st1 df' st2. waitAndGet getv k st = Inr (df, st1) \<and> nrows df = n \<and>
    local_map args getv storeId rv (a, df, st1) =
      Inr (fold (\<lambda>i. see i (row_at vss i)) (filter (at_home args storeId) [0..<n]) a, df', st2) \<and> inv st2 \<and> val st2 = val st"
proof -
  obtain df st1 where w: "waitAndGet getv k st = Inr (df, st1)" "inv st1" "val st1 = val st"
    "frame_repr args base (val st1) ts vss df" "nrows df = n" using waitAndGet_repr [OF f s(1,3)] by blast
  from local_map_repr [OF w(4,5,2) s(2) n a sz, of storeId] w show ?thesis by auto
qed

end

end
