(* ===== verification/TagSets.thy ===== *)
theory TagSets
  imports FrameStore
begin

text \<open>
  The bit sets of the Linus application (\<open>src/linus/set.h\<close>) and the readers and writers that move
  them through data frames: \<open>SetWriter\<close> writes the elements of a set as rows, \<open>SetUpdater\<close> adds
  the first column of a frame to a set, \<open>ProjectsTagger\<close> and \<open>UsersTagger\<close> mark what the rows of
  the commits lead to. The references to sets that these classes hold are part of their state, or
  a parameter where they are only read. They keep the contracts \<open>row_writer\<close> and \<open>row_reader\<close>.
\<close>

section \<open>Set\<close>

record Set =
  st_vals :: "bool cells"
  st_size :: nat
  st_setSize :: nat

definition Set_new :: "nat \<Rightarrow> Set res" where
  "Set_new sz =
     res_bind (res_fold (\<lambda>i c. cell_store c i False) [0..<sz] (new_cells sz)) (\<lambda>c.
     Inr \<lparr>st_vals = c, st_size = sz, st_setSize = 0\<rparr>)"

definition Set_of_frame :: "DataFrame \<Rightarrow> Set res" where
  "Set_of_frame df = Set_new (nrows df)"

definition Set_test :: "nat \<Rightarrow> Set \<Rightarrow> bool res" where
  "Set_test idx s = (if idx \<ge> st_size s then Inr True else cell_load (st_vals s) idx)"

definition Set_set :: "nat \<Rightarrow> Set \<Rightarrow> Set res" where
  "Set_set idx s =
     (if idx \<ge> st_size s then Inr s
      else
        res_bind (cell_load (st_vals s) idx) (\<lambda>b.
        if b then Inr s
        else
          res_bind (cell_store (st_vals s) idx True) (\<lambda>c.
          Inr (s\<lparr>st_vals := c, st_setSize := st_setSize s + 1\<rparr>))))"

definition Set_union :: "Set \<Rightarrow> Set \<Rightarrow> Set res" where
  "Set_union from' s =
     res_fold (\<lambda>i s. res_bind (Set_test i from') (\<lambda>b. if b then Set_set i s else Inr s)) [0..<st_size from'] s"

text \<open>An \<open>int\<close> passed as a \<open>size_t\<close>: a negative one becomes a huge index.\<close>

definition int_to_size_t :: "u32 \<Rightarrow> nat" where
  "int_to_size_t v = unat (scast v :: u64)"

section \<open>The readers and writers\<close>

text \<open>\<open>SetWriter\<close>: its state is the counter \<open>i_\<close>, an \<open>int\<close>.\<close>

definition int_max :: nat where
  "int_max = 2 ^ 31 - 1"

function SetWriter_skip :: "Set \<Rightarrow> nat \<Rightarrow> nat res" where
  "SetWriter_skip s i =
     (if i < st_size s then
        res_bind (Set_test i s) (\<lambda>b.
        if b then Inr i else if i = int_max then Inl Overflow else SetWriter_skip s (i + 1))
      else Inr i)"
  by pat_completeness auto
termination by (relation "measure (\<lambda>(s, i). st_size s - i)") auto

declare SetWriter_skip.simps [simp del]

definition SetWriter_done :: "Set \<Rightarrow> nat \<Rightarrow> (bool \<times> nat) res" where
  "SetWriter_done s i = res_bind (SetWriter_skip s i) (\<lambda>i. Inr (i = st_size s, i))"

definition SetWriter_visit :: "Row \<Rightarrow> nat \<Rightarrow> (Row \<times> nat) res" where
  "SetWriter_visit row i =
     (if i = int_max then Inl Overflow
      else res_bind (Row_set_int 0 (of_nat i) row) (\<lambda>row. Inr (row, i + 1)))"

definition SetWriter :: "Set \<Rightarrow> nat Writer" where
  "SetWriter s = \<lparr>wr_done = SetWriter_done s, wr_visit = SetWriter_visit\<rparr>"

definition SetUpdater_visit :: "Row \<Rightarrow> Set \<Rightarrow> Set res" where
  "SetUpdater_visit row s = res_bind (Row_get_int 0 row) (\<lambda>v. Set_set (int_to_size_t v) s)"

text \<open>\<open>ProjectsTagger\<close>: \<open>uSet\<close> is only read; the state is \<open>pSet\<close> and \<open>newProjects\<close>.\<close>

definition ProjectsTagger_visit :: "Set \<Rightarrow> Row \<Rightarrow> Set \<times> Set \<Rightarrow> (Set \<times> Set) res" where
  "ProjectsTagger_visit uSet row = (\<lambda>(pSet, newProjects).
     res_bind (Row_get_int 0 row) (\<lambda>pid.
     res_bind (Row_get_int 1 row) (\<lambda>uid.
     res_bind (Set_test (int_to_size_t uid) uSet) (\<lambda>u.
     if u then
       res_bind (Set_test (int_to_size_t pid) pSet) (\<lambda>p.
       if \<not> p then
         res_bind (Set_set (int_to_size_t pid) pSet) (\<lambda>pSet.
         res_bind (Set_set (int_to_size_t pid) newProjects) (\<lambda>newProjects. Inr (pSet, newProjects)))
       else Inr (pSet, newProjects))
     else Inr (pSet, newProjects)))))"

definition UsersTagger_visit :: "Set \<Rightarrow> Row \<Rightarrow> Set \<times> Set \<Rightarrow> (Set \<times> Set) res" where
  "UsersTagger_visit pSet row = (\<lambda>(uSet, newUsers).
     res_bind (Row_get_int 0 row) (\<lambda>pid.
     res_bind (Row_get_int 1 row) (\<lambda>uid.
     res_bind (Set_test (int_to_size_t pid) pSet) (\<lambda>p.
     if p then
       res_bind (Set_test (int_to_size_t uid) uSet) (\<lambda>u.
       if \<not> u then
         res_bind (Set_set (int_to_size_t uid) uSet) (\<lambda>uSet.
         res_bind (Set_set (int_to_size_t uid) newUsers) (\<lambda>newUsers. Inr (uSet, newUsers)))
       else Inr (uSet, newUsers))
     else Inr (uSet, newUsers)))))"

section \<open>A bit set is a set of indices\<close>

definition Set_repr :: "Set \<Rightarrow> nat \<Rightarrow> nat set \<Rightarrow> bool" where
  "Set_repr s n S \<longleftrightarrow> st_size s = n \<and> length (st_vals s) = n \<and> S \<subseteq> {..<n} \<and>
     (\<forall>i < n. st_vals s ! i = Some (i \<in> S)) \<and> st_setSize s = card S"

lemma Set_new_repr: "\<exists>s. Set_new n = Inr s \<and> Set_repr s n {}"
proof -
  let ?P = "\<lambda>k c. length c = n \<and> (\<forall>i < k. c ! i = Some False)"
  have "\<exists>c. res_fold (\<lambda>i c. cell_store c i False) [0..<n] (new_cells n) = Inr c \<and> ?P n c"
    by (rule res_fold_upt [where P = ?P]) (auto simp: cell_store_def nth_list_update less_Suc_eq)
  then show ?thesis by (auto simp: Set_new_def Set_repr_def)
qed

lemma Set_test_repr: "Set_repr s n S \<Longrightarrow> Set_test i s = Inr (i < n \<longrightarrow> i \<in> S)"
  by (auto simp: Set_test_def Set_repr_def cell_load_def)

lemma Set_set_repr:
  assumes r: "Set_repr s n S"
  shows "\<exists>s'. Set_set i s = Inr s' \<and> Set_repr s' n (S \<union> ({i} \<inter> {..<n}))"
proof (cases "i < n \<and> i \<notin> S")
  case True
  have "finite S" using r by (auto simp: Set_repr_def intro: finite_subset [of S "{..<n}"])
  then show ?thesis
    using r True by (auto simp: Set_set_def Set_repr_def cell_load_def cell_store_def nth_list_update)
next
  case False
  then have "S \<union> ({i} \<inter> {..<n}) = S" by auto
  then show ?thesis using r False by (auto simp: Set_set_def Set_repr_def cell_load_def)
qed

lemma Set_union_repr:
  assumes f: "Set_repr a m A" and s: "Set_repr s n S"
  shows "\<exists>s'. Set_union a s = Inr s' \<and> Set_repr s' n (S \<union> (A \<inter> {..<n}))"
proof -
  let ?P = "\<lambda>k s'. Set_repr s' n (S \<union> (A \<inter> {..<k} \<inter> {..<n}))"
  have "\<exists>s'. res_fold (\<lambda>i s. res_bind (Set_test i a) (\<lambda>b. if b then Set_set i s else Inr s)) [0..<m] s = Inr s' \<and> ?P m s'"
  proof (rule res_fold_upt [where P = ?P])
    show "?P 0 s" using s by simp
  next
    fix k s1
    assume k: "k < m" and p: "?P k s1"
    show "\<exists>t. res_bind (Set_test k a) (\<lambda>b. if b then Set_set k s1 else Inr s1) = Inr t \<and> ?P (Suc k) t"
    proof (cases "k \<in> A")
      case True
      then have "S \<union> A \<inter> {..<k} \<inter> {..<n} \<union> {k} \<inter> {..<n} = S \<union> A \<inter> {..<Suc k} \<inter> {..<n}" by (auto simp: less_Suc_eq)
      then show ?thesis using Set_set_repr [OF p, of k] Set_test_repr [OF f, of k] k True by simp
    next
      case False
      then have "A \<inter> {..<Suc k} = A \<inter> {..<k}" by (auto simp: less_Suc_eq)
      then show ?thesis using p Set_test_repr [OF f, of k] k False by simp
    qed
  qed simp
  moreover have "A \<inter> {..<m} = A" using f by (auto simp: Set_repr_def)
  ultimately show ?thesis using f by (simp add: Set_union_def Set_repr_def)
qed

lemma int_to_size_t_of_nat [simp]: "i \<le> int_max \<Longrightarrow> int_to_size_t (of_nat i) = i"
proof -
  assume i: "i \<le> int_max"
  then have "sint (of_nat i :: u32) = int i"
    by (simp add: sint_uint unat_of_nat uint_nat int_max_def signed_take_bit_int_eq_self take_bit_nat_eq_self_iff flip: of_nat_take_bit)
  then have "(scast (of_nat i :: u32) :: u64) = of_nat i" by (simp add: scast_eq)
  then show ?thesis using i by (simp add: int_to_size_t_def unat_of_nat int_max_def)
qed

section \<open>SetWriter writes the elements of a set\<close>

text \<open>The elements from \<open>i\<close> on, as rows of one \<open>int\<close>.\<close>

definition elems_from :: "nat \<Rightarrow> nat \<Rightarrow> nat set \<Rightarrow> RowValue list list" where
  "elems_from i n S = map (\<lambda>j. [IElem (of_nat j)]) (filter (\<lambda>j. j \<in> S) [i..<n])"

lemma elems_from_step:
  "i < n \<Longrightarrow> elems_from i n S = (if i \<in> S then [IElem (of_nat i)] # elems_from (i + 1) n S else elems_from (i + 1) n S)"
  by (simp add: elems_from_def upt_conv_Cons)

lemma elems_from_end [simp]: "n \<le> i \<Longrightarrow> elems_from i n S = []"
  by (simp add: elems_from_def)

lemma SetWriter_skip_repr:
  assumes "Set_repr s n S" and "n \<le> int_max" and "i \<le> n"
  shows "\<exists>j. SetWriter_skip s i = Inr j \<and> j \<le> n \<and> elems_from j n S = elems_from i n S \<and> (j < n \<longrightarrow> j \<in> S)"
  using assms
proof (induction s i rule: SetWriter_skip.induct)
  case (1 s i)
  have sz: "st_size s = n" using 1(2) by (simp add: Set_repr_def)
  show ?case
  proof (cases "i < n")
    case False
    then show ?thesis using 1(4) sz by (subst SetWriter_skip.simps) auto
  next
    case lt: True
    have t: "Set_test i s = Inr (i \<in> S)" using Set_test_repr [OF 1(2), of i] lt by simp
    show ?thesis
    proof (cases "i \<in> S")
      case True
      then show ?thesis using t lt sz by (subst SetWriter_skip.simps) auto
    next
      case False
      have nm: "i \<noteq> int_max" using lt 1(3) by simp
      have "SetWriter_skip s i = SetWriter_skip s (i + 1)" using t False lt sz nm by (subst SetWriter_skip.simps) simp
      moreover have "elems_from i n S = elems_from (i + 1) n S" using elems_from_step [OF lt] False by simp
      moreover have "\<exists>j. SetWriter_skip s (i + 1) = Inr j \<and> j \<le> n \<and> elems_from j n S = elems_from (i + 1) n S \<and> (j < n \<longrightarrow> j \<in> S)"
        using 1(1) [of False] nm 1(2,3) lt sz by simp
      ultimately show ?thesis by simp
    qed
  qed
qed

definition writer_todo :: "Set \<Rightarrow> nat \<Rightarrow> RowValue list list \<Rightarrow> bool" where
  "writer_todo s i rows \<longleftrightarrow> (\<exists>n S. Set_repr s n S \<and> n \<le> int_max \<and> i \<le> n \<and> rows = elems_from i n S)"

definition writer_ready :: "Set \<Rightarrow> nat \<Rightarrow> RowValue list list \<Rightarrow> bool" where
  "writer_ready s i rows \<longleftrightarrow> (\<exists>n S. Set_repr s n S \<and> n \<le> int_max \<and> i < n \<and> i \<in> S \<and> rows = elems_from i n S)"

interpretation set_writer: row_writer "SetWriter s" "[Integer]" "writer_todo s" "writer_ready s" for s
proof unfold_locales
  fix i rows
  assume "writer_todo s i rows"
  then obtain n S where s: "Set_repr s n S" "n \<le> int_max" "i \<le> n" "rows = elems_from i n S" by (auto simp: writer_todo_def)
  obtain j where j: "SetWriter_skip s i = Inr j" "j \<le> n" "elems_from j n S = rows" "j < n \<longrightarrow> j \<in> S"
    using SetWriter_skip_repr [OF s(1-3)] s(4) by auto
  have sz: "st_size s = n" using s(1) by (simp add: Set_repr_def)
  have "rows = [] \<longleftrightarrow> j = n" using j elems_from_step [of j n S] by (cases "j < n") auto
  moreover have "rows \<noteq> [] \<longrightarrow> writer_ready s j rows"
    unfolding writer_ready_def using j(2-4) s(1,2) elems_from_end [of n j S] by (metis leI)
  ultimately show "\<exists>i'. wr_done (SetWriter s) i = Inr (rows = [], i') \<and> (rows \<noteq> [] \<longrightarrow> writer_ready s i' rows)"
    using j(1) sz by (auto simp: SetWriter_def SetWriter_done_def)
next
  fix i row rows r
  assume "writer_ready s i (row # rows)" and r: "Row_repr r [Integer] (replicate (length [Integer]) None)"
  then obtain n S where s: "Set_repr s n S" "n \<le> int_max" "i < n" "i \<in> S" "row # rows = elems_from i n S" by (auto simp: writer_ready_def)
  then have e: "row = [IElem (of_nat i)]" "rows = elems_from (i + 1) n S" using elems_from_step [of i n S] by auto
  have "value_of_type Integer (IElem (of_nat i))" by simp
  from Row_set_value_repr [OF r this, of 0] obtain r' where "Row_set_int 0 (of_nat i) r = Inr r'" "Row_repr r' [Integer] [Some (IElem (of_nat i))]"
    by auto
  moreover have "writer_todo s (i + 1) rows"
    unfolding writer_todo_def using e s(1-3) by (intro exI [of _ n] exI [of _ S]) simp
  ultimately show "\<exists>r' i'. wr_visit (SetWriter s) r i = Inr (r', i') \<and> Row_repr r' [Integer] (map Some row) \<and> writer_todo s i' rows"
    using e s(2,3) by (auto simp: SetWriter_def SetWriter_visit_def)
qed

section \<open>The readers\<close>

text \<open>The result of a call that does not crash.\<close>

definition ok_of :: "'a res \<Rightarrow> 'a \<Rightarrow> 'a" where
  "ok_of m d = (case m of Inl _ \<Rightarrow> d | Inr x \<Rightarrow> x)"

lemma ok_of_Inr [simp]: "ok_of (Inr x) d = x"
  by (simp add: ok_of_def)

text \<open>Cell \<open>col\<close> of a row, read as an \<open>int\<close> and used as an index.\<close>

definition idx_at :: "nat \<Rightarrow> RowValue list \<Rightarrow> nat" where
  "idx_at col x = int_to_size_t (as_int (x ! col))"

lemma Row_get_idx:
  assumes "Row_repr r ts (map Some x)" and "col < length ts" and "ts ! col = Integer"
  shows "\<exists>v. Row_get_int col r = Inr v \<and> int_to_size_t v = idx_at col x"
proof -
  have "map Some x ! col = Some (x ! col)" using Row_reprD(4) [OF assms(1)] assms(2) by simp
  from row_getters(1) [OF assms(1,2) this assms(3)] show ?thesis by (simp add: idx_at_def)
qed

definition Set_ok :: "Set \<Rightarrow> bool" where
  "Set_ok s \<longleftrightarrow> (\<exists>n S. Set_repr s n S)"

lemma Set_okI: "Set_repr s n S \<Longrightarrow> Set_ok s"
  by (auto simp: Set_ok_def)

lemma Set_set_ok: "Set_ok s \<Longrightarrow> \<exists>s'. Set_set i s = Inr s' \<and> Set_ok s'"
  using Set_set_repr unfolding Set_ok_def by blast

lemma Set_test_ok: "Set_ok s \<Longrightarrow> \<exists>b. Set_test i s = Inr b"
  using Set_test_repr unfolding Set_ok_def by blast

definition updater_see :: "nat \<Rightarrow> RowValue list \<Rightarrow> Set \<Rightarrow> Set" where
  "updater_see i x s = ok_of (Set_set (idx_at 0 x) s) s"

lemma updater_see_repr: "Set_repr s n S \<Longrightarrow> Set_repr (updater_see i x s) n (S \<union> ({idx_at 0 x} \<inter> {..<n}))"
  using Set_set_repr [of s n S "idx_at 0 x"] by (auto simp: updater_see_def)

interpretation set_updater: row_reader SetUpdater_visit "Integer # ts" updater_see Set_ok for ts
proof unfold_locales
  fix s r x
  assume s: "Set_ok s" and r: "Row_repr r (Integer # ts) (map Some x)"
  obtain v where "Row_get_int 0 r = Inr v" "int_to_size_t v = idx_at 0 x" using Row_get_idx [OF r, of 0] by auto
  then show "SetUpdater_visit r s = Inr (updater_see (ro_rowIdx r) x s) \<and> Set_ok (updater_see (ro_rowIdx r) x s)"
    using Set_set_ok [OF s, of "idx_at 0 x"] by (auto simp: SetUpdater_visit_def updater_see_def)
qed

lemma updater_fold:
  "Set_repr s n S \<Longrightarrow> Set_repr (fold (\<lambda>i. updater_see i (f i)) is s) n (S \<union> ((\<lambda>i. idx_at 0 (f i)) ` set is \<inter> {..<n}))"
proof (induction "is" arbitrary: s S)
  case (Cons i "is")
  have e: "S \<union> ({idx_at 0 (f i)} \<inter> {..<n}) \<union> ((\<lambda>i. idx_at 0 (f i)) ` set is \<inter> {..<n}) =
      S \<union> ((\<lambda>i. idx_at 0 (f i)) ` set (i # is) \<inter> {..<n})" by auto
  from Cons.IH [OF updater_see_repr [OF Cons.prems, of i "f i"]] show ?case unfolding e by simp
qed simp

text \<open>
  Both taggers are one step: if \<open>test\<close> holds of the source of a row and the target is not marked,
  mark it in both sets.
\<close>

definition tag_see :: "nat \<Rightarrow> nat \<Rightarrow> Set \<Rightarrow> nat \<Rightarrow> RowValue list \<Rightarrow> Set \<times> Set \<Rightarrow> Set \<times> Set" where
  "tag_see sc tc src i x = (\<lambda>(known, new).
     if Set_test (idx_at sc x) src = Inr True \<and> Set_test (idx_at tc x) known = Inr False
     then (ok_of (Set_set (idx_at tc x) known) known, ok_of (Set_set (idx_at tc x) new) new) else (known, new))"

definition tag_ok :: "Set \<Rightarrow> Set \<times> Set \<Rightarrow> bool" where
  "tag_ok src = (\<lambda>(known, new). Set_ok src \<and> Set_ok known \<and> Set_ok new)"

lemma tag_ok_see: "tag_ok src st \<Longrightarrow> tag_ok src (tag_see sc tc src i x st)"
  using Set_set_ok [of "fst st" "idx_at tc x"] Set_set_ok [of "snd st" "idx_at tc x"]
  by (cases st) (auto simp: tag_ok_def tag_see_def)

interpretation projects_tagger: row_reader "ProjectsTagger_visit uSet" "Integer # Integer # ts" "tag_see 1 0 uSet" "tag_ok uSet" for uSet ts
proof unfold_locales
  fix st r x
  assume s: "tag_ok uSet st" and r: "Row_repr r (Integer # Integer # ts) (map Some x)"
  obtain p u where "Row_get_int 0 r = Inr p" "int_to_size_t p = idx_at 0 x" "Row_get_int 1 r = Inr u" "int_to_size_t u = idx_at 1 x"
    using Row_get_idx [OF r, of 0] Row_get_idx [OF r, of 1] by auto
  moreover have "Set_ok uSet" "Set_ok (fst st)" "Set_ok (snd st)" using s by (auto simp: tag_ok_def)
  ultimately show "ProjectsTagger_visit uSet r st = Inr (tag_see 1 0 uSet (ro_rowIdx r) x st) \<and> tag_ok uSet (tag_see 1 0 uSet (ro_rowIdx r) x st)"
    using Set_set_ok [of "fst st" "idx_at 0 x"] Set_set_ok [of "snd st" "idx_at 0 x"] tag_ok_see [OF s]
      Set_test_ok [of "fst st" "idx_at 0 x"] Set_test_ok [of uSet "idx_at 1 x"]
    by (cases st) (auto simp: ProjectsTagger_visit_def tag_see_def)
qed

interpretation users_tagger: row_reader "UsersTagger_visit pSet" "Integer # Integer # ts" "tag_see 0 1 pSet" "tag_ok pSet" for pSet ts
proof unfold_locales
  fix st r x
  assume s: "tag_ok pSet st" and r: "Row_repr r (Integer # Integer # ts) (map Some x)"
  obtain p u where "Row_get_int 0 r = Inr p" "int_to_size_t p = idx_at 0 x" "Row_get_int 1 r = Inr u" "int_to_size_t u = idx_at 1 x"
    using Row_get_idx [OF r, of 0] Row_get_idx [OF r, of 1] by auto
  moreover have "Set_ok pSet" "Set_ok (fst st)" "Set_ok (snd st)" using s by (auto simp: tag_ok_def)
  ultimately show "UsersTagger_visit pSet r st = Inr (tag_see 0 1 pSet (ro_rowIdx r) x st) \<and> tag_ok pSet (tag_see 0 1 pSet (ro_rowIdx r) x st)"
    using Set_set_ok [of "fst st" "idx_at 1 x"] Set_set_ok [of "snd st" "idx_at 1 x"] tag_ok_see [OF s]
      Set_test_ok [of "fst st" "idx_at 1 x"] Set_test_ok [of pSet "idx_at 0 x"]
    by (cases st) (auto simp: UsersTagger_visit_def tag_see_def)
qed

text \<open>The targets that the rows mark: a source out of range counts as marked.\<close>

definition marks :: "nat \<Rightarrow> nat \<Rightarrow> nat \<Rightarrow> nat set \<Rightarrow> RowValue list set \<Rightarrow> nat set" where
  "marks sc tc m A rows = {idx_at tc x |x. x \<in> rows \<and> (idx_at sc x < m \<longrightarrow> idx_at sc x \<in> A)}"

lemma tag_fold:
  assumes "Set_repr src m A"
  shows "Set_repr known n K \<Longrightarrow> Set_repr new n N \<Longrightarrow>
    \<exists>known' new'. fold (\<lambda>i. tag_see sc tc src i (f i)) is (known, new) = (known', new') \<and>
      Set_repr known' n (K \<union> (marks sc tc m A (f ` set is) \<inter> {..<n})) \<and>
      Set_repr new' n (N \<union> (marks sc tc m A (f ` set is) \<inter> {..<n} - K))"
proof (induction "is" arbitrary: known new K N)
  case Nil
  then show ?case by (simp add: marks_def)
next
  case (Cons i "is")
  let ?t = "idx_at tc (f i)" and ?s = "idx_at sc (f i)"
  show ?case
  proof (cases "(?s < m \<longrightarrow> ?s \<in> A) \<and> ?t < n \<and> ?t \<notin> K")
    case True
    obtain k1 w1 where 1: "Set_set ?t known = Inr k1" "Set_repr k1 n (K \<union> ({?t} \<inter> {..<n}))"
      "Set_set ?t new = Inr w1" "Set_repr w1 n (N \<union> ({?t} \<inter> {..<n}))"
      using Set_set_repr [OF Cons.prems(1), of ?t] Set_set_repr [OF Cons.prems(2), of ?t] by blast
    have step: "tag_see sc tc src i (f i) (known, new) = (k1, w1)"
      using True 1 Set_test_repr [OF assms, of ?s] Set_test_repr [OF Cons.prems(1), of ?t] by (simp add: tag_see_def)
    have e: "marks sc tc m A (f ` set (i # is)) = insert ?t (marks sc tc m A (f ` set is))"
      using True by (auto simp: marks_def)
    have e1: "K \<union> ({?t} \<inter> {..<n}) \<union> (marks sc tc m A (f ` set is) \<inter> {..<n}) = K \<union> (marks sc tc m A (f ` set (i # is)) \<inter> {..<n})"
      unfolding e using True by auto
    have e2: "N \<union> ({?t} \<inter> {..<n}) \<union> (marks sc tc m A (f ` set is) \<inter> {..<n} - (K \<union> ({?t} \<inter> {..<n}))) =
        N \<union> (marks sc tc m A (f ` set (i # is)) \<inter> {..<n} - K)"
      unfolding e using True by auto
    show ?thesis using Cons.IH [OF 1(2,4)] step unfolding e1 e2 by simp
  next
    case False
    have step: "tag_see sc tc src i (f i) (known, new) = (known, new)"
      using False Set_test_repr [OF assms, of ?s] Set_test_repr [OF Cons.prems(1), of ?t] by (auto simp: tag_see_def)
    have e1: "K \<union> (marks sc tc m A (f ` set (i # is)) \<inter> {..<n}) = K \<union> (marks sc tc m A (f ` set is) \<inter> {..<n})"
      and e2: "marks sc tc m A (f ` set (i # is)) \<inter> {..<n} - K = marks sc tc m A (f ` set is) \<inter> {..<n} - K"
      using False by (auto simp: marks_def)
    show ?thesis using Cons.IH [OF Cons.prems(1,2)] step unfolding e1 e2 by simp
  qed
qed

end
