(* ===== verification/FrameProps.thy ===== *)
theory FrameProps
  imports TagSets
begin

text \<open>
  The properties of data frames on a cluster: what one node writes with any writer is what every
  other node reads with any reader, the same for arrays and for single cells; a bit set travels as
  a frame; and what happens to the rows of a frame with two array columns.
\<close>

section \<open>The writers and readers of the program on a store\<close>

interpretation cluster_set_writer: frame_writer "cluster_put i" "cluster_get i" "cluster_inv n i" "cluster_val n" "\<lambda>k. home k < n"
  "SetWriter s" "[Integer]" "writer_todo s" "writer_ready s" for i n s
  by unfold_locales

interpretation cluster_set_updater: frame_reader "cluster_put i" "cluster_get i" "cluster_inv n i" "cluster_val n" "\<lambda>k. home k < n"
  SetUpdater_visit "Integer # ts" updater_see Set_ok for i n ts
  by unfold_locales

interpretation cluster_projects: frame_reader "cluster_put i" "cluster_get i" "cluster_inv n i" "cluster_val n" "\<lambda>k. home k < n"
  "ProjectsTagger_visit uSet" "Integer # Integer # ts" "tag_see 1 0 uSet" "tag_ok uSet" for i n uSet ts
  by unfold_locales

interpretation cluster_users: frame_reader "cluster_put i" "cluster_get i" "cluster_inv n i" "cluster_val n" "\<lambda>k. home k < n"
  "UsersTagger_visit pSet" "Integer # Integer # ts" "tag_see 0 1 pSet" "tag_ok pSet" for i n pSet ts
  by unfold_locales

lemma cluster_args:
  assumes "cluster_inv (numNodes args) i st" and "0 < blockSize args" and "blockSize args < 2 ^ 64"
  shows "sizes_ok args" and "homes (\<lambda>k. home k < numNodes args) args"
  using assms by (auto simp: sizes_ok_def cluster_inv_def intro: homes_cluster)

section \<open>Rows of any writer for any reader\<close>

lemma row_at_rows: "list_all (\<lambda>x. length x = length ts) rows \<Longrightarrow> i < length rows \<Longrightarrow> row_at (cols_of ts rows) i = rows ! i"
  by (simp add: row_at_cols_of list_all_length)

lemma fold_rows:
  "list_all (\<lambda>x. length x = length ts) rows \<Longrightarrow>
   fold (\<lambda>i. see i (row_at (cols_of ts rows) i)) [0..<length rows] a = fold (\<lambda>i. see i (rows ! i)) [0..<length rows] a"
  by (rule fold_cong) (simp_all add: row_at_rows)

text \<open>C1: A frame built from a writer by one node of a cluster is read row by row, in order, by every
  node. For any writer that still has \<open>rows\<close> to write and any reader, node \<open>i\<close> runs \<open>fromVisitor\<close>
  and returns, and then node \<open>j\<close> fetches the frame with \<open>waitAndGet\<close> and maps the reader over it:
  the reader sees exactly these rows with their indices, however they fall into blocks and
  wherever the blocks are stored.\<close>

theorem frame_written_read:
  assumes "cluster_inv (numNodes args) i st" and "j < numNodes args" and "0 < blockSize args" and "blockSize args < 2 ^ 64"
    and wr: "row_writer wr ts todo rdy" "todo w rows" and rd: "row_reader rv ts see rd_ok" "rd_ok a"
    and ts: "ts \<noteq> []" "Field \<notin> set ts" "length ts < 2 ^ 64" "list_all (\<lambda>x. length x = length ts) rows"
    and k: "cstr_ok cs" "length cs < 2 ^ 32" "unat h < numNodes args"
    and fit: "rows_fit ts rows" "frame_fits ts (length rows) (length cs)"
  shows "\<exists>df w' st1 df2 st2 df3 st3.
    fromVisitor args (cluster_put i) (Key_lit cs h) (map type_char ts @ [NUL]) wr (w, st) = Inr (df, w', st1) \<and>
    nrows df = length rows \<and> waitAndGet (cluster_get j) (Key_lit cs h) st1 = Inr (df2, st2) \<and> nrows df2 = length rows \<and>
    df_map args (cluster_get j) rv (a, df2, st2) = Inr (fold (\<lambda>r. see r (rows ! r)) [0..<length rows] a, df3, st3)"
proof -
  note A = cluster_args [OF assms(1,3,4)]
  have W: "frame_writer (cluster_put i) (cluster_get i) (cluster_inv (numNodes args) i) (cluster_val (numNodes args))
      (\<lambda>k. home k < numNodes args) wr ts todo rdy"
    by (intro frame_writer.intro cluster_kv.kv_client_axioms wr(1))
  have R: "frame_reader (cluster_put j) (cluster_get j) (cluster_inv (numNodes args) j) (cluster_val (numNodes args))
      (\<lambda>k. home k < numNodes args) rv ts see rd_ok"
    by (intro frame_reader.intro cluster_kv.kv_client_axioms rd(1))
  have hk: "home (Key_lit cs h) < numNodes args" using k(3) by (simp add: home_def)
  obtain df w' st1 where 1: "fromVisitor args (cluster_put i) (Key_lit cs h) (map type_char ts @ [NUL]) wr (w, st) = Inr (df, w', st1)"
    "cluster_inv (numNodes args) i st1" "nrows df = length rows"
    "frame_stored args (\<lambda>_. cs) ts (cols_of ts rows) (length rows) (Key_lit cs h) (cluster_val (numNodes args) st1)"
    using frame_writer.fromVisitor_repr [OF W ts(1,2) k(1,2) ts(3) hk A(1) assms(1) A(2) wr(2) fit] by blast
  have "cluster_inv (numNodes args) j st1" using cluster_inv_node [OF 1(2) assms(2)] .
  from frame_reader.read_stored [OF R 1(4) this A(2) hk _ rd(2)] show ?thesis
    unfolding fold_rows [OF ts(4)] using 1(1,3) by force
qed

lemma nth_image_all: "(!) xs ` {0..<length xs} = set xs"
  by (auto simp: set_conv_nth)

text \<open>A set of three indices with two elements, for the witnesses.\<close>

definition example_set :: Set where
  "example_set = \<lparr>st_vals = [Some True, Some False, Some True], st_size = 3, st_setSize = 2\<rparr>"

lemma example_set_repr: "Set_repr example_set 3 {0, 2}"
  by (auto simp: Set_repr_def example_set_def numeral_3_eq_3 less_Suc_eq)

lemma frame_written_read_witness:
  "\<exists>st df w' st1. Cluster_init 2 = Inr st \<and>
    fromVisitor (Args_default\<lparr>numNodes := 2, blockSize := 1\<rparr>) (cluster_put 0) (Key_lit ''users-1-0'' 0) (map type_char [Integer] @ [NUL])
      (SetWriter example_set) (0, st) = Inr (df, w', st1) \<and> nrows df = 2"
proof -
  let ?a = "Args_default\<lparr>numNodes := 2, blockSize := 1\<rparr>" and ?rows = "elems_from 0 3 {0, 2}"
  obtain st where st: "Cluster_init 2 = Inr st" "cluster_inv 2 0 st" using cluster_start [of 0 2] by auto
  have e: "?rows = [[IElem 0], [IElem 2]]" by (simp add: elems_from_def upt_rec)
  have c: "cluster_inv (numNodes ?a) 0 st" "1 < numNodes ?a" "0 < blockSize ?a" "blockSize ?a < 2 ^ 64" using st by simp_all
  have w: "writer_todo example_set 0 ?rows" 
    unfolding writer_todo_def using example_set_repr by (intro exI [of _ 3] exI [of _ "{0, 2}"]) (simp add: int_max_def)
  have f: "rows_fit [Integer] ?rows" "frame_fits [Integer] (length ?rows) (length ''users-1-0'')" "list_all (\<lambda>x. length x = length [Integer]) ?rows"
    by (simp_all add: e rows_fit_def frame_fits_def)
  have k: "cstr_ok ''users-1-0''" "length ''users-1-0'' < 2 ^ 32" "unat (0 :: u64) < numNodes ?a" by (simp_all add: cstr_ok_def)
  from frame_written_read [OF c set_writer.row_writer_axioms w set_updater.row_reader_axioms [of "[]"] Set_okI [OF example_set_repr]
      _ _ _ f(3) k f(1,2)]
  show ?thesis using st(1) e by force
qed

text \<open>The rows that a \<open>SetWriter\<close> writes.\<close>

lemma elems_rows:
  assumes r: "Set_repr s n S" and n: "n \<le> int_max" and l: "L < 2 ^ 32"
  shows "length (elems_from 0 n S) = card S" and "(\<lambda>i. idx_at 0 (elems_from 0 n S ! i)) ` {0..<length (elems_from 0 n S)} = S"
    and "list_all (\<lambda>x. length x = length [Integer]) (elems_from 0 n S)"
    and "rows_fit [Integer] (elems_from 0 n S)" and "frame_fits [Integer] (card S) L"
proof -
  let ?js = "filter (\<lambda>j. j \<in> S) [0..<n]"
  have S: "S \<subseteq> {..<n}" using r by (simp add: Set_repr_def)
  then have set: "set ?js = S" by auto
  then have js: "length ?js = card S" using distinct_card [of ?js] by simp
  then show len: "length (elems_from 0 n S) = card S" by (simp add: elems_from_def)
  have c: "card S \<le> int_max" using card_mono [OF _ S] n by simp
  have "idx_at 0 (elems_from 0 n S ! i) = ?js ! i" if i: "i < length ?js" for i
  proof -
    have "?js ! i \<in> S" using nth_mem [OF i] set by simp
    then have "?js ! i \<le> int_max" using S n by auto
    then show ?thesis using i by (simp add: elems_from_def idx_at_def)
  qed
  then have "(\<lambda>i. idx_at 0 (elems_from 0 n S ! i)) ` {0..<length ?js} = (!) ?js ` {0..<length ?js}" by (intro image_cong) auto
  also have "\<dots> = S" using set nth_image_all by metis
  finally show "(\<lambda>i. idx_at 0 (elems_from 0 n S ! i)) ` {0..<length (elems_from 0 n S)} = S" using js len by simp
  show "list_all (\<lambda>x. length x = length [Integer]) (elems_from 0 n S)" by (simp add: elems_from_def list_all_iff)
  have "sum_list (map (\<lambda>x. value_size (x ! 0)) (elems_from 0 n S)) = 4 * card S"
    using js by (simp add: elems_from_def comp_def sum_list_triv)
  then show "rows_fit [Integer] (elems_from 0 n S)" using c len by (simp add: rows_fit_def int_max_def)
  have "(card S + 1) * (L + 80) \<le> 2 ^ 31 * (2 ^ 32 + 80)" using c l by (intro mult_le_mono) (simp_all add: int_max_def)
  then show "frame_fits [Integer] (card S) L" using l by (simp add: frame_fits_def)
qed

text \<open>C3: A bit set travels as a data frame. One node writes the elements of a set with a
  \<open>SetWriter\<close> under a key, another node adds the frame found there to a set of its own with a
  \<open>SetUpdater\<close>: the result is the union, without the elements that are out of range there.\<close>

theorem set_travels:
  assumes "cluster_inv (numNodes args) i st" and "j < numNodes args" and "0 < blockSize args" and "blockSize args < 2 ^ 64"
    and "Set_repr s n S" and "n \<le> int_max" and "Set_repr s' n' S'"
    and "cstr_ok cs" and "length cs < 2 ^ 32" and "unat h < numNodes args"
  shows "\<exists>df w' st1 df2 st2 u df3 st3.
    fromVisitor args (cluster_put i) (Key_lit cs h) [CHR ''I'', NUL] (SetWriter s) (0, st) = Inr (df, w', st1) \<and>
    nrows df = card S \<and> waitAndGet (cluster_get j) (Key_lit cs h) st1 = Inr (df2, st2) \<and>
    df_map args (cluster_get j) SetUpdater_visit (s', df2, st2) = Inr (u, df3, st3) \<and> Set_repr u n' (S' \<union> (S \<inter> {..<n'}))"
proof -
  note A = cluster_args [OF assms(1,3,4)]
  note E = elems_rows [OF assms(5,6,9)]
  have hk: "home (Key_lit cs h) < numNodes args" using assms(10) by (simp add: home_def)
  have todo: "writer_todo s 0 (elems_from 0 n S)" using assms(5,6) by (auto simp: writer_todo_def)
  have ff: "frame_fits [Integer] (length (elems_from 0 n S)) (length cs)" using E(1,5) by simp
  obtain df w' st1 where 1: "fromVisitor args (cluster_put i) (Key_lit cs h) [CHR ''I'', NUL] (SetWriter s) (0, st) = Inr (df, w', st1)"
    "cluster_inv (numNodes args) i st1" "nrows df = card S"
    "frame_stored args (\<lambda>_. cs) [Integer] (cols_of [Integer] (elems_from 0 n S)) (length (elems_from 0 n S)) (Key_lit cs h) (cluster_val (numNodes args) st1)"
    using cluster_set_writer.fromVisitor_repr [OF _ _ assms(8,9) _ hk A(1) assms(1) A(2) todo E(4) ff] E(1) by auto
  have j: "cluster_inv (numNodes args) j st1" using cluster_inv_node [OF 1(2) assms(2)] .
  obtain df2 st2 df3 st3 where 2: "waitAndGet (cluster_get j) (Key_lit cs h) st1 = Inr (df2, st2)"
    "df_map args (cluster_get j) SetUpdater_visit (s', df2, st2) =
      Inr (fold (\<lambda>r. updater_see r (elems_from 0 n S ! r)) [0..<length (elems_from 0 n S)] s', df3, st3)"
    using cluster_set_updater.read_stored [OF 1(4) j A(2) hk _ Set_okI [OF assms(7)]] unfolding fold_rows [OF E(3)] by auto
  have "S' \<union> ((\<lambda>r. idx_at 0 (elems_from 0 n S ! r)) ` set [0..<length (elems_from 0 n S)] \<inter> {..<n'}) = S' \<union> (S \<inter> {..<n'})"
    using E(2) by simp
  with updater_fold [OF assms(7), of "\<lambda>r. elems_from 0 n S ! r" "[0..<length (elems_from 0 n S)]"] 1(1,3) 2
  show ?thesis by auto
qed

lemma set_travels_witness:
  "\<exists>st df w' st1 df2 st2 u df3 st3. Cluster_init 2 = Inr st \<and>
    fromVisitor (Args_default\<lparr>numNodes := 2, blockSize := 1\<rparr>) (cluster_put 0) (Key_lit ''users-1-0'' 0) [CHR ''I'', NUL]
      (SetWriter example_set) (0, st) = Inr (df, w', st1) \<and>
    waitAndGet (cluster_get 1) (Key_lit ''users-1-0'' 0) st1 = Inr (df2, st2) \<and>
    df_map (Args_default\<lparr>numNodes := 2, blockSize := 1\<rparr>) (cluster_get 1) SetUpdater_visit
      (\<lparr>st_vals = [Some False, Some True], st_size = 2, st_setSize = 1\<rparr>, df2, st2) = Inr (u, df3, st3) \<and> Set_repr u 2 {0, 1}"
proof -
  let ?a = "Args_default\<lparr>numNodes := 2, blockSize := 1\<rparr>" and ?t = "\<lparr>st_vals = [Some False, Some True], st_size = 2, st_setSize = 1\<rparr>"
  obtain st where st: "Cluster_init 2 = Inr st" "cluster_inv 2 0 st" using cluster_start [of 0 2] by auto
  have c: "cluster_inv (numNodes ?a) 0 st" "1 < numNodes ?a" "0 < blockSize ?a" "blockSize ?a < 2 ^ 64" using st by simp_all
  have t: "Set_repr ?t 2 {1}" by (auto simp: Set_repr_def numeral_2_eq_2 less_Suc_eq)
  have k: "cstr_ok ''users-1-0''" "length ''users-1-0'' < 2 ^ 32" "unat (0 :: u64) < numNodes ?a" by (simp_all add: cstr_ok_def)
  have "{1} \<union> ({0, 2} \<inter> {..<2}) = {0, 1 :: nat}" by auto
  with set_travels [OF c example_set_repr _ t k] st(1) show ?thesis by (auto simp: int_max_def)
qed

section \<open>Arrays\<close>

text \<open>C11: An array stored as a frame by one node is read by every other: \<open>fromArray\<close> of strings returns a
  frame with one row for each string, and on node \<open>j\<close> the frame that \<open>waitAndGet\<close> fetches returns
  each string at its row.\<close>

theorem array_stored:
  assumes "cluster_inv (numNodes args) i st" and "j < numNodes args" and "0 < blockSize args" and "blockSize args < 2 ^ 64"
    and "list_all String_wf vals" and "16 + sum_list (map (\<lambda>x. length (enc_String x)) vals) < 2 ^ 64"
    and "cstr_ok cs" and "length cs + 2 < 2 ^ 32" and "unat h < numNodes args"
    and "frame_fits [Str] (length vals) (length cs + 2)"
  shows "\<exists>df st1 df2 st2. fromArray_strings args (cluster_put i) (Key_lit cs h) (length vals) vals st = Inr (df, st1) \<and>
    nrows df = length vals \<and> waitAndGet (cluster_get j) (Key_lit cs h) st1 = Inr (df2, st2) \<and> nrows df2 = length vals \<and>
    (\<forall>r < length vals. \<exists>df3 st3. DataFrame_get_string args (cluster_get j) 0 r (df2, st2) = Inr (vals ! r, df3, st3))"
proof -
  note A = cluster_args [OF assms(1,3,4)]
  have hk: "home (Key_lit cs h) < numNodes args" using assms(9) by (simp add: home_def)
  have ys: "list_all (value_of_type Str) (map SElem vals)" "map as_string (map SElem vals) = vals"
    "16 + sum_list (map value_size (map SElem vals)) < 2 ^ 64" "frame_fits [Str] (length (map SElem vals)) (length cs + 2)"
    using assms(5,6,10) by (simp_all add: list_all_iff comp_def)
  obtain df st1 where 1: "fromArray_strings args (cluster_put i) (Key_lit cs h) (length vals) vals st = Inr (df, st1)"
    "cluster_inv (numNodes args) i st1" "nrows df = length vals"
    "frame_stored args (arr_base cs) [Str] [map SElem vals] (length vals) (Key_lit cs h) (cluster_val (numNodes args) st1)"
    using cluster_kv.strings.fromArray_repr [OF assms(7,8) hk A(1) assms(1) A(2) ys(1,3,4)] ys(2)
    by (auto simp: fromArray_strings_def DataFrame_add_strings_def ColumnArray_add_strings_def Column_adds)
  have j: "cluster_inv (numNodes args) j st1" using cluster_inv_node [OF 1(2) assms(2)] .
  obtain df2 st2 where 2: "waitAndGet (cluster_get j) (Key_lit cs h) st1 = Inr (df2, st2)" "cluster_inv (numNodes args) j st2"
    "frame_repr args (arr_base cs) (cluster_val (numNodes args) st2) [Str] [map SElem vals] df2" "nrows df2 = length vals"
    using cluster_kv.waitAndGet_repr [OF 1(4) j hk] by blast
  have "\<exists>df3 st3. DataFrame_get_string args (cluster_get j) 0 r (df2, st2) = Inr (vals ! r, df3, st3)" if r: "r < length vals" for r
    using cluster_kv.strings.frame_cell [OF 2(3) _ _ _ 2(2) A(2), of 0 r "Inl (Exit 1)"] r
    by (auto simp: DataFrame_get_string_def ColumnArray_get_string_def Column_gets)
  with 1(1,3) 2(1,4) show ?thesis by blast
qed

lemma array_stored_witness:
  "\<exists>st df st1 df2 st2 df3 st3. Cluster_init 2 = Inr st \<and>
    fromArray_strings (Args_default\<lparr>numNodes := 2, blockSize := 1\<rparr>) (cluster_put 0) (Key_lit ''main'' 1)
      (length [String_lit ''x'', String_lit ''y'']) [String_lit ''x'', String_lit ''y''] st = Inr (df, st1) \<and>
    waitAndGet (cluster_get 1) (Key_lit ''main'' 1) st1 = Inr (df2, st2) \<and>
    DataFrame_get_string (Args_default\<lparr>numNodes := 2, blockSize := 1\<rparr>) (cluster_get 1) 0 1 (df2, st2) = Inr (String_lit ''y'', df3, st3)"
proof -
  let ?a = "Args_default\<lparr>numNodes := 2, blockSize := 1\<rparr>" and ?v = "[String_lit ''x'', String_lit ''y'']"
  obtain st where st: "Cluster_init 2 = Inr st" "cluster_inv 2 0 st" using cluster_start [of 0 2] by auto
  have c: "cluster_inv (numNodes ?a) 0 st" "1 < numNodes ?a" "0 < blockSize ?a" "blockSize ?a < 2 ^ 64" using st by simp_all
  have v: "list_all String_wf ?v" "16 + sum_list (map (\<lambda>x. length (enc_String x)) ?v) < 2 ^ 64"
    by (simp_all add: cstr_ok_def enc_String_def enc_cstr_def)
  have k: "cstr_ok ''main''" "length ''main'' + 2 < 2 ^ 32" "unat (1 :: u64) < numNodes ?a" "frame_fits [Str] (length ?v) (length ''main'' + 2)"
    by (simp_all add: cstr_ok_def frame_fits_def)
  obtain df st1 df2 st2 where 1: "fromArray_strings ?a (cluster_put 0) (Key_lit ''main'' 1) (length ?v) ?v st = Inr (df, st1)"
    "waitAndGet (cluster_get 1) (Key_lit ''main'' 1) st1 = Inr (df2, st2)"
    "\<forall>r < length ?v. \<exists>df3 st3. DataFrame_get_string ?a (cluster_get 1) 0 r (df2, st2) = Inr (?v ! r, df3, st3)"
    using array_stored [OF c v k] by blast
  have "length ?v = 2" by simp
  then have "\<exists>df3 st3. DataFrame_get_string ?a (cluster_get 1) 0 1 (df2, st2) = Inr (String_lit ''y'', df3, st3)" using 1(3) by force
  with st(1) 1(1,2) show ?thesis by blast
qed

text \<open>C12: The number of rows of a frame made of two arrays is the sum of their lengths, not their common
  length: after \<open>add_array\<close> of two arrays of \<open>n\<close> integers to a new frame, every element is where
  it belongs, but \<open>nrows\<close> is \<open>2 * n\<close>, so a loop over the rows runs past the end of both columns.\<close>

theorem array_rows_add_up:
  assumes "cluster_inv (numNodes args) i st" and "0 < blockSize args" and "blockSize args < 2 ^ 64"
    and "length xs = n" and "length ys = n" and "n < 2 ^ 56" and "cstr_ok cs" and "length cs + 2 < 2 ^ 32"
  shows "\<exists>df1 st1 df2 st2. DataFrame_add_ints args (cluster_put i) n xs (DataFrame_new (Key_lit cs h), st) = Inr (df1, st1) \<and>
    DataFrame_add_ints args (cluster_put i) n ys (df1, st1) = Inr (df2, st2) \<and> nrows df1 = n \<and> ncols df2 = 2 \<and> nrows df2 = 2 * n \<and>
    (\<forall>r < n. \<exists>df3 st3 df4 st4. DataFrame_get_int args (cluster_get i) 0 r (df2, st2) = Inr (xs ! r, df3, st3) \<and>
      DataFrame_get_int args (cluster_get i) 1 r (df2, st2) = Inr (ys ! r, df4, st4))"
proof -
  note A = cluster_args [OF assms(1-3)]
  have ints: "list_all (value_of_type Integer) (map IElem zs)" "map as_int (map IElem zs) = zs"
    "sum_list (map value_size (map IElem zs)) = 4 * length zs" for zs :: "u32 list"
    by (simp_all add: list_all_iff comp_def sum_list_triv)
  have l: "length (arr_base cs k) \<le> length cs + 2" if "k < 2" for k
    using length_to_string [of k 0] that by (simp add: arr_base_def)
  have b: "base_ok (arr_base cs k) k" if "k < 2" for k
    using assms(7,8) l [OF that] that to_string_no_nul [of k] by (auto simp: base_ok_def cstr_ok_def arr_base_def)
  have f0: "frame_repr args (arr_base cs) (cluster_val (numNodes args) st) [] [] (DataFrame_new (Key_lit cs h))"
    by (auto simp: frame_repr_def DataFrame_new_def ColumnArray_new_def Array_default_def Schema_new_def Schema_repr_def)
  have n0: "nrows (DataFrame_new (Key_lit cs h)) = 0" "df_key (DataFrame_new (Key_lit cs h)) = Key_lit cs h"
    by (simp_all add: DataFrame_new_def nrows_def Schema_length_def Schema_new_def)
  have add: "DataFrame_add_ints args (cluster_put i) = DataFrame_add_array (type_char Integer)
      (ColumnArray_add_fromarray Integer (Column_add_values Integer Inr (Block_serialize write_int) args (cluster_put i)))"
    by (simp add: DataFrame_add_ints_def ColumnArray_add_ints_def Column_adds)
  obtain df1 st1 where 1: "DataFrame_add_ints args (cluster_put i) n xs (DataFrame_new (Key_lit cs h), st) = Inr (df1, st1)"
    "cluster_inv (numNodes args) i st1" "frame_repr args (arr_base cs) (cluster_val (numNodes args) st1) [Integer] [map IElem xs] df1"
    "nrows df1 = n" "df_key df1 = Key_lit cs h"
    using cluster_kv.ints.add_array_repr [OF f0 n0(2) assms(7) _ A(1) assms(1) A(2) ints(1) [of xs]] ints(2,3) [of xs]
      b [of 0] assms(4,6) n0 unfolding add by auto
  obtain df2 st2 where 2: "DataFrame_add_ints args (cluster_put i) n ys (df1, st1) = Inr (df2, st2)"
    "cluster_inv (numNodes args) i st2" "nrows df2 = 2 * n"
    "frame_repr args (arr_base cs) (cluster_val (numNodes args) st2) [Integer, Integer] [map IElem xs, map IElem ys] df2"
    using cluster_kv.ints.add_array_repr [OF 1(3,5) assms(7) _ A(1) 1(2) A(2) ints(1) [of ys]] ints(2,3) [of ys]
      b [of 1] assms(5,6) 1(4) unfolding add by auto
  have "ncols df2 = 2" using 2(4) by (simp add: frame_repr_def Schema_repr_def ncols_def Schema_width_def)
  moreover have "\<exists>df3 st3 df4 st4. DataFrame_get_int args (cluster_get i) 0 r (df2, st2) = Inr (xs ! r, df3, st3) \<and>
      DataFrame_get_int args (cluster_get i) 1 r (df2, st2) = Inr (ys ! r, df4, st4)" if r: "r < n" for r
    using cluster_kv.ints.frame_cell [OF 2(4) _ _ _ 2(2) A(2), of 0 r "Inr (-1)"]
      cluster_kv.ints.frame_cell [OF 2(4) _ _ _ 2(2) A(2), of 1 r "Inr (-1)"] r assms(4,5)
    by (auto simp: DataFrame_get_int_def ColumnArray_get_int_def Column_gets)
  ultimately show ?thesis using 1(1,4) 2(1,3) by blast
qed

lemma array_rows_add_up_witness:
  "\<exists>st df1 st1 df2 st2. Cluster_init 1 = Inr st \<and>
    DataFrame_add_ints (Args_default\<lparr>numNodes := 1\<rparr>) (cluster_put 0) 3 [1, 2, 3] (DataFrame_new (Key_lit ''df'' 0), st) = Inr (df1, st1) \<and>
    DataFrame_add_ints (Args_default\<lparr>numNodes := 1\<rparr>) (cluster_put 0) 3 [4, 5, 6] (df1, st1) = Inr (df2, st2) \<and> nrows df2 = 6"
proof -
  let ?a = "Args_default\<lparr>numNodes := 1\<rparr>"
  obtain st where st: "Cluster_init 1 = Inr st" "cluster_inv 1 0 st" using cluster_start [of 0 1] by auto
  have c: "cluster_inv (numNodes ?a) 0 st" "0 < blockSize ?a" "blockSize ?a < 2 ^ 64" using st by (simp_all add: Args_default_def)
  have "cstr_ok ''df''" "length ''df'' + 2 < 2 ^ 32" by (simp_all add: cstr_ok_def)
  from array_rows_add_up [OF c, of "[1, 2, 3]" 3 "[4, 5, 6]", OF _ _ _ this] st(1) show ?thesis by force
qed

end
