(* ===== verification/Sorer.thy ===== *)
theory Sorer
  imports FrameProps
begin

text \<open>
  The reader of \<open>.sor\<close> files: \<open>src/sorer/field_array.h\<close>, \<open>sorer_helper.h\<close>, \<open>sorer.h\<close>, \<open>sorwriter.h\<close>
  and \<open>fromFile\<close> of \<open>src/dataframe/datatodf.h\<close>.

  A file is mapped into memory: its bytes, and zeros up to the end of the last page that holds a
  byte of the file. An access behind that page is a crash. Indices are \<open>size_t\<close>; the field arrays
  keep them as \<open>int\<close>. The value of the text of a floating-point number is a parameter \<open>ldbl\<close>, as the
  arithmetic of \<open>double\<close> is elsewhere; how much of the text \<open>strtold\<close> takes is modelled.
\<close>

declare res_bind_cong [fundef_cong]

section \<open>Functions of the C library\<close>

definition isspace :: "char \<Rightarrow> bool" where
  "isspace c \<longleftrightarrow> c \<in> {CHR '' '', CHR 0x09, CHR 0x0A, CHR 0x0B, CHR 0x0C, CHR 0x0D}"

definition isdigit :: "char \<Rightarrow> bool" where
  "isdigit c \<longleftrightarrow> 48 \<le> (of_char c :: nat) \<and> (of_char c :: nat) \<le> 57"

definition tolower :: "char \<Rightarrow> char" where
  "tolower c = (let n = of_char c :: nat in if 65 \<le> n \<and> n \<le> 90 then char_of (n + 32) else c)"

definition islower :: "char \<Rightarrow> bool" where
  "islower c \<longleftrightarrow> 97 \<le> (of_char c :: nat) \<and> (of_char c :: nat) \<le> 122"

definition isxdigit :: "char \<Rightarrow> bool" where
  "isxdigit c \<longleftrightarrow> isdigit c \<or> tolower c \<in> set ''abcdef''"

text \<open>An optional sign: its length, and whether it is a minus.\<close>

fun sign_len :: "char list \<Rightarrow> nat" where
  "sign_len (c # _) = (if c = CHR ''+'' \<or> c = CHR ''-'' then 1 else 0)"
| "sign_len [] = 0"

fun is_minus :: "char list \<Rightarrow> bool" where
  "is_minus (c # _) = (c = CHR ''-'')"
| "is_minus [] = False"

definition digits_value :: "char list \<Rightarrow> int" where
  "digits_value ds = fold (\<lambda>c v. 10 * v + (int (of_char c) - 48)) ds 0"

text \<open>\<open>strtoll(s, &endptr, 10)\<close>: the value, kept in the range of \<open>long long\<close>, and how many characters it took.\<close>

definition strtoll :: "char list \<Rightarrow> int \<times> nat" where
  "strtoll s =
     (let ws = length (takeWhile isspace s); r = drop ws s; sg = sign_len r; ds = takeWhile isdigit (drop sg r);
          v = (if is_minus r then - digits_value ds else digits_value ds)
      in if ds = [] then (0, 0) else (max (- (2 ^ 63)) (min (2 ^ 63 - 1) v), ws + sg + length ds))"

text \<open>The parts of a floating-point number.\<close>

definition mantissa_len :: "(char \<Rightarrow> bool) \<Rightarrow> char list \<Rightarrow> nat" where
  "mantissa_len digit s =
     (let a = length (takeWhile digit s) in
      case drop a s of
        c # r \<Rightarrow> if c = CHR ''.'' then (let b = length (takeWhile digit r) in if a = 0 \<and> b = 0 then 0 else a + 1 + b) else a
      | [] \<Rightarrow> a)"

definition exponent_len :: "char \<Rightarrow> char list \<Rightarrow> nat" where
  "exponent_len e s =
     (case s of
        c # r \<Rightarrow> if tolower c = e then (let ds = length (takeWhile isdigit (drop (sign_len r) r)) in if ds = 0 then 0 else 1 + sign_len r + ds) else 0
      | [] \<Rightarrow> 0)"

definition starts_ci :: "char list \<Rightarrow> char list \<Rightarrow> bool" where
  "starts_ci w s \<longleftrightarrow> map tolower (take (length w) s) = w"

definition nan_len :: "char list \<Rightarrow> nat" where
  "nan_len s =
     (case drop 3 s of
        c # r \<Rightarrow>
          if c = CHR ''('' then
            (let n = length (takeWhile (\<lambda>c. isdigit c \<or> islower (tolower c) \<or> c = CHR ''_'') r) in
             if n < length r \<and> r ! n = CHR '')'' then 5 + n else 3)
          else 3
      | [] \<Rightarrow> 3)"

definition number_len :: "char list \<Rightarrow> nat" where
  "number_len s =
     (if starts_ci ''infinity'' s then 8
      else if starts_ci ''inf'' s then 3
      else if starts_ci ''nan'' s then nan_len s
      else if starts_ci ''0x'' s \<and> mantissa_len isxdigit (drop 2 s) \<noteq> 0 then
        (let m = 2 + mantissa_len isxdigit (drop 2 s) in m + exponent_len (CHR ''p'') (drop m s))
      else (let m = mantissa_len isdigit s in if m = 0 then 0 else m + exponent_len (CHR ''e'') (drop m s)))"

text \<open>How many characters \<open>strtold(s, &endptr)\<close> takes.\<close>

definition strtold_len :: "char list \<Rightarrow> nat" where
  "strtold_len s =
     (let ws = length (takeWhile isspace s); r = drop ws s; sg = sign_len r; n = number_len (drop sg r)
      in if n = 0 then 0 else ws + sg + n)"

section \<open>FieldArray\<close>

record FieldArray =
  fa_type :: DataType
  fa_size :: nat
  fa_capacity :: nat
  fa_starts :: "u32 cells"
  fa_ends :: "u32 cells"

definition FieldArray_new :: FieldArray where
  "FieldArray_new = \<lparr>fa_type = Field, fa_size = 0, fa_capacity = 4, fa_starts = new_cells 4, fa_ends = new_cells 4\<rparr>"

definition FieldArray_resize :: "FieldArray \<Rightarrow> FieldArray res" where
  "FieldArray_resize fa =
     (let cap = fa_capacity fa * 2 in
      res_bind (res_fold (\<lambda>i (ss, es).
          res_bind (cell_load (fa_starts fa) i) (\<lambda>s. res_bind (cell_store ss i s) (\<lambda>ss.
          res_bind (cell_load (fa_ends fa) i) (\<lambda>e. res_bind (cell_store es i e) (\<lambda>es. Inr (ss, es))))))
        [0..<fa_size fa] (new_cells cap, new_cells cap)) (\<lambda>(ss, es).
      Inr (fa\<lparr>fa_capacity := cap, fa_starts := ss, fa_ends := es\<rparr>)))"

definition FieldArray_pushBack :: "u32 \<Rightarrow> u32 \<Rightarrow> FieldArray \<Rightarrow> FieldArray res" where
  "FieldArray_pushBack start end' fa =
     res_bind (if fa_size fa = fa_capacity fa then FieldArray_resize fa else Inr fa) (\<lambda>fa.
     res_bind (cell_store (fa_starts fa) (fa_size fa) start) (\<lambda>ss.
     res_bind (cell_store (fa_ends fa) (fa_size fa) end') (\<lambda>es.
     Inr (fa\<lparr>fa_starts := ss, fa_ends := es, fa_size := fa_size fa + 1\<rparr>))))"

definition FieldArray_len :: "FieldArray \<Rightarrow> nat" where
  "FieldArray_len fa = fa_size fa"

definition FieldArray_get_start :: "nat \<Rightarrow> FieldArray \<Rightarrow> u32 res" where
  "FieldArray_get_start i fa = (if i \<ge> fa_size fa then Inr (- 1) else cell_load (fa_starts fa) i)"

definition FieldArray_get_end :: "nat \<Rightarrow> FieldArray \<Rightarrow> u32 res" where
  "FieldArray_get_end i fa = (if i \<ge> fa_size fa then Inr (- 1) else cell_load (fa_ends fa) i)"

definition FieldArray_clear :: "FieldArray \<Rightarrow> FieldArray" where
  "FieldArray_clear fa = fa\<lparr>fa_starts := new_cells (fa_capacity fa), fa_ends := new_cells (fa_capacity fa), fa_size := 0\<rparr>"

definition FieldArray_set_type :: "DataType \<Rightarrow> FieldArray \<Rightarrow> FieldArray" where
  "FieldArray_set_type t fa = (if fa_type fa = Field then fa\<lparr>fa_type := t\<rparr> else fa)"

section \<open>The mapped file\<close>

definition char_at :: "char list \<Rightarrow> nat \<Rightarrow> char res" where
  "char_at file i = (if i < length file then Inr (file ! i) else Inl OutOfBounds)"

text \<open>The C string that starts at \<open>i\<close>, as \<open>strtoll\<close> and \<open>strtold\<close> require one.\<close>

definition cstr_at :: "char list \<Rightarrow> nat \<Rightarrow> char list res" where
  "cstr_at file i = (if NUL \<in> set (drop i file) then Inr (takeWhile (\<lambda>c. c \<noteq> NUL) (drop i file)) else Inl OutOfBounds)"

text \<open>\<open>file[i] != '\n' && file[i] != EOF && file[i] != '\0'\<close>, negated: \<open>char\<close> is signed, so the byte 255 is \<open>EOF\<close>.\<close>

definition row_end :: "char \<Rightarrow> bool" where
  "row_end c \<longleftrightarrow> c \<in> {CHR 0x0A, CHR 0xFF, NUL}"

definition file_end :: "char \<Rightarrow> bool" where
  "file_end c \<longleftrightarrow> c \<in> {CHR 0xFF, NUL}"

function triml_from :: "char list \<Rightarrow> nat \<Rightarrow> nat \<Rightarrow> nat res" where
  "triml_from file i end' =
     (if i < end' then res_bind (char_at file i) (\<lambda>c. if \<not> isspace c then Inr i else triml_from file (i + 1) end')
      else Inr i)"
  by pat_completeness auto
termination by (relation "measure (\<lambda>(_, i, e). e - i)") auto

definition triml :: "char list \<Rightarrow> nat \<Rightarrow> nat \<Rightarrow> nat res" where
  "triml file start end' = triml_from file ((start + 1) mod 2 ^ 64) end'"

function trimr_from :: "char list \<Rightarrow> nat \<Rightarrow> nat \<Rightarrow> nat res" where
  "trimr_from file start i =
     (if i > start then res_bind (char_at file i) (\<lambda>c. if \<not> isspace c then Inr i else trimr_from file start (i - 1))
      else Inr i)"
  by pat_completeness auto
termination by (relation "measure (\<lambda>(_, _, i). i)") auto

definition trimr :: "char list \<Rightarrow> nat \<Rightarrow> nat \<Rightarrow> nat res" where
  "trimr file start end' = res_bind (res_assert (end' \<noteq> 0)) (\<lambda>_. trimr_from file start (end' - 1))"

declare triml_from.simps [simp del] trimr_from.simps [simp del]

text \<open>Whether one of the characters at the indices is white space.\<close>

fun has_space :: "char list \<Rightarrow> nat list \<Rightarrow> bool res" where
  "has_space file [] = Inr False"
| "has_space file (i # is) = res_bind (char_at file i) (\<lambda>c. if isspace c then Inr True else has_space file is)"

definition parse_field_type :: "char list \<Rightarrow> nat \<Rightarrow> nat \<Rightarrow> DataType res" where
  "parse_field_type file start end' =
     res_bind (triml file start end') (\<lambda>start.
     res_bind (trimr file start end') (\<lambda>end'.
     if start \<le> end' then
       res_bind (char_at file start) (\<lambda>c.
       if c = CHR 0x22 then Inr Str
       else if end' = start \<and> (c = CHR ''0'' \<or> c = CHR ''1'') then Inr Boolean
       else
         res_bind (cstr_at file start) (\<lambda>s.
         if snd (strtoll s) = end' - start + 1 then Inr Integer
         else if strtold_len s = end' - start + 1 then Inr Double
         else res_bind (has_space file [start..<end' + 1]) (\<lambda>sp. Inr (if sp then Boolean else Str))))
     else Inr Boolean))"

text \<open>\<open>while (file[field_end] != '>') { assert(file[field_end] != '\n'); ++field_end; }\<close>\<close>

function find_close :: "char list \<Rightarrow> nat \<Rightarrow> nat res" where
  "find_close file i =
     res_bind (char_at file i) (\<lambda>c.
     if c = CHR ''>'' then Inr i
     else res_bind (res_assert (c \<noteq> CHR 0x0A)) (\<lambda>_. find_close file (i + 1)))"
  by pat_completeness auto
termination by (relation "measure (\<lambda>(f, i). length f - i)") (auto simp: char_at_def split: if_splits)

declare find_close.simps [simp del]

lemma find_close_ge: "find_close m i = Inr j \<Longrightarrow> i \<le> j \<and> j < length m"
proof (induction m i rule: find_close.induct)
  case (1 m i)
  show ?case
  proof (cases "char_at m i")
    case (Inr c)
    then have "i < length m" by (simp add: char_at_def split: if_splits)
    then show ?thesis using 1(2) 1(1) [OF Inr] unfolding find_close.simps [of m i] by (auto simp: Inr res_bind_Inr_iff split: if_splits)
  qed (use 1(2) in \<open>simp add: find_close.simps [of m i]\<close>)
qed

text \<open>
  The two loops over a row, \<open>parse_row_schema\<close> and \<open>parse_row_fields\<close>, differ in what they do with a
  field: \<open>f start field_end\<close>.
\<close>

function scan_row :: "char list \<Rightarrow> (nat \<Rightarrow> nat \<Rightarrow> 'a \<Rightarrow> 'a res) \<Rightarrow> nat \<Rightarrow> 'a \<Rightarrow> (nat \<times> 'a) res" where
  "scan_row file f start acc =
     res_bind (char_at file start) (\<lambda>c.
     if row_end c then Inr (start, acc)
     else if c = CHR ''<'' then
       res_bind (find_close file (start + 1)) (\<lambda>field_end.
       res_bind (f start field_end acc) (\<lambda>acc. scan_row file f (field_end + 1) acc))
     else scan_row file f (start + 1) acc)"
  by pat_completeness auto
termination
  by (relation "measure (\<lambda>(file, _, i, _). length file - i)") (auto simp: char_at_def split: if_splits dest: find_close_ge)

declare scan_row.simps [simp del]

definition parse_row_schema :: "char list \<Rightarrow> nat \<Rightarrow> Schema \<Rightarrow> (nat \<times> Schema) res" where
  "parse_row_schema file = scan_row file (\<lambda>start field_end row_schema.
     res_bind (parse_field_type file start field_end) (\<lambda>t. Schema_add_column t row_schema))"

definition parse_row_fields :: "char list \<Rightarrow> nat \<Rightarrow> FieldArray \<Rightarrow> (nat \<times> FieldArray) res" where
  "parse_row_fields file = scan_row file (\<lambda>start field_end. FieldArray_pushBack (of_nat start) (of_nat field_end))"

section \<open>The schema and the columns of a file\<close>

text \<open>The types are ordered as the values of the enumeration: a larger one is less restrictive.\<close>

fun type_no :: "DataType \<Rightarrow> nat" where
  "type_no Field = 0"
| "type_no Boolean = 1"
| "type_no Integer = 2"
| "type_no Double = 3"
| "type_no Str = 4"

lemma type_no_inject: "type_no s = type_no t \<longleftrightarrow> s = t"
  by (cases s; cases t) auto

instantiation DataType :: linorder
begin

definition less_eq_DataType :: "DataType \<Rightarrow> DataType \<Rightarrow> bool" where
  "s \<le> t \<longleftrightarrow> type_no s \<le> type_no t"

definition less_DataType :: "DataType \<Rightarrow> DataType \<Rightarrow> bool" where
  "s < t \<longleftrightarrow> type_no s < type_no t"

instance
  by standard (auto simp: less_eq_DataType_def less_DataType_def type_no_inject)

end

text \<open>The loop over the columns of a line, with the width \<open>w\<close> of the schema before it.\<close>

definition merge_schema :: "Schema \<Rightarrow> Schema \<Rightarrow> Schema res" where
  "merge_schema cur result =
     (let w = Schema_width result in
      res_fold (\<lambda>j result.
        res_bind (Schema_col_type j cur) (\<lambda>t.
        if j \<ge> w then Schema_add_column t result
        else res_bind (Schema_col_type j result) (\<lambda>u. if u < t then Schema_set j t result else Inr result)))
      [0..<Schema_width cur] result)"

text \<open>\<open>parse_schema\<close>: the first argument counts the lines still to look at.\<close>

fun parse_schema_lines :: "char list \<Rightarrow> nat \<Rightarrow> nat \<Rightarrow> Schema \<Rightarrow> Schema \<Rightarrow> Schema res" where
  "parse_schema_lines file 0 start cur result = Inr result"
| "parse_schema_lines file (Suc k) start cur result =
     res_bind (char_at file start) (\<lambda>c.
     if file_end c then Inr result
     else
       res_bind (parse_row_schema file start cur) (\<lambda>(start, cur).
       res_bind (merge_schema cur result) (\<lambda>result.
       parse_schema_lines file k (start + 1) (Schema_clear cur) result)))"

definition parse_schema :: "char list \<Rightarrow> Schema res" where
  "parse_schema file = parse_schema_lines file 500 0 Schema_new Schema_new"

fun all_types_le :: "Schema \<Rightarrow> Schema \<Rightarrow> nat list \<Rightarrow> bool res" where
  "all_types_le row_types schema [] = Inr True"
| "all_types_le row_types schema (i # is) =
     res_bind (Schema_col_type i row_types) (\<lambda>t. res_bind (Schema_col_type i schema) (\<lambda>u.
       if t > u then Inr False else all_types_le row_types schema is))"

definition is_valid_row :: "Schema \<Rightarrow> Schema \<Rightarrow> bool res" where
  "is_valid_row row_types schema =
     (if Schema_width row_types = Schema_width schema then all_types_le row_types schema [0..<Schema_width schema] else Inr False)"

text \<open>One field array for every column of the schema.\<close>

definition new_columnar :: "Schema \<Rightarrow> FieldArray list res" where
  "new_columnar schema =
     res_fold (\<lambda>i fas. res_bind (Schema_col_type i schema) (\<lambda>t. Inr (fas @ [FieldArray_set_type t FieldArray_new])))
       [0..<Schema_width schema] []"

definition push_row :: "FieldArray \<Rightarrow> FieldArray list \<Rightarrow> FieldArray list res" where
  "push_row row_fields columnar =
     res_fold (\<lambda>i columnar.
       res_bind (cell_load (map Some columnar) i) (\<lambda>fa.
       res_bind (FieldArray_get_start i row_fields) (\<lambda>s.
       res_bind (FieldArray_get_end i row_fields) (\<lambda>e.
       res_bind (FieldArray_pushBack s e fa) (\<lambda>fa. Inr (columnar[i := fa]))))))
     [0..<length columnar] columnar"

text \<open>The inner loop of \<open>make_columnar\<close>: lines up to one that starts with the end of a line or of the file.\<close>

lemma scan_row_ge: "scan_row m f i acc = Inr (j, acc') \<Longrightarrow> i \<le> j \<and> j < length m"
proof (induction m f i acc rule: scan_row.induct)
  case (1 m f i acc)
  show ?case
  proof (cases "char_at m i")
    case (Inr c)
    have i: "i < length m" using Inr by (simp add: char_at_def split: if_splits)
    show ?thesis
    proof (cases "row_end c \<or> c \<noteq> CHR ''<''")
      case True
      then show ?thesis using 1(3) 1(2) [OF Inr] i unfolding scan_row.simps [of m f i] by (auto simp: Inr split: if_splits)
    next
      case False
      then obtain k acc1 where k: "find_close m (i + 1) = Inr k" "f i k acc = Inr acc1" "scan_row m f (k + 1) acc1 = Inr (j, acc')"
        using 1(3) unfolding scan_row.simps [of m f i] by (auto simp: Inr res_bind_Inr_iff)
      with 1(1) [OF Inr _ _ k(1,2)] False find_close_ge [OF k(1)] show ?thesis by fastforce
    qed
  qed (use 1(3) in \<open>simp add: scan_row.simps [of m f i]\<close>)
qed

function columnar_lines :: "char list \<Rightarrow> Schema \<Rightarrow> nat \<Rightarrow> Schema \<Rightarrow> FieldArray \<Rightarrow> FieldArray list \<Rightarrow> (nat \<times> FieldArray list) res" where
  "columnar_lines file schema start row_types row_fields columnar =
     res_bind (char_at file start) (\<lambda>c.
     if row_end c then Inr (start, columnar)
     else
       res_bind (parse_row_schema file start row_types) (\<lambda>(row_start, row_types).
       res_bind (is_valid_row row_types schema) (\<lambda>valid.
       res_bind (if valid then
           res_bind (parse_row_fields file start row_fields) (\<lambda>(_, row_fields).
           res_bind (push_row row_fields columnar) (\<lambda>columnar. Inr (FieldArray_clear row_fields, columnar)))
         else Inr (row_fields, columnar)) (\<lambda>(row_fields, columnar).
       columnar_lines file schema (row_start + 1) (Schema_clear row_types) row_fields columnar))))"
  by pat_completeness auto
termination
  by (relation "measure (\<lambda>(file, _, i, _). length file - i)") (auto simp: parse_row_schema_def dest: scan_row_ge)

declare columnar_lines.simps [simp del]

text \<open>
  The outer loop runs the inner one with new row arrays as long as \<open>start < end\<close>. A second round
  begins at a character that ends a row: it changes nothing, and neither does any later one.
\<close>

definition make_columnar :: "char list \<Rightarrow> nat \<Rightarrow> nat \<Rightarrow> Schema \<Rightarrow> FieldArray list res" where
  "make_columnar file start end' schema =
     res_bind (new_columnar schema) (\<lambda>columnar.
     if start < end' then
       res_bind (columnar_lines file schema start Schema_new FieldArray_new columnar) (\<lambda>(start, columnar).
       if start < end' then Inl Diverges else Inr columnar)
     else Inr columnar)"

section \<open>Sorer\<close>

record Sorer =
  so_fileSize :: nat
  so_file :: "char list"
  so_schema :: Schema

definition getMapLen :: "nat \<Rightarrow> nat \<Rightarrow> nat" where
  "getMapLen pageSize fileSize = (let pages = fileSize div pageSize + 1 in pages * pageSize)"

text \<open>
  The accessible part of the memory \<open>mmap\<close> returns: the file, and zeros up to the end of the last page
  that holds a byte of it. What is mapped behind that page cannot be read.
\<close>

definition mapped :: "nat \<Rightarrow> char list \<Rightarrow> char list" where
  "mapped pageSize contents =
     take (getMapLen pageSize (length contents))
       (contents @ replicate ((pageSize - length contents mod pageSize) mod pageSize) NUL)"

lemma mapped_length:
  assumes "0 < pageSize"
  shows "n + (pageSize - n mod pageSize) mod pageSize =
    (if n mod pageSize = 0 then n else getMapLen pageSize n)" "n < getMapLen pageSize n"
proof -
  have n: "n = n div pageSize * pageSize + n mod pageSize" and lt: "n mod pageSize < pageSize" using assms by simp_all
  have g: "getMapLen pageSize n = n div pageSize * pageSize + pageSize" by (simp add: getMapLen_def)
  show "n < getMapLen pageSize n" using n lt g by linarith
  show "n + (pageSize - n mod pageSize) mod pageSize = (if n mod pageSize = 0 then n else getMapLen pageSize n)"
  proof (cases "n mod pageSize = 0")
    case False
    then have "(pageSize - n mod pageSize) mod pageSize = pageSize - n mod pageSize" using lt by simp
    moreover have "n + (pageSize - n mod pageSize) = getMapLen pageSize n" using n lt g by linarith
    ultimately show ?thesis using False by simp
  qed simp
qed

lemma mapped_file:
  assumes "0 < pageSize"
  shows "mapped pageSize c = c @ replicate ((pageSize - length c mod pageSize) mod pageSize) NUL"
  using mapped_length [OF assms, of "length c"] by (simp add: mapped_def split: if_splits)

text \<open>The contents of the file with the name, if it can be opened, are a parameter.\<close>

definition Sorer_new :: "nat \<Rightarrow> (char list \<Rightarrow> char list option) \<Rightarrow> char list \<Rightarrow> Sorer res" where
  "Sorer_new pageSize files fileName =
     (case files fileName of
        None \<Rightarrow> Inl AssertFail
      | Some contents \<Rightarrow>
          (let m = mapped pageSize contents in
           res_bind (parse_schema m) (\<lambda>schema. Inr \<lparr>so_fileSize = length contents, so_file = m, so_schema = schema\<rparr>)))"

definition getColumnar :: "Sorer \<Rightarrow> FieldArray list res" where
  "getColumnar so = make_columnar (so_file so) 0 (so_fileSize so) (so_schema so)"

section \<open>SorWriter\<close>

text \<open>The state of the writer is the row and the number of fields seen; the rest does not change.\<close>

record SorWriter =
  sw_numCols :: nat
  sw_numRows :: nat
  sw_fa :: "FieldArray list"
  sw_types :: Schema
  sw_file :: "char list"

definition SorWriter_new :: "FieldArray list \<Rightarrow> Schema \<Rightarrow> char list \<Rightarrow> SorWriter res" where
  "SorWriter_new fa types file =
     res_bind (cell_load (map Some fa) 0) (\<lambda>fa0.
     Inr \<lparr>sw_numCols = Schema_width types, sw_numRows = FieldArray_len fa0, sw_fa = fa, sw_types = types, sw_file = file\<rparr>)"

definition get_int_field :: "char list \<Rightarrow> u32 \<Rightarrow> u32 \<Rightarrow> u32 res" where
  "get_int_field file start end' =
     res_bind (triml file (int_to_size_t start) (int_to_size_t end')) (\<lambda>new_start.
     res_bind (cstr_at file new_start) (\<lambda>s. Inr (word_of_int (fst (strtoll s)))))"

definition get_bool_field :: "char list \<Rightarrow> u32 \<Rightarrow> u32 \<Rightarrow> bool res" where
  "get_bool_field file start end' =
     res_bind (triml file (int_to_size_t start) (int_to_size_t end')) (\<lambda>new_start.
     res_bind (char_at file new_start) (\<lambda>c. Inr (c = CHR ''1'')))"

definition get_double_field :: "(char list \<Rightarrow> u64) \<Rightarrow> char list \<Rightarrow> u32 \<Rightarrow> u32 \<Rightarrow> u64 res" where
  "get_double_field ldbl file start end' =
     res_bind (triml file (int_to_size_t start) (int_to_size_t end')) (\<lambda>new_start.
     res_bind (cstr_at file new_start) (\<lambda>s. Inr (ldbl (take (strtold_len s) s))))"

text \<open>\<open>n - 1\<close> on a \<open>size_t\<close>.\<close>

definition size_dec :: "nat \<Rightarrow> nat" where
  "size_dec n = (if n = 0 then 2 ^ 64 - 1 else n - 1)"

definition get_string_field :: "char list \<Rightarrow> u32 \<Rightarrow> u32 \<Rightarrow> String res" where
  "get_string_field file start end' =
     res_bind (triml file (int_to_size_t start) (int_to_size_t end')) (\<lambda>new_start.
     res_bind (trimr file (int_to_size_t start) (int_to_size_t end')) (\<lambda>new_end.
     res_bind (char_at file new_start) (\<lambda>c.
     let new_start = (if c = CHR 0x22 then new_start + 1 else new_start) in
     res_bind (char_at file new_end) (\<lambda>c.
     let new_end = (if c = CHR 0x22 then size_dec new_end else new_end) in
     res_bind (res_fold (\<lambda>i str. res_bind (char_at file i) (\<lambda>c. StrBuff_c_cstr [c, NUL] str)) [new_start..<new_end + 1] StrBuff_new) (\<lambda>str.
     res_bind (char_at file new_start) (\<lambda>c.
     res_bind (char_at file new_end) (\<lambda>d.
     res_bind (if c \<noteq> CHR 0x22 \<and> d \<noteq> CHR 0x22 then StrBuff_c_cstr [NUL] str else Inr str) (\<lambda>str.
     res_bind (StrBuff_get str) (\<lambda>(res, _). Inr res)))))))))"

definition SorWriter_cell :: "(char list \<Rightarrow> u64) \<Rightarrow> SorWriter \<Rightarrow> nat \<Rightarrow> nat \<Rightarrow> Row \<Rightarrow> Row res" where
  "SorWriter_cell ldbl sw row col r =
     res_bind (cell_load (map Some (sw_fa sw)) col) (\<lambda>fa.
     res_bind (FieldArray_get_start row fa) (\<lambda>s.
     res_bind (FieldArray_get_end row fa) (\<lambda>e.
     res_bind (res_assert (int_to_size_t s \<le> int_to_size_t e)) (\<lambda>_.
     res_bind (Schema_col_type col (sw_types sw)) (\<lambda>t. case t of
         Boolean \<Rightarrow> res_bind (get_bool_field (sw_file sw) s e) (\<lambda>v. Row_set_bool col v r)
       | Integer \<Rightarrow> res_bind (get_int_field (sw_file sw) s e) (\<lambda>v. Row_set_int col v r)
       | Double \<Rightarrow> res_bind (get_double_field ldbl (sw_file sw) s e) (\<lambda>v. Row_set_double col v r)
       | Str \<Rightarrow> res_bind (get_string_field (sw_file sw) s e) (\<lambda>v. Row_set_string col v r)
       | Field \<Rightarrow> Inr r)))))"

definition SorWriter_visit :: "(char list \<Rightarrow> u64) \<Rightarrow> SorWriter \<Rightarrow> Row \<Rightarrow> nat \<times> nat \<Rightarrow> (Row \<times> nat \<times> nat) res" where
  "SorWriter_visit ldbl sw r = (\<lambda>(row, seen).
     res_bind (res_fold (\<lambda>col (r, seen). res_bind (SorWriter_cell ldbl sw row col r) (\<lambda>r. Inr (r, seen + 1)))
       [0..<sw_numCols sw] (r, seen)) (\<lambda>(r, seen). Inr (r, row + 1, seen)))"

definition SorWriter_done :: "SorWriter \<Rightarrow> nat \<times> nat \<Rightarrow> (bool \<times> nat \<times> nat) res" where
  "SorWriter_done sw = (\<lambda>(row, seen). Inr (seen = sw_numRows sw * sw_numCols sw, row, seen))"

definition SorWriter_methods :: "(char list \<Rightarrow> u64) \<Rightarrow> SorWriter \<Rightarrow> (nat \<times> nat) Writer" where
  "SorWriter_methods ldbl sw = \<lparr>wr_done = SorWriter_done sw, wr_visit = SorWriter_visit ldbl sw\<rparr>"

definition fromFile ::
    "nat \<Rightarrow> (char list \<Rightarrow> char list option) \<Rightarrow> (char list \<Rightarrow> u64) \<Rightarrow> Args \<Rightarrow> (Key \<Rightarrow> Value \<Rightarrow> 's \<Rightarrow> 's res) \<Rightarrow> char list \<Rightarrow> Key \<Rightarrow> 's \<Rightarrow>
     (DataFrame \<times> 's) res" where
  "fromFile pageSize files ldbl args putv filename k st =
     res_bind (Sorer_new pageSize files filename) (\<lambda>sor.
     res_bind (getColumnar sor) (\<lambda>fa.
     res_bind (SorWriter_new fa (so_schema sor) (so_file sor)) (\<lambda>sw.
     res_bind (getTypesChar (so_schema sor)) (\<lambda>typesChar.
     res_bind (fromVisitor args putv k typesChar (SorWriter_methods ldbl sw) ((0, 0), st)) (\<lambda>(df, _, st).
     Inr (df, st))))))"

end
