(* ===== verification/WordRead.thy ===== *)
theory WordRead
  imports Sorer FrameProps
begin

text \<open>
  The reader of the word count (\<open>src/filereader/filereader.h\<close>): a buffer of \<open>BUFSIZE\<close> bytes over
  a file, from which \<open>visit\<close> takes the next word. The buffer is an array of cells, so that reading
  a byte the file never supplied shows; a file is the list of its bytes, of which \<open>fr_rest\<close> are not
  yet read. \<open>words\<close> is what the reader should deliver, and under the conditions of \<open>text_file\<close> it
  does (\<open>file_reader\<close>, an interpretation of \<open>row_writer\<close>).
\<close>

section \<open>Loops that may crash or never end\<close>

text \<open>\<open>step\<close> says whether the loop breaks.\<close>

partial_function (option) res_loop :: "('s \<Rightarrow> (bool \<times> 's) res) \<Rightarrow> 's \<Rightarrow> 's res option" where
  "res_loop step s = (case step s of
     Inl e \<Rightarrow> Some (Inl e)
   | Inr (stop, s) \<Rightarrow> if stop then Some (Inr s) else res_loop step s)"

definition run_loop :: "('s \<Rightarrow> (bool \<times> 's) res) \<Rightarrow> 's \<Rightarrow> 's res" where
  "run_loop step s = (case res_loop step s of None \<Rightarrow> Inl Diverges | Some r \<Rightarrow> r)"

lemma run_loop_step:
  "step s = Inl e \<Longrightarrow> run_loop step s = Inl e"
  "step s = Inr (True, t) \<Longrightarrow> run_loop step s = Inr t"
  "step s = Inr (False, t) \<Longrightarrow> run_loop step s = run_loop step t"
  by (simp_all add: run_loop_def res_loop.simps [of step s])

section \<open>FileReader\<close>

definition FileReader_BUFSIZE :: nat where
  "FileReader_BUFSIZE = 1024"

definition FILE_NAME :: "char list" where
  "FILE_NAME = ''data/100k.txt''"

record FileReader =
  fr_buf :: "char cells"
  fr_end :: nat
  fr_i :: nat
  fr_rest :: "char list"  \<comment> \<open>the bytes of \<open>file_\<close> that are not read yet\<close>
  fr_eof :: bool          \<comment> \<open>\<open>feof(file_)\<close>\<close>

text \<open>\<open>fread\<close>: as many of the \<open>n\<close> bytes as there are; the end of the file shows when it is short.\<close>

definition fread :: "nat \<Rightarrow> FileReader \<Rightarrow> char list \<times> FileReader" where
  "fread n fr = (take n (fr_rest fr),
     fr\<lparr>fr_rest := drop n (fr_rest fr), fr_eof := fr_eof fr \<or> length (fr_rest fr) < n\<rparr>)"

text \<open>The move of the unprocessed bytes to the front, a \<open>memcpy\<close> within the buffer.\<close>

definition compact :: "FileReader \<Rightarrow> (nat \<times> char cells) res" where
  "compact fr =
     (if fr_i fr = fr_end fr then Inr (0, fr_buf fr)
      else if fr_end fr < fr_i fr then Inl OutOfBounds
      else let start = fr_end fr - fr_i fr in
        if fr_i fr < start then Inl Overlap
        else res_bind (cells_load (fr_buf fr) (fr_i fr) start) (\<lambda>cs.
             res_bind (cells_store (fr_buf fr) 0 cs) (\<lambda>buf. Inr (start, buf))))"

definition fillBuffer :: "FileReader \<Rightarrow> FileReader res" where
  "fillBuffer fr =
     res_bind (compact fr) (\<lambda>(start, buf).
     let (cs, fr) = fread (FileReader_BUFSIZE - start) fr in
     res_bind (cells_store buf start cs) (\<lambda>buf.
     Inr (fr\<lparr>fr_buf := buf, fr_end := start + length cs, fr_i := start\<rparr>)))"

definition skip_check :: "FileReader \<Rightarrow> (bool \<times> FileReader) res" where
  "skip_check fr =
     res_bind (cell_load (fr_buf fr) (fr_i fr)) (\<lambda>c.
     if \<not> isspace c then Inr (True, fr) else Inr (False, fr\<lparr>fr_i := fr_i fr + 1\<rparr>))"

definition skip_step :: "FileReader \<Rightarrow> (bool \<times> FileReader) res" where
  "skip_step fr =
     (if fr_i fr = fr_end fr then
        if fr_eof fr then Inr (True, fr) else res_bind (fillBuffer fr) skip_check
      else skip_check fr)"

definition skipWhitespace :: "FileReader \<Rightarrow> FileReader res" where
  "skipWhitespace = run_loop skip_step"

definition FileReader_new :: "(char list \<Rightarrow> char list option) \<Rightarrow> FileReader res" where
  "FileReader_new files =
     (case files FILE_NAME of
        None \<Rightarrow> Inl (Exit 1)
      | Some bytes \<Rightarrow>
          res_bind (fillBuffer \<lparr>fr_buf = new_cells (FileReader_BUFSIZE + 1), fr_end = 0, fr_i = 0, fr_rest = bytes, fr_eof = False\<rparr>)
            skipWhitespace)"

text \<open>The loop of \<open>visit\<close>; its state is \<open>wStart\<close> and the reader.\<close>

definition word_check :: "nat \<times> FileReader \<Rightarrow> (bool \<times> nat \<times> FileReader) res" where
  "word_check = (\<lambda>(wStart, fr).
     res_bind (cell_load (fr_buf fr) (fr_i fr)) (\<lambda>c.
     if isspace c then Inr (True, wStart, fr) else Inr (False, wStart, fr\<lparr>fr_i := fr_i fr + 1\<rparr>)))"

definition word_step :: "nat \<times> FileReader \<Rightarrow> (bool \<times> nat \<times> FileReader) res" where
  "word_step = (\<lambda>(wStart, fr).
     if fr_i fr = fr_end fr then
       if fr_eof fr then Inr (True, wStart, fr\<lparr>fr_i := fr_i fr + 1\<rparr>)
       else res_bind (fillBuffer (fr\<lparr>fr_i := wStart\<rparr>)) (\<lambda>fr. word_check (0, fr))
     else word_check (wStart, fr))"

definition FileReader_visit :: "Row \<Rightarrow> FileReader \<Rightarrow> (Row \<times> FileReader) res" where
  "FileReader_visit r fr =
     res_bind (res_assert (fr_i fr < fr_end fr)) (\<lambda>_.
     res_bind (cell_load (fr_buf fr) (fr_i fr)) (\<lambda>c.
     res_bind (res_assert (\<not> isspace c)) (\<lambda>_.
     res_bind (run_loop word_step (fr_i fr, fr)) (\<lambda>(wStart, fr).
     res_bind (cell_store (fr_buf fr) (fr_i fr) NUL) (\<lambda>buf.
     res_bind (cells_load buf wStart (fr_i fr - wStart + 1)) (\<lambda>cs.
     res_bind (String_make cs (fr_i fr - wStart)) (\<lambda>word.
     res_bind (Row_set_string 0 word r) (\<lambda>r.
     res_bind (skipWhitespace (fr\<lparr>fr_buf := buf, fr_i := fr_i fr + 1\<rparr>)) (\<lambda>fr. Inr (r, fr))))))))))"

definition FileReader_done :: "FileReader \<Rightarrow> (bool \<times> FileReader) res" where
  "FileReader_done fr = Inr (fr_end fr \<le> fr_i fr \<and> fr_eof fr, fr)"

definition FileReader_methods :: "FileReader Writer" where
  "FileReader_methods = \<lparr>wr_done = FileReader_done, wr_visit = FileReader_visit\<rparr>"

section \<open>What it should deliver\<close>

function words :: "char list \<Rightarrow> char list list" where
  "words [] = []"
| "words (c # cs) =
     (if isspace c then words cs
      else (c # takeWhile (\<lambda>c. \<not> isspace c) cs) # words (dropWhile (\<lambda>c. \<not> isspace c) cs))"
  by pat_completeness auto
termination by (relation "measure length") (auto simp: le_imp_less_Suc length_dropWhile_le)

text \<open>
  The files it can read: text that ends with a space or a new line, whose gaps are shorter than the
  buffer, and whose words are at most half as long as the buffer (so that moving the start of a
  word to the front never overlaps).
\<close>

definition text_file :: "char list \<Rightarrow> bool" where
  "text_file t \<longleftrightarrow> NUL \<notin> set t \<and> (t = [] \<or> isspace (last t)) \<and>
     (\<forall>k \<le> length t. length (takeWhile isspace (drop k t)) < 1024 \<and> length (takeWhile (\<lambda>c. \<not> isspace c) (drop k t)) \<le> 512)"

lemma text_file_drop: "text_file t \<Longrightarrow> text_file (drop n t)"
proof -
  assume t: "text_file t"
  have "length (takeWhile isspace (drop k (drop n t))) < 1024 \<and> length (takeWhile (\<lambda>c. \<not> isspace c) (drop k (drop n t))) \<le> 512" if "k \<le> length (drop n t)" for k
  proof (cases "n \<le> length t")
    case True
    then have "k + n \<le> length t" using that by simp
    then show ?thesis using t by (simp add: text_file_def)
  qed (use that in simp)
  moreover have "drop n t = [] \<or> last (drop n t) = last t" by (cases "n < length t") simp_all
  ultimately show ?thesis using t by (auto simp: text_file_def dest: in_set_dropD)
qed

lemma text_file_tail: "text_file (xs @ ys) \<Longrightarrow> text_file ys"
  using text_file_drop [of "xs @ ys" "length xs"] by simp

lemma words_skip: "words (dropWhile isspace t) = words t"
  by (induction t) auto

lemma words_word:
  assumes "\<forall>x \<in> set w. \<not> isspace x" and "w \<noteq> []" and "isspace c"
  shows "words (w @ c # t) = w # words t"
proof -
  obtain x xs where w: "w = x # xs" using assms(2) by (cases w) auto
  have "takeWhile (\<lambda>c. \<not> isspace c) (xs @ c # t) = xs" "dropWhile (\<lambda>c. \<not> isspace c) (xs @ c # t) = c # t"
    using assms(1,3) w by (simp_all add: takeWhile_append2 dropWhile_append2)
  then show ?thesis using assms(1,3) w by simp
qed

lemma first_word:
  assumes "text_file t" and "t \<noteq> []" and "\<not> isspace (hd t)"
  obtains w c tail where "t = w @ c # tail" and "\<forall>x \<in> set w. \<not> isspace x" and "w \<noteq> []" and "isspace c" and "length w \<le> 512" and "NUL \<notin> set w"
proof -
  let ?w = "takeWhile (\<lambda>c. \<not> isspace c) t" and ?d = "dropWhile (\<lambda>c. \<not> isspace c) t"
  have l: "isspace (last t)" using assms(1,2) by (simp add: text_file_def)
  have d: "?d \<noteq> []" using l assms(2) last_in_set by (auto simp: dropWhile_eq_Nil_conv)
  obtain c tail where ct: "?d = c # tail" using d by (cases ?d) auto
  have "isspace c" using hd_dropWhile [OF d] ct by simp
  moreover have "t = ?w @ c # tail" using ct by (metis takeWhile_dropWhile_id)
  moreover have "\<forall>x \<in> set ?w. \<not> isspace x" using set_takeWhileD by metis
  moreover have "?w \<noteq> []" using assms(2,3) by (cases t) auto
  moreover have "length ?w \<le> 512" using assms(1) unfolding text_file_def by (metis drop_0 le0)
  moreover have "NUL \<notin> set ?w" using assms(1) unfolding text_file_def by (metis set_takeWhileD)
  ultimately show thesis using that by blast
qed

lemma no_gap:
  assumes "text_file t" and "1024 \<le> length t"
  shows "\<exists>j < 1024. \<not> isspace (t ! j)"
proof (rule ccontr)
  assume "\<not> ?thesis"
  then have "\<forall>x \<in> set (take 1024 t). isspace x" using assms(2) by (auto simp: in_set_conv_nth)
  then have "takeWhile isspace (take 1024 t @ drop 1024 t) = take 1024 t @ takeWhile isspace (drop 1024 t)" by (intro takeWhile_append2) blast
  then have "1024 \<le> length (takeWhile isspace t)" using assms(2) by simp
  moreover have "length (takeWhile isspace t) < 1024" using assms(1) unfolding text_file_def by (metis drop_0 le0)
  ultimately show False by simp
qed

section \<open>The buffer as a window on the text\<close>

text \<open>The buffer was filled to its end once, and not with spaces only.\<close>

definition filled :: "char cells \<Rightarrow> bool" where
  "filled buf \<longleftrightarrow> (\<forall>j < 1024. buf ! j \<noteq> None) \<and> (\<exists>j < 1024. \<exists>c. buf ! j = Some c \<and> \<not> isspace c)"

text \<open>\<open>text\<close> is what is left from position \<open>i\<close>, of which \<open>pre\<close> is in the buffer.\<close>

definition window :: "FileReader \<Rightarrow> nat \<Rightarrow> char list \<Rightarrow> char cells \<Rightarrow> char list \<Rightarrow> char cells \<Rightarrow> bool" where
  "window fr i text a pre b \<longleftrightarrow> fr_buf fr = a @ map Some pre @ b \<and> length a = i \<and> i + length pre = fr_end fr \<and> text = pre @ fr_rest fr \<and>
     length (fr_buf fr) = 1025 \<and> fr_end fr \<le> 1024 \<and> (fr_eof fr \<longrightarrow> fr_rest fr = []) \<and> (\<not> fr_eof fr \<longrightarrow> fr_end fr = 1024 \<and> filled (fr_buf fr))"

definition buffered :: "FileReader \<Rightarrow> nat \<Rightarrow> char list \<Rightarrow> bool" where
  "buffered fr i text \<longleftrightarrow> (\<exists>a pre b. window fr i text a pre b)"

lemma compact_ok:
  assumes "fr_buf fr = a @ map Some pre @ b" and "length a = fr_i fr" and "fr_i fr + length pre = fr_end fr" and "length pre \<le> fr_i fr"
  shows "compact fr = Inr (length pre, map Some pre @ drop (length pre) (fr_buf fr))"
proof (cases pre)
  case Nil
  then show ?thesis using assms by (simp add: compact_def)
next
  case (Cons p ps)
  have "cells_load (fr_buf fr) (fr_i fr) (length pre) = Inr pre"
    using assms(1,2) by (simp add: cells_load_def)
  moreover have "cells_store (fr_buf fr) 0 pre = Inr (map Some pre @ drop (length pre) (fr_buf fr))"
    using assms(1) by (simp add: cells_store_def)
  moreover have "fr_end fr - fr_i fr = length pre" "fr_i fr \<noteq> fr_end fr" "\<not> fr_end fr < fr_i fr"
    using assms(3) Cons by auto
  ultimately show ?thesis using assms(4) unfolding compact_def Let_def by simp
qed

lemma fill_ok:
  assumes "fr_buf fr = a @ map Some pre @ b" and "length a = fr_i fr" and "fr_i fr + length pre = fr_end fr" and "length pre \<le> fr_i fr"
    and "length (fr_buf fr) = 1025" and "length pre \<le> 1024"
  defines "got \<equiv> take (1024 - length pre) (fr_rest fr)"
  shows "fillBuffer fr = Inr (fr\<lparr>fr_buf := map Some (pre @ got) @ drop (length (pre @ got)) (fr_buf fr), fr_end := length (pre @ got), fr_i := length pre,
    fr_rest := drop (1024 - length pre) (fr_rest fr), fr_eof := fr_eof fr \<or> length (fr_rest fr) < 1024 - length pre\<rparr>)"
proof -
  have g: "length got \<le> 1024 - length pre" by (simp add: got_def)
  have "cells_store (map Some pre @ drop (length pre) (fr_buf fr)) (length pre) got =
      Inr (map Some (pre @ got) @ drop (length (pre @ got)) (fr_buf fr))"
    using g assms(5,6) by (simp add: cells_store_def add.commute)
  then show ?thesis
    using compact_ok [OF assms(1-4)]
    by (simp add: fillBuffer_def fread_def FileReader_BUFSIZE_def got_def Let_def del: length_take map_append)
qed

text \<open>After a refill the buffer is a window on the same text, longer by what was read.\<close>

lemma window_after_fill:
  assumes "length buf = 1025" and "length pre \<le> 1024" and t: "text = pre @ r" "text_file text" and n: "pre = [] \<or> \<not> isspace (hd pre)"
    and e: "eof \<longrightarrow> r = []" and "text \<noteq> []"
  defines "got \<equiv> take (1024 - length pre) r"
  shows "window \<lparr>fr_buf = map Some (pre @ got) @ drop (length (pre @ got)) buf, fr_end = length (pre @ got), fr_i = i,
    fr_rest = drop (1024 - length pre) r, fr_eof = eof \<or> length r < 1024 - length pre\<rparr> 0 text [] (pre @ got) (drop (length (pre @ got)) buf)"
proof -
  let ?b = "map Some (pre @ got) @ drop (length (pre @ got)) buf"
  have l: "length (pre @ got) \<le> 1024" using assms(2) by (simp add: got_def)
  have "length (pre @ got) = 1024 \<and> filled ?b" if ne: "\<not> eof" "1024 - length pre \<le> length r"
  proof -
    have f: "length (pre @ got) = 1024" using ne(2) assms(2) by (simp add: got_def)
    have tk: "pre @ got = take 1024 text" using t(1) assms(2) by (simp add: got_def)
    have lt: "1024 \<le> length text" using ne(2) t(1) by simp
    obtain j where j: "j < 1024" "\<not> isspace (text ! j)" using no_gap [OF t(2) lt] by blast
    have c: "?b ! k = Some (text ! k)" if "k < 1024" for k
      using that f tk lt by (metis length_map nth_append nth_map nth_take)
    then show ?thesis using f j by (auto simp: filled_def)
  qed
  then show ?thesis using l assms(1) e t(1)
    by (auto simp: window_def got_def not_less simp del: map_append)
qed

section \<open>Skipping spaces\<close>

text \<open>The state in which the reader waits: at the first letter of the next word, or at the end.\<close>

definition at_word :: "FileReader \<Rightarrow> char list \<Rightarrow> bool" where
  "at_word fr t \<longleftrightarrow> (if t = [] then fr_end fr \<le> fr_i fr \<and> fr_eof fr
     else buffered fr (fr_i fr) t \<and> fr_i fr < fr_end fr \<and> \<not> isspace (hd t))"

lemma window_cell: "window fr i text a (p # pre) b \<Longrightarrow> cell_load (fr_buf fr) i = Inr p"
  by (auto simp: window_def cell_load_def nth_append)

text \<open>Past the end of the data, over what earlier fills left.\<close>

lemma skip_stale:
  assumes "filled (fr_buf fr)" and "fr_eof fr" and "fr_end fr < fr_i fr" and "length (fr_buf fr) = 1025"
    and "j < 1024" and "fr_i fr \<le> j" and "\<exists>c. fr_buf fr ! j = Some c \<and> \<not> isspace c"
  shows "\<exists>fr'. run_loop skip_step fr = Inr fr' \<and> fr_end fr' \<le> fr_i fr' \<and> fr_eof fr'"
  using assms
proof (induction "j - fr_i fr" arbitrary: fr)
  case 0
  then have "fr_i fr = j" by simp
  then obtain c where "cell_load (fr_buf fr) (fr_i fr) = Inr c" "\<not> isspace c" using 0 by (auto simp: cell_load_def)
  then have "skip_step fr = Inr (True, fr)" using 0(4) by (simp add: skip_step_def skip_check_def)
  then show ?case using 0 by (auto simp: run_loop_step)
next
  case (Suc n)
  let ?fr = "fr\<lparr>fr_i := fr_i fr + 1\<rparr>"
  have "fr_i fr < 1024" using Suc.prems(5,6) by simp
  then obtain c where c: "cell_load (fr_buf fr) (fr_i fr) = Inr c" using Suc.prems(1,4) by (fastforce simp: filled_def cell_load_def)
  show ?case
  proof (cases "isspace c")
    case False
    then have "skip_step fr = Inr (True, fr)" using c Suc.prems(3) by (simp add: skip_step_def skip_check_def)
    then show ?thesis using Suc.prems by (auto simp: run_loop_step)
  next
    case True
    then have st: "skip_step fr = Inr (False, ?fr)" using c Suc.prems(3) by (simp add: skip_step_def skip_check_def)
    have "\<exists>fr'. run_loop skip_step ?fr = Inr fr' \<and> fr_end fr' \<le> fr_i fr' \<and> fr_eof fr'"
    proof (rule Suc.hyps(1))
      show "n = j - fr_i ?fr" "fr_i ?fr \<le> j" using Suc.hyps(2) by simp_all
    qed (use Suc.prems in simp_all)
    then show ?thesis using st by (simp add: run_loop_step)
  qed
qed

text \<open>One look at a buffer that holds the rest of the text.\<close>

lemma skip_check_window:
  assumes "window fr (fr_i fr) text a (p # pre) b"
  shows "skip_check fr = (if isspace p then Inr (False, fr\<lparr>fr_i := fr_i fr + 1\<rparr>) else Inr (True, fr))"
    and "window (fr\<lparr>fr_i := fr_i fr + 1\<rparr>) (fr_i fr + 1) (tl text) (a @ [Some p]) pre b"
    and "fr_i fr < fr_end fr" and "hd text = p"
  using window_cell [OF assms] assms by (auto simp: skip_check_def window_def)

lemma skip_ok:
  "buffered fr (fr_i fr) data \<Longrightarrow> text_file data \<Longrightarrow> \<exists>fr'. skipWhitespace fr = Inr fr' \<and> at_word fr' (dropWhile isspace data)"
proof (induction data arbitrary: fr)
  case Nil
  then obtain a pre b where w: "window fr (fr_i fr) [] a pre b" by (auto simp: buffered_def)
  then have pre: "pre = []" "fr_rest fr = []" "fr_i fr = fr_end fr" "length (fr_buf fr) = 1025" by (auto simp: window_def)
  show ?case
  proof (cases "fr_eof fr")
    case True
    then have "skip_step fr = Inr (True, fr)" using pre(3) by (simp add: skip_step_def)
    then show ?thesis using True pre(3) by (simp add: skipWhitespace_def run_loop_step at_word_def)
  next
    case False
    then have f: "filled (fr_buf fr)" using w unfolding window_def by blast
    then obtain j where j: "j < 1024" "\<exists>c. fr_buf fr ! j = Some c \<and> \<not> isspace c" by (auto simp: filled_def)
    let ?fr = "fr\<lparr>fr_end := 0, fr_i := 0, fr_eof := True\<rparr>"
    have "fr_buf fr = a @ map Some [] @ b" "length a = fr_i fr" using w pre(1) by (simp_all add: window_def)
    from fill_ok [OF this] have fl: "fillBuffer fr = Inr ?fr" using pre(2-4) False by simp
    have "fr_buf fr ! 0 \<noteq> None" using f by (simp add: filled_def)
    then obtain c where c: "cell_load (fr_buf fr) 0 = Inr c" using pre(4) by (auto simp: cell_load_def)
    show ?thesis
    proof (cases "isspace c")
      case sp: False
      then have "skip_step fr = Inr (True, ?fr)" using fl c False pre(3) by (simp add: skip_step_def skip_check_def)
      then show ?thesis by (simp add: skipWhitespace_def run_loop_step at_word_def)
    next
      case sp: True
      then have st: "skip_step fr = Inr (False, ?fr\<lparr>fr_i := 1\<rparr>)" using fl c False pre(3) by (simp add: skip_step_def skip_check_def)
      have "fr_buf fr ! 0 = Some c" using c pre(4) by (auto simp: cell_load_def split: if_splits option.splits)
      then have "j \<noteq> 0" using j(2) sp by (cases j) auto
      then have "\<exists>fr'. run_loop skip_step (?fr\<lparr>fr_i := 1\<rparr>) = Inr fr' \<and> fr_end fr' \<le> fr_i fr' \<and> fr_eof fr'"
        using f j pre(4) by (intro skip_stale [of _ j]) simp_all
      then show ?thesis using st by (auto simp: skipWhitespace_def run_loop_step at_word_def)
    qed
  qed
next
  case (Cons t ts)
  have tf: "text_file ts" using text_file_tail [of "[t]" ts] Cons.prems(2) by simp
  have look: "\<exists>fr'. res_bind (skip_check fr) (\<lambda>(stop, fr). if stop then Inr fr else skipWhitespace fr) = Inr fr' \<and> at_word fr' (dropWhile isspace (t # ts))"
    if w: "window fr (fr_i fr) (t # ts) a (p # pre) b" for fr a p pre b
  proof (cases "isspace t")
    case True
    have "buffered (fr\<lparr>fr_i := fr_i fr + 1\<rparr>) (fr_i (fr\<lparr>fr_i := fr_i fr + 1\<rparr>)) ts"
      using skip_check_window(2) [OF w] by (auto simp: buffered_def)
    from Cons.IH [OF this tf] show ?thesis using skip_check_window(1,4) [OF w] True by simp
  next
    case False
    then have "at_word fr (t # ts)" using w skip_check_window(3) [OF w] by (auto simp: at_word_def buffered_def)
    then show ?thesis using skip_check_window(1,4) [OF w] False by simp
  qed
  have loop: "skipWhitespace fr = res_bind (skip_step fr) (\<lambda>(stop, fr). if stop then Inr fr else skipWhitespace fr)"
    unfolding skipWhitespace_def by (cases "skip_step fr") (auto simp: run_loop_step split: if_splits)
  obtain a pre b where w: "window fr (fr_i fr) (t # ts) a pre b" using Cons.prems(1) by (auto simp: buffered_def)
  show ?case
  proof (cases pre)
    case (Cons p ps)
    then have "fr_i fr \<noteq> fr_end fr" using w by (auto simp: window_def)
    then have "skip_step fr = skip_check fr" by (simp add: skip_step_def)
    then show ?thesis using look w Cons loop by simp
  next
    case Nil
    then have n: "fr_i fr = fr_end fr" "fr_rest fr = t # ts" "length (fr_buf fr) = 1025" "fr_buf fr = a @ map Some [] @ b" "length a = fr_i fr" "\<not> fr_eof fr"
      using w by (auto simp: window_def)
    let ?got = "take 1024 (t # ts)"
    let ?fr = "\<lparr>fr_buf = map Some ([] @ ?got) @ drop (length ([] @ ?got)) (fr_buf fr), fr_end = length ([] @ ?got), fr_i = 0,
      fr_rest = drop 1024 (t # ts), fr_eof = False \<or> length (t # ts) < 1024\<rparr>"
    have fl: "fillBuffer fr = Inr ?fr"
      using fill_ok [OF n(4,5)] n by (simp del: take_Cons_numeral drop_Cons_numeral)
    have "window ?fr 0 (t # ts) [] ?got (drop (length ([] @ ?got)) (fr_buf fr))"
      using window_after_fill [of "fr_buf fr" "[]" "t # ts" "t # ts" False 0] n(3) Cons.prems(2) by (simp del: take_Cons_numeral drop_Cons_numeral)
    moreover have "?got = t # take 1023 ts" by simp
    ultimately have "window ?fr (fr_i ?fr) (t # ts) [] (t # take 1023 ts) (drop (length ([] @ ?got)) (fr_buf fr))" by simp
    from look [OF this] show ?thesis using loop n(1,6) fl by (simp add: skip_step_def del: take_Cons_numeral drop_Cons_numeral)
  qed
qed

section \<open>Reading a word\<close>

text \<open>The inner loop stops behind the word, with the whole word in the buffer.\<close>

lemma word_loop_ok:
  assumes "buffered fr s data" and "fr_i fr = s + k" and "s + k \<le> fr_end fr" and "s < fr_end fr" and "k \<le> length w"
    and d: "data = w @ c # rest" "text_file data" "\<forall>x \<in> set w. \<not> isspace x" "w \<noteq> []" "isspace c" "length w \<le> 512"
  shows "\<exists>s' fr'. run_loop word_step (s, fr) = Inr (s', fr') \<and> buffered fr' s' data \<and> fr_i fr' = s' + length w \<and> s' + length w < fr_end fr'"
  using assms(1-5)
proof (induction "length w - k" arbitrary: s fr k rule: less_induct)
  case less
  obtain a pre b where win: "window fr s data a pre b" using less.prems(1) by (auto simp: buffered_def)
  text \<open>Once the character behind the first \<open>k\<close> is in the buffer.\<close>
  have look: "\<exists>s' fr'. res_bind (word_check (s, fr)) (\<lambda>(stop, t). if stop then Inr t else run_loop word_step t) = Inr (s', fr') \<and>
      buffered fr' s' data \<and> fr_i fr' = s' + length w \<and> s' + length w < fr_end fr'"
    if v: "window fr s data a pre b" "fr_i fr = s + k" "k < length pre" for s fr a pre b
  proof -
    have e: "s + length pre = fr_end fr" "length a = s" "fr_buf fr = a @ map Some pre @ b" "pre ! k = (w @ c # rest) ! k"
      using v d(1) by (auto simp: window_def nth_append)
    have ld: "cell_load (fr_buf fr) (fr_i fr) = Inr ((w @ c # rest) ! k)"
      using e v(2,3) by (auto simp: cell_load_def nth_append)
    show ?thesis
    proof (cases "k = length w")
      case True
      then have "word_check (s, fr) = Inr (True, s, fr)" using ld d(5) by (simp add: word_check_def)
      then show ?thesis using v e True by (auto simp: buffered_def)
    next
      case False
      then have k: "k < length w" using less.prems(5) by simp
      let ?fr = "fr\<lparr>fr_i := fr_i fr + 1\<rparr>"
      have "\<not> isspace (w ! k)" using d(3) nth_mem [OF k] by blast
      then have st: "word_check (s, fr) = Inr (False, s, ?fr)" using ld k by (simp add: word_check_def nth_append)
      have b: "buffered ?fr s data" using v(1) by (auto simp: buffered_def window_def)
      have "length w - Suc k < length w - k" "fr_i ?fr = s + Suc k" "s + Suc k \<le> fr_end ?fr" "s < fr_end ?fr" "Suc k \<le> length w"
        using k v(2,3) e(1) by simp_all
      from less.hyps [OF this(1) b this(2-5)] show ?thesis using st by simp
    qed
  qed
  have loop: "run_loop word_step (s, fr) = res_bind (word_step (s, fr)) (\<lambda>(stop, t). if stop then Inr t else run_loop word_step t)"
    by (cases "word_step (s, fr)") (auto simp: run_loop_step split: if_splits)
  show ?case
  proof (cases "k < length pre")
    case True
    then have "word_step (s, fr) = word_check (s, fr)" using win less.prems(2) by (auto simp: word_step_def window_def)
    then show ?thesis using look [OF win less.prems(2) True] loop by simp
  next
    case False
    then have pre: "k = length pre" "fr_i fr = fr_end fr" "length pre \<le> 512" using win less.prems(2,3,5) d(6) by (auto simp: window_def)
    have r: "fr_rest fr \<noteq> []" using win d(1) pre(1) less.prems(5) by (auto simp: window_def)
    then have n: "\<not> fr_eof fr" "fr_end fr = 1024" "length (fr_buf fr) = 1025" "data = pre @ fr_rest fr" "pre \<noteq> []"
      "fr_buf fr = a @ map Some pre @ b" "length a = s" "s + length pre = fr_end fr"
      using win less.prems(4) by (auto simp: window_def)
    have hd: "\<not> isspace (hd pre)" using n(4,5) d(1,3,4) by (cases pre; cases w) auto
    let ?got = "take (1024 - length pre) (fr_rest fr)"
    let ?fr = "\<lparr>fr_buf = map Some (pre @ ?got) @ drop (length (pre @ ?got)) (fr_buf fr), fr_end = length (pre @ ?got), fr_i = length pre,
      fr_rest = drop (1024 - length pre) (fr_rest fr), fr_eof = False \<or> length (fr_rest fr) < 1024 - length pre\<rparr>"
    have fl: "fillBuffer (fr\<lparr>fr_i := s\<rparr>) = Inr ?fr"
      using fill_ok [of "fr\<lparr>fr_i := s\<rparr>" a pre b] n pre(3) by simp
    have ne: "data \<noteq> []" using d(1) by simp
    have "window ?fr 0 data [] (pre @ ?got) (drop (length (pre @ ?got)) (fr_buf fr))"
      using window_after_fill [OF n(3) _ n(4) d(2) _ _ ne, of False "length pre"] hd pre(3) by simp
    moreover have "fr_i ?fr = 0 + k" "k < length (pre @ ?got)" using pre(1,3) r by (cases "fr_rest fr"; simp)+
    ultimately have "\<exists>s' fr'. res_bind (word_check (0, ?fr)) (\<lambda>(stop, t). if stop then Inr t else run_loop word_step t) = Inr (s', fr') \<and>
      buffered fr' s' data \<and> fr_i fr' = s' + length w \<and> s' + length w < fr_end fr'" by (rule look)
    moreover have "word_step (s, fr) = word_check (0, ?fr)" using pre(2) n(1) fl by (simp add: word_step_def)
    ultimately show ?thesis using loop by simp
  qed
qed

lemma filled_update: "filled buf \<Longrightarrow> i < length buf \<Longrightarrow> \<not> isspace x \<Longrightarrow> filled (buf[i := Some x])"
  unfolding filled_def by (metis nth_list_update_eq nth_list_update_neq option.discI)

lemma NUL_no_space [simp]: "\<not> isspace NUL"
  by (simp add: isspace_def)

text \<open>A call of \<open>visit\<close> delivers the next word and waits at the one after it.\<close>

lemma visit_ok:
  assumes at: "at_word fr data" and t: "text_file data" "data \<noteq> []" and r: "Row_repr r [Str] [None]"
  shows "\<exists>w ws r' fr' data'. words data = w # ws \<and> FileReader_visit r fr = Inr (r', fr') \<and> Row_repr r' [Str] [Some (SElem (String_lit w))] \<and>
    at_word fr' data' \<and> text_file data' \<and> words data' = ws"
proof -
  have b: "buffered fr (fr_i fr) data" "fr_i fr < fr_end fr" "\<not> isspace (hd data)" using at t(2) by (simp_all add: at_word_def)
  obtain w c rest where d: "data = w @ c # rest" "\<forall>x \<in> set w. \<not> isspace x" "w \<noteq> []" "isspace c" "length w \<le> 512" "NUL \<notin> set w"
    using first_word [OF t b(3)] by blast
  obtain a pre0 b' where w0: "window fr (fr_i fr) data a pre0 b'" using b(1) by (auto simp: buffered_def)
  then have "pre0 \<noteq> []" using b(2) by (auto simp: window_def)
  with w0 obtain p pre where win: "window fr (fr_i fr) data a (p # pre) b'" by (cases pre0) auto
  then have p: "cell_load (fr_buf fr) (fr_i fr) = Inr p" "\<not> isspace p"
    using window_cell [OF win] skip_check_window(4) [OF win] b(3) by simp_all
  obtain s fr1 where 1: "run_loop word_step (fr_i fr, fr) = Inr (s, fr1)" "buffered fr1 s data" "fr_i fr1 = s + length w" "s + length w < fr_end fr1"
    using word_loop_ok [OF b(1) _ _ b(2) _ d(1) t(1) d(2-5), of 0] b(2) by auto
  obtain a1 pre1 b1 where v: "window fr1 s data a1 pre1 b1" using 1(2) by (auto simp: buffered_def)
  have l: "length w < length pre1" "length a1 = s" "data = pre1 @ fr_rest fr1" "fr_buf fr1 = a1 @ map Some pre1 @ b1" "length (fr_buf fr1) = 1025"
    using v 1(4) by (auto simp: window_def)
  define pre2 where "pre2 = drop (length w + 1) pre1"
  have pre1: "pre1 = w @ c # pre2" "rest = pre2 @ fr_rest fr1"
  proof -
    have tk: "take (length w + 1) pre1 = w @ [c]"
      using arg_cong [OF l(3), of "take (length w + 1)"] l(1) d(1) by simp
    then show "pre1 = w @ c # pre2" using append_take_drop_id [of "length w + 1" pre1] by (simp add: pre2_def)
    then show "rest = pre2 @ fr_rest fr1" using l(3) d(1) by simp
  qed
  define buf where "buf = (fr_buf fr1)[fr_i fr1 := Some NUL]"
  have buf: "buf = (a1 @ map Some w @ [Some NUL]) @ map Some pre2 @ b1"
    using l(2,4) 1(3) pre1(1) by (simp add: buf_def list_update_append)
  have st: "cell_store (fr_buf fr1) (fr_i fr1) NUL = Inr buf" using l 1(3) by (simp add: cell_store_def buf_def)
  have "take (length w + 1) (drop s buf) = map Some (w @ [NUL])" using l(2) by (simp add: buf)
  then have cs: "cells_load buf s (length w + 1) = Inr (w @ [NUL])"
    using l(1,2,5) by (simp only: cells_load_def all_some_map) (simp add: buf_def l(4))
  have word: "String_make (w @ [NUL]) (length w) = Inr (String_lit w)" by (simp add: String_make_def String_lit_def)
  have "length w < 2 ^ 64" using d(5) by simp
  then have wf: "value_of_type Str (SElem (String_lit w))" using d(6) by (simp add: cstr_ok_def)
  obtain r' where r': "Row_set_string 0 (String_lit w) r = Inr r'" "Row_repr r' [Str] [Some (SElem (String_lit w))]"
    using Row_set_value_repr [OF r wf, of 0] by auto
  let ?fr = "fr1\<lparr>fr_buf := buf, fr_i := fr_i fr1 + 1\<rparr>"
  have i: "fr_i fr1 < length (fr_buf fr1)" using l 1(3) by simp
  have "window ?fr (fr_i ?fr) rest (a1 @ map Some w @ [Some NUL]) pre2 b1"
    using v buf pre1 l(2,5) 1(3) filled_update [OF _ i NUL_no_space] by (auto simp: window_def buf_def)
  then have "buffered ?fr (fr_i ?fr) rest" unfolding buffered_def by blast
  moreover have tr: "text_file rest" using text_file_tail [of "w @ [c]" rest] t(1) d(1) by simp
  ultimately obtain fr' where fr': "skipWhitespace ?fr = Inr fr'" "at_word fr' (dropWhile isspace rest)" using skip_ok by blast
  have "text_file (dropWhile isspace rest)" using text_file_tail [of "takeWhile isspace rest"] tr by simp
  moreover have "words data = w # words (dropWhile isspace rest)" using words_word [OF d(2-4)] d(1) by (simp add: words_skip)
  moreover have "FileReader_visit r fr = Inr (r', fr')"
    using b(2) p 1(1,3) st cs word r'(1) fr'(1) by (simp add: FileReader_visit_def)
  ultimately show ?thesis using r'(2) fr'(2) by blast
qed

text \<open>The constructor.\<close>

lemma FileReader_new_ok:
  assumes "files FILE_NAME = Some t" and "text_file t"
  shows "\<exists>fr data. FileReader_new files = Inr fr \<and> at_word fr data \<and> text_file data \<and> words data = words t"
proof -
  let ?ini = "\<lparr>fr_buf = new_cells 1025, fr_end = 0, fr_i = 0, fr_rest = t, fr_eof = False\<rparr>"
  let ?got = "take 1024 t"
  let ?fr = "\<lparr>fr_buf = map Some ([] @ ?got) @ drop (length ([] @ ?got)) (new_cells 1025), fr_end = length ([] @ ?got), fr_i = 0,
      fr_rest = drop 1024 t, fr_eof = False \<or> length t < 1024\<rparr>"
  have fl: "fillBuffer ?ini = Inr ?fr" by (subst fill_ok [where a = "[]" and pre = "[]" and b = "new_cells 1025"]) simp_all
  have "window ?fr 0 t [] ?got (drop (length ([] @ ?got)) (new_cells 1025))"
  proof (cases "t = []")
    case False
    then show ?thesis using window_after_fill [of "new_cells 1025" "[]" t t False 0] assms(2) by simp
  qed (simp add: window_def)
  then have "buffered ?fr (fr_i ?fr) t" unfolding buffered_def by auto
  from skip_ok [OF this assms(2)] obtain fr where "skipWhitespace ?fr = Inr fr" "at_word fr (dropWhile isspace t)" by blast
  moreover have "text_file (dropWhile isspace t)" using text_file_tail [of "takeWhile isspace t"] assms(2) by simp
  ultimately show ?thesis using fl assms(1) words_skip by (auto simp: FileReader_new_def FileReader_BUFSIZE_def)
qed

section \<open>The contract of a writer\<close>

definition word_rows :: "char list list \<Rightarrow> RowValue list list" where
  "word_rows = map (\<lambda>w. [SElem (String_lit w)])"

definition reader_todo :: "FileReader \<Rightarrow> RowValue list list \<Rightarrow> bool" where
  "reader_todo fr rows \<longleftrightarrow> (\<exists>data. at_word fr data \<and> text_file data \<and> rows = word_rows (words data))"

definition reader_ready :: "FileReader \<Rightarrow> RowValue list list \<Rightarrow> bool" where
  "reader_ready fr rows \<longleftrightarrow> reader_todo fr rows \<and> rows \<noteq> []"

lemma at_word_words: "at_word fr data \<Longrightarrow> words data = [] \<longleftrightarrow> data = []"
  by (cases data) (auto simp: at_word_def)

interpretation file_reader: row_writer FileReader_methods "[Str]" reader_todo reader_ready
proof unfold_locales
  fix fr rows
  assume t: "reader_todo fr rows"
  then obtain data where d: "at_word fr data" "rows = word_rows (words data)" by (auto simp: reader_todo_def)
  have "rows = [] \<longleftrightarrow> data = []" using d at_word_words by (simp add: word_rows_def)
  then have "FileReader_done fr = Inr (rows = [], fr)" using d(1) by (auto simp: FileReader_done_def at_word_def)
  then show "\<exists>w'. wr_done FileReader_methods fr = Inr (rows = [], w') \<and> (rows \<noteq> [] \<longrightarrow> reader_ready w' rows)"
    using t by (auto simp: FileReader_methods_def reader_ready_def)
next
  fix fr row rows r
  assume "reader_ready fr (row # rows)" and r: "Row_repr r [Str] (replicate (length [Str]) None)"
  then obtain data where d: "at_word fr data" "text_file data" "row # rows = word_rows (words data)" by (auto simp: reader_ready_def reader_todo_def)
  then have "data \<noteq> []" by (auto simp: word_rows_def)
  from visit_ok [OF d(1,2) this] r d(3)
  show "\<exists>r' w'. wr_visit FileReader_methods r fr = Inr (r', w') \<and> Row_repr r' [Str] (map Some row) \<and> reader_todo w' rows"
    by (fastforce simp: FileReader_methods_def reader_todo_def word_rows_def)
qed

interpretation cluster_file_reader: frame_writer "cluster_put i" "cluster_get i" "cluster_inv n i" "cluster_val n" "\<lambda>k. home k < n"
  FileReader_methods "[Str]" reader_todo reader_ready for i n
  by unfold_locales

end
