(* ===== verification/WordMap.thy ===== *)
theory WordMap
  imports WordRead
begin

text \<open>
  The maps of the word count: \<open>Num\<close> (\<open>src/utils/num.h\<close>), \<open>SIMap\<close> from strings to numbers
  (\<open>src/utils/map.h\<close>), \<open>Adder\<close>, which counts the words of the rows it reads
  (\<open>src/filereader/adder.h\<close>), and \<open>Summer\<close>, which writes the entries of a map as rows
  (\<open>src/filereader/summer.h\<close>). \<open>counted\<close> is the map an \<open>Adder\<close> makes of a list of words, and
  \<open>Summer\<close> writes every entry of its map once.
\<close>

section \<open>Num and SIMap\<close>

text \<open>\<open>val_\<close> is an \<open>int\<close>; adding one to the largest wraps, as the machine's addition does.\<close>

record Num =
  nm_val :: u32

definition Num_new :: Num where
  "Num_new = \<lparr>nm_val = 0\<rparr>"

definition Num_of :: "u32 \<Rightarrow> Num" where
  "Num_of val = \<lparr>nm_val = val\<rparr>"

definition Num_asInt :: "Num \<Rightarrow> u32" where
  "Num_asInt n = nm_val n"

definition Num_clone :: "Num \<Rightarrow> Num" where
  "Num_clone n = Num_of (nm_val n)"

definition Num_equals :: "Num \<Rightarrow> Num \<Rightarrow> bool" where
  "Num_equals this other \<longleftrightarrow> nm_val this = nm_val other"

type_synonym SIMap = "(String, Num) hmap"

definition SIMap_new :: SIMap where
  "SIMap_new = Map_default"

definition SIMap_get :: "String \<Rightarrow> SIMap \<Rightarrow> Num option res" where
  "SIMap_get key m = Map_get String_vt (Some key) m"

definition SIMap_set :: "String \<Rightarrow> Num option \<Rightarrow> SIMap \<Rightarrow> SIMap res" where
  "SIMap_set k v m =
     res_bind (res_assert (v \<noteq> None)) (\<lambda>_. res_bind (Map_put String_vt (Some k) v m) (\<lambda>(_, m). Inr m))"

text \<open>The copy constructor: every key and value of the other map is cloned and set.\<close>

definition SIMap_copy :: "SIMap \<Rightarrow> SIMap res" where
  "SIMap_copy other =
     res_bind (Map_get_keys other) (\<lambda>keys.
     res_bind (Map_get_values other) (\<lambda>vals.
     res_fold (\<lambda>i m.
       res_bind (cell_load keys i) (\<lambda>k. res_bind (String_copy k) (\<lambda>k.
       res_bind (cell_load vals i) (\<lambda>n. SIMap_set k (Some (Num_clone n)) m)))) [0..<hm_size other] SIMap_new))"

section \<open>Adder\<close>

definition Adder_visit :: "Row \<Rightarrow> SIMap \<Rightarrow> SIMap res" where
  "Adder_visit r m =
     res_bind (get_string_clone 0 r) (\<lambda>word.
     res_bind (Map_contains_key String_vt (Some word) m) (\<lambda>seen.
     res_bind (if seen then res_bind (SIMap_get word m) (\<lambda>n. case n of None \<Rightarrow> Inl NullDeref | Some n \<Rightarrow> Inr (Num_clone n))
       else Inr Num_new) (\<lambda>num.
     let num = num\<lparr>nm_val := nm_val num + 1\<rparr> in
     res_bind (String_copy word) (\<lambda>key.
     res_bind (Map_put String_vt (Some key) (Some (Num_clone num)) m) (\<lambda>(_, m). Inr m)))))"

section \<open>Summer\<close>

record Summer =
  su_i :: nat
  su_j :: nat
  su_seen :: nat

definition Summer_new :: Summer where
  "Summer_new = \<lparr>su_i = 0, su_j = 0, su_seen = 0\<rparr>"

text \<open>\<open>while (i < map_.capacity_ && !map_.buckets_[i]) i++\<close>\<close>

function skip_null :: "SIMap \<Rightarrow> nat \<Rightarrow> nat res" where
  "skip_null m i =
     (if i < hm_capacity m then res_bind (Map_bucket m i) (\<lambda>b. if b = [] then skip_null m (i + 1) else Inr i) else Inr i)"
  by pat_completeness auto
termination by (relation "measure (\<lambda>(m, i). hm_capacity m - i)") auto

declare skip_null.simps [simp del]

definition Summer_next :: "SIMap \<Rightarrow> Summer \<Rightarrow> Summer res" where
  "Summer_next m su =
     (if su_i su = hm_capacity m then Inr su
      else res_bind (Map_bucket m (su_i su)) (\<lambda>b.
        if b \<noteq> [] \<and> su_j su < Entry_length b then Inr (su\<lparr>su_j := su_j su + 1, su_seen := su_seen su + 1\<rparr>)
        else res_bind (skip_null m (su_i su + 1)) (\<lambda>i. Inr (su\<lparr>su_i := i, su_j := 0\<rparr>))))"

text \<open>The bucket the writer is in, if it is at one of its entries.\<close>

definition Summer_bucket :: "SIMap \<Rightarrow> Summer \<Rightarrow> (String, Num) entries option res" where
  "Summer_bucket m su =
     (if su_i su = hm_capacity m then Inr None
      else res_bind (Map_bucket m (su_i su)) (\<lambda>b. Inr (if b = [] \<or> su_j su = Entry_length b then None else Some b)))"

definition Summer_k :: "SIMap \<Rightarrow> Summer \<Rightarrow> String option res" where
  "Summer_k m su =
     res_bind (Summer_bucket m su) (\<lambda>b. case b of
       None \<Rightarrow> Inr None
     | Some b \<Rightarrow> res_bind (Entry_getKey b (su_j su)) (\<lambda>k. Inr (Some k)))"

text \<open>The \<open>int\<close> is returned as a \<open>size_t\<close>.\<close>

definition Summer_v :: "SIMap \<Rightarrow> Summer \<Rightarrow> u64 res" where
  "Summer_v m su =
     res_bind (Summer_bucket m su) (\<lambda>b. case b of
       None \<Rightarrow> Inl AssertFail
     | Some b \<Rightarrow> res_bind (Entry_getValue b (su_j su)) (\<lambda>n. Inr (scast (Num_asInt n))))"

definition Summer_visit :: "SIMap \<Rightarrow> Row \<Rightarrow> Summer \<Rightarrow> (Row \<times> Summer) res" where
  "Summer_visit m r su =
     res_bind (Summer_k m su) (\<lambda>k.
     res_bind (if k = None then Summer_next m su else Inr su) (\<lambda>su.
     res_bind (Summer_k m su) (\<lambda>k. case k of
       None \<Rightarrow> Inl NullDeref
     | Some key \<Rightarrow>
         res_bind (Summer_v m su) (\<lambda>v.
         res_bind (Row_set_string 0 key r) (\<lambda>r.
         res_bind (Row_set_int 1 (ucast v) r) (\<lambda>r.
         res_bind (Summer_next m su) (\<lambda>su. Inr (r, su))))))))"

definition Summer_done :: "SIMap \<Rightarrow> Summer \<Rightarrow> (bool \<times> Summer) res" where
  "Summer_done m su = Inr (su_seen su = hm_size m, su)"

definition Summer_methods :: "SIMap \<Rightarrow> Summer Writer" where
  "Summer_methods m = \<lparr>wr_done = Summer_done m, wr_visit = Summer_visit m\<rparr>"

section \<open>Counting\<close>

definition bump :: "String \<Rightarrow> (String \<rightharpoonup> Num) \<Rightarrow> String \<rightharpoonup> Num" where
  "bump s f = f(s \<mapsto> \<lparr>nm_val = (case f s of None \<Rightarrow> 0 | Some n \<Rightarrow> nm_val n) + 1\<rparr>)"

definition counted :: "String list \<Rightarrow> String \<rightharpoonup> Num" where
  "counted ss s = (if s \<in> set ss then Some \<lparr>nm_val = of_nat (count_list ss s)\<rparr> else None)"

lemma bump_counted: "bump s (counted ss) = counted (ss @ [s])"
  by (rule ext) (auto simp: bump_def counted_def count_notin)

lemma fold_bump: "fold bump ss Map.empty = counted ss"
proof (induction ss rule: rev_induct)
  case Nil
  then show ?case by (auto simp: counted_def)
qed (simp add: bump_counted)

lemma dom_counted [simp]: "dom (counted ss) = set ss"
  by (auto simp: counted_def dom_def split: if_splits)

definition SIMap_ok :: "SIMap \<Rightarrow> bool" where
  "SIMap_ok m \<longleftrightarrow> Map_inv String_vt String_wf m"

definition adder_see :: "nat \<Rightarrow> RowValue list \<Rightarrow> SIMap \<Rightarrow> SIMap" where
  "adder_see i x m = ok_of (res_bind (Map_put String_vt (Some (as_string (x ! 0)))
     (Some \<lparr>nm_val = (case Map_abs m (as_string (x ! 0)) of None \<Rightarrow> 0 | Some n \<Rightarrow> nm_val n) + 1\<rparr>) m) (\<lambda>(_, m). Inr m)) m"

lemma String_copy_wf: "String_wf s \<Longrightarrow> String_copy s = Inr s"
  by (auto elim: String_wfE)

lemma adder_see_ok:
  assumes "SIMap_ok m" and "String_wf (as_string (x ! 0))"
  shows "SIMap_ok (adder_see i x m)" and "Map_abs (adder_see i x m) = bump (as_string (x ! 0)) (Map_abs m)"
  using String_key.put_correct [OF assms [unfolded SIMap_ok_def], of "\<lparr>nm_val = (case Map_abs m (as_string (x ! 0)) of None \<Rightarrow> 0 | Some n \<Rightarrow> nm_val n) + 1\<rparr>"]
  by (auto simp: adder_see_def SIMap_ok_def bump_def)

lemma Adder_visit_ok:
  assumes m: "SIMap_ok m" and r: "Row_repr r (Str # ts) (map Some x)"
  shows "Adder_visit r m = Inr (adder_see i x m)" and "String_wf (as_string (x ! 0))"
proof -
  let ?s = "as_string (x ! 0)"
  have s: "map Some x ! 0 = Some (x ! 0)" using Row_reprD(4) [OF r] by simp
  have "value_of_type Str (x ! 0)" using Row_reprD(6) [OF r _ s] by simp
  then show wf: "String_wf ?s" by (cases "x ! 0") simp_all
  have g: "get_string_clone 0 r = Inr ?s" using row_getters(4) [OF r _ s] by simp
  note inv = m [unfolded SIMap_ok_def]
  have "Map_contains_key String_vt (Some ?s) m = Inr (Map_abs m ?s \<noteq> None)" using String_key.contains_correct [OF inv wf] .
  moreover have "Map_get String_vt (Some ?s) m = Inr (Map_abs m ?s)" using String_key.get_correct [OF inv wf] .
  moreover obtain m' where "Map_put String_vt (Some ?s) (Some \<lparr>nm_val = (case Map_abs m ?s of None \<Rightarrow> 0 | Some n \<Rightarrow> nm_val n) + 1\<rparr>) m = Inr (Map_abs m ?s, m')"
    using String_key.put_correct [OF inv wf] by blast
  ultimately show "Adder_visit r m = Inr (adder_see i x m)"
    using g String_copy_wf [OF wf]
    by (cases "Map_abs m ?s") (auto simp: Adder_visit_def SIMap_get_def adder_see_def Num_clone_def Num_of_def Num_new_def)
qed

interpretation adder: row_reader Adder_visit "Str # ts" adder_see SIMap_ok for ts
  using Adder_visit_ok adder_see_ok by unfold_locales blast

interpretation cluster_adder: frame_reader "cluster_put i" "cluster_get i" "cluster_inv n i" "cluster_val n" "\<lambda>k. home k < n"
  Adder_visit "Str # ts" adder_see SIMap_ok for i n ts
  by unfold_locales

lemma adder_fold:
  assumes "SIMap_ok m" and "\<forall>i \<in> set is. String_wf (as_string (f i ! 0))"
  shows "SIMap_ok (fold (\<lambda>i. adder_see i (f i)) is m) \<and>
    Map_abs (fold (\<lambda>i. adder_see i (f i)) is m) = fold bump (map (\<lambda>i. as_string (f i ! 0)) is) (Map_abs m)"
  using assms
proof (induction "is" arbitrary: m)
  case (Cons i "is")
  then show ?case using adder_see_ok [of m "f i" i] by simp
qed simp

section \<open>Summer writes the entries\<close>

definition entry_row :: "String \<times> Num \<Rightarrow> RowValue list" where
  "entry_row e = [SElem (fst e), IElem (nm_val (snd e))]"

text \<open>The entries from position \<open>(i, j)\<close> on.\<close>

definition entries_from :: "SIMap \<Rightarrow> nat \<Rightarrow> nat \<Rightarrow> (String, Num) entries" where
  "entries_from m i j = drop j (hm_buckets m ! i) @ concat (drop (Suc i) (hm_buckets m))"

definition summer_at :: "SIMap \<Rightarrow> Summer \<Rightarrow> bool" where
  "summer_at m su \<longleftrightarrow> SIMap_ok m \<and> su_i su < hm_capacity m \<and> su_j su \<le> length (hm_buckets m ! su_i su) \<and>
     su_seen su + length (entries_from m (su_i su) (su_j su)) = hm_size m"

definition summer_todo :: "SIMap \<Rightarrow> Summer \<Rightarrow> RowValue list list \<Rightarrow> bool" where
  "summer_todo m su rows \<longleftrightarrow> summer_at m su \<and> rows = map entry_row (entries_from m (su_i su) (su_j su))"

definition summer_ready :: "SIMap \<Rightarrow> Summer \<Rightarrow> RowValue list list \<Rightarrow> bool" where
  "summer_ready m su rows \<longleftrightarrow> summer_todo m su rows \<and> rows \<noteq> []"

lemma Entry_length_length [simp]: "Entry_length es = length es"
  by (induction es) auto

lemma Entry_get_nth: "j < length es \<Longrightarrow> Entry_getKey es j = Inr (fst (es ! j)) \<and> Entry_getValue es j = Inr (snd (es ! j))"
proof (induction es arbitrary: j)
  case (Cons e es)
  then show ?case by (cases e; cases j) auto
qed simp

lemma SIMap_ok_buckets: "SIMap_ok m \<Longrightarrow> length (hm_buckets m) = hm_capacity m" "SIMap_ok m \<Longrightarrow> 0 < hm_capacity m"
  by (simp_all add: SIMap_ok_def Map_inv_def)

lemma skip_null_ok:
  assumes "SIMap_ok m" and "concat (drop i (hm_buckets m)) \<noteq> []"
  shows "\<exists>i'. skip_null m i = Inr i' \<and> i' < hm_capacity m \<and> hm_buckets m ! i' \<noteq> [] \<and> entries_from m i' 0 = concat (drop i (hm_buckets m))"
  using assms
proof (induction m i rule: skip_null.induct)
  case (1 m i)
  note n = SIMap_ok_buckets(1) [OF 1(2)]
  have i: "i < length (hm_buckets m)" using 1(3) by (cases "i < length (hm_buckets m)") auto
  have d: "drop i (hm_buckets m) = hm_buckets m ! i # drop (Suc i) (hm_buckets m)" using i by (rule Cons_nth_drop_Suc [symmetric])
  have b: "Map_bucket m i = Inr (hm_buckets m ! i)" using i by (simp add: Map_bucket_def)
  show ?case
  proof (cases "hm_buckets m ! i = []")
    case True
    have e: "concat (drop (i + 1) (hm_buckets m)) = concat (drop i (hm_buckets m))" using d True by simp
    have ne: "concat (drop (i + 1) (hm_buckets m)) \<noteq> []" unfolding e by (rule 1(3))
    have "i < hm_capacity m" using i n by simp
    from 1(1) [OF this b True 1(2) ne] show ?thesis unfolding e using i n b True by (subst skip_null.simps) (simp del: concat_eq_Nil_conv)
  next
    case False
    then show ?thesis using i n b d by (subst skip_null.simps) (simp add: entries_from_def)
  qed
qed

lemma Summer_next_step:
  assumes "summer_at m su" and "su_j su < length (hm_buckets m ! su_i su)"
  shows "Summer_next m su = Inr (su\<lparr>su_j := su_j su + 1, su_seen := su_seen su + 1\<rparr>)"
    and "summer_at m (su\<lparr>su_j := su_j su + 1, su_seen := su_seen su + 1\<rparr>)"
    and "entries_from m (su_i su) (su_j su) = hm_buckets m ! su_i su ! su_j su # entries_from m (su_i su) (su_j su + 1)"
proof -
  have s: "SIMap_ok m" "su_i su < length (hm_buckets m)" "su_i su \<noteq> hm_capacity m" using assms(1) SIMap_ok_buckets by (auto simp: summer_at_def)
  show e: "entries_from m (su_i su) (su_j su) = hm_buckets m ! su_i su ! su_j su # entries_from m (su_i su) (su_j su + 1)"
    using Cons_nth_drop_Suc [OF assms(2)] by (simp add: entries_from_def)
  have "hm_buckets m ! su_i su \<noteq> []" using assms(2) by auto
  then show "Summer_next m su = Inr (su\<lparr>su_j := su_j su + 1, su_seen := su_seen su + 1\<rparr>)"
    using s assms(2) by (simp add: Summer_next_def Map_bucket_def)
  show "summer_at m (su\<lparr>su_j := su_j su + 1, su_seen := su_seen su + 1\<rparr>)" using assms e by (simp add: summer_at_def)
qed

text \<open>At an entry, \<open>k\<close> and \<open>v\<close> are its key and value.\<close>

lemma Summer_entry:
  assumes "summer_at m su" and "su_j su < length (hm_buckets m ! su_i su)"
  shows "Summer_k m su = Inr (Some (fst (hm_buckets m ! su_i su ! su_j su)))"
    and "Summer_v m su = Inr (scast (nm_val (snd (hm_buckets m ! su_i su ! su_j su))))"
proof -
  have s: "su_i su < length (hm_buckets m)" "su_i su \<noteq> hm_capacity m" using assms(1) SIMap_ok_buckets by (auto simp: summer_at_def)
  have "hm_buckets m ! su_i su \<noteq> []" using assms(2) by auto
  then have "Summer_bucket m su = Inr (Some (hm_buckets m ! su_i su))" using s assms(2) by (simp add: Summer_bucket_def Map_bucket_def)
  then show "Summer_k m su = Inr (Some (fst (hm_buckets m ! su_i su ! su_j su)))"
    "Summer_v m su = Inr (scast (nm_val (snd (hm_buckets m ! su_i su ! su_j su))))"
    using Entry_get_nth [OF assms(2)] by (simp_all add: Summer_k_def Summer_v_def Num_asInt_def)
qed

text \<open>Moving to an entry, if there is one left.\<close>

lemma Summer_move:
  assumes at: "summer_at m su" and ne: "entries_from m (su_i su) (su_j su) \<noteq> []"
  shows "\<exists>su'. res_bind (Summer_k m su) (\<lambda>k. if k = None then Summer_next m su else Inr su) = Inr su' \<and> summer_at m su' \<and>
    su_j su' < length (hm_buckets m ! su_i su') \<and> entries_from m (su_i su') (su_j su') = entries_from m (su_i su) (su_j su)"
proof (cases "su_j su < length (hm_buckets m ! su_i su)")
  case True
  then show ?thesis using Summer_entry(1) [OF at True] at by simp
next
  case False
  have s: "SIMap_ok m" "su_i su < length (hm_buckets m)" "su_i su \<noteq> hm_capacity m" "su_j su = length (hm_buckets m ! su_i su)"
    using at False SIMap_ok_buckets by (auto simp: summer_at_def)
  then have e: "concat (drop (Suc (su_i su)) (hm_buckets m)) \<noteq> []" "entries_from m (su_i su) (su_j su) = concat (drop (Suc (su_i su)) (hm_buckets m))"
    using ne by (simp_all add: entries_from_def)
  obtain i where i: "skip_null m (Suc (su_i su)) = Inr i" "i < hm_capacity m" "hm_buckets m ! i \<noteq> []" "entries_from m i 0 = entries_from m (su_i su) (su_j su)"
    using skip_null_ok [OF s(1) e(1)] e(2) by auto
  have "Summer_k m su = Inr None" using s by (simp add: Summer_k_def Summer_bucket_def Map_bucket_def)
  moreover have "Summer_next m su = Inr (su\<lparr>su_i := i, su_j := 0\<rparr>)" using s i(1) by (simp add: Summer_next_def Map_bucket_def)
  ultimately show ?thesis using i at by (simp add: summer_at_def)
qed

lemma ucast_scast_32: "ucast (scast (x :: u32) :: u64) = x"
proof (rule bit_word_eqI)
  fix n
  assume "n < LENGTH(32)"
  then have "n < 31 \<or> n = 31" by auto
  then show "bit (ucast (scast x :: u64) :: u32) n = bit x n" by (auto simp: bit_simps min_def)
qed

interpretation summer: row_writer "Summer_methods m" "[Str, Integer]" "summer_todo m" "summer_ready m" for m
proof unfold_locales
  fix su rows
  assume t: "summer_todo m su rows"
  then have "su_seen su = hm_size m \<longleftrightarrow> rows = []" by (auto simp: summer_todo_def summer_at_def)
  then show "\<exists>w'. wr_done (Summer_methods m) su = Inr (rows = [], w') \<and> (rows \<noteq> [] \<longrightarrow> summer_ready m w' rows)"
    using t by (simp add: Summer_methods_def Summer_done_def summer_ready_def)
next
  fix su row rows r
  assume "summer_ready m su (row # rows)" and r: "Row_repr r [Str, Integer] (replicate (length [Str, Integer]) None)"
  then have at: "summer_at m su" and e: "row # rows = map entry_row (entries_from m (su_i su) (su_j su))" by (auto simp: summer_ready_def summer_todo_def)
  then have "entries_from m (su_i su) (su_j su) \<noteq> []" by auto
  from Summer_move [OF at this] obtain su1 where 1:
    "res_bind (Summer_k m su) (\<lambda>k. if k = None then Summer_next m su else Inr su) = Inr su1" "summer_at m su1"
    "su_j su1 < length (hm_buckets m ! su_i su1)" "entries_from m (su_i su1) (su_j su1) = entries_from m (su_i su) (su_j su)" by blast
  let ?e = "hm_buckets m ! su_i su1 ! su_j su1"
  note n = Summer_next_step [OF 1(2,3)]
  have row: "row = entry_row ?e" "rows = map entry_row (entries_from m (su_i su1) (su_j su1 + 1))" 
    using e unfolding 1(4) [symmetric] n(3) by simp_all
  have "String_wf (fst ?e)"
  proof -
    have "?e \<in> set (Map_entries m)" unfolding Map_entries_def using 1(2,3) SIMap_ok_buckets(1) [of m] nth_mem by (fastforce simp: summer_at_def)
    then show ?thesis using Map_inv_keys_ok [of String_vt String_wf m "fst ?e" "snd ?e"] 1(2) by (simp add: summer_at_def SIMap_ok_def)
  qed
  then have v: "value_of_type Str (SElem (fst ?e))" by simp
  obtain r1 where r1: "Row_set_string 0 (fst ?e) r = Inr r1" "Row_repr r1 [Str, Integer] [Some (SElem (fst ?e)), None]"
    using Row_set_value_repr [OF r v, of 0] by (auto simp: numeral_2_eq_2)
  have v2: "value_of_type Integer (IElem (nm_val (snd ?e)))" by simp
  obtain r2 where r2: "Row_set_int 1 (nm_val (snd ?e)) r1 = Inr r2" "Row_repr r2 [Str, Integer] (map Some row)"
    using Row_set_value_repr [OF r1(2) v2, of 1] unfolding row(1) entry_row_def by auto
  obtain k where k: "Summer_k m su = Inr k" "(if k = None then Summer_next m su else Inr su) = Inr su1" using 1(1) by (auto simp: res_bind_Inr_iff)
  have "Summer_visit m r su = Inr (r2, su1\<lparr>su_j := su_j su1 + 1, su_seen := su_seen su1 + 1\<rparr>)"
    using k Summer_entry [OF 1(2,3)] r1(1) r2(1) n(1) by (simp add: Summer_visit_def ucast_scast_32)
  then show "\<exists>r' w'. wr_visit (Summer_methods m) r su = Inr (r', w') \<and> Row_repr r' [Str, Integer] (map Some row) \<and> summer_todo m w' rows"
    using r2(2) n(2) row(2) by (auto simp: Summer_methods_def summer_todo_def)
qed

interpretation cluster_summer_writer: frame_writer "cluster_put i" "cluster_get i" "cluster_inv n i" "cluster_val n" "\<lambda>k. home k < n"
  "Summer_methods m" "[Str, Integer]" "summer_todo m" "summer_ready m" for i n m
  by unfold_locales

lemma summer_start: "SIMap_ok m \<Longrightarrow> summer_todo m Summer_new (map entry_row (Map_entries m))"
proof -
  assume m: "SIMap_ok m"
  have "0 < length (hm_buckets m)" using m SIMap_ok_buckets by simp
  then have "entries_from m 0 0 = Map_entries m" by (cases "hm_buckets m") (simp_all add: entries_from_def Map_entries_def)
  then show ?thesis using m SIMap_ok_buckets(2) [OF m]
    by (simp add: summer_todo_def summer_at_def Summer_new_def SIMap_ok_def Map_inv_def)
qed

section \<open>The copy of a map\<close>

text \<open>The copy constructor rebuilds the map, although in buckets of its own.\<close>

lemma SIMap_copy_ok:
  assumes "SIMap_ok m"
  shows "\<exists>m'. SIMap_copy m = Inr m' \<and> SIMap_ok m' \<and> Map_abs m' = Map_abs m"
proof -
  let ?es = "Map_entries m"
  have i: "Map_inv String_vt String_wf m" "hm_size m = length ?es" "distinct (map fst ?es)"
    using assms Map_inv_distinct by (auto simp: SIMap_ok_def Map_inv_def)
  let ?f = "\<lambda>i m'. res_bind (cell_load (map Some (map fst ?es)) i) (\<lambda>k. res_bind (String_copy k) (\<lambda>k.
       res_bind (cell_load (map Some (map snd ?es)) i) (\<lambda>n. SIMap_set k (Some (Num_clone n)) m')))"
  let ?P = "\<lambda>k m'. SIMap_ok m' \<and> Map_abs m' = map_of (take k ?es)"
  have "\<exists>m'. res_fold ?f [0..<length ?es] SIMap_new = Inr m' \<and> ?P (length ?es) m'"
  proof (rule res_fold_upt [where P = ?P])
    show "?P 0 SIMap_new" by (simp add: SIMap_ok_def SIMap_new_def Map_default_def)
  next
    fix k m'
    assume k: "k < length ?es" and p: "?P k m'"
    obtain s n where e: "?es ! k = (s, n)" by (cases "?es ! k")
    have wf: "String_wf s" using Map_inv_keys_ok [OF i(1), of s n] nth_mem [OF k] e by simp
    have "s \<notin> fst ` set (take k ?es)"
    proof
      assume "s \<in> fst ` set (take k ?es)"
      then obtain j where "j < k" "fst (?es ! j) = s" using k by (auto simp: in_set_conv_nth)
      then show False using i(3) k e nth_eq_iff_index_eq [OF i(3), of j k] by simp
    qed
    then have new: "map_of (take k ?es) s = None" by (rule map_of_notin)
    have t: "take (Suc k) ?es = take k ?es @ [(s, n)]" using k e by (simp add: take_Suc_conv_app_nth)
    obtain m2 where m2: "Map_put String_vt (Some s) (Some n) m' = Inr (Map_abs m' s, m2)" "SIMap_ok m2" "Map_abs m2 = (Map_abs m')(s \<mapsto> n)"
      using String_key.put_correct [OF _ wf, of m' n] p by (auto simp: SIMap_ok_def)
    have "Num_clone n = n" by (simp add: Num_clone_def Num_of_def)
    then have "?f k m' = Inr m2" using k e String_copy_wf [OF wf] m2(1) by (simp add: cell_load_def SIMap_set_def)
    moreover have "Map_abs m2 = map_of (take (Suc k) ?es)" unfolding t m2(3) using p new by (auto simp: map_add_def fun_eq_iff split: option.splits)
    ultimately show "\<exists>t. ?f k m' = Inr t \<and> ?P (Suc k) t" using m2(2) by blast
  qed simp
  then show ?thesis using i(2) by (simp add: SIMap_copy_def Map_get_keys_ok Map_get_values_ok Map_abs_def)
qed

end
