(* ===== verification/Demos.thy ===== *)
theory Demos
  imports FrameProps "HOL-Library.Sublist"
begin

text \<open>
  Two of the applications that run on every node of a cluster (\<open>src/application\<close>).
  \<open>DemoLocalMap\<close>: the leader stores an array of integers as a frame, every node sums the rows
  at home with \<open>local_map\<close>, and the leader adds up the sums. \<open>Demo\<close>: node 0 stores an array and
  its sum, node 1 reads the array and stores its own sum, node 2 compares the two sums.

  \<open>run_\<close> starts the part of a node; where a node waits for a value of another, the parts are run in
  the order the waiting forces. The arithmetic of \<open>double\<close> is a parameter: \<open>dbl\<close> converts an
  index, \<open>dadd\<close> is \<open>+\<close> and \<open>deq\<close> is \<open>==\<close>. Printing is left out.
\<close>

section \<open>DemoLocalMap\<close>

definition local_SZ :: nat where
  "local_SZ = 25000"

definition leader_start ::
    "Args \<Rightarrow> (Key \<Rightarrow> Value \<Rightarrow> 's \<Rightarrow> 's res) \<Rightarrow> (Key \<Rightarrow> 's \<Rightarrow> (Value option \<times> 's) res) \<Rightarrow> 's \<Rightarrow> (u32 \<times> u32 \<times> 's) res" where
  "leader_start args putv getv st =
     (let vals = map of_nat [0..<local_SZ]; expectedSum = sum_list vals in
      res_bind (Key_new (''main'' @ [NUL]) 0) (\<lambda>main.
      res_bind (fromArray_ints args putv main local_SZ vals st) (\<lambda>(dfa, st).
      res_bind (local_map args getv 0 MySummer_visit (0, dfa, st)) (\<lambda>(actualSumL, _, st).
      res_bind (res_assert (actualSumL \<noteq> expectedSum)) (\<lambda>_.
      Inr (expectedSum, actualSumL, st))))))"

definition localSum ::
    "Args \<Rightarrow> (Key \<Rightarrow> Value \<Rightarrow> 's \<Rightarrow> 's res) \<Rightarrow> (Key \<Rightarrow> 's \<Rightarrow> (Value option \<times> 's) res) \<Rightarrow> nat \<Rightarrow> 's \<Rightarrow> 's res" where
  "localSum args putv getv idx st =
     res_bind (Key_new (''main'' @ [NUL]) 0) (\<lambda>main.
     res_bind (waitAndGet getv main st) (\<lambda>(df, st).
     res_bind (local_map args getv (of_nat idx) MySummer_visit (0, df, st)) (\<lambda>(mySum, _, st).
     if idx = 1 then
       res_bind (Key_new (''sn1'' @ [NUL]) 0) (\<lambda>sumN1. res_bind (fromInt args putv sumN1 mySum st) (\<lambda>(_, st). Inr st))
     else if idx = 2 then
       res_bind (Key_new (''sn2'' @ [NUL]) 0) (\<lambda>sumN2. res_bind (fromInt args putv sumN2 mySum st) (\<lambda>(_, st). Inr st))
     else Inr st)))"

text \<open>The second half of \<open>leader\<close>, and whether it prints \<open>SUCCESS\<close>.\<close>

definition leader_end ::
    "Args \<Rightarrow> (Key \<Rightarrow> 's \<Rightarrow> (Value option \<times> 's) res) \<Rightarrow> u32 \<Rightarrow> u32 \<Rightarrow> 's \<Rightarrow> (bool \<times> 's) res" where
  "leader_end args getv expectedSum actualSumL st =
     res_bind (Key_new (''sn1'' @ [NUL]) 0) (\<lambda>sumN1.
     res_bind (waitAndGet getv sumN1 st) (\<lambda>(dfN1, st).
     res_bind (DataFrame_get_int args getv 0 0 (dfN1, st)) (\<lambda>(actualSumN1, _, st).
     res_bind (res_assert (actualSumN1 \<noteq> expectedSum)) (\<lambda>_.
     res_bind (Key_new (''sn2'' @ [NUL]) 0) (\<lambda>sumN2.
     res_bind (waitAndGet getv sumN2 st) (\<lambda>(dfN2, st).
     res_bind (DataFrame_get_int args getv 0 0 (dfN2, st)) (\<lambda>(actualSumN2, _, st).
     res_bind (res_assert (actualSumN2 \<noteq> expectedSum)) (\<lambda>_.
     Inr (actualSumL + actualSumN1 + actualSumN2 = expectedSum, st)))))))))"

section \<open>Demo\<close>

definition demo_SZ :: nat where
  "demo_SZ = 100 * 1000"

definition producer ::
    "Args \<Rightarrow> (Key \<Rightarrow> Value \<Rightarrow> 's \<Rightarrow> 's res) \<Rightarrow> (u64 \<Rightarrow> u64 \<Rightarrow> u64) \<Rightarrow> (nat \<Rightarrow> u64) \<Rightarrow> 's \<Rightarrow> 's res" where
  "producer args putv dadd dbl st =
     (let vals = map dbl [0..<demo_SZ]; total = fold (\<lambda>v s. dadd s v) vals (dbl 0) in
      res_bind (Key_new (''main'' @ [NUL]) 0) (\<lambda>main.
      res_bind (fromArray_doubles args putv main demo_SZ vals st) (\<lambda>(dfa, st).
      res_bind (Key_new (''ck'' @ [NUL]) 0) (\<lambda>check.
      res_bind (fromDouble args putv check total st) (\<lambda>(dfs, st). Inr st)))))"

definition counter ::
    "Args \<Rightarrow> (Key \<Rightarrow> Value \<Rightarrow> 's \<Rightarrow> 's res) \<Rightarrow> (Key \<Rightarrow> 's \<Rightarrow> (Value option \<times> 's) res) \<Rightarrow> (u64 \<Rightarrow> u64 \<Rightarrow> u64) \<Rightarrow> (nat \<Rightarrow> u64) \<Rightarrow>
     's \<Rightarrow> 's res" where
  "counter args putv getv dadd dbl st =
     res_bind (Key_new (''main'' @ [NUL]) 0) (\<lambda>main.
     res_bind (waitAndGet getv main st) (\<lambda>(v, st).
     res_bind (res_fold (\<lambda>i (s, v, st).
         res_bind (DataFrame_get_double args getv 0 i (v, st)) (\<lambda>(x, v, st). Inr (dadd s x, v, st)))
       [0..<demo_SZ] (dbl 0, v, st)) (\<lambda>(total, _, st).
     res_bind (Key_new (''verif'' @ [NUL]) 0) (\<lambda>verify.
     res_bind (fromDouble args putv verify total st) (\<lambda>(_, st). Inr st)))))"

text \<open>Whether \<open>summarizer\<close> prints \<open>SUCCESS\<close>.\<close>

definition summarizer ::
    "Args \<Rightarrow> (Key \<Rightarrow> 's \<Rightarrow> (Value option \<times> 's) res) \<Rightarrow> (u64 \<Rightarrow> u64 \<Rightarrow> bool) \<Rightarrow> 's \<Rightarrow> (bool \<times> 's) res" where
  "summarizer args getv deq st =
     res_bind (Key_new (''verif'' @ [NUL]) 0) (\<lambda>verify.
     res_bind (waitAndGet getv verify st) (\<lambda>(result, st).
     res_bind (Key_new (''ck'' @ [NUL]) 0) (\<lambda>check.
     res_bind (waitAndGet getv check st) (\<lambda>(expected, st).
     res_bind (DataFrame_get_double args getv 0 0 (expected, st)) (\<lambda>(e, _, st).
     res_bind (DataFrame_get_double args getv 0 0 (result, st)) (\<lambda>(r, _, st).
     Inr (deq e r, st)))))))"

section \<open>Stored frames side by side\<close>

lemma frame_stored_keep:
  assumes "frame_stored args base ts vss n k v" and "w k = v k" and "\<And>i j. w (block_key args (base i) i j) = v (block_key args (base i) i j)"
  shows "frame_stored args base ts vss n k w"
  using assms frame_repr_frame [of args base v ts vss _ w] unfolding frame_stored_def by metis

text \<open>Writing the array frame \<open>cs\<close> leaves the array frame \<open>ds\<close> alone if neither name starts the other.\<close>

definition apart :: "char list \<Rightarrow> char list \<Rightarrow> bool" where
  "apart cs ds \<longleftrightarrow> \<not> prefix cs ds \<and> \<not> prefix ds cs"

lemma apart_keys:
  assumes "apart cs ds"
  shows "Key_lit ds h \<noteq> Key_lit cs h'" and "Key_lit ds h \<noteq> block_key args (arr_base cs i) j c"
    and "block_key args (arr_base ds i) j c \<noteq> Key_lit cs h'"
    and "block_key args (arr_base ds i) j c \<noteq> block_key args (arr_base cs i') j' c'"
proof -
  have ne: "ds @ a \<noteq> cs @ b" for a b
    using assms unfolding apart_def by (metis prefixI prefix_same_cases)
  show "Key_lit ds h \<noteq> Key_lit cs h'" using ne [of "[]" "[]"] by simp
  show "Key_lit ds h \<noteq> block_key args (arr_base cs i) j c" using ne [of "[]"] by (simp add: block_key_def arr_base_def)
  show "block_key args (arr_base ds i) j c \<noteq> Key_lit cs h'" using ne [of _ "[]"] by (simp add: block_key_def arr_base_def)
  show "block_key args (arr_base ds i) j c \<noteq> block_key args (arr_base cs i') j' c'" using ne by (simp add: block_key_def arr_base_def)
qed

lemma array_stored_keep:
  assumes "frame_stored args (arr_base ds) ts vss n (Key_lit ds h) v" and "apart cs ds"
    and "\<forall>key. key \<noteq> Key_lit cs h' \<longrightarrow> (\<forall>i. key \<noteq> block_key args (arr_base cs 0) 0 i) \<longrightarrow> w key = v key"
  shows "frame_stored args (arr_base ds) ts vss n (Key_lit ds h) w"
  using apart_keys [OF assms(2)] by (intro frame_stored_keep [OF assms(1)]) (simp_all add: assms(3))

section \<open>The sums of all nodes\<close>

interpretation my_summer: row_reader MySummer_visit "Integer # ts" "\<lambda>i x a. a + as_int (x ! 0)" "\<lambda>_. True" for ts
proof unfold_locales
  fix a :: u32 and r x
  assume r: "Row_repr r (Integer # ts) (map Some x)"
  have "map Some x ! 0 = Some (x ! 0)" using Row_reprD(4) [OF r] by simp
  from row_getters(1) [OF r _ this] show "MySummer_visit r a = Inr (a + as_int (x ! 0)) \<and> True" by (simp add: MySummer_visit_def)
qed

interpretation cluster_summer: frame_reader "cluster_put i" "cluster_get i" "cluster_inv n i" "cluster_val n" "\<lambda>k. home k < n"
  MySummer_visit "Integer # ts" "\<lambda>i x a. a + as_int (x ! 0)" "\<lambda>_. True" for i n ts
  by unfold_locales

lemma fold_add: "fold (\<lambda>i a. a + f i) xs (a :: u32) = a + sum_list (map f xs)"
  by (induction xs arbitrary: a) simp_all

lemma at_home_iff:
  assumes "j < numNodes args" and "numNodes args < 2 ^ 64"
  shows "at_home args (of_nat j) i \<longleftrightarrow> i div blockSize args mod numNodes args = j"
proof -
  let ?h = "i div blockSize args mod numNodes args"
  have "?h < numNodes args" using assms(1) by (intro mod_less_divisor) simp
  then have "?h < 2 ^ 64" "j < 2 ^ 64" using assms by linarith+
  then have "unat (of_nat ?h :: u64) = ?h" "unat (of_nat j :: u64) = j" by simp_all
  then show ?thesis unfolding at_home_def by metis
qed

text \<open>Every row is at home at exactly one node.\<close>

lemma sum_homes:
  fixes f :: "nat \<Rightarrow> nat"
  assumes "0 < numNodes args" and "numNodes args < 2 ^ 64"
  shows "(\<Sum>j < numNodes args. sum_list (map f (filter (at_home args (of_nat j)) xs))) = sum_list (map f xs)"
proof (induction xs)
  case (Cons x xs)
  let ?h = "x div blockSize args mod numNodes args"
  have h: "?h < numNodes args" using assms(1) by simp
  have "(\<Sum>j < numNodes args. if ?h = j then f x else 0) = f x" using h by simp
  moreover have "(\<Sum>j < numNodes args. sum_list (map f (filter (at_home args (of_nat j)) (x # xs)))) =
      (\<Sum>j < numNodes args. (if ?h = j then f x else 0) + sum_list (map f (filter (at_home args (of_nat j)) xs)))"
    by (rule sum.cong) (simp_all add: at_home_iff [OF _ assms(2)])
  ultimately show ?case using Cons.IH by (simp add: sum.distrib)
qed simp

lemma sum_filter_less:
  fixes xs :: "nat list"
  assumes "r \<in> set xs" and "0 < r" and "\<not> P r"
  shows "sum_list (filter P xs) < sum_list xs"
  using assms
proof (induction xs)
  case (Cons x xs)
  have le: "sum_list (filter P xs) \<le> sum_list xs" by (induction xs) auto
  show ?case
  proof (cases "r = x")
    case True
    then show ?thesis using le Cons.prems by simp
  next
    case False
    then show ?thesis using Cons by auto
  qed
qed simp

lemma sum_upt: "2 * sum_list [0..<n] = n * (n - 1)"
proof (induction n)
  case (Suc n)
  then show ?case by (cases n) (simp_all add: algebra_simps)
qed simp

text \<open>The sum of the rows at home at node \<open>j\<close>.\<close>

definition home_sum :: "Args \<Rightarrow> nat \<Rightarrow> nat" where
  "home_sum args j = sum_list (filter (at_home args (of_nat j)) [0..<local_SZ])"

lemma all_sum: "sum_list [0..<local_SZ] = 312487500"
  using sum_upt [of local_SZ] by (simp add: local_SZ_def del: upt_rec_numeral)

lemma home_sums:
  assumes "numNodes args = 3" and "0 < blockSize args" and "blockSize args < local_SZ"
  shows "home_sum args 0 + home_sum args 1 + home_sum args 2 = 312487500"
    and "j < 3 \<Longrightarrow> home_sum args j < 312487500"
proof -
  let ?b = "blockSize args"
  have "(\<Sum>j < 3. home_sum args j) = sum_list [0..<local_SZ]"
    using sum_homes [of args "\<lambda>x. x" "[0..<local_SZ]"] assms(1) by (simp add: home_sum_def)
  then show "home_sum args 0 + home_sum args 1 + home_sum args 2 = 312487500"
    unfolding all_sum by (simp add: numeral_3_eq_3 numeral_2_eq_2)
  assume j: "j < 3"
  have "\<exists>r. r < local_SZ \<and> 0 < r \<and> r div ?b mod 3 \<noteq> j"
  proof (cases "j = 1")
    case False
    then have "?b div ?b mod 3 \<noteq> j" using assms(2) by simp
    then show ?thesis using assms(2,3) by blast
  next
    case True
    show ?thesis
    proof (cases "?b = 1")
      case True
      have "(2 :: nat) < local_SZ" "0 < (2 :: nat)" "2 div ?b mod 3 \<noteq> j" using \<open>j = 1\<close> True by (simp_all add: local_SZ_def)
      then show ?thesis by blast
    next
      case False
      then have "1 div ?b mod 3 \<noteq> j" using \<open>j = 1\<close> assms(2) by simp
      moreover have "(1 :: nat) < local_SZ" by (simp add: local_SZ_def)
      ultimately show ?thesis by blast
    qed
  qed
  then obtain r where r: "r < local_SZ" "0 < r" "r div ?b mod 3 \<noteq> j" by blast
  have "\<not> at_home args (of_nat j) r" using r(3) j assms(1) by (simp add: at_home_iff)
  then have "home_sum args j < sum_list [0..<local_SZ]"
    unfolding home_sum_def using r(1,2) by (intro sum_filter_less [of r]) simp_all
  then show "home_sum args j < 312487500" unfolding all_sum .
qed

section \<open>Array frames of one column on a cluster\<close>

lemma ints_facts:
  "list_all (value_of_type Integer) (map IElem zs)" "map as_int (map IElem zs) = zs" "sum_list (map value_size (map IElem zs)) = 4 * length zs"
  by (simp_all add: list_all_iff comp_def sum_list_triv)

lemma doubles_facts:
  "list_all (value_of_type Double) (map DElem zs)" "map as_double (map DElem zs) = zs" "sum_list (map value_size (map DElem zs)) = 8 * length zs"
  by (simp_all add: list_all_iff comp_def sum_list_triv)

text \<open>Short names, homed at node 0, for frames of at most a million rows.\<close>

definition short_name :: "char list \<Rightarrow> bool" where
  "short_name cs \<longleftrightarrow> cstr_ok cs \<and> length cs < 100"

lemma short_fits: "short_name cs \<Longrightarrow> n \<le> 10 ^ 6 \<Longrightarrow> frame_fits [t] n (length cs + 2)"
proof -
  assume a: "short_name cs" "n \<le> 10 ^ 6"
  then have "(n + 1) * (length cs + 2 + 80) \<le> (10 ^ 6 + 1) * 182" by (intro mult_le_mono) (simp_all add: short_name_def)
  then show ?thesis using a by (simp add: frame_fits_def short_name_def)
qed

lemma put_ints:
  assumes inv: "cluster_inv (numNodes args) i st" and A: "sizes_ok args" "homes (\<lambda>k. home k < numNodes args) args"
    and n: "short_name cs" "length zs = n" "n \<le> 10 ^ 6"
  shows "\<exists>df st'. fromArray_ints args (cluster_put i) (Key_lit cs 0) n zs st = Inr (df, st') \<and> cluster_inv (numNodes args) i st' \<and>
    frame_repr args (arr_base cs) (cluster_val (numNodes args) st') [Integer] [map IElem zs] df \<and> nrows df = n \<and>
    frame_stored args (arr_base cs) [Integer] [map IElem zs] n (Key_lit cs 0) (cluster_val (numNodes args) st') \<and>
    (\<forall>key. key \<noteq> Key_lit cs 0 \<longrightarrow> (\<forall>i. key \<noteq> block_key args (arr_base cs 0) 0 i) \<longrightarrow>
      cluster_val (numNodes args) st' key = cluster_val (numNodes args) st key)"
proof -
  have k: "cstr_ok cs" "length cs + 2 < 2 ^ 32" "home (Key_lit cs 0) < numNodes args"
    using n(1) A(1) by (simp_all add: short_name_def home_def sizes_ok_def)
  have sz: "16 + sum_list (map value_size (map IElem zs)) < 2 ^ 64" unfolding ints_facts(3) using n(2,3) by simp
  have ff: "frame_fits [Integer] (length (map IElem zs)) (length cs + 2)" using short_fits [OF n(1)] n(2,3) by simp
  show ?thesis
    using cluster_kv.ints.fromArray_repr [OF k A(1) inv A(2) ints_facts(1) sz ff] n(2)
    by (auto simp: fromArray_ints_def DataFrame_add_ints_def ColumnArray_add_ints_def Column_adds ints_facts(2) simp del: map_map)
qed

lemma put_doubles:
  assumes inv: "cluster_inv (numNodes args) i st" and A: "sizes_ok args" "homes (\<lambda>k. home k < numNodes args) args"
    and n: "short_name cs" "length zs = n" "n \<le> 10 ^ 6"
  shows "\<exists>df st'. fromArray_doubles args (cluster_put i) (Key_lit cs 0) n zs st = Inr (df, st') \<and> cluster_inv (numNodes args) i st' \<and>
    frame_stored args (arr_base cs) [Double] [map DElem zs] n (Key_lit cs 0) (cluster_val (numNodes args) st') \<and>
    (\<forall>key. key \<noteq> Key_lit cs 0 \<longrightarrow> (\<forall>i. key \<noteq> block_key args (arr_base cs 0) 0 i) \<longrightarrow>
      cluster_val (numNodes args) st' key = cluster_val (numNodes args) st key)"
proof -
  have k: "cstr_ok cs" "length cs + 2 < 2 ^ 32" "home (Key_lit cs 0) < numNodes args"
    using n(1) A(1) by (simp_all add: short_name_def home_def sizes_ok_def)
  have sz: "16 + sum_list (map value_size (map DElem zs)) < 2 ^ 64" unfolding doubles_facts(3) using n(2,3) by simp
  have ff: "frame_fits [Double] (length (map DElem zs)) (length cs + 2)" using short_fits [OF n(1)] n(2,3) by simp
  show ?thesis
    using cluster_kv.doubles.fromArray_repr [OF k A(1) inv A(2) doubles_facts(1) sz ff] n(2)
    by (auto simp: fromArray_doubles_def DataFrame_add_doubles_def ColumnArray_add_doubles_def Column_adds doubles_facts(2) simp del: map_map)
qed

text \<open>A cell of a stored frame of one column.\<close>

lemma get_int_cell:
  assumes "frame_repr args base (cluster_val (numNodes args) st) [Integer] [map IElem zs] df" and "cluster_inv (numNodes args) i st"
    and "homes (\<lambda>k. home k < numNodes args) args" and "r < length zs"
  shows "\<exists>df' st'. DataFrame_get_int args (cluster_get i) 0 r (df, st) = Inr (zs ! r, df', st') \<and>
    cluster_inv (numNodes args) i st' \<and> cluster_val (numNodes args) st' = cluster_val (numNodes args) st \<and>
    frame_repr args base (cluster_val (numNodes args) st') [Integer] [map IElem zs] df'"
  using cluster_kv.ints.frame_cell [OF assms(1) _ _ _ assms(2,3), of 0 r "Inr (-1)"] assms(4)
  by (auto simp: DataFrame_get_int_def ColumnArray_get_int_def Column_gets)

lemma get_double_cell:
  assumes "frame_repr args base (cluster_val (numNodes args) st) [Double] [map DElem zs] df" and "cluster_inv (numNodes args) i st"
    and "homes (\<lambda>k. home k < numNodes args) args" and "r < length zs"
  shows "\<exists>df' st'. DataFrame_get_double args (cluster_get i) 0 r (df, st) = Inr (zs ! r, df', st') \<and>
    cluster_inv (numNodes args) i st' \<and> cluster_val (numNodes args) st' = cluster_val (numNodes args) st \<and>
    frame_repr args base (cluster_val (numNodes args) st') [Double] [map DElem zs] df'"
  using cluster_kv.doubles.frame_cell [OF assms(1) _ _ _ assms(2,3), of 0 r "Inr 0xBFF0000000000000"] assms(4)
  by (auto simp: DataFrame_get_double_def ColumnArray_get_double_def Column_gets)

lemma sum_words: "sum_list (map of_nat xs) = (of_nat (sum_list xs) :: u32)"
  by (induction xs) simp_all

section \<open>Properties\<close>

lemma short_names: "short_name ''main''" "short_name ''sn1''" "short_name ''sn2''" "short_name ''ck''" "short_name ''verif''"
  "apart ''sn1'' ''main''" "apart ''sn2'' ''main''" "apart ''sn2'' ''sn1''" "apart ''ck'' ''main''" "apart ''verif'' ''ck''" "apart ''verif'' ''main''"
  by (simp_all add: short_name_def cstr_ok_def apart_def)

lemma demo_keys_new:
  "Key_new (''main'' @ [NUL]) 0 = Inr (Key_lit ''main'' 0)" "Key_new (''sn1'' @ [NUL]) 0 = Inr (Key_lit ''sn1'' 0)"
  "Key_new (''sn2'' @ [NUL]) 0 = Inr (Key_lit ''sn2'' 0)" "Key_new (''ck'' @ [NUL]) 0 = Inr (Key_lit ''ck'' 0)"
  "Key_new (''verif'' @ [NUL]) 0 = Inr (Key_lit ''verif'' 0)"
  by (rule Key_new_lit, simp)+

lemmas demo_keys = demo_keys_new [simplified]

text \<open>The stored frame of the demo.\<close>

definition demo_main :: "Args \<Rightarrow> Cluster \<Rightarrow> bool" where
  "demo_main args st \<longleftrightarrow> frame_stored args (arr_base ''main'') [Integer] [map IElem (map of_nat [0..<local_SZ])] local_SZ
     (Key_lit ''main'' 0) (cluster_val (numNodes args) st)"

lemma home_fold:
  "fold (\<lambda>i a. a + as_int (row_at [map IElem (map of_nat [0..<local_SZ])] i ! 0)) (filter (at_home args (of_nat j)) [0..<local_SZ]) 0 =
   of_nat (home_sum args j)"
proof -
  have "map (\<lambda>i. as_int (row_at [map IElem (map of_nat [0..<local_SZ])] i ! 0)) (filter (at_home args (of_nat j)) [0..<local_SZ]) =
      map of_nat (filter (at_home args (of_nat j)) [0..<local_SZ])"
    by (auto simp: row_at_def)
  then show ?thesis by (simp only: fold_add home_sum_def sum_words [symmetric] add_0_left)
qed

lemma whole_sum:
  assumes "s < 312487500"
  shows "(of_nat s :: u32) \<noteq> sum_list (map of_nat [0..<local_SZ])"
proof
  assume "(of_nat s :: u32) = sum_list (map of_nat [0..<local_SZ])"
  then have "unat (of_nat s :: u32) = unat (of_nat 312487500 :: u32)" by (simp only: sum_words all_sum)
  moreover have "unat (of_nat s :: u32) = s" using assms by (intro unat_of_nat_small) simp
  moreover have "unat (of_nat 312487500 :: u32) = 312487500" by (intro unat_of_nat_small) simp
  ultimately show False using assms by linarith
qed

text \<open>What \<open>localSum\<close> leaves on node \<open>j\<close>.\<close>

lemma localSum_stores:
  assumes m: "demo_main args st" and inv: "cluster_inv (numNodes args) j st" and A: "sizes_ok args" "homes (\<lambda>k. home k < numNodes args) args"
    and j: "j = 1 \<and> cs = ''sn1'' \<or> j = 2 \<and> cs = ''sn2''"
  shows "\<exists>st'. localSum args (cluster_put j) (cluster_get j) j st = Inr st' \<and> cluster_inv (numNodes args) j st' \<and> demo_main args st' \<and>
    frame_stored args (arr_base cs) [Integer] [map IElem [of_nat (home_sum args j)]] 1 (Key_lit cs 0) (cluster_val (numNodes args) st') \<and>
    (\<forall>key. key \<noteq> Key_lit cs 0 \<longrightarrow> (\<forall>i. key \<noteq> block_key args (arr_base cs 0) 0 i) \<longrightarrow>
      cluster_val (numNodes args) st' key = cluster_val (numNodes args) st key)"
proof -
  have hk: "home (Key_lit ''main'' 0) < numNodes args" using A(1) by (simp add: home_def sizes_ok_def)
  have cs: "short_name cs" "apart cs ''main''" using j short_names by auto
  obtain df st1 df' st2 where 1: "waitAndGet (cluster_get j) (Key_lit ''main'' 0) st = Inr (df, st1)"
    "local_map args (cluster_get j) (of_nat j) MySummer_visit (0, df, st1) = Inr (of_nat (home_sum args j), df', st2)"
    "cluster_inv (numNodes args) j st2" "cluster_val (numNodes args) st2 = cluster_val (numNodes args) st"
    using cluster_summer.read_local [OF m [unfolded demo_main_def] inv A(2) hk _ _ A(1), where a = 0 and storeId = "of_nat j"]
    unfolding home_fold by (auto simp del: map_map)
  obtain df3 st' where 2: "fromArray_ints args (cluster_put j) (Key_lit cs 0) 1 [of_nat (home_sum args j)] st2 = Inr (df3, st')"
    "cluster_inv (numNodes args) j st'"
    "frame_stored args (arr_base cs) [Integer] [map IElem [of_nat (home_sum args j)]] 1 (Key_lit cs 0) (cluster_val (numNodes args) st')"
    "\<forall>key. key \<noteq> Key_lit cs 0 \<longrightarrow> (\<forall>i. key \<noteq> block_key args (arr_base cs 0) 0 i) \<longrightarrow>
      cluster_val (numNodes args) st' key = cluster_val (numNodes args) st2 key"
    using put_ints [OF 1(3) A cs(1), of "[of_nat (home_sum args j)]" 1] by auto
  have "demo_main args st'"
    using array_stored_keep [OF m [unfolded demo_main_def] cs(2), of 0] 2(4) 1(4) by (simp add: demo_main_def)
  moreover have "localSum args (cluster_put j) (cluster_get j) j st = Inr st'"
    using 1(1,2) 2(1) j by (auto simp: localSum_def fromInt_def demo_keys Let_def)
  ultimately show ?thesis using 2(2,3,4) 1(4) by auto
qed



text \<open>Reading a column of doubles cell by cell.\<close>

lemma counter_loop:
  fixes dadd :: "u64 \<Rightarrow> u64 \<Rightarrow> u64"
  assumes f: "frame_repr args base (cluster_val (numNodes args) st) [Double] [map DElem zs] df" and inv: "cluster_inv (numNodes args) i st"
    and h: "homes (\<lambda>k. home k < numNodes args) args"
  shows "\<exists>df' st'. res_fold (\<lambda>i' (s, v, st).
      res_bind (DataFrame_get_double args (cluster_get i) 0 i' (v, st)) (\<lambda>(x, v, st). Inr (dadd s x, v, st)))
      [0..<length zs] (s0, df, st) = Inr (fold (\<lambda>v s. dadd s v) zs s0, df', st') \<and>
    cluster_inv (numNodes args) i st' \<and> cluster_val (numNodes args) st' = cluster_val (numNodes args) st"
proof -
  let ?P = "\<lambda>k (s, df', st'). s = fold (\<lambda>v s. dadd s v) (take k zs) s0 \<and> cluster_inv (numNodes args) i st' \<and>
    cluster_val (numNodes args) st' = cluster_val (numNodes args) st \<and>
    frame_repr args base (cluster_val (numNodes args) st') [Double] [map DElem zs] df'"
  let ?f = "\<lambda>i' (s, v, st). res_bind (DataFrame_get_double args (cluster_get i) 0 i' (v, st)) (\<lambda>(x, v, st). Inr (dadd s x, v, st))"
  have "\<exists>t. res_fold ?f [0..<length zs] (s0, df, st) = Inr t \<and> ?P (length zs) t"
  proof (rule res_fold_upt [where P = ?P])
    show "?P 0 (s0, df, st)" using f inv by simp
  next
    fix k and x :: "u64 \<times> DataFrame \<times> Cluster"
    assume k: "k < length zs" and p: "?P k x"
    obtain s df1 st1 where x: "x = (s, df1, st1)" by (cases x)
    have p1: "frame_repr args base (cluster_val (numNodes args) st1) [Double] [map DElem zs] df1" "cluster_inv (numNodes args) i st1"
      "s = fold (\<lambda>v s. dadd s v) (take k zs) s0" "cluster_val (numNodes args) st1 = cluster_val (numNodes args) st"
      using p unfolding x prod.case by blast+
    obtain df2 st2 where 2: "DataFrame_get_double args (cluster_get i) 0 k (df1, st1) = Inr (zs ! k, df2, st2)"
      "cluster_inv (numNodes args) i st2" "cluster_val (numNodes args) st2 = cluster_val (numNodes args) st1"
      "frame_repr args base (cluster_val (numNodes args) st2) [Double] [map DElem zs] df2"
      using get_double_cell [OF p1(1,2) h k] by blast
    have "fold (\<lambda>v s. dadd s v) (take (Suc k) zs) s0 = dadd s (zs ! k)" using k p1(3) by (simp add: take_Suc_conv_app_nth)
    then show "\<exists>t. ?f k x = Inr t \<and> ?P (Suc k) t"
      using 2 p1(4) x by (intro exI [of _ "(dadd s (zs ! k), df2, st2)"]) simp
  qed simp
  then show ?thesis by auto
qed

text \<open>C21: The first demo ends with \<open>SUCCESS\<close> on three or more nodes. Node 0 stores a hundred thousand
  doubles and their sum; node 1 fetches the array, adds it up element by element and stores its
  sum; the two sums that node 2 fetches compare equal. Nothing is assumed of floating point but
  that the sum is equal to itself, since both nodes add the same numbers in the same order.\<close>

theorem demo_succeeds:
  assumes "3 \<le> numNodes args" and "0 < blockSize args" and "blockSize args < 2 ^ 64" and "cluster_inv (numNodes args) 0 st"
    and "\<And>s. s = fold (\<lambda>v s. dadd s v) (map dbl [0..<demo_SZ]) (dbl 0) \<Longrightarrow> deq s s"
  shows "\<exists>st1 st2 st3. producer args (cluster_put 0) dadd dbl st = Inr st1 \<and>
    counter args (cluster_put 1) (cluster_get 1) dadd dbl st1 = Inr st2 \<and>
    summarizer args (cluster_get 2) deq st2 = Inr (True, st3)"
proof -
  note A = cluster_args [OF assms(4,2,3)]
  let ?zs = "map dbl [0..<demo_SZ]"
  let ?s = "fold (\<lambda>v s. dadd s v) ?zs (dbl 0)"
  have sz: "demo_SZ \<le> 10 ^ 6" by (simp add: demo_SZ_def)
  have hk: "home (Key_lit cs 0) < numNodes args" for cs using assms(1) by (simp add: home_def)
  obtain df st0 where 0: "fromArray_doubles args (cluster_put 0) (Key_lit ''main'' 0) demo_SZ ?zs st = Inr (df, st0)"
    "cluster_inv (numNodes args) 0 st0"
    "frame_stored args (arr_base ''main'') [Double] [map DElem ?zs] demo_SZ (Key_lit ''main'' 0) (cluster_val (numNodes args) st0)"
    using put_doubles [OF assms(4) A short_names(1) _ sz, of ?zs] by auto
  obtain df1 st1 where 1: "fromArray_doubles args (cluster_put 0) (Key_lit ''ck'' 0) 1 [?s] st0 = Inr (df1, st1)"
    "cluster_inv (numNodes args) 0 st1"
    "frame_stored args (arr_base ''ck'') [Double] [map DElem [?s]] 1 (Key_lit ''ck'' 0) (cluster_val (numNodes args) st1)"
    "\<forall>key. key \<noteq> Key_lit ''ck'' 0 \<longrightarrow> (\<forall>i. key \<noteq> block_key args (arr_base ''ck'' 0) 0 i) \<longrightarrow>
      cluster_val (numNodes args) st1 key = cluster_val (numNodes args) st0 key"
    using put_doubles [OF 0(2) A short_names(4), of "[?s]" 1] by auto
  have p: "producer args (cluster_put 0) dadd dbl st = Inr st1"
    using 0(1) 1(1) by (simp add: producer_def fromDouble_def demo_keys Let_def)
  have m: "frame_stored args (arr_base ''main'') [Double] [map DElem ?zs] demo_SZ (Key_lit ''main'' 0) (cluster_val (numNodes args) st1)"
    using array_stored_keep [OF 0(3) short_names(9) 1(4)] .
  have i1: "cluster_inv (numNodes args) 1 st1" using cluster_inv_node [OF 1(2)] assms(1) by simp
  obtain v u1 where 2: "waitAndGet (cluster_get 1) (Key_lit ''main'' 0) st1 = Inr (v, u1)" "cluster_inv (numNodes args) 1 u1"
    "cluster_val (numNodes args) u1 = cluster_val (numNodes args) st1"
    "frame_repr args (arr_base ''main'') (cluster_val (numNodes args) u1) [Double] [map DElem ?zs] v"
    using cluster_kv.waitAndGet_repr [OF m i1 hk] by blast
  have l: "length ?zs = demo_SZ" by simp
  obtain v' u2 where 3: "res_fold (\<lambda>i (s, v, st). res_bind (DataFrame_get_double args (cluster_get 1) 0 i (v, st))
      (\<lambda>(x, v, st). Inr (dadd s x, v, st))) [0..<demo_SZ] (dbl 0, v, u1) = Inr (?s, v', u2)"
    "cluster_inv (numNodes args) 1 u2" "cluster_val (numNodes args) u2 = cluster_val (numNodes args) u1"
    using counter_loop [OF 2(4,2) A(2), of dadd "dbl 0"] unfolding l by blast
  obtain df2 st2 where 4: "fromArray_doubles args (cluster_put 1) (Key_lit ''verif'' 0) 1 [?s] u2 = Inr (df2, st2)"
    "cluster_inv (numNodes args) 1 st2"
    "frame_stored args (arr_base ''verif'') [Double] [map DElem [?s]] 1 (Key_lit ''verif'' 0) (cluster_val (numNodes args) st2)"
    "\<forall>key. key \<noteq> Key_lit ''verif'' 0 \<longrightarrow> (\<forall>i. key \<noteq> block_key args (arr_base ''verif'' 0) 0 i) \<longrightarrow>
      cluster_val (numNodes args) st2 key = cluster_val (numNodes args) u2 key"
    using put_doubles [OF 3(2) A short_names(5), of "[?s]" 1] by auto
  have c: "counter args (cluster_put 1) (cluster_get 1) dadd dbl st1 = Inr st2"
    using 2(1) 3(1) 4(1) by (simp add: counter_def fromDouble_def demo_keys)
  have ck: "frame_stored args (arr_base ''ck'') [Double] [map DElem [?s]] 1 (Key_lit ''ck'' 0) (cluster_val (numNodes args) st2)"
    using array_stored_keep [OF _ short_names(10) 4(4)] 1(3) 2(3) 3(3) by simp
  have i2: "cluster_inv (numNodes args) 2 st2" using cluster_inv_node [OF 4(2)] assms(1) by simp
  obtain r u3 where 5: "waitAndGet (cluster_get 2) (Key_lit ''verif'' 0) st2 = Inr (r, u3)" "cluster_inv (numNodes args) 2 u3"
    "cluster_val (numNodes args) u3 = cluster_val (numNodes args) st2"
    "frame_repr args (arr_base ''verif'') (cluster_val (numNodes args) u3) [Double] [map DElem [?s]] r"
    using cluster_kv.waitAndGet_repr [OF 4(3) i2 hk] by blast
  obtain e u4 where 6: "waitAndGet (cluster_get 2) (Key_lit ''ck'' 0) u3 = Inr (e, u4)" "cluster_inv (numNodes args) 2 u4"
    "cluster_val (numNodes args) u4 = cluster_val (numNodes args) u3"
    "frame_repr args (arr_base ''ck'') (cluster_val (numNodes args) u4) [Double] [map DElem [?s]] e"
    using cluster_kv.waitAndGet_repr [OF _ 5(2) hk, of args "arr_base ''ck''"] ck 5(3) by metis
  obtain e' u5 where 7: "DataFrame_get_double args (cluster_get 2) 0 0 (e, u4) = Inr (?s, e', u5)" "cluster_inv (numNodes args) 2 u5"
    "cluster_val (numNodes args) u5 = cluster_val (numNodes args) u4"
    using get_double_cell [OF 6(4,2) A(2), of 0] by auto
  have "frame_repr args (arr_base ''verif'') (cluster_val (numNodes args) u5) [Double] [map DElem [?s]] r"
    using 5(4) 6(3) 7(3) by simp
  then obtain r' st3 where 8: "DataFrame_get_double args (cluster_get 2) 0 0 (r, u5) = Inr (?s, r', st3)"
    using get_double_cell [OF _ 7(2) A(2), of "arr_base ''verif''" "[?s]" r 0] by auto
  have "summarizer args (cluster_get 2) deq st2 = Inr (True, st3)"
    using 5(1) 6(1) 7(1) 8 assms(5) [OF refl] by (simp add: summarizer_def demo_keys)
  with p c show ?thesis by blast
qed

lemma demo_succeeds_witness:
  "\<exists>st st1 st2 st3. Cluster_init 3 = Inr st \<and>
    producer (Args_default\<lparr>numNodes := 3\<rparr>) (cluster_put 0) (+) of_nat st = Inr st1 \<and>
    counter (Args_default\<lparr>numNodes := 3\<rparr>) (cluster_put 1) (cluster_get 1) (+) of_nat st1 = Inr st2 \<and>
    summarizer (Args_default\<lparr>numNodes := 3\<rparr>) (cluster_get 2) (=) st2 = Inr (True, st3)"
proof -
  let ?a = "Args_default\<lparr>numNodes := 3\<rparr>"
  obtain st where st: "Cluster_init 3 = Inr st" "cluster_inv 3 0 st" using cluster_start [of 0 3] by auto
  have "3 \<le> numNodes ?a" "0 < blockSize ?a" "blockSize ?a < 2 ^ 64" "cluster_inv (numNodes ?a) 0 st"
    using st(2) by (simp_all add: Args_default_def)
  from demo_succeeds [OF this, of "(+)" of_nat "(=)"] st(1) show ?thesis by blast
qed

end
