(* ===== verification/ClusterFrames.thy ===== *)
theory ClusterFrames
  imports Demos
begin

text \<open>
  Several frames in one store: which keys a frame takes (\<open>in_frame\<close>), when two frames keep out of
  each other's way (\<open>clear_of\<close>), what storing one leaves of the others (\<open>only_changes\<close>), and how a
  frame written by rows is stored, fetched and kept (\<open>stored\<close>, \<open>loaded\<close>, \<open>fetch\<close>). The applications
  that exchange many frames, Linus and the word count, share this.
\<close>

section \<open>Names that keep apart\<close>

text \<open>Frames whose names are neither equal nor one the other followed by a dash keep out of each other's way.\<close>

definition clear_of :: "char list \<Rightarrow> char list \<Rightarrow> bool" where
  "clear_of cs ds \<longleftrightarrow> cs \<noteq> ds \<and> \<not> prefix (cs @ ''-'') ds \<and> \<not> prefix (ds @ ''-'') cs"

text \<open>The keys of the frame \<open>cs\<close>: its own, and those of its blocks, whether it comes from a writer or an array.\<close>

definition in_frame :: "char list \<Rightarrow> Key \<Rightarrow> bool" where
  "in_frame cs key \<longleftrightarrow> (\<exists>ds h. key = Key_lit cs h \<or> key = Key_lit (cs @ CHR ''-'' # ds) h)"

lemma in_frame_keys [simp]: "in_frame cs (Key_lit cs h)" "in_frame cs (block_key args cs k i)" "in_frame cs (block_key args (arr_base cs j) k i)"
  by (auto simp: in_frame_def block_key_def arr_base_def)

lemma clear_in_frame:
  assumes c: "clear_of cs ds" and k: "in_frame ds key"
  shows "\<not> in_frame cs key"
proof -
  have 1: "ds \<noteq> cs @ CHR ''-'' # x" "cs \<noteq> ds @ CHR ''-'' # x" for x
    using c unfolding clear_of_def prefix_def by auto
  have "ds @ CHR ''-'' # x \<noteq> cs @ CHR ''-'' # y" for x y
  proof
    assume "ds @ CHR ''-'' # x = cs @ CHR ''-'' # y"
    then obtain us where "ds = cs @ us \<and> us @ CHR ''-'' # x = CHR ''-'' # y \<or> ds @ us = cs \<and> CHR ''-'' # x = us @ CHR ''-'' # y"
      unfolding append_eq_append_conv2 by blast
    then show False using c 1 by (cases us) (auto simp: clear_of_def)
  qed
  then show ?thesis using k 1 c unfolding in_frame_def clear_of_def by (auto; metis)
qed

section \<open>What a write leaves alone\<close>

text \<open>The store of \<open>st'\<close> differs from that of \<open>st\<close> in the frame \<open>cs\<close> only.\<close>

definition only_changes :: "Args \<Rightarrow> char list \<Rightarrow> Cluster \<Rightarrow> Cluster \<Rightarrow> bool" where
  "only_changes args cs st st' \<longleftrightarrow> (\<forall>key. \<not> in_frame cs key \<longrightarrow>
     cluster_val (numNodes args) st' key = cluster_val (numNodes args) st key)"

lemma only_changesI:
  "\<forall>key. key \<noteq> Key_lit cs 0 \<longrightarrow> (\<forall>k i. key \<noteq> block_key args cs k i) \<longrightarrow> cluster_val (numNodes args) st' key = cluster_val (numNodes args) st key \<Longrightarrow>
   only_changes args cs st st'"
  "\<forall>key. key \<noteq> Key_lit cs 0 \<longrightarrow> (\<forall>i. key \<noteq> block_key args (arr_base cs 0) 0 i) \<longrightarrow> cluster_val (numNodes args) st' key = cluster_val (numNodes args) st key \<Longrightarrow>
   only_changes args cs st st'"
  unfolding only_changes_def by (metis in_frame_keys(1,2), metis in_frame_keys(1,3))

lemma frame_keep:
  assumes f: "frame_stored args base ts vss n (Key_lit ds 0) (cluster_val (numNodes args) st)" and b: "base = (\<lambda>_. ds) \<or> base = arr_base ds"
    and o: "only_changes args cs st st'" and c: "clear_of cs ds"
  shows "frame_stored args base ts vss n (Key_lit ds 0) (cluster_val (numNodes args) st')"
proof (rule frame_stored_keep [OF f])
  have keep: "cluster_val (numNodes args) st' key = cluster_val (numNodes args) st key" if "in_frame ds key" for key
    using o clear_in_frame [OF c that] by (simp add: only_changes_def)
  show "cluster_val (numNodes args) st' (Key_lit ds 0) = cluster_val (numNodes args) st (Key_lit ds 0)" by (rule keep) simp
  show "cluster_val (numNodes args) st' (block_key args (base i) i j) = cluster_val (numNodes args) st (block_key args (base i) i j)" for i j
    by (rule keep) (use b in auto)
qed

section \<open>Frames of rows\<close>

text \<open>The frame of a file under its name.\<close>

definition stored :: "Args \<Rightarrow> char list \<Rightarrow> DataType list \<Rightarrow> RowValue list list \<Rightarrow> Cluster \<Rightarrow> bool" where
  "stored args cs ts rows st \<longleftrightarrow> frame_stored args (\<lambda>_. cs) ts (cols_of ts rows) (length rows) (Key_lit cs 0) (cluster_val (numNodes args) st)"

definition loaded :: "Args \<Rightarrow> char list \<Rightarrow> DataType list \<Rightarrow> RowValue list list \<Rightarrow> Cluster \<Rightarrow> DataFrame \<Rightarrow> bool" where
  "loaded args cs ts rows st df \<longleftrightarrow> frame_repr args (\<lambda>_. cs) (cluster_val (numNodes args) st) ts (cols_of ts rows) df \<and> nrows df = length rows"

lemma stored_keep: "stored args ds ts rows st \<Longrightarrow> only_changes args cs st st' \<Longrightarrow> clear_of cs ds \<Longrightarrow> stored args ds ts rows st'"
  unfolding stored_def using frame_keep [where base = "\<lambda>_. ds"] by blast

lemma loaded_keep: "loaded args ds ts rows st df \<Longrightarrow> only_changes args cs st st' \<Longrightarrow> clear_of cs ds \<Longrightarrow> loaded args ds ts rows st' df"
proof -
  assume f: "loaded args ds ts rows st df" and o: "only_changes args cs st st'" and c: "clear_of cs ds"
  have "frame_repr args (\<lambda>_. ds) (cluster_val (numNodes args) st') ts (cols_of ts rows) df"
  proof (rule frame_repr_frame)
    show "cluster_val (numNodes args) st' (block_key args ds i j) = cluster_val (numNodes args) st (block_key args ds i j)" for i j
      using o clear_in_frame [OF c in_frame_keys(2)] by (simp add: only_changes_def)
  qed (use f in \<open>simp add: loaded_def\<close>)
  then show ?thesis using f by (simp add: loaded_def)
qed

lemma fetch:
  assumes "stored args cs ts rows st" and "cluster_inv (numNodes args) i st" and "sizes_ok args"
  shows "\<exists>df st'. waitAndGet (cluster_get i) (Key_lit cs 0) st = Inr (df, st') \<and> cluster_inv (numNodes args) i st' \<and>
    cluster_val (numNodes args) st' = cluster_val (numNodes args) st \<and> loaded args cs ts rows st' df"
proof -
  have hk: "home (Key_lit cs 0) < numNodes args" using assms(3) by (simp add: home_def sizes_ok_def)
  show ?thesis using cluster_kv.waitAndGet_repr [OF assms(1) [unfolded stored_def] assms(2) hk] by (auto simp: loaded_def)
qed

lemma stored_same: "stored args cs ts rows st \<Longrightarrow> cluster_val (numNodes args) st' = cluster_val (numNodes args) st \<Longrightarrow> stored args cs ts rows st'"
  by (simp add: stored_def)

lemma loaded_same: "loaded args cs ts rows st df \<Longrightarrow> cluster_val (numNodes args) st' = cluster_val (numNodes args) st \<Longrightarrow> loaded args cs ts rows st' df"
  by (simp add: loaded_def)

section \<open>A read that does not wait\<close>

text \<open>\<open>kv_->getValue(k, false)\<close> called by the application of node \<open>i\<close> while no receiver runs.\<close>

definition cluster_peek :: "nat \<Rightarrow> Key \<Rightarrow> Cluster \<Rightarrow> (Value option \<times> Cluster) res" where
  "cluster_peek i k c =
     (let nd = cl_nodes c ! i in
      res_bind (getValue PseudoNetwork_sendMsg k False (nd_kv nd) (net_of c i)) (\<lambda>(v, kv, pn).
      Inr (v, put_back i kv pn (nd_app nd) (nd_receiving nd) c)))"

text \<open>Of a key at home it finds what is stored, and changes nothing.\<close>

lemma cluster_peek_home:
  assumes inv: "cluster_inv n i c" and k: "Key_ok k" "home k = i"
  shows "cluster_peek i k c = Inr (cluster_val n c k, c)"
proof -
  obtain s where n: "0 < n" "n < 2 ^ 64" "i < n" and s: "reachable n c s" using inv by (auto simp: cluster_inv_def)
  have r: "refines c s" "length (sp_q s) = n" using reachable_inv [OF s n(1,2)] by simp_all
  have i: "i < length (sp_q s)" "k_homeNode k = of_nat i" using n r(2) k(2) home_eq [of i k] by simp_all
  note R = refinesD [OF r(1) i(1)]
  have eta: "\<lparr>nd_kv = nd_kv nd, nd_isNodeDone = nd_isNodeDone nd, nd_app = nd_app nd, nd_receiving = nd_receiving nd\<rparr> = nd" for nd :: ClusterNode
    by (cases nd) simp
  have "put_back i (nd_kv (cl_nodes c ! i)) (net_of c i) (nd_app (cl_nodes c ! i)) (nd_receiving (cl_nodes c ! i)) c = c"
    unfolding put_back_def by (cases c) (simp add: net_of_def eta)
  then show ?thesis
    using getValue_local [OF R(3) k(1), of PseudoNetwork_sendMsg "net_of c i"] R(4) i(2) n(3) k(2)
    by (simp add: cluster_peek_def cluster_val_def)
qed

text \<open>So \<open>kv_->get\<close> of a stored frame at home returns it.\<close>

lemma get_frame:
  assumes "frame_stored args base ts vss n (Key_lit cs h) (cluster_val (numNodes args) st)" and "cluster_inv (numNodes args) i st" and "home (Key_lit cs h) = i"
  shows "\<exists>df. KVStore_get (cluster_peek i) (Key_lit cs h) st = Inr (Some df, st) \<and>
    frame_repr args base (cluster_val (numNodes args) st) ts vss df \<and> nrows df = n"
proof -
  obtain V df where V: "Key_ok (Key_lit cs h)" "cluster_val (numNodes args) st (Key_lit cs h) = Some V" "getHelper (Key_lit cs h) V = Inr df"
    "frame_repr args base (cluster_val (numNodes args) st) ts vss df" "nrows df = n" using assms(1) by (auto simp: frame_stored_def)
  then show ?thesis using cluster_peek_home [OF assms(2) V(1) assms(3)] by (simp add: KVStore_get_def)
qed

end
