(* ===== verification/WordCount.thy ===== *)
theory WordCount
  imports WordMap ClusterFrames
begin

text \<open>
  The word count (\<open>src/application/wordcount.h\<close>): node 0 reads the file into a frame, every node
  counts the words of its own rows and stores the counts as a frame, and node 0 merges the frames.

  \<open>merge\<close> runs the same \<open>Adder\<close> over the frames of counts that \<open>local_count\<close> runs over the words,
  so it counts rows: what it computes for a word is the number of nodes that have it
  (\<open>word_count_merges_rows\<close>), not how often it occurs. The number of different words, which is all
  \<open>reduce\<close> prints, is right. The members \<open>all\<close> and \<open>df\<close> are never used, and printing is left out.
\<close>

section \<open>The program\<close>

record WordCount =
  wc_in :: Key
  wc_kbuf :: KeyBuff

definition WordCount_new :: "WordCount res" where
  "WordCount_new =
     res_bind (Key_new (''data'' @ [NUL]) 0) (\<lambda>in'.
     res_bind (Key_new (''wc-m'' @ [NUL]) 0) (\<lambda>bufKey.
     res_bind (KeyBuff_new bufKey) (\<lambda>kbuf. Inr \<lparr>wc_in = in', wc_kbuf = kbuf\<rparr>)))"

definition mk_key :: "nat \<Rightarrow> WordCount \<Rightarrow> (Key \<times> WordCount) res" where
  "mk_key idx wc =
     res_bind (KeyBuff_c_size_t idx (wc_kbuf wc)) (\<lambda>kbuf.
     res_bind (KeyBuff_get kbuf) (\<lambda>(k, kbuf). Inr (k, wc\<lparr>wc_kbuf := kbuf\<rparr>)))"

text \<open>The first branch of \<open>run_\<close>.\<close>

definition WordCount_read ::
    "(char list \<Rightarrow> char list option) \<Rightarrow> Args \<Rightarrow> (Key \<Rightarrow> Value \<Rightarrow> 's \<Rightarrow> 's res) \<Rightarrow> WordCount \<times> 's \<Rightarrow> 's res" where
  "WordCount_read files args putv = (\<lambda>(wc, st).
     res_bind (FileReader_new files) (\<lambda>fr.
     res_bind (fromVisitor args putv (wc_in wc) [CHR ''S'', NUL] FileReader_methods (fr, st)) (\<lambda>(_, _, st). Inr st)))"

definition local_count ::
    "Args \<Rightarrow> (Key \<Rightarrow> Value \<Rightarrow> 's \<Rightarrow> 's res) \<Rightarrow> (Key \<Rightarrow> 's \<Rightarrow> (Value option \<times> 's) res) \<Rightarrow> nat \<Rightarrow> WordCount \<times> 's \<Rightarrow> (WordCount \<times> 's) res" where
  "local_count args putv getv idx = (\<lambda>(wc, st).
     res_bind (waitAndGet getv (wc_in wc) st) (\<lambda>(words, st).
     res_bind (local_map args getv (of_nat idx) Adder_visit (SIMap_new, words, st)) (\<lambda>(map, _, st).
     res_bind (mk_key idx wc) (\<lambda>(localKey, wc).
     res_bind (fromVisitor args putv localKey [CHR ''S'', CHR ''I'', NUL] (Summer_methods map) (Summer_new, st)) (\<lambda>(_, _, st).
     Inr (wc, st))))))"

definition WordCount_merge ::
    "Args \<Rightarrow> (Key \<Rightarrow> 's \<Rightarrow> (Value option \<times> 's) res) \<Rightarrow> DataFrame \<Rightarrow> SIMap \<times> 's \<Rightarrow> (SIMap \<times> 's) res" where
  "WordCount_merge args getv df = (\<lambda>(m, st). res_bind (df_map args getv Adder_visit (m, df, st)) (\<lambda>(m, _, st). Inr (m, st)))"

text \<open>\<open>reduce\<close>; the map, of which it prints the size, is its result. \<open>peekv\<close> is the read that does not wait.\<close>

definition WordCount_reduce ::
    "Args \<Rightarrow> (Key \<Rightarrow> 's \<Rightarrow> (Value option \<times> 's) res) \<Rightarrow> (Key \<Rightarrow> 's \<Rightarrow> (Value option \<times> 's) res) \<Rightarrow> nat \<Rightarrow> WordCount \<times> 's \<Rightarrow>
     (SIMap option \<times> WordCount \<times> 's) res" where
  "WordCount_reduce args peekv getv idx = (\<lambda>(wc, st).
     if idx \<noteq> 0 then Inr (None, wc, st)
     else
       res_bind (mk_key 0 wc) (\<lambda>(own, wc).
       res_bind (KVStore_get peekv own st) (\<lambda>(tmp, st). case tmp of
         None \<Rightarrow> Inl NullDeref
       | Some tmp \<Rightarrow>
           res_bind (WordCount_merge args getv tmp (SIMap_new, st)) (\<lambda>(map, st).
           res_bind (res_fold (\<lambda>i (map, wc, st).
               res_bind (mk_key i wc) (\<lambda>(ok, wc).
               res_bind (waitAndGet getv ok st) (\<lambda>(df, st).
               res_bind (WordCount_merge args getv df (map, st)) (\<lambda>(map, st). Inr (map, wc, st)))))
             [1..<numNodes args] (map, wc, st)) (\<lambda>(map, wc, st). Inr (Some map, wc, st))))))"

text \<open>All nodes: node 0 reads, every node counts, node 0 reduces; each waits for what comes before.\<close>

definition wordcount_run ::
    "(char list \<Rightarrow> char list option) \<Rightarrow> Args \<Rightarrow> (nat \<Rightarrow> WordCount) \<times> Cluster \<Rightarrow> (SIMap option \<times> (nat \<Rightarrow> WordCount) \<times> Cluster) res" where
  "wordcount_run files args = (\<lambda>(wcs, st).
     res_bind (WordCount_read files args (cluster_put 0) (wcs 0, st)) (\<lambda>st.
     res_bind (res_fold (\<lambda>j (wcs, st).
         res_bind (local_count args (cluster_put j) (cluster_get j) j (wcs j, st)) (\<lambda>(wc, st). Inr (wcs(j := wc), st)))
       [0..<numNodes args] (wcs, st)) (\<lambda>(wcs, st).
     res_bind (WordCount_reduce args (cluster_peek 0) (cluster_get 0) 0 (wcs 0, st)) (\<lambda>(m, wc, st). Inr (m, wcs(0 := wc), st)))))"

section \<open>The keys\<close>

definition count_name :: "nat \<Rightarrow> char list" where
  "count_name j = ''wc-m'' @ to_string j"

definition wc_ok :: "WordCount \<Rightarrow> bool" where
  "wc_ok wc \<longleftrightarrow> wc_in wc = Key_lit ''data'' 0 \<and> KeyBuff_repr (wc_kbuf wc) ''wc-m'' 0 []"

lemma WordCount_new_ok: "\<exists>wc. WordCount_new = Inr wc \<and> wc_ok wc"
proof -
  have "cstr_ok ''wc-m''" by (simp add: cstr_ok_def)
  then obtain kb where "KeyBuff_new (Key_lit ''wc-m'' 0) = Inr kb" "KeyBuff_repr kb ''wc-m'' 0 []" using KeyBuff_new_repr by blast
  moreover have "Key_new (''data'' @ NUL # []) 0 = Inr (Key_lit ''data'' 0)" "Key_new (''wc-m'' @ NUL # []) 0 = Inr (Key_lit ''wc-m'' 0)"
    by (rule Key_new_lit, simp)+
  ultimately show ?thesis by (simp add: WordCount_new_def wc_ok_def)
qed

lemma WordCount_newD: "WordCount_new = Inr wc \<Longrightarrow> wc_ok wc"
  using WordCount_new_ok by (metis sum.inject(2))

lemma mk_key_ok:
  assumes "wc_ok wc"
  shows "\<exists>wc'. mk_key idx wc = Inr (Key_lit (count_name idx) 0, wc') \<and> wc_ok wc'"
proof -
  have c: "cstr_ok ''wc-m''" by (simp add: cstr_ok_def)
  have k: "KeyBuff_repr (wc_kbuf wc) ''wc-m'' 0 []" "wc_in wc = Key_lit ''data'' 0" using assms by (simp_all add: wc_ok_def)
  obtain k1 where k1: "KeyBuff_c_size_t idx (wc_kbuf wc) = Inr k1" "KeyBuff_repr k1 ''wc-m'' 0 ([] @ to_string idx)"
    using KeyBuff_c_repr(2) [OF k(1)] by blast
  have "NUL \<notin> set ([] @ to_string idx)" using to_string_no_nul by simp
  from KeyBuff_get_repr [OF k1(2) c this] obtain k2 where k2: "KeyBuff_get k1 = Inr (Key_lit (count_name idx) 0, k2)" "KeyBuff_repr k2 ''wc-m'' 0 []"
    by (auto simp: count_name_def)
  then show ?thesis using k1(1) k(2) by (simp add: mk_key_def wc_ok_def)
qed

lemma count_name_cstr: "j < 2 ^ 64 \<Longrightarrow> cstr_ok (count_name j) \<and> length (count_name j) \<le> 24"
proof -
  assume "j < 2 ^ 64"
  then have "j < 10 ^ Suc 19" by simp
  then have "length (to_string j) \<le> 20" using length_to_string [of j 19] by simp
  then show ?thesis using to_string_no_nul [of j] by (simp add: count_name_def cstr_ok_def)
qed

lemma no_dash_after: "\<not> prefix (''wc-m'' @ to_string j @ ''-'') (''wc-m'' @ to_string i)"
proof
  assume "prefix (''wc-m'' @ to_string j @ ''-'') (''wc-m'' @ to_string i)"
  then have "CHR ''-'' \<in> set (to_string i)" by (auto simp: prefix_def)
  then show False using to_string_no_dash by blast
qed

lemma count_clear:
  "i \<noteq> j \<Longrightarrow> clear_of (count_name i) (count_name j)" "clear_of (count_name i) ''data''"
  using no_dash_after [of i j] no_dash_after [of j i] by (simp_all add: clear_of_def count_name_def)

section \<open>Sizes\<close>

lemma sum_list_le: "\<forall>x \<in> set xs. f x \<le> (b :: nat) \<Longrightarrow> sum_list (map f xs) \<le> length xs * b"
  by (induction xs) auto

text \<open>Rows that start with a word.\<close>

definition word_ok :: "char list \<Rightarrow> bool" where
  "word_ok w \<longleftrightarrow> NUL \<notin> set w \<and> length w \<le> 512"

lemma word_ok_cstr: "word_ok w \<Longrightarrow> cstr_ok w"
  by (auto simp: word_ok_def cstr_ok_def)

lemma text_file_words: "text_file t \<Longrightarrow> (\<forall>w \<in> set (words t). word_ok w) \<and> length (words t) \<le> length t"
proof (induction t rule: words.induct)
  case (2 c cs)
  show ?case
  proof (cases "isspace c")
    case True
    then show ?thesis using 2 text_file_tail [of "[c]" cs] by auto
  next
    case False
    let ?w = "takeWhile (\<lambda>c. \<not> isspace c) cs" and ?d = "dropWhile (\<lambda>c. \<not> isspace c) cs"
    have s: "c # cs = (c # ?w) @ ?d" by simp
    then have t: "text_file ?d" using 2(3) text_file_tail by metis
    have "takeWhile (\<lambda>c. \<not> isspace c) (drop 0 (c # cs)) = c # ?w" using False by simp
    then have "length (c # ?w) \<le> 512" using 2(3) unfolding text_file_def by (metis le0)
    moreover have "NUL \<notin> set (c # ?w)" using 2(3) by (auto simp: text_file_def dest: set_takeWhileD)
    moreover have "length ?d \<le> length cs" by (rule length_dropWhile_le)
    ultimately show ?thesis using 2(2) [OF False t] False by (auto simp: word_ok_def)
  qed
qed simp

lemma word_size: "word_ok w \<Longrightarrow> value_size (SElem (String_lit w)) \<le> 600"
  by (simp add: word_ok_def enc_String_def enc_cstr_def)

lemma word_rows_fit:
  assumes "\<forall>w \<in> set ws. word_ok w" and "length ws < 2 ^ 31"
  shows "rows_fit [Str] (word_rows ws)"
proof -
  have "sum_list (map (\<lambda>w. value_size (SElem (String_lit w))) ws) \<le> length ws * 600" using assms(1) word_size by (intro sum_list_le) blast
  then show ?thesis using assms(2) by (simp add: rows_fit_def word_rows_def comp_def)
qed

lemma entry_rows_fit:
  assumes "\<forall>e \<in> set es. \<exists>w. fst e = String_lit w \<and> word_ok w" and "length es < 2 ^ 31"
  shows "rows_fit [Str, Integer] (map entry_row es)"
proof -
  have "sum_list (map (\<lambda>e. value_size (SElem (fst e))) es) \<le> length es * 600" using assms(1) word_size by (intro sum_list_le) force
  then show ?thesis using assms(2) by (auto simp: rows_fit_def entry_row_def comp_def less_Suc_eq sum_list_triv)
qed

lemma words_frame_fits: "n < 2 ^ 31 \<Longrightarrow> L \<le> 24 \<Longrightarrow> length ts \<le> 2 \<Longrightarrow> frame_fits ts n L"
proof -
  assume a: "n < 2 ^ 31" "L \<le> 24" "length ts \<le> 2"
  have "(n + 1) * (L + 80) \<le> 2 ^ 31 * 104" using a by (intro mult_le_mono) simp_all
  then have "length ts * ((n + 1) * (L + 80) + 1) \<le> 2 * (2 ^ 31 * 104 + 1)" using a by (intro mult_le_mono) simp_all
  then show ?thesis using a(2) by (simp add: frame_fits_def)
qed

section \<open>The steps\<close>

lemma home0: "sizes_ok args \<Longrightarrow> home (Key_lit cs 0) < numNodes args"
  by (simp add: home_def sizes_ok_def)

lemma read_words_ok:
  assumes f: "files FILE_NAME = Some t" "text_file t" "length t < 2 ^ 31" and inv: "cluster_inv (numNodes args) i st"
    and A: "sizes_ok args" "homes (\<lambda>k. home k < numNodes args) args" and wc: "wc_ok wc"
  shows "\<exists>st'. WordCount_read files args (cluster_put i) (wc, st) = Inr st' \<and> cluster_inv (numNodes args) i st' \<and>
    stored args ''data'' [Str] (word_rows (words t)) st'"
proof -
  obtain fr data where fr: "FileReader_new files = Inr fr" "at_word fr data" "text_file data" "words data = words t"
    using FileReader_new_ok [of files t, OF f(1,2)] by blast
  have todo: "reader_todo fr (word_rows (words t))" using fr(2-4) unfolding reader_todo_def by metis
  have w: "\<forall>w \<in> set (words t). word_ok w" "length (words t) < 2 ^ 31" using text_file_words [OF f(2)] f(3) by simp_all
  have len: "length (word_rows (words t)) = length (words t)" by (simp add: word_rows_def)
  have k: "cstr_ok ''data''" "length ''data'' < 2 ^ 32" "[Str] \<noteq> []" "Field \<notin> set [Str]" "length [Str] < 2 ^ 64" by (simp_all add: cstr_ok_def)
  have ff: "frame_fits [Str] (length (word_rows (words t))) (length ''data'')"
    unfolding len by (rule words_frame_fits) (simp_all add: w(2) [simplified])
  obtain df fr' st' where v: "fromVisitor args (cluster_put i) (Key_lit ''data'' 0) (map type_char [Str] @ [NUL]) FileReader_methods (fr, st) = Inr (df, fr', st')"
    "cluster_inv (numNodes args) i st'"
    "frame_stored args (\<lambda>_. ''data'') [Str] (cols_of [Str] (word_rows (words t))) (length (word_rows (words t))) (Key_lit ''data'' 0) (cluster_val (numNodes args) st')"
    using cluster_file_reader.fromVisitor_repr [OF k(3,4,1,2,5) home0 [OF A(1)] A(1) inv A(2) todo word_rows_fit [OF w] ff] by blast
  then show ?thesis using fr(1) wc by (simp add: WordCount_read_def wc_ok_def stored_def)
qed

text \<open>The words at home on node \<open>j\<close>.\<close>

definition home_words :: "Args \<Rightarrow> nat \<Rightarrow> char list list \<Rightarrow> String list" where
  "home_words args j ws = map (\<lambda>i. String_lit (ws ! i)) (filter (at_home args (of_nat j)) [0..<length ws])"

lemma home_words_sub: "s \<in> set (home_words args j ws) \<Longrightarrow> \<exists>w \<in> set ws. s = String_lit w"
  by (auto simp: home_words_def)

text \<open>The frame of node \<open>j\<close>: an entry for each word at home, with how often it occurs there.\<close>

definition counts_stored :: "Args \<Rightarrow> char list list \<Rightarrow> nat \<Rightarrow> Cluster \<Rightarrow> (String, Num) entries \<Rightarrow> bool" where
  "counts_stored args ws j st es \<longleftrightarrow> distinct (map fst es) \<and> map_of es = counted (home_words args j ws) \<and>
     stored args (count_name j) [Str, Integer] (map entry_row es) st"

lemma counts_stored_words:
  "counts_stored args ws j st es \<Longrightarrow> fst ` set es = set (home_words args j ws)"
  "counts_stored args ws j st es \<Longrightarrow> e \<in> set es \<Longrightarrow> \<exists>w \<in> set ws. fst e = String_lit w"
proof -
  assume c: "counts_stored args ws j st es"
  then have "fst ` set es = dom (counted (home_words args j ws))" unfolding counts_stored_def by (metis dom_map_of_conv_image_fst)
  also have "\<dots> = set (home_words args j ws)" by simp
  finally show s: "fst ` set es = set (home_words args j ws)" .
  show "e \<in> set es \<Longrightarrow> \<exists>w \<in> set ws. fst e = String_lit w" using s home_words_sub by blast
qed

lemma entries_fit:
  assumes m: "SIMap_ok m" "Map_abs m = counted (home_words args j ws)" and w: "\<forall>w \<in> set ws. word_ok w" "length ws < 2 ^ 31"
  shows "rows_fit [Str, Integer] (map entry_row (Map_entries m))" and "length (Map_entries m) < 2 ^ 31" and "distinct (map fst (Map_entries m))"
proof -
  have "fst ` set (Map_entries m) = set (home_words args j ws)" using dom_Map_abs [of m] m(2) by simp
  then have s: "set (map fst (Map_entries m)) \<subseteq> String_lit ` set ws" using home_words_sub by fastforce
  show d: "distinct (map fst (Map_entries m))" using m(1) Map_inv_distinct by (auto simp: SIMap_ok_def)
  have "length (Map_entries m) = card (set (map fst (Map_entries m)))" using distinct_card [OF d] by simp
  also have "\<dots> \<le> card (String_lit ` set ws)" using s by (intro card_mono) simp_all
  also have "\<dots> \<le> length ws" by (metis card_image_le card_length finite_set le_trans)
  finally show l: "length (Map_entries m) < 2 ^ 31" using w(2) by simp
  have "\<forall>e \<in> set (Map_entries m). \<exists>v. fst e = String_lit v \<and> word_ok v" using s w(1) by fastforce
  from entry_rows_fit [OF this l] show "rows_fit [Str, Integer] (map entry_row (Map_entries m))" .
qed

lemma SIMap_new_ok: "SIMap_ok SIMap_new" "Map_abs SIMap_new = Map.empty"
  by (simp_all add: SIMap_ok_def SIMap_new_def Map_default_def)

lemma word_row_at: "i < length ws \<Longrightarrow> as_string (row_at (cols_of [Str] (word_rows ws)) i ! 0) = String_lit (ws ! i)"
  by (subst row_at_cols_of) (simp_all add: word_rows_def)

lemma entry_row_at: "i < length es \<Longrightarrow> as_string (row_at (cols_of [Str, Integer] (map entry_row es)) i ! 0) = fst (es ! i)"
  by (subst row_at_cols_of) (simp_all add: entry_row_def)

lemma local_count_ok:
  assumes d: "stored args ''data'' [Str] (word_rows ws) st" and w: "\<forall>w \<in> set ws. word_ok w" "length ws < 2 ^ 31"
    and inv: "cluster_inv (numNodes args) j st" and A: "sizes_ok args" "homes (\<lambda>k. home k < numNodes args) args" and wc: "wc_ok wc"
    and j: "j < 2 ^ 64"
  shows "\<exists>wc' st' es. local_count args (cluster_put j) (cluster_get j) j (wc, st) = Inr (wc', st') \<and> wc_ok wc' \<and>
    cluster_inv (numNodes args) j st' \<and> counts_stored args ws j st' es \<and> only_changes args (count_name j) st st'"
proof -
  let ?vss = "cols_of [Str] (word_rows ws)" and ?is = "filter (at_home args (of_nat j)) [0..<length ws]"
  let ?m = "fold (\<lambda>i. adder_see i (row_at ?vss i)) ?is SIMap_new"
  have n: "length (?vss ! k) = length ws" if "k < length [Str]" for k using that by (simp add: word_rows_def)
  have f: "frame_stored args (\<lambda>_. ''data'') [Str] ?vss (length ws) (Key_lit ''data'' 0) (cluster_val (numNodes args) st)"
    using d by (simp add: stored_def word_rows_def)
  obtain df st1 df' st2 where 1: "waitAndGet (cluster_get j) (Key_lit ''data'' 0) st = Inr (df, st1)"
    "local_map args (cluster_get j) (of_nat j) Adder_visit (SIMap_new, df, st1) = Inr (?m, df', st2)"
    "cluster_inv (numNodes args) j st2" "cluster_val (numNodes args) st2 = cluster_val (numNodes args) st"
    using cluster_adder.read_local [OF f inv A(2) home0 [OF A(1)] n SIMap_new_ok(1) A(1), of "of_nat j"] by blast
  have wf: "\<forall>i \<in> set ?is. String_wf (as_string (row_at ?vss i ! 0))" using w(1) by (auto simp: word_row_at intro: word_ok_cstr)
  have "map (\<lambda>i. as_string (row_at ?vss i ! 0)) ?is = home_words args j ws" by (auto simp: home_words_def word_row_at)
  then have m: "SIMap_ok ?m" "Map_abs ?m = counted (home_words args j ws)"
    using adder_fold [OF SIMap_new_ok(1) wf] SIMap_new_ok(2) fold_bump by auto
  note e = entries_fit [OF m w]
  obtain wc' where k: "mk_key j wc = Inr (Key_lit (count_name j) 0, wc')" "wc_ok wc'" using mk_key_ok [OF wc] by blast
  have c: "cstr_ok (count_name j)" "length (count_name j) < 2 ^ 32" "[Str, Integer] \<noteq> []" "Field \<notin> set [Str, Integer]" "length [Str, Integer] < 2 ^ 64"
    using count_name_cstr [OF j] by simp_all
  have ff: "frame_fits [Str, Integer] (length (map entry_row (Map_entries ?m))) (length (count_name j))"
    using words_frame_fits e(2) count_name_cstr [OF j] by simp
  obtain dg su' st3 where v: "fromVisitor args (cluster_put j) (Key_lit (count_name j) 0) (map type_char [Str, Integer] @ [NUL]) (Summer_methods ?m) (Summer_new, st2) = Inr (dg, su', st3)"
    "cluster_inv (numNodes args) j st3"
    "frame_stored args (\<lambda>_. count_name j) [Str, Integer] (cols_of [Str, Integer] (map entry_row (Map_entries ?m))) (length (map entry_row (Map_entries ?m)))
      (Key_lit (count_name j) 0) (cluster_val (numNodes args) st3)"
    "\<forall>key. key \<noteq> Key_lit (count_name j) 0 \<longrightarrow> (\<forall>k i. key \<noteq> block_key args (count_name j) k i) \<longrightarrow> cluster_val (numNodes args) st3 key = cluster_val (numNodes args) st2 key"
    using cluster_summer_writer.fromVisitor_repr [OF c(3,4,1,2,5) home0 [OF A(1)] A(1) 1(3) A(2) summer_start [OF m(1)] e(1) ff] by blast
  have "counts_stored args ws j st3 (Map_entries ?m)"
    using e(3) m(2) v(3) by (simp add: counts_stored_def Map_abs_def stored_def)
  moreover have "only_changes args (count_name j) st st3" using only_changesI(1) [OF v(4)] 1(4) by (simp add: only_changes_def)
  moreover have "local_count args (cluster_put j) (cluster_get j) j (wc, st) = Inr (wc', st3)"
    using 1(1,2) k(1) v(1) wc by (simp add: local_count_def wc_ok_def)
  ultimately show ?thesis using k(2) v(2) by blast
qed

text \<open>\<open>merge\<close> counts the rows of the frame.\<close>

lemma merge_ok:
  assumes c: "counts_stored args ws j st es" and w: "\<forall>w \<in> set ws. word_ok w" and l: "loaded args (count_name j) [Str, Integer] (map entry_row es) st df"
    and inv: "cluster_inv (numNodes args) i st" and A: "homes (\<lambda>k. home k < numNodes args) args" and m: "SIMap_ok m" "Map_abs m = counted ss"
  shows "\<exists>m' st'. WordCount_merge args (cluster_get i) df (m, st) = Inr (m', st') \<and> cluster_inv (numNodes args) i st' \<and>
    cluster_val (numNodes args) st' = cluster_val (numNodes args) st \<and> SIMap_ok m' \<and> Map_abs m' = counted (ss @ map fst es)"
proof -
  let ?vss = "cols_of [Str, Integer] (map entry_row es)"
  let ?m = "fold (\<lambda>i. adder_see i (row_at ?vss i)) [0..<length es] m"
  have f: "frame_repr args (\<lambda>_. count_name j) (cluster_val (numNodes args) st) [Str, Integer] ?vss df" "nrows df = length es" using l by (simp_all add: loaded_def)
  have n: "length (?vss ! k) = length es" if "k < length [Str, Integer]" for k using that by simp
  obtain df' st' where 1: "df_map args (cluster_get i) Adder_visit (m, df, st) = Inr (?m, df', st')" "cluster_inv (numNodes args) i st'"
    "cluster_val (numNodes args) st' = cluster_val (numNodes args) st"
    using cluster_adder.df_map_repr [OF f inv A n m(1)] by blast
  have "String_wf (fst (es ! k))" if "k < length es" for k
    using counts_stored_words(2) [OF c nth_mem [OF that]] w word_ok_cstr by fastforce
  then have wf: "\<forall>k \<in> set [0..<length es]. String_wf (as_string (row_at ?vss k ! 0))" by (auto simp: entry_row_at)
  have "map (\<lambda>k. as_string (row_at ?vss k ! 0)) [0..<length es] = map fst es" by (auto simp: entry_row_at intro: nth_equalityI)
  moreover have "fold bump xs (counted ss) = counted (ss @ xs)" for xs
    by (induction xs rule: rev_induct) (simp_all add: bump_counted)
  ultimately have "SIMap_ok ?m" "Map_abs ?m = counted (ss @ map fst es)" using adder_fold [OF m(1) wf] m(2) by auto
  then show ?thesis using 1 by (auto simp: WordCount_merge_def)
qed

section \<open>All nodes\<close>

lemma counts_stored_keep:
  "counts_stored args ws j st es \<Longrightarrow> only_changes args (count_name i) st st' \<Longrightarrow> i \<noteq> j \<Longrightarrow> counts_stored args ws j st' es"
  using stored_keep [OF _ _ count_clear(1)] by (auto simp: counts_stored_def)

lemma counts_stored_same:
  "counts_stored args ws j st es \<Longrightarrow> cluster_val (numNodes args) st' = cluster_val (numNodes args) st \<Longrightarrow> counts_stored args ws j st' es"
  using stored_same by (auto simp: counts_stored_def)

lemma all_count:
  assumes d: "stored args ''data'' [Str] (word_rows ws) st" and w: "\<forall>w \<in> set ws. word_ok w" "length ws < 2 ^ 31"
    and inv: "cluster_inv (numNodes args) 0 st" and A: "sizes_ok args" "homes (\<lambda>k. home k < numNodes args) args" and wc: "\<forall>j. wc_ok (wcs j)"
  shows "\<exists>wcs' st' es. res_fold (\<lambda>j (wcs, st).
      res_bind (local_count args (cluster_put j) (cluster_get j) j (wcs j, st)) (\<lambda>(wc, st). Inr (wcs(j := wc), st))) [0..<numNodes args] (wcs, st) = Inr (wcs', st') \<and>
    (\<forall>j. wc_ok (wcs' j)) \<and> cluster_inv (numNodes args) 0 st' \<and> (\<forall>j < numNodes args. counts_stored args ws j st' (es j))"
proof -
  have n: "numNodes args < 2 ^ 64" "0 < numNodes args" using inv by (simp_all add: cluster_inv_def)
  let ?P = "\<lambda>k (wcs :: nat \<Rightarrow> WordCount, st). (\<forall>j. wc_ok (wcs j)) \<and> cluster_inv (numNodes args) 0 st \<and> stored args ''data'' [Str] (word_rows ws) st \<and>
    (\<exists>es. \<forall>j < k. counts_stored args ws j st (es j))"
  have "\<exists>t. res_fold (\<lambda>j (wcs :: nat \<Rightarrow> WordCount, st).
      res_bind (local_count args (cluster_put j) (cluster_get j) j (wcs j, st)) (\<lambda>(wc, st). Inr (wcs(j := wc), st))) [0..<numNodes args] (wcs, st) = Inr t \<and>
    ?P (numNodes args) t"
  proof (rule res_fold_upt [where P = ?P])
    show "?P 0 (wcs, st)" using d inv wc by simp
  next
    fix k t
    assume k: "k < numNodes args" and "?P k t"
    then obtain wcs st es where t: "t = (wcs, st)" "\<forall>j. wc_ok (wcs j)" "cluster_inv (numNodes args) 0 st" "stored args ''data'' [Str] (word_rows ws) st"
      "\<forall>j < k. counts_stored args ws j st (es j)" by (cases t) auto
    have k64: "k < 2 ^ 64" using k n by simp
    obtain wc' st' e where 1: "local_count args (cluster_put k) (cluster_get k) k (wcs k, st) = Inr (wc', st')" "wc_ok wc'"
      "cluster_inv (numNodes args) k st'" "counts_stored args ws k st' e" "only_changes args (count_name k) st st'"
      using local_count_ok [OF t(4) w cluster_inv_node [OF t(3) k] A spec [OF t(2)] k64] by blast
    have "\<forall>j < Suc k. counts_stored args ws j st' ((es(k := e)) j)"
      using 1(4) t(5) counts_stored_keep [OF _ 1(5)] by (auto simp: less_Suc_eq)
    moreover have "stored args ''data'' [Str] (word_rows ws) st'" using stored_keep [OF t(4) 1(5) count_clear(2)] .
    moreover have "cluster_inv (numNodes args) 0 st'" using cluster_inv_node [OF 1(3) n(2)] .
    ultimately have "?P (Suc k) (wcs(k := wc'), st')" using t(2) 1(2) by auto
    then show "\<exists>t'. (case t of (wcs, st) \<Rightarrow> res_bind (local_count args (cluster_put k) (cluster_get k) k (wcs k, st)) (\<lambda>(wc, st). Inr (wcs(k := wc), st))) = Inr t' \<and> ?P (Suc k) t'"
      using t(1) 1(1) by auto
  qed simp
  then show ?thesis by auto
qed

lemma reduce_ok:
  assumes c: "\<forall>j < numNodes args. counts_stored args ws j st (es j)" and w: "\<forall>w \<in> set ws. word_ok w"
    and inv: "cluster_inv (numNodes args) 0 st" and A: "sizes_ok args" "homes (\<lambda>k. home k < numNodes args) args" and wc: "wc_ok wc"
  shows "\<exists>m wc' st'. WordCount_reduce args (cluster_peek 0) (cluster_get 0) 0 (wc, st) = Inr (Some m, wc', st') \<and> SIMap_ok m \<and>
    Map_abs m = counted (concat (map (\<lambda>j. map fst (es j)) [0..<numNodes args]))"
proof -
  have n: "0 < numNodes args" using A(1) by (simp add: sizes_ok_def)
  have c0: "counts_stored args ws 0 st (es 0)" using c n by blast
  obtain wc0 where k0: "mk_key 0 wc = Inr (Key_lit (count_name 0) 0, wc0)" "wc_ok wc0" using mk_key_ok [OF wc] by blast
  have f0: "frame_stored args (\<lambda>_. count_name 0) [Str, Integer] (cols_of [Str, Integer] (map entry_row (es 0))) (length (map entry_row (es 0)))
      (Key_lit (count_name 0) 0) (cluster_val (numNodes args) st)" using c0 by (simp add: counts_stored_def stored_def)
  have h: "home (Key_lit (count_name 0) 0) = 0" by (simp add: home_def)
  obtain df where d: "KVStore_get (cluster_peek 0) (Key_lit (count_name 0) 0) st = Inr (Some df, st)"
    "loaded args (count_name 0) [Str, Integer] (map entry_row (es 0)) st df"
    using get_frame [OF f0 inv h] by (auto simp: loaded_def)
  have nil: "Map_abs SIMap_new = counted []" using SIMap_new_ok(2) by (auto simp: counted_def)
  obtain m0 st0 where m0: "WordCount_merge args (cluster_get 0) df (SIMap_new, st) = Inr (m0, st0)" "cluster_inv (numNodes args) 0 st0"
    "cluster_val (numNodes args) st0 = cluster_val (numNodes args) st" "SIMap_ok m0" "Map_abs m0 = counted (map fst (es 0))"
    using merge_ok [OF c0 w d(2) inv A(2) SIMap_new_ok(1) nil] by auto
  let ?f = "\<lambda>i (map, wc, st). res_bind (mk_key i wc) (\<lambda>(ok, wc). res_bind (waitAndGet (cluster_get 0) ok st) (\<lambda>(df, st).
      res_bind (WordCount_merge args (cluster_get 0) df (map, st)) (\<lambda>(map, st). Inr (map, wc, st))))"
  let ?P = "\<lambda>k (m, wc, st'). wc_ok wc \<and> cluster_inv (numNodes args) 0 st' \<and> cluster_val (numNodes args) st' = cluster_val (numNodes args) st \<and>
    SIMap_ok m \<and> Map_abs m = counted (concat (map (\<lambda>j. map fst (es j)) [0..<k]))"
  have "\<exists>t. res_fold ?f [1..<numNodes args] (m0, wc0, st0) = Inr t \<and> ?P (numNodes args) t"
  proof (rule res_fold_upt [where P = ?P])
    show "?P 1 (m0, wc0, st0)" using m0 k0 by simp
    show "1 \<le> numNodes args" using n by simp
  next
    fix k t
    assume k: "k < numNodes args" and "?P k t"
    then obtain m wc st1 where t: "t = (m, wc, st1)" "wc_ok wc" "cluster_inv (numNodes args) 0 st1" "cluster_val (numNodes args) st1 = cluster_val (numNodes args) st"
      "SIMap_ok m" "Map_abs m = counted (concat (map (\<lambda>j. map fst (es j)) [0..<k]))" by (cases t) auto
    have ck: "counts_stored args ws k st1 (es k)" using counts_stored_same [OF _ t(4)] c k by blast
    obtain wc' where kk: "mk_key k wc = Inr (Key_lit (count_name k) 0, wc')" "wc_ok wc'" using mk_key_ok [OF t(2)] by blast
    have sk: "stored args (count_name k) [Str, Integer] (map entry_row (es k)) st1" using ck by (simp add: counts_stored_def)
    obtain dk st2 where 2: "waitAndGet (cluster_get 0) (Key_lit (count_name k) 0) st1 = Inr (dk, st2)" "cluster_inv (numNodes args) 0 st2"
      "cluster_val (numNodes args) st2 = cluster_val (numNodes args) st1" "loaded args (count_name k) [Str, Integer] (map entry_row (es k)) st2 dk"
      using fetch [OF sk t(3) A(1)] by blast
    obtain m' st3 where 3: "WordCount_merge args (cluster_get 0) dk (m, st2) = Inr (m', st3)" "cluster_inv (numNodes args) 0 st3"
      "cluster_val (numNodes args) st3 = cluster_val (numNodes args) st2" "SIMap_ok m'"
      "Map_abs m' = counted (concat (map (\<lambda>j. map fst (es j)) [0..<k]) @ map fst (es k))"
      using merge_ok [OF counts_stored_same [OF ck 2(3)] w 2(4,2) A(2) t(5,6)] by blast
    then show "\<exists>t'. ?f k t = Inr t' \<and> ?P (Suc k) t'" using t kk 2 by auto
  qed
  then obtain m wc' st' where "res_fold ?f [1..<numNodes args] (m0, wc0, st0) = Inr (m, wc', st')" "SIMap_ok m"
    "Map_abs m = counted (concat (map (\<lambda>j. map fst (es j)) [0..<numNodes args]))" by auto
  then show ?thesis using k0(1) d(1) m0(1) by (auto simp: WordCount_reduce_def)
qed

section \<open>What is counted\<close>

lemma count_list_distinct: "distinct xs \<Longrightarrow> count_list xs x = (if x \<in> set xs then 1 else 0)"
  by (induction xs) auto

lemma count_concat:
  assumes "\<forall>j < n. distinct (f j)"
  shows "count_list (concat (map f [0..<n])) x = card {j. j < n \<and> x \<in> set (f j)}"
  using assms
proof (induction n)
  case (Suc n)
  have "{j. j < Suc n \<and> x \<in> set (f j)} = {j. j < n \<and> x \<in> set (f j)} \<union> (if x \<in> set (f n) then {n} else {})"
    by (auto simp: less_Suc_eq)
  then show ?case using Suc count_list_distinct [of "f n" x] by auto
qed simp

lemma home_words_mem:
  "String_lit w \<in> set (home_words args j ws) \<longleftrightarrow> (\<exists>i < length ws. ws ! i = w \<and> at_home args (of_nat j) i)"
  by (auto simp: home_words_def)

lemma home_words_all:
  assumes n: "0 < numNodes args" "numNodes args < 2 ^ 64"
  shows "(\<Union>j < numNodes args. set (home_words args j ws)) = String_lit ` set ws"
proof -
  have "\<exists>j < numNodes args. String_lit (ws ! i) \<in> set (home_words args j ws)" if i: "i < length ws" for i
  proof (intro exI conjI)
    let ?j = "i div blockSize args mod numNodes args"
    show "?j < numNodes args" using n by simp
    then show "String_lit (ws ! i) \<in> set (home_words args ?j ws)" unfolding home_words_mem using i at_home_iff [OF _ n(2)] by blast
  qed
  then show ?thesis using home_words_sub by (fastforce simp: in_set_conv_nth)
qed

text \<open>Every occurrence of a word is counted by exactly one node.\<close>

lemma home_words_sum:
  assumes n: "0 < numNodes args" "numNodes args < 2 ^ 64"
  shows "(\<Sum>j < numNodes args. count_list (home_words args j ws) (String_lit w)) = count_list ws w"
proof -
  let ?f = "\<lambda>i. if ws ! i = w then 1 else 0 :: nat"
  have "count_list (map (\<lambda>i. String_lit (ws ! i)) xs) (String_lit w) = sum_list (map ?f xs)" for xs
    by (induction xs) auto
  then have "(\<Sum>j < numNodes args. count_list (home_words args j ws) (String_lit w)) = sum_list (map ?f [0..<length ws])"
    using sum_homes [OF n, of ?f "[0..<length ws]"] by (simp add: home_words_def)
  also have "\<dots> = count_list ws w"
  proof -
    have "sum_list (map ?f xs) = count_list (map ((!) ws) xs) w" for xs by (induction xs) simp_all
    then show ?thesis by (simp only: map_nth)
  qed
  finally show ?thesis .
qed

section \<open>Properties\<close>

text \<open>C6: The words of the file become the rows of a frame, in order and whole, wherever the boundaries of
  the reader's buffer fall: any node that fetches the frame reads word \<open>r\<close> in row \<open>r\<close>.\<close>

theorem file_words_become_rows:
  assumes "files FILE_NAME = Some t" and "text_file t" and "length t < 2 ^ 31" and "cluster_inv (numNodes args) i st"
    and "0 < blockSize args" and "blockSize args < 2 ^ 64" and "WordCount_new = Inr wc" and "j < numNodes args" and "r < length (words t)"
  shows "\<exists>st1 df st2 df' st3. WordCount_read files args (cluster_put i) (wc, st) = Inr st1 \<and>
    waitAndGet (cluster_get j) (Key_lit ''data'' 0) st1 = Inr (df, st2) \<and> nrows df = length (words t) \<and>
    DataFrame_get_string args (cluster_get j) 0 r (df, st2) = Inr (String_lit (words t ! r), df', st3)"
proof -
  note A = cluster_args [OF assms(4-6)]
  note wc = WordCount_newD [OF assms(7)]
  obtain st1 where 1: "WordCount_read files args (cluster_put i) (wc, st) = Inr st1" "cluster_inv (numNodes args) i st1"
    "stored args ''data'' [Str] (word_rows (words t)) st1" using read_words_ok [where files = files, OF assms(1-4) A wc] by blast
  obtain df st2 where 2: "waitAndGet (cluster_get j) (Key_lit ''data'' 0) st1 = Inr (df, st2)" "cluster_inv (numNodes args) j st2"
    "loaded args ''data'' [Str] (word_rows (words t)) st2 df" using fetch [OF 1(3) cluster_inv_node [OF 1(2) assms(8)] A(1)] by blast
  have f: "frame_repr args (\<lambda>_. ''data'') (cluster_val (numNodes args) st2) [Str] (cols_of [Str] (word_rows (words t))) df" "nrows df = length (words t)"
    using 2(3) by (simp_all add: loaded_def word_rows_def)
  have "cols_of [Str] (word_rows (words t)) ! 0 ! r = SElem (String_lit (words t ! r))" using assms(9) by (simp add: cols_of_def word_rows_def)
  then obtain df' st3 where "DataFrame_get_string args (cluster_get j) 0 r (df, st2) = Inr (String_lit (words t ! r), df', st3)"
    using cluster_kv.strings.frame_cell [OF f(1) _ _ _ 2(2) A(2), of 0 r "Inl (Exit 1)"] assms(9)
    by (auto simp: DataFrame_get_string_def ColumnArray_get_string_def Column_gets word_rows_def)
  then show ?thesis using 1(1) 2(1) f(2) by blast
qed

lemma short_text: "length t \<le> 512 \<Longrightarrow> NUL \<notin> set t \<Longrightarrow> t = [] \<or> isspace (last t) \<Longrightarrow> text_file t"
proof -
  assume t: "length t \<le> 512" "NUL \<notin> set t" "t = [] \<or> isspace (last t)"
  have l: "length (takeWhile P (drop k t)) \<le> 512" for P k using length_takeWhile_le [of P "drop k t"] t(1) by simp
  have "length (takeWhile P (drop k t)) < 1024" for P k using l [of P k] by simp
  then show ?thesis using t l by (simp add: text_file_def)
qed

text \<open>A file of three words, two of them the same, on two nodes with blocks of one row.\<close>

definition sample_text :: "char list" where
  "sample_text = ''ab c ab ''"

lemma sample_text_ok: "text_file sample_text" "words sample_text = [''ab'', ''c'', ''ab'']" "length sample_text < 2 ^ 31"
  by (rule short_text) (simp_all add: sample_text_def isspace_def)

lemma sample_cluster: "\<exists>st. Cluster_init 2 = Inr st \<and> cluster_inv (numNodes (Args_default\<lparr>numNodes := 2, blockSize := 1\<rparr>)) 0 st"
  using cluster_start [of 0 2] by auto

lemma file_words_become_rows_witness:
  "\<exists>st wc st1 df st2 df' st3. Cluster_init 2 = Inr st \<and>
    WordCount_read (\<lambda>_. Some sample_text) (Args_default\<lparr>numNodes := 2, blockSize := 1\<rparr>) (cluster_put 0) (wc, st) = Inr st1 \<and>
    waitAndGet (cluster_get 1) (Key_lit ''data'' 0) st1 = Inr (df, st2) \<and>
    DataFrame_get_string (Args_default\<lparr>numNodes := 2, blockSize := 1\<rparr>) (cluster_get 1) 0 2 (df, st2) = Inr (String_lit ''ab'', df', st3)"
proof -
  let ?a = "Args_default\<lparr>numNodes := 2, blockSize := 1\<rparr>"
  obtain st where st: "Cluster_init 2 = Inr st" "cluster_inv (numNodes ?a) 0 st" using sample_cluster by blast
  obtain wc where wc: "WordCount_new = Inr wc" using WordCount_new_ok by blast
  have a: "0 < blockSize ?a" "blockSize ?a < 2 ^ 64" "1 < numNodes ?a" "2 < length (words sample_text)" "words sample_text ! 2 = ''ab''"
    by (simp_all add: sample_text_ok)
  from file_words_become_rows [where files = "\<lambda>_. Some sample_text", OF refl sample_text_ok(1,3) st(2) a(1,2) wc a(3,4)] st(1)
  show ?thesis unfolding a(5) by blast
qed

lemma wordcount_run_merges:
  assumes "files FILE_NAME = Some t" and "text_file t" and "length t < 2 ^ 31" and "cluster_inv (numNodes args) 0 st"
    and "0 < blockSize args" and "blockSize args < 2 ^ 64" and "WordCount_new = Inr wc"
  shows "\<exists>m wcs st'. wordcount_run files args (\<lambda>_. wc, st) = Inr (Some m, wcs, st') \<and> hm_size m = card (set (words t)) \<and>
    (\<forall>w. Map_abs m (String_lit w) = (if w \<in> set (words t)
       then Some \<lparr>nm_val = of_nat (card {j. j < numNodes args \<and> (\<exists>i < length (words t). words t ! i = w \<and> i div blockSize args mod numNodes args = j)})\<rparr>
       else None))"
proof -
  note A = cluster_args [OF assms(4-6)]
  have n: "0 < numNodes args" "numNodes args < 2 ^ 64" using assms(4) by (simp_all add: cluster_inv_def)
  have w: "\<forall>w \<in> set (words t). word_ok w" "length (words t) < 2 ^ 31" using text_file_words [OF assms(2)] assms(3) by simp_all
  have wc: "wc_ok wc" "\<forall>j :: nat. wc_ok wc" using WordCount_newD [OF assms(7)] by simp_all
  obtain st1 where 1: "WordCount_read files args (cluster_put 0) (wc, st) = Inr st1" "cluster_inv (numNodes args) 0 st1"
    "stored args ''data'' [Str] (word_rows (words t)) st1" using read_words_ok [where files = files, OF assms(1-4) A wc(1)] by blast
  obtain wcs st2 es where 2: "res_fold (\<lambda>j (wcs, st).
      res_bind (local_count args (cluster_put j) (cluster_get j) j (wcs j, st)) (\<lambda>(wc, st). Inr (wcs(j := wc), st))) [0..<numNodes args] (\<lambda>_. wc, st1) = Inr (wcs, st2)"
    "\<forall>j. wc_ok (wcs j)" "cluster_inv (numNodes args) 0 st2" "\<forall>j < numNodes args. counts_stored args (words t) j st2 (es j)"
    using all_count [OF 1(3) w 1(2) A wc(2)] by blast
  obtain m wc' st3 where 3: "WordCount_reduce args (cluster_peek 0) (cluster_get 0) 0 (wcs 0, st2) = Inr (Some m, wc', st3)" "SIMap_ok m"
    "Map_abs m = counted (concat (map (\<lambda>j. map fst (es j)) [0..<numNodes args]))" using reduce_ok [OF 2(4) w(1) 2(3) A spec [OF 2(2)]] by blast
  let ?all = "concat (map (\<lambda>j. map fst (es j)) [0..<numNodes args])"
  have sets: "set (map fst (es j)) = set (home_words args j (words t))" if "j < numNodes args" for j
    using counts_stored_words(1) [OF spec [OF 2(4), THEN mp, OF that]] by simp
  have "set ?all = (\<Union>j < numNodes args. set (map fst (es j)))" by auto
  also have "\<dots> = String_lit ` set (words t)" using sets home_words_all [OF n] by (metis (no_types, lifting) SUP_cong lessThan_iff)
  finally have all: "set ?all = String_lit ` set (words t)" .
  have "hm_size m = card (String_lit ` set (words t))" using Map_size_card 3(2,3) all by (metis SIMap_ok_def dom_counted)
  then have sz: "hm_size m = card (set (words t))" by (simp add: card_image inj_on_def)
  have "count_list ?all (String_lit v) = card {j. j < numNodes args \<and> (\<exists>i < length (words t). words t ! i = v \<and> i div blockSize args mod numNodes args = j)}" for v
  proof -
    have "\<forall>j < numNodes args. distinct (map fst (es j))" using 2(4) by (simp add: counts_stored_def)
    from count_concat [OF this] have "count_list ?all (String_lit v) = card {j. j < numNodes args \<and> String_lit v \<in> set (map fst (es j))}" .
    also have "{j. j < numNodes args \<and> String_lit v \<in> set (map fst (es j))} =
        {j. j < numNodes args \<and> (\<exists>i < length (words t). words t ! i = v \<and> i div blockSize args mod numNodes args = j)}"
      by (intro Collect_cong conj_cong refl) (simp only: sets home_words_mem at_home_iff [OF _ n(2)])
    finally show ?thesis .
  qed
  then have "Map_abs m (String_lit v) = (if v \<in> set (words t)
       then Some \<lparr>nm_val = of_nat (card {j. j < numNodes args \<and> (\<exists>i < length (words t). words t ! i = v \<and> i div blockSize args mod numNodes args = j)})\<rparr>
       else None)" for v using 3(3) all by (auto simp: counted_def simp del: set_concat)
  moreover have "wordcount_run files args (\<lambda>_. wc, st) = Inr (Some m, wcs(0 := wc'), st3)" using 1(1) 2(1) 3(1) by (simp add: wordcount_run_def)
  ultimately show ?thesis using sz by blast
qed

text \<open>C5: The word count, on a cluster of any size and with any block size, ends with the right number of
  different words. But the counts are lost in the merge: what node 0 has for a word is on how many
  nodes it occurs, because \<open>merge\<close> counts the rows of the frames and never reads their second column.\<close>

theorem word_count_merges_rows:
  assumes "files FILE_NAME = Some t" and "text_file t" and "length t < 2 ^ 31" and "cluster_inv (numNodes args) 0 st"
    and "0 < blockSize args" and "blockSize args < 2 ^ 64" and "WordCount_new = Inr wc"
  shows "\<exists>m wcs st'. wordcount_run files args (\<lambda>_. wc, st) = Inr (Some m, wcs, st') \<and> hm_size m = card (set (words t)) \<and>
    (\<forall>w. Map_abs m (String_lit w) = (if w \<in> set (words t)
       then Some \<lparr>nm_val = of_nat (card {j. j < numNodes args \<and> (\<exists>i < length (words t). words t ! i = w \<and> i div blockSize args mod numNodes args = j)})\<rparr>
       else None))"
  by (rule wordcount_run_merges [where files = files, OF assms])

lemma word_count_merges_rows_witness:
  "\<exists>st wc m wcs st'. Cluster_init 2 = Inr st \<and> WordCount_new = Inr wc \<and>
    wordcount_run (\<lambda>_. Some sample_text) (Args_default\<lparr>numNodes := 2, blockSize := 1\<rparr>) (\<lambda>_. wc, st) = Inr (Some m, wcs, st') \<and>
    hm_size m = 2 \<and> Map_abs m (String_lit ''ab'') = Some \<lparr>nm_val = 1\<rparr> \<and> count_list (words sample_text) ''ab'' = 2"
proof -
  let ?a = "Args_default\<lparr>numNodes := 2, blockSize := 1\<rparr>" and ?w = "[''ab'', ''c'', ''ab'']"
  obtain st where st: "Cluster_init 2 = Inr st" "cluster_inv (numNodes ?a) 0 st" using sample_cluster by blast
  obtain wc where wc: "WordCount_new = Inr wc" using WordCount_new_ok by blast
  have a: "0 < blockSize ?a" "blockSize ?a < 2 ^ 64" by simp_all
  obtain m wcs st' where r: "wordcount_run (\<lambda>_. Some sample_text) ?a (\<lambda>_. wc, st) = Inr (Some m, wcs, st')" "hm_size m = card (set ?w)"
    "\<forall>w. Map_abs m (String_lit w) = (if w \<in> set ?w
       then Some \<lparr>nm_val = of_nat (card {j. j < numNodes ?a \<and> (\<exists>i < length ?w. ?w ! i = w \<and> i div blockSize ?a mod numNodes ?a = j)})\<rparr> else None)"
    using word_count_merges_rows [where files = "\<lambda>_. Some sample_text", OF refl sample_text_ok(1,3) st(2) a wc] unfolding sample_text_ok(2) by blast
  have "{j. j < numNodes ?a \<and> (\<exists>i < length ?w. ?w ! i = ''ab'' \<and> i div blockSize ?a mod numNodes ?a = j)} = {0}"
    by (auto simp: less_Suc_eq numeral_3_eq_3 nth_Cons'; presburger)
  then have "Map_abs m (String_lit ''ab'') = Some \<lparr>nm_val = 1\<rparr>" using r(3) by simp
  moreover have "hm_size m = 2" "count_list (words sample_text) ''ab'' = 2" using r(2) by (simp_all add: sample_text_ok(2) card_insert_if)
  ultimately show ?thesis using st(1) wc r(1) by blast
qed

text \<open>C7: What the nodes count is right: after node \<open>j\<close> has counted, any node that fetches its frame has an entry for
  each word at home on \<open>j\<close> with its number of occurrences there, and over all nodes these numbers
  add up to the occurrences in the file.\<close>

theorem local_counts_add_up:
  assumes "files FILE_NAME = Some t" and "text_file t" and "length t < 2 ^ 31" and "cluster_inv (numNodes args) 0 st"
    and "0 < blockSize args" and "blockSize args < 2 ^ 64" and "WordCount_new = Inr wc" and "j < numNodes args" and "i < numNodes args"
  shows "\<exists>st1 wc' st2 df st3 es. WordCount_read files args (cluster_put 0) (wc, st) = Inr st1 \<and>
    local_count args (cluster_put j) (cluster_get j) j (wc, st1) = Inr (wc', st2) \<and>
    waitAndGet (cluster_get i) (Key_lit (count_name j) 0) st2 = Inr (df, st3) \<and>
    frame_repr args (\<lambda>_. count_name j) (cluster_val (numNodes args) st3) [Str, Integer] (cols_of [Str, Integer] (map entry_row es)) df \<and>
    distinct (map fst es) \<and> map_of es = counted (home_words args j (words t)) \<and>
    (\<forall>w. (\<Sum>j < numNodes args. count_list (home_words args j (words t)) (String_lit w)) = count_list (words t) w)"
proof -
  note A = cluster_args [OF assms(4-6)]
  have n: "0 < numNodes args" "numNodes args < 2 ^ 64" using assms(4) by (simp_all add: cluster_inv_def)
  have w: "\<forall>w \<in> set (words t). word_ok w" "length (words t) < 2 ^ 31" using text_file_words [OF assms(2)] assms(3) by simp_all
  note wc = WordCount_newD [OF assms(7)]
  obtain st1 where 1: "WordCount_read files args (cluster_put 0) (wc, st) = Inr st1" "cluster_inv (numNodes args) 0 st1"
    "stored args ''data'' [Str] (word_rows (words t)) st1" using read_words_ok [where files = files, OF assms(1-4) A wc] by blast
  have j: "j < 2 ^ 64" using assms(8) n by simp
  obtain wc' st2 es where 2: "local_count args (cluster_put j) (cluster_get j) j (wc, st1) = Inr (wc', st2)"
    "cluster_inv (numNodes args) j st2" "counts_stored args (words t) j st2 es"
    using local_count_ok [OF 1(3) w cluster_inv_node [OF 1(2) assms(8)] A wc j] by blast
  have s: "stored args (count_name j) [Str, Integer] (map entry_row es) st2" using 2(3) by (simp add: counts_stored_def)
  obtain df st3 where 3: "waitAndGet (cluster_get i) (Key_lit (count_name j) 0) st2 = Inr (df, st3)"
    "loaded args (count_name j) [Str, Integer] (map entry_row es) st3 df" using fetch [OF s cluster_inv_node [OF 2(2) assms(9)] A(1)] by blast
  then show ?thesis using 1(1) 2(1,3) home_words_sum [OF n] by (auto simp: counts_stored_def loaded_def)
qed

lemma local_counts_add_up_witness:
  "\<exists>st wc st1 wc' st2 df st3 es. Cluster_init 2 = Inr st \<and>
    WordCount_read (\<lambda>_. Some sample_text) (Args_default\<lparr>numNodes := 2, blockSize := 1\<rparr>) (cluster_put 0) (wc, st) = Inr st1 \<and>
    local_count (Args_default\<lparr>numNodes := 2, blockSize := 1\<rparr>) (cluster_put 1) (cluster_get 1) 1 (wc, st1) = Inr (wc', st2) \<and>
    waitAndGet (cluster_get 0) (Key_lit (count_name 1) 0) st2 = Inr (df, st3) \<and>
    map_of es = counted (home_words (Args_default\<lparr>numNodes := 2, blockSize := 1\<rparr>) 1 [''ab'', ''c'', ''ab''])"
proof -
  let ?a = "Args_default\<lparr>numNodes := 2, blockSize := 1\<rparr>"
  obtain st where st: "Cluster_init 2 = Inr st" "cluster_inv (numNodes ?a) 0 st" using sample_cluster by blast
  obtain wc where wc: "WordCount_new = Inr wc" using WordCount_new_ok by blast
  have "0 < blockSize ?a" "blockSize ?a < 2 ^ 64" "1 < numNodes ?a" "0 < numNodes ?a" by simp_all
  from local_counts_add_up [where files = "\<lambda>_. Some sample_text", OF refl sample_text_ok(1,3) st(2) this(1,2) wc this(3,4)] st(1)
  show ?thesis unfolding sample_text_ok(2) by blast
qed

text \<open>A last word that no space follows: the loop of \<open>visit\<close> steps past the end of the data, and the word it
  cuts out ends with a byte that the file never supplied.\<close>

lemma unended_loop:
  assumes "fr_buf fr = map Some t @ b" and "fr_end fr = length t" and "fr_eof fr" and "\<forall>c \<in> set t. \<not> isspace c" and "fr_i fr = k" and "k \<le> length t"
  shows "run_loop word_step (0, fr) = Inr (0, fr\<lparr>fr_i := length t + 1\<rparr>)"
  using assms
proof (induction "length t - k" arbitrary: k fr)
  case 0
  then have "word_step (0, fr) = Inr (True, 0, fr\<lparr>fr_i := length t + 1\<rparr>)" by (simp add: word_step_def)
  then show ?case by (simp add: run_loop_step)
next
  case (Suc n)
  let ?fr = "fr\<lparr>fr_i := fr_i fr + 1\<rparr>"
  have k: "k < length t" using Suc.hyps(2) by simp
  then have "\<not> isspace (t ! k)" using Suc.prems(4) nth_mem by blast
  then have st: "word_step (0, fr) = Inr (False, 0, ?fr)" using Suc.prems k by (simp add: word_step_def word_check_def cell_load_def nth_append)
  have "n = length t - Suc k" "fr_i ?fr = Suc k" "Suc k \<le> length t" using Suc.hyps(2) Suc.prems(5) k by simp_all
  from Suc.hyps(1) [OF this(1) _ _ _ _ this(2,3)] st show ?case using Suc.prems by (simp add: run_loop_step)
qed

text \<open>C37: The reader needs a space after the last word: for a file that is a single word, however short,
  reading it copies a byte of the buffer that was never written.\<close>

theorem last_word_needs_space:
  assumes "files FILE_NAME = Some t" and "t \<noteq> []" and "\<forall>c \<in> set t. \<not> isspace c" and "length t < 1024"
  shows "\<exists>fr. FileReader_new files = Inr fr \<and> FileReader_done fr = Inr (False, fr) \<and> FileReader_visit r fr = Inl Uninitialised"
proof -
  let ?ini = "\<lparr>fr_buf = new_cells 1025, fr_end = 0, fr_i = 0, fr_rest = t, fr_eof = False\<rparr>"
  let ?fr = "\<lparr>fr_buf = map Some t @ replicate (1025 - length t) None, fr_end = length t, fr_i = 0, fr_rest = [], fr_eof = True\<rparr>"
  have fl: "fillBuffer ?ini = Inr ?fr"
    by (subst fill_ok [where a = "[]" and pre = "[]" and b = "new_cells 1025"]) (use assms(4) in \<open>simp_all add: new_cells_def\<close>)
  have c: "cell_load (fr_buf ?fr) 0 = Inr (hd t)" "\<not> isspace (hd t)" using assms(2,3) by (cases t; simp add: cell_load_def)+
  then have "skip_step ?fr = Inr (True, ?fr)" using assms(2) by (simp add: skip_step_def skip_check_def)
  then have new: "FileReader_new files = Inr ?fr" using fl assms(1) by (simp add: FileReader_new_def FileReader_BUFSIZE_def skipWhitespace_def run_loop_step)
  have lp: "run_loop word_step (0, ?fr) = Inr (0, ?fr\<lparr>fr_i := length t + 1\<rparr>)" by (rule unended_loop [where k = 0]) (use assms(3) in simp_all)
  let ?buf = "(fr_buf ?fr)[length t + 1 := Some NUL]"
  have st: "cell_store (fr_buf ?fr) (length t + 1) NUL = Inr ?buf" using assms(4) by (simp add: cell_store_def)
  have "1025 - length t = Suc (Suc (1023 - length t))" using assms(4) by simp
  then have "replicate (1025 - length t) (None :: char option) = None # None # replicate (1023 - length t) None" by simp
  then have "take (length t + 2) ?buf = map Some t @ [None, Some NUL]"
    using assms(4) by (simp add: list_update_append)
  moreover have "all_some (map Some t @ None # cs) = Inl Uninitialised" for cs by (induction t) simp_all
  ultimately have "cells_load ?buf 0 (length t + 2) = Inl Uninitialised" using assms(4) by (simp add: cells_load_def)
  then have "FileReader_visit r ?fr = Inl Uninitialised" using c lp st assms(2) by (simp add: FileReader_visit_def)
  then show ?thesis using new assms(2) by (simp add: FileReader_done_def)
qed

lemma last_word_needs_space_witness:
  "\<forall>r. \<exists>fr. FileReader_new (\<lambda>_. Some ''word'') = Inr fr \<and> FileReader_done fr = Inr (False, fr) \<and> FileReader_visit r fr = Inl Uninitialised"
  by (intro allI, rule last_word_needs_space [of "\<lambda>_. Some ''word''" "''word''"]) (simp_all add: isspace_def)

end
