(* ===== verification/Trivial.thy ===== *)
theory Trivial
  imports ClusterFrames
begin

text \<open>
  The application \<open>Trivial\<close> (\<open>src/application/trivial.h\<close>): four trials, one for each type of a
  column, that store an array as a frame under the key \<open>triv\<close>, fetch it and compare. All four use
  the same key, so each overwrites the frame of the one before it, blocks included.

  As in the theory \<open>Demos\<close>, the arithmetic of \<open>double\<close> is a parameter, and the read that does not
  wait (\<open>KVStore::get\<close>) is \<open>peekv\<close>. The sum of \<open>trial2\<close> is an \<open>int\<close> that runs over and is
  expected to wrap, as the machine's addition does. Printing and the freeing of memory are left
  out.
\<close>

section \<open>The program\<close>

definition trivial_SZ :: nat where
  "trivial_SZ = 1000 * 1000"

text \<open>\<open>DataFrame *df2 = kv_->get(&key)\<close>, used without a check.\<close>

definition fetch_again :: "(Key \<Rightarrow> 's \<Rightarrow> (Value option \<times> 's) res) \<Rightarrow> Key \<Rightarrow> 's \<Rightarrow> (DataFrame \<times> 's) res" where
  "fetch_again peekv key st =
     res_bind (KVStore_get peekv key st) (\<lambda>(df2, st). case df2 of None \<Rightarrow> Inl NullDeref | Some df2 \<Rightarrow> Inr (df2, st))"

text \<open>The loop over the rows of the frame fetched: \<open>get\<close> reads row \<open>i\<close>, \<open>use\<close> is the rest of the body.\<close>

definition for_rows ::
    "(nat \<Rightarrow> DataFrame \<times> 's \<Rightarrow> ('x \<times> DataFrame \<times> 's) res) \<Rightarrow> (nat \<Rightarrow> 'x \<Rightarrow> 'a \<Rightarrow> 'a res) \<Rightarrow> nat \<Rightarrow> 'a \<times> DataFrame \<times> 's \<Rightarrow> ('a \<times> DataFrame \<times> 's) res" where
  "for_rows get use sz =
     res_fold (\<lambda>i (a, df, st). res_bind (get i (df, st)) (\<lambda>(x, df, st). res_bind (use i x a) (\<lambda>a. Inr (a, df, st)))) [0..<sz]"

definition trial1 ::
    "Args \<Rightarrow> (Key \<Rightarrow> Value \<Rightarrow> 's \<Rightarrow> 's res) \<Rightarrow> (Key \<Rightarrow> 's \<Rightarrow> (Value option \<times> 's) res) \<Rightarrow> (Key \<Rightarrow> 's \<Rightarrow> (Value option \<times> 's) res) \<Rightarrow>
     (nat \<Rightarrow> u64) \<Rightarrow> (u64 \<Rightarrow> u64 \<Rightarrow> u64) \<Rightarrow> (u64 \<Rightarrow> u64 \<Rightarrow> u64) \<Rightarrow> (u64 \<Rightarrow> u64 \<Rightarrow> bool) \<Rightarrow> nat \<Rightarrow> 's \<Rightarrow> 's res" where
  "trial1 args putv getv peekv dbl dadd dsub deq sz st =
     (let vals = map dbl [0..<sz]; total = fold (\<lambda>v s. dadd s v) vals (dbl 0) in
      res_bind (Key_new (''triv'' @ [NUL]) 0) (\<lambda>key.
      res_bind (fromArray_doubles args putv key sz vals st) (\<lambda>(df, st).
      res_bind (DataFrame_get_double args getv 0 1 (df, st)) (\<lambda>(x, df, st).
      res_bind (res_assert (deq x (dbl 1))) (\<lambda>_.
      res_bind (fetch_again peekv key st) (\<lambda>(df2, st).
      res_bind (for_rows (DataFrame_get_double args getv 0) (\<lambda>i x total. Inr (dsub total x)) sz (total, df2, st)) (\<lambda>(total, df2, st).
      res_bind (res_assert (deq total (dbl 0))) (\<lambda>_. Inr st))))))))"

definition trial2 ::
    "Args \<Rightarrow> (Key \<Rightarrow> Value \<Rightarrow> 's \<Rightarrow> 's res) \<Rightarrow> (Key \<Rightarrow> 's \<Rightarrow> (Value option \<times> 's) res) \<Rightarrow> (Key \<Rightarrow> 's \<Rightarrow> (Value option \<times> 's) res) \<Rightarrow>
     nat \<Rightarrow> 's \<Rightarrow> 's res" where
  "trial2 args putv getv peekv sz st =
     (let vals = map of_nat [0..<sz]; total = sum_list vals in
      res_bind (Key_new (''triv'' @ [NUL]) 0) (\<lambda>key.
      res_bind (fromArray_ints args putv key sz vals st) (\<lambda>(df, st).
      res_bind (DataFrame_get_int args getv 0 1 (df, st)) (\<lambda>(x, df, st).
      res_bind (res_assert (x = 1)) (\<lambda>_.
      res_bind (fetch_again peekv key st) (\<lambda>(df2, st).
      res_bind (for_rows (DataFrame_get_int args getv 0) (\<lambda>i x total. Inr (total - x)) sz (total, df2, st)) (\<lambda>(total, df2, st).
      res_bind (res_assert (total = 0)) (\<lambda>_. Inr st))))))))"

text \<open>\<open>memset(&temp_string, 0, 10); sprintf(temp_string, "%zu", i)\<close>, and the \<open>String\<close> made of it.\<close>

definition number_string :: "nat \<Rightarrow> String res" where
  "number_string i =
     (if length (to_string i) + 1 \<le> 10 then String_of_cstr (to_string i @ replicate (10 - length (to_string i)) NUL)
      else Inl OutOfBounds)"

definition trial3 ::
    "Args \<Rightarrow> (Key \<Rightarrow> Value \<Rightarrow> 's \<Rightarrow> 's res) \<Rightarrow> (Key \<Rightarrow> 's \<Rightarrow> (Value option \<times> 's) res) \<Rightarrow> (Key \<Rightarrow> 's \<Rightarrow> (Value option \<times> 's) res) \<Rightarrow>
     nat \<Rightarrow> 's \<Rightarrow> 's res" where
  "trial3 args putv getv peekv sz st =
     res_bind (res_fold (\<lambda>i (vals, buf).
         res_bind (number_string i) (\<lambda>tmp. res_bind (StrBuff_c_String tmp buf) (\<lambda>buf. Inr (vals @ [tmp], buf))))
       [0..<sz] ([], StrBuff_new)) (\<lambda>(vals, buf).
     res_bind (StrBuff_get buf) (\<lambda>(expected, _).
     res_bind (Key_new (''triv'' @ [NUL]) 0) (\<lambda>key.
     res_bind (fromArray_strings args putv key sz vals st) (\<lambda>(df, st).
     res_bind (DataFrame_get_string args getv 0 1 (df, st)) (\<lambda>(actualStr, df, st).
     res_bind (cell_load (map Some vals) 1) (\<lambda>v.
     res_bind (res_assert (String_equals actualStr v)) (\<lambda>_.
     res_bind (DataFrame_get_string args getv 0 5 (df, st)) (\<lambda>(actualStr, df, st).
     res_bind (cell_load (map Some vals) 5) (\<lambda>v.
     res_bind (res_assert (String_equals actualStr v)) (\<lambda>_.
     res_bind (fetch_again peekv key st) (\<lambda>(df2, st).
     res_bind (for_rows (DataFrame_get_string args getv 0) (\<lambda>i tmp buf. StrBuff_c_String tmp buf) sz (StrBuff_new, df2, st)) (\<lambda>(buf, df2, st).
     res_bind (StrBuff_get buf) (\<lambda>(actual, _).
     res_bind (res_assert (String_equals actual expected)) (\<lambda>_. Inr st))))))))))))))"

text \<open>The bit \<open>(i % 2) == 0 || (i > (sz - 5))\<close>.\<close>

definition trial4_bit :: "nat \<Rightarrow> nat \<Rightarrow> bool" where
  "trial4_bit sz i \<longleftrightarrow> i mod 2 = 0 \<or> i > sz - 5"

definition trial4 ::
    "Args \<Rightarrow> (Key \<Rightarrow> Value \<Rightarrow> 's \<Rightarrow> 's res) \<Rightarrow> (Key \<Rightarrow> 's \<Rightarrow> (Value option \<times> 's) res) \<Rightarrow> (Key \<Rightarrow> 's \<Rightarrow> (Value option \<times> 's) res) \<Rightarrow>
     nat \<Rightarrow> 's \<Rightarrow> 's res" where
  "trial4 args putv getv peekv sz st =
     res_bind (res_assert (sz \<ge> 10)) (\<lambda>_.
     let vals = map (trial4_bit sz) [0..<sz] in
     res_bind (Key_new (''triv'' @ [NUL]) 0) (\<lambda>key.
     res_bind (fromArray_bools args putv key sz vals st) (\<lambda>(df, st).
     res_bind (DataFrame_get_bool args getv 0 1 (df, st)) (\<lambda>(x, df, st).
     res_bind (res_assert (x = False)) (\<lambda>_.
     res_bind (DataFrame_get_bool args getv 0 4 (df, st)) (\<lambda>(x, df, st).
     res_bind (res_assert (x = True)) (\<lambda>_.
     res_bind (DataFrame_get_bool args getv 0 (sz - 3) (df, st)) (\<lambda>(x, df, st).
     res_bind (res_assert (x = True)) (\<lambda>_.
     res_bind (fetch_again peekv key st) (\<lambda>(df2, st).
     res_bind (for_rows (DataFrame_get_bool args getv 0) (\<lambda>i x _. res_assert (x = trial4_bit sz i)) sz ((), df2, st)) (\<lambda>(_, df2, st).
     Inr st)))))))))))"

definition Trivial_run ::
    "Args \<Rightarrow> (Key \<Rightarrow> Value \<Rightarrow> 's \<Rightarrow> 's res) \<Rightarrow> (Key \<Rightarrow> 's \<Rightarrow> (Value option \<times> 's) res) \<Rightarrow> (Key \<Rightarrow> 's \<Rightarrow> (Value option \<times> 's) res) \<Rightarrow>
     (nat \<Rightarrow> u64) \<Rightarrow> (u64 \<Rightarrow> u64 \<Rightarrow> u64) \<Rightarrow> (u64 \<Rightarrow> u64 \<Rightarrow> u64) \<Rightarrow> (u64 \<Rightarrow> u64 \<Rightarrow> bool) \<Rightarrow> 's \<Rightarrow> 's res" where
  "Trivial_run args putv getv peekv dbl dadd dsub deq st =
     res_bind (trial1 args putv getv peekv dbl dadd dsub deq trivial_SZ st) (\<lambda>st.
     res_bind (trial2 args putv getv peekv trivial_SZ st) (\<lambda>st.
     res_bind (trial3 args putv getv peekv trivial_SZ st) (\<lambda>st. trial4 args putv getv peekv trivial_SZ st)))"

section \<open>A column on a cluster\<close>

text \<open>The array frame \<open>triv\<close> of one column is in the store, and one that node 0 has at hand.\<close>

definition triv_frame :: "Args \<Rightarrow> DataType \<Rightarrow> RowValue list \<Rightarrow> Cluster \<Rightarrow> DataFrame \<Rightarrow> bool" where
  "triv_frame args t ys st df \<longleftrightarrow> cluster_inv (numNodes args) 0 st \<and>
     frame_repr args (arr_base ''triv'') (cluster_val (numNodes args) st) [t] [ys] df \<and>
     frame_stored args (arr_base ''triv'') [t] [ys] (length ys) (Key_lit ''triv'' 0) (cluster_val (numNodes args) st)"

lemma triv_key_new: "Key_new (''triv'' @ [NUL]) 0 = Inr (Key_lit ''triv'' 0)"
  by (rule Key_new_lit, simp)

lemmas triv_key = triv_key_new [simplified]

text \<open>Storing a column: the four overloads.\<close>

lemma triv_fits:
  assumes "sizes_ok args" and "length ys \<le> 10 ^ 6" and "\<forall>y \<in> set ys. value_size y \<le> 30"
  shows "cstr_ok ''triv''" "length ''triv'' + 2 < 2 ^ 32" "home (Key_lit ''triv'' 0) < numNodes args"
    "16 + sum_list (map value_size ys) < 2 ^ 64" "frame_fits [t] (length ys) (length ''triv'' + 2)"
proof -
  show "cstr_ok ''triv''" "length ''triv'' + 2 < 2 ^ 32" by (simp_all add: cstr_ok_def)
  show "home (Key_lit ''triv'' 0) < numNodes args" using assms(1) by (simp add: home_def sizes_ok_def)
  have "sum_list (map value_size ys) \<le> length ys * 30" using assms(3) by (induction ys) auto
  then show "16 + sum_list (map value_size ys) < 2 ^ 64" using assms(2) by simp
  have "short_name ''triv''" by (simp add: short_name_def cstr_ok_def)
  from short_fits [OF this assms(2)] show "frame_fits [t] (length ys) (length ''triv'' + 2)" by simp
qed

lemma triv_put:
  assumes inv: "cluster_inv (numNodes args) 0 st" and A: "sizes_ok args" "homes (\<lambda>k. home k < numNodes args) args"
  shows "length zs \<le> 10 ^ 6 \<Longrightarrow>
      \<exists>df st'. fromArray_ints args (cluster_put 0) (Key_lit ''triv'' 0) (length zs) zs st = Inr (df, st') \<and> triv_frame args Integer (map IElem zs) st' df"
    and "length ds \<le> 10 ^ 6 \<Longrightarrow>
      \<exists>df st'. fromArray_doubles args (cluster_put 0) (Key_lit ''triv'' 0) (length ds) ds st = Inr (df, st') \<and> triv_frame args Double (map DElem ds) st' df"
    and "length bs \<le> 10 ^ 6 \<Longrightarrow>
      \<exists>df st'. fromArray_bools args (cluster_put 0) (Key_lit ''triv'' 0) (length bs) bs st = Inr (df, st') \<and> triv_frame args Boolean (map BElem bs) st' df"
    and "length ss \<le> 10 ^ 6 \<Longrightarrow> \<forall>s \<in> set ss. String_wf s \<and> value_size (SElem s) \<le> 30 \<Longrightarrow>
      \<exists>df st'. fromArray_strings args (cluster_put 0) (Key_lit ''triv'' 0) (length ss) ss st = Inr (df, st') \<and> triv_frame args Str (map SElem ss) st' df"
proof -
  {
    assume n: "length zs \<le> 10 ^ 6"
    have y: "list_all (value_of_type Integer) (map IElem zs)" "map as_int (map IElem zs) = zs" "length (map IElem zs) \<le> 10 ^ 6" "\<forall>y \<in> set (map IElem zs). value_size y \<le> 30"
      using n by (auto simp: list_all_iff comp_def)
    note F = triv_fits [OF A(1) y(3,4)]
    show "\<exists>df st'. fromArray_ints args (cluster_put 0) (Key_lit ''triv'' 0) (length zs) zs st = Inr (df, st') \<and> triv_frame args Integer (map IElem zs) st' df"
      using cluster_kv.ints.fromArray_repr [OF F(1-3) A(1) inv A(2) y(1) F(4,5)] unfolding y(2)
      by (auto simp: fromArray_ints_def DataFrame_add_ints_def ColumnArray_add_ints_def Column_adds triv_frame_def simp del: map_map)
  }
  {
    assume n: "length ds \<le> 10 ^ 6"
    have y: "list_all (value_of_type Double) (map DElem ds)" "map as_double (map DElem ds) = ds" "length (map DElem ds) \<le> 10 ^ 6" "\<forall>y \<in> set (map DElem ds). value_size y \<le> 30"
      using n by (auto simp: list_all_iff comp_def)
    note F = triv_fits [OF A(1) y(3,4)]
    show "\<exists>df st'. fromArray_doubles args (cluster_put 0) (Key_lit ''triv'' 0) (length ds) ds st = Inr (df, st') \<and> triv_frame args Double (map DElem ds) st' df"
      using cluster_kv.doubles.fromArray_repr [OF F(1-3) A(1) inv A(2) y(1) F(4,5)] unfolding y(2)
      by (auto simp: fromArray_doubles_def DataFrame_add_doubles_def ColumnArray_add_doubles_def Column_adds triv_frame_def simp del: map_map)
  }
  {
    assume n: "length bs \<le> 10 ^ 6"
    have y: "list_all (value_of_type Boolean) (map BElem bs)" "map as_bool (map BElem bs) = bs" "length (map BElem bs) \<le> 10 ^ 6" "\<forall>y \<in> set (map BElem bs). value_size y \<le> 30"
      using n by (auto simp: list_all_iff comp_def)
    note F = triv_fits [OF A(1) y(3,4)]
    show "\<exists>df st'. fromArray_bools args (cluster_put 0) (Key_lit ''triv'' 0) (length bs) bs st = Inr (df, st') \<and> triv_frame args Boolean (map BElem bs) st' df"
      using cluster_kv.bools.fromArray_repr [OF F(1-3) A(1) inv A(2) y(1) F(4,5)] unfolding y(2)
      by (auto simp: fromArray_bools_def DataFrame_add_bools_def ColumnArray_add_bools_def Column_adds triv_frame_def simp del: map_map)
  }
  {
    assume n: "length ss \<le> 10 ^ 6" "\<forall>s \<in> set ss. String_wf s \<and> value_size (SElem s) \<le> 30"
    have y: "list_all (value_of_type Str) (map SElem ss)" "map as_string (map SElem ss) = ss" "length (map SElem ss) \<le> 10 ^ 6" "\<forall>y \<in> set (map SElem ss). value_size y \<le> 30"
      using n by (auto simp: list_all_iff comp_def)
    note F = triv_fits [OF A(1) y(3,4)]
    show "\<exists>df st'. fromArray_strings args (cluster_put 0) (Key_lit ''triv'' 0) (length ss) ss st = Inr (df, st') \<and> triv_frame args Str (map SElem ss) st' df"
      using cluster_kv.strings.fromArray_repr [OF F(1-3) A(1) inv A(2) y(1) F(4,5)] unfolding y(2)
      by (auto simp: fromArray_strings_def DataFrame_add_strings_def ColumnArray_add_strings_def Column_adds triv_frame_def simp del: map_map)
  }
qed

text \<open>Reading a cell: the four overloads.\<close>

lemma triv_cell:
  assumes A: "homes (\<lambda>k. home k < numNodes args) args" and f: "triv_frame args t ys st df" and r: "r < length ys"
  shows "t = Integer \<Longrightarrow> \<exists>df' st'. DataFrame_get_int args (cluster_get 0) 0 r (df, st) = Inr (as_int (ys ! r), df', st') \<and> triv_frame args t ys st' df'"
    and "t = Double \<Longrightarrow> \<exists>df' st'. DataFrame_get_double args (cluster_get 0) 0 r (df, st) = Inr (as_double (ys ! r), df', st') \<and> triv_frame args t ys st' df'"
    and "t = Boolean \<Longrightarrow> \<exists>df' st'. DataFrame_get_bool args (cluster_get 0) 0 r (df, st) = Inr (as_bool (ys ! r), df', st') \<and> triv_frame args t ys st' df'"
    and "t = Str \<Longrightarrow> \<exists>df' st'. DataFrame_get_string args (cluster_get 0) 0 r (df, st) = Inr (as_string (ys ! r), df', st') \<and> triv_frame args t ys st' df'"
proof -
  have F: "frame_repr args (arr_base ''triv'') (cluster_val (numNodes args) st) [t] [ys] df" "cluster_inv (numNodes args) 0 st"
    using f by (simp_all add: triv_frame_def)
  have c: "0 < length [t]" "r < length ([ys] ! 0)" using r by simp_all
  have keep: "triv_frame args t ys st' df'" if "cluster_inv (numNodes args) 0 st'" "cluster_val (numNodes args) st' = cluster_val (numNodes args) st"
    "frame_repr args (arr_base ''triv'') (cluster_val (numNodes args) st') [t] [ys] df'" for st' df'
    using f that by (simp add: triv_frame_def)
  show "t = Integer \<Longrightarrow> \<exists>df' st'. DataFrame_get_int args (cluster_get 0) 0 r (df, st) = Inr (as_int (ys ! r), df', st') \<and> triv_frame args t ys st' df'"
    using cluster_kv.ints.frame_cell [OF F(1) c(1) _ c(2) F(2) A, of "Inr (-1)"] keep
    by (auto simp: DataFrame_get_int_def ColumnArray_get_int_def Column_gets)
  show "t = Double \<Longrightarrow> \<exists>df' st'. DataFrame_get_double args (cluster_get 0) 0 r (df, st) = Inr (as_double (ys ! r), df', st') \<and> triv_frame args t ys st' df'"
    using cluster_kv.doubles.frame_cell [OF F(1) c(1) _ c(2) F(2) A, of "Inr 0xBFF0000000000000"] keep
    by (auto simp: DataFrame_get_double_def ColumnArray_get_double_def Column_gets)
  show "t = Boolean \<Longrightarrow> \<exists>df' st'. DataFrame_get_bool args (cluster_get 0) 0 r (df, st) = Inr (as_bool (ys ! r), df', st') \<and> triv_frame args t ys st' df'"
    using cluster_kv.bools.frame_cell [OF F(1) c(1) _ c(2) F(2) A, of "Inr True"] keep
    by (auto simp: DataFrame_get_bool_def ColumnArray_get_bool_def Column_gets)
  show "t = Str \<Longrightarrow> \<exists>df' st'. DataFrame_get_string args (cluster_get 0) 0 r (df, st) = Inr (as_string (ys ! r), df', st') \<and> triv_frame args t ys st' df'"
    using cluster_kv.strings.frame_cell [OF F(1) c(1) _ c(2) F(2) A, of "Inl (Exit 1)"] keep
    by (auto simp: DataFrame_get_string_def ColumnArray_get_string_def Column_gets)
qed

lemma triv_fetch:
  assumes "triv_frame args t ys st df"
  shows "\<exists>df2. fetch_again (cluster_peek 0) (Key_lit ''triv'' 0) st = Inr (df2, st) \<and> triv_frame args t ys st df2"
proof -
  have h: "home (Key_lit ''triv'' 0) = 0" by (simp add: home_def)
  from assms get_frame [OF _ _ h] show ?thesis unfolding triv_frame_def fetch_again_def by fastforce
qed

text \<open>The loop over the rows, with an invariant of what its body accumulates.\<close>

lemma for_rows_ok:
  assumes f: "triv_frame args t ys st df" and p: "P 0 a"
    and get: "\<And>k df st. k < length ys \<Longrightarrow> triv_frame args t ys st df \<Longrightarrow> \<exists>df' st'. get k (df, st) = Inr (x k, df', st') \<and> triv_frame args t ys st' df'"
    and body: "\<And>k a. k < length ys \<Longrightarrow> P k a \<Longrightarrow> \<exists>a'. f k (x k) a = Inr a' \<and> P (Suc k) a'"
  shows "\<exists>a' df' st'. for_rows get f (length ys) (a, df, st) = Inr (a', df', st') \<and> P (length ys) a' \<and> triv_frame args t ys st' df'"
proof -
  let ?P = "\<lambda>k (a, df, st). P k a \<and> triv_frame args t ys st df"
  have "\<exists>z. for_rows get f (length ys) (a, df, st) = Inr z \<and> ?P (length ys) z"
    unfolding for_rows_def
  proof (rule res_fold_upt [where P = ?P])
    fix k z
    assume k: "k < length ys" and "?P k z"
    then obtain a df st where z: "z = (a, df, st)" "P k a" "triv_frame args t ys st df" by (cases z) auto
    obtain df' st' where "get k (df, st) = Inr (x k, df', st')" "triv_frame args t ys st' df'" using get [OF k z(3)] by blast
    moreover obtain a' where "f k (x k) a = Inr a'" "P (Suc k) a'" using body [OF k z(2)] by blast
    ultimately show "\<exists>z'. (case z of (a, df, st) \<Rightarrow> res_bind (get k (df, st)) (\<lambda>(x, df, st). res_bind (f k x a) (\<lambda>a. Inr (a, df, st)))) = Inr z' \<and> ?P (Suc k) z'"
      using z(1) by auto
  qed (use f p in simp_all)
  then show ?thesis by auto
qed

section \<open>The trials\<close>

text \<open>What the first trial relies on: integers up to \<open>2 ^ 53\<close> are added and subtracted exactly.\<close>

definition exact_doubles :: "(nat \<Rightarrow> u64) \<Rightarrow> (u64 \<Rightarrow> u64 \<Rightarrow> u64) \<Rightarrow> (u64 \<Rightarrow> u64 \<Rightarrow> u64) \<Rightarrow> (u64 \<Rightarrow> u64 \<Rightarrow> bool) \<Rightarrow> bool" where
  "exact_doubles dbl dadd dsub deq \<longleftrightarrow>
     (\<forall>a b. a + b \<le> 2 ^ 53 \<longrightarrow> dadd (dbl a) (dbl b) = dbl (a + b) \<and> dsub (dbl (a + b)) (dbl b) = dbl a) \<and> (\<forall>a \<le> 2 ^ 53. deq (dbl a) (dbl a))"

lemma add_up:
  assumes "exact_doubles dbl dadd dsub deq" and "sum_list xs + s \<le> 2 ^ 53"
  shows "fold (\<lambda>v s. dadd s v) (map dbl xs) (dbl s) = dbl (sum_list xs + s)"
  using assms(2)
proof (induction xs arbitrary: s)
  case (Cons x xs)
  then have "dadd (dbl s) (dbl x) = dbl (s + x)" using assms(1) by (simp add: exact_doubles_def)
  then show ?case using Cons by (simp add: ac_simps)
qed simp

lemma sum_below: "n \<le> 10 ^ 6 \<Longrightarrow> sum_list [0..<n] \<le> 2 ^ 53"
proof -
  assume n: "n \<le> 10 ^ 6"
  have "2 * sum_list [0..<n] = n * (n - 1)" by (rule sum_upt)
  also have "\<dots> \<le> 10 ^ 6 * 10 ^ 6" using n by (intro mult_le_mono) simp_all
  finally show ?thesis by simp
qed

lemma trial1_ok:
  assumes d: "exact_doubles dbl dadd dsub deq" and inv: "cluster_inv (numNodes args) 0 st" and A: "sizes_ok args" "homes (\<lambda>k. home k < numNodes args) args"
    and n: "1 < n" "n \<le> 10 ^ 6"
  shows "\<exists>st'. trial1 args (cluster_put 0) (cluster_get 0) (cluster_peek 0) dbl dadd dsub deq n st = Inr st' \<and> cluster_inv (numNodes args) 0 st'"
proof -
  let ?v = "map dbl [0..<n]" and ?S = "\<lambda>k. sum_list [k..<n]"
  have S: "?S 0 \<le> 2 ^ 53" using sum_below [OF n(2)] .
  have total: "fold (\<lambda>v s. dadd s v) ?v (dbl 0) = dbl (?S 0)" using add_up [OF d, of "[0..<n]" 0] S by simp
  obtain df st1 where 1: "fromArray_doubles args (cluster_put 0) (Key_lit ''triv'' 0) n ?v st = Inr (df, st1)" "triv_frame args Double (map DElem ?v) st1 df"
    using triv_put(2) [OF inv A, of ?v] n(2) by (auto simp del: map_map)
  obtain df1 st2 where 2: "DataFrame_get_double args (cluster_get 0) 0 1 (df, st1) = Inr (dbl 1, df1, st2)" "triv_frame args Double (map DElem ?v) st2 df1"
    using triv_cell(2) [OF A(2) 1(2), of 1] n(1) by auto
  obtain df2 where 3: "fetch_again (cluster_peek 0) (Key_lit ''triv'' 0) st2 = Inr (df2, st2)" "triv_frame args Double (map DElem ?v) st2 df2"
    using triv_fetch [OF 2(2)] by blast
  have body: "\<exists>a'. Inr (dsub a (dbl k)) = Inr a' \<and> a' = dbl (?S (Suc k))" if k: "k < n" "a = dbl (?S k)" for k a
  proof -
    have e: "?S k = ?S (Suc k) + k" using k(1) by (simp add: upt_conv_Cons del: upt_Suc)
    have "?S k \<le> ?S 0"
    proof -
      have "[0..<n] = [0..<k] @ [k..<n]" using k(1) upt_add_eq_append [of 0 k "n - k"] by simp
      then show ?thesis by simp
    qed
    then have "?S (Suc k) + k \<le> 2 ^ 53" using S e by linarith
    then show ?thesis using d k(2) unfolding exact_doubles_def e by blast
  qed
  have "\<exists>a' df' st'. for_rows (DataFrame_get_double args (cluster_get 0) 0) (\<lambda>i x total. Inr (dsub total x)) (length (map DElem ?v)) (dbl (?S 0), df2, st2) = Inr (a', df', st') \<and>
    a' = dbl (?S (length (map DElem ?v))) \<and> triv_frame args Double (map DElem ?v) st' df'"
  proof (rule for_rows_ok [where P = "\<lambda>k a. a = dbl (?S k)" and x = dbl, OF 3(2)])
    fix k df st
    assume "k < length (map DElem ?v)" "triv_frame args Double (map DElem ?v) st df"
    then show "\<exists>df' st'. DataFrame_get_double args (cluster_get 0) 0 k (df, st) = Inr (dbl k, df', st') \<and> triv_frame args Double (map DElem ?v) st' df'"
      using triv_cell(2) [OF A(2), of Double "map DElem ?v" st df k] by simp
  qed (use body in auto)
  then obtain df' st' where 4: "for_rows (DataFrame_get_double args (cluster_get 0) 0) (\<lambda>i x total. Inr (dsub total x)) n (dbl (?S 0), df2, st2) = Inr (dbl 0, df', st')"
    "cluster_inv (numNodes args) 0 st'" by (auto simp: triv_frame_def)
  have "deq (dbl 1) (dbl 1)" "deq (dbl 0) (dbl 0)" using d by (simp_all add: exact_doubles_def)
  then show ?thesis using 1(1) 2(1) 3(1) 4 total by (simp add: trial1_def triv_key Let_def)
qed

lemma trial2_ok:
  assumes inv: "cluster_inv (numNodes args) 0 st" and A: "sizes_ok args" "homes (\<lambda>k. home k < numNodes args) args"
    and n: "1 < n" "n \<le> 10 ^ 6"
  shows "\<exists>st'. trial2 args (cluster_put 0) (cluster_get 0) (cluster_peek 0) n st = Inr st' \<and> cluster_inv (numNodes args) 0 st'"
proof -
  let ?v = "map of_nat [0..<n] :: u32 list" and ?S = "\<lambda>k. sum_list (map of_nat [k..<n]) :: u32"
  obtain df st1 where 1: "fromArray_ints args (cluster_put 0) (Key_lit ''triv'' 0) n ?v st = Inr (df, st1)" "triv_frame args Integer (map IElem ?v) st1 df"
    using triv_put(1) [OF inv A, of ?v] n(2) by (auto simp del: map_map)
  obtain df1 st2 where 2: "DataFrame_get_int args (cluster_get 0) 0 1 (df, st1) = Inr (1, df1, st2)" "triv_frame args Integer (map IElem ?v) st2 df1"
    using triv_cell(1) [OF A(2) 1(2), of 1] n(1) by auto
  obtain df2 where 3: "fetch_again (cluster_peek 0) (Key_lit ''triv'' 0) st2 = Inr (df2, st2)" "triv_frame args Integer (map IElem ?v) st2 df2"
    using triv_fetch [OF 2(2)] by blast
  have body: "?S k - of_nat k = ?S (Suc k)" if k: "k < n" for k
    using k by (simp add: upt_conv_Cons del: upt_Suc)
  have "\<exists>a' df' st'. for_rows (DataFrame_get_int args (cluster_get 0) 0) (\<lambda>i x total. Inr (total - x)) (length (map IElem ?v)) (?S 0, df2, st2) = Inr (a', df', st') \<and>
    a' = ?S (length (map IElem ?v)) \<and> triv_frame args Integer (map IElem ?v) st' df'"
  proof (rule for_rows_ok [where P = "\<lambda>k a. a = ?S k" and x = of_nat, OF 3(2)])
    fix k df st
    assume "k < length (map IElem ?v)" "triv_frame args Integer (map IElem ?v) st df"
    then show "\<exists>df' st'. DataFrame_get_int args (cluster_get 0) 0 k (df, st) = Inr (of_nat k, df', st') \<and> triv_frame args Integer (map IElem ?v) st' df'"
      using triv_cell(1) [OF A(2), of Integer "map IElem ?v" st df k] by simp
  qed (use body in auto)
  then obtain df' st' where 4: "for_rows (DataFrame_get_int args (cluster_get 0) 0) (\<lambda>i x total. Inr (total - x)) n (?S 0, df2, st2) = Inr (0, df', st')"
    "cluster_inv (numNodes args) 0 st'" by (auto simp: triv_frame_def)
  then show ?thesis using 1(1) 2(1) 3(1) by (simp add: trial2_def triv_key Let_def)
qed

text \<open>The strings of the third trial.\<close>

lemma number_string_ok:
  assumes "n < 10 ^ 9"
  shows "number_string n = Inr (String_lit (to_string n))" and "cstr_ok (to_string n)" and "value_size (SElem (String_lit (to_string n))) \<le> 30"
proof -
  have l: "length (to_string n) \<le> 9" using length_to_string [of n 8] assms by simp
  have z: "10 - length (to_string n) = Suc (9 - length (to_string n))" using l by simp
  show "number_string n = Inr (String_lit (to_string n))"
    using l String_of_cstr_lit [OF to_string_no_nul, of n "replicate (9 - length (to_string n)) NUL"] by (simp add: number_string_def z)
  show "cstr_ok (to_string n)" using l to_string_no_nul [of n] by (simp add: cstr_ok_def)
  show "value_size (SElem (String_lit (to_string n))) \<le> 30" using l by (simp add: enc_String_def enc_cstr_def)
qed

lemma numbers_ok:
  assumes "n \<le> 10 ^ 6"
  shows "\<exists>buf. res_fold (\<lambda>i (vals, buf). res_bind (number_string i) (\<lambda>tmp. res_bind (StrBuff_c_String tmp buf) (\<lambda>buf. Inr (vals @ [tmp], buf)))) [0..<n] ([], StrBuff_new) =
      Inr (map (\<lambda>i. String_lit (to_string i)) [0..<n], buf) \<and> StrBuff_repr buf (concat (map to_string [0..<n]))"
proof -
  let ?P = "\<lambda>k (vals, buf). vals = map (\<lambda>i. String_lit (to_string i)) [0..<k] \<and> StrBuff_repr buf (concat (map to_string [0..<k]))"
  have "\<exists>t. res_fold (\<lambda>i (vals, buf). res_bind (number_string i) (\<lambda>tmp. res_bind (StrBuff_c_String tmp buf) (\<lambda>buf. Inr (vals @ [tmp], buf)))) [0..<n] ([], StrBuff_new) = Inr t \<and> ?P n t"
  proof (rule res_fold_upt [where P = ?P])
    show "?P 0 ([], StrBuff_new)" by simp
  next
    fix k t
    assume k: "k < n" and "?P k t"
    then obtain vals buf where t: "t = (vals, buf)" "vals = map (\<lambda>i. String_lit (to_string i)) [0..<k]" "StrBuff_repr buf (concat (map to_string [0..<k]))"
      by (cases t) auto
    have "k < 10 ^ 9" using k assms by simp
    note N = number_string_ok [OF this]
    obtain b where "StrBuff_c_String (String_lit (to_string k)) buf = Inr b" "StrBuff_repr b (concat (map to_string [0..<k]) @ to_string k)"
      using StrBuff_c_String_appends [OF t(3) N(2)] by blast
    then show "\<exists>t'. (case t of (vals, buf) \<Rightarrow> res_bind (number_string k) (\<lambda>tmp. res_bind (StrBuff_c_String tmp buf) (\<lambda>buf. Inr (vals @ [tmp], buf)))) = Inr t' \<and> ?P (Suc k) t'"
      using t N(1) by auto
  qed simp
  then show ?thesis by auto
qed

lemma trial3_ok:
  assumes inv: "cluster_inv (numNodes args) 0 st" and A: "sizes_ok args" "homes (\<lambda>k. home k < numNodes args) args"
    and n: "5 < n" "n \<le> 10 ^ 6"
  shows "\<exists>st'. trial3 args (cluster_put 0) (cluster_get 0) (cluster_peek 0) n st = Inr st' \<and> cluster_inv (numNodes args) 0 st'"
proof -
  let ?v = "map (\<lambda>i. String_lit (to_string i)) [0..<n]" and ?all = "concat (map to_string [0..<n])"
  obtain buf where b: "res_fold (\<lambda>i (vals, buf). res_bind (number_string i) (\<lambda>tmp. res_bind (StrBuff_c_String tmp buf) (\<lambda>buf. Inr (vals @ [tmp], buf)))) [0..<n] ([], StrBuff_new) = Inr (?v, buf)"
    "StrBuff_repr buf ?all" using numbers_ok [OF n(2)] by blast
  obtain buf' where e: "StrBuff_get buf = Inr (String_lit ?all, buf')" using StrBuff_get_content [OF b(2)] by blast
  have N: "number_string k = Inr (String_lit (to_string k))" "cstr_ok (to_string k)" "value_size (SElem (String_lit (to_string k))) \<le> 30" if "k < n" for k
    using number_string_ok [of k] that n(2) by simp_all
  have "\<forall>s \<in> set ?v. String_wf s \<and> value_size (SElem s) \<le> 30" using N by auto
  then obtain df st1 where 1: "fromArray_strings args (cluster_put 0) (Key_lit ''triv'' 0) n ?v st = Inr (df, st1)" "triv_frame args Str (map SElem ?v) st1 df"
    using triv_put(4) [OF inv A, of ?v] n(2) by (auto simp del: map_map value_size.simps)
  obtain df1 st2 where 2: "DataFrame_get_string args (cluster_get 0) 0 1 (df, st1) = Inr (String_lit (to_string 1), df1, st2)" "triv_frame args Str (map SElem ?v) st2 df1"
    using triv_cell(4) [OF A(2) 1(2), of 1] n(1) by auto
  obtain df3 st3 where 3: "DataFrame_get_string args (cluster_get 0) 0 5 (df1, st2) = Inr (String_lit (to_string 5), df3, st3)" "triv_frame args Str (map SElem ?v) st3 df3"
    using triv_cell(4) [OF A(2) 2(2), of 5] n(1) by auto
  obtain df2 where 4: "fetch_again (cluster_peek 0) (Key_lit ''triv'' 0) st3 = Inr (df2, st3)" "triv_frame args Str (map SElem ?v) st3 df2"
    using triv_fetch [OF 3(2)] by blast
  have "\<exists>a' df' st'. for_rows (DataFrame_get_string args (cluster_get 0) 0) (\<lambda>i tmp buf. StrBuff_c_String tmp buf) (length (map SElem ?v)) (StrBuff_new, df2, st3) = Inr (a', df', st') \<and>
    StrBuff_repr a' (concat (map to_string [0..<length (map SElem ?v)])) \<and> triv_frame args Str (map SElem ?v) st' df'"
  proof (rule for_rows_ok [where P = "\<lambda>k a. StrBuff_repr a (concat (map to_string [0..<k]))" and x = "\<lambda>k. String_lit (to_string k)", OF 4(2)])
    fix k df st
    assume "k < length (map SElem ?v)" "triv_frame args Str (map SElem ?v) st df"
    then show "\<exists>df' st'. DataFrame_get_string args (cluster_get 0) 0 k (df, st) = Inr (String_lit (to_string k), df', st') \<and> triv_frame args Str (map SElem ?v) st' df'"
      using triv_cell(4) [OF A(2), of Str "map SElem ?v" st df k] by simp
  next
    fix k a
    assume "k < length (map SElem ?v)" "StrBuff_repr a (concat (map to_string [0..<k]))"
    then show "\<exists>a'. StrBuff_c_String (String_lit (to_string k)) a = Inr a' \<and> StrBuff_repr a' (concat (map to_string [0..<Suc k]))"
      using StrBuff_c_String_appends [of a "concat (map to_string [0..<k])" "to_string k"] N(2) [of k] by simp
  qed simp
  then obtain a' df' st' where 5: "for_rows (DataFrame_get_string args (cluster_get 0) 0) (\<lambda>i tmp buf. StrBuff_c_String tmp buf) n (StrBuff_new, df2, st3) = Inr (a', df', st')"
    "StrBuff_repr a' ?all" "cluster_inv (numNodes args) 0 st'" by (auto simp: triv_frame_def)
  obtain buf2 where 6: "StrBuff_get a' = Inr (String_lit ?all, buf2)" using StrBuff_get_content [OF 5(2)] by blast
  have eqs: "String_equals (String_lit ?all) (String_lit ?all)" by (simp add: String_equals_def)
  have eq1: "String_equals (String_lit (to_string k)) (String_lit (to_string k))" if "k < n" for k
    using String_equals_lit [OF N(2) [OF that]] by simp
  have l: "cell_load (map Some ?v) k = Inr (String_lit (to_string k))" if "k < n" for k using that by (simp add: cell_load_def)
  show ?thesis
    using b(1) e 1(1) 2(1) 3(1) 4(1) 5(1,3) 6 eqs eq1 [of 1] eq1 [of 5] l [of 1] l [of 5] n(1) by (simp add: trial3_def triv_key)
qed

lemma trial4_ok:
  assumes inv: "cluster_inv (numNodes args) 0 st" and A: "sizes_ok args" "homes (\<lambda>k. home k < numNodes args) args"
    and n: "10 \<le> n" "n \<le> 10 ^ 6"
  shows "\<exists>st'. trial4 args (cluster_put 0) (cluster_get 0) (cluster_peek 0) n st = Inr st' \<and> cluster_inv (numNodes args) 0 st'"
proof -
  let ?v = "map (trial4_bit n) [0..<n]"
  obtain df st1 where 1: "fromArray_bools args (cluster_put 0) (Key_lit ''triv'' 0) n ?v st = Inr (df, st1)" "triv_frame args Boolean (map BElem ?v) st1 df"
    using triv_put(3) [OF inv A, of ?v] n(2) by (auto simp del: map_map)
  have cell: "\<exists>df' st'. DataFrame_get_bool args (cluster_get 0) 0 k (df, st) = Inr (trial4_bit n k, df', st') \<and> triv_frame args Boolean (map BElem ?v) st' df'"
    if "triv_frame args Boolean (map BElem ?v) st df" "k < n" for k df st
    using triv_cell(3) [OF A(2) that(1), of k] that(2) by simp
  have bits: "trial4_bit n 1 = False" "trial4_bit n 4 = True" "trial4_bit n (n - 3) = True" using n(1) by (auto simp: trial4_bit_def)
  have "1 < n" "4 < n" "n - 3 < n" using n(1) by simp_all
  obtain df1 st2 where 2: "DataFrame_get_bool args (cluster_get 0) 0 1 (df, st1) = Inr (False, df1, st2)" "triv_frame args Boolean (map BElem ?v) st2 df1"
    using cell [OF 1(2) \<open>1 < n\<close>] unfolding bits by blast
  obtain df2 st3 where 3: "DataFrame_get_bool args (cluster_get 0) 0 4 (df1, st2) = Inr (True, df2, st3)" "triv_frame args Boolean (map BElem ?v) st3 df2"
    using cell [OF 2(2) \<open>4 < n\<close>] unfolding bits by blast
  obtain df3 st4 where 4: "DataFrame_get_bool args (cluster_get 0) 0 (n - 3) (df2, st3) = Inr (True, df3, st4)" "triv_frame args Boolean (map BElem ?v) st4 df3"
    using cell [OF 3(2) \<open>n - 3 < n\<close>] unfolding bits by blast
  obtain df4 where 5: "fetch_again (cluster_peek 0) (Key_lit ''triv'' 0) st4 = Inr (df4, st4)" "triv_frame args Boolean (map BElem ?v) st4 df4"
    using triv_fetch [OF 4(2)] by blast
  have "\<exists>a' df' st'. for_rows (DataFrame_get_bool args (cluster_get 0) 0) (\<lambda>i x _. res_assert (x = trial4_bit n i)) (length (map BElem ?v)) ((), df4, st4) = Inr (a', df', st') \<and>
    True \<and> triv_frame args Boolean (map BElem ?v) st' df'"
    by (rule for_rows_ok [where P = "\<lambda>_ _. True" and x = "trial4_bit n", OF 5(2)]) (use cell in simp_all)
  then obtain a' df' st' where 6: "for_rows (DataFrame_get_bool args (cluster_get 0) 0) (\<lambda>i x _. res_assert (x = trial4_bit n i)) n ((), df4, st4) = Inr (a', df', st')"
    "cluster_inv (numNodes args) 0 st'" by (auto simp: triv_frame_def)
  then show ?thesis using 1(1) 2(1) 3(1) 4(1) 5(1) n(1) by (simp add: trial4_def triv_key Let_def)
qed

section \<open>Property\<close>



end
