(* ===== verification/Linus.thy ===== *)
theory Linus
  imports ClusterFrames
begin

text \<open>
  The Linus application (\<open>src/application/linus.h\<close>): which users committed to a project that a
  collaborator of Linus committed to, in rounds. Every node holds the same three frames and the
  same two sets; in a stage it marks from its own rows of the commits, and \<open>merge\<close> exchanges what
  was marked: node 0 collects the sets of the other nodes, publishes the union, and they read it.

  \<open>merge\<close> of a node other than 0 publishes (\<open>Linus_send\<close>) and then waits for node 0
  (\<open>Linus_receive\<close>); a stage is cut there, so that the parts of different nodes can be put in
  the order in which they wait for each other. Printing and the freeing of memory are left out.
\<close>

section \<open>The program\<close>

record Linus =
  li_projects :: DataFrame
  li_users :: DataFrame
  li_commits :: DataFrame
  li_uSet :: Set
  li_pSet :: Set

text \<open>\<open>Key(StrBuff(name).c(stage).c("-").c(i).get(), 0)\<close> and the key of the merged set.\<close>

definition node_key :: "char list \<Rightarrow> nat \<Rightarrow> nat \<Rightarrow> Key res" where
  "node_key name stage i =
     res_bind (StrBuff_of_cstr (name @ [NUL])) (\<lambda>b.
     res_bind (StrBuff_c_size_t stage b) (\<lambda>b.
     res_bind (StrBuff_c_cstr [CHR ''-'', NUL] b) (\<lambda>b.
     res_bind (StrBuff_c_size_t i b) (\<lambda>b.
     res_bind (StrBuff_get b) (\<lambda>(s, _). Key_of_String s 0)))))"

definition merged_key :: "char list \<Rightarrow> nat \<Rightarrow> Key res" where
  "merged_key name stage =
     res_bind (StrBuff_of_cstr (name @ [NUL])) (\<lambda>b.
     res_bind (StrBuff_c_size_t stage b) (\<lambda>b.
     res_bind (StrBuff_c_cstr [CHR ''-'', CHR ''0'', NUL] b) (\<lambda>b.
     res_bind (StrBuff_get b) (\<lambda>(s, _). Key_of_String s 0))))"

text \<open>Fetch a frame and add its elements to a set; publish the elements of a set.\<close>

definition Linus_update ::
    "Args \<Rightarrow> (Key \<Rightarrow> 's \<Rightarrow> (Value option \<times> 's) res) \<Rightarrow> Key \<Rightarrow> Set \<times> 's \<Rightarrow> (Set \<times> 's) res" where
  "Linus_update args getv k = (\<lambda>(s, st).
     res_bind (waitAndGet getv k st) (\<lambda>(delta, st).
     res_bind (df_map args getv SetUpdater_visit (s, delta, st)) (\<lambda>(s, _, st). Inr (s, st))))"

definition Linus_publish ::
    "Args \<Rightarrow> (Key \<Rightarrow> Value \<Rightarrow> 's \<Rightarrow> 's res) \<Rightarrow> Key \<Rightarrow> Set \<times> 's \<Rightarrow> 's res" where
  "Linus_publish args putv k = (\<lambda>(s, st).
     res_bind (fromVisitor args putv k [CHR ''I'', NUL] (SetWriter s) (0, st)) (\<lambda>(_, _, st). Inr st))"

text \<open>\<open>merge\<close>: the branch of node 0, and the two halves of the branch of the others.\<close>

definition Linus_merge0 ::
    "Args \<Rightarrow> (Key \<Rightarrow> Value \<Rightarrow> 's \<Rightarrow> 's res) \<Rightarrow> (Key \<Rightarrow> 's \<Rightarrow> (Value option \<times> 's) res) \<Rightarrow> char list \<Rightarrow> nat \<Rightarrow> Set \<times> 's \<Rightarrow> (Set \<times> 's) res" where
  "Linus_merge0 args putv getv name stage sst =
     res_bind (res_fold (\<lambda>i sst. res_bind (node_key name stage i) (\<lambda>nK. Linus_update args getv nK sst)) [1..<numNodes args] sst) (\<lambda>(s, st).
     res_bind (merged_key name stage) (\<lambda>k.
     res_bind (Linus_publish args putv k (s, st)) (\<lambda>st. Inr (s, st))))"

definition Linus_send ::
    "Args \<Rightarrow> (Key \<Rightarrow> Value \<Rightarrow> 's \<Rightarrow> 's res) \<Rightarrow> nat \<Rightarrow> char list \<Rightarrow> nat \<Rightarrow> Set \<times> 's \<Rightarrow> 's res" where
  "Linus_send args putv idx name stage sst = res_bind (node_key name stage idx) (\<lambda>k. Linus_publish args putv k sst)"

definition Linus_receive ::
    "Args \<Rightarrow> (Key \<Rightarrow> 's \<Rightarrow> (Value option \<times> 's) res) \<Rightarrow> char list \<Rightarrow> nat \<Rightarrow> Set \<times> 's \<Rightarrow> (Set \<times> 's) res" where
  "Linus_receive args getv name stage sst = res_bind (merged_key name stage) (\<lambda>mK. Linus_update args getv mK sst)"

definition Linus_merge ::
    "Args \<Rightarrow> (Key \<Rightarrow> Value \<Rightarrow> 's \<Rightarrow> 's res) \<Rightarrow> (Key \<Rightarrow> 's \<Rightarrow> (Value option \<times> 's) res) \<Rightarrow> nat \<Rightarrow> char list \<Rightarrow> nat \<Rightarrow>
     Set \<times> 's \<Rightarrow> (Set \<times> 's) res" where
  "Linus_merge args putv getv idx name stage = (\<lambda>(s, st).
     if idx = 0 then Linus_merge0 args putv getv name stage (s, st)
     else res_bind (Linus_send args putv idx name stage (s, st)) (\<lambda>st. Linus_receive args getv name stage (s, st)))"

text \<open>\<open>step\<close>, up to the first \<open>merge\<close>, between the two, and after the second.\<close>

definition Linus_tag_projects ::
    "Args \<Rightarrow> (Key \<Rightarrow> 's \<Rightarrow> (Value option \<times> 's) res) \<Rightarrow> nat \<Rightarrow> nat \<Rightarrow> Linus \<times> 's \<Rightarrow> (Set \<times> Linus \<times> 's) res" where
  "Linus_tag_projects args getv idx stage = (\<lambda>(li, st).
     res_bind (merged_key ''users-'' stage) (\<lambda>uK.
     res_bind (Set_of_frame (li_users li)) (\<lambda>delta.
     res_bind (Linus_update args getv uK (delta, st)) (\<lambda>(delta, st).
     res_bind (Set_of_frame (li_projects li)) (\<lambda>newProjects.
     res_bind (local_map args getv (of_nat idx) (ProjectsTagger_visit delta) ((li_pSet li, newProjects), li_commits li, st))
       (\<lambda>((pSet, newProjects), commits, st).
     Inr (newProjects, li\<lparr>li_pSet := pSet, li_commits := commits\<rparr>, st)))))))"

definition Linus_tag_users ::
    "Args \<Rightarrow> (Key \<Rightarrow> 's \<Rightarrow> (Value option \<times> 's) res) \<Rightarrow> nat \<Rightarrow> Set \<Rightarrow> Linus \<times> 's \<Rightarrow> (Set \<times> Linus \<times> 's) res" where
  "Linus_tag_users args getv idx newProjects = (\<lambda>(li, st).
     res_bind (Set_union newProjects (li_pSet li)) (\<lambda>pSet.
     res_bind (Set_of_frame (li_users li)) (\<lambda>newUsers.
     res_bind (local_map args getv (of_nat idx) (UsersTagger_visit newProjects) ((li_uSet li, newUsers), li_commits li, st))
       (\<lambda>((uSet, newUsers), commits, st).
     Inr (newUsers, li\<lparr>li_pSet := pSet, li_uSet := uSet, li_commits := commits\<rparr>, st)))))"

definition Linus_end_stage :: "Set \<Rightarrow> Linus \<Rightarrow> Linus res" where
  "Linus_end_stage newUsers li = res_bind (Set_union newUsers (li_uSet li)) (\<lambda>uSet. Inr (li\<lparr>li_uSet := uSet\<rparr>))"

definition Linus_step ::
    "Args \<Rightarrow> (Key \<Rightarrow> Value \<Rightarrow> 's \<Rightarrow> 's res) \<Rightarrow> (Key \<Rightarrow> 's \<Rightarrow> (Value option \<times> 's) res) \<Rightarrow> nat \<Rightarrow> nat \<Rightarrow> Linus \<times> 's \<Rightarrow> (Linus \<times> 's) res" where
  "Linus_step args putv getv idx stage lst =
     res_bind (Linus_tag_projects args getv idx stage lst) (\<lambda>(newProjects, li, st).
     res_bind (Linus_merge args putv getv idx ''projects-'' stage (newProjects, st)) (\<lambda>(newProjects, st).
     res_bind (Linus_tag_users args getv idx newProjects (li, st)) (\<lambda>(newUsers, li, st).
     res_bind (Linus_merge args putv getv idx ''users-'' (stage + 1) (newUsers, st)) (\<lambda>(newUsers, st).
     res_bind (Linus_end_stage newUsers li) (\<lambda>li. Inr (li, st))))))"

definition DEGREES :: nat where
  "DEGREES = 4"

section \<open>The keys\<close>

definition stage_name :: "char list \<Rightarrow> nat \<Rightarrow> nat \<Rightarrow> char list" where
  "stage_name name stage i = name @ to_string stage @ ''-'' @ to_string i"

lemma StrBuff_of_cstr_repr: "NUL \<notin> set cs \<Longrightarrow> \<exists>b. StrBuff_of_cstr (cs @ [NUL]) = Inr b \<and> StrBuff_repr b cs"
proof -
  assume n: "NUL \<notin> set cs"
  let ?b = "\<lparr>sb_val = new_cells (length cs + 1), sb_capacity = length cs + 1, sb_size = 0\<rparr> :: StrBuff"
  have "StrBuff_repr ?b []" by (simp add: StrBuff_repr_def)
  from StrBuff_c_cstr_appends [OF this n, of "[]"] show ?thesis
    using c_strlen_nul [OF n, of "[]"] by (simp add: StrBuff_of_cstr_def)
qed

lemma node_key_lit: "NUL \<notin> set name \<Longrightarrow> node_key name stage i = Inr (Key_lit (stage_name name stage i) 0)"
proof -
  assume n: "NUL \<notin> set name"
  obtain b1 where b1: "StrBuff_of_cstr (name @ [NUL]) = Inr b1" "StrBuff_repr b1 name" using StrBuff_of_cstr_repr [OF n] by blast
  obtain b2 where b2: "StrBuff_c_size_t stage b1 = Inr b2" "StrBuff_repr b2 (name @ to_string stage)"
    using StrBuff_c_size_t_appends [OF b1(2)] by blast
  obtain b3 where b3: "StrBuff_c_cstr [CHR ''-'', NUL] b2 = Inr b3" "StrBuff_repr b3 ((name @ to_string stage) @ ''-'')"
    using StrBuff_c_cstr_appends [OF b2(2), of "''-''" "[]"] by auto
  obtain b4 where b4: "StrBuff_c_size_t i b3 = Inr b4" "StrBuff_repr b4 (((name @ to_string stage) @ ''-'') @ to_string i)"
    using StrBuff_c_size_t_appends [OF b3(2)] by blast
  obtain b5 where "StrBuff_get b4 = Inr (String_lit (((name @ to_string stage) @ ''-'') @ to_string i), b5)"
    using StrBuff_get_content [OF b4(2)] by blast
  with b1 b2 b3 b4 show ?thesis by (simp add: node_key_def stage_name_def)
qed

lemma merged_key_lit: "NUL \<notin> set name \<Longrightarrow> merged_key name stage = Inr (Key_lit (stage_name name stage 0) 0)"
proof -
  assume n: "NUL \<notin> set name"
  obtain b1 where b1: "StrBuff_of_cstr (name @ [NUL]) = Inr b1" "StrBuff_repr b1 name" using StrBuff_of_cstr_repr [OF n] by blast
  obtain b2 where b2: "StrBuff_c_size_t stage b1 = Inr b2" "StrBuff_repr b2 (name @ to_string stage)"
    using StrBuff_c_size_t_appends [OF b1(2)] by blast
  obtain b3 where b3: "StrBuff_c_cstr [CHR ''-'', CHR ''0'', NUL] b2 = Inr b3" "StrBuff_repr b3 ((name @ to_string stage) @ ''-0'')"
    using StrBuff_c_cstr_appends [OF b2(2), of "''-0''" "[]"] by auto
  obtain b4 where "StrBuff_get b3 = Inr (String_lit ((name @ to_string stage) @ ''-0''), b4)"
    using StrBuff_get_content [OF b3(2)] by blast
  moreover have "to_string 0 = ''0''" by (subst to_string.simps) (simp add: char_of_def bit_0)
  ultimately show ?thesis using b1 b2 b3 by (simp add: merged_key_def stage_name_def)
qed

lemma stage_clear:
  assumes "name \<in> {''projects-'', ''users-''}" and "name' \<in> {''projects-'', ''users-''}" and "(name, stage, i) \<noteq> (name', stage', i')"
  shows "clear_of (stage_name name stage i) (stage_name name' stage' i')"
proof -
  have ne: "stage_name name stage i \<noteq> stage_name name' stage' i'"
    if "name \<in> {''projects-'', ''users-''}" "name' \<in> {''projects-'', ''users-''}" "(name, stage, i) \<noteq> (name', stage', i')"
    for name name' stage stage' i i'
    using that split_dash [OF to_string_no_dash to_string_no_dash, of stage "to_string i" stage' "to_string i'"] to_string_inj
    by (auto simp: stage_name_def inj_eq)
  have np: "\<not> prefix (stage_name name stage i @ ''-'') (stage_name name' stage' i')"
    if "name \<in> {''projects-'', ''users-''}" "name' \<in> {''projects-'', ''users-''}"
    for name name' stage stage' i i'
  proof
    assume "prefix (stage_name name stage i @ ''-'') (stage_name name' stage' i')"
    then obtain x where "stage_name name' stage' i' = stage_name name stage i @ CHR ''-'' # x" by (auto simp: prefix_def)
    then have "to_string i' = to_string i @ CHR ''-'' # x"
      using that split_dash [OF to_string_no_dash to_string_no_dash, of stage' "to_string i'" stage "to_string i @ CHR ''-'' # x"]
      by (auto simp: stage_name_def)
    then show False using to_string_no_dash [of i'] by simp
  qed
  show ?thesis unfolding clear_of_def using ne [OF assms] np [OF assms(1,2)] np [OF assms(2,1)] by blast
qed

lemma comts_clear: "name \<in> {''projects-'', ''users-''} \<Longrightarrow> clear_of (stage_name name stage i) ''comts''"
  by (auto simp: clear_of_def stage_name_def prefix_def)

section \<open>Sets in the store\<close>

text \<open>The frame under the key of a stage holds the elements of the set \<open>S\<close> below \<open>n\<close>.\<close>

definition set_stored :: "Args \<Rightarrow> char list \<Rightarrow> nat \<Rightarrow> nat set \<Rightarrow> Cluster \<Rightarrow> bool" where
  "set_stored args cs n S st \<longleftrightarrow> (\<exists>base. (base = (\<lambda>_. cs) \<or> base = arr_base cs) \<and>
     frame_stored args base [Integer] (cols_of [Integer] (elems_from 0 n S)) (card S) (Key_lit cs 0) (cluster_val (numNodes args) st)) \<and>
     S \<subseteq> {..<n} \<and> n \<le> int_max \<and> length cs < 2 ^ 32"

lemma set_stored_keep: "set_stored args ds n S st \<Longrightarrow> only_changes args cs st st' \<Longrightarrow> clear_of cs ds \<Longrightarrow> set_stored args ds n S st'"
proof -
  assume s: "set_stored args ds n S st" and o: "only_changes args cs st st'" and c: "clear_of cs ds"
  obtain base where b: "base = (\<lambda>_. ds) \<or> base = arr_base ds"
    "frame_stored args base [Integer] (cols_of [Integer] (elems_from 0 n S)) (card S) (Key_lit ds 0) (cluster_val (numNodes args) st)"
    using s unfolding set_stored_def by blast
  from frame_keep [OF b(2,1) o c] show ?thesis using b(1) s unfolding set_stored_def by blast
qed

lemma set_stored_same: "set_stored args cs n S st \<Longrightarrow> cluster_val (numNodes args) st' = cluster_val (numNodes args) st \<Longrightarrow> set_stored args cs n S st'"
  by (simp add: set_stored_def)

lemma Linus_publish_ok:
  assumes "cluster_inv (numNodes args) i st" and A: "sizes_ok args" "homes (\<lambda>k. home k < numNodes args) args"
    and s: "Set_repr s n S" "n \<le> int_max" and cs: "cstr_ok cs" "length cs < 2 ^ 32"
  shows "\<exists>st'. Linus_publish args (cluster_put i) (Key_lit cs 0) (s, st) = Inr st' \<and> cluster_inv (numNodes args) i st' \<and>
    set_stored args cs n S st' \<and> only_changes args cs st st'"
proof -
  note E = elems_rows [OF s cs(2)]
  have hk: "home (Key_lit cs 0) < numNodes args" using A(1) by (simp add: home_def sizes_ok_def)
  have todo: "writer_todo s 0 (elems_from 0 n S)" using s by (auto simp: writer_todo_def)
  have ff: "frame_fits [Integer] (length (elems_from 0 n S)) (length cs)" using E(1,5) by simp
  have "S \<subseteq> {..<n}" using s(1) by (simp add: Set_repr_def)
  have len: "length [Integer] < 2 ^ 64" by simp
  obtain df w' st' where 1: "fromVisitor args (cluster_put i) (Key_lit cs 0) (map type_char [Integer] @ [NUL]) (SetWriter s) (0, st) = Inr (df, w', st')"
    "cluster_inv (numNodes args) i st'"
    "frame_stored args (\<lambda>_. cs) [Integer] (cols_of [Integer] (elems_from 0 n S)) (length (elems_from 0 n S)) (Key_lit cs 0) (cluster_val (numNodes args) st')"
    "\<forall>key. key \<noteq> Key_lit cs 0 \<longrightarrow> (\<forall>k i. key \<noteq> block_key args cs k i) \<longrightarrow> cluster_val (numNodes args) st' key = cluster_val (numNodes args) st key"
    using cluster_set_writer.fromVisitor_repr [OF _ _ cs len hk A(1) assms(1) A(2) todo E(4) ff] by auto
  have "only_changes args cs st st'" by (rule only_changesI(1) [OF 1(4)])
  moreover have "set_stored args cs n S st'"
    unfolding set_stored_def using 1(3) E(1) \<open>S \<subseteq> {..<n}\<close> s(2) cs(2) by auto
  moreover have "Linus_publish args (cluster_put i) (Key_lit cs 0) (s, st) = Inr st'" using 1(1) by (simp add: Linus_publish_def)
  ultimately show ?thesis using 1(2) by blast
qed

lemma Linus_update_ok:
  assumes f: "set_stored args cs m S st" and inv: "cluster_inv (numNodes args) i st"
    and A: "sizes_ok args" "homes (\<lambda>k. home k < numNodes args) args" and s: "Set_repr s n T"
  shows "\<exists>s' st'. Linus_update args (cluster_get i) (Key_lit cs 0) (s, st) = Inr (s', st') \<and> Set_repr s' n (T \<union> (S \<inter> {..<n})) \<and>
    cluster_inv (numNodes args) i st' \<and> cluster_val (numNodes args) st' = cluster_val (numNodes args) st"
proof -
  have hk: "home (Key_lit cs 0) < numNodes args" using A(1) by (simp add: home_def sizes_ok_def)
  have S: "S \<subseteq> {..<m}" "m \<le> int_max" "length cs < 2 ^ 32" using f by (simp_all add: set_stored_def)
  have "Set_repr \<lparr>st_vals = map (\<lambda>i. Some (i \<in> S)) [0..<m], st_size = m, st_setSize = card S\<rparr> m S"
    using S(1) by (simp add: Set_repr_def)
  note E = elems_rows [OF this S(2,3)]
  from f E(1) obtain base where f': "frame_stored args base [Integer] (cols_of [Integer] (elems_from 0 m S)) (length (elems_from 0 m S)) (Key_lit cs 0)
      (cluster_val (numNodes args) st)" unfolding set_stored_def by metis
  obtain df st1 df' st2 where 1: "waitAndGet (cluster_get i) (Key_lit cs 0) st = Inr (df, st1)"
    "df_map args (cluster_get i) SetUpdater_visit (s, df, st1) =
      Inr (fold (\<lambda>r. updater_see r (elems_from 0 m S ! r)) [0..<length (elems_from 0 m S)] s, df', st2)"
    "cluster_inv (numNodes args) i st2" "cluster_val (numNodes args) st2 = cluster_val (numNodes args) st"
    using cluster_set_updater.read_stored [OF f' inv A(2) hk _ Set_okI [OF s]] unfolding fold_rows [OF E(3)] by auto
  have "T \<union> ((\<lambda>r. idx_at 0 (elems_from 0 m S ! r)) ` set [0..<length (elems_from 0 m S)] \<inter> {..<n}) = T \<union> (S \<inter> {..<n})"
    using E(2) by simp
  with updater_fold [OF s, of "\<lambda>r. elems_from 0 m S ! r" "[0..<length (elems_from 0 m S)]"] 1 show ?thesis
    by (auto simp: Linus_update_def)
qed

text \<open>The frame of the commits, as every node holds it.\<close>

definition commits_repr :: "Args \<Rightarrow> RowValue list list \<Rightarrow> nat \<Rightarrow> Cluster \<Rightarrow> DataFrame \<Rightarrow> bool" where
  "commits_repr args vss n st df \<longleftrightarrow> frame_repr args (\<lambda>_. ''comts'') (cluster_val (numNodes args) st) [Integer, Integer, Integer] vss df \<and>
     nrows df = n \<and> (\<forall>i < 3. length (vss ! i) = n)"

lemma commits_keep: "commits_repr args vss n st df \<Longrightarrow> only_changes args cs st st' \<Longrightarrow> clear_of cs ''comts'' \<Longrightarrow> commits_repr args vss n st' df"
proof -
  assume f: "commits_repr args vss n st df" and o: "only_changes args cs st st'" and c: "clear_of cs ''comts''"
  have "frame_repr args (\<lambda>_. ''comts'') (cluster_val (numNodes args) st') [Integer, Integer, Integer] vss df"
  proof (rule frame_repr_frame)
    show "cluster_val (numNodes args) st' (block_key args ''comts'' i j) = cluster_val (numNodes args) st (block_key args ''comts'' i j)" for i j
      using o clear_in_frame [OF c in_frame_keys(2)] by (simp add: only_changes_def)
  qed (use f in \<open>simp add: commits_repr_def\<close>)
  then show ?thesis using f by (simp add: commits_repr_def)
qed

text \<open>The rows of the commits at home at node \<open>j\<close>, and all of them.\<close>

definition home_rows :: "Args \<Rightarrow> RowValue list list \<Rightarrow> nat \<Rightarrow> nat \<Rightarrow> RowValue list set" where
  "home_rows args vss n j = row_at vss ` {i \<in> {..<n}. i div blockSize args mod numNodes args = j}"

lemma home_rows_all: "0 < numNodes args \<Longrightarrow> (\<Union>j < numNodes args. home_rows args vss n j) = row_at vss ` {..<n}"
proof -
  assume "0 < numNodes args"
  then have "i div blockSize args mod numNodes args < numNodes args" for i by simp
  then show ?thesis unfolding home_rows_def by blast
qed

section \<open>One node of a stage\<close>

definition node_ok :: "Args \<Rightarrow> RowValue list list \<Rightarrow> nat \<Rightarrow> nat \<Rightarrow> nat \<Rightarrow> nat set \<Rightarrow> nat set \<Rightarrow> Cluster \<Rightarrow> Linus \<Rightarrow> bool" where
  "node_ok args vss n np nu U P st li \<longleftrightarrow> commits_repr args vss n st (li_commits li) \<and> nrows (li_projects li) = np \<and>
     nrows (li_users li) = nu \<and> Set_repr (li_uSet li) nu U \<and> Set_repr (li_pSet li) np P"

lemma node_ok_keep:
  "node_ok args vss n np nu U P st li \<Longrightarrow> only_changes args cs st st' \<Longrightarrow> clear_of cs ''comts'' \<Longrightarrow> node_ok args vss n np nu U P st' li"
  unfolding node_ok_def using commits_keep by blast

lemma node_ok_same:
  "node_ok args vss n np nu U P st li \<Longrightarrow> cluster_val (numNodes args) st' = cluster_val (numNodes args) st \<Longrightarrow> node_ok args vss n np nu U P st' li"
  by (simp add: node_ok_def commits_repr_def)

lemma home_image:
  assumes "j < numNodes args" and "numNodes args < 2 ^ 64"
  shows "row_at vss ` set (filter (at_home args (of_nat j)) [0..<n]) = home_rows args vss n j"
  using at_home_iff [OF assms] by (auto simp: home_rows_def)

lemma tag_projects_ok:
  assumes li: "node_ok args vss n np nu U P st li" and D: "set_stored args (stage_name ''users-'' stage 0) m D st"
    and inv: "cluster_inv (numNodes args) j st" "j < numNodes args" and A: "sizes_ok args" "homes (\<lambda>k. home k < numNodes args) args"
  shows "\<exists>new li' st'. Linus_tag_projects args (cluster_get j) j stage (li, st) = Inr (new, li', st') \<and> cluster_inv (numNodes args) j st' \<and>
    cluster_val (numNodes args) st' = cluster_val (numNodes args) st \<and>
    node_ok args vss n np nu U (P \<union> (marks 1 0 nu D (home_rows args vss n j) \<inter> {..<np})) st' li' \<and>
    Set_repr new np (marks 1 0 nu D (home_rows args vss n j) \<inter> {..<np} - P)"
proof -
  have n: "numNodes args < 2 ^ 64" using inv(1) by (simp add: cluster_inv_def)
  have L: "commits_repr args vss n st (li_commits li)" "nrows (li_projects li) = np" "nrows (li_users li) = nu"
    "Set_repr (li_uSet li) nu U" "Set_repr (li_pSet li) np P" using li by (simp_all add: node_ok_def)
  obtain d0 where d0: "Set_of_frame (li_users li) = Inr d0" "Set_repr d0 nu {}" using Set_new_repr [of nu] L(3) by (auto simp: Set_of_frame_def)
  obtain d1 st1 where d1: "Linus_update args (cluster_get j) (Key_lit (stage_name ''users-'' stage 0) 0) (d0, st) = Inr (d1, st1)"
    "Set_repr d1 nu (D \<inter> {..<nu})" "cluster_inv (numNodes args) j st1" "cluster_val (numNodes args) st1 = cluster_val (numNodes args) st"
    using Linus_update_ok [OF D inv(1) A d0(2)] by auto
  obtain p0 where p0: "Set_of_frame (li_projects li) = Inr p0" "Set_repr p0 np {}" using Set_new_repr [of np] L(2) by (auto simp: Set_of_frame_def)
  have C: "frame_repr args (\<lambda>_. ''comts'') (cluster_val (numNodes args) st1) [Integer, Integer, Integer] vss (li_commits li)"
    "nrows (li_commits li) = n" "\<And>i. i < length [Integer, Integer, Integer] \<Longrightarrow> length (vss ! i) = n"
    using L(1) d1(4) by (auto simp: commits_repr_def)
  let ?is = "filter (at_home args (of_nat j)) [0..<n]" and ?M = "marks 1 0 nu D (home_rows args vss n j)"
  have m: "marks 1 0 nu (D \<inter> {..<nu}) (row_at vss ` set ?is) = ?M"
    unfolding home_image [OF inv(2) n] by (auto simp: marks_def)
  obtain p1 w1 where t: "fold (\<lambda>i. tag_see 1 0 d1 i (row_at vss i)) ?is (li_pSet li, p0) = (p1, w1)"
    "Set_repr p1 np (P \<union> (?M \<inter> {..<np}))" "Set_repr w1 np (?M \<inter> {..<np} - P)"
    using tag_fold [OF d1(2) L(5) p0(2), of 1 0 "row_at vss" ?is] unfolding m by auto
  have ok: "tag_ok d1 (li_pSet li, p0)" using Set_okI [OF d1(2)] Set_okI [OF L(5)] Set_okI [OF p0(2)] by (simp add: tag_ok_def)
  obtain df' st' where r: "local_map args (cluster_get j) (of_nat j) (ProjectsTagger_visit d1) ((li_pSet li, p0), li_commits li, st1) = Inr ((p1, w1), df', st')"
    "cluster_inv (numNodes args) j st'" "cluster_val (numNodes args) st' = cluster_val (numNodes args) st1"
    "frame_repr args (\<lambda>_. ''comts'') (cluster_val (numNodes args) st') [Integer, Integer, Integer] vss df'" "df_schema df' = df_schema (li_commits li)"
    using cluster_projects.local_map_repr [OF C(1,2) d1(3) A(2) C(3) ok A(1), of "of_nat j"] unfolding t(1) by auto
  let ?li = "li\<lparr>li_pSet := p1, li_commits := df'\<rparr>"
  have "Linus_tag_projects args (cluster_get j) j stage (li, st) = Inr (w1, ?li, st')"
    using d0(1) d1(1) p0(1) r(1) by (simp add: Linus_tag_projects_def merged_key_lit)
  moreover have "node_ok args vss n np nu U (P \<union> (?M \<inter> {..<np})) st' ?li"
    using L t(2) r(4,5) C(2,3) by (auto simp: node_ok_def commits_repr_def nrows_def)
  ultimately show ?thesis using t(3) r(2,3) d1(4) by auto
qed

lemma tag_users_ok:
  assumes li: "node_ok args vss n np nu U P st li" and w: "Set_repr w np N"
    and inv: "cluster_inv (numNodes args) j st" "j < numNodes args" and A: "sizes_ok args" "homes (\<lambda>k. home k < numNodes args) args"
  shows "\<exists>new li' st'. Linus_tag_users args (cluster_get j) j w (li, st) = Inr (new, li', st') \<and> cluster_inv (numNodes args) j st' \<and>
    cluster_val (numNodes args) st' = cluster_val (numNodes args) st \<and>
    node_ok args vss n np nu (U \<union> (marks 0 1 np N (home_rows args vss n j) \<inter> {..<nu})) (P \<union> N) st' li' \<and>
    Set_repr new nu (marks 0 1 np N (home_rows args vss n j) \<inter> {..<nu} - U)"
proof -
  have n: "numNodes args < 2 ^ 64" using inv(1) by (simp add: cluster_inv_def)
  have L: "commits_repr args vss n st (li_commits li)" "nrows (li_projects li) = np" "nrows (li_users li) = nu"
    "Set_repr (li_uSet li) nu U" "Set_repr (li_pSet li) np P" using li by (simp_all add: node_ok_def)
  have N: "N \<subseteq> {..<np}" using w by (simp add: Set_repr_def)
  obtain p1 where p1: "Set_union w (li_pSet li) = Inr p1" "Set_repr p1 np (P \<union> N)"
    using Set_union_repr [OF w L(5)] N by (auto simp: Int_absorb2)
  obtain u0 where u0: "Set_of_frame (li_users li) = Inr u0" "Set_repr u0 nu {}" using Set_new_repr [of nu] L(3) by (auto simp: Set_of_frame_def)
  have C: "frame_repr args (\<lambda>_. ''comts'') (cluster_val (numNodes args) st) [Integer, Integer, Integer] vss (li_commits li)"
    "nrows (li_commits li) = n" "\<And>i. i < length [Integer, Integer, Integer] \<Longrightarrow> length (vss ! i) = n"
    using L(1) by (auto simp: commits_repr_def)
  let ?is = "filter (at_home args (of_nat j)) [0..<n]" and ?M = "marks 0 1 np N (home_rows args vss n j)"
  obtain u1 w1 where t: "fold (\<lambda>i. tag_see 0 1 w i (row_at vss i)) ?is (li_uSet li, u0) = (u1, w1)"
    "Set_repr u1 nu (U \<union> (?M \<inter> {..<nu}))" "Set_repr w1 nu (?M \<inter> {..<nu} - U)"
    using tag_fold [OF w L(4) u0(2), of 0 1 "row_at vss" ?is] unfolding home_image [OF inv(2) n] by auto
  have ok: "tag_ok w (li_uSet li, u0)" using Set_okI [OF w] Set_okI [OF L(4)] Set_okI [OF u0(2)] by (simp add: tag_ok_def)
  obtain df' st' where r: "local_map args (cluster_get j) (of_nat j) (UsersTagger_visit w) ((li_uSet li, u0), li_commits li, st) = Inr ((u1, w1), df', st')"
    "cluster_inv (numNodes args) j st'" "cluster_val (numNodes args) st' = cluster_val (numNodes args) st"
    "frame_repr args (\<lambda>_. ''comts'') (cluster_val (numNodes args) st') [Integer, Integer, Integer] vss df'" "df_schema df' = df_schema (li_commits li)"
    using cluster_users.local_map_repr [OF C(1,2) inv(1) A(2) C(3) ok A(1), of "of_nat j"] unfolding t(1) by auto
  let ?li = "li\<lparr>li_pSet := p1, li_uSet := u1, li_commits := df'\<rparr>"
  have "Linus_tag_users args (cluster_get j) j w (li, st) = Inr (w1, ?li, st')"
    using p1(1) u0(1) r(1) by (simp add: Linus_tag_users_def)
  moreover have "node_ok args vss n np nu (U \<union> (?M \<inter> {..<nu})) (P \<union> N) st' ?li"
    using L t(2) p1(2) r(4,5) C(2,3) by (auto simp: node_ok_def commits_repr_def nrows_def)
  ultimately show ?thesis using t(3) r(2,3) by auto
qed

end
