(* ===== verification/LinusRound.thy ===== *)
theory LinusRound
  imports Linus
begin

text \<open>
  A stage of the Linus application on a whole cluster. The parts of the nodes run in an order the
  waiting allows: the other nodes mark projects and publish them, node 0 collects and publishes
  the union, the others read it, and the same again with the users. \<open>world\<close> says what every node
  holds and what is in the store; each part is one step on it.
\<close>

section \<open>The parts in order\<close>

definition others ::
    "Args \<Rightarrow> (nat \<Rightarrow> Set \<Rightarrow> Linus \<times> Cluster \<Rightarrow> (Set \<times> Linus \<times> Cluster) res) \<Rightarrow>
     (nat \<Rightarrow> Set) \<times> (nat \<Rightarrow> Linus) \<times> Cluster \<Rightarrow> ((nat \<Rightarrow> Set) \<times> (nat \<Rightarrow> Linus) \<times> Cluster) res" where
  "others args part =
     res_fold (\<lambda>j (news, lis, st). res_bind (part j (news j) (lis j, st)) (\<lambda>(new, li, st). Inr (news(j := new), lis(j := li), st)))
       [1..<numNodes args]"

definition first_part :: "Args \<Rightarrow> nat \<Rightarrow> nat \<Rightarrow> Set \<Rightarrow> Linus \<times> Cluster \<Rightarrow> (Set \<times> Linus \<times> Cluster) res" where
  "first_part args stage j = (\<lambda>_ lst.
     res_bind (Linus_tag_projects args (cluster_get j) j stage lst) (\<lambda>(new, li, st).
     res_bind (Linus_send args (cluster_put j) j ''projects-'' stage (new, st)) (\<lambda>st. Inr (new, li, st))))"

definition second_part :: "Args \<Rightarrow> nat \<Rightarrow> nat \<Rightarrow> Set \<Rightarrow> Linus \<times> Cluster \<Rightarrow> (Set \<times> Linus \<times> Cluster) res" where
  "second_part args stage j = (\<lambda>new (li, st).
     res_bind (Linus_receive args (cluster_get j) ''projects-'' stage (new, st)) (\<lambda>(new, st).
     res_bind (Linus_tag_users args (cluster_get j) j new (li, st)) (\<lambda>(new, li, st).
     res_bind (Linus_send args (cluster_put j) j ''users-'' (stage + 1) (new, st)) (\<lambda>st. Inr (new, li, st)))))"

definition third_part :: "Args \<Rightarrow> nat \<Rightarrow> nat \<Rightarrow> Set \<Rightarrow> Linus \<times> Cluster \<Rightarrow> (Set \<times> Linus \<times> Cluster) res" where
  "third_part args stage j = (\<lambda>new (li, st).
     res_bind (Linus_receive args (cluster_get j) ''users-'' (stage + 1) (new, st)) (\<lambda>(new, st).
     res_bind (Linus_end_stage new li) (\<lambda>li. Inr (new, li, st))))"

definition stage_run :: "Args \<Rightarrow> nat \<Rightarrow> (nat \<Rightarrow> Set) \<times> (nat \<Rightarrow> Linus) \<times> Cluster \<Rightarrow> ((nat \<Rightarrow> Set) \<times> (nat \<Rightarrow> Linus) \<times> Cluster) res" where
  "stage_run args stage nls =
     res_bind (others args (first_part args stage) nls) (\<lambda>(news, lis, st).
     res_bind (Linus_tag_projects args (cluster_get 0) 0 stage (lis 0, st)) (\<lambda>(new, li, st).
     res_bind (Linus_merge0 args (cluster_put 0) (cluster_get 0) ''projects-'' stage (new, st)) (\<lambda>(new, st).
     res_bind (others args (second_part args stage) (news, lis(0 := li), st)) (\<lambda>(news, lis, st).
     res_bind (Linus_tag_users args (cluster_get 0) 0 new (lis 0, st)) (\<lambda>(new, li, st).
     res_bind (Linus_merge0 args (cluster_put 0) (cluster_get 0) ''users-'' (stage + 1) (new, st)) (\<lambda>(new, st).
     res_bind (others args (third_part args stage) (news, lis(0 := li), st)) (\<lambda>(news, lis, st).
     res_bind (Linus_end_stage new (lis 0)) (\<lambda>li. Inr (news(0 := new), lis(0 := li), st)))))))))"

section \<open>What every node holds and what is stored\<close>

type_synonym shelf = "char list \<rightharpoonup> nat \<times> nat set"

definition stage_names :: "char list set" where
  "stage_names = {stage_name name stage i |name stage i. name \<in> {''projects-'', ''users-''}}"

definition world ::
    "Args \<Rightarrow> RowValue list list \<Rightarrow> nat \<Rightarrow> nat \<Rightarrow> nat \<Rightarrow> (nat \<Rightarrow> nat set) \<Rightarrow> (nat \<Rightarrow> nat set) \<Rightarrow> shelf \<Rightarrow> (nat \<Rightarrow> Linus) \<Rightarrow> Cluster \<Rightarrow> bool" where
  "world args vss n np nu uf pf F lis st \<longleftrightarrow> cluster_inv (numNodes args) 0 st \<and> 0 < blockSize args \<and> blockSize args < 2 ^ 64 \<and>
     np \<le> int_max \<and> nu \<le> int_max \<and> (\<forall>j < numNodes args. node_ok args vss n np nu (uf j) (pf j) st (lis j)) \<and>
     dom F \<subseteq> stage_names \<and> (\<forall>cs m S. F cs = Some (m, S) \<longrightarrow> set_stored args cs m S st)"

lemma worldD:
  assumes "world args vss n np nu uf pf F lis st"
  shows "j < numNodes args \<Longrightarrow> cluster_inv (numNodes args) j st" and "sizes_ok args" and "homes (\<lambda>k. home k < numNodes args) args"
    and "np \<le> int_max" and "nu \<le> int_max" and "j < numNodes args \<Longrightarrow> node_ok args vss n np nu (uf j) (pf j) st (lis j)"
    and "F cs = Some (m, S) \<Longrightarrow> set_stored args cs m S st" and "dom F \<subseteq> stage_names" and "0 < numNodes args" and "numNodes args < 2 ^ 64"
  using assms cluster_args [of args 0 st] by (auto simp: world_def cluster_inv_def)

lemma worldI:
  assumes "world args vss n np nu uf pf F lis st" and "cluster_inv (numNodes args) 0 st'"
    and "\<And>j. j < numNodes args \<Longrightarrow> node_ok args vss n np nu (uf' j) (pf' j) st' (lis' j)"
    and "dom F' \<subseteq> stage_names" and "\<And>cs m S. F' cs = Some (m, S) \<Longrightarrow> set_stored args cs m S st'"
  shows "world args vss n np nu uf' pf' F' lis' st'"
  using assms by (simp add: world_def)

lemma world_same:
  assumes w: "world args vss n np nu uf pf F lis st" and i: "cluster_inv (numNodes args) j st'"
    and v: "cluster_val (numNodes args) st' = cluster_val (numNodes args) st"
  shows "world args vss n np nu uf pf F lis st'"
proof -
  have "cluster_inv (numNodes args) 0 st'" using cluster_inv_node [OF i] i by (simp add: cluster_inv_def)
  then show ?thesis using w node_ok_same [OF _ v] set_stored_same [OF _ v] unfolding world_def by blast
qed

lemma stage_name_ok: "cs \<in> stage_names \<Longrightarrow> length cs < 2 ^ 32 \<Longrightarrow> cstr_ok cs"
  using to_string_no_nul by (auto simp: stage_names_def stage_name_def cstr_ok_def)

lemma stage_name_len:
  assumes "name \<in> {''projects-'', ''users-''}" and "stage < 2 ^ 32" and "i < 2 ^ 64"
  shows "length (stage_name name stage i) < 2 ^ 32"
proof -
  have "length (to_string stage) \<le> Suc 9" by (rule length_to_string) (use assms(2) in simp)
  moreover have "length (to_string i) \<le> Suc 19" by (rule length_to_string) (use assms(3) in simp)
  ultimately show ?thesis using assms(1) by (auto simp: stage_name_def)
qed

lemma stage_names_in: "name \<in> {''projects-'', ''users-''} \<Longrightarrow> stage_name name stage i \<in> stage_names"
  by (auto simp: stage_names_def)

lemma world_publish:
  assumes w: "world args vss n np nu uf pf F lis st" and j: "j < numNodes args" and s: "Set_repr s m S" "m \<le> int_max"
    and cs: "cs \<in> stage_names" "length cs < 2 ^ 32"
  shows "\<exists>st'. Linus_publish args (cluster_put j) (Key_lit cs 0) (s, st) = Inr st' \<and> world args vss n np nu uf pf (F(cs \<mapsto> (m, S))) lis st'"
proof -
  note W = worldD [OF w]
  obtain st' where 1: "Linus_publish args (cluster_put j) (Key_lit cs 0) (s, st) = Inr st'" "cluster_inv (numNodes args) j st'"
    "set_stored args cs m S st'" "only_changes args cs st st'"
    using Linus_publish_ok [OF W(1) [OF j] W(2,3) s stage_name_ok [OF cs] cs(2)] by blast
  have c: "clear_of cs ''comts''" using cs(1) comts_clear by (auto simp: stage_names_def)
  have d: "clear_of cs ds" if ds: "ds \<in> stage_names" "ds \<noteq> cs" for ds
  proof -
    obtain a x k where 1: "cs = stage_name a x k" "a \<in> {''projects-'', ''users-''}" using cs(1) unfolding stage_names_def by blast
    obtain b y l where 2: "ds = stage_name b y l" "b \<in> {''projects-'', ''users-''}" using ds(1) unfolding stage_names_def by blast
    have "(a, x, k) \<noteq> (b, y, l)" using ds(2) 1(1) 2(1) by blast
    from stage_clear [OF 1(2) 2(2) this] show ?thesis unfolding 1(1) 2(1) .
  qed
  have i: "cluster_inv (numNodes args) 0 st'" using cluster_inv_node [OF 1(2)] W(9) by simp
  have n: "node_ok args vss n np nu (uf i) (pf i) st' (lis i)" if "i < numNodes args" for i
    using node_ok_keep [OF W(6) [OF that] 1(4) c] .
  have f: "set_stored args ds m' S' st'" if "(F(cs \<mapsto> (m, S))) ds = Some (m', S')" for ds m' S'
  proof (cases "ds = cs")
    case True
    then show ?thesis using that 1(3) by simp
  next
    case False
    then have "F ds = Some (m', S')" using that by simp
    moreover from this have "ds \<in> stage_names" using W(8) by auto
    ultimately show ?thesis using set_stored_keep [OF W(7) 1(4)] d False by blast
  qed
  have "dom (F(cs \<mapsto> (m, S))) \<subseteq> stage_names" using W(8) cs(1) by simp
  then have "world args vss n np nu uf pf (F(cs \<mapsto> (m, S))) lis st'" using n f by (intro worldI [OF w i])
  with 1(1) show ?thesis by blast
qed

lemma world_update:
  assumes w: "world args vss n np nu uf pf F lis st" and j: "j < numNodes args" and f: "F cs = Some (m, S)" and s: "Set_repr s k T"
  shows "\<exists>s' st'. Linus_update args (cluster_get j) (Key_lit cs 0) (s, st) = Inr (s', st') \<and> Set_repr s' k (T \<union> (S \<inter> {..<k})) \<and>
    world args vss n np nu uf pf F lis st'"
proof -
  note W = worldD [OF w]
  obtain s' st' where 1: "Linus_update args (cluster_get j) (Key_lit cs 0) (s, st) = Inr (s', st')" "Set_repr s' k (T \<union> (S \<inter> {..<k}))"
    "cluster_inv (numNodes args) j st'" "cluster_val (numNodes args) st' = cluster_val (numNodes args) st"
    using Linus_update_ok [OF W(7) [OF f] W(1) [OF j] W(2,3) s] by blast
  with world_same [OF w 1(3,4)] show ?thesis by blast
qed

lemma world_node:
  assumes w: "world args vss n np nu uf pf F lis st" and j: "j < numNodes args" and i: "cluster_inv (numNodes args) j st'"
    and v: "cluster_val (numNodes args) st' = cluster_val (numNodes args) st" and li: "node_ok args vss n np nu U P st' li"
  shows "world args vss n np nu (uf(j := U)) (pf(j := P)) F (lis(j := li)) st'"
  using world_same [OF w i v] li by (auto simp: world_def)

text \<open>The marks of node \<open>j\<close>, for the projects and for the users.\<close>

definition proj_marks :: "Args \<Rightarrow> RowValue list list \<Rightarrow> nat \<Rightarrow> nat \<Rightarrow> nat \<Rightarrow> nat set \<Rightarrow> nat \<Rightarrow> nat set" where
  "proj_marks args vss n np nu D j = marks 1 0 nu D (home_rows args vss n j) \<inter> {..<np}"

definition user_marks :: "Args \<Rightarrow> RowValue list list \<Rightarrow> nat \<Rightarrow> nat \<Rightarrow> nat \<Rightarrow> nat set \<Rightarrow> nat \<Rightarrow> nat set" where
  "user_marks args vss n np nu N j = marks 0 1 np N (home_rows args vss n j) \<inter> {..<nu}"

lemma world_tag_projects:
  assumes w: "world args vss n np nu uf pf F lis st" and j: "j < numNodes args" and f: "F (stage_name ''users-'' stage 0) = Some (m, D)"
  shows "\<exists>new li st'. Linus_tag_projects args (cluster_get j) j stage (lis j, st) = Inr (new, li, st') \<and>
    world args vss n np nu uf (pf(j := pf j \<union> proj_marks args vss n np nu D j)) F (lis(j := li)) st' \<and>
    Set_repr new np (proj_marks args vss n np nu D j - pf j)"
proof -
  note W = worldD [OF w]
  obtain new li st' where 1: "Linus_tag_projects args (cluster_get j) j stage (lis j, st) = Inr (new, li, st')" "cluster_inv (numNodes args) j st'"
    "cluster_val (numNodes args) st' = cluster_val (numNodes args) st"
    "node_ok args vss n np nu (uf j) (pf j \<union> proj_marks args vss n np nu D j) st' li" "Set_repr new np (proj_marks args vss n np nu D j - pf j)"
    using tag_projects_ok [OF W(6) [OF j] W(7) [OF f] W(1) [OF j] j W(2,3)] unfolding proj_marks_def by blast
  from world_node [OF w j 1(2,3,4)] 1(1,5) show ?thesis by auto
qed

lemma world_tag_users:
  assumes w: "world args vss n np nu uf pf F lis st" and j: "j < numNodes args" and N: "Set_repr new np N"
  shows "\<exists>new' li st'. Linus_tag_users args (cluster_get j) j new (lis j, st) = Inr (new', li, st') \<and>
    world args vss n np nu (uf(j := uf j \<union> user_marks args vss n np nu N j)) (pf(j := pf j \<union> N)) F (lis(j := li)) st' \<and>
    Set_repr new' nu (user_marks args vss n np nu N j - uf j)"
proof -
  note W = worldD [OF w]
  obtain new' li st' where 1: "Linus_tag_users args (cluster_get j) j new (lis j, st) = Inr (new', li, st')" "cluster_inv (numNodes args) j st'"
    "cluster_val (numNodes args) st' = cluster_val (numNodes args) st"
    "node_ok args vss n np nu (uf j \<union> user_marks args vss n np nu N j) (pf j \<union> N) st' li" "Set_repr new' nu (user_marks args vss n np nu N j - uf j)"
    using tag_users_ok [OF W(6) [OF j] N W(1) [OF j] j W(2,3)] unfolding user_marks_def by blast
  from world_node [OF w j 1(2,3,4)] 1(1,5) show ?thesis by auto
qed

section \<open>The phases\<close>

lemma others_ok:
  assumes "I 1 news lis st" and "0 < numNodes args"
    and "\<And>k news lis st. 1 \<le> k \<Longrightarrow> k < numNodes args \<Longrightarrow> I k news lis st \<Longrightarrow>
      \<exists>new li st'. part k (news k) (lis k, st) = Inr (new, li, st') \<and> I (Suc k) (news(k := new)) (lis(k := li)) st'"
  shows "\<exists>news' lis' st'. others args part (news, lis, st) = Inr (news', lis', st') \<and> I (numNodes args) news' lis' st'"
proof -
  have "\<exists>t. others args part (news, lis, st) = Inr t \<and> (case t of (news, lis, st) \<Rightarrow> I (numNodes args) news lis st)"
    unfolding others_def
  proof (rule res_fold_upt [where P = "\<lambda>k (news, lis, st). I k news lis st"])
    fix k t
    assume k: "1 \<le> k" "k < numNodes args" "case t of (news, lis, st) \<Rightarrow> I k news lis st"
    obtain news lis st where t: "t = (news, lis, st)" by (cases t)
    have i: "I k news lis st" using k(3) by (simp add: t)
    obtain new li st' where
      "part k (news k) (lis k, st) = Inr (new, li, st')" "I (Suc k) (news(k := new)) (lis(k := li)) st'" using assms(3) [OF k(1,2) i] by blast
    then show "\<exists>t'. (case t of (news, lis, st) \<Rightarrow> res_bind (part k (news k) (lis k, st)) (\<lambda>(new, li, st). Inr (news(k := new), lis(k := li), st))) = Inr t' \<and>
        (case t' of (news, lis, st) \<Rightarrow> I (Suc k) news lis st)" unfolding t by simp
  qed (use assms(1,2) in auto)
  then show ?thesis by auto
qed

text \<open>A set that every node of a phase holds, below \<open>k\<close>; and the frames the nodes below \<open>k\<close> have published.\<close>

definition held :: "nat \<Rightarrow> nat \<Rightarrow> (nat \<Rightarrow> nat set) \<Rightarrow> (nat \<Rightarrow> Set) \<Rightarrow> bool" where
  "held k m S news \<longleftrightarrow> (\<forall>j. 1 \<le> j \<and> j < k \<longrightarrow> Set_repr (news j) m (S j))"

definition sent :: "nat \<Rightarrow> char list \<Rightarrow> nat \<Rightarrow> nat \<Rightarrow> (nat \<Rightarrow> nat set) \<Rightarrow> shelf \<Rightarrow> bool" where
  "sent k name stage m S F \<longleftrightarrow> (\<forall>j. 1 \<le> j \<and> j < k \<longrightarrow> F (stage_name name stage j) = Some (m, S j))"

lemma held_upd: "held k m S news \<Longrightarrow> Set_repr new m (S k) \<Longrightarrow> held (Suc k) m S (news(k := new))"
  by (auto simp: held_def less_Suc_eq)

lemma stage_name_inj: "stage_name name stage i = stage_name name stage j \<longleftrightarrow> i = j"
  using to_string_inj by (auto simp: stage_name_def inj_eq)

lemma sent_upd: "sent k name stage m S F \<Longrightarrow> sent (Suc k) name stage m S (F(stage_name name stage k \<mapsto> (m, S k)))"
  by (auto simp: sent_def less_Suc_eq stage_name_inj)

text \<open>Node 0 collects what was sent and publishes the union.\<close>

lemma world_merge0:
  assumes w: "world args vss n np nu uf pf F lis st" and s: "Set_repr s m (S 0)" "m \<le> int_max" and f: "sent (numNodes args) name stage m S F"
    and c: "name \<in> {''projects-'', ''users-''}" "stage < 2 ^ 32"
  shows "\<exists>s' st'. Linus_merge0 args (cluster_put 0) (cluster_get 0) name stage (s, st) = Inr (s', st') \<and>
    Set_repr s' m (\<Union>j < numNodes args. S j) \<and>
    world args vss n np nu uf pf (F(stage_name name stage 0 \<mapsto> (m, \<Union>j < numNodes args. S j))) lis st'"
proof -
  note W = worldD [OF w]
  have nul: "NUL \<notin> set name" using c(1) by auto
  let ?I = "\<lambda>k (s, st). Set_repr s m (\<Union>j < k. S j) \<and> world args vss n np nu uf pf F lis st"
  let ?f = "\<lambda>i sst. res_bind (node_key name stage i) (\<lambda>nK. Linus_update args (cluster_get 0) nK sst)"
  have "\<exists>t. res_fold ?f [1..<numNodes args] (s, st) = Inr t \<and> ?I (numNodes args) t"
  proof (rule res_fold_upt [where P = ?I])
    fix k t
    assume k: "1 \<le> k" "k < numNodes args" and t: "?I k t"
    obtain s1 st1 where e: "t = (s1, st1)" by (cases t)
    have i: "Set_repr s1 m (\<Union>j < k. S j)" "world args vss n np nu uf pf F lis st1" using t by (simp_all add: e)
    have fk: "F (stage_name name stage k) = Some (m, S k)" using f k by (simp add: sent_def)
    have sub: "S k \<subseteq> {..<m}" using worldD(7) [OF i(2) fk] by (simp add: set_stored_def)
    have u: "(\<Union>j < k. S j) \<union> (S k \<inter> {..<m}) = (\<Union>j < Suc k. S j)" using sub by (auto simp: less_Suc_eq)
    from world_update [OF i(2) W(9) fk i(1)] show "\<exists>t'. ?f k t = Inr t' \<and> ?I (Suc k) t'"
      unfolding u by (auto simp: e node_key_lit [OF nul])
  qed (use s w W(9) in \<open>auto simp: lessThan_Suc\<close>)
  then obtain s1 st1 where 1: "res_fold ?f [1..<numNodes args] (s, st) = Inr (s1, st1)"
    "Set_repr s1 m (\<Union>j < numNodes args. S j)" "world args vss n np nu uf pf F lis st1" by auto
  from world_publish [OF 1(3) W(9) 1(2) s(2) stage_names_in [OF c(1)] stage_name_len [OF c], of 0]
  obtain st2 where "Linus_publish args (cluster_put 0) (Key_lit (stage_name name stage 0) 0) (s1, st1) = Inr st2"
    "world args vss n np nu uf pf (F(stage_name name stage 0 \<mapsto> (m, \<Union>j < numNodes args. S j))) lis st2" by auto
  with 1 show ?thesis by (auto simp: Linus_merge0_def merged_key_lit [OF nul])
qed

text \<open>What the nodes below \<open>k\<close> hold already, and what the others still hold.\<close>

definition mid :: "nat \<Rightarrow> (nat \<Rightarrow> 'a) \<Rightarrow> (nat \<Rightarrow> 'a) \<Rightarrow> nat \<Rightarrow> 'a" where
  "mid k new old j = (if 1 \<le> j \<and> j < k then new j else old j)"

lemma mid_1 [simp]: "mid (Suc 0) f g = g"
  by (rule ext) (auto simp: mid_def)

lemma mid_upd: "1 \<le> k \<Longrightarrow> (mid k f g)(k := f k) = mid (Suc k) f g"
  by (rule ext) (auto simp: mid_def)

lemma mid_k [simp]: "mid k f g k = g k"
  by (simp add: mid_def)

lemma mid_0 [simp]: "mid k f g 0 = g 0"
  by (simp add: mid_def)

lemma world_cong:
  "world args vss n np nu uf pf F lis st \<Longrightarrow> (\<And>j. j < numNodes args \<Longrightarrow> uf j = uf' j) \<Longrightarrow> (\<And>j. j < numNodes args \<Longrightarrow> pf j = pf' j) \<Longrightarrow>
   world args vss n np nu uf' pf' F lis st"
  by (simp add: world_def)

text \<open>The first phase: every node but 0 marks projects from its rows and publishes the new ones.\<close>

lemma first_phase:
  fixes P U :: "nat set" and args :: Args and vss :: "RowValue list list" and n np nu m :: nat and D :: "nat set"
  defines "pm \<equiv> proj_marks args vss n np nu D"
  assumes w: "world args vss n np nu (\<lambda>_. U) (\<lambda>_. P) F lis st" and f: "F (stage_name ''users-'' stage 0) = Some (m, D)" and c: "stage < 2 ^ 32"
  shows "\<exists>news' lis' st' F'. others args (first_part args stage) (news, lis, st) = Inr (news', lis', st') \<and>
    world args vss n np nu (\<lambda>_. U) (mid (numNodes args) (\<lambda>j. P \<union> pm j) (\<lambda>_. P)) F' lis' st' \<and>
    F' (stage_name ''users-'' stage 0) = Some (m, D) \<and>
    held (numNodes args) np (\<lambda>j. pm j - P) news' \<and> sent (numNodes args) ''projects-'' stage np (\<lambda>j. pm j - P) F'"
proof -
  note W = worldD [OF w]
  let ?J = "\<lambda>k news lis st F. world args vss n np nu (\<lambda>_. U) (mid k (\<lambda>j. P \<union> pm j) (\<lambda>_. P)) F lis st \<and>
    F (stage_name ''users-'' stage 0) = Some (m, D) \<and> held k np (\<lambda>j. pm j - P) news \<and> sent k ''projects-'' stage np (\<lambda>j. pm j - P) F"
  have "\<exists>news' lis' st'. others args (first_part args stage) (news, lis, st) = Inr (news', lis', st') \<and>
    (\<exists>F. ?J (numNodes args) news' lis' st' F)"
  proof (rule others_ok [where I = "\<lambda>k news lis st. \<exists>F. ?J k news lis st F"])
    show "\<exists>F. ?J 1 news lis st F" using w f by (intro exI [of _ F]) (simp add: held_def sent_def)
    show "0 < numNodes args" using W(9) .
  next
    fix k news lis st
    assume k: "1 \<le> k" "k < numNodes args" and "\<exists>F. ?J k news lis st F"
    then obtain F where j: "?J k news lis st F" by blast
    obtain new li st1 where 1: "Linus_tag_projects args (cluster_get k) k stage (lis k, st) = Inr (new, li, st1)"
      "world args vss n np nu (\<lambda>_. U) (mid (Suc k) (\<lambda>j. P \<union> pm j) (\<lambda>_. P)) F (lis(k := li)) st1" "Set_repr new np (pm k - P)"
      using world_tag_projects [of args vss n np nu "\<lambda>_. U" "mid k (\<lambda>j. P \<union> pm j) (\<lambda>_. P)" F lis st k stage m D] j k(2)
        mid_upd [OF k(1), of "\<lambda>j. P \<union> pm j" "\<lambda>_. P"] unfolding pm_def by auto
    have len: "length (stage_name ''projects-'' stage k) < 2 ^ 32" using k(2) W(10) c by (intro stage_name_len) auto
    obtain st2 where 2: "Linus_publish args (cluster_put k) (Key_lit (stage_name ''projects-'' stage k) 0) (new, st1) = Inr st2"
      "world args vss n np nu (\<lambda>_. U) (mid (Suc k) (\<lambda>j. P \<union> pm j) (\<lambda>_. P)) (F(stage_name ''projects-'' stage k \<mapsto> (np, pm k - P))) (lis(k := li)) st2"
      using world_publish [OF 1(2) k(2) 1(3) W(4) stage_names_in len] by auto
    have "?J (Suc k) (news(k := new)) (lis(k := li)) st2 (F(stage_name ''projects-'' stage k \<mapsto> (np, pm k - P)))"
      using 2(2) j held_upd [of k np "\<lambda>j. pm j - P" news new] sent_upd [of k "''projects-''" stage np "\<lambda>j. pm j - P" F] 1(3)
      by (auto simp: stage_name_def)
    moreover have "first_part args stage k (news k) (lis k, st) = Inr (new, li, st2)"
      using 1(1) 2(1) by (simp add: first_part_def Linus_send_def node_key_lit)
    ultimately show "\<exists>new li st'. first_part args stage k (news k) (lis k, st) = Inr (new, li, st') \<and>
        (\<exists>F. ?J (Suc k) (news(k := new)) (lis(k := li)) st' F)" by blast
  qed
  then show ?thesis by blast
qed

text \<open>
  The second phase: every node but 0 reads the merged projects \<open>N\<close>, marks users and publishes the
  new ones.
\<close>

definition waiting :: "Args \<Rightarrow> nat \<Rightarrow> nat \<Rightarrow> (nat \<Rightarrow> nat set) \<Rightarrow> (nat \<Rightarrow> Set) \<Rightarrow> bool" where
  "waiting args k m S news \<longleftrightarrow> (\<forall>j. k \<le> j \<and> j < numNodes args \<longrightarrow> Set_repr (news j) m (S j))"

lemma waiting_upd: "waiting args k m S news \<Longrightarrow> waiting args (Suc k) m S (news(k := new))"
  by (simp add: waiting_def)

lemma second_phase:
  fixes P U N :: "nat set" and args :: Args and vss :: "RowValue list list" and n np nu :: nat and S :: "nat \<Rightarrow> nat set"
  defines "um \<equiv> user_marks args vss n np nu N"
  assumes w: "world args vss n np nu (\<lambda>_. U) pf F lis st" and f: "F (stage_name ''projects-'' stage 0) = Some (np, N)" and c: "stage < int_max"
    and h: "held (numNodes args) np S news" and sub: "\<And>j. j < numNodes args \<Longrightarrow> S j \<subseteq> N" and N: "N \<subseteq> {..<np}"
  shows "\<exists>news' lis' st' F'. others args (second_part args stage) (news, lis, st) = Inr (news', lis', st') \<and>
    world args vss n np nu (mid (numNodes args) (\<lambda>j. U \<union> um j) (\<lambda>_. U)) (mid (numNodes args) (\<lambda>j. pf j \<union> N) pf) F' lis' st' \<and>
    held (numNodes args) nu (\<lambda>j. um j - U) news' \<and> sent (numNodes args) ''users-'' (stage + 1) nu (\<lambda>j. um j - U) F'"
proof -
  note W = worldD [OF w]
  let ?uf = "\<lambda>k. mid k (\<lambda>j. U \<union> um j) (\<lambda>_. U)" and ?pf = "\<lambda>k. mid k (\<lambda>j. pf j \<union> N) pf"
  let ?J = "\<lambda>k news lis st F. world args vss n np nu (?uf k) (?pf k) F lis st \<and> F (stage_name ''projects-'' stage 0) = Some (np, N) \<and>
    waiting args k np S news \<and> held k nu (\<lambda>j. um j - U) news \<and> sent k ''users-'' (stage + 1) nu (\<lambda>j. um j - U) F"
  have "\<exists>news' lis' st'. others args (second_part args stage) (news, lis, st) = Inr (news', lis', st') \<and>
    (\<exists>F. ?J (numNodes args) news' lis' st' F)"
  proof (rule others_ok [where I = "\<lambda>k news lis st. \<exists>F. ?J k news lis st F"])
    show "\<exists>F. ?J 1 news lis st F" using w f h by (intro exI [of _ F]) (simp add: held_def sent_def waiting_def)
    show "0 < numNodes args" using W(9) .
  next
    fix k news lis st
    assume k: "1 \<le> k" "k < numNodes args" and "\<exists>F. ?J k news lis st F"
    then obtain F where j: "?J k news lis st F" by blast
    have e: "S k \<union> (N \<inter> {..<np}) = N" using sub [OF k(2)] N by auto
    have s: "Set_repr (news k) np (S k)" using j k(2) by (simp add: waiting_def)
    obtain s1 st1 where 1: "Linus_update args (cluster_get k) (Key_lit (stage_name ''projects-'' stage 0) 0) (news k, st) = Inr (s1, st1)"
      "Set_repr s1 np N" "world args vss n np nu (?uf k) (?pf k) F lis st1"
      using world_update [OF conjunct1 [OF j] k(2) conjunct1 [OF conjunct2 [OF j]] s] unfolding e by blast
    obtain new li st2 where 2: "Linus_tag_users args (cluster_get k) k s1 (lis k, st1) = Inr (new, li, st2)"
      "world args vss n np nu (?uf (Suc k)) (?pf (Suc k)) F (lis(k := li)) st2" "Set_repr new nu (um k - U)"
      using world_tag_users [OF 1(3) k(2) 1(2)] mid_upd [OF k(1), of "\<lambda>j. U \<union> um j" "\<lambda>_. U"] mid_upd [OF k(1), of "\<lambda>j. pf j \<union> N" pf]
      unfolding um_def by auto
    have len: "length (stage_name ''users-'' (stage + 1) k) < 2 ^ 32" using k(2) W(10) c by (intro stage_name_len) (auto simp: int_max_def)
    let ?F = "F(stage_name ''users-'' (stage + 1) k \<mapsto> (nu, um k - U))"
    obtain st3 where 3: "Linus_publish args (cluster_put k) (Key_lit (stage_name ''users-'' (stage + 1) k) 0) (new, st2) = Inr st3"
      "world args vss n np nu (?uf (Suc k)) (?pf (Suc k)) ?F (lis(k := li)) st3"
      using world_publish [OF 2(2) k(2) 2(3) W(5) stage_names_in len] by auto
    have "?J (Suc k) (news(k := new)) (lis(k := li)) st3 ?F"
      using 3(2) j held_upd [of k nu "\<lambda>j. um j - U" news new] sent_upd [of k "''users-''" "stage + 1" nu "\<lambda>j. um j - U" F] 2(3)
        waiting_upd [of args k np S news new]
      by (auto simp: stage_name_def)
    moreover have "second_part args stage k (news k) (lis k, st) = Inr (new, li, st3)"
      using 1(1) 2(1) 3(1) by (simp add: second_part_def Linus_receive_def merged_key_lit Linus_send_def node_key_lit)
    ultimately show "\<exists>new li st'. second_part args stage k (news k) (lis k, st) = Inr (new, li, st') \<and>
        (\<exists>F. ?J (Suc k) (news(k := new)) (lis(k := li)) st' F)" by blast
  qed
  then show ?thesis by blast
qed

text \<open>The third phase: every node but 0 reads the merged users \<open>N\<close> and ends the stage.\<close>

lemma world_end_stage:
  assumes w: "world args vss n np nu uf pf F lis st" and j: "j < numNodes args" and s: "Set_repr s nu N"
  shows "\<exists>li. Linus_end_stage s (lis j) = Inr li \<and> world args vss n np nu (uf(j := uf j \<union> N)) pf F (lis(j := li)) st"
proof -
  note W = worldD [OF w]
  have L: "node_ok args vss n np nu (uf j) (pf j) st (lis j)" using W(6) [OF j] .
  have N: "N \<inter> {..<nu} = N" using s by (auto simp: Set_repr_def)
  obtain u where u: "Set_union s (li_uSet (lis j)) = Inr u" "Set_repr u nu (uf j \<union> N)"
    using Set_union_repr [OF s, of "li_uSet (lis j)" nu "uf j"] L unfolding N by (auto simp: node_ok_def)
  have "node_ok args vss n np nu (uf j \<union> N) (pf j) st ((lis j)\<lparr>li_uSet := u\<rparr>)" using L u(2) by (simp add: node_ok_def)
  from world_node [OF w j W(1) [OF j] refl this] u(1) show ?thesis by (simp add: Linus_end_stage_def)
qed

lemma third_phase:
  fixes N :: "nat set" and args :: Args and S :: "nat \<Rightarrow> nat set"
  assumes w: "world args vss n np nu uf pf F lis st" and f: "F (stage_name ''users-'' (stage + 1) 0) = Some (nu, N)"
    and h: "held (numNodes args) nu S news" and sub: "\<And>j. j < numNodes args \<Longrightarrow> S j \<subseteq> N" and N: "N \<subseteq> {..<nu}"
  shows "\<exists>news' lis' st'. others args (third_part args stage) (news, lis, st) = Inr (news', lis', st') \<and>
    world args vss n np nu (mid (numNodes args) (\<lambda>j. uf j \<union> N) uf) pf F lis' st'"
proof -
  note W = worldD [OF w]
  let ?uf = "\<lambda>k. mid k (\<lambda>j. uf j \<union> N) uf"
  let ?J = "\<lambda>k news lis st. world args vss n np nu (?uf k) pf F lis st \<and> waiting args k nu S news"
  have "\<exists>news' lis' st'. others args (third_part args stage) (news, lis, st) = Inr (news', lis', st') \<and> ?J (numNodes args) news' lis' st'"
  proof (rule others_ok [where I = ?J])
    show "?J 1 news lis st" using w h by (simp add: held_def waiting_def)
    show "0 < numNodes args" using W(9) .
  next
    fix k news lis st
    assume k: "1 \<le> k" "k < numNodes args" and j: "?J k news lis st"
    have e: "S k \<union> (N \<inter> {..<nu}) = N" using sub [OF k(2)] N by auto
    have s: "Set_repr (news k) nu (S k)" using j k(2) by (simp add: waiting_def)
    obtain s1 st1 where 1: "Linus_update args (cluster_get k) (Key_lit (stage_name ''users-'' (stage + 1) 0) 0) (news k, st) = Inr (s1, st1)"
      "Set_repr s1 nu N" "world args vss n np nu (?uf k) pf F lis st1"
      using world_update [OF conjunct1 [OF j] k(2) f s] unfolding e by blast
    obtain li where 2: "Linus_end_stage s1 (lis k) = Inr li" "world args vss n np nu (?uf (Suc k)) pf F (lis(k := li)) st1"
      using world_end_stage [OF 1(3) k(2) 1(2)] mid_upd [OF k(1), of "\<lambda>j. uf j \<union> N" uf] by auto
    have "third_part args stage k (news k) (lis k, st) = Inr (s1, li, st1)"
      using 1(1) 2(1) by (simp add: third_part_def Linus_receive_def merged_key_lit)
    with 2(2) waiting_upd j show "\<exists>new li st'. third_part args stage k (news k) (lis k, st) = Inr (new, li, st') \<and>
        ?J (Suc k) (news(k := new)) (lis(k := li)) st'" by blast
  qed
  then show ?thesis by blast
qed

section \<open>A stage\<close>

text \<open>The projects and users a stage adds, from all the rows of the commits.\<close>

definition new_projects :: "RowValue list set \<Rightarrow> nat \<Rightarrow> nat \<Rightarrow> nat set \<Rightarrow> nat set \<Rightarrow> nat set" where
  "new_projects rows np nu D P = marks 1 0 nu D rows \<inter> {..<np} - P"

definition new_users :: "RowValue list set \<Rightarrow> nat \<Rightarrow> nat \<Rightarrow> nat set \<Rightarrow> nat set \<Rightarrow> nat set" where
  "new_users rows np nu N U = marks 0 1 np N rows \<inter> {..<nu} - U"

lemma marks_UN: "marks sc tc m A (\<Union>j \<in> J. R j) = (\<Union>j \<in> J. marks sc tc m A (R j))"
  by (auto simp: marks_def)

lemma all_marks:
  assumes "0 < numNodes args"
  shows "(\<Union>j < numNodes args. proj_marks args vss n np nu D j - P) = new_projects (row_at vss ` {..<n}) np nu D P"
    and "(\<Union>j < numNodes args. user_marks args vss n np nu N j - U) = new_users (row_at vss ` {..<n}) np nu N U"
  unfolding new_projects_def new_users_def proj_marks_def user_marks_def home_rows_all [OF assms, symmetric] marks_UN by blast+

text \<open>
  A stage adds, at every node, the projects that the users \<open>D\<close> of the last stage committed to, and
  then the users that committed to these; and it leaves the new users for the next stage.
\<close>

lemma stage_ok:
  fixes P U D :: "nat set" and args :: Args and vss :: "RowValue list list" and n np nu m :: nat
  defines "N \<equiv> new_projects (row_at vss ` {..<n}) np nu D P"
  defines "V \<equiv> new_users (row_at vss ` {..<n}) np nu N U"
  assumes w: "world args vss n np nu (\<lambda>_. U) (\<lambda>_. P) F lis st" and f: "F (stage_name ''users-'' stage 0) = Some (m, D)" and c: "stage < int_max"
  shows "\<exists>news' lis' st' F'. stage_run args stage (news, lis, st) = Inr (news', lis', st') \<and>
    world args vss n np nu (\<lambda>_. U \<union> V) (\<lambda>_. P \<union> N) F' lis' st' \<and> F' (stage_name ''users-'' (stage + 1) 0) = Some (nu, V)"
proof -
  note W = worldD [OF w]
  let ?n = "numNodes args" and ?pm = "proj_marks args vss n np nu D" and ?um = "user_marks args vss n np nu N"
  have M: "(\<Union>j < ?n. ?pm j - P) = N" "(\<Union>j < ?n. ?um j - U) = V" using all_marks [OF W(9)] by (simp_all add: N_def V_def)
  then have new_in: "?pm j - P \<subseteq> N" "?um j - U \<subseteq> V" if "j < ?n" for j using that by blast+
  have len: "stage < 2 ^ 32" "stage + 1 < 2 ^ 32" using c by (simp_all add: int_max_def)
  obtain news1 lis1 st1 F1 where 1: "others args (first_part args stage) (news, lis, st) = Inr (news1, lis1, st1)"
    "world args vss n np nu (\<lambda>_. U) (mid ?n (\<lambda>j. P \<union> ?pm j) (\<lambda>_. P)) F1 lis1 st1"
    "F1 (stage_name ''users-'' stage 0) = Some (m, D)" "held ?n np (\<lambda>j. ?pm j - P) news1" "sent ?n ''projects-'' stage np (\<lambda>j. ?pm j - P) F1"
    using first_phase [OF w f len(1)] by blast
  obtain new2 li2 st2 where 2: "Linus_tag_projects args (cluster_get 0) 0 stage (lis1 0, st1) = Inr (new2, li2, st2)"
    "world args vss n np nu (\<lambda>_. U) ((mid ?n (\<lambda>j. P \<union> ?pm j) (\<lambda>_. P))(0 := P \<union> ?pm 0)) F1 (lis1(0 := li2)) st2" "Set_repr new2 np (?pm 0 - P)"
    using world_tag_projects [OF 1(2) W(9) 1(3)] by auto
  have w2: "world args vss n np nu (\<lambda>_. U) (\<lambda>j. P \<union> ?pm j) F1 (lis1(0 := li2)) st2"
    by (rule world_cong [OF 2(2)]) (simp_all add: mid_def)
  obtain new3 st3 where 3: "Linus_merge0 args (cluster_put 0) (cluster_get 0) ''projects-'' stage (new2, st2) = Inr (new3, st3)"
    "Set_repr new3 np N" "world args vss n np nu (\<lambda>_. U) (\<lambda>j. P \<union> ?pm j) (F1(stage_name ''projects-'' stage 0 \<mapsto> (np, N))) (lis1(0 := li2)) st3"
    using world_merge0 [where S = "\<lambda>j. ?pm j - P", OF w2 2(3) W(4) 1(5) _ len(1)] unfolding M by auto
  have N: "N \<subseteq> {..<np}" using 3(2) by (simp add: Set_repr_def)
  let ?pf = "\<lambda>j. P \<union> ?pm j" and ?F3 = "F1(stage_name ''projects-'' stage 0 \<mapsto> (np, N))"
  obtain news4 lis4 st4 F4 where 4: "others args (second_part args stage) (news1, lis1(0 := li2), st3) = Inr (news4, lis4, st4)"
    "world args vss n np nu (mid ?n (\<lambda>j. U \<union> ?um j) (\<lambda>_. U)) (mid ?n (\<lambda>j. ?pf j \<union> N) ?pf) F4 lis4 st4"
    "held ?n nu (\<lambda>j. ?um j - U) news4" "sent ?n ''users-'' (stage + 1) nu (\<lambda>j. ?um j - U) F4"
    using second_phase [OF 3(3) _ c 1(4) new_in(1) N] by auto
  obtain new5 li5 st5 where 5: "Linus_tag_users args (cluster_get 0) 0 new3 (lis4 0, st4) = Inr (new5, li5, st5)"
    "world args vss n np nu ((mid ?n (\<lambda>j. U \<union> ?um j) (\<lambda>_. U))(0 := U \<union> ?um 0)) ((mid ?n (\<lambda>j. ?pf j \<union> N) ?pf)(0 := ?pf 0 \<union> N)) F4 (lis4(0 := li5)) st5"
    "Set_repr new5 nu (?um 0 - U)"
    using world_tag_users [OF 4(2) W(9) 3(2)] by auto
  have w5: "world args vss n np nu (\<lambda>j. U \<union> ?um j) (\<lambda>_. P \<union> N) F4 (lis4(0 := li5)) st5"
    by (rule world_cong [OF 5(2)]) (use new_in(1) in \<open>auto simp: mid_def\<close>)
  obtain new6 st6 where 6: "Linus_merge0 args (cluster_put 0) (cluster_get 0) ''users-'' (stage + 1) (new5, st5) = Inr (new6, st6)"
    "Set_repr new6 nu V" "world args vss n np nu (\<lambda>j. U \<union> ?um j) (\<lambda>_. P \<union> N) (F4(stage_name ''users-'' (stage + 1) 0 \<mapsto> (nu, V))) (lis4(0 := li5)) st6"
    using world_merge0 [where S = "\<lambda>j. ?um j - U", OF w5 5(3) W(5) 4(4) _ len(2)] unfolding M by auto
  have V: "V \<subseteq> {..<nu}" using 6(2) by (simp add: Set_repr_def)
  let ?F6 = "F4(stage_name ''users-'' (stage + 1) 0 \<mapsto> (nu, V))"
  obtain news7 lis7 st7 where 7: "others args (third_part args stage) (news4, lis4(0 := li5), st6) = Inr (news7, lis7, st7)"
    "world args vss n np nu (mid ?n (\<lambda>j. U \<union> ?um j \<union> V) (\<lambda>j. U \<union> ?um j)) (\<lambda>_. P \<union> N) ?F6 lis7 st7"
    using third_phase [OF 6(3) _ 4(3) new_in(2) V, of stage] by auto
  obtain li8 where 8: "Linus_end_stage new6 (lis7 0) = Inr li8"
    "world args vss n np nu ((mid ?n (\<lambda>j. U \<union> ?um j \<union> V) (\<lambda>j. U \<union> ?um j))(0 := U \<union> ?um 0 \<union> V)) (\<lambda>_. P \<union> N) ?F6 (lis7(0 := li8)) st7"
    using world_end_stage [OF 7(2) W(9) 6(2)] by auto
  have w8: "world args vss n np nu (\<lambda>_. U \<union> V) (\<lambda>_. P \<union> N) ?F6 (lis7(0 := li8)) st7"
    by (rule world_cong [OF 8(2)]) (use new_in(2) in \<open>auto simp: mid_def\<close>)
  show ?thesis using 1(1) 2(1) 3(1) 4(1) 5(1) 6(1) 7(1) 8(1) w8 by (auto simp: stage_run_def)
qed

section \<open>All the stages\<close>

text \<open>\<open>run_\<close> after \<open>readInput\<close>: a stage for every degree of separation.\<close>

definition stages_run :: "Args \<Rightarrow> (nat \<Rightarrow> Set) \<times> (nat \<Rightarrow> Linus) \<times> Cluster \<Rightarrow> ((nat \<Rightarrow> Set) \<times> (nat \<Rightarrow> Linus) \<times> Cluster) res" where
  "stages_run args = res_fold (stage_run args) [0..<DEGREES]"

text \<open>The specification: the users and projects reached after \<open>k\<close> degrees of separation from the users \<open>D\<close>.\<close>

primrec reached :: "RowValue list set \<Rightarrow> nat \<Rightarrow> nat \<Rightarrow> nat set \<Rightarrow> nat \<Rightarrow> nat set \<times> nat set \<times> nat set" where
  "reached rows np nu D 0 = (D, {}, {})"
| "reached rows np nu D (Suc k) = (case reached rows np nu D k of (D', U, P) \<Rightarrow>
     let N = new_projects rows np nu D' P; V = new_users rows np nu N U in (V, U \<union> V, P \<union> N))"

lemma stages_ok:
  fixes news :: "nat \<Rightarrow> Set"
  assumes w: "world args vss n np nu (\<lambda>_. {}) (\<lambda>_. {}) F lis st" and f: "F (stage_name ''users-'' 0 0) = Some (m, D)"
    and r: "reached (row_at vss ` {..<n}) np nu D DEGREES = (V, U, P)"
  shows "\<exists>news' lis' st' F'. stages_run args (news, lis, st) = Inr (news', lis', st') \<and>
    world args vss n np nu (\<lambda>_. U) (\<lambda>_. P) F' lis' st'"
proof -
  let ?J = "\<lambda>k (news :: nat \<Rightarrow> Set, lis, st). \<exists>F V U P m. reached (row_at vss ` {..<n}) np nu D k = (V, U, P) \<and>
    world args vss n np nu (\<lambda>_. U) (\<lambda>_. P) F lis st \<and> F (stage_name ''users-'' k 0) = Some (m, V)"
  have "\<exists>t. res_fold (stage_run args) [0..<DEGREES] (news, lis, st) = Inr t \<and> ?J DEGREES t"
  proof (rule res_fold_upt [where P = ?J])
    show "?J 0 (news, lis, st)" using w f by auto
  next
    fix k t
    assume k: "k < DEGREES" and "?J k t"
    then obtain news lis st F V U P m where t: "t = (news, lis, st)" and j: "reached (row_at vss ` {..<n}) np nu D k = (V, U, P)"
      "world args vss n np nu (\<lambda>_. U) (\<lambda>_. P) F lis st" "F (stage_name ''users-'' k 0) = Some (m, V)" by (cases t) auto
    have "k < int_max" using k by (simp add: DEGREES_def int_max_def)
    from stage_ok [OF j(2,3) this, of news] show "\<exists>t'. stage_run args k t = Inr t' \<and> ?J (Suc k) t'"
      unfolding t using j(1) by (fastforce simp: Let_def)
  qed simp
  then show ?thesis unfolding stages_run_def using r by auto
qed

end
