(* ===== verification/SorerLaws.thy ===== *)
theory SorerLaws
  imports Sorer
begin

text \<open>
  What the scanners of \<open>sorer_helper.h\<close> compute, stated on the text of a field: the characters
  between \<open><\<close> and \<open>></\<close>. \<open>field_type\<close> is the type they infer for a text, \<open>field_value\<close> the value
  \<open>SorWriter\<close> reads from it, and \<open>field_at m s t\<close> says that a field with the text \<open>t\<close> begins at
  index \<open>s\<close> of the memory \<open>m\<close>.
\<close>

section \<open>Texts\<close>

definition lstrip :: "char list \<Rightarrow> char list" where
  "lstrip = dropWhile isspace"

definition rstrip :: "char list \<Rightarrow> char list" where
  "rstrip t = rev (dropWhile isspace (rev t))"

definition strip :: "char list \<Rightarrow> char list" where
  "strip t = rstrip (lstrip t)"

lemma rstrip_Nil [simp]: "rstrip [] = []"
  by (simp add: rstrip_def)

lemma rstrip_snoc: "rstrip (t @ [c]) = (if isspace c then rstrip t else t @ [c])"
  by (simp add: rstrip_def)

lemma rstrip_Cons: "\<not> isspace c \<Longrightarrow> rstrip (c # t) = c # rstrip t"
proof (induction t rule: rev_induct)
  case Nil
  then show ?case using rstrip_snoc [of "[]" c] by simp
next
  case (snoc d t)
  then show ?case using rstrip_snoc [of "c # t" d] rstrip_snoc [of t d] by simp
qed

lemma rstrip_prefix: "\<exists>sp. t = rstrip t @ sp \<and> (\<forall>c \<in> set sp. isspace c)"
proof (induction t rule: rev_induct)
  case (snoc d t)
  then obtain sp where "t = rstrip t @ sp" "\<forall>c \<in> set sp. isspace c" by blast
  then have "t @ [d] = rstrip t @ sp @ [d]" "isspace d \<Longrightarrow> \<forall>c \<in> set (sp @ [d]). isspace c" by auto
  then show ?case by (cases "isspace d") (use rstrip_snoc [of t d] in \<open>metis append_Nil2 empty_iff empty_set\<close>)+
qed simp

lemma lstrip_hd: "lstrip t \<noteq> [] \<Longrightarrow> \<not> isspace (hd (lstrip t))"
  by (simp add: lstrip_def hd_dropWhile)

lemma lstrip_drop: "lstrip t = drop (length (takeWhile isspace t)) t"
  by (simp add: lstrip_def dropWhile_eq_drop)

lemma length_lstrip: "length t = length (takeWhile isspace t) + length (lstrip t)"
  by (metis length_append lstrip_def takeWhile_dropWhile_id)

lemma strip_Nil_iff: "strip t = [] \<longleftrightarrow> lstrip t = []"
  using lstrip_hd [of t] by (cases "lstrip t") (auto simp: strip_def rstrip_Cons)

lemma strip_hd: "strip t \<noteq> [] \<Longrightarrow> hd (strip t) = hd (lstrip t) \<and> \<not> isspace (hd (strip t))"
  using lstrip_hd [of t] by (cases "lstrip t") (auto simp: strip_def rstrip_Cons)

text \<open>Characters that no number contains: what follows a stripped text in a file.\<close>

definition stops :: "char \<Rightarrow> bool" where
  "stops c \<longleftrightarrow> isspace c \<or> c = CHR ''>''"

lemma stops_simps:
  assumes "stops c"
  shows "\<not> isdigit c" and "\<not> isxdigit c" and "tolower c = c" and "\<not> islower c" and "c \<noteq> CHR ''.''" and "c \<noteq> CHR ''+''"
    and "c \<noteq> CHR ''-''" and "c \<noteq> CHR ''(''" and "c \<noteq> CHR '')''" and "c \<noteq> CHR ''_''" and "c \<noteq> CHR ''e''" and "c \<noteq> CHR ''p''"
    and "c \<notin> set ''infinity''" and "c \<notin> set ''nan''" and "c \<notin> set ''0x''"
  using assms by (auto simp: stops_def isspace_def isdigit_def isxdigit_def islower_def tolower_def)

lemma sign_len_stop: "stops c \<Longrightarrow> sign_len (s @ c # r) = sign_len s"
  by (cases s) (auto simp: stops_simps)

lemma is_minus_stop: "stops c \<Longrightarrow> is_minus (s @ c # r) = is_minus s"
  by (cases s) (auto simp: stops_simps)

lemma sign_len_le: "sign_len s \<le> length s"
  by (cases s) auto

lemma takeWhile_stop: "\<not> P c \<Longrightarrow> takeWhile P (s @ c # r) = takeWhile P s"
  by (rule takeWhile_tail)

lemma drop_stop: "n \<le> length s \<Longrightarrow> drop n (s @ x) = drop n s @ x"
  by simp

lemma starts_ci_stop: "tolower c \<notin> set w \<Longrightarrow> starts_ci w (s @ c # r) = starts_ci w s"
proof (cases "length w \<le> length s")
  case False
  assume c: "tolower c \<notin> set w"
  then obtain k where k: "length w - length s = Suc k" using False by (cases "length w - length s") auto
  have "take (length w) (s @ c # r) = s @ c # take k r" using False k by simp
  then have "\<not> starts_ci w (s @ c # r)" using c unfolding starts_ci_def by auto
  moreover have "\<not> starts_ci w s" using False unfolding starts_ci_def by (auto dest: arg_cong [of _ _ length])
  ultimately show ?thesis by simp
qed (simp add: starts_ci_def)

lemma starts_ci_length: "starts_ci w s \<Longrightarrow> length w \<le> length s"
  by (auto simp: starts_ci_def dest: arg_cong [of _ _ length])

lemma mantissa_len_stop:
  assumes "\<not> digit c" and "c \<noteq> CHR ''.''"
  shows "mantissa_len digit (s @ c # r) = mantissa_len digit s"
proof -
  have d: "drop (length (takeWhile digit s)) (s @ c # r) = drop (length (takeWhile digit s)) s @ c # r"
    by (rule drop_stop) (simp add: length_takeWhile_le)
  show ?thesis
    by (cases "drop (length (takeWhile digit s)) s") (simp_all add: mantissa_len_def takeWhile_stop assms d Let_def del: drop_append)
qed

lemma mantissa_len_le: "mantissa_len digit s \<le> length s"
proof -
  have "length (takeWhile digit s) \<le> length s" by (rule length_takeWhile_le)
  moreover have "length (takeWhile digit s) + 1 + length (takeWhile digit r) \<le> length s"
    if "drop (length (takeWhile digit s)) s = c # r" for c r
  proof -
    have "length s - length (takeWhile digit s) = Suc (length r)" using arg_cong [OF that, of length] by simp
    then show ?thesis using length_takeWhile_le [of digit r] by simp
  qed
  ultimately show ?thesis by (auto simp: mantissa_len_def Let_def split: list.splits)
qed

lemma exponent_len_stop: "stops c \<Longrightarrow> c \<noteq> e \<Longrightarrow> exponent_len e (s @ c # r) = exponent_len e s"
proof (cases s)
  case (Cons d t)
  assume c: "stops c"
  have "takeWhile isdigit (drop (sign_len t) (t @ c # r)) = takeWhile isdigit (drop (sign_len t) t)"
    using takeWhile_stop [of isdigit c "drop (sign_len t) t" r] stops_simps(1) [OF c] sign_len_le [of t] by simp
  then show ?thesis using c by (simp add: Cons exponent_len_def sign_len_stop)
qed (simp add: exponent_len_def stops_simps)

lemma nan_len_stop:
  assumes c: "stops c" and s: "3 \<le> length s"
  shows "nan_len (s @ c # r) = nan_len s"
proof -
  have d: "drop 3 (s @ c # r) = drop 3 s @ c # r" using s by (rule drop_stop)
  let ?P = "\<lambda>c. isdigit c \<or> islower (tolower c) \<or> c = CHR ''_''"
  have P: "\<not> ?P c" using stops_simps [OF c] by simp
  show ?thesis
  proof (cases "drop 3 s")
    case Nil
    then show ?thesis using stops_simps(8) [OF c] by (simp add: nan_len_def d del: drop_append)
  next
    case (Cons x t)
    have "(length (takeWhile ?P t) < length (t @ c # r) \<and> (t @ c # r) ! length (takeWhile ?P t) = CHR '')'') \<longleftrightarrow>
        (length (takeWhile ?P t) < length t \<and> t ! length (takeWhile ?P t) = CHR '')'')"
      using stops_simps(9) [OF c] length_takeWhile_le [of ?P t] by (auto simp: nth_append)
    then show ?thesis by (simp add: nan_len_def d Cons takeWhile_stop [where P = ?P, OF P] Let_def del: drop_append)
  qed
qed

lemma number_len_stop: "stops c \<Longrightarrow> number_len (s @ c # r) = number_len s"
proof -
  assume c: "stops c"
  note S = stops_simps [OF c]
  have w: "starts_ci w (s @ c # r) = starts_ci w s" if "w \<in> {''infinity'', ''inf'', ''nan'', ''0x''}" for w
    by (rule starts_ci_stop) (use that S in auto)
  have x: "mantissa_len isxdigit (drop 2 (s @ c # r)) = mantissa_len isxdigit (drop 2 s)"
    "exponent_len (CHR ''p'') (drop (2 + mantissa_len isxdigit (drop 2 s)) (s @ c # r)) =
      exponent_len (CHR ''p'') (drop (2 + mantissa_len isxdigit (drop 2 s)) s)" if "starts_ci ''0x'' s"
    using starts_ci_length [OF that] mantissa_len_stop [of isxdigit c "drop 2 s" r] mantissa_len_le [of isxdigit "drop 2 s"]
      exponent_len_stop [OF c, of "CHR ''p''"] S by simp_all
  have d: "exponent_len (CHR ''e'') (drop (mantissa_len isdigit s) (s @ c # r)) = exponent_len (CHR ''e'') (drop (mantissa_len isdigit s) s)"
    using mantissa_len_le [of isdigit s] exponent_len_stop [OF c, of "CHR ''e''"] S by simp
  show ?thesis
    unfolding number_len_def Let_def
    using w x d mantissa_len_stop [of isdigit c s r] S nan_len_stop [OF c] starts_ci_length [of "''nan''" s]
    by (cases "starts_ci ''0x'' s") auto
qed

text \<open>A number ends before a character that stops it.\<close>

lemma no_space: "s \<noteq> [] \<Longrightarrow> \<not> isspace (hd s) \<Longrightarrow> takeWhile isspace (s @ x) = []"
  by (cases s) auto

lemma strtoll_stop:
  assumes "stops c" and "s \<noteq> []" and "\<not> isspace (hd s)"
  shows "strtoll (s @ c # r) = strtoll s"
  using sign_len_le [of s] takeWhile_stop [of isdigit c "drop (sign_len s) s" r] no_space [OF assms(2,3), of "[]"]
  by (simp add: strtoll_def no_space [OF assms(2,3)] sign_len_stop is_minus_stop [OF assms(1)] assms(1) stops_simps cong: if_cong)

lemma strtold_len_stop:
  assumes "stops c" and "s \<noteq> []" and "\<not> isspace (hd s)"
  shows "strtold_len (s @ c # r) = strtold_len s"
  using sign_len_le [of s] number_len_stop [OF assms(1), of "drop (sign_len s) s" r] no_space [OF assms(2,3), of "[]"]
  by (simp add: strtold_len_def no_space [OF assms(2,3)] sign_len_stop assms(1))

section \<open>Fields in memory\<close>

definition field_type :: "char list \<Rightarrow> DataType" where
  "field_type t =
     (let u = strip t in
      if u = [] then Boolean
      else if hd u = CHR 0x22 then Str
      else if u = ''0'' \<or> u = ''1'' then Boolean
      else if snd (strtoll u) = length u then Integer
      else if strtold_len u = length u then Double
      else if list_ex isspace u then Boolean else Str)"

text \<open>A text without its quotes.\<close>

definition unquote :: "char list \<Rightarrow> char list" where
  "unquote u =
     (let a = (if u \<noteq> [] \<and> hd u = CHR 0x22 then 1 else 0); b = (if u \<noteq> [] \<and> last u = CHR 0x22 then length u - 1 else length u)
      in take (b - a) (drop a u))"

fun field_value :: "(char list \<Rightarrow> u64) \<Rightarrow> DataType \<Rightarrow> char list \<Rightarrow> RowValue" where
  "field_value ldbl Integer t = IElem (word_of_int (fst (strtoll (lstrip t))))"
| "field_value ldbl Double t = DElem (ldbl (take (strtold_len (lstrip t)) (lstrip t)))"
| "field_value ldbl Boolean t = BElem (lstrip t \<noteq> [] \<and> hd (lstrip t) = CHR ''1'')"
| "field_value ldbl _ t = SElem (String_lit (unquote (strip t)))"

definition text_ok :: "char list \<Rightarrow> bool" where
  "text_ok t \<longleftrightarrow> CHR ''>'' \<notin> set t \<and> CHR 0x0A \<notin> set t \<and> NUL \<notin> set t"

definition field_at :: "char list \<Rightarrow> nat \<Rightarrow> char list \<Rightarrow> bool" where
  "field_at m s t \<longleftrightarrow> text_ok t \<and> length m < 2 ^ 31 \<and> (\<exists>pre post. m = pre @ CHR ''<'' # t @ CHR ''>'' # post \<and> length pre = s \<and> NUL \<in> set post)"

text \<open>The index of the closing bracket.\<close>

abbreviation field_end :: "nat \<Rightarrow> char list \<Rightarrow> nat" where
  "field_end s t \<equiv> s + 1 + length t"

lemma field_atE:
  assumes "field_at m s t"
  obtains pre post where "m = pre @ CHR ''<'' # t @ CHR ''>'' # post" and "length pre = s" and "NUL \<in> set post"
  using assms unfolding field_at_def by blast

lemma field_at_text:
  assumes "field_at m s t"
  shows "\<exists>post. drop (s + 1) m = t @ CHR ''>'' # post \<and> NUL \<in> set post" and "field_end s t < length m" and "field_end s t < 2 ^ 31"
    and "text_ok t"
proof -
  obtain pre post where m: "m = pre @ CHR ''<'' # t @ CHR ''>'' # post" "length pre = s" "NUL \<in> set post" using assms by (rule field_atE)
  then show "\<exists>post. drop (s + 1) m = t @ CHR ''>'' # post \<and> NUL \<in> set post" by auto
  show "field_end s t < length m" using m by auto
  then show "field_end s t < 2 ^ 31" "text_ok t" using assms by (simp_all add: field_at_def)
qed

lemma triml_from_eq: "i \<le> e \<Longrightarrow> e \<le> length m \<Longrightarrow> triml_from m i e = Inr (i + length (takeWhile isspace (take (e - i) (drop i m))))"
proof (induction m i e rule: triml_from.induct)
  case (1 m i e)
  show ?case
  proof (cases "i < e")
    case True
    then have d: "drop i m = m ! i # drop (Suc i) m" "take (e - i) (drop i m) = m ! i # take (e - Suc i) (drop (Suc i) m)"
      using 1(3) Cons_nth_drop_Suc [of i m] by (simp_all add: take_Cons' flip: Cons_nth_drop_Suc)
    have c: "char_at m i = Inr (m ! i)" using True 1(3) by (simp add: char_at_def)
    show ?thesis using 1(1) [OF True c] True 1(3) by (simp add: triml_from.simps [of m i e] c d(2))
  qed (use 1(2) in \<open>simp add: triml_from.simps [of m e e]\<close>)
qed

lemma trimr_from_eq:
  "s \<le> i \<Longrightarrow> i < length m \<Longrightarrow> trimr_from m s i = Inr (s + length (rstrip (take (i - s) (drop (s + 1) m))))"
proof (induction m s i rule: trimr_from.induct)
  case (1 m s i)
  show ?case
  proof (cases "s < i")
    case True
    have t: "take (i - s) (drop (s + 1) m) = take (i - 1 - s) (drop (s + 1) m) @ [m ! i]"
    proof -
      have "i - s = Suc (i - 1 - s)" using True by simp
      moreover have "drop (s + 1) m ! (i - 1 - s) = m ! i" using True 1(3) by simp
      ultimately show ?thesis using take_Suc_conv_app_nth [of "i - 1 - s" "drop (s + 1) m"] True 1(3) by simp
    qed
    have c: "char_at m i = Inr (m ! i)" using 1(3) by (simp add: char_at_def)
    show ?thesis
    proof (cases "isspace (m ! i)")
      case sp: True
      have "trimr_from m s (i - 1) = Inr (s + length (rstrip (take (i - 1 - s) (drop (s + 1) m))))"
        using 1(1) [OF True c] sp True 1(3) by simp
      then show ?thesis unfolding t rstrip_snoc using True sp by (simp add: trimr_from.simps [of m s i] c)
    next
      case False
      have "length (take (i - 1 - s) (drop (s + 1) m)) = i - 1 - s" using True 1(3) by simp
      then show ?thesis unfolding t rstrip_snoc using True False by (simp add: trimr_from.simps [of m s i] c)
    qed
  qed (use 1(2) in \<open>simp add: trimr_from.simps [of m i i]\<close>)
qed

lemma triml_field:
  assumes "field_at m s t"
  shows "triml m s (field_end s t) = Inr (s + 1 + length (takeWhile isspace t))"
proof -
  note F = field_at_text [OF assms]
  obtain post where d: "drop (s + 1) m = t @ CHR ''>'' # post" using F(1) by blast
  have "(s + 1) mod 2 ^ 64 = s + 1" using F(3) by simp
  then show ?thesis using triml_from_eq [of "s + 1" "field_end s t" m] F(2) unfolding d by (simp add: triml_def)
qed

text \<open>Both scanners on a text that is not all white space.\<close>

lemma strip_split:
  assumes "lstrip t = c # v"
  shows "strip t = c # rstrip v" and "length t = length (takeWhile isspace t) + 1 + length v"
proof -
  have "\<not> isspace c" using lstrip_hd [of t] assms by simp
  then show "strip t = c # rstrip v" using assms by (simp add: strip_def rstrip_Cons)
  show "length t = length (takeWhile isspace t) + 1 + length v" using length_lstrip [of t] assms by simp
qed

lemma drop_lstrip:
  assumes "field_at m s t"
  shows "\<exists>post. drop (s + 1 + length (takeWhile isspace t)) m = lstrip t @ CHR ''>'' # post \<and> NUL \<in> set post"
proof -
  obtain post where d: "drop (s + 1) m = t @ CHR ''>'' # post" "NUL \<in> set post" using field_at_text(1) [OF assms] by blast
  have "drop (s + 1 + length (takeWhile isspace t)) m = drop (length (takeWhile isspace t)) (drop (s + 1) m)" by (simp add: add.commute)
  also have "\<dots> = lstrip t @ CHR ''>'' # post" unfolding d(1) by (simp add: lstrip_drop length_takeWhile_le)
  finally show ?thesis using d(2) by blast
qed

lemma cstr_lstrip:
  assumes "field_at m s t"
  shows "\<exists>r. cstr_at m (s + 1 + length (takeWhile isspace t)) = Inr (lstrip t @ CHR ''>'' # r)"
proof -
  obtain post where d: "drop (s + 1 + length (takeWhile isspace t)) m = lstrip t @ CHR ''>'' # post" "NUL \<in> set post"
    using drop_lstrip [OF assms] by blast
  have "NUL \<notin> set (lstrip t)" using field_at_text(4) [OF assms] by (auto simp: text_ok_def lstrip_def dest: set_dropWhileD)
  then have "takeWhile (\<lambda>c. c \<noteq> NUL) (lstrip t @ CHR ''>'' # post) = lstrip t @ CHR ''>'' # takeWhile (\<lambda>c. c \<noteq> NUL) post"
    by (subst takeWhile_append2) auto
  with d show ?thesis by (auto simp: cstr_at_def)
qed

text \<open>What follows a stripped text in memory stops a number.\<close>

lemma lstrip_strip:
  assumes "lstrip t \<noteq> []"
  shows "\<exists>d r'. lstrip t @ CHR ''>'' # r = strip t @ d # r' \<and> stops d"
proof -
  obtain sp where sp: "lstrip t = strip t @ sp" "\<forall>c \<in> set sp. isspace c" using rstrip_prefix [of "lstrip t"] unfolding strip_def by blast
  then show ?thesis by (cases sp) (auto simp: stops_def)
qed

lemma char_lstrip:
  assumes "field_at m s t"
  shows "char_at m (s + 1 + length (takeWhile isspace t)) = Inr (hd (lstrip t @ ''>''))"
proof -
  obtain post where d: "drop (s + 1 + length (takeWhile isspace t)) m = lstrip t @ CHR ''>'' # post" using drop_lstrip [OF assms] by blast
  have "s + 1 + length (takeWhile isspace t) < length m" using d by (cases "s + 1 + length (takeWhile isspace t) < length m") auto
  moreover from this have "m ! (s + 1 + length (takeWhile isspace t)) = hd (drop (s + 1 + length (takeWhile isspace t)) m)"
    by (simp add: hd_drop_conv_nth)
  moreover have "hd (lstrip t @ CHR ''>'' # post) = hd (lstrip t @ ''>'')" by (cases "lstrip t") auto
  ultimately show ?thesis using d by (simp add: char_at_def)
qed

text \<open>The characters of a stripped text.\<close>

lemma nth_strip:
  assumes f: "field_at m s t" and i: "i < length (strip t)"
  shows "char_at m (s + 1 + length (takeWhile isspace t) + i) = Inr (strip t ! i)"
proof -
  have ne: "lstrip t \<noteq> []" using i strip_Nil_iff [of t] by auto
  obtain post where d: "drop (s + 1 + length (takeWhile isspace t)) m = lstrip t @ CHR ''>'' # post" using drop_lstrip [OF f] by blast
  obtain e r where e: "drop (s + 1 + length (takeWhile isspace t)) m = strip t @ e # r" unfolding d using lstrip_strip [OF ne] by metis
  have l: "s + 1 + length (takeWhile isspace t) + i < length m"
    using arg_cong [OF e, of length] i by simp
  have "m ! (s + 1 + length (takeWhile isspace t) + i) = drop (s + 1 + length (takeWhile isspace t)) m ! i" using l by simp
  also have "\<dots> = strip t ! i" unfolding e using i by (simp add: nth_append)
  finally show ?thesis using l by (simp add: char_at_def)
qed

lemma has_space_strip:
  assumes f: "field_at m s t"
  shows "k \<le> length (strip t) \<Longrightarrow> has_space m (map ((+) (s + 1 + length (takeWhile isspace t))) [length (strip t) - k..<length (strip t)]) =
    Inr (list_ex isspace (drop (length (strip t) - k) (strip t)))"
proof (induction k)
  case (Suc k)
  let ?n = "length (strip t)"
  have u: "[?n - Suc k..<?n] = (?n - Suc k) # [?n - k..<?n]" using Suc.prems by (simp add: upt_conv_Cons Suc_diff_Suc)
  have d: "drop (?n - Suc k) (strip t) = strip t ! (?n - Suc k) # drop (?n - k) (strip t)"
    using Suc.prems Cons_nth_drop_Suc [of "?n - Suc k" "strip t"] by (simp add: Suc_diff_Suc)
  have "char_at m (s + 1 + length (takeWhile isspace t) + (?n - Suc k)) = Inr (strip t ! (?n - Suc k))"
    by (rule nth_strip [OF f]) (use Suc.prems in simp)
  then show ?case using Suc.IH Suc.prems unfolding u d by simp
qed simp

lemma upt_shift: "[a..<a + n] = map ((+) a) [n - n..<n]"
  by (intro nth_equalityI) auto

lemma parse_field_type_eq:
  assumes f: "field_at m s t"
  shows "parse_field_type m s (field_end s t) = Inr (field_type t)"
proof (cases "lstrip t")
  case Nil
  then have s: "strip t = []" by (simp add: strip_Nil_iff)
  have "length (takeWhile isspace t) = length t" using length_lstrip [of t] Nil by simp
  then have "triml m s (field_end s t) = Inr (field_end s t)" using triml_field [OF f] by simp
  moreover have "trimr m (field_end s t) (field_end s t) = Inr (s + length t)"
    by (simp add: trimr_def trimr_from.simps [of m "Suc (s + length t)" "s + length t"])
  ultimately show ?thesis by (simp add: parse_field_type_def field_type_def s)
next
  case (Cons c v)
  let ?s = "s + 1 + length (takeWhile isspace t)" and ?u = "strip t"
  note F = field_at_text [OF f]
  note S = strip_split [OF Cons]
  have ne: "?u \<noteq> []" and hd: "hd ?u = c" "\<not> isspace (hd ?u)" using S(1) strip_hd [of t] by auto
  obtain post where d: "drop ?s m = (c # v) @ CHR ''>'' # post" using drop_lstrip [OF f] Cons by auto
  have v: "take (length v) (drop (?s + 1) m) = v"
    using arg_cong [OF d, of "drop 1"] by (simp add: add.commute)
  have "?s \<le> s + length t" "s + length t < length m" "s + length t - ?s = length v" using S(2) F(2) by auto
  then have "trimr m ?s (field_end s t) = Inr (?s + length (rstrip v))"
    using trimr_from_eq [of ?s "s + length t" m] v by (simp add: trimr_def)
  then have e: "trimr m ?s (field_end s t) = Inr (?s + (length ?u - 1))" using S(1) by simp
  have c: "char_at m ?s = Inr c" using char_lstrip [OF f] Cons by simp
  obtain r where "cstr_at m ?s = Inr (lstrip t @ CHR ''>'' # r)" using cstr_lstrip [OF f] by blast
  then obtain x r' where x: "cstr_at m ?s = Inr (?u @ x # r')" "stops x" using lstrip_strip [of t r] Cons by auto
  have n: "?s + (length ?u - 1) - ?s + 1 = length ?u" using ne by (cases ?u) auto
  have one: "(?s + (length ?u - 1) = ?s \<and> (c = CHR ''0'' \<or> c = CHR ''1'')) = (?u = ''0'' \<or> ?u = ''1'')"
    using S(1) by (cases "rstrip v") auto
  have "?s + (length ?u - 1) + 1 = ?s + length ?u" using ne by (cases ?u) auto
  then have "[?s..<?s + (length ?u - 1) + 1] = map ((+) ?s) [length ?u - length ?u..<length ?u]"
    using upt_shift [of ?s "length ?u"] by (simp only: )
  then have sp: "has_space m [?s..<?s + (length ?u - 1) + 1] = Inr (list_ex isspace ?u)"
    using has_space_strip [OF f, of "length ?u"] by simp
  show ?thesis
    unfolding parse_field_type_def triml_field [OF f] res_bind_simps e c x(1) n one sp strtoll_stop [OF x(2) ne hd(2)] strtold_len_stop [OF x(2) ne hd(2)]
    using ne hd(1) by (simp add: field_type_def Let_def)
qed

section \<open>Reading a value\<close>

text \<open>A number is no longer than its text.\<close>

lemma exponent_len_le: "exponent_len e s \<le> length s"
proof (cases s)
  case (Cons c r)
  have "length (takeWhile isdigit (drop (sign_len r) r)) \<le> length r - sign_len r" using length_takeWhile_le [of isdigit "drop (sign_len r) r"] by simp
  then show ?thesis using sign_len_le [of r] by (auto simp: exponent_len_def Cons Let_def)
qed (simp add: exponent_len_def)

lemma nan_len_le:
  assumes "3 \<le> length s"
  shows "nan_len s \<le> length s"
proof (cases "drop 3 s")
  case (Cons c r)
  have "length s - 3 = Suc (length r)" using arg_cong [OF Cons, of length] by simp
  then have "length s = 4 + length r" using assms by simp
  then show ?thesis by (simp add: nan_len_def Cons Let_def)
qed (use assms in \<open>simp add: nan_len_def\<close>)

lemma number_len_le: "number_len s \<le> length s"
proof -
  have "2 + mantissa_len isxdigit (drop 2 s) + exponent_len (CHR ''p'') (drop (2 + mantissa_len isxdigit (drop 2 s)) s) \<le> length s"
    if "starts_ci ''0x'' s"
    using starts_ci_length [OF that] mantissa_len_le [of isxdigit "drop 2 s"]
      exponent_len_le [of "CHR ''p''" "drop (2 + mantissa_len isxdigit (drop 2 s)) s"] by simp
  moreover have "mantissa_len isdigit s + exponent_len (CHR ''e'') (drop (mantissa_len isdigit s) s) \<le> length s"
    using mantissa_len_le [of isdigit s] exponent_len_le [of "CHR ''e''" "drop (mantissa_len isdigit s) s"] by simp
  moreover have "nan_len s \<le> length s" if "starts_ci ''nan'' s" using starts_ci_length [OF that] nan_len_le by simp
  moreover have "8 \<le> length s" if "starts_ci ''infinity'' s" using starts_ci_length [OF that] by simp
  moreover have "3 \<le> length s" if "starts_ci ''inf'' s" using starts_ci_length [OF that] by simp
  ultimately show ?thesis unfolding number_len_def Let_def by (simp del: add_2_eq_Suc add_2_eq_Suc')
qed

lemma strtold_len_le: "s \<noteq> [] \<Longrightarrow> \<not> isspace (hd s) \<Longrightarrow> strtold_len s \<le> length s"
proof -
  assume s: "s \<noteq> []" "\<not> isspace (hd s)"
  have "sign_len s + number_len (drop (sign_len s) s) \<le> length s"
    using number_len_le [of "drop (sign_len s) s"] sign_len_le [of s] unfolding length_drop by arith
  then show ?thesis using no_space [OF s, of "[]"] by (simp add: strtold_len_def Let_def)
qed

text \<open>A number read at the first character of the text that is not white space.\<close>

lemma number_lstrip:
  assumes "field_at m s t"
  shows "\<exists>x. cstr_at m (s + 1 + length (takeWhile isspace t)) = Inr x \<and> strtoll x = strtoll (lstrip t) \<and>
    take (strtold_len x) x = take (strtold_len (lstrip t)) (lstrip t)"
proof -
  obtain r where r: "cstr_at m (s + 1 + length (takeWhile isspace t)) = Inr (lstrip t @ CHR ''>'' # r)" using cstr_lstrip [OF assms] by blast
  have gt: "stops (CHR ''>'')" "\<not> isspace (CHR ''>'')" by (simp_all add: stops_def isspace_def)
  show ?thesis
  proof (cases "lstrip t = []")
    case True
    have "number_len [] = 0" by (simp add: number_len_def mantissa_len_def starts_ci_def)
    then have "strtold_len (CHR ''>'' # r) = 0" using number_len_stop [OF gt(1), of "[]" r] gt by (simp add: strtold_len_def stops_simps)
    moreover have "strtoll (CHR ''>'' # r) = strtoll []" using gt by (simp add: strtoll_def stops_simps)
    ultimately show ?thesis using r True by simp
  next
    case False
    note h = False lstrip_hd [OF False]
    show ?thesis using r strtoll_stop [OF gt(1) h] strtold_len_stop [OF gt(1) h] strtold_len_le [OF h] by simp
  qed
qed

lemma field_int:
  assumes "field_at m s t"
  shows "int_to_size_t (of_nat s) = s" and "int_to_size_t (of_nat (field_end s t)) = field_end s t"
proof -
  have "field_end s t \<le> int_max" using field_at_text(3) [OF assms] by (simp add: int_max_def)
  then show "int_to_size_t (of_nat s) = s" "int_to_size_t (of_nat (field_end s t)) = field_end s t"
    using int_to_size_t_of_nat [of s] int_to_size_t_of_nat [of "field_end s t"] by simp_all
qed

lemma get_numbers:
  assumes f: "field_at m s t"
  shows "get_int_field m (of_nat s) (of_nat (field_end s t)) = Inr (as_int (field_value ldbl Integer t))"
    and "get_double_field ldbl m (of_nat s) (of_nat (field_end s t)) = Inr (as_double (field_value ldbl Double t))"
    and "get_bool_field m (of_nat s) (of_nat (field_end s t)) = Inr (as_bool (field_value ldbl Boolean t))"
proof -
  obtain x where x: "cstr_at m (s + 1 + length (takeWhile isspace t)) = Inr x" "strtoll x = strtoll (lstrip t)"
    "take (strtold_len x) x = take (strtold_len (lstrip t)) (lstrip t)" using number_lstrip [OF f] by blast
  show "get_int_field m (of_nat s) (of_nat (field_end s t)) = Inr (as_int (field_value ldbl Integer t))"
    unfolding get_int_field_def field_int [OF f] triml_field [OF f] res_bind_simps x(1) by (simp add: x(2))
  show "get_double_field ldbl m (of_nat s) (of_nat (field_end s t)) = Inr (as_double (field_value ldbl Double t))"
    unfolding get_double_field_def field_int [OF f] triml_field [OF f] res_bind_simps x(1) by (simp add: x(3))
  show "get_bool_field m (of_nat s) (of_nat (field_end s t)) = Inr (as_bool (field_value ldbl Boolean t))"
    unfolding get_bool_field_def field_int [OF f] triml_field [OF f] res_bind_simps char_lstrip [OF f] by (cases "lstrip t") simp_all
qed

text \<open>The string between the quotes.\<close>

lemma trimr_field:
  assumes f: "field_at m s t"
  shows "trimr m s (field_end s t) = Inr (s + length (rstrip t))"
proof -
  obtain post where d: "drop (s + 1) m = t @ CHR ''>'' # post" using field_at_text(1) [OF f] by blast
  then show ?thesis using trimr_from_eq [of s "s + length t" m] field_at_text(2) [OF f] by (simp add: trimr_def)
qed

lemma rstrip_lstrip:
  assumes "lstrip t \<noteq> []"
  shows "length (rstrip t) = length (takeWhile isspace t) + length (strip t)"
proof -
  obtain sp where sp: "lstrip t = strip t @ sp" "\<forall>c \<in> set sp. isspace c" using rstrip_prefix [of "lstrip t"] unfolding strip_def by blast
  have ne: "strip t \<noteq> []" using assms strip_Nil_iff by blast
  have "\<not> isspace (last (rstrip u))" if "rstrip u \<noteq> []" for u
    using that hd_dropWhile [of isspace "rev u"] by (auto simp: rstrip_def last_rev)
  then have "\<not> isspace (last (strip t))" using ne by (simp add: strip_def)
  then have r: "dropWhile isspace (rev (strip t) @ x) = rev (strip t) @ x" for x
    using ne by (cases "rev (strip t)") (auto simp: hd_rev [symmetric])
  have "dropWhile isspace (rev sp @ x) = dropWhile isspace x" for x
    by (rule dropWhile_append2) (use sp(2) in simp)
  then have "rstrip (w @ lstrip t) = w @ strip t" for w unfolding rstrip_def sp(1) by (simp add: r)
  from this [of "takeWhile isspace t"] show ?thesis by (simp add: lstrip_def)
qed

text \<open>The loop that appends one character after the other.\<close>

lemma append_chars:
  assumes "\<And>i. i < length u \<Longrightarrow> char_at m (p + i) = Inr (u ! i)" and "NUL \<notin> set u" and "a \<le> b" and "b \<le> length u" and "StrBuff_repr str []"
  shows "\<exists>str'. res_fold (\<lambda>i str. res_bind (char_at m i) (\<lambda>c. StrBuff_c_cstr [c, NUL] str)) [p + a..<p + b] str = Inr str' \<and>
    StrBuff_repr str' (take (b - a) (drop a u))"
proof -
  let ?P = "\<lambda>i str. StrBuff_repr str (take (i - (p + a)) (drop a u))"
  have "\<exists>str'. res_fold (\<lambda>i str. res_bind (char_at m i) (\<lambda>c. StrBuff_c_cstr [c, NUL] str)) [p + a..<p + b] str = Inr str' \<and> ?P (p + b) str'"
  proof (rule res_fold_upt [where P = ?P])
    fix i str
    assume i: "p + a \<le> i" "i < p + b" and r: "?P i str"
    have j: "i - p < length u" "p + (i - p) = i" using i assms(4) by simp_all
    have "Suc i - (p + a) = Suc (i - (p + a))" "a + (i - (p + a)) = i - p" using i by simp_all
    then have t: "take (Suc i - (p + a)) (drop a u) = take (i - (p + a)) (drop a u) @ [u ! (i - p)]"
      using take_Suc_conv_app_nth [of "i - (p + a)" "drop a u"] j i assms(3,4) by simp
    have "u ! (i - p) \<noteq> NUL" using assms(2) nth_mem [OF j(1)] by metis
    then obtain str' where "StrBuff_c_cstr ([u ! (i - p)] @ NUL # []) str = Inr str'" "StrBuff_repr str' (take (Suc i - (p + a)) (drop a u))"
      using StrBuff_c_cstr_appends [OF r, of "[u ! (i - p)]" "[]"] unfolding t by auto
    moreover have "char_at m i = Inr (u ! (i - p))" using assms(1) [OF j(1)] j(2) by simp
    ultimately show "\<exists>t. res_bind (char_at m i) (\<lambda>c. StrBuff_c_cstr [c, NUL] str) = Inr t \<and> ?P (Suc i) t" by simp
  qed (use assms(3,5) in simp_all)
  then show ?thesis by simp
qed

text \<open>The rest of the function, for the bounds \<open>x\<close> and \<open>y\<close> of the loop.\<close>

lemma finish_string:
  assumes "res_fold (\<lambda>i str. res_bind (char_at m i) (\<lambda>c. StrBuff_c_cstr [c, NUL] str)) [x..<y + 1] StrBuff_new = Inr str"
    and "StrBuff_repr str cs" and "x < length m" and "y < length m"
  shows "res_bind (res_fold (\<lambda>i str. res_bind (char_at m i) (\<lambda>c. StrBuff_c_cstr [c, NUL] str)) [x..<y + 1] StrBuff_new) (\<lambda>str.
     res_bind (char_at m x) (\<lambda>c. res_bind (char_at m y) (\<lambda>d.
     res_bind (if c \<noteq> CHR 0x22 \<and> d \<noteq> CHR 0x22 then StrBuff_c_cstr [NUL] str else Inr str) (\<lambda>str.
     res_bind (StrBuff_get str) (\<lambda>(res, _). Inr res))))) = Inr (String_lit cs)"
proof -
  obtain str1 where "StrBuff_c_cstr [NUL] str = Inr str1" "StrBuff_repr str1 cs" using StrBuff_c_cstr_appends [OF assms(2), of "[]" "[]"] by auto
  then obtain str2 where "(if m ! x \<noteq> CHR 0x22 \<and> m ! y \<noteq> CHR 0x22 then StrBuff_c_cstr [NUL] str else Inr str) = Inr str2" "StrBuff_repr str2 cs"
    using assms(2) by (cases "m ! x \<noteq> CHR 0x22 \<and> m ! y \<noteq> CHR 0x22") auto
  moreover obtain b where "StrBuff_get str2 = Inr (String_lit cs, b)" using StrBuff_get_content [OF calculation(2)] by blast
  ultimately show ?thesis using assms(1,3,4) by (simp add: char_at_def)
qed

lemma get_string_field_eq:
  assumes f: "field_at m s t"
  shows "get_string_field m (of_nat s) (of_nat (field_end s t)) = Inr (String_lit (unquote (strip t)))"
proof (cases "lstrip t = []")
  case True
  note F = field_at_text [OF f]
  have k: "length (takeWhile isspace t) = length t" using length_lstrip [of t] True by simp
  have "\<forall>c \<in> set t. isspace c" using True by (simp add: lstrip_def)
  then have r: "rstrip t = []" by (simp add: rstrip_def)
  obtain pre post where m: "m = pre @ CHR ''<'' # t @ CHR ''>'' # post" "length pre = s" using f by (rule field_atE)
  then have lt: "char_at m s = Inr (CHR ''<'')" by (simp add: char_at_def nth_append)
  have gt: "char_at m (field_end s t) = Inr (CHR ''>'')" using char_lstrip [OF f] True k by simp
  have "StrBuff_repr StrBuff_new []" by (simp add: StrBuff_repr_def StrBuff_new_def)
  moreover have "strip t = []" using True strip_Nil_iff by blast
  ultimately show ?thesis
    using finish_string [of m "field_end s t" s StrBuff_new "[]"] F(2)
    unfolding get_string_field_def field_int [OF f] triml_field [OF f] trimr_field [OF f] res_bind_simps k r
    using lt gt True by (simp add: unquote_def Let_def)
next
  case False
  note F = field_at_text [OF f]
  let ?p = "s + 1 + length (takeWhile isspace t)" and ?u = "strip t"
  have ne: "?u \<noteq> []" using False strip_Nil_iff by blast
  have l: "length (rstrip t) = length (takeWhile isspace t) + length ?u" by (rule rstrip_lstrip [OF False])
  have lu: "length (rstrip t) \<le> length t" using rstrip_prefix [of t] by (metis length_append le_add1)
  have nn: "NUL \<notin> set ?u"
  proof -
    have "set ?u \<subseteq> set t" unfolding strip_def rstrip_def lstrip_def by (metis set_dropWhileD set_rev subsetI)
    then show ?thesis using F(4) by (auto simp: text_ok_def)
  qed
  define a where "a = (if hd ?u = CHR 0x22 then 1 else 0 :: nat)"
  define b where "b = (if last ?u = CHR 0x22 then length ?u - 1 else length ?u)"
  have c: "char_at m ?p = Inr (hd ?u)" using nth_strip [OF f, of 0] ne by (simp add: hd_conv_nth)
  have "s + length (rstrip t) = ?p + (length ?u - 1)" using l ne by (cases ?u) auto
  then have e: "trimr m s (field_end s t) = Inr (?p + (length ?u - 1))" using trimr_field [OF f] by simp
  have d: "char_at m (?p + (length ?u - 1)) = Inr (last ?u)" using nth_strip [OF f, of "length ?u - 1"] ne by (simp add: last_conv_nth)
  have ye: "(if last ?u = CHR 0x22 then size_dec (?p + (length ?u - 1)) else ?p + (length ?u - 1)) + 1 = ?p + b"
    using ne by (cases ?u) (auto simp: b_def size_dec_def)
  have xe: "(if hd ?u = CHR 0x22 then ?p + 1 else ?p) = ?p + a" by (simp add: a_def)
  have new: "StrBuff_repr StrBuff_new []" by (simp add: StrBuff_repr_def StrBuff_new_def)
  have "\<exists>str. res_fold (\<lambda>i str. res_bind (char_at m i) (\<lambda>c. StrBuff_c_cstr [c, NUL] str)) [?p + a..<?p + b] StrBuff_new = Inr str \<and>
      StrBuff_repr str (take (b - a) (drop a ?u))"
  proof (cases "a \<le> b")
    case True
    then show ?thesis using append_chars [OF nth_strip [OF f] nn True _ new] by (simp add: b_def)
  next
    case False
    then show ?thesis using new by simp
  qed
  then obtain str where str: "res_fold (\<lambda>i str. res_bind (char_at m i) (\<lambda>c. StrBuff_c_cstr [c, NUL] str)) [?p + a..<?p + b] StrBuff_new = Inr str"
    "StrBuff_repr str (unquote ?u)" unfolding unquote_def Let_def a_def b_def using ne by auto
  have "a \<le> 1" "b \<le> length ?u" "0 < length ?u" using ne by (simp_all add: a_def b_def)
  then have "?p + a < length m" "?p + b - 1 < length m" using l lu F(2) by linarith+
  moreover have y: "(if last ?u = CHR 0x22 then size_dec (?p + (length ?u - 1)) else ?p + (length ?u - 1)) = ?p + b - 1" using ye by simp
  ultimately show ?thesis
    unfolding get_string_field_def field_int [OF f] triml_field [OF f] e res_bind_simps c d Let_def xe y
    using finish_string [of m "?p + a" "?p + b - 1" str "unquote ?u"] str by (simp del: upt_Suc)
qed

end
