(* ===== verification/SorerFile.thy ===== *)
theory SorerFile
  imports SorerLaws
begin

text \<open>
  The layout of a \<open>.sor\<close> file and what the parser makes of it. A line is a list of fields, each
  after some junk, and a tail of junk; \<open>merge_types\<close> is the type inference, \<open>valid_line\<close> the choice
  of the lines that fit the schema.
\<close>

section \<open>Lines\<close>

type_synonym field = "char list \<times> char list"
type_synonym line = "field list \<times> char list"

definition junk_ok :: "char list \<Rightarrow> bool" where
  "junk_ok j \<longleftrightarrow> (\<forall>c \<in> set j. \<not> row_end c \<and> c \<noteq> CHR ''<'')"

fun enc_field :: "field \<Rightarrow> char list" where
  "enc_field (j, t) = j @ CHR ''<'' # t @ ''>''"

definition enc_fields :: "field list \<Rightarrow> char list" where
  "enc_fields fs = concat (map enc_field fs)"

fun enc_line :: "line \<Rightarrow> char list" where
  "enc_line (fs, tail) = enc_fields fs @ tail @ [CHR 0x0A]"

fun line_ok :: "line \<Rightarrow> bool" where
  "line_ok (fs, tail) \<longleftrightarrow> (\<forall>(j, t) \<in> set fs. junk_ok j \<and> text_ok t) \<and> junk_ok tail"

definition enc_lines :: "line list \<Rightarrow> char list" where
  "enc_lines ls = concat (map enc_line ls)"

definition line_texts :: "line \<Rightarrow> char list list" where
  "line_texts l = map snd (fst l)"

text \<open>Where the fields of a line begin, with their texts.\<close>

fun places :: "nat \<Rightarrow> field list \<Rightarrow> (nat \<times> char list) list" where
  "places i [] = []"
| "places i ((j, t) # fs) = (i + length j, t) # places (i + length (enc_field (j, t))) fs"

lemma enc_fields_simps [simp]: "enc_fields [] = []" "enc_fields (f # fs) = enc_field f @ enc_fields fs"
  by (simp_all add: enc_fields_def)

lemma enc_lines_simps [simp]: "enc_lines [] = []" "enc_lines (l # ls) = enc_line l @ enc_lines ls"
  by (simp_all add: enc_lines_def)

lemma places_texts [simp]: "map snd (places i fs) = map snd fs"
  by (induction i fs rule: places.induct) auto

lemma length_places [simp]: "length (places i fs) = length fs"
  by (induction i fs rule: places.induct) auto

section \<open>Scanning a line\<close>

lemma char_at_drop: "drop i m = c # r \<Longrightarrow> char_at m i = Inr c \<and> drop (i + 1) m = r"
  by (cases "i < length m") (auto simp: char_at_def Cons_nth_drop_Suc [symmetric])

lemma drop_more: "drop i m = x @ y \<Longrightarrow> drop (i + length x) m = y"
  by (metis add.commute append_eq_conv_conj drop_drop)

lemma scan_junk: "drop i m = j @ r \<Longrightarrow> junk_ok j \<Longrightarrow> scan_row m f i acc = scan_row m f (i + length j) acc"
proof (induction j arbitrary: i)
  case (Cons c j)
  have c: "char_at m i = Inr c" "drop (i + 1) m = j @ r" using char_at_drop [of i m c "j @ r"] Cons.prems(1) by auto
  have "scan_row m f i acc = scan_row m f (i + 1) acc"
    using Cons.prems(2) by (simp add: scan_row.simps [of m f i] c(1) junk_ok_def)
  also have "\<dots> = scan_row m f (i + 1 + length j) acc" using Cons.IH [OF c(2)] Cons.prems(2) by (simp add: junk_ok_def)
  finally show ?case by simp
qed simp

lemma find_close_text: "drop i m = t @ CHR ''>'' # r \<Longrightarrow> text_ok t \<Longrightarrow> find_close m i = Inr (i + length t)"
proof (induction t arbitrary: i)
  case Nil
  then show ?case using char_at_drop [of i m "CHR ''>''" r] by (simp add: find_close.simps [of m i])
next
  case (Cons c t)
  have c: "char_at m i = Inr c" "drop (i + 1) m = t @ CHR ''>'' # r" using char_at_drop [of i m c] Cons.prems(1) by auto
  have t: "c \<noteq> CHR ''>''" "c \<noteq> CHR 0x0A" "text_ok t" using Cons.prems(2) by (auto simp: text_ok_def)
  then show ?case using Cons.IH [OF c(2) t(3)] by (simp add: find_close.simps [of m i] c(1))
qed

lemma scan_fields:
  assumes "row_end c"
  shows "drop i m = enc_fields fs @ tail @ c # r \<Longrightarrow> line_ok (fs, tail) \<Longrightarrow>
    scan_row m f i acc = res_bind (res_fold (\<lambda>(s, t). f s (field_end s t)) (places i fs) acc) (\<lambda>acc. Inr (i + length (enc_fields fs @ tail), acc))"
proof (induction fs arbitrary: i acc)
  case Nil
  have "scan_row m f i acc = scan_row m f (i + length tail) acc" using Nil by (intro scan_junk) auto
  moreover have "char_at m (i + length tail) = Inr c"
    using char_at_drop [of "i + length tail" m c r] drop_more [of i m tail "c # r"] Nil(1) by simp
  ultimately show ?case using assms by (simp add: scan_row.simps [of m f "i + length tail"])
next
  case (Cons x fs)
  obtain j t where x: "x = (j, t)" by (cases x)
  let ?r = "enc_fields fs @ tail @ c # r" and ?i = "i + length j"
  have ok: "junk_ok j" "text_ok t" "line_ok (fs, tail)" using Cons.prems(2) by (auto simp: x)
  have d: "drop i m = j @ CHR ''<'' # t @ CHR ''>'' # ?r" using Cons.prems(1) by (simp add: x)
  have d1: "drop ?i m = CHR ''<'' # t @ CHR ''>'' # ?r" using drop_more [OF d] .
  have lt: "char_at m ?i = Inr (CHR ''<'')" "drop (?i + 1) m = t @ CHR ''>'' # ?r" using char_at_drop [OF d1] by auto
  have e: "find_close m (?i + 1) = Inr (field_end ?i t)" using find_close_text [OF lt(2) ok(2)] by simp
  have d2: "drop (field_end ?i t + 1) m = ?r" using drop_more [of "?i + 1" m "t @ ''>''" ?r] lt(2) by simp
  have "scan_row m f i acc = scan_row m f ?i acc" by (rule scan_junk [OF d ok(1)])
  also have "\<dots> = res_bind (f ?i (field_end ?i t) acc) (\<lambda>acc. scan_row m f (field_end ?i t + 1) acc)"
    using e by (simp add: scan_row.simps [of m f ?i] lt(1) row_end_def)
  also have "\<dots> = res_bind (f ?i (field_end ?i t) acc) (\<lambda>acc.
      res_bind (res_fold (\<lambda>(s, t). f s (field_end s t)) (places (field_end ?i t + 1) fs) acc) (\<lambda>acc.
      Inr (field_end ?i t + 1 + length (enc_fields fs @ tail), acc)))"
    unfolding Cons.IH [OF d2 ok(3)] ..
  finally show ?case by (simp add: x res_bind_assoc add.assoc)
qed

lemma places_at:
  "m = pre @ enc_fields fs @ r \<Longrightarrow> length pre = i \<Longrightarrow> NUL \<in> set r \<Longrightarrow> \<forall>(j, t) \<in> set fs. text_ok t \<Longrightarrow> length m < 2 ^ 31 \<Longrightarrow>
   (s, t) \<in> set (places i fs) \<Longrightarrow> field_at m s t"
proof (induction fs arbitrary: i pre)
  case (Cons x fs)
  obtain j u where x: "x = (j, u)" by (cases x)
  show ?case
  proof (cases "(s, t) = (i + length j, u)")
    case True
    have "m = (pre @ j) @ CHR ''<'' # u @ CHR ''>'' # (enc_fields fs @ r)" using Cons.prems(1) by (simp add: x)
    moreover have "NUL \<in> set (enc_fields fs @ r)" using Cons.prems(3) by simp
    moreover have "length (pre @ j) = s" using True Cons.prems(2) by simp
    ultimately show ?thesis using True Cons.prems(4,5) unfolding field_at_def by (fastforce simp: x)
  next
    case False
    then have "(s, t) \<in> set (places (i + length (enc_field x)) fs)" using Cons.prems(6) by (auto simp: x)
    moreover have "m = (pre @ enc_field x) @ enc_fields fs @ r" using Cons.prems(1) by simp
    moreover have "length (pre @ enc_field x) = i + length (enc_field x)" using Cons.prems(2) by simp
    ultimately show ?thesis using Cons.IH Cons.prems(3,4,5) by auto
  qed
qed simp

section \<open>The types of a line\<close>

definition line_types :: "line \<Rightarrow> DataType list" where
  "line_types l = map field_type (line_texts l)"

lemma parse_row_schema_eq:
  assumes m: "m = pre @ enc_line (fs, tail) @ r" "length pre = i" "NUL \<in> set r" "length m < 2 ^ 31" and ok: "line_ok (fs, tail)"
    and s: "Schema_repr sc []" "0 < sc_capCols sc"
  shows "\<exists>sc'. parse_row_schema m i sc = Inr (i + length (enc_fields fs @ tail), sc') \<and> Schema_repr sc' (line_types (fs, tail)) \<and> 0 < sc_capCols sc'"
proof -
  let ?f = "\<lambda>start field_end row_schema. res_bind (parse_field_type m start field_end) (\<lambda>t. Schema_add_column t row_schema)"
  have d: "drop i m = enc_fields fs @ tail @ CHR 0x0A # r" using m(1,2) by simp
  have at: "field_at m s t" if "(s, t) \<in> set (places i fs)" for s t
    by (rule places_at [OF _ m(2) _ _ m(4) that, of "tail @ CHR 0x0A # r"]) (use m ok in auto)
  have "res_fold (\<lambda>(s, t). ?f s (field_end s t)) (places i fs) sc = res_fold (\<lambda>p. Schema_add_column (field_type (snd p))) (places i fs) sc"
    by (rule res_fold_cong) (use parse_field_type_eq at in auto)
  also have "\<dots> = res_fold Schema_add_column (map field_type (map snd (places i fs))) sc" by (simp add: res_fold_map del: places_texts)
  also have "\<dots> = res_fold Schema_add_column (line_types (fs, tail)) sc" by (simp add: line_types_def line_texts_def)
  finally show ?thesis
    using Schema_add_columns_repr [OF s, of "line_types (fs, tail)"]
    unfolding parse_row_schema_def by (subst scan_fields [OF _ d ok]) (auto simp: row_end_def)
qed

section \<open>Type inference\<close>

fun merge_types :: "DataType list \<Rightarrow> DataType list \<Rightarrow> DataType list" where
  "merge_types [] ts = ts"
| "merge_types us [] = us"
| "merge_types (u # us) (t # ts) = max u t # merge_types us ts"

lemma merge_types_Nil [simp]: "merge_types us [] = us"
  by (cases us) auto

lemma length_merge_types [simp]: "length (merge_types us ts) = max (length us) (length ts)"
  by (induction us ts rule: merge_types.induct) auto

lemma nth_merge_types:
  "i < length us \<or> i < length ts \<Longrightarrow> merge_types us ts ! i =
    (if i < length us \<and> i < length ts then max (us ! i) (ts ! i) else if i < length us then us ! i else ts ! i)"
proof (induction us ts arbitrary: i rule: merge_types.induct)
  case (3 u us t ts)
  then show ?case by (cases i) auto
qed auto

lemma Schema_set_cap: "Schema_set i t s = Inr s' \<Longrightarrow> sc_capCols s' = sc_capCols s"
  by (auto simp: Schema_set_def res_bind_Inr_iff split: if_splits)

lemma merge_schema_eq:
  assumes c: "Schema_repr cur ts" and r: "Schema_repr res us" "0 < sc_capCols res"
  shows "\<exists>res'. merge_schema cur res = Inr res' \<and> Schema_repr res' (merge_types us ts) \<and> 0 < sc_capCols res'"
proof -
  let ?P = "\<lambda>j res. Schema_repr res (merge_types us (take j ts)) \<and> 0 < sc_capCols res"
  let ?f = "\<lambda>j result. res_bind (Schema_col_type j cur) (\<lambda>t.
        if j \<ge> length us then Schema_add_column t result
        else res_bind (Schema_col_type j result) (\<lambda>u. if u < t then Schema_set j t result else Inr result))"
  have w: "Schema_width cur = length ts" "Schema_width res = length us" using c r by (simp_all add: Schema_width_def Schema_repr_def)
  have "\<exists>res'. res_fold ?f [0..<length ts] res = Inr res' \<and> ?P (length ts) res'"
  proof (rule res_fold_upt [where P = ?P])
    fix j res
    assume j: "j < length ts" and p: "?P j res"
    have col: "Schema_col_type j cur = Inr (ts ! j)" using Schema_col_type_repr [OF c] j by simp
    show "\<exists>t. ?f j res = Inr t \<and> ?P (Suc j) t"
    proof (cases "length us \<le> j")
      case True
      have "merge_types us (take (Suc j) ts) = merge_types us (take j ts) @ [ts ! j]"
        using True j by (intro nth_equalityI) (auto simp: nth_merge_types nth_append less_Suc_eq)
      with Schema_add_column_repr [OF conjunct1 [OF p] conjunct2 [OF p], of "ts ! j"] True p col show ?thesis by fastforce
    next
      case False
      let ?us = "merge_types us (take j ts)"
      have u: "j < length ?us" "?us ! j = us ! j" using False j by (auto simp: nth_merge_types)
      have e: "merge_types us (take (Suc j) ts) = ?us[j := max (us ! j) (ts ! j)]"
        using False j by (intro nth_equalityI) (auto simp: nth_merge_types nth_list_update less_Suc_eq)
      have col2: "Schema_col_type j res = Inr (us ! j)" using Schema_col_type_repr [OF conjunct1 [OF p], of j] u by simp
      show ?thesis
      proof (cases "us ! j < ts ! j")
        case True
        obtain res' where "Schema_set j (ts ! j) res = Inr res'" "Schema_repr res' (?us[j := ts ! j])"
          using Schema_set_repr [OF conjunct1 [OF p] u(1), of "ts ! j"] by blast
        moreover have "merge_types us (take (Suc j) ts) = ?us[j := ts ! j]" unfolding e using True by simp
        ultimately show ?thesis using False True col col2 Schema_set_cap [of j "ts ! j" res res'] p by simp
      next
        case le: False
        then have "?us[j := max (us ! j) (ts ! j)] = ?us" using u(2) by (metis list_update_id max_def not_le order_antisym)
        then show ?thesis using False le col col2 p by (simp add: e)
      qed
    qed
  qed (use r in auto)
  then show ?thesis unfolding merge_schema_def Let_def w by simp
qed

definition infer_types :: "line list \<Rightarrow> DataType list" where
  "infer_types ls = foldl merge_types [] (map line_types (take 500 ls))"

lemma line_starts:
  assumes "drop i m = enc_line l @ r" and "line_ok l"
  shows "\<exists>c. char_at m i = Inr c \<and> \<not> file_end c \<and> (row_end c \<longleftrightarrow> l = ([], []))"
proof -
  obtain fs tail where l: "l = (fs, tail)" by (cases l)
  obtain c cs where c: "enc_line l = c # cs" unfolding l by (cases "enc_line (fs, tail)") auto
  have ok: "junk_ok tail" "\<And>j t fs'. fs = (j, t) # fs' \<Longrightarrow> junk_ok j" using assms(2) by (auto simp: l)
  have "\<not> file_end c \<and> (row_end c \<longleftrightarrow> l = ([], []))"
  proof (cases fs)
    case Nil
    then show ?thesis using c ok(1) by (cases tail) (auto simp: l junk_ok_def row_end_def file_end_def)
  next
    case (Cons f fs')
    obtain j t where f: "f = (j, t)" by (cases f)
    then show ?thesis using c ok(2) [OF Cons [unfolded f]] Cons by (cases j) (auto simp: l junk_ok_def row_end_def file_end_def)
  qed
  then show ?thesis using char_at_drop [of i m c "cs @ r"] assms(1) c by auto
qed

lemma parse_schema_lines_eq:
  assumes "length m < 2 ^ 31" and "NUL \<in> set (e # r)" and "file_end e"
  shows "m = pre @ enc_lines ls @ e # r \<Longrightarrow> \<forall>l \<in> set ls. line_ok l \<Longrightarrow>
    Schema_repr cur [] \<Longrightarrow> 0 < sc_capCols cur \<Longrightarrow> Schema_repr res us \<Longrightarrow> 0 < sc_capCols res \<Longrightarrow>
    \<exists>res'. parse_schema_lines m k (length pre) cur res = Inr res' \<and> Schema_repr res' (foldl merge_types us (map line_types (take k ls)))"
proof (induction k arbitrary: pre ls cur res us)
  case (Suc k)
  show ?case
  proof (cases ls)
    case Nil
    have "char_at m (length pre) = Inr e" using Suc.prems(1) by (simp add: Nil char_at_def)
    then show ?thesis using Suc.prems(5) assms(3) by (simp add: Nil)
  next
    case (Cons l ls')
    obtain fs tail where l: "l = (fs, tail)" by (cases l)
    have ok: "line_ok (fs, tail)" using Suc.prems(2) Cons l by simp
    let ?r = "enc_lines ls' @ e # r"
    have m: "m = pre @ enc_line (fs, tail) @ ?r" using Suc.prems(1) by (simp add: Cons l)
    obtain c where c: "char_at m (length pre) = Inr c" "\<not> file_end c" using line_starts [of "length pre" m "(fs, tail)" ?r] m ok by auto
    have nul: "NUL \<in> set ?r" using assms(2) by auto
    obtain cur1 where c1: "parse_row_schema m (length pre) cur = Inr (length pre + length (enc_fields fs @ tail), cur1)"
      "Schema_repr cur1 (line_types (fs, tail))" using parse_row_schema_eq [OF m refl nul assms(1) ok Suc.prems(3,4)] by blast
    obtain res1 where r1: "merge_schema cur1 res = Inr res1" "Schema_repr res1 (merge_types us (line_types (fs, tail)))" "0 < sc_capCols res1"
      using merge_schema_eq [OF c1(2) Suc.prems(5,6)] by blast
    have m1: "m = (pre @ enc_line (fs, tail)) @ enc_lines ls' @ e # r" using m by simp
    have len: "length pre + length (enc_fields fs @ tail) + 1 = length (pre @ enc_line (fs, tail))" by simp
    have "0 < sc_capCols (Schema_clear cur1)" by (simp add: Schema_clear_def)
    from Suc.IH [OF m1 _ Schema_repr_clear this r1(2,3)] Suc.prems(2) obtain res' where
      "parse_schema_lines m k (length (pre @ enc_line (fs, tail))) (Schema_clear cur1) res1 = Inr res'"
      "Schema_repr res' (foldl merge_types (merge_types us (line_types (fs, tail))) (map line_types (take k ls')))" by (auto simp: Cons)
    then show ?thesis using c c1(1) r1(1) len by (simp add: Cons l)
  qed
qed simp

lemma parse_schema_eq:
  assumes "m = enc_lines ls @ NUL # r" and "length m < 2 ^ 31" and "\<forall>l \<in> set ls. line_ok l"
  shows "\<exists>s. parse_schema m = Inr s \<and> Schema_repr s (infer_types ls)"
  using parse_schema_lines_eq [of m NUL r "[]" ls Schema_new Schema_new "[]" 500] assms
  by (simp add: parse_schema_def infer_types_def file_end_def Schema_new_def Schema_repr_def)

end
