(* ===== verification/SorerColumns.thy ===== *)
theory SorerColumns
  imports SorerFile
begin

text \<open>
  The columnar form of a file: a field array for every column with the bounds of the fields of the
  lines that fit the schema, and the writer that reads the values at these bounds. \<open>SorWriter\<close> keeps
  the contract \<open>row_writer\<close> of \<open>fromVisitor\<close>.
\<close>

section \<open>Field arrays are lists of pairs\<close>

definition fa_repr :: "FieldArray \<Rightarrow> (u32 \<times> u32) list \<Rightarrow> bool" where
  "fa_repr fa ps \<longleftrightarrow> fa_size fa = length ps \<and> 0 < fa_capacity fa \<and> length (fa_starts fa) = fa_capacity fa \<and>
     length (fa_ends fa) = fa_capacity fa \<and> holds (map fst ps) (fa_starts fa) \<and> holds (map snd ps) (fa_ends fa)"

lemma fa_repr_new [simp]: "fa_repr FieldArray_new []"
  by (simp add: fa_repr_def FieldArray_new_def)

lemma fa_repr_type [simp]: "fa_repr (FieldArray_set_type t fa) ps = fa_repr fa ps"
  by (simp add: fa_repr_def FieldArray_set_type_def)

lemma fa_repr_clear: "fa_repr fa ps \<Longrightarrow> fa_repr (FieldArray_clear fa) []"
  by (simp add: fa_repr_def FieldArray_clear_def)

lemma fa_repr_get:
  "fa_repr fa ps \<Longrightarrow> FieldArray_get_start i fa = Inr (if i < length ps then fst (ps ! i) else - 1) \<and>
    FieldArray_get_end i fa = Inr (if i < length ps then snd (ps ! i) else - 1)"
  using cell_load_holds [of "map fst ps" "fa_starts fa" i] cell_load_holds [of "map snd ps" "fa_ends fa" i]
  by (auto simp: fa_repr_def FieldArray_get_start_def FieldArray_get_end_def)

lemma fa_resize:
  assumes "fa_repr fa ps"
  shows "\<exists>fa'. FieldArray_resize fa = Inr fa' \<and> fa_repr fa' ps \<and> fa_capacity fa' = 2 * fa_capacity fa \<and> fa_type fa' = fa_type fa"
proof -
  let ?n = "length ps" and ?cap = "fa_capacity fa * 2"
  have A: "fa_size fa = ?n" "holds (map fst ps) (fa_starts fa)" "holds (map snd ps) (fa_ends fa)" "length (fa_starts fa) = fa_capacity fa"
    "0 < fa_capacity fa" using assms by (simp_all add: fa_repr_def)
  have n: "?n \<le> fa_capacity fa" using holds_length [OF A(2)] A(4) by simp
  let ?P = "\<lambda>i (ss, es). length ss = ?cap \<and> length es = ?cap \<and> holds (take i (map fst ps)) ss \<and> holds (take i (map snd ps)) es"
  have "\<exists>t. res_fold (\<lambda>i (ss, es).
          res_bind (cell_load (fa_starts fa) i) (\<lambda>s. res_bind (cell_store ss i s) (\<lambda>ss.
          res_bind (cell_load (fa_ends fa) i) (\<lambda>e. res_bind (cell_store es i e) (\<lambda>es. Inr (ss, es))))))
        [0..<?n] (new_cells ?cap, new_cells ?cap) = Inr t \<and> ?P ?n t"
  proof (rule res_fold_upt [where P = ?P])
    fix i t
    assume i: "i < ?n" and "?P i t"
    then obtain ss es where t: "t = (ss, es)" and p: "length ss = ?cap" "length es = ?cap" "holds (take i (map fst ps)) ss" "holds (take i (map snd ps)) es"
      by (cases t) auto
    have l: "cell_load (fa_starts fa) i = Inr (fst (ps ! i))" "cell_load (fa_ends fa) i = Inr (snd (ps ! i))"
      using cell_load_holds [OF A(2), of i] cell_load_holds [OF A(3), of i] i by simp_all
    have tk: "take (Suc i) (map fst ps) = take i (map fst ps) @ [fst (ps ! i)]" "take (Suc i) (map snd ps) = take i (map snd ps) @ [snd (ps ! i)]"
      using i by (simp_all add: take_Suc_conv_app_nth)
    obtain ss' where ss': "cell_store ss i (fst (ps ! i)) = Inr ss'" "holds (take (Suc i) (map fst ps)) ss'" "length ss' = ?cap"
      using cell_store_snoc [OF p(3), of "fst (ps ! i)"] p(1) i n A(5) unfolding tk by auto
    obtain es' where es': "cell_store es i (snd (ps ! i)) = Inr es'" "holds (take (Suc i) (map snd ps)) es'" "length es' = ?cap"
      using cell_store_snoc [OF p(4), of "snd (ps ! i)"] p(2) i n A(5) unfolding tk by auto
    show "\<exists>t'. (case t of (ss, es) \<Rightarrow> res_bind (cell_load (fa_starts fa) i) (\<lambda>s. res_bind (cell_store ss i s) (\<lambda>ss.
          res_bind (cell_load (fa_ends fa) i) (\<lambda>e. res_bind (cell_store es i e) (\<lambda>es. Inr (ss, es)))))) = Inr t' \<and> ?P (Suc i) t'"
      using l ss' es' by (simp add: t)
  qed auto
  then show ?thesis using A n by (auto simp: FieldArray_resize_def Let_def fa_repr_def)
qed

lemma fa_push:
  assumes "fa_repr fa ps"
  shows "\<exists>fa'. FieldArray_pushBack s e fa = Inr fa' \<and> fa_repr fa' (ps @ [(s, e)]) \<and> fa_type fa' = fa_type fa"
proof -
  have n: "length ps \<le> fa_capacity fa" "0 < fa_capacity fa" "fa_size fa = length ps"
    using assms holds_length [of "map fst ps" "fa_starts fa"] by (simp_all add: fa_repr_def)
  obtain fa1 where f: "(if fa_size fa = fa_capacity fa then FieldArray_resize fa else Inr fa) = Inr fa1" "fa_repr fa1 ps" "fa_type fa1 = fa_type fa"
    "length ps < fa_capacity fa1" using fa_resize [OF assms] assms n by (cases "fa_size fa = fa_capacity fa") auto
  have l: "length (fa_starts fa1) = fa_capacity fa1" "length (fa_ends fa1) = fa_capacity fa1" "holds (map fst ps) (fa_starts fa1)"
    "holds (map snd ps) (fa_ends fa1)" "fa_size fa1 = length ps" using f(2) by (simp_all add: fa_repr_def)
  obtain ss where ss: "cell_store (fa_starts fa1) (length ps) s = Inr ss" "holds (map fst ps @ [s]) ss" "length ss = fa_capacity fa1"
    using cell_store_snoc [OF l(3), of s] l(1) f(4) by auto
  obtain es where es: "cell_store (fa_ends fa1) (length ps) e = Inr es" "holds (map snd ps @ [e]) es" "length es = fa_capacity fa1"
    using cell_store_snoc [OF l(4), of e] l(2) f(4) by auto
  show ?thesis using f ss es l(5) n(2) by (auto simp: FieldArray_pushBack_def fa_repr_def)
qed

section \<open>The bounds of the fields of a line\<close>

text \<open>A field as \<open>pushBack\<close> gets it: its bounds, as \<open>int\<close>.\<close>

definition bounds :: "nat \<times> char list \<Rightarrow> u32 \<times> u32" where
  "bounds p = (of_nat (fst p), of_nat (field_end (fst p) (snd p)))"

lemma push_places:
  "fa_repr fa ps \<Longrightarrow> \<exists>fa'. res_fold (\<lambda>(s, t). FieldArray_pushBack (of_nat s) (of_nat (field_end s t))) qs fa = Inr fa' \<and> fa_repr fa' (ps @ map bounds qs)"
proof (induction qs arbitrary: fa ps)
  case (Cons q qs)
  obtain s t where q: "q = (s, t)" by (cases q)
  obtain fa1 where "FieldArray_pushBack (of_nat s) (of_nat (field_end s t)) fa = Inr fa1" "fa_repr fa1 (ps @ [bounds q])"
    using fa_push [OF Cons.prems, of "of_nat s" "of_nat (field_end s t)"] unfolding q bounds_def by auto
  with Cons.IH [OF this(2)] show ?case by (simp add: q)
qed simp

lemma parse_row_fields_eq:
  assumes "drop i m = enc_fields fs @ tail @ c # r" and "row_end c" and "line_ok (fs, tail)" and "fa_repr fa []"
  shows "\<exists>fa'. parse_row_fields m i fa = Inr (i + length (enc_fields fs @ tail), fa') \<and> fa_repr fa' (map bounds (places i fs))"
proof -
  obtain fa' where f: "res_fold (\<lambda>(s, t). FieldArray_pushBack (of_nat s) (of_nat (field_end s t))) (places i fs) fa = Inr fa'"
    "fa_repr fa' (map bounds (places i fs))" using push_places [OF assms(4), of "places i fs"] by auto
  show ?thesis unfolding parse_row_fields_def scan_fields [OF assms(2,1,3)] f(1) using f(2) by simp
qed

section \<open>The columns of a file\<close>

definition cols_repr :: "FieldArray list \<Rightarrow> nat \<Rightarrow> (nat \<times> char list) list list \<Rightarrow> bool" where
  "cols_repr fas n rows \<longleftrightarrow> length fas = n \<and> (\<forall>k < n. fa_repr (fas ! k) (map (\<lambda>ps. bounds (ps ! k)) rows))"

lemma new_columnar_eq:
  assumes "Schema_repr s ts"
  shows "\<exists>fas. new_columnar s = Inr fas \<and> cols_repr fas (length ts) []"
proof -
  let ?P = "\<lambda>k fas. cols_repr fas k []"
  have w: "Schema_width s = length ts" using assms by (simp add: Schema_width_def Schema_repr_def)
  have "\<exists>fas. res_fold (\<lambda>i fas. res_bind (Schema_col_type i s) (\<lambda>t. Inr (fas @ [FieldArray_set_type t FieldArray_new]))) [0..<length ts] [] = Inr fas \<and> ?P (length ts) fas"
    by (rule res_fold_upt [where P = ?P]) (auto simp: Schema_col_type_repr [OF assms] cols_repr_def nth_append less_Suc_eq)
  then show ?thesis unfolding new_columnar_def w .
qed

lemma push_row_eq:
  assumes c: "cols_repr fas n rows" and r: "fa_repr rf (map bounds ps)" and n: "length ps = n"
  shows "\<exists>fas'. push_row rf fas = Inr fas' \<and> cols_repr fas' n (rows @ [ps])"
proof -
  let ?P = "\<lambda>j fas. length fas = n \<and> (\<forall>k < n. fa_repr (fas ! k) (map (\<lambda>ps. bounds (ps ! k)) (if k < j then rows @ [ps] else rows)))"
  let ?f = "\<lambda>i columnar. res_bind (cell_load (map Some columnar) i) (\<lambda>fa. res_bind (FieldArray_get_start i rf) (\<lambda>s.
       res_bind (FieldArray_get_end i rf) (\<lambda>e. res_bind (FieldArray_pushBack s e fa) (\<lambda>fa. Inr (columnar[i := fa])))))"
  have "\<exists>fas'. res_fold ?f [0..<n] fas = Inr fas' \<and> ?P n fas'"
  proof (rule res_fold_upt [where P = ?P])
    fix j fas
    assume j: "j < n" and p: "?P j fas"
    have g: "FieldArray_get_start j rf = Inr (fst (bounds (ps ! j)))" "FieldArray_get_end j rf = Inr (snd (bounds (ps ! j)))"
      using fa_repr_get [OF r, of j] j n by simp_all
    have "fa_repr (fas ! j) (map (\<lambda>ps. bounds (ps ! j)) (if j < j then rows @ [ps] else rows))" using p j by blast
    then have "fa_repr (fas ! j) (map (\<lambda>ps. bounds (ps ! j)) rows)" by simp
    from fa_push [OF this, of "fst (bounds (ps ! j))" "snd (bounds (ps ! j))"] obtain fa' where
      fa': "FieldArray_pushBack (fst (bounds (ps ! j))) (snd (bounds (ps ! j))) (fas ! j) = Inr fa'"
      "fa_repr fa' (map (\<lambda>ps. bounds (ps ! j)) (rows @ [ps]))" by auto
    have "?f j fas = Inr (fas[j := fa'])" using p j g fa'(1) by (simp add: cell_load_def)
    moreover have "?P (Suc j) (fas[j := fa'])" using p j fa'(2) by (auto simp: nth_list_update less_Suc_eq)
    ultimately show "\<exists>t. ?f j fas = Inr t \<and> ?P (Suc j) t" by blast
  qed (use c in \<open>auto simp: cols_repr_def\<close>)
  then show ?thesis using c by (auto simp: push_row_def cols_repr_def)
qed

lemma all_types_le_eq:
  assumes "Schema_repr s ts" and "Schema_repr u us" and "length ts = length us"
  shows "\<forall>i \<in> set is. i < length us \<Longrightarrow> all_types_le s u is = Inr (\<forall>i \<in> set is. ts ! i \<le> us ! i)"
proof (induction "is")
  case (Cons i "is")
  then show ?case using Schema_col_type_repr [OF assms(1), of i] Schema_col_type_repr [OF assms(2), of i] assms(3) by auto
qed simp

definition fits :: "DataType list \<Rightarrow> DataType list \<Rightarrow> bool" where
  "fits us ts \<longleftrightarrow> list_all2 (\<le>) ts us"

lemma is_valid_row_eq: "Schema_repr s ts \<Longrightarrow> Schema_repr u us \<Longrightarrow> is_valid_row s u = Inr (fits us ts)"
  using all_types_le_eq [of s ts u us "[0..<length us]"]
  by (auto simp: is_valid_row_def fits_def list_all2_conv_all_nth Schema_width_def Schema_repr_def)

text \<open>The fields of the lines that fit the schema.\<close>

fun line_rows :: "DataType list \<Rightarrow> nat \<Rightarrow> line list \<Rightarrow> (nat \<times> char list) list list" where
  "line_rows us i [] = []"
| "line_rows us i (l # ls) =
     (if fits us (line_types l) then places i (fst l) # line_rows us (i + length (enc_line l)) ls else line_rows us (i + length (enc_line l)) ls)"

lemma line_rows_texts: "map (map snd) (line_rows us i ls) = map line_texts (filter (\<lambda>l. fits us (line_types l)) ls)"
  by (induction us i ls rule: line_rows.induct) (auto simp: line_texts_def)

lemma columnar_lines_eq:
  assumes "length m < 2 ^ 31" and "NUL \<in> set (e # r)" and "row_end e" and s: "Schema_repr schema us"
  shows "m = pre @ enc_lines ls @ e # r \<Longrightarrow> \<forall>l \<in> set ls. line_ok l \<and> l \<noteq> ([], []) \<Longrightarrow>
    Schema_repr row_types [] \<Longrightarrow> 0 < sc_capCols row_types \<Longrightarrow> fa_repr rf [] \<Longrightarrow> cols_repr fas (length us) rows \<Longrightarrow>
    \<exists>fas'. columnar_lines m schema (length pre) row_types rf fas = Inr (length (pre @ enc_lines ls), fas') \<and>
      cols_repr fas' (length us) (rows @ line_rows us (length pre) ls)"
proof (induction ls arbitrary: pre row_types rf fas rows)
  case Nil
  have "char_at m (length pre) = Inr e" using Nil.prems(1) by (simp add: char_at_def)
  then show ?case using Nil.prems(6) assms(3) by (simp add: columnar_lines.simps [of m schema "length pre"])
next
  case (Cons l ls')
  obtain fs tail where l: "l = (fs, tail)" by (cases l)
  have ok: "line_ok (fs, tail)" "l \<noteq> ([], [])" using Cons.prems(2) l by simp_all
  let ?r = "enc_lines ls' @ e # r" and ?i = "length pre"
  have m: "m = pre @ enc_line (fs, tail) @ ?r" using Cons.prems(1) by (simp add: l)
  obtain c where c: "char_at m ?i = Inr c" "\<not> row_end c" using line_starts [of ?i m "(fs, tail)" ?r] m ok l by auto
  have nul: "NUL \<in> set ?r" using assms(2) by auto
  obtain rt where c1: "parse_row_schema m ?i row_types = Inr (?i + length (enc_fields fs @ tail), rt)"
    "Schema_repr rt (line_types (fs, tail))" using parse_row_schema_eq [OF m refl nul assms(1) ok(1) Cons.prems(3,4)] by blast
  have v: "is_valid_row rt schema = Inr (fits us (line_types (fs, tail)))" using is_valid_row_eq [OF c1(2) s] .
  have d: "drop ?i m = enc_fields fs @ tail @ CHR 0x0A # ?r" using m by simp
  let ?rows = "if fits us (line_types (fs, tail)) then rows @ [places ?i fs] else rows"
  have "\<exists>rf1 fas1. (if fits us (line_types (fs, tail)) then res_bind (parse_row_fields m ?i rf) (\<lambda>(_, row_fields).
           res_bind (push_row row_fields fas) (\<lambda>columnar. Inr (FieldArray_clear row_fields, columnar))) else Inr (rf, fas)) = Inr (rf1, fas1) \<and>
      fa_repr rf1 [] \<and> cols_repr fas1 (length us) ?rows"
  proof (cases "fits us (line_types (fs, tail))")
    case True
    have "length (places ?i fs) = length us" using list_all2_lengthD [OF True [unfolded fits_def]] by (simp add: line_types_def line_texts_def)
    moreover obtain rf1 where "parse_row_fields m ?i rf = Inr (?i + length (enc_fields fs @ tail), rf1)" "fa_repr rf1 (map bounds (places ?i fs))"
      using parse_row_fields_eq [OF d _ ok(1) Cons.prems(5)] by (auto simp: row_end_def)
    ultimately show ?thesis using push_row_eq [OF Cons.prems(6)] fa_repr_clear True by fastforce
  qed (use Cons.prems(5,6) in simp)
  then obtain rf1 fas1 where p: "(if fits us (line_types (fs, tail)) then res_bind (parse_row_fields m ?i rf) (\<lambda>(_, row_fields).
           res_bind (push_row row_fields fas) (\<lambda>columnar. Inr (FieldArray_clear row_fields, columnar))) else Inr (rf, fas)) = Inr (rf1, fas1)"
    "fa_repr rf1 []" "cols_repr fas1 (length us) ?rows" by blast
  have m1: "m = (pre @ enc_line (fs, tail)) @ enc_lines ls' @ e # r" using m by simp
  have len: "?i + length (enc_fields fs @ tail) + 1 = length (pre @ enc_line (fs, tail))" by simp
  have cap: "0 < sc_capCols (Schema_clear rt)" by (simp add: Schema_clear_def)
  obtain fas' where "columnar_lines m schema (length (pre @ enc_line (fs, tail))) (Schema_clear rt) rf1 fas1 = Inr (length (pre @ enc_lines (l # ls')), fas')"
    "cols_repr fas' (length us) (?rows @ line_rows us (length (pre @ enc_line (fs, tail))) ls')"
    using Cons.IH [OF m1 _ Schema_repr_clear cap p(2,3)] Cons.prems(2) by (auto simp: l)
  moreover have "?rows @ line_rows us (length (pre @ enc_line (fs, tail))) ls' = rows @ line_rows us ?i (l # ls')" by (simp add: l)
  ultimately show ?case using c c1(1) v p(1) len by (simp add: columnar_lines.simps [of m schema ?i])
qed

end
