(* ===== verification/SorerProps.thy ===== *)
theory SorerProps
  imports SorerColumns
begin

text \<open>
  \<open>SorWriter\<close> keeps the contract of a writer of rows, and \<open>fromFile\<close> stores the frame of a file: the
  columns have the inferred types, the rows are the lines that fit them.
\<close>

section \<open>SorWriter writes the rows of the columnar form\<close>

definition row_values :: "(char list \<Rightarrow> u64) \<Rightarrow> DataType list \<Rightarrow> char list list \<Rightarrow> RowValue list" where
  "row_values ldbl us texts = map2 (field_value ldbl) us texts"

definition sw_repr :: "SorWriter \<Rightarrow> DataType list \<Rightarrow> (nat \<times> char list) list list \<Rightarrow> bool" where
  "sw_repr sw us rows \<longleftrightarrow> sw_numCols sw = length us \<and> sw_numRows sw = length rows \<and> Schema_repr (sw_types sw) us \<and>
     cols_repr (sw_fa sw) (length us) rows \<and> us \<noteq> [] \<and> Field \<notin> set us \<and>
     (\<forall>ps \<in> set rows. length ps = length us \<and> (\<forall>(s, t) \<in> set ps. field_at (sw_file sw) s t))"

definition sor_todo :: "(char list \<Rightarrow> u64) \<Rightarrow> SorWriter \<Rightarrow> DataType list \<Rightarrow> nat \<times> nat \<Rightarrow> RowValue list list \<Rightarrow> bool" where
  "sor_todo ldbl sw us w vals \<longleftrightarrow> (\<exists>rows. sw_repr sw us rows \<and> fst w \<le> length rows \<and> snd w = fst w * length us \<and>
     vals = map (\<lambda>ps. row_values ldbl us (map snd ps)) (drop (fst w) rows))"

definition sor_ready :: "(char list \<Rightarrow> u64) \<Rightarrow> SorWriter \<Rightarrow> DataType list \<Rightarrow> nat \<times> nat \<Rightarrow> RowValue list list \<Rightarrow> bool" where
  "sor_ready ldbl sw us w vals \<longleftrightarrow> sor_todo ldbl sw us w vals \<and> vals \<noteq> []"

lemma unquote_ok: "text_ok t \<Longrightarrow> length t < 2 ^ 31 \<Longrightarrow> cstr_ok (unquote (strip t)) \<and> length (unquote (strip t)) \<le> length t"
proof -
  assume t: "text_ok t" "length t < 2 ^ 31"
  have s: "set (strip t) \<subseteq> set t" unfolding strip_def rstrip_def lstrip_def by (metis set_dropWhileD set_rev subsetI)
  have "length (strip t) \<le> length (lstrip t)" unfolding strip_def rstrip_def by (metis length_dropWhile_le length_rev)
  also have "\<dots> \<le> length t" unfolding lstrip_def by (rule length_dropWhile_le)
  finally have l: "length (strip t) \<le> length t" .
  have "set (unquote u) \<subseteq> set u" "length (unquote u) \<le> length u" for u
    unfolding unquote_def Let_def by (meson in_set_dropD in_set_takeD subsetI) auto
  then have "set (unquote (strip t)) \<subseteq> set t" "length (unquote (strip t)) \<le> length t" using s l order_trans by blast+
  then show ?thesis using t by (auto simp: cstr_ok_def text_ok_def)
qed

lemma field_value_typed: "text_ok t \<Longrightarrow> length t < 2 ^ 31 \<Longrightarrow> u \<noteq> Field \<Longrightarrow> value_of_type u (field_value ldbl u t)"
  using unquote_ok by (cases u) auto

lemma SorWriter_cell_eq:
  assumes s: "sw_repr sw us rows" and r: "row < length rows" and c: "col < length us"
  shows "SorWriter_cell ldbl sw row col r0 = Row_set_value col (row_values ldbl us (map snd (rows ! row)) ! col) r0"
proof -
  obtain p t where p: "rows ! row ! col = (p, t)" by (cases "rows ! row ! col")
  have ps: "rows ! row \<in> set rows" "length (rows ! row) = length us" using s r by (auto simp: sw_repr_def)
  then have f: "field_at (sw_file sw) p t" using s c p nth_mem [of col "rows ! row"] unfolding sw_repr_def by fastforce
  have fa: "col < length (sw_fa sw)" "fa_repr (sw_fa sw ! col) (map (\<lambda>ps. bounds (ps ! col)) rows)" using s c by (auto simp: sw_repr_def cols_repr_def)
  have g: "FieldArray_get_start row (sw_fa sw ! col) = Inr (of_nat p)" "FieldArray_get_end row (sw_fa sw ! col) = Inr (of_nat (field_end p t))"
    using fa_repr_get [OF fa(2), of row] r p by (simp_all add: bounds_def)
  have v: "row_values ldbl us (map snd (rows ! row)) ! col = field_value ldbl (us ! col) t" using ps(2) c p by (simp add: row_values_def)
  have t: "Schema_col_type col (sw_types sw) = Inr (us ! col)" using s c Schema_col_type_repr [of "sw_types sw" us col] by (simp add: sw_repr_def)
  have nf: "us ! col \<noteq> Field" using s nth_mem [OF c] unfolding sw_repr_def by metis
  have le: "int_to_size_t (of_nat p) \<le> int_to_size_t (of_nat (field_end p t))" unfolding field_int [OF f] by simp
  have "cell_load (map Some (sw_fa sw)) col = Inr (sw_fa sw ! col)" using fa(1) by (simp add: cell_load_def)
  then show ?thesis
    unfolding SorWriter_cell_def v using nf
    by (cases "us ! col") (simp_all add: g t le [simplified] get_numbers [OF f, of ldbl, simplified] get_string_field_eq [OF f, simplified])
qed

lemma SorWriter_cells:
  assumes s: "sw_repr sw us rows" and r: "row < length rows" and r0: "Row_repr r0 us (replicate (length us) None)"
  shows "\<exists>r'. SorWriter_visit ldbl sw r0 (row, seen) = Inr (r', row + 1, seen + length us) \<and>
    Row_repr r' us (map Some (row_values ldbl us (map snd (rows ! row))))"
proof -
  let ?v = "row_values ldbl us (map snd (rows ! row))" and ?n = "length us"
  let ?P = "\<lambda>k (r, seen'). Row_repr r us (map Some (take k ?v) @ replicate (?n - k) None) \<and> seen' = seen + k"
  have ps: "rows ! row \<in> set rows" "length (rows ! row) = ?n" using s r by (auto simp: sw_repr_def)
  have lv: "length ?v = ?n" using ps(2) by (simp add: row_values_def)
  have ty: "value_of_type (us ! k) (?v ! k)" if k: "k < ?n" for k
  proof -
    obtain p t where p: "rows ! row ! k = (p, t)" by (cases "rows ! row ! k")
    then have f: "field_at (sw_file sw) p t" using s k ps nth_mem [of k "rows ! row"] unfolding sw_repr_def by fastforce
    then have "text_ok t" "length t < 2 ^ 31" using field_at_text(3,4) [OF f] by simp_all
    moreover have "us ! k \<noteq> Field" using s nth_mem [OF k] unfolding sw_repr_def by metis
    ultimately show ?thesis using k ps(2) p by (simp add: row_values_def field_value_typed)
  qed
  have "\<exists>t. res_fold (\<lambda>col (r, seen). res_bind (SorWriter_cell ldbl sw row col r) (\<lambda>r. Inr (r, seen + 1))) [0..<?n] (r0, seen) = Inr t \<and> ?P ?n t"
  proof (rule res_fold_upt [where P = ?P])
    fix k t
    assume k: "k < ?n" and "?P k t"
    then obtain r1 where t: "t = (r1, seen + k)" and r1: "Row_repr r1 us (map Some (take k ?v) @ replicate (?n - k) None)" by (cases t) auto
    have "?n - k = Suc (?n - Suc k)" using k by simp
    then have e: "(map Some (take k ?v) @ replicate (?n - k) None)[k := Some (?v ! k)] = map Some (take (Suc k) ?v) @ replicate (?n - Suc k) None"
      using k lv by (simp add: list_update_append take_Suc_conv_app_nth)
    obtain r2 where "Row_set_value k (?v ! k) r1 = Inr r2" "Row_repr r2 us (map Some (take (Suc k) ?v) @ replicate (?n - Suc k) None)"
      using Row_set_value_repr [OF r1 ty [OF k], of k] k unfolding e by auto
    then show "\<exists>t'. (case t of (r, seen) \<Rightarrow> res_bind (SorWriter_cell ldbl sw row k r) (\<lambda>r. Inr (r, seen + 1))) = Inr t' \<and> ?P (Suc k) t'"
      using SorWriter_cell_eq [OF s r k] by (simp add: t)
  qed (use r0 in auto)
  then show ?thesis using s lv by (auto simp: SorWriter_visit_def sw_repr_def)
qed

interpretation sor_writer: row_writer "SorWriter_methods ldbl sw" us "sor_todo ldbl sw us" "sor_ready ldbl sw us" for ldbl sw us
proof unfold_locales
  fix w vals
  assume todo: "sor_todo ldbl sw us w vals"
  then obtain rows where s: "sw_repr sw us rows" "fst w \<le> length rows" "snd w = fst w * length us"
    "vals = map (\<lambda>ps. row_values ldbl us (map snd ps)) (drop (fst w) rows)" by (auto simp: sor_todo_def)
  have "(snd w = length rows * length us) = (vals = [])" using s by (auto simp: sw_repr_def)
  then show "\<exists>w'. wr_done (SorWriter_methods ldbl sw) w = Inr (vals = [], w') \<and> (vals \<noteq> [] \<longrightarrow> sor_ready ldbl sw us w' vals)"
    using s(1) todo by (cases w) (auto simp: SorWriter_methods_def SorWriter_done_def sor_ready_def sw_repr_def)
next
  fix w v vals r
  assume "sor_ready ldbl sw us w (v # vals)" and r: "Row_repr r us (replicate (length us) None)"
  then obtain rows where s: "sw_repr sw us rows" "snd w = fst w * length us"
    "v # vals = map (\<lambda>ps. row_values ldbl us (map snd ps)) (drop (fst w) rows)" by (auto simp: sor_ready_def sor_todo_def)
  then have lt: "fst w < length rows" by (cases "fst w < length rows") auto
  then have d: "drop (fst w) rows = rows ! fst w # drop (fst w + 1) rows" by (simp add: Cons_nth_drop_Suc)
  obtain r' where "SorWriter_visit ldbl sw r (fst w, snd w) = Inr (r', fst w + 1, snd w + length us)"
    "Row_repr r' us (map Some (row_values ldbl us (map snd (rows ! fst w))))" using SorWriter_cells [OF s(1) lt r] by blast
  moreover have "sor_todo ldbl sw us (fst w + 1, snd w + length us) vals"
    unfolding sor_todo_def using s lt d by (intro exI [of _ rows]) simp
  ultimately show "\<exists>r' w'. wr_visit (SorWriter_methods ldbl sw) r w = Inr (r', w') \<and> Row_repr r' us (map Some v) \<and> sor_todo ldbl sw us w' vals"
    using s(3) d by (auto simp: SorWriter_methods_def)
qed

interpretation cluster_sor_writer: frame_writer "cluster_put i" "cluster_get i" "cluster_inv n i" "cluster_val n" "\<lambda>k. home k < n"
  "SorWriter_methods ldbl sw" us "sor_todo ldbl sw us" "sor_ready ldbl sw us" for i n ldbl sw us
  by unfold_locales

section \<open>Sizes\<close>

lemma length_enc_fields: "2 * length fs \<le> length (enc_fields fs)"
  by (induction fs) auto

lemma length_line_rows: "length (concat (line_rows us i ls)) + length (line_rows us i ls) \<le> length (enc_lines ls)"
proof (induction us i ls rule: line_rows.induct)
  case (2 us i l ls)
  obtain fs tail where l: "l = (fs, tail)" by (cases l)
  have "length (places i fs) + 1 \<le> length (enc_line l)" using length_enc_fields [of fs] by (simp add: l)
  then show ?case using 2 by (auto simp: l)
qed simp

lemma length_line_types: "length (line_types l) < length (enc_line l)"
  using length_enc_fields [of "fst l"] by (cases l) (auto simp: line_types_def line_texts_def)

lemma length_foldl_merge: "\<forall>ts \<in> set tss. length ts \<le> n \<Longrightarrow> length us \<le> n \<Longrightarrow> length (foldl merge_types us tss) \<le> n"
  by (induction tss arbitrary: us) auto

lemma length_infer_types: "length (infer_types ls) \<le> length (enc_lines ls)"
proof -
  have "length (line_types l) \<le> length (enc_lines ls)" if "l \<in> set ls" for l
  proof -
    have "length (enc_line l) \<le> length (enc_lines ls)" using that by (induction ls) auto
    then show ?thesis using length_line_types [of l] by simp
  qed
  then show ?thesis unfolding infer_types_def by (intro length_foldl_merge) (auto dest: in_set_takeD)
qed

text \<open>\<open>Field\<close> is never inferred.\<close>

lemma field_type_not_Field [simp]: "field_type t \<noteq> Field"
  by (simp add: field_type_def Let_def)

lemma merge_types_not_Field: "Field \<notin> set us \<Longrightarrow> Field \<notin> set ts \<Longrightarrow> Field \<notin> set (merge_types us ts)"
  by (induction us ts rule: merge_types.induct) (auto simp: max_def)

lemma infer_types_not_Field: "Field \<notin> set (infer_types ls)"
proof -
  have "Field \<notin> set (foldl merge_types us (map line_types ls))" if "Field \<notin> set us" for us ls
    using that
  proof (induction ls arbitrary: us)
    case (Cons l ls)
    have "Field \<notin> set (line_types l)" by (auto simp: line_types_def dest: sym)
    then show ?case using Cons merge_types_not_Field by simp
  qed simp
  then show ?thesis by (simp add: infer_types_def)
qed

lemma line_rows_ok:
  assumes "length m < 2 ^ 31" and "NUL \<in> set r"
  shows "m = pre @ enc_lines ls @ r \<Longrightarrow> \<forall>l \<in> set ls. line_ok l \<Longrightarrow> ps \<in> set (line_rows us (length pre) ls) \<Longrightarrow>
    length ps = length us \<and> (\<forall>(s, t) \<in> set ps. field_at m s t)"
proof (induction ls arbitrary: pre)
  case (Cons l ls)
  obtain fs tail where l: "l = (fs, tail)" by (cases l)
  have m: "m = (pre @ enc_line l) @ enc_lines ls @ r" using Cons.prems(1) by simp
  show ?case
  proof (cases "ps = places (length pre) fs \<and> fits us (line_types l)")
    case True
    have "field_at m s t" if "(s, t) \<in> set ps" for s t
      by (rule places_at [of _ pre fs "tail @ CHR 0x0A # enc_lines ls @ r"]) (use Cons.prems(1,2) assms True that in \<open>auto simp: l\<close>)
    moreover have "length ps = length us" using True list_all2_lengthD [of "(\<le>)" "line_types l" us] by (simp add: fits_def l line_types_def line_texts_def)
    ultimately show ?thesis by blast
  next
    case False
    then have "ps \<in> set (line_rows us (length (pre @ enc_line l)) ls)" using Cons.prems(3) by (auto simp: l split: if_splits)
    then show ?thesis using Cons.IH [OF m] Cons.prems(2) by simp
  qed
qed simp

section \<open>fromFile\<close>

text \<open>The lines of the file \<open>ls\<close> that fit, as rows.\<close>

definition sor_rows :: "(char list \<Rightarrow> u64) \<Rightarrow> line list \<Rightarrow> RowValue list list" where
  "sor_rows ldbl ls = map (\<lambda>l. row_values ldbl (infer_types ls) (line_texts l)) (filter (\<lambda>l. fits (infer_types ls) (line_types l)) ls)"

definition file_ok :: "nat \<Rightarrow> line list \<Rightarrow> bool" where
  "file_ok pageSize ls \<longleftrightarrow> (\<forall>l \<in> set ls. line_ok l \<and> l \<noteq> ([], [])) \<and> infer_types ls \<noteq> [] \<and>
     0 < pageSize \<and> length (enc_lines ls) mod pageSize \<noteq> 0 \<and> length (enc_lines ls) + pageSize < 2 ^ 31"

lemma sor_rows_places:
  "sor_rows ldbl ls = map (\<lambda>ps. row_values ldbl (infer_types ls) (map snd ps)) (line_rows (infer_types ls) 0 ls)"
  using arg_cong [OF line_rows_texts [of "infer_types ls" 0 ls], of "map (row_values ldbl (infer_types ls))"]
  by (simp add: sor_rows_def comp_def)

lemma mapped_pads:
  assumes "length c mod pageSize \<noteq> 0" and pos: "0 < pageSize"
  shows "\<exists>k. mapped pageSize c = c @ NUL # replicate k NUL \<and> length (mapped pageSize c) \<le> length c + pageSize"
proof -
  have "0 < pageSize - length c mod pageSize" using assms pos by simp
  then obtain k where k: "pageSize - length c mod pageSize = Suc k" by (cases "pageSize - length c mod pageSize") auto
  have "pageSize - length c mod pageSize < pageSize" using assms pos by simp
  then have "mapped pageSize c = c @ replicate (Suc k) NUL" unfolding mapped_file [OF pos] k [symmetric] by simp
  then show ?thesis using k by auto
qed

lemma getTypesChar_eq:
  assumes "Schema_repr s ts" and "Field \<notin> set ts"
  shows "getTypesChar s = Inr (map type_char ts @ [NUL])"
proof -
  let ?P = "\<lambda>k cs. cs = map type_char (take k ts)"
  have "\<exists>cs. res_fold (\<lambda>i cs. res_bind (cell_load (sc_types s) i) (\<lambda>t. res_bind (typeToChar t) (\<lambda>c. Inr (cs @ [c])))) [0..<length ts] [] = Inr cs \<and> ?P (length ts) cs"
  proof (rule res_fold_upt [where P = ?P])
    fix i cs
    assume i: "i < length ts" and "?P i cs"
    moreover have "cell_load (sc_types s) i = Inr (ts ! i)" using assms(1) i by (simp add: Schema_repr_def cell_load_holds)
    moreover have "ts ! i \<noteq> Field" using assms(2) nth_mem [OF i] by metis
    ultimately show "\<exists>t. res_bind (cell_load (sc_types s) i) (\<lambda>t. res_bind (typeToChar t) (\<lambda>c. Inr (cs @ [c]))) = Inr t \<and> ?P (Suc i) t"
      using typeToChar_type_char by (simp add: take_Suc_conv_app_nth)
  qed simp_all
  then show ?thesis using assms(1) by (auto simp: getTypesChar_def Schema_repr_def)
qed

lemma value_size_field: "text_ok t \<Longrightarrow> length t < 2 ^ 31 \<Longrightarrow> value_size (field_value ldbl u t) < 2 ^ 32"
  using unquote_ok [of t] by (cases u) (auto simp: enc_String_def enc_cstr_def)

lemma sor_fits:
  assumes "file_ok pageSize ls" and "L < 2 ^ 31"
  shows "rows_fit (infer_types ls) (sor_rows ldbl ls)" and "frame_fits (infer_types ls) (length (sor_rows ldbl ls)) L"
    and "length (infer_types ls) < 2 ^ 31" and "length (sor_rows ldbl ls) < 2 ^ 31"
proof -
  let ?us = "infer_types ls" and ?rows = "line_rows (infer_types ls) 0 ls" and ?n = "length (enc_lines ls)"
  have n: "?n < 2 ^ 31" using assms(1) by (simp add: file_ok_def)
  have lr: "length (concat ?rows) + length ?rows \<le> ?n" by (rule length_line_rows)
  have ls: "length (sor_rows ldbl ls) = length ?rows" by (simp add: sor_rows_places)
  show us: "length ?us < 2 ^ 31" using length_infer_types [of ls] n by simp
  show r: "length (sor_rows ldbl ls) < 2 ^ 31" using lr ls n by simp
  let ?m = "enc_lines ls @ replicate 1 NUL"
  have ok: "length ps = length ?us \<and> (\<forall>(s, t) \<in> set ps. text_ok t \<and> length t < 2 ^ 31)" if "ps \<in> set ?rows" for ps
  proof -
    have "\<forall>l \<in> set ls. line_ok l" "length ?m < 2 ^ 31" using assms(1) by (auto simp: file_ok_def)
    then have "length ps = length ?us \<and> (\<forall>(s, t) \<in> set ps. field_at ?m s t)"
      using line_rows_ok [of ?m "[NUL]" "[]" ls ps ?us] that by simp
    then show ?thesis using field_at_text(3,4) by fastforce
  qed
  have "value_size (x ! k) < 2 ^ 32" if kx: "k < length ?us" "x \<in> set (sor_rows ldbl ls)" for k x
  proof -
    obtain ps where ps: "ps \<in> set ?rows" "x = row_values ldbl ?us (map snd ps)" using kx(2) by (auto simp: sor_rows_places)
    obtain s t where "ps ! k = (s, t)" by (cases "ps ! k")
    moreover from this have "text_ok t" "length t < 2 ^ 31" using ok [OF ps(1)] kx(1) nth_mem [of k ps] by fastforce+
    ultimately show ?thesis using value_size_field kx(1) ok [OF ps(1)] by (simp add: ps(2) row_values_def)
  qed
  then have "sum_list (map (\<lambda>x. value_size (x ! k)) (sor_rows ldbl ls)) \<le> length (sor_rows ldbl ls) * 2 ^ 32" if "k < length ?us" for k
    using that sum_list_mono [of "sor_rows ldbl ls" "\<lambda>x. value_size (x ! k)" "\<lambda>_. 2 ^ 32"] by (force simp: sum_list_triv less_imp_le)
  moreover have "length (sor_rows ldbl ls) * 2 ^ 32 \<le> 2 ^ 31 * 2 ^ 32" using r by simp
  ultimately show "rows_fit ?us (sor_rows ldbl ls)" using r by (fastforce simp: rows_fit_def)
  have "length (concat ?rows) = length ?us * length ?rows"
  proof -
    have "length (concat rows) = k * length rows" if "\<forall>ps \<in> set rows. length ps = k" for k and rows :: "(nat \<times> char list) list list"
      using that by (induction rows) auto
    then show ?thesis using ok by blast
  qed
  then have "length ?us * (length ?rows + 1) \<le> 2 ^ 32" using lr n us by simp
  then have "length ?us * (length ?rows + 1) * (L + 80) \<le> 2 ^ 32 * (2 ^ 31 + 80)" using assms(2) by (intro mult_le_mono) simp_all
  then have "length ?us * ((length ?rows + 1) * (L + 80)) \<le> 2 ^ 32 * (2 ^ 31 + 80)" by (simp only: mult.assoc)
  then show "frame_fits ?us (length (sor_rows ldbl ls)) L" using us assms(2) unfolding frame_fits_def ls distrib_left by simp
qed

lemma fromFile_eq:
  assumes f: "file_ok pageSize ls" "files name = Some (enc_lines ls)" and i: "cluster_inv (numNodes args) i st"
    and A: "sizes_ok args" "homes (\<lambda>k. home k < numNodes args) args" and cs: "cstr_ok cs" "length cs < 2 ^ 31"
  shows "\<exists>df st'. fromFile pageSize files ldbl args (cluster_put i) name (Key_lit cs 0) st = Inr (df, st') \<and> cluster_inv (numNodes args) i st' \<and>
    frame_repr args (\<lambda>_. cs) (cluster_val (numNodes args) st') (infer_types ls) (cols_of (infer_types ls) (sor_rows ldbl ls)) df \<and>
    nrows df = length (sor_rows ldbl ls) \<and>
    frame_stored args (\<lambda>_. cs) (infer_types ls) (cols_of (infer_types ls) (sor_rows ldbl ls)) (length (sor_rows ldbl ls)) (Key_lit cs 0) (cluster_val (numNodes args) st') \<and>
    (\<forall>key. key \<noteq> Key_lit cs 0 \<longrightarrow> (\<forall>k i. key \<noteq> block_key args cs k i) \<longrightarrow> cluster_val (numNodes args) st' key = cluster_val (numNodes args) st key)"
proof -
  let ?us = "infer_types ls" and ?rows = "line_rows (infer_types ls) 0 ls" and ?c = "enc_lines ls"
  have F: "\<forall>l \<in> set ls. line_ok l \<and> l \<noteq> ([], [])" "?us \<noteq> []" "length ?c mod pageSize \<noteq> 0" "0 < pageSize" "length ?c + pageSize < 2 ^ 31"
    using f(1) by (simp_all add: file_ok_def)
  obtain k where k: "mapped pageSize ?c = ?c @ NUL # replicate k NUL" "length (mapped pageSize ?c) \<le> length ?c + pageSize"
    using mapped_pads [OF F(3,4)] by blast
  let ?m = "mapped pageSize ?c"
  have m: "length ?m < 2 ^ 31" using k(2) F(5) by simp
  obtain s where s: "parse_schema ?m = Inr s" "Schema_repr s ?us" using parse_schema_eq [OF k(1) m] F(1) by blast
  have ne: "0 < length ?c" using F(3) by (cases ?c) auto
  obtain fas0 where fas0: "new_columnar s = Inr fas0" "cols_repr fas0 (length ?us) []" using new_columnar_eq [OF s(2)] by blast
  have "Schema_repr Schema_new []" "0 < sc_capCols Schema_new" by (simp_all add: Schema_new_def Schema_repr_def)
  from columnar_lines_eq [OF m _ _ s(2), of NUL "replicate k NUL" "[]" ls, OF _ _ _ F(1) this fa_repr_new fas0(2)] k(1)
  obtain fas where fas: "columnar_lines ?m s 0 Schema_new FieldArray_new fas0 = Inr (length ?c, fas)" "cols_repr fas (length ?us) ?rows"
    by (auto simp: row_end_def)
  have mc: "make_columnar ?m 0 (length ?c) s = Inr fas" using ne fas0(1) fas(1) by (simp add: make_columnar_def)
  define sw where "sw = \<lparr>sw_numCols = length ?us, sw_numRows = length ?rows, sw_fa = fas, sw_types = s, sw_file = ?m\<rparr>"
  have fa0: "0 < length fas" "fa_size (fas ! 0) = length ?rows" using fas(2) F(2) by (auto simp: cols_repr_def fa_repr_def)
  have w: "SorWriter_new fas s ?m = Inr sw"
    using fa0 s(2) by (simp add: SorWriter_new_def sw_def cell_load_def FieldArray_len_def Schema_width_def Schema_repr_def)
  have nul: "NUL \<in> set (NUL # replicate k NUL)" by simp
  have "\<forall>ps \<in> set ?rows. length ps = length ?us \<and> (\<forall>(s, t) \<in> set ps. field_at ?m s t)"
    using line_rows_ok [OF m nul, of "[]" ls _ ?us] k(1) F(1) by simp
  then have "sw_repr sw ?us ?rows" using F(2) s(2) fas(2) infer_types_not_Field by (simp add: sw_repr_def sw_def)
  then have todo: "sor_todo ldbl sw ?us (0, 0) (sor_rows ldbl ls)" by (auto simp: sor_todo_def sor_rows_places)
  have hk: "home (Key_lit cs 0) < numNodes args" using A(1) by (simp add: home_def sizes_ok_def)
  have len: "length ?us < 2 ^ 64" "length cs < 2 ^ 32" using sor_fits(3) [OF f(1) cs(2)] cs(2) by simp_all
  obtain df w' st' where v: "fromVisitor args (cluster_put i) (Key_lit cs 0) (map type_char ?us @ [NUL]) (SorWriter_methods ldbl sw) ((0, 0), st) = Inr (df, w', st')"
    "cluster_inv (numNodes args) i st'"
    "frame_repr args (\<lambda>_. cs) (cluster_val (numNodes args) st') ?us (cols_of ?us (sor_rows ldbl ls)) df" "nrows df = length (sor_rows ldbl ls)"
    "frame_stored args (\<lambda>_. cs) ?us (cols_of ?us (sor_rows ldbl ls)) (length (sor_rows ldbl ls)) (Key_lit cs 0) (cluster_val (numNodes args) st')"
    "\<forall>key. key \<noteq> Key_lit cs 0 \<longrightarrow> (\<forall>k i. key \<noteq> block_key args cs k i) \<longrightarrow> cluster_val (numNodes args) st' key = cluster_val (numNodes args) st key"
    using cluster_sor_writer.fromVisitor_repr [OF F(2) infer_types_not_Field cs(1) len(2,1) hk A(1) i A(2) todo sor_fits(1,2) [OF f(1) cs(2)]] by blast
  have "fromFile pageSize files ldbl args (cluster_put i) name (Key_lit cs 0) st = Inr (df, st')"
    using f(2) s mc w getTypesChar_eq [OF s(2) infer_types_not_Field] v(1)
    by (simp add: fromFile_def Sorer_new_def getColumnar_def)
  then show ?thesis using v(2-6) by blast
qed

section \<open>Properties\<close>

text \<open>C9: A file becomes a frame: \<open>fromFile\<close> on one node infers for every column the least restrictive of
  the types found in the first 500 lines, keeps the lines that have a field for every column and no
  field of a less restrictive type, and stores their values as a frame; any node that fetches the
  frame finds that number of rows and reads row \<open>r\<close> as the values of the \<open>r\<close>-th line kept.\<close>

theorem file_becomes_frame:
  assumes "file_ok pageSize ls" and "files name = Some (enc_lines ls)"
    and "cluster_inv (numNodes args) i st" and "j < numNodes args" and "0 < blockSize args" and "blockSize args < 2 ^ 64"
    and "cstr_ok cs" and "length cs < 2 ^ 31" and "r < length (sor_rows ldbl ls)"
  shows "\<exists>df st1 df2 st2 x df3 st3.
    fromFile pageSize files ldbl args (cluster_put i) name (Key_lit cs 0) st = Inr (df, st1) \<and> nrows df = length (sor_rows ldbl ls) \<and>
    waitAndGet (cluster_get j) (Key_lit cs 0) st1 = Inr (df2, st2) \<and> nrows df2 = length (sor_rows ldbl ls) \<and>
    createRow args (cluster_get j) r (df2, st2) = Inr (x, df3, st3) \<and> Row_repr x (infer_types ls) (map Some (sor_rows ldbl ls ! r))"
proof -
  note A = cluster_args [OF assms(3,5,6)]
  let ?us = "infer_types ls" and ?rows = "sor_rows ldbl ls"
  obtain df st1 where 1: "fromFile pageSize files ldbl args (cluster_put i) name (Key_lit cs 0) st = Inr (df, st1)"
    "cluster_inv (numNodes args) i st1" "nrows df = length ?rows"
    "frame_stored args (\<lambda>_. cs) ?us (cols_of ?us ?rows) (length ?rows) (Key_lit cs 0) (cluster_val (numNodes args) st1)"
    using fromFile_eq [where files = files and name = name, OF assms(1,2,3) A assms(7,8), of ldbl] by blast
  have hk: "home (Key_lit cs 0) < numNodes args" using A(1) by (simp add: home_def sizes_ok_def)
  have inv: "cluster_inv (numNodes args) j st1" using cluster_inv_node [OF 1(2) assms(4)] .
  obtain df2 st2 where 2: "waitAndGet (cluster_get j) (Key_lit cs 0) st1 = Inr (df2, st2)" "cluster_inv (numNodes args) j st2"
    "frame_repr args (\<lambda>_. cs) (cluster_val (numNodes args) st2) ?us (cols_of ?us ?rows) df2" "nrows df2 = length ?rows"
    using cluster_kv.waitAndGet_repr [OF 1(4) inv hk] by blast
  have "Schema_repr (df_schema df2) ?us" using 2(3) by (simp add: frame_repr_def)
  then obtain x0 where x0: "Row_new (df_schema df2) = Inr x0" "Row_repr x0 ?us (replicate (length ?us) None)"
    using Row_repr_new [OF _ infer_types_not_Field] by blast
  have row: "r < length (cols_of ?us ?rows ! i)" if "i < length ?us" for i using that assms(9) by simp
  have "length (?rows ! r) = length ?us"
  proof -
    have "?rows ! r \<in> set ?rows" using assms(9) by simp
    then show ?thesis by (auto simp: sor_rows_def row_values_def fits_def line_types_def dest: list_all2_lengthD)
  qed
  then have "row_at (cols_of ?us ?rows) r = ?rows ! r" using row_at_cols_of assms(9) by blast
  with cluster_kv.fill_row_repr [OF 2(3) row x0(2) 2(2) A(2)] obtain x df3 st3 where
    "fill_row args (cluster_get j) r (x0, df2, st2) = Inr (x, df3, st3)" "Row_repr x ?us (map Some (?rows ! r))" by auto
  then show ?thesis using 1(1,3) 2(1,4) x0(1) by (simp add: createRow_def)
qed

definition sample_lines :: "line list" where
  "sample_lines = [([([], ''10''), ('' '', CHR 0x22 # ''hi'' @ [CHR 0x22])], []), ([([], ''2'')], []), ([([], ''0''), ('' '', ''yo'')], [])]"

lemmas scan_defs = field_type_def strip_def lstrip_def rstrip_def strtoll_def strtold_len_def number_len_def mantissa_len_def exponent_len_def
  starts_ci_def digits_value_def isspace_def isdigit_def tolower_def unquote_def Let_def

lemma sample_types: "map line_types sample_lines = [[Integer, Str], [Integer], [Boolean, Str]]"
  by (simp add: sample_lines_def line_types_def line_texts_def scan_defs)

lemma sample_infer: "infer_types sample_lines = [Integer, Str]"
proof -
  have "take 500 sample_lines = sample_lines" by (simp add: sample_lines_def)
  then show ?thesis by (simp add: infer_types_def sample_types max_def less_eq_DataType_def)
qed

lemma sample_rows: "sor_rows ldbl sample_lines = [[IElem 10, SElem (String_lit ''hi'')], [IElem 0, SElem (String_lit ''yo'')]]"
proof -
  have f: "filter (\<lambda>l. fits [Integer, Str] (line_types l)) sample_lines = [sample_lines ! 0, sample_lines ! 2]"
    by (simp add: sample_lines_def line_types_def line_texts_def scan_defs fits_def less_eq_DataType_def)
  show ?thesis unfolding sor_rows_def sample_infer f
    by (simp add: sample_lines_def line_texts_def row_values_def scan_defs numeral_2_eq_2)
qed

lemma sample_ok: "file_ok 4096 sample_lines"
  unfolding file_ok_def sample_infer
  by (simp add: sample_lines_def junk_ok_def text_ok_def row_end_def)

lemma file_becomes_frame_witness:
  "\<exists>st df st1 df2 st2 x df3 st3. Cluster_init 2 = Inr st \<and>
    fromFile 4096 [''f'' \<mapsto> enc_lines sample_lines] (\<lambda>_. 0) (Args_default\<lparr>numNodes := 2, blockSize := 1\<rparr>) (cluster_put 0) ''f'' (Key_lit ''df'' 0) st = Inr (df, st1) \<and>
    nrows df = 2 \<and> waitAndGet (cluster_get 1) (Key_lit ''df'' 0) st1 = Inr (df2, st2) \<and>
    createRow (Args_default\<lparr>numNodes := 2, blockSize := 1\<rparr>) (cluster_get 1) 1 (df2, st2) = Inr (x, df3, st3) \<and>
    Row_repr x [Integer, Str] [Some (IElem 0), Some (SElem (String_lit ''yo''))]"
proof -
  let ?a = "Args_default\<lparr>numNodes := 2, blockSize := 1\<rparr>" and ?f = "[''f'' \<mapsto> enc_lines sample_lines]"
  obtain st where st: "Cluster_init 2 = Inr st" "cluster_inv 2 0 st" using cluster_start [of 0 2] by auto
  have c: "cluster_inv (numNodes ?a) 0 st" "1 < numNodes ?a" "0 < blockSize ?a" "blockSize ?a < 2 ^ 64" using st by simp_all
  have k: "?f ''f'' = Some (enc_lines sample_lines)" "cstr_ok ''df''" "length ''df'' < 2 ^ 31" "1 < length (sor_rows (\<lambda>_. 0) sample_lines)"
    by (simp_all add: cstr_ok_def sample_rows)
  from file_becomes_frame [where files = ?f and name = "''f''", OF sample_ok k(1) c k(2-4)] show ?thesis
    unfolding sample_infer sample_rows using st(1) by (simp add: numeral_2_eq_2) blast
qed

text \<open>C35: A line without a field or junk, before the end of the file, stops \<open>fromFile\<close> for good: the loops of
  \<open>make_columnar\<close> do not step over it.\<close>

theorem blank_line_diverges:
  assumes "files name = Some (enc_lines (ls @ ([], []) # ls2))" and "\<forall>l \<in> set ls. line_ok l \<and> l \<noteq> ([], [])" and "\<forall>l \<in> set ls2. line_ok l"
    and "0 < pageSize" and "length (enc_lines (ls @ ([], []) # ls2)) mod pageSize \<noteq> 0"
    and "length (enc_lines (ls @ ([], []) # ls2)) + pageSize < 2 ^ 31"
  shows "fromFile pageSize files ldbl args putv name k st = Inl Diverges"
proof -
  let ?all = "ls @ ([], []) # ls2"
  let ?c = "enc_lines ?all" and ?m = "mapped pageSize (enc_lines ?all)" and ?us = "infer_types ?all"
  obtain k where k: "?m = ?c @ NUL # replicate k NUL" "length ?m \<le> length ?c + pageSize" using mapped_pads [OF assms(5,4)] by blast
  have m: "length ?m < 2 ^ 31" using k(2) assms(6) by simp
  have ok: "\<forall>l \<in> set ?all. line_ok l" using assms(2,3) by (auto simp: junk_ok_def)
  obtain s where s: "parse_schema ?m = Inr s" "Schema_repr s ?us" using parse_schema_eq [OF k(1) m ok] by blast
  have e: "?m = enc_lines ls @ CHR 0x0A # enc_lines ls2 @ NUL # replicate k NUL" unfolding k(1) by (simp add: enc_lines_def)
  obtain fas0 where fas0: "new_columnar s = Inr fas0" "cols_repr fas0 (length ?us) []" using new_columnar_eq [OF s(2)] by blast
  have new: "Schema_repr Schema_new []" "0 < sc_capCols Schema_new" by (simp_all add: Schema_new_def Schema_repr_def)
  have nul: "NUL \<in> set (CHR 0x0A # enc_lines ls2 @ NUL # replicate k NUL)" by simp
  have re: "row_end (CHR 0x0A)" by (simp add: row_end_def)
  obtain fas where fas: "columnar_lines ?m s 0 Schema_new FieldArray_new fas0 = Inr (length (enc_lines ls), fas)"
    using columnar_lines_eq [OF m nul re s(2), of "[]" ls, OF _ assms(2) new fa_repr_new fas0(2)] e by auto
  have "length (enc_lines ls) < length ?c" "?c \<noteq> []" by (simp_all add: enc_lines_def)
  then have "make_columnar ?m 0 (length ?c) s = Inl Diverges" using fas0(1) fas by (simp add: make_columnar_def)
  then show ?thesis using assms(1) s(1) by (simp add: fromFile_def Sorer_new_def getColumnar_def)
qed

lemma blank_line_diverges_witness:
  "\<exists>st. Cluster_init 1 = Inr st \<and> fromFile 4096 [''f'' \<mapsto> enc_lines [([([], ''7'')], []), ([], [])]] (\<lambda>_. 0) Args_default (cluster_put 0) ''f''
    (Key_lit ''df'' 0) st = Inl Diverges"
proof -
  obtain st where "Cluster_init 1 = Inr st" using cluster_start [of 0 1] by auto
  with blank_line_diverges [of "[''f'' \<mapsto> enc_lines [([([], ''7'')], []), ([], [])]]" "''f''" "[([([], ''7'')], [])]" "[]" 4096]
  show ?thesis by (simp add: enc_lines_def junk_ok_def text_ok_def)
qed

text \<open>The first line of a file of four bytes, with a page of four bytes.\<close>

lemma full_page: "parse_schema [CHR ''<'', CHR ''1'', CHR ''>'', CHR 0x0A] = Inl OutOfBounds"
proof -
  let ?m = "[CHR ''<'', CHR ''1'', CHR ''>'', CHR 0x0A]"
  have c: "char_at ?m 0 = Inr (CHR ''<'')" "char_at ?m (Suc 0) = Inr (CHR ''1'')" "char_at ?m 2 = Inr (CHR ''>'')" "char_at ?m 3 = Inr (CHR 0x0A)"
    "char_at ?m 4 = Inl OutOfBounds" by (simp_all add: char_at_def numeral_2_eq_2 numeral_3_eq_3)
  have e: "find_close ?m (Suc 0) = Inr 2" by (simp add: find_close.simps [of ?m "Suc 0"] find_close.simps [of ?m 2] c numeral_2_eq_2 [symmetric])
  have "triml ?m 0 2 = Inr 1" "trimr ?m 1 2 = Inr 1"
    by (simp_all add: triml_def trimr_def c isspace_def triml_from.simps [of ?m "Suc 0" 2] trimr_from.simps [of ?m "Suc 0" "Suc 0"])
  then have t: "parse_field_type ?m 0 2 = Inr Boolean" by (simp add: parse_field_type_def c)
  have cap: "0 < sc_capCols Schema_new" by (simp add: Schema_new_def)
  obtain s where s: "Schema_add_column Boolean Schema_new = Inr s" "Schema_repr s [Boolean]"
    using Schema_add_column_repr [OF Schema_repr_new cap, of Boolean] by auto
  have "parse_row_schema ?m 0 Schema_new = Inr (3, s)"
    unfolding parse_row_schema_def
    by (simp add: scan_row.simps [of ?m _ 0] scan_row.simps [of ?m _ 3] c e t s(1) row_end_def numeral_3_eq_3 [symmetric])
  moreover obtain s' where "merge_schema s Schema_new = Inr s'"
    using merge_schema_eq [OF s(2) Schema_repr_new cap] by blast
  moreover have n: "(500 :: nat) = Suc (Suc 498)" by simp
  ultimately show ?thesis unfolding parse_schema_def n parse_schema_lines.simps by (simp add: c file_end_def)
qed


end
