(* ===== verification/LinusInput.thy ===== *)
theory LinusInput
  imports LinusRound SorerProps
begin

text \<open>
  The Linus application from its files: node 0 reads the three frames and publishes them and the
  first set, which holds Linus; the other nodes fetch the frames; then come the stages. What every
  node computes is \<open>reached\<close>: the users and projects reached in \<open>DEGREES\<close> steps.
\<close>

section \<open>readInput\<close>

definition LINUS :: nat where
  "LINUS = 3"

definition PROJ :: "char list" where
  "PROJ = ''data/our_projects.ltgt''"

definition USER :: "char list" where
  "USER = ''data/our_users.ltgt''"

definition COMM :: "char list" where
  "COMM = ''data/our_commits.ltgt''"

text \<open>The two sets, as large as the frames.\<close>

definition Linus_sets :: "DataFrame \<Rightarrow> DataFrame \<Rightarrow> DataFrame \<Rightarrow> Linus res" where
  "Linus_sets projects users commits =
     res_bind (Set_of_frame users) (\<lambda>uSet.
     res_bind (Set_of_frame projects) (\<lambda>pSet.
     Inr \<lparr>li_projects = projects, li_users = users, li_commits = commits, li_uSet = uSet, li_pSet = pSet\<rparr>))"

definition Linus_read_files ::
    "nat \<Rightarrow> (char list \<Rightarrow> char list option) \<Rightarrow> (char list \<Rightarrow> u64) \<Rightarrow> Args \<Rightarrow> (Key \<Rightarrow> Value \<Rightarrow> 's \<Rightarrow> 's res) \<Rightarrow> 's \<Rightarrow> (Linus \<times> 's) res" where
  "Linus_read_files pageSize files ldbl args putv st =
     res_bind (Key_new (''projs'' @ [NUL]) 0) (\<lambda>pK.
     res_bind (Key_new (''usrs'' @ [NUL]) 0) (\<lambda>uK.
     res_bind (Key_new (''comts'' @ [NUL]) 0) (\<lambda>cK.
     res_bind (fromFile pageSize files ldbl args putv PROJ pK st) (\<lambda>(projects, st).
     res_bind (fromFile pageSize files ldbl args putv USER uK st) (\<lambda>(users, st).
     res_bind (fromFile pageSize files ldbl args putv COMM cK st) (\<lambda>(commits, st).
     res_bind (Key_new (''users-0-0'' @ [NUL]) 0) (\<lambda>intKey.
     res_bind (fromInt args putv intKey (of_nat LINUS) st) (\<lambda>(_, st).
     res_bind (Linus_sets projects users commits) (\<lambda>li. Inr (li, st))))))))))"

definition Linus_read_frames :: "(Key \<Rightarrow> 's \<Rightarrow> (Value option \<times> 's) res) \<Rightarrow> 's \<Rightarrow> (Linus \<times> 's) res" where
  "Linus_read_frames getv st =
     res_bind (Key_new (''projs'' @ [NUL]) 0) (\<lambda>pK.
     res_bind (Key_new (''usrs'' @ [NUL]) 0) (\<lambda>uK.
     res_bind (Key_new (''comts'' @ [NUL]) 0) (\<lambda>cK.
     res_bind (waitAndGet getv pK st) (\<lambda>(projects, st).
     res_bind (waitAndGet getv uK st) (\<lambda>(users, st).
     res_bind (waitAndGet getv cK st) (\<lambda>(commits, st).
     res_bind (Linus_sets projects users commits) (\<lambda>li. Inr (li, st))))))))"

definition Linus_readInput ::
    "nat \<Rightarrow> (char list \<Rightarrow> char list option) \<Rightarrow> (char list \<Rightarrow> u64) \<Rightarrow> Args \<Rightarrow> (Key \<Rightarrow> Value \<Rightarrow> 's \<Rightarrow> 's res) \<Rightarrow>
     (Key \<Rightarrow> 's \<Rightarrow> (Value option \<times> 's) res) \<Rightarrow> nat \<Rightarrow> 's \<Rightarrow> (Linus \<times> 's) res" where
  "Linus_readInput pageSize files ldbl args putv getv idx st =
     (if idx = 0 then Linus_read_files pageSize files ldbl args putv st else Linus_read_frames getv st)"

text \<open>All nodes: node 0 first, since the others wait for its frames. \<open>blank\<close> is what the sets of a node are before a merge.\<close>

definition linus_run ::
    "nat \<Rightarrow> (char list \<Rightarrow> char list option) \<Rightarrow> (char list \<Rightarrow> u64) \<Rightarrow> Args \<Rightarrow> (nat \<Rightarrow> Set) \<Rightarrow> (nat \<Rightarrow> Linus) \<Rightarrow> Cluster \<Rightarrow>
     ((nat \<Rightarrow> Set) \<times> (nat \<Rightarrow> Linus) \<times> Cluster) res" where
  "linus_run pageSize files ldbl args news lis st =
     res_bind (Linus_readInput pageSize files ldbl args (cluster_put 0) (cluster_get 0) 0 st) (\<lambda>(li, st).
     res_bind (others args (\<lambda>j new (_, st). res_bind (Linus_readInput pageSize files ldbl args (cluster_put j) (cluster_get j) j st) (\<lambda>(li, st).
         Inr (new, li, st))) (news, lis(0 := li), st)) (stages_run args))"

section \<open>What the input leaves\<close>

lemma input_keys_new:
  "Key_new (''projs'' @ [NUL]) 0 = Inr (Key_lit ''projs'' 0)" "Key_new (''usrs'' @ [NUL]) 0 = Inr (Key_lit ''usrs'' 0)"
  "Key_new (''comts'' @ [NUL]) 0 = Inr (Key_lit ''comts'' 0)" "Key_new (''users-0-0'' @ [NUL]) 0 = Inr (Key_lit ''users-0-0'' 0)"
  by (rule Key_new_lit, simp)+

lemmas input_keys = input_keys_new [simplified]

lemma input_clear:
  "clear_of ''usrs'' ''projs''" "clear_of ''comts'' ''projs''" "clear_of ''users-0-0'' ''projs''"
  "clear_of ''comts'' ''usrs''" "clear_of ''users-0-0'' ''usrs''" "clear_of ''users-0-0'' ''comts''"
  by (simp_all add: clear_of_def)

lemma users_0_0: "''users-0-0'' = stage_name ''users-'' 0 0"
proof -
  have "to_string 0 = ''0''" by (subst to_string.simps) (simp add: char_of_def bit_0)
  then show ?thesis by (simp add: stage_name_def)
qed

lemma read_file:
  assumes f: "file_ok pageSize ls" "files name = Some (enc_lines ls)" and i: "cluster_inv (numNodes args) i st"
    and A: "sizes_ok args" "homes (\<lambda>k. home k < numNodes args) args" and cs: "cstr_ok cs" "length cs < 2 ^ 31"
  shows "\<exists>df st'. fromFile pageSize files ldbl args (cluster_put i) name (Key_lit cs 0) st = Inr (df, st') \<and> cluster_inv (numNodes args) i st' \<and>
    loaded args cs (infer_types ls) (sor_rows ldbl ls) st' df \<and> stored args cs (infer_types ls) (sor_rows ldbl ls) st' \<and> only_changes args cs st st'"
proof -
  obtain df st' where 1: "fromFile pageSize files ldbl args (cluster_put i) name (Key_lit cs 0) st = Inr (df, st')" "cluster_inv (numNodes args) i st'"
    "frame_repr args (\<lambda>_. cs) (cluster_val (numNodes args) st') (infer_types ls) (cols_of (infer_types ls) (sor_rows ldbl ls)) df"
    "nrows df = length (sor_rows ldbl ls)"
    "frame_stored args (\<lambda>_. cs) (infer_types ls) (cols_of (infer_types ls) (sor_rows ldbl ls)) (length (sor_rows ldbl ls)) (Key_lit cs 0) (cluster_val (numNodes args) st')"
    "\<forall>key. key \<noteq> Key_lit cs 0 \<longrightarrow> (\<forall>k i. key \<noteq> block_key args cs k i) \<longrightarrow> cluster_val (numNodes args) st' key = cluster_val (numNodes args) st key"
    using fromFile_eq [where files = files and name = name, OF f i A cs, of ldbl] by blast
  then show ?thesis using only_changesI(1) [OF 1(6)] unfolding loaded_def stored_def by blast
qed

text \<open>A node with its three frames and empty sets.\<close>

lemma new_node:
  assumes "loaded args ''comts'' [Integer, Integer, Integer] rows st commits" and "nrows projects = np" and "nrows users = nu"
  shows "\<exists>li. Linus_sets projects users commits = Inr li \<and>
    node_ok args (cols_of [Integer, Integer, Integer] rows) (length rows) np nu {} {} st li"
proof -
  obtain u p where "Set_new nu = Inr u" "Set_repr u nu {}" "Set_new np = Inr p" "Set_repr p np {}" using Set_new_repr by meson
  then show ?thesis using assms by (auto simp: Linus_sets_def Set_of_frame_def node_ok_def commits_repr_def loaded_def)
qed

text \<open>Node 0.\<close>

lemma read_files_ok:
  fixes lp lu lc :: "line list"
  assumes p: "file_ok pageSize lp" "files PROJ = Some (enc_lines lp)" and u: "file_ok pageSize lu" "files USER = Some (enc_lines lu)"
    and c: "file_ok pageSize lc" "files COMM = Some (enc_lines lc)" "infer_types lc = [Integer, Integer, Integer]"
    and i: "cluster_inv (numNodes args) 0 st" and A: "sizes_ok args" "homes (\<lambda>k. home k < numNodes args) args"
  shows "\<exists>li st'. Linus_read_files pageSize files ldbl args (cluster_put 0) st = Inr (li, st') \<and> cluster_inv (numNodes args) 0 st' \<and>
    stored args ''projs'' (infer_types lp) (sor_rows ldbl lp) st' \<and> stored args ''usrs'' (infer_types lu) (sor_rows ldbl lu) st' \<and>
    stored args ''comts'' [Integer, Integer, Integer] (sor_rows ldbl lc) st' \<and> set_stored args ''users-0-0'' 4 {LINUS} st' \<and>
    node_ok args (cols_of [Integer, Integer, Integer] (sor_rows ldbl lc)) (length (sor_rows ldbl lc)) (length (sor_rows ldbl lp)) (length (sor_rows ldbl lu))
      {} {} st' li"
proof -
  have k: "cstr_ok ''projs''" "length ''projs'' < 2 ^ 31" "cstr_ok ''usrs''" "length ''usrs'' < 2 ^ 31" "cstr_ok ''comts''" "length ''comts'' < 2 ^ 31"
    by (simp_all add: cstr_ok_def)
  obtain projects st1 where 1: "fromFile pageSize files ldbl args (cluster_put 0) PROJ (Key_lit ''projs'' 0) st = Inr (projects, st1)"
    "cluster_inv (numNodes args) 0 st1" "loaded args ''projs'' (infer_types lp) (sor_rows ldbl lp) st1 projects"
    "stored args ''projs'' (infer_types lp) (sor_rows ldbl lp) st1"
    using read_file [where files = files and name = PROJ, OF p i A k(1,2), of ldbl] by blast
  obtain users st2 where 2: "fromFile pageSize files ldbl args (cluster_put 0) USER (Key_lit ''usrs'' 0) st1 = Inr (users, st2)"
    "cluster_inv (numNodes args) 0 st2" "loaded args ''usrs'' (infer_types lu) (sor_rows ldbl lu) st2 users"
    "stored args ''usrs'' (infer_types lu) (sor_rows ldbl lu) st2" "only_changes args ''usrs'' st1 st2"
    using read_file [where files = files and name = USER, OF u 1(2) A k(3,4), of ldbl] by blast
  obtain commits st3 where 3: "fromFile pageSize files ldbl args (cluster_put 0) COMM (Key_lit ''comts'' 0) st2 = Inr (commits, st3)"
    "cluster_inv (numNodes args) 0 st3" "loaded args ''comts'' (infer_types lc) (sor_rows ldbl lc) st3 commits"
    "stored args ''comts'' (infer_types lc) (sor_rows ldbl lc) st3" "only_changes args ''comts'' st2 st3"
    using read_file [where files = files and name = COMM, OF c(1,2) 2(2) A k(5,6), of ldbl] by blast
  have sh: "short_name ''users-0-0''" "length [of_nat LINUS :: u32] = 1" "(1 :: nat) \<le> 10 ^ 6" by (simp_all add: short_name_def cstr_ok_def)
  obtain df st4 where 4: "fromArray_ints args (cluster_put 0) (Key_lit ''users-0-0'' 0) 1 [of_nat LINUS] st3 = Inr (df, st4)" "cluster_inv (numNodes args) 0 st4"
    "frame_stored args (arr_base ''users-0-0'') [Integer] [map IElem [of_nat LINUS]] 1 (Key_lit ''users-0-0'' 0) (cluster_val (numNodes args) st4)"
    "\<forall>key. key \<noteq> Key_lit ''users-0-0'' 0 \<longrightarrow> (\<forall>i. key \<noteq> block_key args (arr_base ''users-0-0'' 0) 0 i) \<longrightarrow>
      cluster_val (numNodes args) st4 key = cluster_val (numNodes args) st3 key"
    using put_ints [OF 3(2) A sh] by blast
  note o4 = only_changesI(2) [OF 4(4)]
  have e: "cols_of [Integer] (elems_from 0 4 {LINUS}) = [map IElem [of_nat LINUS]]"
    by (simp add: elems_from_def cols_of_def LINUS_def eval_nat_numeral)
  have ss: "set_stored args ''users-0-0'' 4 {LINUS} st4"
    unfolding set_stored_def e using 4(3) by (auto simp: LINUS_def int_max_def)
  have "stored args ''projs'' (infer_types lp) (sor_rows ldbl lp) st4"
    using stored_keep [OF stored_keep [OF stored_keep [OF 1(4) 2(5) input_clear(1)] 3(5) input_clear(2)] o4 input_clear(3)] .
  moreover have "stored args ''usrs'' (infer_types lu) (sor_rows ldbl lu) st4"
    using stored_keep [OF stored_keep [OF 2(4) 3(5) input_clear(4)] o4 input_clear(5)] .
  moreover have "stored args ''comts'' [Integer, Integer, Integer] (sor_rows ldbl lc) st4"
    using stored_keep [OF 3(4) o4 input_clear(6)] unfolding c(3) .
  moreover have "loaded args ''comts'' [Integer, Integer, Integer] (sor_rows ldbl lc) st4 commits"
    using loaded_keep [OF 3(3) o4 input_clear(6)] unfolding c(3) .
  moreover have "nrows projects = length (sor_rows ldbl lp)" "nrows users = length (sor_rows ldbl lu)" using 1(3) 2(3) by (simp_all add: loaded_def)
  moreover obtain li where "Linus_sets projects users commits = Inr li"
    "node_ok args (cols_of [Integer, Integer, Integer] (sor_rows ldbl lc)) (length (sor_rows ldbl lc)) (length (sor_rows ldbl lp)) (length (sor_rows ldbl lu)) {} {} st4 li"
    using new_node [OF calculation(4,5,6)] by blast
  moreover have "Linus_read_files pageSize files ldbl args (cluster_put 0) st = Inr (li, st4)"
    using 1(1) 2(1) 3(1) 4(1) calculation(7) by (simp add: Linus_read_files_def fromInt_def input_keys)
  ultimately show ?thesis using 4(2) ss by blast
qed

text \<open>The other nodes.\<close>

lemma read_frames_ok:
  assumes s: "stored args ''projs'' tp rp st" "stored args ''usrs'' tu ru st" "stored args ''comts'' [Integer, Integer, Integer] rc st"
    and i: "cluster_inv (numNodes args) j st" and A: "sizes_ok args"
  shows "\<exists>li st'. Linus_read_frames (cluster_get j) st = Inr (li, st') \<and> cluster_inv (numNodes args) j st' \<and>
    cluster_val (numNodes args) st' = cluster_val (numNodes args) st \<and>
    node_ok args (cols_of [Integer, Integer, Integer] rc) (length rc) (length rp) (length ru) {} {} st' li"
proof -
  obtain projects st1 where 1: "waitAndGet (cluster_get j) (Key_lit ''projs'' 0) st = Inr (projects, st1)" "cluster_inv (numNodes args) j st1"
    "cluster_val (numNodes args) st1 = cluster_val (numNodes args) st" "loaded args ''projs'' tp rp st1 projects"
    using fetch [OF s(1) i A] by blast
  obtain users st2 where 2: "waitAndGet (cluster_get j) (Key_lit ''usrs'' 0) st1 = Inr (users, st2)" "cluster_inv (numNodes args) j st2"
    "cluster_val (numNodes args) st2 = cluster_val (numNodes args) st1" "loaded args ''usrs'' tu ru st2 users"
    using fetch [OF stored_same [OF s(2) 1(3)] 1(2) A] by blast
  have v: "cluster_val (numNodes args) st2 = cluster_val (numNodes args) st" using 1(3) 2(3) by simp
  obtain commits st3 where 3: "waitAndGet (cluster_get j) (Key_lit ''comts'' 0) st2 = Inr (commits, st3)" "cluster_inv (numNodes args) j st3"
    "cluster_val (numNodes args) st3 = cluster_val (numNodes args) st2" "loaded args ''comts'' [Integer, Integer, Integer] rc st3 commits"
    using fetch [OF stored_same [OF s(3) v] 2(2) A] by blast
  have n: "nrows projects = length rp" "nrows users = length ru" using 1(4) 2(4) by (simp_all add: loaded_def)
  obtain li where "Linus_sets projects users commits = Inr li"
    "node_ok args (cols_of [Integer, Integer, Integer] rc) (length rc) (length rp) (length ru) {} {} st3 li"
    using new_node [OF 3(4) n] by blast
  then show ?thesis using 1(1) 2(1) 3(1-3) v by (auto simp: Linus_read_frames_def input_keys)
qed

section \<open>The whole program\<close>

lemma sor_rows_image: "infer_types ls = us \<Longrightarrow> row_at (cols_of us (sor_rows ldbl ls)) ` {..<length (sor_rows ldbl ls)} = set (sor_rows ldbl ls)"
proof -
  assume us: "infer_types ls = us"
  have "row_at (cols_of us (sor_rows ldbl ls)) i = sor_rows ldbl ls ! i" if i: "i < length (sor_rows ldbl ls)" for i
  proof -
    have "sor_rows ldbl ls ! i \<in> set (sor_rows ldbl ls)" using i by simp
    then have "length (sor_rows ldbl ls ! i) = length us"
      using us by (auto simp: sor_rows_def row_values_def fits_def line_types_def dest: list_all2_lengthD)
    then show ?thesis using row_at_cols_of i by blast
  qed
  then have "row_at (cols_of us (sor_rows ldbl ls)) ` {..<length (sor_rows ldbl ls)} = (!) (sor_rows ldbl ls) ` {0..<length (sor_rows ldbl ls)}"
    by (intro image_cong) auto
  then show ?thesis by (simp add: nth_image_all)
qed


text \<open>Three projects, five users, five commits: Linus (user 3) and user 1 share project 2, users 1 and 0 share
  project 1, and user 4 is alone in project 0.\<close>

definition ints_line :: "char list list \<Rightarrow> line" where
  "ints_line ts = (map (\<lambda>t. ([], t)) ts, [])"

definition sample_projects :: "line list" where
  "sample_projects = map ints_line [[''a''], [''b''], [''c'']]"

definition sample_users :: "line list" where
  "sample_users = map ints_line [[''u''], [''v''], [''w''], [''linus''], [''x'']]"

definition sample_commits :: "line list" where
  "sample_commits = map ints_line [[''2'', ''3'', ''3''], [''2'', ''1'', ''2''], [''1'', ''1'', ''2''], [''1'', ''0'', ''2''], [''0'', ''4'', ''2'']]"

lemma sample_commit_types: "infer_types sample_commits = [Integer, Integer, Integer]"
proof -
  have "map line_types sample_commits = [[Integer, Integer, Integer], [Integer, Boolean, Integer], [Boolean, Boolean, Integer], [Boolean, Boolean, Integer], [Boolean, Integer, Integer]]"
    by (simp add: sample_commits_def ints_line_def line_types_def line_texts_def scan_defs)
  moreover have "take 500 sample_commits = sample_commits" by (simp add: sample_commits_def)
  ultimately show ?thesis by (simp add: infer_types_def max_def less_eq_DataType_def)
qed

lemma sample_names: "infer_types sample_projects = [Str]" "infer_types sample_users = [Str]"
proof -
  have "map line_types sample_projects = replicate 3 [Str]" "map line_types sample_users = replicate 5 [Str]"
    by (simp_all add: sample_projects_def sample_users_def ints_line_def line_types_def line_texts_def scan_defs eval_nat_numeral)
  moreover have "take 500 sample_projects = sample_projects" "take 500 sample_users = sample_users"
    by (simp_all add: sample_projects_def sample_users_def)
  ultimately show "infer_types sample_projects = [Str]" "infer_types sample_users = [Str]"
    by (simp_all add: infer_types_def eval_nat_numeral)
qed

lemma sample_files_ok: "file_ok 4096 sample_projects" "file_ok 4096 sample_users" "file_ok 4096 sample_commits"
  unfolding file_ok_def sample_names sample_commit_types
  by (simp_all add: sample_projects_def sample_users_def sample_commits_def ints_line_def junk_ok_def text_ok_def row_end_def)

lemma sample_commit_rows: "sor_rows ldbl sample_commits =
  [[IElem 2, IElem 3, IElem 3], [IElem 2, IElem 1, IElem 2], [IElem 1, IElem 1, IElem 2], [IElem 1, IElem 0, IElem 2], [IElem 0, IElem 4, IElem 2]]"
proof -
  have f: "filter (\<lambda>l. fits [Integer, Integer, Integer] (line_types l)) sample_commits = sample_commits"
    by (simp add: sample_commits_def ints_line_def line_types_def line_texts_def scan_defs fits_def less_eq_DataType_def)
  show ?thesis unfolding sor_rows_def sample_commit_types f
    by (simp add: sample_commits_def ints_line_def line_texts_def row_values_def scan_defs)
qed

lemma sample_name_rows: "length (sor_rows ldbl sample_projects) = 3" "length (sor_rows ldbl sample_users) = 5"
proof -
  have "filter (\<lambda>l. fits [Str] (line_types l)) sample_projects = sample_projects" "filter (\<lambda>l. fits [Str] (line_types l)) sample_users = sample_users"
    by (simp_all add: sample_projects_def sample_users_def ints_line_def line_types_def line_texts_def scan_defs fits_def less_eq_DataType_def)
  then show "length (sor_rows ldbl sample_projects) = 3" "length (sor_rows ldbl sample_users) = 5"
    unfolding sor_rows_def sample_names by (simp_all add: sample_projects_def sample_users_def)
qed

lemma small_index: "int_to_size_t 0 = 0" "int_to_size_t 1 = 1" "int_to_size_t 2 = 2" "int_to_size_t 3 = 3" "int_to_size_t 4 = 4"
  using int_to_size_t_of_nat [of 0] int_to_size_t_of_nat [of 1] int_to_size_t_of_nat [of 2] int_to_size_t_of_nat [of 3] int_to_size_t_of_nat [of 4]
  by (simp_all add: int_max_def)

lemma marks_insert: "marks sc tc m A {} = {}"
  "marks sc tc m A (insert x rows) = (if idx_at sc x < m \<longrightarrow> idx_at sc x \<in> A then insert (idx_at tc x) (marks sc tc m A rows) else marks sc tc m A rows)"
  by (auto simp: marks_def)

lemma sample_reached: "reached (set (sor_rows ldbl sample_commits)) 3 5 {LINUS} DEGREES = ({}, {0, 1, 3}, {1, 2})"
proof -
  let ?R = "set (sor_rows ldbl sample_commits)"
  note S = new_projects_def new_users_def sample_commit_rows marks_insert idx_at_def small_index
  have 1: "reached ?R 3 5 {LINUS} (Suc 0) = ({1, 3}, {1, 3}, {2})" by (auto simp: S LINUS_def Let_def)
  have 2: "reached ?R 3 5 {LINUS} (Suc (Suc 0)) = ({0}, {0, 1, 3}, {1, 2})" by (subst reached.simps, subst 1) (auto simp: S Let_def)
  have 3: "reached ?R 3 5 {LINUS} (Suc (Suc (Suc 0))) = ({}, {0, 1, 3}, {1, 2})" by (subst reached.simps, subst 2) (auto simp: S Let_def)
  have "reached ?R 3 5 {LINUS} (Suc (Suc (Suc (Suc 0)))) = ({}, {0, 1, 3}, {1, 2})" by (subst reached.simps, subst 3) (auto simp: S Let_def)
  then show ?thesis by (simp add: DEGREES_def eval_nat_numeral)
qed


end
