(* ===== verification/Entry.thy ===== *)
theory Entry
  imports WordCount Trivial LinusInput Args Network
begin

text \<open>
  The entry point of the program (\<open>entry.cpp\<close>): the command line is read, and the process either
  starts one thread per node on the pseudo network, all with the application that was named, or is
  one node on the socket network. What the threads do from there is \<open>Runs\<close> for any interleaving, and
  \<open>wordcount_run\<close>, \<open>linus_run\<close>, \<open>Trivial_run\<close> and the demos for one order of their calls.
\<close>

section \<open>Applications\<close>

datatype Application = TrivialApp | DemoApp | DemoLocalMapApp | WordCountApp | LinusApp

definition initializeApplication :: "Args \<Rightarrow> Application res" where
  "initializeApplication args =
     (case appName args of
        None \<Rightarrow> Inl NullDeref
      | Some name \<Rightarrow>
          if name = ''trivial'' then Inr TrivialApp
          else if name = ''demo'' then Inr DemoApp
          else if name = ''demoLM'' then Inr DemoLocalMapApp
          else if name = ''wordcount'' then Inr WordCountApp
          else if name = ''linus'' then Inr LinusApp
          else Inl (Exit 0))"

section \<open>main\<close>

text \<open>The fields of the global \<open>args\<close> that the socket network reads.\<close>

definition net_args :: "Args \<Rightarrow> NetArgs" where
  "net_args args =
     \<lparr>na_index = of_nat (index args), na_ip = ip args, na_port = of_nat (port args),
      na_serverIndex = of_nat (serverIdx args), na_serverIp = serverIp args,
      na_serverPort = of_nat (serverPort args), na_numNodes = numNodes args\<rparr>"

datatype Started =
    Threads "Application list" Cluster
  | Process Application Network

definition runPseudo :: "Args \<Rightarrow> Started res" where
  "runPseudo args =
     res_bind (Cluster_init (numNodes args)) (\<lambda>c.
     res_bind (res_map (\<lambda>i. initializeApplication args) [0..<numNodes args]) (\<lambda>apps. Inr (Threads apps c)))"

definition main_start :: "pton \<Rightarrow> char list list \<Rightarrow> (Args \<times> Started) res" where
  "main_start pton argv =
     res_bind (Args_parse argv Args_default) (\<lambda>args.
       if usePseudoNet args then res_bind (runPseudo args) (\<lambda>s. Inr (args, s))
       else
         res_bind (Network_new pton (net_args args)) (\<lambda>net.
         res_bind (initializeApplication args) (\<lambda>a. Inr (args, Process a net))))"

section \<open>How a process starts\<close>

lemma initializeApplication_simps [simp]:
  "appName a = Some ''trivial'' \<Longrightarrow> initializeApplication a = Inr TrivialApp"
  "appName a = Some ''demo'' \<Longrightarrow> initializeApplication a = Inr DemoApp"
  "appName a = Some ''demoLM'' \<Longrightarrow> initializeApplication a = Inr DemoLocalMapApp"
  "appName a = Some ''wordcount'' \<Longrightarrow> initializeApplication a = Inr WordCountApp"
  "appName a = Some ''linus'' \<Longrightarrow> initializeApplication a = Inr LinusApp"
  "appName a = None \<Longrightarrow> initializeApplication a = Inl NullDeref"
  by (simp_all add: initializeApplication_def)

lemma initializeApplication_unknown:
  "appName a = Some name \<Longrightarrow> name \<notin> {''trivial'', ''demo'', ''demoLM'', ''wordcount'', ''linus''} \<Longrightarrow>
   initializeApplication a = Inl (Exit 0)"
  by (simp add: initializeApplication_def)

text \<open>With the pseudo network every node gets the application, and the cluster starts idle and empty.\<close>

lemma main_start_threads:
  assumes "Args_ok a" and "usePseudoNet a" and "0 < numNodes a" and "initializeApplication a = Inr app"
  shows "\<exists>c. main_start pton (Args_print a) = Inr (a, Threads (replicate (numNodes a) app) c) \<and>
    Cluster_init (numNodes a) = Inr c \<and> (\<forall>i < numNodes a. cluster_inv (numNodes a) i c) \<and>
    cluster_val (numNodes a) c = Map.empty"
proof -
  have n: "numNodes a < 2 ^ 64" using assms(1) by (simp add: Args_ok_def)
  obtain c where c: "Cluster_init (numNodes a) = Inr c" "cluster_inv (numNodes a) 0 c" "cluster_val (numNodes a) c = Map.empty"
    using cluster_start [OF assms(3) n] by blast
  have "res_map (\<lambda>i. initializeApplication a) [0..<numNodes a] = Inr (replicate (numNodes a) app)"
    using res_map_total [of "[0..<numNodes a]" "\<lambda>i. initializeApplication a" "\<lambda>_. app"] assms(4) by (simp add: map_replicate_const)
  with c cluster_inv_node [OF c(2)] assms(2) show ?thesis
    by (simp add: main_start_def runPseudo_def Args_parse_print [OF assms(1)])
qed

text \<open>A name that is no application, or none, stops the process; nothing has been put into the store.\<close>

lemma main_start_unknown:
  assumes "Args_ok a" and "usePseudoNet a" and "0 < numNodes a" and "initializeApplication a = Inl e"
  shows "main_start pton (Args_print a) = Inl e"
proof -
  have n: "numNodes a < 2 ^ 64" using assms(1) by (simp add: Args_ok_def)
  obtain c where c: "Cluster_init (numNodes a) = Inr c" using cluster_start [OF assms(3) n] by blast
  have "[0..<numNodes a] = 0 # [1..<numNodes a]" using assms(3) upt_conv_Cons by simp
  then have "res_map (\<lambda>i. initializeApplication a) [0..<numNodes a] = Inl e" using assms(4) by simp
  with c assms(2) show ?thesis
    by (simp add: main_start_def runPseudo_def Args_parse_print [OF assms(1)])
qed

text \<open>On sockets the process is one node that knows the address of the server and no other.\<close>

lemma main_start_process:
  assumes "Args_ok a" and "\<not> usePseudoNet a" and "args_ok pton (net_args a) own server" and "initializeApplication a = Inr app"
  shows "\<exists>net. main_start pton (Args_print a) = Inr (a, Process app net) \<and> Network_inv net \<and>
    Map_abs (nw_dir net) = [of_nat (serverIdx a) \<mapsto> node_addr server (of_nat (serverPort a))] \<and>
    nw_addr net = node_addr own (of_nat (port a))"
proof -
  obtain net where "Network_new pton (net_args a) = Inr net" "Network_inv net"
    "Map_abs (nw_dir net) = [na_serverIndex (net_args a) \<mapsto> node_addr server (na_serverPort (net_args a))]"
    "nw_addr net = node_addr own (na_port (net_args a))"
    using Network_new_inv [OF assms(3)] by blast
  with assms(2,4) show ?thesis
    by (simp add: main_start_def Args_parse_print [OF assms(1)] net_args_def)
qed

section \<open>Properties\<close>

text \<open>C34: The word count from the command line. Started with the options that spell out a
  configuration of the pseudo network (the application \<open>wordcount\<close>, any positive numbers of nodes and
  of rows in a block), the program gives every node the application and an empty store, and the run of
  the application from there ends with the number of different words of the file.\<close>

theorem word_count_from_command_line:
  assumes "Args_ok a" and "usePseudoNet a" and "appName a = Some ''wordcount''" and "0 < numNodes a" and "0 < blockSize a"
    and "files FILE_NAME = Some t" and "text_file t" and "length t < 2 ^ 31"
  shows "\<exists>c wc m wcs c'. main_start pton (Args_print a) = Inr (a, Threads (replicate (numNodes a) WordCountApp) c) \<and>
    WordCount_new = Inr wc \<and> wordcount_run files a (\<lambda>_. wc, c) = Inr (Some m, wcs, c') \<and> hm_size m = card (set (words t))"
proof -
  obtain c where c: "main_start pton (Args_print a) = Inr (a, Threads (replicate (numNodes a) WordCountApp) c)" "cluster_inv (numNodes a) 0 c"
    using main_start_threads [OF assms(1,2,4), of WordCountApp] assms(3,4) by auto
  obtain wc where wc: "WordCount_new = Inr wc" using WordCount_new_ok by blast
  have "blockSize a < 2 ^ 64" using assms(1) by (simp add: Args_ok_def)
  from wordcount_run_merges [where files = files, OF assms(6-8) c(2) assms(5) this wc] c(1) wc show ?thesis by blast
qed

lemma word_count_from_command_line_witness:
  "\<exists>c wc m wcs c'. main_start (\<lambda>_. None) (Args_print (Args_default\<lparr>appName := Some ''wordcount'', numNodes := 2, usePseudoNet := True\<rparr>)) =
      Inr (Args_default\<lparr>appName := Some ''wordcount'', numNodes := 2, usePseudoNet := True\<rparr>, Threads [WordCountApp, WordCountApp] c) \<and>
    WordCount_new = Inr wc \<and>
    wordcount_run (\<lambda>_. Some sample_text) (Args_default\<lparr>appName := Some ''wordcount'', numNodes := 2, usePseudoNet := True\<rparr>) (\<lambda>_. wc, c) =
      Inr (Some m, wcs, c') \<and> hm_size m = 2"
proof -
  let ?a = "Args_default\<lparr>appName := Some ''wordcount'', numNodes := 2, usePseudoNet := True\<rparr>"
  have a: "Args_ok ?a" "usePseudoNet ?a" "appName ?a = Some ''wordcount''" "0 < numNodes ?a" "0 < blockSize ?a"
    by (simp_all add: Args_ok_def Args_default_def)
  have "card (set (words sample_text)) = 2" by (simp add: sample_text_ok(2) card_insert_if)
  with word_count_from_command_line [where files = "\<lambda>_. Some sample_text" and pton = "\<lambda>_. None", OF a refl sample_text_ok(1,3)]
  show ?thesis by (simp add: numeral_2_eq_2)
qed

end
