(* ===== verification/SockCluster.thy ===== *)
theory SockCluster
  imports Runs
begin

text \<open>
  The whole program on the socket network (\<open>src/network/network.h\<close>): the same nodes and threads as in
  \<open>Cluster\<close>, each node a process with a \<open>Network\<close> object of its own. Outside the processes there are
  only the connections that wait at each listening socket, as the bytes that were sent on them; a
  connection to an address at which nobody listens fails. How \<open>read\<close> cuts the bytes of a connection
  is the parameter \<open>pieces\<close>.

  The socket network keeps the contract \<open>node_net\<close>, so that the theorems of \<open>ClusterNet\<close> hold for it
  as they do for the message queues: a program run on sockets does, step by step, what it does on the
  pseudo network.
\<close>

section \<open>Processes and connections\<close>

type_synonym sockets = "(NodeInfo \<times> char list list) list"

text \<open>\<open>connectToNode_\<close> and \<open>send\<close>: the bytes wait at the socket that listens at the address.\<close>

fun transmit :: "packet \<Rightarrow> sockets \<Rightarrow> sockets res" where
  "transmit p [] = Inl AssertFail"
| "transmit p ((addr, waiting) # w) =
     (if addr = fst p then Inr ((addr, waiting @ [snd p]) # w)
      else res_bind (transmit p w) (\<lambda>w. Inr ((addr, waiting) # w)))"

text \<open>The network object of a process, and what it acts on.\<close>

record SockNet =
  sn_args :: NetArgs
  sn_net :: Network
  sn_world :: sockets

definition sock_me :: "SockNet \<Rightarrow> u64" where "sock_me sn = na_index (sn_args sn)"

definition sock_flags :: "SockNet \<Rightarrow> bool list" where "sock_flags sn = nw_isNodeDone (sn_net sn)"

definition sock_send :: "Msg \<Rightarrow> SockNet \<Rightarrow> SockNet res" where
  "sock_send m sn =
     res_bind (Network_sendMsg m (sn_net sn)) (\<lambda>(p, net).
     res_bind (transmit p (sn_world sn)) (\<lambda>w. Inr (sn\<lparr>sn_net := net, sn_world := w\<rparr>)))"

text \<open>\<open>accept\<close> blocks while no connection waits.\<close>

definition sock_recv :: "(char list \<Rightarrow> char list option list) \<Rightarrow> SockNet \<Rightarrow> (Msg \<times> SockNet) res" where
  "sock_recv pieces sn =
     (let i = unat (sock_me sn); (addr, waiting) = sn_world sn ! i in
      case waiting of
        [] \<Rightarrow> Inl Diverges
      | bytes # rest \<Rightarrow>
          res_bind (Network_receiveMsg (pieces bytes) (sn_net sn)) (\<lambda>(m, net).
          Inr (m, sn\<lparr>sn_net := net, sn_world := (sn_world sn)[i := (addr, rest)]\<rparr>)))"

definition sock_handle :: "(Network \<Rightarrow> (packet list \<times> Network) res) \<Rightarrow> SockNet \<Rightarrow> SockNet res" where
  "sock_handle f sn =
     res_bind (f (sn_net sn)) (\<lambda>(ps, net).
     res_bind (res_fold transmit ps (sn_world sn)) (\<lambda>w. Inr (sn\<lparr>sn_net := net, sn_world := w\<rparr>)))"

definition sock_ops :: "SockNet INetwork" where
  "sock_ops =
     \<lparr>in_sendMsg = sock_send,
      in_handleRegisterMsg = \<lambda>m. sock_handle (\<lambda>net. res_bind (Network_handleRegisterMsg m net) (\<lambda>net. Inr ([], net))),
      in_handleDirectoryMsg = \<lambda>m. sock_handle (\<lambda>net. res_bind (Network_handleDirectoryMsg m net) (\<lambda>net. Inr ([], net))),
      in_handleDoneMsg = \<lambda>m sn. sock_handle (Network_handleDoneMsg (sn_args sn) m) sn\<rparr>"

section \<open>The program\<close>

record SockNode =
  sk_args :: NetArgs
  sk_net :: Network
  sk_kv :: KVStore
  sk_app :: AppState
  sk_receiving :: bool

record SockCluster =
  sc_world :: sockets
  sc_nodes :: "SockNode list"
  sc_got :: "(nat \<times> Key \<times> Value) list"

definition sock_net :: "SockCluster \<Rightarrow> nat \<Rightarrow> SockNet" where
  "sock_net c i = \<lparr>sn_args = sk_args (sc_nodes c ! i), sn_net = sk_net (sc_nodes c ! i), sn_world = sc_world c\<rparr>"

definition sock_back :: "nat \<Rightarrow> KVStore \<Rightarrow> SockNet \<Rightarrow> AppState \<Rightarrow> bool \<Rightarrow> SockCluster \<Rightarrow> SockCluster" where
  "sock_back i kv sn app rt c =
     c\<lparr>sc_world := sn_world sn,
       sc_nodes := (sc_nodes c)[i := \<lparr>sk_args = sk_args (sc_nodes c ! i), sk_net = sn_net sn, sk_kv = kv,
                                      sk_app = app, sk_receiving = rt\<rparr>]\<rparr>"

fun sock_perform :: "(char list \<Rightarrow> char list option list) \<Rightarrow> Action \<Rightarrow> SockCluster \<Rightarrow> SockCluster res" where
  "sock_perform pieces (Receive i) c =
     (let nd = sc_nodes c ! i in
      res_bind (sock_recv pieces (sock_net c i)) (\<lambda>(m, sn).
      res_bind (ReceiverThread_handle sock_ops (of_nat i) m (sk_kv nd, sn)) (\<lambda>(isDone, kv, sn).
      Inr (sock_back i kv sn (sk_app nd) (\<not> isDone) c))))"
| "sock_perform pieces (AppPut i k v) c =
     (let nd = sc_nodes c ! i in
      res_bind (KVStore_put sock_send k v (sk_kv nd) (sock_net c i)) (\<lambda>(kv, sn).
      Inr (sock_back i kv sn (sk_app nd) (sk_receiving nd) c)))"
| "sock_perform pieces (AppWaitAndGet i k) c =
     (let nd = sc_nodes c ! i in
      if k_homeNode k = kv_storeId (sk_kv nd) then
        res_bind (getLocalValue k True (sk_kv nd)) (\<lambda>v.
          case v of None \<Rightarrow> Inl AssertFail | Some v \<Rightarrow> Inr (c\<lparr>sc_got := (i, k, v) # sc_got c\<rparr>))
      else
        res_bind (getFromNetwork_request sock_send k True (sk_kv nd) (sock_net c i)) (\<lambda>sn.
        Inr (sock_back i (sk_kv nd) sn (Waiting k) (sk_receiving nd) c)))"
| "sock_perform pieces (AppResume i) c =
     (let nd = sc_nodes c ! i in
      case sk_app nd of
        Waiting k \<Rightarrow>
          res_bind (getFromNetwork_await k True (sk_kv nd)) (\<lambda>(v, kv).
            case v of
              None \<Rightarrow> Inl AssertFail
            | Some v \<Rightarrow>
                Inr (sock_back i kv (sock_net c i) Running (sk_receiving nd) (c\<lparr>sc_got := (i, k, v) # sc_got c\<rparr>)))
      | _ \<Rightarrow> Inl AssertFail)"
| "sock_perform pieces (AppFinish i) c =
     (let nd = sc_nodes c ! i in
      res_bind (sock_send (new_DoneMsg (of_nat i) serverIndex) (sock_net c i)) (\<lambda>sn.
      Inr (sock_back i (sk_kv nd) sn Finished (sk_receiving nd) c)))"

section \<open>Sockets are a network\<close>

lemma transmit_at:
  "distinct (map fst w) \<Longrightarrow> j < length w \<Longrightarrow>
   transmit (fst (w ! j), bs) w = Inr (w[j := (fst (w ! j), snd (w ! j) @ [bs])])"
proof (induction w arbitrary: j)
  case Nil
  then show ?case by simp
next
  case (Cons a w)
  show ?case
  proof (cases j)
    case 0
    then show ?thesis by (cases a) simp
  next
    case (Suc i)
    then have "i < length w" using Cons.prems(2) by simp
    then have "fst (w ! i) \<in> set (map fst w)" by (metis length_map nth_map nth_mem)
    moreover have "fst a \<notin> set (map fst w)" using Cons.prems(1) by simp
    ultimately have "fst a \<noteq> fst (w ! i)" by metis
    then show ?thesis using Cons.IH [of i] Cons.prems Suc by (cases a) simp
  qed
qed

lemma transmit_length: "transmit p w = Inr w' \<Longrightarrow> map fst w' = map fst w"
  by (induction w arbitrary: w') (auto simp: res_bind_Inr_iff split: if_splits)

text \<open>A connection carries a message; the sockets listen at \<open>addrs\<close> and hold the messages \<open>qs\<close>.\<close>

definition carries :: "char list \<Rightarrow> Msg \<Rightarrow> bool" where
  "carries bs m \<longleftrightarrow> Msg_ok m \<and> bs = enc_Frame m"

definition sockets_hold :: "NodeInfo list \<Rightarrow> sockets \<Rightarrow> Msg list list \<Rightarrow> bool" where
  "sockets_hold addrs w qs \<longleftrightarrow> map fst w = addrs \<and> distinct addrs \<and> length w = length qs \<and>
     (\<forall>j < length qs. list_all2 carries (snd (w ! j)) (qs ! j))"

lemma sockets_hold_upd:
  assumes "sockets_hold addrs w qs" and "j < length qs" and "list_all2 carries bss ms"
  shows "sockets_hold addrs (w[j := (fst (w ! j), bss)]) (qs[j := ms])"
proof -
  have "map fst (w[j := (fst (w ! j), bss)]) = map fst w"
    using assms(1,2) by (simp add: map_update sockets_hold_def flip: nth_map)
  with assms show ?thesis by (auto simp: sockets_hold_def nth_list_update)
qed

lemma transmit_hold:
  assumes "sockets_hold addrs w qs" and "j < length qs" and "Msg_ok m"
  shows "\<exists>w'. transmit (addrs ! j, enc_Frame m) w = Inr w' \<and> sockets_hold addrs w' (qs[j := qs ! j @ [m]])"
proof -
  have w: "distinct (map fst w)" "j < length w" "fst (w ! j) = addrs ! j" "list_all2 carries (snd (w ! j)) (qs ! j)"
    using assms(1,2) by (auto simp: sockets_hold_def)
  have "list_all2 carries (snd (w ! j) @ [enc_Frame m]) (qs ! j @ [m])"
    using w(4) assms(3) by (simp add: list_all2_appendI carries_def)
  from sockets_hold_upd [OF assms(1,2) this] transmit_at [OF w(1,2), of "enc_Frame m"] show ?thesis
    unfolding w(3) by blast
qed

text \<open>What holds of the network object of every node once all know each other.\<close>

definition sock_repr :: "NodeInfo list \<Rightarrow> SockNet \<Rightarrow> Msg list list \<Rightarrow> bool" where
  "sock_repr addrs sn qs \<longleftrightarrow> Network_inv (sn_net sn) \<and> sockets_hold addrs (sn_world sn) qs \<and>
     na_numNodes (sn_args sn) = length qs \<and> na_serverIndex (sn_args sn) = 0 \<and>
     (\<forall>j < length qs. Map_abs (nw_dir (sn_net sn)) (of_nat j) = Some (addrs ! j))"

lemma sock_send_repr:
  assumes r: "sock_repr addrs sn qs" and t: "unat (getTarget m) < length qs" and ok: "Msg_ok m"
  shows "\<exists>sn'. sock_send m sn = Inr sn' \<and> sock_repr addrs sn' (qs[unat (getTarget m) := qs ! unat (getTarget m) @ [m]])"
proof -
  note R = r [unfolded sock_repr_def]
  let ?j = "unat (getTarget m)"
  have "Map_abs (nw_dir (sn_net sn)) (getTarget m) = Some (addrs ! ?j)"
    using R t spec [of "\<lambda>j. j < length qs \<longrightarrow> Map_abs (nw_dir (sn_net sn)) (of_nat j) = Some (addrs ! j)" ?j] by simp
  then obtain net where net: "Network_sendMsg m (sn_net sn) = Inr ((addrs ! ?j, enc_Frame m), net)" "Network_inv net"
    "nw_dir net = nw_dir (sn_net sn)"
    using Network_sendMsg_frame [OF _ ok] R by blast
  obtain w where "transmit (addrs ! ?j, enc_Frame m) (sn_world sn) = Inr w" "sockets_hold addrs w (qs[?j := qs ! ?j @ [m]])"
    using transmit_hold [OF _ t ok] R by blast
  with net R show ?thesis by (simp add: sock_send_def sock_repr_def)
qed

lemma sock_send_frame:
  "sock_send m sn = Inr sn' \<Longrightarrow> sock_flags sn' = sock_flags sn \<and> sock_me sn' = sock_me sn"
  by (auto simp: sock_send_def Network_sendMsg_def res_bind_Inr_iff sock_flags_def sock_me_def)

lemma teardown_all:
  assumes "sockets_hold addrs w qs" and "k \<le> length qs" and "\<And>i. Msg_ok (f i)"
  shows "\<exists>w'. res_fold transmit (map (\<lambda>i. (addrs ! i, enc_Frame (f i))) [0..<k]) w = Inr w' \<and>
    sockets_hold addrs w' (map (\<lambda>i. if i < k then qs ! i @ [f i] else qs ! i) [0..<length qs])"
  using assms(2)
proof (induction k)
  case 0
  then show ?case using assms(1) by (simp add: map_nth)
next
  case (Suc k)
  let ?qs = "\<lambda>k. map (\<lambda>i. if i < k then qs ! i @ [f i] else qs ! i) [0..<length qs]"
  obtain w1 where w1: "res_fold transmit (map (\<lambda>i. (addrs ! i, enc_Frame (f i))) [0..<k]) w = Inr w1" "sockets_hold addrs w1 (?qs k)"
    using Suc by auto
  have k: "k < length (?qs k)" using Suc.prems by simp
  have "(?qs k)[k := ?qs k ! k @ [f k]] = ?qs (Suc k)"
    using Suc.prems by (intro nth_equalityI) (auto simp: nth_list_update less_Suc_eq)
  with transmit_hold [OF w1(2) k assms(3) [of k]] w1(1) show ?case by (auto simp: res_fold_append)
qed

text \<open>The parameters: what \<open>read\<close> returns on a connection delivers its bytes; no two sockets share an address.\<close>

locale tcp =
  fixes pieces :: "char list \<Rightarrow> char list option list" and addrs :: "NodeInfo list"
  assumes pieces: "bs \<noteq> [] \<Longrightarrow> delivers (pieces bs) bs"
begin

lemma recv_repr:
  assumes r: "sock_repr addrs sn qs" and i: "i < length qs" "sock_me sn = of_nat i" "length qs < 2 ^ 64" and q: "qs ! i = m # ms"
  shows "\<exists>sn'. sock_recv pieces sn = Inr (m, sn') \<and> sock_repr addrs sn' (qs[i := ms]) \<and>
    sock_me sn' = sock_me sn \<and> sock_flags sn' = sock_flags sn"
proof -
  note R = r [unfolded sock_repr_def]
  let ?w = "sn_world sn"
  have h: "sockets_hold addrs ?w qs" using R by blast
  have u: "unat (sock_me sn) = i" using i by simp
  have "list_all2 carries (snd (?w ! i)) (m # ms)" using h i(1) q by (auto simp: sockets_hold_def)
  then obtain bss where b: "snd (?w ! i) = enc_Frame m # bss" "Msg_ok m" "list_all2 carries bss ms"
    by (auto simp: list_all2_Cons2 carries_def)
  obtain net where net: "Network_receiveMsg (pieces (enc_Frame m)) (sn_net sn) = Inr (m, net)" "Network_inv net"
    "nw_dir net = nw_dir (sn_net sn)" "nw_isNodeDone net = nw_isNodeDone (sn_net sn)"
    using Network_receiveMsg_frame [OF _ b(2) pieces] R by (metis enc_Frame_not_Nil)
  obtain a where a: "?w ! i = (a, enc_Frame m # bss)" using b(1) by (cases "?w ! i") auto
  then have "sock_recv pieces sn = Inr (m, sn\<lparr>sn_net := net, sn_world := ?w[i := (fst (?w ! i), bss)]\<rparr>)"
    using net(1) by (simp add: sock_recv_def u)
  with sockets_hold_upd [OF h i(1) b(3)] net R show ?thesis
    by (simp add: sock_repr_def sock_me_def sock_flags_def)
qed

lemma done_repr:
  assumes r: "sock_repr addrs sn qs" and n: "sock_me sn = 0" "length qs < 2 ^ 64" "length (sock_flags sn) = length qs"
    and s: "unat (m_sender h) < length qs"
  shows "\<exists>sn'. in_handleDoneMsg sock_ops (DoneMsg h) sn = Inr sn' \<and>
    sock_repr addrs sn' (if list_all id ((sock_flags sn)[unat (m_sender h) := True])
      then map (\<lambda>i. qs ! i @ [new_TeardownMsg 0 (of_nat i)]) [0..<length qs] else qs) \<and>
    sock_flags sn' = (sock_flags sn)[unat (m_sender h) := True] \<and> sock_me sn' = sock_me sn"
proof -
  note R = r [unfolded sock_repr_def]
  let ?all = "list_all id ((sock_flags sn)[unat (m_sender h) := True])"
  let ?f = "\<lambda>i. new_TeardownMsg 0 (of_nat i)"
  have eq: "Network_handleDoneMsg (sn_args sn) (DoneMsg h) = Network_handleDoneMsg (sn_args sn) (new_DoneMsg (m_sender h) 0)"
    by (simp add: fun_eq_iff Network_handleDoneMsg_def new_DoneMsg_def getSender_def)
  have a: "na_index (sn_args sn) = na_serverIndex (sn_args sn)" "na_index (sn_args sn) = 0" using n(1) R by (simp_all add: sock_me_def)
  have l: "length (nw_isNodeDone (sn_net sn)) = na_numNodes (sn_args sn)" "unat (m_sender h) < na_numNodes (sn_args sn)"
    "\<forall>i < na_numNodes (sn_args sn). Map_abs (nw_dir (sn_net sn)) (of_nat i) \<noteq> None"
    using n(3) R s by (simp_all add: sock_flags_def)
  have p: "map (\<lambda>i. (the (Map_abs (nw_dir (sn_net sn)) (of_nat i)), enc_Frame (?f i))) [0..<length qs] =
      map (\<lambda>i. (addrs ! i, enc_Frame (?f i))) [0..<length qs]" using R by simp
  have nn: "na_numNodes (sn_args sn) = length qs" using R by blast
  obtain net where net: "Network_handleDoneMsg (sn_args sn) (DoneMsg h) (sn_net sn) =
      Inr (if ?all then map (\<lambda>i. (addrs ! i, enc_Frame (?f i))) [0..<length qs] else [], net)"
    "Network_inv net" "nw_dir net = nw_dir (sn_net sn)" "nw_isNodeDone net = (sock_flags sn)[unat (m_sender h) := True]"
    using Network_handleDoneMsg_ok [OF _ a(1) l, of 0] R unfolding eq a(2) nn p sock_flags_def by blast
  have h: "sockets_hold addrs (sn_world sn) qs" using R by blast
  have m: "map (\<lambda>i. if i < length qs then qs ! i @ [?f i] else qs ! i) [0..<length qs] = map (\<lambda>i. qs ! i @ [?f i]) [0..<length qs]"
    by simp
  obtain w where w: "res_fold transmit (if ?all then map (\<lambda>i. (addrs ! i, enc_Frame (?f i))) [0..<length qs] else []) (sn_world sn) = Inr w"
    "sockets_hold addrs w (if ?all then map (\<lambda>i. qs ! i @ [?f i]) [0..<length qs] else qs)"
    using teardown_all [OF h le_refl, of ?f] h unfolding m by (cases ?all) auto
  show ?thesis
    using net w(1) w(2) R by (simp add: sock_ops_def sock_handle_def sock_repr_def sock_flags_def sock_me_def)
qed

end

sublocale tcp \<subseteq> sock_node: node_net sock_ops "sock_repr addrs" "sock_recv pieces" sock_me sock_flags
proof unfold_locales
  fix sn qs m ms i sn' and h :: Message
  show "sock_repr addrs sn qs \<Longrightarrow> unat (getTarget m) < length qs \<Longrightarrow> Msg_ok m \<Longrightarrow>
    \<exists>n'. in_sendMsg sock_ops m sn = Inr n' \<and> sock_repr addrs n' (qs[unat (getTarget m) := qs ! unat (getTarget m) @ [m]])"
    using sock_send_repr by (simp add: sock_ops_def)
  show "in_sendMsg sock_ops m sn = Inr sn' \<Longrightarrow> sock_flags sn' = sock_flags sn \<and> sock_me sn' = sock_me sn"
    using sock_send_frame by (simp add: sock_ops_def)
qed (rule recv_repr done_repr; assumption)+

sublocale tcp \<subseteq> sock_cluster: cluster_net sock_ops "sock_repr addrs" "sock_recv pieces" sock_me sock_flags
  "\<lambda>c. length (sc_nodes c)" sock_net "\<lambda>c i. sk_kv (sc_nodes c ! i)" "\<lambda>c i. sk_app (sc_nodes c ! i)"
  "\<lambda>c i. sk_receiving (sc_nodes c ! i)" sc_got sock_back "\<lambda>g c. c\<lparr>sc_got := g # sc_got c\<rparr>" "sock_perform pieces"
proof unfold_locales
  fix c i j x sn a r g k v and qs qs' :: "Msg list list"
  show "length (sc_nodes (sock_back i x sn a r c)) = length (sc_nodes c)" "sc_got (sock_back i x sn a r c) = sc_got c"
    by (simp_all add: sock_back_def)
  show "sk_kv (sc_nodes (sock_back i x sn a r c) ! j) = (if j = i then x else sk_kv (sc_nodes c ! j)) \<and>
      sk_app (sc_nodes (sock_back i x sn a r c) ! j) = (if j = i then a else sk_app (sc_nodes c ! j)) \<and>
      sk_receiving (sc_nodes (sock_back i x sn a r c) ! j) = (if j = i then r else sk_receiving (sc_nodes c ! j)) \<and>
      sock_flags (sock_net (sock_back i x sn a r c) j) = (if j = i then sock_flags sn else sock_flags (sock_net c j))"
    if "i < length (sc_nodes c)" "j < length (sc_nodes c)"
    using that by (auto simp: sock_back_def sock_flags_def sock_net_def)
  show "sock_repr addrs (sock_net (sock_back i x sn a r c) j) qs' \<and> sock_me (sock_net (sock_back i x sn a r c) j) = sock_me (sock_net c j)"
    if "i < length (sc_nodes c)" "j < length (sc_nodes c)" "sock_repr addrs (sock_net c j) qs" "sock_repr addrs sn qs'" "length qs' = length qs"
    using that by (cases "j = i") (simp_all add: sock_repr_def sock_back_def sock_net_def sock_me_def)
  show "length (sc_nodes (c\<lparr>sc_got := g # sc_got c\<rparr>)) = length (sc_nodes c)" "sock_net (c\<lparr>sc_got := g # sc_got c\<rparr>) = sock_net c"
    "(\<lambda>i. sk_kv (sc_nodes (c\<lparr>sc_got := g # sc_got c\<rparr>) ! i)) = (\<lambda>i. sk_kv (sc_nodes c ! i))"
    "(\<lambda>i. sk_app (sc_nodes (c\<lparr>sc_got := g # sc_got c\<rparr>) ! i)) = (\<lambda>i. sk_app (sc_nodes c ! i))"
    "(\<lambda>i. sk_receiving (sc_nodes (c\<lparr>sc_got := g # sc_got c\<rparr>) ! i)) = (\<lambda>i. sk_receiving (sc_nodes c ! i))"
    "sc_got (c\<lparr>sc_got := g # sc_got c\<rparr>) = g # sc_got c"
    by (simp_all add: sock_net_def fun_eq_iff)
qed (simp_all add: sock_ops_def sock_net_def Let_def cong: AppState.case_cong)

section \<open>Runs on sockets\<close>

context cluster_net
begin

text \<open>Whatever the order of the steps, a cluster that implements an abstract state goes on doing so.\<close>

lemma sched_implements:
  assumes "implements c s" and "spec_inv s" and "sched as s"
  shows "\<exists>c'. res_fold perf as c = Inr c' \<and> implements c' (fold sp_step as s)"
  using assms
proof (induction as arbitrary: c s)
  case Nil
  then show ?case by simp
next
  case (Cons a as)
  then have e: "enabled a s" "sched as (sp_step a s)" by simp_all
  obtain c1 where "perf a c = Inr c1" "implements c1 (sp_step a s)" using perf_implements [OF Cons.prems(1,2) e(1)] by blast
  with Cons.IH [OF this(2) spec_inv_step [OF Cons.prems(2) e(1)] e(2)] show ?case by simp
qed

end

text \<open>A cluster of \<open>n\<close> processes that all know each other, before anything has been sent.\<close>

definition sock_node_new :: "nat \<Rightarrow> NodeInfo list \<Rightarrow> nat \<Rightarrow> SockNode \<Rightarrow> bool" where
  "sock_node_new n addrs i nd \<longleftrightarrow> na_index (sk_args nd) = of_nat i \<and> na_numNodes (sk_args nd) = n \<and> na_serverIndex (sk_args nd) = 0 \<and>
     Network_inv (sk_net nd) \<and> nw_isNodeDone (sk_net nd) = replicate n False \<and>
     (\<forall>j < n. Map_abs (nw_dir (sk_net nd)) (of_nat j) = Some (addrs ! j)) \<and>
     sk_kv nd = KVStore_new (of_nat i) \<and> sk_app nd = Running \<and> sk_receiving nd"

definition connected :: "nat \<Rightarrow> NodeInfo list \<Rightarrow> SockCluster \<Rightarrow> bool" where
  "connected n addrs c \<longleftrightarrow> sockets_hold addrs (sc_world c) (replicate n []) \<and> length (sc_nodes c) = n \<and> sc_got c = [] \<and>
     (\<forall>i < n. sock_node_new n addrs i (sc_nodes c ! i))"

text \<open>The two programs in corresponding states.\<close>

definition same_state :: "SockCluster \<Rightarrow> Cluster \<Rightarrow> bool" where
  "same_state c p \<longleftrightarrow> sc_got c = cl_got p \<and> length (sc_nodes c) = length (cl_nodes p) \<and> (\<forall>i < length (cl_nodes p).
     sk_app (sc_nodes c ! i) = nd_app (cl_nodes p ! i) \<and> sk_receiving (sc_nodes c ! i) = nd_receiving (cl_nodes p ! i) \<and>
     store_abs (sk_kv (sc_nodes c ! i)) = store_abs (nd_kv (cl_nodes p ! i)) \<and>
     cache_abs (sk_kv (sc_nodes c ! i)) = cache_abs (nd_kv (cl_nodes p ! i)))"

context tcp
begin

lemma connected_implements: "connected n addrs c \<Longrightarrow> sock_cluster.implements c (sp_init n)"
  by (auto simp: connected_def sock_node_new_def sock_cluster.implements_def sock_cluster.node_implements_def sp_init_def
      sock_net_def sock_repr_def sock_me_def sock_flags_def)

lemma implements_same_state:
  assumes "sock_cluster.implements c s" and "refines p s"
  shows "same_state c p"
  using assms by (simp add: same_state_def sock_cluster.implements_def sock_cluster.node_implements_def refines_def node_refines_def)

lemma sock_run:
  assumes "connected n addrs c" and "schedule n as"
  shows "\<exists>c' p. res_fold (sock_perform pieces) as c = Inr c' \<and> run n as = Inr p \<and> same_state c' p \<and>
    sock_cluster.implements c' (sp_run n as)"
proof -
  have n: "0 < n" "n < 2 ^ 64" "sched as (sp_init n)" using assms(2) by (simp_all add: schedule_def)
  obtain c' where c': "res_fold (sock_perform pieces) as c = Inr c'" "sock_cluster.implements c' (sp_run n as)"
    using sock_cluster.sched_implements [OF connected_implements [OF assms(1)] spec_inv_init [OF n(1,2)] n(3)]
    unfolding sp_run_def by blast
  obtain p where "run n as = Inr p" "refines p (sp_run n as)" using run_inv(1) [OF assms(2)] by blast
  with c' implements_same_state show ?thesis by blast
qed

end

text \<open>\<open>read\<close> may return all bytes at once, or one by one after two failures.\<close>

interpretation tcp_whole: tcp "\<lambda>bs. [Some bs]" addrs for addrs
  by unfold_locales (rule delivers_whole)

interpretation tcp_bytewise: tcp "\<lambda>bs. None # None # map (\<lambda>b. Some [b]) bs" addrs for addrs
proof unfold_locales
  fix bs :: "char list"
  show "delivers (None # None # map (\<lambda>b. Some [b]) bs) bs"
    unfolding delivers_def by (intro exI [of _ 2] exI [of _ "map (\<lambda>b. [b]) bs"]) (auto simp: numeral_2_eq_2)
qed

end
