(* ===== verification/SockBoot.thy ===== *)
theory SockBoot
  imports SockCluster
begin

text \<open>
  How a cluster on sockets comes up (\<open>NodeThread::run\<close>, \<open>Network::server_init\<close>, \<open>client_init\<close>): every
  process builds its \<open>Network\<close>; the clients register with the server, in any order; when all have, the
  server sends each the directory. Afterwards every process knows the address of every other
  (\<open>sock_boot_connected\<close>), which is what the runs in \<open>SockCluster\<close> start from.
\<close>

section \<open>The start of the processes\<close>

definition boot_register :: "pton \<Rightarrow> (nat \<Rightarrow> NetArgs) \<Rightarrow> nat \<Rightarrow> Network list \<times> sockets \<Rightarrow> (Network list \<times> sockets) res" where
  "boot_register pton args i = (\<lambda>(nets, w).
     res_bind (client_register pton (args i) (nets ! i)) (\<lambda>(p, net).
     res_bind (transmit p w) (\<lambda>w. Inr (nets[i := net], w))))"

definition boot_server :: "(char list \<Rightarrow> char list option list) \<Rightarrow> (nat \<Rightarrow> NetArgs) \<Rightarrow> Network list \<times> sockets \<Rightarrow> (Network list \<times> sockets) res" where
  "boot_server pieces args = (\<lambda>(nets, w).
     res_bind (server_init (args 0) (map pieces (snd (w ! 0))) (nets ! 0)) (\<lambda>(ps, net).
     res_bind (res_fold transmit ps (w[0 := (fst (w ! 0), [])])) (\<lambda>w. Inr (nets[0 := net], w))))"

definition boot_client :: "(char list \<Rightarrow> char list option list) \<Rightarrow> nat \<Rightarrow> Network list \<times> sockets \<Rightarrow> (Network list \<times> sockets) res" where
  "boot_client pieces i = (\<lambda>(nets, w).
     case snd (w ! i) of
       [] \<Rightarrow> Inl Diverges
     | bytes # rest \<Rightarrow>
         res_bind (client_directory (pieces bytes) (nets ! i)) (\<lambda>net.
         Inr (nets[i := net], w[i := (fst (w ! i), rest)])))"

definition sock_boot ::
    "(char list \<Rightarrow> char list option list) \<Rightarrow> pton \<Rightarrow> (nat \<Rightarrow> NetArgs) \<Rightarrow> nat \<Rightarrow> nat list \<Rightarrow> SockCluster res" where
  "sock_boot pieces pton args n order =
     res_bind (res_map (\<lambda>i. Network_new pton (args i)) [0..<n]) (\<lambda>nets.
     res_bind (res_fold (boot_register pton args) order (nets, map (\<lambda>net. (nw_addr net, [])) nets)) (\<lambda>st.
     res_bind (boot_server pieces args st) (\<lambda>st.
     res_bind (res_fold (boot_client pieces) order st) (\<lambda>(nets, w).
     Inr \<lparr>sc_world = w,
          sc_nodes = map (\<lambda>i. \<lparr>sk_args = args i, sk_net = nets ! i, sk_kv = KVStore_new (of_nat i),
            sk_app = Running, sk_receiving = True\<rparr>) [0..<n],
          sc_got = []\<rparr>))))"

text \<open>
  The same start with another order of the same steps: client \<open>i\<close>, who has its directory, sends the
  message \<open>m\<close> before the server has sent the directory to the clients after \<open>i\<close>.
\<close>

definition sock_boot_early ::
    "(char list \<Rightarrow> char list option list) \<Rightarrow> pton \<Rightarrow> (nat \<Rightarrow> NetArgs) \<Rightarrow> nat \<Rightarrow> nat list \<Rightarrow> nat \<Rightarrow> Msg \<Rightarrow> (Network list \<times> sockets) res" where
  "sock_boot_early pieces pton args n order i m =
     res_bind (res_map (\<lambda>i. Network_new pton (args i)) [0..<n]) (\<lambda>nets.
     res_bind (res_fold (boot_register pton args) order (nets, map (\<lambda>net. (nw_addr net, [])) nets)) (\<lambda>(nets, w).
     res_bind (server_init (args 0) (map pieces (snd (w ! 0))) (nets ! 0)) (\<lambda>(ps, net).
     res_bind (res_fold transmit (take i ps) (w[0 := (fst (w ! 0), [])])) (\<lambda>w.
     res_bind (boot_client pieces i (nets[0 := net], w)) (\<lambda>(nets, w).
     res_bind (Network_sendMsg m (nets ! i)) (\<lambda>(p, net).
     res_bind (transmit p w) (\<lambda>w.
     res_bind (res_fold transmit (drop i ps) w) (\<lambda>w.
     Inr (nets[i := net], w)))))))))"

section \<open>A configuration that can come up\<close>

text \<open>
  Node \<open>i\<close> listens at \<open>own i\<close> and the port \<open>prt\<close>. The port is that of the server for all of them, since
  that is the one \<open>client_init\<close> registers.
\<close>

definition boot_addr :: "(nat \<Rightarrow> u32) \<Rightarrow> u64 \<Rightarrow> nat \<Rightarrow> NodeInfo" where
  "boot_addr own prt i = node_addr (own i) prt"

definition boot_args_ok :: "pton \<Rightarrow> (nat \<Rightarrow> NetArgs) \<Rightarrow> (nat \<Rightarrow> u32) \<Rightarrow> u64 \<Rightarrow> nat \<Rightarrow> bool" where
  "boot_args_ok pton args own prt n \<longleftrightarrow> 0 < n \<and> n < 2 ^ 64 \<and> inj_on own {..<n} \<and>
     (\<forall>i < n. na_index (args i) = of_nat i \<and> na_numNodes (args i) = n \<and> na_serverIndex (args i) = 0 \<and>
        na_port (args i) = prt \<and> na_serverPort (args i) = prt \<and> args_ok pton (args i) (own i) (own 0))"

definition boot_addrs :: "(nat \<Rightarrow> u32) \<Rightarrow> u64 \<Rightarrow> nat \<Rightarrow> NodeInfo list" where
  "boot_addrs own prt n = map (boot_addr own prt) [0..<n]"

lemma boot_addrs_simps [simp]:
  "length (boot_addrs own prt n) = n" "i < n \<Longrightarrow> boot_addrs own prt n ! i = boot_addr own prt i"
  by (simp_all add: boot_addrs_def)

lemma boot_addrs_distinct: "inj_on own {..<n} \<Longrightarrow> distinct (boot_addrs own prt n)"
  by (auto simp: boot_addrs_def boot_addr_def node_addr_def distinct_map inj_on_def)

text \<open>A network object that has no one done, and knows the addresses \<open>dir\<close>.\<close>

definition net_knows :: "nat \<Rightarrow> Network \<Rightarrow> (u64 \<rightharpoonup> NodeInfo) \<Rightarrow> bool" where
  "net_knows n net dir \<longleftrightarrow> Network_inv net \<and> nw_isNodeDone net = replicate n False \<and> Map_abs (nw_dir net) = dir"

text \<open>The sockets listen at \<open>addrs\<close>; the bytes waiting at socket \<open>i\<close> are \<open>f i\<close>.\<close>

definition listening :: "NodeInfo list \<Rightarrow> (nat \<Rightarrow> char list list) \<Rightarrow> sockets \<Rightarrow> bool" where
  "listening addrs f w \<longleftrightarrow> distinct addrs \<and> w = map (\<lambda>i. (addrs ! i, f i)) [0..<length addrs]"

lemma listening_nth: "listening addrs f w \<Longrightarrow> i < length addrs \<Longrightarrow> w ! i = (addrs ! i, f i)"
  by (simp add: listening_def)

lemma listening_upd:
  "listening addrs f w \<Longrightarrow> i < length addrs \<Longrightarrow> listening addrs (f(i := x)) (w[i := (addrs ! i, x)])"
  by (auto simp: listening_def intro!: nth_equalityI simp: nth_list_update)

lemma listening_transmit:
  assumes "listening addrs f w" and "i < length addrs"
  shows "\<exists>w'. transmit (addrs ! i, bs) w = Inr w' \<and> listening addrs (f(i := f i @ [bs])) w'"
proof -
  have w: "distinct (map fst w)" "i < length w" using assms by (simp_all add: listening_def comp_def map_nth)
  show ?thesis
    using transmit_at [OF w, of bs] listening_upd [OF assms, of "f i @ [bs]"] listening_nth [OF assms] by simp
qed

lemma listening_transmits:
  assumes "listening addrs f w" and "\<forall>i \<in> set is. i < length addrs" and "distinct is"
    and "list_all2 (\<lambda>i p. fst p = addrs ! i) is ps"
  shows "\<exists>w' g. res_fold transmit ps w = Inr w' \<and> listening addrs g w' \<and> (\<forall>j. j \<notin> set is \<longrightarrow> g j = f j) \<and>
    list_all2 (\<lambda>i p. g i = f i @ [snd p]) is ps"
  using assms
proof (induction "is" arbitrary: ps f w)
  case Nil
  then show ?case by auto
next
  case (Cons i "is")
  obtain bs qs where ps: "ps = (addrs ! i, bs) # qs" "list_all2 (\<lambda>i p. fst p = addrs ! i) is qs"
    using Cons.prems(4) by (auto simp: list_all2_Cons1)
  obtain w1 where w1: "transmit (addrs ! i, bs) w = Inr w1" "listening addrs (f(i := f i @ [bs])) w1"
    using listening_transmit [OF Cons.prems(1), of i bs] Cons.prems(2) by auto
  obtain w2 g where w2: "res_fold transmit qs w1 = Inr w2" "listening addrs g w2"
    "\<forall>j. j \<notin> set is \<longrightarrow> g j = (f(i := f i @ [bs])) j" "list_all2 (\<lambda>j p. g j = (f(i := f i @ [bs])) j @ [snd p]) is qs"
    using Cons.IH [OF w1(2) _ _ ps(2)] Cons.prems(2,3) by auto
  have "list_all2 (\<lambda>j p. g j = f j @ [snd p]) is qs"
    by (rule list.rel_mono_strong [OF w2(4)]) (use Cons.prems(3) in auto)
  with w1(1) w2 ps(1) Cons.prems(3) show ?case by auto
qed

section \<open>Coming up\<close>

definition boot_msg :: "(nat \<Rightarrow> u32) \<Rightarrow> u64 \<Rightarrow> nat \<Rightarrow> Message \<times> NodeInfo" where
  "boot_msg own prt i = (Message_new Register (of_nat i) 0, boot_addr own prt i)"

text \<open>The registrations, in the order they come in.\<close>

definition boot_msgs :: "(nat \<Rightarrow> u32) \<Rightarrow> u64 \<Rightarrow> nat list \<Rightarrow> char list list" where
  "boot_msgs own prt = map (\<lambda>i. enc_Frame (RegisterMsg (fst (boot_msg own prt i)) (snd (boot_msg own prt i))))"

lemma boot_nets:
  assumes "boot_args_ok pton args own prt n"
  shows "\<exists>nets. res_map (\<lambda>i. Network_new pton (args i)) [0..<n] = Inr nets \<and> length nets = n \<and>
    (\<forall>i < n. net_knows n (nets ! i) [0 \<mapsto> boot_addr own prt 0]) \<and>
    map (\<lambda>net. (nw_addr net, [] :: char list list)) nets = map (\<lambda>i. (boot_addrs own prt n ! i, [])) [0..<n]"
proof -
  have ok: "\<exists>net. Network_new pton (args i) = Inr net \<and> net_knows n net [0 \<mapsto> boot_addr own prt 0] \<and>
      nw_addr net = boot_addr own prt i" if "i < n" for i
    using assms that Network_new_inv [of pton "args i" "own i" "own 0"]
    by (auto simp: boot_args_ok_def net_knows_def boot_addr_def)
  define g where "g i = (SOME net. Network_new pton (args i) = Inr net \<and> net_knows n net [0 \<mapsto> boot_addr own prt 0] \<and>
      nw_addr net = boot_addr own prt i)" for i
  have g: "Network_new pton (args i) = Inr (g i) \<and> net_knows n (g i) [0 \<mapsto> boot_addr own prt 0] \<and> nw_addr (g i) = boot_addr own prt i"
    if "i < n" for i
    unfolding g_def by (rule someI_ex [OF ok [OF that]])
  have "res_map (\<lambda>i. Network_new pton (args i)) [0..<n] = Inr (map g [0..<n])"
    by (rule res_map_total) (use g in simp)
  then show ?thesis using g by auto
qed

text \<open>After the clients in \<open>is\<close> have registered.\<close>

lemma boot_registers:
  assumes b: "boot_args_ok pton args own prt n" and i: "\<forall>i \<in> set is. i < n"
    and nets: "length nets = n" "\<forall>i < n. net_knows n (nets ! i) [0 \<mapsto> boot_addr own prt 0]"
    and w: "listening (boot_addrs own prt n) f w"
  shows "\<exists>nets' w'. res_fold (boot_register pton args) is (nets, w) = Inr (nets', w') \<and> length nets' = n \<and>
    (\<forall>i < n. net_knows n (nets' ! i) [0 \<mapsto> boot_addr own prt 0]) \<and>
    listening (boot_addrs own prt n)
      (f(0 := f 0 @ boot_msgs own prt is)) w'"
  using i nets w
proof (induction "is" arbitrary: nets f w)
  case Nil
  then show ?case by (simp add: boot_msgs_def)
next
  case (Cons i "is")
  let ?m = "enc_Frame (RegisterMsg (fst (boot_msg own prt i)) (snd (boot_msg own prt i)))"
  have i: "i < n" using Cons.prems(1) by simp
  have a: "args_ok pton (args i) (own i) (own 0)" "na_index (args i) = of_nat i" "na_serverIndex (args i) = 0" "na_serverPort (args i) = prt"
    and n: "0 < n" using b i by (simp_all add: boot_args_ok_def)
  have net: "Network_inv (nets ! i)" "Map_abs (nw_dir (nets ! i)) (na_serverIndex (args i)) = Some (boot_addr own prt 0)"
    using Cons.prems(3) i a(3) by (simp_all add: net_knows_def)
  have m: "?m = enc_Frame (RegisterMsg (Message_new Register (na_index (args i)) (na_serverIndex (args i)))
      (node_addr (own i) (na_serverPort (args i))))"
    using a by (simp add: boot_msg_def boot_addr_def)
  obtain net' where net': "client_register pton (args i) (nets ! i) = Inr ((boot_addr own prt 0, ?m), net')" "Network_inv net'"
    "nw_dir net' = nw_dir (nets ! i)" "nw_isNodeDone net' = nw_isNodeDone (nets ! i)"
    using client_register_ok [OF net(1) a(1) net(2)] unfolding m by blast
  obtain w1 where w1: "transmit (boot_addrs own prt n ! 0, ?m) w = Inr w1"
    "listening (boot_addrs own prt n) (f(0 := f 0 @ [?m])) w1"
    using listening_transmit [OF Cons.prems(4), of 0 ?m] n by auto
  have "\<forall>j < n. net_knows n (nets[i := net'] ! j) [0 \<mapsto> boot_addr own prt 0]"
    using Cons.prems(3) i net'(2-4) Cons.prems(2) by (auto simp: nth_list_update net_knows_def)
  moreover have "\<forall>i \<in> set is. i < n" "length (nets[i := net']) = n" using Cons.prems(1,2) by simp_all
  ultimately have ih: "\<exists>nets' w'. res_fold (boot_register pton args) is (nets[i := net'], w1) = Inr (nets', w') \<and> length nets' = n \<and>
    (\<forall>i < n. net_knows n (nets' ! i) [0 \<mapsto> boot_addr own prt 0]) \<and>
    listening (boot_addrs own prt n)
      (f(0 := f 0 @ ?m # boot_msgs own prt is)) w'"
    using Cons.IH [OF _ _ _ w1(2), of "nets[i := net']"] unfolding fun_upd_upd fun_upd_same append_assoc append_Cons append_Nil by blast
  have e: "res_fold (boot_register pton args) (i # is) (nets, w) = res_fold (boot_register pton args) is (nets[i := net'], w1)"
    using net'(1) w1(1) n by (simp add: boot_register_def)
  show ?case unfolding e boot_msgs_def list.map by (rule ih [unfolded boot_msgs_def])
qed

text \<open>What every process knows in the end.\<close>

definition boot_dir :: "(nat \<Rightarrow> u32) \<Rightarrow> u64 \<Rightarrow> nat \<Rightarrow> u64 \<rightharpoonup> NodeInfo" where
  "boot_dir own prt n k = (if unat k < n then Some (boot_addr own prt (unat k)) else None)"

lemma map_of_nats:
  assumes "\<forall>i \<in> set is. i < 2 ^ 64"
  shows "map_of (map (\<lambda>i. (of_nat i :: u64, g i)) is) k = (if unat k \<in> set is then Some (g (unat k)) else None)"
  using assms by (induction "is") auto

lemma boot_dir_registered:
  assumes "0 < n" and "n < 2 ^ 64" and "set order = {1..<n}"
  shows "[0 \<mapsto> boot_addr own prt 0] ++ registrations (map (boot_msg own prt) order) = boot_dir own prt n"
proof
  fix k :: u64
  have "\<forall>i \<in> set order. i < 2 ^ 64" using assms by auto
  note m = map_of_nats [OF this, of "boot_addr own prt" k]
  have r: "registrations (map (boot_msg own prt) order) = map_of (map (\<lambda>i. (of_nat i, boot_addr own prt i)) order)"
    by (simp add: registrations_def boot_msg_def comp_def)
  show "([0 \<mapsto> boot_addr own prt 0] ++ registrations (map (boot_msg own prt) order)) k = boot_dir own prt n k"
    unfolding map_add_def r m using assms by (auto simp: boot_dir_def unat_eq_zero Suc_le_eq)
qed

context tcp
begin

text \<open>The server hears of every client and makes a packet for each.\<close>

lemma server_answers:
  assumes b: "boot_args_ok pton args own prt n" and o: "set order = {1..<n}" "distinct order"
    and net0: "net_knows n net0 [0 \<mapsto> boot_addr own prt 0]"
  shows "\<exists>ps net. server_init (args 0) (map pieces (boot_msgs own prt order)) net0 = Inr (ps, net) \<and>
    net_knows n net (boot_dir own prt n) \<and> list_all2 (\<lambda>i p. fst p = boot_addr own prt i) [1..<n] ps \<and>
    list_all2 (directory_packet (args 0) (nw_dir net)) [1..<n] ps"
proof -
  let ?rs = "map (boot_msg own prt) order"
  have n: "0 < n" "n < 2 ^ 64" and a: "na_numNodes (args 0) = n" "na_serverIndex (args 0) = 0"
    using b by (auto simp: boot_args_ok_def)
  note net = net0 [unfolded net_knows_def]
  have u: "unat (of_nat i :: u64) = i" if "i < n" for i using that n(2) by simp
  have inj: "inj_on (of_nat :: nat \<Rightarrow> u64) (set order)" using u o(1) by (intro inj_onI) (metis atLeastLessThan_iff)
  have len: "length order = n - 1" using distinct_card [OF o(2)] o(1) by simp
  have "hm_size (nw_dir net0) = 1"
    using Map_size_card [of SizeT_vt "\<lambda>_. True" "nw_dir net0"] net by (simp add: Network_inv_def Directory_inv_def)
  then have sz: "hm_size (nw_dir net0) + length ?rs < 2 ^ 64" using n len by simp
  have reg: "list_all2 registers (map pieces (boot_msgs own prt order)) ?rs"
    by (auto simp: boot_msgs_def list_all2_conv_all_nth registers_def boot_msg_def Message_new_def intro!: pieces)
  have dist: "distinct (map (m_sender \<circ> fst) ?rs)"
    using inj o(2) by (simp add: comp_def boot_msg_def distinct_map)
  have new: "\<forall>r \<in> set ?rs. Map_abs (nw_dir net0) (m_sender (fst r)) = None"
    using o(1) u net by (force simp: boot_msg_def)
  have all: "\<forall>i < na_numNodes (args 0). of_nat i \<noteq> na_serverIndex (args 0) \<longrightarrow> (\<exists>r \<in> set ?rs. m_sender (fst r) = of_nat i)"
  proof (intro allI impI)
    fix i assume "i < na_numNodes (args 0)" and "(of_nat i :: u64) \<noteq> na_serverIndex (args 0)"
    then have "i \<in> set order" using o(1) a by (cases "i = 0") auto
    then have "boot_msg own prt i \<in> set ?rs" by simp
    moreover have "m_sender (fst (boot_msg own prt i)) = of_nat i" by (simp add: boot_msg_def)
    ultimately show "\<exists>r \<in> set ?rs. m_sender (fst r) = of_nat i" by blast
  qed
  have l: "na_numNodes (args 0) - 1 = length ?rs" using a len by simp
  have i0: "Network_inv net0" "Map_abs (nw_dir net0) = [0 \<mapsto> boot_addr own prt 0]" "nw_isNodeDone net0 = replicate n False"
    using net by simp_all
  obtain ps net where s: "server_init (args 0) (map pieces (boot_msgs own prt order)) net0 = Inr (ps, net)" "Network_inv net"
    "nw_isNodeDone net = replicate n False" "Map_abs (nw_dir net) = boot_dir own prt n"
    "list_all2 (directory_packet (args 0) (nw_dir net)) (filter (\<lambda>i. of_nat i \<noteq> na_serverIndex (args 0)) [0..<na_numNodes (args 0)]) ps"
    using server_init_ok [OF i0(1) l reg dist new sz all] unfolding i0(2,3) boot_dir_registered [OF n o(1)] by blast
  have "filter (\<lambda>i. of_nat i \<noteq> (0 :: u64)) [0..<n] = filter (\<lambda>i. i \<noteq> 0) [0..<n]"
    using u n by (intro filter_cong) (auto simp flip: unat_eq_zero)
  also have "\<dots> = [1..<n]" using n(1) by (simp add: upt_conv_Cons)
  finally have ps: "list_all2 (directory_packet (args 0) (nw_dir net)) [1..<n] ps" using s(5) a by simp
  have "list_all2 (\<lambda>i p. fst p = boot_addr own prt i) [1..<n] ps"
    by (rule list.rel_mono_strong [OF ps]) (use u s(4) in \<open>auto simp: directory_packet_def boot_dir_def\<close>)
  with s(1-4) ps show ?thesis by (auto simp: net_knows_def)
qed

lemma boot_server_ok:
  assumes b: "boot_args_ok pton args own prt n" and o: "set order = {1..<n}" "distinct order"
    and nets: "length nets = n" "\<forall>i < n. net_knows n (nets ! i) [0 \<mapsto> boot_addr own prt 0]"
    and w: "listening (boot_addrs own prt n) ((\<lambda>_. [])(0 := boot_msgs own prt order)) w"
  shows "\<exists>net w' f dir. boot_server pieces args (nets, w) = Inr (nets[0 := net], w') \<and> net_knows n net (boot_dir own prt n) \<and>
    listening (boot_addrs own prt n) f w' \<and> f 0 = [] \<and> Map_abs dir = boot_dir own prt n \<and>
    (\<forall>i \<in> set order. \<exists>bytes. f i = [bytes] \<and> directory_packet (args 0) dir i (boot_addr own prt i, bytes))"
proof -
  let ?addrs = "boot_addrs own prt n"
  have n: "0 < n" using b by (simp add: boot_args_ok_def)
  have w0: "w ! 0 = (?addrs ! 0, boot_msgs own prt order)" using listening_nth [OF w] n by simp
  obtain ps net where s: "server_init (args 0) (map pieces (boot_msgs own prt order)) (nets ! 0) = Inr (ps, net)"
    "net_knows n net (boot_dir own prt n)" "list_all2 (\<lambda>i p. fst p = boot_addr own prt i) [1..<n] ps"
    "list_all2 (directory_packet (args 0) (nw_dir net)) [1..<n] ps"
    using server_answers [OF b o nets(2) [rule_format, OF n]] by blast
  have ps': "list_all2 (\<lambda>i p. fst p = ?addrs ! i) [1..<n] ps"
    by (rule list.rel_mono_strong [OF s(3)]) simp
  have L: "listening ?addrs (\<lambda>_. []) (w[0 := (fst (w ! 0), [])])"
    using listening_upd [OF w, of 0 "[]"] n w0 by (simp add: fun_upd_idem)
  have lt: "\<forall>i \<in> set [1..<n]. i < length ?addrs" by simp
  obtain w' g where w': "res_fold transmit ps (w[0 := (fst (w ! 0), [])]) = Inr w'" "listening ?addrs g w'"
    "\<forall>j. j \<notin> set [1..<n] \<longrightarrow> g j = []" "list_all2 (\<lambda>i p. g i = [] @ [snd p]) [1..<n] ps"
    using listening_transmits [OF L lt distinct_upt ps'] by blast
  have "\<exists>bytes. g i = [bytes] \<and> directory_packet (args 0) (nw_dir net) i (boot_addr own prt i, bytes)" if "i \<in> set order" for i
  proof -
    have "1 \<le> i" "i < n" using that o(1) by auto
    then have k: "[1..<n] ! (i - 1) = i" "i - 1 < length [1..<n]" by simp_all
    let ?p = "ps ! (i - 1)"
    have d: "directory_packet (args 0) (nw_dir net) i ?p" "g i = [snd ?p]" "fst ?p = boot_addr own prt i"
      using list_all2_nthD [OF s(4) k(2)] list_all2_nthD [OF w'(4) k(2)] list_all2_nthD [OF s(3) k(2)] k(1) by simp_all
    then have "?p = (boot_addr own prt i, snd ?p)" by (cases ?p) simp
    with d show ?thesis by metis
  qed
  moreover have "boot_server pieces args (nets, w) = Inr (nets[0 := net], w')"
    using s(1) w'(1) w0 by (simp add: boot_server_def)
  moreover have "g 0 = []" using w'(3) by simp
  moreover have "Map_abs (nw_dir net) = boot_dir own prt n" using s(2) by (simp add: net_knows_def)
  ultimately show ?thesis using w'(2) s(2) by blast
qed

lemma boot_client_ok:
  assumes "0 < n" and i: "i < length nets" and k: "net_knows n (nets ! i) [0 \<mapsto> boot_addr own prt 0]"
    and w: "w ! i = (a, bytes # rest)" and d: "Map_abs dir = boot_dir own prt n" "directory_packet (args 0) dir i (a, bytes)"
  shows "\<exists>net. boot_client pieces i (nets, w) = Inr (nets[i := net], w[i := (a, rest)]) \<and> net_knows n net (boot_dir own prt n)"
proof -
  have ne: "bytes \<noteq> []" using d(2) by (auto simp: directory_packet_def)
  have dl: "delivers (pieces bytes) (snd (a, bytes))" using pieces [OF ne] by simp
  obtain net where net: "client_directory (pieces bytes) (nets ! i) = Inr net" "Network_inv net"
    "Map_abs (nw_dir net) = [0 \<mapsto> boot_addr own prt 0] ++ boot_dir own prt n" "nw_isNodeDone net = replicate n False"
    using client_directory_ok [OF _ d(2) dl, of "nets ! i"] k d(1) by (auto simp: net_knows_def)
  have "[0 \<mapsto> boot_addr own prt 0] ++ boot_dir own prt n = boot_dir own prt n"
    using assms(1) by (auto simp: fun_eq_iff map_add_def boot_dir_def)
  with net show ?thesis by (intro exI [of _ net]) (simp add: boot_client_def w net_knows_def)
qed

lemma boot_clients:
  assumes n: "n < 2 ^ 64" and i: "\<forall>i \<in> set is. i < n" "distinct is"
    and nets: "length nets = n" "\<forall>i < n. net_knows n (nets ! i) (if i \<in> set is then [0 \<mapsto> boot_addr own prt 0] else boot_dir own prt n)"
    and w: "listening (boot_addrs own prt n) f w" "\<forall>i. i \<notin> set is \<longrightarrow> f i = []"
    and d: "Map_abs dir = boot_dir own prt n"
      "\<forall>i \<in> set is. \<exists>bytes. f i = [bytes] \<and> directory_packet (args 0) dir i (boot_addr own prt i, bytes)"
  shows "\<exists>nets' w'. res_fold (boot_client pieces) is (nets, w) = Inr (nets', w') \<and> length nets' = n \<and>
    (\<forall>i < n. net_knows n (nets' ! i) (boot_dir own prt n)) \<and> listening (boot_addrs own prt n) (\<lambda>_. []) w'"
  using i nets w d(2)
proof (induction "is" arbitrary: nets f w)
  case Nil
  then have "f = (\<lambda>_. [])" by auto
  with Nil show ?case by simp
next
  case (Cons i "is")
  have i: "i < n" using Cons.prems(1) by simp
  obtain bytes where bt: "f i = [bytes]" "directory_packet (args 0) dir i (boot_addr own prt i, bytes)" using Cons.prems(7) by auto
  have k: "net_knows n (nets ! i) [0 \<mapsto> boot_addr own prt 0]" using Cons.prems(4) [rule_format, OF i] by simp
  have wi: "w ! i = (boot_addrs own prt n ! i, [bytes])" using listening_nth [OF Cons.prems(5)] i bt(1) by simp
  have b: "directory_packet (args 0) dir i (boot_addrs own prt n ! i, bytes)" using bt(2) i by simp
  obtain net where step: "boot_client pieces i (nets, w) = Inr (nets[i := net], w[i := (boot_addrs own prt n ! i, [])])"
    and kn: "net_knows n net (boot_dir own prt n)"
    using boot_client_ok [where args = args, OF _ _ k wi d(1) b] i Cons.prems(3) by auto
  have kj: "\<forall>j < n. net_knows n (nets[i := net] ! j) (if j \<in> set is then [0 \<mapsto> boot_addr own prt 0] else boot_dir own prt n)"
  proof (intro allI impI)
    fix j assume j: "j < n"
    show "net_knows n (nets[i := net] ! j) (if j \<in> set is then [0 \<mapsto> boot_addr own prt 0] else boot_dir own prt n)"
      using Cons.prems(4) [rule_format, OF j] Cons.prems(2,3) kn j by (cases "j = i") simp_all
  qed
  have wj: "listening (boot_addrs own prt n) (f(i := [])) (w[i := (boot_addrs own prt n ! i, [])])"
    using listening_upd [OF Cons.prems(5)] i by simp
  have dj: "\<forall>j \<in> set is. \<exists>bytes. (f(i := [])) j = [bytes] \<and> directory_packet (args 0) dir j (boot_addr own prt j, bytes)"
    using Cons.prems(2,7) by auto
  have fj: "\<forall>j. j \<notin> set is \<longrightarrow> (f(i := [])) j = []" using Cons.prems(6) by simp
  have ij: "\<forall>j \<in> set is. j < n" "distinct is" "length (nets[i := net]) = n" using Cons.prems(1-3) by simp_all
  have e: "res_fold (boot_client pieces) (i # is) (nets, w) =
      res_fold (boot_client pieces) is (nets[i := net], w[i := (boot_addrs own prt n ! i, [])])"
    using step by simp
  show ?case unfolding e by (rule Cons.IH [OF ij kj wj fj dj])
qed

lemma sock_boot_connected:
  assumes b: "boot_args_ok pton args own prt n" and o: "set order = {1..<n}" "distinct order"
  shows "\<exists>c. sock_boot pieces pton args n order = Inr c \<and> connected n (boot_addrs own prt n) c"
proof -
  let ?addrs = "boot_addrs own prt n"
  have n: "0 < n" "n < 2 ^ 64" "inj_on own {..<n}" using b by (simp_all add: boot_args_ok_def)
  obtain nets where nets: "res_map (\<lambda>i. Network_new pton (args i)) [0..<n] = Inr nets" "length nets = n"
    "\<forall>i < n. net_knows n (nets ! i) [0 \<mapsto> boot_addr own prt 0]"
    "map (\<lambda>net. (nw_addr net, [] :: char list list)) nets = map (\<lambda>i. (?addrs ! i, [])) [0..<n]"
    using boot_nets [OF b] by blast
  have w: "listening ?addrs (\<lambda>_. []) (map (\<lambda>net. (nw_addr net, [])) nets)"
    using nets(4) boot_addrs_distinct [OF n(3)] by (simp add: listening_def)
  have io: "\<forall>i \<in> set order. i < n" using o(1) by simp
  obtain nets1 w1 where r: "res_fold (boot_register pton args) order (nets, map (\<lambda>net. (nw_addr net, [])) nets) = Inr (nets1, w1)"
    "length nets1 = n" "\<forall>i < n. net_knows n (nets1 ! i) [0 \<mapsto> boot_addr own prt 0]"
    "listening ?addrs ((\<lambda>_. [])(0 := boot_msgs own prt order)) w1"
    using boot_registers [OF b io nets(2,3) w] by auto
  obtain net w2 f dir where s: "boot_server pieces args (nets1, w1) = Inr (nets1[0 := net], w2)" "net_knows n net (boot_dir own prt n)"
    "listening ?addrs f w2" "f 0 = []" "Map_abs dir = boot_dir own prt n"
    "\<forall>i \<in> set order. \<exists>bytes. f i = [bytes] \<and> directory_packet (args 0) dir i (boot_addr own prt i, bytes)"
    using boot_server_ok [OF b o r(2-4)] by blast
  have k: "\<forall>i < n. net_knows n (nets1[0 := net] ! i) (if i \<in> set order then [0 \<mapsto> boot_addr own prt 0] else boot_dir own prt n)"
    using r(2,3) s(2) n(1) o(1) by (auto simp: nth_list_update)
  define f' where "f' i = (if i < n then f i else [])" for i
  have f': "listening ?addrs f' w2" using s(3) by (auto simp: listening_def f'_def)
  have z: "\<forall>i. i \<notin> set order \<longrightarrow> f' i = []" using s(4) o(1) by (auto simp: f'_def Suc_le_eq)
  have p: "\<forall>i \<in> set order. \<exists>bytes. f' i = [bytes] \<and> directory_packet (args 0) dir i (boot_addr own prt i, bytes)"
    using s(6) io by (simp add: f'_def)
  obtain nets3 w3 where c: "res_fold (boot_client pieces) order (nets1[0 := net], w2) = Inr (nets3, w3)" "length nets3 = n"
    "\<forall>i < n. net_knows n (nets3 ! i) (boot_dir own prt n)" "listening ?addrs (\<lambda>_. []) w3"
    using boot_clients [where f = f' and args = args, OF n(2) io o(2) _ k f' z s(5) p] r(2) by auto
  have "sockets_hold ?addrs w3 (replicate n [])"
    using c(4) boot_addrs_distinct [OF n(3)] map_nth [of ?addrs] by (simp add: listening_def sockets_hold_def comp_def)
  then show ?thesis
    using nets(1) r(1) s(1) c b n(2)
    by (auto simp: sock_boot_def connected_def sock_node_new_def boot_args_ok_def net_knows_def boot_dir_def)
qed

text \<open>A client to which another node sends before the server has.\<close>

lemma boot_client_refuses:
  assumes "Network_inv (nets ! i)" and "w ! i = (a, enc_Frame m # rest)" and "Msg_ok m" and "getKind m \<noteq> Dir"
  shows "boot_client pieces i (nets, w) = Inl AssertFail"
proof -
  obtain net where "Network_receiveMsg (pieces (enc_Frame m)) (nets ! i) = Inr (m, net)"
    using Network_receiveMsg_frame [OF assms(1,3) pieces] by (metis enc_Frame_not_Nil)
  then show ?thesis using assms(2,4) by (simp add: boot_client_def client_directory_def)
qed

lemma boot_early_refused:
  assumes b: "boot_args_ok pton args own prt n" and o: "set order = {1..<n}" "distinct order" and ij: "1 \<le> i" "i < j" "j < n"
    and m: "Msg_ok m" "getTarget m = of_nat j" "getKind m \<noteq> Dir"
  shows "\<exists>nets w. sock_boot_early pieces pton args n order i m = Inr (nets, w) \<and> boot_client pieces j (nets, w) = Inl AssertFail"
proof -
  let ?addrs = "boot_addrs own prt n"
  have n: "0 < n" "n < 2 ^ 64" "inj_on own {..<n}" using b by (simp_all add: boot_args_ok_def)
  have io: "\<forall>i \<in> set order. i < n" using o(1) by simp
  obtain nets where nets: "res_map (\<lambda>i. Network_new pton (args i)) [0..<n] = Inr nets" "length nets = n"
    "\<forall>i < n. net_knows n (nets ! i) [0 \<mapsto> boot_addr own prt 0]"
    "map (\<lambda>net. (nw_addr net, [] :: char list list)) nets = map (\<lambda>i. (?addrs ! i, [])) [0..<n]"
    using boot_nets [OF b] by blast
  have w: "listening ?addrs (\<lambda>_. []) (map (\<lambda>net. (nw_addr net, [])) nets)"
    using nets(4) boot_addrs_distinct [OF n(3)] by (simp add: listening_def)
  obtain nets1 w1 where r: "res_fold (boot_register pton args) order (nets, map (\<lambda>net. (nw_addr net, [])) nets) = Inr (nets1, w1)"
    "length nets1 = n" "\<forall>i < n. net_knows n (nets1 ! i) [0 \<mapsto> boot_addr own prt 0]"
    "listening ?addrs ((\<lambda>_. [])(0 := boot_msgs own prt order)) w1"
    using boot_registers [OF b io nets(2,3) w] by auto
  have w0: "w1 ! 0 = (?addrs ! 0, boot_msgs own prt order)" using listening_nth [OF r(4)] n by simp
  obtain ps net where s: "server_init (args 0) (map pieces (snd (w1 ! 0))) (nets1 ! 0) = Inr (ps, net)"
    "net_knows n net (boot_dir own prt n)" "list_all2 (\<lambda>i p. fst p = boot_addr own prt i) [1..<n] ps"
    "list_all2 (directory_packet (args 0) (nw_dir net)) [1..<n] ps"
    using server_answers [OF b o r(3) [rule_format, OF n(1)]] by (auto simp: w0)
  have ps: "list_all2 (\<lambda>i p. fst p = ?addrs ! i) [1..<n] ps"
    by (rule list.rel_mono_strong [OF s(3)]) simp
  have cut: "take i [1..<n] = [1..<Suc i]" "drop i [1..<n] = [Suc i..<n]" using ij by (simp_all add: take_upt)
  have L: "listening ?addrs (\<lambda>_. []) (w1[0 := (fst (w1 ! 0), [])])"
    using listening_upd [OF r(4), of 0 "[]"] n w0 by (simp add: fun_upd_idem)
  have lt: "\<forall>k \<in> set [1..<Suc i]. k < length ?addrs" "\<forall>k \<in> set [Suc i..<n]. k < length ?addrs" using ij by auto
  have p1: "list_all2 (\<lambda>i p. fst p = ?addrs ! i) [1..<Suc i] (take i ps)"
    and p2: "list_all2 (\<lambda>i p. fst p = ?addrs ! i) [Suc i..<n] (drop i ps)"
    using list_all2_takeI [OF ps, of i] list_all2_dropI [OF ps, of i] by (simp_all only: cut)
  obtain w2 g where w2: "res_fold transmit (take i ps) (w1[0 := (fst (w1 ! 0), [])]) = Inr w2" "listening ?addrs g w2"
    "\<forall>k. k \<notin> set [1..<Suc i] \<longrightarrow> g k = []" "list_all2 (\<lambda>k p. g k = [] @ [snd p]) [1..<Suc i] (take i ps)"
    using listening_transmits [OF L lt(1) distinct_upt p1] by blast
  have k: "i - 1 < length [1..<n]" "i - 1 < length [1..<Suc i]" "[1..<n] ! (i - 1) = i" "[1..<Suc i] ! (i - 1) = i" "take i ps ! (i - 1) = ps ! (i - 1)"
    using ij by (simp_all add: nth_append)
  have gi: "g i = [snd (ps ! (i - 1))]" using list_all2_nthD [OF w2(4) k(2)] k(4,5) by simp
  have di: "directory_packet (args 0) (nw_dir net) i (?addrs ! i, snd (ps ! (i - 1)))"
    using list_all2_nthD [OF s(4) k(1)] list_all2_nthD [OF ps k(1)] k(3) by (metis prod.collapse)
  let ?nets = "nets1[0 := net]"
  have ni: "i < length ?nets" "net_knows n (?nets ! i) [0 \<mapsto> boot_addr own prt 0]" using r(2,3) ij by simp_all
  have nj: "Network_inv (nets1 ! j)" using r(3) ij by (simp add: net_knows_def)
  have wi: "w2 ! i = (?addrs ! i, [snd (ps ! (i - 1))])" using listening_nth [OF w2(2), of i] gi ij by simp
  have dn: "Map_abs (nw_dir net) = boot_dir own prt n" using s(2) by (simp add: net_knows_def)
  obtain neti where c: "boot_client pieces i (?nets, w2) = Inr (?nets[i := neti], w2[i := (?addrs ! i, [])])"
    "net_knows n neti (boot_dir own prt n)"
    using boot_client_ok [where args = args, OF n(1) ni wi dn di] by blast
  have t: "Network_inv neti" "Map_abs (nw_dir neti) (getTarget m) = Some (?addrs ! j)"
    using c(2) ij n(2) by (simp_all add: net_knows_def m(2) boot_dir_def)
  obtain neti' where m': "Network_sendMsg m neti = Inr ((?addrs ! j, enc_Frame m), neti')"
    using Network_sendMsg_frame [OF t(1) m(1) t(2)] by blast
  have lj: "j < length ?addrs" "i < length ?addrs" "i < length ?nets" using ij r(2) by simp_all
  note w3 = listening_upd [OF w2(2) lj(2), of "[]"]
  obtain w4 where w4: "transmit (?addrs ! j, enc_Frame m) (w2[i := (?addrs ! i, [])]) = Inr w4"
    "listening ?addrs ((g(i := []))(j := (g(i := [])) j @ [enc_Frame m])) w4"
    using listening_transmit [OF w3 lj(1)] by blast
  obtain w5 h where w5: "res_fold transmit (drop i ps) w4 = Inr w5" "listening ?addrs h w5"
    "list_all2 (\<lambda>k p. h k = ((g(i := []))(j := (g(i := [])) j @ [enc_Frame m])) k @ [snd p]) [Suc i..<n] (drop i ps)"
    using listening_transmits [OF w4(2) lt(2) distinct_upt p2] by blast
  have q: "j - Suc i < length [Suc i..<n]" "[Suc i..<n] ! (j - Suc i) = j" using ij by simp_all
  have gj: "(g(i := [])) j = []" using w2(3) ij by simp
  have hj: "h j = [enc_Frame m, snd (drop i ps ! (j - Suc i))]"
    using list_all2_nthD [OF w5(3) q(1)] unfolding q(2) gj by simp
  have wj: "w5 ! j = (?addrs ! j, [enc_Frame m, snd (drop i ps ! (j - Suc i))])"
    using listening_nth [OF w5(2) lj(1)] unfolding hj .
  have "Network_inv (?nets[i := neti'] ! j)" using nj ij by simp
  from boot_client_refuses [OF this wj m(1,3)]
  have "boot_client pieces j (?nets[i := neti'], w5) = Inl AssertFail" .
  moreover have "sock_boot_early pieces pton args n order i m = Inr (?nets[i := neti'], w5)"
    using nets(1) r(1) s(1) w2(1) c(1) m' w4(1) w5(1) lj(3) by (simp add: sock_boot_early_def)
  ultimately show ?thesis by blast
qed

end

section \<open>What is shown\<close>

text \<open>Two processes, whose reads return all bytes at once.\<close>

definition demo_own :: "nat \<Rightarrow> u32" where "demo_own i = (if i = 0 then 16777343 else 33554559)"

lemma demo_boot: "boot_args_ok demo_pton (\<lambda>i. demo_args (of_nat i)) demo_own 8080 2" "set [1 :: nat] = {1..<2}" "distinct [1 :: nat]"
proof -
  have "args_ok demo_pton (demo_args (of_nat i)) (demo_own i) (demo_own 0)" if "i < 2" for i
    using demo_args_ok [of "of_nat i"] that by (auto simp: less_2_cases_iff demo_own_def)
  then show "boot_args_ok demo_pton (\<lambda>i. demo_args (of_nat i)) demo_own 8080 2"
    by (auto simp: boot_args_ok_def inj_on_def less_2_cases_iff demo_own_def demo_args_def)
qed auto

lemma whole_pieces: "\<forall>bs. bs \<noteq> [] \<longrightarrow> delivers [Some bs] bs"
  by (simp add: delivers_whole)

text \<open>C16: A program started on sockets does what it does on the pseudo network. The processes build
  their networks, register in any order and get the directory; from there, in any order of the steps of the receivers and the applications, every step returns normally although
  \<open>read\<close> cuts the bytes in any way, the same values are returned by the blocking gets, and every node has the same
  stored values, parked requests and state of its threads as in the run over the message queues.\<close>

theorem sockets_run_like_queues:
  assumes "\<forall>bs. bs \<noteq> [] \<longrightarrow> delivers (pieces bs) bs" and "boot_args_ok pton args own prt n"
    and "set order = {1..<n}" and "distinct order" and "schedule n as"
  shows "\<exists>c c' p. sock_boot pieces pton args n order = Inr c \<and> res_fold (sock_perform pieces) as c = Inr c' \<and>
    run n as = Inr p \<and> same_state c' p"
proof -
  have t: "tcp pieces" by unfold_locales (use assms(1) in blast)
  obtain c where "sock_boot pieces pton args n order = Inr c" "connected n (boot_addrs own prt n) c"
    using tcp.sock_boot_connected [OF t assms(2-4)] by blast
  then show ?thesis using tcp.sock_run [OF t _ assms(5)] by blast
qed

lemma sockets_run_like_queues_witness:
  "\<exists>c c' p. sock_boot (\<lambda>bs. [Some bs]) demo_pton (\<lambda>i. demo_args (of_nat i)) 2 [1] = Inr c \<and>
    res_fold (sock_perform (\<lambda>bs. [Some bs])) demo_end c = Inr c' \<and> run 2 demo_end = Inr p \<and> same_state c' p"
  by (rule sockets_run_like_queues [OF whole_pieces demo_boot demo_schedules(3)])

text \<open>C39: The start can fail. The server sends the directory to one client after the other, and a client
  that has it starts its application at once. If that client sends any message to a client to which the server has not come yet, the
  message arrives first, and the second client stops at the assertion that the first thing it
  receives is the directory.\<close>

theorem early_message_stops_client:
  assumes "\<forall>bs. bs \<noteq> [] \<longrightarrow> delivers (pieces bs) bs" and "boot_args_ok pton args own prt n"
    and "set order = {1..<n}" and "distinct order" and "1 \<le> i" and "i < j" and "j < n"
    and "Msg_ok m" and "getTarget m = of_nat j" and "getKind m \<noteq> Dir"
  shows "\<exists>nets w. sock_boot_early pieces pton args n order i m = Inr (nets, w) \<and>
    boot_client pieces j (nets, w) = Inl AssertFail"
proof -
  have t: "tcp pieces" by unfold_locales (use assms(1) in blast)
  show ?thesis by (rule tcp.boot_early_refused [OF t assms(2-10)])
qed

definition demo_early_pton :: pton where
  "demo_early_pton = [''127.0.0.1'' \<mapsto> 0, ''127.0.0.2'' \<mapsto> 1, ''127.0.0.3'' \<mapsto> 2]"

definition demo_early_args :: "nat \<Rightarrow> NetArgs" where
  "demo_early_args i = \<lparr>na_index = of_nat i, na_ip = Some ([''127.0.0.1'', ''127.0.0.2'', ''127.0.0.3''] ! i), na_port = 8080,
     na_serverIndex = 0, na_serverIp = Some ''127.0.0.1'', na_serverPort = 8080, na_numNodes = 3\<rparr>"

lemma early_message_stops_client_witness:
  "\<exists>nets w. sock_boot_early (\<lambda>bs. [Some bs]) demo_early_pton demo_early_args 3 [2, 1] 1 (WaitAndGetMsg (Message_new WaitAndGet 1 2) demo_key) = Inr (nets, w) \<and>
    boot_client (\<lambda>bs. [Some bs]) 2 (nets, w) = Inl AssertFail"
proof (rule early_message_stops_client [OF whole_pieces, of _ _ of_nat 8080])
  show "boot_args_ok demo_early_pton demo_early_args of_nat 8080 3"
    by (auto simp: boot_args_ok_def inj_on_def numeral_3_eq_3 less_Suc_eq demo_early_args_def demo_early_pton_def args_ok_def)
qed (auto simp: cstr_ok_def demo_defs Msg_ok_def getKind_def)

end
