(* ===== verification/SockFrames.thy ===== *)
theory SockFrames
  imports SockBoot FrameProps
begin

text \<open>
  Data frames on sockets. A cluster on any network that keeps the contract of \<open>ClusterNet\<close> is a store
  as \<open>kv_client\<close> describes it, when one node at a time stores or reads and its messages are handled one after
  the other; so what the data layer proves in \<open>kv_client\<close> holds of the processes that \<open>SockBoot\<close> starts.
\<close>

section \<open>A store over a network\<close>

text \<open>\<open>cluster_put\<close> and \<open>cluster_get\<close> for any network.\<close>

definition net_put :: "(Action \<Rightarrow> 'c \<Rightarrow> 'c res) \<Rightarrow> nat \<Rightarrow> Key \<Rightarrow> Value \<Rightarrow> 'c \<Rightarrow> 'c res" where
  "net_put perf i k v = res_fold perf (AppPut i k v # (if home k = i then [] else [Receive (home k)]))"

definition net_get ::
    "(Action \<Rightarrow> 'c \<Rightarrow> 'c res) \<Rightarrow> ('c \<Rightarrow> (nat \<times> Key \<times> Value) list) \<Rightarrow> nat \<Rightarrow> Key \<Rightarrow> 'c \<Rightarrow> (Value option \<times> 'c) res" where
  "net_get perf got i k c =
     res_bind (res_fold perf
       (AppWaitAndGet i k # (if home k = i then [] else [Receive (home k), Receive i, AppResume i])) c) (\<lambda>c.
     Inr (map_option (\<lambda>(_, _, v). v) (case got c of [] \<Rightarrow> None | g # _ \<Rightarrow> Some g), c))"

lemma cluster_put_net: "cluster_put = net_put perform" and cluster_get_net: "cluster_get = net_get perform cl_got"
  by (simp_all add: fun_eq_iff cluster_put_def net_put_def cluster_get_def net_get_def)

lemma sp_steps_length: "length (sp_q (fold sp_step as s)) = length (sp_q s)"
  by (induction as arbitrary: s) (simp_all del: sp_step.simps)

context cluster_net
begin

definition net_inv :: "nat \<Rightarrow> nat \<Rightarrow> 'c \<Rightarrow> bool" where
  "net_inv n i c \<longleftrightarrow> 0 < n \<and> n < 2 ^ 64 \<and> i < n \<and>
     (\<exists>s. implements c s \<and> spec_inv s \<and> length (sp_q s) = n \<and> idle s \<and> (\<forall>j < n. sp_app s j = Running))"

definition net_val :: "nat \<Rightarrow> 'c \<Rightarrow> Key \<rightharpoonup> Value" where
  "net_val n c k = (if home k < n then store_abs (kv c (home k)) (k_str k) else None)"

lemma net_val_spec:
  "implements c s \<Longrightarrow> length (sp_q s) = n \<Longrightarrow> net_val n c = (\<lambda>k. if home k < n then sp_store s (home k) (k_str k) else None)"
  using implementsD(5) [of c s] by (auto simp: net_val_def fun_eq_iff)

lemma sched_spec_inv: "spec_inv s \<Longrightarrow> sched as s \<Longrightarrow> spec_inv (fold sp_step as s)"
  by (induction as arbitrary: s) (simp_all add: spec_inv_step del: sp_step.simps)

lemma net_put_val:
  assumes "net_inv n i c" and k: "Key_ok k" "home k < n" and v: "Value_ok v"
  shows "\<exists>c'. net_put perf i k v c = Inr c' \<and> net_inv n i c' \<and> net_val n c' = (net_val n c)(k \<mapsto> v)"
proof -
  obtain s where n: "0 < n" "n < 2 ^ 64" "i < n" and s: "implements c s" "spec_inv s" "length (sp_q s) = n" "idle s" "\<forall>j < n. sp_app s j = Running"
    using assms(1) by (auto simp: net_inv_def)
  have i: "i < length (sp_q s)" "home k < length (sp_q s)" "sp_app s i = Running" using n k s(3,5) by simp_all
  note P = put_schedule [OF s(2,4) i(1,3) k(1) i(2) v]
  let ?t = "fold sp_step (AppPut i k v # (if home k = i then [] else [Receive (home k)])) s"
  obtain c' where c': "net_put perf i k v c = Inr c'" "implements c' ?t"
    using sched_implements [OF s(1,2) P(1)] unfolding net_put_def by blast
  have l: "length (sp_q ?t) = n" using s(3) by (simp only: sp_steps_length)
  have "net_val n c' = (net_val n c)(k \<mapsto> v)"
    unfolding net_val_spec [OF c'(2) l] net_val_spec [OF s(1,3)] P(4)
    using k(2) by (auto simp: fun_eq_iff Key_eq_iff simp flip: home_inj)
  moreover have "net_inv n i c'"
    unfolding net_inv_def using n c'(2) sched_spec_inv [OF s(2) P(1)] l P(2,3) s(5) by metis
  ultimately show ?thesis using c'(1) by blast
qed

lemma net_get_val:
  assumes "net_inv n i c" and k: "Key_ok k" "home k < n" and v: "net_val n c k = Some v"
  shows "\<exists>c'. net_get perf got i k c = Inr (Some v, c') \<and> net_inv n i c' \<and> net_val n c' = net_val n c"
proof -
  obtain s where n: "0 < n" "n < 2 ^ 64" "i < n" and s: "implements c s" "spec_inv s" "length (sp_q s) = n" "idle s" "\<forall>j < n. sp_app s j = Running"
    using assms(1) by (auto simp: net_inv_def)
  have i: "i < length (sp_q s)" "home k < length (sp_q s)" "sp_app s i = Running" "length (sp_q s) < 2 ^ 64" using n k s(3,5) by simp_all
  have v': "sp_store s (home k) (k_str k) = Some v" using v unfolding net_val_spec [OF s(1,3)] by (simp split: if_splits)
  note G = get_schedule [OF s(2,4) i(1,3) k(1) i(2) v' i(4)]
  let ?as = "AppWaitAndGet i k # (if home k = i then [] else [Receive (home k), Receive i, AppResume i])"
  obtain c' where c': "res_fold perf ?as c = Inr c'" "implements c' (fold sp_step ?as s)"
    using sched_implements [OF s(1,2) G(1)] by blast
  have l: "length (sp_q (fold sp_step ?as s)) = n" using s(3) by (simp only: sp_steps_length)
  have "got c' = (i, k, v) # sp_got s" using c'(2) G(5) by (simp add: implements_def)
  then have "net_get perf got i k c = Inr (Some v, c')" using c'(1) by (simp add: net_get_def)
  moreover have "net_val n c' = net_val n c" unfolding net_val_spec [OF c'(2) l] net_val_spec [OF s(1,3)] G(4) ..
  moreover have "net_inv n i c'"
    unfolding net_inv_def using n c'(2) sched_spec_inv [OF s(2) G(1)] l G(2,3) s(5) by metis
  ultimately show ?thesis by blast
qed

lemma net_inv_node: "net_inv n i c \<Longrightarrow> j < n \<Longrightarrow> net_inv n j c"
  by (simp add: net_inv_def)

end

sublocale cluster_net \<subseteq> net_kv: kv_client "net_put perf i" "net_get perf got i" "net_inv n i" "net_val n" "\<lambda>k. home k < n" for i n
  by unfold_locales (erule net_put_val net_get_val; assumption)+

context tcp
begin

lemma connected_store:
  assumes "connected n addrs c" and "i < n" and "n < 2 ^ 64"
  shows "sock_cluster.net_inv n i c"
proof -
  have "idle (sp_init n)" "\<forall>j < n. sp_app (sp_init n) j = Running" "length (sp_q (sp_init n)) = n" "0 < n"
    using assms(2) by (simp_all add: idle_def sp_init_def)
  then show ?thesis
    using connected_implements [OF assms(1)] spec_inv_init [of n] assms(2,3) unfolding sock_cluster.net_inv_def by blast
qed

text \<open>\<open>frame_written_read\<close> on any network of the sort: who writes and who reads.\<close>

lemma frame_over_sockets:
  assumes c: "connected (numNodes args) addrs c" "numNodes args < 2 ^ 64" and ij: "i < numNodes args" "j < numNodes args"
    and b: "0 < blockSize args" "blockSize args < 2 ^ 64"
    and wr: "row_writer wr ts todo rdy" "todo w rows" and rd: "row_reader rv ts see rd_ok" "rd_ok a"
    and ts: "ts \<noteq> []" "Field \<notin> set ts" "length ts < 2 ^ 64" "list_all (\<lambda>x. length x = length ts) rows"
    and k: "cstr_ok cs" "length cs < 2 ^ 32" "unat h < numNodes args"
    and fit: "rows_fit ts rows" "frame_fits ts (length rows) (length cs)"
  shows "\<exists>df w' st1 df2 st2 df3 st3.
    fromVisitor args (net_put (sock_perform pieces) i) (Key_lit cs h) (map type_char ts @ [NUL]) wr (w, c) = Inr (df, w', st1) \<and>
    nrows df = length rows \<and> waitAndGet (net_get (sock_perform pieces) sc_got j) (Key_lit cs h) st1 = Inr (df2, st2) \<and>
    nrows df2 = length rows \<and>
    df_map args (net_get (sock_perform pieces) sc_got j) rv (a, df2, st2) = Inr (fold (\<lambda>r. see r (rows ! r)) [0..<length rows] a, df3, st3)"
proof -
  let ?n = "numNodes args"
  have A: "sizes_ok args" "homes (\<lambda>k. home k < ?n) args" using c(2) ij b by (auto simp: sizes_ok_def intro: homes_cluster)
  have W: "frame_writer (net_put (sock_perform pieces) i) (net_get (sock_perform pieces) sc_got i) (sock_cluster.net_inv ?n i)
      (sock_cluster.net_val ?n) (\<lambda>k. home k < ?n) wr ts todo rdy"
    by (intro frame_writer.intro sock_cluster.net_kv.kv_client_axioms wr(1))
  have R: "frame_reader (net_put (sock_perform pieces) j) (net_get (sock_perform pieces) sc_got j) (sock_cluster.net_inv ?n j)
      (sock_cluster.net_val ?n) (\<lambda>k. home k < ?n) rv ts see rd_ok"
    by (intro frame_reader.intro sock_cluster.net_kv.kv_client_axioms rd(1))
  have hk: "home (Key_lit cs h) < ?n" using k(3) by (simp add: home_def)
  obtain df w' st1 where 1: "fromVisitor args (net_put (sock_perform pieces) i) (Key_lit cs h) (map type_char ts @ [NUL]) wr (w, c) = Inr (df, w', st1)"
    "sock_cluster.net_inv ?n i st1" "nrows df = length rows"
    "frame_stored args (\<lambda>_. cs) ts (cols_of ts rows) (length rows) (Key_lit cs h) (sock_cluster.net_val ?n st1)"
    using frame_writer.fromVisitor_repr [OF W ts(1,2) k(1,2) ts(3) hk A(1) connected_store [OF c(1) ij(1) c(2)] A(2) wr(2) fit] by blast
  have "sock_cluster.net_inv ?n j st1" using sock_cluster.net_inv_node [OF 1(2) ij(2)] .
  from frame_reader.read_stored [OF R 1(4) this A(2) hk _ rd(2)] show ?thesis
    unfolding fold_rows [OF ts(4)] using 1(1,3) by force
qed

end

section \<open>What is shown\<close>

text \<open>C2: A data frame crosses the sockets. The processes build their networks, register and get the
  directory; then node \<open>i\<close> builds a frame with any writer, whose blocks it sends to their home nodes, and node
  \<open>j\<close> fetches the frame with \<open>waitAndGet\<close> and maps any reader over it: every call returns, and the reader
  sees exactly the rows that were written, in order, whatever the pieces in which TCP delivers the
  messages.\<close>

theorem frame_crosses_sockets:
  assumes "\<forall>bs. bs \<noteq> [] \<longrightarrow> delivers (pieces bs) bs" and "boot_args_ok pton nargs own prt (numNodes args)"
    and "set order = {1..<numNodes args}" and "distinct order"
    and "i < numNodes args" and "j < numNodes args" and "0 < blockSize args" and "blockSize args < 2 ^ 64"
    and "row_writer wr ts todo rdy" and "todo w rows" and "row_reader rv ts see rd_ok" and "rd_ok a"
    and "ts \<noteq> []" and "Field \<notin> set ts" and "length ts < 2 ^ 64" and "list_all (\<lambda>x. length x = length ts) rows"
    and "cstr_ok cs" and "length cs < 2 ^ 32" and "unat h < numNodes args"
    and "rows_fit ts rows" and "frame_fits ts (length rows) (length cs)"
  shows "\<exists>c df w' st1 df2 st2 df3 st3. sock_boot pieces pton nargs (numNodes args) order = Inr c \<and>
    fromVisitor args (net_put (sock_perform pieces) i) (Key_lit cs h) (map type_char ts @ [NUL]) wr (w, c) = Inr (df, w', st1) \<and>
    waitAndGet (net_get (sock_perform pieces) sc_got j) (Key_lit cs h) st1 = Inr (df2, st2) \<and> nrows df2 = length rows \<and>
    df_map args (net_get (sock_perform pieces) sc_got j) rv (a, df2, st2) = Inr (fold (\<lambda>r. see r (rows ! r)) [0..<length rows] a, df3, st3)"
proof -
  have t: "tcp pieces" by unfold_locales (use assms(1) in blast)
  have n: "numNodes args < 2 ^ 64" using assms(2) by (simp add: boot_args_ok_def)
  obtain c where c: "sock_boot pieces pton nargs (numNodes args) order = Inr c" "connected (numNodes args) (boot_addrs own prt (numNodes args)) c"
    using tcp.sock_boot_connected [OF t assms(2-4)] by blast
  from tcp.frame_over_sockets [OF t c(2) n assms(5-21)] c(1) show ?thesis by blast
qed

lemma frame_crosses_sockets_witness:
  "\<exists>c df w' st1 df2 st2 df3 st3 u. sock_boot (\<lambda>bs. [Some bs]) demo_pton (\<lambda>i. demo_args (of_nat i)) 2 [1] = Inr c \<and>
    fromVisitor (Args_default\<lparr>numNodes := 2, blockSize := 1\<rparr>) (net_put (sock_perform (\<lambda>bs. [Some bs])) 0) (Key_lit ''users-1-0'' 0)
      (map type_char [Integer] @ [NUL]) (SetWriter example_set) (0, c) = Inr (df, w', st1) \<and>
    waitAndGet (net_get (sock_perform (\<lambda>bs. [Some bs])) sc_got 1) (Key_lit ''users-1-0'' 0) st1 = Inr (df2, st2) \<and> nrows df2 = 2 \<and>
    df_map (Args_default\<lparr>numNodes := 2, blockSize := 1\<rparr>) (net_get (sock_perform (\<lambda>bs. [Some bs])) sc_got 1) SetUpdater_visit
      (example_set, df2, st2) = Inr (u, df3, st3)"
proof -
  let ?a = "Args_default\<lparr>numNodes := 2, blockSize := 1\<rparr>" and ?rows = "elems_from 0 3 {0, 2}"
  have e: "?rows = [[IElem 0], [IElem 2]]" by (simp add: elems_from_def upt_rec)
  have b: "boot_args_ok demo_pton (\<lambda>i. demo_args (of_nat i)) demo_own 8080 (numNodes ?a)" "set [1 :: nat] = {1..<numNodes ?a}" "distinct [1 :: nat]"
    using demo_boot by simp_all
  have c: "0 < numNodes ?a" "1 < numNodes ?a" "0 < blockSize ?a" "blockSize ?a < 2 ^ 64" by simp_all
  have w: "writer_todo example_set 0 ?rows"
    unfolding writer_todo_def using example_set_repr by (intro exI [of _ 3] exI [of _ "{0, 2}"]) (simp add: int_max_def)
  have f: "rows_fit [Integer] ?rows" "frame_fits [Integer] (length ?rows) (length ''users-1-0'')" "list_all (\<lambda>x. length x = length [Integer]) ?rows"
    by (simp_all add: e rows_fit_def frame_fits_def)
  have k: "cstr_ok ''users-1-0''" "length ''users-1-0'' < 2 ^ 32" "unat (0 :: u64) < numNodes ?a" by (simp_all add: cstr_ok_def)
  from frame_crosses_sockets [OF whole_pieces b c set_writer.row_writer_axioms w set_updater.row_reader_axioms [of "[]"] Set_okI [OF example_set_repr]
      _ _ _ f(3) k f(1,2)]
  show ?thesis using e by force
qed

end
