(* ===== verification/Monitor.thy ===== *)
theory Monitor
  imports Pseudo
begin

text \<open>
  Threads that share an object under a \<open>Lock\<close> (\<open>src/utils/thread.h\<close>: a mutex and a condition variable),
  and \<open>MessageQueue\<close> (\<open>src/network/pseudo/messagequeue.h\<close>) used by any number of threads, whose instructions
  interleave. The other theories let a call of a locked object happen in one go; the locale \<open>monitor\<close> shows
  why they may: the calls take effect one after the other, in an order in which each thread's calls are
  in the order of its program, no call crashes, and a thread sleeps only as long as it has to.
\<close>

section \<open>The lock\<close>

text \<open>Who owns the mutex, and who sleeps in \<open>wait\<close>.\<close>

record Lock =
  lk_owner :: "nat option"
  lk_asleep :: "nat list"

definition Lock_new :: Lock where "Lock_new = \<lparr>lk_owner = None, lk_asleep = []\<rparr>"

text \<open>\<open>None\<close> while the mutex is taken: the thread is blocked.\<close>

definition Lock_lock :: "nat \<Rightarrow> Lock \<Rightarrow> Lock option" where
  "Lock_lock t l = (if lk_owner l = None then Some (l\<lparr>lk_owner := Some t\<rparr>) else None)"

text \<open>Only the owner may release a mutex or wait on it.\<close>

definition Lock_unlock :: "nat \<Rightarrow> Lock \<Rightarrow> Lock res" where
  "Lock_unlock t l = (if lk_owner l = Some t then Inr (l\<lparr>lk_owner := None\<rparr>) else Inl NotOwner)"

definition Lock_wait :: "nat \<Rightarrow> Lock \<Rightarrow> Lock res" where
  "Lock_wait t l =
     (if lk_owner l = Some t then Inr (l\<lparr>lk_owner := None, lk_asleep := t # lk_asleep l\<rparr>) else Inl NotOwner)"

definition Lock_notify_all :: "Lock \<Rightarrow> Lock" where
  "Lock_notify_all l = l\<lparr>lk_asleep := []\<rparr>"

text \<open>A condition variable may also wake a thread that nobody notified.\<close>

definition Lock_wake :: "nat \<Rightarrow> Lock \<Rightarrow> Lock" where
  "Lock_wake t l = l\<lparr>lk_asleep := removeAll t (lk_asleep l)\<rparr>"

section \<open>The counter\<close>

text \<open>An atomic \<open>size_t\<close>: \<open>next\<close> and \<open>prev\<close> return the old value and step it; at the ends it wraps around.\<close>

definition Counter_new :: u64 where "Counter_new = 0"

definition Counter_next :: "u64 \<Rightarrow> u64 \<times> u64" where "Counter_next c = (c, c + 1)"

definition Counter_prev :: "u64 \<Rightarrow> u64 \<times> u64" where "Counter_prev c = (c, c - 1)"

definition Counter_current :: "u64 \<Rightarrow> u64" where "Counter_current c = c"

fun Counter_nexts :: "nat \<Rightarrow> u64 \<Rightarrow> u64 list" where
  "Counter_nexts 0 c = []"
| "Counter_nexts (Suc n) c = (let (r, c) = Counter_next c in r # Counter_nexts n c)"

lemma Counter_nexts_eq: "Counter_nexts n c = map (\<lambda>i. c + of_nat i) [0..<n]"
  by (induction n arbitrary: c) (simp_all add: Counter_next_def upt_conv_Cons map_Suc_upt [symmetric] algebra_simps del: upt_Suc)

text \<open>Whoever asks, in whatever order: up to \<open>2 ^ 64\<close> calls get different numbers.\<close>

lemma Counter_nexts_distinct:
  assumes "n \<le> 2 ^ 64"
  shows "distinct (Counter_nexts n c)"
proof -
  have "i = j" if "i < n" "j < n" "(of_nat i :: u64) = of_nat j" for i j
    using that assms by (simp add: word_of_nat_eq_iff take_bit_nat_eq_self)
  then show ?thesis by (auto simp: Counter_nexts_eq distinct_map inj_on_def)
qed

section \<open>Methods that lock\<close>

text \<open>
  The body of a method: \<open>IWaitWhile g\<close> is \<open>while (g) lock_.wait();\<close>, and \<open>IDo f\<close> what the
  method does to the object while it owns the lock, with the value it will return.
\<close>

datatype ('s, 'r) instr =
    ILock
  | IUnlock
  | INotifyAll
  | IWaitWhile "'s \<Rightarrow> bool res"
  | IDo "'s \<Rightarrow> ('r \<times> 's) res"

text \<open>
  The object and its lock; for every thread what is left of the method it is in, and the calls it has not
  returned from; the calls that have taken effect, with the values they return.
\<close>

record ('s, 'r, 'c) Monitor =
  mo_lock :: Lock
  mo_data :: 's
  mo_code :: "nat \<Rightarrow> ('s, 'r) instr list"
  mo_calls :: "nat \<Rightarrow> 'c list"
  mo_log :: "(nat \<times> 'c \<times> 'r) list"

definition Monitor_new :: "'s \<Rightarrow> (nat \<Rightarrow> 'c list) \<Rightarrow> ('s, 'r, 'c) Monitor" where
  "Monitor_new d prog = \<lparr>mo_lock = Lock_new, mo_data = d, mo_code = \<lambda>_. [], mo_calls = prog, mo_log = []\<rparr>"

definition mon_goto :: "nat \<Rightarrow> ('s, 'r) instr list \<Rightarrow> ('s, 'r, 'c) Monitor \<Rightarrow> ('s, 'r, 'c) Monitor" where
  "mon_goto t is m =
     m\<lparr>mo_code := (mo_code m)(t := is),
       mo_calls := (if is = [] then (mo_calls m)(t := tl (mo_calls m t)) else mo_calls m)\<rparr>"

text \<open>One instruction of thread \<open>t\<close>; \<open>None\<close> if it is blocked or has nothing left to do.\<close>

definition mon_step :: "('c \<Rightarrow> ('s, 'r) instr list) \<Rightarrow> nat \<Rightarrow> ('s, 'r, 'c) Monitor \<Rightarrow> ('s, 'r, 'c) Monitor res option" where
  "mon_step meth t m =
     (case mo_code m t of
        [] \<Rightarrow> (case mo_calls m t of [] \<Rightarrow> None | c # cs \<Rightarrow> Some (Inr (m\<lparr>mo_code := (mo_code m)(t := meth c)\<rparr>)))
      | ILock # is \<Rightarrow> map_option (\<lambda>l. Inr (mon_goto t is (m\<lparr>mo_lock := l\<rparr>))) (Lock_lock t (mo_lock m))
      | IUnlock # is \<Rightarrow> Some (res_bind (Lock_unlock t (mo_lock m)) (\<lambda>l. Inr (mon_goto t is (m\<lparr>mo_lock := l\<rparr>))))
      | INotifyAll # is \<Rightarrow> Some (Inr (mon_goto t is (m\<lparr>mo_lock := Lock_notify_all (mo_lock m)\<rparr>)))
      | IWaitWhile g # is \<Rightarrow>
          if t \<in> set (lk_asleep (mo_lock m)) then None
          else if lk_owner (mo_lock m) \<noteq> Some t then map_option (\<lambda>l. Inr (m\<lparr>mo_lock := l\<rparr>)) (Lock_lock t (mo_lock m))
          else Some (res_bind (g (mo_data m)) (\<lambda>again.
                 if again then res_bind (Lock_wait t (mo_lock m)) (\<lambda>l. Inr (m\<lparr>mo_lock := l\<rparr>))
                 else Inr (mon_goto t is m)))
      | IDo f # is \<Rightarrow>
          Some (res_bind (f (mo_data m)) (\<lambda>(r, d).
            Inr (mon_goto t is (m\<lparr>mo_data := d, mo_log := mo_log m @ [(t, hd (mo_calls m t), r)]\<rparr>)))))"

definition mon_wake :: "nat \<Rightarrow> ('s, 'r, 'c) Monitor \<Rightarrow> ('s, 'r, 'c) Monitor" where
  "mon_wake t m = m\<lparr>mo_lock := Lock_wake t (mo_lock m)\<rparr>"

text \<open>The states the threads can bring the object to, whatever the order of their steps.\<close>

inductive mon_reach :: "('c \<Rightarrow> ('s, 'r) instr list) \<Rightarrow> ('s, 'r, 'c) Monitor \<Rightarrow> ('s, 'r, 'c) Monitor \<Rightarrow> bool"
  for meth :: "'c \<Rightarrow> ('s, 'r) instr list" and m0 :: "('s, 'r, 'c) Monitor" where
  start: "mon_reach meth m0 m0"
| step: "mon_reach meth m0 m \<Longrightarrow> mon_step meth t m = Some (Inr m') \<Longrightarrow> mon_reach meth m0 m'"
| wake: "mon_reach meth m0 m \<Longrightarrow> mon_reach meth m0 (mon_wake t m)"

fun mon_run :: "('c \<Rightarrow> ('s, 'r) instr list) \<Rightarrow> nat list \<Rightarrow> ('s, 'r, 'c) Monitor \<Rightarrow> ('s, 'r, 'c) Monitor option" where
  "mon_run meth [] m = Some m"
| "mon_run meth (t # ts) m = (case mon_step meth t m of Some (Inr m') \<Rightarrow> mon_run meth ts m' | _ \<Rightarrow> None)"

lemma mon_run_reach: "mon_reach meth m0 m \<Longrightarrow> mon_run meth ts m = Some m' \<Longrightarrow> mon_reach meth m0 m'"
  by (induction ts arbitrary: m) (auto split: option.splits sum.splits intro: mon_reach.step)

text \<open>The calls of one thread among those that have taken effect.\<close>

definition log_of :: "nat \<Rightarrow> (nat \<times> 'c \<times> 'r) list \<Rightarrow> 'c list" where
  "log_of t log = map (fst \<circ> snd) (filter (\<lambda>e. fst e = t) log)"

lemma log_of_simps [simp]: "log_of t [] = []" "log_of t (log @ [(u, c, r)]) = log_of t log @ (if u = t then [c] else [])"
  by (simp_all add: log_of_def)

section \<open>What a locked object promises\<close>

text \<open>
  \<open>explains\<close>: the calls of a log, made one after the other on an abstract object, return what the log says.
  \<open>must_wait c a\<close>: the call \<open>c\<close> cannot proceed in the abstract state \<open>a\<close>; \<open>eff c a\<close> is its result and
  the state it leaves.
\<close>

inductive explains :: "('c \<Rightarrow> 'a \<Rightarrow> bool) \<Rightarrow> ('c \<Rightarrow> 'a \<Rightarrow> 'r \<times> 'a) \<Rightarrow> 'a \<Rightarrow> (nat \<times> 'c \<times> 'r) list \<Rightarrow> 'a \<Rightarrow> bool"
  for must_wait :: "'c \<Rightarrow> 'a \<Rightarrow> bool" and eff :: "'c \<Rightarrow> 'a \<Rightarrow> 'r \<times> 'a" and a0 :: 'a where
  none: "explains must_wait eff a0 [] a0"
| call: "explains must_wait eff a0 log a \<Longrightarrow> \<not> must_wait c a \<Longrightarrow> eff c a = (r, a') \<Longrightarrow> explains must_wait eff a0 (log @ [(t, c, r)]) a'"

definition locked_tail :: "bool \<Rightarrow> ('s, 'r) instr list" where
  "locked_tail notifies = (if notifies then [INotifyAll, IUnlock] else [IUnlock])"

definition locked_do :: "('s \<Rightarrow> ('r \<times> 's) res) \<Rightarrow> bool \<Rightarrow> ('s, 'r) instr list" where
  "locked_do f notifies = IDo f # locked_tail notifies"

definition locked_wait :: "('s \<Rightarrow> bool res) option \<Rightarrow> ('s \<Rightarrow> ('r \<times> 's) res) \<Rightarrow> bool \<Rightarrow> ('s, 'r) instr list" where
  "locked_wait g f notifies = (case g of None \<Rightarrow> locked_do f notifies | Some g \<Rightarrow> IWaitWhile g # locked_do f notifies)"

lemmas locked_defs = locked_wait_def locked_do_def locked_tail_def

lemma locked_tail_not_Nil [simp]: "locked_tail b \<noteq> []"
  by (simp add: locked_tail_def)

text \<open>Where a thread is in its call.\<close>

datatype 'c stage = Idle | Entering 'c | Testing 'c | Asleep 'c | Doing 'c | Notifying 'c | Leaving 'c

fun stage_calls :: "'c stage \<Rightarrow> 'c list \<Rightarrow> 'c list \<Rightarrow> 'c list \<Rightarrow> bool" where
  "stage_calls Idle done calls prog \<longleftrightarrow> done @ calls = prog"
| "stage_calls (Entering c) done calls prog \<longleftrightarrow> (\<exists>cs. calls = c # cs) \<and> done @ calls = prog"
| "stage_calls (Testing c) done calls prog \<longleftrightarrow> (\<exists>cs. calls = c # cs) \<and> done @ calls = prog"
| "stage_calls (Asleep c) done calls prog \<longleftrightarrow> (\<exists>cs. calls = c # cs) \<and> done @ calls = prog"
| "stage_calls (Doing c) done calls prog \<longleftrightarrow> (\<exists>cs. calls = c # cs) \<and> done @ calls = prog"
| "stage_calls (Notifying c) done calls prog \<longleftrightarrow> (\<exists>cs. calls = c # cs) \<and> done @ tl calls = prog"
| "stage_calls (Leaving c) done calls prog \<longleftrightarrow> (\<exists>cs. calls = c # cs) \<and> done @ tl calls = prog"

text \<open>
  The laws: the code of a call is that of a method that locks; its test and its body do what the abstract
  call does; and a call that can make another one proceed notifies those who sleep.
\<close>

locale monitor =
  fixes meth :: "'c \<Rightarrow> ('s, 'r) instr list" and guard :: "'c \<Rightarrow> ('s \<Rightarrow> bool res) option" and body :: "'c \<Rightarrow> 's \<Rightarrow> ('r \<times> 's) res"
    and notifies :: "'c \<Rightarrow> bool" and valid :: "'c \<Rightarrow> bool" and repr :: "'s \<Rightarrow> 'a \<Rightarrow> bool"
    and must_wait :: "'c \<Rightarrow> 'a \<Rightarrow> bool" and eff :: "'c \<Rightarrow> 'a \<Rightarrow> 'r \<times> 'a"
  assumes meth: "meth c = ILock # locked_wait (guard c) (body c) (notifies c)"
    and guard: "guard c = Some g \<Longrightarrow> valid c \<Longrightarrow> repr d a \<Longrightarrow> g d = Inr (must_wait c a)"
    and no_guard: "guard c = None \<Longrightarrow> \<not> must_wait c a"
    and body: "valid c \<Longrightarrow> repr d a \<Longrightarrow> \<not> must_wait c a \<Longrightarrow> eff c a = (r, a') \<Longrightarrow> \<exists>d'. body c d = Inr (r, d') \<and> repr d' a'"
    and notifies: "\<not> notifies c \<Longrightarrow> \<not> must_wait c a \<Longrightarrow> must_wait e a \<Longrightarrow> must_wait e (snd (eff c a))"
begin

definition notifier :: "('s, 'r, 'c) Monitor \<Rightarrow> bool" where
  "notifier m \<longleftrightarrow> (\<exists>u. lk_owner (mo_lock m) = Some u \<and> mo_code m u = [INotifyAll, IUnlock])"

fun at_stage :: "('s, 'r, 'c) Monitor \<Rightarrow> 'a \<Rightarrow> nat \<Rightarrow> 'c stage \<Rightarrow> bool" where
  "at_stage m a t Idle \<longleftrightarrow> mo_code m t = [] \<and> lk_owner (mo_lock m) \<noteq> Some t \<and> t \<notin> set (lk_asleep (mo_lock m))"
| "at_stage m a t (Entering c) \<longleftrightarrow> mo_code m t = meth c \<and> lk_owner (mo_lock m) \<noteq> Some t \<and> t \<notin> set (lk_asleep (mo_lock m))"
| "at_stage m a t (Testing c) \<longleftrightarrow> guard c \<noteq> None \<and> mo_code m t = locked_wait (guard c) (body c) (notifies c) \<and>
     lk_owner (mo_lock m) = Some t \<and> t \<notin> set (lk_asleep (mo_lock m))"
| "at_stage m a t (Asleep c) \<longleftrightarrow> guard c \<noteq> None \<and> mo_code m t = locked_wait (guard c) (body c) (notifies c) \<and>
     lk_owner (mo_lock m) \<noteq> Some t \<and> (t \<in> set (lk_asleep (mo_lock m)) \<longrightarrow> must_wait c a \<or> notifier m)"
| "at_stage m a t (Doing c) \<longleftrightarrow> mo_code m t = locked_do (body c) (notifies c) \<and>
     lk_owner (mo_lock m) = Some t \<and> t \<notin> set (lk_asleep (mo_lock m)) \<and> \<not> must_wait c a"
| "at_stage m a t (Notifying c) \<longleftrightarrow> mo_code m t = [INotifyAll, IUnlock] \<and>
     lk_owner (mo_lock m) = Some t \<and> t \<notin> set (lk_asleep (mo_lock m))"
| "at_stage m a t (Leaving c) \<longleftrightarrow> mo_code m t = [IUnlock] \<and> lk_owner (mo_lock m) = Some t \<and> t \<notin> set (lk_asleep (mo_lock m))"

definition mon_inv :: "(nat \<Rightarrow> 'c list) \<Rightarrow> 'a \<Rightarrow> ('s, 'r, 'c) Monitor \<Rightarrow> 'a \<Rightarrow> (nat \<Rightarrow> 'c stage) \<Rightarrow> bool" where
  "mon_inv prog a0 m a st \<longleftrightarrow> repr (mo_data m) a \<and> explains must_wait eff a0 (mo_log m) a \<and>
     (\<forall>t. at_stage m a t (st t) \<and> stage_calls (st t) (log_of t (mo_log m)) (mo_calls m t) (prog t))"

text \<open>A step of \<open>t\<close> leaves the others where they are.\<close>

lemma at_stage_frame:
  assumes "at_stage m a u s" and "mo_code m' u = mo_code m u"
    and "lk_owner (mo_lock m') = Some u \<longleftrightarrow> lk_owner (mo_lock m) = Some u"
    and "u \<in> set (lk_asleep (mo_lock m')) \<Longrightarrow> u \<in> set (lk_asleep (mo_lock m))"
    and "\<And>c. u \<in> set (lk_asleep (mo_lock m')) \<Longrightarrow> must_wait c a \<or> notifier m \<Longrightarrow> must_wait c a' \<or> notifier m'"
    and "lk_owner (mo_lock m) = Some u \<Longrightarrow> a' = a"
  shows "at_stage m' a' u s"
  using assms by (cases s) auto

lemma mon_inv_step:
  assumes "mon_inv prog a0 m a st" and "repr (mo_data m') a'" and "explains must_wait eff a0 (mo_log m') a'"
    and "at_stage m' a' t s" and "stage_calls s (log_of t (mo_log m')) (mo_calls m' t) (prog t)"
    and "\<And>u. u \<noteq> t \<Longrightarrow> mo_code m' u = mo_code m u \<and> mo_calls m' u = mo_calls m u \<and> log_of u (mo_log m') = log_of u (mo_log m) \<and>
      (lk_owner (mo_lock m') = Some u \<longleftrightarrow> lk_owner (mo_lock m) = Some u) \<and>
      (u \<in> set (lk_asleep (mo_lock m')) \<longrightarrow> u \<in> set (lk_asleep (mo_lock m)) \<and> (\<forall>c. must_wait c a \<or> notifier m \<longrightarrow> must_wait c a' \<or> notifier m')) \<and>
      (lk_owner (mo_lock m) = Some u \<longrightarrow> a' = a)"
  shows "mon_inv prog a0 m' a' (st(t := s))"
  unfolding mon_inv_def
proof (intro conjI allI)
  fix u
  show "at_stage m' a' u ((st(t := s)) u)"
    using assms(1,4,6) by (cases "u = t") (auto simp: mon_inv_def intro!: at_stage_frame [of m a u "st u" m' a'])
  show "stage_calls ((st(t := s)) u) (log_of u (mo_log m')) (mo_calls m' u) (prog u)"
    using assms(1,5,6) by (cases "u = t") (auto simp: mon_inv_def)
qed (rule assms)+

lemma stage_valid:
  "stage_calls s done calls prog \<Longrightarrow> \<forall>c \<in> set prog. valid c \<Longrightarrow> s \<in> {Entering c, Testing c, Asleep c, Doing c} \<Longrightarrow> valid c"
  by auto

lemma step_Idle:
  assumes "mon_inv prog a0 m a st" and "st t = Idle" and "mon_step meth t m = Some x"
  shows "\<exists>m' a' s. x = Inr m' \<and> mon_inv prog a0 m' a' (st(t := s))"
proof -
  have t: "at_stage m a t Idle" "stage_calls Idle (log_of t (mo_log m)) (mo_calls m t) (prog t)"
    using assms(1,2) by (metis mon_inv_def)+
  obtain c cs where c: "mo_calls m t = c # cs" "x = Inr (m\<lparr>mo_code := (mo_code m)(t := meth c)\<rparr>)"
    using assms(3) t(1) by (auto simp: mon_step_def split: list.splits)
  let ?m = "m\<lparr>mo_code := (mo_code m)(t := meth c)\<rparr>"
  have "notifier m \<Longrightarrow> notifier ?m" using t(1) by (auto simp: notifier_def)
  then have "mon_inv prog a0 ?m a (st(t := Entering c))"
    using assms(1) t c(1) by (intro mon_inv_step [OF assms(1)]) (auto simp: mon_inv_def)
  with c(2) show ?thesis by blast
qed

lemma step_Entering:
  assumes "mon_inv prog a0 m a st" and "st t = Entering c" and "mon_step meth t m = Some x"
  shows "\<exists>m' a' s. x = Inr m' \<and> mon_inv prog a0 m' a' (st(t := s))"
proof -
  have t: "at_stage m a t (Entering c)" "stage_calls (Entering c) (log_of t (mo_log m)) (mo_calls m t) (prog t)"
    using assms(1,2) by (metis mon_inv_def)+
  let ?is = "locked_wait (guard c) (body c) (notifies c)"
  have ne: "?is \<noteq> []" by (simp add: locked_defs split: option.split)
  let ?m = "m\<lparr>mo_lock := (mo_lock m)\<lparr>lk_owner := Some t\<rparr>, mo_code := (mo_code m)(t := ?is)\<rparr>"
  have o: "lk_owner (mo_lock m) = None" "x = Inr ?m"
    using assms(3) t(1) ne by (auto simp: mon_step_def meth Lock_lock_def mon_goto_def split: if_splits)
  then have n: "\<not> notifier m" by (simp add: notifier_def)
  show ?thesis
  proof (cases "guard c")
    case None
    then have "mon_inv prog a0 ?m a (st(t := Doing c))"
      using assms(1) t o n no_guard [OF None] by (intro mon_inv_step [OF assms(1)]) (auto simp: mon_inv_def locked_wait_def)
    with o(2) show ?thesis by blast
  next
    case (Some g)
    then have "mon_inv prog a0 ?m a (st(t := Testing c))"
      using assms(1) t o n by (intro mon_inv_step [OF assms(1)]) (auto simp: mon_inv_def)
    with o(2) show ?thesis by blast
  qed
qed

lemma step_Testing:
  assumes "mon_inv prog a0 m a st" and "st t = Testing c" and "mon_step meth t m = Some x" and "valid c"
  shows "\<exists>m' a' s. x = Inr m' \<and> mon_inv prog a0 m' a' (st(t := s))"
proof -
  have t: "at_stage m a t (Testing c)" "stage_calls (Testing c) (log_of t (mo_log m)) (mo_calls m t) (prog t)"
    using assms(1,2) by (metis mon_inv_def)+
  then obtain g where g: "guard c = Some g" "mo_code m t = IWaitWhile g # locked_do (body c) (notifies c)"
    by (auto simp: locked_wait_def)
  have w: "g (mo_data m) = Inr (must_wait c a)" using guard [OF g(1) assms(4)] assms(1) by (auto simp: mon_inv_def)
  have n: "\<not> notifier m" using t(1) g(2) by (auto simp: notifier_def)
  show ?thesis
  proof (cases "must_wait c a")
    case True
    let ?m = "m\<lparr>mo_lock := (mo_lock m)\<lparr>lk_owner := None, lk_asleep := t # lk_asleep (mo_lock m)\<rparr>\<rparr>"
    have x: "x = Inr ?m" using assms(3) t(1) g(2) w True by (simp add: mon_step_def Lock_wait_def)
    have "mon_inv prog a0 ?m a (st(t := Asleep c))"
      using assms(1) t n True by (intro mon_inv_step [OF assms(1)]) (auto simp: mon_inv_def)
    with x show ?thesis by blast
  next
    case False
    let ?m = "m\<lparr>mo_code := (mo_code m)(t := locked_do (body c) (notifies c))\<rparr>"
    have ne: "locked_do (body c) (notifies c) \<noteq> []" by (simp add: locked_do_def)
    then have x: "x = Inr ?m" using assms(3) t(1) g(2) w False by (simp add: mon_step_def mon_goto_def)
    have "mon_inv prog a0 ?m a (st(t := Doing c))"
      using assms(1) t n False by (intro mon_inv_step [OF assms(1)]) (auto simp: mon_inv_def)
    with x show ?thesis by blast
  qed
qed

lemma step_Asleep:
  assumes "mon_inv prog a0 m a st" and "st t = Asleep c" and "mon_step meth t m = Some x"
  shows "\<exists>m' a' s. x = Inr m' \<and> mon_inv prog a0 m' a' (st(t := s))"
proof -
  have t: "at_stage m a t (Asleep c)" "stage_calls (Asleep c) (log_of t (mo_log m)) (mo_calls m t) (prog t)"
    using assms(1,2) by (metis mon_inv_def)+
  let ?m = "m\<lparr>mo_lock := (mo_lock m)\<lparr>lk_owner := Some t\<rparr>\<rparr>"
  have o: "t \<notin> set (lk_asleep (mo_lock m))" "lk_owner (mo_lock m) = None" "x = Inr ?m"
    using assms(3) t(1) by (auto simp: mon_step_def locked_wait_def Lock_lock_def split: option.splits if_splits)
  then have n: "\<not> notifier m" by (simp add: notifier_def)
  have "mon_inv prog a0 ?m a (st(t := Testing c))"
    using assms(1) t o n by (intro mon_inv_step [OF assms(1)]) (auto simp: mon_inv_def)
  with o(3) show ?thesis by blast
qed

lemma step_Doing:
  assumes "mon_inv prog a0 m a st" and "st t = Doing c" and "mon_step meth t m = Some x" and "valid c"
  shows "\<exists>m' a' s. x = Inr m' \<and> mon_inv prog a0 m' a' (st(t := s))"
proof -
  have t: "at_stage m a t (Doing c)" "stage_calls (Doing c) (log_of t (mo_log m)) (mo_calls m t) (prog t)"
    using assms(1,2) by (metis mon_inv_def)+
  have i: "repr (mo_data m) a" "explains must_wait eff a0 (mo_log m) a" using assms(1) by (simp_all add: mon_inv_def)
  obtain r a' where e: "eff c a = (r, a')" by (cases "eff c a")
  have nw: "\<not> must_wait c a" and ow: "lk_owner (mo_lock m) = Some t" and co: "mo_code m t = locked_do (body c) (notifies c)"
    using t(1) by simp_all
  obtain d' where d: "body c (mo_data m) = Inr (r, d')" "repr d' a'" using body [OF assms(4) i(1) nw e] by blast
  obtain cs where cs: "mo_calls m t = c # cs" "log_of t (mo_log m) @ c # cs = prog t" using t(2) by auto
  let ?m = "m\<lparr>mo_data := d', mo_log := mo_log m @ [(t, c, r)], mo_code := (mo_code m)(t := locked_tail (notifies c))\<rparr>"
  have x: "x = Inr ?m" using assms(3) co d(1) cs(1) by (simp add: mon_step_def locked_do_def mon_goto_def)
  have ex: "explains must_wait eff a0 (mo_log m @ [(t, c, r)]) a'" by (rule explains.call [OF i(2) nw e])
  have n: "\<not> notifier m" using ow co by (simp add: notifier_def locked_do_def)
  show ?thesis
  proof (cases "notifies c")
    case True
    have "notifier ?m" using ow True by (simp add: notifier_def locked_tail_def)
    then have "mon_inv prog a0 ?m a' (st(t := Notifying c))"
      using t(1) d(2) ex cs True ow by (intro mon_inv_step [OF assms(1)]) (auto simp: locked_tail_def)
    with x show ?thesis by blast
  next
    case False
    have "must_wait e a'" if "must_wait e a" for e using notifies [OF False nw that] e by simp
    then have "mon_inv prog a0 ?m a' (st(t := Leaving c))"
      using t(1) d(2) ex cs False ow n by (intro mon_inv_step [OF assms(1)]) (auto simp: locked_tail_def)
    with x show ?thesis by blast
  qed
qed

lemma step_Notifying:
  assumes "mon_inv prog a0 m a st" and "st t = Notifying c" and "mon_step meth t m = Some x"
  shows "\<exists>m' a' s. x = Inr m' \<and> mon_inv prog a0 m' a' (st(t := s))"
proof -
  have t: "at_stage m a t (Notifying c)" "stage_calls (Notifying c) (log_of t (mo_log m)) (mo_calls m t) (prog t)"
    using assms(1,2) by (metis mon_inv_def)+
  let ?m = "m\<lparr>mo_lock := (mo_lock m)\<lparr>lk_asleep := []\<rparr>, mo_code := (mo_code m)(t := [IUnlock])\<rparr>"
  have x: "x = Inr ?m" using assms(3) t(1) by (simp add: mon_step_def Lock_notify_all_def mon_goto_def)
  have "mon_inv prog a0 ?m a (st(t := Leaving c))"
    using assms(1) t by (intro mon_inv_step [OF assms(1)]) (auto simp: mon_inv_def)
  with x show ?thesis by blast
qed

lemma step_Leaving:
  assumes "mon_inv prog a0 m a st" and "st t = Leaving c" and "mon_step meth t m = Some x"
  shows "\<exists>m' a' s. x = Inr m' \<and> mon_inv prog a0 m' a' (st(t := s))"
proof -
  have t: "at_stage m a t (Leaving c)" "stage_calls (Leaving c) (log_of t (mo_log m)) (mo_calls m t) (prog t)"
    using assms(1,2) by (metis mon_inv_def)+
  let ?m = "m\<lparr>mo_lock := (mo_lock m)\<lparr>lk_owner := None\<rparr>, mo_code := (mo_code m)(t := []), mo_calls := (mo_calls m)(t := tl (mo_calls m t))\<rparr>"
  have x: "x = Inr ?m" using assms(3) t(1) by (simp add: mon_step_def Lock_unlock_def mon_goto_def)
  have n: "\<not> notifier m" using t(1) by (auto simp: notifier_def)
  have "mon_inv prog a0 ?m a (st(t := Idle))"
    using assms(1) t n by (intro mon_inv_step [OF assms(1)]) (auto simp: mon_inv_def)
  with x show ?thesis by blast
qed

lemma inv_step:
  assumes "mon_inv prog a0 m a st" and "\<forall>t. \<forall>c \<in> set (prog t). valid c" and "mon_step meth t m = Some x"
  shows "\<exists>m' a' s. x = Inr m' \<and> mon_inv prog a0 m' a' (st(t := s))"
proof -
  have c: "stage_calls (st t) (log_of t (mo_log m)) (mo_calls m t) (prog t)" using assms(1) by (simp add: mon_inv_def)
  have v: "valid c" if "st t \<in> {Entering c, Testing c, Asleep c, Doing c}" for c
    using stage_valid [OF c _ that] assms(2) by blast
  show ?thesis
  proof (cases "st t")
    case Idle
    from step_Idle [OF assms(1) this assms(3)] show ?thesis .
  next
    case (Entering c)
    from step_Entering [OF assms(1) this assms(3)] show ?thesis .
  next
    case (Testing c)
    from step_Testing [OF assms(1) this assms(3) v] Testing show ?thesis by simp
  next
    case (Asleep c)
    from step_Asleep [OF assms(1) this assms(3)] show ?thesis .
  next
    case (Doing c)
    from step_Doing [OF assms(1) this assms(3) v] Doing show ?thesis by simp
  next
    case (Notifying c)
    from step_Notifying [OF assms(1) this assms(3)] show ?thesis .
  next
    case (Leaving c)
    from step_Leaving [OF assms(1) this assms(3)] show ?thesis .
  qed
qed

lemma inv_wake:
  assumes "mon_inv prog a0 m a st"
  shows "mon_inv prog a0 (mon_wake t m) a st"
proof -
  have sel: "mo_code (mon_wake t m) = mo_code m" "lk_owner (mo_lock (mon_wake t m)) = lk_owner (mo_lock m)"
    "set (lk_asleep (mo_lock (mon_wake t m))) \<subseteq> set (lk_asleep (mo_lock m))"
    "mo_data (mon_wake t m) = mo_data m" "mo_log (mon_wake t m) = mo_log m" "mo_calls (mon_wake t m) = mo_calls m"
    by (auto simp: mon_wake_def Lock_wake_def)
  then have n: "notifier (mon_wake t m) = notifier m" by (simp add: notifier_def)
  have "at_stage (mon_wake t m) a u (st u)" for u
  proof (rule at_stage_frame)
    show "at_stage m a u (st u)" using assms by (simp add: mon_inv_def)
  qed (use sel n in auto)
  then show ?thesis using assms by (simp add: mon_inv_def sel)
qed

lemma reach_inv:
  assumes "mon_reach meth (Monitor_new d prog) m" and "\<forall>t. \<forall>c \<in> set (prog t). valid c" and "repr d a0"
  shows "\<exists>a st. mon_inv prog a0 m a st"
  using assms(1)
proof induction
  case start
  have "mon_inv prog a0 (Monitor_new d prog) a0 (\<lambda>_. Idle)"
    using assms(3) by (simp add: mon_inv_def Monitor_new_def Lock_new_def explains.none)
  then show ?case by blast
next
  case (step m t m')
  then show ?case using inv_step [OF _ assms(2) step.hyps(2)] by blast
next
  case (wake m t)
  then show ?case using inv_wake by blast
qed

text \<open>When nobody can take a step, nobody owns the lock, and who is not through sleeps and has to.\<close>

lemma stuck:
  assumes "mon_inv prog a0 m a st" and "\<forall>t. mon_step meth t m = None"
  shows "lk_owner (mo_lock m) = None" and "mo_calls m t = [] \<and> mo_code m t = [] \<or>
    (\<exists>c cs. mo_calls m t = c # cs \<and> t \<in> set (lk_asleep (mo_lock m)) \<and> must_wait c a)"
proof -
  have s: "at_stage m a u (st u)" "stage_calls (st u) (log_of u (mo_log m)) (mo_calls m u) (prog u)" for u
    using assms(1) by (simp_all add: mon_inv_def)
  show o: "lk_owner (mo_lock m) = None"
  proof (rule ccontr)
    assume "lk_owner (mo_lock m) \<noteq> None"
    then obtain u where u: "lk_owner (mo_lock m) = Some u" by blast
    have "mon_step meth u m \<noteq> None"
      using s(1) [of u] u by (cases "st u") (auto simp: mon_step_def locked_defs)
    with assms(2) show False by simp
  qed
  then have n: "\<not> notifier m" by (simp add: notifier_def)
  show "mo_calls m t = [] \<and> mo_code m t = [] \<or>
    (\<exists>c cs. mo_calls m t = c # cs \<and> t \<in> set (lk_asleep (mo_lock m)) \<and> must_wait c a)"
    using s [of t] n o assms(2) [rule_format, of t]
    by (cases "st t") (auto simp: mon_step_def meth Lock_lock_def locked_wait_def split: list.splits if_splits)
qed

lemma stuck_log:
  assumes "mon_inv prog a0 m a st" and "\<forall>t. mon_step meth t m = None"
  shows "log_of t (mo_log m) = prog t \<or> (\<exists>c cs. mo_calls m t = c # cs \<and> t \<in> set (lk_asleep (mo_lock m)) \<and> must_wait c a)"
proof -
  have "stage_calls (st t) (log_of t (mo_log m)) (mo_calls m t) (prog t)" using assms(1) by (simp add: mon_inv_def)
  then have "mo_calls m t = [] \<Longrightarrow> log_of t (mo_log m) = prog t" by (cases "st t") auto
  with stuck(2) [OF assms, of t] show ?thesis by blast
qed

lemma reach_prefix:
  assumes "mon_inv prog a0 m a st"
  shows "\<exists>rest. log_of t (mo_log m) @ rest = prog t"
proof -
  have "stage_calls (st t) (log_of t (mo_log m)) (mo_calls m t) (prog t)" using assms by (simp add: mon_inv_def)
  then show ?thesis by (cases "st t") auto
qed

end

end
