(* ===== verification/MonitorQueue.thy ===== *)
theory MonitorQueue
  imports Monitor
begin

text \<open>
  \<open>MessageQueue\<close> (\<open>src/network/pseudo/messagequeue.h\<close>) used by any number of threads: its three methods,
  instruction by instruction, are an interpretation of \<open>monitor\<close>.
\<close>

section \<open>The methods\<close>

datatype MqCall = MqPush Msg | MqPop | MqSize

datatype MqRet = MqPushed | MqPopped "Msg option" | MqSized nat

fun MessageQueue_meth :: "MqCall \<Rightarrow> (Msg Queue, MqRet) instr list" where
  "MessageQueue_meth (MqPush msg) =
     [ILock,
      IDo (\<lambda>messages. res_bind (Queue_push msg messages) (\<lambda>messages. Inr (MqPushed, messages))),
      INotifyAll,
      IUnlock]"
| "MessageQueue_meth MqPop =
     [ILock,
      IWaitWhile (\<lambda>messages. Inr (q_len messages = 0)),
      IDo (\<lambda>messages. res_bind (Queue_pop messages) (\<lambda>(res, messages). Inr (MqPopped res, messages))),
      IUnlock]"
| "MessageQueue_meth MqSize =
     [ILock,
      IDo (\<lambda>messages. Inr (MqSized (q_len messages), messages)),
      IUnlock]"

section \<open>The queue they implement\<close>

fun mq_must_wait :: "MqCall \<Rightarrow> Msg list \<Rightarrow> bool" where
  "mq_must_wait MqPop xs \<longleftrightarrow> xs = []"
| "mq_must_wait _ xs \<longleftrightarrow> False"

fun mq_eff :: "MqCall \<Rightarrow> Msg list \<Rightarrow> MqRet \<times> Msg list" where
  "mq_eff (MqPush m) xs = (MqPushed, xs @ [m])"
| "mq_eff MqPop xs = (MqPopped (Some (hd xs)), tl xs)"
| "mq_eff MqSize xs = (MqSized (length xs), xs)"

fun mq_guard :: "MqCall \<Rightarrow> (Msg Queue \<Rightarrow> bool res) option" where
  "mq_guard MqPop = Some (\<lambda>q. Inr (q_len q = 0))"
| "mq_guard _ = None"

fun mq_body :: "MqCall \<Rightarrow> Msg Queue \<Rightarrow> (MqRet \<times> Msg Queue) res" where
  "mq_body (MqPush m) = (\<lambda>q. res_bind (Queue_push m q) (\<lambda>q. Inr (MqPushed, q)))"
| "mq_body MqPop = (\<lambda>q. res_bind (Queue_pop q) (\<lambda>(r, q). Inr (MqPopped r, q)))"
| "mq_body MqSize = (\<lambda>q. Inr (MqSized (q_len q), q))"

fun mq_notifies :: "MqCall \<Rightarrow> bool" where
  "mq_notifies (MqPush m) \<longleftrightarrow> True"
| "mq_notifies _ \<longleftrightarrow> False"

interpretation mq: monitor MessageQueue_meth mq_guard mq_body mq_notifies "\<lambda>_. True" Queue_repr mq_must_wait mq_eff
proof unfold_locales
  fix c e :: MqCall and d :: "Msg Queue" and a a' :: "Msg list" and r
  show "MessageQueue_meth c = ILock # locked_wait (mq_guard c) (mq_body c) (mq_notifies c)"
    by (cases c) (simp_all add: locked_defs)
  show "g d = Inr (mq_must_wait c a)" if "mq_guard c = Some g" "Queue_repr d a" for g
    using that by (cases c) (auto simp: Queue_len_repr)
  show "\<not> mq_must_wait c a" if "mq_guard c = None" using that by (cases c) simp_all
  show "\<exists>d'. mq_body c d = Inr (r, d') \<and> Queue_repr d' a'" if p: "Queue_repr d a" "\<not> mq_must_wait c a" "mq_eff c a = (r, a')"
  proof (cases c)
    case (MqPush m)
    then show ?thesis using Queue_push_repr [OF p(1), of m] p(3) by auto
  next
    case MqPop
    then obtain x xs where "a = x # xs" using p(2) by (cases a) auto
    then show ?thesis using Queue_pop_repr [of d x xs] p MqPop by auto
  next
    case MqSize
    then show ?thesis using p Queue_len_repr [OF p(1)] by auto
  qed
  show "mq_must_wait e (snd (mq_eff c a))" if "\<not> mq_notifies c" "\<not> mq_must_wait c a" "mq_must_wait e a"
    using that by (cases c; cases e) auto
qed

text \<open>What was pushed and what was popped, in the order in which it happened.\<close>

fun mq_pushed :: "(nat \<times> MqCall \<times> MqRet) list \<Rightarrow> Msg list" where
  "mq_pushed [] = []"
| "mq_pushed ((t, MqPush m, r) # log) = m # mq_pushed log"
| "mq_pushed (_ # log) = mq_pushed log"

fun mq_popped :: "(nat \<times> MqCall \<times> MqRet) list \<Rightarrow> Msg list" where
  "mq_popped [] = []"
| "mq_popped ((t, c, MqPopped (Some m)) # log) = m # mq_popped log"
| "mq_popped (_ # log) = mq_popped log"

lemma mq_pushed_append: "mq_pushed (xs @ ys) = mq_pushed xs @ mq_pushed ys"
  by (induction xs rule: mq_pushed.induct) auto

lemma mq_popped_append: "mq_popped (xs @ ys) = mq_popped xs @ mq_popped ys"
  by (induction xs rule: mq_popped.induct) auto

lemma explains_fifo: "explains mq_must_wait mq_eff [] log xs \<Longrightarrow> mq_pushed log = mq_popped log @ xs"
proof (induction rule: explains.induct)
  case none
  then show ?case by simp
next
  case (call log a c r a' t)
  then show ?case by (cases c) (auto simp: mq_pushed_append mq_popped_append)
qed

section \<open>What is shown\<close>

text \<open>C17: A message queue shared by threads behaves like a queue. Whatever the interleaving of the instructions
  of \<open>push\<close>, \<open>pop\<close> and \<open>size\<close>, with threads waking up for no reason, no instruction crashes; the calls take
  effect in an order in which each thread's calls are in the order of its program; the results are
  those of a queue used in that order; and the messages popped are the messages pushed, first in, first
  out, none lost and none twice.\<close>

theorem message_queue_shared:
  assumes "mon_reach MessageQueue_meth (Monitor_new Queue_new prog) m"
  shows "\<exists>xs. Queue_repr (mo_data m) xs \<and> explains mq_must_wait mq_eff [] (mo_log m) xs \<and>
    mq_pushed (mo_log m) = mq_popped (mo_log m) @ xs \<and>
    (\<forall>t. (\<exists>rest. log_of t (mo_log m) @ rest = prog t) \<and> (\<forall>e. mon_step MessageQueue_meth t m \<noteq> Some (Inl e)))"
proof -
  obtain xs st where i: "mq.mon_inv prog [] m xs st" using mq.reach_inv [OF assms _ Queue_repr_new] by blast
  have "mon_step MessageQueue_meth t m \<noteq> Some (Inl e)" for t e
    using mq.inv_step [OF i, of t "Inl e"] by auto
  moreover have "\<exists>rest. log_of t (mo_log m) @ rest = prog t" for t
    by (rule mq.reach_prefix [OF i])
  moreover have "Queue_repr (mo_data m) xs" "explains mq_must_wait mq_eff [] (mo_log m) xs"
    using i by (simp_all add: mq.mon_inv_def)
  ultimately show ?thesis using explains_fifo by blast
qed

definition demo_mq_prog :: "nat \<Rightarrow> MqCall list" where
  "demo_mq_prog t = (if t = 0 then [MqPop] else if t = 1 then [MqPush (new_DoneMsg 1 0)] else [])"

text \<open>Thread 0 finds the queue empty and sleeps; thread 1 pushes and wakes it.\<close>

definition demo_mq_order :: "nat list" where
  "demo_mq_order = [0, 0, 0, 1, 1, 1, 1, 1, 0, 0, 0, 0]"

lemmas demo_mq_defs = demo_mq_order_def demo_mq_prog_def mon_step_def Monitor_new_def mon_goto_def Lock_lock_def Lock_unlock_def
  Lock_wait_def Lock_notify_all_def Lock_new_def Queue_new_def Queue_push_def Queue_pop_def Node_new_def Node_setValue_def Node_setNext_def heap_load_def Let_def

lemma demo_mq_run: "\<exists>m. mon_run MessageQueue_meth demo_mq_order (Monitor_new Queue_new demo_mq_prog) = Some m \<and>
    mo_log m = [(1, MqPush (new_DoneMsg 1 0), MqPushed), (0, MqPop, MqPopped (Some (new_DoneMsg 1 0)))]"
  by (simp add: demo_mq_defs)

lemma message_queue_shared_witness:
  "\<exists>m xs. mon_run MessageQueue_meth demo_mq_order (Monitor_new Queue_new demo_mq_prog) = Some m \<and>
     mq_pushed (mo_log m) = [new_DoneMsg 1 0] \<and> mq_popped (mo_log m) = [new_DoneMsg 1 0] \<and> Queue_repr (mo_data m) xs \<and> xs = []"
proof -
  obtain m where m: "mon_run MessageQueue_meth demo_mq_order (Monitor_new Queue_new demo_mq_prog) = Some m"
    "mo_log m = [(1, MqPush (new_DoneMsg 1 0), MqPushed), (0, MqPop, MqPopped (Some (new_DoneMsg 1 0)))]"
    using demo_mq_run by blast
  from message_queue_shared [OF mon_run_reach [OF mon_reach.start m(1)]]
  obtain xs where "Queue_repr (mo_data m) xs" "mq_pushed (mo_log m) = mq_popped (mo_log m) @ xs" by blast
  with m show ?thesis by auto
qed

text \<open>C18: No wakeup of a message queue is lost. When no thread can take a step, the lock is free, and every
  thread has made all its calls or sleeps in \<open>pop\<close> while the queue is empty: nobody sleeps next to a message.\<close>

theorem message_queue_no_lost_wakeup:
  assumes "mon_reach MessageQueue_meth (Monitor_new Queue_new prog) m" and "\<forall>t. mon_step MessageQueue_meth t m = None"
  shows "lk_owner (mo_lock m) = None \<and> (\<forall>t. log_of t (mo_log m) = prog t \<or>
    t \<in> set (lk_asleep (mo_lock m)) \<and> hd (mo_calls m t) = MqPop \<and> q_len (mo_data m) = 0)"
proof -
  obtain xs st where i: "mq.mon_inv prog [] m xs st" using mq.reach_inv [OF assms(1) _ Queue_repr_new] by blast
  have q: "Queue_repr (mo_data m) xs" using i by (simp add: mq.mon_inv_def)
  have "mq_must_wait c xs \<Longrightarrow> c = MqPop \<and> q_len (mo_data m) = 0" for c
    using Queue_len_repr [OF q] by (cases c) auto
  then have "\<forall>t. log_of t (mo_log m) = prog t \<or>
    t \<in> set (lk_asleep (mo_lock m)) \<and> hd (mo_calls m t) = MqPop \<and> q_len (mo_data m) = 0"
    using mq.stuck_log [OF i assms(2)] by (metis list.sel(1))
  with mq.stuck(1) [OF i assms(2)] show ?thesis ..
qed

lemma message_queue_no_lost_wakeup_witness:
  "\<exists>m. mon_run MessageQueue_meth [0, 0, 0] (Monitor_new Queue_new (\<lambda>t. if t = 0 then [MqPop] else [])) = Some m \<and>
     lk_owner (mo_lock m) = None \<and> (\<forall>t. log_of t (mo_log m) = (if t = 0 then [MqPop] else []) \<or> q_len (mo_data m) = 0)"
proof -
  let ?prog = "\<lambda>t :: nat. if t = 0 then [MqPop] else []"
  obtain m where m: "mon_run MessageQueue_meth [0, 0, 0] (Monitor_new Queue_new ?prog) = Some m"
    and s: "\<forall>t. mon_step MessageQueue_meth t m = None"
    by (simp add: demo_mq_defs)
  from message_queue_no_lost_wakeup [OF mon_run_reach [OF mon_reach.start m] s] m show ?thesis by blast
qed

end
