(* ===== verification/MonitorCache.thy ===== *)
theory MonitorCache
  imports Monitor KVStore
begin

text \<open>
  The cache of messages of a \<open>KVStore\<close> (\<open>src/store/kvstore.h\<close>) under \<open>msgCacheLock_\<close>, used by the
  receiver and the application of a node: adding a message, waiting for a reply, and answering the
  parked requests, instruction by instruction, are an interpretation of \<open>monitor\<close>. The values of the
  store are those put before.
\<close>

section \<open>The bodies\<close>

text \<open>What the methods do between \<open>lock\<close> and \<open>unlock\<close>.\<close>

definition addToCache_body :: "Key \<Rightarrow> Msg \<Rightarrow> KVStore \<Rightarrow> KVStore res" where
  "addToCache_body k msg kv =
     res_bind (Map_contains_key Key_vt (Some k) (kv_cache kv)) (\<lambda>present.
       if present then
         res_bind (Map_get Key_vt (Some k) (kv_cache kv)) (\<lambda>arr.
           case arr of
             None \<Rightarrow> Inl NullDeref
           | Some arrMsgs \<Rightarrow>
               res_bind (Array_add msg arrMsgs) (\<lambda>arrMsgs.
               res_bind (Map_put Key_vt (Some k) (Some arrMsgs) (kv_cache kv)) (\<lambda>(_, c).
               Inr (kv\<lparr>kv_cache := c\<rparr>))))
       else
         res_bind (Array_add msg Array_default) (\<lambda>arrMsgs.
         res_bind (Map_put Key_vt (Some k) (Some arrMsgs) (kv_cache kv)) (\<lambda>(_, c).
         Inr (kv\<lparr>kv_cache := c\<rparr>))))"

definition takeReply_body :: "Key \<Rightarrow> KVStore \<Rightarrow> (Msg Array option \<times> KVStore) res" where
  "takeReply_body k kv =
     res_bind (Map_remove Key_vt (Some k) (kv_cache kv)) (\<lambda>(msgArr, c). Inr (msgArr, kv\<lparr>kv_cache := c\<rparr>))"

definition tryToHandle_body :: "(Msg \<Rightarrow> 'n \<Rightarrow> 'n res) \<Rightarrow> Key \<Rightarrow> KVStore \<Rightarrow> 'n \<Rightarrow> (KVStore \<times> 'n) res" where
  "tryToHandle_body send k kv net =
     res_bind (Map_contains_key Key_vt (Some k) (kv_cache kv)) (\<lambda>present.
       if \<not> present then Inr (kv, net)
       else
         res_bind (Map_remove Key_vt (Some k) (kv_cache kv)) (\<lambda>(arr, c).
           case arr of
             None \<Rightarrow> Inl NullDeref
           | Some arrMsgs \<Rightarrow>
               res_fold (answerParked send k arrMsgs) [0..<arr_len arrMsgs] (kv\<lparr>kv_cache := c\<rparr>, net)))"

text \<open>The operations of the store are these bodies inside the lock.\<close>

lemma addToCache_locks:
  "addToCache k msg kv = res_bind (cache_lock kv) (\<lambda>kv. res_bind (addToCache_body k msg kv) (\<lambda>kv. Inr (cache_unlock kv)))"
  by (auto simp: addToCache_def addToCache_body_def res_bind_assoc intro!: res_bind_cong split: option.split)

lemma tryToHandleCache_locks:
  "tryToHandleCache send k kv net =
     res_bind (cache_lock kv) (\<lambda>kv. res_bind (tryToHandle_body send k kv net) (\<lambda>(kv, net). Inr (cache_unlock kv, net)))"
  by (auto simp: tryToHandleCache_def tryToHandle_body_def res_bind_assoc intro!: res_bind_cong split: option.split)

section \<open>The methods\<close>

text \<open>The object is the store and what its node has sent.\<close>

type_synonym cached = "KVStore \<times> Msg list"

definition send_to :: "Msg \<Rightarrow> Msg list \<Rightarrow> Msg list res" where
  "send_to m net = Inr (net @ [m])"

datatype CacheCall = CcAdd Key Msg | CcAwait Key | CcHandle Key

datatype CacheRet = CcDone | CcGot "Msg list option"

fun cache_meth :: "CacheCall \<Rightarrow> (cached, CacheRet) instr list" where
  "cache_meth (CcAdd k msg) =
     [ILock,
      IDo (\<lambda>(kv, net). res_bind (addToCache_body k msg kv) (\<lambda>kv. Inr (CcDone, kv, net))),
      INotifyAll,
      IUnlock]"
| "cache_meth (CcAwait k) =
     [ILock,
      IWaitWhile (\<lambda>(kv, net). res_bind (Map_contains_key Key_vt (Some k) (kv_cache kv)) (\<lambda>present. Inr (\<not> present))),
      IDo (\<lambda>(kv, net). res_bind (takeReply_body k kv) (\<lambda>(arr, kv). Inr (CcGot (map_option Array_list arr), kv, net))),
      IUnlock]"
| "cache_meth (CcHandle k) =
     [ILock,
      IDo (\<lambda>(kv, net). res_bind (tryToHandle_body send_to k kv net) (\<lambda>(kv, net). Inr (CcDone, kv, net))),
      IUnlock]"

section \<open>What they implement\<close>

type_synonym cache_spec = "(Key \<Rightarrow> Msg list) \<times> Msg list"

fun cc_must_wait :: "CacheCall \<Rightarrow> cache_spec \<Rightarrow> bool" where
  "cc_must_wait (CcAwait k) (cache, sent) \<longleftrightarrow> cache k = []"
| "cc_must_wait _ _ \<longleftrightarrow> False"

fun cc_eff :: "u64 \<Rightarrow> (String \<rightharpoonup> Value) \<Rightarrow> CacheCall \<Rightarrow> cache_spec \<Rightarrow> CacheRet \<times> cache_spec" where
  "cc_eff me \<sigma> (CcAdd k msg) (cache, sent) = (CcDone, cache(k := cache k @ [msg]), sent)"
| "cc_eff me \<sigma> (CcAwait k) (cache, sent) = (CcGot (Some (cache k)), cache(k := []), sent)"
| "cc_eff me \<sigma> (CcHandle k) (cache, sent) = (CcDone, cache(k := []), sent @ replies me k (the (\<sigma> (k_str k))) (cache k))"

text \<open>Requests are parked under keys of this node, whose values are answered once they are put; replies come for keys of other nodes.\<close>

fun cc_valid :: "u64 \<Rightarrow> (String \<rightharpoonup> Value) \<Rightarrow> CacheCall \<Rightarrow> bool" where
  "cc_valid me \<sigma> (CcAdd k msg) \<longleftrightarrow> Key_ok k \<and> (k_homeNode k = me \<longrightarrow> is_WaitAndGet msg)"
| "cc_valid me \<sigma> (CcAwait k) \<longleftrightarrow> Key_ok k"
| "cc_valid me \<sigma> (CcHandle k) \<longleftrightarrow> Key_ok k \<and> k_homeNode k = me \<and> \<sigma> (k_str k) \<noteq> None"

definition cc_repr :: "u64 \<Rightarrow> (String \<rightharpoonup> Value) \<Rightarrow> cached \<Rightarrow> cache_spec \<Rightarrow> bool" where
  "cc_repr me \<sigma> d a \<longleftrightarrow> KVStore_inv (fst d) \<and> kv_storeId (fst d) = me \<and> store_abs (fst d) = \<sigma> \<and> cache_abs (fst d) = fst a \<and>
     snd d = snd a \<and> (\<forall>k. k_homeNode k = me \<longrightarrow> list_all is_WaitAndGet (fst a k))"

lemma addToCache_body_locked:
  "addToCache_body k msg (kv\<lparr>kv_locked := b\<rparr>) = res_bind (addToCache_body k msg kv) (\<lambda>kv. Inr (kv\<lparr>kv_locked := b\<rparr>))"
  by (auto simp: addToCache_body_def res_bind_assoc intro!: res_bind_cong split: option.split)

lemma addToCache_body_spec:
  assumes "KVStore_inv kv" and "Key_ok k"
  shows "\<exists>kv'. addToCache_body k m kv = Inr kv' \<and> KVStore_inv kv' \<and> kv_storeId kv' = kv_storeId kv \<and>
    store_abs kv' = store_abs kv \<and> cache_abs kv' = (cache_abs kv)(k := cache_abs kv k @ [m])"
proof -
  have u: "\<not> kv_locked kv" using assms(1) by (simp add: KVStore_inv_def)
  have e: "addToCache k m kv = res_bind (addToCache_body k m kv) (\<lambda>kv. Inr (kv\<lparr>kv_locked := False\<rparr>))"
    using u by (simp add: addToCache_locks cache_lock_def cache_unlock_def addToCache_body_locked res_bind_assoc)
  have f: "kv_locked kv' = kv_locked kv" if "addToCache_body k m kv = Inr kv'" for kv'
    using that by (auto simp: addToCache_body_def res_bind_Inr_iff split: if_splits option.splits)
  have "kv'\<lparr>kv_locked := False\<rparr> = kv'" if "addToCache_body k m kv = Inr kv'" for kv'
    using f [OF that] u by (cases kv') simp
  then show ?thesis using addToCache_spec [OF assms, of m] unfolding e by (auto simp: res_bind_Inr_iff)
qed

lemma takeReply_body_spec:
  assumes "KVStore_inv kv" and "Key_ok k" and "cache_abs kv k \<noteq> []"
  shows "\<exists>arr kv'. takeReply_body k kv = Inr (Some arr, kv') \<and> Array_list arr = cache_abs kv k \<and> KVStore_inv kv' \<and>
    kv_storeId kv' = kv_storeId kv \<and> store_abs kv' = store_abs kv \<and> cache_abs kv' = (cache_abs kv)(k := [])"
proof -
  have c: "cache_inv (kv_cache kv)" using assms(1) by (simp add: KVStore_inv_def)
  obtain a where a: "Map_abs (kv_cache kv) k = Some a" "Array_list a = cache_abs kv k"
    using assms(3) by (auto simp: cache_abs_def split: option.splits)
  obtain c' where c': "Map_remove Key_vt (Some k) (kv_cache kv) = Inr (Some a, c')" "cache_inv c'"
    "Map_abs c' = (Map_abs (kv_cache kv))(k := None)"
    using cache_remove [OF c assms(2) a(1)] by blast
  have "cache_abs (kv\<lparr>kv_cache := c'\<rparr>) = (cache_abs kv)(k := [])"
    using c'(3) by (auto simp: cache_abs_def fun_eq_iff)
  with a(2) c'(1,2) assms(1) show ?thesis by (auto simp: takeReply_body_def KVStore_inv_def store_abs_def)
qed

lemma cache_present:
  "KVStore_inv kv \<Longrightarrow> Key_ok k \<Longrightarrow> Map_contains_key Key_vt (Some k) (kv_cache kv) = Inr (cache_abs kv k \<noteq> [])"
  using cache_contains [of "kv_cache kv" k] by (auto simp: KVStore_inv_def cache_abs_def cache_inv_def split: option.split)

lemma sends_to: "res_fold send_to ms net = Inr (net @ ms)"
  by (induction ms arbitrary: net) (simp_all add: send_to_def)

lemma tryToHandle_body_spec:
  assumes inv: "KVStore_inv kv" and k: "Key_ok k" and home: "k_homeNode k = kv_storeId kv"
    and v: "store_abs kv (k_str k) = Some v" and w: "list_all is_WaitAndGet (cache_abs kv k)"
  shows "\<exists>kv'. tryToHandle_body send_to k kv net = Inr (kv', net @ replies (kv_storeId kv) k v (cache_abs kv k)) \<and>
    KVStore_inv kv' \<and> kv_storeId kv' = kv_storeId kv \<and> store_abs kv' = store_abs kv \<and> cache_abs kv' = (cache_abs kv)(k := [])"
proof (cases "cache_abs kv k = []")
  case True
  then show ?thesis using inv cache_present [OF inv k] by (auto simp: tryToHandle_body_def replies_def fun_upd_idem)
next
  case False
  obtain arr kv' where t: "takeReply_body k kv = Inr (Some arr, kv')" "Array_list arr = cache_abs kv k" "KVStore_inv kv'"
    "kv_storeId kv' = kv_storeId kv" "store_abs kv' = store_abs kv" "cache_abs kv' = (cache_abs kv)(k := [])"
    using takeReply_body_spec [OF inv k False] by blast
  then obtain c where c: "Map_remove Key_vt (Some k) (kv_cache kv) = Inr (Some arr, c)" "kv' = kv\<lparr>kv_cache := c\<rparr>"
    by (auto simp: takeReply_body_def res_bind_Inr_iff)
  obtain a where a: "Map_abs (kv_cache kv) k = Some a" using False by (auto simp: cache_abs_def split: option.splits)
  have ci: "cache_inv (kv_cache kv)" using inv by (simp add: KVStore_inv_def)
  have "arr = a" using cache_remove [OF ci k a] c(1) by auto
  then have r: "Array_repr arr (cache_abs kv k)" using ci a t(2) by (metis cache_inv_def)
  have vok: "Value_ok v" using inv v by (auto simp: KVStore_inv_def ran_def)
  have g: "getValue send_to k False kv' = (\<lambda>net. Inr (Some v, kv', net))"
    by (rule ext) (simp add: getValue_local [OF t(3) k] home v t(4,5))
  have "tryToHandle_body send_to k kv net = Inr (kv', net @ replies (kv_storeId kv) k v (cache_abs kv k))"
    using cache_present [OF inv k] False c answerParked_fold [OF g k vok r, of "arr_len arr" net] w Array_repr_len [OF r] t(4)
    by (simp add: tryToHandle_body_def sends_to)
  with t show ?thesis by blast
qed

fun cc_guard :: "CacheCall \<Rightarrow> (cached \<Rightarrow> bool res) option" where
  "cc_guard (CcAwait k) = Some (\<lambda>(kv, net). res_bind (Map_contains_key Key_vt (Some k) (kv_cache kv)) (\<lambda>present. Inr (\<not> present)))"
| "cc_guard _ = None"

fun cc_body :: "CacheCall \<Rightarrow> cached \<Rightarrow> (CacheRet \<times> cached) res" where
  "cc_body (CcAdd k msg) = (\<lambda>(kv, net). res_bind (addToCache_body k msg kv) (\<lambda>kv. Inr (CcDone, kv, net)))"
| "cc_body (CcAwait k) = (\<lambda>(kv, net). res_bind (takeReply_body k kv) (\<lambda>(arr, kv). Inr (CcGot (map_option Array_list arr), kv, net)))"
| "cc_body (CcHandle k) = (\<lambda>(kv, net). res_bind (tryToHandle_body send_to k kv net) (\<lambda>(kv, net). Inr (CcDone, kv, net)))"

fun cc_notifies :: "CacheCall \<Rightarrow> bool" where
  "cc_notifies (CcAdd k msg) \<longleftrightarrow> True"
| "cc_notifies _ \<longleftrightarrow> False"

lemma cc_body_ok:
  assumes "cc_valid me \<sigma> c" and "cc_repr me \<sigma> (kv, net) (cache, sent)" and "\<not> cc_must_wait c (cache, sent)"
    and "cc_eff me \<sigma> c (cache, sent) = (r, a')"
  shows "\<exists>d'. cc_body c (kv, net) = Inr (r, d') \<and> cc_repr me \<sigma> d' a'"
proof -
  have R: "KVStore_inv kv" "kv_storeId kv = me" "store_abs kv = \<sigma>" "cache_abs kv = cache" "net = sent"
    "\<forall>k. k_homeNode k = me \<longrightarrow> list_all is_WaitAndGet (cache k)"
    using assms(2) by (simp_all add: cc_repr_def)
  show ?thesis
  proof (cases c)
    case (CcAdd k m)
    then show ?thesis using addToCache_body_spec [OF R(1), of k m] R assms(1,4) by (auto simp: cc_repr_def)
  next
    case (CcAwait k)
    then show ?thesis using takeReply_body_spec [OF R(1), of k] R assms(1,3,4) by (auto simp: cc_repr_def)
  next
    case (CcHandle k)
    then obtain v where v: "\<sigma> (k_str k) = Some v" "Key_ok k" "k_homeNode k = me" using assms(1) by auto
    then show ?thesis using tryToHandle_body_spec [OF R(1), of k v net] R assms(4) CcHandle by (auto simp: cc_repr_def)
  qed
qed

interpretation cc: monitor cache_meth cc_guard cc_body cc_notifies "cc_valid me \<sigma>" "cc_repr me \<sigma>" cc_must_wait "cc_eff me \<sigma>" for me \<sigma>
proof unfold_locales
  fix c e :: CacheCall and d :: cached and a a' :: cache_spec and r
  show "cache_meth c = ILock # locked_wait (cc_guard c) (cc_body c) (cc_notifies c)"
    by (cases c) (simp_all add: locked_defs)
  show "g d = Inr (cc_must_wait c a)" if "cc_guard c = Some g" "cc_valid me \<sigma> c" "cc_repr me \<sigma> d a" for g
    using that cache_present by (cases c; cases a; cases d) (auto simp: cc_repr_def)
  show "\<not> cc_must_wait c a" if "cc_guard c = None" using that by (cases c; cases a) simp_all
  show "\<exists>d'. cc_body c d = Inr (r, d') \<and> cc_repr me \<sigma> d' a'"
    if "cc_valid me \<sigma> c" "cc_repr me \<sigma> d a" "\<not> cc_must_wait c a" "cc_eff me \<sigma> c a = (r, a')"
    using cc_body_ok [of me \<sigma> c "fst d" "snd d" "fst a" "snd a" r a'] that by simp
  show "cc_must_wait e (snd (cc_eff me \<sigma> c a))" if "\<not> cc_notifies c" "\<not> cc_must_wait c a" "cc_must_wait e a"
    using that by (cases c; cases e; cases a) auto
qed

section \<open>What is shown\<close>

text \<open>C19: The lock of the cache works. However the instructions of the receiver and the application that
  file messages, wait for a reply and answer parked requests interleave, none crashes, the calls take effect
  one after the other, and the cache and the messages sent are those of the calls in that order. When no
  thread can take a step, each has made all its calls or waits for a reply that is not there.\<close>

theorem cache_shared:
  assumes "mon_reach cache_meth (Monitor_new (kv, []) prog) m" and "KVStore_inv kv"
    and "\<forall>k. k_homeNode k = kv_storeId kv \<longrightarrow> list_all is_WaitAndGet (cache_abs kv k)"
    and "\<forall>t. \<forall>c \<in> set (prog t). cc_valid (kv_storeId kv) (store_abs kv) c"
  shows "\<exists>cache sent. KVStore_inv (fst (mo_data m)) \<and> cache_abs (fst (mo_data m)) = cache \<and> snd (mo_data m) = sent \<and>
    explains cc_must_wait (cc_eff (kv_storeId kv) (store_abs kv)) (cache_abs kv, []) (mo_log m) (cache, sent) \<and>
    (\<forall>t. (\<exists>rest. log_of t (mo_log m) @ rest = prog t) \<and> (\<forall>e. mon_step cache_meth t m \<noteq> Some (Inl e))) \<and>
    ((\<forall>t. mon_step cache_meth t m = None) \<longrightarrow>
      (\<forall>t. log_of t (mo_log m) = prog t \<or> (\<exists>k cs. mo_calls m t = CcAwait k # cs \<and> cache k = [])))"
proof -
  let ?me = "kv_storeId kv" and ?\<sigma> = "store_abs kv"
  have "cc_repr ?me ?\<sigma> (kv, []) (cache_abs kv, [])" using assms(2,3) by (simp add: cc_repr_def)
  then obtain cache sent st where i: "cc.mon_inv ?me ?\<sigma> prog (cache_abs kv, []) m (cache, sent) st"
    using cc.reach_inv [OF assms(1,4)] by (metis surj_pair)
  have "mon_step cache_meth t m \<noteq> Some (Inl e)" for t e
    using cc.inv_step [OF i assms(4), of t "Inl e"] by auto
  moreover have "\<exists>rest. log_of t (mo_log m) @ rest = prog t" for t
    by (rule cc.reach_prefix [OF i])
  moreover have "cc_must_wait c (cache, sent) \<Longrightarrow> \<exists>k. c = CcAwait k \<and> cache k = []" for c
    by (cases c) auto
  then have "(\<forall>t. mon_step cache_meth t m = None) \<longrightarrow>
      (\<forall>t. log_of t (mo_log m) = prog t \<or> (\<exists>k cs. mo_calls m t = CcAwait k # cs \<and> cache k = []))"
    using cc.stuck_log [OF i] by metis
  moreover have "KVStore_inv (fst (mo_data m))" "cache_abs (fst (mo_data m)) = cache" "snd (mo_data m) = sent"
    "explains cc_must_wait (cc_eff ?me ?\<sigma>) (cache_abs kv, []) (mo_log m) (cache, sent)"
    using i [unfolded cc.mon_inv_def] by (simp_all add: cc_repr_def)
  ultimately show ?thesis by blast
qed

definition demo_cc_key :: Key where "demo_cc_key = \<lparr>k_str = String_lit ''k'', k_homeNode = 1\<rparr>"

text \<open>Thread 0 waits for a reply that nobody files.\<close>

lemma cache_shared_witness:
  "\<exists>m. mon_run cache_meth [0, 0, 0] (Monitor_new (KVStore_new 0, []) (\<lambda>t. if t = 0 then [CcAwait demo_cc_key] else [])) = Some m \<and>
     (\<forall>t. log_of t (mo_log m) = (if t = 0 then [CcAwait demo_cc_key] else []) \<or>
       (\<exists>k cs. mo_calls m t = CcAwait k # cs \<and> cache_abs (fst (mo_data m)) k = []))"
proof -
  let ?prog = "\<lambda>t :: nat. if t = 0 then [CcAwait demo_cc_key] else []" and ?kv = "KVStore_new 0"
  have k: "Key_ok demo_cc_key" by (simp add: Key_ok_def demo_cc_key_def cstr_ok_def)
  have p: "Map_contains_key Key_vt (Some demo_cc_key) (kv_cache ?kv) = Inr False"
    using cache_present [OF _ k, of ?kv] by simp
  obtain m where m: "mon_run cache_meth [0, 0, 0] (Monitor_new (?kv, []) ?prog) = Some m"
    and s: "\<forall>t. mon_step cache_meth t m = None"
    by (simp add: p mon_step_def Monitor_new_def mon_goto_def Lock_lock_def Lock_wait_def Lock_new_def)
  have v: "\<forall>t. \<forall>c \<in> set (?prog t). cc_valid (kv_storeId ?kv) (store_abs ?kv) c" using k by simp
  have w: "\<forall>k. k_homeNode k = kv_storeId ?kv \<longrightarrow> list_all is_WaitAndGet (cache_abs ?kv k)" by simp
  from cache_shared [OF mon_run_reach [OF mon_reach.start m] _ w v] s m show ?thesis by auto
qed

end
