(* ===== verification/Objects.thy ===== *)
theory Objects
  imports Strings
begin

text \<open>
  The base class of all objects and its printing helpers (\<open>src/utils/object.h\<close>, \<open>src/utils/helper.h\<close>), and
  the record of a client (\<open>src/network/clientdata.h\<close>).

  Standard output is the list of the characters printed so far. How a stream shows a \<open>float\<close> or a
  \<open>double\<close> is the parameter \<open>show\<close>.
\<close>

section \<open>Object\<close>

text \<open>\<open>hash()\<close> of an object whose \<open>hash_me\<close> returns \<open>me\<close> and whose field \<open>hash_\<close> is \<open>h\<close>; the field afterwards.\<close>

definition Object_new_hash :: u64 where "Object_new_hash = 0"

definition Object_hash :: "u64 \<Rightarrow> u64 \<Rightarrow> u64 \<times> u64" where
  "Object_hash me h = (if h \<noteq> 0 then (h, h) else (me, me))"

text \<open>The methods a subclass does not redefine; objects are compared by their addresses.\<close>

definition Object_hash_me :: u64 where "Object_hash_me = 1"

definition Object_equals :: "nat \<Rightarrow> nat \<Rightarrow> bool" where "Object_equals this other \<longleftrightarrow> this = other"

definition Object_clone :: "'a option" where "Object_clone = None"

definition Object_c_str :: "char list option" where "Object_c_str = None"

text \<open>As long as \<open>hash_me\<close> keeps its value, \<open>hash\<close> is \<open>hash_me\<close>, however often it is called; after that it is the old value.\<close>

lemma Object_hash_stable: "h \<in> {0, me} \<Longrightarrow> fst (Object_hash me h) = me \<and> snd (Object_hash me h) \<in> {0, me}"
  by (auto simp: Object_hash_def)

lemma Object_hash_stale: "me \<noteq> 0 \<Longrightarrow> fst (Object_hash me' (snd (Object_hash me Object_new_hash))) = me"
  by (simp add: Object_hash_def Object_new_hash_def)

section \<open>Sys\<close>

definition int_string :: "int \<Rightarrow> char list" where
  "int_string i = (if i < 0 then CHR ''-'' # to_string (nat (- i)) else to_string (nat i))"

definition Sys_p_cstr :: "char list \<Rightarrow> char list \<Rightarrow> char list res" where
  "Sys_p_cstr c out = res_bind (c_strlen (map Some c)) (\<lambda>n. Inr (out @ take n c))"

definition Sys_p_bool :: "bool \<Rightarrow> char list \<Rightarrow> char list" where
  "Sys_p_bool c out = out @ (if c then ''1'' else ''0'')"

definition Sys_p_double :: "('d \<Rightarrow> char list) \<Rightarrow> 'd \<Rightarrow> char list \<Rightarrow> char list" where
  "Sys_p_double show c out = out @ show c"

definition Sys_p_int :: "32 word \<Rightarrow> char list \<Rightarrow> char list" where
  "Sys_p_int i out = out @ int_string (sint i)"

definition Sys_p_size_t :: "u64 \<Rightarrow> char list \<Rightarrow> char list" where
  "Sys_p_size_t i out = out @ to_string (unat i)"

definition Sys_p_char :: "char \<Rightarrow> char list \<Rightarrow> char list" where
  "Sys_p_char c out = out @ [c]"

definition newline :: char where "newline = CHR 0x0A"

definition Sys_pln :: "char list \<Rightarrow> char list" where "Sys_pln out = out @ [newline]"

definition Sys_pln_cstr :: "char list \<Rightarrow> char list \<Rightarrow> char list res" where
  "Sys_pln_cstr c out = res_bind (Sys_p_cstr c out) (\<lambda>out. Inr (Sys_pln out))"

definition Sys_pln_bool :: "bool \<Rightarrow> char list \<Rightarrow> char list" where "Sys_pln_bool c out = Sys_pln (Sys_p_bool c out)"

definition Sys_pln_double :: "('d \<Rightarrow> char list) \<Rightarrow> 'd \<Rightarrow> char list \<Rightarrow> char list" where
  "Sys_pln_double show x out = Sys_pln (Sys_p_double show x out)"

definition Sys_pln_int :: "32 word \<Rightarrow> char list \<Rightarrow> char list" where "Sys_pln_int i out = Sys_pln (Sys_p_int i out)"

definition Sys_pln_size_t :: "u64 \<Rightarrow> char list \<Rightarrow> char list" where "Sys_pln_size_t x out = Sys_pln (Sys_p_size_t x out)"

definition Sys_pln_char :: "char \<Rightarrow> char list \<Rightarrow> char list" where "Sys_pln_char c out = Sys_pln (Sys_p_char c out)"

text \<open>\<open>duplicate\<close>: an array of the length of the string and its terminator, into which \<open>strcpy\<close> copies.\<close>

definition Sys_duplicate :: "char list \<Rightarrow> char cells res" where
  "Sys_duplicate s =
     res_bind (c_strlen (map Some s)) (\<lambda>n. cells_store (new_cells (n + 1)) 0 (take (n + 1) s))"

text \<open>The functions that end the program; what they print first is lost with it.\<close>

definition Sys_exit_if_not :: "bool \<Rightarrow> char list \<Rightarrow> char list \<Rightarrow> char list res" where
  "Sys_exit_if_not b c out =
     (if b then Inr out
      else res_bind (Sys_p_cstr (''Exit message: '' @ [NUL]) out) (\<lambda>out.
           res_bind (Sys_pln_cstr c out) (\<lambda>_. Inl (Exit (-1)))))"

definition Sys_myfail :: "char list \<Rightarrow> char list res" where
  "Sys_myfail out = res_bind (Sys_pln_cstr (''Failing'' @ [NUL]) out) (\<lambda>_. Inl (Exit 1))"

definition Sys_OK :: "char list \<Rightarrow> char list \<Rightarrow> char list res" where "Sys_OK m out = Sys_pln_cstr m out"

definition Sys_t_true :: "bool \<Rightarrow> char list \<Rightarrow> char list res" where
  "Sys_t_true p out = (if \<not> p then Sys_myfail out else Inr out)"

definition Sys_t_false :: "bool \<Rightarrow> char list \<Rightarrow> char list res" where
  "Sys_t_false p out = (if p then Sys_myfail out else Inr out)"

lemma Sys_p_cstr_ok: "NUL \<notin> set cs \<Longrightarrow> Sys_p_cstr (cs @ NUL # rest) out = Inr (out @ cs)"
  by (simp add: Sys_p_cstr_def c_strlen_nul)

lemma Sys_pln_cstr_ok: "NUL \<notin> set cs \<Longrightarrow> Sys_pln_cstr (cs @ NUL # rest) out = Inr (out @ cs @ [newline])"
  by (simp add: Sys_pln_cstr_def Sys_p_cstr_ok Sys_pln_def)

lemma Sys_exit_if_not_ok:
  assumes "NUL \<notin> set cs"
  shows "Sys_exit_if_not b (cs @ NUL # rest) out = (if b then Inr out else Inl (Exit (-1)))"
  using Sys_p_cstr_ok [of "''Exit message: ''" "[]" out] Sys_pln_cstr_ok [OF assms]
  by (simp add: Sys_exit_if_not_def)

lemma Sys_tests: "Sys_t_true p out = (if p then Inr out else Inl (Exit 1))" "Sys_t_false p out = (if p then Inl (Exit 1) else Inr out)"
  using Sys_pln_cstr_ok [of "''Failing''" "[]" out]
  by (simp_all add: Sys_t_true_def Sys_t_false_def Sys_myfail_def)

text \<open>The copy is a new array, initialised throughout, that holds the same string.\<close>

lemma Sys_duplicate_ok: "NUL \<notin> set cs \<Longrightarrow> Sys_duplicate (cs @ NUL # rest) = Inr (map Some (cs @ [NUL]))"
  by (simp add: Sys_duplicate_def c_strlen_nul cells_store_def new_cells_def)

text \<open>Different numbers are printed differently.\<close>

lemma int_string_inject [simp]: "int_string i = int_string j \<longleftrightarrow> i = j"
proof
  assume e: "int_string i = int_string j"
  have m: "CHR ''-'' \<notin> set (to_string n)" for n using to_string_digits [of "CHR ''-''" n] by auto
  have s: "i < 0 \<longleftrightarrow> j < 0"
    using e m by (auto simp: int_string_def split: if_splits) (metis list.set_intros(1))+
  show "i = j"
  proof (cases "i < 0")
    case True
    then have "digits_val (to_string (nat (- i))) = digits_val (to_string (nat (- j)))" using e s by (simp add: int_string_def)
    then show ?thesis using True s by simp
  next
    case False
    then have "digits_val (to_string (nat i)) = digits_val (to_string (nat j))" using e s by (simp add: int_string_def)
    then show ?thesis using False s by simp
  qed
qed simp

section \<open>ClientData\<close>

record ClientData =
  cd_ip :: "char list"
  cd_port :: "32 word"
  cd_fd :: "32 word"

definition ClientData_new :: "char list \<Rightarrow> 32 word \<Rightarrow> 32 word \<Rightarrow> ClientData" where
  "ClientData_new ip port sockFd = \<lparr>cd_ip = ip, cd_port = port, cd_fd = sockFd\<rparr>"

text \<open>\<open>sprintf\<close> writes the text and its terminator into the array of 100 bytes.\<close>

definition ClientData_toString :: "ClientData \<Rightarrow> char cells res" where
  "ClientData_toString c =
     res_bind (c_strlen (map Some (cd_ip c))) (\<lambda>n.
     cells_store (replicate 100 (Some NUL)) 0
       (take n (cd_ip c) @ '':'' @ int_string (sint (cd_port c)) @ '':'' @ int_string (sint (cd_fd c)) @ '','' @ [NUL]))"

definition ClientData_getClientFd :: "ClientData \<Rightarrow> 32 word" where "ClientData_getClientFd c = cd_fd c"

definition ClientData_getIp :: "ClientData \<Rightarrow> char list" where "ClientData_getIp c = cd_ip c"

lemma to_string_length: "n < 10 ^ k \<Longrightarrow> 0 < k \<Longrightarrow> length (to_string n) \<le> k"
proof (induction n arbitrary: k rule: to_string.induct)
  case (1 n)
  show ?case
  proof (cases "n < 10")
    case True
    then show ?thesis using "1.prems"(2) by (subst to_string.simps) simp
  next
    case False
    then obtain j where j: "k = Suc j" "0 < j" using "1.prems" by (cases k; cases "k - 1") auto
    then have "n div 10 < 10 ^ j" using "1.prems"(1) by (simp add: less_mult_imp_div_less)
    with 1(1) [OF _ this j(2)] False j show ?thesis by (subst to_string.simps) simp
  qed
qed

lemma int_string_length: "length (int_string (sint (w :: 32 word))) \<le> 11"
proof -
  have "sint w < 10 ^ 10" "- sint w < 10 ^ 10" using sint_lt [of w] sint_ge [of w] by simp_all
  then show ?thesis using to_string_length [of "nat (sint w)" 10] to_string_length [of "nat (- sint w)" 10]
    by (auto simp: int_string_def nat_less_iff)
qed

lemma cells_store_holds: "length xs \<le> length c \<Longrightarrow> \<exists>d. cells_store c 0 xs = Inr d \<and> length d = length c \<and> holds xs d"
  by (simp add: cells_store_def holds_def)

text \<open>An address of up to 74 characters fits, any IPv4 address among them; one of 100 overruns the array.\<close>

lemma ClientData_toString_ok:
  assumes "cd_ip c = ip @ NUL # rest" and "NUL \<notin> set ip" and "length ip \<le> 74"
  shows "\<exists>rep. ClientData_toString c = Inr rep \<and> length rep = 100 \<and>
    holds (ip @ '':'' @ int_string (sint (cd_port c)) @ '':'' @ int_string (sint (cd_fd c)) @ '','' @ [NUL]) rep"
proof -
  let ?rep = "ip @ '':'' @ int_string (sint (cd_port c)) @ '':'' @ int_string (sint (cd_fd c)) @ '','' @ [NUL]"
  have "ClientData_toString c = cells_store (replicate 100 (Some NUL)) 0 ?rep"
    using assms(1,2) by (simp add: ClientData_toString_def c_strlen_nul)
  moreover have "length ?rep \<le> length (replicate 100 (Some NUL))"
    using assms(3) int_string_length [of "cd_port c"] int_string_length [of "cd_fd c"] by simp
  ultimately show ?thesis using cells_store_holds by (metis length_replicate)
qed

lemma ClientData_toString_overrun:
  assumes "cd_ip c = ip @ NUL # rest" and "NUL \<notin> set ip" and "100 \<le> length ip"
  shows "ClientData_toString c = Inl OutOfBounds"
  using assms by (simp add: ClientData_toString_def c_strlen_nul cells_store_def)

end
