(* ===== verification/Sockets.thy ===== *)
theory Sockets
  imports Network
begin

text \<open>
  The system calls of \<open>src/network/network.h\<close>: each returns a number, which is an argument here, and a
  failure is an assertion that fails. When all succeed, sending, receiving and the construction are
  what \<open>Network\<close> says.
\<close>

section \<open>The wrappers\<close>

definition crashIfError :: "bool \<Rightarrow> unit res" where
  "crashIfError success = res_assert success"

definition setupNewSocket :: "int \<Rightarrow> int \<Rightarrow> int \<Rightarrow> int res" where
  "setupNewSocket newSock reuseaddr reuseport =
     res_bind (crashIfError (newSock \<ge> 0)) (\<lambda>_.
     res_bind (crashIfError (reuseaddr = 0)) (\<lambda>_.
     res_bind (crashIfError (reuseport = 0)) (\<lambda>_. Inr newSock)))"

definition bindSocket :: "int \<Rightarrow> unit res" where "bindSocket val = crashIfError (val = 0)"

definition listenForConnections :: "int \<Rightarrow> unit res" where "listenForConnections val = crashIfError (val \<ge> 0)"

definition acceptConnection :: "int \<Rightarrow> int res" where
  "acceptConnection newSock = res_bind (crashIfError (newSock \<ge> 0)) (\<lambda>_. Inr newSock)"

definition connectToNode :: "int \<Rightarrow> unit res" where "connectToNode conn = crashIfError (conn \<ge> 0)"

definition closeSock :: "int \<Rightarrow> unit res" where "closeSock rv = crashIfError (rv = 0)"

section \<open>The methods that make the calls\<close>

text \<open>What the calls of one \<open>sendMsg\<close> return.\<close>

record SendCalls =
  sd_socket :: int
  sd_reuseaddr :: int
  sd_reuseport :: int
  sd_connect :: int
  sd_send :: int
  sd_close :: int

definition sendMsg_calls :: "SendCalls \<Rightarrow> Msg \<Rightarrow> Network \<Rightarrow> (packet \<times> Network) res" where
  "sendMsg_calls os msg net =
     res_bind (setupNewSocket (sd_socket os) (sd_reuseaddr os) (sd_reuseport os)) (\<lambda>_.
     res_bind (Directory_getInfo (getTarget msg) (nw_dir net)) (\<lambda>targetInfo.
     res_bind (connectToNode (sd_connect os)) (\<lambda>_.
     res_bind (Frame_serialize msg (Serializer_clear (nw_ser net))) (\<lambda>ser.
     res_bind (cells_load (sz_buffer ser) 0 (sz_written ser)) (\<lambda>bytes.
     res_bind (crashIfError (sd_send os \<ge> 0)) (\<lambda>_.
     res_bind (closeSock (sd_close os)) (\<lambda>_.
     Inr ((targetInfo, bytes), net\<lparr>nw_ser := Serializer_clear ser\<rparr>))))))))"

text \<open>\<open>accept\<close>, the reads and \<open>close\<close> of one \<open>receiveMsg\<close>.\<close>

definition receiveMsg_calls :: "int \<Rightarrow> char list option list \<Rightarrow> int \<Rightarrow> Network \<Rightarrow> (Msg \<times> Network) res" where
  "receiveMsg_calls accepted got closed net =
     res_bind (acceptConnection accepted) (\<lambda>_.
     res_bind (readStrFromNet got) (\<lambda>buffStr.
     res_bind (closeSock closed) (\<lambda>_.
     res_bind (write_buf (str_size buffStr) (str_chars buffStr) (nw_ser net)) (\<lambda>ser.
     res_bind (Frame_deserialize ser) (\<lambda>(m, ser). Inr (m, net\<lparr>nw_ser := ser\<rparr>))))))"

record NewCalls =
  nc_socket :: int
  nc_reuseaddr :: int
  nc_reuseport :: int
  nc_bind :: int
  nc_listen :: int

definition Network_new_calls :: "NewCalls \<Rightarrow> pton \<Rightarrow> NetArgs \<Rightarrow> Network res" where
  "Network_new_calls os pton args =
     res_bind (setupNewSocket (nc_socket os) (nc_reuseaddr os) (nc_reuseport os)) (\<lambda>_.
     res_bind (charToAddr pton (na_ip args) (na_port args)) (\<lambda>myAddr.
     res_bind (bindSocket (nc_bind os)) (\<lambda>_.
     res_bind (listenForConnections (nc_listen os)) (\<lambda>_.
     res_bind (c_arg (na_serverIp args)) (\<lambda>addr.
     res_bind (Directory_addInfo_addr pton (na_serverIndex args) addr (na_serverPort args) Directory_new) (\<lambda>d.
     Inr \<lparr>nw_ser = Serializer_new, nw_dir = d, nw_addr = myAddr,
          nw_isNodeDone = replicate (na_numNodes args) False\<rparr>))))))"

text \<open>\<open>~Network\<close> closes the socket it listens on.\<close>

definition Network_close :: "int \<Rightarrow> unit res" where "Network_close closed = closeSock closed"

section \<open>What the return values decide\<close>

definition send_calls_ok :: "SendCalls \<Rightarrow> bool" where
  "send_calls_ok os \<longleftrightarrow> sd_socket os \<ge> 0 \<and> sd_reuseaddr os = 0 \<and> sd_reuseport os = 0 \<and> sd_connect os \<ge> 0 \<and>
     sd_send os \<ge> 0 \<and> sd_close os = 0"

definition new_calls_ok :: "NewCalls \<Rightarrow> bool" where
  "new_calls_ok os \<longleftrightarrow> nc_socket os \<ge> 0 \<and> nc_reuseaddr os = 0 \<and> nc_reuseport os = 0 \<and> nc_bind os = 0 \<and> nc_listen os \<ge> 0"

lemma crashIfError_cases: "crashIfError b = (if b then Inr () else Inl AssertFail)"
  by (simp add: crashIfError_def)

lemmas socket_calls = crashIfError_cases setupNewSocket_def bindSocket_def listenForConnections_def acceptConnection_def
  connectToNode_def closeSock_def

text \<open>A node that is not in the directory, or any call that fails, stops the process; otherwise the message is sent.\<close>

lemma sendMsg_calls_eq: "send_calls_ok os \<Longrightarrow> sendMsg_calls os msg net = Network_sendMsg msg net"
  by (simp add: sendMsg_calls_def Network_sendMsg_def send_calls_ok_def socket_calls)

lemma sendMsg_calls_fail: "\<not> send_calls_ok os \<Longrightarrow> sendMsg_calls os msg net \<noteq> Inr x"
  by (auto simp: sendMsg_calls_def send_calls_ok_def socket_calls res_bind_Inr_iff)

lemma sendMsg_calls_assert:
  assumes "Network_inv net" and "Msg_ok msg" and "Map_abs (nw_dir net) (getTarget msg) = Some info"
  shows "sendMsg_calls os msg net = (if send_calls_ok os then Network_sendMsg msg net else Inl AssertFail)"
proof -
  obtain net' where "Network_sendMsg msg net = Inr ((info, enc_Frame msg), net')"
    using Network_sendMsg_frame [OF assms] by blast
  then obtain t ser bytes where "Directory_getInfo (getTarget msg) (nw_dir net) = Inr t"
    "Frame_serialize msg (Serializer_clear (nw_ser net)) = Inr ser" "cells_load (sz_buffer ser) 0 (sz_written ser) = Inr bytes"
    by (auto simp: Network_sendMsg_def res_bind_Inr_iff)
  then show ?thesis
    by (auto simp: sendMsg_calls_def Network_sendMsg_def send_calls_ok_def socket_calls)
qed

lemma receiveMsg_calls_eq:
  "receiveMsg_calls accepted got closed net =
     (if accepted < 0 then Inl AssertFail
      else if closed = 0 then Network_receiveMsg got net
      else res_bind (readStrFromNet got) (\<lambda>_. Inl AssertFail))"
  by (simp add: receiveMsg_calls_def Network_receiveMsg_def socket_calls)

lemma Network_new_calls_eq: "new_calls_ok os \<Longrightarrow> Network_new_calls os pton args = Network_new pton args"
  by (simp add: Network_new_calls_def Network_new_def new_calls_ok_def socket_calls)

lemma Network_new_calls_fail: "\<not> new_calls_ok os \<Longrightarrow> Network_new_calls os pton args \<noteq> Inr x"
  by (auto simp: Network_new_calls_def new_calls_ok_def socket_calls res_bind_Inr_iff)

end
