(* ===== verification/FrameEquals.thy ===== *)
theory FrameEquals
  imports FrameProps
begin

text \<open>
  The comparisons \<open>equals\<close> of caches, arrays of blocks, columns and data frames (\<open>src/dataframe/\<close>). \<open>same\<close> says
  that both are one object (\<open>this == other\<close>). Two data frames that are not one object never compare equal.
\<close>

section \<open>The comparisons\<close>

text \<open>\<open>equals\<close> of blocks is that of their class; \<open>far\<close> is the distance of two \<open>double\<close> values.\<close>

fun AnyBlock_equals :: "(u64 \<Rightarrow> u64 \<Rightarrow> bool) \<Rightarrow> AnyBlock \<Rightarrow> AnyBlock \<Rightarrow> bool res" where
  "AnyBlock_equals far (IntB b) (IntB b') = IntBlock_equals b b'"
| "AnyBlock_equals far (BoolB b) (BoolB b') = BoolBlock_equals b b'"
| "AnyBlock_equals far (DoubleB b) (DoubleB b') = DoubleBlock_equals far b b'"
| "AnyBlock_equals far (StrB b) (StrB b') = StringBlock_equals b b'"
| "AnyBlock_equals far _ _ = Inr False"

definition Cache_equals :: "('b \<Rightarrow> 'b \<Rightarrow> bool) \<Rightarrow> bool \<Rightarrow> 'b Cache \<Rightarrow> 'b Cache \<Rightarrow> bool res" where
  "Cache_equals beq same this c =
     (if same then Inr True
      else
        res_bind (Map_equals Key_vt beq (ca_data this) (ca_data c)) (\<lambda>eq.
        if \<not> eq then Inr False else Queue_equals Key_equals (ca_keyOrder this) (ca_keyOrder c)))"

definition DistributedArray_equals :: "(AnyBlock \<Rightarrow> AnyBlock \<Rightarrow> bool) \<Rightarrow> bool \<Rightarrow> DistributedArray \<Rightarrow> DistributedArray \<Rightarrow> bool res" where
  "DistributedArray_equals beq same this da =
     (if same then Inr True
      else
        res_bind (KeyArr_equals (da_keyList da) (da_keyList this)) (\<lambda>eq.
        if \<not> eq then Inr False else Cache_equals beq False (da_cache da) (da_cache this)))"

definition Column_equals :: "(AnyBlock \<Rightarrow> AnyBlock \<Rightarrow> bool) \<Rightarrow> bool \<Rightarrow> Column \<Rightarrow> Column \<Rightarrow> bool res" where
  "Column_equals beq same this c =
     (if same then Inr True
      else if co_size this \<noteq> co_size c then Inr False
      else
        res_bind (DistributedArray_equals beq False (co_blocks this) (co_blocks c)) (\<lambda>eq.
        Inr (eq \<and> co_type this = co_type c \<and> Key_equals (co_baseKey this) (co_baseKey c))))"

text \<open>The array of columns, whose key is that of its frame; a comparison of two columns that crashes crashes the whole.\<close>

fun Columns_equal :: "(AnyBlock \<Rightarrow> AnyBlock \<Rightarrow> bool) \<Rightarrow> Column Array \<Rightarrow> Column Array \<Rightarrow> nat list \<Rightarrow> bool res" where
  "Columns_equal beq a b [] = Inr True"
| "Columns_equal beq a b (i # is) =
     res_bind (Array_get i a) (\<lambda>x. res_bind (Array_get i b) (\<lambda>y.
     res_bind (Column_equals beq False x y) (\<lambda>eq.
     if \<not> eq then Inr False else Columns_equal beq a b is)))"

definition ColumnArray_equals :: "(AnyBlock \<Rightarrow> AnyBlock \<Rightarrow> bool) \<Rightarrow> bool \<Rightarrow> Key \<Rightarrow> ColumnArray \<Rightarrow> Key \<Rightarrow> ColumnArray \<Rightarrow> bool res" where
  "ColumnArray_equals beq same k this k' ca =
     (if same then Inr True
      else if arr_len this \<noteq> arr_len ca then Inr False
      else
        res_bind (Columns_equal beq this ca [0..<arr_len this]) (\<lambda>eq.
        Inr (eq \<and> Key_equals k k')))"

definition DataFrame_equals :: "(AnyBlock \<Rightarrow> AnyBlock \<Rightarrow> bool) \<Rightarrow> bool \<Rightarrow> DataFrame \<Rightarrow> DataFrame \<Rightarrow> bool res" where
  "DataFrame_equals beq same this other =
     (if same then Inr True
      else
        res_bind (ColumnArray_equals beq False (df_key this) (df_columns this) (df_key other) (df_columns other)) (\<lambda>eq.
        if \<not> eq then Inr False
        else
          res_bind (Schema_equals (df_schema this) (df_schema other)) (\<lambda>eq.
          Inr (eq \<and> Key_equals (df_key this) (df_key other)))))"

section \<open>What they say\<close>

text \<open>A comparison of frames that are not one object is false or has no value: \<open>Schema::equals\<close> never returns true.\<close>

lemma DataFrame_equals_never_true: "DataFrame_equals beq False df df' \<noteq> Inr True"
proof -
  have "Schema_equals_from s s' is \<noteq> Inr True" for s s' "is"
    by (induction "is") (auto simp: res_bind_Inr_iff split: if_splits)
  then have "Schema_equals s s' \<noteq> Inr True" for s s' by (simp add: Schema_equals_def)
  then show ?thesis by (auto simp: DataFrame_equals_def res_bind_Inr_iff split: if_splits)
qed

text \<open>Columns with the same elements differ as soon as one has cached another number of blocks.\<close>

lemma DistributedArray_equals_caches:
  assumes "hm_size (ca_data (da_cache a)) \<noteq> hm_size (ca_data (da_cache b))" and "KeyArr_equals (da_keyList b) (da_keyList a) = Inr r"
  shows "DistributedArray_equals beq False a b = Inr False"
  using assms by (cases r) (simp_all add: DistributedArray_equals_def Cache_equals_def Map_equals_def)

lemma Column_equals_caches:
  assumes "hm_size (ca_data (da_cache (co_blocks a))) \<noteq> hm_size (ca_data (da_cache (co_blocks b)))"
    and "KeyArr_equals (da_keyList (co_blocks b)) (da_keyList (co_blocks a)) = Inr r"
  shows "Column_equals beq False a b = Inr False"
  using DistributedArray_equals_caches [OF assms] by (simp add: Column_equals_def)

end
