(* ===== verification/MsgParts.thy ===== *)
theory MsgParts
  imports Messages
begin

text \<open>
  The rest of the interface of messages and addresses (\<open>src/network/message.h\<close>, \<open>nodeInfo.h\<close>,
  \<open>directory.h\<close>): the messages \<open>receiveMsg\<close> makes before it reads into them, the parts of a message, the
  comparison of replies and the text of an address. \<open>inet_ntop\<close> is the parameter \<open>ntop\<close>.
\<close>

section \<open>Messages before they are read\<close>

definition Message_default :: Message where "Message_default = Message_new Done 0 0"

definition GetDataMsg_default :: "Msg res" where
  "GetDataMsg_default = res_bind Key_default (\<lambda>k. Inr (GetDataMsg Message_default k))"

definition WaitAndGetMsg_default :: "Msg res" where
  "WaitAndGetMsg_default = res_bind Key_default (\<lambda>k. Inr (WaitAndGetMsg Message_default k))"

definition PutMsg_default :: "Msg res" where
  "PutMsg_default = res_bind Key_default (\<lambda>k. Inr (PutMsg Message_default k Value_default))"

definition ReplyDataMsg_default :: "Msg res" where
  "ReplyDataMsg_default = res_bind Key_default (\<lambda>k. Inr (ReplyDataMsg Message_default k Value_default))"

definition DirectoryMsg_default :: Msg where "DirectoryMsg_default = DirectoryMsg Message_default Directory_new"

definition RegisterMsg_default :: "(char list \<Rightarrow> u32 option) \<Rightarrow> Msg res" where
  "RegisterMsg_default pton =
     res_bind (String_of_cstr (''127.0.0.1'' @ [NUL])) (\<lambda>str.
     res_bind (NodeInfo_new pton str 8080) (\<lambda>info. Inr (RegisterMsg Message_default info)))"

definition DoneMsg_default :: Msg where "DoneMsg_default = DoneMsg Message_default"

definition TeardownMsg_default :: Msg where "TeardownMsg_default = TeardownMsg Message_default"

text \<open>\<open>RegisterMsg\<close> from a \<open>String\<close>.\<close>

definition RegisterMsg_of_String :: "(char list \<Rightarrow> u32 option) \<Rightarrow> String \<Rightarrow> u64 \<Rightarrow> u64 \<Rightarrow> u64 \<Rightarrow> Msg res" where
  "RegisterMsg_of_String pton client port sender target =
     res_bind (NodeInfo_new pton client port) (\<lambda>info. Inr (RegisterMsg (Message_new Register sender target) info))"

text \<open>All can be made, the registration if \<open>inet_pton\<close> takes the address in it; until it is read, each says it is from node 0 that is done.\<close>

lemma Key_default_ok: "Key_default = Inr (Key_lit [] 0)"
  by (simp add: Key_default_def Key_new_def Key_lit_def String_of_cstr_def String_make_def String_lit_def)

lemma defaults_made:
  "\<exists>m. GetDataMsg_default = Inr m \<and> Msg_header m = Message_default"
  "\<exists>m. WaitAndGetMsg_default = Inr m \<and> Msg_header m = Message_default"
  "\<exists>m. PutMsg_default = Inr m \<and> Msg_header m = Message_default"
  "\<exists>m. ReplyDataMsg_default = Inr m \<and> Msg_header m = Message_default"
  "pton ''127.0.0.1'' \<noteq> None \<Longrightarrow> \<exists>m. RegisterMsg_default pton = Inr m \<and> Msg_header m = Message_default"
  by (auto simp: GetDataMsg_default_def WaitAndGetMsg_default_def PutMsg_default_def ReplyDataMsg_default_def
      RegisterMsg_default_def Key_default_ok NodeInfo_new_def String_of_cstr_def String_make_def String_val_def numeral_eq_Suc)

section \<open>Parts of a message\<close>

fun Msg_getKey :: "Msg \<Rightarrow> Key option" where
  "Msg_getKey (GetDataMsg h k) = Some k"
| "Msg_getKey (PutMsg h k v) = Some k"
| "Msg_getKey (ReplyDataMsg h k v) = Some k"
| "Msg_getKey (WaitAndGetMsg h k) = Some k"
| "Msg_getKey _ = None"

fun Msg_getValue :: "Msg \<Rightarrow> Value option" where
  "Msg_getValue (PutMsg h k v) = Some v"
| "Msg_getValue (ReplyDataMsg h k v) = Some v"
| "Msg_getValue _ = None"

fun DirectoryMsg_getDirectory :: "Msg \<Rightarrow> Directory option" where
  "DirectoryMsg_getDirectory (DirectoryMsg h d) = Some d"
| "DirectoryMsg_getDirectory _ = None"

fun RegisterMsg_getInfo :: "Msg \<Rightarrow> NodeInfo option" where
  "RegisterMsg_getInfo (RegisterMsg h i) = Some i"
| "RegisterMsg_getInfo _ = None"

fun RegisterMsg_getPort :: "Msg \<Rightarrow> u64 option" where
  "RegisterMsg_getPort (RegisterMsg h i) = Some (NodeInfo_getPort i)"
| "RegisterMsg_getPort _ = None"

text \<open>Replies are compared by key and value, not by who sent them to whom.\<close>

fun ReplyDataMsg_equals :: "Msg \<Rightarrow> Msg \<Rightarrow> bool" where
  "ReplyDataMsg_equals (ReplyDataMsg h k v) (ReplyDataMsg h' k' v') \<longleftrightarrow> Value_equals v v' \<and> Key_equals k k'"
| "ReplyDataMsg_equals _ _ \<longleftrightarrow> False"

lemma ReplyDataMsg_equals_parts:
  assumes "Key_ok k" and "Key_ok k'" and "Value_ok v" and "Value_ok v'"
  shows "ReplyDataMsg_equals (ReplyDataMsg h k v) (ReplyDataMsg h' k' v') \<longleftrightarrow> k = k' \<and> v = v'"
  using Key_key.equals_iff [OF assms(1,2)] Value_equals_ok [OF assms(3,4)] by (auto simp: Key_vt_def)

section \<open>The text of an address\<close>

definition INET_ADDRSTRLEN :: nat where "INET_ADDRSTRLEN = 16"

text \<open>\<open>inet_ntop\<close> fails when the text and its terminator do not fit the array.\<close>

definition NodeInfo_getIPAddr :: "(u32 \<Rightarrow> char list) \<Rightarrow> NodeInfo \<Rightarrow> char cells res" where
  "NodeInfo_getIPAddr ntop x =
     res_bind (res_assert (length (ntop (ni_addr x)) < INET_ADDRSTRLEN)) (\<lambda>_.
     cells_store (new_cells INET_ADDRSTRLEN) 0 (ntop (ni_addr x) @ [NUL]))"

definition RegisterMsg_getClient :: "(u32 \<Rightarrow> char list) \<Rightarrow> NodeInfo \<Rightarrow> String res" where
  "RegisterMsg_getClient ntop info =
     res_bind (NodeInfo_getIPAddr ntop info) (\<lambda>out.
     res_bind (c_strlen out) (\<lambda>n.
     res_bind (cells_load out 0 (n + 1)) (\<lambda>cs. String_make cs n)))"

definition Directory_getAddress :: "(u32 \<Rightarrow> char list) \<Rightarrow> u64 \<Rightarrow> Directory \<Rightarrow> String res" where
  "Directory_getAddress ntop nodeId d =
     res_bind (Map_get SizeT_vt (Some nodeId) d) (\<lambda>addr.
       case addr of None \<Rightarrow> Inl AssertFail | Some i \<Rightarrow> RegisterMsg_getClient ntop i)"

lemma RegisterMsg_getClient_text:
  assumes "NUL \<notin> set (ntop (ni_addr i))" and "length (ntop (ni_addr i)) < INET_ADDRSTRLEN"
  shows "RegisterMsg_getClient ntop i = Inr (String_lit (ntop (ni_addr i)))"
proof -
  let ?t = "ntop (ni_addr i)"
  have s: "cells_store (new_cells INET_ADDRSTRLEN) 0 (?t @ [NUL]) =
      Inr (map Some ?t @ Some NUL # replicate (INET_ADDRSTRLEN - Suc (length ?t)) None)"
    using assms(2) by (simp add: cells_store_def new_cells_def)
  have l: "cells_load (map Some ?t @ Some NUL # r) 0 (length ?t + 1) = Inr (?t @ [NUL])" for r
    using cells_load_holds [of "?t @ [NUL]" "map Some ?t @ Some NUL # r" 0 "length ?t + 1"] by (simp add: holds_def)
  show ?thesis
    using assms s l c_strlen_nul [OF assms(1)]
    by (simp add: RegisterMsg_getClient_def NodeInfo_getIPAddr_def String_make_def String_lit_def)
qed

text \<open>A node that registers under an address in the form \<open>inet_ntop\<close> prints is found under that text.\<close>

lemma registered_client_text:
  assumes "pton cs = Some a" and "ntop a = cs" and "NUL \<notin> set cs" and "length cs < INET_ADDRSTRLEN"
  shows "\<exists>info. RegisterMsg_of_String pton (String_lit cs) port sender target = Inr (RegisterMsg (Message_new Register sender target) info) \<and>
    RegisterMsg_getClient ntop info = Inr (String_lit cs)"
  using assms RegisterMsg_getClient_text [of ntop "\<lparr>ni_family = AF_INET, ni_addr = a, ni_port = htons (ucast port)\<rparr>"]
  by (simp add: RegisterMsg_of_String_def NodeInfo_new_def)

end
