(* ===== verification/Spec2Isabelle.thy ===== *)
theory Spec2Isabelle
  imports Entry SorerProps SockFrames Race BlockCache MonitorQueue MonitorCache Objects Sockets FrameEquals
    MsgParts
begin

text \<open>
  A model of the distributed data-frame system in \<open>src/src/\<close> (C++), with the theorems that make it
  correct.

  \<^bold>\<open>The program.\<close> A cluster of \<open>numNodes\<close> nodes runs one \<open>Application\<close>. Every node has a \<open>KVStore\<close>: the
  values whose keys are homed on the node, and a cache of messages for keys it waits for or is
  asked for. A receiver thread handles the messages of the other nodes, which travel over a
  network, either message queues shared by threads (\<open>network/pseudo\<close>) or TCP sockets
  (\<open>network/network.h\<close>). A data frame is a schema and columns; a column is a list of keys, and
  \<open>blockSize\<close> elements are one value in the store under each key, the blocks dealt out to the nodes
  in turn. Applications build frames from arrays, from a \<open>Writer\<close> or from a file, publish them under
  a key, fetch them on other nodes (\<open>waitAndGet\<close> blocks until they are there), and read them with
  \<open>map\<close>, or \<open>local_map\<close> for the rows at home.

  \<^bold>\<open>How a call is modelled.\<close> A function of the program is a HOL function that takes and returns the
  state it reads and writes, and returns a value of \<open>'a res\<close>: \<open>Inr\<close> of its result, or \<open>Inl\<close> of the
  way the process ends (\<open>Prelude\<close>): an \<open>exit\<close>, a failed assertion, a null or dangling pointer, an
  access out of bounds or to memory never written, a loop or a wait without end. So "the call
  returns" is something the theorems state and prove. Classes are records, tagged unions datatypes,
  raw memory a list of cells. \<open>size_t\<close> values that are hashed, compared at their width or sent are
  \<open>64 word\<close>, sizes and indices in memory \<open>nat\<close>, an \<open>int\<close> \<open>32 word\<close>, a \<open>double\<close> its 64 bits. Loops are
  structural recursion, counted loops (\<open>res_fold\<close>), functions with a measure, or
  \<open>partial_function (option)\<close> where the code may loop for ever (the growing serializer, \<open>visit\<close> of a
  frame, the scanners of files, \<open>run_loop\<close>), with \<open>None\<close> for a loop that does not end. No fuel is
  used. What the program prints as it runs and the freeing of memory are left out.

  \<^bold>\<open>The parts and their theories\<close>, from the bottom up:

  \<^item> \<open>Prelude\<close>: results, memory, little-endian images, counted loops and their invariants
    (\<open>res_fold_upt\<close>).
  \<^item> \<open>Serial\<close> (\<open>serial/serial.h\<close>): the serializer; the judgements \<open>writes\<close> and \<open>reads\<close> and the locale
    \<open>codec\<close>, a pair of them that round-trips. Every class that is serialised interprets it.
  \<^item> \<open>Objects\<close> (\<open>utils/object.h\<close>, \<open>utils/helper.h\<close>, \<open>network/clientdata.h\<close>): the base class, its printing
    helpers, the record of a client. \<open>Strings\<close> (\<open>utils/string.h\<close>), \<open>HashMap\<close> (\<open>utils/map.h\<close>, locale
    \<open>hash_key\<close>: what a class of keys owes the map), \<open>Containers\<close> (\<open>utils/array.h\<close>, \<open>utils/queue.h\<close>, locales \<open>sequence\<close> and \<open>fifo\<close>),
    \<open>Args\<close> (\<open>utils/args.h\<close>).
  \<^item> \<open>Store\<close> (\<open>store/key.h\<close>, \<open>value.h\<close>, \<open>keybuff.h\<close>), \<open>Directory\<close> and \<open>Messages\<close> (\<open>network/\<close>: addresses,
    the directory of nodes, the eight message classes; the rest of their interface is in \<open>MsgParts\<close>), \<open>Pseudo\<close> and \<open>Network\<close> (the two networks;
    locale \<open>inetwork\<close>: messages arrive in order), \<open>Sockets\<close> (the system calls of the second and their
    failures), \<open>KVStore\<close> (\<open>store/kvstore.h\<close> and the handlers of
    \<open>application/thread/receiverthread.h\<close>).
  \<^item> The whole cluster: \<open>Cluster\<close> is the step function \<open>perform\<close> on what one thread does in one go, and
    an abstract system \<open>Spec\<close> of queues, stores and caches as functions; \<open>ClusterInv\<close> proves the
    invariant of \<open>Spec\<close>. \<open>ClusterNet\<close> is the contract of a network: the locale \<open>node_net\<close> says what sending,
    receiving and the handlers of one node do to the queues of all, \<open>cluster_net\<close> that a program of nodes
    on such a network refines \<open>Spec\<close> and does not crash. \<open>ClusterRef\<close> interprets both for the message
    queues, \<open>SockCluster\<close> for processes with sockets. \<open>Runs\<close> shows what any interleaving guarantees
    (safety, progress of a waiting call, clean shutdown), \<open>SockBoot\<close> how the processes come up and that they
    then run like the threads on message queues. \<open>Race\<close> looks inside the handlers, which the program does
    not run atomically.
  \<^item> Locks: \<open>Monitor\<close> (\<open>utils/thread.h\<close>) runs the methods of an object under a \<open>Lock\<close> instruction by
    instruction, in any number of threads; the locale \<open>monitor\<close> shows that the calls of such an object take
    effect one after the other and that nobody sleeps for nothing. \<open>MonitorQueue\<close> interprets it for
    \<open>MessageQueue\<close>, \<open>MonitorCache\<close> for the cache of a \<open>KVStore\<close>; this is why the other theories may take
    their methods as single steps.
  \<^item> \<open>Client\<close>: the locale \<open>kv_client\<close>, a store with a put and a blocking read. It is interpreted by the
    store of one node and by the cluster, where a remote call is an exchange of messages run to its
    end. All theories of the data layer are proved in it once, for both, and \<open>SockFrames\<close> interprets it for
    the processes on sockets.
  \<^item> \<open>Blocks\<close>, \<open>BlockClasses\<close>, \<open>BlockCache\<close>, \<open>Column\<close>, \<open>ColumnLaws\<close>, \<open>ColumnProps\<close> (\<open>dataframe/block/\<close>,
    \<open>dataframe/column/\<close>): blocks of elements, the cache of blocks, columns. The locale \<open>column_store\<close>
    joins \<open>kv_client\<close> and \<open>codec\<close>; the four element types are its interpretations.
  \<^item> \<open>Schema\<close>, \<open>Rows\<close>, \<open>DataFrame\<close> (\<open>dataframe/schema.h\<close>, \<open>row/\<close>, \<open>dataframe.h\<close>, \<open>datatodf.h\<close>,
    \<open>store/getImpls.h\<close>), and what frames promise: \<open>FrameLaws\<close> (\<open>frame_repr\<close>: a frame and the store
    stand for columns of values), \<open>FrameWrite\<close> (locale \<open>row_writer\<close>), \<open>FrameMap\<close> (locale \<open>row_reader\<close>),
    \<open>FrameArray\<close>, \<open>FrameTravel\<close> (a frame as bytes), \<open>FrameStore\<close>, \<open>FrameProps\<close>, \<open>FrameEquals\<close> (the
    comparisons).
  \<^item> Files: \<open>Sorer\<close> (\<open>sorer/\<close>: the scanners of \<open>.sor\<close> files, type inference, the columnar form, the
    writer, \<open>fromFile\<close>), \<open>SorerLaws\<close> (the scanners on the text of a field), \<open>SorerFile\<close> (lines and
    inferred types), \<open>SorerColumns\<close>, \<open>SorerProps\<close>. \<open>WordRead\<close> (\<open>filereader/filereader.h\<close>: the buffered
    reader of words).
  \<^item> Applications: \<open>TagSets\<close> (\<open>linus/\<close>), \<open>Demos\<close> (\<open>application/demo.h\<close>, \<open>demolocalmap.h\<close>),
    \<open>ClusterFrames\<close> (several frames in one store), \<open>Linus\<close>, \<open>LinusRound\<close>, \<open>LinusInput\<close>
    (\<open>application/linus.h\<close>), \<open>WordMap\<close> (\<open>utils/num.h\<close>, \<open>SIMap\<close>, \<open>filereader/adder.h\<close>, \<open>summer.h\<close>),
    \<open>WordCount\<close> (\<open>application/wordcount.h\<close>), \<open>Trivial\<close> (\<open>application/trivial.h\<close>).
  \<^item> \<open>Entry\<close> (\<open>entry.cpp\<close>): the command line, the choice of the application, and the nodes that are
    started, from which the runs above begin.

  \<^bold>\<open>What is shown.\<close> For each class: a representation relation or invariant (\<open>_repr\<close>, \<open>_inv\<close>, \<open>_wf\<close>) and
  what every operation makes of the abstract value, errors included; on top of these the properties,
  marked C1, C2 and so on where they are stated. The widest: a run of the cluster never crashes under
  any interleaving of its threads, a waiting read returns, and it returns what was put
  (\<open>Runs\<close>); a message queue shared by threads is first in, first out and loses no wake-up
  (\<open>MonitorQueue\<close>); the program on sockets, whatever the pieces TCP delivers, returns what it returns on
  message queues (\<open>SockBoot\<close>); a frame written by rows on one node is read with the same rows on any
  other (\<open>FrameProps\<close>; over sockets, from the start of the processes on, \<open>SockFrames\<close>); \<open>local_map\<close> visits exactly the rows at home (\<open>FrameMap\<close>); a file becomes the frame its
  lines describe (\<open>SorerProps\<close>); Linus computes what the commits reach in four rounds, on a cluster of
  any size (\<open>LinusInput\<close>); the word count finds the words of the file and the number of different
  ones (\<open>WordCount\<close>). Where the program does not do what it means to, the theorem states what it
  does: lost wake-ups between overlapping handlers, a client stopped by a message that overtakes its
  directory, a lock that is kept, appending behind a partial block, a frame of two array columns, an empty line or a missing zero byte in a file, a last word
  without a space, counts that are lost in a merge.

  \<^bold>\<open>Bounds.\<close> Sizes are assumed to fit the machine where the code relies on it: fewer than \<open>2 ^ 64\<close> nodes
  and rows, values of less than \<open>2 ^ 64\<close> bytes (\<open>rows_fit\<close>, \<open>frame_fits\<close>, \<open>sizes_ok\<close>), files below
  \<open>2 ^ 31\<close> bytes since the parser keeps indices as \<open>int\<close> (\<open>file_ok\<close>); words of at most half the
  buffer of the reader and gaps shorter than it (\<open>text_file\<close>).

  \<^bold>\<open>Parameters.\<close> What is not in \<open>src/\<close> is an argument of the definitions: the files, the page size of
  \<open>mmap\<close>, \<open>inet_pton\<close>, \<open>inet_ntop\<close>, the value of \<open>strtold\<close>, the arithmetic and comparison of \<open>double\<close>, how a
  stream prints one, the pieces in which TCP delivers a message, the failures of \<open>read\<close> and of the other
  system calls. Only \<open>Demos\<close> and \<open>Trivial\<close> assume anything of them: that a sum is equal to itself, and that integers up to \<open>2 ^ 53\<close> are added and subtracted exactly.

  \<^bold>\<open>Not modelled.\<close> The kernel's side of sockets and threads (the model has their effect: messages, and
  actions that interleave; no bound on the connections that wait); data races within one
  handler other than those of \<open>Race\<close>, and those on \<open>kvMap_\<close>, which has no lock; destructors; what the
  program prints while it runs; \<open>sleep\<close>, \<open>yield\<close> and \<open>thread_id\<close>; methods that nothing calls and that only compare or hash pointers (\<open>Map::hash\<close>, \<open>hash_me\<close>
  of columns and frames, \<open>parse_uint\<close>); the unit tests.
\<close>

end
